(* ===== verification/Prelude.thy ===== *)
theory Prelude
  imports Main "HOL-Library.Word"
begin

text \<open>
  Prelude of the development: the named collections the component theories add to, and the
  generic facts on lists, options and words that several components share.  Nothing in this
  theory is about a particular source file; every later theory imports it.
\<close>

unbundle bit_operations_syntax

section \<open>Collections\<close>

named_theorems inorder_simps \<open>in-order contents of the trees of the object library\<close>
named_theorems height_facts \<open>heights and balance factors\<close>

section \<open>Machine types of the sources\<close>

text \<open>\<open>Word_t\<close> of the Judy library on an LP64 machine, \<open>unsigned\<close> of the storage library.\<close>

type_synonym word_t = "64 word"
type_synonym uint8 = "8 word"
type_synonym uint32 = "32 word"

section \<open>Options as partial results\<close>

lemma bind_SomeE:
  assumes "Option.bind x f = Some y"
  obtains z where "x = Some z" and "f z = Some y"
  using assms by (cases x) auto

section \<open>Outcomes of a call\<close>

text \<open>A call returns, or ends the program through the error handler, or runs into memory that is no value or a
  failed assertion.\<close>

datatype 'a outcome = Returns 'a | Exits | Wild

fun outcome_bind :: "'a outcome \<Rightarrow> ('a \<Rightarrow> 'b outcome) \<Rightarrow> 'b outcome" where
  "outcome_bind (Returns x) f = f x"
| "outcome_bind Exits f = Exits"
| "outcome_bind Wild f = Wild"

lemma outcome_bind_cong [fundef_cong]:
  "x = y \<Longrightarrow> (\<And>z. y = Returns z \<Longrightarrow> f z = g z) \<Longrightarrow> outcome_bind x f = outcome_bind y g"
  by (cases y) auto

lemma outcome_bind_Returns: "outcome_bind x f = Returns z \<longleftrightarrow> (\<exists>y. x = Returns y \<and> f y = Returns z)"
  by (cases x) auto

lemma outcome_bind_assoc: "outcome_bind (outcome_bind x f) g = outcome_bind x (\<lambda>y. outcome_bind (f y) g)"
  by (cases x) auto

section \<open>Lists\<close>

lemma list_split_nth:
  assumes "i < length xs"
  shows "xs = take i xs @ xs ! i # drop (Suc i) xs"
  using assms by (simp add: id_take_nth_drop)

lemma filter_const_True: "(\<forall>x \<in> set xs. P x) \<Longrightarrow> filter P xs = xs"
  by (induction xs) auto

lemma filter_const_False: "(\<forall>x \<in> set xs. \<not> P x) \<Longrightarrow> filter P xs = []"
  by (induction xs) auto

end
