(* ===== verification/AvlTree.thy ===== *)
theory AvlTree
  imports Prelude
begin

text \<open>
  The AVL tree of the object library: \<open>src/avltree.h\<close> and \<open>src/avltree.cxx\<close>.  A node is
  \<open>Node left key balance right\<close>, the null pointer \<open>Null\<close>; the reference parameter \<open>p\<close> of the
  C++ methods is the returned tree.  A key is a list element (\<open>l2elem\<close>) of a doubly linked ring
  whose header is the tree object; the ring is a store of \<open>next\<close>/\<open>prev\<close> pointers.  A method
  that would follow a null pointer returns \<open>None\<close>.  The virtual method \<open>compare\<close> is a
  parameter, its contract is \<open>compare_ok\<close>.
\<close>

section \<open>The ring of list elements\<close>

record 'k l2elem =
  l2_next :: "'k \<Rightarrow> 'k"
  l2_prev :: "'k \<Rightarrow> 'k"

definition link_after :: "'k l2elem \<Rightarrow> 'k \<Rightarrow> 'k \<Rightarrow> 'k l2elem" where
  "link_after h this after =
     (let n = l2_next h after;
          h1 = h\<lparr>l2_next := (l2_next h)(this := n)\<rparr>;
          h2 = h1\<lparr>l2_prev := (l2_prev h1)(n := this)\<rparr>;
          h3 = h2\<lparr>l2_prev := (l2_prev h2)(this := after)\<rparr>
      in h3\<lparr>l2_next := (l2_next h3)(after := this)\<rparr>)"

definition link_before :: "'k l2elem \<Rightarrow> 'k \<Rightarrow> 'k \<Rightarrow> 'k l2elem" where
  "link_before h this before =
     (let p = l2_prev h before;
          h1 = h\<lparr>l2_prev := (l2_prev h)(this := p)\<rparr>;
          h2 = h1\<lparr>l2_next := (l2_next h1)(p := this)\<rparr>;
          h3 = h2\<lparr>l2_next := (l2_next h2)(this := before)\<rparr>
      in h3\<lparr>l2_prev := (l2_prev h3)(before := this)\<rparr>)"

definition l2_unlink :: "'k l2elem \<Rightarrow> 'k \<Rightarrow> 'k l2elem" where
  "l2_unlink h this =
     (let h1 = h\<lparr>l2_next := (l2_next h)(l2_prev h this := l2_next h this)\<rparr>
      in h1\<lparr>l2_prev := (l2_prev h1)(l2_next h1 this := l2_prev h1 this)\<rparr>)"

definition l2_prune :: "'k l2elem \<Rightarrow> 'k \<Rightarrow> 'k l2elem" where
  "l2_prune h this = h\<lparr>l2_next := (l2_next h)(this := this), l2_prev := (l2_prev h)(this := this)\<rparr>"

definition l2_empty :: "'k l2elem \<Rightarrow> 'k \<Rightarrow> bool" where
  "l2_empty h this = (l2_next h this = this)"

text \<open>\<open>links h a xs b\<close>: from \<open>a\<close> the ring runs through \<open>xs\<close> to \<open>b\<close>, in both directions.\<close>

fun links :: "'k l2elem \<Rightarrow> 'k \<Rightarrow> 'k list \<Rightarrow> 'k \<Rightarrow> bool" where
  "links h a [] b = (l2_next h a = b \<and> l2_prev h b = a)"
| "links h a (x # xs) b = (l2_next h a = x \<and> l2_prev h x = a \<and> links h x xs b)"

definition ring :: "'k l2elem \<Rightarrow> 'k \<Rightarrow> 'k list \<Rightarrow> bool" where
  "ring h hdr xs = (links h hdr xs hdr \<and> distinct (hdr # xs))"

section \<open>The tree\<close>

datatype 'k avl = Null | Node (left: "'k avl") (key: 'k) (balance: int) (right: "'k avl")

text \<open>Growth of the left branch: the code after the recursive call in \<open>insert\<close>.\<close>

fun insert_grown_left :: "'k avl \<Rightarrow> 'k \<Rightarrow> int \<Rightarrow> 'k avl \<Rightarrow> ('k avl \<times> bool) option" where
  "insert_grown_left l k b r =
     (if b > 0 then Some (Node l k 0 r, False)
      else if b = 0 then Some (Node l k (-1) r, True)
      else (case l of
          Null \<Rightarrow> None
        | Node ll lk lb lr \<Rightarrow>
            if lb < 0 then Some (Node ll lk 0 (Node lr k 0 r), False)
            else (case lr of
                Null \<Rightarrow> None
              | Node rl rk rb rr \<Rightarrow>
                  Some (Node (Node ll lk (if rb > 0 then -1 else 0) rl) rk 0
                             (Node rr k (if rb < 0 then 1 else 0) r), False))))"

fun insert_grown_right :: "'k avl \<Rightarrow> 'k \<Rightarrow> int \<Rightarrow> 'k avl \<Rightarrow> ('k avl \<times> bool) option" where
  "insert_grown_right l k b r =
     (if b < 0 then Some (Node l k 0 r, False)
      else if b = 0 then Some (Node l k 1 r, True)
      else (case r of
          Null \<Rightarrow> None
        | Node rl rk rb rr \<Rightarrow>
            if rb > 0 then Some (Node (Node l k 0 rl) rk 0 rr, False)
            else (case rl of
                Null \<Rightarrow> None
              | Node ll lk lb lr \<Rightarrow>
                  Some (Node (Node l k (if lb > 0 then -1 else 0) ll) lk 0
                             (Node lr rk (if lb < 0 then 1 else 0) rr), False))))"

text \<open>\<open>avl_tree_node::insert\<close>: the new tree, the ring, the key left in \<open>ins_key\<close>, the growth.\<close>

fun node_insert :: "('k \<Rightarrow> 'k \<Rightarrow> int) \<Rightarrow> 'k l2elem \<Rightarrow> 'k avl \<Rightarrow> 'k
    \<Rightarrow> ('k l2elem \<times> 'k avl \<times> 'k \<times> bool) option" where
  "node_insert cmp h Null ins_key = None"
| "node_insert cmp h (Node l k b r) ins_key =
     (let diff = cmp ins_key k in
      if diff < 0 then
        (case (if l = Null
               then Some (link_before h ins_key k, Node Null ins_key 0 Null, ins_key, True)
               else node_insert cmp h l ins_key) of
           None \<Rightarrow> None
         | Some (h', l', k', grown) \<Rightarrow>
             if \<not> grown then Some (h', Node l' k b r, k', False)
             else map_option (\<lambda>(t, g). (h', t, k', g)) (insert_grown_left l' k b r))
      else if diff > 0 then
        (case (if r = Null
               then Some (link_after h ins_key k, Node Null ins_key 0 Null, ins_key, True)
               else node_insert cmp h r ins_key) of
           None \<Rightarrow> None
         | Some (h', r', k', grown) \<Rightarrow>
             if \<not> grown then Some (h', Node l k b r', k', False)
             else map_option (\<lambda>(t, g). (h', t, k', g)) (insert_grown_right l k b r'))
      else Some (h, Node l k b r, k, False))"

fun balance_left_branch :: "'k avl \<Rightarrow> 'k \<Rightarrow> int \<Rightarrow> 'k avl \<Rightarrow> ('k avl \<times> int) option" where
  "balance_left_branch l k b r =
     (if b < 0 then Some (Node l k 0 r, 1)
      else if b = 0 then Some (Node l k 1 r, 0)
      else (case r of
          Null \<Rightarrow> None
        | Node rl rk rb rr \<Rightarrow>
            if rb \<ge> 0 then
              (if rb = 0 then Some (Node (Node l k 1 rl) rk (-1) rr, 0)
               else Some (Node (Node l k 0 rl) rk 0 rr, 1))
            else (case rl of
                Null \<Rightarrow> None
              | Node ll lk lb lr \<Rightarrow>
                  Some (Node (Node l k (if lb > 0 then -1 else 0) ll) lk 0
                             (Node lr rk (if lb < 0 then 1 else 0) rr), 1))))"

fun balance_right_branch :: "'k avl \<Rightarrow> 'k \<Rightarrow> int \<Rightarrow> 'k avl \<Rightarrow> ('k avl \<times> int) option" where
  "balance_right_branch l k b r =
     (if b > 0 then Some (Node l k 0 r, 1)
      else if b = 0 then Some (Node l k (-1) r, 0)
      else (case l of
          Null \<Rightarrow> None
        | Node ll lk lb lr \<Rightarrow>
            if lb \<le> 0 then
              (if lb = 0 then Some (Node ll lk 1 (Node lr k (-1) r), 0)
               else Some (Node ll lk 0 (Node lr k 0 r), 1))
            else (case lr of
                Null \<Rightarrow> None
              | Node rl rk rb rr \<Rightarrow>
                  Some (Node (Node ll lk (if rb > 0 then -1 else 0) rl) rk 0
                             (Node rr k (if rb < 0 then 1 else 0) r), 1))))"

text \<open>\<open>remove (p, q)\<close>: unhook the rightmost node, whose key is the second component.\<close>

fun remove_rightmost :: "'k avl \<Rightarrow> ('k avl \<times> 'k \<times> int) option" where
  "remove_rightmost Null = None"
| "remove_rightmost (Node l k b r) =
     (if r \<noteq> Null then
        (case remove_rightmost r of
           None \<Rightarrow> None
         | Some (r', q, h) \<Rightarrow>
             if h \<noteq> 0 then map_option (\<lambda>(t, h'). (t, q, h')) (balance_right_branch l k b r')
             else Some (Node l k b r', q, 0))
      else Some (l, k, 1))"

text \<open>\<open>remove (p, del_key)\<close>: \<open>1\<close> the branch got lower, \<open>0\<close> it did not, \<open>-1\<close> key not found.\<close>

fun node_remove :: "('k \<Rightarrow> 'k \<Rightarrow> int) \<Rightarrow> 'k l2elem \<Rightarrow> 'k avl \<Rightarrow> 'k
    \<Rightarrow> ('k l2elem \<times> 'k avl \<times> int) option" where
  "node_remove cmp s Null del_key = None"
| "node_remove cmp s (Node l k b r) del_key =
     (let diff = cmp del_key k in
      if diff < 0 then
        (if l = Null then Some (s, Node l k b r, -1)
         else (case node_remove cmp s l del_key of
             None \<Rightarrow> None
           | Some (s', l', h) \<Rightarrow>
               if h > 0 then map_option (\<lambda>(t, h'). (s', t, h')) (balance_left_branch l' k b r)
               else Some (s', Node l' k b r, h)))
      else if diff > 0 then
        (if r = Null then Some (s, Node l k b r, -1)
         else (case node_remove cmp s r del_key of
             None \<Rightarrow> None
           | Some (s', r', h) \<Rightarrow>
               if h > 0 then map_option (\<lambda>(t, h'). (s', t, h')) (balance_right_branch l k b r')
               else Some (s', Node l k b r', h)))
      else if k \<noteq> del_key then Some (s, Node l k b r, -1)
      else if r = Null then Some (l2_unlink s del_key, l, 1)
      else if l = Null then Some (l2_unlink s del_key, r, 1)
      else (case remove_rightmost l of
          None \<Rightarrow> None
        | Some (l', q, h) \<Rightarrow>
            if h \<noteq> 0 then
              map_option (\<lambda>(t, h'). (l2_unlink s del_key, t, if h' \<noteq> 0 then 1 else 0))
                         (balance_left_branch l' q b r)
            else Some (l2_unlink s del_key, Node l' q b r, 0)))"

record 'k avl_tree =
  avl_hdr :: 'k
  avl_root :: "'k avl"
  avl_store :: "'k l2elem"

definition avl_tree_new :: "'k l2elem \<Rightarrow> 'k \<Rightarrow> 'k avl_tree" where
  "avl_tree_new s hdr = \<lparr>avl_hdr = hdr, avl_root = Null, avl_store = l2_prune s hdr\<rparr>"

definition avl_tree_insert :: "('k \<Rightarrow> 'k \<Rightarrow> int) \<Rightarrow> 'k avl_tree \<Rightarrow> 'k \<Rightarrow> ('k avl_tree \<times> 'k) option" where
  "avl_tree_insert cmp t k =
     (if avl_root t = Null
      then Some (t\<lparr>avl_root := Node Null k 0 Null, avl_store := link_after (avl_store t) k (avl_hdr t)\<rparr>, k)
      else (case node_insert cmp (avl_store t) (avl_root t) k of
          None \<Rightarrow> None
        | Some (s, r, k', _) \<Rightarrow> Some (t\<lparr>avl_root := r, avl_store := s\<rparr>, k')))"

fun node_search :: "('k \<Rightarrow> 'k \<Rightarrow> int) \<Rightarrow> 'k avl \<Rightarrow> 'k \<Rightarrow> 'k option" where
  "node_search cmp Null k = None"
| "node_search cmp (Node l x b r) k =
     (let diff = cmp k x in
      if diff < 0 then node_search cmp l k
      else if diff > 0 then node_search cmp r k
      else Some x)"

definition avl_tree_search :: "('k \<Rightarrow> 'k \<Rightarrow> int) \<Rightarrow> 'k avl_tree \<Rightarrow> 'k \<Rightarrow> 'k option" where
  "avl_tree_search cmp t k = node_search cmp (avl_root t) k"

definition avl_tree_remove :: "('k \<Rightarrow> 'k \<Rightarrow> int) \<Rightarrow> 'k avl_tree \<Rightarrow> 'k \<Rightarrow> ('k avl_tree \<times> bool) option" where
  "avl_tree_remove cmp t k =
     (if avl_root t = Null then Some (t, False)
      else (case node_remove cmp (avl_store t) (avl_root t) k of
          None \<Rightarrow> None
        | Some (s, r, h) \<Rightarrow> Some (t\<lparr>avl_root := r, avl_store := s\<rparr>, h \<ge> 0)))"

section \<open>Facts about the ring\<close>

lemma links_append:
  "links h a (xs @ y # ys) b \<longleftrightarrow> links h a xs y \<and> links h y ys b"
  by (induction xs arbitrary: a) auto

lemma links_cong:
  assumes "\<And>x. x \<in> set (a # xs) \<Longrightarrow> l2_next h' x = l2_next h x"
    and "\<And>x. x \<in> set (xs @ [b]) \<Longrightarrow> l2_prev h' x = l2_prev h x"
  shows "links h' a xs b = links h a xs b"
  using assms by (induction xs arbitrary: a) auto

lemma ring_splitE:
  assumes "ring h hdr (xs @ ys)"
  obtains p where "p = last (hdr # xs)" and "xs = [] \<and> p = hdr \<or> (\<exists>zs. xs = zs @ [p] \<and> links h hdr zs p)"
    and "links h p ys hdr" and "distinct (hdr # xs @ ys)"
proof (cases xs rule: rev_cases)
  case Nil
  with assms that show ?thesis by (auto simp: ring_def)
next
  case (snoc zs p)
  with assms show ?thesis by (intro that [of p]) (auto simp: ring_def links_append)
qed

lemma ring_insert_between:
  assumes r: "ring h hdr (xs @ ys)" and n: "n \<notin> set (hdr # xs @ ys)"
    and h': "\<And>x. l2_next h' x = (if x = n then hd (ys @ [hdr]) else if x = last (hdr # xs) then n else l2_next h x)"
            "\<And>x. l2_prev h' x = (if x = n then last (hdr # xs) else if x = hd (ys @ [hdr]) then n else l2_prev h x)"
  shows "ring h' hdr (xs @ n # ys)"
proof -
  obtain p where p: "p = last (hdr # xs)"
    and xs: "xs = [] \<and> p = hdr \<or> (\<exists>zs. xs = zs @ [p] \<and> links h hdr zs p)"
    and ys: "links h p ys hdr" and d: "distinct (hdr # xs @ ys)"
    using ring_splitE [OF r] .
  have a: "links h' hdr xs n"
    using xs
  proof (elim disjE exE conjE)
    fix zs assume zs: "xs = zs @ [p]" "links h hdr zs p"
    have "links h' hdr zs p = links h hdr zs p"
      by (rule links_cong) (use d n zs h' in \<open>auto simp: neq_Nil_conv split: if_splits\<close>, (cases ys; auto)+)
    with zs d n h' show ?thesis by (auto simp: links_append)
  qed (use d n h' in auto)
  have nl: "last (hdr # xs) \<notin> set ys"
    using d by (cases xs rule: rev_cases) auto
  have b: "links h' n ys hdr"
  proof (cases ys)
    case Nil
    with h' n show ?thesis by auto
  next
    case (Cons y ys')
    have "links h' y ys' hdr = links h y ys' hdr"
      by (rule links_cong) (use d n p Cons h' nl in \<open>auto split: if_splits\<close>)
    with Cons ys h' n d p show ?thesis by auto
  qed
  from a b d n show ?thesis by (auto simp: ring_def links_append)
qed

lemma ring_nextI:
  assumes "ring h hdr (xs @ ys)"
  shows "l2_next h (last (hdr # xs)) = hd (ys @ [hdr])"
    and "l2_prev h (hd (ys @ [hdr])) = last (hdr # xs)"
  using assms by (cases xs rule: rev_cases; cases ys; auto simp: ring_def links_append)+

lemma ring_link_before:
  assumes "ring h hdr (xs @ k # ys)" and "n \<notin> set (hdr # xs @ k # ys)"
  shows "ring (link_before h n k) hdr (xs @ n # k # ys)"
  using assms ring_nextI [OF assms(1)]
  by (intro ring_insert_between [OF assms]) (auto simp: link_before_def Let_def)

lemma ring_link_after:
  assumes "ring h hdr (xs @ k # ys)" and "n \<notin> set (hdr # xs @ k # ys)"
  shows "ring (link_after h n k) hdr (xs @ k # n # ys)"
proof -
  have r: "ring h hdr ((xs @ [k]) @ ys)" and n: "n \<notin> set (hdr # (xs @ [k]) @ ys)"
    using assms by auto
  have "ring (link_after h n k) hdr ((xs @ [k]) @ n # ys)"
    using n ring_nextI [OF r]
    by (intro ring_insert_between [OF r n]) (auto simp: link_after_def Let_def)
  then show ?thesis by simp
qed

lemma ring_link_after_header:
  assumes "ring h hdr ys" and "n \<notin> set (hdr # ys)"
  shows "ring (link_after h n hdr) hdr (n # ys)"
proof -
  have r: "ring h hdr ([] @ ys)" and n: "n \<notin> set (hdr # [] @ ys)"
    using assms by auto
  have "ring (link_after h n hdr) hdr ([] @ n # ys)"
    using n ring_nextI [OF r]
    by (intro ring_insert_between [OF r n]) (auto simp: link_after_def Let_def)
  then show ?thesis by simp
qed

lemma ring_prune: "ring (l2_prune h hdr) hdr []"
  by (simp add: ring_def l2_prune_def)

lemma ring_unlink:
  assumes r: "ring h hdr (xs @ n # ys)"
  shows "ring (l2_unlink h n) hdr (xs @ ys)"
proof -
  let ?p = "last (hdr # xs)"
  let ?s = "hd (ys @ [hdr])"
  have d: "distinct (hdr # xs @ n # ys)" using r by (simp add: ring_def)
  have p: "l2_prev h n = ?p" using ring_nextI(2) [OF r] by simp
  have s: "l2_next h n = ?s" using ring_nextI(1) [of h hdr "xs @ [n]" ys] r by simp
  have ne: "?p \<noteq> n" "?s \<noteq> n"
    using d last_in_set [of "hdr # xs"] by (auto simp: hd_append split: if_splits dest: hd_in_set)
  have h': "\<And>x. l2_next (l2_unlink h n) x = (if x = ?p then ?s else l2_next h x)"
           "\<And>x. l2_prev (l2_unlink h n) x = (if x = ?s then ?p else l2_prev h x)"
    using p s ne by (auto simp: l2_unlink_def Let_def)
  obtain p where p': "p = ?p"
    and xs: "xs = [] \<and> p = hdr \<or> (\<exists>zs. xs = zs @ [p] \<and> links h hdr zs p)"
    and nys: "links h p (n # ys) hdr"
    using ring_splitE [OF r] .
  have nl: "last (hdr # xs) \<notin> set ys"
    using d by (cases xs rule: rev_cases) auto
  have a: "links (l2_unlink h n) p ys hdr"
  proof (cases ys)
    case Nil
    with h' p' show ?thesis by auto
  next
    case (Cons y ys')
    have "links (l2_unlink h n) y ys' hdr = links h y ys' hdr"
      by (rule links_cong) (use d p' Cons h' nl in \<open>auto split: if_splits\<close>)
    with Cons nys h' p' show ?thesis by auto
  qed
  show ?thesis
    using xs
  proof (elim disjE exE conjE)
    fix zs assume zs: "xs = zs @ [p]" "links h hdr zs p"
    have "links (l2_unlink h n) hdr zs p = links h hdr zs p"
      by (rule links_cong) (use d zs h' in \<open>auto simp: hd_append split: if_splits dest: hd_in_set\<close>)
    with zs a d show ?thesis by (auto simp: ring_def links_append)
  next
    assume "xs = []" "p = hdr"
    with a d show ?thesis by (auto simp: ring_def)
  qed
qed

lemma ring_l2_empty: "ring h hdr xs \<Longrightarrow> l2_empty h hdr \<longleftrightarrow> xs = []"
  by (cases xs) (auto simp: ring_def l2_empty_def)

section \<open>Heights, balance factors and contents\<close>

primrec height :: "'k avl \<Rightarrow> nat" where
  "height Null = 0"
| "height (Node l k b r) = Suc (max (height l) (height r))"

primrec inorder :: "'k avl \<Rightarrow> 'k list" where
  "inorder Null = []"
| "inorder (Node l k b r) = inorder l @ k # inorder r"

primrec avl_inv :: "'k avl \<Rightarrow> bool" where
  "avl_inv Null = True"
| "avl_inv (Node l k b r) =
     (b = int (height r) - int (height l) \<and> -1 \<le> b \<and> b \<le> 1 \<and> avl_inv l \<and> avl_inv r)"

definition grown_ok :: "'k avl \<Rightarrow> bool \<Rightarrow> bool" where
  "grown_ok t g = (g \<longrightarrow> t \<noteq> Null \<and> balance t \<noteq> 0)"

lemma insert_grown_left_ok:
  assumes "avl_inv l" "avl_inv r" "height l = Suc hl" "b = int (height r) - int hl" "-1 \<le> b" "b \<le> 1"
    and "b < 0 \<Longrightarrow> grown_ok l True"
  shows "\<exists>t g. insert_grown_left l k b r = Some (t, g) \<and> avl_inv t \<and> inorder t = inorder l @ k # inorder r
    \<and> height t = Suc (max hl (height r)) + (if g then 1 else 0) \<and> grown_ok t g"
proof (cases l)
  case Null
  with assms show ?thesis by simp
next
  case (Node ll lk lb lr)
  show ?thesis
  proof (cases "b < 0 \<and> lb \<ge> 0")
    case True
    with assms Node obtain rl rk rb rr where "lr = Node rl rk rb rr"
      by (cases lr) (auto simp: grown_ok_def)
    with True Node assms show ?thesis by (auto simp: grown_ok_def max_def split: if_splits)
  next
    case False
    then consider "b = 0" | "0 < b" | "b < 0" "lb < 0" by linarith
    then show ?thesis
      using Node assms by cases (auto simp: grown_ok_def)
  qed
qed

lemma insert_grown_right_ok:
  assumes "avl_inv l" "avl_inv r" "height r = Suc hr" "b = int hr - int (height l)" "-1 \<le> b" "b \<le> 1"
    and "0 < b \<Longrightarrow> grown_ok r True"
  shows "\<exists>t g. insert_grown_right l k b r = Some (t, g) \<and> avl_inv t \<and> inorder t = inorder l @ k # inorder r
    \<and> height t = Suc (max (height l) hr) + (if g then 1 else 0) \<and> grown_ok t g"
proof (cases r)
  case Null
  with assms show ?thesis by simp
next
  case (Node rl rk rb rr)
  show ?thesis
  proof (cases "0 < b \<and> rb \<le> 0")
    case True
    with assms Node obtain ll lk lb lr where "rl = Node ll lk lb lr"
      by (cases rl) (auto simp: grown_ok_def)
    with True Node assms show ?thesis by (auto simp: grown_ok_def max_def split: if_splits)
  next
    case False
    then consider "b = 0" | "b < 0" | "0 < b" "0 < rb" by linarith
    then show ?thesis
      using Node assms by cases (auto simp: grown_ok_def)
  qed
qed

lemma balance_left_branch_ok:
  assumes "avl_inv l" "avl_inv r" "hl = Suc (height l)" "b = int (height r) - int hl" "-1 \<le> b" "b \<le> 1"
  shows "\<exists>t h. balance_left_branch l k b r = Some (t, h) \<and> avl_inv t \<and> inorder t = inorder l @ k # inorder r
    \<and> (h = 0 \<or> h = 1) \<and> int (height t) = int (Suc (max hl (height r))) - h"
proof (cases "b > 0")
  case True
  with assms obtain rl rk rb rr where r: "r = Node rl rk rb rr" by (cases r) auto
  show ?thesis
  proof (cases "rb < 0")
    case True
    with assms r obtain ll lk lb lr where "rl = Node ll lk lb lr" by (cases rl) auto
    with True \<open>b > 0\<close> r assms show ?thesis by (auto simp: max_def split: if_splits)
  next
    case False
    with \<open>b > 0\<close> r assms show ?thesis by (auto simp: max_def split: if_splits)
  qed
next
  case False
  with assms show ?thesis by (auto simp: max_def split: if_splits)
qed

lemma balance_right_branch_ok:
  assumes "avl_inv l" "avl_inv r" "hr = Suc (height r)" "b = int hr - int (height l)" "-1 \<le> b" "b \<le> 1"
  shows "\<exists>t h. balance_right_branch l k b r = Some (t, h) \<and> avl_inv t \<and> inorder t = inorder l @ k # inorder r
    \<and> (h = 0 \<or> h = 1) \<and> int (height t) = int (Suc (max (height l) hr)) - h"
proof (cases "b < 0")
  case True
  with assms obtain ll lk lb lr where l: "l = Node ll lk lb lr" by (cases l) auto
  show ?thesis
  proof (cases "lb > 0")
    case True
    with assms l obtain rl rk rb rr where "lr = Node rl rk rb rr" by (cases lr) auto
    with True \<open>b < 0\<close> l assms show ?thesis by (auto simp: max_def split: if_splits)
  next
    case False
    with \<open>b < 0\<close> l assms show ?thesis by (auto simp: max_def split: if_splits)
  qed
next
  case False
  with assms show ?thesis by (auto simp: max_def split: if_splits)
qed

lemma remove_rightmost_ok:
  assumes "avl_inv t" "t \<noteq> Null"
  shows "\<exists>t' q h. remove_rightmost t = Some (t', q, h) \<and> avl_inv t' \<and> inorder t = inorder t' @ [q]
    \<and> (h = 0 \<or> h = 1) \<and> int (height t') = int (height t) - h"
  using assms
proof (induction t)
  case (Node l k b r)
  show ?case
  proof (cases "r = Null")
    case True
    with Node.prems show ?thesis by auto
  next
    case False
    with Node obtain r' q h where rr: "remove_rightmost r = Some (r', q, h)" "avl_inv r'" "inorder r = inorder r' @ [q]"
      "h = 0 \<or> h = 1" "int (height r') = int (height r) - h" by auto
    show ?thesis
    proof (cases "h = 0")
      case True
      with False rr Node.prems show ?thesis by auto
    next
      case h: False
      with rr Node.prems have "\<exists>t h. balance_right_branch l k b r' = Some (t, h) \<and> avl_inv t
        \<and> inorder t = inorder l @ k # inorder r' \<and> (h = 0 \<or> h = 1)
        \<and> int (height t) = int (Suc (max (height l) (height r))) - h"
        by (intro balance_right_branch_ok) auto
      with False rr h show ?thesis by (auto simp del: balance_right_branch.simps)
    qed
  qed
qed simp

section \<open>Search and insertion\<close>

text \<open>The contract of the virtual method \<open>compare\<close>: the sign of a total preorder on keys.\<close>

definition compare_ok :: "('k \<Rightarrow> 'k \<Rightarrow> int) \<Rightarrow> bool" where
  "compare_ok cmp \<longleftrightarrow> (\<forall>x. cmp x x = 0) \<and> (\<forall>x y. (cmp x y < 0) = (cmp y x > 0)) \<and>
     (\<forall>x y z. cmp x y \<le> 0 \<longrightarrow> cmp y z \<le> 0 \<longrightarrow> cmp x z \<le> 0)"

lemma compare_okD:
  assumes "compare_ok cmp"
  shows "cmp x x = 0" "cmp x y < 0 \<longleftrightarrow> cmp y x > 0" "cmp x y = 0 \<longleftrightarrow> cmp y x = 0"
    and "cmp x y < 0 \<Longrightarrow> cmp y z \<le> 0 \<Longrightarrow> cmp x z < 0"
    and "cmp x y \<le> 0 \<Longrightarrow> cmp y z < 0 \<Longrightarrow> cmp x z < 0"
proof -
  show "cmp x x = 0" and s: "cmp x y < 0 \<longleftrightarrow> cmp y x > 0" for x y
    using assms by (auto simp: compare_ok_def)
  show "cmp x y = 0 \<longleftrightarrow> cmp y x = 0"
    using s [of x y] s [of y x] by linarith
  have t: "cmp x y \<le> 0 \<Longrightarrow> cmp y z \<le> 0 \<Longrightarrow> cmp x z \<le> 0" for x y z
    using assms unfolding compare_ok_def by blast
  show "cmp x z < 0" if "cmp x y < 0" "cmp y z \<le> 0"
  proof (rule ccontr)
    assume "\<not> cmp x z < 0"
    then have "cmp z x \<le> 0" using s [of x z] s [of z x] by linarith
    with t [OF that(2) this] that(1) s [of x y] show False by linarith
  qed
  show "cmp x z < 0" if "cmp x y \<le> 0" "cmp y z < 0"
  proof (rule ccontr)
    assume "\<not> cmp x z < 0"
    then have "cmp z x \<le> 0" using s [of x z] s [of z x] by linarith
    with t [OF this that(1)] that(2) s [of y z] show False by linarith
  qed
qed

definition key_sorted :: "('k \<Rightarrow> 'k \<Rightarrow> int) \<Rightarrow> 'k list \<Rightarrow> bool" where
  "key_sorted cmp = sorted_wrt (\<lambda>x y. cmp x y < 0)"

text \<open>The specification of the three operations on the sorted sequence of keys.\<close>

fun ins_list :: "('k \<Rightarrow> 'k \<Rightarrow> int) \<Rightarrow> 'k \<Rightarrow> 'k list \<Rightarrow> 'k list" where
  "ins_list cmp k [] = [k]"
| "ins_list cmp k (x # xs) =
     (if cmp k x < 0 then k # x # xs
      else if cmp k x > 0 then x # ins_list cmp k xs else x # xs)"

definition find_key :: "('k \<Rightarrow> 'k \<Rightarrow> int) \<Rightarrow> 'k \<Rightarrow> 'k list \<Rightarrow> 'k option" where
  "find_key cmp k xs = find (\<lambda>x. cmp k x = 0) xs"

lemma key_sorted_append:
  "key_sorted cmp (xs @ y # zs) \<longleftrightarrow> key_sorted cmp xs \<and> key_sorted cmp zs \<and>
     (\<forall>x\<in>set xs. cmp x y < 0) \<and> (\<forall>z\<in>set zs. cmp y z < 0) \<and> (\<forall>x\<in>set xs. \<forall>z\<in>set zs. cmp x z < 0)"
  by (auto simp: key_sorted_def sorted_wrt_append)

lemma key_sorted_simps [simp]: "key_sorted cmp []" "key_sorted cmp [x]"
  by (auto simp: key_sorted_def)

lemma ins_list_less: "cmp k y < 0 \<Longrightarrow> ins_list cmp k (xs @ y # zs) = ins_list cmp k xs @ y # zs"
  by (induction xs) auto

lemma ins_list_greater:
  assumes "\<forall>x\<in>set xs. cmp k x > 0" "cmp k y > 0"
  shows "ins_list cmp k (xs @ y # zs) = xs @ y # ins_list cmp k zs"
  using assms by (induction xs) auto

lemma ins_list_equal:
  assumes "\<forall>x\<in>set xs. cmp k x > 0" "cmp k y = 0"
  shows "ins_list cmp k (xs @ y # zs) = xs @ y # zs"
  using assms by (induction xs) auto

lemma set_ins_list:
  "set (ins_list cmp k xs) \<subseteq> insert k (set xs)" "set xs \<subseteq> set (ins_list cmp k xs)"
  by (induction xs) auto

lemma key_sorted_ins_list:
  assumes "compare_ok cmp" "key_sorted cmp xs"
  shows "key_sorted cmp (ins_list cmp k xs)"
  using assms(2)
proof (induction xs)
  case (Cons x xs)
  then show ?case
    using set_ins_list(1) [of cmp k xs] compare_okD(2,4) [OF assms(1)]
    by (auto simp: key_sorted_def) (meson in_mono insertE order_less_imp_le)+
qed simp

lemma find_key_append:
  "find_key cmp k (xs @ ys) = (case find_key cmp k xs of None \<Rightarrow> find_key cmp k ys | Some x \<Rightarrow> Some x)"
  by (induction xs) (auto simp: find_key_def)

lemma find_key_None: "\<forall>x\<in>set xs. cmp k x \<noteq> 0 \<Longrightarrow> find_key cmp k xs = None"
  by (auto simp: find_key_def find_None_iff)

lemma find_key_Cons: "find_key cmp k (x # xs) = (if cmp k x = 0 then Some x else find_key cmp k xs)"
  by (simp add: find_key_def)

text \<open>Where a key falls relative to the root decides the branch.\<close>

lemma find_key_less:
  assumes "compare_ok cmp" "key_sorted cmp (xs @ y # zs)" "cmp k y < 0"
  shows "find_key cmp k (xs @ y # zs) = find_key cmp k xs"
proof -
  have "cmp k z \<noteq> 0" if "z \<in> set zs" for z
    using assms that compare_okD(4) [OF assms(1,3), of z] by (auto simp: key_sorted_append)
  with assms(3) show ?thesis by (simp add: find_key_append find_key_None find_key_Cons split: option.split)
qed

lemma all_greater:
  assumes "compare_ok cmp" "key_sorted cmp (xs @ y # zs)" "cmp k y \<ge> 0"
  shows "\<forall>x\<in>set xs. cmp k x > 0"
proof
  fix x assume "x \<in> set xs"
  with assms(2) have "cmp x y < 0" by (simp add: key_sorted_append)
  moreover have "cmp y k \<le> 0" using assms(1,3) compare_okD(2) [OF assms(1), of k y]
    compare_okD(2) [OF assms(1), of y k] by linarith
  ultimately have "cmp x k < 0" using compare_okD(4) [OF assms(1)] by blast
  then show "cmp k x > 0" using compare_okD(2) [OF assms(1)] by blast
qed

lemma find_key_greater:
  assumes "compare_ok cmp" "key_sorted cmp (xs @ y # zs)" "cmp k y > 0"
  shows "find_key cmp k (xs @ y # zs) = find_key cmp k zs"
proof -
  have "find_key cmp k xs = None"
    by (rule find_key_None) (use all_greater [OF assms(1,2), of k] assms(3) in auto)
  with assms(3) show ?thesis by (simp add: find_key_append find_key_Cons)
qed

lemma find_key_equal:
  assumes "compare_ok cmp" "key_sorted cmp (xs @ y # zs)" "cmp k y = 0"
  shows "find_key cmp k (xs @ y # zs) = Some y"
proof -
  have "find_key cmp k xs = None"
    by (rule find_key_None) (use all_greater [OF assms(1,2), of k] assms(3) in auto)
  with assms(3) show ?thesis by (simp add: find_key_append find_key_Cons)
qed

lemma node_search_ok:
  assumes "compare_ok cmp" "key_sorted cmp (inorder t)"
  shows "node_search cmp t k = find_key cmp k (inorder t)"
  using assms(2)
proof (induction t)
  case (Node l x b r)
  then have "key_sorted cmp (inorder l)" "key_sorted cmp (inorder r)" by (auto simp: key_sorted_append)
  with Node show ?case
    using find_key_less [OF assms(1)] find_key_greater [OF assms(1)] find_key_equal [OF assms(1)]
    by (auto simp: Let_def not_less order_le_less)
qed (simp add: find_key_def)

lemma node_insert_ok:
  assumes c: "compare_ok cmp" and "avl_inv t" "t \<noteq> Null" "key_sorted cmp (inorder t)"
    and "ring h hdr (as @ inorder t @ bs)"
    and "find_key cmp k (inorder t) = None \<Longrightarrow> k \<notin> set (hdr # as @ inorder t @ bs)"
  shows "\<exists>h' t' k' g. node_insert cmp h t k = Some (h', t', k', g) \<and> avl_inv t' \<and> grown_ok t' g
    \<and> height t' = height t + (if g then 1 else 0) \<and> inorder t' = ins_list cmp k (inorder t)
    \<and> ring h' hdr (as @ inorder t' @ bs)
    \<and> k' = (case find_key cmp k (inorder t) of None \<Rightarrow> k | Some x \<Rightarrow> x)"
  using assms(2-)
proof (induction t arbitrary: as bs)
  case (Node l x b r)
  have srt: "key_sorted cmp (inorder l @ x # inorder r)" using Node.prems by simp
  consider (less) "cmp k x < 0" | (eq) "cmp k x = 0" | (greater) "cmp k x > 0" by linarith
  then show ?case
  proof cases
    case less
    note fk = find_key_less [OF c srt less]
    let ?sub = "if l = Null then Some (link_before h k x, Node Null k 0 Null, k, True) else node_insert cmp h l k"
    have "\<exists>h' l' k' g. ?sub = Some (h', l', k', g) \<and> avl_inv l' \<and> (g \<longrightarrow> l \<noteq> Null \<longrightarrow> grown_ok l' True)
      \<and> height l' = height l + (if g then 1 else 0) \<and> inorder l' = ins_list cmp k (inorder l)
      \<and> ring h' hdr (as @ inorder l' @ x # inorder r @ bs)
      \<and> k' = (case find_key cmp k (inorder l) of None \<Rightarrow> k | Some x \<Rightarrow> x)"
    proof (cases "l = Null")
      case True
      with Node.prems fk ring_link_before [of h hdr as x "inorder r @ bs" k] show ?thesis
        by (auto simp: find_key_def)
    next
      case False
      with Node.IH(1) [of as "x # inorder r @ bs"] Node.prems srt fk show ?thesis
        by (auto simp: key_sorted_append grown_ok_def)
    qed
    then obtain h' l' k' g where sub: "?sub = Some (h', l', k', g)" "avl_inv l'"
      "g \<longrightarrow> l \<noteq> Null \<longrightarrow> grown_ok l' True" "height l' = height l + (if g then 1 else 0)"
      "inorder l' = ins_list cmp k (inorder l)" "ring h' hdr (as @ inorder l' @ x # inorder r @ bs)"
      "k' = (case find_key cmp k (inorder l) of None \<Rightarrow> k | Some x \<Rightarrow> x)" by blast
    show ?thesis
    proof (cases g)
      case True
      then have "\<exists>t g. insert_grown_left l' x b r = Some (t, g) \<and> avl_inv t
          \<and> inorder t = inorder l' @ x # inorder r
          \<and> height t = Suc (max (height l) (height r)) + (if g then 1 else 0) \<and> grown_ok t g"
        using sub Node.prems by (intro insert_grown_left_ok) auto
      then obtain t g' where ig: "insert_grown_left l' x b r = Some (t, g')" "avl_inv t" "inorder t = inorder l' @ x # inorder r"
        "height t = Suc (max (height l) (height r)) + (if g' then 1 else 0)" "grown_ok t g'" by blast
      have "node_insert cmp h (Node l x b r) k = Some (h', t, k', g')"
        using less sub(1) True ig(1) by (simp add: Let_def del: insert_grown_left.simps)
      with ig sub c srt less show ?thesis by (simp add: ins_list_less find_key_less)
    next
      case False
      with less sub c srt Node.prems show ?thesis
        by (auto simp: ins_list_less find_key_less grown_ok_def)
    qed
  next
    case greater
    note fk = find_key_greater [OF c srt greater]
    let ?sub = "if r = Null then Some (link_after h k x, Node Null k 0 Null, k, True) else node_insert cmp h r k"
    have "\<exists>h' r' k' g. ?sub = Some (h', r', k', g) \<and> avl_inv r' \<and> (g \<longrightarrow> r \<noteq> Null \<longrightarrow> grown_ok r' True)
      \<and> height r' = height r + (if g then 1 else 0) \<and> inorder r' = ins_list cmp k (inorder r)
      \<and> ring h' hdr (as @ inorder l @ x # inorder r' @ bs)
      \<and> k' = (case find_key cmp k (inorder r) of None \<Rightarrow> k | Some x \<Rightarrow> x)"
    proof (cases "r = Null")
      case True
      with Node.prems fk ring_link_after [of h hdr "as @ inorder l" x bs k] show ?thesis
        by (auto simp: find_key_def)
    next
      case False
      with Node.IH(2) [of "as @ inorder l @ [x]" bs] Node.prems srt fk show ?thesis
        by (auto simp: key_sorted_append grown_ok_def)
    qed
    then obtain h' r' k' g where sub: "?sub = Some (h', r', k', g)" "avl_inv r'"
      "g \<longrightarrow> r \<noteq> Null \<longrightarrow> grown_ok r' True" "height r' = height r + (if g then 1 else 0)"
      "inorder r' = ins_list cmp k (inorder r)" "ring h' hdr (as @ inorder l @ x # inorder r' @ bs)"
      "k' = (case find_key cmp k (inorder r) of None \<Rightarrow> k | Some x \<Rightarrow> x)" by blast
    have gr: "\<forall>y\<in>set (inorder l). cmp k y > 0" using all_greater [OF c srt, of k] greater by simp
    show ?thesis
    proof (cases g)
      case True
      then have "\<exists>t g. insert_grown_right l x b r' = Some (t, g) \<and> avl_inv t
          \<and> inorder t = inorder l @ x # inorder r'
          \<and> height t = Suc (max (height l) (height r)) + (if g then 1 else 0) \<and> grown_ok t g"
        using sub Node.prems by (intro insert_grown_right_ok) auto
      then obtain t g' where ig: "insert_grown_right l x b r' = Some (t, g')" "avl_inv t" "inorder t = inorder l @ x # inorder r'"
        "height t = Suc (max (height l) (height r)) + (if g' then 1 else 0)" "grown_ok t g'" by blast
      have "node_insert cmp h (Node l x b r) k = Some (h', t, k', g')"
        using greater sub(1) True ig(1) by (simp add: Let_def del: insert_grown_right.simps)
      with ig sub c srt greater gr show ?thesis by (simp add: ins_list_greater find_key_greater)
    next
      case False
      with greater sub c srt gr Node.prems show ?thesis
        by (auto simp: ins_list_greater find_key_greater grown_ok_def)
    qed
  next
    case eq
    with Node.prems srt c all_greater [OF c srt, of k] show ?thesis
      by (auto simp: ins_list_equal find_key_equal grown_ok_def)
  qed
qed simp

section \<open>Removal\<close>

lemma find_key_set: "find_key cmp k xs = Some x \<Longrightarrow> x \<in> set xs \<and> cmp k x = 0"
  by (auto simp: find_key_def find_Some_iff)

lemma key_sorted_distinct: "compare_ok cmp \<Longrightarrow> key_sorted cmp xs \<Longrightarrow> distinct xs"
  by (induction xs) (auto simp: key_sorted_def compare_okD(1))

lemma key_sorted_remove1: "key_sorted cmp xs \<Longrightarrow> key_sorted cmp (remove1 k xs)"
  by (induction xs) (auto simp: key_sorted_def dest: notin_set_remove1)

lemma find_key_self:
  assumes "compare_ok cmp" "key_sorted cmp xs" "k \<in> set xs"
  shows "find_key cmp k xs = Some k"
proof -
  obtain ys zs where xs: "xs = ys @ k # zs" using split_list [OF assms(3)] by blast
  with assms find_key_equal [of cmp ys k zs k] show ?thesis by (simp add: compare_okD(1))
qed

definition removed_from :: "'k l2elem \<Rightarrow> 'k \<Rightarrow> 'k list \<Rightarrow> 'k avl \<Rightarrow> 'k list \<Rightarrow> 'k
    \<Rightarrow> ('k l2elem \<times> 'k avl \<times> int) option \<Rightarrow> bool" where
  "removed_from s hdr as t bs k res \<longleftrightarrow>
     (\<exists>s' t' h. res = Some (s', t', h) \<and> (h = 0 \<or> h = 1) \<and> avl_inv t' \<and> int (height t') = int (height t) - h
        \<and> inorder t' = remove1 k (inorder t) \<and> ring s' hdr (as @ remove1 k (inorder t) @ bs))"

lemma node_remove_ok:
  assumes c: "compare_ok cmp" and "avl_inv t" "t \<noteq> Null" "key_sorted cmp (inorder t)"
    and "ring s hdr (as @ inorder t @ bs)"
  shows "if find_key cmp k (inorder t) = Some k
    then removed_from s hdr as t bs k (node_remove cmp s t k)
    else node_remove cmp s t k = Some (s, t, -1)"
  using assms(2-)
proof (induction t arbitrary: as bs)
  case (Node l x b r)
  have srt: "key_sorted cmp (inorder l @ x # inorder r)" using Node.prems by simp
  have d: "distinct (inorder l @ x # inorder r)" using key_sorted_distinct [OF c srt] .
  have sub: "key_sorted cmp (inorder l)" "key_sorted cmp (inorder r)" using srt by (auto simp: key_sorted_append)
  consider (less) "cmp k x < 0" | (eq) "cmp k x = 0" | (greater) "cmp k x > 0" by linarith
  then show ?case
  proof cases
    case less
    have f: "find_key cmp k (inorder l @ x # inorder r) = find_key cmp k (inorder l)"
      by (rule find_key_less [OF c srt less])
    show ?thesis
    proof (cases "find_key cmp k (inorder l) = Some k")
      case False
      then show ?thesis
        using less f sub Node.prems Node.IH(1) [of as "x # inorder r @ bs"] by (auto simp: Let_def)
    next
      case True
      then have kl: "k \<in> set (inorder l)" "l \<noteq> Null" using find_key_set by fastforce+
      then obtain s' l' h where l': "node_remove cmp s l k = Some (s', l', h)" "h = 0 \<or> h = 1" "avl_inv l'"
        "int (height l') = int (height l) - h" "inorder l' = remove1 k (inorder l)"
        "ring s' hdr (as @ remove1 k (inorder l) @ x # inorder r @ bs)"
        using True sub Node.prems Node.IH(1) [of as "x # inorder r @ bs"] by (auto simp: removed_from_def)
      show ?thesis
      proof (cases "h > 0")
        case True
        then have "\<exists>t h. balance_left_branch l' x b r = Some (t, h) \<and> avl_inv t
            \<and> inorder t = inorder l' @ x # inorder r
            \<and> (h = 0 \<or> h = 1) \<and> int (height t) = int (Suc (max (height l) (height r))) - h"
          using l' Node.prems by (intro balance_left_branch_ok) auto
        with True \<open>find_key cmp k (inorder l) = Some k\<close> less f kl l' show ?thesis
          by (auto simp: removed_from_def Let_def remove1_append simp del: balance_left_branch.simps)
      next
        case False
        with \<open>find_key cmp k (inorder l) = Some k\<close> less f kl l' Node.prems show ?thesis
          by (auto simp: removed_from_def Let_def remove1_append)
      qed
    qed
  next
    case greater
    have f: "find_key cmp k (inorder l @ x # inorder r) = find_key cmp k (inorder r)"
      by (rule find_key_greater [OF c srt greater])
    show ?thesis
    proof (cases "find_key cmp k (inorder r) = Some k")
      case False
      then show ?thesis
        using greater f sub Node.prems Node.IH(2) [of "as @ inorder l @ [x]" bs] by (auto simp: Let_def)
    next
      case True
      then have kr: "k \<in> set (inorder r)" "r \<noteq> Null" using find_key_set by fastforce+
      then have kl: "k \<notin> set (inorder l)" "k \<noteq> x" using d by auto
      obtain s' r' h where r': "node_remove cmp s r k = Some (s', r', h)" "h = 0 \<or> h = 1" "avl_inv r'"
        "int (height r') = int (height r) - h" "inorder r' = remove1 k (inorder r)"
        "ring s' hdr (as @ inorder l @ x # remove1 k (inorder r) @ bs)"
        using True kr sub Node.prems Node.IH(2) [of "as @ inorder l @ [x]" bs] by (auto simp: removed_from_def)
      show ?thesis
      proof (cases "h > 0")
        case True
        then have "\<exists>t h. balance_right_branch l x b r' = Some (t, h) \<and> avl_inv t
            \<and> inorder t = inorder l @ x # inorder r'
            \<and> (h = 0 \<or> h = 1) \<and> int (height t) = int (Suc (max (height l) (height r))) - h"
          using r' Node.prems by (intro balance_right_branch_ok) auto
        with True \<open>find_key cmp k (inorder r) = Some k\<close> greater f kl kr r' show ?thesis
          by (auto simp: removed_from_def Let_def remove1_append simp del: balance_right_branch.simps)
      next
        case False
        with \<open>find_key cmp k (inorder r) = Some k\<close> greater f kl kr r' Node.prems show ?thesis
          by (auto simp: removed_from_def Let_def remove1_append)
      qed
    qed
  next
    case eq
    have f: "find_key cmp k (inorder l @ x # inorder r) = Some x"
      by (rule find_key_equal [OF c srt eq])
    show ?thesis
    proof (cases "x = k")
      case False
      with f eq show ?thesis by (simp add: Let_def)
    next
      case True
      have kl: "k \<notin> set (inorder l)" using d True by auto
      have u: "ring (l2_unlink s k) hdr (as @ inorder l @ inorder r @ bs)"
        using ring_unlink [of s hdr "as @ inorder l" k "inorder r @ bs"] Node.prems True by simp
      show ?thesis
      proof (cases "l = Null \<or> r = Null")
        case 1: True
        with True f eq u kl Node.prems show ?thesis
          by (auto simp: removed_from_def Let_def remove1_append)
      next
        case 2: False
        with Node.prems obtain l' q h where rm: "remove_rightmost l = Some (l', q, h)" "avl_inv l'"
          "inorder l = inorder l' @ [q]" "h = 0 \<or> h = 1" "int (height l') = int (height l) - h"
          using remove_rightmost_ok [of l] by auto
        show ?thesis
        proof (cases "h = 0")
          case 3: True
          with 2 True rm f eq u kl Node.prems show ?thesis
            by (auto simp: removed_from_def Let_def remove1_append)
        next
          case False
          then have "\<exists>t h. balance_left_branch l' q b r = Some (t, h) \<and> avl_inv t
              \<and> inorder t = inorder l' @ q # inorder r
              \<and> (h = 0 \<or> h = 1) \<and> int (height t) = int (Suc (max (height l) (height r))) - h"
            using rm Node.prems by (intro balance_left_branch_ok) auto
          then obtain t h' where t: "balance_left_branch l' q b r = Some (t, h')" "avl_inv t"
            "inorder t = inorder l' @ q # inorder r" "h' = 0 \<or> h' = 1"
            "int (height t) = int (Suc (max (height l) (height r))) - h'" by blast
          have "node_remove cmp s (Node l x b r) k = Some (l2_unlink s k, t, h')"
            using False 2 True rm(1) eq t(1,4) by (auto simp: Let_def simp del: balance_left_branch.simps)
          with t rm(3) f u True kl show ?thesis by (auto simp: removed_from_def remove1_append)
        qed
      qed
    qed
  qed
qed simp

section \<open>The tree object\<close>

definition avl_tree_ok :: "('k \<Rightarrow> 'k \<Rightarrow> int) \<Rightarrow> 'k avl_tree \<Rightarrow> bool" where
  "avl_tree_ok cmp t \<longleftrightarrow> avl_inv (avl_root t) \<and> key_sorted cmp (inorder (avl_root t)) \<and>
     ring (avl_store t) (avl_hdr t) (inorder (avl_root t))"

abbreviation avl_keys :: "'k avl_tree \<Rightarrow> 'k list" where
  "avl_keys t \<equiv> inorder (avl_root t)"

lemma avl_tree_new_ok: "avl_tree_ok cmp (avl_tree_new s hdr) \<and> avl_keys (avl_tree_new s hdr) = []"
  by (simp add: avl_tree_ok_def avl_tree_new_def ring_prune)

lemma avl_insert_ok:
  assumes "compare_ok cmp" "avl_tree_ok cmp t"
    and "find_key cmp k (avl_keys t) = None \<Longrightarrow> k \<notin> set (avl_hdr t # avl_keys t)"
  shows "\<exists>t' k'. avl_tree_insert cmp t k = Some (t', k') \<and> avl_tree_ok cmp t' \<and> avl_hdr t' = avl_hdr t
    \<and> avl_keys t' = ins_list cmp k (avl_keys t)
    \<and> k' = (case find_key cmp k (avl_keys t) of None \<Rightarrow> k | Some x \<Rightarrow> x)"
proof (cases "avl_root t = Null")
  case True
  with assms ring_link_after_header [of "avl_store t" "avl_hdr t" "[]" k] show ?thesis
    by (auto simp: avl_tree_insert_def avl_tree_ok_def find_key_def)
next
  case False
  with assms obtain h' r' k' g where r: "node_insert cmp (avl_store t) (avl_root t) k = Some (h', r', k', g)"
    "avl_inv r'" "inorder r' = ins_list cmp k (avl_keys t)" "ring h' (avl_hdr t) ([] @ inorder r' @ [])"
    "k' = (case find_key cmp k (avl_keys t) of None \<Rightarrow> k | Some x \<Rightarrow> x)"
    using node_insert_ok [of cmp "avl_root t" "avl_store t" "avl_hdr t" "[]" "[]" k]
    by (auto simp: avl_tree_ok_def)
  with False assms key_sorted_ins_list [OF assms(1), of "avl_keys t" k] show ?thesis
    by (auto simp: avl_tree_insert_def avl_tree_ok_def)
qed

text \<open>C21: inserting a key object that is not linked yet keeps the tree balanced, sorted and in step
  with its ring, follows no null pointer, adds exactly that key at its place, or, when the tree
  holds a key that compares equal, changes nothing and returns that key.\<close>

theorem avl_insert_correct:
  assumes "compare_ok cmp" "avl_tree_ok cmp t"
    and "find_key cmp k (avl_keys t) = None \<Longrightarrow> k \<notin> set (avl_hdr t # avl_keys t)"
  shows "\<exists>t' k'. avl_tree_insert cmp t k = Some (t', k') \<and> avl_tree_ok cmp t' \<and> avl_hdr t' = avl_hdr t
    \<and> avl_keys t' = ins_list cmp k (avl_keys t)
    \<and> k' = (case find_key cmp k (avl_keys t) of None \<Rightarrow> k | Some x \<Rightarrow> x)"
  using assms by (rule avl_insert_ok)

lemma avl_remove_ok:
  assumes "compare_ok cmp" "avl_tree_ok cmp t"
  shows "\<exists>t'. avl_tree_remove cmp t k = Some (t', k \<in> set (avl_keys t)) \<and> avl_tree_ok cmp t'
    \<and> avl_hdr t' = avl_hdr t \<and> avl_keys t' = remove1 k (avl_keys t)"
proof (cases "avl_root t = Null")
  case True
  with assms show ?thesis by (auto simp: avl_tree_remove_def)
next
  case False
  have found: "find_key cmp k (avl_keys t) = Some k \<longleftrightarrow> k \<in> set (avl_keys t)"
    using find_key_self [OF assms(1)] assms(2) find_key_set by (fastforce simp: avl_tree_ok_def)
  have rm: "if find_key cmp k (avl_keys t) = Some k
    then removed_from (avl_store t) (avl_hdr t) [] (avl_root t) [] k (node_remove cmp (avl_store t) (avl_root t) k)
    else node_remove cmp (avl_store t) (avl_root t) k = Some (avl_store t, avl_root t, -1)"
    using node_remove_ok [OF assms(1) _ False, of "avl_store t" "avl_hdr t" "[]" "[]" k] assms(2)
    by (auto simp: avl_tree_ok_def)
  show ?thesis
  proof (cases "k \<in> set (avl_keys t)")
    case True
    with rm found obtain s' r' h where "node_remove cmp (avl_store t) (avl_root t) k = Some (s', r', h)"
      "h = 0 \<or> h = 1" "avl_inv r'" "inorder r' = remove1 k (avl_keys t)"
      "ring s' (avl_hdr t) (remove1 k (avl_keys t))" by (auto simp: removed_from_def)
    with True False assms(2) key_sorted_remove1 [of cmp "avl_keys t" k] show ?thesis
      by (auto simp: avl_tree_remove_def avl_tree_ok_def)
  next
    case k: False
    with rm found False assms(2) show ?thesis by (simp add: avl_tree_remove_def remove1_idem)
  qed
qed

text \<open>C22: removing a key object takes out exactly that object, and only when the tree holds it (a
  different key that merely compares equal is not removed, and false is returned); balance, order
  and ring are kept and no null pointer is followed.\<close>

theorem avl_remove_correct:
  assumes "compare_ok cmp" "avl_tree_ok cmp t"
  shows "\<exists>t'. avl_tree_remove cmp t k = Some (t', k \<in> set (avl_keys t)) \<and> avl_tree_ok cmp t'
    \<and> avl_hdr t' = avl_hdr t \<and> avl_keys t' = remove1 k (avl_keys t)"
  using assms by (rule avl_remove_ok)

definition avl_int_compare :: "int \<Rightarrow> int \<Rightarrow> int" where
  "avl_int_compare x y = x - y"

definition avl_sample :: "int avl_tree" where
  "avl_sample = \<lparr>avl_hdr = 0, avl_root = Node Null 5 1 (Node Null 7 0 Null),
     avl_store = \<lparr>l2_next = (\<lambda>_. 0)(0 := 5, 5 := 7, 7 := 0), l2_prev = (\<lambda>_. 0)(0 := 7, 7 := 5, 5 := 0)\<rparr>\<rparr>"

lemma avl_int_compare_ok: "compare_ok avl_int_compare"
  by (auto simp: compare_ok_def avl_int_compare_def)

lemma avl_sample_ok: "avl_tree_ok avl_int_compare avl_sample"
  by (simp add: avl_tree_ok_def avl_sample_def key_sorted_def avl_int_compare_def ring_def)

theorem avl_insert_correct_witness:
  "\<exists>t' k'. avl_tree_insert avl_int_compare avl_sample 6 = Some (t', k') \<and> avl_tree_ok avl_int_compare t'
     \<and> avl_keys t' = [5, 6, 7] \<and> k' = 6"
  using avl_insert_correct [OF avl_int_compare_ok avl_sample_ok, of 6]
  by (auto simp: avl_sample_def avl_int_compare_def find_key_def)

theorem avl_remove_correct_witness:
  "\<exists>t'. avl_tree_remove avl_int_compare avl_sample 5 = Some (t', True) \<and> avl_tree_ok avl_int_compare t'
     \<and> avl_keys t' = [7]"
  using avl_remove_correct [OF avl_int_compare_ok avl_sample_ok, of 5]
  by (auto simp: avl_sample_def avl_int_compare_def find_key_def)

lemma avl_search_ok:
  assumes "compare_ok cmp" "avl_tree_ok cmp t"
  shows "avl_tree_search cmp t k = find_key cmp k (avl_keys t)"
  using assms by (simp add: avl_tree_search_def avl_tree_ok_def node_search_ok)

text \<open>C36: a search returns the key of the tree that compares equal, if there is one.\<close>

theorem avl_search_correct:
  assumes "compare_ok cmp" "avl_tree_ok cmp t"
  shows "avl_tree_search cmp t k = find_key cmp k (avl_keys t)"
  using assms by (rule avl_search_ok)

theorem avl_search_correct_witness:
  "avl_tree_search avl_int_compare avl_sample 7 = Some 7"
  using avl_search_correct [OF avl_int_compare_ok avl_sample_ok, of 7]
  by (auto simp: avl_sample_def avl_int_compare_def find_key_def)

lemma avl_inv_size: "avl_inv t \<Longrightarrow> 2 ^ (height t div 2) \<le> length (inorder t) + 1"
proof (induction t)
  case (Node l k b r)
  let ?h = "max (height l) (height r)"
  show ?case
  proof (cases "?h = 0")
    case False
    let ?m = "(?h - 1) div 2"
    have "?h - 1 \<le> height l" "?h - 1 \<le> height r" using Node.prems by auto
    then have "(2::nat) ^ ?m \<le> 2 ^ (height l div 2)" "(2::nat) ^ ?m \<le> 2 ^ (height r div 2)"
      by (simp_all add: div_le_mono power_increasing)
    moreover have "(2::nat) ^ (height l div 2) \<le> length (inorder l) + 1"
      "(2::nat) ^ (height r div 2) \<le> length (inorder r) + 1" using Node by auto
    ultimately have "2 * 2 ^ ?m \<le> length (inorder (Node l k b r)) + 1"
      unfolding inorder.simps length_append list.size by linarith
    moreover have "height (Node l k b r) div 2 = Suc ?m"
    proof -
      obtain m where "?h = Suc m" using False not0_implies_Suc by blast
      then show ?thesis by simp
    qed
    ultimately show ?thesis by simp
  qed simp
qed simp

section \<open>Trees built by sequences of calls\<close>

text \<open>The calls of a client that change the tree, the list of keys that stands for it, and a sequence of
  calls; a call that would follow a null pointer makes the whole sequence \<open>None\<close>.\<close>

datatype 'k avl_request = Insert (call_key: 'k) | Remove (call_key: 'k)

fun avl_call :: "('k \<Rightarrow> 'k \<Rightarrow> int) \<Rightarrow> 'k avl_request \<Rightarrow> 'k avl_tree \<Rightarrow> 'k avl_tree option" where
  "avl_call cmp (Insert k) t = map_option fst (avl_tree_insert cmp t k)"
| "avl_call cmp (Remove k) t = map_option fst (avl_tree_remove cmp t k)"

fun keys_call :: "('k \<Rightarrow> 'k \<Rightarrow> int) \<Rightarrow> 'k avl_request \<Rightarrow> 'k list \<Rightarrow> 'k list" where
  "keys_call cmp (Insert k) ks = ins_list cmp k ks"
| "keys_call cmp (Remove k) ks = remove1 k ks"

fun avl_calls :: "('k \<Rightarrow> 'k \<Rightarrow> int) \<Rightarrow> 'k avl_request list \<Rightarrow> 'k avl_tree \<Rightarrow> 'k avl_tree option" where
  "avl_calls cmp [] t = Some t"
| "avl_calls cmp (c # cs) t = Option.bind (avl_call cmp c t) (avl_calls cmp cs)"

lemma avl_call_ok:
  assumes "compare_ok cmp" "avl_tree_ok cmp t" "avl_hdr t \<notin> set (avl_keys t)" "call_key c \<noteq> avl_hdr t"
  shows "\<exists>t'. avl_call cmp c t = Some t' \<and> avl_tree_ok cmp t' \<and> avl_hdr t' = avl_hdr t \<and>
    avl_keys t' = keys_call cmp c (avl_keys t) \<and> avl_hdr t' \<notin> set (avl_keys t')"
proof (cases c)
  case (Insert k)
  have "k \<notin> set (avl_hdr t # avl_keys t)" if "find_key cmp k (avl_keys t) = None"
    using that find_key_self [OF assms(1), of "avl_keys t" k] assms(2,4) Insert by (auto simp: avl_tree_ok_def)
  from avl_insert_ok [OF assms(1,2) this] obtain t' k' where
    "avl_tree_insert cmp t k = Some (t', k')" "avl_tree_ok cmp t'" "avl_hdr t' = avl_hdr t"
    "avl_keys t' = ins_list cmp k (avl_keys t)" by blast
  then show ?thesis using Insert assms(3,4) set_ins_list(1) [of cmp k "avl_keys t"] by auto
next
  case (Remove k)
  from avl_remove_ok [OF assms(1,2), of k] obtain t' where
    "avl_tree_remove cmp t k = Some (t', k \<in> set (avl_keys t))" "avl_tree_ok cmp t'" "avl_hdr t' = avl_hdr t"
    "avl_keys t' = remove1 k (avl_keys t)" by blast
  then show ?thesis using Remove assms(3) set_remove1_subset [of k "avl_keys t"] by auto
qed

lemma avl_calls_ok:
  assumes "compare_ok cmp" "avl_tree_ok cmp t" "avl_hdr t \<notin> set (avl_keys t)" "avl_hdr t \<notin> call_key ` set cs"
  shows "\<exists>t'. avl_calls cmp cs t = Some t' \<and> avl_tree_ok cmp t' \<and> avl_keys t' = fold (keys_call cmp) cs (avl_keys t)"
  using assms(2-)
proof (induction cs arbitrary: t)
  case (Cons c cs)
  then have "call_key c \<noteq> avl_hdr t" by auto
  from avl_call_ok [OF assms(1) Cons.prems(1,2) this] obtain t1 where t1: "avl_call cmp c t = Some t1"
    "avl_tree_ok cmp t1" "avl_hdr t1 = avl_hdr t" "avl_keys t1 = keys_call cmp c (avl_keys t)"
    "avl_hdr t1 \<notin> set (avl_keys t1)" by blast
  then have "avl_hdr t1 \<notin> call_key ` set cs" using Cons.prems(3) by auto
  from Cons.IH [OF t1(2,5) this] show ?case using t1(1,4) by auto
qed simp

text \<open>C37: any sequence of insertions and removals of key objects other than the header, from the new tree
  on, succeeds; the tree then holds the keys that insertion into and removal from a sorted list leave, a
  search finds the key that compares equal among them, and the depth, which bounds every recursion and the loop of
  the search, is logarithmic: a tree of height \<open>h\<close> holds at least \<open>2 ^ (h div 2) - 1\<close> keys.\<close>

theorem avl_calls_correct:
  assumes "compare_ok cmp" "hdr \<notin> call_key ` set cs"
  shows "\<exists>t. avl_calls cmp cs (avl_tree_new s hdr) = Some t \<and> avl_keys t = fold (keys_call cmp) cs [] \<and>
    (\<forall>k. avl_tree_search cmp t k = find_key cmp k (avl_keys t)) \<and>
    2 ^ (height (avl_root t) div 2) \<le> length (avl_keys t) + 1"
proof -
  have "avl_hdr (avl_tree_new s hdr) = hdr" by (simp add: avl_tree_new_def)
  then obtain t where "avl_calls cmp cs (avl_tree_new s hdr) = Some t" "avl_tree_ok cmp t" "avl_keys t = fold (keys_call cmp) cs []"
    using avl_calls_ok [OF assms(1), of "avl_tree_new s hdr" cs] avl_tree_new_ok [of cmp s hdr] assms(2) by auto
  then show ?thesis using avl_inv_size [of "avl_root t"] avl_search_ok [OF assms(1), of t] by (auto simp: avl_tree_ok_def)
qed

theorem avl_calls_correct_witness:
  "\<exists>t. avl_calls avl_int_compare [Insert 5, Insert 7, Insert 9, Remove 5, Insert 7, Remove 4] (avl_tree_new (avl_store avl_sample) 0) = Some t \<and>
    avl_keys t = [7, 9] \<and> avl_tree_search avl_int_compare t 9 = Some 9 \<and> 2 ^ (height (avl_root t) div 2) \<le> (3::nat)"
proof -
  obtain t where t: "avl_calls avl_int_compare [Insert 5, Insert 7, Insert 9, Remove 5, Insert 7, Remove 4] (avl_tree_new (avl_store avl_sample) 0) = Some t"
    "avl_keys t = [7, 9]" "avl_tree_search avl_int_compare t 9 = find_key avl_int_compare 9 (avl_keys t)"
    "2 ^ (height (avl_root t) div 2) \<le> length (avl_keys t) + 1"
    using avl_calls_correct [OF avl_int_compare_ok, of 0 "[Insert 5, Insert 7, Insert 9, Remove 5, Insert 7, Remove 4]" "avl_store avl_sample"]
    by (auto simp: avl_int_compare_def)
  then show ?thesis by (auto simp: avl_int_compare_def find_key_def numeral_3_eq_3)
qed

end
