(* ===== verification/JudyWord.thy ===== *)
theory JudyWord
  imports Prelude
begin

text \<open>
  The word macros of the Judy library, for the 64-bit build: digits, masks and the fields of a
  Judy pointer (\<open>src/Judy/src/JudyCommon/JudyPrivate.h\<close> and \<open>JudyPrivateBranch.h\<close>).  Each macro
  is a definition on \<open>64 word\<close> with the shifts and masks of the source; the lemmas read it as
  arithmetic on \<open>unat\<close>: state \<open>s\<close> of the machine has \<open>s\<close> undecoded bytes, so an index splits as
  \<open>hi * 256 ^ s + digit * 256 ^ (s - 1) + lo\<close>.
\<close>

type_synonym dcdpop0 = "56 word"

section \<open>The macros\<close>

definition cJU_ROOTSTATE :: nat where "cJU_ROOTSTATE = 8"

definition cJU_ALLONES :: word_t where "cJU_ALLONES = NOT 0"

definition JU_LEASTBYTESMASK :: "nat \<Rightarrow> word_t" where
  "JU_LEASTBYTESMASK bytes = push_bit (8 * (bytes - 1)) 0x100 - 1"

definition JU_LEASTBYTES :: "word_t \<Rightarrow> nat \<Rightarrow> word_t" where
  "JU_LEASTBYTES index bytes = index AND JU_LEASTBYTESMASK bytes"

definition cJU_POP0MASK :: "nat \<Rightarrow> word_t" where
  "cJU_POP0MASK popbytes = JU_LEASTBYTESMASK popbytes"

definition cJU_DCDMASK :: "nat \<Rightarrow> word_t" where
  "cJU_DCDMASK popbytes = drop_bit 8 cJU_ALLONES AND NOT (cJU_POP0MASK popbytes)"

definition JU_TRIMTODCDSIZE :: "word_t \<Rightarrow> word_t" where
  "JU_TRIMTODCDSIZE index = drop_bit 8 cJU_ALLONES AND index"

text \<open>The seven bytes \<open>jp_DcdP0\<close> are one \<open>56 word\<close>; reading them gives a \<open>Word_t\<close>.\<close>

definition JU_JPDCDPOP0 :: "dcdpop0 \<Rightarrow> word_t" where
  "JU_JPDCDPOP0 dcd = ucast dcd"

definition JU_JPLEAF_POP0 :: "dcdpop0 \<Rightarrow> uint8" where
  "JU_JPLEAF_POP0 dcd = ucast dcd"

definition JU_JPBRANCH_POP0 :: "dcdpop0 \<Rightarrow> nat \<Rightarrow> word_t" where
  "JU_JPBRANCH_POP0 dcd popbytes = JU_JPDCDPOP0 dcd AND cJU_POP0MASK popbytes"

definition JU_DCDNOTMATCHINDEX :: "word_t \<Rightarrow> dcdpop0 \<Rightarrow> nat \<Rightarrow> bool" where
  "JU_DCDNOTMATCHINDEX index dcd pop0bytes = ((index XOR JU_JPDCDPOP0 dcd) AND cJU_DCDMASK pop0bytes \<noteq> 0)"

definition cJU_MASKATSTATE :: "nat \<Rightarrow> word_t" where
  "cJU_MASKATSTATE state = push_bit ((state - 1) * 8) 0xff"

definition JU_DIGITATSTATE :: "word_t \<Rightarrow> nat \<Rightarrow> uint8" where
  "JU_DIGITATSTATE index state = ucast (drop_bit ((state - 1) * 8) index)"

definition JU_DIGITTOSTATE :: "uint8 \<Rightarrow> nat \<Rightarrow> word_t" where
  "JU_DIGITTOSTATE digit state = push_bit ((state - 1) * 8) (ucast digit)"

definition JU_SETDIGIT :: "word_t \<Rightarrow> uint8 \<Rightarrow> nat \<Rightarrow> word_t" where
  "JU_SETDIGIT index digit state =
     (index AND NOT (cJU_MASKATSTATE state)) OR push_bit ((state - 1) * 8) (ucast digit)"

definition JU_SETDIGIT1 :: "word_t \<Rightarrow> uint8 \<Rightarrow> word_t" where
  "JU_SETDIGIT1 index digit = (index AND NOT 0xff) OR ucast digit"

definition JU_SETDIGITS :: "word_t \<Rightarrow> word_t \<Rightarrow> nat \<Rightarrow> word_t" where
  "JU_SETDIGITS index index2 state =
     (index AND NOT (JU_LEASTBYTESMASK state)) OR (index2 AND JU_LEASTBYTESMASK state)"

definition JU_SETDCD :: "word_t \<Rightarrow> dcdpop0 \<Rightarrow> nat \<Rightarrow> word_t" where
  "JU_SETDCD index dcd state =
     (index AND NOT (cJU_DCDMASK state)) OR (JU_JPDCDPOP0 dcd AND cJU_DCDMASK state)"

section \<open>Masks as arithmetic\<close>

lemma power_256: "(256::nat) ^ s = 2 ^ (8 * s)"
  by (simp add: power_mult)

lemma unat_and_mask: "unat (w AND mask n :: 'a::len word) = unat w mod 2 ^ n"
proof -
  have "unat (take_bit n w) = take_bit n (unat w)" by (rule unsigned_take_bit_eq)
  also have "\<dots> = unat w mod 2 ^ n" by (rule take_bit_eq_mod)
  finally show ?thesis unfolding take_bit_eq_mask .
qed

lemma unat_or_disjoint:
  fixes a b :: "'a::len word"
  assumes "a AND b = 0"
  shows "unat (a OR b) = unat a + unat b"
proof -
  have "unat a AND unat b = 0"
    using arg_cong [OF assms, of unat] by (simp add: unsigned_and_eq)
  then have "unat a + unat b = unat a OR unat b" by (rule disjunctive_add_eq_or)
  then show ?thesis by (simp add: unsigned_or_eq)
qed

lemma unat_and_not_mask:
  fixes w :: "'a::len word"
  shows "unat (w AND NOT (mask n)) = unat w div 2 ^ n * 2 ^ n"
proof -
  have "(w AND NOT (mask n)) AND (w AND mask n) = 0"
    by (simp add: bit_eq_iff bit_simps)
  then have "unat ((w AND NOT (mask n)) OR (w AND mask n)) = unat (w AND NOT (mask n)) + unat (w AND mask n)"
    by (rule unat_or_disjoint)
  moreover have "(w AND NOT (mask n)) OR (w AND mask n) = w"
    by (auto simp: bit_eq_iff bit_simps)
  ultimately have "unat w = unat (w AND NOT (mask n)) + unat w mod 2 ^ n"
    by (simp add: unat_and_mask)
  then show ?thesis by (metis add_diff_cancel_right' minus_mod_eq_div_mult)
qed

lemma leastbytesmask: "1 \<le> s \<Longrightarrow> s \<le> 8 \<Longrightarrow> JU_LEASTBYTESMASK s = mask (8 * s)"
proof -
  assume s: "1 \<le> s" "s \<le> 8"
  have "push_bit (8 * (s - 1)) (0x100 :: word_t) = 2 ^ (8 * (s - 1)) * 2 ^ 8"
    by (simp add: push_bit_eq_mult)
  also have "\<dots> = 2 ^ (8 * s)"
  proof -
    have "8 * (s - 1) + 8 = 8 * s" using s by simp
    then show ?thesis by (metis power_add)
  qed
  finally show ?thesis by (simp add: JU_LEASTBYTESMASK_def mask_eq_exp_minus_1)
qed

lemma dcdmask: "1 \<le> s \<Longrightarrow> s \<le> 8 \<Longrightarrow> cJU_DCDMASK s = mask 56 AND NOT (mask (8 * s))"
  by (auto simp: cJU_DCDMASK_def cJU_POP0MASK_def leastbytesmask cJU_ALLONES_def bit_eq_iff bit_simps)

lemma maskatstate: "1 \<le> s \<Longrightarrow> cJU_MASKATSTATE s = push_bit (8 * (s - 1)) (mask 8)"
  by (simp add: cJU_MASKATSTATE_def mult.commute mask_eq_exp_minus_1)

lemma unat_leastbytes:
  "1 \<le> s \<Longrightarrow> s \<le> 8 \<Longrightarrow> unat (JU_LEASTBYTES w s) = unat w mod 256 ^ s"
  by (simp add: JU_LEASTBYTES_def leastbytesmask unat_and_mask power_256)

lemma unat_digitatstate: "unat (JU_DIGITATSTATE w s) = unat w div 256 ^ (s - 1) mod 256"
proof -
  have "unat (JU_DIGITATSTATE w s) = take_bit 8 (drop_bit ((s - 1) * 8) (unat w))"
    unfolding JU_DIGITATSTATE_def by (simp only: unsigned_ucast_eq unat_drop_bit_eq) simp
  then show ?thesis by (simp add: take_bit_eq_mod drop_bit_eq_div power_256 mult.commute)
qed

lemma unat_dcd_less: "unat (dcd :: dcdpop0) < 256 ^ 7"
  using unsigned_less [of dcd] by simp

lemma unat_dcdpop0: "unat (JU_JPDCDPOP0 dcd) = unat dcd"
  using unat_dcd_less [of dcd] by (simp add: JU_JPDCDPOP0_def unsigned_ucast_eq take_bit_nat_eq_self)

lemma unat_leaf_pop0: "unat (JU_JPLEAF_POP0 dcd) = unat dcd mod 256"
  by (simp add: JU_JPLEAF_POP0_def unsigned_ucast_eq take_bit_eq_mod)

lemma unat_branch_pop0: "1 \<le> s \<Longrightarrow> s \<le> 7 \<Longrightarrow> unat (JU_JPBRANCH_POP0 dcd s) = unat dcd mod 256 ^ s"
  by (simp add: JU_JPBRANCH_POP0_def cJU_POP0MASK_def leastbytesmask unat_and_mask power_256 unat_dcdpop0)

lemma unat_trim: "unat (JU_TRIMTODCDSIZE w) = unat w mod 256 ^ 7"
proof -
  have "JU_TRIMTODCDSIZE w = w AND mask 56"
    by (auto simp: JU_TRIMTODCDSIZE_def cJU_ALLONES_def bit_eq_iff bit_simps)
  then show ?thesis using unat_and_mask [of w 56] by simp
qed

lemma unat_and_dcdmask:
  assumes "1 \<le> s" "s \<le> 7"
  shows "unat (w AND cJU_DCDMASK s) = (unat w mod 256 ^ 7) div 256 ^ s * 256 ^ s"
proof -
  have "w AND cJU_DCDMASK s = (w AND mask 56) AND NOT (mask (8 * s))"
    using assms by (simp add: dcdmask and.assoc)
  then show ?thesis by (simp add: unat_and_not_mask unat_and_mask power_256 del: power_mult_numeral)
qed

lemma dcdmask_root: "7 \<le> s \<Longrightarrow> s \<le> 8 \<Longrightarrow> cJU_DCDMASK s = 0"
  by (auto simp: dcdmask bit_eq_iff bit_simps)

lemma unat_dcd_and_dcdmask:
  assumes "1 \<le> s" "s \<le> 7"
  shows "unat (JU_JPDCDPOP0 dcd AND cJU_DCDMASK s) = unat dcd div 256 ^ s * 256 ^ s"
  using unat_and_dcdmask [OF assms] unat_dcd_less [of dcd] by (simp add: unat_dcdpop0)

lemma dcd_match:
  assumes "1 \<le> s" "s \<le> 7"
  shows "JU_DCDNOTMATCHINDEX w dcd s \<longleftrightarrow> (unat w mod 256 ^ 7) div 256 ^ s \<noteq> unat dcd div 256 ^ s"
proof -
  have x: "(w XOR d) AND m = (w AND m) XOR (d AND m)" for w d m :: word_t
    by (auto simp: bit_eq_iff bit_simps)
  have "JU_DCDNOTMATCHINDEX w dcd s \<longleftrightarrow> w AND cJU_DCDMASK s \<noteq> JU_JPDCDPOP0 dcd AND cJU_DCDMASK s"
    unfolding JU_DCDNOTMATCHINDEX_def x by (auto simp: bit_eq_iff bit_simps)
  also have "\<dots> \<longleftrightarrow> unat (w AND cJU_DCDMASK s) \<noteq> unat (JU_JPDCDPOP0 dcd AND cJU_DCDMASK s)"
    by (simp add: word_unat_eq_iff)
  also have "\<dots> \<longleftrightarrow> (unat w mod 256 ^ 7) div 256 ^ s \<noteq> unat dcd div 256 ^ s"
    using assms unat_dcd_less [of dcd] by (simp add: unat_and_dcdmask unat_dcdpop0)
  finally show ?thesis .
qed

lemma dcd_less:
  assumes "1 \<le> s" "s \<le> 7"
  shows "w AND cJU_DCDMASK s < JU_JPDCDPOP0 dcd AND cJU_DCDMASK s
    \<longleftrightarrow> (unat w mod 256 ^ 7) div 256 ^ s < unat dcd div 256 ^ s"
    and "w AND cJU_DCDMASK s > JU_JPDCDPOP0 dcd AND cJU_DCDMASK s
    \<longleftrightarrow> (unat w mod 256 ^ 7) div 256 ^ s > unat dcd div 256 ^ s"
  using assms unat_dcd_less [of dcd] by (simp_all add: word_less_nat_alt unat_and_dcdmask unat_dcdpop0)

lemma unat_setdigits:
  assumes "1 \<le> s" "s \<le> 8"
  shows "unat (JU_SETDIGITS w w2 s) = unat w div 256 ^ s * 256 ^ s + unat w2 mod 256 ^ s"
proof -
  have "(w AND NOT (mask (8 * s))) AND (w2 AND mask (8 * s)) = 0"
    by (auto simp: bit_eq_iff bit_simps)
  from unat_or_disjoint [OF this] show ?thesis
    using assms by (simp add: JU_SETDIGITS_def leastbytesmask unat_and_mask unat_and_not_mask power_256)
qed

lemma unat_setdigit:
  assumes "1 \<le> s" "s \<le> 8"
  shows "unat (JU_SETDIGIT w d s) = unat w div 256 ^ s * 256 ^ s + unat d * 256 ^ (s - 1) + unat w mod 256 ^ (s - 1)"
proof -
  let ?h = "w AND NOT (mask (8 * s))" and ?l = "w AND mask (8 * (s - 1))"
  let ?d = "push_bit (8 * (s - 1)) (ucast d) :: word_t"
  have e: "JU_SETDIGIT w d s = (?h OR ?l) OR ?d"
    using assms by (auto simp: JU_SETDIGIT_def maskatstate bit_eq_iff bit_simps mult.commute)
  have d1: "?h AND ?l = 0" using assms by (auto simp: bit_eq_iff bit_simps)
  have d2: "(?h OR ?l) AND ?d = 0" using assms by (auto simp: bit_eq_iff bit_simps dest: bit_imp_le_length)
  have "unat d * 256 ^ (s - 1) < 256 * 256 ^ (s - 1)" using unsigned_less [of d, where 'a = nat] by simp
  also have "\<dots> = 256 ^ s" using assms by (metis One_nat_def Suc_pred' less_eq_Suc_le power_Suc)
  also have "(256::nat) ^ s \<le> 256 ^ 8" using assms by (intro power_increasing) auto
  finally have less: "unat d * 256 ^ (s - 1) < 2 ^ 64" by simp
  have "unat d < 2 ^ 8" using unsigned_less [of d, where 'a = nat] by simp
  then have "unat d < 2 ^ 64" by simp
  then have "unat ?d = take_bit 64 (push_bit (8 * (s - 1)) (unat d))"
    by (simp only: unsigned_push_bit_eq unsigned_ucast_eq) (simp add: take_bit_nat_eq_self)
  with less have "unat ?d = unat d * 256 ^ (s - 1)"
    by (simp add: push_bit_eq_mult power_256 take_bit_nat_eq_self)
  then show ?thesis
    unfolding e using unat_or_disjoint [OF d2] unat_or_disjoint [OF d1]
    by (simp add: unat_and_mask unat_and_not_mask power_256)
qed

lemma setdigit1: "JU_SETDIGIT1 w d = JU_SETDIGIT w d 1"
  by (simp add: JU_SETDIGIT1_def JU_SETDIGIT_def cJU_MASKATSTATE_def)

lemma unat_setdcd:
  assumes "1 \<le> s" "s \<le> 7"
  shows "unat (JU_SETDCD w dcd s) = unat w div 256 ^ 7 * 256 ^ 7 + unat dcd div 256 ^ s * 256 ^ s + unat w mod 256 ^ s"
proof -
  let ?h = "w AND NOT (mask 56)" and ?l = "w AND mask (8 * s)"
  let ?d = "JU_JPDCDPOP0 dcd AND cJU_DCDMASK s"
  have e: "JU_SETDCD w dcd s = (?h OR ?l) OR ?d"
    using assms by (auto simp: JU_SETDCD_def dcdmask bit_eq_iff bit_simps)
  have d1: "?h AND ?l = 0" using assms by (auto simp: bit_eq_iff bit_simps)
  have d2: "(?h OR ?l) AND ?d = 0" using assms by (auto simp: dcdmask bit_eq_iff bit_simps)
  have "unat ?h = unat w div 256 ^ 7 * 256 ^ 7" using unat_and_not_mask [of w 56] by simp
  then show ?thesis
    unfolding e using unat_or_disjoint [OF d2] unat_or_disjoint [OF d1]
    by (simp only: unat_dcd_and_dcdmask [OF assms] unat_and_mask power_256)
qed

end
