(* ===== verification/JudyBits.thy ===== *)
theory JudyBits
  imports JudyWord
begin

text \<open>
  The bitmaps of the Judy library (bitmap branches: eight \<open>32 word\<close>s, bitmap leaves: four
  \<open>64 word\<close>s, \<open>src/Judy/src/JudyCommon/JudyPrivate.h\<close>): the bit counts \<open>j__udyCountBitsB/L\<close>,
  the masks on one bit position and the search of the n-th set bit \<open>JU_BITMAPDIGITB/L\<close>.  The
  lemmas relate all of them to \<open>set_positions\<close>, the ascending list of the set bits: the counts are
  its length, counting below a bit is the offset of that bit in it, and the search reads it.
\<close>

section \<open>The operations\<close>

definition cJU_BITSPERSUBEXPB :: nat where "cJU_BITSPERSUBEXPB = 32"

definition cJU_NUMSUBEXPB :: nat where "cJU_NUMSUBEXPB = 8"

definition cJU_BITSPERSUBEXPL :: nat where "cJU_BITSPERSUBEXPL = 64"

definition cJU_NUMSUBEXPL :: nat where "cJU_NUMSUBEXPL = 4"

definition JU_BITPOSMASKB :: "nat \<Rightarrow> uint32" where
  "JU_BITPOSMASKB bitnum = push_bit (bitnum mod cJU_BITSPERSUBEXPB) 1"

definition JU_BITPOSMASKL :: "nat \<Rightarrow> word_t" where
  "JU_BITPOSMASKL bitnum = push_bit (bitnum mod cJU_BITSPERSUBEXPL) 1"

definition JU_MASKLOWEREXC :: "'a::len word \<Rightarrow> 'a word" where
  "JU_MASKLOWEREXC bitpos = bitpos - 1"

definition JU_MASKLOWERINC :: "'a::len word \<Rightarrow> 'a word" where
  "JU_MASKLOWERINC bitpos = JU_MASKLOWEREXC bitpos OR bitpos"

definition JU_MASKHIGHERINC :: "'a::len word \<Rightarrow> 'a word" where
  "JU_MASKHIGHERINC bitpos = - bitpos"

definition JU_MASKHIGHEREXC :: "'a::len word \<Rightarrow> 'a word" where
  "JU_MASKHIGHEREXC bitpos = JU_MASKHIGHERINC bitpos XOR bitpos"

definition j__udyCountBitsB :: "uint32 \<Rightarrow> uint32" where
  "j__udyCountBitsB word =
     (let word = (word AND 0x55555555) + drop_bit 1 (word AND 0xAAAAAAAA);
          word = (word AND 0x33333333) + drop_bit 2 (word AND 0xCCCCCCCC);
          word = (word AND 0x0F0F0F0F) + drop_bit 4 (word AND 0xF0F0F0F0);
          word = (word AND 0x00FF00FF) + drop_bit 8 (word AND 0xFF00FF00);
          word = (word AND 0x0000FFFF) + drop_bit 16 (word AND 0xFFFF0000)
      in word)"

definition j__udyCountBitsL :: "word_t \<Rightarrow> word_t" where
  "j__udyCountBitsL word =
     (let word = (word AND 0x5555555555555555) + drop_bit 1 (word AND 0xAAAAAAAAAAAAAAAA);
          word = (word AND 0x3333333333333333) + drop_bit 2 (word AND 0xCCCCCCCCCCCCCCCC);
          word = (word AND 0x0F0F0F0F0F0F0F0F) + drop_bit 4 (word AND 0xF0F0F0F0F0F0F0F0);
          word = (word AND 0x00FF00FF00FF00FF) + drop_bit 8 (word AND 0xFF00FF00FF00FF00);
          word = (word AND 0x0000FFFF0000FFFF) + drop_bit 16 (word AND 0xFFFF0000FFFF0000);
          word = (word AND 0x00000000FFFFFFFF) + drop_bit 32 (word AND 0xFFFFFFFF00000000)
      in word)"

text \<open>
  The loop of \<open>JU_BITMAPDIGITB/L\<close>: it never ends when the bitmap has no bit of that offset, so it
  is a partial function whose value is then \<open>None\<close>.
\<close>

partial_function (option) bitmap_digit_loop :: "'a::len word \<Rightarrow> int \<Rightarrow> nat \<Rightarrow> nat option" where
  "bitmap_digit_loop bitmap remain digit =
     (let remain = remain - uint (bitmap AND 1)
      in if remain \<ge> 0 then bitmap_digit_loop (drop_bit 1 bitmap) remain (digit + 1)
         else Some digit)"

declare bitmap_digit_loop.simps [code]

definition JU_BITMAPDIGITB :: "nat \<Rightarrow> uint32 \<Rightarrow> nat \<Rightarrow> nat option" where
  "JU_BITMAPDIGITB subexp bitmap offset =
     bitmap_digit_loop bitmap (int offset) (subexp * cJU_BITSPERSUBEXPB)"

definition JU_BITMAPDIGITL :: "nat \<Rightarrow> word_t \<Rightarrow> nat \<Rightarrow> nat option" where
  "JU_BITMAPDIGITL subexp bitmap offset =
     bitmap_digit_loop bitmap (int offset) (subexp * cJU_BITSPERSUBEXPL)"

section \<open>Packed fields\<close>

text \<open>A number read as fields of \<open>m\<close> bits, least significant first.\<close>

fun pack :: "nat \<Rightarrow> nat list \<Rightarrow> nat" where
  "pack m [] = 0"
| "pack m (c # cs) = c + 2 ^ m * pack m cs"

fun pair_sums :: "nat list \<Rightarrow> nat list" where
  "pair_sums (a # b # xs) = (a + b) # pair_sums xs"
| "pair_sums _ = []"

fun low_fields :: "nat \<Rightarrow> nat list \<Rightarrow> nat list" where
  "low_fields m (a # b # xs) = (2 ^ m - 1) # 0 # low_fields m xs"
| "low_fields m _ = []"

fun high_fields :: "nat \<Rightarrow> nat list \<Rightarrow> nat list" where
  "high_fields m (a # b # xs) = 0 # (2 ^ m - 1) # high_fields m xs"
| "high_fields m _ = []"

lemma and_fields:
  fixes c d x y :: nat
  assumes "c < 2 ^ m" "d < 2 ^ m"
  shows "(c + 2 ^ m * x) AND (d + 2 ^ m * y) = (c AND d) + 2 ^ m * (x AND y)"
proof -
  have t: "take_bit m (c + 2 ^ m * x) = c" "drop_bit m (c + 2 ^ m * x) = x" if "c < 2 ^ m" for c x :: nat
    using that by (simp_all add: take_bit_eq_mod drop_bit_eq_div)
  let ?n = "(c + 2 ^ m * x) AND (d + 2 ^ m * y)"
  have "take_bit m ?n = (c AND d)" "drop_bit m ?n = (x AND y)"
    by (simp_all only: take_bit_and drop_bit_and t assms)
  then have "?n mod 2 ^ m = (c AND d)" "?n div 2 ^ m = (x AND y)"
    by (simp_all only: take_bit_eq_mod drop_bit_eq_div)
  then show ?thesis by (metis add.commute mult.commute mult_div_mod_eq mod_mult_div_eq)
qed

lemma and_field_mask: "c < 2 ^ m \<Longrightarrow> c AND (2 ^ m - 1) = (c :: nat)"
  by (metis mask_eq_exp_minus_1 take_bit_eq_mask take_bit_nat_eq_self)

lemma and_field_pairs:
  assumes "a < 2 ^ m" "b < 2 ^ m"
  shows "pack m (a # b # xs) AND pack m (low_fields m (a # b # xs))
           = a + 2 ^ m * (2 ^ m * (pack m xs AND pack m (low_fields m xs)))"
    and "pack m (a # b # xs) AND pack m (high_fields m (a # b # xs))
           = 2 ^ m * (b + 2 ^ m * (pack m xs AND pack m (high_fields m xs)))"
proof -
  have lt: "2 ^ m - 1 < (2::nat) ^ m" by simp
  show "pack m (a # b # xs) AND pack m (low_fields m (a # b # xs))
           = a + 2 ^ m * (2 ^ m * (pack m xs AND pack m (low_fields m xs)))"
    using and_fields [OF assms(1) lt] and_fields [OF assms(2), of 0] and_field_mask [OF assms(1)] by simp
  show "pack m (a # b # xs) AND pack m (high_fields m (a # b # xs))
           = 2 ^ m * (b + 2 ^ m * (pack m xs AND pack m (high_fields m xs)))"
    using and_fields [OF assms(1), of 0] and_fields [OF assms(2) lt] and_field_mask [OF assms(2)] by simp
qed

lemma high_fields_dvd:
  "\<forall>c\<in>set cs. c < 2 ^ m \<Longrightarrow> 2 ^ m dvd (pack m cs AND pack m (high_fields m cs))"
  by (cases "(m, cs)" rule: high_fields.cases) (auto simp: and_field_pairs(2) simp del: pack.simps(2) high_fields.simps(1))

lemma swar_step:
  "even (length cs) \<Longrightarrow> \<forall>c\<in>set cs. c < 2 ^ m \<Longrightarrow>
   (pack m cs AND pack m (low_fields m cs)) + drop_bit m (pack m cs AND pack m (high_fields m cs))
     = pack (2 * m) (pair_sums cs)"
proof (induction cs rule: pair_sums.induct)
  case (1 a b xs)
  let ?l = "pack m xs AND pack m (low_fields m xs)" and ?h = "pack m xs AND pack m (high_fields m xs)"
  have ab: "a < 2 ^ m" "b < 2 ^ m" using 1 by auto
  have "2 ^ m dvd ?h" by (rule high_fields_dvd) (use 1 in auto)
  then obtain k where k: "?h = 2 ^ m * k" by (rule dvdE)
  have IH: "?l + drop_bit m ?h = pack (2 * m) (pair_sums xs)" using 1 by auto
  have "(pack m (a # b # xs) AND pack m (low_fields m (a # b # xs)))
      + drop_bit m (pack m (a # b # xs) AND pack m (high_fields m (a # b # xs)))
      = (a + b) + 2 ^ m * (2 ^ m * (?l + k))"
    unfolding and_field_pairs [OF ab] k by (simp add: drop_bit_eq_div algebra_simps)
  also have "?l + k = pack (2 * m) (pair_sums xs)"
    using IH unfolding k by (simp add: drop_bit_eq_div)
  finally show ?case by (simp add: power_add mult_2)
qed auto

lemma length_pair_sums: "length (pair_sums cs) = length cs div 2"
  by (induction cs rule: pair_sums.induct) auto

lemma sum_pair_sums: "even (length cs) \<Longrightarrow> sum_list (pair_sums cs) = sum_list cs"
  by (induction cs rule: pair_sums.induct) auto

lemma pair_sums_le:
  "\<forall>c\<in>set cs. c \<le> k \<Longrightarrow> \<forall>c\<in>set (pair_sums cs). c \<le> 2 * k"
  by (induction cs rule: pair_sums.induct) fastforce+

text \<open>The masks depend on the number of fields only.\<close>

fun mask_low :: "nat \<Rightarrow> nat \<Rightarrow> nat" where
  "mask_low m 0 = 0"
| "mask_low m (Suc n) = (2 ^ m - 1) + 2 ^ m * (2 ^ m * mask_low m n)"

lemma pack_low_fields: "pack m (low_fields m cs) = mask_low m (length cs div 2)"
  by (induction cs rule: pair_sums.induct) auto

lemma pack_high_fields: "pack m (high_fields m cs) = 2 ^ m * mask_low m (length cs div 2)"
  by (induction cs rule: pair_sums.induct) auto

lemma and_nat_le: "(a AND b) \<le> (b :: nat)"
proof -
  have "int (a AND b) \<le> int b" unfolding of_nat_and_eq by (rule AND_upper2) simp
  then show ?thesis by simp
qed

text \<open>One step on words.\<close>

lemma unat_swar:
  fixes w :: "'a::len word"
  assumes "even (length cs)" "\<forall>c\<in>set cs. c < 2 ^ m" "unat w = pack m cs"
    and "unat lo = mask_low m (length cs div 2)" "unat hi = 2 ^ m * mask_low m (length cs div 2)"
    and "2 * mask_low m (length cs div 2) < 2 ^ LENGTH('a)"
  shows "unat ((w AND lo) + drop_bit m (w AND hi)) = pack (2 * m) (pair_sums cs)"
proof -
  let ?M = "mask_low m (length cs div 2)"
  have s: "(pack m cs AND ?M) + drop_bit m (pack m cs AND (2 ^ m * ?M)) = pack (2 * m) (pair_sums cs)"
    using swar_step [OF assms(1,2)] by (simp only: pack_low_fields pack_high_fields)
  have "(pack m cs AND ?M) \<le> ?M" by (rule and_nat_le)
  moreover have "drop_bit m (pack m cs AND (2 ^ m * ?M)) \<le> ?M"
  proof -
    have "(pack m cs AND (2 ^ m * ?M)) div 2 ^ m \<le> (2 ^ m * ?M) div 2 ^ m"
      by (intro div_le_mono and_nat_le)
    then show ?thesis by (simp add: drop_bit_eq_div)
  qed
  ultimately have "(pack m cs AND ?M) + drop_bit m (pack m cs AND (2 ^ m * ?M)) < 2 ^ LENGTH('a)"
    using assms(6) by linarith
  then show ?thesis
    unfolding s [symmetric]
    by (simp add: unat_word_ariths(1) unsigned_and_eq unat_drop_bit_eq assms)
qed

section \<open>The bit counts\<close>

definition set_positions :: "'a::len word \<Rightarrow> nat list" where
  "set_positions w = filter (bit w) [0..<LENGTH('a)]"

definition bits_below :: "'a::len word \<Rightarrow> nat \<Rightarrow> nat" where
  "bits_below w n = length (filter (bit w) [0..<n])"

definition bit_list :: "'a::len word \<Rightarrow> nat list" where
  "bit_list w = map (\<lambda>i. of_bool (bit w i)) [0..<LENGTH('a)]"

lemma unat_bit_list: "unat (w :: 'a::len word) = pack 1 (bit_list w)"
proof -
  have "pack 1 (map (\<lambda>i. of_bool (bit w i)) xs) = horner_sum of_bool 2 (map (bit (unat w)) xs)" for xs
    by (induction xs) (auto simp: bit_simps)
  then have "pack 1 (bit_list w) = take_bit LENGTH('a) (unat w)"
    unfolding bit_list_def by (simp only: horner_sum_bit_eq_take_bit)
  then show ?thesis by (simp add: take_bit_nat_eq_self)
qed

lemma length_bit_list: "length (bit_list (w :: 'a::len word)) = LENGTH('a)"
  by (simp add: bit_list_def)

lemma sum_bit_list: "sum_list (bit_list w) = length (set_positions w)"
proof -
  have "sum_list (map (\<lambda>i. of_bool (bit w i)) xs) = length (filter (bit w) xs)" for xs
    by (induction xs) auto
  then show ?thesis by (simp add: bit_list_def set_positions_def)
qed

lemma bit_list_le: "\<forall>c\<in>set (bit_list w). c \<le> 1"
  by (auto simp: bit_list_def)

text \<open>\<open>fields m n w s\<close>: the word is \<open>n\<close> fields of \<open>m\<close> bits that sum to \<open>s\<close>.\<close>

definition fields :: "nat \<Rightarrow> nat \<Rightarrow> 'a::len word \<Rightarrow> nat \<Rightarrow> bool" where
  "fields m n w s \<longleftrightarrow> (\<exists>cs. unat w = pack m cs \<and> length cs = n \<and> (\<forall>c\<in>set cs. c \<le> m) \<and> sum_list cs = s)"

lemma fields_bits: "fields 1 LENGTH('a) (w :: 'a::len word) (length (set_positions w))"
  using unat_bit_list [of w] length_bit_list [of w] bit_list_le [of w] sum_bit_list [of w]
  unfolding fields_def by blast

lemma fields_step:
  fixes w :: "'a::len word"
  assumes "fields m (2 * n) w s"
    and "unat lo = mask_low m n" "unat hi = 2 ^ m * mask_low m n" "2 * mask_low m n < 2 ^ LENGTH('a)"
  shows "fields (2 * m) n ((w AND lo) + drop_bit m (w AND hi)) s"
proof -
  obtain cs where cs: "unat w = pack m cs" "length cs = 2 * n" "\<forall>c\<in>set cs. c \<le> m" "sum_list cs = s"
    using assms(1) unfolding fields_def by blast
  have "\<forall>c\<in>set cs. c < 2 ^ m" using cs(3) less_exp [of m] by (meson le_less_trans)
  then have "unat ((w AND lo) + drop_bit m (w AND hi)) = pack (2 * m) (pair_sums cs)"
    using cs assms by (intro unat_swar) auto
  then show ?thesis
    unfolding fields_def using cs pair_sums_le [OF cs(3)]
    by (intro exI [of _ "pair_sums cs"]) (simp add: length_pair_sums sum_pair_sums)
qed

lemma fields_one: "fields m 1 w s \<Longrightarrow> unat w = s"
  by (auto simp: fields_def length_Suc_conv)

lemma mask_low_unfold:
  "mask_low m n = (if n = 0 then 0 else (2 ^ m - 1) + 2 ^ m * (2 ^ m * mask_low m (n - 1)))"
  by (cases n) simp_all

lemma masks:
  "mask_low (Suc 0) 16 = 0x55555555" "mask_low 2 8 = 0x33333333" "mask_low 4 4 = 0x0F0F0F0F"
  "mask_low 8 2 = 0x00FF00FF" "mask_low 16 (Suc 0) = 0x0000FFFF"
  "mask_low (Suc 0) 32 = 0x5555555555555555" "mask_low 2 16 = 0x3333333333333333"
  "mask_low 4 8 = 0x0F0F0F0F0F0F0F0F" "mask_low 8 4 = 0x00FF00FF00FF00FF"
  "mask_low 16 2 = 0x0000FFFF0000FFFF" "mask_low 32 (Suc 0) = 0x00000000FFFFFFFF"
  by (simp_all add: mask_low_unfold)

lemma count_bits_B: "unat (j__udyCountBitsB w) = length (set_positions w)"
proof -
  let ?s = "length (set_positions w)"
  define w2 where "w2 = (w AND 0x55555555) + drop_bit 1 (w AND 0xAAAAAAAA)"
  define w4 where "w4 = (w2 AND 0x33333333) + drop_bit 2 (w2 AND 0xCCCCCCCC)"
  define w8 where "w8 = (w4 AND 0x0F0F0F0F) + drop_bit 4 (w4 AND 0xF0F0F0F0)"
  define w16 where "w16 = (w8 AND 0x00FF00FF) + drop_bit 8 (w8 AND 0xFF00FF00)"
  define w32 where "w32 = (w16 AND 0x0000FFFF) + drop_bit 16 (w16 AND 0xFFFF0000)"
  have "fields 1 (2 * 16) w ?s" using fields_bits [of w] by simp
  then have "fields 2 (2 * 8) w2 ?s"
    unfolding w2_def using fields_step [of 1 16 w ?s "0x55555555" "0xAAAAAAAA"] by (simp add: masks)
  then have "fields 4 (2 * 4) w4 ?s"
    unfolding w4_def using fields_step [of 2 8 w2 ?s "0x33333333" "0xCCCCCCCC"] by (simp add: masks)
  then have "fields 8 (2 * 2) w8 ?s"
    unfolding w8_def using fields_step [of 4 4 w4 ?s "0x0F0F0F0F" "0xF0F0F0F0"] by (simp add: masks)
  then have "fields 16 (2 * 1) w16 ?s"
    unfolding w16_def using fields_step [of 8 2 w8 ?s "0x00FF00FF" "0xFF00FF00"] by (simp add: masks)
  then have "fields 32 1 w32 ?s"
    unfolding w32_def using fields_step [of 16 1 w16 ?s "0x0000FFFF" "0xFFFF0000"] by (simp add: masks)
  from fields_one [OF this] show ?thesis by (simp only: j__udyCountBitsB_def Let_def w2_def w4_def w8_def w16_def w32_def)
qed

lemma count_bits_L: "unat (j__udyCountBitsL w) = length (set_positions w)"
proof -
  let ?s = "length (set_positions w)"
  define w2 where "w2 = (w AND 0x5555555555555555) + drop_bit 1 (w AND 0xAAAAAAAAAAAAAAAA)"
  define w4 where "w4 = (w2 AND 0x3333333333333333) + drop_bit 2 (w2 AND 0xCCCCCCCCCCCCCCCC)"
  define w8 where "w8 = (w4 AND 0x0F0F0F0F0F0F0F0F) + drop_bit 4 (w4 AND 0xF0F0F0F0F0F0F0F0)"
  define w16 where "w16 = (w8 AND 0x00FF00FF00FF00FF) + drop_bit 8 (w8 AND 0xFF00FF00FF00FF00)"
  define w32 where "w32 = (w16 AND 0x0000FFFF0000FFFF) + drop_bit 16 (w16 AND 0xFFFF0000FFFF0000)"
  define w64 where "w64 = (w32 AND 0x00000000FFFFFFFF) + drop_bit 32 (w32 AND 0xFFFFFFFF00000000)"
  have "fields 1 (2 * 32) w ?s" using fields_bits [of w] by simp
  then have "fields 2 (2 * 16) w2 ?s"
    unfolding w2_def using fields_step [of 1 32 w ?s "0x5555555555555555" "0xAAAAAAAAAAAAAAAA"] by (simp add: masks)
  then have "fields 4 (2 * 8) w4 ?s"
    unfolding w4_def using fields_step [of 2 16 w2 ?s "0x3333333333333333" "0xCCCCCCCCCCCCCCCC"] by (simp add: masks)
  then have "fields 8 (2 * 4) w8 ?s"
    unfolding w8_def using fields_step [of 4 8 w4 ?s "0x0F0F0F0F0F0F0F0F" "0xF0F0F0F0F0F0F0F0"] by (simp add: masks)
  then have "fields 16 (2 * 2) w16 ?s"
    unfolding w16_def using fields_step [of 8 4 w8 ?s "0x00FF00FF00FF00FF" "0xFF00FF00FF00FF00"] by (simp add: masks)
  then have "fields 32 (2 * 1) w32 ?s"
    unfolding w32_def using fields_step [of 16 2 w16 ?s "0x0000FFFF0000FFFF" "0xFFFF0000FFFF0000"] by (simp add: masks)
  then have "fields 64 1 w64 ?s"
    unfolding w64_def using fields_step [of 32 1 w32 ?s "0x00000000FFFFFFFF" "0xFFFFFFFF00000000"] by (simp add: masks)
  from fields_one [OF this] show ?thesis by (simp only: j__udyCountBitsL_def Let_def w2_def w4_def w8_def w16_def w32_def w64_def)
qed

section \<open>Positions of the set bits\<close>

lemma length_set_positions: "length (set_positions (w :: 'a::len word)) \<le> LENGTH('a)"
  unfolding set_positions_def using length_filter_le [of "bit w" "[0..<LENGTH('a)]"] by simp

lemma sorted_set_positions: "sorted_wrt (<) (set_positions w)"
  by (simp add: set_positions_def sorted_wrt_filter)

lemma set_positions_iff: "n \<in> set (set_positions w) \<longleftrightarrow> bit w n"
  by (auto simp: set_positions_def bit_imp_le_length)

lemma set_positions_less: "n \<in> set (set_positions (w :: 'a::len word)) \<Longrightarrow> n < LENGTH('a)"
  by (auto simp: set_positions_def)

lemma bits_below_all: "LENGTH('a) \<le> n \<Longrightarrow> bits_below (w :: 'a::len word) n = length (set_positions w)"
proof -
  assume "LENGTH('a) \<le> n"
  then have "[0..<n] = [0..<LENGTH('a)] @ [LENGTH('a)..<n]" using upt_add_eq_append [of 0 "LENGTH('a)" "n - LENGTH('a)"] by simp
  moreover have "filter (bit w) [LENGTH('a)..<n] = []"
    by (auto simp: filter_empty_conv dest: bit_imp_le_length)
  ultimately show ?thesis by (simp add: bits_below_def set_positions_def)
qed

lemma positions_split:
  assumes "n < LENGTH('a)"
  shows "set_positions (w :: 'a::len word) = filter (bit w) [0..<n] @ filter (bit w) [n..<LENGTH('a)]"
proof -
  have "[0..<LENGTH('a)] = [0..<n] @ [n..<LENGTH('a)]"
    using assms upt_add_eq_append [of 0 n "LENGTH('a) - n"] by simp
  then show ?thesis by (simp add: set_positions_def)
qed

lemma nth_bits_below:
  assumes "bit (w :: 'a::len word) n"
  shows "bits_below w n < length (set_positions w)" "set_positions w ! bits_below w n = n"
proof -
  have n: "n < LENGTH('a)" using assms by (rule bit_imp_le_length)
  then have "[n..<LENGTH('a)] = n # [Suc n..<LENGTH('a)]" by (rule upt_conv_Cons)
  then show "bits_below w n < length (set_positions w)" "set_positions w ! bits_below w n = n"
    using assms positions_split [OF n, of w] by (simp_all add: bits_below_def nth_append)
qed

lemma positions_mask_lower:
  assumes "n < LENGTH('a)"
  shows "length (set_positions (w AND (push_bit n 1 - 1 :: 'a::len word))) = bits_below w n"
proof -
  have m: "push_bit n 1 - 1 = (mask n :: 'a word)" by (simp add: mask_eq_exp_minus_1)
  have "set_positions (w AND mask n) = filter (bit w) [0..<n]"
  proof -
    have "filter (bit (w AND mask n)) [0..<n] = filter (bit w) [0..<n]"
      using assms by (intro filter_cong) (auto simp: bit_simps)
    moreover have "filter (bit (w AND mask n)) [n..<LENGTH('a)] = []"
      by (auto simp: filter_empty_conv bit_simps)
    ultimately show ?thesis using positions_split [OF assms, of "w AND mask n"] by simp
  qed
  then show ?thesis unfolding m by (simp add: bits_below_def)
qed

lemma count_below_B:
  "unat (j__udyCountBitsB (bm AND (JU_BITPOSMASKB d - 1))) = bits_below bm (d mod 32)"
  using positions_mask_lower [of "d mod 32" bm] by (simp add: count_bits_B JU_BITPOSMASKB_def cJU_BITSPERSUBEXPB_def)

lemma count_below_L:
  "unat (j__udyCountBitsL (bm AND (JU_BITPOSMASKL d - 1))) = bits_below bm (d mod 64)"
  using positions_mask_lower [of "d mod 64" bm] by (simp add: count_bits_L JU_BITPOSMASKL_def cJU_BITSPERSUBEXPL_def)

lemma test_bit_B: "bm AND JU_BITPOSMASKB d = 0 \<longleftrightarrow> \<not> bit bm (d mod 32)"
  by (simp add: JU_BITPOSMASKB_def cJU_BITSPERSUBEXPB_def push_bit_of_1 and_exp_eq_0_iff_not_bit)

lemma test_bit_L: "bm AND JU_BITPOSMASKL d = 0 \<longleftrightarrow> \<not> bit bm (d mod 64)"
  by (simp add: JU_BITPOSMASKL_def cJU_BITSPERSUBEXPL_def push_bit_of_1 and_exp_eq_0_iff_not_bit)

lemma mask_higher_exc:
  assumes "n < LENGTH('a)"
  shows "JU_MASKHIGHEREXC (push_bit n 1 :: 'a::len word) = NOT (mask (Suc n))"
proof -
  have "- (push_bit n 1 :: 'a word) = NOT (mask n)"
    by (simp add: minus_eq_not_minus_1 mask_eq_exp_minus_1)
  then show ?thesis
    unfolding JU_MASKHIGHEREXC_def JU_MASKHIGHERINC_def
    by (intro bit_word_eqI) (auto simp: bit_simps)
qed

text \<open>The loop finds the bit of a given offset when there is one.\<close>

lemma positions_shift:
  "set_positions (w :: 'a::len word)
     = (if bit w 0 then [0] else []) @ map Suc (set_positions (drop_bit 1 w))"
proof -
  have s: "[0..<LENGTH('a)] = 0 # map Suc [0..<LENGTH('a) - 1]"
    by (metis One_nat_def len_gt_0 map_Suc_upt upt_conv_Cons Suc_pred)
  have "set_positions (drop_bit 1 w) = filter (bit (drop_bit 1 w)) [0..<LENGTH('a) - 1]"
  proof -
    have "[0..<LENGTH('a)] = [0..<LENGTH('a) - 1] @ [LENGTH('a) - 1]"
      by (metis One_nat_def Suc_pred len_gt_0 upt_Suc_append zero_le)
    moreover have "\<not> bit (drop_bit 1 w) (LENGTH('a) - 1)"
      by (auto simp: bit_simps dest: bit_imp_le_length)
    ultimately show ?thesis by (simp add: set_positions_def)
  qed
  moreover have "filter (bit w) (map Suc xs) = map Suc (filter (bit (drop_bit 1 w)) xs)" for xs
    by (induction xs) (auto simp: bit_simps)
  ultimately show ?thesis unfolding set_positions_def [of w] s by simp
qed

lemma bitmap_digit_loop_nth:
  "n < length (set_positions w) \<Longrightarrow>
   bitmap_digit_loop w (int n) d = Some (d + set_positions w ! n)"
proof (induction "set_positions w ! n" arbitrary: w n d rule: less_induct)
  case less
  have odd: "uint (w AND 1) = of_bool (bit w 0)" by (simp add: and_one_eq mod_2_eq_odd bit_0)
  show ?case
  proof (cases "bit w 0 \<and> n = 0")
    case True
    then show ?thesis
      by (subst bitmap_digit_loop.simps) (simp add: odd positions_shift [of w])
  next
    case False
    define m where "m = n - of_bool (bit w 0)"
    have nth: "set_positions w ! n = Suc (set_positions (drop_bit 1 w) ! m)"
      and m: "m < length (set_positions (drop_bit 1 w))"
      using False less.prems positions_shift [of w] by (auto simp: m_def nth_Cons')
    have rem: "int n - of_bool (bit w 0) = int m" using False by (auto simp: m_def)
    show ?thesis
      using less.hyps [OF _ m, of "d + 1"] nth
      by (subst bitmap_digit_loop.simps) (simp add: odd rem)
  qed
qed


lemma JU_BITMAPDIGITB_nth:
  "n < length (set_positions bm) \<Longrightarrow> JU_BITMAPDIGITB k bm n = Some (32 * k + set_positions bm ! n)"
  by (simp add: JU_BITMAPDIGITB_def cJU_BITSPERSUBEXPB_def bitmap_digit_loop_nth mult.commute)

lemma JU_BITMAPDIGITL_nth:
  "n < length (set_positions bm) \<Longrightarrow> JU_BITMAPDIGITL k bm n = Some (64 * k + set_positions bm ! n)"
  by (simp add: JU_BITMAPDIGITL_def cJU_BITSPERSUBEXPL_def bitmap_digit_loop_nth mult.commute)

lemma set_positions_mask: "n \<le> LENGTH('a) \<Longrightarrow> set_positions (mask n :: 'a::len word) = [0..<n]"
proof -
  assume n: "n \<le> LENGTH('a)"
  have "filter (bit (mask n :: 'a word)) [0..<n] = [0..<n]"
    using n by (auto simp: filter_id_conv bit_simps)
  moreover have "filter (bit (mask n :: 'a word)) [n..<LENGTH('a)] = []" by (auto simp: filter_empty_conv bit_simps)
  moreover have "[0..<LENGTH('a)] = [0..<n] @ [n..<LENGTH('a)]"
    using n upt_add_eq_append [of 0 n "LENGTH('a) - n"] by simp
  ultimately show ?thesis by (simp add: set_positions_def)
qed

lemma set_positions_0 [simp]: "set_positions 0 = []"
  by (simp add: set_positions_def)

text \<open>A code equation for \<open>set_positions\<close> that halves the word.\<close>

fun odd_positions :: "nat \<Rightarrow> nat \<Rightarrow> nat \<Rightarrow> nat list" where
  "odd_positions i n x = (if x = 0 \<or> n = 0 then [] else if odd x then i # odd_positions (i + 1) (n - 1) (x div 2)
     else odd_positions (i + 1) (n - 1) (x div 2))"
declare odd_positions.simps [simp del]

lemma odd_positions_filter: "odd_positions i n x = map ((+) i) (filter (bit x) [0..<n])"
proof (induction i n x rule: odd_positions.induct)
  case (1 i n x)
  show ?case
  proof (cases "x = 0 \<or> n = 0")
    case True
    then show ?thesis by (subst odd_positions.simps) auto
  next
    case False
    then have n: "[0..<n] = 0 # map Suc [0..<n - 1]" by (metis Suc_pred map_Suc_upt neq0_conv upt_conv_Cons diff_Suc_1)
    have f: "filter (bit x) (map Suc xs) = map Suc (filter (bit (x div 2)) xs)" for xs
      by (induction xs) (auto simp: bit_Suc)
    have IH: "odd_positions (i + 1) (n - 1) (x div 2) = map ((+) (i + 1)) (filter (bit (x div 2)) [0..<n - 1])"
      using 1 False by blast
    have c: "(+) i \<circ> Suc = (+) (Suc i)" by auto
    show ?thesis using False
      by (subst odd_positions.simps) (simp add: IH [unfolded add_0_right] n f bit_0 c IH [simplified] del: upt.simps)
  qed
qed

lemma set_positions_code [code]: "set_positions (w :: 'a::len word) = odd_positions 0 LENGTH('a) (unat w)"
proof -
  have "bit w = bit (unat w)" by (simp add: fun_eq_iff bit_simps)
  then show ?thesis by (simp add: odd_positions_filter set_positions_def map_idI)
qed

section \<open>Properties\<close>

text \<open>The shift-and-add bit counts of bitmap branches and leaves return the number of set bits
  of the word, for every 32-bit and every 64-bit bitmap.\<close>

theorem count_bits_correct:
  "unat (j__udyCountBitsB b) = length (filter (bit b) [0..<32]) \<and>
   unat (j__udyCountBitsL l) = length (filter (bit l) [0..<64])"
  using count_bits_B [of b] count_bits_L [of l] by (simp add: set_positions_def)

text \<open>C38: The search of the n-th set bit inverts the count of the bits below a position: for a digit
  whose bit is set in the bitmap of its subexpanse, counting the set bits below it and searching
  the bit of that offset leads back to the digit; so digits and offsets of a bitmap branch or leaf
  correspond one to one.\<close>

theorem bitmap_digit_roundtrip:
  "(bit b (d mod 32) \<longrightarrow>
      JU_BITMAPDIGITB (d div 32) b (unat (j__udyCountBitsB (b AND (JU_BITPOSMASKB d - 1)))) = Some d) \<and>
   (bit l (e mod 64) \<longrightarrow>
      JU_BITMAPDIGITL (e div 64) l (unat (j__udyCountBitsL (l AND (JU_BITPOSMASKL e - 1)))) = Some e)"
  by (simp add: count_below_B count_below_L JU_BITMAPDIGITB_nth JU_BITMAPDIGITL_nth nth_bits_below)

theorem bitmap_digit_roundtrip_witness:
  "JU_BITMAPDIGITB 1 0x94 (unat (j__udyCountBitsB (0x94 AND (JU_BITPOSMASKB 36 - 1)))) = Some 36 \<and>
   JU_BITMAPDIGITL 1 0x8000000000000001 (unat (j__udyCountBitsL (0x8000000000000001 AND (JU_BITPOSMASKL 127 - 1))))
     = Some 127"
  using bitmap_digit_roundtrip [of "0x94" 36 "0x8000000000000001" 127] by simp

end
