(* ===== verification/JudyBytes.thy ===== *)
theory JudyBytes
  imports JudyWord
begin

text \<open>
  Leaves of the Judy library as memory (\<open>src/Judy/src/JudyCommon/JudyPrivate.h\<close>): arrays of native
  indexes, and arrays of bytes that hold indexes of 3, 5, 6 or 7 bytes, most significant byte
  first.  The macros that copy one index, and those that insert or delete one index in place or
  while copying, are loops of single assignments on a list; the lemmas show that on a packed leaf
  they are insertion and deletion of one list element.
\<close>

section \<open>Copying one index of a non-native size\<close>

definition JU_COPY3_PINDEX_TO_LONG :: "uint8 list \<Rightarrow> word_t" where
  "JU_COPY3_PINDEX_TO_LONG p =
     push_bit 16 (ucast (p ! 0)) + push_bit 8 (ucast (p ! 1)) + ucast (p ! 2)"

definition JU_COPY3_LONG_TO_PINDEX :: "word_t \<Rightarrow> uint8 list" where
  "JU_COPY3_LONG_TO_PINDEX w = [ucast (drop_bit 16 w), ucast (drop_bit 8 w), ucast w]"

definition JU_COPY5_PINDEX_TO_LONG :: "uint8 list \<Rightarrow> word_t" where
  "JU_COPY5_PINDEX_TO_LONG p =
     push_bit 32 (ucast (p ! 0)) + push_bit 24 (ucast (p ! 1)) + push_bit 16 (ucast (p ! 2))
     + push_bit 8 (ucast (p ! 3)) + ucast (p ! 4)"

definition JU_COPY5_LONG_TO_PINDEX :: "word_t \<Rightarrow> uint8 list" where
  "JU_COPY5_LONG_TO_PINDEX w =
     [ucast (drop_bit 32 w), ucast (drop_bit 24 w), ucast (drop_bit 16 w), ucast (drop_bit 8 w), ucast w]"

definition JU_COPY6_PINDEX_TO_LONG :: "uint8 list \<Rightarrow> word_t" where
  "JU_COPY6_PINDEX_TO_LONG p =
     push_bit 40 (ucast (p ! 0)) + push_bit 32 (ucast (p ! 1)) + push_bit 24 (ucast (p ! 2))
     + push_bit 16 (ucast (p ! 3)) + push_bit 8 (ucast (p ! 4)) + ucast (p ! 5)"

definition JU_COPY6_LONG_TO_PINDEX :: "word_t \<Rightarrow> uint8 list" where
  "JU_COPY6_LONG_TO_PINDEX w =
     [ucast (drop_bit 40 w), ucast (drop_bit 32 w), ucast (drop_bit 24 w), ucast (drop_bit 16 w),
      ucast (drop_bit 8 w), ucast w]"

definition JU_COPY7_PINDEX_TO_LONG :: "uint8 list \<Rightarrow> word_t" where
  "JU_COPY7_PINDEX_TO_LONG p =
     push_bit 48 (ucast (p ! 0)) + push_bit 40 (ucast (p ! 1)) + push_bit 32 (ucast (p ! 2))
     + push_bit 24 (ucast (p ! 3)) + push_bit 16 (ucast (p ! 4)) + push_bit 8 (ucast (p ! 5))
     + ucast (p ! 6)"

definition JU_COPY7_LONG_TO_PINDEX :: "word_t \<Rightarrow> uint8 list" where
  "JU_COPY7_LONG_TO_PINDEX w =
     [ucast (drop_bit 48 w), ucast (drop_bit 40 w), ucast (drop_bit 32 w), ucast (drop_bit 24 w),
      ucast (drop_bit 16 w), ucast (drop_bit 8 w), ucast w]"

section \<open>Inserting and deleting one index\<close>

text \<open>
  The loops move one index (\<open>n\<close> array elements, one for a native leaf) at a time, element by
  element.  \<open>move_index\<close> works in one array, \<open>copy_index\<close> from a source to a destination, and
  \<open>write_index\<close> stores the new index.
\<close>

definition move_index :: "nat \<Rightarrow> 'a list \<Rightarrow> nat \<Rightarrow> nat \<Rightarrow> 'a list" where
  "move_index n mem di si = fold (\<lambda>k m. m[di + k := m ! (si + k)]) [0..<n] mem"

definition copy_index :: "nat \<Rightarrow> 'a list \<Rightarrow> nat \<Rightarrow> 'a list \<Rightarrow> nat \<Rightarrow> 'a list" where
  "copy_index n dest di source si = fold (\<lambda>k d. d[di + k := source ! (si + k)]) [0..<n] dest"

definition write_index :: "'a list \<Rightarrow> nat \<Rightarrow> 'a list \<Rightarrow> 'a list" where
  "write_index mem di index = copy_index (length index) mem di index 0"

fun shift_up :: "nat \<Rightarrow> nat \<Rightarrow> nat \<Rightarrow> 'a list \<Rightarrow> 'a list" where
  "shift_up n offset 0 mem = mem"
| "shift_up n offset (Suc i_off) mem =
     (if Suc i_off > offset
      then shift_up n offset i_off (move_index n mem (i_off * n + n) (i_off * n)) else mem)"

definition JU_INSERTINPLACE :: "'a list \<Rightarrow> nat \<Rightarrow> nat \<Rightarrow> 'a \<Rightarrow> 'a list" where
  "JU_INSERTINPLACE parray pop1 offset index = (shift_up 1 offset pop1 parray)[offset := index]"

definition JU_INSERTINPLACE3 :: "uint8 list \<Rightarrow> nat \<Rightarrow> nat \<Rightarrow> word_t \<Rightarrow> uint8 list" where
  "JU_INSERTINPLACE3 pbyte pop1 offset index =
     write_index (shift_up 3 offset pop1 pbyte) (offset * 3) (JU_COPY3_LONG_TO_PINDEX index)"

definition JU_INSERTINPLACE5 :: "uint8 list \<Rightarrow> nat \<Rightarrow> nat \<Rightarrow> word_t \<Rightarrow> uint8 list" where
  "JU_INSERTINPLACE5 pbyte pop1 offset index =
     write_index (shift_up 5 offset pop1 pbyte) (offset * 5) (JU_COPY5_LONG_TO_PINDEX index)"

definition JU_INSERTINPLACE6 :: "uint8 list \<Rightarrow> nat \<Rightarrow> nat \<Rightarrow> word_t \<Rightarrow> uint8 list" where
  "JU_INSERTINPLACE6 pbyte pop1 offset index =
     write_index (shift_up 6 offset pop1 pbyte) (offset * 6) (JU_COPY6_LONG_TO_PINDEX index)"

definition JU_INSERTINPLACE7 :: "uint8 list \<Rightarrow> nat \<Rightarrow> nat \<Rightarrow> word_t \<Rightarrow> uint8 list" where
  "JU_INSERTINPLACE7 pbyte pop1 offset index =
     write_index (shift_up 7 offset pop1 pbyte) (offset * 7) (JU_COPY7_LONG_TO_PINDEX index)"

text \<open>Deletion moves single elements: \<open>PBYTE[b_off - cIS] = PBYTE[b_off]\<close> for ascending \<open>b_off\<close>.\<close>

fun shift_down :: "nat \<Rightarrow> nat \<Rightarrow> nat \<Rightarrow> 'a list \<Rightarrow> 'a list" where
  "shift_down n b_off 0 mem = mem"
| "shift_down n b_off (Suc k) mem = shift_down n (b_off + 1) k (mem[b_off - n := mem ! b_off])"

definition JU_DELETEINPLACE_ODD :: "'a list \<Rightarrow> nat \<Rightarrow> nat \<Rightarrow> nat \<Rightarrow> 'a list" where
  "JU_DELETEINPLACE_ODD pbyte pop1 offset cIS =
     shift_down cIS ((offset + 1) * cIS) (pop1 * cIS - (offset + 1) * cIS) pbyte"

definition JU_DELETEINPLACE :: "'a list \<Rightarrow> nat \<Rightarrow> nat \<Rightarrow> 'a list" where
  "JU_DELETEINPLACE parray pop1 offset = shift_down 1 (offset + 1) (pop1 - (offset + 1)) parray"

fun copy_up :: "nat \<Rightarrow> 'a list \<Rightarrow> 'a list \<Rightarrow> nat \<Rightarrow> nat \<Rightarrow> nat \<Rightarrow> 'a list" where
  "copy_up n dest source shift o_ff 0 = dest"
| "copy_up n dest source shift o_ff (Suc k) =
     copy_up n (copy_index n dest (o_ff * n + shift) source (o_ff * n)) source shift (o_ff + 1) k"

definition insertcopy_odd :: "nat \<Rightarrow> 'a list \<Rightarrow> 'a list \<Rightarrow> nat \<Rightarrow> nat \<Rightarrow> 'a list \<Rightarrow> 'a list" where
  "insertcopy_odd n pdest psource pop1 offset index =
     (let pdest = copy_up n pdest psource 0 0 offset;
          pdest = write_index pdest (offset * n) index
      in copy_up n pdest psource n offset (pop1 - offset))"

definition JU_INSERTCOPY :: "'a list \<Rightarrow> 'a list \<Rightarrow> nat \<Rightarrow> nat \<Rightarrow> 'a \<Rightarrow> 'a list" where
  "JU_INSERTCOPY pdest psource pop1 offset index =
     (let pdest = copy_up 1 pdest psource 0 0 offset;
          pdest = pdest[offset := index]
      in copy_up 1 pdest psource 1 offset (pop1 - offset))"

definition JU_INSERTCOPY3 :: "uint8 list \<Rightarrow> uint8 list \<Rightarrow> nat \<Rightarrow> nat \<Rightarrow> word_t \<Rightarrow> uint8 list" where
  "JU_INSERTCOPY3 pdest psource pop1 offset index =
     insertcopy_odd 3 pdest psource pop1 offset (JU_COPY3_LONG_TO_PINDEX index)"

definition JU_INSERTCOPY5 :: "uint8 list \<Rightarrow> uint8 list \<Rightarrow> nat \<Rightarrow> nat \<Rightarrow> word_t \<Rightarrow> uint8 list" where
  "JU_INSERTCOPY5 pdest psource pop1 offset index =
     insertcopy_odd 5 pdest psource pop1 offset (JU_COPY5_LONG_TO_PINDEX index)"

definition JU_INSERTCOPY6 :: "uint8 list \<Rightarrow> uint8 list \<Rightarrow> nat \<Rightarrow> nat \<Rightarrow> word_t \<Rightarrow> uint8 list" where
  "JU_INSERTCOPY6 pdest psource pop1 offset index =
     insertcopy_odd 6 pdest psource pop1 offset (JU_COPY6_LONG_TO_PINDEX index)"

definition JU_INSERTCOPY7 :: "uint8 list \<Rightarrow> uint8 list \<Rightarrow> nat \<Rightarrow> nat \<Rightarrow> word_t \<Rightarrow> uint8 list" where
  "JU_INSERTCOPY7 pdest psource pop1 offset index =
     insertcopy_odd 7 pdest psource pop1 offset (JU_COPY7_LONG_TO_PINDEX index)"

text \<open>\<open>JU_DELETECOPY_ODD\<close> advances the destination with \<open>_Pdest++\<close>, the source skips one index.\<close>

definition JU_DELETECOPY_ODD :: "'a list \<Rightarrow> 'a list \<Rightarrow> nat \<Rightarrow> nat \<Rightarrow> nat \<Rightarrow> 'a list" where
  "JU_DELETECOPY_ODD pdest psource pop1 offset cIS =
     (let pdest = copy_index (offset * cIS) pdest 0 psource 0
      in copy_index (pop1 * cIS - (offset * cIS + cIS)) pdest (offset * cIS) psource (offset * cIS + cIS))"

definition JU_DELETECOPY :: "'a list \<Rightarrow> 'a list \<Rightarrow> nat \<Rightarrow> nat \<Rightarrow> 'a list" where
  "JU_DELETECOPY pdest psource pop1 offset =
     (let pdest = copy_index offset pdest 0 psource 0
      in copy_index (pop1 - (offset + 1)) pdest offset psource (offset + 1))"

section \<open>The loops as list operations\<close>

lemma copy_index_eq:
  "di + n \<le> length dest \<Longrightarrow> si + n \<le> length source \<Longrightarrow>
   copy_index n dest di source si = take di dest @ take n (drop si source) @ drop (di + n) dest"
proof (induction n)
  case (Suc n)
  have "copy_index (Suc n) dest di source si = (copy_index n dest di source si)[di + n := source ! (si + n)]"
    by (simp add: copy_index_def)
  also have "\<dots> = (take di dest @ take n (drop si source) @ drop (di + n) dest)[di + n := source ! (si + n)]"
    using Suc by simp
  also have "\<dots> = take di dest @ take (Suc n) (drop si source) @ drop (di + Suc n) dest"
    using Suc.prems Cons_nth_drop_Suc [of "di + n" dest, symmetric]
    by (simp add: list_update_append take_Suc_conv_app_nth del: Cons_nth_drop_Suc)
  finally show ?case .
qed (simp add: copy_index_def)

lemma copy_index_start:
  "n \<le> length dest \<Longrightarrow> n \<le> length source \<Longrightarrow> copy_index n dest 0 source 0 = take n source @ drop n dest"
  by (simp add: copy_index_eq)

lemma move_index_copy:
  "si + n \<le> di \<Longrightarrow> move_index n mem di si = copy_index n mem di mem si"
proof (induction n)
  case (Suc n)
  have "length (copy_index n mem di mem si) = length mem" for n
    by (induction n) (simp_all add: copy_index_def)
  have u: "fold (\<lambda>k d. d[di + k := mem ! (si + k)]) ks mem ! j = mem ! j" if "j < di" for ks j
    using that by (induction ks rule: rev_induct) auto
  show ?case using Suc u [of "si + n" "[0..<n]"] by (simp add: move_index_def copy_index_def)
qed (simp add: move_index_def copy_index_def)

lemma length_copy_index: "length (copy_index n dest di source si) = length dest"
  unfolding copy_index_def by (induction n) simp_all

lemma nth_copy_index:
  "di + n \<le> length dest \<Longrightarrow> j < length dest \<Longrightarrow>
   copy_index n dest di source si ! j = (if di \<le> j \<and> j < di + n then source ! (si + (j - di)) else dest ! j)"
proof (induction n)
  case (Suc n)
  have "copy_index (Suc n) dest di source si = (copy_index n dest di source si)[di + n := source ! (si + n)]"
    by (simp add: copy_index_def)
  then show ?case using Suc by (auto simp: nth_list_update length_copy_index)
qed (auto simp: copy_index_def)

lemma shift_up_nth:
  "offset \<le> i \<Longrightarrow> i * n + n \<le> length mem \<Longrightarrow>
   length (shift_up n offset i mem) = length mem \<and>
   (\<forall>j < length mem. shift_up n offset i mem ! j
      = (if offset * n + n \<le> j \<and> j < i * n + n then mem ! (j - n) else mem ! j))"
proof (induction i arbitrary: mem)
  case (Suc i)
  show ?case
  proof (cases "Suc i > offset")
    case True
    define m where "m = move_index n mem (i * n + n) (i * n)"
    have mc: "m = copy_index n mem (i * n + n) mem (i * n)" by (simp add: m_def move_index_copy)
    have m: "length m = length mem" by (simp add: mc length_copy_index)
    have mn: "m ! j = (if i * n + n \<le> j \<and> j < i * n + n + n then mem ! (j - n) else mem ! j)"
      if "j < length mem" for j
      using Suc.prems that by (auto simp: mc nth_copy_index intro!: arg_cong [of _ _ "(!) mem"])
    have "offset * n \<le> i * n" using True by simp
    then have le': "i * n + n \<le> j \<Longrightarrow> offset * n + n \<le> j" for j by linarith
    have IH: "length (shift_up n offset i m) = length m \<and> (\<forall>j < length m. shift_up n offset i m ! j
      = (if offset * n + n \<le> j \<and> j < i * n + n then m ! (j - n) else m ! j))"
      using Suc.prems True by (intro Suc.IH) (auto simp: m)
    show ?thesis
    proof (intro conjI allI impI)
      show "length (shift_up n offset (Suc i) mem) = length mem" using True IH m by (simp flip: m_def)
      fix j assume j: "j < length mem"
      have "shift_up n offset (Suc i) mem ! j
          = (if offset * n + n \<le> j \<and> j < i * n + n then m ! (j - n) else m ! j)"
        using True IH m j by (simp flip: m_def)
      moreover have "m ! (j - n) = mem ! (j - n)" if "j < i * n + n"
        using mn [of "j - n"] j that by auto
      ultimately show "shift_up n offset (Suc i) mem ! j
          = (if offset * n + n \<le> j \<and> j < Suc i * n + n then mem ! (j - n) else mem ! j)"
        using j le' mn [of j] by simp
    qed
  next
    case False
    then have "offset = Suc i" using Suc.prems by simp
    then show ?thesis by auto
  qed
qed auto

lemma shift_up_eq:
  assumes "offset \<le> i" "i * n + n \<le> length mem"
  shows "shift_up n offset i mem
    = take (offset * n + n) mem @ take ((i - offset) * n) (drop (offset * n) mem) @ drop (i * n + n) mem"
    (is "_ = ?r")
proof -
  have le: "offset * n \<le> i * n" "(i - offset) * n = i * n - offset * n"
    using assms(1) by (simp_all add: diff_mult_distrib)
  note nth = shift_up_nth [OF assms]
  show ?thesis
  proof (rule nth_equalityI)
    show len: "length (shift_up n offset i mem) = length ?r" using nth assms(2) le by simp
    fix j assume "j < length (shift_up n offset i mem)"
    then show "shift_up n offset i mem ! j = ?r ! j"
      using nth assms(2) le by (auto simp: nth_append min_def intro!: arg_cong [of _ _ "(!) mem"])
  qed
qed

lemma shift_down_nth:
  "b_off + k \<le> length mem \<Longrightarrow> n \<le> b_off \<Longrightarrow> 0 < n \<Longrightarrow>
   length (shift_down n b_off k mem) = length mem \<and>
   (\<forall>j < length mem. shift_down n b_off k mem ! j
      = (if b_off \<le> j + n \<and> j + n < b_off + k then mem ! (j + n) else mem ! j))"
proof (induction k arbitrary: b_off mem)
  case (Suc k)
  let ?m = "mem[b_off - n := mem ! b_off]"
  have IH: "length (shift_down n (b_off + 1) k ?m) = length ?m \<and>
   (\<forall>j < length ?m. shift_down n (b_off + 1) k ?m ! j
      = (if b_off + 1 \<le> j + n \<and> j + n < b_off + 1 + k then ?m ! (j + n) else ?m ! j))"
    using Suc.prems by (intro Suc.IH) auto
  show ?case using IH Suc.prems by (auto simp: nth_list_update intro!: arg_cong [of _ _ "(!) mem"])
qed auto

lemma shift_down_eq:
  assumes "b_off + k \<le> length mem" "n \<le> b_off" "0 < n"
  shows "shift_down n b_off k mem
    = take (b_off - n) mem @ take k (drop b_off mem) @ drop (b_off - n + k) mem" (is "_ = ?r")
proof -
  note nth = shift_down_nth [OF assms]
  show ?thesis
  proof (rule nth_equalityI)
    show "length (shift_down n b_off k mem) = length ?r" using nth assms by simp
    fix j assume "j < length (shift_down n b_off k mem)"
    then show "shift_down n b_off k mem ! j = ?r ! j"
      using nth assms by (auto simp: nth_append min_def intro!: arg_cong [of _ _ "(!) mem"])
  qed
qed

lemma copy_up_eq:
  "o_ff * n + shift + k * n \<le> length dest \<Longrightarrow> (o_ff + k) * n \<le> length source \<Longrightarrow>
   copy_up n dest source shift o_ff k = copy_index (k * n) dest (o_ff * n + shift) source (o_ff * n)"
proof (induction k arbitrary: o_ff dest)
  case (Suc k)
  have "copy_up n dest source shift o_ff (Suc k)
    = copy_index (k * n) (copy_index n dest (o_ff * n + shift) source (o_ff * n)) ((o_ff + 1) * n + shift) source ((o_ff + 1) * n)"
    using Suc.prems by (simp add: Suc.IH length_copy_index algebra_simps)
  also have "\<dots> = copy_index (Suc k * n) dest (o_ff * n + shift) source (o_ff * n)"
    using Suc.prems by (intro nth_equalityI)
      (auto simp: nth_copy_index length_copy_index algebra_simps intro!: arg_cong [of _ _ "(!) source"])
  finally show ?case .
qed (simp add: copy_index_def)


section \<open>Packed leaves\<close>

text \<open>The bytes of an index of \<open>n\<close> bytes and of a leaf of such indexes.\<close>

definition index_bytes :: "nat \<Rightarrow> word_t \<Rightarrow> uint8 list" where
  "index_bytes n w = map (\<lambda>k. ucast (drop_bit (8 * (n - 1 - k)) w)) [0..<n]"

definition pack_leaf :: "nat \<Rightarrow> word_t list \<Rightarrow> uint8 list" where
  "pack_leaf n keys = concat (map (index_bytes n) keys)"

lemma length_index_bytes [simp]: "length (index_bytes n w) = n"
  by (simp add: index_bytes_def)

lemma length_pack_leaf [simp]: "length (pack_leaf n keys) = length keys * n"
  unfolding pack_leaf_def by (induction keys) auto

lemma pack_leaf_Nil [simp]: "pack_leaf n [] = []"
  by (simp add: pack_leaf_def)

lemma pack_leaf_append [simp]: "pack_leaf n (xs @ ys) = pack_leaf n xs @ pack_leaf n ys"
  by (simp add: pack_leaf_def)

lemma pack_leaf_Cons [simp]: "pack_leaf n (x # xs) = index_bytes n x @ pack_leaf n xs"
  by (simp add: pack_leaf_def)

lemma take_pack_leaf: "take (i * n) (pack_leaf n keys) = pack_leaf n (take i keys)"
proof (cases "i \<le> length keys")
  case True
  then have "pack_leaf n keys = pack_leaf n (take i keys) @ pack_leaf n (drop i keys)"
    by (simp flip: pack_leaf_append)
  then show ?thesis using True by simp
qed (simp add: mult_le_mono)

lemma drop_pack_leaf: "drop (i * n) (pack_leaf n keys) = pack_leaf n (drop i keys)"
proof (cases "i \<le> length keys")
  case True
  then have "pack_leaf n keys = pack_leaf n (take i keys) @ pack_leaf n (drop i keys)"
    by (simp flip: pack_leaf_append)
  then show ?thesis using True by simp
qed (simp add: mult_le_mono)

lemma copy_bytes_eq:
  "JU_COPY3_LONG_TO_PINDEX w = index_bytes 3 w" "JU_COPY5_LONG_TO_PINDEX w = index_bytes 5 w"
  "JU_COPY6_LONG_TO_PINDEX w = index_bytes 6 w" "JU_COPY7_LONG_TO_PINDEX w = index_bytes 7 w"
  by (simp_all add: JU_COPY3_LONG_TO_PINDEX_def JU_COPY5_LONG_TO_PINDEX_def JU_COPY6_LONG_TO_PINDEX_def
      JU_COPY7_LONG_TO_PINDEX_def index_bytes_def upt_rec)

lemma write_index_eq:
  "pos + length ix \<le> length mem \<Longrightarrow> write_index mem pos ix = take pos mem @ ix @ drop (pos + length ix) mem"
  by (simp add: write_index_def copy_index_eq)

lemma write_index_append:
  "length a = pos + length ix \<Longrightarrow> write_index (a @ d) pos ix = take pos a @ ix @ d"
  by (simp add: write_index_eq)

lemma insertinplace_packed:
  assumes "offset \<le> length keys" "n \<le> length slack"
  shows "write_index (shift_up n offset (length keys) (pack_leaf n keys @ slack)) (offset * n) (index_bytes n w)
    = pack_leaf n (take offset keys @ w # drop offset keys) @ drop n slack"
proof -
  have le: "offset * n \<le> length keys * n" using assms(1) by simp
  have "shift_up n offset (length keys) (pack_leaf n keys @ slack)
    = take (offset * n + n) (pack_leaf n keys @ slack) @ take ((length keys - offset) * n) (drop (offset * n) (pack_leaf n keys @ slack))
      @ drop (length keys * n + n) (pack_leaf n keys @ slack)"
    using assms by (intro shift_up_eq) auto
  also have "take ((length keys - offset) * n) (drop (offset * n) (pack_leaf n keys @ slack)) = pack_leaf n (drop offset keys)"
    using le by (simp add: drop_pack_leaf diff_mult_distrib)
  finally have s: "shift_up n offset (length keys) (pack_leaf n keys @ slack)
    = take (offset * n + n) (pack_leaf n keys @ slack) @ pack_leaf n (drop offset keys) @ drop n slack"
    by simp
  have "take (offset * n) (take (offset * n + n) (pack_leaf n keys @ slack)) = pack_leaf n (take offset keys)"
    using le by (simp add: take_pack_leaf)
  moreover have "offset * n + n \<le> length (pack_leaf n keys @ slack)" using le assms(2) by (simp only: length_append length_pack_leaf)
  then have "length (take (offset * n + n) (pack_leaf n keys @ slack)) = offset * n + length (index_bytes n w)"
    by (simp only: length_take min_absorb2 length_index_bytes)
  note write_index_append [OF this]
  ultimately show ?thesis unfolding s by (simp only: pack_leaf_append pack_leaf_Cons append_assoc)
qed

lemma deleteinplace_packed:
  assumes "offset < length keys" "0 < n"
  shows "JU_DELETEINPLACE_ODD (pack_leaf n keys) (length keys) offset n
    = pack_leaf n (take offset keys @ drop (offset + 1) keys)
      @ drop ((length keys - 1) * n) (pack_leaf n keys)"
proof -
  have le: "(offset + 1) * n \<le> length keys * n" using assms(1) by (intro mult_le_mono1) simp
  have "JU_DELETEINPLACE_ODD (pack_leaf n keys) (length keys) offset n
    = take ((offset + 1) * n - n) (pack_leaf n keys)
      @ take (length keys * n - (offset + 1) * n) (drop ((offset + 1) * n) (pack_leaf n keys))
      @ drop ((offset + 1) * n - n + (length keys * n - (offset + 1) * n)) (pack_leaf n keys)"
    unfolding JU_DELETEINPLACE_ODD_def using le assms(2) by (intro shift_down_eq) auto
  moreover have "(offset + 1) * n - n = offset * n" by simp
  moreover have "offset * n + (length keys * n - (offset + 1) * n) = (length keys - 1) * n"
    using le by (simp add: diff_mult_distrib)
  ultimately show ?thesis by (simp only: take_pack_leaf drop_pack_leaf) (simp add: diff_mult_distrib)
qed

lemma insertcopy_packed:
  assumes "offset \<le> length keys" "length dest = (length keys + 1) * n"
  shows "insertcopy_odd n dest (pack_leaf n keys) (length keys) offset (index_bytes n w)
    = pack_leaf n (take offset keys @ w # drop offset keys)"
proof -
  have le: "offset * n \<le> length keys * n" using assms(1) by simp
  have d: "(length keys - offset) * n = length keys * n - offset * n" by (simp add: diff_mult_distrib)
  have len: "length dest = length keys * n + n" using assms(2) by simp
  define d1 where "d1 = copy_up n dest (pack_leaf n keys) 0 0 offset"
  have d1: "d1 = pack_leaf n (take offset keys) @ drop (offset * n) dest"
  proof -
    have c: "0 * n + 0 + offset * n \<le> length dest" using le len by linarith
    have c2: "(0 + offset) * n \<le> length (pack_leaf n keys)" using le by (simp only: length_pack_leaf add_0)
    show ?thesis unfolding d1_def copy_up_eq [OF c c2] mult_0 add_0
      using copy_index_start [OF c [simplified] c2 [unfolded add_0]] by (simp add: take_pack_leaf)
  qed
  define d2 where "d2 = write_index d1 (offset * n) (index_bytes n w)"
  have d2: "d2 = pack_leaf n (take offset keys) @ index_bytes n w @ drop (offset * n + n) dest"
  proof -
    have "length d1 = offset * n + (length dest - offset * n)" unfolding d1 using assms(1) by (simp add: min_absorb2)
    then have "offset * n + length (index_bytes n w) \<le> length d1" using le len by (simp only: length_index_bytes)
    then have "d2 = take (offset * n) d1 @ index_bytes n w @ drop (offset * n + n) d1"
      unfolding d2_def by (subst write_index_eq) simp_all
    then show ?thesis unfolding d1 using assms(1) by (simp add: min_absorb2 add.commute)
  qed
  have "offset * n + n \<le> length dest" using le len by linarith
  then have "length d2 = length dest" unfolding d2 using assms(1) by (simp add: min_absorb2)
  then have "copy_up n d2 (pack_leaf n keys) n offset (length keys - offset)
    = copy_index ((length keys - offset) * n) d2 (offset * n + n) (pack_leaf n keys) (offset * n)"
    using le len assms(1) by (intro copy_up_eq) (simp_all add: d)
  also have "\<dots> = take (offset * n + n) d2 @ take ((length keys - offset) * n) (drop (offset * n) (pack_leaf n keys))
      @ drop (offset * n + n + (length keys - offset) * n) d2"
    using le len \<open>length d2 = length dest\<close> by (intro copy_index_eq) (simp_all add: d)
  also have "drop (offset * n + n + (length keys - offset) * n) d2 = []"
    using le len \<open>length d2 = length dest\<close> by (simp add: d)
  also have "take (offset * n + n) d2 = pack_leaf n (take offset keys) @ index_bytes n w"
    unfolding d2 using assms(1) by (simp add: min_absorb2)
  also have "take ((length keys - offset) * n) (drop (offset * n) (pack_leaf n keys)) = pack_leaf n (drop offset keys)"
    by (simp add: drop_pack_leaf)
  finally show ?thesis by (simp add: insertcopy_odd_def Let_def flip: d1_def d2_def)
qed

lemma deletecopy_packed:
  assumes "offset < length keys" "length dest = (length keys - 1) * n"
  shows "JU_DELETECOPY_ODD dest (pack_leaf n keys) (length keys) offset n
    = pack_leaf n (take offset keys @ drop (offset + 1) keys)"
proof -
  have le: "offset * n + n \<le> length keys * n" using assms(1) mult_le_mono1 [of "Suc offset" "length keys" n] by simp
  have len: "length dest = length keys * n - n" using assms(2) by (simp add: diff_mult_distrib)
  have d1: "copy_index (offset * n) dest 0 (pack_leaf n keys) 0
      = pack_leaf n (take offset keys) @ drop (offset * n) dest"
  proof -
    have "offset * n \<le> length keys * n" using le by linarith
    then have c: "offset * n \<le> length (pack_leaf n keys)" by (simp only: length_pack_leaf)
    have "offset * n \<le> length dest" using le len by linarith
    from copy_index_start [OF this c] show ?thesis by (simp add: take_pack_leaf)
  qed
  have r: "take (length keys * n - (offset * n + n)) (drop (offset * n + n) (pack_leaf n keys)) = pack_leaf n (drop (offset + 1) keys)"
    using drop_pack_leaf [of "offset + 1" n keys] le by (simp add: add.commute diff_mult_distrib)
  show ?thesis
    unfolding JU_DELETECOPY_ODD_def Let_def d1
    using le len assms(1) r by (subst copy_index_eq) (simp_all add: min_absorb2 diff_mult_distrib)
qed

section \<open>Reading an index back\<close>

lemma unat_byte_less: "unat (b :: uint8) < 256"
  using unsigned_less [of b, where 'a = nat] by simp

lemma digit_step: "(x div 256 ^ j mod 256) * 256 ^ j + x mod 256 ^ j = x mod (256::nat) ^ Suc j"
  by (metis add.commute mod_mult2_eq mult.commute power_Suc2)

lemma digits_mod:
  fixes x :: nat
  defines "d \<equiv> \<lambda>j. (x div 256 ^ j mod 256) * 256 ^ j"
  shows "d 2 + d 1 + d 0 = x mod 256 ^ 3"
    and "d 4 + d 3 + d 2 + d 1 + d 0 = x mod 256 ^ 5"
    and "d 5 + d 4 + d 3 + d 2 + d 1 + d 0 = x mod 256 ^ 6"
    and "d 6 + d 5 + d 4 + d 3 + d 2 + d 1 + d 0 = x mod 256 ^ 7"
proof -
  have s: "d j + x mod 256 ^ j = x mod 256 ^ Suc j" for j unfolding d_def by (rule digit_step)
  note add = add.assoc
  have 1: "d 0 = x mod 256 ^ Suc 0" using s [of 0] by simp
  have 2: "d 1 + d 0 = x mod 256 ^ 2" unfolding 1 One_nat_def s by (simp only: numeral_2_eq_2)
  show 3: "d 2 + d 1 + d 0 = x mod 256 ^ 3" unfolding add 2 s by (simp only: Suc_numeral semiring_norm)
  have 4: "d 3 + d 2 + d 1 + d 0 = x mod 256 ^ 4" unfolding add 3 [unfolded add] s by (simp only: Suc_numeral semiring_norm)
  show 5: "d 4 + d 3 + d 2 + d 1 + d 0 = x mod 256 ^ 5" unfolding add 4 [unfolded add] s by (simp only: Suc_numeral semiring_norm)
  show 6: "d 5 + d 4 + d 3 + d 2 + d 1 + d 0 = x mod 256 ^ 6" unfolding add 5 [unfolded add] s by (simp only: Suc_numeral semiring_norm)
  show 7: "d 6 + d 5 + d 4 + d 3 + d 2 + d 1 + d 0 = x mod 256 ^ 7" unfolding add 6 [unfolded add] s by (simp only: Suc_numeral semiring_norm)
qed

lemma unat_byte_at: "unat (ucast (drop_bit (8 * j) w) :: uint8) = unat (w :: word_t) div 256 ^ j mod 256"
proof -
  have "unat (ucast (drop_bit (8 * j) w) :: uint8) = take_bit 8 (drop_bit (8 * j) (unat w))"
    by (simp only: unsigned_ucast_eq unat_drop_bit_eq) simp
  then show ?thesis by (simp add: take_bit_eq_mod drop_bit_eq_div power_256)
qed

lemma bytes_at:
  "unat (ucast (w :: word_t) :: uint8) = unat w mod 256"
  "unat (ucast (drop_bit 8 w) :: uint8) = unat w div 256 mod 256"
  "unat (ucast (drop_bit 16 w) :: uint8) = unat w div 256 ^ 2 mod 256"
  "unat (ucast (drop_bit 24 w) :: uint8) = unat w div 256 ^ 3 mod 256"
  "unat (ucast (drop_bit 32 w) :: uint8) = unat w div 256 ^ 4 mod 256"
  "unat (ucast (drop_bit 40 w) :: uint8) = unat w div 256 ^ 5 mod 256"
  "unat (ucast (drop_bit 48 w) :: uint8) = unat w div 256 ^ 6 mod 256"
  subgoal using unat_byte_at [of 0 w] by simp
  subgoal using unat_byte_at [of 1 w] by simp
  subgoal using unat_byte_at [of 2 w] by simp
  subgoal using unat_byte_at [of 3 w] by simp
  subgoal using unat_byte_at [of 4 w] by simp
  subgoal using unat_byte_at [of 5 w] by simp
  subgoal using unat_byte_at [of 6 w] by simp
  done

lemma push_words:
  "push_bit 8 (word_of_nat n) = (word_of_nat (n * 256) :: word_t)"
  "push_bit 16 (word_of_nat n) = (word_of_nat (n * 256 ^ 2) :: word_t)"
  "push_bit 24 (word_of_nat n) = (word_of_nat (n * 256 ^ 3) :: word_t)"
  "push_bit 32 (word_of_nat n) = (word_of_nat (n * 256 ^ 4) :: word_t)"
  "push_bit 40 (word_of_nat n) = (word_of_nat (n * 256 ^ 5) :: word_t)"
  "push_bit 48 (word_of_nat n) = (word_of_nat (n * 256 ^ 6) :: word_t)"
  by (simp_all add: push_bit_eq_mult)

lemma ucast_byte: "ucast (b :: uint8) = (word_of_nat (unat b) :: word_t)"
  by simp

lemma bytes_sum:
  fixes a b c d e f g :: uint8
  shows "unat (push_bit 16 (ucast a) + push_bit 8 (ucast b) + ucast c :: word_t)
      = unat a * 256 ^ 2 + unat b * 256 + unat c" (is "unat ?w3 = ?n3")
    and "unat (push_bit 32 (ucast a) + push_bit 24 (ucast b) + push_bit 16 (ucast c) + push_bit 8 (ucast d)
        + ucast e :: word_t)
      = unat a * 256 ^ 4 + unat b * 256 ^ 3 + unat c * 256 ^ 2 + unat d * 256 + unat e" (is "unat ?w5 = ?n5")
    and "unat (push_bit 40 (ucast a) + push_bit 32 (ucast b) + push_bit 24 (ucast c) + push_bit 16 (ucast d)
        + push_bit 8 (ucast e) + ucast f :: word_t)
      = unat a * 256 ^ 5 + unat b * 256 ^ 4 + unat c * 256 ^ 3 + unat d * 256 ^ 2 + unat e * 256 + unat f"
    (is "unat ?w6 = ?n6")
    and "unat (push_bit 48 (ucast a) + push_bit 40 (ucast b) + push_bit 32 (ucast c) + push_bit 24 (ucast d)
        + push_bit 16 (ucast e) + push_bit 8 (ucast f) + ucast g :: word_t)
      = unat a * 256 ^ 6 + unat b * 256 ^ 5 + unat c * 256 ^ 4 + unat d * 256 ^ 3 + unat e * 256 ^ 2
        + unat f * 256 + unat g" (is "unat ?w7 = ?n7")
proof -
  note less = unat_byte_less [of a] unat_byte_less [of b] unat_byte_less [of c] unat_byte_less [of d]
    unat_byte_less [of e] unat_byte_less [of f] unat_byte_less [of g]
  have u: "unat (word_of_nat n :: word_t) = n" if "n < 2 ^ 64" for n
    using that by (simp add: unat_of_nat)
  have w: "?w3 = word_of_nat ?n3" "?w5 = word_of_nat ?n5" "?w6 = word_of_nat ?n6" "?w7 = word_of_nat ?n7"
    by (simp_all only: ucast_byte push_words of_nat_add)
  have "?n3 < 2 ^ 64" using less by simp
  then show "unat ?w3 = ?n3" unfolding w by (rule u)
  have "?n5 < 2 ^ 64" using less by simp
  then show "unat ?w5 = ?n5" unfolding w by (rule u)
  have "?n6 < 2 ^ 64" using less by simp
  then show "unat ?w6 = ?n6" unfolding w by (rule u)
  have "?n7 < 2 ^ 64" using less by simp
  then show "unat ?w7 = ?n7" unfolding w by (rule u)
qed

lemma copy_elements:
  "JU_COPY3_PINDEX_TO_LONG [a, b, c] = push_bit 16 (ucast a) + push_bit 8 (ucast b) + ucast c"
  "JU_COPY5_PINDEX_TO_LONG [a, b, c, d, e] = push_bit 32 (ucast a) + push_bit 24 (ucast b) + push_bit 16 (ucast c) + push_bit 8 (ucast d) + ucast e"
  "JU_COPY6_PINDEX_TO_LONG [a, b, c, d, e, f] = push_bit 40 (ucast a) + push_bit 32 (ucast b) + push_bit 24 (ucast c) + push_bit 16 (ucast d) + push_bit 8 (ucast e) + ucast f"
  "JU_COPY7_PINDEX_TO_LONG [a, b, c, d, e, f, g] = push_bit 48 (ucast a) + push_bit 40 (ucast b) + push_bit 32 (ucast c) + push_bit 24 (ucast d) + push_bit 16 (ucast e) + push_bit 8 (ucast f) + ucast g"
  by (simp_all add: JU_COPY3_PINDEX_TO_LONG_def JU_COPY5_PINDEX_TO_LONG_def JU_COPY6_PINDEX_TO_LONG_def
      JU_COPY7_PINDEX_TO_LONG_def)

lemma pindex_reads:
  "JU_COPY3_PINDEX_TO_LONG (JU_COPY3_LONG_TO_PINDEX w) = JU_LEASTBYTES w 3"
  "JU_COPY5_PINDEX_TO_LONG (JU_COPY5_LONG_TO_PINDEX w) = JU_LEASTBYTES w 5"
  "JU_COPY6_PINDEX_TO_LONG (JU_COPY6_LONG_TO_PINDEX w) = JU_LEASTBYTES w 6"
  "JU_COPY7_PINDEX_TO_LONG (JU_COPY7_LONG_TO_PINDEX w) = JU_LEASTBYTES w 7"
proof -
  note d = digits_mod [of "unat w", unfolded power_0 div_by_1 mult_1_right power_one_right]
  have l: "unat (JU_LEASTBYTES w 3) = unat w mod 256 ^ 3" "unat (JU_LEASTBYTES w 5) = unat w mod 256 ^ 5"
    "unat (JU_LEASTBYTES w 6) = unat w mod 256 ^ 6" "unat (JU_LEASTBYTES w 7) = unat w mod 256 ^ 7"
    by (rule unat_leastbytes; simp)+
  show "JU_COPY3_PINDEX_TO_LONG (JU_COPY3_LONG_TO_PINDEX w) = JU_LEASTBYTES w 3"
    unfolding word_unat_eq_iff JU_COPY3_LONG_TO_PINDEX_def copy_elements bytes_sum bytes_at(2-7)
    unfolding bytes_at(1) d l ..
  show "JU_COPY5_PINDEX_TO_LONG (JU_COPY5_LONG_TO_PINDEX w) = JU_LEASTBYTES w 5"
    unfolding word_unat_eq_iff JU_COPY5_LONG_TO_PINDEX_def copy_elements bytes_sum bytes_at(2-7)
    unfolding bytes_at(1) d l ..
  show "JU_COPY6_PINDEX_TO_LONG (JU_COPY6_LONG_TO_PINDEX w) = JU_LEASTBYTES w 6"
    unfolding word_unat_eq_iff JU_COPY6_LONG_TO_PINDEX_def copy_elements bytes_sum bytes_at(2-7)
    unfolding bytes_at(1) d l ..
  show "JU_COPY7_PINDEX_TO_LONG (JU_COPY7_LONG_TO_PINDEX w) = JU_LEASTBYTES w 7"
    unfolding word_unat_eq_iff JU_COPY7_LONG_TO_PINDEX_def copy_elements bytes_sum bytes_at(2-7)
    unfolding bytes_at(1) d l ..
qed

text \<open>Writing an index into a leaf of 3-, 5-, 6- or 7-byte indexes and reading it back yields
  its least significant 3, 5, 6 or 7 bytes (\<open>JU_LEASTBYTES\<close>).\<close>

theorem pindex_roundtrip:
  "JU_COPY3_PINDEX_TO_LONG (JU_COPY3_LONG_TO_PINDEX w) = JU_LEASTBYTES w 3 \<and>
   JU_COPY5_PINDEX_TO_LONG (JU_COPY5_LONG_TO_PINDEX w) = JU_LEASTBYTES w 5 \<and>
   JU_COPY6_PINDEX_TO_LONG (JU_COPY6_LONG_TO_PINDEX w) = JU_LEASTBYTES w 6 \<and>
   JU_COPY7_PINDEX_TO_LONG (JU_COPY7_LONG_TO_PINDEX w) = JU_LEASTBYTES w 7"
  by (simp only: pindex_reads)

lemma overlay_parts:
  "length xs = a \<Longrightarrow> take a ((xs @ drop a ys) @ zs) = xs"
  "length xs = a \<Longrightarrow> a \<le> length ys \<Longrightarrow> drop (length ys) ((xs @ drop a ys) @ zs) = zs"
  by simp_all

lemma deleteinplace_packed_slack:
  assumes "offset < length keys" "0 < n"
  shows "take ((length keys - 1) * n) (JU_DELETEINPLACE_ODD (pack_leaf n keys @ slack) (length keys) offset n)
      = pack_leaf n (take offset keys @ drop (offset + 1) keys)"
    and "drop (length keys * n) (JU_DELETEINPLACE_ODD (pack_leaf n keys @ slack) (length keys) offset n) = slack"
proof -
  have le: "(offset + 1) * n \<le> length keys * n" using assms(1) by (intro mult_le_mono1) simp
  have "offset \<le> length keys" using assms(1) by simp
  then have e: "JU_DELETEINPLACE_ODD (pack_leaf n keys @ slack) (length keys) offset n
      = JU_DELETEINPLACE_ODD (pack_leaf n keys) (length keys) offset n @ slack"
    unfolding JU_DELETEINPLACE_ODD_def using le assms(2) by (subst (1 2) shift_down_eq) (auto simp: diff_mult_distrib)
  have l: "length (pack_leaf n (take offset keys @ drop (offset + 1) keys)) = (length keys - 1) * n"
    unfolding length_pack_leaf using assms(1) by (intro arg_cong [of _ _ "\<lambda>x. x * n"]) simp
  have "(length keys - 1) * n \<le> length keys * n" by (intro mult_le_mono1) simp
  then show "take ((length keys - 1) * n) (JU_DELETEINPLACE_ODD (pack_leaf n keys @ slack) (length keys) offset n)
      = pack_leaf n (take offset keys @ drop (offset + 1) keys)"
    and "drop (length keys * n) (JU_DELETEINPLACE_ODD (pack_leaf n keys @ slack) (length keys) offset n) = slack"
    unfolding e deleteinplace_packed [OF assms] using overlay_parts(1) [OF l] overlay_parts(2) [OF l, of "pack_leaf n keys"] by (simp_all only: length_pack_leaf)
qed

lemma deleteinplace_native:
  assumes "offset < length xs"
  shows "JU_DELETEINPLACE (xs @ slack) (length xs) offset
      = take offset xs @ drop (offset + 1) xs @ drop (length xs - 1) (xs @ slack)"
proof -
  have "JU_DELETEINPLACE (xs @ slack) (length xs) offset = take (offset + 1 - 1) (xs @ slack)
      @ take (length xs - (offset + 1)) (drop (offset + 1) (xs @ slack))
      @ drop (offset + 1 - 1 + (length xs - (offset + 1))) (xs @ slack)"
    unfolding JU_DELETEINPLACE_def using assms by (intro shift_down_eq) auto
  then show ?thesis using assms by simp
qed

lemma insertinplace_native:
  assumes "offset \<le> length xs" "0 < length slack"
  shows "JU_INSERTINPLACE (xs @ slack) (length xs) offset x = take offset xs @ x # drop offset xs @ drop 1 slack"
proof -
  have "shift_up 1 offset (length xs) (xs @ slack) = take (offset * 1 + 1) (xs @ slack)
      @ take ((length xs - offset) * 1) (drop (offset * 1) (xs @ slack)) @ drop (length xs * 1 + 1) (xs @ slack)"
    using assms by (intro shift_up_eq) (auto simp: Suc_le_eq)
  then have s: "shift_up 1 offset (length xs) (xs @ slack) = take (Suc offset) (xs @ slack) @ drop offset xs @ drop 1 slack"
    using assms(1) by simp
  have "offset < length (xs @ slack)" using assms unfolding length_append by linarith
  then have "take (Suc offset) (xs @ slack) = take offset xs @ [(xs @ slack) ! offset]"
    using assms(1) by (simp only: take_Suc_conv_app_nth) simp
  then show ?thesis unfolding JU_INSERTINPLACE_def s using assms(1) by (simp add: list_update_append)
qed

text \<open>C24: Inserting an index in place into a leaf that has room for one more moves the indexes from the
  offset on up by one and stores the new one there, deleting one moves those behind it down by one: the leaf
  then holds the index list with the index inserted at the offset, or without the index at the offset, and the
  memory behind the leaf is untouched.  This holds of the leaves of 3-, 5-, 6- or 7-byte indexes, packed into
  bytes (deletion is one macro for every index size), and of the native arrays, which hold indexes or values.\<close>

theorem inplace_correct:
  assumes "offset \<le> length keys" "7 \<le> length slack" "length vals = length keys" "0 < length more"
  shows "JU_INSERTINPLACE3 (pack_leaf 3 keys @ slack) (length keys) offset index
      = pack_leaf 3 (take offset keys @ index # drop offset keys) @ drop 3 slack \<and>
    JU_INSERTINPLACE5 (pack_leaf 5 keys @ slack) (length keys) offset index
      = pack_leaf 5 (take offset keys @ index # drop offset keys) @ drop 5 slack \<and>
    JU_INSERTINPLACE6 (pack_leaf 6 keys @ slack) (length keys) offset index
      = pack_leaf 6 (take offset keys @ index # drop offset keys) @ drop 6 slack \<and>
    JU_INSERTINPLACE7 (pack_leaf 7 keys @ slack) (length keys) offset index
      = pack_leaf 7 (take offset keys @ index # drop offset keys) @ drop 7 slack \<and>
    JU_INSERTINPLACE (vals @ more) (length keys) offset v = take offset vals @ v # drop offset vals @ drop 1 more \<and>
    (offset < length keys \<longrightarrow>
      (\<forall>cIS > 0. take ((length keys - 1) * cIS) (JU_DELETEINPLACE_ODD (pack_leaf cIS keys @ slack) (length keys) offset cIS)
          = pack_leaf cIS (take offset keys @ drop (offset + 1) keys) \<and>
        drop (length keys * cIS) (JU_DELETEINPLACE_ODD (pack_leaf cIS keys @ slack) (length keys) offset cIS) = slack) \<and>
      take (length keys - 1) (JU_DELETEINPLACE (vals @ more) (length keys) offset)
        = take offset vals @ drop (offset + 1) vals \<and>
      drop (length keys) (JU_DELETEINPLACE (vals @ more) (length keys) offset) = more)"
proof -
  have odd: "JU_INSERTINPLACE3 (pack_leaf 3 keys @ slack) (length keys) offset index
      = pack_leaf 3 (take offset keys @ index # drop offset keys) @ drop 3 slack"
    "JU_INSERTINPLACE5 (pack_leaf 5 keys @ slack) (length keys) offset index
      = pack_leaf 5 (take offset keys @ index # drop offset keys) @ drop 5 slack"
    "JU_INSERTINPLACE6 (pack_leaf 6 keys @ slack) (length keys) offset index
      = pack_leaf 6 (take offset keys @ index # drop offset keys) @ drop 6 slack"
    "JU_INSERTINPLACE7 (pack_leaf 7 keys @ slack) (length keys) offset index
      = pack_leaf 7 (take offset keys @ index # drop offset keys) @ drop 7 slack"
    unfolding JU_INSERTINPLACE3_def JU_INSERTINPLACE5_def JU_INSERTINPLACE6_def JU_INSERTINPLACE7_def copy_bytes_eq
    using assms(1,2) by (simp_all only: insertinplace_packed)
  have native: "JU_INSERTINPLACE (vals @ more) (length keys) offset v = take offset vals @ v # drop offset vals @ drop 1 more"
    using insertinplace_native [of offset vals more v] assms by simp
  have "take (length keys - 1) (JU_DELETEINPLACE (vals @ more) (length keys) offset) = take offset vals @ drop (offset + 1) vals"
    "drop (length keys) (JU_DELETEINPLACE (vals @ more) (length keys) offset) = more" if "offset < length keys"
    using deleteinplace_native [of offset vals more] that assms(3) by simp_all
  then show ?thesis using odd native deleteinplace_packed_slack [of offset keys] by blast
qed

theorem inplace_correct_witness:
  "JU_INSERTINPLACE3 (pack_leaf 3 [0x10203, 0x40506] @ [0, 0, 0, 0, 0, 0, 9]) 2 1 0x20304
     = pack_leaf 3 [0x10203, 0x20304, 0x40506] @ [0, 0, 0, 9] \<and>
   take 5 (JU_DELETEINPLACE_ODD (pack_leaf 5 [0x10203, 0x40506] @ [0, 0, 0, 0, 0, 0, 9]) 2 0 5) = pack_leaf 5 [0x40506] \<and>
   take 1 (JU_DELETEINPLACE ([11, 22] @ [0 :: int]) 2 0) = [22]"
proof -
  define keys where "keys = [0x10203, 0x40506 :: word_t]"
  define slack where "slack = [0, 0, 0, 0, 0, 0, 9 :: uint8]"
  have k: "length keys = 2" "7 \<le> length slack" by (simp_all add: keys_def slack_def)
  have "JU_INSERTINPLACE3 (pack_leaf 3 keys @ slack) (length keys) 1 0x20304
      = pack_leaf 3 (take 1 keys @ 0x20304 # drop 1 keys) @ drop 3 slack"
    using inplace_correct [of 1 keys slack "[11, 22 :: int]" "[0]" "0x20304"] k by simp
  moreover have "\<forall>cIS > 0. take ((length keys - 1) * cIS) (JU_DELETEINPLACE_ODD (pack_leaf cIS keys @ slack) (length keys) 0 cIS)
      = pack_leaf cIS (take 0 keys @ drop (0 + 1) keys)"
    and "take (length keys - 1) (JU_DELETEINPLACE ([11, 22 :: int] @ [0]) (length keys) 0) = [22]"
    using inplace_correct [of 0 keys slack "[11, 22 :: int]" "[0]" "0x20304"] k by simp_all
  moreover from this(1) have "take ((length keys - 1) * 5) (JU_DELETEINPLACE_ODD (pack_leaf 5 keys @ slack) (length keys) 0 5)
      = pack_leaf 5 (take 0 keys @ drop (0 + 1) keys)" by simp
  moreover have "take 1 keys @ 0x20304 # drop 1 keys = [0x10203, 0x20304, 0x40506]" "drop 3 slack = [0, 0, 0, 9]"
    "take 0 keys @ drop (0 + 1) keys = [0x40506]" by (simp_all add: keys_def slack_def)
  ultimately show ?thesis unfolding k(1) by (simp only: keys_def slack_def) simp
qed

text \<open>Deleting the index at an offset, in place or while copying to a leaf of the smaller size,
  leaves the key list without that key, for every index size; inserting while copying to a leaf of
  the larger size yields the key list with the new key at the offset.\<close>

theorem leaf_copy_correct:
  assumes "offset < length keys" "0 < n"
    and "length dest = (length keys - 1) * n" "length larger = (length keys + 1) * 5"
  shows "take ((length keys - 1) * n) (JU_DELETEINPLACE_ODD (pack_leaf n keys) (length keys) offset n)
      = pack_leaf n (take offset keys @ drop (offset + 1) keys) \<and>
    JU_DELETECOPY_ODD dest (pack_leaf n keys) (length keys) offset n
      = pack_leaf n (take offset keys @ drop (offset + 1) keys) \<and>
    JU_INSERTCOPY5 larger (pack_leaf 5 keys) (length keys) offset index
      = pack_leaf 5 (take offset keys @ index # drop offset keys)"
proof (intro conjI)
  have "length (pack_leaf n (take offset keys @ drop (offset + 1) keys)) = (length keys - 1) * n"
  proof -
    have "length (take offset keys @ drop (offset + 1) keys) = length keys - 1" using assms(1) by simp
    then show ?thesis unfolding length_pack_leaf by (rule arg_cong)
  qed
  then show "take ((length keys - 1) * n) (JU_DELETEINPLACE_ODD (pack_leaf n keys) (length keys) offset n)
      = pack_leaf n (take offset keys @ drop (offset + 1) keys)"
    unfolding deleteinplace_packed [OF assms(1,2)] by (metis append_eq_conv_conj)
qed (use assms in \<open>simp_all only: deletecopy_packed JU_INSERTCOPY5_def copy_bytes_eq insertcopy_packed less_imp_le\<close>)

theorem leaf_copy_correct_witness:
  "take (length [1, 2] * 2) (JU_DELETEINPLACE_ODD (pack_leaf 2 [1, 2, 3]) (length [1, 2, 3]) 1 2) = pack_leaf 2 [1, 3] \<and>
   JU_DELETECOPY_ODD [0, 0, 0, 0] (pack_leaf 2 [1, 2, 3]) (length [1, 2, 3]) 1 2 = pack_leaf 2 [1, 3] \<and>
   JU_INSERTCOPY5 (replicate 20 0) (pack_leaf 5 [1, 2, 3]) (length [1, 2, 3]) 1 7 = pack_leaf 5 [1, 7, 2, 3]"
  using leaf_copy_correct [of 1 "[1, 2, 3]" 2 "[0, 0, 0, 0]" "replicate 20 0" 7]
  by (simp del: pack_leaf_Cons)

end
