(* ===== verification/JudySearch.thy ===== *)
theory JudySearch
  imports JudyBytes
begin

text \<open>
  The binary searches of linear leaves (\<open>SEARCHLEAFNATIVE\<close>, \<open>SEARCHLEAFNONNAT\<close> and the
  \<open>j__udySearchLeaf*\<close> functions of \<open>src/Judy/src/JudyCommon/JudyPrivate.h\<close>).  The bounds are words:
  \<open>l_ow\<close> starts at \<open>~0\<close>, and \<open>h_igh - l_ow\<close> and \<open>h_igh + l_ow\<close> wrap around.  A search yields \<open>None\<close> when it
  does not end or reads outside the leaf; the lemmas show that on a sorted leaf it returns the
  offset of the index, or the complement of its insertion point.
\<close>

section \<open>The searches\<close>

text \<open>The result is an \<open>int\<close> of 32 bits: the word is cut and read with its sign.\<close>

definition ret_int :: "word_t \<Rightarrow> int" where
  "ret_int w = sint (ucast w :: 32 word)"

partial_function (option) search_loop ::
  "(word_t \<Rightarrow> word_t option) \<Rightarrow> word_t \<Rightarrow> word_t \<Rightarrow> word_t \<Rightarrow> (word_t \<times> word_t) option" where
  "search_loop leaf_at i_ndex l_ow h_igh =
     (if h_igh - l_ow > 1
      then let m_id = (h_igh + l_ow) div 2
           in Option.bind (leaf_at m_id) (\<lambda>k.
                if k > i_ndex then search_loop leaf_at i_ndex l_ow m_id
                else search_loop leaf_at i_ndex m_id h_igh)
      else Some (l_ow, h_igh))"

declare search_loop.simps [code]

definition search_leaf :: "(word_t \<Rightarrow> word_t option) \<Rightarrow> word_t \<Rightarrow> word_t \<Rightarrow> int option" where
  "search_leaf leaf_at pop1 i_ndex =
     Option.bind (search_loop leaf_at i_ndex cJU_ALLONES pop1) (\<lambda>(l_ow, h_igh).
       if l_ow = cJU_ALLONES then Some (ret_int (NOT h_igh))
       else Option.bind (leaf_at l_ow) (\<lambda>k.
         if k \<noteq> i_ndex then Some (ret_int (NOT h_igh)) else Some (ret_int l_ow)))"

text \<open>A native leaf is an array of the index type; the index is cut to its width.\<close>

definition native_at :: "word_t list \<Rightarrow> word_t \<Rightarrow> word_t option" where
  "native_at leaf m = (if unat m < length leaf then Some (leaf ! unat m) else None)"

definition SEARCHLEAFNATIVE :: "nat \<Rightarrow> word_t list \<Rightarrow> word_t \<Rightarrow> word_t \<Rightarrow> int option" where
  "SEARCHLEAFNATIVE leafbits leaf pop1 index = search_leaf (native_at leaf) pop1 (take_bit leafbits index)"

text \<open>A non-native leaf is bytes; \<open>copyindex\<close> reads the index at an address.\<close>

definition nonnat_at :: "nat \<Rightarrow> (uint8 list \<Rightarrow> word_t) \<Rightarrow> uint8 list \<Rightarrow> word_t \<Rightarrow> word_t option" where
  "nonnat_at lfbts copyindex bytes m =
     (if unat m * lfbts + lfbts \<le> length bytes then Some (copyindex (drop (unat m * lfbts) bytes)) else None)"

definition SEARCHLEAFNONNAT ::
  "nat \<Rightarrow> (uint8 list \<Rightarrow> word_t) \<Rightarrow> uint8 list \<Rightarrow> word_t \<Rightarrow> word_t \<Rightarrow> int option" where
  "SEARCHLEAFNONNAT lfbts copyindex bytes pop1 index =
     search_leaf (nonnat_at lfbts copyindex bytes) pop1 (JU_LEASTBYTES index lfbts)"

definition j__udySearchLeaf1 :: "word_t list \<Rightarrow> word_t \<Rightarrow> word_t \<Rightarrow> int option" where
  "j__udySearchLeaf1 pjll leafpop1 index = SEARCHLEAFNATIVE 8 pjll leafpop1 index"

definition j__udySearchLeaf2 :: "word_t list \<Rightarrow> word_t \<Rightarrow> word_t \<Rightarrow> int option" where
  "j__udySearchLeaf2 pjll leafpop1 index = SEARCHLEAFNATIVE 16 pjll leafpop1 index"

definition j__udySearchLeaf3 :: "uint8 list \<Rightarrow> word_t \<Rightarrow> word_t \<Rightarrow> int option" where
  "j__udySearchLeaf3 pjll leafpop1 index = SEARCHLEAFNONNAT 3 JU_COPY3_PINDEX_TO_LONG pjll leafpop1 index"

definition j__udySearchLeaf4 :: "word_t list \<Rightarrow> word_t \<Rightarrow> word_t \<Rightarrow> int option" where
  "j__udySearchLeaf4 pjll leafpop1 index = SEARCHLEAFNATIVE 32 pjll leafpop1 index"

definition j__udySearchLeaf5 :: "uint8 list \<Rightarrow> word_t \<Rightarrow> word_t \<Rightarrow> int option" where
  "j__udySearchLeaf5 pjll leafpop1 index = SEARCHLEAFNONNAT 5 JU_COPY5_PINDEX_TO_LONG pjll leafpop1 index"

definition j__udySearchLeaf6 :: "uint8 list \<Rightarrow> word_t \<Rightarrow> word_t \<Rightarrow> int option" where
  "j__udySearchLeaf6 pjll leafpop1 index = SEARCHLEAFNONNAT 6 JU_COPY6_PINDEX_TO_LONG pjll leafpop1 index"

definition j__udySearchLeaf7 :: "uint8 list \<Rightarrow> word_t \<Rightarrow> word_t \<Rightarrow> int option" where
  "j__udySearchLeaf7 pjll leafpop1 index = SEARCHLEAFNONNAT 7 JU_COPY7_PINDEX_TO_LONG pjll leafpop1 index"

definition j__udySearchLeafW :: "word_t list \<Rightarrow> word_t \<Rightarrow> word_t \<Rightarrow> int option" where
  "j__udySearchLeafW pjlw leafpop1 index = SEARCHLEAFNATIVE 64 pjlw leafpop1 index"

text \<open>
  The search for a leaf of state \<open>s\<close>, on the list of the indexes the leaf holds; a leaf of 3, 5, 6
  or 7 byte indexes is searched in its packed form.
\<close>

definition search_leaf_state :: "nat \<Rightarrow> word_t list \<Rightarrow> word_t \<Rightarrow> word_t \<Rightarrow> int option" where
  "search_leaf_state s keys leafpop1 index =
     (if s = 1 then j__udySearchLeaf1 keys leafpop1 index
      else if s = 2 then j__udySearchLeaf2 keys leafpop1 index
      else if s = 3 then j__udySearchLeaf3 (pack_leaf 3 keys) leafpop1 index
      else if s = 4 then j__udySearchLeaf4 keys leafpop1 index
      else if s = 5 then j__udySearchLeaf5 (pack_leaf 5 keys) leafpop1 index
      else if s = 6 then j__udySearchLeaf6 (pack_leaf 6 keys) leafpop1 index
      else if s = 7 then j__udySearchLeaf7 (pack_leaf 7 keys) leafpop1 index
      else None)"

section \<open>The insertion point\<close>

definition insertion_point :: "word_t list \<Rightarrow> word_t \<Rightarrow> nat" where
  "insertion_point keys x = length (takeWhile (\<lambda>k. k < x) keys)"

lemma insertion_point_le: "insertion_point keys x \<le> length keys"
  by (simp add: insertion_point_def length_takeWhile_le)

lemma nth_insertion_point:
  "i < insertion_point keys x \<Longrightarrow> keys ! i < x"
  "insertion_point keys x < length keys \<Longrightarrow> x \<le> keys ! insertion_point keys x"
  unfolding insertion_point_def
  subgoal by (metis nth_mem set_takeWhileD takeWhile_nth)
  subgoal using nth_length_takeWhile by force
  done

lemma insertion_point_unique:
  assumes "sorted_wrt (<) keys" "n \<le> length keys"
    and "\<And>i. i < n \<Longrightarrow> keys ! i < x" "n < length keys \<Longrightarrow> x \<le> keys ! n"
  shows "insertion_point keys x = n"
proof (rule ccontr)
  assume "insertion_point keys x \<noteq> n"
  then consider "insertion_point keys x < n" | "n < insertion_point keys x" by linarith
  then show False
  proof cases
    case 1
    then show False using assms(2,3) nth_insertion_point(2) [of keys x] by fastforce
  next
    case 2
    then show False using assms(4) nth_insertion_point(1) [of n keys x] insertion_point_le [of keys x] by fastforce
  qed
qed

lemma insertion_point_mem:
  assumes "sorted_wrt (<) keys"
  shows "x \<in> set keys \<longleftrightarrow> insertion_point keys x < length keys \<and> keys ! insertion_point keys x = x"
proof
  assume "x \<in> set keys"
  then obtain n where n: "n < length keys" "keys ! n = x" by (auto simp: in_set_conv_nth)
  have "insertion_point keys x = n"
    using assms n by (intro insertion_point_unique) (auto simp: sorted_wrt_nth_less)
  then show "insertion_point keys x < length keys \<and> keys ! insertion_point keys x = x" using n by simp
qed (auto simp: in_set_conv_nth)

section \<open>The loop\<close>

lemma search_loop_real:
  assumes "sorted_wrt (<) keys" "\<And>m. unat m < length keys \<Longrightarrow> leaf_at m = Some (keys ! unat m)"
    and "length keys < 2 ^ 62"
  shows "unat l < unat h \<Longrightarrow> unat h \<le> length keys \<Longrightarrow> keys ! unat l \<le> x \<Longrightarrow>
    (unat h < length keys \<Longrightarrow> x < keys ! unat h) \<Longrightarrow>
    \<exists>l' h'. search_loop leaf_at x l h = Some (l', h') \<and> unat h' = unat l' + 1 \<and> unat h' \<le> length keys
      \<and> keys ! unat l' \<le> x \<and> (unat h' < length keys \<longrightarrow> x < keys ! unat h')"
proof (induction "unat h - unat l" arbitrary: l h rule: less_induct)
  case less
  have d: "unat (h - l) = unat h - unat l"
    using less.prems by (simp add: unat_sub word_le_nat_alt)
  have s: "unat (h + l) = unat h + unat l"
    using less.prems assms(3) by (simp add: unat_word_ariths(1))
  have m: "unat ((h + l) div 2) = (unat h + unat l) div 2" by (simp add: unat_div s)
  show ?case
  proof (cases "h - l > 1")
    case True
    then have gt: "unat h - unat l > 1" by (simp add: word_less_nat_alt d)
    let ?m = "(h + l) div 2"
    have b: "unat l < unat ?m" "unat ?m < unat h" using gt by (simp_all add: m)
    then have at: "leaf_at ?m = Some (keys ! unat ?m)" using less.prems by (intro assms(2)) simp
    show ?thesis
    proof (cases "keys ! unat ?m > x")
      case t: True
      have "search_loop leaf_at x l h = search_loop leaf_at x l ?m"
        using True t by (subst search_loop.simps) (simp add: at Let_def)
      then show ?thesis using less.hyps [of ?m l] b less.prems t by simp
    next
      case f: False
      have "search_loop leaf_at x l h = search_loop leaf_at x ?m h"
        using True f by (subst search_loop.simps) (simp add: at Let_def)
      then show ?thesis using less.hyps [of h ?m] b less.prems f by simp
    qed
  next
    case False
    then have "unat h = unat l + 1" using less.prems(1) by (simp add: word_less_nat_alt d)
    moreover have "search_loop leaf_at x l h = Some (l, h)" using False by (subst search_loop.simps) simp
    ultimately show ?thesis using less.prems by auto
  qed
qed

lemma search_loop_start:
  assumes "sorted_wrt (<) keys" "\<And>m. unat m < length keys \<Longrightarrow> leaf_at m = Some (keys ! unat m)"
    and "length keys < 2 ^ 62"
  shows "unat h \<le> length keys \<Longrightarrow> (unat h < length keys \<Longrightarrow> x < keys ! unat h) \<Longrightarrow>
    (search_loop leaf_at x cJU_ALLONES h = Some (cJU_ALLONES, 0) \<and> (0 < length keys \<longrightarrow> x < keys ! 0)) \<or>
    (\<exists>l' h'. search_loop leaf_at x cJU_ALLONES h = Some (l', h') \<and> unat h' = unat l' + 1 \<and> unat h' \<le> length keys
      \<and> keys ! unat l' \<le> x \<and> (unat h' < length keys \<longrightarrow> x < keys ! unat h'))"
proof (induction "unat h" arbitrary: h rule: less_induct)
  case less
  have one: "h - cJU_ALLONES = h + 1" by (simp add: cJU_ALLONES_def)
  have u: "unat (h + 1) = unat h + 1" using less.prems(1) assms(3) by (simp add: unat_word_ariths(1))
  show ?case
  proof (cases "h = 0")
    case True
    then have "search_loop leaf_at x cJU_ALLONES h = Some (cJU_ALLONES, 0)"
      by (subst search_loop.simps) (simp add: cJU_ALLONES_def)
    then show ?thesis using less.prems True by auto
  next
    case False
    then have pos: "0 < unat h" by (simp add: unat_gt_0)
    then have gt: "h - cJU_ALLONES > 1" by (simp add: one word_less_nat_alt u)
    let ?m = "(h + cJU_ALLONES) div 2"
    have "h + cJU_ALLONES = h - 1" by (simp add: cJU_ALLONES_def)
    moreover have "unat (h - 1) = unat h - 1" using pos by (simp add: unat_sub word_le_nat_alt)
    ultimately have "unat (h + cJU_ALLONES) = unat h - 1" by (simp only:)
    then have m: "unat ?m = (unat h - 1) div 2" by (simp add: unat_div)
    then have b: "unat ?m < unat h" using pos by simp
    then have at: "leaf_at ?m = Some (keys ! unat ?m)" using less.prems by (intro assms(2)) simp
    show ?thesis
    proof (cases "keys ! unat ?m > x")
      case t: True
      have "search_loop leaf_at x cJU_ALLONES h = search_loop leaf_at x cJU_ALLONES ?m"
        using gt t by (subst search_loop.simps) (simp add: at Let_def)
      then show ?thesis using less.hyps [OF b] b less.prems t by simp
    next
      case f: False
      have "search_loop leaf_at x cJU_ALLONES h = search_loop leaf_at x ?m h"
        using gt f by (subst search_loop.simps) (simp add: at Let_def)
      then show ?thesis using search_loop_real [OF assms b] less.prems f by simp
    qed
  qed
qed

lemma ret_int_small:
  assumes "unat w < 2 ^ 31"
  shows "ret_int w = int (unat w)" "ret_int (NOT w) = - int (unat w) - 1"
proof -
  have r: "ret_int v = signed_take_bit 31 (uint v)" for v
    by (simp add: ret_int_def sint_uint unsigned_ucast_eq signed_take_bit_take_bit)
  have "nat (uint w) < 2 ^ 31" using assms by (simp only: unat_eq_nat_uint)
  then have "uint w < 2 ^ 31" by (simp only: nat_less_numeral_power_cancel_iff of_nat_numeral of_nat_power)
  then have s: "signed_take_bit 31 (uint w) = uint w"
    by (intro signed_take_bit_int_eq_self order_trans [OF _ uint_ge_0]) simp_all
  then show "ret_int w = int (unat w)" by (simp add: r)
  have "ret_int (NOT w) = signed_take_bit 31 (take_bit 64 (NOT (uint w)))"
    by (simp add: r unsigned_not_eq)
  also have "\<dots> = signed_take_bit 31 (NOT (uint w))" by (simp add: signed_take_bit_take_bit)
  also have "\<dots> = NOT (signed_take_bit 31 (uint w))" by (rule bit_eqI) (simp add: bit_simps)
  finally show "ret_int (NOT w) = - int (unat w) - 1" by (simp add: s not_eq_complement)
qed

section \<open>Searching a sorted leaf\<close>

definition search_result :: "word_t list \<Rightarrow> word_t \<Rightarrow> int" where
  "search_result keys x =
     (if x \<in> set keys then int (insertion_point keys x) else - int (insertion_point keys x) - 1)"

lemma search_leaf_sorted:
  assumes "sorted_wrt (<) keys" "\<And>m. unat m < length keys \<Longrightarrow> leaf_at m = Some (keys ! unat m)"
    and "length keys < 2 ^ 31" "unat pop1 = length keys"
  shows "search_leaf leaf_at pop1 x = Some (search_result keys x)"
proof -
  have less: "length keys < 2 ^ 62" using assms(3) by simp
  have small: "unat h < 2 ^ 31" if "unat h \<le> length keys" for h :: word_t using that assms(3) by simp
  from search_loop_start [OF assms(1,2) less, of pop1 x] assms(4)
  consider
    (none) "search_loop leaf_at x cJU_ALLONES pop1 = Some (cJU_ALLONES, 0)" "0 < length keys \<longrightarrow> x < keys ! 0"
  | (some) l h where "search_loop leaf_at x cJU_ALLONES pop1 = Some (l, h)" "unat h = unat l + 1"
      "unat h \<le> length keys" "keys ! unat l \<le> x" "unat h < length keys \<longrightarrow> x < keys ! unat h"
    by auto
  then show ?thesis
  proof cases
    case none
    have ip: "insertion_point keys x = 0"
      using none by (intro insertion_point_unique assms(1)) auto
    then have "x \<notin> set keys" using none insertion_point_mem [OF assms(1)] by auto
    then show ?thesis
      using none ip ret_int_small(2) [of 0] by (simp add: search_leaf_def search_result_def)
  next
    case (some l h)
    have l: "unat l < length keys" using some by simp
    have "unat cJU_ALLONES = 2 ^ 64 - 1" by (simp add: cJU_ALLONES_def unsigned_minus_1_eq_mask mask_eq_exp_minus_1)
    then have nl: "l \<noteq> cJU_ALLONES" using l assms(3) by auto
    show ?thesis
    proof (cases "keys ! unat l = x")
      case True
      have "insertion_point keys x = unat l"
        using True l assms(1) by (intro insertion_point_unique) (auto simp: sorted_wrt_nth_less)
      moreover have "x \<in> set keys" using True l by auto
      moreover have "unat l < 2 ^ 31" using l assms(3) by simp
      ultimately show ?thesis
        using some nl True assms(2) [OF l] by (simp add: search_leaf_def search_result_def ret_int_small)
    next
      case False
      then have "keys ! unat l < x" using some by simp
      then have "keys ! i < x" if "i < unat h" for i
      proof (cases "i = unat l")
        case False
        then have "keys ! i < keys ! unat l"
          using that some l assms(1) by (intro sorted_wrt_nth_less [of "(<)"]) auto
        then show ?thesis using \<open>keys ! unat l < x\<close> by simp
      qed (use \<open>keys ! unat l < x\<close> in simp)
      then have ip: "insertion_point keys x = unat h"
        using some by (intro insertion_point_unique assms(1)) auto
      then have "x \<notin> set keys" using some insertion_point_mem [OF assms(1)] by auto
      moreover have "ret_int (NOT h) = - int (unat h) - 1" using some(3) by (intro ret_int_small small)
      ultimately show ?thesis
        using some(1) nl False assms(2) [OF l] ip by (simp add: search_leaf_def search_result_def)
    qed
  qed
qed

lemma nonnat_at_packed:
  assumes "\<And>w. copyindex (index_bytes n w) = JU_LEASTBYTES w n" "unat m < length keys"
    and "\<And>b bs. length b = n \<Longrightarrow> copyindex (b @ bs) = copyindex b"
    and "\<forall>k\<in>set keys. JU_LEASTBYTES k n = k"
  shows "nonnat_at n copyindex (pack_leaf n keys) m = Some (keys ! unat m)"
proof -
  have "Suc (unat m) * n \<le> length keys * n" using assms(2) by (intro mult_le_mono1) simp
  moreover have "drop (unat m * n) (pack_leaf n keys) = index_bytes n (keys ! unat m) @ pack_leaf n (drop (Suc (unat m)) keys)"
    unfolding drop_pack_leaf using Cons_nth_drop_Suc [OF assms(2)] by (metis pack_leaf_Cons)
  ultimately show ?thesis
    using assms(1,3,4) nth_mem [OF assms(2)] by (simp add: nonnat_at_def add.commute)
qed

lemma copy_prefix:
  "length b = 3 \<Longrightarrow> JU_COPY3_PINDEX_TO_LONG (b @ bs) = JU_COPY3_PINDEX_TO_LONG b"
  "length b = 5 \<Longrightarrow> JU_COPY5_PINDEX_TO_LONG (b @ bs) = JU_COPY5_PINDEX_TO_LONG b"
  "length b = 6 \<Longrightarrow> JU_COPY6_PINDEX_TO_LONG (b @ bs) = JU_COPY6_PINDEX_TO_LONG b"
  "length b = 7 \<Longrightarrow> JU_COPY7_PINDEX_TO_LONG (b @ bs) = JU_COPY7_PINDEX_TO_LONG b"
  by (simp_all add: JU_COPY3_PINDEX_TO_LONG_def JU_COPY5_PINDEX_TO_LONG_def JU_COPY6_PINDEX_TO_LONG_def
      JU_COPY7_PINDEX_TO_LONG_def nth_append)

lemma leastbytes_take_bit: "1 \<le> s \<Longrightarrow> s \<le> 8 \<Longrightarrow> JU_LEASTBYTES w s = take_bit (8 * s) w"
  by (simp add: JU_LEASTBYTES_def leastbytesmask take_bit_eq_mask)

lemma native_at_keys: "unat m < length keys \<Longrightarrow> native_at keys m = Some (keys ! unat m)"
  by (simp add: native_at_def)

lemma search_native:
  assumes "sorted_wrt (<) keys" "length keys < 2 ^ 31" "unat pop1 = length keys"
  shows "SEARCHLEAFNATIVE bits keys pop1 index = Some (search_result keys (take_bit bits index))"
  unfolding SEARCHLEAFNATIVE_def using assms by (intro search_leaf_sorted native_at_keys)

lemma search_nonnat:
  assumes "sorted_wrt (<) keys" "length keys < 2 ^ 31" "unat pop1 = length keys"
    and "\<And>w. copyindex (index_bytes n w) = JU_LEASTBYTES w n"
    and "\<And>b bs. length b = n \<Longrightarrow> copyindex (b @ bs) = copyindex b"
    and "\<forall>k\<in>set keys. JU_LEASTBYTES k n = k"
  shows "SEARCHLEAFNONNAT n copyindex (pack_leaf n keys) pop1 index = Some (search_result keys (JU_LEASTBYTES index n))"
  unfolding SEARCHLEAFNONNAT_def using assms by (intro search_leaf_sorted nonnat_at_packed)

lemma copy_index_bytes:
  "JU_COPY3_PINDEX_TO_LONG (index_bytes 3 w) = JU_LEASTBYTES w 3"
  "JU_COPY5_PINDEX_TO_LONG (index_bytes 5 w) = JU_LEASTBYTES w 5"
  "JU_COPY6_PINDEX_TO_LONG (index_bytes 6 w) = JU_LEASTBYTES w 6"
  "JU_COPY7_PINDEX_TO_LONG (index_bytes 7 w) = JU_LEASTBYTES w 7"
  using pindex_reads [of w] unfolding copy_bytes_eq by simp_all

lemma search_leaf_state_sorted:
  assumes "1 \<le> s" "s \<le> 7" "sorted_wrt (<) keys" "length keys < 2 ^ 31" "unat pop1 = length keys"
    and "\<forall>k\<in>set keys. JU_LEASTBYTES k s = k"
  shows "search_leaf_state s keys pop1 index = Some (search_result keys (JU_LEASTBYTES index s))"
proof -
  consider "s = 1" | "s = 2" | "s = 3" | "s = 4" | "s = 5" | "s = 6" | "s = 7" using assms(1,2) by linarith
  then show ?thesis
  proof cases
    case 1
    have "JU_LEASTBYTES index 1 = take_bit 8 index" using leastbytes_take_bit [of 1 index] by simp
    then show ?thesis
      unfolding 1 using search_native [OF assms(3-5), of 8 index]
      by (simp add: search_leaf_state_def j__udySearchLeaf1_def)
  next
    case 2
    have "JU_LEASTBYTES index 2 = take_bit 16 index" using leastbytes_take_bit [of 2 index] by simp
    then show ?thesis
      unfolding 2 using search_native [OF assms(3-5), of 16 index]
      by (simp add: search_leaf_state_def j__udySearchLeaf2_def)
  next
    case 3
    have "SEARCHLEAFNONNAT 3 JU_COPY3_PINDEX_TO_LONG (pack_leaf 3 keys) pop1 index
        = Some (search_result keys (JU_LEASTBYTES index 3))"
      using assms(6) unfolding 3 by (intro search_nonnat assms(3-5) copy_index_bytes copy_prefix)
    then show ?thesis unfolding 3 by (simp add: search_leaf_state_def j__udySearchLeaf3_def)
  next
    case 4
    have "JU_LEASTBYTES index 4 = take_bit 32 index" using leastbytes_take_bit [of 4 index] by simp
    then show ?thesis
      unfolding 4 using search_native [OF assms(3-5), of 32 index]
      by (simp add: search_leaf_state_def j__udySearchLeaf4_def)
  next
    case 5
    have "SEARCHLEAFNONNAT 5 JU_COPY5_PINDEX_TO_LONG (pack_leaf 5 keys) pop1 index
        = Some (search_result keys (JU_LEASTBYTES index 5))"
      using assms(6) unfolding 5 by (intro search_nonnat assms(3-5) copy_index_bytes copy_prefix)
    then show ?thesis unfolding 5 by (simp add: search_leaf_state_def j__udySearchLeaf5_def)
  next
    case 6
    have "SEARCHLEAFNONNAT 6 JU_COPY6_PINDEX_TO_LONG (pack_leaf 6 keys) pop1 index
        = Some (search_result keys (JU_LEASTBYTES index 6))"
      using assms(6) unfolding 6 by (intro search_nonnat assms(3-5) copy_index_bytes copy_prefix)
    then show ?thesis unfolding 6 by (simp add: search_leaf_state_def j__udySearchLeaf6_def)
  next
    case 7
    have "SEARCHLEAFNONNAT 7 JU_COPY7_PINDEX_TO_LONG (pack_leaf 7 keys) pop1 index
        = Some (search_result keys (JU_LEASTBYTES index 7))"
      using assms(6) unfolding 7 by (intro search_nonnat assms(3-5) copy_index_bytes copy_prefix)
    then show ?thesis unfolding 7 by (simp add: search_leaf_state_def j__udySearchLeaf7_def)
  qed
qed

lemma search_leafW_sorted:
  assumes "sorted_wrt (<) keys" "length keys < 2 ^ 31" "unat pop1 = length keys"
  shows "j__udySearchLeafW keys pop1 index = Some (search_result keys index)"
  using assms by (simp add: j__udySearchLeafW_def search_native take_bit_word_eq_self)

text \<open>C23: The binary searches of the linear leaves, on words with wrap-around, end on every leaf of
  at most \<open>2 ^ 31 - 1\<close> strictly ascending indexes without reading outside it: on a leaf of whole words, with
  any indexes in it, and on a leaf of each of the seven smaller index sizes, which holds the least bytes of
  its indexes.  The result is the offset of the index if the leaf holds it, and the complement of its
  insertion point otherwise; with the smaller sizes the bytes above the index size do not count.\<close>

theorem search_leaf_correct:
  assumes "sorted_wrt (<) keys" "length keys < 2 ^ 31" "unat pop1 = length keys"
  shows "j__udySearchLeafW keys pop1 index = Some (search_result keys index) \<and>
    (\<forall>s \<in> {1..7}. (\<forall>k \<in> set keys. JU_LEASTBYTES k s = k) \<longrightarrow>
      search_leaf_state s keys pop1 index = Some (search_result keys (JU_LEASTBYTES index s)))"
  using assms by (simp add: search_leaf_state_sorted search_leafW_sorted)

theorem search_leaf_correct_witness:
  "search_leaf_state 3 [0x10, 0x20, 0x30] 3 0xAB000020 = Some 1 \<and>
   j__udySearchLeafW [0x10, 0x20, 0x30] 3 0x25 = Some (-3) \<and>
   j__udySearchLeafW [0x20, 0xAB00000000000020, 0xFF00000000000020] 3 0xFF00000000000020 = Some 2"
proof -
  have l: "\<forall>k \<in> set [0x10, 0x20, 0x30]. JU_LEASTBYTES k 3 = k"
    by (simp add: JU_LEASTBYTES_def JU_LEASTBYTESMASK_def)
  have "sorted_wrt (<) [0x20, 0xAB00000000000020, 0xFF00000000000020 :: word_t]" by simp
  from search_leaf_correct [OF this, of 3 "0xFF00000000000020"]
  have w: "j__udySearchLeafW [0x20, 0xAB00000000000020, 0xFF00000000000020] 3 0xFF00000000000020 = Some 2"
    by (simp add: search_result_def insertion_point_def)
  have "j__udySearchLeafW [0x10, 0x20, 0x30] 3 i = Some (search_result [0x10, 0x20, 0x30] i) \<and>
    search_leaf_state 3 [0x10, 0x20, 0x30] 3 i = Some (search_result [0x10, 0x20, 0x30] (JU_LEASTBYTES i 3))" for i
    using search_leaf_correct [of "[0x10, 0x20, 0x30]" 3 i] l by simp
  note this [of "0xAB000020"] this [of "0x25"]
  with w show ?thesis
    by (simp add: search_result_def insertion_point_def JU_LEASTBYTES_def JU_LEASTBYTESMASK_def)
qed

end
