(* ===== verification/JudyTree.thy ===== *)
theory JudyTree
  imports JudyBits JudySearch
begin

text \<open>
  The JudyL tree of a 64-bit build: root pointer, JPM, branches, leaves and immediates
  (\<open>src/Judy/src/JudyL/JudyL.h\<close>, \<open>src/Judy/src/JudyCommon/JudyPrivateBranch.h\<close>), the index-value pairs it
  holds (\<open>jp_entries\<close>) and its well-formedness (\<open>jp_wf\<close>, \<open>judyL_wf\<close>).
\<close>

section \<open>Judy pointers and arrays\<close>

text \<open>
  One constructor per family of \<open>jp_Type\<close>, the state (the number in the type's name) as an argument;
  state 8 stands for the root types \<open>cJU_JPBRANCH_L\<close>, \<open>cJU_JPBRANCH_B\<close> and \<open>cJU_JPBRANCH_U\<close>.
  \<open>dcdpop0\<close> is the field \<open>jp_DcdP0\<close>; a subexpanse of a bitmap branch or leaf is its bitmap and its
  array; \<open>JPINVALID\<close> is a type the code does not know.
\<close>

datatype 'v jp =
    JPNULL nat
  | JPBRANCH_L nat dcdpop0 "(uint8 \<times> 'v jp) list"
  | JPBRANCH_B nat dcdpop0 "(uint32 \<times> 'v jp list) list"
  | JPBRANCH_U nat dcdpop0 "'v jp list"
  | JPLEAF nat dcdpop0 "word_t list" "'v list"
  | JPLEAF_B1 dcdpop0 "(word_t \<times> 'v list) list"
  | JPIMMED_01 nat dcdpop0 'v
  | JPIMMED nat "word_t list" "'v list"
  | JPINVALID uint8

text \<open>A root pointer is null, or points to a word with the population less one and a leaf or a JPM.\<close>

datatype 'v judyL =
    JL_NULL
  | JL_LEAFW word_t "word_t list" "'v list"
  | JL_JPM word_t "'v jp"

fun JU_LEAFW_POP0 :: "'v judyL \<Rightarrow> word_t" where
  "JU_LEAFW_POP0 (JL_LEAFW pop0 keys vals) = pop0"
| "JU_LEAFW_POP0 (JL_JPM pop0 jp) = pop0"
| "JU_LEAFW_POP0 JL_NULL = 0"

definition cJU_LEAFW_MAXPOP1 :: word_t where
  "cJU_LEAFW_MAXPOP1 = (64 * 8 - 8) div (2 * 8)"

definition cJL_IMMED_MAXPOP1 :: "nat \<Rightarrow> nat" where
  "cJL_IMMED_MAXPOP1 indexsize = 7 div indexsize"

definition cJL_LEAF_MAXPOP1 :: "nat \<Rightarrow> nat" where
  "cJL_LEAF_MAXPOP1 indexsize = (if indexsize = 1 then (15 * 8) div (1 + 8) else (8 * 64) div (indexsize + 8))"

section \<open>The children of a branch\<close>

fun jp_children :: "'v jp \<Rightarrow> (nat \<times> 'v jp) list" where
  "jp_children (JPBRANCH_L s dcd exps) = map (\<lambda>(d, jp). (unat d, jp)) exps"
| "jp_children (JPBRANCH_B s dcd subs) =
     concat (map (\<lambda>(k, bm, jps). zip (map ((+) (32 * k)) (set_positions bm)) jps) (enumerate 0 subs))"
| "jp_children (JPBRANCH_U s dcd jps) = enumerate 0 jps"
| "jp_children _ = []"

fun jp_branch :: "'v jp \<Rightarrow> (nat \<times> dcdpop0) option" where
  "jp_branch (JPBRANCH_L s dcd exps) = Some (s, dcd)"
| "jp_branch (JPBRANCH_B s dcd subs) = Some (s, dcd)"
| "jp_branch (JPBRANCH_U s dcd jps) = Some (s, dcd)"
| "jp_branch _ = None"

lemma enumerate_snd: "x \<in> set (enumerate n xs) \<Longrightarrow> snd x \<in> set xs"
  by (metis enumerate_eq_zip in_set_zipE prod.collapse)

lemma size_list_elem: "x \<in> set xs \<Longrightarrow> f x \<le> size_list f xs"
  by (induction xs) auto

lemma size_jp_children: "(d, c) \<in> set (jp_children jp) \<Longrightarrow> size c < size jp"
proof (cases jp)
  case (JPBRANCH_L s dcd exps)
  assume "(d, c) \<in> set (jp_children jp)"
  then obtain d' where "(d', c) \<in> set exps" using JPBRANCH_L by auto
  from size_list_elem [OF this, of "size_prod (\<lambda>_. 0) size"] show ?thesis using JPBRANCH_L by simp
next
  case (JPBRANCH_B s dcd subs)
  assume "(d, c) \<in> set (jp_children jp)"
  then obtain k bm jps where "(k, bm, jps) \<in> set (enumerate 0 subs)" "c \<in> set jps"
    using JPBRANCH_B by (auto dest: set_zip_rightD)
  then have "(bm, jps) \<in> set subs" "c \<in> set jps" using enumerate_snd by fastforce+
  from size_list_elem [OF this(1), of "size_prod (\<lambda>_. 0) (size_list size)"] size_list_elem [OF this(2), of size]
  show ?thesis using JPBRANCH_B by simp
next
  case (JPBRANCH_U s dcd jps)
  assume "(d, c) \<in> set (jp_children jp)"
  then have "c \<in> set jps" using JPBRANCH_U enumerate_snd by fastforce
  from size_list_elem [OF this, of size] show ?thesis using JPBRANCH_U by simp
qed auto

section \<open>The pairs of a tree\<close>

text \<open>
  Below a pointer of state \<open>s\<close> the first byte of an index comes from the path, the bytes down to
  state \<open>s\<close> from the pointer's Dcd field.
\<close>

definition jp_base :: "nat \<Rightarrow> nat \<Rightarrow> dcdpop0 \<Rightarrow> nat" where
  "jp_base P s dcd = P div 256 ^ 7 * 256 ^ 7 + unat dcd div 256 ^ s * 256 ^ s"

definition leafb1_values :: "(word_t \<times> 'v list) list \<Rightarrow> (nat \<times> 'v) list" where
  "leafb1_values subs =
     concat (map (\<lambda>(k, bm, vs). zip (map ((+) (64 * k)) (set_positions bm)) vs) (enumerate 0 subs))"

function jp_entries :: "nat \<Rightarrow> 'v jp \<Rightarrow> (nat \<times> 'v) list" where
  "jp_entries P jp =
     (case jp of
        JPLEAF s dcd keys vals \<Rightarrow> zip (map (\<lambda>k. jp_base P s dcd + unat k) keys) vals
      | JPLEAF_B1 dcd subs \<Rightarrow> map (\<lambda>(d, v). (jp_base P 1 dcd + d, v)) (leafb1_values subs)
      | JPIMMED_01 s dcd v \<Rightarrow> [(jp_base P 0 dcd, v)]
      | JPIMMED s keys vals \<Rightarrow> zip (map (\<lambda>k. P + unat k) keys) vals
      | _ \<Rightarrow> (case jp_branch jp of
                None \<Rightarrow> []
              | Some (s, dcd) \<Rightarrow>
                  concat (map (\<lambda>(d, c). jp_entries (jp_base P s dcd + d * 256 ^ (s - 1)) c) (jp_children jp))))"
  by pat_completeness auto
termination
  by (relation "measure (\<lambda>(P, jp). size jp)") (auto simp del: jp_children.simps dest!: size_jp_children)

declare jp_entries.simps [simp del]

section \<open>Well-formed trees\<close>

text \<open>
  \<open>jp_wf l P jp\<close>: the pointer \<open>jp\<close> stands in a branch of state \<open>l + 1\<close> (\<open>l = 8\<close>: in the JPM) for the
  expanse of the \<open>256 ^ l\<close> indexes from \<open>P\<close> on.  The Pop0 bytes of a leaf above the least one are zero
  (asserted by the cascades).
\<close>

definition dcd_ok :: "nat \<Rightarrow> nat \<Rightarrow> dcdpop0 \<Rightarrow> bool" where
  "dcd_ok l P dcd \<longleftrightarrow> P mod 256 ^ 7 div 256 ^ l = unat dcd div 256 ^ l"

fun jp_shape :: "'v jp \<Rightarrow> bool" where
  "jp_shape (JPBRANCH_L s dcd exps) = (sorted_wrt (<) (map fst exps) \<and> 1 \<le> length exps \<and> length exps \<le> 7)"
| "jp_shape (JPBRANCH_B s dcd subs) =
     (length subs = cJU_NUMSUBEXPB \<and> (\<forall>(bm, jps)\<in>set subs. length jps = length (set_positions bm)))"
| "jp_shape (JPBRANCH_U s dcd jps) = (length jps = 256)"
| "jp_shape _ = True"

fun jp_is_null :: "'v jp \<Rightarrow> bool" where
  "jp_is_null (JPNULL n) = True"
| "jp_is_null _ = False"

fun jp_is_u :: "'v jp \<Rightarrow> bool" where
  "jp_is_u (JPBRANCH_U s dcd jps) = True"
| "jp_is_u _ = False"

definition leaf_keys_ok :: "nat \<Rightarrow> word_t list \<Rightarrow> bool" where
  "leaf_keys_ok s keys \<longleftrightarrow> sorted_wrt (<) keys \<and> (\<forall>k\<in>set keys. JU_LEASTBYTES k s = k)"

function jp_wf :: "nat \<Rightarrow> nat \<Rightarrow> 'v jp \<Rightarrow> bool" where
  "jp_wf l P jp =
     (case jp of
        JPNULL n \<Rightarrow> n = l \<and> 1 \<le> l \<and> l \<le> 7
      | JPLEAF s dcd keys vals \<Rightarrow>
          1 \<le> s \<and> s \<le> l \<and> l \<le> 7 \<and> dcd_ok l P dcd \<and> leaf_keys_ok s keys
          \<and> length keys = unat (JU_JPLEAF_POP0 dcd) + 1 \<and> length vals = length keys
          \<and> length keys \<le> cJL_LEAF_MAXPOP1 s \<and> unat dcd mod 256 ^ s < 256
      | JPLEAF_B1 dcd subs \<Rightarrow>
          1 \<le> l \<and> l \<le> 7 \<and> dcd_ok l P dcd \<and> length subs = cJU_NUMSUBEXPL
          \<and> (\<forall>(bm, vs)\<in>set subs. length vs = length (set_positions bm))
          \<and> length (leafb1_values subs) = unat (JU_JPLEAF_POP0 dcd) + 1
      | JPIMMED_01 s dcd v \<Rightarrow> s = l \<and> 1 \<le> l \<and> l \<le> 7 \<and> dcd_ok l P dcd
      | JPIMMED s keys vals \<Rightarrow>
          s = l \<and> 1 \<le> l \<and> l \<le> 3 \<and> leaf_keys_ok s keys
          \<and> 2 \<le> length keys \<and> length keys \<le> cJL_IMMED_MAXPOP1 s \<and> length vals = length keys
      | JPINVALID t \<Rightarrow> False
      | _ \<Rightarrow> (case jp_branch jp of
                None \<Rightarrow> False
              | Some (s, dcd) \<Rightarrow>
                  2 \<le> s \<and> s \<le> l \<and> l \<le> 8 \<and> (l = 8 \<longrightarrow> s = 8) \<and> dcd_ok l P dcd \<and> jp_shape jp
                  \<and> (s \<le> 7 \<longrightarrow> length (jp_entries P jp) = unat (JU_JPBRANCH_POP0 dcd s) + 1)
                  \<and> jp_entries P jp \<noteq> []
                  \<and> (\<forall>(d, c)\<in>set (jp_children jp).
                       (jp_is_u jp \<or> \<not> jp_is_null c) \<and> jp_wf (s - 1) (jp_base P s dcd + d * 256 ^ (s - 1)) c)))"
  by pat_completeness auto
termination
  by (relation "measure (\<lambda>(l, P, jp). size jp)") (auto simp del: jp_children.simps dest!: size_jp_children)

declare jp_wf.simps [simp del]

fun judyL_wf :: "'v judyL \<Rightarrow> bool" where
  "judyL_wf JL_NULL = True"
| "judyL_wf (JL_LEAFW pop0 keys vals) =
     (pop0 < cJU_LEAFW_MAXPOP1 \<and> sorted_wrt (<) keys \<and> length keys = unat pop0 + 1 \<and> length vals = length keys)"
| "judyL_wf (JL_JPM pop0 jp) =
     (cJU_LEAFW_MAXPOP1 \<le> pop0 \<and> jp_wf 8 0 jp \<and> length (jp_entries 0 jp) = unat pop0 + 1)"

fun judyL_entries :: "'v judyL \<Rightarrow> (nat \<times> 'v) list" where
  "judyL_entries JL_NULL = []"
| "judyL_entries (JL_LEAFW pop0 keys vals) = zip (map unat keys) vals"
| "judyL_entries (JL_JPM pop0 jp) = jp_entries 0 jp"

section \<open>Unfolding by kind of pointer\<close>

lemma jp_entries_branch:
  "jp_branch jp = Some (s, dcd) \<Longrightarrow>
   jp_entries P jp = concat (map (\<lambda>(d, c). jp_entries (jp_base P s dcd + d * 256 ^ (s - 1)) c) (jp_children jp))"
  by (cases jp; subst jp_entries.simps) auto

lemma jp_entries_leaf [simp]:
  "jp_entries P (JPNULL n) = []"
  "jp_entries P (JPINVALID t) = []"
  "jp_entries P (JPLEAF s dcd keys vals) = zip (map (\<lambda>k. jp_base P s dcd + unat k) keys) vals"
  "jp_entries P (JPLEAF_B1 dcd subs) = map (\<lambda>(d, v). (jp_base P 1 dcd + d, v)) (leafb1_values subs)"
  "jp_entries P (JPIMMED_01 s dcd v) = [(jp_base P 0 dcd, v)]"
  "jp_entries P (JPIMMED s keys vals) = zip (map (\<lambda>k. P + unat k) keys) vals"
  by (subst jp_entries.simps; simp)+

lemma jp_wf_branch:
  "jp_branch jp = Some (s, dcd) \<Longrightarrow>
   jp_wf l P jp \<longleftrightarrow> 2 \<le> s \<and> s \<le> l \<and> l \<le> 8 \<and> (l = 8 \<longrightarrow> s = 8) \<and> dcd_ok l P dcd \<and> jp_shape jp
     \<and> (s \<le> 7 \<longrightarrow> length (jp_entries P jp) = unat (JU_JPBRANCH_POP0 dcd s) + 1)
     \<and> jp_entries P jp \<noteq> []
     \<and> (\<forall>(d, c)\<in>set (jp_children jp).
          (jp_is_u jp \<or> \<not> jp_is_null c) \<and> jp_wf (s - 1) (jp_base P s dcd + d * 256 ^ (s - 1)) c)"
  by (cases jp; subst jp_wf.simps) auto

lemma jp_wf_leaf [simp]:
  "jp_wf l P (JPNULL n) \<longleftrightarrow> n = l \<and> 1 \<le> l \<and> l \<le> 7"
  "jp_wf l P (JPINVALID t) \<longleftrightarrow> False"
  "jp_wf l P (JPLEAF s dcd keys vals) \<longleftrightarrow>
     1 \<le> s \<and> s \<le> l \<and> l \<le> 7 \<and> dcd_ok l P dcd \<and> leaf_keys_ok s keys
     \<and> length keys = unat (JU_JPLEAF_POP0 dcd) + 1 \<and> length vals = length keys
     \<and> length keys \<le> cJL_LEAF_MAXPOP1 s \<and> unat dcd mod 256 ^ s < 256"
  "jp_wf l P (JPLEAF_B1 dcd subs) \<longleftrightarrow>
     1 \<le> l \<and> l \<le> 7 \<and> dcd_ok l P dcd \<and> length subs = cJU_NUMSUBEXPL
     \<and> (\<forall>(bm, vs)\<in>set subs. length vs = length (set_positions bm))
     \<and> length (leafb1_values subs) = unat (JU_JPLEAF_POP0 dcd) + 1"
  "jp_wf l P (JPIMMED_01 s dcd v) \<longleftrightarrow> s = l \<and> 1 \<le> l \<and> l \<le> 7 \<and> dcd_ok l P dcd"
  "jp_wf l P (JPIMMED s keys vals) \<longleftrightarrow>
     s = l \<and> 1 \<le> l \<and> l \<le> 3 \<and> leaf_keys_ok s keys
     \<and> 2 \<le> length keys \<and> length keys \<le> cJL_IMMED_MAXPOP1 s \<and> length vals = length keys"
  by (subst jp_wf.simps; simp)+

lemma jp_cases_branch:
  obtains (branch) s dcd where "jp_branch jp = Some (s, dcd)"
  | (null) n where "jp = JPNULL n"
  | (leaf) s dcd keys vals where "jp = JPLEAF s dcd keys vals"
  | (leafb1) dcd subs where "jp = JPLEAF_B1 dcd subs"
  | (immed01) s dcd v where "jp = JPIMMED_01 s dcd v"
  | (immed) s keys vals where "jp = JPIMMED s keys vals"
  | (invalid) t where "jp = JPINVALID t"
  by (cases jp) auto

section \<open>Ascending blocks\<close>

lemma sorted_blocks:
  assumes "\<And>x. x \<in> set xs \<Longrightarrow> sorted_wrt (<) (f x) \<and> (\<forall>y\<in>set (f x). y < W)"
  shows "sorted_wrt (<) (concat (map (\<lambda>(k, x). map ((+) (W * k)) (f x)) (enumerate n xs))) \<and>
    (\<forall>y\<in>set (concat (map (\<lambda>(k, x). map ((+) (W * k)) (f x)) (enumerate n xs))).
       W * n \<le> y \<and> y < W * (n + length xs))"
  using assms
proof (induction xs arbitrary: n)
  case (Cons x xs)
  let ?rest = "concat (map (\<lambda>(k, x). map ((+) (W * k)) (f x)) (enumerate (Suc n) xs))"
  have IH: "sorted_wrt (<) ?rest \<and> (\<forall>y\<in>set ?rest. W * Suc n \<le> y \<and> y < W * (Suc n + length xs))"
    by (rule Cons.IH) (use Cons.prems in auto)
  have x: "sorted_wrt (<) (f x)" "\<forall>y\<in>set (f x). y < W" using Cons.prems by auto
  have fst: "sorted_wrt (<) (map ((+) (W * n)) (f x))" using x(1) by (simp add: sorted_wrt_map)
  have le: "W * Suc n \<le> W * (n + length (x # xs))" by (intro mult_le_mono2) simp
  have first: "W * n \<le> y \<and> y < W * Suc n" if "y \<in> set (map ((+) (W * n)) (f x))" for y
    using that x(2) by auto
  define r where "r = ?rest"
  have split: "concat (map (\<lambda>(k, x). map ((+) (W * k)) (f x)) (enumerate n (x # xs))) = map ((+) (W * n)) (f x) @ r"
    by (simp add: r_def)
  note IH' = IH [folded r_def]
  have "\<forall>y\<in>set (map ((+) (W * n)) (f x)). \<forall>z\<in>set r. y < z" using first IH' by (meson less_le_trans)
  moreover have "W * n \<le> y \<and> y < W * (n + length (x # xs))" if "y \<in> set (map ((+) (W * n)) (f x) @ r)" for y
  proof (cases "y \<in> set r")
    case True
    then have "W * Suc n \<le> y" "y < W * (Suc n + length xs)" using IH' by auto
    then show ?thesis by simp
  next
    case False
    then have "y \<in> set (map ((+) (W * n)) (f x))" using that by auto
    then show ?thesis using first le by (meson less_le_trans)
  qed
  ultimately show ?case unfolding split using IH' fst by (simp only: sorted_wrt_append) blast
qed simp

text \<open>A list of pairs whose first components ascend, each mapped to pairs of its own block of keys.\<close>

lemma keys_concat:
  "k \<in> fst ` set (concat (map (\<lambda>(d, c). g d c) cs)) \<longleftrightarrow> (\<exists>d c. (d, c) \<in> set cs \<and> k \<in> fst ` set (g d c))"
proof -
  have "fst ` set (concat (map (\<lambda>(d, c). g d c) cs)) = (\<Union>x\<in>set cs. fst ` set (g (fst x) (snd x)))"
    by (simp add: image_UN case_prod_beta)
  then show ?thesis by (auto simp: Bex_def)
qed

lemma sorted_concat_blocks:
  fixes B W :: nat
  assumes "sorted_wrt (<) (map fst cs)"
    and "\<And>d c. (d, c) \<in> set cs \<Longrightarrow> sorted_wrt (<) (map fst (g d c)) \<and>
           (\<forall>k\<in>fst ` set (g d c). B + d * W \<le> k \<and> k < B + d * W + W)"
  shows "sorted_wrt (<) (map fst (concat (map (\<lambda>(d, c). g d c) cs)))"
  using assms
proof (induction cs)
  case (Cons x cs)
  obtain d c where x: "x = (d, c)" by (cases x)
  have g: "sorted_wrt (<) (map fst (g d c))" "\<forall>k\<in>fst ` set (g d c). B + d * W \<le> k \<and> k < B + d * W + W"
    using Cons.prems(2) [of d c] by (simp_all add: x)
  have IH: "sorted_wrt (<) (map fst (concat (map (\<lambda>(d, c). g d c) cs)))"
    using Cons by (auto simp: x)
  have "k < k'" if "k \<in> fst ` set (g d c)" "(d', c') \<in> set cs" "k' \<in> fst ` set (g d' c')" for k d' c' k'
  proof -
    have "d < d'" using Cons.prems(1) that(2) by (force simp: x)
    then have "(d + 1) * W \<le> d' * W" by (intro mult_le_mono1) simp
    moreover have "k < B + d * W + W" using g(2) that(1) by blast
    moreover have "B + d' * W \<le> k'" using Cons.prems(2) [of d' c'] that by (auto simp: x)
    ultimately show ?thesis by (simp add: algebra_simps)
  qed
  then have "\<forall>k\<in>set (map fst (g d c)). \<forall>k'\<in>set (map fst (concat (map (\<lambda>(d, c). g d c) cs))). k < k'"
    by fastforce
  then show ?case using g(1) IH by (simp add: x sorted_wrt_append)
qed simp

lemma map_of_concat_blocks:
  fixes B W i :: nat
  assumes "distinct (map fst cs)" "B \<le> i" "(i - B) div W = d" "0 < W"
    and "\<And>d c. (d, c) \<in> set cs \<Longrightarrow> (\<forall>k\<in>fst ` set (g d c). B + d * W \<le> k \<and> k < B + d * W + W)"
  shows "map_of (concat (map (\<lambda>(d, c). g d c) cs)) i
    = (case map_of cs d of None \<Rightarrow> None | Some c \<Rightarrow> map_of (g d c) i)"
  using assms(1,5)
proof (induction cs)
  case (Cons x cs)
  obtain e c where x: "x = (e, c)" by (cases x)
  have IH: "map_of (concat (map (\<lambda>(d, c). g d c) cs)) i
    = (case map_of cs d of None \<Rightarrow> None | Some c \<Rightarrow> map_of (g d c) i)"
    using Cons by (auto simp: x)
  have b: "\<forall>k\<in>fst ` set (g e c). B + e * W \<le> k \<and> k < B + e * W + W" using Cons.prems(2) [of e c] by (simp add: x)
  show ?case
  proof (cases "e = d")
    case True
    then have "map_of cs d = None" using Cons.prems(1) by (simp add: x map_of_eq_None_iff)
    then show ?thesis using IH True by (simp add: x map_add_def split: option.splits)
  next
    case False
    have "map_of (g e c) i = None"
    proof (rule ccontr)
      assume "map_of (g e c) i \<noteq> None"
      then have "i \<in> fst ` set (g e c)" by (simp add: map_of_eq_None_iff)
      then have "B + e * W \<le> i" "i < B + e * W + W" using b by auto
      then have "(i - B) div W = e" using assms(4) by (intro div_nat_eqI) (simp_all add: algebra_simps)
      then show False using False assms(3) by simp
    qed
    then show ?thesis using IH False by (simp add: x map_add_def)
  qed
qed simp

section \<open>Expanses\<close>

lemma base_in_expanse:
  assumes "256 ^ l dvd P" "dcd_ok l P dcd" "s \<le> l" "l \<le> 7 \<or> s = 8 \<and> l = 8"
  shows "P \<le> jp_base P s dcd \<and> jp_base P s dcd + 256 ^ s \<le> P + 256 ^ l \<and> 256 ^ s dvd jp_base P s dcd"
proof (cases "l \<le> 7")
  case True
  define a b where "a = P div 256 ^ 7" and "b = P mod 256 ^ 7"
  have P: "P = a * 256 ^ 7 + b" by (simp add: a_def b_def)
  have dvd7: "(256::nat) ^ l dvd 256 ^ 7" using True by (rule le_imp_power_dvd)
  have "256 ^ l dvd b" unfolding b_def using assms(1) dvd7 by (rule dvd_mod)
  then have "b = b div 256 ^ l * 256 ^ l" by simp
  also have "b div 256 ^ l = unat dcd div 256 ^ l" using assms(2) by (simp add: dcd_ok_def b_def)
  finally have b: "b = unat dcd div 256 ^ l * 256 ^ l" .
  have sl: "(256::nat) ^ l = 256 ^ s * 256 ^ (l - s)" using assms(3) by (simp flip: power_add)
  define c where "c = unat dcd mod 256 ^ l"
  have dcd: "unat dcd = unat dcd div 256 ^ l * 256 ^ l + c" unfolding c_def by (rule div_mult_mod_eq [symmetric])
  have c: "c < 256 ^ l" by (simp add: c_def)
  have "unat dcd div 256 ^ s = (unat dcd div 256 ^ l * 256 ^ (l - s) * 256 ^ s + c) div 256 ^ s"
  proof -
    have "unat dcd div 256 ^ l * 256 ^ l = unat dcd div 256 ^ l * 256 ^ (l - s) * 256 ^ s"
      unfolding sl by (simp only: mult.assoc mult.commute [of "256 ^ s"])
    then show ?thesis using dcd by (simp only:)
  qed
  also have "\<dots> = unat dcd div 256 ^ l * 256 ^ (l - s) + c div 256 ^ s" by simp
  finally have q: "unat dcd div 256 ^ s * 256 ^ s = b + c div 256 ^ s * 256 ^ s"
    by (simp add: b sl algebra_simps)
  then have base: "jp_base P s dcd = P + c div 256 ^ s * 256 ^ s" using P by (simp add: jp_base_def a_def)
  have "c div 256 ^ s < 256 ^ (l - s)" using c sl by (simp add: less_mult_imp_div_less mult.commute)
  then have "(c div 256 ^ s + 1) * 256 ^ s \<le> 256 ^ (l - s) * 256 ^ s" by (intro mult_le_mono1) simp
  then have "c div 256 ^ s * 256 ^ s + 256 ^ s \<le> 256 ^ l" by (simp add: sl algebra_simps)
  moreover have "256 ^ s dvd P + c div 256 ^ s * 256 ^ s"
    using assms(1,3) by (meson dvd_add dvd_trans dvd_triv_right le_imp_power_dvd)
  ultimately show ?thesis by (simp add: base)
next
  case False
  then have s: "s = 8" "l = 8" using assms(4) by auto
  have "unat dcd div 256 ^ 8 = 0" using unat_dcd_less [of dcd] by (intro div_less) simp
  moreover have "P div 256 ^ 7 * 256 ^ 7 = P"
  proof -
    have "(256::nat) ^ 7 dvd 256 ^ 8" by (rule le_imp_power_dvd) simp
    then have "256 ^ 7 dvd P" using assms(1) unfolding s by (rule dvd_trans)
    then show ?thesis by (rule dvd_div_mult_self)
  qed
  ultimately show ?thesis using assms(1) by (simp add: jp_base_def s)
qed

lemma sorted_enumerate: "sorted_wrt (<) (map fst (enumerate n xs))"
  by (simp add: enumerate_eq_zip strict_sorted_iff)

lemma enumerate_zip_blocks:
  assumes "\<And>bm xs. (bm, xs) \<in> set subs \<Longrightarrow> length xs = length (f bm)"
  shows "map fst (concat (map (\<lambda>(k, bm, xs). zip (map ((+) (W * k)) (f bm)) xs) (enumerate n subs)))
    = concat (map (\<lambda>(k, x). map ((+) (W * k)) (f (fst x))) (enumerate n subs))"
  using assms
proof (induction subs arbitrary: n)
  case (Cons x subs)
  obtain bm xs where x: "x = (bm, xs)" by (cases x)
  have "length xs = length (f bm)" by (rule Cons.prems) (simp add: x)
  then have "map fst (zip (map ((+) (W * n)) (f bm)) xs) = map ((+) (W * n)) (f bm)" by simp
  moreover have "map fst (concat (map (\<lambda>(k, bm, xs). zip (map ((+) (W * k)) (f bm)) xs) (enumerate (Suc n) subs)))
    = concat (map (\<lambda>(k, x). map ((+) (W * k)) (f (fst x))) (enumerate (Suc n) subs))"
    using Cons.prems by (intro Cons.IH) simp
  ultimately show ?case using x by simp
qed simp

lemma sorted_positions_blocks:
  fixes subs :: "('a::len word \<times> 'b list) list"
  assumes "\<And>bm xs. (bm, xs) \<in> set subs \<Longrightarrow> length xs = length (set_positions bm)"
    and "length subs * LENGTH('a) = 256"
  defines "ps \<equiv> concat (map (\<lambda>(k, bm, xs). zip (map ((+) (LENGTH('a) * k)) (set_positions bm)) xs) (enumerate 0 subs))"
  shows "sorted_wrt (<) (map fst ps) \<and> (\<forall>d\<in>fst ` set ps. d < 256)"
proof -
  have m: "map fst ps = concat (map (\<lambda>(k, x). map ((+) (LENGTH('a) * k)) (set_positions (fst x))) (enumerate 0 subs))"
    unfolding ps_def by (rule enumerate_zip_blocks) (rule assms(1))
  have "sorted_wrt (<) (map fst ps) \<and> (\<forall>d\<in>set (map fst ps). LENGTH('a) * 0 \<le> d \<and> d < LENGTH('a) * (0 + length subs))"
    unfolding m by (rule sorted_blocks) (auto simp: sorted_set_positions set_positions_less)
  then show ?thesis using assms(2) by (simp add: mult.commute)
qed

lemma jp_children_sorted:
  assumes "jp_shape jp"
  shows "sorted_wrt (<) (map fst (jp_children jp)) \<and> (\<forall>d\<in>fst ` set (jp_children jp). d < 256)"
proof (cases jp)
  case (JPBRANCH_L s dcd exps)
  have "sorted_wrt (<) (map (unat \<circ> fst) exps)"
    using assms JPBRANCH_L by (simp add: sorted_wrt_map word_less_nat_alt)
  then show ?thesis
    by (auto simp: JPBRANCH_L comp_def case_prod_beta unat_byte_less)
next
  case (JPBRANCH_B s dcd subs)
  then show ?thesis
    using assms sorted_positions_blocks [of subs] by (simp add: cJU_NUMSUBEXPB_def Ball_def)
next
  case (JPBRANCH_U s dcd jps)
  then show ?thesis
    using assms sorted_enumerate [of 0 jps] by (auto simp: in_set_enumerate_eq)
qed auto

lemma leafb1_sorted:
  assumes "length subs = cJU_NUMSUBEXPL" "\<forall>(bm, vs)\<in>set subs. length vs = length (set_positions bm)"
  shows "sorted_wrt (<) (map fst (leafb1_values subs)) \<and> (\<forall>d\<in>fst ` set (leafb1_values subs). d < 256)"
  unfolding leafb1_values_def
  using assms sorted_positions_blocks [of subs] by (simp add: cJU_NUMSUBEXPL_def Ball_def)

section \<open>The pairs ascend within the expanse\<close>

definition in_expanse :: "nat \<Rightarrow> nat \<Rightarrow> (nat \<times> 'v) list \<Rightarrow> bool" where
  "in_expanse P l es \<longleftrightarrow> sorted_wrt (<) (map fst es) \<and> (\<forall>k\<in>fst ` set es. P \<le> k \<and> k < P + 256 ^ l)"

lemma in_expanse_mono:
  "in_expanse B s es \<Longrightarrow> P \<le> B \<Longrightarrow> B + 256 ^ s \<le> P + 256 ^ l \<Longrightarrow> in_expanse P l es"
  unfolding in_expanse_def by (meson le_trans less_le_trans)

lemma in_expanse_length: "in_expanse P l es \<Longrightarrow> length es \<le> 256 ^ l"
proof -
  assume es: "in_expanse P l es"
  then have "distinct (map fst es)" unfolding in_expanse_def by (simp add: strict_sorted_iff)
  then have "length es = card (set (map fst es))" by (metis distinct_card length_map)
  also have "\<dots> \<le> card {P..<P + 256 ^ l}" using es by (intro card_mono) (auto simp: in_expanse_def)
  finally show ?thesis by simp
qed

lemma in_expanse_keys:
  assumes "leaf_keys_ok s keys" "1 \<le> s" "s \<le> 8" "length vals = length keys"
  shows "in_expanse B s (zip (map (\<lambda>k. B + unat k) keys) vals)"
proof -
  have "unat k < 256 ^ s" if "k \<in> set keys" for k
  proof -
    have "JU_LEASTBYTES k s = k" using assms(1) that by (simp add: leaf_keys_ok_def)
    then have "unat k = unat k mod 256 ^ s" using unat_leastbytes [OF assms(2,3), of k] by simp
    also have "\<dots> < 256 ^ s" by simp
    finally show ?thesis .
  qed
  moreover have "sorted_wrt (<) (map (\<lambda>k. B + unat k) keys)"
    using assms(1) by (simp add: leaf_keys_ok_def sorted_wrt_map flip: word_less_nat_alt)
  ultimately show ?thesis
    using assms(4) by (auto simp: in_expanse_def dest!: set_zip_leftD)
qed

lemma branch_in_base:
  assumes "jp_branch jp = Some (s, dcd)" "jp_shape jp" "2 \<le> s"
    and child: "\<And>d c. (d, c) \<in> set (jp_children jp) \<Longrightarrow>
      in_expanse (jp_base P s dcd + d * 256 ^ (s - 1)) (s - 1) (jp_entries (jp_base P s dcd + d * 256 ^ (s - 1)) c)"
  shows "in_expanse (jp_base P s dcd) s (jp_entries P jp)"
  unfolding jp_entries_branch [OF assms(1)] in_expanse_def
proof
  let ?B = "jp_base P s dcd"
  have pw: "(256::nat) ^ s = 256 * 256 ^ (s - 1)" using assms(3) by (simp add: power_eq_if)
  have kids: "sorted_wrt (<) (map fst (jp_children jp))" "\<forall>d\<in>fst ` set (jp_children jp). d < 256"
    using jp_children_sorted [OF assms(2)] by auto
  show "sorted_wrt (<) (map fst (concat (map (\<lambda>(d, c). jp_entries (?B + d * 256 ^ (s - 1)) c) (jp_children jp))))"
    using kids(1) by (rule sorted_concat_blocks [where B = ?B and W = "256 ^ (s - 1)"])
      (use child in \<open>simp add: in_expanse_def\<close>)
  show "\<forall>k\<in>fst ` set (concat (map (\<lambda>(d, c). jp_entries (?B + d * 256 ^ (s - 1)) c) (jp_children jp))).
      ?B \<le> k \<and> k < ?B + 256 ^ s"
  proof
    fix k assume "k \<in> fst ` set (concat (map (\<lambda>(d, c). jp_entries (?B + d * 256 ^ (s - 1)) c) (jp_children jp)))"
    then obtain d c where dc: "(d, c) \<in> set (jp_children jp)"
      and k: "k \<in> fst ` set (jp_entries (?B + d * 256 ^ (s - 1)) c)" unfolding keys_concat by blast
    then have "(d + 1) * 256 ^ (s - 1) \<le> 256 * 256 ^ (s - 1)" using kids(2) by (intro mult_le_mono1) force
    moreover have "?B + d * 256 ^ (s - 1) \<le> k" "k < ?B + d * 256 ^ (s - 1) + 256 ^ (s - 1)"
      using child [OF dc] k unfolding in_expanse_def by blast+
    ultimately show "?B \<le> k \<and> k < ?B + 256 ^ s" unfolding pw add_mult_distrib mult_1 by linarith
  qed
qed

lemma branch_bounds:
  assumes "jp_branch jp = Some (s, dcd)" "jp_wf l P jp" "256 ^ l dvd P"
  shows "2 \<le> s" "s \<le> l" "l \<le> 7 \<or> s = 8 \<and> l = 8" "jp_shape jp"
    and "P \<le> jp_base P s dcd" "jp_base P s dcd + 256 ^ s \<le> P + 256 ^ l" "256 ^ s dvd jp_base P s dcd"
    and "(d, c) \<in> set (jp_children jp) \<Longrightarrow> jp_wf (s - 1) (jp_base P s dcd + d * 256 ^ (s - 1)) c"
    and "256 ^ (s - 1) dvd jp_base P s dcd + d * 256 ^ (s - 1)"
    and "distinct (map fst (jp_children jp))" "d \<in> fst ` set (jp_children jp) \<Longrightarrow> d < 256"
proof -
  note wf = assms(2) [unfolded jp_wf_branch [OF assms(1)]]
  show s: "2 \<le> s" "s \<le> l" "l \<le> 7 \<or> s = 8 \<and> l = 8" "jp_shape jp" using wf by auto
  show B: "P \<le> jp_base P s dcd" "jp_base P s dcd + 256 ^ s \<le> P + 256 ^ l" "256 ^ s dvd jp_base P s dcd"
    using base_in_expanse [OF assms(3) _ s(2,3), of dcd] wf by auto
  show "(d, c) \<in> set (jp_children jp) \<Longrightarrow> jp_wf (s - 1) (jp_base P s dcd + d * 256 ^ (s - 1)) c"
    using wf by auto
  have pw: "(256::nat) ^ s = 256 * 256 ^ (s - 1)" using s(1) by (simp add: power_eq_if)
  have "256 ^ (s - 1) dvd jp_base P s dcd" using B(3) unfolding pw by (rule dvd_mult_right)
  then show "256 ^ (s - 1) dvd jp_base P s dcd + d * 256 ^ (s - 1)" by simp
  show "distinct (map fst (jp_children jp))" "d \<in> fst ` set (jp_children jp) \<Longrightarrow> d < 256"
    using jp_children_sorted [OF s(4)] by (auto simp: strict_sorted_iff)
qed

lemma jp_entries_expanse:
  "jp_wf l P jp \<Longrightarrow> 256 ^ l dvd P \<Longrightarrow> in_expanse P l (jp_entries P jp)"
proof (induction "size jp" arbitrary: l P jp rule: less_induct)
  case less
  show ?case
  proof (cases jp rule: jp_cases_branch)
    case (branch s dcd)
    note b = branch_bounds [OF branch less.prems]
    have "in_expanse (jp_base P s dcd) s (jp_entries P jp)"
      using branch b(4,1) by (rule branch_in_base) (use b(8,9) less.hyps size_jp_children in blast)
    then show ?thesis using b(5,6) by (rule in_expanse_mono)
  next
    case (leaf s dcd keys vals)
    then have w: "1 \<le> s" "s \<le> l" "l \<le> 7" "dcd_ok l P dcd" "leaf_keys_ok s keys" "length vals = length keys"
      using less.prems by auto
    have "in_expanse (jp_base P s dcd) s (jp_entries P jp)"
      unfolding leaf jp_entries_leaf using w by (intro in_expanse_keys) auto
    then show ?thesis using base_in_expanse [OF less.prems(2) w(4,2)] w(3) in_expanse_mono by blast
  next
    case (leafb1 dcd subs)
    then have w: "1 \<le> l" "l \<le> 7" "dcd_ok l P dcd" using less.prems by auto
    have "sorted_wrt (<) (map fst (leafb1_values subs)) \<and> (\<forall>d\<in>fst ` set (leafb1_values subs). d < 256)"
      using less.prems leafb1 by (intro leafb1_sorted) auto
    then have "in_expanse (jp_base P 1 dcd) 1 (jp_entries P jp)"
      by (auto simp: leafb1 in_expanse_def sorted_wrt_map case_prod_beta)
    then show ?thesis using base_in_expanse [OF less.prems(2) w(3,1)] w(2) in_expanse_mono by blast
  next
    case (immed01 s dcd v)
    then have w: "0 \<le> l" "l \<le> 7" "dcd_ok l P dcd" using less.prems by auto
    have "in_expanse (jp_base P 0 dcd) 0 (jp_entries P jp)" by (simp add: immed01 in_expanse_def)
    then show ?thesis using base_in_expanse [OF less.prems(2) w(3,1)] w(2) in_expanse_mono by blast
  next
    case (immed s keys vals)
    then show ?thesis using less.prems in_expanse_keys [of s keys vals P] by auto
  qed (use less.prems in \<open>auto simp: in_expanse_def\<close>)
qed

section \<open>Looking an index up in the pairs\<close>

lemma expanse_top:
  fixes i P :: nat
  assumes "256 ^ l dvd P" "l \<le> 7" "P \<le> i" "i < P + 256 ^ l"
  shows "i div 256 ^ 7 = P div 256 ^ 7"
proof -
  obtain q where q: "P = 256 ^ l * q" using assms(1) by (rule dvdE)
  have "i div 256 ^ l = q" using assms(3,4) unfolding q by (intro div_nat_eqI) (simp_all add: algebra_simps)
  moreover have "P div 256 ^ l = q" unfolding q by simp
  moreover have "x div 256 ^ 7 = x div 256 ^ l div 256 ^ (7 - l)" for x :: nat
    using assms(2) by (simp flip: div_mult2_eq power_add)
  ultimately show ?thesis by simp
qed

lemma in_base_iff:
  fixes i P :: nat
  assumes "256 ^ l dvd P" "l \<le> 7" "P \<le> i" "i < P + 256 ^ l"
  shows "jp_base P s dcd \<le> i \<and> i < jp_base P s dcd + 256 ^ s \<longleftrightarrow> i mod 256 ^ 7 div 256 ^ s = unat dcd div 256 ^ s"
proof -
  define a r q where "a = P div 256 ^ 7 * 256 ^ 7" and "r = i mod 256 ^ 7" and "q = unat dcd div 256 ^ s"
  have i: "i = a + r" using expanse_top [OF assms] div_mult_mod_eq [of i "256 ^ 7"] by (simp only: a_def r_def)
  have b: "jp_base P s dcd = a + q * 256 ^ s" by (simp add: jp_base_def a_def q_def)
  have "q * 256 ^ s \<le> r \<and> r < q * 256 ^ s + 256 ^ s \<longleftrightarrow> r div 256 ^ s = q"
  proof
    assume "q * 256 ^ s \<le> r \<and> r < q * 256 ^ s + 256 ^ s"
    then show "r div 256 ^ s = q" by (intro div_nat_eqI) (simp_all add: algebra_simps)
  next
    assume q: "r div 256 ^ s = q"
    show "q * 256 ^ s \<le> r \<and> r < q * 256 ^ s + 256 ^ s"
    proof -
      have "q * 256 ^ s + r mod 256 ^ s = r" unfolding q [symmetric] by (rule div_mult_mod_eq)
      moreover have "r mod 256 ^ s < 256 ^ s" by simp
      ultimately show ?thesis by linarith
    qed
  qed
  moreover have "jp_base P s dcd \<le> i \<longleftrightarrow> q * 256 ^ s \<le> r" unfolding b by (subst i) simp
  moreover have "i < jp_base P s dcd + 256 ^ s \<longleftrightarrow> r < q * 256 ^ s + 256 ^ s" unfolding b by (subst i) simp
  ultimately show ?thesis unfolding r_def [symmetric] q_def [symmetric] by blast
qed

lemma digit_of_base:
  fixes i B :: nat
  assumes "256 ^ s dvd B" "B \<le> i" "i < B + 256 ^ s" "1 \<le> s"
  shows "(i - B) div 256 ^ (s - 1) = i div 256 ^ (s - 1) mod 256"
    and "B + i div 256 ^ (s - 1) mod 256 * 256 ^ (s - 1) \<le> i"
    and "i < B + i div 256 ^ (s - 1) mod 256 * 256 ^ (s - 1) + 256 ^ (s - 1)"
proof -
  define W where "W = (256::nat) ^ (s - 1)"
  have pw: "(256::nat) ^ s = 256 * W" using assms(4) by (simp add: W_def power_eq_if)
  have W: "0 < W" by (simp add: W_def)
  obtain q where q: "B = 256 * W * q" using assms(1) unfolding pw by (rule dvdE)
  define r where "r = i - B"
  have i: "i = B + r" using assms(2) by (simp add: r_def)
  have "r < 256 * W" using assms(3) by (simp add: i pw)
  then have r: "r div W < 256" by (simp add: less_mult_imp_div_less)
  have "i div W = 256 * q + r div W" using W unfolding i q by (simp add: div_plus_div_distrib_dvd_left mult.assoc)
  then have d: "i div W mod 256 = r div W" using r by simp
  have m: "r div W * W + r mod W = r" "r mod W < W" using W by simp_all
  show "(i - B) div 256 ^ (s - 1) = i div 256 ^ (s - 1) mod 256"
    unfolding W_def [symmetric] r_def [symmetric] d ..
  show "B + i div 256 ^ (s - 1) mod 256 * 256 ^ (s - 1) \<le> i"
    unfolding W_def [symmetric] d unfolding i using m by linarith
  show "i < B + i div 256 ^ (s - 1) mod 256 * 256 ^ (s - 1) + 256 ^ (s - 1)"
    unfolding W_def [symmetric] d unfolding i using m by linarith
qed

lemma map_of_outside: "in_expanse B s es \<Longrightarrow> \<not> (B \<le> i \<and> i < B + 256 ^ s) \<Longrightarrow> map_of es i = None"
  by (auto simp: in_expanse_def map_of_eq_None_iff)

lemma branch_expanse:
  assumes "jp_branch jp = Some (s, dcd)" "jp_wf l P jp" "256 ^ l dvd P"
  shows "in_expanse (jp_base P s dcd) s (jp_entries P jp)"
proof -
  note b = branch_bounds [OF assms]
  show ?thesis
    using assms(1) b(4,1) by (rule branch_in_base) (use b(8,9) jp_entries_expanse in blast)
qed

text \<open>Looking an index up in a branch: outside the expanse that the Dcd bytes leave there is nothing,
  inside it the child of the index's digit decides.\<close>

lemma branch_lookup_outside:
  assumes "jp_branch jp = Some (s, dcd)" "jp_wf l P jp" "256 ^ l dvd P"
    and "\<not> (jp_base P s dcd \<le> i \<and> i < jp_base P s dcd + 256 ^ s)"
  shows "map_of (jp_entries P jp) i = None"
  using branch_expanse [OF assms(1-3)] assms(4) by (rule map_of_outside)

lemma branch_lookup_inside:
  assumes "jp_branch jp = Some (s, dcd)" "jp_wf l P jp" "256 ^ l dvd P"
    and "jp_base P s dcd \<le> i" "i < jp_base P s dcd + 256 ^ s"
  defines "d \<equiv> i div 256 ^ (s - 1) mod 256"
  shows "map_of (jp_entries P jp) i
    = (case map_of (jp_children jp) d of None \<Rightarrow> None
       | Some c \<Rightarrow> map_of (jp_entries (jp_base P s dcd + d * 256 ^ (s - 1)) c) i)"
proof -
  note b = branch_bounds [OF assms(1-3)]
  have s: "1 \<le> s" using b(1) by simp
  show ?thesis
    unfolding jp_entries_branch [OF assms(1)]
  proof (rule map_of_concat_blocks [where B = "jp_base P s dcd" and W = "256 ^ (s - 1)"])
    show "(i - jp_base P s dcd) div 256 ^ (s - 1) = d"
      unfolding d_def by (rule digit_of_base(1) [OF b(7) assms(4,5) s])
    fix d c assume "(d, c) \<in> set (jp_children jp)"
    from jp_entries_expanse [OF b(8) [OF this] b(9)]
    show "\<forall>k\<in>fst ` set (jp_entries (jp_base P s dcd + d * 256 ^ (s - 1)) c).
        jp_base P s dcd + d * 256 ^ (s - 1) \<le> k \<and> k < jp_base P s dcd + d * 256 ^ (s - 1) + 256 ^ (s - 1)"
      by (simp add: in_expanse_def)
  qed (use b(10) assms(4) in simp_all)
qed

lemma judyL_entries_sorted:
  assumes "judyL_wf array"
  shows "sorted_wrt (<) (map fst (judyL_entries array)) \<and> (\<forall>k\<in>fst ` set (judyL_entries array). k < 2 ^ 64)"
proof (cases array)
  case JL_NULL
  then show ?thesis by simp
next
  case (JL_LEAFW pop0 keys vals)
  have less: "unat (k :: word_t) < 2 ^ 64" for k using unsigned_less [of k, where 'a = nat] by simp
  show ?thesis
    using assms JL_LEAFW less by (auto simp: sorted_wrt_map simp flip: word_less_nat_alt dest!: set_zip_leftD)
next
  case (JL_JPM pop0 jp)
  then have "in_expanse 0 8 (jp_entries 0 jp)" using assms by (intro jp_entries_expanse) auto
  then show ?thesis by (simp add: JL_JPM in_expanse_def)
qed

end
