(* ===== verification/JudyGet.thy ===== *)
theory JudyGet
  imports JudyTree "HOL-Library.Code_Target_Numeral"
begin

text \<open>
  \<open>JudyLGet\<close> (\<open>src/Judy/src/JudyCommon/JudyGet.c\<close>): the state machine that walks from the root to the
  value of an index, one definition per group of cases of its \<open>switch\<close>.  A walk returns the value (the
  code returns a pointer to it), null, or the corruption error; \<open>Undefined\<close> stands for a search that does
  not end and for a read outside an array.  The debugging check \<open>JudyCheckPop\<close> of the same file is not
  modelled: its assertion on \<open>jp_Addr\<close> is about the address bits of the pointers, which the model does
  not have, and about the client's value in an immediate.
\<close>

section \<open>Results\<close>

datatype 'v judy_ret = Found 'v | NotFound | Corrupt | Undefined

datatype 'v step = Continue "'v jp" | Return "'v judy_ret"

definition nth_opt :: "'a list \<Rightarrow> nat \<Rightarrow> 'a option" where
  "nth_opt xs i = (if i < length xs then Some (xs ! i) else None)"

fun found_opt :: "'v option \<Rightarrow> 'v judy_ret" where
  "found_opt (Some v) = Found v"
| "found_opt None = Undefined"

fun continue_opt :: "'v jp option \<Rightarrow> 'v step" where
  "continue_opt (Some jp) = Continue jp"
| "continue_opt None = Return Undefined"

section \<open>The cases of the state machine\<close>

text \<open>\<open>JudyBranchL\<close>: scan the expanse bytes for the digit.\<close>

fun jbl_scan :: "uint8 \<Rightarrow> (uint8 \<times> 'v jp) list \<Rightarrow> 'v jp option" where
  "jbl_scan digit [] = None"
| "jbl_scan digit ((expanse, jp) # rest) = (if expanse = digit then Some jp else jbl_scan digit rest)"

definition get_jpbranch_l :: "word_t \<Rightarrow> nat \<Rightarrow> dcdpop0 \<Rightarrow> (uint8 \<times> 'v jp) list \<Rightarrow> 'v step" where
  "get_jpbranch_l index s dcd jbl =
     (if s < 2 \<or> 8 < s then Return Corrupt
      else if s \<le> 6 \<and> JU_DCDNOTMATCHINDEX index dcd s then Return NotFound
      else case jbl_scan (JU_DIGITATSTATE index s) jbl of
             Some jp \<Rightarrow> Continue jp
           | None \<Rightarrow> Return NotFound)"

definition get_jpbranch_b :: "word_t \<Rightarrow> nat \<Rightarrow> dcdpop0 \<Rightarrow> (uint32 \<times> 'v jp list) list \<Rightarrow> 'v step" where
  "get_jpbranch_b index s dcd jbb =
     (if s < 2 \<or> 8 < s then Return Corrupt
      else if s \<le> 6 \<and> JU_DCDNOTMATCHINDEX index dcd s then Return NotFound
      else let digit = unat (JU_DIGITATSTATE index s); subexp = digit div cJU_BITSPERSUBEXPB
           in case nth_opt jbb subexp of
                None \<Rightarrow> Return Undefined
              | Some (bitmap, jps) \<Rightarrow>
                  let bitmask = JU_BITPOSMASKB digit
                  in if bitmap AND bitmask = 0 then Return NotFound
                     else continue_opt (nth_opt jps (unat (j__udyCountBitsB (bitmap AND (bitmask - 1))))))"

definition get_jpbranch_u :: "word_t \<Rightarrow> nat \<Rightarrow> dcdpop0 \<Rightarrow> 'v jp list \<Rightarrow> 'v step" where
  "get_jpbranch_u index s dcd jbu =
     (if s < 2 \<or> 8 < s then Return Corrupt
      else if s \<le> 6 \<and> JU_DCDNOTMATCHINDEX index dcd s then Return NotFound
      else continue_opt (nth_opt jbu (unat (JU_DIGITATSTATE index s))))"

definition get_jpleaf :: "word_t \<Rightarrow> nat \<Rightarrow> dcdpop0 \<Rightarrow> word_t list \<Rightarrow> 'v list \<Rightarrow> 'v judy_ret" where
  "get_jpleaf index s dcd pjll pjv =
     (if s < 1 \<or> 7 < s then Corrupt
      else if s \<le> 6 \<and> JU_DCDNOTMATCHINDEX index dcd s then NotFound
      else let pop1 = ucast (JU_JPLEAF_POP0 dcd) + 1
           in case search_leaf_state s pjll pop1 index of
                None \<Rightarrow> Undefined
              | Some posidx \<Rightarrow> if posidx < 0 then NotFound else found_opt (nth_opt pjv (nat posidx)))"

definition get_jpleaf_b1 :: "word_t \<Rightarrow> dcdpop0 \<Rightarrow> (word_t \<times> 'v list) list \<Rightarrow> 'v judy_ret" where
  "get_jpleaf_b1 index dcd pjlb =
     (if JU_DCDNOTMATCHINDEX index dcd 1 then NotFound
      else let digit = unat (JU_DIGITATSTATE index 1); subexp = digit div cJU_BITSPERSUBEXPL
           in case nth_opt pjlb subexp of
                None \<Rightarrow> Undefined
              | Some (bitmap, pjv) \<Rightarrow>
                  let bitmask = JU_BITPOSMASKL digit
                  in if bitmap AND bitmask = 0 then NotFound
                     else found_opt (nth_opt pjv (unat (j__udyCountBitsL (bitmap AND (bitmask - 1))))))"

definition get_jpimmed_01 :: "word_t \<Rightarrow> nat \<Rightarrow> dcdpop0 \<Rightarrow> 'v \<Rightarrow> 'v judy_ret" where
  "get_jpimmed_01 index s dcd v =
     (if s < 1 \<or> 7 < s then Corrupt
      else if JU_JPDCDPOP0 dcd \<noteq> JU_TRIMTODCDSIZE index then NotFound else Found v)"

text \<open>\<open>CHECKINDEXNATIVE\<close> and \<open>CHECKLEAFNONNAT\<close>, from the last index of the immediate down to the first.\<close>

fun check_index :: "nat \<Rightarrow> word_t list \<Rightarrow> 'v list \<Rightarrow> word_t \<Rightarrow> nat \<Rightarrow> 'v judy_ret" where
  "check_index s jp_LIndex pjv index 0 = NotFound"
| "check_index s jp_LIndex pjv index (Suc i) =
     (if jp_LIndex ! i = JU_LEASTBYTES index s then found_opt (nth_opt pjv i)
      else check_index s jp_LIndex pjv index i)"

definition get_jpimmed :: "word_t \<Rightarrow> nat \<Rightarrow> word_t list \<Rightarrow> 'v list \<Rightarrow> 'v judy_ret" where
  "get_jpimmed index s jp_LIndex pjv =
     (if s < 1 \<or> 3 < s \<or> length jp_LIndex < 2 \<or> cJL_IMMED_MAXPOP1 s < length jp_LIndex then Corrupt
      else check_index s jp_LIndex pjv index (length jp_LIndex))"

fun get_step :: "word_t \<Rightarrow> 'v jp \<Rightarrow> 'v step" where
  "get_step index (JPNULL n) = Return (if 1 \<le> n \<and> n \<le> 7 then NotFound else Corrupt)"
| "get_step index (JPBRANCH_L s dcd jbl) = get_jpbranch_l index s dcd jbl"
| "get_step index (JPBRANCH_B s dcd jbb) = get_jpbranch_b index s dcd jbb"
| "get_step index (JPBRANCH_U s dcd jbu) = get_jpbranch_u index s dcd jbu"
| "get_step index (JPLEAF s dcd pjll pjv) = Return (get_jpleaf index s dcd pjll pjv)"
| "get_step index (JPLEAF_B1 dcd pjlb) = Return (get_jpleaf_b1 index dcd pjlb)"
| "get_step index (JPIMMED_01 s dcd v) = Return (get_jpimmed_01 index s dcd v)"
| "get_step index (JPIMMED s keys vals) = Return (get_jpimmed index s keys vals)"
| "get_step index (JPINVALID t) = Return Corrupt"

lemma jbl_scan_mem: "jbl_scan digit jbl = Some jp \<Longrightarrow> (digit, jp) \<in> set jbl"
  by (induction jbl) (auto split: if_splits)

lemma nth_opt_mem: "nth_opt xs i = Some x \<Longrightarrow> x \<in> set xs"
  by (auto simp: nth_opt_def split: if_splits)

lemma continue_opt_eq: "continue_opt r = Continue c \<longleftrightarrow> r = Some c"
  by (cases r) auto

lemma size_get_step: "get_step index jp = Continue c \<Longrightarrow> size c < size jp"
proof (cases jp)
  case (JPBRANCH_L s dcd exps)
  assume "get_step index jp = Continue c"
  then obtain d where "(d, c) \<in> set exps"
    using JPBRANCH_L by (auto simp: get_jpbranch_l_def dest!: jbl_scan_mem split: if_splits option.splits)
  from size_list_elem [OF this, of "size_prod (\<lambda>_. 0) size"] show ?thesis using JPBRANCH_L by simp
next
  case (JPBRANCH_B s dcd subs)
  assume "get_step index jp = Continue c"
  then obtain bm jps where "(bm, jps) \<in> set subs" "c \<in> set jps"
    using JPBRANCH_B
    by (auto simp: get_jpbranch_b_def Let_def continue_opt_eq dest!: nth_opt_mem split: if_splits option.splits)
  from size_list_elem [OF this(1), of "size_prod (\<lambda>_. 0) (size_list size)"] size_list_elem [OF this(2), of size]
  show ?thesis using JPBRANCH_B by simp
next
  case (JPBRANCH_U s dcd jps)
  assume "get_step index jp = Continue c"
  then have "c \<in> set jps"
    using JPBRANCH_U by (auto simp: get_jpbranch_u_def continue_opt_eq dest!: nth_opt_mem split: if_splits)
  from size_list_elem [OF this, of size] show ?thesis using JPBRANCH_U by simp
qed auto

function get_walk :: "word_t \<Rightarrow> 'v jp \<Rightarrow> 'v judy_ret" where
  "get_walk index jp = (case get_step index jp of Continue c \<Rightarrow> get_walk index c | Return r \<Rightarrow> r)"
  by pat_completeness auto
termination
  by (relation "measure (\<lambda>(index, jp). size jp)") (auto intro: size_get_step)

declare get_walk.simps [simp del]

definition leafw_get :: "'v judyL \<Rightarrow> word_t \<Rightarrow> 'v judy_ret" where
  "leafw_get array index =
     (case array of
        JL_LEAFW pop0 pjlw pjv \<Rightarrow>
          (case j__udySearchLeafW pjlw (pop0 + 1) index of
             None \<Rightarrow> Undefined
           | Some posidx \<Rightarrow> if posidx \<ge> 0 then found_opt (nth_opt pjv (nat posidx)) else NotFound)
      | _ \<Rightarrow> Undefined)"

definition JudyLGet :: "'v judyL \<Rightarrow> word_t \<Rightarrow> 'v judy_ret" where
  "JudyLGet array index =
     (case array of
        JL_NULL \<Rightarrow> NotFound
      | _ \<Rightarrow>
          if JU_LEAFW_POP0 array < cJU_LEAFW_MAXPOP1 then leafw_get array index
          else (case array of JL_JPM pop0 jp \<Rightarrow> get_walk index jp | _ \<Rightarrow> Undefined))"

section \<open>Each case finds its pairs\<close>

lemma nth_opt_Some [simp]: "i < length xs \<Longrightarrow> nth_opt xs i = Some (xs ! i)"
  by (simp add: nth_opt_def)

lemma map_of_keys:
  assumes "sorted_wrt (<) keys" "length vals = length keys"
  shows "map_of (zip (map (\<lambda>k. B + unat k) keys) vals) i
    = (if B \<le> i \<and> i - B \<in> unat ` set keys then Some (vals ! insertion_point keys (word_of_nat (i - B))) else None)"
proof (cases "B \<le> i \<and> i - B \<in> unat ` set keys")
  case True
  then obtain k where k: "k \<in> set keys" "i = B + unat k" by (auto intro: le_add_diff_inverse [symmetric])
  then have n: "insertion_point keys k < length keys" "keys ! insertion_point keys k = k"
    using insertion_point_mem [OF assms(1)] by auto
  let ?zs = "zip (map (\<lambda>k. B + unat k) keys) vals"
  have "?zs ! insertion_point keys k = (i, vals ! insertion_point keys k)" using n k assms(2) by simp
  moreover have "insertion_point keys k < length ?zs" using n assms(2) by simp
  ultimately have "(i, vals ! insertion_point keys k) \<in> set ?zs" by (metis nth_mem)
  moreover have "distinct (map fst ?zs)"
    using assms by (auto simp: distinct_map inj_on_def strict_sorted_iff word_unat_eq_iff [symmetric])
  ultimately have "map_of ?zs i = Some (vals ! insertion_point keys k)" by (simp add: map_of_is_SomeI)
  then show ?thesis using True k by simp
next
  case False
  then have "i \<notin> fst ` set (zip (map (\<lambda>k. B + unat k) keys) vals)" by (auto dest!: set_zip_leftD)
  then have "map_of (zip (map (\<lambda>k. B + unat k) keys) vals) i = None" by (simp only: map_of_eq_None_iff simp_thms)
  then show ?thesis unfolding if_not_P [OF False] .
qed

definition get_result :: "'v option \<Rightarrow> 'v judy_ret" where
  "get_result r = (case r of Some v \<Rightarrow> Found v | None \<Rightarrow> NotFound)"

lemma search_found:
  assumes "sorted_wrt (<) keys" "length vals = length keys"
  shows "(if search_result keys x < 0 then NotFound else found_opt (nth_opt vals (nat (search_result keys x))))
    = get_result (if x \<in> set keys then Some (vals ! insertion_point keys x) else None)"
  using insertion_point_mem [OF assms(1), of x] assms(2)
  by (auto simp: search_result_def get_result_def)

lemma check_index_found:
  assumes "sorted_wrt (<) keys" "length vals = length keys"
  shows "n \<le> length keys \<Longrightarrow> check_index s keys vals index n
    = get_result (if JU_LEASTBYTES index s \<in> set (take n keys)
        then Some (vals ! insertion_point keys (JU_LEASTBYTES index s)) else None)"
proof (induction n)
  case (Suc n)
  let ?x = "JU_LEASTBYTES index s"
  have t: "set (take (Suc n) keys) = insert (keys ! n) (set (take n keys))"
    using Suc.prems by (auto simp: take_Suc_conv_app_nth)
  show ?case
  proof (cases "keys ! n = ?x")
    case True
    then have "insertion_point keys ?x = n"
      using Suc.prems assms(1) unfolding True [symmetric]
      by (intro insertion_point_unique) (simp_all add: sorted_wrt_nth_less)
    then show ?thesis using True Suc.prems assms(2) by (simp add: t get_result_def)
  next
    case False
    then show ?thesis using Suc by (simp add: t)
  qed
qed (simp add: get_result_def)

lemma offset_is_leastbytes:
  assumes "256 ^ s dvd B" "B \<le> unat index" "unat index < B + 256 ^ s" "1 \<le> s" "s \<le> 8"
  shows "unat index - B = unat (JU_LEASTBYTES index s)" "word_of_nat (unat index - B) = JU_LEASTBYTES index s"
proof -
  obtain q where q: "B = 256 ^ s * q" using assms(1) by (rule dvdE)
  have "unat index - B = unat index mod 256 ^ s"
  proof -
    have "unat index = 256 ^ s * q + (unat index - B)" using assms(2) q by simp
    then have "unat index mod 256 ^ s = (unat index - B) mod 256 ^ s" by (metis mod_mult_self4)
    moreover have "unat index - B < 256 ^ s" using assms(2,3) by simp
    ultimately show ?thesis by simp
  qed
  then show u: "unat index - B = unat (JU_LEASTBYTES index s)" using unat_leastbytes [OF assms(4,5), of index] by (simp only:)
  show "word_of_nat (unat index - B) = JU_LEASTBYTES index s" by (simp add: u)
qed

lemma map_of_keys_outside:
  assumes "leaf_keys_ok s keys" "1 \<le> s" "s \<le> 8" "length vals = length keys" "\<not> (B \<le> i \<and> i < B + 256 ^ s)"
  shows "map_of (zip (map (\<lambda>k. B + unat k) keys) vals) i = None"
  using in_expanse_keys [OF assms(1-4)] assms(5) by (rule map_of_outside)

lemma map_of_keys_inside:
  assumes "leaf_keys_ok s keys" "1 \<le> s" "s \<le> 8" "length vals = length keys"
    and "256 ^ s dvd B" "B \<le> unat index" "unat index < B + 256 ^ s"
  shows "map_of (zip (map (\<lambda>k. B + unat k) keys) vals) (unat index)
    = (if JU_LEASTBYTES index s \<in> set keys then Some (vals ! insertion_point keys (JU_LEASTBYTES index s)) else None)"
proof -
  have "unat (JU_LEASTBYTES index s) \<in> unat ` set keys \<longleftrightarrow> JU_LEASTBYTES index s \<in> set keys"
    by (auto simp: word_unat_eq_iff [symmetric])
  then show ?thesis
    using assms by (simp add: map_of_keys offset_is_leastbytes leaf_keys_ok_def)
qed

section \<open>The walk finds the pairs\<close>

text \<open>The Dcd test of a pointer decides whether an index is in the expanse the pointer leaves.\<close>

lemma dcd_test:
  assumes "256 ^ l dvd P" "l \<le> 7" "P \<le> unat index" "unat index < P + 256 ^ l" "1 \<le> s" "s \<le> l"
  shows "(s \<le> 6 \<and> JU_DCDNOTMATCHINDEX index dcd s)
    \<longleftrightarrow> \<not> (jp_base P s dcd \<le> unat index \<and> unat index < jp_base P s dcd + 256 ^ s)"
proof (cases "s \<le> 6")
  case True
  then show ?thesis using assms by (simp add: dcd_match in_base_iff [OF assms(1-4)])
next
  case False
  then have "s = 7" using assms by simp
  moreover have "unat index mod 256 ^ 7 div 256 ^ 7 = 0" "unat dcd div 256 ^ 7 = 0"
    using unat_dcd_less [of dcd] by simp_all
  ultimately show ?thesis using in_base_iff [OF assms(1-4), of s dcd] by simp
qed

lemma unat_byte_plus_1: "unat (ucast (b :: uint8) + 1 :: word_t) = unat b + 1"
proof -
  have "ucast b + 1 = (word_of_nat (unat b + 1) :: word_t)" unfolding ucast_byte by simp
  moreover have "unat b + 1 < 2 ^ 64" using unat_byte_less [of b] by simp
  ultimately show ?thesis by (simp only: unat_of_nat) (simp add: take_bit_nat_eq_self)
qed

lemma get_jpleaf_correct:
  assumes "jp_wf l P (JPLEAF s dcd keys vals)" "256 ^ l dvd P" "P \<le> unat index" "unat index < P + 256 ^ l"
  shows "get_jpleaf index s dcd keys vals = get_result (map_of (jp_entries P (JPLEAF s dcd keys vals)) (unat index))"
proof -
  have w: "1 \<le> s" "s \<le> l" "l \<le> 7" "dcd_ok l P dcd" "leaf_keys_ok s keys" "length vals = length keys"
    "length keys = unat (JU_JPLEAF_POP0 dcd) + 1" using assms(1) by auto
  then have s8: "s \<le> 8" "s \<le> 7" by simp_all
  have sk: "sorted_wrt (<) keys" "\<forall>k\<in>set keys. JU_LEASTBYTES k s = k" using w(5) by (simp_all add: leaf_keys_ok_def)
  have B: "256 ^ s dvd jp_base P s dcd" using base_in_expanse [OF assms(2) w(4,2)] w(3) by blast
  note t = dcd_test [OF assms(2) w(3) assms(3,4) w(1,2), of dcd]
  show ?thesis
  proof (cases "jp_base P s dcd \<le> unat index \<and> unat index < jp_base P s dcd + 256 ^ s")
    case True
    have "unat (JU_JPLEAF_POP0 dcd) < 256" by (rule unat_byte_less)
    then have pop: "unat (ucast (JU_JPLEAF_POP0 dcd) + 1 :: word_t) = length keys" "length keys < 2 ^ 31"
      using w(7) unat_byte_plus_1 [of "JU_JPLEAF_POP0 dcd"] by (linarith, simp)
    have B1: "jp_base P s dcd \<le> unat index" "unat index < jp_base P s dcd + 256 ^ s" using True by auto
    let ?x = "JU_LEASTBYTES index s"
    have "search_leaf_state s keys (ucast (JU_JPLEAF_POP0 dcd) + 1) index = Some (search_result keys ?x)"
      by (rule search_leaf_state_sorted [OF w(1) s8(2) sk(1) pop(2,1) sk(2)])
    moreover have "\<not> (s < 1 \<or> 7 < s)" using w(1) s8 by simp
    moreover have "\<not> (s \<le> 6 \<and> JU_DCDNOTMATCHINDEX index dcd s)" using t True by blast
    ultimately have "get_jpleaf index s dcd keys vals = (if search_result keys ?x < 0 then NotFound
        else found_opt (nth_opt vals (nat (search_result keys ?x))))"
      by (simp only: get_jpleaf_def Let_def if_False option.case)
    then show ?thesis
      unfolding search_found [OF sk(1) w(6)] jp_entries_leaf map_of_keys_inside [OF w(5,1) s8(1) w(6) B B1] .
  next
    case False
    then show ?thesis
      using t w(1) s8 map_of_keys_outside [OF w(5,1) s8(1) w(6) False]
      by (simp add: get_jpleaf_def get_result_def)
  qed
qed

lemma map_of_enumerate: "map_of (enumerate n xs) d = (if n \<le> d then nth_opt xs (d - n) else None)"
  by (induction xs arbitrary: n) (auto simp: nth_opt_def nth_Cons')

lemma map_of_positions:
  assumes "length xs = length (set_positions bm)" "W * k \<le> d"
  shows "map_of (zip (map ((+) (W * k)) (set_positions bm)) xs) d
    = (if bit bm (d - W * k) then Some (xs ! bits_below bm (d - W * k)) else None)"
proof (cases "bit bm (d - W * k)")
  case True
  let ?zs = "zip (map ((+) (W * k)) (set_positions bm)) xs" and ?n = "bits_below bm (d - W * k)"
  have "?zs ! ?n = (d, xs ! ?n)" "?n < length ?zs" using nth_bits_below [OF True] assms by simp_all
  then have "(d, xs ! ?n) \<in> set ?zs" by (metis nth_mem)
  moreover have "distinct (map fst ?zs)"
    using sorted_set_positions [of bm] assms(1) by (simp add: distinct_map strict_sorted_iff)
  ultimately show ?thesis using True by (simp add: map_of_is_SomeI)
next
  case False
  then have "d \<notin> fst ` set (zip (map ((+) (W * k)) (set_positions bm)) xs)"
    by (auto simp: set_positions_iff dest!: set_zip_leftD)
  then show ?thesis using False by (simp add: map_of_eq_None_iff)
qed

lemma map_of_position_blocks:
  fixes subs :: "('a::len word \<times> 'b list) list"
  assumes "\<And>bm xs. (bm, xs) \<in> set subs \<Longrightarrow> length xs = length (set_positions bm)"
    and "d < LENGTH('a) * length subs"
  shows "map_of (concat (map (\<lambda>(k, bm, xs). zip (map ((+) (LENGTH('a) * k)) (set_positions bm)) xs) (enumerate 0 subs))) d
    = (case subs ! (d div LENGTH('a)) of (bm, xs) \<Rightarrow>
         if bit bm (d mod LENGTH('a)) then Some (xs ! bits_below bm (d mod LENGTH('a))) else None)"
proof -
  let ?W = "LENGTH('a)" and ?g = "\<lambda>k (bm :: 'a word, xs :: 'b list). zip (map ((+) (LENGTH('a) * k)) (set_positions bm)) xs"
  have k: "d div ?W < length subs" using assms(2) by (simp add: less_mult_imp_div_less mult.commute)
  have "map_of (concat (map (\<lambda>(k, x). ?g k x) (enumerate 0 subs))) d
      = (case map_of (enumerate 0 subs) (d div ?W) of None \<Rightarrow> None | Some x \<Rightarrow> map_of (?g (d div ?W) x) d)"
  proof (rule map_of_concat_blocks [where B = 0 and W = ?W])
    show "distinct (map fst (enumerate 0 subs))" using sorted_enumerate [of 0 subs] by (simp add: strict_sorted_iff)
    fix k :: nat and x assume "(k, x) \<in> set (enumerate 0 subs)"
    show "\<forall>y\<in>fst ` set (?g k x). 0 + k * ?W \<le> y \<and> y < 0 + k * ?W + ?W"
      by (cases x) (auto simp: mult.commute dest!: set_zip_leftD set_positions_less)
  qed simp_all
  also have "map_of (enumerate 0 subs) (d div ?W) = Some (subs ! (d div ?W))" using k by (simp add: map_of_enumerate)
  finally have m: "map_of (concat (map (\<lambda>(k, x). ?g k x) (enumerate 0 subs))) d = map_of (?g (d div ?W) (subs ! (d div ?W))) d"
    by simp
  obtain bm xs where x: "subs ! (d div ?W) = (bm, xs)" by (cases "subs ! (d div ?W)")
  then have "length xs = length (set_positions bm)" using k by (metis assms(1) nth_mem)
  then have "map_of (?g (d div ?W) (subs ! (d div ?W))) d
      = (if bit bm (d mod ?W) then Some (xs ! bits_below bm (d mod ?W)) else None)"
    using map_of_positions [of xs bm ?W "d div ?W" d] by (simp add: x minus_mult_div_eq_mod)
  with m show ?thesis unfolding x prod.case by (rule trans)
qed

text \<open>A branch continues at the child of the digit.\<close>

lemma jbl_scan_map_of: "jbl_scan d exps = map_of exps d"
  by (induction exps) auto

lemma map_of_unat_keys: "map_of (map (\<lambda>(d, jp). (unat d, jp)) exps) (unat (d :: uint8)) = map_of exps d"
  by (induction exps) (auto simp: word_unat_eq_iff [symmetric])

definition child_step :: "'v jp option \<Rightarrow> 'v step" where
  "child_step r = (case r of Some c \<Rightarrow> Continue c | None \<Rightarrow> Return NotFound)"

lemma get_step_branch:
  assumes "jp_branch jp = Some (s, dcd)" "2 \<le> s" "s \<le> 8" "jp_shape jp"
  shows "get_step index jp = (if s \<le> 6 \<and> JU_DCDNOTMATCHINDEX index dcd s then Return NotFound
    else child_step (map_of (jp_children jp) (unat (JU_DIGITATSTATE index s))))"
proof (cases jp)
  case (JPBRANCH_L s' dcd' exps)
  then show ?thesis
    using assms by (simp add: get_jpbranch_l_def child_step_def jbl_scan_map_of map_of_unat_keys)
next
  case (JPBRANCH_U s' dcd' jps)
  have "unat (JU_DIGITATSTATE index s) < 256" by (rule unat_byte_less)
  then show ?thesis
    using assms JPBRANCH_U by (simp add: get_jpbranch_u_def child_step_def map_of_enumerate)
next
  case (JPBRANCH_B s' dcd' subs)
  define d where "d = unat (JU_DIGITATSTATE index s)"
  have d: "d < 256" unfolding d_def by (rule unat_byte_less)
  have sub: "length subs = 8" "\<And>bm xs. (bm, xs) \<in> set subs \<Longrightarrow> length xs = length (set_positions bm)"
    using assms(4) JPBRANCH_B by (auto simp: cJU_NUMSUBEXPB_def)
  obtain bm xs where x: "subs ! (d div 32) = (bm, xs)" by (cases "subs ! (d div 32)")
  have k: "d div 32 < length subs" using d sub(1) by simp
  have len: "length xs = length (set_positions bm)" using sub(2) x k by (metis nth_mem)
  have m: "map_of (jp_children jp) d = (if bit bm (d mod 32) then Some (xs ! bits_below bm (d mod 32)) else None)"
    using map_of_position_blocks [where d = d and subs = subs, OF sub(2)] d sub(1) x by (simp add: JPBRANCH_B)
  have "bits_below bm (d mod 32) < length xs" if "bit bm (d mod 32)" using nth_bits_below(1) [OF that] len by simp
  then show ?thesis
    using assms(1-3) m k x unfolding d_def [symmetric]
    by (simp add: JPBRANCH_B get_jpbranch_b_def child_step_def cJU_BITSPERSUBEXPB_def test_bit_B count_below_B
        flip: d_def)
qed (use assms in auto)

lemma map_of_shift:
  fixes B i :: nat
  shows "map_of (map (\<lambda>(d, v). (B + d, v)) es) i = (if B \<le> i then map_of es (i - B) else None)"
  by (induction es) auto

lemma get_jpleaf_b1_correct:
  assumes "jp_wf l P (JPLEAF_B1 dcd subs)" "256 ^ l dvd P" "P \<le> unat index" "unat index < P + 256 ^ l"
  shows "get_jpleaf_b1 index dcd subs = get_result (map_of (jp_entries P (JPLEAF_B1 dcd subs)) (unat index))"
proof -
  have w: "1 \<le> l" "l \<le> 7" "dcd_ok l P dcd" "length subs = 4"
    "\<And>bm xs. (bm, xs) \<in> set subs \<Longrightarrow> length xs = length (set_positions bm)"
    using assms(1) by (auto simp: cJU_NUMSUBEXPL_def)
  let ?B = "jp_base P 1 dcd"
  have B: "256 ^ 1 dvd ?B" using base_in_expanse [OF assms(2) w(3,1)] w(2) by blast
  have t: "JU_DCDNOTMATCHINDEX index dcd 1 \<longleftrightarrow> \<not> (?B \<le> unat index \<and> unat index < ?B + 256 ^ 1)"
    using dcd_test [OF assms(2) w(2) assms(3,4) _ w(1), of dcd] by simp
  show ?thesis
  proof (cases "?B \<le> unat index \<and> unat index < ?B + 256 ^ 1")
    case True
    define d where "d = unat (JU_DIGITATSTATE index 1)"
    have dd: "unat (JU_DIGITATSTATE index (Suc 0)) = d" by (simp add: d_def)
    have "unat index - ?B = unat (JU_LEASTBYTES index 1)" using True B by (intro offset_is_leastbytes) simp_all
    also have "\<dots> = d" using unat_leastbytes [of 1 index] unat_digitatstate [of index 1] by (simp add: d_def)
    finally have i: "unat index - ?B = d" .
    have d: "d < 256" unfolding d_def by (rule unat_byte_less)
    obtain bm vs where x: "subs ! (d div 64) = (bm, vs)" by (cases "subs ! (d div 64)")
    have k: "d div 64 < length subs" using d w(4) by simp
    have len: "length vs = length (set_positions bm)" using w(5) x k by (metis nth_mem)
    have m: "map_of (leafb1_values subs) d = (if bit bm (d mod 64) then Some (vs ! bits_below bm (d mod 64)) else None)"
      using map_of_position_blocks [where d = d and subs = subs, OF w(5)] d w(4) x by (simp add: leafb1_values_def)
    have "map_of (jp_entries P (JPLEAF_B1 dcd subs)) (unat index) = map_of (leafb1_values subs) d"
      unfolding jp_entries_leaf map_of_shift i using True by simp
    moreover have "bits_below bm (d mod 64) < length vs" if "bit bm (d mod 64)" using nth_bits_below(1) [OF that] len by simp
    ultimately show ?thesis
      using t True m k x
      by (simp add: get_jpleaf_b1_def get_result_def cJU_BITSPERSUBEXPL_def test_bit_L count_below_L dd Let_def)
  next
    case False
    have "in_expanse ?B 1 (jp_entries P (JPLEAF_B1 dcd subs))"
      using leafb1_sorted [of subs] assms(1)
      by (auto simp: in_expanse_def sorted_wrt_map case_prod_beta)
    from map_of_outside [OF this False] t False show ?thesis
      by (simp only: get_jpleaf_b1_def get_result_def option.case if_True simp_thms)
  qed
qed

lemma get_jpimmed_01_correct:
  assumes "jp_wf l P (JPIMMED_01 s dcd v)" "256 ^ l dvd P" "P \<le> unat index" "unat index < P + 256 ^ l"
  shows "get_jpimmed_01 index s dcd v = get_result (map_of (jp_entries P (JPIMMED_01 s dcd v)) (unat index))"
proof -
  have w: "1 \<le> l" "l \<le> 7" "s = l" using assms(1) by auto
  have "JU_JPDCDPOP0 dcd = JU_TRIMTODCDSIZE index \<longleftrightarrow> unat dcd = unat index mod 256 ^ 7"
    unfolding word_unat_eq_iff unat_dcdpop0 unat_trim ..
  also have "\<dots> \<longleftrightarrow> jp_base P 0 dcd = unat index"
    using in_base_iff [OF assms(2) w(2) assms(3,4), of 0 dcd] by auto
  finally show ?thesis using w by (auto simp: get_jpimmed_01_def get_result_def)
qed

lemma get_jpimmed_correct:
  assumes "jp_wf l P (JPIMMED s keys vals)" "256 ^ l dvd P" "P \<le> unat index" "unat index < P + 256 ^ l"
  shows "get_jpimmed index s keys vals = get_result (map_of (jp_entries P (JPIMMED s keys vals)) (unat index))"
proof -
  have w: "1 \<le> s" "s \<le> 3" "s = l" "leaf_keys_ok s keys" "length vals = length keys"
    "2 \<le> length keys" "length keys \<le> cJL_IMMED_MAXPOP1 s" using assms(1) by auto
  have "get_jpimmed index s keys vals = check_index s keys vals index (length keys)"
    using w by (simp add: get_jpimmed_def)
  also have "\<dots> = get_result (if JU_LEASTBYTES index s \<in> set keys
      then Some (vals ! insertion_point keys (JU_LEASTBYTES index s)) else None)"
    using check_index_found [of keys vals "length keys" s index] w by (simp add: leaf_keys_ok_def)
  also have "\<dots> = get_result (map_of (jp_entries P (JPIMMED s keys vals)) (unat index))"
  proof -
    have "map_of (zip (map (\<lambda>k. P + unat k) keys) vals) (unat index)
      = (if JU_LEASTBYTES index s \<in> set keys then Some (vals ! insertion_point keys (JU_LEASTBYTES index s)) else None)"
      using w assms by (intro map_of_keys_inside) simp_all
    then show ?thesis by (simp only: jp_entries_leaf)
  qed
  finally show ?thesis .
qed

lemma get_walk_correct:
  "jp_wf l P jp \<Longrightarrow> 256 ^ l dvd P \<Longrightarrow> P \<le> unat index \<Longrightarrow> unat index < P + 256 ^ l \<Longrightarrow>
   get_walk index jp = get_result (map_of (jp_entries P jp) (unat index))"
proof (induction "size jp" arbitrary: l P jp rule: less_induct)
  case less
  note prems = less.prems
  show ?case
  proof (cases jp rule: jp_cases_branch)
    case (branch s dcd)
    note b = branch_bounds [OF branch prems(1,2)]
    let ?B = "jp_base P s dcd"
    have s8: "s \<le> 8" using b(2,3) by auto
    have t: "(s \<le> 6 \<and> JU_DCDNOTMATCHINDEX index dcd s) \<longleftrightarrow> \<not> (?B \<le> unat index \<and> unat index < ?B + 256 ^ s)"
    proof (cases "l \<le> 7")
      case True
      then show ?thesis using dcd_test [OF prems(2) True prems(3,4) _ b(2)] b(1) by simp
    next
      case False
      then have "s = 8" "l = 8" using b(3) by auto
      then have "?B = P" using b(5,6) by simp
      then show ?thesis using \<open>s = 8\<close> \<open>l = 8\<close> prems(3,4) by simp
    qed
    show ?thesis
    proof (cases "?B \<le> unat index \<and> unat index < ?B + 256 ^ s")
      case False
      have "get_step index jp = Return NotFound"
        using get_step_branch [OF branch b(1) s8 b(4), of index] t False by (simp only: if_True simp_thms)
      then show ?thesis
        using branch_lookup_outside [OF branch prems(1,2) False]
        by (subst get_walk.simps) (simp add: get_result_def)
    next
      case True
      define d where "d = unat (JU_DIGITATSTATE index s)"
      have d: "d = unat index div 256 ^ (s - 1) mod 256" by (simp add: d_def unat_digitatstate)
      have step: "get_step index jp = child_step (map_of (jp_children jp) d)"
        using get_step_branch [OF branch b(1) s8 b(4), of index] t True by (simp only: d_def if_False simp_thms)
      have look: "map_of (jp_entries P jp) (unat index)
        = (case map_of (jp_children jp) d of None \<Rightarrow> None
           | Some c \<Rightarrow> map_of (jp_entries (?B + d * 256 ^ (s - 1)) c) (unat index))"
        unfolding d using True by (intro branch_lookup_inside [OF branch prems(1,2)]) auto
      show ?thesis
      proof (cases "map_of (jp_children jp) d")
        case None
        then show ?thesis using step look by (subst get_walk.simps) (simp add: child_step_def get_result_def)
      next
        case (Some c)
        then have mem: "(d, c) \<in> set (jp_children jp)" by (rule map_of_SomeD)
        have s1: "1 \<le> s" using b(1) by simp
        have "get_walk index c = get_result (map_of (jp_entries (?B + d * 256 ^ (s - 1)) c) (unat index))"
        proof (rule less.hyps)
          show "size c < size jp" using mem by (rule size_jp_children)
          show "jp_wf (s - 1) (?B + d * 256 ^ (s - 1)) c" using mem by (rule b(8))
          show "256 ^ (s - 1) dvd ?B + d * 256 ^ (s - 1)" by (rule b(9))
          show "?B + d * 256 ^ (s - 1) \<le> unat index" "unat index < ?B + d * 256 ^ (s - 1) + 256 ^ (s - 1)"
            unfolding d using True s1 by (intro digit_of_base(2,3) [OF b(7)]; simp)+
        qed
        then show ?thesis using step look Some by (subst get_walk.simps) (simp add: child_step_def)
      qed
    qed
  next
    case (leaf s dcd keys vals)
    then show ?thesis
      using get_jpleaf_correct [OF prems [unfolded leaf]] by (subst get_walk.simps) simp
  next
    case (leafb1 dcd subs)
    then show ?thesis
      using get_jpleaf_b1_correct [OF prems [unfolded leafb1]] by (subst get_walk.simps) simp
  next
    case (immed01 s dcd v)
    then show ?thesis
      using get_jpimmed_01_correct [OF prems [unfolded immed01]] by (subst get_walk.simps) simp
  next
    case (immed s keys vals)
    then show ?thesis
      using get_jpimmed_correct [OF prems [unfolded immed]] by (subst get_walk.simps) simp
  next
    case (null n)
    then show ?thesis using prems(1) by (subst get_walk.simps) (simp add: get_result_def)
  next
    case (invalid t)
    then show ?thesis using prems(1) by simp
  qed
qed

lemma JudyLGet_lookup:
  assumes "judyL_wf array"
  shows "JudyLGet array index = get_result (map_of (judyL_entries array) (unat index))"
proof (cases array)
  case JL_NULL
  then show ?thesis by (simp add: JudyLGet_def get_result_def)
next
  case (JL_LEAFW pop0 keys vals)
  then have w: "pop0 < cJU_LEAFW_MAXPOP1" "sorted_wrt (<) keys" "length keys = unat pop0 + 1" "length vals = length keys"
    using assms by auto
  have "unat pop0 < 31" using w(1) by (simp add: cJU_LEAFW_MAXPOP1_def word_less_nat_alt)
  then have pop: "unat (pop0 + 1) = length keys" "length keys < 2 ^ 31"
    using w(3) by (simp_all add: unat_word_ariths(1))
  have "unat index \<in> unat ` set keys \<longleftrightarrow> index \<in> set keys" by (auto simp: word_unat_eq_iff [symmetric])
  then have m: "map_of (zip (map unat keys) vals) (unat index)
      = (if index \<in> set keys then Some (vals ! insertion_point keys index) else None)"
    using map_of_keys [OF w(2,4), of 0 "unat index"] by simp
  have "JudyLGet array index = (if search_result keys index < 0 then NotFound
      else found_opt (nth_opt vals (nat (search_result keys index))))"
    using w(1) search_leafW_sorted [OF w(2) pop(2,1), of index]
    by (simp add: JL_LEAFW JudyLGet_def leafw_get_def)
  then show ?thesis unfolding search_found [OF w(2,4)] by (simp only: JL_LEAFW judyL_entries.simps m)
next
  case (JL_JPM pop0 jp)
  then have w: "\<not> pop0 < cJU_LEAFW_MAXPOP1" "jp_wf 8 0 jp" using assms by auto
  have "unat index < 0 + 256 ^ 8" using unsigned_less [of index, where 'a = nat] by simp
  then show ?thesis
    using w get_walk_correct [OF w(2), of index] by (simp add: JL_JPM JudyLGet_def)
qed

section \<open>A sample array\<close>

text \<open>An array of 34 indexes below a JPM, with a bitmap leaf, a narrow bitmap branch and immediates.\<close>

definition sample_jp0 :: "nat jp" where
  "sample_jp0 = JPLEAF_B1 29 [(0x3FFFFFFF, [100..<130]), (0, []), (0, []), (0, [])]"

definition sample_jp1 :: "nat jp" where
  "sample_jp1 = JPIMMED_01 7 0x2030405060708 7"

definition sample_jp2 :: "nat jp" where
  "sample_jp2 = JPBRANCH_B 2 0x0A0B0C0D0E0002
     [(0x8, [JPIMMED 1 [5, 9] [50, 90]]), (0, []), (0, []), (0x80000000, [JPIMMED_01 1 0x0A0B0C0D0E7F42 4]),
      (0, []), (0, []), (0, []), (0, [])]"

definition sample_jp :: "nat jp" where
  "sample_jp = JPBRANCH_L 8 0 [(0, sample_jp0), (1, sample_jp1), (2, sample_jp2)]"

definition judyL_sample :: "nat judyL" where
  "judyL_sample = JL_JPM 33 sample_jp"

lemma sample_positions: "set_positions (0x3FFFFFFF :: word_t) = [0..<30]"
  using set_positions_mask [of 30, where 'a = 64] by (simp add: mask_eq_exp_minus_1)

lemma sample_jp0_values: "length (leafb1_values [(0x3FFFFFFF, [100..<130]), (0, []), (0, []), (0 :: word_t, [])]) = 30"
  by (simp add: leafb1_values_def sample_positions)

lemma sample_children_wf:
  "jp_wf 7 0 sample_jp0" "jp_wf 7 0x100000000000000 sample_jp1" "jp_wf 7 0x200000000000000 sample_jp2"
  subgoal unfolding sample_jp0_def jp_wf_leaf sample_jp0_values
    by (simp add: dcd_ok_def cJU_NUMSUBEXPL_def sample_positions JU_JPLEAF_POP0_def)
  subgoal by code_simp
  subgoal by code_simp
  done

lemma sample_children_entries:
  "length (jp_entries 0 sample_jp0) = 30" "length (jp_entries 0x100000000000000 sample_jp1) = Suc 0"
  "length (jp_entries 0x200000000000000 sample_jp2) = 3"
  subgoal unfolding sample_jp0_def jp_entries_leaf length_map by (rule sample_jp0_values)
  subgoal by (simp add: sample_jp1_def)
  subgoal by code_simp
  done

lemma sample_branch: "jp_branch sample_jp = Some (8, 0)"
  by (simp add: sample_jp_def)

lemma sample_entries: "length (jp_entries 0 sample_jp) = 34"
  unfolding jp_entries_branch [OF sample_branch]
  by (simp add: sample_jp_def jp_base_def sample_children_entries)

lemma sample_wf: "jp_wf 8 0 sample_jp"
proof -
  have "jp_entries 0 sample_jp \<noteq> []" using sample_entries by auto
  then show ?thesis
    unfolding jp_wf_branch [OF sample_branch]
    by (simp add: sample_jp_def jp_base_def dcd_ok_def sample_children_wf)
      (simp add: sample_jp0_def sample_jp1_def sample_jp2_def)
qed

lemma judyL_sample_wf: "judyL_wf judyL_sample"
  using sample_wf sample_entries by (simp add: judyL_sample_def cJU_LEAFW_MAXPOP1_def)

section \<open>Properties\<close>

text \<open>C7: On every well-formed JudyL array (null, root leaf, or JPM over any mix of linear, bitmap and
  uncompressed branches, linear and bitmap leaves and immediates) \<open>JudyLGet\<close> returns the value of the
  pair with the index, if the array holds one, and null otherwise, for every index: it never runs
  outside an array, never fails to end and never reports corruption.\<close>

theorem JudyLGet_correct:
  assumes "judyL_wf array"
  shows "JudyLGet array index
    = (case map_of (judyL_entries array) (unat index) of Some v \<Rightarrow> Found v | None \<Rightarrow> NotFound)"
  using JudyLGet_lookup [OF assms, of index] by (simp only: get_result_def)

theorem JudyLGet_correct_witness:
  "JudyLGet judyL_sample 0x020A0B0C0D0E0309
     = (case map_of (judyL_entries judyL_sample) (unat (0x020A0B0C0D0E0309 :: word_t)) of Some v \<Rightarrow> Found v | None \<Rightarrow> NotFound)
   \<and> JudyLGet judyL_sample 0x020A0B0C0D0E0309 = Found 90"
proof
  show "JudyLGet judyL_sample 0x020A0B0C0D0E0309
     = (case map_of (judyL_entries judyL_sample) (unat (0x020A0B0C0D0E0309 :: word_t)) of Some v \<Rightarrow> Found v | None \<Rightarrow> NotFound)"
    by (rule JudyLGet_correct [OF judyL_sample_wf])
  show "JudyLGet judyL_sample 0x020A0B0C0D0E0309 = Found 90" by code_simp
qed

text \<open>The pairs of a well-formed array are strictly ascending in the index, so the array is a map
  from indexes to values, and every index fits a word.\<close>

theorem judyL_entries_ascending:
  assumes "judyL_wf array"
  shows "sorted_wrt (<) (map fst (judyL_entries array)) \<and> (\<forall>k\<in>fst ` set (judyL_entries array). k < 2 ^ 64)"
  using assms by (rule judyL_entries_sorted)

theorem judyL_entries_ascending_witness:
  "sorted_wrt (<) (map fst (judyL_entries judyL_sample)) \<and>
   list_all (\<lambda>k. k < 2 ^ 64) (map fst (judyL_entries judyL_sample))"
  unfolding list_all_iff set_map by (rule judyL_entries_ascending [OF judyL_sample_wf])

end
