(* ===== verification/JudyPrevNext.thy ===== *)
theory JudyPrevNext
  imports JudyGet
begin

text \<open>
  \<open>JudyLPrev\<close> and \<open>JudyLNext\<close> (\<open>src/Judy/src/JudyCommon/JudyPrevNext.c\<close>, one source compiled with
  \<open>JUDYPREV\<close> or \<open>JUDYNEXT\<close>: here a direction) and \<open>JudyLFirst\<close>, \<open>JudyLLast\<close>
  (\<open>JudyFirst.c\<close>).  The three state machines SM1Get, SM2Backtrack and SM3Findlimit of the source are
  the constructors of a machine state, the \<open>goto\<close>s between them its steps; the history arrays
  \<open>APjphist\<close> and \<open>Aoffhist\<close> are a list, newest first.
\<close>

section \<open>Machine states\<close>

datatype dir = PREV | NEXT

datatype 'v nav = NavFound word_t 'v | NavNone | NavCorrupt | NavNullPIndex | NavUndefined

type_synonym 'v hist = "('v jp \<times> nat) list"

datatype 'v sm =
    SM1Get "'v jp" word_t "'v hist"
  | SM2Backtrack word_t "'v hist"
  | SM3Findlimit "'v jp" word_t
  | SMRet "'v nav"

definition HISTNUMMAX :: nat where "HISTNUMMAX = cJU_ROOTSTATE"

text \<open>\<open>HISTPUSH\<close> stores the pointer and the offset, then reports corruption if the arrays are full.\<close>

definition HISTPUSH :: "'v jp \<Rightarrow> nat \<Rightarrow> 'v hist \<Rightarrow> ('v hist \<Rightarrow> 'v sm) \<Rightarrow> 'v sm" where
  "HISTPUSH pjp offset hist k =
     (if length hist + 1 \<ge> HISTNUMMAX then SMRet NavCorrupt else k ((pjp, offset) # hist))"

fun HISTPUSHBOFF :: "dir \<Rightarrow> nat \<Rightarrow> nat \<Rightarrow> nat \<Rightarrow> nat" where
  "HISTPUSHBOFF PREV subexp offset digit = (subexp * cJU_BITSPERSUBEXPB) OR offset"
| "HISTPUSHBOFF NEXT subexp offset digit = push_bit 8 digit OR (subexp * cJU_BITSPERSUBEXPB) OR offset"

text \<open>The unpacked subexpanse, offset and, for \<open>JUDYNEXT\<close>, digit.\<close>

fun HISTPOPBOFF :: "dir \<Rightarrow> nat \<Rightarrow> nat \<times> nat \<times> nat" where
  "HISTPOPBOFF PREV offset = (offset div cJU_BITSPERSUBEXPB, offset mod cJU_BITSPERSUBEXPB, 0)"
| "HISTPOPBOFF NEXT offset =
     ((offset AND 0xff) div cJU_BITSPERSUBEXPB, offset mod cJU_BITSPERSUBEXPB, drop_bit 8 offset)"

definition SEARCHBITMAPB :: "uint32 \<Rightarrow> nat \<Rightarrow> uint32 \<Rightarrow> int" where
  "SEARCHBITMAPB bitmap digit bitposmask =
     (if bitmap = - 1 then int (digit mod cJU_BITSPERSUBEXPB)
      else int (unat (j__udyCountBitsB (bitmap AND JU_MASKLOWERINC bitposmask))) - 1)"

definition SEARCHBITMAPL :: "word_t \<Rightarrow> nat \<Rightarrow> word_t \<Rightarrow> int" where
  "SEARCHBITMAPL bitmap digit bitposmask =
     (if bitmap = - 1 then int (digit mod cJU_BITSPERSUBEXPL)
      else int (unat (j__udyCountBitsL (bitmap AND JU_MASKLOWERINC bitposmask))) - 1)"

definition SEARCHBITMAPMAXB :: "uint32 \<Rightarrow> nat" where
  "SEARCHBITMAPMAXB bitmap =
     (if bitmap = - 1 then cJU_BITSPERSUBEXPB - 1 else unat (j__udyCountBitsB bitmap) - 1)"

definition SEARCHBITMAPMAXL :: "word_t \<Rightarrow> nat" where
  "SEARCHBITMAPMAXL bitmap =
     (if bitmap = - 1 then cJU_BITSPERSUBEXPL - 1 else unat (j__udyCountBitsL bitmap) - 1)"

fun CDcmp :: "dir \<Rightarrow> word_t \<Rightarrow> word_t \<Rightarrow> bool" where
  "CDcmp PREV a b = (a < b)"
| "CDcmp NEXT a b = (a > b)"

definition CHECKDCD :: "dir \<Rightarrow> word_t \<Rightarrow> 'v jp \<Rightarrow> dcdpop0 \<Rightarrow> nat \<Rightarrow> 'v hist \<Rightarrow> 'v sm \<Rightarrow> 'v sm" where
  "CHECKDCD dir pindex pjp dcd s hist next =
     (if JU_DCDNOTMATCHINDEX pindex dcd s
      then if CDcmp dir (pindex AND cJU_DCDMASK s) (JU_JPDCDPOP0 dcd AND cJU_DCDMASK s)
           then SM2Backtrack pindex hist else SM3Findlimit pjp pindex
      else next)"

text \<open>
  The sideways loops: \<open>while (--k >= 0)\<close> from \<open>k\<close>, and \<open>while (++k < n)\<close>, here from the first value on
  with the number of values left.
\<close>

fun scan_down :: "(nat \<Rightarrow> bool) \<Rightarrow> nat \<Rightarrow> nat option" where
  "scan_down P 0 = None"
| "scan_down P (Suc k) = (if P k then Some k else scan_down P k)"

fun scan_up :: "(nat \<Rightarrow> bool) \<Rightarrow> nat \<Rightarrow> nat \<Rightarrow> nat option" where
  "scan_up P k 0 = None"
| "scan_up P k (Suc n) = (if P k then Some k else scan_up P (k + 1) n)"

text \<open>The values after \<open>k\<close> in a direction, in a branch of \<open>n\<close>; and all values.\<close>

fun scan_from :: "dir \<Rightarrow> (nat \<Rightarrow> bool) \<Rightarrow> nat \<Rightarrow> nat \<Rightarrow> nat option" where
  "scan_from PREV P k n = scan_down P k"
| "scan_from NEXT P k n = scan_up P (k + 1) (n - (k + 1))"

fun scan_all :: "dir \<Rightarrow> (nat \<Rightarrow> bool) \<Rightarrow> nat \<Rightarrow> nat option" where
  "scan_all PREV P n = scan_down P n"
| "scan_all NEXT P n = scan_up P 0 n"

section \<open>Going on at a child\<close>

definition goto_jbl :: "word_t \<Rightarrow> nat \<Rightarrow> (uint8 \<times> 'v jp) list \<Rightarrow> nat \<Rightarrow> 'v sm" where
  "goto_jbl pindex state jbl offset =
     (case nth_opt jbl offset of
        Some (expanse, pjp) \<Rightarrow> SM3Findlimit pjp (JU_SETDIGIT pindex expanse state)
      | None \<Rightarrow> SMRet NavUndefined)"

definition goto_jbb :: "word_t \<Rightarrow> nat \<Rightarrow> (uint32 \<times> 'v jp list) list \<Rightarrow> nat \<Rightarrow> nat \<Rightarrow> 'v sm" where
  "goto_jbb pindex state jbb subexp offset =
     (case nth_opt jbb subexp of
        None \<Rightarrow> SMRet NavUndefined
      | Some (bitmap, jps) \<Rightarrow>
          (case JU_BITMAPDIGITB subexp bitmap offset of
             None \<Rightarrow> SMRet NavUndefined
           | Some digit \<Rightarrow>
               if jps = [] then SMRet NavCorrupt
               else case nth_opt jps offset of
                      Some pjp \<Rightarrow> SM3Findlimit pjp (JU_SETDIGIT pindex (word_of_nat digit) state)
                    | None \<Rightarrow> SMRet NavUndefined))"

definition goto_jbu :: "word_t \<Rightarrow> nat \<Rightarrow> 'v jp list \<Rightarrow> nat \<Rightarrow> 'v sm" where
  "goto_jbu pindex state jbu digit =
     (case nth_opt jbu digit of
        Some pjp \<Rightarrow> SM3Findlimit pjp (JU_SETDIGIT pindex (word_of_nat digit) state)
      | None \<Rightarrow> SMRet NavUndefined)"

fun jbb_bitmap :: "(uint32 \<times> 'v jp list) list \<Rightarrow> nat \<Rightarrow> uint32" where
  "jbb_bitmap jbb k = (case nth_opt jbb k of Some (bitmap, jps) \<Rightarrow> bitmap | None \<Rightarrow> 0)"

fun jbb_has_jps :: "(uint32 \<times> 'v jp list) list \<Rightarrow> nat \<Rightarrow> bool" where
  "jbb_has_jps jbb k = (case nth_opt jbb k of Some (bitmap, jps) \<Rightarrow> jps \<noteq> [] | None \<Rightarrow> False)"

fun jbu_has_jp :: "'v jp list \<Rightarrow> nat \<Rightarrow> bool" where
  "jbu_has_jp jbu k = (case nth_opt jbu k of Some jp \<Rightarrow> \<not> jp_is_null jp | None \<Rightarrow> False)"

text \<open>The highest offset of a subexpanse for \<open>JUDYPREV\<close>, the lowest for \<open>JUDYNEXT\<close>.\<close>

fun jbb_limit :: "dir \<Rightarrow> uint32 \<Rightarrow> nat" where
  "jbb_limit PREV bitmap = SEARCHBITMAPMAXB bitmap"
| "jbb_limit NEXT bitmap = 0"

fun jlb_limit :: "dir \<Rightarrow> word_t \<Rightarrow> nat" where
  "jlb_limit PREV bitmap = SEARCHBITMAPMAXL bitmap"
| "jlb_limit NEXT bitmap = 0"

text \<open>The search of the subexpanses on the side, when the current one has no more pointers.\<close>

definition jbb_sideways ::
  "dir \<Rightarrow> word_t \<Rightarrow> nat \<Rightarrow> (uint32 \<times> 'v jp list) list \<Rightarrow> nat \<Rightarrow> 'v hist \<Rightarrow> 'v sm" where
  "jbb_sideways dir pindex state jbb subexp hist =
     (case scan_from dir (jbb_has_jps jbb) subexp cJU_NUMSUBEXPB of
        Some k \<Rightarrow> goto_jbb pindex state jbb k (jbb_limit dir (jbb_bitmap jbb k))
      | None \<Rightarrow> SM2Backtrack pindex hist)"

definition jbu_sideways :: "dir \<Rightarrow> word_t \<Rightarrow> nat \<Rightarrow> 'v jp list \<Rightarrow> nat \<Rightarrow> 'v hist \<Rightarrow> 'v sm" where
  "jbu_sideways dir pindex state jbu digit hist =
     (case scan_from dir (jbu_has_jp jbu) digit 256 of
        Some k \<Rightarrow> goto_jbu pindex state jbu k
      | None \<Rightarrow> SM2Backtrack pindex hist)"

section \<open>SM3: the limit below a pointer\<close>

text \<open>The Dcd bytes are copied into the index except where there are none to copy.\<close>

definition sm3_setdcd :: "word_t \<Rightarrow> dcdpop0 \<Rightarrow> nat \<Rightarrow> word_t" where
  "sm3_setdcd pindex dcd s = (if s \<le> 6 then JU_SETDCD pindex dcd s else pindex)"

definition sm3_branch_l :: "dir \<Rightarrow> word_t \<Rightarrow> nat \<Rightarrow> dcdpop0 \<Rightarrow> (uint8 \<times> 'v jp) list \<Rightarrow> 'v sm" where
  "sm3_branch_l dir pindex s dcd jbl =
     (if s < 2 \<or> 8 < s then SMRet NavCorrupt
      else let pindex = sm3_setdcd pindex dcd s
           in if length jbl = 0 then SMRet NavCorrupt
              else goto_jbl pindex s jbl (case dir of PREV \<Rightarrow> length jbl - 1 | NEXT \<Rightarrow> 0))"

definition sm3_branch_b :: "dir \<Rightarrow> word_t \<Rightarrow> nat \<Rightarrow> dcdpop0 \<Rightarrow> (uint32 \<times> 'v jp list) list \<Rightarrow> 'v sm" where
  "sm3_branch_b dir pindex s dcd jbb =
     (if s < 2 \<or> 8 < s then SMRet NavCorrupt
      else let pindex = sm3_setdcd pindex dcd s
           in case scan_all dir (\<lambda>k. jbb_bitmap jbb k \<noteq> 0) cJU_NUMSUBEXPB of
                None \<Rightarrow> SMRet NavCorrupt
              | Some subexp \<Rightarrow> goto_jbb pindex s jbb subexp (jbb_limit dir (jbb_bitmap jbb subexp)))"

definition sm3_branch_u :: "dir \<Rightarrow> word_t \<Rightarrow> nat \<Rightarrow> dcdpop0 \<Rightarrow> 'v jp list \<Rightarrow> 'v sm" where
  "sm3_branch_u dir pindex s dcd jbu =
     (if s < 2 \<or> 8 < s then SMRet NavCorrupt
      else let pindex = sm3_setdcd pindex dcd s
           in case scan_all dir (jbu_has_jp jbu) 256 of
                None \<Rightarrow> SMRet NavCorrupt
              | Some digit \<Rightarrow> goto_jbu pindex s jbu digit)"

text \<open>The least bytes of the index replaced by those of a leaf's or immediate's index.\<close>

definition set_leaf_bytes :: "word_t \<Rightarrow> nat \<Rightarrow> word_t \<Rightarrow> word_t" where
  "set_leaf_bytes pindex s key =
     (if s = 1 then JU_SETDIGIT1 pindex (ucast key) else (pindex AND NOT (JU_LEASTBYTESMASK s)) OR key)"

definition ret_leaf :: "word_t \<Rightarrow> nat \<Rightarrow> word_t list \<Rightarrow> 'v list \<Rightarrow> nat \<Rightarrow> 'v nav" where
  "ret_leaf pindex s keys vals offset =
     (case (nth_opt keys offset, nth_opt vals offset) of
        (Some key, Some v) \<Rightarrow> NavFound (set_leaf_bytes pindex s key) v
      | _ \<Rightarrow> NavUndefined)"

definition sm3_leaf :: "dir \<Rightarrow> word_t \<Rightarrow> nat \<Rightarrow> dcdpop0 \<Rightarrow> word_t list \<Rightarrow> 'v list \<Rightarrow> 'v nav" where
  "sm3_leaf dir pindex s dcd pjll pjv =
     (if s < 1 \<or> 7 < s then NavCorrupt
      else let pindex = sm3_setdcd pindex dcd s;
               offset = (case dir of PREV \<Rightarrow> unat (JU_JPLEAF_POP0 dcd) | NEXT \<Rightarrow> 0)
           in ret_leaf pindex s pjll pjv offset)"

fun jlb_bitmap :: "(word_t \<times> 'v list) list \<Rightarrow> nat \<Rightarrow> word_t" where
  "jlb_bitmap jlb k = (case nth_opt jlb k of Some (bitmap, pjv) \<Rightarrow> bitmap | None \<Rightarrow> 0)"

definition ret_leaf_b1 :: "word_t \<Rightarrow> (word_t \<times> 'v list) list \<Rightarrow> nat \<Rightarrow> nat \<Rightarrow> 'v nav" where
  "ret_leaf_b1 pindex jlb subexp offset =
     (case nth_opt jlb subexp of
        None \<Rightarrow> NavUndefined
      | Some (bitmap, pjv) \<Rightarrow>
          (case (JU_BITMAPDIGITL subexp bitmap offset, nth_opt pjv offset) of
             (Some digit, Some v) \<Rightarrow> NavFound (JU_SETDIGIT1 pindex (word_of_nat digit)) v
           | _ \<Rightarrow> NavUndefined))"

definition sm3_leaf_b1 :: "dir \<Rightarrow> word_t \<Rightarrow> dcdpop0 \<Rightarrow> (word_t \<times> 'v list) list \<Rightarrow> 'v nav" where
  "sm3_leaf_b1 dir pindex dcd jlb =
     (let pindex = JU_SETDCD pindex dcd 1
      in case scan_all dir (\<lambda>k. jlb_bitmap jlb k \<noteq> 0) cJU_NUMSUBEXPL of
           None \<Rightarrow> NavCorrupt
         | Some subexp \<Rightarrow> ret_leaf_b1 pindex jlb subexp (jlb_limit dir (jlb_bitmap jlb subexp)))"

definition sm3_immed_01 :: "word_t \<Rightarrow> nat \<Rightarrow> dcdpop0 \<Rightarrow> 'v \<Rightarrow> 'v nav" where
  "sm3_immed_01 pindex s dcd v =
     (if s < 1 \<or> 7 < s then NavCorrupt else NavFound (JU_SETDIGITS pindex (JU_JPDCDPOP0 dcd) s) v)"

definition immed_type_ok :: "nat \<Rightarrow> word_t list \<Rightarrow> bool" where
  "immed_type_ok s keys \<longleftrightarrow> 1 \<le> s \<and> s \<le> 3 \<and> 2 \<le> length keys \<and> length keys \<le> cJL_IMMED_MAXPOP1 s"

definition sm3_immed :: "dir \<Rightarrow> word_t \<Rightarrow> nat \<Rightarrow> word_t list \<Rightarrow> 'v list \<Rightarrow> 'v nav" where
  "sm3_immed dir pindex s keys vals =
     (if \<not> immed_type_ok s keys then NavCorrupt
      else ret_leaf pindex s keys vals (case dir of PREV \<Rightarrow> length keys - 1 | NEXT \<Rightarrow> 0))"

fun sm3_step :: "dir \<Rightarrow> 'v jp \<Rightarrow> word_t \<Rightarrow> 'v sm" where
  "sm3_step dir (JPBRANCH_L s dcd jbl) pindex = sm3_branch_l dir pindex s dcd jbl"
| "sm3_step dir (JPBRANCH_B s dcd jbb) pindex = sm3_branch_b dir pindex s dcd jbb"
| "sm3_step dir (JPBRANCH_U s dcd jbu) pindex = sm3_branch_u dir pindex s dcd jbu"
| "sm3_step dir (JPLEAF s dcd keys vals) pindex = SMRet (sm3_leaf dir pindex s dcd keys vals)"
| "sm3_step dir (JPLEAF_B1 dcd jlb) pindex = SMRet (sm3_leaf_b1 dir pindex dcd jlb)"
| "sm3_step dir (JPIMMED_01 s dcd v) pindex = SMRet (sm3_immed_01 pindex s dcd v)"
| "sm3_step dir (JPIMMED s keys vals) pindex = SMRet (sm3_immed dir pindex s keys vals)"
| "sm3_step dir (JPNULL n) pindex = SMRet NavCorrupt"
| "sm3_step dir (JPINVALID t) pindex = SMRet NavCorrupt"

section \<open>SM2: back to a branch with more on the side\<close>

definition sm2_branch_l ::
  "dir \<Rightarrow> word_t \<Rightarrow> nat \<Rightarrow> (uint8 \<times> 'v jp) list \<Rightarrow> nat \<Rightarrow> 'v hist \<Rightarrow> 'v sm" where
  "sm2_branch_l dir pindex state jbl offset hist =
     (case dir of
        PREV \<Rightarrow> if offset = 0 then SM2Backtrack pindex hist else goto_jbl pindex state jbl (offset - 1)
      | NEXT \<Rightarrow> if offset + 1 \<ge> length jbl then SM2Backtrack pindex hist else goto_jbl pindex state jbl (offset + 1))"

definition sm2_branch_b ::
  "dir \<Rightarrow> word_t \<Rightarrow> nat \<Rightarrow> (uint32 \<times> 'v jp list) list \<Rightarrow> nat \<Rightarrow> 'v hist \<Rightarrow> 'v sm" where
  "sm2_branch_b dir pindex state jbb boff hist =
     (case HISTPOPBOFF dir boff of (subexp, offset, digit) \<Rightarrow>
        (case dir of
           PREV \<Rightarrow>
             if offset > 0 then goto_jbb pindex state jbb subexp (offset - 1)
             else jbb_sideways dir pindex state jbb subexp hist
         | NEXT \<Rightarrow>
             if jbb_bitmap jbb subexp AND JU_MASKHIGHEREXC (JU_BITPOSMASKB digit) \<noteq> 0
             then goto_jbb pindex state jbb subexp (offset + 1)
             else jbb_sideways dir pindex state jbb subexp hist))"

fun sm2_step :: "dir \<Rightarrow> word_t \<Rightarrow> 'v hist \<Rightarrow> 'v sm" where
  "sm2_step dir pindex [] = SMRet NavNone"
| "sm2_step dir pindex ((JPBRANCH_L s dcd jbl, offset) # hist) =
     (if s < 2 \<or> 8 < s then SMRet NavCorrupt else sm2_branch_l dir pindex s jbl offset hist)"
| "sm2_step dir pindex ((JPBRANCH_B s dcd jbb, offset) # hist) =
     (if s < 2 \<or> 8 < s then SMRet NavCorrupt else sm2_branch_b dir pindex s jbb offset hist)"
| "sm2_step dir pindex ((JPBRANCH_U s dcd jbu, offset) # hist) =
     (if s < 2 \<or> 8 < s then SMRet NavCorrupt else jbu_sideways dir pindex s jbu offset hist)"
| "sm2_step dir pindex ((_, offset) # hist) = SMRet NavCorrupt"

section \<open>SM1: the way down to the index\<close>

text \<open>The complement of a negative search result is the ideal place; \<open>JUDYPREV\<close> wants the one before.\<close>

fun ideal_offset :: "dir \<Rightarrow> int \<Rightarrow> int" where
  "ideal_offset PREV offset = NOT offset - 1"
| "ideal_offset NEXT offset = NOT offset"

fun off_end :: "dir \<Rightarrow> int \<Rightarrow> nat \<Rightarrow> bool" where
  "off_end PREV offset pop1 = (offset < 0)"
| "off_end NEXT offset pop1 = (offset \<ge> int pop1)"

definition sm1_branch_l ::
  "dir \<Rightarrow> word_t \<Rightarrow> 'v jp \<Rightarrow> nat \<Rightarrow> (uint8 \<times> 'v jp) list \<Rightarrow> 'v hist \<Rightarrow> 'v sm" where
  "sm1_branch_l dir pindex pjp state jbl hist =
     (let digit = JU_DIGITATSTATE pindex state
      in case j__udySearchLeaf1 (map (ucast \<circ> fst) jbl) (word_of_nat (length jbl)) (ucast digit) of
           None \<Rightarrow> SMRet NavUndefined
         | Some offset \<Rightarrow>
             if offset \<ge> 0
             then HISTPUSH pjp (nat offset) hist
                    (\<lambda>hist. case nth_opt jbl (nat offset) of
                       Some (expanse, pjp) \<Rightarrow> SM1Get pjp pindex hist
                     | None \<Rightarrow> SMRet NavUndefined)
             else let offset = ideal_offset dir offset
                  in if off_end dir offset (length jbl) then SM2Backtrack pindex hist
                     else goto_jbl pindex state jbl (nat offset))"

definition sm1_branch_b ::
  "dir \<Rightarrow> word_t \<Rightarrow> 'v jp \<Rightarrow> nat \<Rightarrow> (uint32 \<times> 'v jp list) list \<Rightarrow> 'v hist \<Rightarrow> 'v sm" where
  "sm1_branch_b dir pindex pjp state jbb hist =
     (let digit = unat (JU_DIGITATSTATE pindex state);
          subexp = digit div cJU_BITSPERSUBEXPB;
          bitposmask = JU_BITPOSMASKB digit;
          bitmap = jbb_bitmap jbb subexp;
          offset = SEARCHBITMAPB bitmap digit bitposmask
      in if bitmap AND bitposmask \<noteq> 0
         then HISTPUSH pjp (HISTPUSHBOFF dir subexp (nat offset) digit) hist
                (\<lambda>hist. if \<not> jbb_has_jps jbb subexp then SMRet NavCorrupt
                   else case Option.bind (nth_opt jbb subexp) (\<lambda>(bitmap, jps). nth_opt jps (nat offset)) of
                          Some pjp \<Rightarrow> SM1Get pjp pindex hist
                        | None \<Rightarrow> SMRet NavUndefined)
         else case dir of
                PREV \<Rightarrow>
                  if offset \<ge> 0 then goto_jbb pindex state jbb subexp (nat offset)
                  else jbb_sideways dir pindex state jbb subexp hist
              | NEXT \<Rightarrow>
                  if bitmap AND JU_MASKHIGHEREXC bitposmask \<noteq> 0
                  then goto_jbb pindex state jbb subexp (nat (offset + 1))
                  else jbb_sideways dir pindex state jbb subexp hist)"

definition sm1_branch_u :: "dir \<Rightarrow> word_t \<Rightarrow> 'v jp \<Rightarrow> nat \<Rightarrow> 'v jp list \<Rightarrow> 'v hist \<Rightarrow> 'v sm" where
  "sm1_branch_u dir pindex pjp state jbu hist =
     (let digit = unat (JU_DIGITATSTATE pindex state)
      in case nth_opt jbu digit of
           None \<Rightarrow> SMRet NavUndefined
         | Some pjp2 \<Rightarrow>
             if \<not> jp_is_null pjp2 then HISTPUSH pjp digit hist (\<lambda>hist. SM1Get pjp2 pindex hist)
             else jbu_sideways dir pindex state jbu digit hist)"

text \<open>\<open>SM1LeafLImm\<close>: the offset is a search result, the index goes back as it is or with new bytes.\<close>

definition sm1_leaf_imm ::
  "dir \<Rightarrow> word_t \<Rightarrow> nat \<Rightarrow> int option \<Rightarrow> 'v list \<Rightarrow> (nat \<Rightarrow> 'v nav) \<Rightarrow> 'v hist \<Rightarrow> 'v sm" where
  "sm1_leaf_imm dir pindex pop1 offset pjv ret hist =
     (case offset of
        None \<Rightarrow> SMRet NavUndefined
      | Some offset \<Rightarrow>
          if offset \<ge> 0
          then SMRet (case nth_opt pjv (nat offset) of Some v \<Rightarrow> NavFound pindex v | None \<Rightarrow> NavUndefined)
          else let offset = ideal_offset dir offset
               in if off_end dir offset pop1 then SM2Backtrack pindex hist else SMRet (ret (nat offset)))"

definition sm1_leaf ::
  "dir \<Rightarrow> word_t \<Rightarrow> nat \<Rightarrow> dcdpop0 \<Rightarrow> word_t list \<Rightarrow> 'v list \<Rightarrow> 'v hist \<Rightarrow> 'v sm" where
  "sm1_leaf dir pindex s dcd pjll pjv hist =
     (let pop1 = ucast (JU_JPLEAF_POP0 dcd) + 1
      in sm1_leaf_imm dir pindex (unat pop1) (search_leaf_state s pjll pop1 pindex) pjv (ret_leaf pindex s pjll pjv) hist)"

definition sm1_immed :: "dir \<Rightarrow> word_t \<Rightarrow> nat \<Rightarrow> word_t list \<Rightarrow> 'v list \<Rightarrow> 'v hist \<Rightarrow> 'v sm" where
  "sm1_immed dir pindex s keys vals hist =
     (if \<not> immed_type_ok s keys then SMRet NavCorrupt
      else sm1_leaf_imm dir pindex (length keys) (search_leaf_state s keys (word_of_nat (length keys)) pindex) vals
             (ret_leaf pindex s keys vals) hist)"

definition sm1_immed_01 :: "dir \<Rightarrow> word_t \<Rightarrow> nat \<Rightarrow> dcdpop0 \<Rightarrow> 'v \<Rightarrow> 'v hist \<Rightarrow> 'v sm" where
  "sm1_immed_01 dir pindex s dcd v hist =
     (if s < 1 \<or> 7 < s then SMRet NavCorrupt
      else sm1_leaf_imm dir pindex 1
             (Some (if JU_JPDCDPOP0 dcd < JU_TRIMTODCDSIZE pindex then NOT 1
                    else if JU_JPDCDPOP0 dcd = JU_TRIMTODCDSIZE pindex then 0 else NOT 0))
             [v] (\<lambda>offset. NavFound (JU_SETDIGITS pindex (JU_JPDCDPOP0 dcd) s) v) hist)"

definition sm1_leaf_b1 :: "dir \<Rightarrow> word_t \<Rightarrow> (word_t \<times> 'v list) list \<Rightarrow> 'v hist \<Rightarrow> 'v sm" where
  "sm1_leaf_b1 dir pindex jlb hist =
     (let digit = unat (JU_DIGITATSTATE pindex 1);
          subexp = digit div cJU_BITSPERSUBEXPL;
          bitposmask = JU_BITPOSMASKL digit;
          bitmap = jlb_bitmap jlb subexp;
          offset = SEARCHBITMAPL bitmap digit bitposmask;
          sideways = (case scan_from dir (\<lambda>k. jlb_bitmap jlb k \<noteq> 0) subexp cJU_NUMSUBEXPL of
                        Some k \<Rightarrow> SMRet (ret_leaf_b1 pindex jlb k (jlb_limit dir (jlb_bitmap jlb k)))
                      | None \<Rightarrow> SM2Backtrack pindex hist)
      in if bitmap AND bitposmask \<noteq> 0
         then SMRet (case Option.bind (nth_opt jlb subexp) (\<lambda>(bitmap, pjv). nth_opt pjv (nat offset)) of
                       Some v \<Rightarrow> NavFound pindex v
                     | None \<Rightarrow> NavUndefined)
         else case dir of
                PREV \<Rightarrow>
                  if offset \<ge> 0 then SMRet (ret_leaf_b1 pindex jlb subexp (nat offset)) else sideways
              | NEXT \<Rightarrow>
                  if bitmap AND JU_MASKHIGHEREXC bitposmask \<noteq> 0
                  then SMRet (ret_leaf_b1 pindex jlb subexp (nat (offset + 1))) else sideways)"

text \<open>There are no Dcd bytes to check at the root.\<close>

definition sm1_checkdcd :: "dir \<Rightarrow> word_t \<Rightarrow> 'v jp \<Rightarrow> dcdpop0 \<Rightarrow> nat \<Rightarrow> 'v hist \<Rightarrow> 'v sm \<Rightarrow> 'v sm" where
  "sm1_checkdcd dir pindex pjp dcd s hist next =
     (if s < 2 \<or> 8 < s then SMRet NavCorrupt
      else if s = cJU_ROOTSTATE then next else CHECKDCD dir pindex pjp dcd s hist next)"

fun sm1_step :: "dir \<Rightarrow> 'v jp \<Rightarrow> word_t \<Rightarrow> 'v hist \<Rightarrow> 'v sm" where
  "sm1_step dir (JPBRANCH_L s dcd jbl) pindex hist =
     (let pjp = JPBRANCH_L s dcd jbl
      in sm1_checkdcd dir pindex pjp dcd s hist (sm1_branch_l dir pindex pjp s jbl hist))"
| "sm1_step dir (JPBRANCH_B s dcd jbb) pindex hist =
     (let pjp = JPBRANCH_B s dcd jbb
      in sm1_checkdcd dir pindex pjp dcd s hist (sm1_branch_b dir pindex pjp s jbb hist))"
| "sm1_step dir (JPBRANCH_U s dcd jbu) pindex hist =
     (let pjp = JPBRANCH_U s dcd jbu
      in sm1_checkdcd dir pindex pjp dcd s hist (sm1_branch_u dir pindex pjp s jbu hist))"
| "sm1_step dir (JPLEAF s dcd keys vals) pindex hist =
     (if s < 1 \<or> 7 < s then SMRet NavCorrupt
      else CHECKDCD dir pindex (JPLEAF s dcd keys vals) dcd s hist (sm1_leaf dir pindex s dcd keys vals hist))"
| "sm1_step dir (JPLEAF_B1 dcd jlb) pindex hist =
     CHECKDCD dir pindex (JPLEAF_B1 dcd jlb) dcd 1 hist (sm1_leaf_b1 dir pindex jlb hist)"
| "sm1_step dir (JPIMMED_01 s dcd v) pindex hist = sm1_immed_01 dir pindex s dcd v hist"
| "sm1_step dir (JPIMMED s keys vals) pindex hist = sm1_immed dir pindex s keys vals hist"
| "sm1_step dir (JPNULL n) pindex hist = SMRet NavCorrupt"
| "sm1_step dir (JPINVALID t) pindex hist = SMRet NavCorrupt"

section \<open>Running the machine\<close>

fun sm_step :: "dir \<Rightarrow> 'v sm \<Rightarrow> 'v sm" where
  "sm_step dir (SM1Get pjp pindex hist) = sm1_step dir pjp pindex hist"
| "sm_step dir (SM2Backtrack pindex hist) = sm2_step dir pindex hist"
| "sm_step dir (SM3Findlimit pjp pindex) = sm3_step dir pjp pindex"
| "sm_step dir (SMRet r) = SMRet r"

text \<open>Every step goes to a child, back in the history, or on to the next of the three machines.\<close>

fun jp_below :: "'v jp \<Rightarrow> 'v jp set" where
  "jp_below (JPBRANCH_L s dcd jbl) = snd ` set jbl"
| "jp_below (JPBRANCH_B s dcd jbb) = (\<Union>(bitmap, jps)\<in>set jbb. set jps)"
| "jp_below (JPBRANCH_U s dcd jbu) = set jbu"
| "jp_below _ = {}"

lemma size_jp_below: "c \<in> jp_below jp \<Longrightarrow> size c < size jp"
proof (cases jp)
  case (JPBRANCH_L s dcd jbl)
  assume "c \<in> jp_below jp"
  then obtain d where "(d, c) \<in> set jbl" using JPBRANCH_L by auto
  from size_list_elem [OF this, of "size_prod (\<lambda>_. 0) size"] show ?thesis using JPBRANCH_L by simp
next
  case (JPBRANCH_B s dcd jbb)
  assume "c \<in> jp_below jp"
  then obtain bm jps where "(bm, jps) \<in> set jbb" "c \<in> set jps" using JPBRANCH_B by auto
  from size_list_elem [OF this(1), of "size_prod (\<lambda>_. 0) (size_list size)"] size_list_elem [OF this(2), of size]
  show ?thesis using JPBRANCH_B by simp
next
  case (JPBRANCH_U s dcd jbu)
  assume "c \<in> jp_below jp"
  then have "c \<in> set jbu" using JPBRANCH_U by simp
  from size_list_elem [OF this, of size] show ?thesis using JPBRANCH_U by simp
qed auto

fun sm_on :: "'v jp set \<Rightarrow> 'v sm \<Rightarrow> bool" where
  "sm_on js (SM3Findlimit jp pindex) = (jp \<in> js)"
| "sm_on js (SMRet r) = True"
| "sm_on js _ = False"

lemma goto_on:
  "sm_on (snd ` set jbl) (goto_jbl pindex s jbl offset)"
  "sm_on (\<Union>(bitmap, jps)\<in>set jbb. set jps) (goto_jbb pindex s jbb subexp offset)"
  "sm_on (set jbu) (goto_jbu pindex s jbu digit)"
    apply (force simp: goto_jbl_def dest: nth_opt_mem split: option.splits)
   apply (auto simp: goto_jbb_def dest!: nth_opt_mem split: option.splits) [1]
  apply (auto simp: goto_jbu_def dest!: nth_opt_mem split: option.splits) [1]
  done

lemma goto_on_branch:
  "sm_on (jp_below (JPBRANCH_L s dcd jbl)) (goto_jbl pindex s' jbl offset)"
  "sm_on (jp_below (JPBRANCH_B s dcd jbb)) (goto_jbb pindex s' jbb subexp offset)"
  "sm_on (jp_below (JPBRANCH_U s dcd jbu)) (goto_jbu pindex s' jbu digit)"
  using goto_on by (auto simp only: jp_below.simps)

lemma sm3_step_on: "sm_on (jp_below jp) (sm3_step dir jp pindex)"
  by (cases jp)
    (simp_all add: sm3_branch_l_def sm3_branch_b_def sm3_branch_u_def Let_def goto_on_branch del: jp_below.simps
      split: option.splits)

lemma sm2_step_on:
  "sm2_step dir pindex ((jp, offset) # hist) = SM2Backtrack pindex hist
   \<or> sm_on (jp_below jp) (sm2_step dir pindex ((jp, offset) # hist))"
  by (cases jp)
    (auto simp: sm2_branch_l_def sm2_branch_b_def jbb_sideways_def jbu_sideways_def goto_on_branch
      simp del: jp_below.simps split: option.splits dir.splits prod.splits)

definition sm1_on :: "'v jp \<Rightarrow> 'v sm \<Rightarrow> bool" where
  "sm1_on jp st \<longleftrightarrow> (case st of SM1Get c pindex hist \<Rightarrow> c \<in> jp_below jp | _ \<Rightarrow> True)"

lemma sm1_on_simps [simp]:
  "sm1_on jp (SM2Backtrack pindex hist)" "sm1_on jp (SM3Findlimit c pindex)" "sm1_on jp (SMRet r)"
  "sm1_on jp (SM1Get c pindex hist) \<longleftrightarrow> c \<in> jp_below jp"
  by (simp_all add: sm1_on_def)

lemma sm_on_sm1: "sm_on js st \<Longrightarrow> sm1_on jp st"
  by (cases st) auto

lemma nth_opt_snd: "nth_opt xs i = Some (a, b) \<Longrightarrow> b \<in> snd ` set xs"
  by (force dest: nth_opt_mem)

lemmas goto_sm1 = sm_on_sm1 [OF goto_on(1)] sm_on_sm1 [OF goto_on(2)] sm_on_sm1 [OF goto_on(3)]

lemma sm1_branch_on:
  "sm1_on (JPBRANCH_L s dcd jbl) (sm1_branch_l dir pindex pjp state jbl hist)"
  "sm1_on (JPBRANCH_B s dcd jbb) (sm1_branch_b dir pindex pjp state jbb hist)"
  "sm1_on (JPBRANCH_U s dcd jbu) (sm1_branch_u dir pindex pjp state jbu hist)"
    apply (simp add: sm1_branch_l_def Let_def HISTPUSH_def goto_sm1 split: option.split)
    apply (blast dest: nth_opt_snd)
   apply (simp add: sm1_branch_b_def Let_def HISTPUSH_def jbb_sideways_def bind_eq_Some_conv goto_sm1
      split: option.split dir.split del: jbb_bitmap.simps jbb_has_jps.simps)
   apply (blast dest: nth_opt_mem)
  apply (simp add: sm1_branch_u_def Let_def HISTPUSH_def jbu_sideways_def goto_sm1 split: option.split)
  apply (blast dest: nth_opt_mem)
  done

lemma sm1_step_on: "sm1_on jp (sm1_step dir jp pindex hist)"
  by (cases jp)
    (auto simp: sm1_checkdcd_def CHECKDCD_def sm1_leaf_def sm1_leaf_imm_def sm1_immed_def sm1_immed_01_def
      sm1_leaf_b1_def Let_def sm1_branch_on simp del: jp_below.simps split: option.splits dir.splits)

fun sm_rank :: "'v sm \<Rightarrow> nat \<times> nat" where
  "sm_rank (SM1Get jp pindex hist) = (3, size jp)"
| "sm_rank (SM2Backtrack pindex hist) = (2, length hist)"
| "sm_rank (SM3Findlimit jp pindex) = (1, size jp)"
| "sm_rank (SMRet r) = (0, 0)"

lemma sm_rank_step:
  "(\<forall>r. sm_step dir st \<noteq> SMRet r) \<Longrightarrow> (sm_rank (sm_step dir st), sm_rank st) \<in> less_than <*lex*> less_than"
proof (cases st)
  case (SM1Get jp pindex hist)
  then show ?thesis
    using sm1_step_on [of jp dir pindex hist] by (cases "sm1_step dir jp pindex hist") (auto dest: size_jp_below)
next
  case (SM2Backtrack pindex hist)
  assume r: "\<forall>r. sm_step dir st \<noteq> SMRet r"
  then obtain jp offset h where h: "hist = (jp, offset) # h" using SM2Backtrack by (cases hist) auto
  show ?thesis
    using sm2_step_on [of dir pindex jp offset h] r
    by (cases "sm2_step dir pindex hist") (auto simp: SM2Backtrack h)
next
  case (SM3Findlimit jp pindex)
  assume "\<forall>r. sm_step dir st \<noteq> SMRet r"
  then show ?thesis
    using sm3_step_on [of jp dir pindex] SM3Findlimit
    by (cases "sm3_step dir jp pindex") (auto dest: size_jp_below)
qed auto

function sm_run :: "dir \<Rightarrow> 'v sm \<Rightarrow> 'v nav" where
  "sm_run dir st = (case sm_step dir st of SMRet r \<Rightarrow> r | st' \<Rightarrow> sm_run dir st')"
  by pat_completeness auto
termination
proof (relation "inv_image (less_than <*lex*> less_than) (\<lambda>(dir, st). sm_rank st)")
  show "wf (inv_image (less_than <*lex*> less_than) (\<lambda>(dir :: dir, st :: 'v sm). sm_rank st))" by auto
qed (metis case_prod_conv in_inv_image sm.distinct sm_rank_step)+

declare sm_run.simps [simp del]

section \<open>The entry points\<close>

definition nav_leafw :: "dir \<Rightarrow> 'v judyL \<Rightarrow> word_t \<Rightarrow> 'v nav" where
  "nav_leafw dir array pindex =
     (case array of
        JL_LEAFW pop0 pjlw pjv \<Rightarrow>
          (let pop1 = pop0 + 1
           in case j__udySearchLeafW pjlw pop1 pindex of
                None \<Rightarrow> NavUndefined
              | Some offset \<Rightarrow>
                  if offset \<ge> 0
                  then (case nth_opt pjv (nat offset) of Some v \<Rightarrow> NavFound pindex v | None \<Rightarrow> NavUndefined)
                  else let offset = ideal_offset dir offset
                       in if off_end dir offset (unat pop1) then NavNone
                          else case (nth_opt pjlw (nat offset), nth_opt pjv (nat offset)) of
                                 (Some key, Some v) \<Rightarrow> NavFound key v
                               | _ \<Rightarrow> NavUndefined)
      | _ \<Rightarrow> NavUndefined)"

text \<open>The inclusive search, from an index that was already decremented or incremented.\<close>

definition nav_search :: "dir \<Rightarrow> 'v judyL \<Rightarrow> word_t \<Rightarrow> 'v nav" where
  "nav_search dir array pindex =
     (if JU_LEAFW_POP0 array < cJU_LEAFW_MAXPOP1 then nav_leafw dir array pindex
      else case array of JL_JPM pop0 jp \<Rightarrow> sm_run dir (SM1Get jp pindex []) | _ \<Rightarrow> NavUndefined)"

definition JudyLPrev :: "'v judyL \<Rightarrow> word_t option \<Rightarrow> 'v nav" where
  "JudyLPrev array PIndex =
     (case PIndex of
        None \<Rightarrow> NavNullPIndex
      | Some pindex \<Rightarrow>
          (case array of
             JL_NULL \<Rightarrow> NavNone
           | _ \<Rightarrow> if pindex = 0 then NavNone else nav_search PREV array (pindex - 1)))"

definition JudyLNext :: "'v judyL \<Rightarrow> word_t option \<Rightarrow> 'v nav" where
  "JudyLNext array PIndex =
     (case PIndex of
        None \<Rightarrow> NavNullPIndex
      | Some pindex \<Rightarrow>
          (case array of
             JL_NULL \<Rightarrow> NavNone
           | _ \<Rightarrow> if pindex = cJU_ALLONES then NavNone else nav_search NEXT array (pindex + 1)))"

section \<open>First and last\<close>

definition JudyLFirst :: "'v judyL \<Rightarrow> word_t option \<Rightarrow> 'v nav" where
  "JudyLFirst array PIndex =
     (case PIndex of
        None \<Rightarrow> NavNullPIndex
      | Some pindex \<Rightarrow>
          (case JudyLGet array pindex of
             Corrupt \<Rightarrow> NavCorrupt
           | Undefined \<Rightarrow> NavUndefined
           | Found v \<Rightarrow> NavFound pindex v
           | NotFound \<Rightarrow> JudyLNext array PIndex))"

definition JudyLLast :: "'v judyL \<Rightarrow> word_t option \<Rightarrow> 'v nav" where
  "JudyLLast array PIndex =
     (case PIndex of
        None \<Rightarrow> NavNullPIndex
      | Some pindex \<Rightarrow>
          (case JudyLGet array pindex of
             Corrupt \<Rightarrow> NavCorrupt
           | Undefined \<Rightarrow> NavUndefined
           | Found v \<Rightarrow> NavFound pindex v
           | NotFound \<Rightarrow> JudyLPrev array PIndex))"

end
