(* ===== verification/JudyNavBranch.thy ===== *)
theory JudyNavBranch
  imports JudyPrevNext
begin

text \<open>
  The branches of the neighbour searches: in a linear, bitmap or uncompressed branch alike, SM3 goes
  to the extreme child, SM2 to the next child beyond the one the history names, SM1 to the child of
  the digit or else to the next one beyond it.  The children are a list of pairs of a digit and a
  pointer, null pointers left out.
\<close>

section \<open>The next pair in a direction\<close>

fun dir_order :: "dir \<Rightarrow> 'a list \<Rightarrow> 'a list" where
  "dir_order PREV xs = rev xs"
| "dir_order NEXT xs = xs"

fun after :: "dir \<Rightarrow> nat \<Rightarrow> nat \<Rightarrow> bool" where
  "after PREV d x = (x < d)"
| "after NEXT d x = (d < x)"

definition pick :: "dir \<Rightarrow> 'a list \<Rightarrow> 'a option" where
  "pick dir xs = (case dir_order dir xs of [] \<Rightarrow> None | x # _ \<Rightarrow> Some x)"

definition beyond :: "dir \<Rightarrow> nat \<Rightarrow> (nat \<times> 'a) list \<Rightarrow> (nat \<times> 'a) list" where
  "beyond dir d cs = filter (\<lambda>x. after dir d (fst x)) cs"

lemma pick_Nil [simp]: "pick dir [] = None"
  by (cases dir) (simp_all add: pick_def)

lemma pick_NEXT: "pick NEXT xs = nth_opt xs 0"
  by (cases xs) (simp_all add: pick_def nth_opt_def)

lemma pick_PREV: "pick PREV xs = (if xs = [] then None else nth_opt xs (length xs - 1))"
  by (cases xs rule: rev_cases) (simp_all add: pick_def nth_opt_def)

lemma pick_None: "pick dir xs = None \<longleftrightarrow> xs = []"
  by (cases dir) (auto simp: pick_NEXT pick_PREV nth_opt_def split: if_splits)

lemma pick_mem: "pick dir xs = Some x \<Longrightarrow> x \<in> set xs"
  by (cases dir) (auto simp: pick_NEXT pick_PREV split: if_splits dest: nth_opt_mem)

lemma pick_append:
  "pick NEXT (xs @ ys) = (if xs = [] then pick NEXT ys else pick NEXT xs)"
  "pick PREV (xs @ ys) = (if ys = [] then pick PREV xs else pick PREV ys)"
  by (cases xs; cases ys rule: rev_cases; simp add: pick_def)+

lemma nth_opt_drop: "nth_opt (drop n xs) i = nth_opt xs (n + i)"
  by (auto simp: nth_opt_def)

lemma pick_drop: "pick NEXT (drop n xs) = nth_opt xs n"
  by (simp add: pick_NEXT nth_opt_drop)

lemma pick_take: "n \<le> length xs \<Longrightarrow> pick PREV (take n xs) = (if n = 0 then None else nth_opt xs (n - 1))"
  by (auto simp: pick_PREV nth_opt_def)

lemma filter_take:
  assumes "n \<le> length cs" "\<And>i. i < n \<Longrightarrow> P (cs ! i)" "\<And>i. n \<le> i \<Longrightarrow> i < length cs \<Longrightarrow> \<not> P (cs ! i)"
  shows "filter P cs = take n cs"
proof -
  have "filter P (take n cs) = take n cs" by (rule filter_const_True) (use assms in \<open>auto simp: in_set_conv_nth\<close>)
  moreover have "filter P (drop n cs) = []" by (rule filter_const_False) (use assms in \<open>auto simp: in_set_conv_nth\<close>)
  ultimately show ?thesis by (metis append_Nil2 append_take_drop_id filter_append)
qed

lemma filter_drop:
  assumes "n \<le> length cs" "\<And>i. i < n \<Longrightarrow> \<not> P (cs ! i)" "\<And>i. n \<le> i \<Longrightarrow> i < length cs \<Longrightarrow> P (cs ! i)"
  shows "filter P cs = drop n cs"
proof -
  have "filter P (take n cs) = []" by (rule filter_const_False) (use assms in \<open>auto simp: in_set_conv_nth\<close>)
  moreover have "filter P (drop n cs) = drop n cs" by (rule filter_const_True) (use assms in \<open>auto simp: in_set_conv_nth\<close>)
  ultimately show ?thesis by (metis append_Nil append_take_drop_id filter_append)
qed

text \<open>In an ascending list, the pairs on either side of a place.\<close>

lemma beyond_at:
  assumes "sorted_wrt (<) (map fst cs)" "n < length cs" "fst (cs ! n) = d"
  shows "beyond PREV d cs = take n cs" "beyond NEXT d cs = drop (Suc n) cs"
proof -
  have lt: "fst (cs ! i) < fst (cs ! j)" if "i < j" "j < length cs" for i j
    using sorted_wrt_nth_less [OF assms(1), of i j] that by simp
  show "beyond PREV d cs = take n cs" unfolding beyond_def
  proof (rule filter_take)
    fix i assume i: "n \<le> i" "i < length cs"
    then show "\<not> after PREV d (fst (cs ! i))" using lt [of n i] assms(3) by (cases "i = n") auto
  qed (use lt [of _ n] assms in auto)
  show "beyond NEXT d cs = drop (Suc n) cs" unfolding beyond_def
  proof (rule filter_drop)
    fix i assume i: "i < Suc n"
    then show "\<not> after NEXT d (fst (cs ! i))" using lt [of i n] assms(2,3) by (cases "i = n") auto
  qed (use lt [of n] assms in auto)
qed

lemma beyond_between:
  assumes "n \<le> length cs" "\<And>i. i < n \<Longrightarrow> fst (cs ! i) < d"
    and "\<And>i. n \<le> i \<Longrightarrow> i < length cs \<Longrightarrow> d < fst (cs ! i)"
  shows "beyond PREV d cs = take n cs" "beyond NEXT d cs = drop n cs"
  unfolding beyond_def
  by (rule filter_take filter_drop; use assms less_imp_le_nat not_less in \<open>fastforce\<close>)+

lemma beyond_append: "beyond dir d (xs @ ys) = beyond dir d xs @ beyond dir d ys"
  by (simp add: beyond_def)

section \<open>The scans over subexpanses\<close>

lemma scan_up_pick:
  "pick NEXT (concat (map g [k..<k + n]))
    = (case scan_up (\<lambda>k. g k \<noteq> []) k n of None \<Rightarrow> None | Some j \<Rightarrow> pick NEXT (g j))"
proof (induction n arbitrary: k)
  case (Suc n)
  have "[k..<k + Suc n] = k # [Suc k..<Suc k + n]" by (simp add: upt_conv_Cons)
  then show ?case using Suc.IH [of "Suc k"] by (simp add: pick_append)
qed simp

lemma scan_down_pick:
  "pick PREV (concat (map g [0..<k]))
    = (case scan_down (\<lambda>k. g k \<noteq> []) k of None \<Rightarrow> None | Some j \<Rightarrow> pick PREV (g j))"
  by (induction k) (simp_all add: pick_append)

lemma scan_all_pick:
  "pick dir (concat (map g [0..<n]))
    = (case scan_all dir (\<lambda>k. g k \<noteq> []) n of None \<Rightarrow> None | Some j \<Rightarrow> pick dir (g j))"
  using scan_up_pick [of g 0 n] scan_down_pick [of g n] by (cases dir; hypsubst; simp)

lemma scan_up_Some: "scan_up P k n = Some j \<Longrightarrow> P j \<and> k \<le> j \<and> j < k + n"
  by (induction P k n rule: scan_up.induct) (auto split: if_splits)

lemma scan_down_Some: "scan_down P k = Some j \<Longrightarrow> P j \<and> j < k"
  by (induction P k rule: scan_down.induct) (auto split: if_splits)

lemma scan_all_Some: "scan_all dir P n = Some j \<Longrightarrow> P j \<and> j < n"
  by (cases dir) (auto dest: scan_up_Some scan_down_Some)

lemma scan_from_Some: "scan_from dir P k n = Some j \<Longrightarrow> k < n \<Longrightarrow> P j \<and> j < n"
  by (cases dir) (auto dest: scan_up_Some scan_down_Some)

lemma scan_up_cong: "(\<And>j. k \<le> j \<Longrightarrow> j < k + n \<Longrightarrow> P j = Q j) \<Longrightarrow> scan_up P k n = scan_up Q k n"
  by (induction P k n rule: scan_up.induct) auto

lemma scan_down_cong: "(\<And>j. j < k \<Longrightarrow> P j = Q j) \<Longrightarrow> scan_down P k = scan_down Q k"
  by (induction P k rule: scan_down.induct) auto

lemma scan_all_cong: "(\<And>j. j < n \<Longrightarrow> P j = Q j) \<Longrightarrow> scan_all dir P n = scan_all dir Q n"
  by (cases dir) (auto intro: scan_up_cong scan_down_cong)

lemma scan_from_cong: "k < n \<Longrightarrow> (\<And>j. j < n \<Longrightarrow> P j = Q j) \<Longrightarrow> scan_from dir P k n = scan_from dir Q k n"
  by (cases dir) (auto intro: scan_up_cong scan_down_cong)

text \<open>The pairs beyond a digit in blocks of digits: those of its own block, then the blocks on the side.\<close>

lemma beyond_blocks:
  assumes "0 < W" "\<And>k x. k < n \<Longrightarrow> x \<in> set (g k) \<Longrightarrow> fst x div W = k" "d div W < n"
  shows "pick dir (beyond dir d (concat (map g [0..<n])))
    = (if beyond dir d (g (d div W)) \<noteq> [] then pick dir (beyond dir d (g (d div W)))
       else case scan_from dir (\<lambda>k. g k \<noteq> []) (d div W) n of None \<Rightarrow> None | Some j \<Rightarrow> pick dir (g j))"
proof -
  let ?k = "d div W"
  have split: "[0..<n] = [0..<?k] @ ?k # [Suc ?k..<Suc ?k + (n - Suc ?k)]"
    using assms(3) by (metis Suc_leI le_add_diff_inverse less_imp_le_nat upt_add_eq_append upt_conv_Cons zero_le add_0)
  have below: "x \<in> set (concat (map g [0..<?k])) \<Longrightarrow> fst x < d" for x
  proof -
    assume "x \<in> set (concat (map g [0..<?k]))"
    then obtain k where "k < ?k" "x \<in> set (g k)" by auto
    then have "fst x div W < d div W" using assms(2) [of k x] assms(3) by simp
    then show "fst x < d" by (meson div_le_mono leD leI)
  qed
  have above: "x \<in> set (concat (map g [Suc ?k..<Suc ?k + (n - Suc ?k)])) \<Longrightarrow> d < fst x" for x
  proof -
    assume "x \<in> set (concat (map g [Suc ?k..<Suc ?k + (n - Suc ?k)]))"
    then obtain k where "?k < k" "k < n" "x \<in> set (g k)" using assms(3) by (auto simp: Suc_le_eq)
    then have "d div W < fst x div W" using assms(2) [of k x] by simp
    then show "d < fst x" by (meson div_le_mono leD leI)
  qed
  have fp: "beyond NEXT d (concat (map g [0..<?k])) = []" "beyond PREV d (concat (map g [0..<?k])) = concat (map g [0..<?k])"
    unfolding beyond_def by ((rule filter_const_False filter_const_True, rule ballI, drule below, simp)+)
  have fs: "beyond PREV d (concat (map g [Suc ?k..<Suc ?k + (n - Suc ?k)])) = []"
    "beyond NEXT d (concat (map g [Suc ?k..<Suc ?k + (n - Suc ?k)])) = concat (map g [Suc ?k..<Suc ?k + (n - Suc ?k)])"
    unfolding beyond_def by ((rule filter_const_False filter_const_True, rule ballI, drule above, simp)+)
  have c: "concat (map g [0..<n]) = concat (map g [0..<?k]) @ g ?k @ concat (map g [Suc ?k..<Suc ?k + (n - Suc ?k)])"
    by (subst split) simp
  show ?thesis
  proof (cases dir)
    case PREV
    show ?thesis unfolding PREV c beyond_append fp fs pick_append append_Nil2 scan_down_pick by simp
  next
    case NEXT
    show ?thesis unfolding NEXT c beyond_append fp fs pick_append append_Nil scan_up_pick by simp
  qed
qed

section \<open>Going on at a pair\<close>

definition live :: "'v jp \<Rightarrow> (nat \<times> 'v jp) list" where
  "live jp = filter (\<lambda>x. \<not> jp_is_null (snd x)) (jp_children jp)"

definition sm_goto :: "word_t \<Rightarrow> nat \<Rightarrow> (nat \<times> 'v jp) option \<Rightarrow> 'v sm \<Rightarrow> 'v sm" where
  "sm_goto pindex s r other =
     (case r of Some (d, c) \<Rightarrow> SM3Findlimit c (JU_SETDIGIT pindex (word_of_nat d) s) | None \<Rightarrow> other)"

lemma sm_goto_simps [simp]:
  "sm_goto pindex s (Some (d, c)) other = SM3Findlimit c (JU_SETDIGIT pindex (word_of_nat d) s)"
  "sm_goto pindex s None other = other"
  by (simp_all add: sm_goto_def)

lemma sm_goto_other: "r \<noteq> None \<Longrightarrow> sm_goto pindex s r x = sm_goto pindex s r y"
  by (auto simp: sm_goto_def)

text \<open>The offset a branch has in the history when the search went down at a digit.\<close>

fun hist_offset :: "dir \<Rightarrow> 'v jp \<Rightarrow> nat \<Rightarrow> nat" where
  "hist_offset dir (JPBRANCH_L s dcd jbl) d = insertion_point (map (ucast \<circ> fst) jbl) (word_of_nat d)"
| "hist_offset dir (JPBRANCH_B s dcd jbb) d =
     HISTPUSHBOFF dir (d div 32) (bits_below (jbb_bitmap jbb (d div 32)) (d mod 32)) d"
| "hist_offset dir jp d = d"

section \<open>Linear branches\<close>

definition jbl_pairs :: "(uint8 \<times> 'v jp) list \<Rightarrow> (nat \<times> 'v jp) list" where
  "jbl_pairs jbl = map (\<lambda>(d, jp). (unat d, jp)) jbl"

lemma goto_jbl_eq: "goto_jbl pindex s jbl n = sm_goto pindex s (nth_opt (jbl_pairs jbl) n) (SMRet NavUndefined)"
  by (simp add: goto_jbl_def nth_opt_def jbl_pairs_def split: prod.split)

lemma unat_ucast_byte: "unat (ucast (b :: uint8) :: word_t) = unat b"
  using unat_byte_less [of b] by (simp add: unsigned_ucast_eq take_bit_nat_eq_self)

lemma unat_digit: "d < 256 \<Longrightarrow> unat (word_of_nat d :: word_t) = d"
  by (simp only: unat_of_nat) (simp add: take_bit_nat_eq_self)

lemma jbl_keys_sorted:
  "sorted_wrt (<) (map fst (jbl :: (uint8 \<times> 'v jp) list)) \<Longrightarrow> sorted_wrt (<) (map (ucast \<circ> fst) jbl :: word_t list)"
  by (simp add: sorted_wrt_map word_less_nat_alt unat_ucast_byte)

lemma jbl_pairs_sorted: "sorted_wrt (<) (map fst jbl) \<Longrightarrow> sorted_wrt (<) (map fst (jbl_pairs jbl))"
  by (simp add: jbl_pairs_def sorted_wrt_map word_less_nat_alt case_prod_beta)

lemma fst_jbl_pairs: "i < length jbl \<Longrightarrow> fst (jbl_pairs jbl ! i) = unat (map (ucast \<circ> fst) jbl ! i :: word_t)"
  by (simp add: jbl_pairs_def case_prod_beta unat_ucast_byte)

lemma length_jbl_pairs [simp]: "length (jbl_pairs jbl) = length jbl"
  by (simp add: jbl_pairs_def)

lemma jbl_place:
  fixes jbl :: "(uint8 \<times> 'v jp) list"
  assumes "sorted_wrt (<) (map fst jbl)" "d < 256"
  defines "keys \<equiv> map (ucast \<circ> fst) jbl :: word_t list"
  defines "n \<equiv> insertion_point keys (word_of_nat d)"
  shows "n \<le> length jbl"
    and "word_of_nat d \<in> set keys \<Longrightarrow> n < length jbl \<and> fst (jbl_pairs jbl ! n) = d"
    and "word_of_nat d \<notin> set keys \<Longrightarrow> (\<forall>i<n. fst (jbl_pairs jbl ! i) < d) \<and> (\<forall>i. n \<le> i \<longrightarrow> i < length jbl \<longrightarrow> d < fst (jbl_pairs jbl ! i))"
    and "word_of_nat d \<in> set keys \<longleftrightarrow> d \<in> fst ` set (jbl_pairs jbl)"
proof -
  have len: "length keys = length jbl" by (simp add: keys_def)
  have keys: "sorted_wrt (<) keys" unfolding keys_def using assms(1) by (rule jbl_keys_sorted)
  have fst: "fst (jbl_pairs jbl ! i) = unat (keys ! i)" if "i < length jbl" for i
    using that unfolding keys_def by (rule fst_jbl_pairs)
  show n: "n \<le> length jbl" using insertion_point_le [of keys "word_of_nat d"] by (simp add: n_def len)
  have mem: "word_of_nat d \<in> set keys \<longleftrightarrow> n < length jbl \<and> keys ! n = word_of_nat d"
    using insertion_point_mem [OF keys, of "word_of_nat d"] by (simp add: n_def len)
  show "word_of_nat d \<in> set keys \<Longrightarrow> n < length jbl \<and> fst (jbl_pairs jbl ! n) = d"
    using mem fst [of n] unat_digit [OF assms(2)] by simp
  show "(\<forall>i<n. fst (jbl_pairs jbl ! i) < d) \<and> (\<forall>i. n \<le> i \<longrightarrow> i < length jbl \<longrightarrow> d < fst (jbl_pairs jbl ! i))"
    if "word_of_nat d \<notin> set keys"
  proof (intro conjI allI impI)
    fix i assume i: "i < n"
    then have "keys ! i < word_of_nat d" unfolding n_def by (rule nth_insertion_point)
    then show "fst (jbl_pairs jbl ! i) < d" using i n fst [of i] by (simp add: word_less_nat_alt unat_digit [OF assms(2)])
  next
    fix i assume i: "n \<le> i" "i < length jbl"
    have "word_of_nat d \<le> keys ! n" using i nth_insertion_point(2) [of keys "word_of_nat d"] by (simp add: n_def len)
    also have "keys ! n \<le> keys ! i"
      using sorted_wrt_nth_less [OF keys, of n i] i len by (cases "n = i") (auto intro: less_imp_le)
    finally have "word_of_nat d < keys ! i" using that nth_mem [of i keys] i len by (metis order_le_less)
    then show "d < fst (jbl_pairs jbl ! i)" using i fst [of i] by (simp add: word_less_nat_alt unat_digit [OF assms(2)])
  qed
  show "word_of_nat d \<in> set keys \<longleftrightarrow> d \<in> fst ` set (jbl_pairs jbl)"
  proof
    assume "word_of_nat d \<in> set keys"
    then show "d \<in> fst ` set (jbl_pairs jbl)" using mem fst [of n] unat_digit [OF assms(2)] by (metis image_eqI length_jbl_pairs nth_mem)
  next
    assume "d \<in> fst ` set (jbl_pairs jbl)"
    then obtain i where "i < length jbl" "d = fst (jbl_pairs jbl ! i)" by (auto simp: in_set_conv_nth)
    then show "word_of_nat d \<in> set keys" using fst [of i] nth_mem [of i keys] len by simp
  qed
qed

lemma sm2_branch_l_eq:
  assumes "sorted_wrt (<) (map fst jbl)" "d < 256" "d \<in> fst ` set (jbl_pairs jbl)"
  shows "sm2_branch_l dir pindex s jbl (hist_offset dir (JPBRANCH_L s dcd jbl) d) hist
    = sm_goto pindex s (pick dir (beyond dir d (jbl_pairs jbl))) (SM2Backtrack pindex hist)"
proof -
  let ?n = "insertion_point (map (ucast \<circ> fst) jbl) (word_of_nat d)"
  note place = jbl_place [OF assms(1,2)]
  have n: "?n < length (jbl_pairs jbl)" "fst (jbl_pairs jbl ! ?n) = d" using place(2,4) assms(3) by auto
  note b = beyond_at [OF jbl_pairs_sorted [OF assms(1)] n]
  show ?thesis
    using n(1) by (cases dir) (auto simp: sm2_branch_l_def goto_jbl_eq b pick_take pick_drop nth_opt_def sm_goto_def)
qed

lemma nat_int_pred: "nat (int n - 1) = n - Suc 0"
  by simp

text \<open>The search for a digit in the expanse list of a linear branch.\<close>

lemma jbl_search:
  fixes jbl :: "(uint8 \<times> 'v jp) list"
  assumes "sorted_wrt (<) (map fst jbl)" "length jbl \<le> 7"
  shows "j__udySearchLeaf1 (map (ucast \<circ> fst) jbl) (word_of_nat (length jbl)) (ucast e)
    = Some (search_result (map (ucast \<circ> fst) jbl) (word_of_nat (unat (e :: uint8))))"
proof -
  have "take_bit 8 (ucast e :: word_t) = word_of_nat (unat e)"
    unfolding ucast_byte using unat_byte_less [of e] by (simp only: take_bit_of_nat) (simp add: take_bit_nat_eq_self)
  then show ?thesis
    unfolding j__udySearchLeaf1_def using assms(2) unat_digit [of "length jbl"]
    by (subst search_native) (simp_all add: jbl_keys_sorted assms(1))
qed

lemma sm1_branch_l_eq:
  fixes pindex :: word_t and s :: nat
  assumes "sorted_wrt (<) (map fst jbl)" "length jbl \<le> 7"
  defines "d \<equiv> unat (JU_DIGITATSTATE pindex s)"
  shows "sm1_branch_l dir pindex jp s jbl hist =
    (case map_of (jbl_pairs jbl) d of
       Some c \<Rightarrow> HISTPUSH jp (hist_offset dir (JPBRANCH_L s dcd jbl) d) hist (\<lambda>hist. SM1Get c pindex hist)
     | None \<Rightarrow> sm_goto pindex s (pick dir (beyond dir d (jbl_pairs jbl))) (SM2Backtrack pindex hist))"
proof -
  let ?keys = "map (ucast \<circ> fst) jbl :: word_t list"
  let ?n = "insertion_point ?keys (word_of_nat d)"
  have d: "d < 256" unfolding d_def by (rule unat_byte_less)
  note place = jbl_place [OF assms(1) d]
  have search: "j__udySearchLeaf1 ?keys (word_of_nat (length jbl)) (ucast (JU_DIGITATSTATE pindex s))
      = Some (search_result ?keys (word_of_nat d))"
    unfolding d_def by (rule jbl_search [OF assms(1,2)])
  show ?thesis
  proof (cases "word_of_nat d \<in> set ?keys")
    case True
    then have n: "?n < length (jbl_pairs jbl)" "fst (jbl_pairs jbl ! ?n) = d" using place(2) by auto
    have "(d, snd (jbl_pairs jbl ! ?n)) \<in> set (jbl_pairs jbl)" using n by (metis nth_mem prod.collapse)
    moreover have "distinct (map fst (jbl_pairs jbl))"
      using jbl_pairs_sorted [OF assms(1)] by (simp add: strict_sorted_iff)
    ultimately have "map_of (jbl_pairs jbl) d = Some (snd (jbl_pairs jbl ! ?n))" by (simp add: map_of_is_SomeI)
    then show ?thesis
      using True n search by (simp add: sm1_branch_l_def search_result_def jbl_pairs_def case_prod_beta)
  next
    case False
    then have "map_of (jbl_pairs jbl) d = None" using place(4) by (simp add: map_of_eq_None_iff)
    moreover have n: "?n \<le> length (jbl_pairs jbl)" using place(1) by simp
    moreover note b = beyond_between [of ?n "jbl_pairs jbl" d]
    ultimately show ?thesis
      using False search place(3) [OF False] b
      by (cases dir) (auto simp: sm1_branch_l_def search_result_def goto_jbl_eq pick_take pick_drop nth_opt_def
          sm_goto_def not_eq_complement nat_int_pred)
  qed
qed

lemma sm3_branch_l_eq:
  assumes "jbl \<noteq> []" "2 \<le> s" "s \<le> 8"
  shows "sm3_branch_l dir pindex s dcd jbl
    = sm_goto (sm3_setdcd pindex dcd s) s (pick dir (jbl_pairs jbl)) (SMRet NavCorrupt)"
proof -
  have "jbl_pairs jbl \<noteq> []" using assms(1) by (simp add: jbl_pairs_def)
  then show ?thesis
    using assms by (cases dir) (auto simp: sm3_branch_l_def goto_jbl_eq pick_NEXT pick_PREV nth_opt_def sm_goto_def)
qed

section \<open>Uncompressed branches\<close>

definition jbu_block :: "'v jp list \<Rightarrow> nat \<Rightarrow> (nat \<times> 'v jp) list" where
  "jbu_block jbu k = (if jbu_has_jp jbu k then [(k, jbu ! k)] else [])"

lemma enumerate_map: "enumerate 0 xs = map (\<lambda>k. (k, xs ! k)) [0..<length xs]"
  by (rule nth_equalityI) (simp_all add: nth_enumerate_eq)

lemma filter_map_concat: "filter P (map f ks) = concat (map (\<lambda>k. if P (f k) then [f k] else []) ks)"
  by (induction ks) auto

lemma jbu_pairs: "filter (\<lambda>x. \<not> jp_is_null (snd x)) (enumerate 0 jbu) = concat (map (jbu_block jbu) [0..<length jbu])"
  unfolding enumerate_map filter_map_concat
  by (rule arg_cong [where f = concat], rule map_cong) (auto simp: jbu_block_def nth_opt_def)

lemma goto_jbu_eq:
  "jbu_has_jp jbu k \<Longrightarrow> goto_jbu pindex s jbu k = sm_goto pindex s (pick dir (jbu_block jbu k)) other"
  by (cases dir) (auto simp: goto_jbu_def jbu_block_def pick_def nth_opt_def split: if_splits)

lemma jbu_sideways_eq:
  assumes "length jbu = 256" "d < 256"
  shows "jbu_sideways dir pindex s jbu d hist
    = sm_goto pindex s (pick dir (beyond dir d (concat (map (jbu_block jbu) [0..<256])))) (SM2Backtrack pindex hist)"
proof -
  have "beyond dir d (jbu_block jbu d) = []" by (cases dir) (simp_all add: beyond_def jbu_block_def)
  moreover have "(\<lambda>k. jbu_block jbu k \<noteq> []) = jbu_has_jp jbu" by (simp add: fun_eq_iff jbu_block_def)
  ultimately have "pick dir (beyond dir d (concat (map (jbu_block jbu) [0..<256])))
    = (case scan_from dir (jbu_has_jp jbu) d 256 of None \<Rightarrow> None | Some j \<Rightarrow> pick dir (jbu_block jbu j))"
    using beyond_blocks [of 1 256 "jbu_block jbu" d dir] assms(2)
    by (simp add: jbu_block_def split: if_splits)
  then show ?thesis
    using scan_from_Some [of dir "jbu_has_jp jbu" d 256] assms(2)
    by (auto simp: jbu_sideways_def goto_jbu_eq [where dir = dir and other = "SM2Backtrack pindex hist"]
        simp del: jbu_has_jp.simps split: option.split)
qed

lemma sm3_branch_u_eq:
  assumes "length jbu = 256" "2 \<le> s" "s \<le> 8"
  shows "sm3_branch_u dir pindex s dcd jbu
    = sm_goto (sm3_setdcd pindex dcd s) s (pick dir (concat (map (jbu_block jbu) [0..<256]))) (SMRet NavCorrupt)"
proof -
  have "(\<lambda>k. jbu_block jbu k \<noteq> []) = jbu_has_jp jbu" by (simp add: fun_eq_iff jbu_block_def)
  then show ?thesis
    using assms(2,3) scan_all_Some [of dir "jbu_has_jp jbu" 256]
    by (auto simp: sm3_branch_u_def scan_all_pick goto_jbu_eq [where dir = dir and other = "SMRet NavCorrupt"]
        simp del: jbu_has_jp.simps split: option.split)
qed

section \<open>Blocks of a bitmap\<close>

definition bm_block :: "('a::len word \<times> 'b list) list \<Rightarrow> nat \<Rightarrow> (nat \<times> 'b) list" where
  "bm_block subs k = (case nth_opt subs k of
     None \<Rightarrow> [] | Some (bm, xs) \<Rightarrow> zip (map ((+) (LENGTH('a) * k)) (set_positions bm)) xs)"

definition bm_shape :: "nat \<Rightarrow> ('a::len word \<times> 'b list) list \<Rightarrow> bool" where
  "bm_shape n subs \<longleftrightarrow> length subs = n \<and> (\<forall>(bm, xs)\<in>set subs. length xs = length (set_positions bm))"

lemma bm_pairs:
  fixes subs :: "('a::len word \<times> 'b list) list"
  shows "concat (map (\<lambda>(k, bm, xs). zip (map ((+) (LENGTH('a) * k)) (set_positions bm)) xs) (enumerate 0 subs))
    = concat (map (bm_block subs) [0..<length subs])"
  unfolding enumerate_map map_map
  by (rule arg_cong [where f = concat], rule map_cong) (auto simp: bm_block_def split: prod.split)

lemma bm_block_digit: "x \<in> set (bm_block (subs :: ('a::len word \<times> 'b list) list) k) \<Longrightarrow> fst x div LENGTH('a) = k"
proof -
  assume "x \<in> set (bm_block subs k)"
  moreover obtain e c where x: "x = (e, c)" by (cases x)
  ultimately obtain bm :: "'a word" and i where "i \<in> set (set_positions bm)" "fst x = LENGTH('a) * k + i"
    by (auto simp: bm_block_def dest!: set_zip_leftD split: option.splits)
  then show ?thesis using set_positions_less [of i bm] by simp
qed

lemma bm_block_sub:
  assumes "bm_shape n subs" "k < n" "subs ! k = (bm, xs)"
  shows "bm_block (subs :: ('a::len word \<times> 'b list) list) k = zip (map ((+) (LENGTH('a) * k)) (set_positions bm)) xs"
    and "length xs = length (set_positions bm)" "nth_opt subs k = Some (bm, xs)"
proof -
  have k: "k < length subs" "length subs = n" using assms by (auto simp: bm_shape_def)
  then show "nth_opt subs k = Some (bm, xs)" using assms(3) by simp
  then show "bm_block subs k = zip (map ((+) (LENGTH('a) * k)) (set_positions bm)) xs" by (simp add: bm_block_def)
  show "length xs = length (set_positions bm)" using assms k nth_mem [OF k(1)] by (force simp: bm_shape_def)
qed

lemma positions_below:
  assumes "n \<le> LENGTH('a)" "i < length (set_positions (w :: 'a::len word))"
  shows "set_positions w ! i < n \<longleftrightarrow> i < bits_below w n"
proof -
  have s: "set_positions w = filter (bit w) [0..<n] @ filter (bit w) [n..<LENGTH('a)]"
    using assms(1) upt_add_eq_append [of 0 n "LENGTH('a) - n"] by (simp add: set_positions_def)
  show ?thesis
  proof (cases "i < bits_below w n")
    case True
    then have "set_positions w ! i \<in> set (filter (bit w) [0..<n])"
      unfolding s nth_append bits_below_def by (simp del: set_filter)
    then show ?thesis using True by simp
  next
    case False
    then have "set_positions w ! i = filter (bit w) [n..<LENGTH('a)] ! (i - bits_below w n)"
      by (simp add: s nth_append bits_below_def)
    moreover have "i - bits_below w n < length (filter (bit w) [n..<LENGTH('a)])"
      using assms(2) False by (simp add: s bits_below_def)
    ultimately have "set_positions w ! i \<in> set (filter (bit w) [n..<LENGTH('a)])" by (metis nth_mem)
    then show ?thesis using False by simp
  qed
qed

lemma bits_below_Suc: "bits_below w (Suc n) = bits_below w n + of_bool (bit w n)"
  by (simp add: bits_below_def)

lemma bits_below_le: "n \<le> LENGTH('a) \<Longrightarrow> bits_below (w :: 'a::len word) n \<le> length (set_positions w)"
  using upt_add_eq_append [of 0 n "LENGTH('a) - n"] by (simp add: set_positions_def bits_below_def)

lemma positions_mask_length: "n \<le> LENGTH('a) \<Longrightarrow> length (set_positions (w AND mask n :: 'a::len word)) = bits_below w n"
proof (cases "n < LENGTH('a)")
  case True
  then show ?thesis using positions_mask_lower [OF True, of w] by (simp add: mask_eq_exp_minus_1)
next
  case False
  moreover assume "n \<le> LENGTH('a)"
  ultimately have "w AND mask n = w" by (simp flip: take_bit_eq_mask add: take_bit_word_eq_self)
  then show ?thesis using False bits_below_all [of n w] by simp
qed

lemma mask_lower_inc: "JU_MASKLOWERINC (push_bit n 1 :: 'a::len word) = mask (Suc n)"
proof -
  have "push_bit n 1 - 1 = (mask n :: 'a word)" by (simp add: mask_eq_exp_minus_1)
  then show ?thesis
    unfolding JU_MASKLOWERINC_def JU_MASKLOWEREXC_def by (intro bit_word_eqI) (auto simp: bit_simps)
qed

lemma set_positions_all: "length (set_positions (- 1 :: 'a::len word)) = LENGTH('a)"
  by (simp add: set_positions_def)

lemma bits_below_minus_1: "n \<le> LENGTH('a) \<Longrightarrow> bits_below (- 1 :: 'a::len word) n = n"
proof -
  assume n: "n \<le> LENGTH('a)"
  have "filter (bit (- 1 :: 'a word)) [0..<n] = [0..<n]" using n by (auto simp: filter_id_conv)
  then show ?thesis by (simp add: bits_below_def)
qed

lemma higher_bits:
  assumes "n < LENGTH('a)"
  shows "w AND JU_MASKHIGHEREXC (push_bit n 1 :: 'a::len word) \<noteq> 0 \<longleftrightarrow> bits_below w (Suc n) < length (set_positions w)"
proof -
  have n: "Suc n \<le> LENGTH('a)" using assms by simp
  have "w AND NOT (mask (Suc n)) = 0 \<longleftrightarrow> (\<forall>i. bit w i \<longrightarrow> i < Suc n)"
    unfolding bit_eq_iff by (simp add: bit_simps) (meson bit_imp_le_length not_less)
  also have "\<dots> \<longleftrightarrow> (\<forall>i\<in>set (set_positions w). i < Suc n)" by (simp only: Ball_def set_positions_iff)
  also have "\<dots> \<longleftrightarrow> \<not> bits_below w (Suc n) < length (set_positions w)"
  proof
    assume "\<forall>i\<in>set (set_positions w). i < Suc n"
    then show "\<not> bits_below w (Suc n) < length (set_positions w)" using positions_below [OF n, of _ w] nth_mem by blast
  next
    assume "\<not> bits_below w (Suc n) < length (set_positions w)"
    then show "\<forall>i\<in>set (set_positions w). i < Suc n" using positions_below [OF n, of _ w] by (auto simp: in_set_conv_nth)
  qed
  finally show ?thesis unfolding mask_higher_exc [OF assms] by blast
qed

text \<open>The pairs of a block on either side of a digit.\<close>

lemma bm_block_beyond:
  fixes bm :: "'a::len word" and k :: nat
  assumes "length xs = length (set_positions bm)" "m < LENGTH('a)"
  defines "b \<equiv> zip (map ((+) (LENGTH('a) * k)) (set_positions bm)) xs"
  shows "beyond PREV (LENGTH('a) * k + m) b = take (bits_below bm m) b"
    and "beyond NEXT (LENGTH('a) * k + m) b = drop (bits_below bm (Suc m)) b"
proof -
  have len: "length b = length (set_positions bm)" using assms(1) by (simp add: b_def)
  have nth: "fst (b ! i) = LENGTH('a) * k + set_positions bm ! i" if "i < length b" for i
    using that assms(1) by (simp add: b_def)
  have le: "bits_below bm m \<le> length b" "bits_below bm (Suc m) \<le> length b"
    using bits_below_le [of m bm] bits_below_le [of "Suc m" bm] assms(2) len by simp_all
  have pos: "set_positions bm ! i < m \<longleftrightarrow> i < bits_below bm m" "m < set_positions bm ! i \<longleftrightarrow> \<not> i < bits_below bm (Suc m)"
    if "i < length b" for i
    using positions_below [of m i bm] positions_below [of "Suc m" i bm] assms(2) that len by (simp_all, linarith)
  show "beyond PREV (LENGTH('a) * k + m) b = take (bits_below bm m) b" unfolding beyond_def
    by (rule filter_take) (use le nth pos in auto)
  show "beyond NEXT (LENGTH('a) * k + m) b = drop (bits_below bm (Suc m)) b" unfolding beyond_def
    by (rule filter_drop) (use le nth pos(2) in auto)
qed

lemma block_empty:
  assumes "bm_shape n subs" "k < n" "subs ! k = (bm, xs)"
  shows "bm \<noteq> 0 \<longleftrightarrow> bm_block subs k \<noteq> []" "length (set_positions bm) = length (bm_block subs k)"
proof -
  note b = bm_block_sub [OF assms]
  show len: "length (set_positions bm) = length (bm_block subs k)" using b by simp
  have "bm = 0 \<longleftrightarrow> set_positions bm = []"
  proof
    assume "set_positions bm = []"
    then have "\<not> bit bm i" for i using set_positions_iff [of i bm] by simp
    then show "bm = 0" by (simp add: bit_eq_iff)
  qed simp
  then show "bm \<noteq> 0 \<longleftrightarrow> bm_block subs k \<noteq> []" using len by auto
qed

lemma block_beyond:
  fixes subs :: "('a::len word \<times> 'b list) list"
  assumes "bm_shape n subs" "d < LENGTH('a) * n"
  defines "b \<equiv> bm_block subs (d div LENGTH('a))" and "bm \<equiv> fst (subs ! (d div LENGTH('a)))"
  shows "beyond PREV d b = take (bits_below bm (d mod LENGTH('a))) b"
    and "beyond NEXT d b = drop (bits_below bm (Suc (d mod LENGTH('a)))) b"
    and "bits_below bm (d mod LENGTH('a)) \<le> length b" "bits_below bm (Suc (d mod LENGTH('a))) \<le> length b"
proof -
  have k: "d div LENGTH('a) < n" using assms(2) by (simp add: less_mult_imp_div_less mult.commute)
  obtain bm' xs where x: "subs ! (d div LENGTH('a)) = (bm', xs)" by (cases "subs ! (d div LENGTH('a))")
  note s = bm_block_sub [OF assms(1) k x]
  have bm: "bm = bm'" by (simp add: bm_def x)
  have d: "LENGTH('a) * (d div LENGTH('a)) + d mod LENGTH('a) = d" by simp
  have m: "d mod LENGTH('a) < LENGTH('a)" by simp
  note be = bm_block_beyond [OF s(2) m, of "d div LENGTH('a)", unfolded d]
  show "beyond PREV d b = take (bits_below bm (d mod LENGTH('a))) b"
    "beyond NEXT d b = drop (bits_below bm (Suc (d mod LENGTH('a)))) b"
    unfolding b_def bm s(1) by (rule be)+
  have len: "length b = length (set_positions bm)" using s by (simp add: b_def bm)
  show "bits_below bm (d mod LENGTH('a)) \<le> length b" "bits_below bm (Suc (d mod LENGTH('a))) \<le> length b"
    unfolding len by (rule bits_below_le, rule less_imp_le, rule m) (rule bits_below_le, rule Suc_leI, rule m)
qed

section \<open>Bitmap branches\<close>

lemma SEARCHBITMAPB_eq: "SEARCHBITMAPB bm d (JU_BITPOSMASKB d) = int (bits_below bm (Suc (d mod 32))) - 1"
proof -
  have m: "JU_MASKLOWERINC (JU_BITPOSMASKB d) = mask (Suc (d mod 32))"
    using mask_lower_inc [of "d mod 32", where 'a = 32] by (simp add: JU_BITPOSMASKB_def cJU_BITSPERSUBEXPB_def)
  have "unat (j__udyCountBitsB (bm AND mask (Suc (d mod 32)))) = bits_below bm (Suc (d mod 32))"
    unfolding count_bits_B using positions_mask_length [of "Suc (d mod 32)" bm] by (simp add: Suc_le_eq)
  moreover have "bits_below (- 1 :: uint32) (Suc (d mod 32)) = Suc (d mod 32)"
    by (rule bits_below_minus_1) (simp add: Suc_le_eq)
  ultimately show ?thesis by (simp add: SEARCHBITMAPB_def m cJU_BITSPERSUBEXPB_def)
qed

lemma SEARCHBITMAPL_eq: "SEARCHBITMAPL bm d (JU_BITPOSMASKL d) = int (bits_below bm (Suc (d mod 64))) - 1"
proof -
  have m: "JU_MASKLOWERINC (JU_BITPOSMASKL d) = mask (Suc (d mod 64))"
    using mask_lower_inc [of "d mod 64", where 'a = 64] by (simp add: JU_BITPOSMASKL_def cJU_BITSPERSUBEXPL_def)
  have "unat (j__udyCountBitsL (bm AND mask (Suc (d mod 64)))) = bits_below bm (Suc (d mod 64))"
    unfolding count_bits_L using positions_mask_length [of "Suc (d mod 64)" bm] by (simp add: Suc_le_eq)
  moreover have "bits_below (- 1 :: word_t) (Suc (d mod 64)) = Suc (d mod 64)"
    by (rule bits_below_minus_1) (simp add: Suc_le_eq)
  ultimately show ?thesis by (simp add: SEARCHBITMAPL_def m cJU_BITSPERSUBEXPL_def)
qed

lemma SEARCHBITMAPMAXB_eq: "SEARCHBITMAPMAXB bm = length (set_positions bm) - 1"
  using set_positions_all [where 'a = 32]
  by (auto simp: SEARCHBITMAPMAXB_def cJU_BITSPERSUBEXPB_def count_bits_B)

lemma SEARCHBITMAPMAXL_eq: "SEARCHBITMAPMAXL bm = length (set_positions bm) - 1"
  using set_positions_all [where 'a = 64]
  by (auto simp: SEARCHBITMAPMAXL_def cJU_BITSPERSUBEXPL_def count_bits_L)

lemma or_shift: "b < 2 ^ n \<Longrightarrow> (a * 2 ^ n OR b :: nat) = a * 2 ^ n + b"
proof -
  assume b: "b < 2 ^ n"
  have "(push_bit n a AND take_bit n b :: nat) = 0" by (auto simp: bit_eq_iff bit_simps)
  then have "push_bit n a OR take_bit n b = push_bit n a + take_bit n b" by (rule disjunctive_add_eq_or [symmetric])
  then show ?thesis using b by (simp add: push_bit_eq_mult take_bit_nat_eq_self)
qed

lemma hist_pack:
  assumes "k < 8" "i < 32"
  shows "HISTPOPBOFF PREV (HISTPUSHBOFF PREV k i d) = (k, i, 0)"
    and "HISTPOPBOFF NEXT (HISTPUSHBOFF NEXT k i d) = (k, i, d)"
proof -
  have ki: "(k * 32 OR i) = k * 32 + i" using or_shift [of i 5 k] assms(2) by simp
  have r: "k * 32 + i < 2 ^ 8" using assms by simp
  have mid: "push_bit 8 d OR (k * 32) OR i = d * 256 + (k * 32 + i)"
    unfolding or.assoc ki using or_shift [OF r, of d] by (simp add: push_bit_eq_mult)
  show "HISTPOPBOFF PREV (HISTPUSHBOFF PREV k i d) = (k, i, 0)" using ki assms by (simp add: cJU_BITSPERSUBEXPB_def)
  have "(d * 256 + (k * 32 + i)) AND 255 = k * 32 + i"
  proof -
    have "(d * 256 + (k * 32 + i)) AND mask 8 = (d * 256 + (k * 32 + i)) mod 256"
      by (simp flip: take_bit_eq_mask add: take_bit_eq_mod)
    also have "\<dots> = k * 32 + i" using r by simp
    finally show ?thesis by (simp add: mask_eq_exp_minus_1)
  qed
  moreover have "drop_bit 8 (d * 256 + (k * 32 + i)) = d" using r by (simp add: drop_bit_eq_div)
  moreover have "(d * 256 + (k * 32 + i)) mod 32 = i"
  proof -
    have "d * 256 + (k * 32 + i) = i + 32 * (d * 8 + k)" by simp
    then show ?thesis using assms(2) by (simp only: mod_mult_self2) simp
  qed
  ultimately show "HISTPOPBOFF NEXT (HISTPUSHBOFF NEXT k i d) = (k, i, d)"
    using assms mid by (simp add: cJU_BITSPERSUBEXPB_def)
qed

lemma jbb_sub:
  assumes "bm_shape 8 jbb" "k < 8"
  shows "jbb_has_jps jbb k \<longleftrightarrow> bm_block jbb k \<noteq> []" "jbb_bitmap jbb k \<noteq> 0 \<longleftrightarrow> bm_block jbb k \<noteq> []"
    and "length (set_positions (jbb_bitmap jbb k)) = length (bm_block jbb k)"
proof -
  obtain bm jps where x: "jbb ! k = (bm, jps)" by (cases "jbb ! k")
  note b = bm_block_sub [OF assms x] and e = block_empty [OF assms x]
  have "length (bm_block jbb k) = length jps" using b(1,2) by simp
  then have "bm_block jbb k = [] \<longleftrightarrow> jps = []" by (metis length_0_conv)
  then show "jbb_has_jps jbb k \<longleftrightarrow> bm_block jbb k \<noteq> []"
    by (simp only: jbb_has_jps.simps b(3) option.case prod.case)
  show "jbb_bitmap jbb k \<noteq> 0 \<longleftrightarrow> bm_block jbb k \<noteq> []" "length (set_positions (jbb_bitmap jbb k)) = length (bm_block jbb k)"
    using e b(3) by simp_all
qed

lemma goto_jbb_eq:
  assumes "bm_shape 8 jbb" "k < 8" "i < length (bm_block jbb k)"
  shows "goto_jbb pindex s jbb k i = sm_goto pindex s (nth_opt (bm_block jbb k) i) other"
proof -
  obtain bm jps where x: "jbb ! k = (bm, jps)" by (cases "jbb ! k")
  note b = bm_block_sub [OF assms(1,2) x]
  have i: "i < length jps" "i < length (set_positions bm)" using assms(3) b by simp_all
  have "nth_opt (bm_block jbb k) i = Some (32 * k + set_positions bm ! i, jps ! i)"
    using assms(3) b(1) i by (simp del: length_zip)
  moreover have "jps \<noteq> []" using i(1) by auto
  ultimately show ?thesis
    using b(3) i(1) JU_BITMAPDIGITB_nth [OF i(2), of k] by (simp add: goto_jbb_def)
qed

lemma goto_jbb_limit:
  assumes "bm_shape 8 jbb" "k < 8" "bm_block jbb k \<noteq> []"
  shows "goto_jbb pindex s jbb k (jbb_limit dir (jbb_bitmap jbb k)) = sm_goto pindex s (pick dir (bm_block jbb k)) other"
  using assms jbb_sub(3) [OF assms(1,2)]
  by (cases dir) (simp_all add: goto_jbb_eq [where other = other] pick_NEXT pick_PREV SEARCHBITMAPMAXB_eq del: jbb_bitmap.simps)

lemma jbb_sideways_eq:
  assumes "bm_shape 8 jbb" "d < 256" "beyond dir d (bm_block jbb (d div 32)) = []"
  shows "jbb_sideways dir pindex s jbb (d div 32) hist
    = sm_goto pindex s (pick dir (beyond dir d (concat (map (bm_block jbb) [0..<8])))) (SM2Backtrack pindex hist)"
proof -
  have k: "d div 32 < 8" using assms(2) by simp
  have "scan_from dir (\<lambda>k. bm_block jbb k \<noteq> []) (d div 32) 8 = scan_from dir (jbb_has_jps jbb) (d div 32) 8"
    using k jbb_sub(1) [OF assms(1)] by (intro scan_from_cong) auto
  then have "pick dir (beyond dir d (concat (map (bm_block jbb) [0..<8])))
    = (case scan_from dir (jbb_has_jps jbb) (d div 32) 8 of None \<Rightarrow> None | Some j \<Rightarrow> pick dir (bm_block jbb j))"
    using beyond_blocks [of 32 8 "bm_block jbb" d dir] k assms(3) bm_block_digit [where 'a = 32, of _ jbb] by simp
  then show ?thesis
    using scan_from_Some [of dir "jbb_has_jps jbb" "d div 32" 8] k jbb_sub(1) [OF assms(1)]
      goto_jbb_limit [OF assms(1), where other = "SM2Backtrack pindex hist" and dir = dir]
    by (auto simp: jbb_sideways_def cJU_NUMSUBEXPB_def simp del: jbb_has_jps.simps jbb_bitmap.simps split: option.split)
qed

lemma jbb_bitmap_fst: "bm_shape 8 jbb \<Longrightarrow> k < 8 \<Longrightarrow> jbb_bitmap jbb k = fst (jbb ! k)"
  by (simp add: bm_shape_def case_prod_beta)

lemma block_beyond_B:
  assumes "bm_shape 8 (jbb :: (uint32 \<times> 'v jp list) list)" "d < 256"
  defines "b \<equiv> bm_block jbb (d div 32)" and "bm \<equiv> jbb_bitmap jbb (d div 32)"
  shows "beyond PREV d b = take (bits_below bm (d mod 32)) b"
    and "beyond NEXT d b = drop (bits_below bm (Suc (d mod 32))) b"
    and "bits_below bm (d mod 32) \<le> length b" "bits_below bm (Suc (d mod 32)) \<le> length b"
    and "bit bm (d mod 32) \<Longrightarrow> bits_below bm (d mod 32) < 32"
proof -
  have "jbb_bitmap jbb (d div 32) = fst (jbb ! (d div 32))" using assms(2) by (intro jbb_bitmap_fst assms(1)) simp
  note x = block_beyond [where 'a = 32, OF assms(1), of d, simplified, folded this b_def bm_def]
  show "beyond PREV d b = take (bits_below bm (d mod 32)) b" "beyond NEXT d b = drop (bits_below bm (Suc (d mod 32))) b"
    "bits_below bm (d mod 32) \<le> length b" "bits_below bm (Suc (d mod 32)) \<le> length b"
    using x assms(2) by simp_all
  show "bits_below bm (d mod 32) < 32" if "bit bm (d mod 32)"
    using nth_bits_below(1) [OF that] length_set_positions [of bm] by simp
qed

lemma higher_bits_B:
  assumes "bm_shape 8 jbb" "d < 256"
  shows "jbb_bitmap jbb (d div 32) AND JU_MASKHIGHEREXC (JU_BITPOSMASKB d) \<noteq> 0
    \<longleftrightarrow> bits_below (jbb_bitmap jbb (d div 32)) (Suc (d mod 32)) < length (bm_block jbb (d div 32))"
  using higher_bits [of "d mod 32" "jbb_bitmap jbb (d div 32)"] jbb_sub(3) [OF assms(1), of "d div 32"] assms(2)
  by (simp add: JU_BITPOSMASKB_def cJU_BITSPERSUBEXPB_def del: jbb_bitmap.simps)

text \<open>The pairs beyond a digit, those of its own subexpanse first.\<close>

lemma jbb_beyond:
  assumes "bm_shape 8 (jbb :: (uint32 \<times> 'v jp list) list)" "d < 256" "beyond dir d (bm_block jbb (d div 32)) \<noteq> []"
  shows "pick dir (beyond dir d (concat (map (bm_block jbb) [0..<8]))) = pick dir (beyond dir d (bm_block jbb (d div 32)))"
  using beyond_blocks [of 32 8 "bm_block jbb" d dir] assms bm_block_digit [where 'a = 32, of _ jbb] by simp

lemma jbb_beyond_PREV:
  assumes "bm_shape 8 jbb" "d < 256"
  defines "n \<equiv> bits_below (jbb_bitmap jbb (d div 32)) (d mod 32)"
  shows "(if n > 0 then goto_jbb pindex s jbb (d div 32) (n - 1) else jbb_sideways PREV pindex s jbb (d div 32) hist)
    = sm_goto pindex s (pick PREV (beyond PREV d (concat (map (bm_block jbb) [0..<8])))) (SM2Backtrack pindex hist)"
proof (cases "n > 0")
  case True
  note b = block_beyond_B [OF assms(1,2), folded n_def]
  have k: "d div 32 < 8" using assms(2) by simp
  have ne: "beyond PREV d (bm_block jbb (d div 32)) \<noteq> []" unfolding b(1) using True b(3) by auto
  have i: "n - 1 < length (bm_block jbb (d div 32))" using True b(3) by simp
  show ?thesis
    unfolding jbb_beyond [OF assms(1,2) ne] b(1) pick_take [OF b(3)]
      goto_jbb_eq [OF assms(1) k i, where other = "SM2Backtrack pindex hist"] using True by simp
next
  case False
  note b = block_beyond_B [OF assms(1,2), folded n_def]
  have "beyond PREV d (bm_block jbb (d div 32)) = []" unfolding b(1) using False by simp
  from jbb_sideways_eq [OF assms(1,2) this] False show ?thesis by simp
qed

lemma jbb_beyond_NEXT:
  assumes "bm_shape 8 jbb" "d < 256"
  shows "(if jbb_bitmap jbb (d div 32) AND JU_MASKHIGHEREXC (JU_BITPOSMASKB d) \<noteq> 0
      then goto_jbb pindex s jbb (d div 32) (bits_below (jbb_bitmap jbb (d div 32)) (Suc (d mod 32)))
      else jbb_sideways NEXT pindex s jbb (d div 32) hist)
    = sm_goto pindex s (pick NEXT (beyond NEXT d (concat (map (bm_block jbb) [0..<8])))) (SM2Backtrack pindex hist)"
proof (cases "jbb_bitmap jbb (d div 32) AND JU_MASKHIGHEREXC (JU_BITPOSMASKB d) \<noteq> 0")
  case True
  note b = block_beyond_B [OF assms(1,2)]
  note i = higher_bits_B [OF assms(1,2), THEN iffD1, OF True]
  have k: "d div 32 < 8" using assms(2) by simp
  have ne: "beyond NEXT d (bm_block jbb (d div 32)) \<noteq> []" unfolding b(2) using i by simp
  show ?thesis
    unfolding jbb_beyond [OF assms(1,2) ne] b(2) pick_drop
      goto_jbb_eq [OF assms(1) k i, where other = "SM2Backtrack pindex hist"] if_P [OF True] ..
next
  case False
  note b = block_beyond_B [OF assms(1,2)]
  have "\<not> bits_below (jbb_bitmap jbb (d div 32)) (Suc (d mod 32)) < length (bm_block jbb (d div 32))"
    using False unfolding higher_bits_B [OF assms(1,2)] .
  then have "beyond NEXT d (bm_block jbb (d div 32)) = []" unfolding b(2) by simp
  from jbb_sideways_eq [OF assms(1,2) this] show ?thesis unfolding if_not_P [OF False] .
qed

lemma sm2_branch_b_eq:
  assumes "bm_shape 8 jbb" "d < 256" "bit (jbb_bitmap jbb (d div 32)) (d mod 32)"
  shows "sm2_branch_b dir pindex s jbb (hist_offset dir (JPBRANCH_B s' dcd jbb) d) hist
    = sm_goto pindex s (pick dir (beyond dir d (concat (map (bm_block jbb) [0..<8])))) (SM2Backtrack pindex hist)"
proof -
  have k: "d div 32 < 8" using assms(2) by simp
  have n: "bits_below (jbb_bitmap jbb (d div 32)) (d mod 32) < 32"
    by (rule block_beyond_B(5) [OF assms])
  have Suc: "bits_below (jbb_bitmap jbb (d div 32)) (d mod 32) + 1 = bits_below (jbb_bitmap jbb (d div 32)) (Suc (d mod 32))"
    using assms(3) by (simp add: bits_below_Suc)
  show ?thesis
  proof (cases dir)
    case PREV
    show ?thesis
      unfolding PREV jbb_beyond_PREV [OF assms(1,2), symmetric] sm2_branch_b_def hist_offset.simps hist_pack(1) [OF k n]
      by (simp del: jbb_bitmap.simps)
  next
    case NEXT
    show ?thesis
      unfolding NEXT jbb_beyond_NEXT [OF assms(1,2), symmetric] sm2_branch_b_def hist_offset.simps hist_pack(2) [OF k n]
      using Suc by (simp del: jbb_bitmap.simps)
  qed
qed

lemma map_of_bm_blocks:
  assumes "bm_shape 8 jbb" "d < 256"
  shows "map_of (concat (map (bm_block jbb) [0..<8])) d
    = (if bit (jbb_bitmap jbb (d div 32)) (d mod 32)
       then Some (snd (jbb ! (d div 32)) ! bits_below (jbb_bitmap jbb (d div 32)) (d mod 32)) else None)"
proof -
  have len: "length jbb = 8" "\<And>bm xs. (bm, xs) \<in> set jbb \<Longrightarrow> length xs = length (set_positions bm)"
    using assms(1) by (auto simp: bm_shape_def)
  have k: "d div 32 < 8" using assms(2) by simp
  obtain bm xs where x: "jbb ! (d div 32) = (bm, xs)" by (cases "jbb ! (d div 32)")
  then have n: "nth_opt jbb (d div 32) = Some (bm, xs)" using len(1) k by simp
  have "map_of (concat (map (bm_block jbb) [0..<8])) d
    = (if bit bm (d mod 32) then Some (xs ! bits_below bm (d mod 32)) else None)"
    using map_of_position_blocks [where subs = jbb and d = d, OF len(2)] len(1) assms(2) bm_pairs [of jbb] x by simp
  then show ?thesis using x n by simp
qed

lemma sm1_branch_b_eq:
  fixes pindex :: word_t and s :: nat
  assumes "bm_shape 8 jbb"
  defines "d \<equiv> unat (JU_DIGITATSTATE pindex s)" and "cs \<equiv> concat (map (bm_block jbb) [0..<8])"
  shows "sm1_branch_b dir pindex jp s jbb hist =
    (case map_of cs d of
       Some c \<Rightarrow> HISTPUSH jp (hist_offset dir (JPBRANCH_B s' dcd jbb) d) hist (\<lambda>hist. SM1Get c pindex hist)
     | None \<Rightarrow> sm_goto pindex s (pick dir (beyond dir d cs)) (SM2Backtrack pindex hist))"
proof -
  have d: "d < 256" unfolding d_def by (rule unat_byte_less)
  have k: "d div 32 < 8" using d by simp
  define bm where "bm = jbb_bitmap jbb (d div 32)"
  note m = map_of_bm_blocks [OF assms(1) d, folded bm_def cs_def]
  have so: "SEARCHBITMAPB bm d (JU_BITPOSMASKB d) = int (bits_below bm (d mod 32)) + of_bool (bit bm (d mod 32)) - 1"
    unfolding SEARCHBITMAPB_eq bits_below_Suc by simp
  obtain bm' jps where x: "jbb ! (d div 32) = (bm', jps)" by (cases "jbb ! (d div 32)")
  note b = bm_block_sub [OF assms(1) k x]
  have bm': "bm' = bm" using b(3) by (simp add: bm_def)
  show ?thesis
  proof (cases "bit bm (d mod 32)")
    case True
    have "bits_below bm (d mod 32) < length jps" using nth_bits_below(1) [OF True] b(2) by (simp add: bm')
    then have "jps \<noteq> []" "nth_opt jps (bits_below bm (d mod 32)) = Some (jps ! bits_below bm (d mod 32))" by auto
    then show ?thesis
      using True m so b(3) x
      unfolding sm1_branch_b_def Let_def cJU_BITSPERSUBEXPB_def d_def [symmetric] bm_def [symmetric]
      by (simp add: test_bit_B bm')
  next
    case False
    have mo: "map_of cs d = None" using m False by simp
    show ?thesis
    proof (cases dir)
      case PREV
      have "nat (SEARCHBITMAPB bm d (JU_BITPOSMASKB d)) = bits_below bm (d mod 32) - 1"
        "SEARCHBITMAPB bm d (JU_BITPOSMASKB d) \<ge> 0 \<longleftrightarrow> bits_below bm (d mod 32) > 0"
        unfolding so using False by auto
      then show ?thesis
        unfolding PREV cs_def mo [unfolded cs_def] option.case jbb_beyond_PREV [OF assms(1) d, symmetric]
          sm1_branch_b_def Let_def cJU_BITSPERSUBEXPB_def d_def [symmetric] bm_def [symmetric]
        using False by (simp add: test_bit_B)
    next
      case NEXT
      have "nat (SEARCHBITMAPB bm d (JU_BITPOSMASKB d) + 1) = bits_below bm (Suc (d mod 32))"
        unfolding so bits_below_Suc using False by simp
      then show ?thesis
        unfolding NEXT cs_def mo [unfolded cs_def] option.case jbb_beyond_NEXT [OF assms(1) d, symmetric]
          sm1_branch_b_def Let_def cJU_BITSPERSUBEXPB_def d_def [symmetric] bm_def [symmetric]
        using False by (simp add: test_bit_B)
    qed
  qed
qed

lemma sm3_branch_b_eq:
  assumes "bm_shape 8 jbb" "2 \<le> s" "s \<le> 8"
  shows "sm3_branch_b dir pindex s dcd jbb
    = sm_goto (sm3_setdcd pindex dcd s) s (pick dir (concat (map (bm_block jbb) [0..<8]))) (SMRet NavCorrupt)"
proof -
  have "scan_all dir (\<lambda>k. bm_block jbb k \<noteq> []) 8 = scan_all dir (\<lambda>k. jbb_bitmap jbb k \<noteq> 0) 8"
    using jbb_sub(2) [OF assms(1)] by (intro scan_all_cong) auto
  then have p: "pick dir (concat (map (bm_block jbb) [0..<8]))
    = (case scan_all dir (\<lambda>k. jbb_bitmap jbb k \<noteq> 0) 8 of None \<Rightarrow> None | Some j \<Rightarrow> pick dir (bm_block jbb j))"
    by (simp only: scan_all_pick)
  have s: "\<not> (s < 2 \<or> 8 < s)" using assms(2,3) by simp
  show ?thesis
  proof (cases "scan_all dir (\<lambda>k. jbb_bitmap jbb k \<noteq> 0) 8")
    case None
    then show ?thesis using s p by (simp add: sm3_branch_b_def cJU_NUMSUBEXPB_def del: jbb_bitmap.simps)
  next
    case (Some k)
    then have k: "k < 8" "bm_block jbb k \<noteq> []"
      using scan_all_Some [OF Some] jbb_sub(2) [OF assms(1)] by auto
    show ?thesis
      unfolding sm3_branch_b_def if_not_P [OF s] Let_def cJU_NUMSUBEXPB_def p Some option.case
      by (rule goto_jbb_limit [OF assms(1) k])
  qed
qed

section \<open>All branches alike\<close>

definition branch_ok :: "'v jp \<Rightarrow> nat \<Rightarrow> dcdpop0 \<Rightarrow> bool" where
  "branch_ok jp s dcd \<longleftrightarrow> jp_branch jp = Some (s, dcd) \<and> 2 \<le> s \<and> s \<le> 8 \<and> jp_shape jp
     \<and> (jp_is_u jp \<or> (\<forall>x\<in>set (jp_children jp). \<not> jp_is_null (snd x)))"

lemma branch_ok_cases [consumes 1]:
  assumes "branch_ok jp s dcd"
  obtains (L) jbl where "jp = JPBRANCH_L s dcd jbl" "live jp = jbl_pairs jbl" "sorted_wrt (<) (map fst jbl)"
      "jbl \<noteq> []" "length jbl \<le> 7"
    | (B) jbb where "jp = JPBRANCH_B s dcd jbb" "live jp = concat (map (bm_block jbb) [0..<8])" "bm_shape 8 jbb"
    | (U) jbu where "jp = JPBRANCH_U s dcd jbu" "live jp = concat (map (jbu_block jbu) [0..<256])" "length jbu = 256"
proof (cases jp)
  case (JPBRANCH_L s' dcd' jbl)
  then have "live jp = jp_children jp"
    using assms unfolding branch_ok_def live_def by (intro filter_const_True) auto
  moreover have "jbl \<noteq> []" using assms JPBRANCH_L by (auto simp: branch_ok_def)
  ultimately show ?thesis using L assms JPBRANCH_L by (auto simp: branch_ok_def jbl_pairs_def)
next
  case (JPBRANCH_B s' dcd' jbb)
  have "live jp = jp_children jp"
    using assms JPBRANCH_B unfolding branch_ok_def live_def by (intro filter_const_True) auto
  moreover have "length jbb = 8" using assms JPBRANCH_B by (simp add: branch_ok_def cJU_NUMSUBEXPB_def)
  ultimately have "live jp = concat (map (bm_block jbb) [0..<8])" using bm_pairs [of jbb] JPBRANCH_B by simp
  then show ?thesis using B assms JPBRANCH_B \<open>length jbb = 8\<close> by (auto simp: branch_ok_def bm_shape_def)
next
  case (JPBRANCH_U s' dcd' jbu)
  then have "length jbu = 256" using assms by (simp add: branch_ok_def)
  moreover have "live jp = concat (map (jbu_block jbu) [0..<length jbu])"
    using JPBRANCH_U jbu_pairs [of jbu] by (simp add: live_def)
  ultimately show ?thesis using U assms JPBRANCH_U by (auto simp: branch_ok_def)
qed (use assms in \<open>auto simp: branch_ok_def\<close>)

lemma live_sorted:
  assumes "branch_ok jp s dcd"
  shows "sorted_wrt (<) (map fst (live jp))" "x \<in> set (live jp) \<Longrightarrow> fst x < 256"
proof -
  have c: "sorted_wrt (<) (map fst (jp_children jp)) \<and> (\<forall>d\<in>fst ` set (jp_children jp). d < 256)"
    using assms by (intro jp_children_sorted) (simp add: branch_ok_def)
  then show "sorted_wrt (<) (map fst (live jp))"
    unfolding live_def sorted_wrt_map by (intro sorted_wrt_filter) simp
  show "x \<in> set (live jp) \<Longrightarrow> fst x < 256" using c by (auto simp: live_def)
qed

lemma sm3_branch:
  assumes "branch_ok jp s dcd"
  shows "sm3_step dir jp pindex = sm_goto (sm3_setdcd pindex dcd s) s (pick dir (live jp)) (SMRet NavCorrupt)"
proof -
  have s: "2 \<le> s" "s \<le> 8" using assms by (simp_all add: branch_ok_def)
  show ?thesis
    using assms
  proof (cases rule: branch_ok_cases)
    case (L jbl)
    then show ?thesis using s by (simp add: sm3_branch_l_eq)
  next
    case (B jbb)
    then show ?thesis using s by (simp add: sm3_branch_b_eq)
  next
    case (U jbu)
    then show ?thesis using s by (simp add: sm3_branch_u_eq)
  qed
qed

lemma map_of_jbu_blocks:
  assumes "length jbu = 256" "d < 256"
  shows "map_of (concat (map (jbu_block jbu) [0..<256])) d = (if jbu_has_jp jbu d then Some (jbu ! d) else None)"
proof -
  have "map_of (concat (map (jbu_block jbu) [0..<n])) d = (if d < n \<and> jbu_has_jp jbu d then Some (jbu ! d) else None)" for n
    by (induction n) (auto simp: jbu_block_def map_add_def simp del: jbu_has_jp.simps split: option.split)
  from this [of 256] assms(2) show ?thesis by simp
qed

lemma sm1_branch_u_eq:
  fixes pindex :: word_t and s :: nat
  assumes "length jbu = 256"
  defines "d \<equiv> unat (JU_DIGITATSTATE pindex s)" and "cs \<equiv> concat (map (jbu_block jbu) [0..<256])"
  shows "sm1_branch_u dir pindex jp s jbu hist =
    (case map_of cs d of
       Some c \<Rightarrow> HISTPUSH jp (hist_offset dir (JPBRANCH_U s' dcd jbu) d) hist (\<lambda>hist. SM1Get c pindex hist)
     | None \<Rightarrow> sm_goto pindex s (pick dir (beyond dir d cs)) (SM2Backtrack pindex hist))"
proof -
  have d: "d < 256" unfolding d_def by (rule unat_byte_less)
  then have n: "nth_opt jbu d = Some (jbu ! d)" using assms(1) by simp
  have m: "map_of cs d = (if jbu_has_jp jbu d then Some (jbu ! d) else None)"
    unfolding cs_def by (rule map_of_jbu_blocks [OF assms(1) d])
  show ?thesis
    unfolding sm1_branch_u_def Let_def d_def [symmetric] n option.case jbu_sideways_eq [OF assms(1) d] cs_def [symmetric] m
    using n by simp
qed

lemma sm2_branch:
  assumes "branch_ok jp s dcd" "(d, c) \<in> set (live jp)"
  shows "sm2_step dir pindex ((jp, hist_offset dir jp d) # hist)
    = sm_goto pindex s (pick dir (beyond dir d (live jp))) (SM2Backtrack pindex hist)"
proof -
  have s: "2 \<le> s" "s \<le> 8" using assms(1) by (simp_all add: branch_ok_def)
  have d: "d < 256" using live_sorted(2) [OF assms] by simp
  have "distinct (map fst (live jp))" using live_sorted(1) [OF assms(1)] by (simp add: strict_sorted_iff)
  then have m: "map_of (live jp) d = Some c" using assms(2) by (simp add: map_of_is_SomeI)
  show ?thesis using assms(1)
  proof (cases rule: branch_ok_cases)
    case (L jbl)
    have "d \<in> fst ` set (jbl_pairs jbl)" using assms(2) L(2) by force
    from sm2_branch_l_eq [OF L(3) d this] show ?thesis using L s by simp
  next
    case (B jbb)
    have "bit (jbb_bitmap jbb (d div 32)) (d mod 32)"
      using m map_of_bm_blocks [OF B(3) d] B(2) by (auto split: if_splits simp del: jbb_bitmap.simps)
    from sm2_branch_b_eq [OF B(3) d this] show ?thesis
      unfolding B(1,2) [symmetric] using s by (simp add: B(1) del: hist_offset.simps)
  next
    case (U jbu)
    then show ?thesis using s jbu_sideways_eq [OF U(3) d] by simp
  qed
qed

lemma sm1_branch:
  fixes pindex :: word_t and s :: nat
  assumes "branch_ok jp s dcd"
  defines "d \<equiv> unat (JU_DIGITATSTATE pindex s)"
  shows "sm1_step dir jp pindex hist = sm1_checkdcd dir pindex jp dcd s hist
    (case map_of (live jp) d of
       Some c \<Rightarrow> HISTPUSH jp (hist_offset dir jp d) hist (\<lambda>hist. SM1Get c pindex hist)
     | None \<Rightarrow> sm_goto pindex s (pick dir (beyond dir d (live jp))) (SM2Backtrack pindex hist))"
  using assms(1)
proof (cases rule: branch_ok_cases)
  case (L jbl)
  show ?thesis
    unfolding L(1) sm1_step.simps Let_def sm1_branch_l_eq [OF L(3,5), where dcd = dcd] d_def [symmetric]
    unfolding L(1) [symmetric] L(2) ..
next
  case (B jbb)
  show ?thesis
    unfolding B(1) sm1_step.simps Let_def sm1_branch_b_eq [OF B(3), where dcd = dcd and s' = s] d_def [symmetric]
    unfolding B(1) [symmetric] B(2) ..
next
  case (U jbu)
  show ?thesis
    unfolding U(1) sm1_step.simps Let_def sm1_branch_u_eq [OF U(3), where dcd = dcd and s' = s] d_def [symmetric]
    unfolding U(1) [symmetric] U(2) ..
qed

end
