(* ===== verification/IndexMap.thy ===== *)
theory IndexMap
  imports JudyPrevNext
begin

text \<open>
  The interface of an array of values over machine words as its clients see it: what the lookup and
  the four navigation functions of \<open>Judy.h\<close> (\<open>JLG\<close>, \<open>JLF\<close>, \<open>JLN\<close>, \<open>JLL\<close>, \<open>JLP\<close>) promise of the pairs the
  array holds and what the slot that \<open>JLI\<close> returns lets a client do, and what follows for a client that walks
  the array or stores into it.
\<close>

section \<open>Navigation results\<close>

definition nav_of :: "(nat \<times> 'v) option \<Rightarrow> 'v nav" where
  "nav_of r = (case r of None \<Rightarrow> NavNone | Some (k, v) \<Rightarrow> NavFound (word_of_nat k) v)"

lemma nav_of_simps [simp]: "nav_of None = NavNone" "nav_of (Some (k, v)) = NavFound (word_of_nat k) v"
  by (simp_all add: nav_of_def)

text \<open>
  The loop of the clients, \<open>for (v = first(i); v; v = next(i))\<close>: the indexes and values it visits, or none
  when the fuel runs out or a call reports an error.
\<close>

fun traverse :: "(word_t \<Rightarrow> 'v nav) \<Rightarrow> nat \<Rightarrow> 'v nav \<Rightarrow> (word_t \<times> 'v) list option" where
  "traverse step 0 r = None"
| "traverse step (Suc n) r =
     (case r of
        NavFound i v \<Rightarrow> map_option (\<lambda>rest. (i, v) # rest) (traverse step n (step i))
      | NavNone \<Rightarrow> Some []
      | _ \<Rightarrow> None)"

definition word_pairs :: "(nat \<times> 'v) list \<Rightarrow> (word_t \<times> 'v) list" where
  "word_pairs es = map (\<lambda>(k, v). (word_of_nat k, v)) es"

lemma word_pairs_simps [simp]: "word_pairs [] = []" "word_pairs (x # es) = (word_of_nat (fst x), snd x) # word_pairs es"
  by (simp_all add: word_pairs_def case_prod_beta)

lemma find_append: "find P (xs @ ys) = (case find P xs of None \<Rightarrow> find P ys | Some x \<Rightarrow> Some x)"
  by (induction xs) auto

lemma find_none: "(\<And>x. x \<in> set xs \<Longrightarrow> \<not> P x) \<Longrightarrow> find P xs = None"
  by (simp add: find_None_iff)

lemma find_hd: "(\<And>x. x \<in> set xs \<Longrightarrow> P x) \<Longrightarrow> find P xs = (case xs of [] \<Rightarrow> None | x # _ \<Rightarrow> Some x)"
  by (cases xs) simp_all

lemma unat_small: "k < 2 ^ 64 \<Longrightarrow> unat (word_of_nat k :: word_t) = k"
  by (simp only: unat_of_nat) (simp add: take_bit_nat_eq_self)

section \<open>Lookup\<close>

locale index_map =
  fixes ok :: "'m \<Rightarrow> bool"
    and pairs :: "'m \<Rightarrow> (nat \<times> 'v) list"
    and get :: "'m \<Rightarrow> word_t \<Rightarrow> 'v judy_ret"
  assumes pairs_sorted: "ok m \<Longrightarrow> sorted_wrt (<) (map fst (pairs m)) \<and> (\<forall>k\<in>fst ` set (pairs m). k < 2 ^ 64)"
    and get_pairs: "ok m \<Longrightarrow> get m i = get_result (map_of (pairs m) (unat i))"
begin

lemma pairs_less: "ok m \<Longrightarrow> x \<in> set (pairs m) \<Longrightarrow> fst x < 2 ^ 64"
  using pairs_sorted by blast

lemma get_mem: "ok m \<Longrightarrow> get m i = Found v \<longleftrightarrow> (unat i, v) \<in> set (pairs m)"
proof -
  assume ok: "ok m"
  have "distinct (map fst (pairs m))" using pairs_sorted [OF ok] by (simp add: strict_sorted_iff)
  from map_of_eq_Some_iff [OF this, of "unat i" v] show ?thesis
    unfolding get_pairs [OF ok] get_result_def by (cases "map_of (pairs m) (unat i)") simp_all
qed

lemma get_total: "ok m \<Longrightarrow> get m i = NotFound \<or> (\<exists>v. get m i = Found v)"
  by (auto simp: get_pairs get_result_def split: option.splits)

end

section \<open>Navigation\<close>

locale ordered_index_map = index_map ok pairs get
  for ok :: "'m \<Rightarrow> bool" and pairs :: "'m \<Rightarrow> (nat \<times> 'v) list" and get :: "'m \<Rightarrow> word_t \<Rightarrow> 'v judy_ret" +
  fixes first :: "'m \<Rightarrow> word_t option \<Rightarrow> 'v nav"
    and "next" :: "'m \<Rightarrow> word_t option \<Rightarrow> 'v nav"
    and last :: "'m \<Rightarrow> word_t option \<Rightarrow> 'v nav"
    and prev :: "'m \<Rightarrow> word_t option \<Rightarrow> 'v nav"
  assumes first_pairs: "ok m \<Longrightarrow> first m (Some i) = nav_of (find (\<lambda>(k, v). unat i \<le> k) (pairs m))"
    and next_pairs: "ok m \<Longrightarrow> next m (Some i) = nav_of (find (\<lambda>(k, v). unat i < k) (pairs m))"
    and last_pairs: "ok m \<Longrightarrow> last m (Some i) = nav_of (find (\<lambda>(k, v). k \<le> unat i) (rev (pairs m)))"
    and prev_pairs: "ok m \<Longrightarrow> prev m (Some i) = nav_of (find (\<lambda>(k, v). k < unat i) (rev (pairs m)))"
begin

lemma next_at:
  assumes "ok m" "pairs m = xs @ (k, v) # ys"
  shows "next m (Some (word_of_nat k)) = nav_of (case ys of [] \<Rightarrow> None | y # _ \<Rightarrow> Some y)"
    and "prev m (Some (word_of_nat k)) = nav_of (case rev xs of [] \<Rightarrow> None | x # _ \<Rightarrow> Some x)"
proof -
  have k: "unat (word_of_nat k :: word_t) = k" using pairs_less [OF assms(1), of "(k, v)"] assms(2) by (intro unat_small) simp
  have xs: "fst x < k" if "x \<in> set xs" for x using pairs_sorted [OF assms(1)] assms(2) that by (auto simp: sorted_wrt_append)
  have ys: "k < fst y" if "y \<in> set ys" for y using pairs_sorted [OF assms(1)] assms(2) that by (auto simp: sorted_wrt_append)
  have "find (\<lambda>(k', v). k < k') xs = None" using xs by (intro find_none) fastforce
  moreover have "find (\<lambda>(k', v). k < k') ys = (case ys of [] \<Rightarrow> None | y # _ \<Rightarrow> Some y)" using ys by (intro find_hd) auto
  ultimately show "next m (Some (word_of_nat k)) = nav_of (case ys of [] \<Rightarrow> None | y # _ \<Rightarrow> Some y)"
    by (simp add: next_pairs [OF assms(1)] assms(2) find_append k)
  have "find (\<lambda>(k', v). k' < k) (rev ys) = None" using ys by (intro find_none) fastforce
  moreover have "find (\<lambda>(k', v). k' < k) (rev xs) = (case rev xs of [] \<Rightarrow> None | x # _ \<Rightarrow> Some x)" using xs by (intro find_hd) auto
  ultimately show "prev m (Some (word_of_nat k)) = nav_of (case rev xs of [] \<Rightarrow> None | x # _ \<Rightarrow> Some x)"
    by (simp add: prev_pairs [OF assms(1)] assms(2) find_append k)
qed

lemma traverse_next:
  "ok m \<Longrightarrow> pairs m = xs @ ys \<Longrightarrow>
   traverse (\<lambda>i. next m (Some i)) (Suc (length ys)) (nav_of (case ys of [] \<Rightarrow> None | y # _ \<Rightarrow> Some y)) = Some (word_pairs ys)"
proof (induction ys arbitrary: xs)
  case (Cons y ys)
  then show ?case using Cons.IH [of "xs @ [y]"] next_at(1) [of m xs "fst y" "snd y" ys]
    by (cases y) (simp del: traverse.simps(1))
qed simp

lemma traverse_prev:
  "ok m \<Longrightarrow> pairs m = xs @ ys \<Longrightarrow>
   traverse (\<lambda>i. prev m (Some i)) (Suc (length xs)) (nav_of (case rev xs of [] \<Rightarrow> None | x # _ \<Rightarrow> Some x))
     = Some (word_pairs (rev xs))"
proof (induction xs arbitrary: ys rule: rev_induct)
  case (snoc x xs)
  then show ?case using snoc.IH [of "x # ys"] next_at(2) [of m xs "fst x" "snd x" ys]
    by (cases x) (simp del: traverse.simps(1))
qed simp

text \<open>The loops from the first pair on and from the last pair down visit every pair once, and end.\<close>

lemma traverse_first:
  assumes "ok m"
  shows "traverse (\<lambda>i. next m (Some i)) (Suc (length (pairs m))) (first m (Some 0)) = Some (word_pairs (pairs m))"
  using traverse_next [OF assms, of "[]"] by (simp add: first_pairs [OF assms] find_hd case_prod_beta)

lemma traverse_last:
  assumes "ok m"
  shows "traverse (\<lambda>i. prev m (Some i)) (Suc (length (pairs m))) (last m (Some (- 1))) = Some (word_pairs (rev (pairs m)))"
proof -
  have "find (\<lambda>(k, v). k \<le> unat (- 1 :: word_t)) (rev (pairs m)) = (case rev (pairs m) of [] \<Rightarrow> None | x # _ \<Rightarrow> Some x)"
    using pairs_less [OF assms] by (intro find_hd) (fastforce simp: unsigned_minus_1_eq_mask mask_eq_exp_minus_1)
  then show ?thesis using traverse_prev [OF assms, of "pairs m" "[]"] by (simp add: last_pairs [OF assms])
qed

end

section \<open>Stores\<close>

definition slot_value :: "'v \<Rightarrow> 'v option \<Rightarrow> 'v" where
  "slot_value zero r = (case r of None \<Rightarrow> zero | Some v \<Rightarrow> v)"

lemma slot_value_simps [simp]: "slot_value zero None = zero" "slot_value zero (Some v) = v"
  by (simp_all add: slot_value_def)

text \<open>A client that stores a list of pairs one after the other.\<close>

fun put_all :: "('v \<Rightarrow> ('v \<Rightarrow> 'v) \<Rightarrow> 'm \<Rightarrow> word_t \<Rightarrow> ('m \<times> 'v) option) \<Rightarrow> 'v \<Rightarrow> 'm \<Rightarrow> (word_t \<times> 'v) list \<Rightarrow> 'm option" where
  "put_all put zero m [] = Some m"
| "put_all put zero m ((i, v) # kvs) =
     (case put zero (\<lambda>_. v) m i of None \<Rightarrow> None | Some (m', _) \<Rightarrow> put_all put zero m' kvs)"

text \<open>
  The slot of an index as \<open>JLI\<close> hands it to a client, which stores through it: the array with the slot stored,
  and the value that the slot held before, \<open>zero\<close> for a new one.
\<close>

locale index_store = index_map ok pairs get
  for ok :: "'m \<Rightarrow> bool" and pairs :: "'m \<Rightarrow> (nat \<times> 'v) list" and get :: "'m \<Rightarrow> word_t \<Rightarrow> 'v judy_ret" +
  fixes put :: "'v \<Rightarrow> ('v \<Rightarrow> 'v) \<Rightarrow> 'm \<Rightarrow> word_t \<Rightarrow> ('m \<times> 'v) option"
  assumes put_pairs: "ok m \<Longrightarrow> \<exists>m'. put zero store m i = Some (m', slot_value zero (map_of (pairs m) (unat i))) \<and> ok m' \<and>
      map_of (pairs m') = (map_of (pairs m))(unat i \<mapsto> store (slot_value zero (map_of (pairs m) (unat i))))"
begin

lemma get_put:
  assumes "ok m" "put zero store m i = Some (m', v)"
  shows "get m' i = Found (store v)" "j \<noteq> i \<Longrightarrow> get m' j = get m j" "ok m'"
proof -
  have p: "v = slot_value zero (map_of (pairs m) (unat i))" "ok m'"
    "map_of (pairs m') = (map_of (pairs m))(unat i \<mapsto> store v)"
    using put_pairs [OF assms(1), of zero store i] assms(2) by auto
  show "ok m'" by (rule p(2))
  show "get m' i = Found (store v)" unfolding get_pairs [OF p(2)] p(3) by (simp add: get_result_def)
  show "get m' j = get m j" if "j \<noteq> i"
    unfolding get_pairs [OF p(2)] get_pairs [OF assms(1)] p(3) using that by (simp add: word_unat_eq_iff)
qed

lemma put_all_ok:
  "ok m \<Longrightarrow> \<exists>m'. put_all put zero m kvs = Some m' \<and> ok m' \<and>
     (\<forall>i. get m' i = get_result (case map_of (rev kvs) i of None \<Rightarrow> map_of (pairs m) (unat i) | Some v \<Rightarrow> Some v))"
proof (induction kvs arbitrary: m)
  case (Cons x kvs)
  obtain i v where x: "x = (i, v)" by (cases x)
  obtain m1 where m1: "put zero (\<lambda>_. v) m i = Some (m1, slot_value zero (map_of (pairs m) (unat i)))" "ok m1"
    "map_of (pairs m1) = (map_of (pairs m))(unat i \<mapsto> v)" using put_pairs [OF Cons.prems, of zero "\<lambda>_. v" i] by auto
  obtain m' where m': "put_all put zero m1 kvs = Some m'" "ok m'"
    "\<forall>j. get m' j = get_result (case map_of (rev kvs) j of None \<Rightarrow> map_of (pairs m1) (unat j) | Some v \<Rightarrow> Some v)"
    using Cons.IH [OF m1(2)] by blast
  have "(case map_of (rev kvs) j of None \<Rightarrow> map_of (pairs m1) (unat j) | Some v \<Rightarrow> Some v)
      = (case map_of (rev (x # kvs)) j of None \<Rightarrow> map_of (pairs m) (unat j) | Some v \<Rightarrow> Some v)" for j
    unfolding m1(3) by (cases "map_of (rev kvs) j") (auto simp: x map_add_def word_unat_eq_iff)
  then show ?case using m' m1(1) by (simp add: x)
qed (simp add: get_pairs)

end

end
