(* ===== verification/JudyNeighbours.thy ===== *)
theory JudyNeighbours
  imports JudyNavBranch IndexMap
begin

text \<open>
  What the three machines of \<open>JudyLPrev\<close> and \<open>JudyLNext\<close> find: SM3 the extreme pair below a pointer, SM2
  the first pair beyond the path of the history, SM1 the first pair at or beyond the index.
\<close>

section \<open>The first pair\<close>

definition nav_first :: "(nat \<times> 'v) list \<Rightarrow> 'v nav" where
  "nav_first es = nav_of (nth_opt es 0)"

lemma nav_first_Nil [simp]: "nav_first [] = NavNone"
  by (simp add: nav_first_def nth_opt_def)

lemma nav_first_append: "nav_first (dir_order dir xs @ es) = (if xs = [] then nav_first es else nav_of (pick dir xs))"
  by (cases dir; cases xs rule: rev_cases) (auto simp: nav_first_def pick_PREV pick_NEXT nth_opt_def nth_append)

lemma dir_order_Nil [simp]: "dir_order dir [] = []"
  by (cases dir) simp_all

lemma pick_single: "pick dir [x] = Some x"
  by (cases dir) (simp_all add: pick_def)

lemma pick_NEXT_Cons: "pick NEXT (x # xs) = Some x"
  by (simp add: pick_def)

lemma pick_concat:
  assumes "\<And>x. x \<in> set cs \<Longrightarrow> f x \<noteq> []"
  shows "pick dir (concat (map f cs)) = (case pick dir cs of None \<Rightarrow> None | Some x \<Rightarrow> pick dir (f x))"
proof (cases dir)
  case PREV
  show ?thesis
    unfolding PREV using assms
    by (cases cs rule: rev_cases) (simp_all add: pick_append pick_single)
next
  case NEXT
  show ?thesis
    unfolding NEXT using assms by (cases cs) (simp_all add: pick_append pick_NEXT_Cons)
qed

lemma pick_map: "pick dir (map f xs) = map_option f (pick dir xs)"
  by (cases dir; cases xs rule: rev_cases) (auto simp: pick_PREV pick_NEXT nth_opt_def nth_append)

section \<open>The index inside the expanse of a pointer\<close>

lemma unat_eq_word: "unat w = n \<Longrightarrow> w = word_of_nat n"
  by auto

definition within :: "nat \<Rightarrow> nat \<Rightarrow> word_t \<Rightarrow> bool" where
  "within B s pindex \<longleftrightarrow> 256 ^ s dvd B \<and> B \<le> unat pindex \<and> unat pindex < B + 256 ^ s"

lemma within_div: "within B s pindex \<Longrightarrow> unat pindex div 256 ^ s * 256 ^ s = B"
proof -
  assume w: "within B s pindex"
  then obtain q where q: "B = 256 ^ s * q" by (auto simp: within_def)
  have "unat pindex div 256 ^ s = q"
    using w unfolding within_def q by (intro div_nat_eqI) (simp_all add: algebra_simps)
  then show ?thesis using q by simp
qed

lemma within_setdigit:
  assumes "within B s pindex" "1 \<le> s" "s \<le> 8" "d < 256"
  shows "within (B + d * 256 ^ (s - 1)) (s - 1) (JU_SETDIGIT pindex (word_of_nat d) s)"
proof -
  have "unat (word_of_nat d :: uint8) = d" using assms(4) by (simp only: unat_of_nat) (simp add: take_bit_nat_eq_self)
  then have u: "unat (JU_SETDIGIT pindex (word_of_nat d) s) = B + d * 256 ^ (s - 1) + unat pindex mod 256 ^ (s - 1)"
    using unat_setdigit [OF assms(2,3), of pindex "word_of_nat d"] within_div [OF assms(1)] by simp
  have "(256::nat) ^ (s - 1) dvd 256 ^ s" by (rule le_imp_power_dvd) simp
  then have "256 ^ (s - 1) dvd B" using assms(1) dvd_trans by (auto simp: within_def)
  then show ?thesis unfolding within_def u by simp
qed

lemma within_setdcd:
  assumes "within P l pindex" "l \<le> 7" "dcd_ok l P dcd" "1 \<le> s" "s \<le> l"
  shows "within (jp_base P s dcd) s (sm3_setdcd pindex dcd s)"
proof -
  have P: "256 ^ l dvd P" using assms(1) by (simp add: within_def)
  have B: "256 ^ s dvd jp_base P s dcd" "P \<le> jp_base P s dcd" "jp_base P s dcd + 256 ^ s \<le> P + 256 ^ l"
    using base_in_expanse [OF P assms(3,5)] assms(2) by auto
  have top: "unat pindex div 256 ^ 7 = P div 256 ^ 7"
    using assms(1) by (intro expanse_top [OF P assms(2)]) (simp_all add: within_def)
  show ?thesis
  proof (cases "s \<le> 6")
    case True
    then have "unat (sm3_setdcd pindex dcd s) = jp_base P s dcd + unat pindex mod 256 ^ s"
      using assms(4) unat_setdcd [of s pindex dcd] top by (simp add: sm3_setdcd_def jp_base_def)
    then show ?thesis using B(1) by (simp add: within_def)
  next
    case False
    then have s: "s = 7" "l = 7" using assms(2,5) by simp_all
    then have "jp_base P s dcd = P" using B by simp
    then show ?thesis using assms(1) s by (simp add: sm3_setdcd_def)
  qed
qed

lemma word_of_within: "within B s pindex \<Longrightarrow> 1 \<le> s \<Longrightarrow> s \<le> 8 \<Longrightarrow> pindex = word_of_nat (B + unat (JU_LEASTBYTES pindex s))"
proof -
  assume w: "within B s pindex" "1 \<le> s" "s \<le> 8"
  then have "B + unat (JU_LEASTBYTES pindex s) = unat pindex"
    using offset_is_leastbytes(1) [of s B pindex] unfolding within_def by linarith
  then show ?thesis by simp
qed

lemma set_leaf_bytes_within:
  assumes "within B s pindex" "1 \<le> s" "s \<le> 8" "JU_LEASTBYTES key s = key"
  shows "set_leaf_bytes pindex s key = word_of_nat (B + unat key)"
proof -
  have "unat key = unat key mod 256 ^ s" using unat_leastbytes [OF assms(2,3), of key] assms(4) by simp
  then have less: "unat key < 256 ^ s" by (metis mod_less_divisor zero_less_numeral zero_less_power)
  have "unat (set_leaf_bytes pindex s key) = B + unat key"
  proof (cases "s = 1")
    case True
    have "unat (ucast key :: uint8) = unat key" using less True by (simp add: unsigned_ucast_eq take_bit_nat_eq_self)
    then show ?thesis
      using True unat_setdigit [of 1 pindex "ucast key"] within_div [OF assms(1)]
      by (simp add: set_leaf_bytes_def setdigit1)
  next
    case False
    have "(pindex AND NOT (mask (8 * s))) AND key = 0"
    proof -
      have "key = key AND mask (8 * s)" using assms(4) leastbytesmask [OF assms(2,3)] by (simp add: JU_LEASTBYTES_def)
      then have "(pindex AND NOT (mask (8 * s))) AND key = (pindex AND NOT (mask (8 * s))) AND (key AND mask (8 * s))" by simp
      also have "\<dots> = 0" by (auto simp: bit_eq_iff bit_simps)
      finally show ?thesis .
    qed
    from unat_or_disjoint [OF this] show ?thesis
      using False within_div [OF assms(1)] leastbytesmask [OF assms(2,3)]
      by (simp add: set_leaf_bytes_def unat_and_not_mask power_256)
  qed
  moreover have "word_of_nat (unat (set_leaf_bytes pindex s key)) = set_leaf_bytes pindex s key" by simp
  ultimately show ?thesis by simp
qed

section \<open>The pairs of a branch\<close>

lemma null_entries: "jp_is_null jp \<Longrightarrow> jp_entries P jp = []"
  by (cases jp) auto

lemma entries_nonempty:
  assumes "jp_wf l P jp" "\<not> jp_is_null jp"
  shows "jp_entries P jp \<noteq> []"
proof (cases jp rule: jp_cases_branch)
  case (branch s dcd)
  then show ?thesis using assms(1) jp_wf_branch [OF branch] by blast
next
  case (leaf s dcd keys vals)
  then have "length (jp_entries P jp) > 0" using assms(1) by auto
  then show ?thesis by blast
next
  case (leafb1 dcd subs)
  then have "length (jp_entries P jp) > 0" using assms(1) by auto
  then show ?thesis by blast
next
  case (immed s keys vals)
  then have "length (jp_entries P jp) > 0" using assms(1) by auto
  then show ?thesis by blast
qed (use assms in auto)

definition child_entries :: "nat \<Rightarrow> nat \<Rightarrow> dcdpop0 \<Rightarrow> nat \<times> 'v jp \<Rightarrow> (nat \<times> 'v) list" where
  "child_entries P s dcd x = jp_entries (jp_base P s dcd + fst x * 256 ^ (s - 1)) (snd x)"

lemma live_entries:
  assumes "jp_branch jp = Some (s, dcd)"
  shows "jp_entries P jp = concat (map (child_entries P s dcd) (live jp))"
proof -
  have "concat (map (child_entries P s dcd) cs) = concat (map (child_entries P s dcd) (filter (\<lambda>x. \<not> jp_is_null (snd x)) cs))" for cs
    by (induction cs) (auto simp: child_entries_def null_entries)
  then show ?thesis
    unfolding jp_entries_branch [OF assms] live_def by (simp add: child_entries_def case_prod_beta cong: map_cong)
qed

text \<open>A well-formed pointer in its place: level, expanse, alignment and end of the address range.\<close>

definition placed :: "nat \<Rightarrow> nat \<Rightarrow> 'v jp \<Rightarrow> bool" where
  "placed l P jp \<longleftrightarrow> jp_wf l P jp \<and> 256 ^ l dvd P \<and> \<not> jp_is_null jp"

lemma placed_branch:
  assumes "placed l P jp" "jp_branch jp = Some (s, dcd)"
  shows "branch_ok jp s dcd" "2 \<le> s" "s \<le> 8" "s \<le> l" "l \<le> 7 \<or> s = 8 \<and> l = 8" "live jp \<noteq> []"
    and "within P l pindex \<Longrightarrow> within (jp_base P s dcd) s (sm3_setdcd pindex dcd s)"
    and "x \<in> set (live jp) \<Longrightarrow> placed (s - 1) (jp_base P s dcd + fst x * 256 ^ (s - 1)) (snd x)"
    and "x \<in> set (live jp) \<Longrightarrow> size (snd x) < size jp"
    and "x \<in> set (live jp) \<Longrightarrow> child_entries P s dcd x \<noteq> []"
proof -
  have wf: "jp_wf l P jp" "256 ^ l dvd P" using assms(1) by (simp_all add: placed_def)
  note b = branch_bounds [OF assms(2) wf]
  show s: "2 \<le> s" "s \<le> l" "s \<le> 8" "l \<le> 7 \<or> s = 8 \<and> l = 8" using b(1,2,3) by auto
  show ok: "branch_ok jp s dcd"
    using jp_wf_branch [OF assms(2), of l P] wf(1) assms(2) s(3) by (auto simp: branch_ok_def)
  show "within (jp_base P s dcd) s (sm3_setdcd pindex dcd s)" if w: "within P l pindex"
  proof (cases "l \<le> 7")
    case True
    have "dcd_ok l P dcd" using jp_wf_branch [OF assms(2), of l P] wf(1) by blast
    with w True show ?thesis by (rule within_setdcd) (use s in auto)
  next
    case False
    then have l: "s = 8" "l = 8" using s(4) by auto
    then have "jp_base P s dcd = P" using b(5,6) by simp
    then show ?thesis using w l by (simp add: sm3_setdcd_def)
  qed
  have live: "(fst x, snd x) \<in> set (jp_children jp)" "\<not> jp_is_null (snd x)" if "x \<in> set (live jp)" for x
    using that by (auto simp: live_def)
  show pl: "placed (s - 1) (jp_base P s dcd + fst x * 256 ^ (s - 1)) (snd x)" if "x \<in> set (live jp)" for x
    unfolding placed_def using b(8) [OF live(1) [OF that]] b(9) live(2) [OF that] by simp
  show "size (snd x) < size jp" if "x \<in> set (live jp)" using live(1) [OF that] by (rule size_jp_children)
  show "child_entries P s dcd x \<noteq> []" if "x \<in> set (live jp)"
    unfolding child_entries_def using pl [OF that] entries_nonempty unfolding placed_def by blast
  have "jp_entries P jp \<noteq> []" using jp_wf_branch [OF assms(2), of l P] wf(1) by blast
  then show "live jp \<noteq> []" unfolding live_entries [OF assms(2)] by auto
qed

section \<open>SM3\<close>

lemma sm_run_SMRet [simp]: "sm_run dir (SMRet r) = r"
  by (subst sm_run.simps) simp

lemma sm_run_unfold: "sm_run dir st = sm_run dir (sm_step dir st)"
  by (subst sm_run.simps) (simp split: sm.split)

lemma sm_run_machine:
  "sm_run dir (SM1Get jp pindex hist) = sm_run dir (sm1_step dir jp pindex hist)"
  "sm_run dir (SM2Backtrack pindex hist) = sm_run dir (sm2_step dir pindex hist)"
  "sm_run dir (SM3Findlimit jp pindex) = sm_run dir (sm3_step dir jp pindex)"
  by (subst sm_run_unfold; simp)+

lemma ret_leaf_eq:
  assumes "leaf_keys_ok s keys" "length vals = length keys" "within B s pindex" "1 \<le> s" "s \<le> 8" "i < length keys"
  shows "ret_leaf pindex s keys vals i = nav_of (nth_opt (zip (map (\<lambda>k. B + unat k) keys) vals) i)"
proof -
  have "JU_LEASTBYTES (keys ! i) s = keys ! i" using assms(1,6) by (simp add: leaf_keys_ok_def)
  from set_leaf_bytes_within [OF assms(3-5) this] show ?thesis using assms(2,6) by (simp add: ret_leaf_def)
qed

lemma ret_leaf_pick:
  assumes "leaf_keys_ok s keys" "length vals = length keys" "within B s pindex" "1 \<le> s" "s \<le> 8" "keys \<noteq> []"
  shows "ret_leaf pindex s keys vals (case dir of PREV \<Rightarrow> length keys - 1 | NEXT \<Rightarrow> 0)
    = nav_of (pick dir (zip (map (\<lambda>k. B + unat k) keys) vals))"
proof -
  have i: "0 < length keys" "length keys - 1 < length keys" using assms(6) by auto
  have ne: "zip (map (\<lambda>k. B + unat k) keys) vals \<noteq> []" using assms(2,6) by (cases vals; cases keys) auto
  show ?thesis
    using ret_leaf_eq [OF assms(1-5) i(1)] ret_leaf_eq [OF assms(1-5) i(2)] ne assms(2)
    by (cases dir) (simp_all add: pick_NEXT pick_PREV)
qed

text \<open>The values of a bitmap leaf, in blocks as the pointers of a bitmap branch.\<close>

lemma leafb1_blocks: "length jlb = 4 \<Longrightarrow> leafb1_values jlb = concat (map (bm_block jlb) [0..<4])"
  using bm_pairs [of jlb] by (simp add: leafb1_values_def)

lemma jlb_sub:
  assumes "bm_shape 4 jlb" "k < 4"
  shows "jlb_bitmap jlb k \<noteq> 0 \<longleftrightarrow> bm_block jlb k \<noteq> []"
    and "length (set_positions (jlb_bitmap jlb k)) = length (bm_block jlb k)"
proof -
  obtain bm vs where x: "jlb ! k = (bm, vs)" by (cases "jlb ! k")
  note b = bm_block_sub [OF assms x] and e = block_empty [OF assms x]
  show "jlb_bitmap jlb k \<noteq> 0 \<longleftrightarrow> bm_block jlb k \<noteq> []" "length (set_positions (jlb_bitmap jlb k)) = length (bm_block jlb k)"
    using e b(3) by simp_all
qed

definition b1_ret :: "word_t \<Rightarrow> nat \<times> 'v \<Rightarrow> 'v nav" where
  "b1_ret pindex x = NavFound (JU_SETDIGIT1 pindex (word_of_nat (fst x))) (snd x)"

lemma ret_leaf_b1_eq:
  assumes "bm_shape 4 jlb" "k < 4" "i < length (bm_block jlb k)"
  shows "ret_leaf_b1 pindex jlb k i = b1_ret pindex (bm_block jlb k ! i)"
proof -
  obtain bm vs where x: "jlb ! k = (bm, vs)" by (cases "jlb ! k")
  note b = bm_block_sub [OF assms(1,2) x]
  have i: "i < length vs" "i < length (set_positions bm)" using assms(3) b by simp_all
  have "bm_block jlb k ! i = (64 * k + set_positions bm ! i, vs ! i)" using b(1) i by simp
  then show ?thesis
    using b(3) i(1) JU_BITMAPDIGITL_nth [OF i(2), of k] by (simp add: ret_leaf_b1_def b1_ret_def)
qed

lemma ret_leaf_b1_limit:
  assumes "bm_shape 4 jlb" "k < 4" "pick dir (bm_block jlb k) = Some x"
  shows "ret_leaf_b1 pindex jlb k (jlb_limit dir (jlb_bitmap jlb k)) = b1_ret pindex x"
proof -
  have ne: "bm_block jlb k \<noteq> []" using assms(3) by auto
  then have i: "0 < length (bm_block jlb k)" "length (bm_block jlb k) - 1 < length (bm_block jlb k)" by simp_all
  show ?thesis
    using ret_leaf_b1_eq [OF assms(1,2) i(1)] ret_leaf_b1_eq [OF assms(1,2) i(2)] ne assms(3) jlb_sub(2) [OF assms(1,2)]
    by (cases dir) (auto simp: pick_NEXT pick_PREV SEARCHBITMAPMAXL_eq simp del: jlb_bitmap.simps)
qed

lemma b1_ret_within:
  assumes "within B 1 pindex" "fst x < 256"
  shows "b1_ret pindex x = nav_of (Some (B + fst x, snd x))"
proof -
  have "unat (word_of_nat (fst x) :: uint8) = fst x" using assms(2) by (simp only: unat_of_nat) (simp add: take_bit_nat_eq_self)
  then have "unat (JU_SETDIGIT1 pindex (word_of_nat (fst x))) = B + fst x"
    using unat_setdigit [of 1 pindex "word_of_nat (fst x)"] within_div [OF assms(1)] by (simp add: setdigit1)
  then have "JU_SETDIGIT1 pindex (word_of_nat (fst x)) = word_of_nat (B + fst x)" by (metis unat_eq_word)
  then show ?thesis by (simp add: b1_ret_def)
qed

lemma sm3_leaf_b1_eq:
  assumes "bm_shape 4 jlb"
  shows "sm3_leaf_b1 dir pindex dcd jlb = (case pick dir (leafb1_values jlb) of
    None \<Rightarrow> NavCorrupt | Some x \<Rightarrow> b1_ret (JU_SETDCD pindex dcd 1) x)"
proof -
  have "scan_all dir (\<lambda>k. bm_block jlb k \<noteq> []) 4 = scan_all dir (\<lambda>k. jlb_bitmap jlb k \<noteq> 0) 4"
    using jlb_sub(1) [OF assms] by (intro scan_all_cong) auto
  then have p: "pick dir (leafb1_values jlb)
    = (case scan_all dir (\<lambda>k. jlb_bitmap jlb k \<noteq> 0) 4 of None \<Rightarrow> None | Some j \<Rightarrow> pick dir (bm_block jlb j))"
    using assms by (simp only: leafb1_blocks bm_shape_def scan_all_pick)
  show ?thesis
  proof (cases "scan_all dir (\<lambda>k. jlb_bitmap jlb k \<noteq> 0) 4")
    case None
    then show ?thesis using p by (simp add: sm3_leaf_b1_def cJU_NUMSUBEXPL_def del: jlb_bitmap.simps)
  next
    case (Some k)
    then have k: "k < 4" "bm_block jlb k \<noteq> []" using scan_all_Some [OF Some] jlb_sub(1) [OF assms] by auto
    then obtain x where x: "pick dir (bm_block jlb k) = Some x" using pick_None [of dir "bm_block jlb k"] by auto
    show ?thesis
      unfolding sm3_leaf_b1_def Let_def cJU_NUMSUBEXPL_def p Some option.case x
      by (rule ret_leaf_b1_limit [OF assms k(1) x])
  qed
qed

lemma leafb1_digit:
  assumes "bm_shape 4 jlb" "x \<in> set (leafb1_values jlb)"
  shows "fst x < 256"
  using leafb1_sorted [of jlb] assms by (auto simp: bm_shape_def cJU_NUMSUBEXPL_def)

lemma sm3_leaf_case:
  assumes "jp_wf l P (JPLEAF s dcd keys vals)" "within P l pindex"
  shows "sm3_leaf dir pindex s dcd keys vals = nav_of (pick dir (jp_entries P (JPLEAF s dcd keys vals)))"
proof -
  have w: "1 \<le> s" "s \<le> l" "l \<le> 7" "dcd_ok l P dcd" "leaf_keys_ok s keys" "length vals = length keys"
    "length keys = unat (JU_JPLEAF_POP0 dcd) + 1" using assms(1) by auto
  have i: "(case dir of PREV \<Rightarrow> unat (JU_JPLEAF_POP0 dcd) | NEXT \<Rightarrow> 0) = (case dir of PREV \<Rightarrow> length keys - 1 | NEXT \<Rightarrow> 0)"
    using w(7) by (cases dir) simp_all
  have s: "\<not> (s < 1 \<or> 7 < s)" "s \<le> 8" "keys \<noteq> []" using w by auto
  note B = within_setdcd [OF assms(2) w(3,4,1,2)]
  show ?thesis
    unfolding sm3_leaf_def if_not_P [OF s(1)] Let_def i ret_leaf_pick [OF w(5,6) B w(1) s(2,3)] jp_entries_leaf ..
qed

lemma sm3_leaf_b1_case:
  assumes "jp_wf l P (JPLEAF_B1 dcd jlb)" "within P l pindex"
  shows "sm3_leaf_b1 dir pindex dcd jlb = nav_of (pick dir (jp_entries P (JPLEAF_B1 dcd jlb)))"
proof -
  have w: "1 \<le> l" "l \<le> 7" "dcd_ok l P dcd" "bm_shape 4 jlb" "leafb1_values jlb \<noteq> []"
    using assms(1) by (auto simp: bm_shape_def cJU_NUMSUBEXPL_def)
  have B: "within (jp_base P 1 dcd) 1 (JU_SETDCD pindex dcd 1)"
    using within_setdcd [OF assms(2) w(2,3) _ w(1)] by (simp add: sm3_setdcd_def)
  obtain x where x: "pick dir (leafb1_values jlb) = Some x"
    using w(5) pick_None [of dir "leafb1_values jlb"] by auto
  have "fst x < 256" using leafb1_digit [OF w(4)] pick_mem [OF x] by blast
  from b1_ret_within [OF B this] show ?thesis
    unfolding sm3_leaf_b1_eq [OF w(4)] jp_entries_leaf pick_map x by (simp add: case_prod_beta)
qed

lemma immed_01_base:
  assumes "within P l pindex" "dcd_ok l P dcd" "1 \<le> l" "l \<le> 7"
  shows "JU_SETDIGITS pindex (JU_JPDCDPOP0 dcd) l = word_of_nat (jp_base P 0 dcd)"
proof -
  have P: "256 ^ l dvd P" using assms(1) by (simp add: within_def)
  have B: "P \<le> jp_base P 0 dcd" "jp_base P 0 dcd < P + 256 ^ l"
    using base_in_expanse [OF P assms(2), of 0] assms(4) by auto
  obtain q where q: "P = 256 ^ l * q" using P by (rule dvdE)
  have dvd: "(256::nat) ^ l dvd P div 256 ^ 7 * 256 ^ 7"
    using assms(4) by (intro dvd_mult le_imp_power_dvd) simp
  have "jp_base P 0 dcd mod 256 ^ l = unat dcd mod 256 ^ l"
    using dvd unfolding jp_base_def by (auto elim: dvdE)
  moreover have "jp_base P 0 dcd = P + jp_base P 0 dcd mod 256 ^ l"
  proof -
    have "jp_base P 0 dcd div 256 ^ l = q" using B unfolding q by (intro div_nat_eqI) (simp_all add: algebra_simps)
    then show ?thesis using div_mult_mod_eq [of "jp_base P 0 dcd" "256 ^ l"] q by (simp add: mult.commute)
  qed
  ultimately have "unat (JU_SETDIGITS pindex (JU_JPDCDPOP0 dcd) l) = jp_base P 0 dcd"
    using unat_setdigits [of l pindex "JU_JPDCDPOP0 dcd"] within_div [OF assms(1)] assms(3,4) by (simp add: unat_dcdpop0)
  then show ?thesis by (rule unat_eq_word)
qed

lemma sm3_immed_case:
  assumes "jp_wf l P (JPIMMED s keys vals)" "within P l pindex"
  shows "sm3_immed dir pindex s keys vals = nav_of (pick dir (jp_entries P (JPIMMED s keys vals)))"
proof -
  have w: "s = l" "1 \<le> s" "s \<le> 3" "leaf_keys_ok s keys" "2 \<le> length keys" "length keys \<le> cJL_IMMED_MAXPOP1 s"
    "length vals = length keys" using assms(1) by auto
  have ok: "immed_type_ok s keys" "s \<le> 8" "keys \<noteq> []" using w by (auto simp: immed_type_ok_def)
  note B = assms(2) [folded w(1)]
  show ?thesis
    unfolding sm3_immed_def using ok ret_leaf_pick [OF w(4,7) B w(2) ok(2,3)] by simp
qed

lemma sm3_run:
  "placed l P jp \<Longrightarrow> within P l pindex \<Longrightarrow> sm_run dir (SM3Findlimit jp pindex) = nav_of (pick dir (jp_entries P jp))"
proof (induction "size jp" arbitrary: l P jp pindex rule: less_induct)
  case less
  have wf: "jp_wf l P jp" "\<not> jp_is_null jp" using less.prems(1) by (simp_all add: placed_def)
  show ?case
  proof (cases jp rule: jp_cases_branch)
    case (branch s dcd)
    note b = placed_branch [OF less.prems(1) branch]
    obtain x where x: "pick dir (live jp) = Some x" using b(6) pick_None [of dir "live jp"] by auto
    note mem = pick_mem [OF x]
    have B: "within (jp_base P s dcd + fst x * 256 ^ (s - 1)) (s - 1)
        (JU_SETDIGIT (sm3_setdcd pindex dcd s) (word_of_nat (fst x)) s)"
      using b(2,3) live_sorted(2) [OF b(1) mem] by (intro within_setdigit b(7) less.prems(2)) auto
    have "sm_run dir (SM3Findlimit jp pindex)
      = sm_run dir (SM3Findlimit (snd x) (JU_SETDIGIT (sm3_setdcd pindex dcd s) (word_of_nat (fst x)) s))"
      unfolding sm_run_machine(3) [of _ jp] sm3_branch [OF b(1)] x by (simp add: sm_goto_def case_prod_beta)
    also have "\<dots> = nav_of (pick dir (child_entries P s dcd x))"
      unfolding child_entries_def by (rule less.hyps [OF b(9) [OF mem] b(8) [OF mem] B])
    also have "pick dir (child_entries P s dcd x) = pick dir (jp_entries P jp)"
      unfolding live_entries [OF branch] using pick_concat [of "live jp" "child_entries P s dcd" dir] b(10) x by simp
    finally show ?thesis .
  next
    case (leaf s dcd keys vals)
    show ?thesis using sm3_leaf_case [OF wf(1) [unfolded leaf] less.prems(2)] by (simp add: leaf sm_run_machine)
  next
    case (leafb1 dcd subs)
    show ?thesis using sm3_leaf_b1_case [OF wf(1) [unfolded leafb1] less.prems(2)] by (simp add: leafb1 sm_run_machine)
  next
    case (immed01 s dcd v)
    then have w: "s = l" "1 \<le> l" "l \<le> 7" "dcd_ok l P dcd" using wf(1) by auto
    then show ?thesis
      using immed_01_base [OF less.prems(2) w(4,2,3)] by (simp add: immed01 sm_run_machine sm3_immed_01_def pick_single)
  next
    case (immed s keys vals)
    show ?thesis using sm3_immed_case [OF wf(1) [unfolded immed] less.prems(2)] by (simp add: immed sm_run_machine)
  next
    case (null n)
    then show ?thesis using wf by simp
  next
    case (invalid t)
    then show ?thesis using wf by simp
  qed
qed

section \<open>SM2\<close>

text \<open>
  \<open>hist_at dir pindex l hist es\<close>: the history is the path to a pointer of level \<open>l\<close> above the index, and
  \<open>es\<close> are the pairs beyond that pointer, nearest first.
\<close>

inductive hist_at :: "dir \<Rightarrow> word_t \<Rightarrow> nat \<Rightarrow> 'v hist \<Rightarrow> (nat \<times> 'v) list \<Rightarrow> bool" for dir pindex where
  hist_top: "hist_at dir pindex 8 [] []"
| hist_push: "hist_at dir pindex l hist es \<Longrightarrow> placed l P jp \<Longrightarrow> jp_branch jp = Some (s, dcd) \<Longrightarrow>
     within (jp_base P s dcd) s pindex \<Longrightarrow> (d, c) \<in> set (live jp) \<Longrightarrow>
     hist_at dir pindex (s - 1) ((jp, hist_offset dir jp d) # hist)
       (dir_order dir (concat (map (child_entries P s dcd) (beyond dir d (live jp)))) @ es)"

inductive_cases hist_at_elim: "hist_at dir pindex l hist es"

lemma hist_length: "hist_at dir pindex l hist es \<Longrightarrow> length hist + l \<le> 8"
proof (induction rule: hist_at.induct)
  case (hist_push l hist es P jp s dcd d c)
  then show ?case using placed_branch(2,4) [OF hist_push(2,3)] by simp
qed simp

text \<open>Going on at the next child beyond a digit, or back: the first pair beyond the digit.\<close>

lemma sm_run_goto:
  assumes "placed l P jp" "jp_branch jp = Some (s, dcd)" "within (jp_base P s dcd) s pindex"
    and "sm_run dir (SM2Backtrack pindex hist) = nav_first es"
  shows "sm_run dir (sm_goto pindex s (pick dir (beyond dir d (live jp))) (SM2Backtrack pindex hist))
    = nav_first (dir_order dir (concat (map (child_entries P s dcd) (beyond dir d (live jp)))) @ es)"
proof -
  note b = placed_branch [OF assms(1,2)]
  have sub: "x \<in> set (live jp)" if "x \<in> set (beyond dir d (live jp))" for x using that by (simp add: beyond_def)
  have ne: "child_entries P s dcd x \<noteq> []" if "x \<in> set (beyond dir d (live jp))" for x using b(10) sub [OF that] by blast
  show ?thesis
  proof (cases "pick dir (beyond dir d (live jp))")
    case None
    then show ?thesis using assms(4) by (simp add: pick_None)
  next
    case (Some x)
    have mem: "x \<in> set (live jp)" using pick_mem [OF Some] by (rule sub)
    have B: "within (jp_base P s dcd + fst x * 256 ^ (s - 1)) (s - 1) (JU_SETDIGIT pindex (word_of_nat (fst x)) s)"
      using b(2,3) live_sorted(2) [OF b(1) mem] by (intro within_setdigit assms(3)) auto
    have "sm_run dir (SM3Findlimit (snd x) (JU_SETDIGIT pindex (word_of_nat (fst x)) s))
        = nav_of (pick dir (child_entries P s dcd x))"
      unfolding child_entries_def by (rule sm3_run [OF b(8) [OF mem] B])
    moreover have "pick dir (concat (map (child_entries P s dcd) (beyond dir d (live jp)))) = pick dir (child_entries P s dcd x)"
      using pick_concat [of "beyond dir d (live jp)" "child_entries P s dcd" dir] ne Some by simp
    moreover have N: "concat (map (child_entries P s dcd) (beyond dir d (live jp))) \<noteq> []"
      using pick_mem [OF Some] ne by (cases x) auto
    ultimately show ?thesis
      unfolding nav_first_append if_not_P [OF N] Some by (simp add: sm_goto_def case_prod_beta)
  qed
qed

lemma sm2_run: "hist_at dir pindex l hist es \<Longrightarrow> sm_run dir (SM2Backtrack pindex hist) = nav_first es"
proof (induction rule: hist_at.induct)
  case hist_top
  show ?case by (simp add: sm_run_machine)
next
  case (hist_push l hist es P jp s dcd d c)
  note b = placed_branch [OF hist_push(2,3)]
  show ?case
    unfolding sm_run_machine sm2_branch [OF b(1) hist_push(5)]
    by (rule sm_run_goto [OF hist_push(2-4,6)])
qed

section \<open>SM1\<close>

fun upto_dir :: "dir \<Rightarrow> nat \<Rightarrow> nat \<Rightarrow> bool" where
  "upto_dir PREV i k = (k \<le> i)"
| "upto_dir NEXT i k = (i \<le> k)"

definition from_index :: "dir \<Rightarrow> nat \<Rightarrow> (nat \<times> 'v) list \<Rightarrow> (nat \<times> 'v) list" where
  "from_index dir i es = filter (\<lambda>x. upto_dir dir i (fst x)) es"

lemma from_index_append: "from_index dir i (xs @ ys) = from_index dir i xs @ from_index dir i ys"
  by (simp add: from_index_def)

lemma from_index_all: "(\<And>x. x \<in> set es \<Longrightarrow> upto_dir dir i (fst x)) \<Longrightarrow> from_index dir i es = es"
  unfolding from_index_def by (rule filter_const_True) simp

lemma from_index_none: "(\<And>x. x \<in> set es \<Longrightarrow> \<not> upto_dir dir i (fst x)) \<Longrightarrow> from_index dir i es = []"
  unfolding from_index_def by (rule filter_const_False) simp

text \<open>The pairs from the index on, in blocks of which only that of the index's digit is cut.\<close>

lemma from_index_blocks:
  assumes "sorted_wrt (<) (map fst cs)"
    and "\<And>x y. x \<in> set cs \<Longrightarrow> y \<in> set (f x) \<Longrightarrow> fst x < d \<Longrightarrow> fst y < i"
    and "\<And>x y. x \<in> set cs \<Longrightarrow> y \<in> set (f x) \<Longrightarrow> d < fst x \<Longrightarrow> i < fst y"
  shows "dir_order dir (from_index dir i (concat (map f cs)))
    = dir_order dir (case map_of cs d of Some c \<Rightarrow> from_index dir i (f (d, c)) | None \<Rightarrow> [])
      @ dir_order dir (concat (map f (beyond dir d cs)))"
  using assms
proof (induction cs)
  case (Cons x cs)
  have IH: "dir_order dir (from_index dir i (concat (map f cs)))
    = dir_order dir (case map_of cs d of Some c \<Rightarrow> from_index dir i (f (d, c)) | None \<Rightarrow> [])
      @ dir_order dir (concat (map f (beyond dir d cs)))"
  proof (rule Cons.IH)
    show "sorted_wrt (<) (map fst cs)" using Cons.prems(1) by simp
    show "fst y < i" if "z \<in> set cs" "y \<in> set (f z)" "fst z < d" for z y using Cons.prems(2) [of z y] that by simp
    show "i < fst y" if "z \<in> set cs" "y \<in> set (f z)" "d < fst z" for z y using Cons.prems(3) [of z y] that by simp
  qed
  have tail: "fst x < fst y" if "y \<in> set cs" for y using Cons.prems(1) that by simp
  consider "fst x < d" | "fst x = d" | "d < fst x" by linarith
  then show ?case
  proof cases
    case 1
    have lt: "fst y < i" if "y \<in> set (f x)" for y using Cons.prems(2) [of x y] that 1 by simp
    then show ?thesis using IH 1
      by (cases dir; cases x)
        (simp_all add: from_index_append beyond_def from_index_all from_index_none not_le less_imp_le)
  next
    case 2
    have gt: "i < fst z" if "y \<in> set cs" "z \<in> set (f y)" for y z using Cons.prems(3) [of y z] tail that 2 by simp
    have after: "beyond NEXT d cs = cs" "beyond PREV d cs = []"
      unfolding beyond_def by (rule filter_const_True filter_const_False; use tail 2 in fastforce)+
    have rest: "from_index NEXT i (concat (map f cs)) = concat (map f cs)" "from_index PREV i (concat (map f cs)) = []"
      using gt by (intro from_index_all from_index_none; fastforce)+
    show ?thesis
      using 2 after rest by (cases dir; cases x) (simp_all add: from_index_append beyond_def)
  next
    case 3
    have gt: "i < fst z" if "y \<in> set (x # cs)" "z \<in> set (f y)" for y z
      using Cons.prems(3) [of y z] tail that 3 by fastforce
    have after: "beyond NEXT d (x # cs) = x # cs" "beyond PREV d (x # cs) = []"
      unfolding beyond_def by (rule filter_const_True filter_const_False; use tail 3 in fastforce)+
    have rest: "from_index NEXT i (concat (map f (x # cs))) = concat (map f (x # cs))" "from_index PREV i (concat (map f (x # cs))) = []"
      using gt by (intro from_index_all from_index_none; fastforce)+
    have "d \<notin> fst ` set (x # cs)" using tail 3 by fastforce
    then have none: "map_of (x # cs) d = None" by (simp only: map_of_eq_None_iff simp_thms)
    show ?thesis unfolding none option.case by (cases dir) (simp_all only: after rest, simp_all)
  qed
qed (simp add: from_index_def beyond_def)

lemma sm_run_found:
  assumes "hist_at dir pindex l hist es"
  shows "sm_run dir (case pick dir xs of None \<Rightarrow> SM2Backtrack pindex hist | Some p \<Rightarrow> SMRet (nav_of (Some p)))
    = nav_first (dir_order dir xs @ es)"
  using sm2_run [OF assms] by (cases "pick dir xs") (auto simp: nav_first_append pick_None)

text \<open>A leaf or immediate of ascending indexes, searched for the least bytes of the index.\<close>

lemma from_index_keys:
  fixes B :: nat and x :: word_t
  assumes "sorted_wrt (<) keys" "length vals = length keys"
  defines "es \<equiv> zip (map (\<lambda>k. B + unat k) keys) vals" and "n \<equiv> insertion_point keys x"
  shows "from_index NEXT (B + unat x) es = drop n es"
    and "from_index PREV (B + unat x) es = take (n + of_bool (x \<in> set keys)) es"
proof -
  have len: "length es = length keys" using assms(2) by (simp add: es_def)
  have nth: "fst (es ! i) = B + unat (keys ! i)" if "i < length keys" for i using that assms(2) by (simp add: es_def)
  have n: "n \<le> length keys" by (simp add: n_def insertion_point_le)
  have lt: "keys ! i < x" if "i < n" for i using that nth_insertion_point(1) by (simp add: n_def)
  have le: "keys ! i \<le> keys ! j" if "i \<le> j" "j < length keys" for i j
    using sorted_wrt_nth_less [OF assms(1), of i j] that by (cases "i = j") auto
  have ge: "x \<le> keys ! i" if "n \<le> i" "i < length keys" for i
    using nth_insertion_point(2) [of keys x] le [of n i] that unfolding n_def by simp
  show "from_index NEXT (B + unat x) es = drop n es" unfolding from_index_def
  proof (rule filter_drop)
    show "\<not> upto_dir NEXT (B + unat x) (fst (es ! i))" if "i < n" for i
      using lt [OF that] nth [of i] that n by (simp add: word_less_nat_alt)
    show "upto_dir NEXT (B + unat x) (fst (es ! i))" if "n \<le> i" "i < length es" for i
      using ge [of i] nth [of i] that len by (simp add: word_le_nat_alt)
  qed (simp add: len n)
  have mem: "x \<in> set keys \<longleftrightarrow> n < length keys \<and> keys ! n = x" unfolding n_def by (rule insertion_point_mem [OF assms(1)])
  show "from_index PREV (B + unat x) es = take (n + of_bool (x \<in> set keys)) es" unfolding from_index_def
  proof (rule filter_take)
    show "n + of_bool (x \<in> set keys) \<le> length es" using n mem len by auto
    show "upto_dir PREV (B + unat x) (fst (es ! i))" if "i < n + of_bool (x \<in> set keys)" for i
    proof (cases "i = n")
      case True
      then show ?thesis using that mem nth [of n] by (auto split: if_splits)
    next
      case False
      then have "i < n" using that by (cases "x \<in> set keys") simp_all
      then show ?thesis using lt [of i] nth [of i] n by (simp add: word_less_nat_alt)
    qed
    show "\<not> upto_dir PREV (B + unat x) (fst (es ! i))" if i: "n + of_bool (x \<in> set keys) \<le> i" "i < length es" for i
    proof -
      have ilen: "i < length keys" using i(2) len by simp
      have "x < keys ! i"
      proof (cases "x \<in> set keys")
        case True
        then have "n < i" "keys ! n = x" using i(1) mem by auto
        then show ?thesis using sorted_wrt_nth_less [OF assms(1), of n i] ilen by simp
      next
        case False
        then have "x \<le> keys ! i" using ge [of i] i(1) ilen by simp
        moreover have "keys ! i \<noteq> x" using False ilen nth_mem by blast
        ultimately show ?thesis by simp
      qed
      then show ?thesis using nth [OF ilen] by (simp add: word_less_nat_alt)
    qed
  qed
qed

lemma sm1_leaf_imm_eq:
  fixes B :: nat and s :: nat and pindex :: word_t
  assumes "leaf_keys_ok s keys" "length vals = length keys" "within B s pindex" "1 \<le> s" "s \<le> 8"
  defines "es \<equiv> zip (map (\<lambda>k. B + unat k) keys) vals"
  shows "sm1_leaf_imm dir pindex (length keys) (Some (search_result keys (JU_LEASTBYTES pindex s))) vals
      (ret_leaf pindex s keys vals) hist
    = (case pick dir (from_index dir (unat pindex) es) of None \<Rightarrow> SM2Backtrack pindex hist | Some p \<Rightarrow> SMRet (nav_of (Some p)))"
proof -
  let ?x = "JU_LEASTBYTES pindex s"
  let ?n = "insertion_point keys ?x"
  have sorted: "sorted_wrt (<) keys" using assms(1) by (simp add: leaf_keys_ok_def)
  have pindex: "pindex = word_of_nat (B + unat ?x)" by (rule word_of_within [OF assms(3-5)])
  have i: "unat pindex = B + unat ?x"
    using offset_is_leastbytes(1) [of s B pindex] assms(3-5) unfolding within_def by linarith
  note from_index = from_index_keys [OF sorted assms(2), of B ?x, folded es_def, folded i]
  have len: "length es = length keys" using assms(2) by (simp add: es_def)
  have n: "?n \<le> length keys" by (rule insertion_point_le)
  have nth: "nth_opt es j = Some (B + unat (keys ! j), vals ! j)" if "j < length keys" for j
    using that assms(2) by (simp add: es_def)
  have ret: "ret_leaf pindex s keys vals j = nav_of (nth_opt es j)" if "j < length keys" for j
    unfolding es_def by (rule ret_leaf_eq [OF assms(1-5) that])
  show ?thesis
  proof (cases "?x \<in> set keys")
    case True
    then have m: "?n < length keys" "keys ! ?n = ?x" using insertion_point_mem [OF sorted] by auto
    have "pick dir (from_index dir (unat pindex) es) = Some (B + unat ?x, vals ! ?n)"
      using nth [OF m(1)] m True len by (cases dir) (simp_all add: from_index pick_drop pick_take)
    then show ?thesis using m True assms(2) pindex [symmetric] by (simp add: sm1_leaf_imm_def search_result_def)
  next
    case False
    show ?thesis
    proof (cases dir)
      case PREV
      have "pick PREV (from_index PREV (unat pindex) es) = (if ?n = 0 then None else nth_opt es (?n - 1))"
        using False n len by (simp add: from_index pick_take)
      then show ?thesis
        unfolding PREV using False n ret [of "?n - 1"] nth [of "?n - 1"]
        by (simp add: sm1_leaf_imm_def search_result_def not_eq_complement nat_int_pred Suc_le_eq)
    next
      case NEXT
      have "pick NEXT (from_index NEXT (unat pindex) es) = nth_opt es ?n"
        using False by (simp add: from_index pick_drop)
      moreover have "nth_opt es ?n = None" if "\<not> ?n < length keys" using that len by (simp add: nth_opt_def)
      ultimately show ?thesis
        unfolding NEXT using False ret [of ?n] nth [of ?n]
        by (auto simp: sm1_leaf_imm_def search_result_def not_eq_complement)
    qed
  qed
qed

end
