(* ===== verification/JudyOrder.thy ===== *)
theory JudyOrder
  imports JudyNeighbours IndexMap
begin

text \<open>
  \<open>JudyLNext\<close>, \<open>JudyLPrev\<close>, \<open>JudyLFirst\<close> and \<open>JudyLLast\<close> find the neighbours of an index in the pairs of
  the array: the leaves and immediates of SM1, the way down, the entry points.
\<close>

section \<open>The Dcd check\<close>

lemma checkdcd_run:
  assumes "placed l P jp" "within P l pindex" "l \<le> 7" "1 \<le> s" "s \<le> l"
    and "in_expanse (jp_base P s dcd) s (jp_entries P jp)" "hist_at dir pindex l hist es"
  shows "sm_run dir (CHECKDCD dir pindex jp dcd s hist next)
    = (if jp_base P s dcd \<le> unat pindex \<and> unat pindex < jp_base P s dcd + 256 ^ s then sm_run dir next
       else nav_first (dir_order dir (from_index dir (unat pindex) (jp_entries P jp)) @ es))"
proof -
  define B i where "B = jp_base P s dcd" and "i = unat pindex"
  define r q where "r = i mod 256 ^ 7 div 256 ^ s" and "q = unat dcd div 256 ^ s"
  have P: "256 ^ l dvd P" "P \<le> i" "i < P + 256 ^ l" using assms(2) by (simp_all add: within_def i_def)
  have s7: "s \<le> 7" using assms(3,5) by simp
  have in_base: "B \<le> i \<and> i < B + 256 ^ s \<longleftrightarrow> r = q"
    unfolding B_def r_def q_def by (rule in_base_iff [OF P(1) assms(3) P(2,3)])
  have side: "i < B \<longleftrightarrow> r < q" if "r \<noteq> q"
  proof -
    have a: "i = P div 256 ^ 7 * 256 ^ 7 + i mod 256 ^ 7"
      using expanse_top [OF P(1) assms(3) P(2,3)] div_mult_mod_eq [of i "256 ^ 7"] by simp
    have "i < B \<longleftrightarrow> i mod 256 ^ 7 < q * 256 ^ s" using a unfolding B_def jp_base_def q_def by linarith
    also have "\<dots> \<longleftrightarrow> r < q" by (simp add: r_def div_less_iff_less_mult)
    finally show ?thesis .
  qed
  have entries: "B \<le> fst x" "fst x < B + 256 ^ s" if "x \<in> set (jp_entries P jp)" for x
    using assms(6) that by (auto simp: in_expanse_def B_def)
  have ne: "jp_entries P jp \<noteq> []" using assms(1) entries_nonempty unfolding placed_def by blast
  have all: "sm_run dir (SM3Findlimit jp pindex)
      = nav_first (dir_order dir (from_index dir i (jp_entries P jp)) @ es)"
    if "from_index dir i (jp_entries P jp) = jp_entries P jp"
    unfolding that nav_first_append if_not_P [OF ne] by (rule sm3_run [OF assms(1,2)])
  have none: "sm_run dir (SM2Backtrack pindex hist)
      = nav_first (dir_order dir (from_index dir i (jp_entries P jp)) @ es)"
    if "from_index dir i (jp_entries P jp) = []"
    unfolding that using sm2_run [OF assms(7)] by simp
  have miss: "JU_DCDNOTMATCHINDEX pindex dcd s \<longleftrightarrow> r \<noteq> q"
    using dcd_match [OF assms(4) s7] by (simp add: r_def q_def i_def)
  have less: "pindex AND cJU_DCDMASK s < JU_JPDCDPOP0 dcd AND cJU_DCDMASK s \<longleftrightarrow> r < q"
    "pindex AND cJU_DCDMASK s > JU_JPDCDPOP0 dcd AND cJU_DCDMASK s \<longleftrightarrow> r > q"
    using dcd_less [OF assms(4) s7] by (simp_all add: r_def q_def i_def)
  show ?thesis
  proof (cases "r = q")
    case True
    then show ?thesis using in_base miss by (simp add: CHECKDCD_def B_def i_def)
  next
    case False
    have far: "r > q \<Longrightarrow> B + 256 ^ s \<le> i" using side [OF False] in_base False by linarith
    have "sm_run dir (CHECKDCD dir pindex jp dcd s hist next)
      = nav_first (dir_order dir (from_index dir i (jp_entries P jp)) @ es)"
    proof (cases "CDcmp dir (pindex AND cJU_DCDMASK s) (JU_JPDCDPOP0 dcd AND cJU_DCDMASK s)")
      case True
      have "from_index dir i (jp_entries P jp) = []"
      proof (rule from_index_none)
        fix x assume "x \<in> set (jp_entries P jp)"
        from entries [OF this] show "\<not> upto_dir dir i (fst x)"
          using True far less side [OF False] by (cases dir) auto
      qed
      from none [OF this] show ?thesis using True False miss by (simp add: CHECKDCD_def)
    next
      case b: False
      have "from_index dir i (jp_entries P jp) = jp_entries P jp"
      proof (rule from_index_all)
        fix x assume "x \<in> set (jp_entries P jp)"
        from entries [OF this] show "upto_dir dir i (fst x)"
          using b far less side [OF False] False by (cases dir) auto
      qed
      from all [OF this] show ?thesis using b False miss by (simp add: CHECKDCD_def)
    qed
    then show ?thesis using in_base False by (simp only: B_def i_def if_False)
  qed
qed

section \<open>The first pair from the index on\<close>

lemma pick_from_index_mem:
  assumes "sorted_wrt (<) (map fst es)" "(i, v) \<in> set es"
  shows "pick dir (from_index dir i es) = Some (i, v)"
proof -
  obtain xs ys where es: "es = xs @ (i, v) # ys" using split_list [OF assms(2)] by blast
  have "fst x < i" if "x \<in> set xs" for x using assms(1) that by (auto simp: es sorted_wrt_append)
  moreover have "i < fst x" if "x \<in> set ys" for x using assms(1) that by (auto simp: es sorted_wrt_append)
  ultimately show ?thesis
    using from_index_none [of xs NEXT i] from_index_all [of xs PREV i] from_index_none [of ys PREV i]
    by (cases dir) (fastforce simp: es from_index_append pick_append pick_NEXT_Cons from_index_def pick_PREV)+
qed

lemma from_index_beyond: "i \<notin> fst ` set es \<Longrightarrow> from_index dir i es = beyond dir i es"
  unfolding from_index_def beyond_def by (rule filter_cong) (cases dir; force)+

lemma from_index_shift:
  fixes B :: nat
  shows "from_index dir (B + i) (map (\<lambda>(d, v). (B + d, v)) es) = map (\<lambda>(d, v). (B + d, v)) (from_index dir i es)"
  unfolding from_index_def by (induction es) (cases dir; force)+

section \<open>Bitmap leaves\<close>

definition b1_goto :: "word_t \<Rightarrow> 'v hist \<Rightarrow> (nat \<times> 'v) option \<Rightarrow> 'v sm" where
  "b1_goto pindex hist r = (case r of None \<Rightarrow> SM2Backtrack pindex hist | Some x \<Rightarrow> SMRet (b1_ret pindex x))"

lemma b1_goto_simps [simp]:
  "b1_goto pindex hist None = SM2Backtrack pindex hist" "b1_goto pindex hist (Some x) = SMRet (b1_ret pindex x)"
  by (simp_all add: b1_goto_def)

lemma jlb_sideways_eq:
  assumes "bm_shape 4 jlb" "d < 256" "beyond dir d (bm_block jlb (d div 64)) = []"
  shows "(case scan_from dir (\<lambda>k. jlb_bitmap jlb k \<noteq> 0) (d div 64) cJU_NUMSUBEXPL of
       Some k \<Rightarrow> SMRet (ret_leaf_b1 pindex jlb k (jlb_limit dir (jlb_bitmap jlb k)))
     | None \<Rightarrow> SM2Backtrack pindex hist)
    = b1_goto pindex hist (pick dir (beyond dir d (leafb1_values jlb)))"
proof -
  have k: "d div 64 < 4" using assms(2) by simp
  have len: "length jlb = 4" using assms(1) by (simp add: bm_shape_def)
  have "scan_from dir (\<lambda>k. bm_block jlb k \<noteq> []) (d div 64) 4 = scan_from dir (\<lambda>k. jlb_bitmap jlb k \<noteq> 0) (d div 64) 4"
    using k jlb_sub(1) [OF assms(1)] by (intro scan_from_cong) auto
  then have p: "pick dir (beyond dir d (leafb1_values jlb))
    = (case scan_from dir (\<lambda>k. jlb_bitmap jlb k \<noteq> 0) (d div 64) 4 of None \<Rightarrow> None | Some j \<Rightarrow> pick dir (bm_block jlb j))"
    unfolding leafb1_blocks [OF len]
    using beyond_blocks [of 64 4 "bm_block jlb" d dir] k assms(3) bm_block_digit [where 'a = 64, of _ jlb] by simp
  show ?thesis
  proof (cases "scan_from dir (\<lambda>k. jlb_bitmap jlb k \<noteq> 0) (d div 64) 4")
    case None
    then show ?thesis by (simp add: p cJU_NUMSUBEXPL_def del: jlb_bitmap.simps)
  next
    case (Some j)
    then have j: "j < 4" "bm_block jlb j \<noteq> []"
      using scan_from_Some [OF Some k] jlb_sub(1) [OF assms(1)] by auto
    then obtain x where x: "pick dir (bm_block jlb j) = Some x" using pick_None [of dir "bm_block jlb j"] by auto
    show ?thesis
      unfolding p cJU_NUMSUBEXPL_def Some option.case x ret_leaf_b1_limit [OF assms(1) j(1) x] by simp
  qed
qed

lemma jlb_bitmap_fst: "bm_shape 4 jlb \<Longrightarrow> k < 4 \<Longrightarrow> jlb_bitmap jlb k = fst (jlb ! k)"
  by (simp add: bm_shape_def case_prod_beta)

lemma block_beyond_L:
  assumes "bm_shape 4 (jlb :: (word_t \<times> 'v list) list)" "d < 256"
  defines "b \<equiv> bm_block jlb (d div 64)" and "bm \<equiv> jlb_bitmap jlb (d div 64)"
  shows "beyond PREV d b = take (bits_below bm (d mod 64)) b"
    and "beyond NEXT d b = drop (bits_below bm (Suc (d mod 64))) b"
    and "bits_below bm (d mod 64) \<le> length b" "bits_below bm (Suc (d mod 64)) \<le> length b"
proof -
  have "jlb_bitmap jlb (d div 64) = fst (jlb ! (d div 64))" using assms(2) by (intro jlb_bitmap_fst assms(1)) simp
  note x = block_beyond [where 'a = 64, OF assms(1), of d, simplified, folded this b_def bm_def]
  show "beyond PREV d b = take (bits_below bm (d mod 64)) b" "beyond NEXT d b = drop (bits_below bm (Suc (d mod 64))) b"
    "bits_below bm (d mod 64) \<le> length b" "bits_below bm (Suc (d mod 64)) \<le> length b"
    using x assms(2) by simp_all
qed

lemma higher_bits_L:
  assumes "bm_shape 4 jlb" "d < 256"
  shows "jlb_bitmap jlb (d div 64) AND JU_MASKHIGHEREXC (JU_BITPOSMASKL d) \<noteq> 0
    \<longleftrightarrow> bits_below (jlb_bitmap jlb (d div 64)) (Suc (d mod 64)) < length (bm_block jlb (d div 64))"
  using higher_bits [of "d mod 64" "jlb_bitmap jlb (d div 64)"] jlb_sub(2) [OF assms(1), of "d div 64"] assms(2)
  by (simp add: JU_BITPOSMASKL_def cJU_BITSPERSUBEXPL_def del: jlb_bitmap.simps)

lemma jlb_beyond:
  assumes "bm_shape 4 (jlb :: (word_t \<times> 'v list) list)" "d < 256" "beyond dir d (bm_block jlb (d div 64)) \<noteq> []"
  shows "pick dir (beyond dir d (leafb1_values jlb)) = pick dir (beyond dir d (bm_block jlb (d div 64)))"
proof -
  have len: "length jlb = 4" using assms(1) by (simp add: bm_shape_def)
  show ?thesis
    unfolding leafb1_blocks [OF len]
    using beyond_blocks [of 64 4 "bm_block jlb" d dir] assms(2,3) bm_block_digit [where 'a = 64, of _ jlb] by simp
qed

lemma map_of_leafb1:
  assumes "bm_shape 4 jlb" "d < 256"
  shows "map_of (leafb1_values jlb) d
    = (if bit (jlb_bitmap jlb (d div 64)) (d mod 64)
       then Some (snd (jlb ! (d div 64)) ! bits_below (jlb_bitmap jlb (d div 64)) (d mod 64)) else None)"
proof -
  have len: "length jlb = 4" "\<And>bm xs. (bm, xs) \<in> set jlb \<Longrightarrow> length xs = length (set_positions bm)"
    using assms(1) by (auto simp: bm_shape_def)
  have k: "d div 64 < 4" using assms(2) by simp
  obtain bm xs where x: "jlb ! (d div 64) = (bm, xs)" by (cases "jlb ! (d div 64)")
  then have n: "nth_opt jlb (d div 64) = Some (bm, xs)" using len(1) k by simp
  have "map_of (leafb1_values jlb) d = (if bit bm (d mod 64) then Some (xs ! bits_below bm (d mod 64)) else None)"
    using map_of_position_blocks [where subs = jlb and d = d, OF len(2)] len(1) assms(2) x by (simp add: leafb1_values_def)
  then show ?thesis using x n by simp
qed

lemma sm1_leaf_b1_eq:
  fixes pindex :: word_t
  assumes "bm_shape 4 jlb"
  defines "d \<equiv> unat (JU_DIGITATSTATE pindex 1)"
  shows "sm1_leaf_b1 dir pindex jlb hist =
    (case map_of (leafb1_values jlb) d of
       Some v \<Rightarrow> SMRet (NavFound pindex v)
     | None \<Rightarrow> b1_goto pindex hist (pick dir (beyond dir d (leafb1_values jlb))))"
proof -
  have d: "d < 256" unfolding d_def by (rule unat_byte_less)
  have k: "d div 64 < 4" using d by simp
  define bm b where "bm = jlb_bitmap jlb (d div 64)" and "b = bm_block jlb (d div 64)"
  note m = map_of_leafb1 [OF assms(1) d, folded bm_def]
  note be = block_beyond_L [OF assms(1) d, folded bm_def b_def]
  have so: "SEARCHBITMAPL bm d (JU_BITPOSMASKL d) = int (bits_below bm (d mod 64)) + of_bool (bit bm (d mod 64)) - 1"
    unfolding SEARCHBITMAPL_eq bits_below_Suc by simp
  obtain bm' vs where x: "jlb ! (d div 64) = (bm', vs)" by (cases "jlb ! (d div 64)")
  note sub = bm_block_sub [OF assms(1) k x]
  have bm': "bm' = bm" using sub(3) by (simp add: bm_def)
  note unf = sm1_leaf_b1_def Let_def cJU_BITSPERSUBEXPL_def d_def [symmetric] bm_def [symmetric]
  show ?thesis
  proof (cases "bit bm (d mod 64)")
    case True
    have "bits_below bm (d mod 64) < length vs" using nth_bits_below(1) [OF True] sub(2) by (simp add: bm')
    then have "nth_opt vs (bits_below bm (d mod 64)) = Some (vs ! bits_below bm (d mod 64))" by simp
    then show ?thesis using True m so sub(3) x unfolding unf by (simp add: test_bit_L bm')
  next
    case False
    have mo: "map_of (leafb1_values jlb) d = None" using m False by simp
    have ret: "ret_leaf_b1 pindex jlb (d div 64) i = b1_ret pindex (b ! i)" if "i < length b" for i
      unfolding b_def using that by (intro ret_leaf_b1_eq [OF assms(1) k]) (simp add: b_def)
    show ?thesis
    proof (cases "beyond dir d b = []")
      case True
      have "\<not> (dir = PREV \<and> bits_below bm (d mod 64) > 0)"
        "\<not> (dir = NEXT \<and> bits_below bm (Suc (d mod 64)) < length b)"
        using True be by auto
      then show ?thesis
        using False higher_bits_L [OF assms(1) d, folded bm_def b_def]
        unfolding unf mo option.case jlb_sideways_eq [OF assms(1) d True [unfolded b_def], symmetric] so
        by (cases dir) (simp_all add: test_bit_L)
    next
      case ne: False
      note p = jlb_beyond [OF assms(1) d, folded b_def, OF ne]
      show ?thesis
      proof (cases dir)
        case PREV
        then have n: "0 < bits_below bm (d mod 64)" using ne be(1) by auto
        then have "pick dir (beyond dir d b) = Some (b ! (bits_below bm (d mod 64) - 1))"
          using be(1,3) by (simp add: PREV pick_take nth_opt_def)
        moreover have "nat (SEARCHBITMAPL bm d (JU_BITPOSMASKL d)) = bits_below bm (d mod 64) - 1"
          "SEARCHBITMAPL bm d (JU_BITPOSMASKL d) \<ge> 0" unfolding so using n False by auto
        ultimately show ?thesis
          using False n be(3) ret [of "bits_below bm (d mod 64) - 1"] unfolding unf mo option.case p
          by (simp add: test_bit_L PREV)
      next
        case NEXT
        then have n: "bits_below bm (Suc (d mod 64)) < length b" using ne be(2) by auto
        then have "pick dir (beyond dir d b) = Some (b ! bits_below bm (Suc (d mod 64)))"
          using be(2) by (simp add: NEXT pick_drop nth_opt_def)
        moreover have "nat (SEARCHBITMAPL bm d (JU_BITPOSMASKL d) + 1) = bits_below bm (Suc (d mod 64))"
          unfolding so bits_below_Suc using False by simp
        moreover have "bm AND JU_MASKHIGHEREXC (JU_BITPOSMASKL d) \<noteq> 0"
          using n higher_bits_L [OF assms(1) d, folded bm_def b_def] by simp
        ultimately show ?thesis
          using False n ret unfolding unf mo option.case p by (simp add: test_bit_L NEXT)
      qed
    qed
  qed
qed

section \<open>SM1\<close>

definition found_or_back :: "dir \<Rightarrow> word_t \<Rightarrow> 'v hist \<Rightarrow> (nat \<times> 'v) list \<Rightarrow> 'v sm" where
  "found_or_back dir pindex hist xs =
     (case pick dir xs of None \<Rightarrow> SM2Backtrack pindex hist | Some p \<Rightarrow> SMRet (nav_of (Some p)))"

lemma found_or_back_single:
  "found_or_back dir pindex hist [] = SM2Backtrack pindex hist"
  "found_or_back dir pindex hist [p] = SMRet (nav_of (Some p))"
  by (simp_all add: found_or_back_def pick_single)

lemma sm1_leaf_case:
  assumes "jp_wf l P (JPLEAF s dcd keys vals)" "within (jp_base P s dcd) s pindex"
  shows "sm1_leaf dir pindex s dcd keys vals hist
    = found_or_back dir pindex hist (from_index dir (unat pindex) (jp_entries P (JPLEAF s dcd keys vals)))"
proof -
  have w: "1 \<le> s" "s \<le> l" "l \<le> 7" "leaf_keys_ok s keys" "length vals = length keys"
    "length keys = unat (JU_JPLEAF_POP0 dcd) + 1" using assms(1) by auto
  then have s: "s \<le> 8" "s \<le> 7" by simp_all
  have sk: "sorted_wrt (<) keys" "\<forall>k\<in>set keys. JU_LEASTBYTES k s = k" using w(4) by (simp_all add: leaf_keys_ok_def)
  have "unat (JU_JPLEAF_POP0 dcd) < 256" by (rule unat_byte_less)
  then have pop: "unat (ucast (JU_JPLEAF_POP0 dcd) + 1 :: word_t) = length keys" "length keys < 2 ^ 31"
    using w(6) unat_byte_plus_1 [of "JU_JPLEAF_POP0 dcd"] by (linarith, simp)
  show ?thesis
    unfolding sm1_leaf_def Let_def search_leaf_state_sorted [OF w(1) s(2) sk(1) pop(2,1) sk(2)] pop(1) found_or_back_def
      jp_entries_leaf by (rule sm1_leaf_imm_eq [OF w(4,5) assms(2) w(1) s(1)])
qed

lemma sm1_immed_case:
  assumes "jp_wf l P (JPIMMED s keys vals)" "within P l pindex"
  shows "sm1_immed dir pindex s keys vals hist
    = found_or_back dir pindex hist (from_index dir (unat pindex) (jp_entries P (JPIMMED s keys vals)))"
proof -
  have w: "s = l" "1 \<le> s" "s \<le> 3" "leaf_keys_ok s keys" "2 \<le> length keys" "length keys \<le> cJL_IMMED_MAXPOP1 s"
    "length vals = length keys" using assms(1) by auto
  then have s: "s \<le> 8" "s \<le> 7" "immed_type_ok s keys" by (simp_all add: immed_type_ok_def)
  have sk: "sorted_wrt (<) keys" "\<forall>k\<in>set keys. JU_LEASTBYTES k s = k" using w(4) by (simp_all add: leaf_keys_ok_def)
  have "cJL_IMMED_MAXPOP1 s \<le> 7" using w(2,3) by (simp add: cJL_IMMED_MAXPOP1_def)
  then have len: "length keys \<le> 7" using w(6) by simp
  then have pop: "unat (word_of_nat (length keys) :: word_t) = length keys" "length keys < 2 ^ 31"
    using unat_digit [of "length keys"] by simp_all
  have "sm1_immed dir pindex s keys vals hist = sm1_leaf_imm dir pindex (length keys)
      (Some (search_result keys (JU_LEASTBYTES pindex s))) vals (ret_leaf pindex s keys vals) hist"
    unfolding sm1_immed_def search_leaf_state_sorted [OF w(2) s(2) sk(1) pop(2,1) sk(2)] using s(3) by simp
  also have "\<dots> = found_or_back dir pindex hist (from_index dir (unat pindex) (jp_entries P (JPIMMED s keys vals)))"
    unfolding found_or_back_def jp_entries_leaf
    by (rule sm1_leaf_imm_eq [OF w(4,7) assms(2) [folded w(1)] w(2) s(1)])
  finally show ?thesis .
qed

lemma sm1_immed_01_case:
  assumes "jp_wf l P (JPIMMED_01 s dcd v)" "within P l pindex"
  shows "sm1_immed_01 dir pindex s dcd v hist
    = found_or_back dir pindex hist (from_index dir (unat pindex) (jp_entries P (JPIMMED_01 s dcd v)))"
proof -
  have w: "1 \<le> l" "l \<le> 7" "s = l" "dcd_ok l P dcd" using assms(1) by auto
  have P: "256 ^ l dvd P" "P \<le> unat pindex" "unat pindex < P + 256 ^ l" using assms(2) by (simp_all add: within_def)
  have i: "unat pindex = P div 256 ^ 7 * 256 ^ 7 + unat pindex mod 256 ^ 7"
    using expanse_top [OF P(1) w(2) P(2,3)] div_mult_mod_eq [of "unat pindex" "256 ^ 7"] by simp
  have base: "jp_base P 0 dcd = P div 256 ^ 7 * 256 ^ 7 + unat dcd" by (simp add: jp_base_def)
  have less: "JU_JPDCDPOP0 dcd < JU_TRIMTODCDSIZE pindex \<longleftrightarrow> jp_base P 0 dcd < unat pindex"
    and eq: "JU_JPDCDPOP0 dcd = JU_TRIMTODCDSIZE pindex \<longleftrightarrow> jp_base P 0 dcd = unat pindex"
    unfolding word_less_nat_alt word_unat_eq_iff unat_dcdpop0 unat_trim base using i by linarith+
  note k = immed_01_base [OF assms(2) w(4,1,2)]
  have es: "jp_entries P (JPIMMED_01 s dcd v) = [(jp_base P 0 dcd, v)]" by simp
  have pi: "jp_base P 0 dcd = unat pindex \<Longrightarrow> word_of_nat (jp_base P 0 dcd) = pindex" by simp
  consider "jp_base P 0 dcd < unat pindex" | "jp_base P 0 dcd = unat pindex" | "unat pindex < jp_base P 0 dcd" by linarith
  then show ?thesis
  proof cases
    case 1
    then show ?thesis
      unfolding es using w(1-3) less eq k
      by (cases dir) (simp_all add: sm1_immed_01_def sm1_leaf_imm_def found_or_back_single from_index_def not_eq_complement)
  next
    case 2
    then show ?thesis
      unfolding es using w(1-3) less eq pi [OF 2]
      by (cases dir) (simp_all add: sm1_immed_01_def sm1_leaf_imm_def found_or_back_single from_index_def)
  next
    case 3
    then show ?thesis
      unfolding es using w(1-3) less eq k
      by (cases dir) (simp_all add: sm1_immed_01_def sm1_leaf_imm_def found_or_back_single from_index_def not_eq_complement)
  qed
qed

lemma sm1_leaf_b1_case:
  assumes "jp_wf l P (JPLEAF_B1 dcd jlb)" "within (jp_base P 1 dcd) 1 pindex"
  shows "sm1_leaf_b1 dir pindex jlb hist
    = found_or_back dir pindex hist (from_index dir (unat pindex) (jp_entries P (JPLEAF_B1 dcd jlb)))"
proof -
  let ?B = "jp_base P 1 dcd"
  have shape: "bm_shape 4 jlb" using assms(1) by (auto simp: bm_shape_def cJU_NUMSUBEXPL_def)
  define d where "d = unat (JU_DIGITATSTATE pindex 1)"
  have "unat pindex - ?B = unat (JU_LEASTBYTES pindex 1)"
    using assms(2) unfolding within_def by (intro offset_is_leastbytes) simp_all
  also have "\<dots> = d" using unat_leastbytes [of 1 pindex] unat_digitatstate [of pindex 1] by (simp add: d_def)
  finally have "unat pindex - ?B = d" .
  then have i: "unat pindex = ?B + d" using assms(2) unfolding within_def by linarith
  then have pindex: "pindex = word_of_nat (?B + d)" by (rule unat_eq_word)
  have sorted: "sorted_wrt (<) (map fst (leafb1_values jlb))"
    using leafb1_sorted [of jlb] shape by (auto simp: bm_shape_def cJU_NUMSUBEXPL_def)
  have fi: "from_index dir (unat pindex) (jp_entries P (JPLEAF_B1 dcd jlb))
      = map (\<lambda>(d, v). (?B + d, v)) (from_index dir d (leafb1_values jlb))"
    unfolding jp_entries_leaf i by (rule from_index_shift)
  note eq = sm1_leaf_b1_eq [OF shape, of dir pindex hist, folded d_def]
  show ?thesis
  proof (cases "map_of (leafb1_values jlb) d")
    case (Some v)
    then have "pick dir (from_index dir d (leafb1_values jlb)) = Some (d, v)"
      by (intro pick_from_index_mem sorted map_of_SomeD)
    then show ?thesis
      unfolding eq Some found_or_back_def fi pick_map by (simp add: pindex)
  next
    case None
    then have "from_index dir d (leafb1_values jlb) = beyond dir d (leafb1_values jlb)"
      by (intro from_index_beyond) (simp add: map_of_eq_None_iff)
    moreover have "b1_ret pindex x = nav_of (Some (?B + fst x, snd x))"
      if "pick dir (beyond dir d (leafb1_values jlb)) = Some x" for x
    proof (rule b1_ret_within [OF assms(2)])
      have "x \<in> set (leafb1_values jlb)" using pick_mem [OF that] by (simp add: beyond_def)
      then show "fst x < 256" by (rule leafb1_digit [OF shape])
    qed
    ultimately show ?thesis
      unfolding eq None found_or_back_def fi pick_map
      by (cases "pick dir (beyond dir d (leafb1_values jlb))") (auto simp: case_prod_beta)
  qed
qed

lemma sm_run_found_or_back:
  "hist_at dir pindex l hist es \<Longrightarrow> sm_run dir (found_or_back dir pindex hist xs) = nav_first (dir_order dir xs @ es)"
  unfolding found_or_back_def by (rule sm_run_found)

text \<open>The pairs of a branch from the index on: those of the child of the digit, then the children beyond.\<close>

lemma branch_from_index:
  assumes "placed l P jp" "jp_branch jp = Some (s, dcd)" "within (jp_base P s dcd) s pindex"
  defines "d \<equiv> unat (JU_DIGITATSTATE pindex s)"
  shows "dir_order dir (from_index dir (unat pindex) (jp_entries P jp))
    = dir_order dir (case map_of (live jp) d of Some c \<Rightarrow> from_index dir (unat pindex) (child_entries P s dcd (d, c)) | None \<Rightarrow> [])
      @ dir_order dir (concat (map (child_entries P s dcd) (beyond dir d (live jp))))"
    and "within (jp_base P s dcd + d * 256 ^ (s - 1)) (s - 1) pindex"
proof -
  let ?B = "jp_base P s dcd"
  define W where "W = (256::nat) ^ (s - 1)"
  note b = placed_branch [OF assms(1,2)]
  have d: "d = unat pindex div 256 ^ (s - 1) mod 256" by (simp add: d_def unat_digitatstate)
  have w: "256 ^ s dvd ?B" "?B \<le> unat pindex" "unat pindex < ?B + 256 ^ s" using assms(3) by (simp_all add: within_def)
  have s: "1 \<le> s" using b(2) by simp
  note digit = digit_of_base(2,3) [OF w s, folded d]
  have dvd: "256 ^ (s - 1) dvd ?B + d * 256 ^ (s - 1)"
  proof -
    have "(256::nat) ^ (s - 1) dvd 256 ^ s" by (rule le_imp_power_dvd) simp
    then have "256 ^ (s - 1) dvd ?B" using w(1) by (rule dvd_trans)
    then show ?thesis by simp
  qed
  show "within (?B + d * 256 ^ (s - 1)) (s - 1) pindex" unfolding within_def using dvd digit by simp
  have child: "?B + fst x * W \<le> fst y" "fst y < ?B + fst x * W + W"
    if "x \<in> set (live jp)" "y \<in> set (child_entries P s dcd x)" for x y
  proof -
    have "in_expanse (?B + fst x * 256 ^ (s - 1)) (s - 1) (child_entries P s dcd x)"
      unfolding child_entries_def using b(8) [OF that(1)] by (intro jp_entries_expanse) (simp_all add: placed_def)
    then show "?B + fst x * W \<le> fst y" "fst y < ?B + fst x * W + W" using that(2) by (auto simp: in_expanse_def W_def)
  qed
  show "dir_order dir (from_index dir (unat pindex) (jp_entries P jp))
    = dir_order dir (case map_of (live jp) d of Some c \<Rightarrow> from_index dir (unat pindex) (child_entries P s dcd (d, c)) | None \<Rightarrow> [])
      @ dir_order dir (concat (map (child_entries P s dcd) (beyond dir d (live jp))))"
    unfolding live_entries [OF assms(2)]
  proof (rule from_index_blocks)
    show "sorted_wrt (<) (map fst (live jp))" by (rule live_sorted(1) [OF b(1)])
    fix x y assume x: "x \<in> set (live jp)" "y \<in> set (child_entries P s dcd x)"
    show "fst y < unat pindex" if "fst x < d"
    proof -
      have "(fst x + 1) * W \<le> d * W" using that by (intro mult_le_mono1) simp
      then show ?thesis using child(2) [OF x] digit(1) unfolding W_def [symmetric] add_mult_distrib mult_1 by linarith
    qed
    show "unat pindex < fst y" if "d < fst x"
    proof -
      have "(d + 1) * W \<le> fst x * W" using that by (intro mult_le_mono1) simp
      then show ?thesis using child(1) [OF x] digit(2) unfolding W_def [symmetric] add_mult_distrib mult_1 by linarith
    qed
  qed
qed

lemma sm1_checkdcd_run:
  assumes "placed l P jp" "jp_branch jp = Some (s, dcd)" "within P l pindex" "hist_at dir pindex l hist es"
    and "within (jp_base P s dcd) s pindex \<Longrightarrow>
      sm_run dir next = nav_first (dir_order dir (from_index dir (unat pindex) (jp_entries P jp)) @ es)"
  shows "sm_run dir (sm1_checkdcd dir pindex jp dcd s hist next)
    = nav_first (dir_order dir (from_index dir (unat pindex) (jp_entries P jp)) @ es)"
proof -
  note b = placed_branch [OF assms(1,2)]
  have wf: "jp_wf l P jp" "256 ^ l dvd P" using assms(1) by (simp_all add: placed_def)
  note bb = branch_bounds [OF assms(2) wf]
  have s: "\<not> (s < 2 \<or> 8 < s)" "1 \<le> s" using b(2,3) by auto
  show ?thesis
  proof (cases "s = 8")
    case True
    then have "l = 8" using b(4,5) by auto
    then have "jp_base P s dcd = P" using bb(5,6) True by simp
    then have "within (jp_base P s dcd) s pindex" using assms(3) True \<open>l = 8\<close> by simp
    from assms(5) [OF this] True show ?thesis by (simp add: sm1_checkdcd_def cJU_ROOTSTATE_def)
  next
    case False
    then have l: "l \<le> 7" using b(5) by auto
    have c: "sm1_checkdcd dir pindex jp dcd s hist next = CHECKDCD dir pindex jp dcd s hist next"
      using s False by (simp add: sm1_checkdcd_def cJU_ROOTSTATE_def)
    show ?thesis
      unfolding c checkdcd_run [OF assms(1,3) l s(2) b(4) branch_expanse [OF assms(2) wf] assms(4)]
      using assms(5) bb(7) by (simp add: within_def)
  qed
qed

lemma sm1_leaf_run:
  assumes "placed l P jp" "within P l pindex" "l \<le> 7" "1 \<le> s" "s \<le> l" "dcd_ok l P dcd" "hist_at dir pindex l hist es"
    and "in_expanse (jp_base P s dcd) s (jp_entries P jp)"
    and "within (jp_base P s dcd) s pindex \<Longrightarrow>
      next = found_or_back dir pindex hist (from_index dir (unat pindex) (jp_entries P jp))"
  shows "sm_run dir (CHECKDCD dir pindex jp dcd s hist next)
    = nav_first (dir_order dir (from_index dir (unat pindex) (jp_entries P jp)) @ es)"
proof -
  have P: "256 ^ l dvd P" using assms(1) by (simp add: placed_def)
  have "256 ^ s dvd jp_base P s dcd" using base_in_expanse [OF P assms(6,5)] assms(3) by blast
  then show ?thesis
    using checkdcd_run [OF assms(1-5,8,7)] assms(9) sm_run_found_or_back [OF assms(7)] by (simp add: within_def)
qed

lemma leafb1_in_base:
  assumes "jp_wf l P (JPLEAF_B1 dcd jlb)"
  shows "in_expanse (jp_base P 1 dcd) 1 (jp_entries P (JPLEAF_B1 dcd jlb))"
  using leafb1_sorted [of jlb] assms by (auto simp: in_expanse_def sorted_wrt_map case_prod_beta)

lemma sm1_run:
  "placed l P jp \<Longrightarrow> within P l pindex \<Longrightarrow> hist_at dir pindex l hist es \<Longrightarrow>
   sm_run dir (SM1Get jp pindex hist) = nav_first (dir_order dir (from_index dir (unat pindex) (jp_entries P jp)) @ es)"
proof (induction "size jp" arbitrary: l P jp hist es rule: less_induct)
  case less
  note prems = less.prems
  have wf: "jp_wf l P jp" "\<not> jp_is_null jp" using prems(1) by (simp_all add: placed_def)
  show ?case
  proof (cases jp rule: jp_cases_branch)
    case (branch s dcd)
    note b = placed_branch [OF prems(1) branch]
    define d where "d = unat (JU_DIGITATSTATE pindex s)"
    show ?thesis
      unfolding sm_run_machine sm1_branch [OF b(1)] d_def [symmetric]
    proof (rule sm1_checkdcd_run [OF prems(1) branch prems(2,3)])
      assume w: "within (jp_base P s dcd) s pindex"
      note e = branch_from_index [OF prems(1) branch w, folded d_def]
      show "sm_run dir (case map_of (live jp) d of
            Some c \<Rightarrow> HISTPUSH jp (hist_offset dir jp d) hist (\<lambda>hist. SM1Get c pindex hist)
          | None \<Rightarrow> sm_goto pindex s (pick dir (beyond dir d (live jp))) (SM2Backtrack pindex hist))
        = nav_first (dir_order dir (from_index dir (unat pindex) (jp_entries P jp)) @ es)"
      proof (cases "map_of (live jp) d")
        case None
        show ?thesis
          unfolding None option.case e(1) using sm_run_goto [OF prems(1) branch w sm2_run [OF prems(3)]] by simp
      next
        case (Some c)
        then have mem: "(d, c) \<in> set (live jp)" by (rule map_of_SomeD)
        have "length hist + l \<le> 8" by (rule hist_length [OF prems(3)])
        then have push: "HISTPUSH jp (hist_offset dir jp d) hist k = k ((jp, hist_offset dir jp d) # hist)" for k
          using b(2,4) by (simp add: HISTPUSH_def HISTNUMMAX_def cJU_ROOTSTATE_def)
        have "sm_run dir (SM1Get c pindex ((jp, hist_offset dir jp d) # hist))
          = nav_first (dir_order dir (from_index dir (unat pindex) (child_entries P s dcd (d, c)))
              @ dir_order dir (concat (map (child_entries P s dcd) (beyond dir d (live jp)))) @ es)"
          unfolding child_entries_def fst_conv snd_conv
        proof (rule less.hyps)
          show "size c < size jp" using b(9) [OF mem] by simp
          show "placed (s - 1) (jp_base P s dcd + d * 256 ^ (s - 1)) c" using b(8) [OF mem] by simp
          show "within (jp_base P s dcd + d * 256 ^ (s - 1)) (s - 1) pindex" by (rule e(2))
          show "hist_at dir pindex (s - 1) ((jp, hist_offset dir jp d) # hist)
              (dir_order dir (concat (map (\<lambda>x. jp_entries (jp_base P s dcd + fst x * 256 ^ (s - 1)) (snd x))
                (beyond dir d (live jp)))) @ es)"
            by (rule hist_push [OF prems(3,1) branch w mem, unfolded child_entries_def [abs_def]])
        qed
        then show ?thesis unfolding Some option.case e(1) push by simp
      qed
    qed
  next
    case (leaf s dcd keys vals)
    then have w: "1 \<le> s" "s \<le> l" "l \<le> 7" "dcd_ok l P dcd" "leaf_keys_ok s keys" "length vals = length keys"
      using wf(1) by auto
    have "in_expanse (jp_base P s dcd) s (jp_entries P jp)"
      unfolding leaf jp_entries_leaf using w by (intro in_expanse_keys) auto
    from sm1_leaf_run [OF prems(1,2) w(3,1,2,4) prems(3) this] sm1_leaf_case [OF wf(1) [unfolded leaf]] w(1-3)
    show ?thesis by (simp add: leaf sm_run_machine)
  next
    case (leafb1 dcd jlb)
    then have w: "1 \<le> l" "l \<le> 7" "dcd_ok l P dcd" using wf(1) by auto
    from sm1_leaf_run [OF prems(1,2) w(2) _ w(1,3) prems(3) leafb1_in_base [OF wf(1) [unfolded leafb1], folded leafb1]]
      sm1_leaf_b1_case [OF wf(1) [unfolded leafb1]]
    show ?thesis by (simp add: leafb1 sm_run_machine)
  next
    case (immed01 s dcd v)
    show ?thesis
      using sm1_immed_01_case [OF wf(1) [unfolded immed01] prems(2)] sm_run_found_or_back [OF prems(3)]
      by (simp add: immed01 sm_run_machine)
  next
    case (immed s keys vals)
    show ?thesis
      using sm1_immed_case [OF wf(1) [unfolded immed] prems(2)] sm_run_found_or_back [OF prems(3)]
      by (simp add: immed sm_run_machine)
  next
    case (null n)
    then show ?thesis using wf by simp
  next
    case (invalid t)
    then show ?thesis using wf by simp
  qed
qed

section \<open>The entry points\<close>

lemma nav_leafw_eq:
  assumes "judyL_wf (JL_LEAFW pop0 keys vals)"
  shows "nav_leafw dir (JL_LEAFW pop0 keys vals) pindex
    = nav_of (pick dir (from_index dir (unat pindex) (zip (map unat keys) vals)))"
proof -
  let ?n = "insertion_point keys pindex" and ?es = "zip (map unat keys) vals"
  have w: "pop0 < cJU_LEAFW_MAXPOP1" "sorted_wrt (<) keys" "length keys = unat pop0 + 1" "length vals = length keys"
    using assms by auto
  have "unat pop0 < 31" using w(1) by (simp add: cJU_LEAFW_MAXPOP1_def word_less_nat_alt)
  then have pop: "unat (pop0 + 1) = length keys" "length keys < 2 ^ 31" using w(3) by (simp_all add: unat_word_ariths(1))
  note from_index = from_index_keys [OF w(2,4), of 0 pindex, simplified]
  have len: "length ?es = length keys" using w(4) by simp
  have n: "?n \<le> length keys" by (rule insertion_point_le)
  have nth: "nth_opt ?es j = Some (unat (keys ! j), vals ! j)" if "j < length keys" for j using that w(4) by simp
  have mem: "pindex \<in> set keys \<longleftrightarrow> ?n < length keys \<and> keys ! ?n = pindex" by (rule insertion_point_mem [OF w(2)])
  note unf = nav_leafw_def judyL.case Let_def search_leafW_sorted [OF w(2) pop(2,1)] pop(1) option.case
  show ?thesis
  proof (cases "pindex \<in> set keys")
    case True
    then have "pick dir (from_index dir (unat pindex) ?es) = Some (unat pindex, vals ! ?n)"
      using nth [of ?n] mem len by (cases dir) (simp_all add: from_index pick_drop pick_take)
    then show ?thesis using True mem w(4) unfolding unf by (simp add: search_result_def)
  next
    case False
    show ?thesis
    proof (cases dir)
      case PREV
      have "pick PREV (from_index PREV (unat pindex) ?es) = (if ?n = 0 then None else nth_opt ?es (?n - 1))"
        using False n len by (simp add: from_index pick_take)
      then show ?thesis
        unfolding PREV unf using False n nth [of "?n - 1"] w(4)
        by (simp add: search_result_def not_eq_complement nat_int_pred Suc_le_eq)
    next
      case NEXT
      have "pick NEXT (from_index NEXT (unat pindex) ?es) = nth_opt ?es ?n"
        using False by (simp add: from_index pick_drop)
      moreover have "nth_opt ?es ?n = None" if "\<not> ?n < length keys" using that len by (simp add: nth_opt_def)
      ultimately show ?thesis
        unfolding NEXT unf using False nth [of ?n] w(4) by (auto simp: search_result_def not_eq_complement)
    qed
  qed
qed

lemma nav_search_eq:
  assumes "judyL_wf array" "array \<noteq> JL_NULL"
  shows "nav_search dir array pindex = nav_of (pick dir (from_index dir (unat pindex) (judyL_entries array)))"
proof (cases array)
  case (JL_LEAFW pop0 keys vals)
  then show ?thesis using assms nav_leafw_eq [of pop0 keys vals dir pindex] by (simp add: nav_search_def)
next
  case (JL_JPM pop0 jp)
  then have w: "\<not> pop0 < cJU_LEAFW_MAXPOP1" "jp_wf 8 0 jp" "jp_entries 0 jp \<noteq> []" using assms by auto
  have "placed 8 0 jp" using w null_entries unfolding placed_def by auto
  moreover have "within 0 8 pindex"
    using unsigned_less [of pindex, where 'a = nat] by (simp add: within_def)
  ultimately have "sm_run dir (SM1Get jp pindex [])
      = nav_first (dir_order dir (from_index dir (unat pindex) (jp_entries 0 jp)) @ [])"
    by (rule sm1_run [OF _ _ hist_top])
  then show ?thesis using w(1) unfolding nav_first_append by (auto simp: nav_search_def JL_JPM)
qed (use assms in simp)

lemma pick_filter:
  "pick NEXT (filter P xs) = find P xs" "pick PREV (filter P xs) = find P (rev xs)"
proof -
  have "pick NEXT (filter P xs) = find P xs" for xs
    by (induction xs) (simp_all add: pick_NEXT_Cons)
  moreover have "pick PREV xs = pick NEXT (rev xs)" for xs :: "'a list" by (simp add: pick_def)
  ultimately show "pick NEXT (filter P xs) = find P xs" "pick PREV (filter P xs) = find P (rev xs)"
    by (simp_all add: rev_filter)
qed

lemma pick_from_index:
  "pick NEXT (from_index NEXT i es) = find (\<lambda>(k, v). i \<le> k) es"
  "pick PREV (from_index PREV i es) = find (\<lambda>(k, v). k \<le> i) (rev es)"
  by (simp_all add: from_index_def pick_filter case_prod_unfold)

lemma unat_inc: "i \<noteq> cJU_ALLONES \<Longrightarrow> unat (i + 1) = unat i + 1"
proof -
  assume "i \<noteq> cJU_ALLONES"
  then have "1 + i \<noteq> 0" by (metis add.inverse_unique cJU_ALLONES_def bit.compl_zero)
  from unatSuc [OF this] show ?thesis by (simp add: add.commute)
qed

lemma JudyLNext_find:
  assumes "judyL_wf array"
  shows "JudyLNext array (Some i) = nav_of (find (\<lambda>(k, v). unat i < k) (judyL_entries array))"
proof (cases "array = JL_NULL")
  case True
  then show ?thesis by (simp add: JudyLNext_def)
next
  case False
  show ?thesis
  proof (cases "i = cJU_ALLONES")
    case True
    then have "i = - 1" by (simp add: cJU_ALLONES_def)
    then have "unat i = 2 ^ 64 - 1" by (simp add: unsigned_minus_1_eq_mask mask_eq_exp_minus_1)
    then have "\<not> unat i < fst x" if "x \<in> set (judyL_entries array)" for x
      using judyL_entries_sorted [OF assms] that by force
    then have "find (\<lambda>(k, v). unat i < k) (judyL_entries array) = None"
      by (fastforce simp: find_None_iff)
    then show ?thesis using True False by (cases array) (simp_all add: JudyLNext_def)
  next
    case less: False
    have "JudyLNext array (Some i) = nav_search NEXT array (i + 1)"
      using False less by (cases array) (simp_all add: JudyLNext_def)
    then show ?thesis
      unfolding nav_search_eq [OF assms False] pick_from_index unat_inc [OF less] by (simp add: Suc_le_eq)
  qed
qed

lemma JudyLPrev_find:
  assumes "judyL_wf array"
  shows "JudyLPrev array (Some i) = nav_of (find (\<lambda>(k, v). k < unat i) (rev (judyL_entries array)))"
proof (cases "array = JL_NULL")
  case True
  then show ?thesis by (simp add: JudyLPrev_def)
next
  case False
  show ?thesis
  proof (cases "i = 0")
    case True
    then have "find (\<lambda>(k, v). k < unat i) (rev (judyL_entries array)) = None" by (simp add: find_None_iff)
    then show ?thesis using True False by (cases array) (simp_all add: JudyLPrev_def)
  next
    case pos: False
    then have "unat (i - 1) = unat i - 1" "unat i > 0" by (simp_all add: unat_minus_one unat_gt_0)
    then have le: "k \<le> unat (i - 1) \<longleftrightarrow> k < unat i" for k by auto
    have "JudyLPrev array (Some i) = nav_search PREV array (i - 1)"
      using False pos by (cases array) (simp_all add: JudyLPrev_def)
    then show ?thesis unfolding nav_search_eq [OF assms False] pick_from_index le .
  qed
qed

text \<open>\<open>JudyLFirst\<close> and \<open>JudyLLast\<close> look the index up before they go on.\<close>

lemma judyL_mem:
  assumes "judyL_wf array"
  shows "(case JudyLGet array i of NotFound \<Rightarrow> r | Found v \<Rightarrow> NavFound i v | Corrupt \<Rightarrow> x | Undefined \<Rightarrow> y)
    = (case map_of (judyL_entries array) (unat i) of Some v \<Rightarrow> NavFound i v | None \<Rightarrow> r)"
  unfolding JudyLGet_lookup [OF assms] by (simp add: get_result_def split: option.split)

lemma find_inclusive:
  fixes i :: nat
  assumes "sorted_wrt (<) (map fst es)"
  shows "find (\<lambda>(k, v). i \<le> k) es
      = (case map_of es i of Some v \<Rightarrow> Some (i, v) | None \<Rightarrow> find (\<lambda>(k, v). i < k) es)"
    and "find (\<lambda>(k, v). k \<le> i) (rev es)
      = (case map_of es i of Some v \<Rightarrow> Some (i, v) | None \<Rightarrow> find (\<lambda>(k, v). k < i) (rev es))"
proof -
  have "pick dir (from_index dir i es) = (case map_of es i of Some v \<Rightarrow> Some (i, v) | None \<Rightarrow> pick dir (beyond dir i es))" for dir
  proof (cases "map_of es i")
    case None
    then have "i \<notin> fst ` set es" by (simp add: map_of_eq_None_iff)
    then show ?thesis using None by (simp add: from_index_beyond)
  next
    case (Some v)
    then show ?thesis using pick_from_index_mem [OF assms map_of_SomeD [OF Some], of dir] by simp
  qed
  moreover have "pick NEXT (beyond NEXT i es) = find (\<lambda>(k, v). i < k) es"
    "pick PREV (beyond PREV i es) = find (\<lambda>(k, v). k < i) (rev es)"
    by (simp_all add: beyond_def pick_filter case_prod_unfold)
  ultimately show "find (\<lambda>(k, v). i \<le> k) es
      = (case map_of es i of Some v \<Rightarrow> Some (i, v) | None \<Rightarrow> find (\<lambda>(k, v). i < k) es)"
    "find (\<lambda>(k, v). k \<le> i) (rev es)
      = (case map_of es i of Some v \<Rightarrow> Some (i, v) | None \<Rightarrow> find (\<lambda>(k, v). k < i) (rev es))"
    by (simp_all only: flip: pick_from_index)
qed

lemma JudyLFirst_find:
  assumes "judyL_wf array"
  shows "JudyLFirst array (Some i) = nav_of (find (\<lambda>(k, v). unat i \<le> k) (judyL_entries array))"
  using judyL_entries_sorted [OF assms]
  by (simp add: JudyLFirst_def judyL_mem [OF assms] JudyLNext_find [OF assms] find_inclusive(1) split: option.split)

lemma JudyLLast_find:
  assumes "judyL_wf array"
  shows "JudyLLast array (Some i) = nav_of (find (\<lambda>(k, v). k \<le> unat i) (rev (judyL_entries array)))"
  using judyL_entries_sorted [OF assms]
  by (simp add: JudyLLast_def judyL_mem [OF assms] JudyLPrev_find [OF assms] find_inclusive(2) split: option.split)

interpretation judyL: ordered_index_map judyL_wf judyL_entries JudyLGet JudyLFirst JudyLNext JudyLLast JudyLPrev
  by unfold_locales
    (rule judyL_entries_sorted JudyLGet_lookup JudyLFirst_find JudyLNext_find JudyLLast_find JudyLPrev_find; assumption)+

section \<open>Properties\<close>

text \<open>C12: On every well-formed JudyL array and for every index, \<open>JudyLNext\<close> finds the pair with the least
  index greater than the given one and reports the end exactly when there is none: its three state
  machines end, the history arrays never overflow, no read leaves an array and no corruption is
  reported.\<close>

theorem JudyLNext_correct:
  assumes "judyL_wf array"
  shows "JudyLNext array (Some i)
    = (case find (\<lambda>(k, v). unat i < k) (judyL_entries array) of
         Some (k, v) \<Rightarrow> NavFound (word_of_nat k) v | None \<Rightarrow> NavNone)"
  unfolding JudyLNext_find [OF assms] nav_of_def by (simp split: option.split)

theorem JudyLNext_correct_witness:
  "JudyLNext judyL_sample (Some 0x020A0B0C0D0E0309)
     = (case find (\<lambda>(k, v). unat (0x020A0B0C0D0E0309 :: word_t) < k) (judyL_entries judyL_sample) of
         Some (k, v) \<Rightarrow> NavFound (word_of_nat k) v | None \<Rightarrow> NavNone) \<and>
   JudyLNext judyL_sample (Some 0x020A0B0C0D0E0309) = NavFound 0x020A0B0C0D0E7F42 4"
proof
  show "JudyLNext judyL_sample (Some 0x020A0B0C0D0E0309)
     = (case find (\<lambda>(k, v). unat (0x020A0B0C0D0E0309 :: word_t) < k) (judyL_entries judyL_sample) of
         Some (k, v) \<Rightarrow> NavFound (word_of_nat k) v | None \<Rightarrow> NavNone)"
    by (rule JudyLNext_correct [OF judyL_sample_wf])
  show "JudyLNext judyL_sample (Some 0x020A0B0C0D0E0309) = NavFound 0x020A0B0C0D0E7F42 4" by code_simp
qed

text \<open>C13: \<open>JudyLPrev\<close> finds the pair with the greatest index below the given one, and reports the
  beginning exactly when there is none.\<close>

theorem JudyLPrev_correct:
  assumes "judyL_wf array"
  shows "JudyLPrev array (Some i)
    = (case find (\<lambda>(k, v). k < unat i) (rev (judyL_entries array)) of
         Some (k, v) \<Rightarrow> NavFound (word_of_nat k) v | None \<Rightarrow> NavNone)"
  unfolding JudyLPrev_find [OF assms] nav_of_def by (simp split: option.split)

theorem JudyLPrev_correct_witness:
  "JudyLPrev judyL_sample (Some 0x020A0B0C0D0E0309)
     = (case find (\<lambda>(k, v). k < unat (0x020A0B0C0D0E0309 :: word_t)) (rev (judyL_entries judyL_sample)) of
         Some (k, v) \<Rightarrow> NavFound (word_of_nat k) v | None \<Rightarrow> NavNone) \<and>
   JudyLPrev judyL_sample (Some 0x0100000000000000) = NavFound 29 129"
proof
  show "JudyLPrev judyL_sample (Some 0x020A0B0C0D0E0309)
     = (case find (\<lambda>(k, v). k < unat (0x020A0B0C0D0E0309 :: word_t)) (rev (judyL_entries judyL_sample)) of
         Some (k, v) \<Rightarrow> NavFound (word_of_nat k) v | None \<Rightarrow> NavNone)"
    by (rule JudyLPrev_correct [OF judyL_sample_wf])
  show "JudyLPrev judyL_sample (Some 0x0100000000000000) = NavFound 29 129" by code_simp
qed

text \<open>C29: \<open>JudyLFirst\<close> and \<open>JudyLLast\<close> are the inclusive searches: the pair with the least index not below
  the given one, and the pair with the greatest index not above it.\<close>

theorem JudyLFirst_JudyLLast_correct:
  assumes "judyL_wf array"
  shows "JudyLFirst array (Some i)
      = (case find (\<lambda>(k, v). unat i \<le> k) (judyL_entries array) of
           Some (k, v) \<Rightarrow> NavFound (word_of_nat k) v | None \<Rightarrow> NavNone) \<and>
    JudyLLast array (Some i)
      = (case find (\<lambda>(k, v). k \<le> unat i) (rev (judyL_entries array)) of
           Some (k, v) \<Rightarrow> NavFound (word_of_nat k) v | None \<Rightarrow> NavNone)"
  unfolding JudyLFirst_find [OF assms] JudyLLast_find [OF assms] nav_of_def by (simp split: option.split)

theorem JudyLFirst_JudyLLast_correct_witness:
  "JudyLFirst judyL_sample (Some 5)
      = (case find (\<lambda>(k, v). unat (5 :: word_t) \<le> k) (judyL_entries judyL_sample) of
           Some (k, v) \<Rightarrow> NavFound (word_of_nat k) v | None \<Rightarrow> NavNone) \<and>
   JudyLFirst judyL_sample (Some 5) = NavFound 5 105"
proof
  show "JudyLFirst judyL_sample (Some 5)
      = (case find (\<lambda>(k, v). unat (5 :: word_t) \<le> k) (judyL_entries judyL_sample) of
           Some (k, v) \<Rightarrow> NavFound (word_of_nat k) v | None \<Rightarrow> NavNone)"
    by (rule JudyLFirst_JudyLLast_correct [OF judyL_sample_wf, THEN conjunct1])
  show "JudyLFirst judyL_sample (Some 5) = NavFound 5 105" by code_simp
qed

text \<open>C28: The loop that starts with \<open>JudyLFirst\<close> at 0 and goes on with \<open>JudyLNext\<close> ends and visits every
  pair of the array exactly once, in ascending order; the loop from \<open>JudyLLast\<close> at the greatest index
  down with \<open>JudyLPrev\<close> visits them in descending order.\<close>

theorem judyL_traversal:
  assumes "judyL_wf array"
  shows "traverse (\<lambda>i. JudyLNext array (Some i)) (Suc (length (judyL_entries array))) (JudyLFirst array (Some 0))
      = Some (word_pairs (judyL_entries array)) \<and>
    traverse (\<lambda>i. JudyLPrev array (Some i)) (Suc (length (judyL_entries array))) (JudyLLast array (Some (- 1)))
      = Some (word_pairs (rev (judyL_entries array)))"
  using judyL.traverse_first [OF assms] judyL.traverse_last [OF assms] by simp

theorem judyL_traversal_witness:
  "traverse (\<lambda>i. JudyLNext judyL_sample (Some i)) (Suc (length (judyL_entries judyL_sample))) (JudyLFirst judyL_sample (Some 0))
      = Some (word_pairs (judyL_entries judyL_sample)) \<and> length (judyL_entries judyL_sample) = 34"
  by (rule conjI [OF judyL_traversal [OF judyL_sample_wf, THEN conjunct1]])
    (simp only: judyL_sample_def judyL_entries.simps sample_entries)

end
