(* ===== verification/JudyCount.thy ===== *)
theory JudyCount
  imports JudyOrder
begin

text \<open>
  \<open>JudyLCount\<close> (\<open>src/Judy/src/JudyCommon/JudyCount.c\<close>): the number of indexes between two limits, as the
  difference of two inverse ordinals.  The motor \<open>j__udy1LCountSM\<close> adds up, on the way down to an index, the
  populations of the pointers above it in every branch, or subtracts those below it from the population of
  the branch, whichever touches fewer cache lines.  The assertions of the source and the test of
  \<open>DBGCODE\<close> are kept: \<open>CountUndefined\<close> stands for one that fails and for a read outside an array.
\<close>

section \<open>Populations of pointers\<close>

datatype 'a counted = Counted 'a | CountCorrupt | CountUndefined

fun then_count :: "'a counted \<Rightarrow> ('a \<Rightarrow> 'b counted) \<Rightarrow> 'b counted" where
  "then_count (Counted x) f = f x"
| "then_count CountCorrupt f = CountCorrupt"
| "then_count CountUndefined f = CountUndefined"

fun j__udyJPPop1 :: "'v jp \<Rightarrow> word_t" where
  "j__udyJPPop1 (JPBRANCH_L s dcd jbl) = (if 2 \<le> s \<and> s \<le> 7 then JU_JPBRANCH_POP0 dcd s + 1 else cJU_ALLONES)"
| "j__udyJPPop1 (JPBRANCH_B s dcd jbb) = (if 2 \<le> s \<and> s \<le> 7 then JU_JPBRANCH_POP0 dcd s + 1 else cJU_ALLONES)"
| "j__udyJPPop1 (JPBRANCH_U s dcd jbu) = (if 2 \<le> s \<and> s \<le> 7 then JU_JPBRANCH_POP0 dcd s + 1 else cJU_ALLONES)"
| "j__udyJPPop1 (JPLEAF s dcd keys vals) = (if 1 \<le> s \<and> s \<le> 7 then ucast (JU_JPLEAF_POP0 dcd) + 1 else cJU_ALLONES)"
| "j__udyJPPop1 (JPLEAF_B1 dcd jlb) = ucast (JU_JPLEAF_POP0 dcd) + 1"
| "j__udyJPPop1 (JPIMMED_01 s dcd v) = (if 1 \<le> s \<and> s \<le> 7 then 1 else cJU_ALLONES)"
| "j__udyJPPop1 (JPIMMED s keys vals) = (if immed_type_ok s keys then word_of_nat (length keys) else cJU_ALLONES)"
| "j__udyJPPop1 (JPNULL n) = cJU_ALLONES"
| "j__udyJPPop1 (JPINVALID t) = cJU_ALLONES"

text \<open>The loops over pointers: each population is added to or subtracted from the sum.\<close>

fun accrue :: "(word_t \<Rightarrow> word_t \<Rightarrow> word_t) \<Rightarrow> 'v jp option list \<Rightarrow> word_t \<Rightarrow> word_t counted" where
  "accrue f [] pop1above = Counted pop1above"
| "accrue f (None # jps) pop1above = CountUndefined"
| "accrue f (Some jp # jps) pop1above =
     (let pop1 = j__udyJPPop1 jp
      in if pop1 = cJU_ALLONES then CountCorrupt else accrue f jps (f pop1above pop1))"

section \<open>Branches: the population above the digit, and the pointer at it\<close>

text \<open>\<open>BranchL\<close>: \<open>jpnum\<close> counts down from above the last pointer.\<close>

fun count_branch_l :: "uint8 \<Rightarrow> (uint8 \<times> 'v jp) list \<Rightarrow> nat \<Rightarrow> word_t \<Rightarrow> (word_t \<times> 'v jp) counted" where
  "count_branch_l digit jbl 0 pop1above = CountUndefined"
| "count_branch_l digit jbl (Suc jpnum) pop1above =
     (case nth_opt jbl jpnum of
        None \<Rightarrow> CountUndefined
      | Some (expanse, jp) \<Rightarrow>
          if digit < expanse
          then let pop1 = j__udyJPPop1 jp
               in if pop1 = cJU_ALLONES then CountCorrupt
                  else if jpnum > 0 then count_branch_l digit jbl jpnum (pop1above + pop1) else CountUndefined
          else if digit = expanse then Counted (pop1above, jp) else CountUndefined)"

definition cJU_WORDSPERJP :: nat where "cJU_WORDSPERJP = 2"

definition cJU_WORDSPERCL :: nat where "cJU_WORDSPERCL = 128 div 8"

definition CLPERJPS :: "nat \<Rightarrow> nat" where
  "CLPERJPS jpcount = (jpcount * cJU_WORDSPERJP + cJU_WORDSPERCL - 1) div cJU_WORDSPERCL"

definition BMPJP :: "(uint32 \<times> 'v jp list) list \<Rightarrow> nat \<Rightarrow> nat \<Rightarrow> 'v jp option" where
  "BMPJP jbb subexp jpnum = (case nth_opt jbb subexp of None \<Rightarrow> None | Some (bitmap, jps) \<Rightarrow> nth_opt jps jpnum)"

definition sub_jpcount :: "(uint32 \<times> 'v jp list) list \<Rightarrow> nat \<Rightarrow> uint32 \<Rightarrow> nat" where
  "sub_jpcount jbb subexp lowermask = unat (j__udyCountBitsB (jbb_bitmap jbb subexp AND lowermask))"

text \<open>\<open>clbelow\<close> and \<open>clabove\<close>: cache lines on either side of the one of the digit's pointer.\<close>

definition cache_lines :: "(uint32 \<times> 'v jp list) list \<Rightarrow> nat \<Rightarrow> uint32 \<Rightarrow> nat \<times> nat" where
  "cache_lines jbb findsub lowermask =
     fold (\<lambda>subexp (clbelow, clabove).
         let jpcount = sub_jpcount jbb subexp (- 1)
         in if subexp < findsub then (clbelow + CLPERJPS jpcount, clabove)
            else if subexp > findsub then (clbelow, clabove + CLPERJPS jpcount)
            else let clfind = CLPERJPS (sub_jpcount jbb subexp lowermask)
                 in (clbelow + (clfind - 1), clabove + (CLPERJPS jpcount - clfind)))
       [0 ..< cJU_NUMSUBEXPB] (0, 0)"

definition count_branch_b :: "word_t \<Rightarrow> uint8 \<Rightarrow> (uint32 \<times> 'v jp list) list \<Rightarrow> (word_t \<times> 'v jp) counted" where
  "count_branch_b pop1 digit jbb =
     (let findsub = unat digit div cJU_BITSPERSUBEXPB;
          findbit = unat digit mod cJU_BITSPERSUBEXPB;
          lowermask = JU_MASKLOWERINC (JU_BITPOSMASKB findbit);
          jpcountbf = sub_jpcount jbb findsub lowermask
      in case cache_lines jbb findsub lowermask of (clbelow, clabove) \<Rightarrow>
         if jbb_bitmap jbb findsub AND JU_BITPOSMASKB (unat digit) = 0 then CountUndefined
         else then_count
           (if clbelow < clabove
            then accrue (-) (concat (map (\<lambda>subexp. map (BMPJP jbb subexp)
                     [0 ..< (if subexp < findsub then sub_jpcount jbb subexp (- 1) else jpcountbf)])
                   [0 ..< findsub + 1])) pop1
            else accrue (+) (concat (map (\<lambda>subexp. map (BMPJP jbb subexp)
                     (rev [(if subexp = findsub then jpcountbf else 0) ..< sub_jpcount jbb subexp (- 1)]))
                   (rev [findsub ..< cJU_NUMSUBEXPB]))) 0)
           (\<lambda>pop1above. case BMPJP jbb findsub (jpcountbf - 1) of
              None \<Rightarrow> CountUndefined | Some jp \<Rightarrow> Counted (pop1above, jp)))"

definition jbu_jps :: "'v jp list \<Rightarrow> nat list \<Rightarrow> 'v jp option list" where
  "jbu_jps jbu jpnums = filter (\<lambda>jp. case jp of None \<Rightarrow> True | Some jp \<Rightarrow> \<not> jp_is_null jp) (map (nth_opt jbu) jpnums)"

definition count_branch_u :: "word_t \<Rightarrow> uint8 \<Rightarrow> 'v jp list \<Rightarrow> (word_t \<times> 'v jp) counted" where
  "count_branch_u pop1 digit jbu =
     then_count
       (if unat digit < 256 div 2
        then accrue (-) (jbu_jps jbu [0 ..< unat digit + 1]) pop1
        else accrue (+) (jbu_jps jbu (rev [unat digit + 1 ..< 256])) 0)
       (\<lambda>pop1above. case nth_opt jbu (unat digit) of
          None \<Rightarrow> CountUndefined | Some jp \<Rightarrow> Counted (pop1above, jp))"

section \<open>Leaves: the population from the index on\<close>

text \<open>\<open>LEAFABOVE\<close>.\<close>

definition leaf_above :: "int option \<Rightarrow> word_t \<Rightarrow> word_t counted" where
  "leaf_above r pop1 =
     (case r of
        None \<Rightarrow> CountUndefined
      | Some offset \<Rightarrow>
          if offset < 0 \<or> offset \<ge> uint pop1 then CountUndefined else Counted (pop1 - word_of_int offset))"

definition bitmap_count :: "(word_t \<times> 'v list) list \<Rightarrow> nat \<Rightarrow> int" where
  "bitmap_count jlb subexp =
     (if jlb_bitmap jlb subexp = - 1 then int cJU_BITSPERSUBEXPL
      else int (unat (j__udyCountBitsL (jlb_bitmap jlb subexp))))"

definition j__udyCountLeafB1 :: "(word_t \<times> 'v list) list \<Rightarrow> word_t \<Rightarrow> word_t \<Rightarrow> int option" where
  "j__udyCountLeafB1 jlb pop1 index =
     (let digit = unat (index AND cJU_MASKATSTATE 1);
          findsub = digit div cJU_BITSPERSUBEXPL;
          findbit = digit mod cJU_BITSPERSUBEXPL;
          found = jlb_bitmap jlb findsub AND JU_BITPOSMASKL digit \<noteq> 0
      in if findsub < cJU_NUMSUBEXPL div 2
         then let count = sum_list (map (bitmap_count jlb) [0 ..< findsub])
                        + int (unat (j__udyCountBitsL (jlb_bitmap jlb findsub AND JU_MASKLOWERINC (JU_BITPOSMASKL findbit))))
              in if \<not> found then Some (NOT count) else if count \<ge> 1 then Some (count - 1) else None
         else let count = uint pop1 - sum_list (map (bitmap_count jlb) (rev [findsub + 1 ..< cJU_NUMSUBEXPL]))
                        - int (unat (j__udyCountBitsL (jlb_bitmap jlb findsub AND JU_MASKHIGHERINC (JU_BITPOSMASKL findbit))))
              in if \<not> found then Some (NOT count) else if count \<ge> 0 then Some count else None)"

section \<open>The motor\<close>

datatype 'v motor_step = CountDown word_t "'v jp" | CountReturn "word_t counted"

definition count_down :: "(word_t \<times> 'v jp) counted \<Rightarrow> 'v motor_step" where
  "count_down r = (case r of
     Counted (pop1above, jp) \<Rightarrow> CountDown pop1above jp
   | CountCorrupt \<Rightarrow> CountReturn CountCorrupt
   | CountUndefined \<Rightarrow> CountReturn CountUndefined)"

text \<open>\<open>CHECKDCD\<close> with \<open>PREPB\<close>, or \<open>PREPB_ROOT\<close> with the population in the JPM.\<close>

definition count_prepb :: "word_t \<Rightarrow> word_t \<Rightarrow> nat \<Rightarrow> dcdpop0 \<Rightarrow> (uint8 \<Rightarrow> word_t \<Rightarrow> (word_t \<times> 'v jp) counted) \<Rightarrow> 'v motor_step" where
  "count_prepb jpm_pop0 index s dcd branch =
     (if s < 2 \<or> 8 < s then CountReturn CountCorrupt
      else if s \<le> 7 \<and> JU_DCDNOTMATCHINDEX index dcd s then CountReturn CountUndefined
      else count_down (branch (JU_DIGITATSTATE index s) ((if s = 8 then jpm_pop0 else JU_JPBRANCH_POP0 dcd s) + 1)))"

fun count_step :: "word_t \<Rightarrow> word_t \<Rightarrow> 'v jp \<Rightarrow> 'v motor_step" where
  "count_step jpm_pop0 index (JPBRANCH_L s dcd jbl) =
     count_prepb jpm_pop0 index s dcd (\<lambda>digit pop1. count_branch_l digit jbl (length jbl) 0)"
| "count_step jpm_pop0 index (JPBRANCH_B s dcd jbb) =
     count_prepb jpm_pop0 index s dcd (\<lambda>digit pop1. count_branch_b pop1 digit jbb)"
| "count_step jpm_pop0 index (JPBRANCH_U s dcd jbu) =
     count_prepb jpm_pop0 index s dcd (\<lambda>digit pop1. count_branch_u pop1 digit jbu)"
| "count_step jpm_pop0 index (JPLEAF s dcd keys vals) =
     CountReturn (if s < 1 \<or> 7 < s then CountCorrupt
       else let pop1 = ucast (JU_JPLEAF_POP0 dcd) + 1 in leaf_above (search_leaf_state s keys pop1 index) pop1)"
| "count_step jpm_pop0 index (JPLEAF_B1 dcd jlb) =
     CountReturn (let pop1 = ucast (JU_JPLEAF_POP0 dcd) + 1 in leaf_above (j__udyCountLeafB1 jlb pop1 index) pop1)"
| "count_step jpm_pop0 index (JPIMMED_01 s dcd v) =
     CountReturn (if s < 1 \<or> 7 < s then CountCorrupt
       else if JU_JPDCDPOP0 dcd \<noteq> JU_TRIMTODCDSIZE index then CountUndefined else Counted 1)"
| "count_step jpm_pop0 index (JPIMMED s keys vals) =
     CountReturn (if \<not> immed_type_ok s keys then CountCorrupt
       else let pop1 = word_of_nat (length keys) in leaf_above (search_leaf_state s keys pop1 index) pop1)"
| "count_step jpm_pop0 index (JPNULL n) = CountReturn CountCorrupt"
| "count_step jpm_pop0 index (JPINVALID t) = CountReturn CountCorrupt"

lemma count_branch_l_mem: "count_branch_l digit jbl n p = Counted (q, c) \<Longrightarrow> c \<in> snd ` set jbl"
  by (induction n arbitrary: p) (force simp: Let_def dest: nth_opt_mem split: option.splits if_splits)+

lemma then_count_Counted: "then_count r f = Counted x \<longleftrightarrow> (\<exists>y. r = Counted y \<and> f y = Counted x)"
  by (cases r) auto

lemma count_down_Down: "count_down r = CountDown p c \<longleftrightarrow> r = Counted (p, c)"
  by (cases r) (auto simp: count_down_def)

lemma count_prepb_Down: "count_prepb pop0 index s dcd branch = CountDown p c \<Longrightarrow> \<exists>digit pop1. branch digit pop1 = Counted (p, c)"
  by (auto simp: count_prepb_def count_down_Down split: if_splits)

lemma size_count_step: "count_step pop0 index jp = CountDown p c \<Longrightarrow> size c < size jp"
proof (cases jp)
  case (JPBRANCH_L s dcd jbl)
  assume "count_step pop0 index jp = CountDown p c"
  then obtain d where "(d, c) \<in> set jbl"
    using JPBRANCH_L by (auto dest!: count_prepb_Down count_branch_l_mem)
  from size_list_elem [OF this, of "size_prod (\<lambda>_. 0) size"] show ?thesis using JPBRANCH_L by simp
next
  case (JPBRANCH_B s dcd jbb)
  assume "count_step pop0 index jp = CountDown p c"
  then obtain bm jps where "(bm, jps) \<in> set jbb" "c \<in> set jps"
    using JPBRANCH_B
    by (auto simp: count_branch_b_def BMPJP_def Let_def then_count_Counted dest!: count_prepb_Down nth_opt_mem
        split: if_splits option.splits prod.splits)
  from size_list_elem [OF this(1), of "size_prod (\<lambda>_. 0) (size_list size)"] size_list_elem [OF this(2), of size]
  show ?thesis using JPBRANCH_B by simp
next
  case (JPBRANCH_U s dcd jbu)
  assume "count_step pop0 index jp = CountDown p c"
  then have "c \<in> set jbu"
    using JPBRANCH_U
    by (force simp: count_branch_u_def then_count_Counted simp del: upt.simps dest!: count_prepb_Down dest: nth_opt_mem
        split: option.splits)
  from size_list_elem [OF this, of size] show ?thesis using JPBRANCH_U by simp
qed auto

function j__udy1LCountSM :: "word_t \<Rightarrow> word_t \<Rightarrow> 'v jp \<Rightarrow> word_t counted" where
  "j__udy1LCountSM jpm_pop0 index jp =
     (case count_step jpm_pop0 index jp of
        CountReturn r \<Rightarrow> r
      | CountDown pop1above c \<Rightarrow>
          then_count (j__udy1LCountSM jpm_pop0 index c) (\<lambda>pop1.
            if pop1above + pop1 = 0 then CountUndefined else Counted (pop1above + pop1)))"
  by pat_completeness auto
termination
  by (relation "measure (\<lambda>(pop0, index, jp). size jp)") (auto intro: size_count_step)

declare j__udy1LCountSM.simps [simp del]

section \<open>\<open>JudyLCount\<close>\<close>

text \<open>The case \<open>cJU_LEAFW\<close> of the motor, or the motor from the JPM.\<close>

definition count_from :: "'v judyL \<Rightarrow> word_t \<Rightarrow> word_t counted" where
  "count_from array index =
     (case array of
        JL_LEAFW pop0 keys vals \<Rightarrow> leaf_above (j__udySearchLeafW keys (pop0 + 1) index) (pop0 + 1)
      | JL_JPM pop0 jp \<Rightarrow> j__udy1LCountSM pop0 index jp
      | JL_NULL \<Rightarrow> CountUndefined)"

text \<open>The result 0 comes with the error code \<open>NONE\<close> or with \<open>CORRUPT\<close>.\<close>

datatype judy_count = CountIs word_t | CountNone | CountError | CountUndef

fun count_error :: "'a counted \<Rightarrow> ('a \<Rightarrow> judy_count) \<Rightarrow> judy_count" where
  "count_error (Counted x) f = f x"
| "count_error CountCorrupt f = CountError"
| "count_error CountUndefined f = CountUndef"

definition count_first :: "'v judyL \<Rightarrow> word_t \<Rightarrow> (word_t option \<Rightarrow> judy_count) \<Rightarrow> judy_count" where
  "count_first array index f =
     (case JudyLFirst array (Some index) of
        NavFound i v \<Rightarrow> count_error (count_from array i) (\<lambda>pop1. f (Some pop1))
      | NavNone \<Rightarrow> f None
      | NavUndefined \<Rightarrow> CountUndef
      | _ \<Rightarrow> CountError)"

definition count_above2 :: "'v judyL \<Rightarrow> word_t \<Rightarrow> word_t \<Rightarrow> judy_count" where
  "count_above2 array index2 pop1above1 =
     (if pop1above1 = 0 then CountUndef
      else if index2 = cJU_ALLONES then CountIs pop1above1
      else count_first array (index2 + 1) (\<lambda>r.
        case r of
          None \<Rightarrow> CountIs pop1above1
        | Some pop1above2 \<Rightarrow> if pop1above1 = pop1above2 then CountNone else CountIs (pop1above1 - pop1above2)))"

definition JudyLCount :: "'v judyL \<Rightarrow> word_t \<Rightarrow> word_t \<Rightarrow> judy_count" where
  "JudyLCount array index1 index2 =
     (if array = JL_NULL \<or> index1 > index2 then CountNone
      else if index1 = index2
      then (case JudyLGet array index1 of
              Found v \<Rightarrow> CountIs 1 | NotFound \<Rightarrow> CountNone | Corrupt \<Rightarrow> CountError | Undefined \<Rightarrow> CountUndef)
      else let pop1 = JU_LEAFW_POP0 array + 1
           in if pop1 = 0 then CountUndef
              else if index1 = 0 then count_above2 array index2 pop1
              else count_first array index1 (\<lambda>r.
                case r of None \<Rightarrow> CountNone | Some pop1above1 \<Rightarrow> count_above2 array index2 pop1above1))"

section \<open>The population of a pointer\<close>

definition entries_pop :: "(nat \<times> 'v) list \<Rightarrow> word_t" where
  "entries_pop es = word_of_nat (length es)"

lemma entries_pop_append [simp]: "entries_pop (xs @ ys) = entries_pop xs + entries_pop ys"
  by (simp add: entries_pop_def)

lemma entries_pop_Nil [simp]: "entries_pop [] = 0"
  by (simp add: entries_pop_def)

lemma unat_plus_1_word: "n = unat (w :: word_t) + 1 \<Longrightarrow> word_of_nat n = w + 1"
  by simp

lemma byte_plus_1_word: "n = unat (b :: uint8) + 1 \<Longrightarrow> (word_of_nat n :: word_t) = ucast b + 1"
  by (metis unat_plus_1_word unat_ucast_byte)

lemma placed_length:
  assumes "placed l P jp"
  shows "length (jp_entries P jp) \<le> 256 ^ l" "0 < length (jp_entries P jp)"
  using assms in_expanse_length [OF jp_entries_expanse] entries_nonempty [of l P jp] by (auto simp: placed_def)

lemma jp_pop1:
  assumes "placed l P jp" "l \<le> 7"
  shows "j__udyJPPop1 jp = entries_pop (jp_entries P jp)" "j__udyJPPop1 jp \<noteq> cJU_ALLONES" "j__udyJPPop1 jp \<noteq> 0"
proof -
  have wf: "jp_wf l P jp" "\<not> jp_is_null jp" using assms(1) by (simp_all add: placed_def)
  show eq: "j__udyJPPop1 jp = entries_pop (jp_entries P jp)"
  proof (cases jp rule: jp_cases_branch)
    case (branch s dcd)
    note w = wf(1) [unfolded jp_wf_branch [OF branch]]
    then have "length (jp_entries P jp) = unat (JU_JPBRANCH_POP0 dcd s) + 1" "2 \<le> s" "s \<le> 7" using assms(2) by auto
    then show ?thesis using branch unat_plus_1_word by (cases jp) (simp_all add: entries_pop_def)
  next
    case (leaf s dcd keys vals)
    then show ?thesis using wf(1) byte_plus_1_word [of "length keys"] by (auto simp: entries_pop_def)
  next
    case (leafb1 dcd jlb)
    then show ?thesis using wf(1) byte_plus_1_word [of "length (leafb1_values jlb)"] by (auto simp: entries_pop_def)
  next
    case (immed s keys vals)
    then show ?thesis using wf(1) by (auto simp: entries_pop_def immed_type_ok_def)
  qed (use wf in \<open>auto simp: entries_pop_def\<close>)
  have "length (jp_entries P jp) \<le> 256 ^ 7"
    using placed_length(1) [OF assms(1)] assms(2) power_increasing [of l 7 "256::nat"] by simp
  then have "unat (j__udyJPPop1 jp) = length (jp_entries P jp)" "length (jp_entries P jp) < 2 ^ 64 - 1"
    unfolding eq entries_pop_def by (simp_all add: unat_of_nat take_bit_nat_eq_self)
  moreover have "unat cJU_ALLONES = 2 ^ 64 - 1" by (simp add: cJU_ALLONES_def unsigned_minus_1_eq_mask mask_eq_exp_minus_1)
  ultimately show "j__udyJPPop1 jp \<noteq> cJU_ALLONES" "j__udyJPPop1 jp \<noteq> 0"
    using placed_length(2) [OF assms(1)] by auto
qed

section \<open>Branches\<close>

definition pops :: "(nat \<times> 'v jp) list \<Rightarrow> word_t" where
  "pops cs = sum_list (map (\<lambda>x. j__udyJPPop1 (snd x)) cs)"

lemma pops_simps [simp]:
  "pops [] = 0" "pops (x # cs) = j__udyJPPop1 (snd x) + pops cs" "pops (xs @ cs) = pops xs + pops cs"
  by (simp_all add: pops_def)

lemma pops_rev [simp]: "pops (rev cs) = pops cs"
  by (induction cs) (simp_all add: add.commute)

definition counted_pops :: "(nat \<times> 'v jp) list \<Rightarrow> bool" where
  "counted_pops cs \<longleftrightarrow> (\<forall>x\<in>set cs. j__udyJPPop1 (snd x) \<noteq> cJU_ALLONES)"

lemma counted_pops_simps [simp]:
  "counted_pops []" "counted_pops (x # cs) \<longleftrightarrow> j__udyJPPop1 (snd x) \<noteq> cJU_ALLONES \<and> counted_pops cs"
  "counted_pops (xs @ cs) \<longleftrightarrow> counted_pops xs \<and> counted_pops cs" "counted_pops (rev cs) \<longleftrightarrow> counted_pops cs"
  by (auto simp: counted_pops_def)

lemma accrue_pops:
  assumes "counted_pops cs"
  shows "accrue (+) (map (\<lambda>x. Some (snd x)) cs) p = Counted (p + pops cs)"
    and "accrue (-) (map (\<lambda>x. Some (snd x)) cs) p = Counted (p - pops cs)"
  using assms by (induction cs arbitrary: p) (auto simp: Let_def algebra_simps)

text \<open>An ascending list around the element of a digit.\<close>

lemma beyond_split:
  assumes "sorted_wrt (<) (map fst (xs @ (d, c) # ys))"
  shows "beyond PREV d (xs @ (d, c) # ys) = xs" "beyond NEXT d (xs @ (d, c) # ys) = ys"
  using beyond_at [OF assms, of "length xs"] by (simp_all add: nth_append)

lemma split_at_digit:
  assumes "sorted_wrt (<) (map fst cs)" "map_of cs d = Some c"
  obtains xs ys where "cs = xs @ (d, c) # ys" "beyond PREV d cs = xs" "beyond NEXT d cs = ys"
proof -
  from split_list [OF map_of_SomeD [OF assms(2)]] obtain xs ys where "cs = xs @ (d, c) # ys" by blast
  then show ?thesis using beyond_split [of xs d c ys] assms(1) that by blast
qed

lemma split_unique:
  fixes xs ys :: "(nat \<times> 'a) list"
  assumes "sorted_wrt (<) (map fst cs)" "cs = xs @ (d, c) # ys"
  shows "beyond PREV d cs = xs" "beyond NEXT d cs = ys" "map_of cs d = Some c"
proof -
  show "beyond PREV d cs = xs" "beyond NEXT d cs = ys" using beyond_split [of xs d c ys] assms by simp_all
  show "map_of cs d = Some c" using assms by (intro map_of_is_SomeI) (auto simp: strict_sorted_iff)
qed

lemma count_branch_l_eq:
  assumes "sorted_wrt (<) (map fst jbl)" "map_of (jbl_pairs jbl) (unat digit) = Some c" "counted_pops (jbl_pairs jbl)"
  shows "count_branch_l digit jbl (length jbl) 0 = Counted (pops (beyond NEXT (unat digit) (jbl_pairs jbl)), c)"
proof -
  have run: "count_branch_l digit (us @ (digit, c) # vs @ ws) (Suc (length us + length vs)) p = Counted (p + pops (jbl_pairs vs), c)"
    if "\<forall>x\<in>set vs. digit < fst x" "counted_pops (jbl_pairs vs)" for us vs ws :: "(uint8 \<times> 'a jp) list" and p
    using that
  proof (induction vs arbitrary: ws p rule: rev_induct)
    case (snoc x vs)
    obtain e jp where x: "x = (e, jp)" by (cases x)
    have "nth_opt (us @ (digit, c) # vs @ (e, jp) # ws) (Suc (length us + length vs)) = Some (e, jp)"
      by (simp add: nth_opt_def nth_append)
    then show ?case using snoc.prems snoc.IH [of "(e, jp) # ws" "p + j__udyJPPop1 jp"]
      by (simp add: x jbl_pairs_def Let_def algebra_simps)
  qed (simp add: nth_opt_def nth_append jbl_pairs_def)
  from map_of_SomeD [OF assms(2)] have "(digit, c) \<in> set jbl" by (auto simp: jbl_pairs_def simp flip: word_unat_eq_iff)
  then obtain us vs where jbl: "jbl = us @ (digit, c) # vs" by (meson split_list)
  have "jbl_pairs jbl = jbl_pairs us @ (unat digit, c) # jbl_pairs vs" by (simp add: jbl jbl_pairs_def)
  from split_unique(2) [OF jbl_pairs_sorted [OF assms(1)] this]
  have ys: "beyond NEXT (unat digit) (jbl_pairs jbl) = jbl_pairs vs" .
  have "\<forall>x\<in>set vs. digit < fst x" using assms(1) by (auto simp: jbl sorted_wrt_append)
  moreover have "counted_pops (jbl_pairs vs)" using assms(3) by (simp add: jbl jbl_pairs_def)
  ultimately show ?thesis unfolding ys using run [of vs us "[]" 0] by (simp add: jbl)
qed

lemma jbu_jps_eq:
  assumes "\<And>k. k \<in> set ks \<Longrightarrow> k < length jbu"
  shows "jbu_jps jbu ks = map (\<lambda>x. Some (snd x)) (concat (map (jbu_block jbu) ks))"
  using assms by (induction ks) (auto simp: jbu_jps_def jbu_block_def nth_opt_def)

lemma jbu_split:
  assumes "length jbu = 256" "d < 256" "map_of (concat (map (jbu_block jbu) [0..<256])) d = Some c"
  shows "concat (map (jbu_block jbu) [0..<256])
      = concat (map (jbu_block jbu) [0..<d]) @ (d, c) # concat (map (jbu_block jbu) [d + 1..<256])"
    and "nth_opt jbu d = Some c"
proof -
  obtain k where "k < 256" "(d, c) \<in> set (jbu_block jbu k)" using map_of_SomeD [OF assms(3)] by auto
  then have d: "jbu_block jbu d = [(d, c)]" "jbu ! d = c" by (auto simp: jbu_block_def split: if_splits)
  then show "nth_opt jbu d = Some c" using assms(1,2) by simp
  have "[0..<256] = [0..<d] @ d # [d + 1..<256]" using assms(2) upt_add_eq_append [of 0 d "256 - d"] upt_conv_Cons [of d 256] by simp
  then have "concat (map (jbu_block jbu) [0..<256])
      = concat (map (jbu_block jbu) ([0..<d] @ d # [d + 1..<256]))" by (rule arg_cong)
  then show "concat (map (jbu_block jbu) [0..<256])
      = concat (map (jbu_block jbu) [0..<d]) @ (d, c) # concat (map (jbu_block jbu) [d + 1..<256])"
    by (simp add: d(1) del: upt.simps)
qed

lemma concat_rev_blocks: "(\<And>k. length (g k) \<le> 1) \<Longrightarrow> concat (map g (rev ks)) = rev (concat (map g ks))"
proof (induction ks)
  case (Cons k ks)
  have "rev (g k) = g k" using Cons.prems [of k] by (cases "g k") auto
  then show ?case using Cons by simp
qed simp

lemma count_branch_u_eq:
  fixes jbu :: "'v jp list"
  defines "cs \<equiv> concat (map (jbu_block jbu) [0..<256])"
  assumes "length jbu = 256" "sorted_wrt (<) (map fst cs)" "map_of cs (unat digit) = Some c"
    and "counted_pops cs" "pop1 = pops cs"
  shows "count_branch_u pop1 digit jbu = Counted (pops (beyond NEXT (unat digit) cs), c)"
proof -
  let ?d = "unat digit"
  let ?below = "concat (map (jbu_block jbu) [0..<?d])" and ?above = "concat (map (jbu_block jbu) [?d + 1..<256])"
  have d: "?d < 256" by (rule unat_byte_less)
  note split = jbu_split [OF assms(2) d assms(4) [unfolded cs_def]]
  have cs: "cs = ?below @ (?d, c) # ?above" unfolding cs_def by (rule split(1))
  note u = split_unique [OF assms(3) cs]
  have ok: "counted_pops (?below @ [(?d, c)])" "counted_pops (rev ?above)" using assms(5) unfolding cs by simp_all
  have "jbu_block jbu ?d = [(?d, c)]" using u(3) map_of_SomeD [OF assms(4)] by (auto simp: cs_def jbu_block_def split: if_splits)
  then have up: "jbu_jps jbu [0..<?d + 1] = map (\<lambda>x. Some (snd x)) (?below @ [(?d, c)])"
    using d by (subst jbu_jps_eq) (auto simp: assms(2))
  have "concat (map (jbu_block jbu) (rev [?d + 1..<256])) = rev ?above" by (rule concat_rev_blocks) (simp add: jbu_block_def)
  then have down: "jbu_jps jbu (rev [?d + 1..<256]) = map (\<lambda>x. Some (snd x)) (rev ?above)"
    by (subst jbu_jps_eq) (simp_all add: assms(2))
  have "pop1 - pops (?below @ [(?d, c)]) = pops ?above" unfolding assms(6) cs by simp
  then show ?thesis
    unfolding count_branch_u_def up down accrue_pops [OF ok(1)] accrue_pops [OF ok(2)] u(2) split(2)
    by simp
qed

lemma sub_jpcount_eq:
  assumes "bm_shape 8 jbb" "k < 8"
  shows "sub_jpcount jbb k (- 1) = length (bm_block jbb k)"
    and "m < 32 \<Longrightarrow> sub_jpcount jbb k (JU_MASKLOWERINC (JU_BITPOSMASKB m)) = bits_below (jbb_bitmap jbb k) (Suc m)"
proof -
  show "sub_jpcount jbb k (- 1) = length (bm_block jbb k)"
    unfolding sub_jpcount_def count_bits_B using jbb_sub(3) [OF assms] by simp
  show "sub_jpcount jbb k (JU_MASKLOWERINC (JU_BITPOSMASKB m)) = bits_below (jbb_bitmap jbb k) (Suc m)" if "m < 32"
    unfolding sub_jpcount_def count_bits_B
    using mask_lower_inc [of m, where 'a = 32] positions_mask_length [of "Suc m" "jbb_bitmap jbb k"] that
    by (simp add: JU_BITPOSMASKB_def cJU_BITSPERSUBEXPB_def del: jbb_bitmap.simps)
qed

lemma BMPJP_block:
  assumes "bm_shape 8 jbb" "k < 8" "i < length (bm_block jbb k)"
  shows "BMPJP jbb k i = Some (snd (bm_block jbb k ! i))"
proof -
  obtain bm jps where x: "jbb ! k = (bm, jps)" by (cases "jbb ! k")
  note b = bm_block_sub [OF assms(1,2) x]
  show ?thesis using assms(3) b by (simp add: BMPJP_def)
qed

lemma BMPJP_map:
  assumes "bm_shape 8 jbb" "k < 8" "m \<le> length (bm_block jbb k)"
  shows "map (BMPJP jbb k) [0..<m] = map (\<lambda>x. Some (snd x)) (take m (bm_block jbb k))"
    and "map (BMPJP jbb k) (rev [m..<length (bm_block jbb k)]) = map (\<lambda>x. Some (snd x)) (rev (drop m (bm_block jbb k)))"
proof -
  show "map (BMPJP jbb k) [0..<m] = map (\<lambda>x. Some (snd x)) (take m (bm_block jbb k))"
    using assms by (intro nth_equalityI) (simp_all add: BMPJP_block)
  have "map (BMPJP jbb k) [m..<length (bm_block jbb k)] = map (\<lambda>x. Some (snd x)) (drop m (bm_block jbb k))"
    using assms by (intro nth_equalityI) (simp_all add: BMPJP_block)
  then show "map (BMPJP jbb k) (rev [m..<length (bm_block jbb k)]) = map (\<lambda>x. Some (snd x)) (rev (drop m (bm_block jbb k)))"
    by (simp flip: rev_map)
qed

lemma concat_blocks_rev: "concat (map (\<lambda>k. rev (g k)) (rev ks)) = rev (concat (map g ks))"
  by (induction ks) auto

text \<open>The pairs of a bitmap around a digit: the blocks below, its own block, the blocks above.\<close>

lemma bm_split:
  fixes subs :: "('a::len word \<times> 'b list) list"
  assumes "bm_shape N subs" "d < LENGTH('a) * N" "sorted_wrt (<) (map fst (concat (map (bm_block subs) [0..<N])))"
    and "map_of (concat (map (bm_block subs) [0..<N])) d = Some c"
  defines "k \<equiv> d div LENGTH('a)" and "m \<equiv> d mod LENGTH('a)"
  defines "b \<equiv> bm_block subs k" and "n \<equiv> bits_below (fst (subs ! k)) m"
  shows "bit (fst (subs ! k)) m" "n < length b" "b ! n = (d, c)"
    and "concat (map (bm_block subs) [0..<N])
      = (concat (map (bm_block subs) [0..<k]) @ take n b) @ (d, c) # (drop (Suc n) b @ concat (map (bm_block subs) [k + 1..<N]))"
proof -
  let ?below = "concat (map (bm_block subs) [0..<k])" and ?above = "concat (map (bm_block subs) [k + 1..<N])"
  have k: "k < N" using assms(2) by (simp add: k_def less_mult_imp_div_less mult.commute)
  have mem: "(d, c) \<in> set b"
  proof -
    obtain j where "j < N" "(d, c) \<in> set (bm_block subs j)" using map_of_SomeD [OF assms(4)] by auto
    then show ?thesis using bm_block_digit [of "(d, c)" subs j] by (simp add: b_def k_def)
  qed
  obtain bm xs where x: "subs ! k = (bm, xs)" by (cases "subs ! k")
  note sub = bm_block_sub [OF assms(1) k x]
  have "m \<in> set (set_positions bm)"
  proof -
    obtain i where "i \<in> set (set_positions bm)" "d = LENGTH('a) * k + i"
      using mem sub(1) by (auto simp: b_def dest!: set_zip_leftD)
    moreover then have "i = m" using mult_div_mod_eq [of "LENGTH('a)" d] unfolding k_def m_def by linarith
    ultimately show ?thesis by simp
  qed
  then show bit: "bit (fst (subs ! k)) m" by (simp add: x set_positions_iff)
  have "n < length (set_positions bm)" "set_positions bm ! n = m" using nth_bits_below [OF bit] by (simp_all add: n_def x)
  moreover have "b = zip (map ((+) (LENGTH('a) * k)) (set_positions bm)) xs" "length xs = length (set_positions bm)"
    using sub by (simp_all add: b_def)
  ultimately show n: "n < length b" and f: "b ! n = (d, c)"
  proof -
    assume a: "n < length (set_positions bm)" "set_positions bm ! n = m" "b = zip (map ((+) (LENGTH('a) * k)) (set_positions bm)) xs"
      "length xs = length (set_positions bm)"
    then show n: "n < length b" by simp
    obtain j where j: "j < length b" "b ! j = (d, c)" using mem by (auto simp: in_set_conv_nth)
    then have "LENGTH('a) * k + set_positions bm ! j = d" using a by simp
    moreover have "LENGTH('a) * k + m = d" by (simp add: k_def m_def)
    ultimately have "set_positions bm ! j = set_positions bm ! n" using a(2) by simp
    then have "j = n" using a(1,3,4) j(1) sorted_set_positions [of bm] by (simp add: nth_eq_iff_index_eq strict_sorted_iff)
    then show "b ! n = (d, c)" using j(2) by simp
  qed
  have "[0..<N] = [0..<k] @ k # [k + 1..<N]" using k upt_add_eq_append [of 0 k "N - k"] upt_conv_Cons [of k N] by simp
  then have "concat (map (bm_block subs) [0..<N]) = concat (map (bm_block subs) ([0..<k] @ k # [k + 1..<N]))" by (rule arg_cong)
  also have "\<dots> = ?below @ b @ ?above" by (simp add: b_def del: upt.simps)
  finally show "concat (map (bm_block subs) [0..<N]) = (?below @ take n b) @ (d, c) # (drop (Suc n) b @ ?above)"
    using id_take_nth_drop [OF n] f by simp
qed

lemma count_branch_b_eq:
  fixes jbb :: "(uint32 \<times> 'v jp list) list"
  defines "cs \<equiv> concat (map (bm_block jbb) [0..<8])"
  assumes "bm_shape 8 jbb" "sorted_wrt (<) (map fst cs)" "map_of cs (unat digit) = Some c"
    and "counted_pops cs" "pop1 = pops cs"
  shows "count_branch_b pop1 digit jbb = Counted (pops (beyond NEXT (unat digit) cs), c)"
proof -
  let ?d = "unat digit"
  let ?k = "?d div 32" and ?m = "?d mod 32"
  define b n where "b = bm_block jbb ?k" and "n = bits_below (jbb_bitmap jbb ?k) ?m"
  let ?below = "concat (map (bm_block jbb) [0..<?k])" and ?above = "concat (map (bm_block jbb) [?k + 1..<8])"
  have d: "?d < 256" by (rule unat_byte_less)
  then have k: "?k < 8" by simp
  have d8: "?d < LENGTH(32) * 8" using d by simp
  have fst: "fst (jbb ! ?k) = jbb_bitmap jbb ?k" using jbb_bitmap_fst [OF assms(2) k] by simp
  note split = bm_split [OF assms(2) d8 assms(3,4) [unfolded cs_def], simplified, folded cs_def, unfolded fst, folded b_def n_def]
  have bit: "bit (jbb_bitmap jbb ?k) ?m" and nlen: "n < length b" and bn: "b ! n = (?d, c)" by (rule split)+
  have cs: "cs = (?below @ take n b) @ (?d, c) # (drop (Suc n) b @ ?above)" using split(4) by simp
  have Suc: "bits_below (jbb_bitmap jbb ?k) (Suc ?m) = Suc n" using bit by (simp add: n_def bits_below_Suc del: jbb_bitmap.simps)
  note u = split_unique [OF assms(3) cs]
  let ?up = "?below @ take (Suc n) b" and ?down = "rev (drop (Suc n) b @ ?above)"
  have take: "take (Suc n) b = take n b @ [(?d, c)]" using nlen bn by (simp add: take_Suc_conv_app_nth)
  have ok: "counted_pops ?up" "counted_pops ?down" using assms(5) unfolding cs take by simp_all
  have jpc: "sub_jpcount jbb ?k (JU_MASKLOWERINC (JU_BITPOSMASKB ?m)) = Suc n"
    using sub_jpcount_eq(2) [OF assms(2) k, of ?m] Suc by simp
  have up: "concat (map (\<lambda>subexp. map (BMPJP jbb subexp)
      [0 ..< (if subexp < ?k then sub_jpcount jbb subexp (- 1) else Suc n)]) [0 ..< ?k + 1]) = map (\<lambda>x. Some (snd x)) ?up"
  proof -
    have "map (BMPJP jbb j) [0 ..< sub_jpcount jbb j (- 1)] = map (\<lambda>x. Some (snd x)) (bm_block jbb j)" if "j < 8" for j
      using BMPJP_map(1) [OF assms(2) that, of "length (bm_block jbb j)"] sub_jpcount_eq(1) [OF assms(2) that] by simp
    then have A: "map (\<lambda>j. map (BMPJP jbb j) [0 ..< (if j < ?k then sub_jpcount jbb j (- 1) else Suc n)]) [0..<?k]
        = map (\<lambda>j. map (\<lambda>x. Some (snd x)) (bm_block jbb j)) [0..<?k]" using k by (intro map_cong) auto
    have B: "map (BMPJP jbb ?k) [0..<Suc n] = map (\<lambda>x. Some (snd x)) (take (Suc n) b)"
      using BMPJP_map(1) [OF assms(2) k, of "Suc n"] nlen by (simp add: b_def)
    have "[0..<?k + 1] = [0..<?k] @ [?k]" by simp
    then show ?thesis
      by (simp only: map_append concat_append A list.map concat.simps if_False less_irrefl B append_Nil2)
        (simp only: map_concat map_map comp_def)
  qed
  have down: "concat (map (\<lambda>subexp. map (BMPJP jbb subexp)
      (rev [(if subexp = ?k then Suc n else 0) ..< sub_jpcount jbb subexp (- 1)])) (rev [?k ..< 8])) = map (\<lambda>x. Some (snd x)) ?down"
  proof -
    let ?g = "\<lambda>j. drop (if j = ?k then Suc n else 0) (bm_block jbb j)"
    have "map (BMPJP jbb j) (rev [(if j = ?k then Suc n else 0) ..< sub_jpcount jbb j (- 1)]) = map (\<lambda>x. Some (snd x)) (rev (?g j))"
      if "j < 8" for j
      using BMPJP_map(2) [OF assms(2) that, of "if j = ?k then Suc n else 0"] sub_jpcount_eq(1) [OF assms(2) that] nlen
      by (auto simp: b_def)
    then have "concat (map (\<lambda>j. map (BMPJP jbb j) (rev [(if j = ?k then Suc n else 0) ..< sub_jpcount jbb j (- 1)])) (rev [?k..<8]))
        = concat (map (\<lambda>j. map (\<lambda>x. Some (snd x)) (rev (?g j))) (rev [?k..<8]))"
      by (intro arg_cong [where f = concat] map_cong) auto
    also have "\<dots> = map (\<lambda>x. Some (snd x)) (concat (map (\<lambda>j. rev (?g j)) (rev [?k..<8])))" by (simp add: map_concat comp_def)
    also have "concat (map (\<lambda>j. rev (?g j)) (rev [?k..<8])) = rev (concat (map ?g [?k..<8]))" by (rule concat_blocks_rev)
    also have "concat (map ?g [?k..<8]) = drop (Suc n) b @ ?above"
    proof -
      have k8: "[?k..<8] = ?k # [?k + 1..<8]" using k upt_conv_Cons [of ?k 8] by simp
      have A: "map ?g [?k + 1..<8] = map (bm_block jbb) [?k + 1..<8]" by (intro map_cong) auto
      show ?thesis by (simp only: k8 list.map A concat.simps b_def if_True simp_thms)
    qed
    finally show ?thesis .
  qed
  have "pop1 - pops ?up = pops (beyond NEXT ?d cs)" unfolding assms(6) u(2) take by (subst cs) simp
  then have U: "accrue (-) (map (\<lambda>x. Some (snd x)) ?up) pop1 = Counted (pops (beyond NEXT ?d cs))"
    unfolding accrue_pops(2) [OF ok(1)] by simp
  have D: "accrue (+) (map (\<lambda>x. Some (snd x)) ?down) 0 = Counted (pops (beyond NEXT ?d cs))"
    unfolding accrue_pops(1) [OF ok(2)] u(2) by simp
  have at: "BMPJP jbb ?k n = Some c" using BMPJP_block [OF assms(2) k, of n] nlen bn by (simp add: b_def)
  have test: "jbb_bitmap jbb ?k AND JU_BITPOSMASKB ?d \<noteq> 0" using bit by (simp add: test_bit_B del: jbb_bitmap.simps)
  show ?thesis
    unfolding count_branch_b_def Let_def cJU_BITSPERSUBEXPB_def cJU_NUMSUBEXPB_def jpc up down U D
    using test at by (simp split: prod.split del: jbb_bitmap.simps)
qed

section \<open>One step at a branch\<close>

text \<open>The populations of the children beyond a digit are the numbers of their pairs.\<close>

lemma placed_pops:
  assumes "placed l P jp" "jp_branch jp = Some (s, dcd)" "\<And>x. x \<in> set cs \<Longrightarrow> x \<in> set (live jp)"
  shows "pops cs = entries_pop (concat (map (child_entries P s dcd) cs))" "counted_pops cs"
proof -
  note b = placed_branch [OF assms(1,2)]
  have s: "s - 1 \<le> 7" using b(3) by simp
  have child: "j__udyJPPop1 (snd x) = entries_pop (child_entries P s dcd x)" "j__udyJPPop1 (snd x) \<noteq> cJU_ALLONES"
    if "x \<in> set cs" for x
    unfolding child_entries_def using jp_pop1 [OF b(8) [OF assms(3) [OF that]] s] by simp_all
  show "pops cs = entries_pop (concat (map (child_entries P s dcd) cs))" using child(1) by (induction cs) simp_all
  show "counted_pops cs" using child(2) by (simp add: counted_pops_def)
qed

lemma count_branch:
  assumes "placed l P jp" "jp_branch jp = Some (s, dcd)" "within (jp_base P s dcd) s index" "within P l index"
    and "l = 8 \<Longrightarrow> jpm_pop0 + 1 = entries_pop (jp_entries P jp)"
    and "map_of (live jp) (unat (JU_DIGITATSTATE index s)) = Some c"
  shows "count_step jpm_pop0 index jp
    = CountDown (entries_pop (concat (map (child_entries P s dcd) (beyond NEXT (unat (JU_DIGITATSTATE index s)) (live jp))))) c"
proof -
  note b = placed_branch [OF assms(1,2)]
  let ?digit = "JU_DIGITATSTATE index s"
  let ?pop1 = "(if s = 8 then jpm_pop0 else JU_JPBRANCH_POP0 dcd s) + 1"
  have wf: "jp_wf l P jp" "256 ^ l dvd P" using assms(1) by (simp_all add: placed_def)
  have pops: "pops (live jp) = entries_pop (jp_entries P jp)" "counted_pops (live jp)"
    using placed_pops [OF assms(1,2)] live_entries [OF assms(2), of P] by simp_all
  have pop1: "?pop1 = pops (live jp)"
  proof (cases "s = 8")
    case True
    then show ?thesis using assms(5) b(4,5) pops(1) by auto
  next
    case False
    then have "length (jp_entries P jp) = unat (JU_JPBRANCH_POP0 dcd s) + 1" using wf(1) b(3) jp_wf_branch [OF assms(2)] by auto
    then show ?thesis using False unat_plus_1_word pops(1) by (simp add: entries_pop_def)
  qed
  have dcd: "\<not> JU_DCDNOTMATCHINDEX index dcd s" if "s \<le> 7"
  proof -
    have l: "l \<le> 7" using that b(5) by auto
    show ?thesis using in_base_iff [of l P "unat index" s dcd] dcd_match [of s index dcd] l that b(2) assms(3,4) by (auto simp: within_def)
  qed
  have "count_step jpm_pop0 index jp = count_down (Counted (pops (beyond NEXT (unat ?digit) (live jp)), c))"
    using b(1)
  proof (cases rule: branch_ok_cases)
    case (L jbl)
    have "count_branch_l ?digit jbl (length jbl) 0 = Counted (pops (beyond NEXT (unat ?digit) (live jp)), c)"
      unfolding L(2) using assms(6) pops(2) L(2,3) by (intro count_branch_l_eq) simp_all
    then show ?thesis using dcd b(2,3) by (auto simp: L(1) count_prepb_def)
  next
    case (B jbb)
    have "count_branch_b ?pop1 ?digit jbb = Counted (pops (beyond NEXT (unat ?digit) (live jp)), c)"
      unfolding B(2) using assms(6) pops(2) B(2,3) pop1 live_sorted(1) [OF b(1)] by (intro count_branch_b_eq) simp_all
    then show ?thesis using dcd b(2,3) by (auto simp: B(1) count_prepb_def)
  next
    case (U jbu)
    have "count_branch_u ?pop1 ?digit jbu = Counted (pops (beyond NEXT (unat ?digit) (live jp)), c)"
      unfolding U(2) using assms(6) pops(2) U(2,3) pop1 live_sorted(1) [OF b(1)] by (intro count_branch_u_eq) simp_all
    then show ?thesis using dcd b(2,3) by (auto simp: U(1) count_prepb_def)
  qed
  moreover have "pops (beyond NEXT (unat ?digit) (live jp))
      = entries_pop (concat (map (child_entries P s dcd) (beyond NEXT (unat ?digit) (live jp))))"
    by (rule placed_pops(1) [OF assms(1,2)]) (simp add: beyond_def)
  ultimately show ?thesis by (simp add: count_down_def)
qed

section \<open>Leaves\<close>

definition pop_from :: "word_t \<Rightarrow> (nat \<times> 'v) list \<Rightarrow> word_t" where
  "pop_from index es = entries_pop (from_index NEXT (unat index) es)"

lemma leaf_above_eq:
  assumes "n < length es" "unat pop1 = length es" "from_index NEXT (unat index) es = drop n es"
  shows "leaf_above (Some (int n)) pop1 = Counted (pop_from index es)"
proof -
  have "pop1 = word_of_nat (length es)" using assms(2) by (metis unat_eq_word)
  then have "pop1 - word_of_int (int n) = word_of_nat (length es - n)" using assms(1) by (simp add: of_nat_diff)
  moreover have "int n < uint pop1" using assms(1,2) by (simp only: uint_nat of_nat_less_iff)
  ultimately show ?thesis using assms(3) by (simp add: leaf_above_def pop_from_def entries_pop_def)
qed

lemma leaf_keys_above:
  fixes B :: nat and pop1 :: word_t
  assumes "sorted_wrt (<) keys" "length vals = length keys" "unat pop1 = length keys" "x \<in> set keys" "unat index = B + unat x"
  shows "leaf_above (Some (search_result keys x)) pop1 = Counted (pop_from index (zip (map (\<lambda>k. B + unat k) keys) vals))"
proof -
  have "insertion_point keys x < length keys" using insertion_point_mem [OF assms(1)] assms(4) by blast
  then show ?thesis
    unfolding search_result_def if_P [OF assms(4)]
    using assms(2,3,5) from_index_keys(1) [OF assms(1,2), of B x] by (intro leaf_above_eq) simp_all
qed

lemma leaf_key_mem:
  assumes "leaf_keys_ok s keys" "within B s index" "1 \<le> s" "s \<le> 8" "unat index \<in> fst ` set (zip (map (\<lambda>k. B + unat k) keys) vals)"
  shows "JU_LEASTBYTES index s \<in> set keys" "unat index = B + unat (JU_LEASTBYTES index s)"
proof -
  show i: "unat index = B + unat (JU_LEASTBYTES index s)"
    using offset_is_leastbytes(1) [of s B index] assms(2-4) unfolding within_def by linarith
  obtain k where "k \<in> set keys" "unat index = B + unat k" using assms(5) by (auto dest!: set_zip_leftD)
  moreover then have "k = JU_LEASTBYTES index s" using i by (simp add: word_unat_eq_iff)
  ultimately show "JU_LEASTBYTES index s \<in> set keys" by simp
qed

lemma mask_higher_inc: "JU_MASKHIGHERINC (push_bit n 1 :: 'a::len word) = NOT (mask n)"
  by (simp add: JU_MASKHIGHERINC_def minus_eq_not_minus_1 mask_eq_exp_minus_1)

lemma positions_higher_length:
  assumes "n \<le> LENGTH('a)"
  shows "length (set_positions (w AND NOT (mask n) :: 'a::len word)) = length (set_positions w) - bits_below w n"
proof -
  have all: "[0..<LENGTH('a)] = [0..<n] @ [n..<LENGTH('a)]" using assms upt_add_eq_append [of 0 n "LENGTH('a) - n"] by simp
  have "filter (bit (w AND NOT (mask n))) [0..<n] = []" by (auto simp: filter_empty_conv bit_simps)
  moreover have "filter (bit (w AND NOT (mask n))) [n..<LENGTH('a)] = filter (bit w) [n..<LENGTH('a)]"
    by (intro filter_cong) (auto simp: bit_simps)
  ultimately show ?thesis unfolding set_positions_def all by (simp add: bits_below_def)
qed

lemma bitmap_count_eq: "bm_shape 4 jlb \<Longrightarrow> k < 4 \<Longrightarrow> bitmap_count jlb k = int (length (bm_block jlb k))"
  using jlb_sub(2) [of jlb k] set_positions_all [where 'a = 64]
  by (auto simp: bitmap_count_def cJU_BITSPERSUBEXPL_def count_bits_L simp del: jlb_bitmap.simps)

lemma sum_bitmap_count:
  assumes "bm_shape 4 jlb" "\<And>k. k \<in> set ks \<Longrightarrow> k < 4"
  shows "sum_list (map (bitmap_count jlb) ks) = int (length (concat (map (bm_block jlb) ks)))"
    and "sum_list (map (bitmap_count jlb) (rev ks)) = int (length (concat (map (bm_block jlb) ks)))"
  using assms by (induction ks) (simp_all add: bitmap_count_eq)

lemma count_leaf_b1:
  fixes index :: word_t
  assumes "bm_shape 4 jlb" "unat pop1 = length (leafb1_values jlb)"
  defines "d \<equiv> unat (index AND cJU_MASKATSTATE 1)"
  assumes "d < 256" "map_of (leafb1_values jlb) d = Some v"
  shows "j__udyCountLeafB1 jlb pop1 index = Some (int (length (beyond PREV d (leafb1_values jlb))))"
    and "length (beyond PREV d (leafb1_values jlb)) < length (leafb1_values jlb)"
    and "from_index NEXT d (leafb1_values jlb) = drop (length (beyond PREV d (leafb1_values jlb))) (leafb1_values jlb)"
proof -
  let ?k = "d div 64" and ?m = "d mod 64"
  define bm b n where "bm = jlb_bitmap jlb ?k" and "b = bm_block jlb ?k" and "n = bits_below bm ?m"
  let ?below = "concat (map (bm_block jlb) [0..<?k])" and ?above = "concat (map (bm_block jlb) [?k + 1..<4])"
  have k: "?k < 4" and m: "?m < 64" using assms(4) by simp_all
  have vals: "leafb1_values jlb = concat (map (bm_block jlb) [0..<4])"
    using assms(1) by (intro leafb1_blocks) (simp add: bm_shape_def)
  have sorted: "sorted_wrt (<) (map fst (leafb1_values jlb))"
    using leafb1_sorted [of jlb] assms(1) by (auto simp: bm_shape_def cJU_NUMSUBEXPL_def)
  have d4: "d < LENGTH(64) * 4" using assms(4) by simp
  have fst: "fst (jlb ! ?k) = bm" unfolding bm_def using jlb_bitmap_fst [OF assms(1) k] by simp
  note split = bm_split [OF assms(1) d4 sorted [unfolded vals] assms(5) [unfolded vals], simplified, folded vals, unfolded fst, folded b_def n_def]
  have bit: "bit bm ?m" and nlen: "n < length b" by (rule split)+
  have cs: "leafb1_values jlb = (?below @ take n b) @ (d, v) # (drop (Suc n) b @ ?above)" using split(4) by simp
  note u = split_unique [OF sorted cs]
  have len: "length (beyond PREV d (leafb1_values jlb)) = length ?below + n" unfolding u(1) using nlen by simp
  have total: "length (leafb1_values jlb) = length ?below + length b + length ?above"
  proof -
    have "length (leafb1_values jlb) = length ((?below @ take n b) @ (d, v) # (drop (Suc n) b @ ?above))" by (subst cs) (rule refl)
    then show ?thesis using nlen by simp
  qed
  show "length (beyond PREV d (leafb1_values jlb)) < length (leafb1_values jlb)" unfolding len total using nlen by simp
  have found: "bm AND JU_BITPOSMASKL d \<noteq> 0" using bit by (simp add: test_bit_L)
  have blen: "length (set_positions bm) = length b" unfolding bm_def b_def by (rule jlb_sub(2) [OF assms(1) k])
  have low: "unat (j__udyCountBitsL (bm AND JU_MASKLOWERINC (JU_BITPOSMASKL ?m))) = Suc n"
    unfolding count_bits_L using mask_lower_inc [of ?m, where 'a = 64] positions_mask_length [of "Suc ?m" bm] m bit
    by (simp add: JU_BITPOSMASKL_def cJU_BITSPERSUBEXPL_def bits_below_Suc n_def)
  have high: "unat (j__udyCountBitsL (bm AND JU_MASKHIGHERINC (JU_BITPOSMASKL ?m))) = length b - n"
    unfolding count_bits_L using mask_higher_inc [of ?m, where 'a = 64] positions_higher_length [of ?m bm] m blen
    by (simp add: JU_BITPOSMASKL_def cJU_BITSPERSUBEXPL_def n_def)
  have sums: "sum_list (map (bitmap_count jlb) [0..<?k]) = int (length ?below)"
    "sum_list (map (bitmap_count jlb) (rev [?k + 1..<4])) = int (length ?above)"
    using k by (intro sum_bitmap_count [OF assms(1)]; simp)+
  have "uint pop1 = int (length ?below + length b + length ?above)" using assms(2) total by (simp only: uint_nat)
  then show "j__udyCountLeafB1 jlb pop1 index = Some (int (length (beyond PREV d (leafb1_values jlb))))"
    unfolding j__udyCountLeafB1_def Let_def d_def [symmetric] cJU_BITSPERSUBEXPL_def cJU_NUMSUBEXPL_def bm_def [symmetric]
      low high sums len using found nlen by simp
  have lo: "from_index NEXT d (?below @ take n b) = []"
  proof (rule from_index_none)
    fix x assume "x \<in> set (?below @ take n b)"
    then have "fst x < d" unfolding u(1) [symmetric] by (simp add: beyond_def)
    then show "\<not> upto_dir NEXT d (fst x)" by simp
  qed
  have hi: "from_index NEXT d ((d, v) # (drop (Suc n) b @ ?above)) = (d, v) # (drop (Suc n) b @ ?above)"
  proof (rule from_index_all)
    fix x assume "x \<in> set ((d, v) # (drop (Suc n) b @ ?above))"
    then have "x = (d, v) \<or> x \<in> set (drop (Suc n) b @ ?above)" by (simp only: list.set insert_iff)
    then have "x = (d, v) \<or> d < fst x" unfolding u(2) [symmetric] by (auto simp: beyond_def)
    then show "upto_dir NEXT d (fst x)" by auto
  qed
  have "from_index NEXT d ((?below @ take n b) @ (d, v) # (drop (Suc n) b @ ?above)) = (d, v) # (drop (Suc n) b @ ?above)"
    unfolding from_index_append [of NEXT d "?below @ take n b"] lo hi by simp
  then show "from_index NEXT d (leafb1_values jlb) = drop (length (beyond PREV d (leafb1_values jlb))) (leafb1_values jlb)"
    unfolding u(1) by (subst (1 2) cs) simp
qed

lemma count_leaf_case:
  assumes "jp_wf l P (JPLEAF s dcd keys vals)" "within P l index" "unat index \<in> fst ` set (jp_entries P (JPLEAF s dcd keys vals))"
  shows "count_step jpm_pop0 index (JPLEAF s dcd keys vals)
    = CountReturn (Counted (pop_from index (jp_entries P (JPLEAF s dcd keys vals))))"
proof -
  have w: "1 \<le> s" "s \<le> l" "l \<le> 7" "leaf_keys_ok s keys" "length vals = length keys" "dcd_ok l P dcd"
    "length keys = unat (JU_JPLEAF_POP0 dcd) + 1" using assms(1) by auto
  then have s: "s \<le> 8" "s \<le> 7" by simp_all
  have sk: "sorted_wrt (<) keys" "\<forall>k\<in>set keys. JU_LEASTBYTES k s = k" using w(4) by (simp_all add: leaf_keys_ok_def)
  have P: "256 ^ l dvd P" using assms(2) by (simp add: within_def)
  have "in_expanse (jp_base P s dcd) s (jp_entries P (JPLEAF s dcd keys vals))"
    unfolding jp_entries_leaf using w by (intro in_expanse_keys) auto
  then have B: "within (jp_base P s dcd) s index"
    using assms(3) base_in_expanse [OF P w(6,2)] w(3) by (auto simp: within_def in_expanse_def)
  have "unat (JU_JPLEAF_POP0 dcd) < 256" by (rule unat_byte_less)
  then have pop: "unat (ucast (JU_JPLEAF_POP0 dcd) + 1 :: word_t) = length keys" "length keys < 2 ^ 31"
    using w(7) unat_byte_plus_1 [of "JU_JPLEAF_POP0 dcd"] by (linarith, simp)
  note k = leaf_key_mem [OF w(4) B w(1) s(1) assms(3) [unfolded jp_entries_leaf]]
  show ?thesis
    using leaf_keys_above [OF sk(1) w(5) pop(1) k, unfolded k(2) [symmetric]] w(1) s(2)
    by (simp add: Let_def search_leaf_state_sorted [OF w(1) s(2) sk(1) pop(2,1) sk(2)])
qed

lemma count_leaf_b1_case:
  assumes "jp_wf l P (JPLEAF_B1 dcd jlb)" "within P l index" "unat index \<in> fst ` set (jp_entries P (JPLEAF_B1 dcd jlb))"
  shows "count_step jpm_pop0 index (JPLEAF_B1 dcd jlb)
    = CountReturn (Counted (pop_from index (jp_entries P (JPLEAF_B1 dcd jlb))))"
proof -
  let ?B = "jp_base P 1 dcd" and ?d = "unat (index AND cJU_MASKATSTATE 1)"
  have w: "1 \<le> l" "l \<le> 7" "dcd_ok l P dcd" "bm_shape 4 jlb" "length (leafb1_values jlb) = unat (JU_JPLEAF_POP0 dcd) + 1"
    using assms(1) by (auto simp: bm_shape_def cJU_NUMSUBEXPL_def)
  have P: "256 ^ l dvd P" using assms(2) by (simp add: within_def)
  have B: "within ?B 1 index"
    using assms(3) leafb1_in_base [OF assms(1)] base_in_expanse [OF P w(3,1)] w(2) by (auto simp: within_def in_expanse_def)
  have d: "?d = unat (JU_LEASTBYTES index 1)" by (simp add: JU_LEASTBYTES_def cJU_MASKATSTATE_def JU_LEASTBYTESMASK_def)
  then have d256: "?d < 256" using unat_leastbytes [of 1 index] by simp
  have i: "unat index = ?B + ?d"
    unfolding d using offset_is_leastbytes(1) [of 1 ?B index] B unfolding within_def by linarith
  obtain v where "(?d, v) \<in> set (leafb1_values jlb)" using assms(3) i by auto
  moreover have "distinct (map fst (leafb1_values jlb))"
    using leafb1_sorted [of jlb] w(4) by (auto simp: bm_shape_def cJU_NUMSUBEXPL_def strict_sorted_iff)
  ultimately have v: "map_of (leafb1_values jlb) ?d = Some v" by (rule map_of_is_SomeI [rotated])
  have pop: "unat (ucast (JU_JPLEAF_POP0 dcd) + 1 :: word_t) = length (leafb1_values jlb)"
    using w(5) unat_byte_plus_1 [of "JU_JPLEAF_POP0 dcd"] by linarith
  note c = count_leaf_b1 [OF w(4) pop d256 v]
  have "from_index NEXT (unat index) (jp_entries P (JPLEAF_B1 dcd jlb))
      = drop (length (beyond PREV ?d (leafb1_values jlb))) (jp_entries P (JPLEAF_B1 dcd jlb))"
    unfolding jp_entries_leaf i from_index_shift c(3) by (simp add: drop_map)
  then have "leaf_above (Some (int (length (beyond PREV ?d (leafb1_values jlb))))) (ucast (JU_JPLEAF_POP0 dcd) + 1)
      = Counted (pop_from index (jp_entries P (JPLEAF_B1 dcd jlb)))"
    using c(2) pop by (intro leaf_above_eq) simp_all
  then show ?thesis by (simp add: Let_def c(1))
qed

lemma count_immed_case:
  assumes "jp_wf l P (JPIMMED s keys vals)" "within P l index" "unat index \<in> fst ` set (jp_entries P (JPIMMED s keys vals))"
  shows "count_step jpm_pop0 index (JPIMMED s keys vals)
    = CountReturn (Counted (pop_from index (jp_entries P (JPIMMED s keys vals))))"
proof -
  have w: "s = l" "1 \<le> s" "s \<le> 3" "leaf_keys_ok s keys" "2 \<le> length keys" "length keys \<le> cJL_IMMED_MAXPOP1 s"
    "length vals = length keys" using assms(1) by auto
  then have s: "s \<le> 8" "s \<le> 7" "immed_type_ok s keys" by (simp_all add: immed_type_ok_def)
  have sk: "sorted_wrt (<) keys" "\<forall>k\<in>set keys. JU_LEASTBYTES k s = k" using w(4) by (simp_all add: leaf_keys_ok_def)
  have "cJL_IMMED_MAXPOP1 s \<le> 7" using w(2,3) by (simp add: cJL_IMMED_MAXPOP1_def)
  then have "length keys \<le> 7" using w(6) by simp
  then have pop: "unat (word_of_nat (length keys) :: word_t) = length keys" "length keys < 2 ^ 31"
    using unat_digit [of "length keys"] by simp_all
  note k = leaf_key_mem [OF w(4) assms(2) [folded w(1)] w(2) s(1) assms(3) [unfolded jp_entries_leaf]]
  show ?thesis
    using leaf_keys_above [OF sk(1) w(7) pop(1) k, unfolded k(2) [symmetric]] s(3)
    by (simp add: Let_def search_leaf_state_sorted [OF w(2) s(2) sk(1) pop(2,1) sk(2)])
qed

lemma count_immed_01_case:
  assumes "jp_wf l P (JPIMMED_01 s dcd v)" "within P l index" "unat index \<in> fst ` set (jp_entries P (JPIMMED_01 s dcd v))"
  shows "count_step jpm_pop0 index (JPIMMED_01 s dcd v)
    = CountReturn (Counted (pop_from index (jp_entries P (JPIMMED_01 s dcd v))))"
proof -
  have w: "1 \<le> l" "l \<le> 7" "s = l" using assms(1) by auto
  have P: "256 ^ l dvd P" "P \<le> unat index" "unat index < P + 256 ^ l" using assms(2) by (simp_all add: within_def)
  have i: "unat index = P div 256 ^ 7 * 256 ^ 7 + unat index mod 256 ^ 7"
    using expanse_top [OF P(1) w(2) P(2,3)] div_mult_mod_eq [of "unat index" "256 ^ 7"] by simp
  have b: "unat index = jp_base P 0 dcd" using assms(3) by simp
  then have "JU_JPDCDPOP0 dcd = JU_TRIMTODCDSIZE index"
    unfolding word_unat_eq_iff unat_dcdpop0 unat_trim jp_base_def using i by simp
  then show ?thesis using w b by (simp add: pop_from_def from_index_def entries_pop_def)
qed

section \<open>The motor\<close>

text \<open>The child beyond the digit of an index does not hold it.\<close>

lemma child_beyond:
  assumes "placed l P jp" "jp_branch jp = Some (s, dcd)" "within (jp_base P s dcd) s index"
    and "x \<in> set (live jp)" "unat (JU_DIGITATSTATE index s) < fst x"
  shows "unat index \<notin> fst ` set (child_entries P s dcd x)"
proof -
  let ?d = "unat (JU_DIGITATSTATE index s)" and ?B = "jp_base P s dcd + fst x * 256 ^ (s - 1)"
  note e = branch_from_index(2) [OF assms(1-3)]
  have "in_expanse ?B (s - 1) (child_entries P s dcd x)"
    unfolding child_entries_def using placed_branch(8) [OF assms(1,2,4)] by (intro jp_entries_expanse) (simp_all add: placed_def)
  moreover have "(?d + 1) * 256 ^ (s - 1) \<le> fst x * 256 ^ (s - 1)" using assms(5) by (intro mult_le_mono1) simp
  then have "unat index < ?B" using e unfolding within_def add_mult_distrib mult_1 by linarith
  ultimately show ?thesis by (force simp: in_expanse_def)
qed

lemma motor_run:
  "placed l P jp \<Longrightarrow> within P l index \<Longrightarrow> unat index \<in> fst ` set (jp_entries P jp) \<Longrightarrow> length (jp_entries P jp) < 2 ^ 64
   \<Longrightarrow> (l = 8 \<Longrightarrow> jpm_pop0 + 1 = entries_pop (jp_entries P jp))
   \<Longrightarrow> j__udy1LCountSM jpm_pop0 index jp = Counted (pop_from index (jp_entries P jp))"
proof (induction "size jp" arbitrary: l P jp rule: less_induct)
  case less
  note prems = less.prems
  have wf: "jp_wf l P jp" "\<not> jp_is_null jp" "256 ^ l dvd P" using prems(1) by (simp_all add: placed_def)
  show ?case
  proof (cases jp rule: jp_cases_branch)
    case (branch s dcd)
    note b = placed_branch [OF prems(1) branch]
    let ?d = "unat (JU_DIGITATSTATE index s)"
    have base: "256 ^ s dvd jp_base P s dcd" using branch_bounds(7) [OF branch wf(1,3)] .
    have B: "within (jp_base P s dcd) s index"
      using prems(3) branch_expanse [OF branch wf(1,3)] base by (auto simp: within_def in_expanse_def)
    note e1 = branch_from_index(1) [OF prems(1) branch B, where dir = NEXT, simplified]
    note e2 = branch_from_index(2) [OF prems(1) branch B]
    obtain v where v: "(unat index, v) \<in> set (from_index NEXT (unat index) (jp_entries P jp))"
      using prems(3) by (auto simp: from_index_def)
    have "map_of (live jp) ?d \<noteq> None"
    proof
      assume "map_of (live jp) ?d = None"
      then obtain x where x: "x \<in> set (live jp)" "?d < fst x" "(unat index, v) \<in> set (child_entries P s dcd x)"
        using v e1 by (auto simp: beyond_def)
      show False using child_beyond [OF prems(1) branch B x(1,2)] x(3) by force
    qed
    then obtain c where c: "map_of (live jp) ?d = Some c" by blast
    then have mem: "(?d, c) \<in> set (live jp)" by (rule map_of_SomeD)
    let ?es = "child_entries P s dcd (?d, c)" and ?rest = "concat (map (child_entries P s dcd) (beyond NEXT ?d (live jp)))"
    have fi: "from_index NEXT (unat index) (jp_entries P jp) = from_index NEXT (unat index) ?es @ ?rest" using e1 c by simp
    have s8: "s - 1 \<noteq> 8" using b(3) by simp
    have len: "length ?es \<le> length (jp_entries P jp)"
      unfolding live_entries [OF branch] using mem by (auto simp: length_concat comp_def intro!: member_le_sum_list)
    have in_es: "unat index \<in> fst ` set ?es"
    proof -
      have "unat index \<notin> fst ` set ?rest"
      proof
        assume "unat index \<in> fst ` set ?rest"
        then obtain x w where x: "x \<in> set (live jp)" "?d < fst x" "(unat index, w) \<in> set (child_entries P s dcd x)"
          by (auto simp: beyond_def)
        show False using child_beyond [OF prems(1) branch B x(1,2)] x(3) by force
      qed
      then have "(unat index, v) \<in> set (from_index NEXT (unat index) ?es)" using v unfolding fi by force
      then show ?thesis by (force simp: from_index_def)
    qed
    have IH: "j__udy1LCountSM jpm_pop0 index c = Counted (pop_from index ?es)"
      unfolding child_entries_def fst_conv snd_conv
    proof (rule less.hyps)
      show "size c < size jp" using b(9) [OF mem] by simp
      show "placed (s - 1) (jp_base P s dcd + ?d * 256 ^ (s - 1)) c" using b(8) [OF mem] by simp
      show "within (jp_base P s dcd + ?d * 256 ^ (s - 1)) (s - 1) index" by (rule e2)
      show "unat index \<in> fst ` set (jp_entries (jp_base P s dcd + ?d * 256 ^ (s - 1)) c)"
        "length (jp_entries (jp_base P s dcd + ?d * 256 ^ (s - 1)) c) < 2 ^ 64"
        using in_es len prems(4) by (simp_all add: child_entries_def)
    qed (use s8 in simp)
    have sum: "entries_pop ?rest + pop_from index ?es = pop_from index (jp_entries P jp)"
      unfolding pop_from_def fi by (simp add: add.commute)
    have "pop_from index (jp_entries P jp) \<noteq> 0"
    proof -
      let ?n = "length (from_index NEXT (unat index) (jp_entries P jp))"
      have "?n \<le> length (jp_entries P jp)" by (simp add: from_index_def)
      then have "?n < 2 ^ 64" using prems(4) by simp
      then have "unat (pop_from index (jp_entries P jp)) = ?n"
        by (simp add: pop_from_def entries_pop_def unat_of_nat take_bit_nat_eq_self)
      moreover have "?n > 0" using v by (auto simp: length_pos_if_in_set)
      ultimately show ?thesis by auto
    qed
    then show ?thesis
      unfolding j__udy1LCountSM.simps [of _ _ jp] count_branch [OF prems(1) branch B prems(2,5) c, simplified] by (simp add: IH sum)
  next
    case (leaf s dcd keys vals)
    show ?thesis using count_leaf_case [OF wf(1) [unfolded leaf] prems(2) prems(3) [unfolded leaf]]
      by (simp add: leaf j__udy1LCountSM.simps del: count_step.simps)
  next
    case (leafb1 dcd jlb)
    show ?thesis using count_leaf_b1_case [OF wf(1) [unfolded leafb1] prems(2) prems(3) [unfolded leafb1]]
      by (simp add: leafb1 j__udy1LCountSM.simps del: count_step.simps)
  next
    case (immed01 s dcd v)
    show ?thesis using count_immed_01_case [OF wf(1) [unfolded immed01] prems(2) prems(3) [unfolded immed01]]
      by (simp add: immed01 j__udy1LCountSM.simps del: count_step.simps)
  next
    case (immed s keys vals)
    show ?thesis using count_immed_case [OF wf(1) [unfolded immed] prems(2) prems(3) [unfolded immed]]
      by (simp add: immed j__udy1LCountSM.simps del: count_step.simps)
  next
    case (null n)
    then show ?thesis using wf by simp
  next
    case (invalid t)
    then show ?thesis using wf by simp
  qed
qed

section \<open>The entry point\<close>

lemma count_from_eq:
  assumes "judyL_wf array" "length (judyL_entries array) < 2 ^ 64" "unat index \<in> fst ` set (judyL_entries array)"
  shows "count_from array index = Counted (pop_from index (judyL_entries array))"
proof (cases array)
  case JL_NULL
  then show ?thesis using assms(3) by simp
next
  case (JL_LEAFW pop0 keys vals)
  have w: "pop0 < cJU_LEAFW_MAXPOP1" "sorted_wrt (<) keys" "length keys = unat pop0 + 1" "length vals = length keys"
    using assms(1) JL_LEAFW by auto
  have "unat pop0 < 31" using w(1) by (simp add: cJU_LEAFW_MAXPOP1_def word_less_nat_alt)
  then have pop: "unat (pop0 + 1) = length keys" "length keys < 2 ^ 31" using w(3) by (simp_all add: unat_word_ariths(1))
  have "index \<in> set keys" using assms(3) by (auto simp: JL_LEAFW dest!: set_zip_leftD simp flip: word_unat_eq_iff)
  from leaf_keys_above [OF w(2,4) pop(1) this, of index 0] show ?thesis
    by (simp add: JL_LEAFW count_from_def search_leafW_sorted [OF w(2) pop(2,1)])
next
  case (JL_JPM pop0 jp)
  have wf: "jp_wf 8 0 jp" "length (jp_entries 0 jp) = unat pop0 + 1" using assms(1) JL_JPM by auto
  then have "placed 8 0 jp" by (cases jp) (auto simp: placed_def)
  moreover have "within 0 8 index" using unsigned_less [of index, where 'a = nat] by (simp add: within_def)
  moreover have "pop0 + 1 = entries_pop (jp_entries 0 jp)" using unat_plus_1_word [OF wf(2)] by (simp add: entries_pop_def)
  ultimately show ?thesis using assms(2,3) by (simp add: JL_JPM count_from_def motor_run)
qed

lemma pop_from_unat:
  assumes "length es < 2 ^ 64"
  shows "unat (pop_from index es) = length (from_index NEXT (unat index) es)"
proof -
  have "length (from_index NEXT (unat index) es) \<le> length es" by (simp add: from_index_def)
  then have "length (from_index NEXT (unat index) es) < 2 ^ 64" using assms by simp
  then show ?thesis by (simp add: pop_from_def entries_pop_def unat_of_nat take_bit_nat_eq_self)
qed

lemma find_from_index:
  assumes "sorted_wrt (<) (map fst es)" "find (\<lambda>(k, v). i \<le> k) es = Some (k, v)"
  shows "from_index NEXT k es = from_index NEXT i es" "(k, v) \<in> set es" "from_index NEXT i es \<noteq> []"
proof -
  have p: "pick NEXT (from_index NEXT i es) = Some (k, v)" using assms(2) pick_from_index(1) [of i es] by (simp only:)
  then obtain ys where ys: "from_index NEXT i es = (k, v) # ys" by (cases "from_index NEXT i es") (simp_all add: pick_NEXT)
  then show "from_index NEXT i es \<noteq> []" by simp
  have mem: "(k, v) \<in> set (from_index NEXT i es)" unfolding ys by simp
  then show "(k, v) \<in> set es" by (simp add: from_index_def)
  have ik: "i \<le> k" using mem by (simp add: from_index_def)
  have "sorted_wrt (<) (map fst (from_index NEXT i es))"
    using assms(1) unfolding from_index_def sorted_wrt_map by (rule sorted_wrt_filter)
  then have "k \<le> fst x" if "x \<in> set (from_index NEXT i es)" for x using that unfolding ys by fastforce
  then have "i \<le> fst x \<longleftrightarrow> k \<le> fst x" if "x \<in> set es" for x
    using that ik by (cases "i \<le> fst x") (auto simp: from_index_def)
  then show "from_index NEXT k es = from_index NEXT i es" unfolding from_index_def by (intro filter_cong) auto
qed

lemma count_first_eq:
  assumes "judyL_wf array" "length (judyL_entries array) < 2 ^ 64"
  shows "count_first array index f
    = f (if from_index NEXT (unat index) (judyL_entries array) = [] then None else Some (pop_from index (judyL_entries array)))"
proof -
  let ?es = "judyL_entries array"
  note sorted = judyL_entries_sorted [OF assms(1), THEN conjunct1]
  show ?thesis
  proof (cases "find (\<lambda>(k, v). unat index \<le> k) ?es")
    case None
    then have "from_index NEXT (unat index) ?es = []" using pick_from_index(1) [of "unat index" ?es] by (simp add: pick_None)
    then show ?thesis using None by (simp add: count_first_def JudyLFirst_find [OF assms(1)])
  next
    case (Some x)
    obtain k v where x: "x = (k, v)" by (cases x)
    note f = find_from_index [OF sorted Some [unfolded x]]
    have "k < 2 ^ 64" using judyL_entries_sorted [OF assms(1)] f(2) by force
    then have k: "unat (word_of_nat k :: word_t) = k" by (simp add: unat_of_nat take_bit_nat_eq_self)
    have "unat (word_of_nat k :: word_t) \<in> fst ` set ?es" unfolding k using f(2) by force
    from count_from_eq [OF assms this] show ?thesis
      using f(1,3) by (simp add: count_first_def JudyLFirst_find [OF assms(1)] Some x pop_from_def k)
  qed
qed

lemma length_range:
  fixes i j :: nat
  assumes "i \<le> j"
  shows "length (from_index NEXT i es) = length (filter (\<lambda>(k, v). i \<le> k \<and> k \<le> j) es) + length (from_index NEXT (j + 1) es)"
  using assms by (induction es) (auto simp: from_index_def)

lemma filter_key: "distinct (map fst es) \<Longrightarrow> length (filter (\<lambda>(k, v). i \<le> k \<and> k \<le> i) es) = (if map_of es i = None then 0 else 1)"
  for i :: nat
proof (induction es)
  case (Cons x es)
  have "i \<notin> fst ` set es \<Longrightarrow> filter (\<lambda>(k, v). i \<le> k \<and> k \<le> i) es = []" by (force simp: filter_empty_conv)
  then show ?case using Cons by (cases "fst x = i") (auto simp: map_of_eq_None_iff)
qed simp

lemma count_above2_eq:
  assumes "judyL_wf array" "length (judyL_entries array) < 2 ^ 64" "i1 \<le> i2" "from_index NEXT (unat i1) (judyL_entries array) \<noteq> []"
  defines "n \<equiv> length (filter (\<lambda>(k, v). unat i1 \<le> k \<and> k \<le> unat i2) (judyL_entries array))"
  shows "count_above2 array i2 (pop_from i1 (judyL_entries array)) = (if n = 0 then CountNone else CountIs (word_of_nat n))"
proof -
  let ?es = "judyL_entries array"
  have ne: "pop_from i1 ?es \<noteq> 0"
  proof -
    have "unat (pop_from i1 ?es) \<noteq> 0" unfolding pop_from_unat [OF assms(2)] using assms(4) by simp
    then show ?thesis by auto
  qed
  have le: "unat i1 \<le> unat i2" using assms(3) by (simp add: word_le_nat_alt)
  have all: "count_above2 array i2 (pop_from i1 ?es) = (if n = 0 then CountNone else CountIs (word_of_nat n))"
    if "count_above2 array i2 (pop_from i1 ?es) = CountIs (pop_from i1 ?es)" "from_index NEXT (unat i2 + 1) ?es = []"
  proof -
    have n: "length (from_index NEXT (unat i1) ?es) = n" using length_range [OF le, of ?es] that(2) by (simp add: n_def)
    then show ?thesis using that(1) assms(4) by (auto simp: pop_from_def entries_pop_def)
  qed
  show ?thesis
  proof (cases "i2 = cJU_ALLONES")
    case True
    then have "unat i2 = 2 ^ 64 - 1" by (simp add: cJU_ALLONES_def unsigned_minus_1_eq_mask mask_eq_exp_minus_1)
    then have "from_index NEXT (unat i2 + 1) ?es = []"
      using judyL_entries_sorted [OF assms(1)] by (intro from_index_none) force
    then show ?thesis using True ne by (intro all) (simp_all add: count_above2_def)
  next
    case False
    note inc = unat_inc [OF False]
    let ?rest = "from_index NEXT (unat i2 + 1) ?es"
    have c: "count_above2 array i2 (pop_from i1 ?es)
      = (if ?rest = [] then CountIs (pop_from i1 ?es)
         else if pop_from i1 ?es = pop_from (i2 + 1) ?es then CountNone else CountIs (pop_from i1 ?es - pop_from (i2 + 1) ?es))"
      using ne False by (simp add: count_above2_def count_first_eq [OF assms(1,2)] inc del: Suc_eq_plus1)
    show ?thesis
    proof (cases "?rest = []")
      case True
      then show ?thesis using c by (intro all) simp_all
    next
      case rest: False
      have len: "unat (pop_from i1 ?es) = n + unat (pop_from (i2 + 1) ?es)"
        unfolding pop_from_unat [OF assms(2)] inc n_def by (rule length_range [OF le])
      have "pop_from i1 ?es = pop_from (i2 + 1) ?es \<longleftrightarrow> n = 0" using len by (simp add: word_unat_eq_iff)
      moreover have "pop_from i1 ?es - pop_from (i2 + 1) ?es = word_of_nat n"
        using length_range [OF le, of ?es] by (simp add: pop_from_def entries_pop_def inc n_def del: Suc_eq_plus1)
      ultimately show ?thesis using c rest by simp
    qed
  qed
qed

lemma judyL_pop0:
  assumes "judyL_wf array" "array \<noteq> JL_NULL"
  shows "JU_LEAFW_POP0 array + 1 = entries_pop (judyL_entries array)" "judyL_entries array \<noteq> []"
proof -
  have "length (judyL_entries array) = unat (JU_LEAFW_POP0 array) + 1" using assms by (cases array) auto
  then show "JU_LEAFW_POP0 array + 1 = entries_pop (judyL_entries array)" "judyL_entries array \<noteq> []"
    using unat_plus_1_word [of "length (judyL_entries array)"] by (auto simp: entries_pop_def)
qed

lemma JudyLCount_eq:
  assumes "judyL_wf array" "length (judyL_entries array) < 2 ^ 64"
  shows "JudyLCount array i1 i2
    = (let n = length (filter (\<lambda>(k, v). unat i1 \<le> k \<and> k \<le> unat i2) (judyL_entries array))
       in if n = 0 then CountNone else CountIs (word_of_nat n))"
proof (cases "array = JL_NULL \<or> i1 > i2")
  case True
  have "filter (\<lambda>(k, v). unat i1 \<le> k \<and> k \<le> unat i2) (judyL_entries array) = []" if "i1 > i2"
    using that by (force simp: filter_empty_conv word_less_nat_alt)
  then show ?thesis using True by (auto simp: JudyLCount_def)
next
  case False
  let ?es = "judyL_entries array" and ?n = "length (filter (\<lambda>(k, v). unat i1 \<le> k \<and> k \<le> unat i2) (judyL_entries array))"
  have le: "i1 \<le> i2" using False by (simp add: not_less)
  show ?thesis
  proof (cases "i1 = i2")
    case True
    have "distinct (map fst ?es)" using judyL_entries_sorted [OF assms(1)] by (simp add: strict_sorted_iff)
    from filter_key [OF this, of "unat i1"] show ?thesis
      using False True by (cases "map_of ?es (unat i1)")
        (simp_all add: JudyLCount_def JudyLGet_lookup [OF assms(1)] get_result_def)
  next
    case ne: False
    note p = judyL_pop0 [OF assms(1)]
    have es: "?es \<noteq> []" using p(2) False by blast
    have all: "from_index NEXT 0 ?es = ?es" by (rule from_index_all) simp
    have pop: "entries_pop ?es = pop_from 0 ?es" by (simp add: pop_from_def all)
    have pne: "entries_pop ?es \<noteq> 0"
    proof -
      have "unat (entries_pop ?es) = length ?es" unfolding pop using pop_from_unat [OF assms(2), of 0] all by simp
      then show ?thesis using es by auto
    qed
    have "JudyLCount array i1 i2 = (if from_index NEXT (unat i1) ?es = [] then CountNone
        else count_above2 array i2 (pop_from i1 ?es))"
    proof (cases "i1 = 0")
      case True
      then show ?thesis using False ne pne p(1) es all by (simp add: JudyLCount_def pop)
    next
      case False
      then show ?thesis
        using \<open>\<not> (array = JL_NULL \<or> i1 > i2)\<close> ne pne p(1) by (simp add: JudyLCount_def count_first_eq [OF assms])
    qed
    moreover have "?n = 0" if "from_index NEXT (unat i1) ?es = []"
      using length_range [of "unat i1" "unat i2" ?es] that le by (simp add: word_le_nat_alt)
    ultimately show ?thesis using count_above2_eq [OF assms le] by (simp add: Let_def)
  qed
qed

section \<open>Properties\<close>

text \<open>C14: On every well-formed JudyL array of fewer than \<open>2 ^ 64\<close> pairs, \<open>JudyLCount\<close> returns the number of
  indexes between the two limits, both included: the populations stored in the pointers and added from
  above, or subtracted from the population of the branch, give the two inverse ordinals on every kind of
  branch and leaf, no assertion fails, no read leaves an array and no sum is taken for an error.\<close>

theorem JudyLCount_correct:
  assumes "judyL_wf array" "length (judyL_entries array) < 2 ^ 64"
  shows "JudyLCount array i1 i2
    = (let n = length (filter (\<lambda>(k, v). unat i1 \<le> k \<and> k \<le> unat i2) (judyL_entries array))
       in if n = 0 then CountNone else CountIs (word_of_nat n))"
  by (rule JudyLCount_eq [OF assms])

lemma judyL_sample_length: "length (judyL_entries judyL_sample) < 2 ^ 64"
  using sample_entries by (simp add: judyL_sample_def)

theorem JudyLCount_correct_witness:
  "JudyLCount judyL_sample 16 0x020A0B0C0D0E0309
    = (let n = length (filter (\<lambda>(k, v). unat (16 :: word_t) \<le> k \<and> k \<le> unat (0x020A0B0C0D0E0309 :: word_t)) (judyL_entries judyL_sample))
       in if n = 0 then CountNone else CountIs (word_of_nat n)) \<and>
   JudyLCount judyL_sample 16 0x020A0B0C0D0E0309 = CountIs 17"
proof
  show "JudyLCount judyL_sample 16 0x020A0B0C0D0E0309
    = (let n = length (filter (\<lambda>(k, v). unat (16 :: word_t) \<le> k \<and> k \<le> unat (0x020A0B0C0D0E0309 :: word_t)) (judyL_entries judyL_sample))
       in if n = 0 then CountNone else CountIs (word_of_nat n))"
    by (rule JudyLCount_correct [OF judyL_sample_wf judyL_sample_length])
  have "length (filter (\<lambda>(k, v). unat (16 :: word_t) \<le> k \<and> k \<le> unat (0x020A0B0C0D0E0309 :: word_t)) (judyL_entries judyL_sample)) = 17"
    by code_simp
  then show "JudyLCount judyL_sample 16 0x020A0B0C0D0E0309 = CountIs 17"
    unfolding JudyLCount_eq [OF judyL_sample_wf judyL_sample_length] by simp
qed

end
