(* ===== verification/JudyByCount.thy ===== *)
theory JudyByCount
  imports JudyCount
begin

text \<open>
  \<open>JudyLByCount\<close> (\<open>src/Judy/src/JudyCommon/JudyByCount.c\<close>): the index of a given ordinal.  In every branch the
  populations of the pointers are added from below, or subtracted from above, until the expanse of the
  ordinal is found; the way down is then as in SM3 of \<open>JudyPrevNext.c\<close>.  Assertions are kept: \<open>NavUndefined\<close>
  stands for one that fails, for a read outside an array and for a search of a bit that never ends.
\<close>

section \<open>The search of an expanse in a branch\<close>

definition LOWERHALF :: "word_t \<Rightarrow> word_t \<Rightarrow> word_t \<Rightarrow> bool" where
  "LOWERHALF count0 pop1lower pop1exp \<longleftrightarrow> count0 - pop1lower < pop1exp div 2"

text \<open>
  The pointers a loop passes, each with the place it was read from; \<open>None\<close> is a subexpanse with bits but
  a null array of pointers.
\<close>

type_synonym ('p, 'v) passed = "('p \<times> 'v jp option) option"

fun by_count_up :: "word_t \<Rightarrow> ('p, 'v) passed list \<Rightarrow> word_t \<Rightarrow> (word_t \<times> 'p \<times> 'v jp) counted" where
  "by_count_up count0 [] pop1lower = CountCorrupt"
| "by_count_up count0 (None # jps) pop1lower = CountCorrupt"
| "by_count_up count0 (Some (p, None) # jps) pop1lower = CountUndefined"
| "by_count_up count0 (Some (p, Some jp) # jps) pop1lower =
     (let pop1 = j__udyJPPop1 jp
      in if pop1 = cJU_ALLONES then CountCorrupt
         else if pop1 = 0 then CountUndefined
         else if pop1lower + pop1 > count0 then Counted (pop1lower, p, jp)
         else by_count_up count0 jps (pop1lower + pop1))"

fun by_count_down :: "word_t \<Rightarrow> ('p, 'v) passed list \<Rightarrow> word_t \<Rightarrow> (word_t \<times> 'p \<times> 'v jp) counted" where
  "by_count_down count0 [] pop1lower = CountCorrupt"
| "by_count_down count0 (None # jps) pop1lower = CountCorrupt"
| "by_count_down count0 (Some (p, None) # jps) pop1lower = CountUndefined"
| "by_count_down count0 (Some (p, Some jp) # jps) pop1lower =
     (let pop1 = j__udyJPPop1 jp
      in if pop1 = cJU_ALLONES then CountCorrupt
         else if pop1 = 0 then CountUndefined
         else let pop1lower = pop1lower - pop1
              in if pop1lower = 0 \<or> pop1lower - 1 < count0 then Counted (pop1lower, p, jp)
                 else by_count_down count0 jps pop1lower)"

definition by_branch_l :: "word_t \<Rightarrow> (uint8 \<times> 'v jp) list \<Rightarrow> word_t \<Rightarrow> (word_t \<times> uint8 \<times> 'v jp) counted" where
  "by_branch_l count0 jbl pop1lower = by_count_up count0 (map (\<lambda>(expanse, jp). Some (expanse, Some jp)) jbl) pop1lower"

definition passed_subexp :: "(uint32 \<times> 'v jp list) list \<Rightarrow> (nat list \<Rightarrow> nat list) \<Rightarrow> nat \<Rightarrow> (nat \<times> nat, 'v) passed list" where
  "passed_subexp jbb order subexp =
     (let jpcount = sub_jpcount jbb subexp (- 1)
      in if jpcount \<noteq> 0 \<and> \<not> jbb_has_jps jbb subexp then [None]
         else map (\<lambda>jpnum. Some ((subexp, jpnum), BMPJP jbb subexp jpnum)) (order [0 ..< jpcount]))"

definition by_branch_b :: "word_t \<Rightarrow> word_t \<Rightarrow> (uint32 \<times> 'v jp list) list \<Rightarrow> word_t \<Rightarrow> (word_t \<times> uint8 \<times> 'v jp) counted" where
  "by_branch_b count0 pop1 jbb pop1lower =
     then_count
       (if LOWERHALF count0 pop1lower pop1
        then by_count_up count0 (concat (map (passed_subexp jbb id) [0 ..< cJU_NUMSUBEXPB])) pop1lower
        else by_count_down count0 (concat (map (passed_subexp jbb rev) (rev [0 ..< cJU_NUMSUBEXPB]))) (pop1lower + pop1))
       (\<lambda>(pop1lower, (subexp, jpnum), jp).
          case JU_BITMAPDIGITB subexp (jbb_bitmap jbb subexp) jpnum of
            None \<Rightarrow> CountUndefined
          | Some digit \<Rightarrow> Counted (pop1lower, word_of_nat digit, jp))"

definition passed_jbu :: "'v jp list \<Rightarrow> nat list \<Rightarrow> (uint8, 'v) passed list" where
  "passed_jbu jbu jpnums =
     map (\<lambda>jpnum. Some (word_of_nat jpnum, nth_opt jbu jpnum))
       (filter (\<lambda>jpnum. case nth_opt jbu jpnum of None \<Rightarrow> True | Some jp \<Rightarrow> \<not> jp_is_null jp) jpnums)"

definition by_branch_u :: "word_t \<Rightarrow> word_t \<Rightarrow> 'v jp list \<Rightarrow> word_t \<Rightarrow> (word_t \<times> uint8 \<times> 'v jp) counted" where
  "by_branch_u count0 pop1 jbu pop1lower =
     (if LOWERHALF count0 pop1lower pop1
      then by_count_up count0 (passed_jbu jbu [0 ..< 256]) pop1lower
      else by_count_down count0 (passed_jbu jbu (rev [0 ..< 256])) (pop1lower + pop1))"

section \<open>Leaves\<close>

text \<open>\<open>SETOFFSET\<close> assigns to an \<open>int\<close>.\<close>

definition SETOFFSET :: "word_t \<Rightarrow> word_t \<Rightarrow> int" where
  "SETOFFSET count0 pop1lower = ret_int (count0 - pop1lower)"

definition by_leaf :: "word_t \<Rightarrow> word_t \<Rightarrow> word_t \<Rightarrow> nat \<Rightarrow> dcdpop0 \<Rightarrow> word_t list \<Rightarrow> 'v list \<Rightarrow> 'v nav" where
  "by_leaf count0 pop1lower pindex s dcd keys vals =
     (if s < 1 \<or> 7 < s then NavCorrupt
      else let pindex = sm3_setdcd pindex dcd s;
               offset = SETOFFSET count0 pop1lower
           in if offset < 0 \<or> offset > uint (JU_JPLEAF_POP0 dcd) then NavUndefined
              else ret_leaf pindex s keys vals (nat offset))"

fun by_subexps_up :: "word_t \<Rightarrow> (word_t \<times> 'v list) list \<Rightarrow> nat list \<Rightarrow> word_t \<Rightarrow> (word_t \<times> nat) counted" where
  "by_subexps_up count0 jlb [] pop1lower = CountCorrupt"
| "by_subexps_up count0 jlb (subexp # subexps) pop1lower =
     (let pop1 = j__udyCountBitsL (jlb_bitmap jlb subexp)
      in if pop1lower + pop1 > count0 then Counted (pop1lower, subexp)
         else by_subexps_up count0 jlb subexps (pop1lower + pop1))"

fun by_subexps_down :: "word_t \<Rightarrow> (word_t \<times> 'v list) list \<Rightarrow> nat list \<Rightarrow> word_t \<Rightarrow> (word_t \<times> nat) counted" where
  "by_subexps_down count0 jlb [] pop1lower = CountCorrupt"
| "by_subexps_down count0 jlb (subexp # subexps) pop1lower =
     (let pop1lower = pop1lower - j__udyCountBitsL (jlb_bitmap jlb subexp)
      in if pop1lower = 0 \<or> pop1lower - 1 < count0 then Counted (pop1lower, subexp)
         else by_subexps_down count0 jlb subexps pop1lower)"

definition by_leaf_b1 :: "word_t \<Rightarrow> word_t \<Rightarrow> word_t \<Rightarrow> dcdpop0 \<Rightarrow> (word_t \<times> 'v list) list \<Rightarrow> 'v nav" where
  "by_leaf_b1 count0 pop1lower pindex dcd jlb =
     (let pindex = JU_SETDCD pindex dcd 1;
          pop1 = ucast (JU_JPLEAF_POP0 dcd) + 1
      in case (if LOWERHALF count0 pop1lower pop1
               then by_subexps_up count0 jlb [0 ..< cJU_NUMSUBEXPL] pop1lower
               else by_subexps_down count0 jlb (rev [0 ..< cJU_NUMSUBEXPL]) (pop1lower + pop1)) of
           Counted (pop1lower, subexp) \<Rightarrow>
             let offset = SETOFFSET count0 pop1lower
             in if offset < 0 \<or> offset > uint (JU_JPLEAF_POP0 dcd) then NavUndefined
                else ret_leaf_b1 pindex jlb subexp (nat offset)
         | CountCorrupt \<Rightarrow> NavCorrupt
         | CountUndefined \<Rightarrow> NavUndefined)"

section \<open>The machine\<close>

text \<open>Going on below a pointer: the bytes of \<open>*PIndex\<close> so far, the indexes below, the last \<open>pop1\<close>.\<close>

datatype 'v by_count = ByDown word_t word_t word_t "'v jp" | ByReturn "'v nav"

definition by_expanse :: "word_t \<Rightarrow> nat \<Rightarrow> (word_t \<times> uint8 \<times> 'v jp) counted \<Rightarrow> 'v by_count" where
  "by_expanse pindex state r = (case r of
     Counted (pop1lower, digit, jp) \<Rightarrow> ByDown (JU_SETDIGIT pindex digit state) pop1lower (j__udyJPPop1 jp) jp
   | CountCorrupt \<Rightarrow> ByReturn NavCorrupt
   | CountUndefined \<Rightarrow> ByReturn NavUndefined)"

text \<open>\<open>PREPB_DCD\<close>, \<open>PREPB\<close>, \<open>PREPB_ROOT\<close>.\<close>

definition by_prepb :: "word_t \<Rightarrow> word_t \<Rightarrow> nat \<Rightarrow> dcdpop0 \<Rightarrow> (word_t \<Rightarrow> (word_t \<times> uint8 \<times> 'v jp) counted) \<Rightarrow> 'v by_count" where
  "by_prepb pindex pop1 s dcd branch =
     (if s < 2 \<or> 8 < s then ByReturn NavCorrupt
      else by_expanse (sm3_setdcd pindex dcd s) s (branch (if s = 8 then pop1 else JU_JPBRANCH_POP0 dcd s + 1)))"

fun by_step :: "word_t \<Rightarrow> word_t \<Rightarrow> word_t \<Rightarrow> word_t \<Rightarrow> 'v jp \<Rightarrow> 'v by_count" where
  "by_step count0 pindex pop1lower pop1 (JPBRANCH_L s dcd jbl) =
     by_prepb pindex pop1 s dcd (\<lambda>pop1. by_branch_l count0 jbl pop1lower)"
| "by_step count0 pindex pop1lower pop1 (JPBRANCH_B s dcd jbb) =
     by_prepb pindex pop1 s dcd (\<lambda>pop1. by_branch_b count0 pop1 jbb pop1lower)"
| "by_step count0 pindex pop1lower pop1 (JPBRANCH_U s dcd jbu) =
     by_prepb pindex pop1 s dcd (\<lambda>pop1. by_branch_u count0 pop1 jbu pop1lower)"
| "by_step count0 pindex pop1lower pop1 (JPLEAF s dcd keys vals) =
     ByReturn (by_leaf count0 pop1lower pindex s dcd keys vals)"
| "by_step count0 pindex pop1lower pop1 (JPLEAF_B1 dcd jlb) =
     ByReturn (by_leaf_b1 count0 pop1lower pindex dcd jlb)"
| "by_step count0 pindex pop1lower pop1 (JPIMMED_01 s dcd v) =
     ByReturn (if s < 1 \<or> 7 < s then NavCorrupt
       else if SETOFFSET count0 pop1lower < 0 \<or> SETOFFSET count0 pop1lower \<ge> 1 then NavUndefined
       else NavFound (JU_SETDIGITS pindex (JU_JPDCDPOP0 dcd) s) v)"
| "by_step count0 pindex pop1lower pop1 (JPIMMED s keys vals) =
     ByReturn (if \<not> immed_type_ok s keys then NavCorrupt
       else let offset = SETOFFSET count0 pop1lower
            in if offset < 0 \<or> offset \<ge> int (length keys) then NavUndefined
               else ret_leaf pindex s keys vals (nat offset))"
| "by_step count0 pindex pop1lower pop1 (JPNULL n) = ByReturn NavCorrupt"
| "by_step count0 pindex pop1lower pop1 (JPINVALID t) = ByReturn NavCorrupt"

lemma by_count_up_mem: "by_count_up count0 ps lower = Counted (q, p, c) \<Longrightarrow> Some (p, Some c) \<in> set ps"
  by (induction count0 ps lower rule: by_count_up.induct) (auto simp: Let_def split: if_splits)

lemma by_count_down_mem: "by_count_down count0 ps lower = Counted (q, p, c) \<Longrightarrow> Some (p, Some c) \<in> set ps"
  by (induction count0 ps lower rule: by_count_down.induct) (auto simp: Let_def split: if_splits)

lemma by_prepb_Down:
  "by_prepb pindex pop1 s dcd branch = ByDown i l q c \<Longrightarrow> \<exists>pop1 l d. branch pop1 = Counted (l, d, c)"
  by (cases "branch (if s = 8 then pop1 else JU_JPBRANCH_POP0 dcd s + 1)")
    (auto simp: by_prepb_def by_expanse_def split: if_splits)

lemma passed_subexp_mem:
  "Some (p, Some c) \<in> set (concat (map (passed_subexp jbb order) ks)) \<Longrightarrow> \<exists>bm jps. (bm, jps) \<in> set jbb \<and> c \<in> set jps"
proof -
  assume "Some (p, Some c) \<in> set (concat (map (passed_subexp jbb order) ks))"
  then obtain k where k: "Some (p, Some c) \<in> set (passed_subexp jbb order k)" by auto
  obtain jpnum where "BMPJP jbb k jpnum = Some c"
  proof (cases "sub_jpcount jbb k (- 1) \<noteq> 0 \<and> \<not> jbb_has_jps jbb k")
    case True
    then show ?thesis using k by (simp add: passed_subexp_def del: jbb_has_jps.simps)
  next
    case False
    then have "Some (p, Some c) \<in> set (map (\<lambda>jpnum. Some ((k, jpnum), BMPJP jbb k jpnum)) (order [0 ..< sub_jpcount jbb k (- 1)]))"
      using k unfolding passed_subexp_def Let_def if_not_P [OF False] by blast
    then show ?thesis using that by auto
  qed
  then show ?thesis by (auto simp: BMPJP_def dest!: nth_opt_mem split: option.splits prod.splits)
qed

lemma size_by_step: "by_step count0 pindex lower pop1 jp = ByDown i l q c \<Longrightarrow> size c < size jp"
proof (cases jp)
  case (JPBRANCH_L s dcd jbl)
  assume "by_step count0 pindex lower pop1 jp = ByDown i l q c"
  then obtain d where "(d, c) \<in> set jbl"
    using JPBRANCH_L by (auto simp: by_branch_l_def dest!: by_prepb_Down by_count_up_mem)
  from size_list_elem [OF this, of "size_prod (\<lambda>_. 0) size"] show ?thesis using JPBRANCH_L by simp
next
  case (JPBRANCH_B s dcd jbb)
  assume "by_step count0 pindex lower pop1 jp = ByDown i l q c"
  then obtain pop1 l d where "by_branch_b count0 pop1 jbb lower = Counted (l, d, c)"
    using JPBRANCH_B by (auto dest!: by_prepb_Down)
  then obtain y where y: "(if LOWERHALF count0 lower pop1
        then by_count_up count0 (concat (map (passed_subexp jbb id) [0 ..< cJU_NUMSUBEXPB])) lower
        else by_count_down count0 (concat (map (passed_subexp jbb rev) (rev [0 ..< cJU_NUMSUBEXPB]))) (lower + pop1)) = Counted y"
    and c: "(\<lambda>(pop1lower, (subexp, jpnum), jp).
          case JU_BITMAPDIGITB subexp (jbb_bitmap jbb subexp) jpnum of
            None \<Rightarrow> CountUndefined | Some digit \<Rightarrow> Counted (pop1lower, word_of_nat digit, jp)) y = Counted (l, d, c)"
    unfolding by_branch_b_def then_count_Counted by (elim exE conjE) (rule that)
  obtain q p c' where y': "y = (q, p, c')" by (cases y)
  have cc: "c' = c"
    using c unfolding y' prod.case by (cases p; cases "JU_BITMAPDIGITB (fst p) (jbb_bitmap jbb (fst p)) (snd p)")
      (simp_all del: jbb_bitmap.simps)
  have "\<exists>order ks. Some (p, Some c) \<in> set (concat (map (passed_subexp jbb order) ks))"
  proof (cases "LOWERHALF count0 lower pop1")
    case True
    show ?thesis by (intro exI) (rule by_count_up_mem [OF y [unfolded y' cc if_P [OF True]]])
  next
    case False
    show ?thesis by (intro exI) (rule by_count_down_mem [OF y [unfolded y' cc if_not_P [OF False]]])
  qed
  then obtain order ks where "Some (p, Some c) \<in> set (concat (map (passed_subexp jbb order) ks))" by blast
  then obtain bm jps where "(bm, jps) \<in> set jbb" "c \<in> set jps" using passed_subexp_mem by blast
  from size_list_elem [OF this(1), of "size_prod (\<lambda>_. 0) (size_list size)"] size_list_elem [OF this(2), of size]
  show ?thesis using JPBRANCH_B by simp
next
  case (JPBRANCH_U s dcd jbu)
  assume "by_step count0 pindex lower pop1 jp = ByDown i l q c"
  then obtain pop1 l d where "by_branch_u count0 pop1 jbu lower = Counted (l, d, c)"
    using JPBRANCH_U by (auto dest!: by_prepb_Down)
  then obtain p ks where "Some (p, Some c) \<in> set (passed_jbu jbu ks)"
    unfolding by_branch_u_def by (auto split: if_splits dest!: by_count_up_mem by_count_down_mem)
  then have "c \<in> set jbu" by (auto simp: passed_jbu_def dest: nth_opt_mem [OF sym])
  from size_list_elem [OF this, of size] show ?thesis using JPBRANCH_U by simp
qed auto

function by_run :: "word_t \<Rightarrow> word_t \<Rightarrow> word_t \<Rightarrow> word_t \<Rightarrow> 'v jp \<Rightarrow> 'v nav" where
  "by_run count0 pindex pop1lower pop1 jp =
     (case by_step count0 pindex pop1lower pop1 jp of
        ByReturn r \<Rightarrow> r
      | ByDown pindex pop1lower pop1 c \<Rightarrow> by_run count0 pindex pop1lower pop1 c)"
  by pat_completeness auto
termination
  by (relation "measure (\<lambda>(count0, pindex, pop1lower, pop1, jp). size jp)") (auto intro: size_by_step)

declare by_run.simps [simp del]

definition JudyLByCount :: "'v judyL \<Rightarrow> word_t \<Rightarrow> word_t option \<Rightarrow> 'v nav" where
  "JudyLByCount array count pindex =
     (case array of
        JL_NULL \<Rightarrow> NavNone
      | _ \<Rightarrow>
          (case pindex of
             None \<Rightarrow> NavNullPIndex
           | Some pindex \<Rightarrow>
               let count0 = count - 1
               in case array of
                    JL_LEAFW pop0 keys vals \<Rightarrow>
                      if count0 > pop0 then NavNone
                      else (case (nth_opt keys (unat count0), nth_opt vals (unat count0)) of
                              (Some key, Some v) \<Rightarrow> NavFound key v
                            | _ \<Rightarrow> NavUndefined)
                  | JL_JPM pop0 jp \<Rightarrow> if count0 > pop0 then NavNone else by_run count0 pindex 0 (pop0 + 1) jp
                  | JL_NULL \<Rightarrow> NavNone))"

section \<open>The element of an ordinal in a list of blocks\<close>

text \<open>The block that holds the element at a place, and the place in it.\<close>

fun locate :: "('a \<Rightarrow> nat) \<Rightarrow> 'a list \<Rightarrow> nat \<Rightarrow> ('a \<times> nat) option" where
  "locate n [] r = None"
| "locate n (x # xs) r = (if r < n x then Some (x, r) else locate n xs (r - n x))"

lemma nth_opt_append: "nth_opt (xs @ ys) r = (if r < length xs then nth_opt xs r else nth_opt ys (r - length xs))"
  by (auto simp: nth_opt_def nth_append)

lemma nth_opt_concat:
  "nth_opt (concat (map f xs)) r = (case locate (\<lambda>x. length (f x)) xs r of None \<Rightarrow> None | Some (x, k) \<Rightarrow> nth_opt (f x) k)"
  by (induction xs arbitrary: r) (simp_all add: nth_opt_append, simp add: nth_opt_def)

lemma locate_Some: "r < sum_list (map n xs) \<Longrightarrow> \<exists>x k. locate n xs r = Some (x, k) \<and> x \<in> set xs \<and> k < n x \<and> k \<le> r"
proof (induction xs arbitrary: r)
  case (Cons x xs)
  show ?case
  proof (cases "r < n x")
    case False
    then have "r - n x < sum_list (map n xs)" using Cons.prems by simp
    from Cons.IH [OF this] show ?thesis using False by auto
  qed simp
qed simp

lemma locate_bound: "locate n xs r = Some (x, k) \<Longrightarrow> r - k + n x \<le> sum_list (map n xs)"
proof (induction xs arbitrary: r)
  case (Cons y ys)
  show ?case
  proof (cases "r < n y")
    case False
    then show ?thesis using Cons.IH [of "r - n y"] Cons.prems by simp
  qed (use Cons.prems in auto)
qed simp

lemma locate_append:
  "locate n (xs @ ys) r = (if r < sum_list (map n xs) then locate n xs r else locate n ys (r - sum_list (map n xs)))"
  by (induction xs arbitrary: r) auto

lemma locate_snoc:
  "r < sum_list (map n (xs @ [x])) \<Longrightarrow>
   locate n (xs @ [x]) r = (if sum_list (map n xs) \<le> r then Some (x, r - sum_list (map n xs)) else locate n xs r)"
  by (auto simp: locate_append)

text \<open>The two loops find it, on populations without overflow.\<close>

lemma unat_add_small: "unat a + unat b < 2 ^ 64 \<Longrightarrow> unat (a + b :: word_t) = unat a + unat b"
  by (simp add: unat_word_ariths(1))

lemma unat_sub_small: "unat b \<le> unat a \<Longrightarrow> unat (a - b :: word_t) = unat a - unat b"
  by (simp add: unat_sub_if_size)

lemma sub_swap: "a - b = c \<Longrightarrow> a - c = (b :: word_t)"
  by (metis add_diff_cancel_left' diff_add_cancel)

definition passed_ok :: "('a \<Rightarrow> ('p, 'v) passed) \<Rightarrow> ('a \<Rightarrow> 'p) \<Rightarrow> ('a \<Rightarrow> 'v jp) \<Rightarrow> ('a \<Rightarrow> nat) \<Rightarrow> 'a list \<Rightarrow> bool" where
  "passed_ok g p c n xs \<longleftrightarrow> (\<forall>x\<in>set xs. g x = Some (p x, Some (c x)) \<and> j__udyJPPop1 (c x) \<noteq> cJU_ALLONES
     \<and> unat (j__udyJPPop1 (c x)) = n x \<and> 0 < n x)"

lemma by_count_up_locate:
  assumes "passed_ok g p c n xs" "unat lower + sum_list (map n xs) < 2 ^ 64"
    and "unat lower \<le> unat count0" "unat count0 - unat lower < sum_list (map n xs)"
  shows "by_count_up count0 (map g xs) lower
    = (case locate n xs (unat count0 - unat lower) of None \<Rightarrow> CountCorrupt
       | Some (x, k) \<Rightarrow> Counted (count0 - word_of_nat k, p x, c x))"
  using assms
proof (induction xs arbitrary: lower)
  case (Cons x xs)
  have x: "g x = Some (p x, Some (c x))" "j__udyJPPop1 (c x) \<noteq> cJU_ALLONES" "unat (j__udyJPPop1 (c x)) = n x" "0 < n x"
    and xs: "passed_ok g p c n xs" using Cons.prems(1) by (simp_all add: passed_ok_def)
  then have ne: "j__udyJPPop1 (c x) \<noteq> 0" by auto
  have sum: "unat (lower + j__udyJPPop1 (c x)) = unat lower + n x" using Cons.prems(2) x(3) by (subst unat_add_small) simp_all
  show ?case
  proof (cases "lower + j__udyJPPop1 (c x) > count0")
    case True
    then have r: "unat count0 - unat lower < n x" unfolding word_less_nat_alt sum using Cons.prems(3) by simp
    have "count0 - lower = word_of_nat (unat count0 - unat lower)"
      using unat_sub_small [OF Cons.prems(3)] by (rule unat_eq_word)
    then have "count0 - word_of_nat (unat count0 - unat lower) = lower" by (rule sub_swap)
    then show ?thesis using x ne True r by (simp add: Let_def)
  next
    case False
    then have r: "\<not> unat count0 - unat lower < n x" "unat lower + n x \<le> unat count0"
      unfolding word_less_nat_alt sum using Cons.prems(3) by simp_all
    have "by_count_up count0 (map g xs) (lower + j__udyJPPop1 (c x))
      = (case locate n xs (unat count0 - unat (lower + j__udyJPPop1 (c x))) of None \<Rightarrow> CountCorrupt
         | Some (x, k) \<Rightarrow> Counted (count0 - word_of_nat k, p x, c x))"
      unfolding sum using Cons.prems(2,4) r by (intro Cons.IH [unfolded sum, OF xs, of "lower + j__udyJPPop1 (c x)", unfolded sum]) simp_all
    then show ?thesis using x ne False r by (simp add: Let_def sum)
  qed
qed simp

text \<open>The end of the scan down: the indexes below a block are at most those below the one searched.\<close>

lemma by_stop:
  fixes lower count0 :: word_t
  assumes "unat lower + m < 2 ^ 64"
  shows "lower + word_of_nat m = 0 \<or> lower + word_of_nat m - 1 < count0 \<longleftrightarrow> unat lower + m \<le> unat count0"
proof -
  have sum: "unat (lower + word_of_nat m) = unat lower + m"
    using assms by (subst unat_add_small) (simp_all add: unat_of_nat take_bit_nat_eq_self)
  show ?thesis
  proof (cases "lower + word_of_nat m = 0")
    case True
    then have "unat lower + m = 0" using sum by (simp only: unat_0)
    then have "unat lower + m \<le> unat count0" by linarith
    then show ?thesis using True by blast
  next
    case False
    then have "unat (lower + word_of_nat m) \<noteq> 0" by (simp only: unat_eq_zero not_False_eq_True)
    then have "unat lower + m \<noteq> 0" unfolding sum .
    moreover have "unat (lower + word_of_nat m - 1) = unat lower + m - 1" using unat_minus_one [OF False] sum by simp
    ultimately have "lower + word_of_nat m - 1 < count0 \<longleftrightarrow> unat lower + m \<le> unat count0" by (simp only: word_less_nat_alt) linarith
    then show ?thesis using False by blast
  qed
qed

lemma by_rest:
  fixes lower count0 :: word_t
  assumes "unat lower + m < 2 ^ 64" "unat lower + m \<le> unat count0"
  shows "count0 - word_of_nat (unat count0 - unat lower - m) = lower + word_of_nat m"
proof -
  have "unat (lower + word_of_nat m) = unat lower + m"
    using assms(1) by (subst unat_add_small) (simp_all add: unat_of_nat take_bit_nat_eq_self)
  then have "unat (count0 - (lower + word_of_nat m)) = unat count0 - unat lower - m"
    using unat_sub_small [of "lower + word_of_nat m" count0] assms(2) by simp
  then have "count0 - (lower + word_of_nat m) = word_of_nat (unat count0 - unat lower - m)" by (rule unat_eq_word)
  then show ?thesis by (rule sub_swap)
qed

lemma by_count_down_locate:
  assumes "passed_ok g p c n xs" "unat lower + sum_list (map n xs) < 2 ^ 64"
    and "unat lower \<le> unat count0" "unat count0 - unat lower < sum_list (map n xs)"
  shows "by_count_down count0 (map g (rev xs)) (lower + word_of_nat (sum_list (map n xs)))
    = (case locate n xs (unat count0 - unat lower) of None \<Rightarrow> CountCorrupt
       | Some (x, k) \<Rightarrow> Counted (count0 - word_of_nat k, p x, c x))"
  using assms
proof (induction xs rule: rev_induct)
  case (snoc x xs)
  let ?sum = "sum_list (map n xs)"
  have x: "g x = Some (p x, Some (c x))" "j__udyJPPop1 (c x) \<noteq> cJU_ALLONES" "unat (j__udyJPPop1 (c x)) = n x" "0 < n x"
    and xs: "passed_ok g p c n xs" using snoc.prems(1) by (simp_all add: passed_ok_def)
  then have ne: "j__udyJPPop1 (c x) \<noteq> 0" by auto
  have "j__udyJPPop1 (c x) = word_of_nat (n x)" using x(3) by (metis unat_eq_word)
  then have sub: "lower + word_of_nat (sum_list (map n (xs @ [x]))) - j__udyJPPop1 (c x) = lower + word_of_nat ?sum" by simp
  have small: "unat lower + ?sum < 2 ^ 64" using snoc.prems(2) by simp
  note stop = by_stop [OF small, of count0]
  show ?case
  proof (cases "unat lower + ?sum \<le> unat count0")
    case True
    have "locate n (xs @ [x]) (unat count0 - unat lower) = Some (x, unat count0 - unat lower - ?sum)"
      unfolding locate_snoc [OF snoc.prems(4)] using True by (intro if_P) linarith
    then show ?thesis using x ne sub stop True by_rest [OF small True] by (simp add: Let_def)
  next
    case False
    then have r: "unat count0 - unat lower < ?sum" using snoc.prems(3) by linarith
    then have l: "locate n (xs @ [x]) (unat count0 - unat lower) = locate n xs (unat count0 - unat lower)"
      unfolding locate_snoc [OF snoc.prems(4)] by (intro if_not_P) linarith
    have "by_count_down count0 (map g (rev xs)) (lower + word_of_nat ?sum)
      = (case locate n xs (unat count0 - unat lower) of None \<Rightarrow> CountCorrupt
         | Some (x, k) \<Rightarrow> Counted (count0 - word_of_nat k, p x, c x))"
      by (rule snoc.IH [OF xs _ snoc.prems(3) r]) (use snoc.prems(2) in simp)
    then show ?thesis using x ne sub stop False l by (simp add: Let_def)
  qed
qed simp

lemma by_count_either:
  assumes "passed_ok g p c n xs" "unat lower + sum_list (map n xs) < 2 ^ 64" "pop1 = word_of_nat (sum_list (map n xs))"
    and "unat lower \<le> unat count0" "unat count0 - unat lower < sum_list (map n xs)"
  shows "(if LOWERHALF count0 lower pop1 then by_count_up count0 (map g xs) lower
      else by_count_down count0 (map g (rev xs)) (lower + pop1))
    = (case locate n xs (unat count0 - unat lower) of None \<Rightarrow> CountCorrupt
       | Some (x, k) \<Rightarrow> Counted (count0 - word_of_nat k, p x, c x))"
  unfolding assms(3) by_count_up_locate [OF assms(1,2,4,5)] by_count_down_locate [OF assms(1,2,4,5)] by simp

section \<open>One step at a branch\<close>

definition digit_of :: "nat \<times> 'v jp \<Rightarrow> uint8" where
  "digit_of x = word_of_nat (fst x)"

text \<open>The child that holds the place \<open>r\<close>, with the place in it.\<close>

definition by_located :: "word_t \<Rightarrow> ((nat \<times> 'v jp) \<times> nat) option \<Rightarrow> (word_t \<times> uint8 \<times> 'v jp) counted" where
  "by_located count0 r = (case r of None \<Rightarrow> CountCorrupt | Some (x, k) \<Rightarrow> Counted (count0 - word_of_nat k, digit_of x, snd x))"

definition live_ok :: "(nat \<times> 'v jp \<Rightarrow> nat) \<Rightarrow> (nat \<times> 'v jp) list \<Rightarrow> bool" where
  "live_ok n cs \<longleftrightarrow> (\<forall>x\<in>set cs. j__udyJPPop1 (snd x) \<noteq> cJU_ALLONES \<and> unat (j__udyJPPop1 (snd x)) = n x \<and> 0 < n x)"

definition by_fits :: "word_t \<Rightarrow> word_t \<Rightarrow> nat \<Rightarrow> bool" where
  "by_fits count0 lower n \<longleftrightarrow> unat lower + n < 2 ^ 64 \<and> unat lower \<le> unat count0 \<and> unat count0 - unat lower < n"

lemma by_branch_l_eq:
  assumes "live_ok n (jbl_pairs jbl)" "by_fits count0 lower (sum_list (map n (jbl_pairs jbl)))"
  shows "by_branch_l count0 jbl lower = by_located count0 (locate n (jbl_pairs jbl) (unat count0 - unat lower))"
proof -
  let ?g = "\<lambda>x. Some (digit_of x, Some (snd x))"
  have "passed_ok ?g digit_of snd n (jbl_pairs jbl)" using assms(1) by (simp add: passed_ok_def live_ok_def)
  moreover have "map (\<lambda>(expanse, jp). Some (expanse, Some jp)) jbl = map ?g (jbl_pairs jbl)"
    by (simp add: jbl_pairs_def digit_of_def case_prod_beta)
  ultimately show ?thesis
    using by_count_up_locate [of ?g digit_of snd n "jbl_pairs jbl" lower count0] assms(2)
    by (simp add: by_branch_l_def by_located_def by_fits_def)
qed

lemma passed_jbu_eq:
  assumes "\<And>k. k \<in> set ks \<Longrightarrow> k < length jbu"
  shows "passed_jbu jbu ks = map (\<lambda>x. Some (digit_of x, Some (snd x))) (concat (map (jbu_block jbu) ks))"
  using assms by (induction ks) (auto simp: passed_jbu_def jbu_block_def nth_opt_def digit_of_def)

lemma by_branch_u_eq:
  fixes jbu :: "'v jp list"
  defines "cs \<equiv> concat (map (jbu_block jbu) [0..<256])"
  assumes "length jbu = 256" "live_ok n cs" "by_fits count0 lower (sum_list (map n cs))" "pop1 = word_of_nat (sum_list (map n cs))"
  shows "by_branch_u count0 pop1 jbu lower = by_located count0 (locate n cs (unat count0 - unat lower))"
proof -
  let ?g = "\<lambda>x. Some (digit_of x, Some (snd x))"
  have ok: "passed_ok ?g digit_of snd n cs" using assms(3) by (simp add: passed_ok_def live_ok_def)
  have up: "passed_jbu jbu [0..<256] = map ?g cs" unfolding cs_def by (rule passed_jbu_eq) (simp add: assms(2))
  have "concat (map (jbu_block jbu) (rev [0..<256])) = rev cs"
    unfolding cs_def by (rule concat_rev_blocks) (simp add: jbu_block_def)
  then have down: "passed_jbu jbu (rev [0..<256]) = map ?g (rev cs)" by (subst passed_jbu_eq) (simp_all add: assms(2))
  show ?thesis
    unfolding by_branch_u_def up down by_located_def
    using assms(4) by (intro by_count_either [OF ok _ assms(5)]) (simp_all add: by_fits_def)
qed

lemma locate_map: "locate n (map h xs) r = map_option (\<lambda>(x, k). (h x, k)) (locate (\<lambda>x. n (h x)) xs r)"
  by (induction xs arbitrary: r) simp_all

lemma locate_mem: "locate n xs r = Some (x, k) \<Longrightarrow> x \<in> set xs"
  by (induction xs arbitrary: r) (auto split: if_splits)

definition jbb_places :: "(uint32 \<times> 'v jp list) list \<Rightarrow> nat list \<Rightarrow> (nat \<times> nat) list" where
  "jbb_places jbb ks = concat (map (\<lambda>k. map (\<lambda>i. (k, i)) [0..<length (bm_block jbb k)]) ks)"

lemma jbb_places_block: "map (\<lambda>(k, i). bm_block jbb k ! i) (jbb_places jbb ks) = concat (map (bm_block jbb) ks)"
  by (induction ks) (simp_all add: jbb_places_def map_nth comp_def)

lemma passed_subexp_eq:
  assumes "bm_shape 8 jbb" "\<And>k. k \<in> set ks \<Longrightarrow> k < 8"
  shows "concat (map (passed_subexp jbb id) ks) = map (\<lambda>(k, i). Some ((k, i), BMPJP jbb k i)) (jbb_places jbb ks)"
    and "concat (map (passed_subexp jbb rev) (rev ks)) = map (\<lambda>(k, i). Some ((k, i), BMPJP jbb k i)) (rev (jbb_places jbb ks))"
proof -
  have pass: "passed_subexp jbb order k = map (\<lambda>i. Some ((k, i), BMPJP jbb k i)) (order [0..<length (bm_block jbb k)])"
    if "k \<in> set ks" for k order
    using jbb_sub(1) [OF assms(1) assms(2) [OF that]] sub_jpcount_eq(1) [OF assms(1) assms(2) [OF that]]
    by (auto simp: passed_subexp_def Let_def simp del: jbb_has_jps.simps)
  have places: "concat (map (\<lambda>k. map (\<lambda>i. Some ((k, i), BMPJP jbb k i)) [0..<length (bm_block jbb k)]) ks)
      = map (\<lambda>(k, i). Some ((k, i), BMPJP jbb k i)) (jbb_places jbb ks)"
    by (simp add: jbb_places_def map_concat comp_def)
  have "concat (map (passed_subexp jbb id) ks) = concat (map (\<lambda>k. map (\<lambda>i. Some ((k, i), BMPJP jbb k i)) [0..<length (bm_block jbb k)]) ks)"
    using pass [of _ id] by (intro arg_cong [where f = concat] map_cong) auto
  then show "concat (map (passed_subexp jbb id) ks) = map (\<lambda>(k, i). Some ((k, i), BMPJP jbb k i)) (jbb_places jbb ks)"
    by (simp add: places)
  have "concat (map (passed_subexp jbb rev) (rev ks))
      = concat (map (\<lambda>k. rev (map (\<lambda>i. Some ((k, i), BMPJP jbb k i)) [0..<length (bm_block jbb k)])) (rev ks))"
    using pass [of _ rev] by (intro arg_cong [where f = concat] map_cong) (auto simp: rev_map)
  then show "concat (map (passed_subexp jbb rev) (rev ks)) = map (\<lambda>(k, i). Some ((k, i), BMPJP jbb k i)) (rev (jbb_places jbb ks))"
    unfolding concat_blocks_rev by (simp add: places rev_map)
qed

lemma by_branch_b_eq:
  fixes jbb :: "(uint32 \<times> 'v jp list) list"
  defines "cs \<equiv> concat (map (bm_block jbb) [0..<8])"
  assumes "bm_shape 8 jbb" "live_ok n cs" "by_fits count0 lower (sum_list (map n cs))" "pop1 = word_of_nat (sum_list (map n cs))"
  shows "by_branch_b count0 pop1 jbb lower = by_located count0 (locate n cs (unat count0 - unat lower))"
proof -
  let ?xs = "jbb_places jbb [0..<8]" and ?h = "\<lambda>(k, i). bm_block jbb k ! i"
  let ?g = "\<lambda>(k, i). Some ((k, i), BMPJP jbb k i)"
  have cs: "cs = map ?h ?xs" unfolding cs_def by (rule jbb_places_block [symmetric])
  have place: "fst x < 8" "snd x < length (bm_block jbb (fst x))" if "x \<in> set ?xs" for x using that by (auto simp: jbb_places_def)
  have mem: "?h x \<in> set cs" if "x \<in> set ?xs" for x unfolding cs set_map using that by (rule imageI)
  have ok: "passed_ok ?g (\<lambda>x. x) (\<lambda>x. snd (?h x)) (\<lambda>x. n (?h x)) ?xs"
    unfolding passed_ok_def
  proof
    fix x assume x: "x \<in> set ?xs"
    show "?g x = Some (x, Some (snd (?h x))) \<and> j__udyJPPop1 (snd (?h x)) \<noteq> cJU_ALLONES
      \<and> unat (j__udyJPPop1 (snd (?h x))) = n (?h x) \<and> 0 < n (?h x)"
      using BMPJP_block [OF assms(2) place(1) [OF x] place(2) [OF x]] mem [OF x] assms(3) by (auto simp: live_ok_def case_prod_beta)
  qed
  have sum: "sum_list (map n cs) = sum_list (map (\<lambda>x. n (?h x)) ?xs)" unfolding cs by (simp add: comp_def)
  have e: "(if LOWERHALF count0 lower pop1
        then by_count_up count0 (concat (map (passed_subexp jbb id) [0 ..< 8])) lower
        else by_count_down count0 (concat (map (passed_subexp jbb rev) (rev [0 ..< 8]))) (lower + pop1))
    = (case locate (\<lambda>x. n (?h x)) ?xs (unat count0 - unat lower) of None \<Rightarrow> CountCorrupt
       | Some (x, k) \<Rightarrow> Counted (count0 - word_of_nat k, x, snd (?h x)))"
  proof -
    have eq: "concat (map (passed_subexp jbb id) [0 ..< 8]) = map ?g ?xs"
      "concat (map (passed_subexp jbb rev) (rev [0 ..< 8])) = map ?g (rev ?xs)"
      by (intro passed_subexp_eq [OF assms(2)]; simp)+
    show ?thesis
      unfolding eq using assms(4) by (intro by_count_either [OF ok _ assms(5) [unfolded sum]]) (simp_all add: by_fits_def sum)
  qed
  show ?thesis
  proof (cases "locate (\<lambda>x. n (?h x)) ?xs (unat count0 - unat lower)")
    case None
    then show ?thesis unfolding by_branch_b_def cJU_NUMSUBEXPB_def e cs locate_map by (simp add: by_located_def)
  next
    case (Some y)
    obtain k i r where y: "y = ((k, i), r)" by (cases y) auto
    have x: "(k, i) \<in> set ?xs" using locate_mem Some [unfolded y] by fastforce
    then have ki: "k < 8" "i < length (bm_block jbb k)" using place [OF x] by simp_all
    obtain bm jps where sub: "jbb ! k = (bm, jps)" by (cases "jbb ! k")
    note b = bm_block_sub [OF assms(2) ki(1) sub]
    have "i < length (set_positions bm)" "fst (bm_block jbb k ! i) = 32 * k + set_positions bm ! i" using ki(2) b by simp_all
    then have "JU_BITMAPDIGITB k (jbb_bitmap jbb k) i = Some (fst (bm_block jbb k ! i))"
      using JU_BITMAPDIGITB_nth [of i bm k] b(3) by simp
    then show ?thesis unfolding by_branch_b_def cJU_NUMSUBEXPB_def e cs locate_map Some y
      by (simp add: by_located_def digit_of_def)
  qed
qed

lemma by_branch:
  fixes jp :: "'v jp"
  assumes "placed l P jp" "jp_branch jp = Some (s, dcd)" "l = 8 \<Longrightarrow> pop1 = entries_pop (jp_entries P jp)"
    and "by_fits count0 lower (length (jp_entries P jp))"
  shows "by_step count0 pindex lower pop1 jp
    = (case locate (\<lambda>x. length (child_entries P s dcd x)) (live jp) (unat count0 - unat lower) of
         None \<Rightarrow> ByReturn NavCorrupt
       | Some (x, k) \<Rightarrow>
           ByDown (JU_SETDIGIT (sm3_setdcd pindex dcd s) (digit_of x) s) (count0 - word_of_nat k) (j__udyJPPop1 (snd x)) (snd x))"
proof -
  note b = placed_branch [OF assms(1,2)]
  let ?n = "\<lambda>x. length (child_entries P s dcd x)"
  let ?pop1 = "if s = 8 then pop1 else JU_JPBRANCH_POP0 dcd s + 1"
  let ?r = "locate ?n (live jp) (unat count0 - unat lower)"
  have wf: "jp_wf l P jp" "256 ^ l dvd P" using assms(1) by (simp_all add: placed_def)
  have s7: "s - 1 \<le> 7" using b(3) by simp
  have sum: "sum_list (map ?n (live jp)) = length (jp_entries P jp)"
    unfolding live_entries [OF assms(2)] by (simp add: length_concat comp_def)
  have len: "length (jp_entries P jp) < 2 ^ 64" using assms(4) by (simp add: by_fits_def)
  have ok: "live_ok ?n (live jp)"
    unfolding live_ok_def
  proof
    fix x assume x: "x \<in> set (live jp)"
    note p = jp_pop1 [OF b(8) [OF x] s7, folded child_entries_def]
    have "?n x \<le> length (jp_entries P jp)"
      unfolding sum [symmetric] using x by (intro member_le_sum_list) auto
    then have "unat (entries_pop (child_entries P s dcd x)) = ?n x"
      using len by (simp add: entries_pop_def unat_of_nat take_bit_nat_eq_self)
    then show "j__udyJPPop1 (snd x) \<noteq> cJU_ALLONES \<and> unat (j__udyJPPop1 (snd x)) = ?n x \<and> 0 < ?n x"
      using p(2) b(10) [OF x] by (simp add: p(1))
  qed
  have pop1: "?pop1 = word_of_nat (sum_list (map ?n (live jp)))"
  proof (cases "s = 8")
    case True
    then show ?thesis unfolding sum using assms(3) b(4,5) by (simp add: entries_pop_def)
  next
    case False
    then have "length (jp_entries P jp) = unat (JU_JPBRANCH_POP0 dcd s) + 1" using wf(1) b(3) jp_wf_branch [OF assms(2)] by auto
    then show ?thesis unfolding sum using False unat_plus_1_word by simp
  qed
  note fits = assms(4) [folded sum]
  have s: "\<not> (s < 2 \<or> 8 < s)" using b(2,3) by simp
  have "by_step count0 pindex lower pop1 jp = by_expanse (sm3_setdcd pindex dcd s) s (by_located count0 ?r)"
    using b(1)
  proof (cases rule: branch_ok_cases)
    case (L jbl)
    have "by_branch_l count0 jbl lower = by_located count0 ?r"
      unfolding L(2) by (rule by_branch_l_eq [OF ok [unfolded L(2)] fits [unfolded L(2)]])
    then show ?thesis using s by (simp add: L(1) by_prepb_def)
  next
    case (B jbb)
    have "by_branch_b count0 ?pop1 jbb lower = by_located count0 ?r"
      unfolding B(2) by (rule by_branch_b_eq [OF B(3) ok [unfolded B(2)] fits [unfolded B(2)] pop1 [unfolded B(2)]])
    then show ?thesis using s by (simp add: B(1) by_prepb_def)
  next
    case (U jbu)
    have "by_branch_u count0 ?pop1 jbu lower = by_located count0 ?r"
      unfolding U(2) by (rule by_branch_u_eq [OF U(3) ok [unfolded U(2)] fits [unfolded U(2)] pop1 [unfolded U(2)]])
    then show ?thesis using s by (simp add: U(1) by_prepb_def)
  qed
  then show ?thesis by (simp add: by_located_def by_expanse_def split: option.split prod.split)
qed

section \<open>Leaves\<close>

lemma by_fits_small:
  assumes "by_fits count0 lower n" "n \<le> 256"
  shows "SETOFFSET count0 lower = int (unat count0 - unat lower)" "unat count0 - unat lower < n"
proof -
  have u: "unat (count0 - lower) = unat count0 - unat lower" using assms(1) by (intro unat_sub_small) (simp add: by_fits_def)
  show n: "unat count0 - unat lower < n" using assms(1) by (simp add: by_fits_def)
  then have "unat (count0 - lower) < 2 ^ 31" using assms(2) u by simp
  from ret_int_small(1) [OF this] show "SETOFFSET count0 lower = int (unat count0 - unat lower)" by (simp add: SETOFFSET_def u)
qed

lemma by_leaf_eq:
  assumes "jp_wf l P (JPLEAF s dcd keys vals)" "within P l pindex" "by_fits count0 lower (length keys)"
  shows "by_leaf count0 lower pindex s dcd keys vals
    = nav_of (nth_opt (jp_entries P (JPLEAF s dcd keys vals)) (unat count0 - unat lower))"
proof -
  have w: "1 \<le> s" "s \<le> l" "l \<le> 7" "dcd_ok l P dcd" "leaf_keys_ok s keys" "length vals = length keys"
    "length keys = unat (JU_JPLEAF_POP0 dcd) + 1" using assms(1) by auto
  have pop0: "unat (JU_JPLEAF_POP0 dcd) < 256" by (rule unat_byte_less)
  then have n: "length keys \<le> 256" using w(7) by simp
  note off = by_fits_small [OF assms(3) n]
  have s: "\<not> (s < 1 \<or> 7 < s)" "s \<le> 8" using w by auto
  have "\<not> (SETOFFSET count0 lower < 0 \<or> SETOFFSET count0 lower > uint (JU_JPLEAF_POP0 dcd))"
    unfolding off(1) uint_nat using off(2) w(7) by linarith
  then show ?thesis
    using ret_leaf_eq [OF w(5,6) within_setdcd [OF assms(2) w(3,4,1,2)] w(1) s(2) off(2)] s(1)
    by (simp add: by_leaf_def Let_def if_not_P [OF s(1)] off(1))
qed

lemma by_immed_eq:
  assumes "jp_wf l P (JPIMMED s keys vals)" "within P l pindex" "by_fits count0 lower (length keys)"
  shows "by_step count0 pindex lower pop1 (JPIMMED s keys vals)
    = ByReturn (nav_of (nth_opt (jp_entries P (JPIMMED s keys vals)) (unat count0 - unat lower)))"
proof -
  have w: "s = l" "1 \<le> s" "s \<le> 3" "leaf_keys_ok s keys" "2 \<le> length keys" "length keys \<le> cJL_IMMED_MAXPOP1 s"
    "length vals = length keys" using assms(1) by auto
  then have s: "s \<le> 8" "immed_type_ok s keys" by (simp_all add: immed_type_ok_def)
  have "cJL_IMMED_MAXPOP1 s \<le> 7" using w(2,3) by (simp add: cJL_IMMED_MAXPOP1_def)
  then have "length keys \<le> 256" using w(6) by simp
  note off = by_fits_small [OF assms(3) this]
  show ?thesis
    using ret_leaf_eq [OF w(4,7) assms(2) [folded w(1)] w(2) s(1) off(2)] s(2) off(2) by (simp add: Let_def off(1))
qed

lemma by_subexps_locate:
  assumes "bm_shape 4 jlb" "\<And>k. k \<in> set ks \<Longrightarrow> k < 4"
  defines "n \<equiv> \<lambda>k. length (bm_block jlb k)"
  shows "by_fits count0 lower (sum_list (map n ks)) \<Longrightarrow> by_subexps_up count0 jlb ks lower
      = (case locate n ks (unat count0 - unat lower) of None \<Rightarrow> CountCorrupt | Some (k, i) \<Rightarrow> Counted (count0 - word_of_nat i, k))"
    and "by_fits count0 lower (sum_list (map n ks)) \<Longrightarrow>
      by_subexps_down count0 jlb (rev ks) (lower + word_of_nat (sum_list (map n ks)))
      = (case locate n ks (unat count0 - unat lower) of None \<Rightarrow> CountCorrupt | Some (k, i) \<Rightarrow> Counted (count0 - word_of_nat i, k))"
proof -
  have cnt: "unat (j__udyCountBitsL (jlb_bitmap jlb k)) = n k" if "k < 4" for k
    unfolding count_bits_L n_def by (rule jlb_sub(2) [OF assms(1) that])
  show "by_subexps_up count0 jlb ks lower
      = (case locate n ks (unat count0 - unat lower) of None \<Rightarrow> CountCorrupt | Some (k, i) \<Rightarrow> Counted (count0 - word_of_nat i, k))"
    if "by_fits count0 lower (sum_list (map n ks))"
    using that assms(2)
  proof (induction ks arbitrary: lower)
    case (Cons k ks)
    let ?pop = "j__udyCountBitsL (jlb_bitmap jlb k)"
    have k: "unat ?pop = n k" using Cons.prems(2) by (intro cnt) simp
    have fits: "unat lower + (n k + sum_list (map n ks)) < 2 ^ 64" "unat lower \<le> unat count0"
      "unat count0 - unat lower < n k + sum_list (map n ks)" using Cons.prems(1) by (simp_all add: by_fits_def)
    have sum: "unat (lower + ?pop) = unat lower + n k" using fits(1) k by (subst unat_add_small) simp_all
    show ?case
    proof (cases "unat count0 - unat lower < n k")
      case True
      have "count0 - lower = word_of_nat (unat count0 - unat lower)" using unat_sub_small [OF fits(2)] by (rule unat_eq_word)
      then have "count0 - word_of_nat (unat count0 - unat lower) = lower" by (rule sub_swap)
      moreover have "lower + ?pop > count0" unfolding word_less_nat_alt sum using True fits(2) by simp
      ultimately show ?thesis using True by (simp add: Let_def del: jlb_bitmap.simps)
    next
      case False
      then have le: "unat lower + n k \<le> unat count0" using fits(2) by linarith
      then have "\<not> lower + ?pop > count0" unfolding word_less_nat_alt sum by simp
      moreover have "by_fits count0 (lower + ?pop) (sum_list (map n ks))"
        unfolding by_fits_def sum using fits le by simp
      ultimately show ?thesis using False Cons.IH [of "lower + ?pop"] Cons.prems(2)
        by (simp add: Let_def sum del: jlb_bitmap.simps)
    qed
  qed (simp add: by_fits_def)
  show "by_subexps_down count0 jlb (rev ks) (lower + word_of_nat (sum_list (map n ks)))
      = (case locate n ks (unat count0 - unat lower) of None \<Rightarrow> CountCorrupt | Some (k, i) \<Rightarrow> Counted (count0 - word_of_nat i, k))"
    if "by_fits count0 lower (sum_list (map n ks))"
    using that assms(2)
  proof (induction ks rule: rev_induct)
    case (snoc k ks)
    let ?pop = "j__udyCountBitsL (jlb_bitmap jlb k)" and ?sum = "sum_list (map n ks)"
    have "unat ?pop = n k" using snoc.prems(2) by (intro cnt) simp
    then have "?pop = word_of_nat (n k)" by (rule unat_eq_word)
    then have sub: "lower + word_of_nat (sum_list (map n (ks @ [k]))) - ?pop = lower + word_of_nat ?sum" by simp
    have fits: "unat lower + ?sum < 2 ^ 64" "unat lower \<le> unat count0" "unat count0 - unat lower < sum_list (map n (ks @ [k]))"
      using snoc.prems(1) by (simp_all add: by_fits_def)
    note stop = by_stop [OF fits(1), of count0]
    show ?case
    proof (cases "unat lower + ?sum \<le> unat count0")
      case True
      have l: "locate n (ks @ [k]) (unat count0 - unat lower) = Some (k, unat count0 - unat lower - ?sum)"
        unfolding locate_snoc [OF fits(3)] using True by (intro if_P) linarith
      show ?thesis using sub stop True l by_rest [OF fits(1) True] by (simp add: Let_def del: jlb_bitmap.simps)
    next
      case False
      then have r: "unat count0 - unat lower < ?sum" using fits(2) by linarith
      have l: "locate n (ks @ [k]) (unat count0 - unat lower) = locate n ks (unat count0 - unat lower)"
        unfolding locate_snoc [OF fits(3)] using r by (intro if_not_P) linarith
      have "by_fits count0 lower ?sum" using fits r by (simp add: by_fits_def)
      from snoc.IH [OF this] snoc.prems(2) show ?thesis using sub stop False l by (simp add: Let_def del: jlb_bitmap.simps)
    qed
  qed (simp add: by_fits_def)
qed

lemma by_leaf_b1_eq:
  assumes "jp_wf l P (JPLEAF_B1 dcd jlb)" "within P l pindex" "by_fits count0 lower (length (leafb1_values jlb))"
  shows "by_leaf_b1 count0 lower pindex dcd jlb
    = nav_of (nth_opt (jp_entries P (JPLEAF_B1 dcd jlb)) (unat count0 - unat lower))"
proof -
  let ?n = "\<lambda>k. length (bm_block jlb k)" and ?B = "jp_base P 1 dcd" and ?pindex = "JU_SETDCD pindex dcd 1"
  let ?pop1 = "ucast (JU_JPLEAF_POP0 dcd) + 1 :: word_t" and ?r = "unat count0 - unat lower"
  have w: "1 \<le> l" "l \<le> 7" "dcd_ok l P dcd" "bm_shape 4 jlb" "length (leafb1_values jlb) = unat (JU_JPLEAF_POP0 dcd) + 1"
    using assms(1) by (auto simp: bm_shape_def cJU_NUMSUBEXPL_def)
  have vals: "leafb1_values jlb = concat (map (bm_block jlb) [0..<4])" using w(4) by (intro leafb1_blocks) (simp add: bm_shape_def)
  have sum: "sum_list (map ?n [0..<4]) = length (leafb1_values jlb)" unfolding vals by (simp only: length_concat map_map comp_def)
  have pop1: "?pop1 = word_of_nat (sum_list (map ?n [0..<4]))" unfolding sum using byte_plus_1_word [OF w(5)] by simp
  note fits = assms(3) [folded sum]
  have up: "by_subexps_up count0 jlb [0..<4] lower
      = (case locate ?n [0..<4] ?r of None \<Rightarrow> CountCorrupt | Some (k, i) \<Rightarrow> Counted (count0 - word_of_nat i, k))"
    by (rule by_subexps_locate(1) [OF w(4) _ fits]) simp
  have down: "by_subexps_down count0 jlb (rev [0..<4]) (lower + word_of_nat (sum_list (map ?n [0..<4])))
      = (case locate ?n [0..<4] ?r of None \<Rightarrow> CountCorrupt | Some (k, i) \<Rightarrow> Counted (count0 - word_of_nat i, k))"
    by (rule by_subexps_locate(2) [OF w(4) _ fits]) simp
  obtain k i where ki: "locate ?n [0..<4] ?r = Some (k, i)" "k \<in> set [0..<4]" "i < ?n k" "i \<le> ?r"
    using locate_Some [of ?r ?n "[0..<4]"] fits unfolding by_fits_def by blast
  then have k: "k < 4" by simp
  have scan: "(if LOWERHALF count0 lower ?pop1 then by_subexps_up count0 jlb [0 ..< 4] lower
      else by_subexps_down count0 jlb (rev [0 ..< 4]) (lower + ?pop1)) = Counted (count0 - word_of_nat i, k)"
    unfolding pop1 up down ki(1) by simp
  have r: "?r \<le> unat count0" "unat lower \<le> unat count0" using fits by (simp_all add: by_fits_def)
  have c1: "unat count0 + 1 < 2 ^ 64" using fits unfolding by_fits_def by linarith
  have "unat (JU_JPLEAF_POP0 dcd) < 256" by (rule unat_byte_less)
  then have rn: "?r < 256" "?r \<le> unat (JU_JPLEAF_POP0 dcd)" using fits w(5) unfolding by_fits_def sum by linarith+
  have "unat (word_of_nat i :: word_t) = i" using rn ki(4) by (simp add: unat_of_nat take_bit_nat_eq_self)
  then have "unat (count0 - word_of_nat i) = unat count0 - i" using ki(4) r by (subst unat_sub_small) simp_all
  then have "by_fits count0 (count0 - word_of_nat i) (i + 1)"
    using ki(4) r c1 by (simp add: by_fits_def)
  moreover have "unat count0 - unat (count0 - word_of_nat i) = i"
    using \<open>unat (count0 - word_of_nat i) = unat count0 - i\<close> ki(4) r by simp
  ultimately have off: "SETOFFSET count0 (count0 - word_of_nat i) = int i"
    using by_fits_small(1) [of count0 "count0 - word_of_nat i" "i + 1"] ki(4) rn by simp
  have in_range: "\<not> (int i < 0 \<or> int i > uint (JU_JPLEAF_POP0 dcd))" unfolding uint_nat using ki(4) rn(2) by linarith
  have B: "within ?B 1 ?pindex" using within_setdcd [OF assms(2) w(2,3) _ w(1)] by (simp add: sm3_setdcd_def)
  have mem: "bm_block jlb k ! i \<in> set (leafb1_values jlb)" unfolding vals using ki(2,3) by (auto intro: nth_mem)
  have "by_leaf_b1 count0 lower pindex dcd jlb = ret_leaf_b1 ?pindex jlb k i"
    unfolding by_leaf_b1_def Let_def cJU_NUMSUBEXPL_def scan using in_range by (simp add: off)
  also have "\<dots> = nav_of (Some (?B + fst (bm_block jlb k ! i), snd (bm_block jlb k ! i)))"
    unfolding ret_leaf_b1_eq [OF w(4) k ki(3)] by (rule b1_ret_within [OF B leafb1_digit [OF w(4) mem]])
  also have "\<dots> = nav_of (nth_opt (jp_entries P (JPLEAF_B1 dcd jlb)) ?r)"
  proof -
    have "nth_opt (leafb1_values jlb) ?r = Some (bm_block jlb k ! i)"
      unfolding vals nth_opt_concat ki(1) using ki(3) by simp
    then show ?thesis by (auto simp: nth_opt_def case_prod_beta split: if_splits)
  qed
  finally show ?thesis .
qed

section \<open>The way down\<close>

lemma by_run_eq:
  "placed l P jp \<Longrightarrow> within P l pindex \<Longrightarrow> by_fits count0 lower (length (jp_entries P jp))
   \<Longrightarrow> (l = 8 \<Longrightarrow> pop1 = entries_pop (jp_entries P jp))
   \<Longrightarrow> by_run count0 pindex lower pop1 jp = nav_of (nth_opt (jp_entries P jp) (unat count0 - unat lower))"
proof (induction "size jp" arbitrary: l P jp pindex lower pop1 rule: less_induct)
  case less
  note prems = less.prems
  have wf: "jp_wf l P jp" "\<not> jp_is_null jp" using prems(1) by (simp_all add: placed_def)
  show ?case
  proof (cases jp rule: jp_cases_branch)
    case (branch s dcd)
    note b = placed_branch [OF prems(1) branch]
    let ?n = "\<lambda>x. length (child_entries P s dcd x)" and ?r = "unat count0 - unat lower"
    have sum: "sum_list (map ?n (live jp)) = length (jp_entries P jp)"
      unfolding live_entries [OF branch] by (simp add: length_concat comp_def)
    have fits: "unat lower + length (jp_entries P jp) < 2 ^ 64" "unat lower \<le> unat count0" "?r < length (jp_entries P jp)"
      using prems(3) by (simp_all add: by_fits_def)
    obtain x k where x: "locate ?n (live jp) ?r = Some (x, k)" "x \<in> set (live jp)" "k < ?n x" "k \<le> ?r"
      using locate_Some [of ?r ?n "live jp"] fits(3) unfolding sum by blast
    have d: "digit_of x = word_of_nat (fst x)" by (simp add: digit_of_def)
    have B: "within (jp_base P s dcd + fst x * 256 ^ (s - 1)) (s - 1) (JU_SETDIGIT (sm3_setdcd pindex dcd s) (digit_of x) s)"
      unfolding d using b(2,3) live_sorted(2) [OF b(1) x(2)] by (intro within_setdigit b(7) prems(2)) auto
    have nx: "?n x \<le> length (jp_entries P jp)"
      unfolding sum [symmetric] using x(2) by (intro member_le_sum_list) auto
    have kc: "k \<le> unat count0" using x(4) by simp
    then have "unat (word_of_nat k :: word_t) = k"
      using unsigned_less [of count0, where 'a = nat] by (simp add: unat_of_nat take_bit_nat_eq_self)
    then have u: "unat (count0 - word_of_nat k) = unat count0 - k" using kc by (subst unat_sub_small) simp_all
    have place: "unat count0 - unat (count0 - word_of_nat k) = k" unfolding u using kc by simp
    have "unat count0 - k + ?n x < 2 ^ 64"
    proof -
      have "unat count0 - k + ?n x \<le> unat lower + length (jp_entries P jp)"
        using locate_bound [OF x(1)] fits(2) x(4) unfolding sum by linarith
      then show ?thesis using fits(1) by simp
    qed
    then have fits': "by_fits count0 (count0 - word_of_nat k) (?n x)" unfolding by_fits_def place u using x(3) by simp
    have "by_run count0 pindex lower pop1 jp
      = by_run count0 (JU_SETDIGIT (sm3_setdcd pindex dcd s) (digit_of x) s) (count0 - word_of_nat k) (j__udyJPPop1 (snd x)) (snd x)"
    proof -
      have step: "by_step count0 pindex lower pop1 jp
        = (case locate ?n (live jp) ?r of None \<Rightarrow> ByReturn NavCorrupt
           | Some (x, k) \<Rightarrow> ByDown (JU_SETDIGIT (sm3_setdcd pindex dcd s) (digit_of x) s) (count0 - word_of_nat k)
               (j__udyJPPop1 (snd x)) (snd x))"
        by (rule by_branch [OF prems(1) branch _ prems(3)]) (use prems(4) in blast)
      show ?thesis unfolding by_run.simps [of _ _ _ _ jp] step x(1) by simp
    qed
    also have "\<dots> = nav_of (nth_opt (child_entries P s dcd x) k)"
    proof -
      have "s - 1 \<noteq> 8" using b(3) by simp
      then show ?thesis
        using less.hyps [OF b(9) [OF x(2)] b(8) [OF x(2)] B fits' [unfolded child_entries_def]]
        unfolding place child_entries_def by blast
    qed
    also have "\<dots> = nav_of (nth_opt (jp_entries P jp) ?r)" unfolding live_entries [OF branch] nth_opt_concat x(1) by simp
    finally show ?thesis .
  next
    case (leaf s dcd keys vals)
    then have "by_fits count0 lower (length keys)" using prems(3) wf(1) by simp
    from by_leaf_eq [OF wf(1) [unfolded leaf] prems(2) this] show ?thesis by (simp add: leaf by_run.simps)
  next
    case (leafb1 dcd jlb)
    then have "by_fits count0 lower (length (leafb1_values jlb))" using prems(3) by simp
    from by_leaf_b1_eq [OF wf(1) [unfolded leafb1] prems(2) this] show ?thesis by (simp add: leafb1 by_run.simps)
  next
    case (immed01 s dcd v)
    then have w: "s = l" "1 \<le> l" "l \<le> 7" "dcd_ok l P dcd" using wf(1) by auto
    have f: "by_fits count0 lower 1" using prems(3) by (simp add: immed01)
    note off = by_fits_small [OF f, simplified]
    show ?thesis
      using immed_01_base [OF prems(2) w(4,2,3)] w off by (simp add: immed01 by_run.simps nth_opt_def)
  next
    case (immed s keys vals)
    then have "by_fits count0 lower (length keys)" using prems(3) wf(1) by simp
    from by_immed_eq [OF wf(1) [unfolded immed] prems(2) this] show ?thesis by (simp add: immed by_run.simps)
  next
    case (null n)
    then show ?thesis using wf by simp
  next
    case (invalid t)
    then show ?thesis using wf by simp
  qed
qed

lemma JudyLByCount_eq:
  assumes "judyL_wf array" "length (judyL_entries array) < 2 ^ 64"
  shows "JudyLByCount array count (Some pindex)
    = (if 1 \<le> unat count \<and> unat count \<le> length (judyL_entries array)
       then case judyL_entries array ! (unat count - 1) of (k, v) \<Rightarrow> NavFound (word_of_nat k) v
       else NavNone)"
proof (cases "array = JL_NULL")
  case True
  then show ?thesis by (auto simp: JudyLByCount_def)
next
  case False
  let ?es = "judyL_entries array" and ?count0 = "count - 1"
  have len: "length ?es = unat (JU_LEAFW_POP0 array) + 1" using assms(1) False by (cases array) auto
  have small: "?count0 > JU_LEAFW_POP0 array \<longleftrightarrow> \<not> (1 \<le> unat count \<and> unat count \<le> length ?es)"
  proof (cases "count = 0")
    case True
    then have "unat ?count0 = 2 ^ 64 - 1" by (simp add: unsigned_minus_1_eq_mask mask_eq_exp_minus_1)
    then show ?thesis using True assms(2) len by (simp add: word_less_nat_alt)
  next
    case False
    then have "unat ?count0 = unat count - 1" "unat count \<noteq> 0" by (simp_all add: unat_minus_one unat_eq_zero)
    then show ?thesis unfolding word_less_nat_alt len by linarith
  qed
  have found: "JudyLByCount array count (Some pindex) = nav_of (nth_opt ?es (unat ?count0))" if "\<not> ?count0 > JU_LEAFW_POP0 array"
  proof (cases array)
    case JL_NULL
    then show ?thesis using False by simp
  next
    case (JL_LEAFW pop0 keys vals)
    have "unat ?count0 < length keys" "length vals = length keys"
      using that assms(1) JL_LEAFW by (auto simp: word_less_nat_alt)
    then show ?thesis using that by (simp add: JL_LEAFW JudyLByCount_def Let_def)
  next
    case (JL_JPM pop0 jp)
    have wf: "jp_wf 8 0 jp" "length (jp_entries 0 jp) = unat pop0 + 1" using assms(1) JL_JPM by auto
    then have "placed 8 0 jp" by (cases jp) (auto simp: placed_def)
    moreover have "within 0 8 pindex" using unsigned_less [of pindex, where 'a = nat] by (simp add: within_def)
    moreover have "by_fits ?count0 0 (length (jp_entries 0 jp))"
      using that assms(2) wf(2) by (simp add: by_fits_def JL_JPM word_less_nat_alt)
    moreover have "pop0 + 1 = entries_pop (jp_entries 0 jp)" using unat_plus_1_word [OF wf(2)] by (simp add: entries_pop_def)
    ultimately show ?thesis using by_run_eq [of 8 0 jp pindex ?count0 0 "pop0 + 1"] that
      by (simp add: JL_JPM JudyLByCount_def)
  qed
  show ?thesis
  proof (cases "?count0 > JU_LEAFW_POP0 array")
    case True
    then have "JudyLByCount array count (Some pindex) = NavNone" using False by (cases array) (simp_all add: JudyLByCount_def)
    then show ?thesis using True small by auto
  next
    case in_range: False
    then have c: "1 \<le> unat count" "unat count \<le> length ?es" using small by blast+
    then have "unat ?count0 = unat count - 1" by (subst unat_minus_one) auto
    then have "nth_opt ?es (unat ?count0) = Some (?es ! (unat count - 1))" using c by (simp add: nth_opt_def)
    then show ?thesis unfolding found [OF in_range] using c by (simp add: nav_of_def)
  qed
qed

section \<open>Properties\<close>

text \<open>C15: On every well-formed JudyL array of fewer than \<open>2 ^ 64\<close> pairs and whatever \<open>*PIndex\<close> holds at the
  call, \<open>JudyLByCount\<close> returns the pair of the given ordinal, counted from 1, and reports the end exactly
  when the ordinal is 0 or above the population: the populations lead to the right expanse in both
  directions of every kind of branch, and the index is put together from Dcd bytes and digits.\<close>

theorem JudyLByCount_correct:
  assumes "judyL_wf array" "length (judyL_entries array) < 2 ^ 64"
  shows "JudyLByCount array count (Some pindex)
    = (if 1 \<le> unat count \<and> unat count \<le> length (judyL_entries array)
       then case judyL_entries array ! (unat count - 1) of (k, v) \<Rightarrow> NavFound (word_of_nat k) v
       else NavNone)"
  by (rule JudyLByCount_eq [OF assms])

theorem JudyLByCount_correct_witness:
  "JudyLByCount judyL_sample 33 (Some 0x1234567890)
    = (if 1 \<le> unat (33 :: word_t) \<and> unat (33 :: word_t) \<le> length (judyL_entries judyL_sample)
       then case judyL_entries judyL_sample ! (unat (33 :: word_t) - 1) of (k, v) \<Rightarrow> NavFound (word_of_nat k) v
       else NavNone) \<and>
   JudyLByCount judyL_sample 33 (Some 0x1234567890) = NavFound 0x020A0B0C0D0E0309 90"
proof
  show "JudyLByCount judyL_sample 33 (Some 0x1234567890)
    = (if 1 \<le> unat (33 :: word_t) \<and> unat (33 :: word_t) \<le> length (judyL_entries judyL_sample)
       then case judyL_entries judyL_sample ! (unat (33 :: word_t) - 1) of (k, v) \<Rightarrow> NavFound (word_of_nat k) v
       else NavNone)"
    by (rule JudyLByCount_correct [OF judyL_sample_wf judyL_sample_length])
  have "judyL_entries judyL_sample ! 32 = (0x020A0B0C0D0E0309, 90)" "length (judyL_entries judyL_sample) = 34" by code_simp+
  then show "JudyLByCount judyL_sample 33 (Some 0x1234567890) = NavFound 0x020A0B0C0D0E0309 90"
    by (simp add: JudyLByCount_eq [OF judyL_sample_wf judyL_sample_length])
qed

text \<open>C16: Counting and searching by count are inverse: for every index the array holds, \<open>JudyLCount\<close> from 0
  up to it gives its ordinal, and \<open>JudyLByCount\<close> of that ordinal gives the index back, with its value.\<close>

theorem count_by_count_roundtrip:
  assumes "judyL_wf array" "length (judyL_entries array) < 2 ^ 64" "map_of (judyL_entries array) (unat i) = Some v"
  shows "\<exists>n. JudyLCount array 0 i = CountIs n \<and> JudyLByCount array n (Some pindex) = NavFound i v"
proof -
  let ?es = "judyL_entries array" and ?P = "\<lambda>(k, v). unat (0 :: word_t) \<le> k \<and> k \<le> unat i"
  obtain j where j: "j < length ?es" "?es ! j = (unat i, v)"
    using map_of_SomeD [OF assms(3)] by (auto simp: in_set_conv_nth)
  have lt: "fst (?es ! a) < fst (?es ! b)" if "a < b" "b < length ?es" for a b
    using sorted_wrt_nth_less [OF conjunct1 [OF judyL_entries_sorted [OF assms(1)]], of a b] that by simp
  have "filter ?P ?es = take (Suc j) ?es"
  proof (rule filter_take)
    show "Suc j \<le> length ?es" using j(1) by simp
    show "?P (?es ! a)" if "a < Suc j" for a
      using lt [of a j] that j by (cases "a = j") (auto simp: case_prod_beta)
    show "\<not> ?P (?es ! a)" if "Suc j \<le> a" "a < length ?es" for a
      using lt [of j a] that j by (auto simp: case_prod_beta)
  qed
  then have "length (filter ?P ?es) = Suc j" using j(1) by simp
  then have c: "JudyLCount array 0 i = CountIs (word_of_nat (Suc j))"
    unfolding JudyLCount_eq [OF assms(1,2)] Let_def by (simp del: of_nat_Suc)
  have "unat (word_of_nat (Suc j) :: word_t) = Suc j" using j(1) assms(2) by (simp add: unat_of_nat take_bit_nat_eq_self del: of_nat_Suc)
  then have "JudyLByCount array (word_of_nat (Suc j)) (Some pindex) = NavFound i v"
    unfolding JudyLByCount_eq [OF assms(1,2)] using j by (simp del: of_nat_Suc)
  with c show ?thesis by blast
qed

theorem count_by_count_roundtrip_witness:
  "(\<exists>n. JudyLCount judyL_sample 0 0x020A0B0C0D0E0309 = CountIs n \<and>
     JudyLByCount judyL_sample n (Some 0) = NavFound 0x020A0B0C0D0E0309 90) \<and>
   JudyLCount judyL_sample 0 0x020A0B0C0D0E0309 = CountIs 33"
proof
  have "map_of (judyL_entries judyL_sample) (unat (0x020A0B0C0D0E0309 :: word_t)) = Some 90" by code_simp
  from count_by_count_roundtrip [OF judyL_sample_wf judyL_sample_length this, of 0]
  show "\<exists>n. JudyLCount judyL_sample 0 0x020A0B0C0D0E0309 = CountIs n \<and>
     JudyLByCount judyL_sample n (Some 0) = NavFound 0x020A0B0C0D0E0309 90" .
  have "length (filter (\<lambda>(k, v). unat (0 :: word_t) \<le> k \<and> k \<le> unat (0x020A0B0C0D0E0309 :: word_t)) (judyL_entries judyL_sample)) = 33"
    by code_simp
  then show "JudyLCount judyL_sample 0 0x020A0B0C0D0E0309 = CountIs 33"
    unfolding JudyLCount_eq [OF judyL_sample_wf judyL_sample_length] by simp
qed

end
