(* ===== verification/JudyCascade.thy ===== *)
theory JudyCascade
  imports JudyOrder
begin

text \<open>
  Building branches and cascading leaves (\<open>JudyCreateBranch.c\<close>, \<open>JudyInsertBranch.c\<close> and \<open>JudyCascade.c\<close> in
  \<open>src/Judy/src/JudyCommon/\<close>): the functions that insertion calls to change the form of a subtree.  An
  allocation does not fail; a failed assertion and a read outside an array are \<open>None\<close>.
\<close>

section \<open>Arrays with one more element\<close>

text \<open>\<open>JU_INSERTINPLACE\<close> in an array with room behind its \<open>pop1\<close> elements, \<open>JU_INSERTCOPY\<close> into an array one
  longer: the list of the elements with the new one at the offset.\<close>

definition insert_slot :: "'a list \<Rightarrow> nat \<Rightarrow> nat \<Rightarrow> 'a \<Rightarrow> 'a list" where
  "insert_slot parray pop1 offset x = JU_INSERTINPLACE (parray @ [x]) pop1 offset x"

definition JU_JPSETDCD :: "word_t \<Rightarrow> dcdpop0" where
  "JU_JPSETDCD dcdp0 = ucast dcdp0"

definition cJU_BRANCHLMAXJPS :: nat where "cJU_BRANCHLMAXJPS = 7"

section \<open>Creating branches\<close>

definition j__udyCreateBranchL :: "'v jp list \<Rightarrow> uint8 list \<Rightarrow> (uint8 \<times> 'v jp) list" where
  "j__udyCreateBranchL pjps exps = zip exps pjps"

text \<open>The loop of \<open>j__udyCreateBranchB\<close>; \<open>run\<close> are the pointers from \<open>PJPs + jj\<close> up to the current one, all of
  the subexpanse \<open>currsubexp\<close>.\<close>

definition set_jbb_bit :: "(uint32 \<times> 'b) list \<Rightarrow> nat \<Rightarrow> nat \<Rightarrow> (uint32 \<times> 'b) list" where
  "set_jbb_bit jbb subexp digit = jbb[subexp := (fst (jbb ! subexp) OR JU_BITPOSMASKB digit, snd (jbb ! subexp))]"

definition set_jbb_pjp :: "(uint32 \<times> 'b) list \<Rightarrow> nat \<Rightarrow> 'b \<Rightarrow> (uint32 \<times> 'b) list" where
  "set_jbb_pjp jbb subexp pjp = jbb[subexp := (fst (jbb ! subexp), pjp)]"

fun create_branch_b :: "(uint32 \<times> 'v jp list) list \<Rightarrow> nat \<Rightarrow> 'v jp list \<Rightarrow> (uint8 \<times> 'v jp) list \<Rightarrow>
    (uint32 \<times> 'v jp list) list" where
  "create_branch_b jbb currsubexp run [] = set_jbb_pjp jbb currsubexp run"
| "create_branch_b jbb currsubexp run ((e, jp) # rest) =
     (let subexp = unat e div cJU_BITSPERSUBEXPB; jbb = set_jbb_bit jbb subexp (unat e)
      in if subexp \<noteq> currsubexp then create_branch_b (set_jbb_pjp jbb currsubexp run) subexp [jp] rest
         else create_branch_b jbb currsubexp (run @ [jp]) rest)"

definition j__udyCreateBranchB :: "'v jp list \<Rightarrow> uint8 list \<Rightarrow> (uint32 \<times> 'v jp list) list" where
  "j__udyCreateBranchB pjps exps =
     create_branch_b (replicate cJU_NUMSUBEXPB (0, [])) (unat (hd exps) div cJU_BITSPERSUBEXPB) [] (zip exps pjps)"

text \<open>\<open>j__udyCreateBranchU\<close>: the subexpanses of a bitmap branch one after the other, a null pointer for each
  digit without one.\<close>

fun spread_jps :: "nat \<Rightarrow> uint32 \<Rightarrow> 'v jp \<Rightarrow> 'v jp list \<Rightarrow> 'v jp list option" where
  "spread_jps 0 bitmap jpnull pjpa = Some []"
| "spread_jps (Suc n) bitmap jpnull pjpa =
     (if bitmap AND 1 \<noteq> 0
      then (case pjpa of [] \<Rightarrow> None | jp # rest \<Rightarrow> map_option ((#) jp) (spread_jps n (drop_bit 1 bitmap) jpnull rest))
      else map_option ((#) jpnull) (spread_jps n (drop_bit 1 bitmap) jpnull pjpa))"

definition spread_subexp :: "'v jp \<Rightarrow> uint32 \<times> 'v jp list \<Rightarrow> 'v jp list option" where
  "spread_subexp jpnull = (\<lambda>(bitmap, pjpa).
     if bitmap = 0 then Some (replicate cJU_BITSPERSUBEXPB jpnull)
     else if bitmap = NOT 0
     then (if length pjpa < cJU_BITSPERSUBEXPB then None else Some (take cJU_BITSPERSUBEXPB pjpa))
     else spread_jps cJU_BITSPERSUBEXPB bitmap jpnull pjpa)"

fun spread_subexps :: "'v jp \<Rightarrow> (uint32 \<times> 'v jp list) list \<Rightarrow> 'v jp list option" where
  "spread_subexps jpnull [] = Some []"
| "spread_subexps jpnull (sub # subs) =
     (case spread_subexp jpnull sub of
        None \<Rightarrow> None
      | Some jps \<Rightarrow> map_option ((@) jps) (spread_subexps jpnull subs))"

definition j__udyCreateBranchU :: "nat \<Rightarrow> (uint32 \<times> 'v jp list) list \<Rightarrow> 'v jp list option" where
  "j__udyCreateBranchU s jbb =
     (if length jbb = cJU_NUMSUBEXPB then spread_subexps (JPNULL (s - 1)) jbb else None)"

text \<open>Conversion of a linear branch to an uncompressed one (\<open>ConvertBranchLtoU\<close> in \<open>JudyIns.c\<close>).\<close>

definition ConvertBranchLtoU :: "nat \<Rightarrow> (uint8 \<times> 'v jp) list \<Rightarrow> 'v jp list" where
  "ConvertBranchLtoU s jbl = fold (\<lambda>(e, jp) jbu. jbu[unat e := jp]) jbl (replicate 256 (JPNULL (s - 1)))"

section \<open>Inserting a branch\<close>

fun jp_DcdP0 :: "'v jp \<Rightarrow> dcdpop0" where
  "jp_DcdP0 (JPBRANCH_L s dcd jbl) = dcd"
| "jp_DcdP0 (JPBRANCH_B s dcd jbb) = dcd"
| "jp_DcdP0 (JPBRANCH_U s dcd jbu) = dcd"
| "jp_DcdP0 (JPLEAF s dcd keys vals) = dcd"
| "jp_DcdP0 (JPLEAF_B1 dcd jlb) = dcd"
| "jp_DcdP0 (JPIMMED_01 s dcd v) = dcd"
| "jp_DcdP0 _ = 0"

text \<open>\<open>do { ++BranchLevel; } while ((XorExp >>= cJU_BITSPERBYTE))\<close>\<close>

function diverging_level :: "word_t \<Rightarrow> nat \<Rightarrow> nat" where
  "diverging_level xorexp branchlevel =
     (let xorexp' = drop_bit 8 xorexp
      in if xorexp' = 0 then branchlevel + 1 else diverging_level xorexp' (branchlevel + 1))"
  by pat_completeness auto
termination
proof (relation "measure (\<lambda>(x, l). unat x)")
  fix xorexp xorexp' :: word_t and branchlevel :: nat
  assume x: "xorexp' = drop_bit 8 xorexp" "xorexp' \<noteq> 0"
  have u: "unat xorexp' = unat xorexp div 2 ^ 8" by (simp only: x(1) unat_drop_bit_eq) (rule drop_bit_eq_div)
  have "unat xorexp' \<noteq> 0" using x(2) by (simp add: unat_eq_0)
  then have "unat xorexp \<noteq> 0" unfolding u by (metis div_0)
  then have "unat xorexp div 2 ^ 8 < unat xorexp" by (intro div_less_dividend) auto
  then show "((xorexp', branchlevel + 1), xorexp, branchlevel) \<in> measure (\<lambda>(x, l). unat x)" using u by simp
qed simp

declare diverging_level.simps [simp del]

definition j__udyInsertBranch :: "'v jp \<Rightarrow> word_t \<Rightarrow> nat \<Rightarrow> 'v \<Rightarrow> 'v jp option" where
  "j__udyInsertBranch jp index oldlevel v =
     (let dcdpop0 = JU_JPDCDPOP0 (jp_DcdP0 jp);
          xorexp = drop_bit (oldlevel * 8) ((index XOR dcdpop0) AND drop_bit 8 cJU_ALLONES);
          branchlevel = diverging_level xorexp oldlevel;
          decodebyteO = JU_DIGITATSTATE dcdpop0 branchlevel;
          decodebyteN = JU_DIGITATSTATE index branchlevel;
          newjp = JPIMMED_01 (branchlevel - 1) (JU_JPSETDCD index) v;
          dcdmask = cJU_DCDMASK oldlevel XOR cJU_DCDMASK branchlevel
      in if xorexp = 0 \<or> \<not> (1 < branchlevel \<and> branchlevel < cJU_ROOTSTATE) \<or> decodebyteO = decodebyteN then None
         else Some (JPBRANCH_L branchlevel (JU_JPSETDCD (NOT dcdmask AND dcdpop0))
           (if decodebyteN > decodebyteO
            then j__udyCreateBranchL [jp, newjp] [decodebyteO, decodebyteN]
            else j__udyCreateBranchL [newjp, jp] [decodebyteN, decodebyteO])))"

section \<open>Bitmap leaves from lists of indexes\<close>

definition JU_BITMAPSETL :: "word_t \<Rightarrow> word_t list \<Rightarrow> word_t list" where
  "JU_BITMAPSETL index bitmaps =
     (let digit = unat (JU_DIGITATSTATE index 1); subexp = digit div cJU_BITSPERSUBEXPL
      in bitmaps[subexp := bitmaps ! subexp OR JU_BITPOSMASKL digit])"

fun build_leafvs :: "word_t list \<Rightarrow> 'v list \<Rightarrow> (word_t \<times> 'v list) list" where
  "build_leafvs [] pjv = []"
| "build_leafvs (bitmap # bitmaps) pjv =
     (let pop1 = unat (j__udyCountBitsL bitmap) in (bitmap, take pop1 pjv) # build_leafvs bitmaps (drop pop1 pjv))"

definition j__udyJLL2toJLB1 :: "word_t list \<Rightarrow> 'v list \<Rightarrow> (word_t \<times> 'v list) list" where
  "j__udyJLL2toJLB1 pjll pjv = build_leafvs (fold JU_BITMAPSETL pjll (replicate cJU_NUMSUBEXPL 0)) pjv"

section \<open>Cascades\<close>

text \<open>A leaf with the maximum population: \<open>cascade_ready\<close> is the assertion at the start of each cascade.\<close>

definition cascade_ready :: "nat \<Rightarrow> dcdpop0 \<Rightarrow> bool" where
  "cascade_ready s dcd \<longleftrightarrow> JU_JPDCDPOP0 dcd AND cJU_POP0MASK s = word_of_nat (cJL_LEAF_MAXPOP1 s - 1)"

definition j__udyCascade1 :: "dcdpop0 \<Rightarrow> word_t list \<Rightarrow> 'v list \<Rightarrow> 'v jp option" where
  "j__udyCascade1 dcd pleaf pjv =
     (if cascade_ready 1 dcd
      then Some (JPLEAF_B1 (JU_JPSETDCD (JU_JPDCDPOP0 dcd OR (hd pleaf AND cJU_DCDMASK 1)))
                   (build_leafvs (fold JU_BITMAPSETL pleaf (replicate cJU_NUMSUBEXPL 0)) pjv))
      else None)"

text \<open>The splay loop: \<open>run\<close> are the indexes and values from \<open>Start\<close> on, the first of them \<open>CIndex\<close>; an index with
  another digit ends the run.\<close>

fun splay_loop :: "nat \<Rightarrow> ((word_t \<times> 'v) list \<Rightarrow> 'v jp) \<Rightarrow> word_t \<Rightarrow> (word_t \<times> 'v) list \<Rightarrow> (word_t \<times> 'v) list \<Rightarrow>
    (uint8 \<times> 'v jp) list" where
  "splay_loop s build cindex run [] = [(JU_DIGITATSTATE cindex s, build run)]"
| "splay_loop s build cindex run ((k, v) # rest) =
     (if JU_DIGITATSTATE (cindex XOR k) s \<noteq> 0
      then (JU_DIGITATSTATE cindex s, build run) # splay_loop s build k [(k, v)] rest
      else splay_loop s build cindex (run @ [(k, v)]) rest)"

fun splay :: "nat \<Rightarrow> ((word_t \<times> 'v) list \<Rightarrow> 'v jp) \<Rightarrow> (word_t \<times> 'v) list \<Rightarrow> (uint8 \<times> 'v jp) list" where
  "splay s build [] = []"
| "splay s build ((k, v) # rest) = splay_loop s build k [(k, v)] rest"

text \<open>The staged bitmap branch: for each subexpanse its bitmap and the number of its pointers.\<close>

definition stage_expanse :: "uint8 \<Rightarrow> (uint32 \<times> nat) list \<Rightarrow> (uint32 \<times> nat) list" where
  "stage_expanse expanse stagejbb =
     (let subexp = unat expanse div cJU_BITSPERSUBEXPB; (bitmap, subjpcount) = stagejbb ! subexp
      in stagejbb[subexp := (bitmap OR JU_BITPOSMASKB (unat expanse), subjpcount + 1)])"

fun j__udyStageJBBtoJBB :: "(uint32 \<times> nat) list \<Rightarrow> 'v jp list \<Rightarrow> (uint32 \<times> 'v jp list) list" where
  "j__udyStageJBBtoJBB [] pjparray = []"
| "j__udyStageJBBtoJBB ((bitmap, numjp) # stagejbb) pjparray =
     (bitmap, take numjp pjparray) # j__udyStageJBBtoJBB stagejbb (drop numjp pjparray)"

text \<open>Put the leaves below a linear or a bitmap branch.\<close>

definition branch_below :: "nat \<Rightarrow> dcdpop0 \<Rightarrow> (uint8 \<times> 'v jp) list \<Rightarrow> 'v jp" where
  "branch_below s dcd stage =
     (if length stage \<le> cJU_BRANCHLMAXJPS
      then JPBRANCH_L s dcd (j__udyCreateBranchL (map snd stage) (map fst stage))
      else JPBRANCH_B s dcd
             (j__udyStageJBBtoJBB (fold stage_expanse (map fst stage) (replicate cJU_NUMSUBEXPB (0, 0))) (map snd stage)))"

text \<open>The pointer for one expanse below a leaf of state \<open>s\<close>.\<close>

definition splay_dcd :: "nat \<Rightarrow> dcdpop0 \<Rightarrow> word_t \<Rightarrow> nat \<Rightarrow> dcdpop0" where
  "splay_dcd s dcd cindex pop1 =
     JU_JPSETDCD ((JU_JPDCDPOP0 dcd AND cJU_DCDMASK s) OR (cindex AND cJU_DCDMASK (s - 1)) OR word_of_nat (pop1 - 1))"

definition splay_jp :: "nat \<Rightarrow> dcdpop0 \<Rightarrow> (word_t \<times> 'v) list \<Rightarrow> 'v jp" where
  "splay_jp s dcd run =
     (let pop1 = length run; cindex = fst (hd run); pjll = map (\<lambda>(k, v). JU_LEASTBYTES k (s - 1)) run; pjv = map snd run
      in if pop1 = 1
         then JPIMMED_01 (s - 1) (JU_JPSETDCD ((JU_JPDCDPOP0 dcd AND cJU_DCDMASK (s - 1)) OR cindex)) (snd (hd run))
         else if s \<le> 4 \<and> pop1 \<le> cJL_IMMED_MAXPOP1 (s - 1) then JPIMMED (s - 1) pjll pjv
         else if s = 2 \<and> cJL_LEAF_MAXPOP1 1 < pop1
         then JPLEAF_B1 (splay_dcd s dcd cindex pop1) (j__udyJLL2toJLB1 (map fst run) pjv)
         else JPLEAF (s - 1) (splay_dcd s dcd cindex pop1) pjll pjv)"

definition leaf_in_one_expanse :: "nat \<Rightarrow> word_t list \<Rightarrow> bool" where
  "leaf_in_one_expanse s pleaf \<longleftrightarrow> JU_DIGITATSTATE (hd pleaf XOR last pleaf) s = 0"

definition j__udyCascade2 :: "dcdpop0 \<Rightarrow> word_t list \<Rightarrow> 'v list \<Rightarrow> 'v jp option" where
  "j__udyCascade2 dcd pleaf pjv =
     (if \<not> cascade_ready 2 dcd then None
      else if leaf_in_one_expanse 2 pleaf
      then Some (JPLEAF_B1 (JU_JPSETDCD ((hd pleaf AND cJU_DCDMASK 1) OR JU_JPDCDPOP0 dcd)) (j__udyJLL2toJLB1 pleaf pjv))
      else Some (branch_below 2 dcd (splay 2 (splay_jp 2 dcd) (zip pleaf pjv))))"

text \<open>The cascades of the states 3 to 7 differ in the index sizes only.\<close>

definition leaf_cascade :: "nat \<Rightarrow> dcdpop0 \<Rightarrow> word_t list \<Rightarrow> 'v list \<Rightarrow> 'v jp option" where
  "leaf_cascade s dcd pleaf pjv =
     (if \<not> cascade_ready s dcd then None
      else if leaf_in_one_expanse s pleaf
      then Some (JPLEAF (s - 1) (JU_JPSETDCD ((hd pleaf AND cJU_DCDMASK (s - 1)) OR JU_JPDCDPOP0 dcd))
                   (map (\<lambda>k. JU_LEASTBYTES k (s - 1)) pleaf) pjv)
      else Some (branch_below s dcd (splay s (splay_jp s dcd) (zip pleaf pjv))))"

definition j__udyCascade3 :: "dcdpop0 \<Rightarrow> word_t list \<Rightarrow> 'v list \<Rightarrow> 'v jp option" where
  "j__udyCascade3 = leaf_cascade 3"

definition j__udyCascade4 :: "dcdpop0 \<Rightarrow> word_t list \<Rightarrow> 'v list \<Rightarrow> 'v jp option" where
  "j__udyCascade4 = leaf_cascade 4"

definition j__udyCascade5 :: "dcdpop0 \<Rightarrow> word_t list \<Rightarrow> 'v list \<Rightarrow> 'v jp option" where
  "j__udyCascade5 = leaf_cascade 5"

definition j__udyCascade6 :: "dcdpop0 \<Rightarrow> word_t list \<Rightarrow> 'v list \<Rightarrow> 'v jp option" where
  "j__udyCascade6 = leaf_cascade 6"

definition j__udyCascade7 :: "dcdpop0 \<Rightarrow> word_t list \<Rightarrow> 'v list \<Rightarrow> 'v jp option" where
  "j__udyCascade7 = leaf_cascade 7"

text \<open>The cascade of the root leaf: the JPM's pointer has no Dcd bytes yet.\<close>

definition splay_jp_root :: "(word_t \<times> 'v) list \<Rightarrow> 'v jp" where
  "splay_jp_root run =
     (let pop1 = length run; cindex = fst (hd run)
      in if pop1 = 1 then JPIMMED_01 7 (JU_JPSETDCD cindex) (snd (hd run))
         else JPLEAF 7 (JU_JPSETDCD (word_of_nat (pop1 - 1))) (map (\<lambda>(k, v). JU_LEASTBYTES k 7) run) (map snd run))"

definition j__udyCascadeL :: "word_t list \<Rightarrow> 'v list \<Rightarrow> 'v jp" where
  "j__udyCascadeL pjlw pjv =
     (if leaf_in_one_expanse cJU_ROOTSTATE pjlw
      then JPBRANCH_L 8 0 (j__udyCreateBranchL
             [JPLEAF 7 (JU_JPSETDCD (cJU_LEAFW_MAXPOP1 - 1)) (map (\<lambda>k. JU_LEASTBYTES k 7) pjlw) pjv]
             [JU_DIGITATSTATE (hd pjlw) cJU_ROOTSTATE])
      else branch_below 8 0 (splay cJU_ROOTSTATE splay_jp_root (zip pjlw pjv)))"

end
