(* ===== verification/JudyBlocks.thy ===== *)
theory JudyBlocks
  imports JudyCascade
begin

text \<open>
  Arrays and bitmaps that grow: an element inserted into an array, a bit and its element into the blocks of a
  bitmap branch or bitmap leaf, and the blocks built from an ascending list of digits.
\<close>

section \<open>Arrays\<close>

lemma insert_slot_eq:
  assumes "offset \<le> length xs"
  shows "insert_slot xs (length xs) offset x = take offset xs @ x # drop offset xs"
proof -
  have "shift_up 1 offset (length xs) (xs @ [x]) = take (offset * 1 + 1) (xs @ [x])
      @ take ((length xs - offset) * 1) (drop (offset * 1) (xs @ [x])) @ drop (length xs * 1 + 1) (xs @ [x])"
    by (rule shift_up_eq) (use assms in simp_all)
  also have "\<dots> = take (Suc offset) (xs @ [x]) @ drop offset xs" using assms by simp
  finally have s: "shift_up 1 offset (length xs) (xs @ [x]) = take (Suc offset) (xs @ [x]) @ drop offset xs" .
  have "take (Suc offset) (xs @ [x]) = take offset (xs @ [x]) @ [(xs @ [x]) ! offset]"
    using assms by (intro take_Suc_conv_app_nth) simp
  then obtain y where "take (Suc offset) (xs @ [x]) = take offset xs @ [y]" using assms by simp
  then show ?thesis unfolding insert_slot_def JU_INSERTINPLACE_def s using assms by (simp add: list_update_append)
qed

lemma set_insert_slot: "offset \<le> length xs \<Longrightarrow> set (take offset xs @ x # drop offset xs) = insert x (set xs)"
  by (metis Un_insert_right append_take_drop_id list.simps(15) set_append)

lemma zip_insert_slot:
  assumes "length ys = length xs" "offset \<le> length xs"
  shows "zip (take offset xs @ x # drop offset xs) (take offset ys @ y # drop offset ys)
    = take offset (zip xs ys) @ (x, y) # drop offset (zip xs ys)"
  using assms by (simp add: take_zip drop_zip)

section \<open>A key inserted into an ascending list\<close>

lemma sorted_insert_slot:
  assumes "sorted_wrt (<) (keys :: word_t list)" "x \<notin> set keys"
  defines "n \<equiv> insertion_point keys x"
  shows "sorted_wrt (<) (take n keys @ x # drop n keys)"
proof -
  have t: "k < x" if "k \<in> set (take n keys)" for k
    using that nth_insertion_point(1) [of _ keys x] by (auto simp: n_def in_set_conv_nth)
  have d: "x < k" if k: "k \<in> set (drop n keys)" for k
  proof -
    obtain i where "i < length (drop n keys)" "k = drop n keys ! i" using k by (auto simp: in_set_conv_nth)
    then have i: "n + i < length keys" "k = keys ! (n + i)" by simp_all
    then have "n < length keys" by simp
    then have "x \<le> keys ! n" unfolding n_def by (rule nth_insertion_point)
    also have "keys ! n \<le> k"
      using i sorted_wrt_nth_less [OF assms(1), of n "n + i"] by (cases "i = 0") auto
    finally have "x \<le> k" .
    moreover have "k \<noteq> x" using assms(2) k in_set_dropD by metis
    ultimately show ?thesis by simp
  qed
  have "sorted_wrt (<) (take n keys)" "sorted_wrt (<) (drop n keys)"
    using assms(1) by (simp_all add: sorted_wrt_take sorted_wrt_drop)
  moreover have "a < b" if "a \<in> set (take n keys)" "b \<in> set (drop n keys)" for a b using t [OF that(1)] d [OF that(2)] by simp
  ultimately show ?thesis using t d by (auto simp: sorted_wrt_append)
qed

section \<open>A bit inserted into a bitmap\<close>

lemma set_positions_insert:
  assumes "p < LENGTH('a)" "\<not> bit (w :: 'a::len word) p"
  shows "set_positions (w OR push_bit p 1) = take (bits_below w p) (set_positions w) @ p # drop (bits_below w p) (set_positions w)"
proof -
  let ?w = "w OR push_bit p 1"
  have bits: "bit ?w i \<longleftrightarrow> bit w i \<or> i = p" if "i < LENGTH('a)" for i
    using that assms(1) by (auto simp: bit_simps)
  have low: "filter (bit ?w) [0..<p] = filter (bit w) [0..<p]"
    by (rule filter_cong) (use bits assms(1) in auto)
  have up: "[p..<LENGTH('a)] = p # [Suc p..<LENGTH('a)]" using assms(1) by (rule upt_conv_Cons)
  have "filter (bit ?w) [Suc p..<LENGTH('a)] = filter (bit w) [Suc p..<LENGTH('a)]"
    by (rule filter_cong) (use bits in auto)
  then have high: "filter (bit ?w) [p..<LENGTH('a)] = p # filter (bit w) [p..<LENGTH('a)]"
    unfolding up using bits [OF assms(1)] assms(2) by simp
  show ?thesis
    unfolding positions_split [OF assms(1), of ?w] low high
    unfolding positions_split [OF assms(1), of w] by (simp add: bits_below_def)
qed

definition bm_list :: "('a::len word \<times> 'b list) list \<Rightarrow> (nat \<times> 'b) list" where
  "bm_list subs = concat (map (\<lambda>(k, bm, xs). zip (map ((+) (LENGTH('a) * k)) (set_positions bm)) xs) (enumerate 0 subs))"

lemma bm_list_blocks: "bm_list subs = concat (map (bm_block subs) [0..<length subs])"
  unfolding bm_list_def by (rule bm_pairs)

lemma bm_list_set: "set (bm_list subs) = (\<Union>k<length subs. set (bm_block subs k))"
  by (auto simp: bm_list_blocks)

lemma bm_list_update:
  fixes subs :: "('a::len word \<times> 'b list) list"
  assumes "k < length subs" "subs ! k = (bm, xs)"
  shows "set (bm_list (subs[k := (bm', xs')])) =
    {x \<in> set (bm_list subs). fst x div LENGTH('a) \<noteq> k} \<union> set (zip (map ((+) (LENGTH('a) * k)) (set_positions bm')) xs')"
proof -
  have blk: "bm_block (subs[k := (bm', xs')]) j = (if j = k then zip (map ((+) (LENGTH('a) * k)) (set_positions bm')) xs'
      else bm_block subs j)" if "j < length subs" for j
    using that by (simp add: bm_block_def nth_list_update)
  have "(\<Union>j<length subs. set (bm_block (subs[k := (bm', xs')]) j))
      = (\<Union>j\<in>{..<length subs} - {k}. set (bm_block subs j)) \<union> set (zip (map ((+) (LENGTH('a) * k)) (set_positions bm')) xs')"
    using assms(1) by (auto simp: blk split: if_splits)
  also have "(\<Union>j\<in>{..<length subs} - {k}. set (bm_block subs j)) = {x \<in> set (bm_list subs). fst x div LENGTH('a) \<noteq> k}"
    unfolding bm_list_set by (auto dest: bm_block_digit)
  finally show ?thesis unfolding bm_list_set [of "subs[k := (bm', xs')]"] by simp
qed

lemma bm_shape_update:
  "bm_shape n subs \<Longrightarrow> length xs = length (set_positions bm) \<Longrightarrow> bm_shape n (subs[k := (bm, xs)])"
  unfolding bm_shape_def by (auto dest!: set_update_subset_insert [THEN subsetD])

lemma bm_digit:
  assumes "bm_shape n (subs :: ('a::len word \<times> 'b list) list)" "d < LENGTH('a) * n" "subs ! (d div LENGTH('a)) = (bm, xs)"
  shows "d div LENGTH('a) < length subs" "length xs = length (set_positions bm)" "LENGTH('a) * (d div LENGTH('a)) + d mod LENGTH('a) = d"
    and "x \<in> set (bm_list subs) \<Longrightarrow> fst x div LENGTH('a) = d div LENGTH('a) \<longleftrightarrow>
      x \<in> set (zip (map ((+) (LENGTH('a) * (d div LENGTH('a)))) (set_positions bm)) xs)"
    and "set (zip (map ((+) (LENGTH('a) * (d div LENGTH('a)))) (set_positions bm)) xs) \<subseteq> set (bm_list subs)"
proof -
  let ?k = "d div LENGTH('a)"
  have k: "?k < n" using assms(2) by (simp add: less_mult_imp_div_less mult.commute)
  then show kl: "?k < length subs" using assms(1) by (simp add: bm_shape_def)
  note b = bm_block_sub [OF assms(1) k assms(3)]
  show "length xs = length (set_positions bm)" by (rule b(2))
  show "LENGTH('a) * ?k + d mod LENGTH('a) = d" by simp
  show "set (zip (map ((+) (LENGTH('a) * ?k)) (set_positions bm)) xs) \<subseteq> set (bm_list subs)"
    unfolding bm_list_set b(1) [symmetric] using kl by blast
  show "fst x div LENGTH('a) = ?k \<longleftrightarrow> x \<in> set (zip (map ((+) (LENGTH('a) * ?k)) (set_positions bm)) xs)"
    if x: "x \<in> set (bm_list subs)"
  proof -
    obtain j where "x \<in> set (bm_block subs j)" using x unfolding bm_list_set by blast
    then show ?thesis unfolding b(1) [symmetric] using bm_block_digit [of x subs] by metis
  qed
qed

lemma bm_insert:
  fixes subs :: "('a::len word \<times> 'b list) list" and x :: 'b
  assumes "bm_shape n subs" "d < LENGTH('a) * n" "subs ! (d div LENGTH('a)) = (bm, xs)" "\<not> bit bm (d mod LENGTH('a))"
  defines "off \<equiv> bits_below bm (d mod LENGTH('a))"
  defines "subs' \<equiv> subs[d div LENGTH('a) := (bm OR push_bit (d mod LENGTH('a)) 1, take off xs @ x # drop off xs)]"
  shows "bm_shape n subs'" "set (bm_list subs') = insert (d, x) (set (bm_list subs))" "d \<notin> fst ` set (bm_list subs)"
proof -
  let ?k = "d div LENGTH('a)" and ?p = "d mod LENGTH('a)"
  let ?blk = "zip (map ((+) (LENGTH('a) * ?k)) (set_positions bm)) xs"
  note dg = bm_digit [OF assms(1-3)]
  have p: "?p < LENGTH('a)" by simp
  have off: "off \<le> length xs" unfolding off_def dg(2) using bits_below_le [of ?p bm] p by simp
  note pos = set_positions_insert [OF p assms(4), folded off_def]
  show "bm_shape n subs'"
    unfolding subs'_def by (rule bm_shape_update [OF assms(1)], unfold pos) (use off dg(2) in simp)
  have "zip (map ((+) (LENGTH('a) * ?k)) (set_positions (bm OR push_bit ?p 1))) (take off xs @ x # drop off xs)
      = take off ?blk @ (d, x) # drop off ?blk"
    unfolding pos using off dg(2,3) by (simp add: take_map drop_map take_zip drop_zip)
  moreover have "off \<le> length ?blk" using off dg(2) by simp
  ultimately have "set (zip (map ((+) (LENGTH('a) * ?k)) (set_positions (bm OR push_bit ?p 1))) (take off xs @ x # drop off xs))
      = insert (d, x) (set ?blk)" using set_insert_slot by metis
  moreover have "{x \<in> set (bm_list subs). fst x div LENGTH('a) \<noteq> ?k} \<union> set ?blk = set (bm_list subs)"
    using dg(4,5) by blast
  ultimately show "set (bm_list subs') = insert (d, x) (set (bm_list subs))"
    unfolding subs'_def bm_list_update [OF dg(1) assms(3)] by auto
  show "d \<notin> fst ` set (bm_list subs)"
  proof
    assume "d \<in> fst ` set (bm_list subs)"
    then obtain y where "(d, y) \<in> set (bm_list subs)" by auto
    then have "(d, y) \<in> set ?blk" using dg(4) [of "(d, y)"] by simp
    then obtain i where "i \<in> set (set_positions bm)" "d = LENGTH('a) * ?k + i" by (auto dest!: set_zip_leftD)
    then have "?p \<in> set (set_positions bm)" using dg(3) by (metis add_left_cancel)
    then show False using assms(4) set_positions_iff by blast
  qed
qed

lemma bm_update:
  fixes subs :: "('a::len word \<times> 'b list) list" and x :: 'b
  assumes "bm_shape n subs" "d < LENGTH('a) * n" "subs ! (d div LENGTH('a)) = (bm, xs)" "bit bm (d mod LENGTH('a))"
  defines "off \<equiv> bits_below bm (d mod LENGTH('a))"
  defines "subs' \<equiv> subs[d div LENGTH('a) := (bm, xs[off := x])]"
  shows "bm_shape n subs'" "set (bm_list subs') = {y \<in> set (bm_list subs). fst y \<noteq> d} \<union> {(d, x)}"
    and "off < length xs" "(d, xs ! off) \<in> set (bm_list subs)"
proof -
  let ?k = "d div LENGTH('a)" and ?p = "d mod LENGTH('a)"
  let ?pos = "map ((+) (LENGTH('a) * ?k)) (set_positions bm)"
  note dg = bm_digit [OF assms(1-3)]
  have off: "off < length (set_positions bm)" "set_positions bm ! off = ?p" using nth_bits_below [OF assms(4)] by (simp_all add: off_def)
  then show off': "off < length xs" using dg(2) by simp
  have nth: "?pos ! off = d" using off dg(3) by simp
  have dist: "distinct ?pos" using sorted_set_positions [of bm] by (simp add: distinct_map strict_sorted_iff)
  have "(d, xs ! off) \<in> set (zip ?pos xs)" using off off' nth by (metis in_set_zip fst_conv length_map snd_conv)
  then show "(d, xs ! off) \<in> set (bm_list subs)" using dg(5) by blast
  show "bm_shape n subs'" unfolding subs'_def by (rule bm_shape_update [OF assms(1)]) (simp add: dg(2))
  have z: "set (zip ?pos (xs[off := x])) = {y \<in> set (zip ?pos xs). fst y \<noteq> d} \<union> {(d, x)}"
  proof -
    have "?pos ! i = d \<longleftrightarrow> i = off" if "i < length ?pos" for i
      using that dist nth off nth_eq_iff_index_eq [of ?pos i off] by (auto simp: nth)
    moreover have "(d, x) \<in> set (zip ?pos (xs[off := x]))"
      using off off' nth by (metis fst_conv in_set_zip length_list_update length_map nth_list_update_eq snd_conv)
    ultimately show ?thesis using off off' dg(2) nth by (auto simp: set_zip nth_list_update)
  qed
  have "fst y div LENGTH('a) \<noteq> ?k \<Longrightarrow> fst y \<noteq> d" for y :: "nat \<times> 'b" by auto
  then show "set (bm_list subs') = {y \<in> set (bm_list subs). fst y \<noteq> d} \<union> {(d, x)}"
    unfolding subs'_def bm_list_update [OF dg(1) assms(3)] z using dg(4,5) by blast
qed

section \<open>The blocks of an ascending list\<close>

definition block_of :: "nat \<Rightarrow> (nat \<times> 'b) list \<Rightarrow> nat \<Rightarrow> (nat \<times> 'b) list" where
  "block_of W ps k = filter (\<lambda>x. fst x div W = k) ps"

lemma concat_block_of:
  assumes "sorted_wrt (<) (map fst ps)" "\<forall>d\<in>fst ` set ps. d < W * n"
  shows "concat (map (block_of W ps) [0..<n]) = ps"
proof -
  have step: "filter (\<lambda>x. fst x div W < k) ps @ block_of W ps k = filter (\<lambda>x. fst x div W < Suc k) ps" for k
    using assms(1)
  proof (induction ps)
    case (Cons x ps)
    have le: "fst x div W \<le> fst y div W" if "y \<in> set ps" for y
      using Cons.prems that by (intro div_le_mono less_imp_le) auto
    show ?case
    proof (cases "fst x div W < k")
      case True
      then show ?thesis using Cons by (simp add: block_of_def)
    next
      case False
      then have "filter (\<lambda>x. fst x div W < k) ps = []" using le by (intro filter_const_False) (meson le_trans not_less)
      then show ?thesis using Cons False by (auto simp: block_of_def)
    qed
  qed (simp add: block_of_def)
  have "concat (map (block_of W ps) [0..<k]) = filter (\<lambda>x. fst x div W < k) ps" for k
    by (induction k) (use step in auto)
  moreover have "filter (\<lambda>x. fst x div W < n) ps = ps"
    by (rule filter_const_True) (use assms(2) in \<open>auto simp: less_mult_imp_div_less mult.commute\<close>)
  ultimately show ?thesis by simp
qed

definition blocks_built :: "('a::len word \<times> 'b list) list \<Rightarrow> nat \<Rightarrow> (nat \<times> 'b) list \<Rightarrow> bool" where
  "blocks_built subs n ps \<longleftrightarrow> length subs = n \<and>
     (\<forall>k<n. (\<forall>i<LENGTH('a). bit (fst (subs ! k)) i \<longleftrightarrow> LENGTH('a) * k + i \<in> fst ` set ps)
        \<and> snd (subs ! k) = map snd (block_of LENGTH('a) ps k))"

lemma blocks_built:
  fixes subs :: "('a::len word \<times> 'b list) list"
  assumes "blocks_built subs n ps" "sorted_wrt (<) (map fst ps)" "\<forall>d\<in>fst ` set ps. d < LENGTH('a) * n"
  shows "bm_shape n subs" "bm_list subs = ps"
proof -
  have pos: "map ((+) (LENGTH('a) * k)) (set_positions (fst (subs ! k))) = map fst (block_of LENGTH('a) ps k)"
    if "k < n" for k
  proof (rule sorted_distinct_set_unique)
    have bit: "bit (fst (subs ! k)) i \<longleftrightarrow> LENGTH('a) * k + i \<in> fst ` set ps" if "i < LENGTH('a)" for i
      using assms(1) \<open>k < n\<close> that by (simp add: blocks_built_def)
    have "set (map ((+) (LENGTH('a) * k)) (set_positions (fst (subs ! k)))) = {d \<in> fst ` set ps. d div LENGTH('a) = k}"
      (is "?l = ?r")
    proof (intro equalityI subsetI)
      fix d assume "d \<in> ?l"
      then obtain i where i: "bit (fst (subs ! k)) i" "d = LENGTH('a) * k + i" by (auto simp: set_positions_iff)
      have less: "i < LENGTH('a)" using i(1) by (rule bit_imp_le_length)
      show "d \<in> ?r" using bit [OF less] i less by simp
    next
      fix d assume d: "d \<in> ?r"
      then have e: "d = LENGTH('a) * k + d mod LENGTH('a)" by (metis (lifting) mem_Collect_eq mult_div_mod_eq)
      moreover have "bit (fst (subs ! k)) (d mod LENGTH('a))" using bit [of "d mod LENGTH('a)"] d e by auto
      ultimately show "d \<in> ?l" by (metis image_eqI list.set_map set_positions_iff)
    qed
    also have "\<dots> = set (map fst (block_of LENGTH('a) ps k))" by (auto simp: block_of_def)
    finally show "set (map ((+) (LENGTH('a) * k)) (set_positions (fst (subs ! k)))) = set (map fst (block_of LENGTH('a) ps k))" .
    have "sorted_wrt (<) (map ((+) (LENGTH('a) * k)) (set_positions (fst (subs ! k))))"
      using sorted_set_positions [of "fst (subs ! k)"] by (simp add: sorted_wrt_map)
    then show "sorted (map ((+) (LENGTH('a) * k)) (set_positions (fst (subs ! k))))"
      "distinct (map ((+) (LENGTH('a) * k)) (set_positions (fst (subs ! k))))" by (simp_all add: strict_sorted_iff)
    have "sorted_wrt (<) (map fst (block_of LENGTH('a) ps k))"
      using assms(2) unfolding block_of_def sorted_wrt_map by (rule sorted_wrt_filter)
    then show "sorted (map fst (block_of LENGTH('a) ps k))" "distinct (map fst (block_of LENGTH('a) ps k))"
      by (simp_all add: strict_sorted_iff)
  qed
  have len: "length (snd (subs ! k)) = length (set_positions (fst (subs ! k)))" if "k < n" for k
    using arg_cong [OF pos [OF that], of length] assms(1) that by (simp add: blocks_built_def)
  show "bm_shape n subs"
  proof -
    have "length (snd x) = length (set_positions (fst x))" if "x \<in> set subs" for x
      using that len assms(1) by (auto simp: blocks_built_def in_set_conv_nth)
    then show ?thesis using assms(1) by (force simp: bm_shape_def blocks_built_def)
  qed
  have "bm_block subs k = block_of LENGTH('a) ps k" if "k < n" for k
  proof -
    have "bm_block subs k = zip (map fst (block_of LENGTH('a) ps k)) (map snd (block_of LENGTH('a) ps k))"
      using assms(1) that pos [OF that] by (cases "subs ! k") (auto simp: bm_block_def blocks_built_def)
    then show ?thesis by (simp add: zip_map_fst_snd)
  qed
  then have "map (bm_block subs) [0..<n] = map (block_of LENGTH('a) ps) [0..<n]" by simp
  moreover have "length subs = n" using assms(1) by (simp add: blocks_built_def)
  ultimately have "bm_list subs = concat (map (block_of LENGTH('a) ps) [0..<n])"
    unfolding bm_list_blocks by (simp only:)
  then show "bm_list subs = ps" using concat_block_of [OF assms(2,3)] by simp
qed

text \<open>Handing out the elements of a list in portions.\<close>

fun portions :: "nat list \<Rightarrow> 'a list \<Rightarrow> 'a list list" where
  "portions [] xs = []"
| "portions (n # ns) xs = take n xs # portions ns (drop n xs)"

lemma portions_blocks: "portions (map (\<lambda>k. length (g k)) ks) (concat (map g ks)) = map g ks"
  by (induction ks) auto

lemma length_portions [simp]: "length (portions ns xs) = length ns"
  by (induction ns xs rule: portions.induct) auto

lemma build_leafvs_portions:
  "build_leafvs bitmaps vals = zip bitmaps (portions (map (\<lambda>bm. unat (j__udyCountBitsL bm)) bitmaps) vals)"
  by (induction bitmaps vals rule: build_leafvs.induct) (auto simp: Let_def)

lemma stage_jbb_portions: "j__udyStageJBBtoJBB stage jps = zip (map fst stage) (portions (map snd stage) jps)"
  by (induction stage jps rule: j__udyStageJBBtoJBB.induct) auto

lemma portions_block_of:
  assumes "sorted_wrt (<) (map fst ps)" "\<forall>d\<in>fst ` set ps. d < W * n"
    and "length ns = n" "\<And>k. k < n \<Longrightarrow> ns ! k = length (block_of W ps k)"
  shows "portions ns (map snd ps) = map (\<lambda>k. map snd (block_of W ps k)) [0..<n]"
proof -
  have "ns = map (\<lambda>k. length (map snd (block_of W ps k))) [0..<n]"
    using assms(3,4) by (intro nth_equalityI) auto
  moreover have "map snd ps = concat (map (\<lambda>k. map snd (block_of W ps k)) [0..<n])"
    using arg_cong [OF concat_block_of [OF assms(1,2)], of "map snd"] by (simp add: map_concat comp_def)
  ultimately show ?thesis using portions_blocks by metis
qed

section \<open>Bitmap leaves from lists\<close>

text \<open>Setting the bit of a digit in the bitmap of its block.\<close>

lemma digit_bit:
  fixes w :: "'a::len word"
  assumes "i < LENGTH('a)"
  shows "bit (if k = e div LENGTH('a) then w OR push_bit (e mod LENGTH('a)) 1 else w) i \<longleftrightarrow> bit w i \<or> LENGTH('a) * k + i = e"
proof -
  have "LENGTH('a) * k + i = e \<longleftrightarrow> k = e div LENGTH('a) \<and> i = e mod LENGTH('a)" using assms by auto
  then show ?thesis using assms by (simp add: bit_or_iff bit_push_bit_iff del: push_bit_of_1) (auto simp: bit_1_iff)
qed

lemma digit_bit_L: "i < 64 \<Longrightarrow> bit (if k = e div 64 then w OR push_bit (e mod 64) 1 else w :: word_t) i \<longleftrightarrow> bit w i \<or> 64 * k + i = e"
  using digit_bit [of i k e w] by (simp cong: if_cong)

lemma digit_bit_B: "i < 32 \<Longrightarrow> bit (if k = e div 32 then w OR push_bit (e mod 32) 1 else w :: uint32) i \<longleftrightarrow> bit w i \<or> 32 * k + i = e"
  using digit_bit [of i k e w] by (simp cong: if_cong)

lemma fold_bitmapsetl:
  assumes "length bitmaps = 4"
  shows "length (fold JU_BITMAPSETL keys bitmaps) = 4"
    and "k < 4 \<Longrightarrow> i < 64 \<Longrightarrow> bit (fold JU_BITMAPSETL keys bitmaps ! k) i \<longleftrightarrow>
      bit (bitmaps ! k) i \<or> 64 * k + i \<in> (\<lambda>key. unat (JU_DIGITATSTATE key 1)) ` set keys"
  using assms
proof (induction keys arbitrary: bitmaps)
  case (Cons key keys)
  let ?d = "unat (JU_DIGITATSTATE key 1)"
  have d: "?d < 256" by (rule unat_byte_less)
  have new: "JU_BITMAPSETL key bitmaps = bitmaps[?d div 64 := bitmaps ! (?d div 64) OR push_bit (?d mod 64) 1]" for bitmaps
    by (simp add: JU_BITMAPSETL_def cJU_BITSPERSUBEXPL_def JU_BITPOSMASKL_def Let_def)
  {
    case 1
    show ?case using Cons.IH(1) [of "JU_BITMAPSETL key bitmaps"] 1 by (simp add: new)
  next
    case 2
    have n: "JU_BITMAPSETL key bitmaps ! k = (if k = ?d div 64 then bitmaps ! k OR push_bit (?d mod 64) 1 else bitmaps ! k)"
      using 2 by (simp add: new)
    have "bit (JU_BITMAPSETL key bitmaps ! k) i \<longleftrightarrow> bit (bitmaps ! k) i \<or> 64 * k + i = ?d"
      unfolding n using 2(2) by (rule digit_bit_L)
    then show ?case using Cons.IH(2) [of "JU_BITMAPSETL key bitmaps"] 2 by (auto simp: new)
  }
qed auto

lemma jll2tojlb1_built:
  fixes keys :: "word_t list" and vals :: "'v list"
  assumes "sorted_wrt (<) (map (\<lambda>k. unat (JU_DIGITATSTATE k 1)) keys)" "length vals = length keys"
  defines "ps \<equiv> zip (map (\<lambda>k. unat (JU_DIGITATSTATE k 1)) keys) vals"
  shows "blocks_built (build_leafvs (fold JU_BITMAPSETL keys (replicate cJU_NUMSUBEXPL 0)) vals) 4 ps"
proof -
  let ?bs = "fold JU_BITMAPSETL keys (replicate 4 0)"
  have n: "cJU_NUMSUBEXPL = 4" by (simp add: cJU_NUMSUBEXPL_def)
  have len: "length ?bs = 4" by (rule fold_bitmapsetl) simp
  have fst: "map fst ps = map (\<lambda>k. unat (JU_DIGITATSTATE k 1)) keys" and snd: "map snd ps = vals"
    using assms(2) by (simp_all add: ps_def)
  have fs: "fst ` set ps = (\<lambda>k. unat (JU_DIGITATSTATE k 1)) ` set keys"
    using arg_cong [OF fst, of set] by simp
  have less: "\<forall>d\<in>fst ` set ps. d < 64 * 4" unfolding fs using unat_byte_less by auto
  have bit: "bit (?bs ! k) i \<longleftrightarrow> 64 * k + i \<in> fst ` set ps" if "k < 4" "i < 64" for k i
    unfolding fs using fold_bitmapsetl(2) [of "replicate 4 0" k i keys] that by simp
  have srt: "sorted_wrt (<) (map fst ps)" unfolding fst by (rule assms(1))
  have cnt: "unat (j__udyCountBitsL (?bs ! k)) = length (block_of 64 ps k)" if k: "k < 4" for k
  proof -
    have "set_positions (?bs ! k) = filter (\<lambda>i. 64 * k + i \<in> fst ` set ps) [0..<64]"
      unfolding set_positions_def using bit [OF k] by (intro filter_cong) auto
    moreover have "length (filter (\<lambda>i. 64 * k + i \<in> fst ` set ps) [0..<64]) = card {d \<in> fst ` set ps. d div 64 = k}"
    proof -
      have "length (filter (\<lambda>i. 64 * k + i \<in> fst ` set ps) [0..<64]) = card {i. i < 64 \<and> 64 * k + i \<in> fst ` set ps}"
        by (subst distinct_card [symmetric]) (auto intro!: arg_cong [of _ _ card])
      also have "\<dots> = card ((\<lambda>i. 64 * k + i) ` {i. i < 64 \<and> 64 * k + i \<in> fst ` set ps})"
        by (rule card_image [symmetric]) (simp add: inj_on_def)
      also have "(\<lambda>i. 64 * k + i) ` {i. i < 64 \<and> 64 * k + i \<in> fst ` set ps} = {d \<in> fst ` set ps. d div 64 = k}"
      proof (intro equalityI subsetI)
        fix d assume d: "d \<in> {d \<in> fst ` set ps. d div 64 = k}"
        then have "d = 64 * k + d mod 64" by (metis (lifting) mem_Collect_eq mult_div_mod_eq)
        moreover have "d mod 64 < 64" by simp
        ultimately show "d \<in> (\<lambda>i. 64 * k + i) ` {i. i < 64 \<and> 64 * k + i \<in> fst ` set ps}" using d by auto
      qed auto
      finally show ?thesis .
    qed
    moreover have "card {d \<in> fst ` set ps. d div 64 = k} = length (block_of 64 ps k)"
    proof -
      have "distinct (map fst (block_of 64 ps k))"
        using srt unfolding block_of_def by (metis distinct_map_filter strict_sorted_iff)
      then have "length (block_of 64 ps k) = card (set (map fst (block_of 64 ps k)))" by (metis distinct_card length_map)
      also have "set (map fst (block_of 64 ps k)) = {d \<in> fst ` set ps. d div 64 = k}" by (auto simp: block_of_def)
      finally show ?thesis by simp
    qed
    ultimately show ?thesis unfolding count_bits_L by simp
  qed
  have por: "portions (map (\<lambda>bm. unat (j__udyCountBitsL bm)) ?bs) vals = map (\<lambda>k. map snd (block_of 64 ps k)) [0..<4]"
    unfolding snd [symmetric] by (rule portions_block_of) (use srt less len cnt in auto)
  show ?thesis
    unfolding blocks_built_def n build_leafvs_portions por using len bit by auto
qed

section \<open>Bitmap branches from lists\<close>

definition digit_pairs :: "(uint8 \<times> 'b) list \<Rightarrow> (nat \<times> 'b) list" where
  "digit_pairs = map (\<lambda>x. (unat (fst x), snd x))"

lemma digit_pairs_simps [simp]:
  "digit_pairs [] = []" "digit_pairs (x # xs) = (unat (fst x), snd x) # digit_pairs xs"
  "map snd (digit_pairs xs) = map snd xs" "map fst (digit_pairs xs) = map (unat \<circ> fst) xs"
  "fst ` set (digit_pairs xs) = unat ` fst ` set xs"
  by (auto simp: digit_pairs_def image_image)

lemma digit_pairs_sorted:
  assumes "sorted_wrt (<) (map fst (xs :: (uint8 \<times> 'b) list))"
  shows "sorted_wrt (<) (map fst (digit_pairs xs))" "\<forall>d\<in>fst ` set (digit_pairs xs). d < 32 * 8"
proof -
  show "sorted_wrt (<) (map fst (digit_pairs xs))"
    using assms by (simp add: sorted_wrt_map word_less_nat_alt)
  show "\<forall>d\<in>fst ` set (digit_pairs xs). d < 32 * 8" using unat_byte_less by auto
qed

lemma fold_stage_expanse:
  assumes "length stage = 8"
  shows "length (fold stage_expanse exps stage) = 8"
    and "k < 8 \<Longrightarrow> i < 32 \<Longrightarrow> bit (fst (fold stage_expanse exps stage ! k)) i \<longleftrightarrow>
      bit (fst (stage ! k)) i \<or> 32 * k + i \<in> unat ` set exps"
    and "k < 8 \<Longrightarrow> snd (fold stage_expanse exps stage ! k) = snd (stage ! k) + length (filter (\<lambda>e. unat e div 32 = k) exps)"
  using assms
proof (induction exps arbitrary: stage)
  case (Cons e exps)
  have new: "stage_expanse e stage = stage[unat e div 32 :=
      (fst (stage ! (unat e div 32)) OR push_bit (unat e mod 32) 1, snd (stage ! (unat e div 32)) + 1)]" for stage
    by (simp add: stage_expanse_def cJU_BITSPERSUBEXPB_def JU_BITPOSMASKB_def Let_def case_prod_beta)
  have k: "unat e div 32 < 8" using unat_byte_less [of e] by simp
  {
    case 1
    show ?case using Cons.IH(1) [of "stage_expanse e stage"] 1 by (simp add: new)
  next
    case 2
    have n: "fst (stage_expanse e stage ! k) = (if k = unat e div 32 then fst (stage ! k) OR push_bit (unat e mod 32) 1 else fst (stage ! k))"
      using 2 by (simp add: new)
    have "bit (fst (stage_expanse e stage ! k)) i \<longleftrightarrow> bit (fst (stage ! k)) i \<or> 32 * k + i = unat e"
      unfolding n using 2(2) by (rule digit_bit_B)
    then show ?case using Cons.IH(2) [of "stage_expanse e stage"] 2 by (auto simp: new)
  next
    case 3
    then show ?case using Cons.IH(3) [of "stage_expanse e stage"] k by (auto simp: new)
  }
qed auto

lemma stage_jbb_built:
  assumes "sorted_wrt (<) (map fst (ps :: (uint8 \<times> 'v jp) list))"
  shows "blocks_built (j__udyStageJBBtoJBB (fold stage_expanse (map fst ps) (replicate cJU_NUMSUBEXPB (0, 0))) (map snd ps))
    8 (digit_pairs ps)"
proof -
  let ?st = "fold stage_expanse (map fst ps) (replicate 8 (0, 0))"
  have n: "cJU_NUMSUBEXPB = 8" by (simp add: cJU_NUMSUBEXPB_def)
  have len: "length ?st = 8" by (rule fold_stage_expanse) simp
  have bit: "bit (fst (?st ! k)) i \<longleftrightarrow> 32 * k + i \<in> fst ` set (digit_pairs ps)" if "k < 8" "i < 32" for k i
    using fold_stage_expanse(2) [of "replicate 8 (0, 0)" k i "map fst ps"] that by (simp add: image_image)
  have cnt: "snd (?st ! k) = length (block_of 32 (digit_pairs ps) k)" if "k < 8" for k
    using fold_stage_expanse(3) [of "replicate 8 (0, 0)" k "map fst ps"] that
    by (simp add: block_of_def digit_pairs_def filter_map comp_def)
  have por: "portions (map snd ?st) (map snd ps) = map (\<lambda>k. map snd (block_of 32 (digit_pairs ps) k)) [0..<8]"
    unfolding digit_pairs_simps(3) [symmetric, of ps]
    by (rule portions_block_of [OF digit_pairs_sorted [OF assms]]) (use len cnt in auto)
  show ?thesis
    unfolding blocks_built_def n stage_jbb_portions por using len bit by auto
qed

lemma create_branch_b_built:
  assumes "length jbb = 8" "cur < 8" "sorted_wrt (<) (map fst ps)" "\<forall>e\<in>fst ` set ps. cur \<le> unat e div 32" "k < 8"
  defines "m \<equiv> map snd (filter (\<lambda>x. unat (fst x) div 32 = k) ps)"
  shows "length (create_branch_b jbb cur run ps) = 8"
    and "i < 32 \<Longrightarrow> bit (fst (create_branch_b jbb cur run ps ! k)) i \<longleftrightarrow> bit (fst (jbb ! k)) i \<or> (\<exists>x\<in>set ps. 32 * k + i = unat (fst x))"
    and "snd (create_branch_b jbb cur run ps ! k) = (if k = cur then run @ m else if m \<noteq> [] then m else snd (jbb ! k))"
  using assms(1-4) unfolding m_def
proof (induction ps arbitrary: jbb cur run)
  case (Cons x ps)
  let ?d = "unat (fst x)" and ?jbb = "\<lambda>jbb. set_jbb_bit jbb (unat (fst x) div 32) (unat (fst x))"
  have d: "?d div 32 < 8" using unat_byte_less [of "fst x"] by simp
  have le: "?d div 32 \<le> unat e div 32" if "e \<in> fst ` set ps" "sorted_wrt (<) (map fst (x # ps))" for e
  proof -
    have "fst x < e" using that by auto
    then show ?thesis by (intro div_le_mono) (simp add: word_less_nat_alt)
  qed
  have run: "create_branch_b jbb cur run (x # ps) = (if ?d div 32 \<noteq> cur
      then create_branch_b (set_jbb_pjp (?jbb jbb) cur run) (?d div 32) [snd x] ps
      else create_branch_b (?jbb jbb) cur (run @ [snd x]) ps)" for jbb cur run
    by (cases x) (simp add: Let_def cJU_BITSPERSUBEXPB_def)
  have len: "length (?jbb jbb) = length jbb" "length (set_jbb_pjp jbb cur run) = length jbb" for jbb cur run
    by (simp_all add: set_jbb_bit_def set_jbb_pjp_def)
  have snd: "snd (?jbb jbb ! k) = snd (jbb ! k)" if "length jbb = 8" for jbb
    using that assms(5) by (cases "k = ?d div 32") (simp_all add: set_jbb_bit_def)
  have put: "set_jbb_pjp jbb cur run ! k = (fst (jbb ! k), if k = cur then run else snd (jbb ! k))" if "length jbb = 8" for jbb cur run
    using that assms(5) by (simp add: set_jbb_pjp_def nth_list_update)
  have bit: "bit (fst (?jbb jbb ! k)) i \<longleftrightarrow> bit (fst (jbb ! k)) i \<or> 32 * k + i = ?d" if "length jbb = 8" "i < 32" for jbb i
  proof -
    have n: "fst (?jbb jbb ! k) = (if k = ?d div 32 then fst (jbb ! k) OR push_bit (?d mod 32) 1 else fst (jbb ! k))"
      using that assms(5) by (simp add: set_jbb_bit_def nth_list_update JU_BITPOSMASKB_def cJU_BITSPERSUBEXPB_def)
    show ?thesis unfolding n using that(2) by (rule digit_bit_B)
  qed
  have empty: "filter (\<lambda>y. unat (fst y) div 32 = c) ps = []" if "c < ?d div 32" "sorted_wrt (<) (map fst (x # ps))" for c
    using le that by (intro filter_const_False) fastforce
  {
    case 1
    then show ?case unfolding run using d le by (auto intro!: Cons.IH(1) simp: len)
  next
    case 2
    then show ?case unfolding run using d le by (auto simp: Cons.IH(2) len put bit) force
  next
    case 3
    have IH: "snd (create_branch_b jbb' c run' ps ! k)
        = (if k = c then run' @ map snd (filter (\<lambda>x. unat (fst x) div 32 = k) ps)
           else if map snd (filter (\<lambda>x. unat (fst x) div 32 = k) ps) \<noteq> []
           then map snd (filter (\<lambda>x. unat (fst x) div 32 = k) ps) else snd (jbb' ! k))"
      if "length jbb' = 8" "c < 8" "c \<le> ?d div 32" for jbb' c run'
      using that 3 le by (intro Cons.IH(3)) (auto intro: le_trans)
    show ?case
    proof (cases "?d div 32 = cur")
      case True
      then show ?thesis unfolding run using IH [of "?jbb jbb" cur "run @ [snd x]"] 3 by (auto simp: len snd)
    next
      case False
      then have less: "cur < ?d div 32" using 3 by auto
      show ?thesis unfolding run
        using False less d IH [of "set_jbb_pjp (?jbb jbb) cur run" "?d div 32" "[snd x]"] 3 empty [OF less]
          put [of "?jbb jbb" cur run]
        by (auto simp: len snd)
    qed
  }
qed (use assms(5) in \<open>auto simp: set_jbb_pjp_def nth_list_update\<close>)

lemma create_branch_b_blocks:
  assumes "sorted_wrt (<) (map fst (ps :: (uint8 \<times> 'v jp) list))" "ps \<noteq> []"
  shows "blocks_built (j__udyCreateBranchB (map snd ps) (map fst ps)) 8 (digit_pairs ps)"
proof -
  let ?cur = "unat (hd (map fst ps)) div 32"
  have n: "cJU_NUMSUBEXPB = 8" "cJU_BITSPERSUBEXPB = 32" by (simp_all add: cJU_NUMSUBEXPB_def cJU_BITSPERSUBEXPB_def)
  have cur: "?cur < 8" using unat_byte_less [of "hd (map fst ps)"] by simp
  have le: "\<forall>e\<in>fst ` set ps. ?cur \<le> unat e div 32"
  proof
    fix e assume e: "e \<in> fst ` set ps"
    obtain x xs where ps: "ps = x # xs" using assms(2) by (cases ps) auto
    have "fst x \<le> e" using assms(1) e by (auto simp: ps)
    then show "?cur \<le> unat e div 32" by (simp add: ps div_le_mono word_le_nat_alt)
  qed
  note b = create_branch_b_built [where jbb = "replicate 8 (0, [])" and run = "[]", OF _ cur assms(1) le]
  show ?thesis
    unfolding blocks_built_def j__udyCreateBranchB_def zip_map_fst_snd n
  proof (intro conjI allI impI)
    show "length (create_branch_b (replicate 8 (0, [])) ?cur [] ps) = 8" by (rule b(1) [where k = 0]) simp_all
    fix k :: nat assume k: "k < 8"
    show "snd (create_branch_b (replicate 8 (0, [])) ?cur [] ps ! k) = map snd (block_of LENGTH(32) (digit_pairs ps) k)"
      using b(3) [where k = k] k by (simp add: block_of_def digit_pairs_def filter_map comp_def)
    fix i assume "i < LENGTH(32)"
    then have "bit (fst (create_branch_b (replicate 8 (0, [])) ?cur [] ps ! k)) i \<longleftrightarrow> (\<exists>x\<in>set ps. 32 * k + i = unat (fst x))"
      using b(2) [where k = k] k by simp
    then show "bit (fst (create_branch_b (replicate 8 (0, [])) ?cur [] ps ! k)) i \<longleftrightarrow>
        LENGTH(32) * k + i \<in> fst ` set (digit_pairs ps)" by (auto simp: digit_pairs_def image_iff)
  qed
qed

section \<open>Uncompressed branches from others\<close>

lemma convert_LtoU_nth:
  assumes "distinct (map fst (jbl :: (uint8 \<times> 'v jp) list))"
  shows "length (ConvertBranchLtoU s jbl) = 256"
    and "d < 256 \<Longrightarrow> ConvertBranchLtoU s jbl ! d = (case map_of (digit_pairs jbl) d of Some c \<Rightarrow> c | None \<Rightarrow> JPNULL (s - 1))"
proof -
  have f: "length (fold (\<lambda>(e, jp) jbu. jbu[unat e := jp]) jbl jbu) = length jbu \<and>
      (d < length jbu \<longrightarrow> fold (\<lambda>(e, jp) jbu. jbu[unat e := jp]) jbl jbu ! d
        = (case map_of (digit_pairs jbl) d of Some c \<Rightarrow> c | None \<Rightarrow> jbu ! d))" for jbu :: "'v jp list" and d
    using assms
  proof (induction jbl arbitrary: jbu)
    case (Cons x jbl)
    have n: "map_of (digit_pairs jbl) (unat (fst x)) = None"
      using Cons.prems by (auto simp: map_of_eq_None_iff simp flip: word_unat_eq_iff) (metis fst_conv image_eqI)
    have "fold (\<lambda>(e, jp) jbu. jbu[unat e := jp]) (x # jbl) jbu
        = fold (\<lambda>(e, jp) jbu. jbu[unat e := jp]) jbl (jbu[unat (fst x) := snd x])" by (cases x) simp
    then show ?case using Cons n by (auto split: option.split)
  qed simp
  show "length (ConvertBranchLtoU s jbl) = 256" unfolding ConvertBranchLtoU_def using f by simp
  show "d < 256 \<Longrightarrow> ConvertBranchLtoU s jbl ! d = (case map_of (digit_pairs jbl) d of Some c \<Rightarrow> c | None \<Rightarrow> JPNULL (s - 1))"
    unfolding ConvertBranchLtoU_def using f [of "replicate 256 (JPNULL (s - 1))" d] by (simp split: option.split)
qed

lemma spread_jps_nth:
  fixes bitmap :: uint32
  assumes "length jps = length (filter (bit bitmap) [0..<n])" "n \<le> 32"
  shows "\<exists>xs. spread_jps n bitmap jpnull jps = Some xs \<and> length xs = n \<and>
    (\<forall>i<n. xs ! i = (if bit bitmap i then jps ! length (filter (bit bitmap) [0..<i]) else jpnull))"
  using assms
proof (induction n arbitrary: bitmap jps)
  case (Suc n)
  have b0: "bitmap AND 1 \<noteq> 0 \<longleftrightarrow> bit bitmap 0" using and_exp_eq_0_iff_not_bit [of bitmap 0] by simp
  have sh: "bit (drop_bit 1 bitmap) = bit bitmap \<circ> Suc" "bit (drop_bit (Suc 0) bitmap) = bit bitmap \<circ> Suc"
    by (rule ext, simp only: bit_drop_bit_eq comp_def plus_1_eq_Suc add_Suc add_0)+
  have up: "[0..<Suc m] = 0 # map Suc [0..<m]" for m by (simp add: map_Suc_upt upt_conv_Cons)
  have cnt: "length (filter (bit bitmap) [0..<Suc m]) = of_bool (bit bitmap 0) + length (filter (bit (drop_bit 1 bitmap)) [0..<m])" for m
    unfolding up sh(1) by (simp add: filter_map comp_def)
  show ?case
  proof (cases "bit bitmap 0")
    case True
    then obtain jp rest where jps: "jps = jp # rest" using Suc.prems(1) cnt [of n] by (cases jps) auto
    then have "length rest = length (filter (bit (drop_bit 1 bitmap)) [0..<n])" using Suc.prems(1) cnt [of n] True by simp
    from Suc.IH [OF this] Suc.prems(2) obtain xs where xs: "spread_jps n (drop_bit 1 bitmap) jpnull rest = Some xs" "length xs = n"
      "\<forall>i<n. xs ! i = (if bit (drop_bit 1 bitmap) i then rest ! length (filter (bit (drop_bit 1 bitmap)) [0..<i]) else jpnull)"
      by auto
    have "(jp # xs) ! i = (if bit bitmap i then jps ! length (filter (bit bitmap) [0..<i]) else jpnull)" if "i < Suc n" for i
      using that xs(3) True jps cnt by (cases i) (auto simp: sh(2) simp del: upt_Suc)
    then show ?thesis using xs(1,2) b0 True jps by (intro exI [of _ "jp # xs"]) simp
  next
    case False
    then have "length jps = length (filter (bit (drop_bit 1 bitmap)) [0..<n])" using Suc.prems(1) cnt [of n] by simp
    from Suc.IH [OF this] Suc.prems(2) obtain xs where xs: "spread_jps n (drop_bit 1 bitmap) jpnull jps = Some xs" "length xs = n"
      "\<forall>i<n. xs ! i = (if bit (drop_bit 1 bitmap) i then jps ! length (filter (bit (drop_bit 1 bitmap)) [0..<i]) else jpnull)"
      by auto
    have "(jpnull # xs) ! i = (if bit bitmap i then jps ! length (filter (bit bitmap) [0..<i]) else jpnull)" if "i < Suc n" for i
      using that xs(3) False cnt by (cases i) (auto simp: sh(2) simp del: upt_Suc)
    then show ?thesis using xs(1,2) b0 False by (intro exI [of _ "jpnull # xs"]) simp
  qed
qed simp

lemma spread_subexp_nth:
  assumes "length jps = length (set_positions bitmap)"
  shows "\<exists>xs. spread_subexp jpnull (bitmap, jps) = Some xs \<and> length xs = 32 \<and>
    (\<forall>i<32. xs ! i = (if bit bitmap i then jps ! bits_below bitmap i else jpnull))"
proof -
  have n: "cJU_BITSPERSUBEXPB = 32" by (simp add: cJU_BITSPERSUBEXPB_def)
  consider "bitmap = 0" | "bitmap \<noteq> 0" "bitmap = NOT 0" | "bitmap \<noteq> 0" "bitmap \<noteq> NOT 0" by blast
  then show ?thesis
  proof cases
    case 2
    have "length jps = 32" using assms 2(2) set_positions_all [where 'a = 32] by simp
    moreover have "bits_below bitmap i = i" if "i < 32" for i
      using that 2(2) bits_below_minus_1 [of i, where 'a = 32] by simp
    ultimately show ?thesis using 2(2) n by (auto simp: spread_subexp_def bit_simps)
  next
    case 3
    have "length jps = length (filter (bit bitmap) [0..<32])" using assms by (simp add: set_positions_def)
    from spread_jps_nth [OF this, of jpnull] obtain xs where "spread_jps 32 bitmap jpnull jps = Some xs" "length xs = 32"
      "\<forall>i<32. xs ! i = (if bit bitmap i then jps ! length (filter (bit bitmap) [0..<i]) else jpnull)" by auto
    then show ?thesis using 3 n by (simp add: spread_subexp_def bits_below_def)
  qed (auto simp: spread_subexp_def n)
qed

lemma spread_subexps_nth:
  assumes "\<And>bm xs. (bm, xs) \<in> set subs \<Longrightarrow> length xs = length (set_positions bm)"
  shows "\<exists>xs. spread_subexps jpnull subs = Some xs \<and> length xs = 32 * length subs \<and>
    (\<forall>d<32 * length subs. xs ! d = (case subs ! (d div 32) of (bm, jps) \<Rightarrow>
       if bit bm (d mod 32) then jps ! bits_below bm (d mod 32) else jpnull))"
  using assms
proof (induction subs)
  case (Cons sub subs)
  obtain bm jps where sub: "sub = (bm, jps)" by (cases sub)
  from spread_subexp_nth [of jps bm jpnull] Cons.prems obtain ys where ys: "spread_subexp jpnull (bm, jps) = Some ys" "length ys = 32"
    "\<forall>i<32. ys ! i = (if bit bm i then jps ! bits_below bm i else jpnull)" by (auto simp: sub)
  from Cons obtain xs where xs: "spread_subexps jpnull subs = Some xs" "length xs = 32 * length subs"
    "\<forall>d<32 * length subs. xs ! d = (case subs ! (d div 32) of (bm, jps) \<Rightarrow>
       if bit bm (d mod 32) then jps ! bits_below bm (d mod 32) else jpnull)" by auto
  have "(ys @ xs) ! d = (case (sub # subs) ! (d div 32) of (bm, jps) \<Rightarrow>
       if bit bm (d mod 32) then jps ! bits_below bm (d mod 32) else jpnull)" if d: "d < 32 * length (sub # subs)" for d
  proof (cases "d < 32")
    case False
    then have e: "d div 32 = Suc ((d - 32) div 32)" "d mod 32 = (d - 32) mod 32" by (simp_all add: le_div_geq le_mod_geq)
    have "d - 32 < 32 * length subs" using d False by simp
    then show ?thesis using False ys(2) xs(3) unfolding e by (simp add: nth_append)
  qed (use ys sub in \<open>simp add: nth_append\<close>)
  then show ?case using ys(1,2) xs(1,2) by (intro exI [of _ "ys @ xs"]) (simp add: sub)
qed simp

lemma create_branch_u_nth:
  assumes "bm_shape 8 jbb"
  shows "\<exists>jbu. j__udyCreateBranchU s jbb = Some jbu \<and> length jbu = 256 \<and>
    (\<forall>d<256. jbu ! d = (case map_of (bm_list jbb) d of Some c \<Rightarrow> c | None \<Rightarrow> JPNULL (s - 1)))"
proof -
  have len: "length jbb = 8" and pos: "\<And>bm xs. (bm, xs) \<in> set jbb \<Longrightarrow> length xs = length (set_positions bm)"
    using assms by (auto simp: bm_shape_def)
  obtain jbu where jbu: "spread_subexps (JPNULL (s - 1)) jbb = Some jbu" "length jbu = 256"
    "\<forall>d<256. jbu ! d = (case jbb ! (d div 32) of (bm, jps) \<Rightarrow>
       if bit bm (d mod 32) then jps ! bits_below bm (d mod 32) else JPNULL (s - 1))"
    using spread_subexps_nth [of jbb "JPNULL (s - 1)"] pos len by auto
  have "jbu ! d = (case map_of (bm_list jbb) d of Some c \<Rightarrow> c | None \<Rightarrow> JPNULL (s - 1))" if d: "d < 256" for d
  proof -
    have "map_of (bm_list jbb) d = (case jbb ! (d div 32) of (bm, xs) \<Rightarrow>
        if bit bm (d mod 32) then Some (xs ! bits_below bm (d mod 32)) else None)"
      unfolding bm_list_def using map_of_position_blocks [of jbb d, OF pos] d len by (simp cong: if_cong)
    then show ?thesis using jbu(3) d by (auto split: prod.split)
  qed
  then show ?thesis using jbu len by (simp add: j__udyCreateBranchU_def cJU_NUMSUBEXPB_def)
qed

end
