(* ===== verification/JudyGrow.thy ===== *)
theory JudyGrow
  imports JudyBlocks
begin

text \<open>
  What the changes of form do to the pairs: the conversions of branches and the cascades leave them as they
  are, the branch put above a narrow pointer adds one.
\<close>

section \<open>Storing at an index\<close>

text \<open>The pairs after storing through the slot of an index, a new slot being \<open>zero\<close> before.\<close>

definition stored_value :: "'v \<Rightarrow> ('v \<Rightarrow> 'v) \<Rightarrow> 'v option \<Rightarrow> 'v" where
  "stored_value zero store r = store (case r of None \<Rightarrow> zero | Some v \<Rightarrow> v)"

definition stored :: "'v \<Rightarrow> ('v \<Rightarrow> 'v) \<Rightarrow> nat \<Rightarrow> (nat \<times> 'v) list \<Rightarrow> (nat \<times> 'v) set" where
  "stored zero store i es = {x \<in> set es. fst x \<noteq> i} \<union> {(i, stored_value zero store (map_of es i))}"

lemma stored_new:
  assumes "map_of es i = None"
  shows "stored zero store i es = insert (i, store zero) (set es)"
proof -
  have "fst x \<noteq> i" if "x \<in> set es" for x using that assms by (auto simp: map_of_eq_None_iff)
  then show ?thesis by (auto simp: stored_def stored_value_def assms)
qed

lemma stored_old:
  "map_of es i = Some v \<Longrightarrow> stored zero store i es = {x \<in> set es. fst x \<noteq> i} \<union> {(i, store v)}"
  by (simp add: stored_def stored_value_def)

lemma stored_keys: "fst ` stored zero store i es = insert i (fst ` set es)"
  by (force simp: stored_def)

lemma in_expanse_distinct: "in_expanse P l es \<Longrightarrow> distinct (map fst es)"
  by (simp add: in_expanse_def strict_sorted_iff)

lemma length_keys: "distinct (map fst es) \<Longrightarrow> length es = card (fst ` set es)"
  by (metis distinct_card length_map list.set_map)

lemma stored_length:
  assumes "distinct (map fst es)" "distinct (map fst es')" "set es' = stored zero store i es"
  shows "length es' = length es + (if map_of es i = None then 1 else 0)"
proof -
  have "length es' = card (insert i (fst ` set es))" using length_keys [OF assms(2)] assms(3) stored_keys by metis
  then show ?thesis using length_keys [OF assms(1)] by (simp add: map_of_eq_None_iff card_insert_if)
qed

lemma stored_map_of:
  assumes "distinct (map fst es)" "distinct (map fst es')" "set es' = stored zero store i es"
  shows "map_of es' = (map_of es)(i \<mapsto> stored_value zero store (map_of es i))"
proof
  fix j
  show "map_of es' j = ((map_of es)(i \<mapsto> stored_value zero store (map_of es i))) j"
  proof (cases "j = i")
    case True
    then show ?thesis using assms(2,3) by (simp add: stored_def)
  next
    case False
    then have "(j, v) \<in> set es' \<longleftrightarrow> (j, v) \<in> set es" for v using assms(3) by (auto simp: stored_def)
    then have "map_of es' j = Some v \<longleftrightarrow> map_of es j = Some v" for v using assms(1,2) by simp
    then have "map_of es' j = map_of es j" by (metis option.exhaust)
    then show ?thesis using False by simp
  qed
qed

lemma sorted_pairs_unique:
  "sorted_wrt (<) (map fst (xs :: (nat \<times> 'v) list)) \<Longrightarrow> sorted_wrt (<) (map fst ys) \<Longrightarrow> set xs = set ys \<Longrightarrow> xs = ys"
proof (induction xs arbitrary: ys)
  case (Cons x xs)
  then obtain y ys' where ys: "ys = y # ys'" by (cases ys) auto
  have lt: "\<And>z. z \<in> set xs \<Longrightarrow> fst x < fst z" "\<And>z. z \<in> set ys' \<Longrightarrow> fst y < fst z"
    using Cons.prems(1,2) by (auto simp: ys)
  have "x \<in> set ys" "y \<in> set (x # xs)" using Cons.prems(3) by (auto simp: ys)
  then have "x = y" using lt by (fastforce simp: ys)
  moreover have "x \<notin> set xs" "y \<notin> set ys'" using lt(1) [of x] lt(2) [of y] by auto
  then have "set xs = set ys'" using Cons.prems(3) \<open>x = y\<close> by (auto simp: ys)
  ultimately show ?case using Cons.IH [of ys'] Cons.prems(1,2) by (simp add: ys)
qed simp

section \<open>Branches by their pointers\<close>

text \<open>Null pointers stand in an uncompressed branch only, with the type of its state.\<close>

definition nulls_ok :: "nat \<Rightarrow> 'v jp \<Rightarrow> bool" where
  "nulls_ok s jp \<longleftrightarrow> (\<forall>x\<in>set (jp_children jp). jp_is_null (snd x) \<longrightarrow> jp_is_u jp \<and> snd x = JPNULL (s - 1))"

lemma jp_wf_live:
  assumes "jp_branch jp = Some (s, dcd)"
  shows "jp_wf l P jp \<longleftrightarrow> 2 \<le> s \<and> s \<le> l \<and> l \<le> 8 \<and> (l = 8 \<longrightarrow> s = 8) \<and> dcd_ok l P dcd \<and> jp_shape jp
    \<and> (s \<le> 7 \<longrightarrow> length (jp_entries P jp) = unat (JU_JPBRANCH_POP0 dcd s) + 1)
    \<and> live jp \<noteq> [] \<and> nulls_ok s jp
    \<and> (\<forall>x\<in>set (live jp). jp_wf (s - 1) (jp_base P s dcd + fst x * 256 ^ (s - 1)) (snd x))"
    (is "_ = ?r")
proof
  assume wf: "jp_wf l P jp"
  note w = wf [unfolded jp_wf_branch [OF assms]]
  have kid: "jp_is_u jp \<or> \<not> jp_is_null (snd x)" "jp_wf (s - 1) (jp_base P s dcd + fst x * 256 ^ (s - 1)) (snd x)"
    if "x \<in> set (jp_children jp)" for x using w that by auto
  have "nulls_ok s jp"
    unfolding nulls_ok_def
  proof (intro ballI impI)
    fix x assume x: "x \<in> set (jp_children jp)" "jp_is_null (snd x)"
    then obtain n where n: "snd x = JPNULL n" by (cases "snd x") auto
    then show "jp_is_u jp \<and> snd x = JPNULL (s - 1)" using kid [OF x(1)] x(2) by simp
  qed
  moreover have "live jp \<noteq> []"
  proof
    assume "live jp = []"
    then have "jp_entries P jp = []" unfolding live_entries [OF assms] by simp
    then show False using w by simp
  qed
  ultimately show ?r using w kid by (auto simp: live_def)
next
  assume r: ?r
  have kid: "(jp_is_u jp \<or> \<not> jp_is_null (snd x)) \<and> jp_wf (s - 1) (jp_base P s dcd + fst x * 256 ^ (s - 1)) (snd x)"
    if x: "x \<in> set (jp_children jp)" for x
  proof (cases "jp_is_null (snd x)")
    case True
    then have "jp_is_u jp \<and> snd x = JPNULL (s - 1)" using r x by (auto simp: nulls_ok_def)
    then show ?thesis using r by auto
  next
    case False
    then show ?thesis using r x by (auto simp: live_def)
  qed
  obtain x where x: "x \<in> set (live jp)" using r by (cases "live jp") auto
  then have "jp_wf (s - 1) (jp_base P s dcd + fst x * 256 ^ (s - 1)) (snd x)" "\<not> jp_is_null (snd x)"
    using r by (auto simp: live_def)
  from entries_nonempty [OF this] have "jp_entries P jp \<noteq> []"
    unfolding live_entries [OF assms] using x by (auto simp: child_entries_def)
  then show "jp_wf l P jp" unfolding jp_wf_branch [OF assms] using r kid by (auto simp: case_prod_beta)
qed

text \<open>A branch of another form with the same pointers.\<close>

lemma same_live:
  assumes "jp_wf l P jp" "jp_branch jp = Some (s, dcd)" "jp_branch jp' = Some (s, dcd)" "jp_shape jp'" "nulls_ok s jp'"
    and "set (live jp') = set (live jp)"
  shows "jp_wf l P jp'" "jp_entries P jp' = jp_entries P jp"
proof -
  note w = assms(1) [unfolded jp_wf_live [OF assms(2)]]
  have srt: "sorted_wrt (<) (map fst (live jp))" if "jp_shape jp" for jp :: "'a jp"
    using jp_children_sorted [OF that] unfolding live_def sorted_wrt_map by (intro sorted_wrt_filter) simp
  have live: "live jp' = live jp"
    using srt [OF assms(4)] srt assms(6) w by (intro sorted_pairs_unique) auto
  then show e: "jp_entries P jp' = jp_entries P jp"
    unfolding live_entries [OF assms(2)] live_entries [OF assms(3)] by simp
  show "jp_wf l P jp'"
    unfolding jp_wf_live [OF assms(3)] e live using w assms(4,5) by blast
qed

section \<open>The conversions\<close>

lemma jbl_pairs_digits: "jbl_pairs jbl = digit_pairs jbl"
  by (simp add: jbl_pairs_def digit_pairs_def case_prod_beta)

lemma jp_children_lists:
  "jp_children (JPBRANCH_L s dcd jbl) = digit_pairs jbl"
  "jp_children (JPBRANCH_B s dcd jbb) = bm_list jbb"
  using jbl_pairs_digits [of jbl] by (simp_all add: jbl_pairs_def bm_list_def)

lemma live_all:
  assumes "\<forall>x\<in>set (jp_children jp). \<not> jp_is_null (snd x)"
  shows "live jp = jp_children jp" "nulls_ok s jp"
  using assms by (auto simp: live_def nulls_ok_def filter_const_True)

lemma wf_no_nulls:
  assumes "jp_wf l P jp" "jp_branch jp = Some (s, dcd)" "\<not> jp_is_u jp"
  shows "live jp = jp_children jp" "\<forall>x\<in>set (jp_children jp). \<not> jp_is_null (snd x)"
proof -
  show no: "\<forall>x\<in>set (jp_children jp). \<not> jp_is_null (snd x)"
    using jp_wf_live [OF assms(2), of l P] assms(1,3) by (auto simp: nulls_ok_def)
  show "live jp = jp_children jp" by (rule live_all(1) [OF no])
qed

lemma jbu_live:
  assumes "length jbu = 256" "\<forall>d<256. jbu ! d = (case map_of ps d of Some c \<Rightarrow> c | None \<Rightarrow> JPNULL (s - 1))"
    and "distinct (map fst ps)" "\<forall>x\<in>set ps. fst x < 256 \<and> \<not> jp_is_null (snd x)"
  shows "set (live (JPBRANCH_U s dcd jbu)) = set ps" "nulls_ok s (JPBRANCH_U s dcd jbu)"
proof -
  have kids: "(d, c) \<in> set (jp_children (JPBRANCH_U s dcd jbu)) \<longleftrightarrow> d < 256 \<and> c = jbu ! d" for d c
    using assms(1) by (auto simp: in_set_enumerate_eq)
  have some: "map_of ps d = Some c \<longleftrightarrow> (d, c) \<in> set ps" for d c using assms(3) by simp
  have nth: "(d, c) \<in> set ps \<or> c = JPNULL (s - 1)" if "d < 256" "c = jbu ! d" for d c
    using that assms(2) some by (cases "map_of ps d") auto
  have mem: "d < 256 \<and> jbu ! d = c" if "(d, c) \<in> set ps" for d c
    using that assms(2,4) some [of d c] by fastforce
  show "nulls_ok s (JPBRANCH_U s dcd jbu)"
    unfolding nulls_ok_def using kids nth assms(4) by fastforce
  show "set (live (JPBRANCH_U s dcd jbu)) = set ps"
  proof (rule set_eqI)
    fix x :: "nat \<times> 'a jp"
    obtain d c where x: "x = (d, c)" by (cases x)
    show "x \<in> set (live (JPBRANCH_U s dcd jbu)) \<longleftrightarrow> x \<in> set ps"
      unfolding live_def x using kids [of d c] nth [of d c] mem [of d c] assms(4) by auto
  qed
qed

lemma convert_LtoU:
  assumes "jp_wf l P (JPBRANCH_L s dcd jbl)"
  shows "jp_wf l P (JPBRANCH_U s dcd (ConvertBranchLtoU s jbl))"
    and "jp_entries P (JPBRANCH_U s dcd (ConvertBranchLtoU s jbl)) = jp_entries P (JPBRANCH_L s dcd jbl)"
proof -
  have b: "jp_branch (JPBRANCH_L s dcd jbl) = Some (s, dcd)" by simp
  note w = assms [unfolded jp_wf_live [OF b]] and no = wf_no_nulls [OF assms b, unfolded jp_children_lists]
  have srt: "sorted_wrt (<) (map fst jbl)" using w by simp
  then have d: "distinct (map fst jbl)" by (simp add: strict_sorted_iff)
  have ps: "distinct (map fst (digit_pairs jbl))" using digit_pairs_sorted [OF srt] by (simp add: strict_sorted_iff)
  have lt: "\<forall>x\<in>set (digit_pairs jbl). fst x < 256 \<and> \<not> jp_is_null (snd x)"
    using no(2) by (auto simp: digit_pairs_def unat_byte_less)
  note c = convert_LtoU_nth [OF d, where s = s]
  have n: "\<forall>d<256. ConvertBranchLtoU s jbl ! d = (case map_of (digit_pairs jbl) d of Some c \<Rightarrow> c | None \<Rightarrow> JPNULL (s - 1))"
    using c(2) by blast
  note u = jbu_live [OF c(1) n ps lt, of dcd]
  note r = same_live [OF assms b, of "JPBRANCH_U s dcd (ConvertBranchLtoU s jbl)"]
  show "jp_wf l P (JPBRANCH_U s dcd (ConvertBranchLtoU s jbl))"
    "jp_entries P (JPBRANCH_U s dcd (ConvertBranchLtoU s jbl)) = jp_entries P (JPBRANCH_L s dcd jbl)"
    by (rule r; use u c(1) no in simp)+
qed

lemma convert_LtoB:
  assumes "jp_wf l P (JPBRANCH_L s dcd jbl)"
  defines "jbb \<equiv> j__udyCreateBranchB (map snd jbl) (map fst jbl)"
  shows "jp_wf l P (JPBRANCH_B s dcd jbb)"
    and "jp_entries P (JPBRANCH_B s dcd jbb) = jp_entries P (JPBRANCH_L s dcd jbl)"
proof -
  have b: "jp_branch (JPBRANCH_L s dcd jbl) = Some (s, dcd)" by simp
  note w = assms(1) [unfolded jp_wf_live [OF b]] and no = wf_no_nulls [OF assms(1) b, unfolded jp_children_lists]
  have srt: "sorted_wrt (<) (map fst jbl)" and ne: "jbl \<noteq> []" using w by auto
  have "blocks_built jbb 8 (digit_pairs jbl)" unfolding jbb_def by (rule create_branch_b_blocks [OF srt ne])
  then have bb: "bm_shape 8 jbb" "bm_list jbb = digit_pairs jbl"
    using blocks_built [of jbb 8 "digit_pairs jbl"] digit_pairs_sorted [OF srt] by simp_all
  then have sh: "jp_shape (JPBRANCH_B s dcd jbb)" by (simp add: bm_shape_def cJU_NUMSUBEXPB_def)
  have "\<forall>x\<in>set (jp_children (JPBRANCH_B s dcd jbb)). \<not> jp_is_null (snd x)"
    using no unfolding jp_children_lists bb(2) by simp
  note live = live_all [OF this, unfolded jp_children_lists bb(2)]
  have e: "set (live (JPBRANCH_B s dcd jbb)) = set (live (JPBRANCH_L s dcd jbl))" by (simp add: live(1) no(1))
  show "jp_wf l P (JPBRANCH_B s dcd jbb)"
    "jp_entries P (JPBRANCH_B s dcd jbb) = jp_entries P (JPBRANCH_L s dcd jbl)"
    by (rule same_live [OF assms(1) b _ sh live(2) e]; simp)+
qed

lemma convert_BtoU:
  assumes "jp_wf l P (JPBRANCH_B s dcd jbb)"
  shows "\<exists>jbu. j__udyCreateBranchU s jbb = Some jbu \<and> jp_wf l P (JPBRANCH_U s dcd jbu)
    \<and> jp_entries P (JPBRANCH_U s dcd jbu) = jp_entries P (JPBRANCH_B s dcd jbb)"
proof -
  have b: "jp_branch (JPBRANCH_B s dcd jbb) = Some (s, dcd)" by simp
  note w = assms [unfolded jp_wf_live [OF b]] and no = wf_no_nulls [OF assms b, unfolded jp_children_lists]
  have sh: "jp_shape (JPBRANCH_B s dcd jbb)" using w by blast
  then have "bm_shape 8 jbb" by (auto simp: bm_shape_def cJU_NUMSUBEXPB_def)
  from create_branch_u_nth [OF this, of s] obtain jbu where jbu: "j__udyCreateBranchU s jbb = Some jbu" "length jbu = 256"
    "\<forall>d<256. jbu ! d = (case map_of (bm_list jbb) d of Some c \<Rightarrow> c | None \<Rightarrow> JPNULL (s - 1))" by auto
  have srt: "sorted_wrt (<) (map fst (bm_list jbb))" "\<forall>d\<in>fst ` set (bm_list jbb). d < 256"
    using jp_children_sorted [OF sh] unfolding jp_children_lists by auto
  have ps: "distinct (map fst (bm_list jbb))" using srt(1) by (simp add: strict_sorted_iff)
  have lt: "\<forall>x\<in>set (bm_list jbb). fst x < 256 \<and> \<not> jp_is_null (snd x)" using no srt(2) by auto
  note u = jbu_live [OF jbu(2,3) ps lt, of dcd]
  note r = same_live [OF assms b, of "JPBRANCH_U s dcd jbu"]
  have "jp_wf l P (JPBRANCH_U s dcd jbu)" "jp_entries P (JPBRANCH_U s dcd jbu) = jp_entries P (JPBRANCH_B s dcd jbb)"
    by (rule r; use u jbu(2) no in simp)+
  then show ?thesis using jbu(1) by blast
qed

section \<open>Properties\<close>

text \<open>The conversions of a branch to the next form, linear to uncompressed, linear to bitmap and bitmap to
  uncompressed, leave a well-formed branch with the same pairs in the same order; the last one reads no
  pointer that is not there.\<close>

theorem branch_conversions_correct:
  shows "jp_wf l P (JPBRANCH_L s dcd jbl) \<Longrightarrow>
      (jp_wf l P (JPBRANCH_U s dcd (ConvertBranchLtoU s jbl))
        \<and> jp_entries P (JPBRANCH_U s dcd (ConvertBranchLtoU s jbl)) = jp_entries P (JPBRANCH_L s dcd jbl)) \<and>
      (\<exists>jbb jbu. jbb = j__udyCreateBranchB (map snd jbl) (map fst jbl) \<and> j__udyCreateBranchU s jbb = Some jbu
        \<and> jp_wf l P (JPBRANCH_B s dcd jbb) \<and> jp_entries P (JPBRANCH_B s dcd jbb) = jp_entries P (JPBRANCH_L s dcd jbl)
        \<and> jp_wf l P (JPBRANCH_U s dcd jbu) \<and> jp_entries P (JPBRANCH_U s dcd jbu) = jp_entries P (JPBRANCH_L s dcd jbl))"
  using convert_LtoU [of l P s dcd jbl] convert_LtoB [of l P s dcd jbl]
    convert_BtoU [of l P s dcd "j__udyCreateBranchB (map snd jbl) (map fst jbl)"] by fastforce

theorem branch_conversions_correct_witness:
  "\<exists>jbu. j__udyCreateBranchU 8 (j__udyCreateBranchB [sample_jp0, sample_jp1, sample_jp2] [0, 1, 2]) = Some jbu
     \<and> jp_wf 8 0 (JPBRANCH_U 8 0 jbu) \<and> jp_entries 0 (JPBRANCH_U 8 0 jbu) = jp_entries 0 sample_jp"
  using branch_conversions_correct [OF sample_wf [unfolded sample_jp_def]] unfolding sample_jp_def by auto

end
