(* ===== verification/JudySplay.thy ===== *)
theory JudySplay
  imports JudyGrow
begin

text \<open>
  The cascades of \<open>JudyCascade.c\<close>: a full leaf becomes a leaf of a smaller state or a branch over the runs of
  its indexes with equal digits, with the same pairs.
\<close>

section \<open>The Dcd words of the new pointers\<close>

lemma unat_setdcd0: "unat (JU_JPSETDCD w) = unat w mod 256 ^ 7"
  by (simp add: JU_JPSETDCD_def unsigned_ucast_eq take_bit_eq_mod)

lemma or_bytes: "b < 256 ^ s \<Longrightarrow> (a * 256 ^ s OR b :: nat) = a * 256 ^ s + b"
  using or_shift [of b "8 * s" a] by (simp add: power_256)

lemma unat_or: "unat (a OR b :: 'a::len word) = (unat a OR unat b)"
  by (rule unsigned_or_eq)

text \<open>The Pop0 bytes of a full leaf hold its population less one.\<close>

lemma dcd_split:
  assumes "unat dcd mod 256 ^ s < 256" "1 \<le> s"
  shows "unat dcd = unat dcd div 256 ^ s * 256 ^ s + unat (JU_JPLEAF_POP0 dcd)"
proof -
  have "(256::nat) dvd 256 ^ s" using assms(2) by (simp add: dvd_power)
  then have "unat dcd mod 256 = unat dcd mod 256 ^ s mod 256" by (simp add: mod_mod_cancel)
  also have "\<dots> = unat dcd mod 256 ^ s" using assms(1) by simp
  finally show ?thesis using div_mult_mod_eq [of "unat dcd" "256 ^ s"] by (simp add: unat_leaf_pop0)
qed

lemma dcd_div_lower:
  assumes "unat dcd mod 256 ^ s < 256" "2 \<le> s"
  shows "unat dcd div 256 ^ (s - 1) * 256 ^ (s - 1) = unat dcd div 256 ^ s * 256 ^ s"
proof -
  let ?W = "256 ^ (s - 1) :: nat"
  have s: "(256::nat) ^ s = 256 * ?W" using assms(2) by (simp add: power_eq_if)
  have "256 ^ 1 \<le> ?W" using assms(2) by (intro power_increasing) auto
  then have l: "unat dcd mod 256 ^ s < ?W" using assms(1) by simp
  have "unat dcd mod ?W = unat dcd mod 256 ^ s mod ?W" by (simp add: s mod_mod_cancel)
  also have "\<dots> = unat dcd mod 256 ^ s" using l by simp
  finally have "unat dcd mod ?W = unat dcd mod 256 ^ s" .
  then show ?thesis by (metis minus_mod_eq_div_mult)
qed

lemma unat_dcd_key:
  assumes "1 \<le> s" "s \<le> 7" "unat (k :: word_t) < 256 ^ 7"
  shows "unat (k AND cJU_DCDMASK s) = unat k div 256 ^ s * 256 ^ s"
  using unat_and_dcdmask [OF assms(1,2), of k] assms(3) by simp

lemma pow7: "s \<le> 7 \<Longrightarrow> (256::nat) ^ s \<le> 256 ^ 7"
  by (rule power_increasing) auto

lemma digit_fits: "x < 256 \<Longrightarrow> l < W \<Longrightarrow> x * W + l < 256 * (W :: nat)"
proof -
  assume "x < 256" "l < W"
  then have "(x + 1) * W \<le> 256 * W" by (intro mult_le_mono1) simp
  then show ?thesis using \<open>l < W\<close> by (simp only: add_mult_distrib mult_1)
qed

lemma dcd_bound:
  assumes "unat (dcd :: dcdpop0) = H * 256 ^ s + L" "s \<le> 7" "R < 256 ^ s"
  shows "H * 256 ^ s + R < 256 ^ 7"
proof -
  have "H * 256 ^ s < 256 ^ (7 - s) * 256 ^ s"
  proof -
    have "H * 256 ^ s \<le> unat dcd" using assms(1) by simp
    also have "\<dots> < 256 ^ (7 - s) * 256 ^ s" using unat_dcd_less [of dcd] assms(2) by (simp flip: power_add)
    finally show ?thesis .
  qed
  then have "H + 1 \<le> 256 ^ (7 - s)" by simp
  then have "(H + 1) * 256 ^ s \<le> 256 ^ (7 - s) * 256 ^ s" by (rule mult_le_mono1)
  also have "\<dots> = (256::nat) ^ 7" using assms(2) by (simp flip: power_add)
  finally show ?thesis using assms(3) by simp
qed

lemma unat_compressed:
  assumes "2 \<le> s" "s \<le> 7" "unat dcd mod 256 ^ s < 256" "unat (k :: word_t) < 256 ^ s"
  shows "unat (JU_JPSETDCD ((k AND cJU_DCDMASK (s - 1)) OR JU_JPDCDPOP0 dcd))
    = unat dcd div 256 ^ s * 256 ^ s + unat k div 256 ^ (s - 1) * 256 ^ (s - 1) + unat (JU_JPLEAF_POP0 dcd)"
proof -
  let ?H = "unat dcd div 256 ^ s" and ?x = "unat k div 256 ^ (s - 1)" and ?W = "256 ^ (s - 1) :: nat"
    and ?L = "unat (JU_JPLEAF_POP0 dcd)"
  have s: "(256::nat) ^ s = 256 * ?W" using assms(1) by (simp add: power_eq_if)
  have W: "256 ^ 1 \<le> ?W" using assms(1) by (intro power_increasing) auto
  have L: "?L < ?W" using W unat_byte_less [of "JU_JPLEAF_POP0 dcd"] by simp
  have x: "?x * ?W + ?L < 256 ^ s"
  proof -
    have "?x < 256" using assms(4) unfolding s by (rule less_mult_imp_div_less)
    then show ?thesis using L unfolding s by (rule digit_fits)
  qed
  have dcd: "unat dcd = ?H * 256 ^ s + ?L" using dcd_split [OF assms(3)] assms(1) by simp
  have kx: "unat (k AND cJU_DCDMASK (s - 1)) = ?x * ?W"
    using assms pow7 [of s] by (intro unat_dcd_key) auto
  have "unat ((k AND cJU_DCDMASK (s - 1)) OR JU_JPDCDPOP0 dcd) = (?x * ?W OR (?H * 256 ^ s + ?L))"
    unfolding unat_or kx unat_dcdpop0 using dcd by simp
  also have "\<dots> = (?x * ?W OR (?H * 256 ^ s OR ?L))" using or_bytes [of ?L s ?H] x by simp
  also have "\<dots> = (?H * 256 ^ s OR (?x * ?W OR ?L))" by (simp only: or.left_commute)
  also have "\<dots> = ?H * 256 ^ s + (?x * ?W + ?L)" using or_bytes [OF L, of ?x] or_bytes [OF x, of ?H] by simp
  finally have e: "unat ((k AND cJU_DCDMASK (s - 1)) OR JU_JPDCDPOP0 dcd) = ?H * 256 ^ s + (?x * ?W + ?L)" .
  show ?thesis
    unfolding unat_setdcd0 e using dcd_bound [OF dcd assms(2) x] by simp
qed

lemma unat_splay_01:
  assumes "2 \<le> s" "s \<le> 7" "unat dcd mod 256 ^ s < 256" "unat (k :: word_t) < 256 ^ s"
  shows "unat (JU_JPSETDCD ((JU_JPDCDPOP0 dcd AND cJU_DCDMASK (s - 1)) OR k)) = unat dcd div 256 ^ s * 256 ^ s + unat k"
proof -
  have dcd: "unat dcd = unat dcd div 256 ^ s * 256 ^ s + unat (JU_JPLEAF_POP0 dcd)" using dcd_split [OF assms(3)] assms(1) by simp
  have "unat (JU_JPDCDPOP0 dcd AND cJU_DCDMASK (s - 1)) = unat dcd div 256 ^ s * 256 ^ s"
    using unat_dcd_and_dcdmask [of "s - 1" dcd] dcd_div_lower [OF assms(3,1)] assms(1,2) by simp
  then have "unat ((JU_JPDCDPOP0 dcd AND cJU_DCDMASK (s - 1)) OR k) = unat dcd div 256 ^ s * 256 ^ s + unat k"
    unfolding unat_or using or_bytes [OF assms(4)] by simp
  then show ?thesis unfolding unat_setdcd0 using dcd_bound [OF dcd assms(2,4)] by simp
qed

lemma unat_splay_dcd:
  assumes "2 \<le> s" "s \<le> 7" "unat dcd mod 256 ^ s < 256" "unat (k :: word_t) < 256 ^ s" "n - 1 < 256"
  shows "unat (splay_dcd s dcd k n) = unat dcd div 256 ^ s * 256 ^ s + unat k div 256 ^ (s - 1) * 256 ^ (s - 1) + (n - 1)"
proof -
  let ?H = "unat dcd div 256 ^ s" and ?x = "unat k div 256 ^ (s - 1)" and ?W = "256 ^ (s - 1) :: nat"
  have s: "(256::nat) ^ s = 256 * ?W" using assms(1) by (simp add: power_eq_if)
  have W: "256 ^ 1 \<le> ?W" using assms(1) by (intro power_increasing) auto
  then have n: "n - 1 < ?W" using assms(5) by simp
  have un: "unat (word_of_nat (n - 1) :: word_t) = n - 1" using assms(5) by (simp add: unat_of_nat take_bit_nat_eq_self)
  have x: "?x * ?W + (n - 1) < 256 ^ s"
  proof -
    have "?x < 256" using assms(4) unfolding s by (rule less_mult_imp_div_less)
    then show ?thesis using n unfolding s by (rule digit_fits)
  qed
  have dcd: "unat dcd = ?H * 256 ^ s + unat (JU_JPLEAF_POP0 dcd)" using dcd_split [OF assms(3)] assms(1) by simp
  have kx: "unat (k AND cJU_DCDMASK (s - 1)) = ?x * ?W"
    using assms pow7 [of s] by (intro unat_dcd_key) auto
  have "unat (JU_JPDCDPOP0 dcd AND cJU_DCDMASK s) = ?H * 256 ^ s" using unat_dcd_and_dcdmask [of s dcd] assms(1,2) by simp
  then have "unat ((JU_JPDCDPOP0 dcd AND cJU_DCDMASK s) OR (k AND cJU_DCDMASK (s - 1)) OR word_of_nat (n - 1))
      = (?H * 256 ^ s OR (?x * ?W OR (n - 1)))"
    unfolding unat_or kx un by (simp only: or.assoc)
  also have "\<dots> = ?H * 256 ^ s + (?x * ?W + (n - 1))" using or_bytes [OF n, of ?x] or_bytes [OF x, of ?H] by simp
  finally show ?thesis
    unfolding splay_dcd_def unat_setdcd0 using dcd_bound [OF dcd assms(2) x] by simp
qed

section \<open>The pointer of one run\<close>

definition run_pairs :: "nat \<Rightarrow> (word_t \<times> 'v) list \<Rightarrow> (nat \<times> 'v) list" where
  "run_pairs B run = map (\<lambda>x. (B + unat (fst x), snd x)) run"

lemma run_pairs_zip: "length vals = length keys \<Longrightarrow> zip (map (\<lambda>k. B + unat k) keys) vals = run_pairs B (zip keys vals)"
  by (simp add: run_pairs_def zip_map1 case_prod_beta)

lemma run_pairs_concat: "run_pairs B (concat rs) = concat (map (run_pairs B) rs)"
  by (simp add: run_pairs_def [abs_def] map_concat comp_def)

lemma base_of:
  assumes "unat D = Q mod 256 ^ 7 + r" "r < 256 ^ t" "256 ^ t dvd Q" "t \<le> 7"
  shows "jp_base Q t D = Q" "dcd_ok t Q D" "unat D mod 256 ^ t = r"
proof -
  have "(256::nat) ^ t dvd 256 ^ 7" using assms(4) by (rule le_imp_power_dvd)
  then have "256 ^ t dvd Q mod 256 ^ 7" using assms(3) by (simp add: dvd_mod)
  then obtain q where q: "Q mod 256 ^ 7 = 256 ^ t * q" by (rule dvdE)
  have d: "unat D div 256 ^ t = q" "unat D mod 256 ^ t = r" using assms(1,2) unfolding q by simp_all
  then show "unat D mod 256 ^ t = r" by simp
  show "dcd_ok t Q D" unfolding dcd_ok_def q d(1) by simp
  have "unat D div 256 ^ t * 256 ^ t = Q mod 256 ^ 7" unfolding d(1) q by simp
  then show "jp_base Q t D = Q" unfolding jp_base_def by (simp only: div_mult_mod_eq)
qed

definition run_ok :: "nat \<Rightarrow> nat \<Rightarrow> (word_t \<times> 'v) list \<Rightarrow> bool" where
  "run_ok t d run \<longleftrightarrow> run \<noteq> [] \<and> sorted_wrt (<) (map fst run) \<and> (\<forall>x\<in>set run. unat (fst x) div 256 ^ t = d)"

lemma run_key: "run_ok t d run \<Longrightarrow> x \<in> set run \<Longrightarrow> unat (fst x) = d * 256 ^ t + unat (fst x) mod 256 ^ t"
  unfolding run_ok_def by (metis div_mult_mod_eq)

lemma run_keys:
  assumes "run_ok t d run" "1 \<le> t" "t \<le> 7"
  defines "keys \<equiv> map (\<lambda>(k, v). JU_LEASTBYTES k t) run"
  shows "leaf_keys_ok t keys" "length keys = length run"
    and "zip (map (\<lambda>k. B + d * 256 ^ t + unat k) keys) (map snd run) = run_pairs B run"
proof -
  have least: "unat (JU_LEASTBYTES (k :: word_t) t) = unat k mod 256 ^ t" for k
    using assms(2,3) by (intro unat_leastbytes) auto
  note key = run_key [OF assms(1)]
  have keys: "keys = map (\<lambda>x. JU_LEASTBYTES (fst x) t) run" by (simp add: keys_def case_prod_beta)
  then show "length keys = length run" by simp
  have idem: "JU_LEASTBYTES (JU_LEASTBYTES k t) t = JU_LEASTBYTES k t" for k by (simp add: JU_LEASTBYTES_def)
  have "sorted_wrt (\<lambda>x y. JU_LEASTBYTES (fst x) t < JU_LEASTBYTES (fst y) t) run"
  proof (rule sorted_wrt_mono_rel [of _ "\<lambda>x y. fst x < fst y"])
    fix x y assume xy: "x \<in> set run" "y \<in> set run" "fst x < fst y"
    then show "JU_LEASTBYTES (fst x) t < JU_LEASTBYTES (fst y) t"
      using key [OF xy(1)] key [OF xy(2)] by (simp only: word_less_nat_alt least)
  qed (use assms(1) in \<open>simp add: run_ok_def sorted_wrt_map\<close>)
  then show "leaf_keys_ok t keys" unfolding leaf_keys_ok_def keys using idem by (auto simp: sorted_wrt_map)
  have "map (\<lambda>k. B + d * 256 ^ t + unat k) keys = map (\<lambda>x. B + unat (fst x)) run"
    unfolding keys map_map comp_def least using key by (intro map_cong refl) (metis add.assoc)
  then show "zip (map (\<lambda>k. B + d * 256 ^ t + unat k) keys) (map snd run) = run_pairs B run"
    unfolding run_pairs_def by (simp only: zip_map_map zip_same_conv_map map_map comp_def) simp
qed

lemma wf_leaf_of_run:
  assumes "run_ok t d run" "1 \<le> t" "t \<le> 7" "256 ^ t dvd B" "length run \<le> cJL_LEAF_MAXPOP1 t" "length run - 1 < 256"
    and "unat D = (B + d * 256 ^ t) mod 256 ^ 7 + (length run - 1)"
  defines "jp \<equiv> JPLEAF t D (map (\<lambda>(k, v). JU_LEASTBYTES k t) run) (map snd run)"
  shows "jp_wf t (B + d * 256 ^ t) jp" "jp_entries (B + d * 256 ^ t) jp = run_pairs B run"
proof -
  have "256 ^ 1 \<le> (256::nat) ^ t" using assms(2) by (intro power_increasing) auto
  then have r: "length run - 1 < 256 ^ t" using assms(6) by simp
  have dv: "256 ^ t dvd B + d * 256 ^ t" using assms(4) by simp
  note b = base_of [OF assms(7) r dv assms(3)] and k = run_keys [OF assms(1-3)]
  have "unat (JU_JPLEAF_POP0 D) = unat D mod 256 ^ t mod 256"
  proof -
    have "(256::nat) dvd 256 ^ t" using assms(2) by (simp add: dvd_power)
    then show ?thesis by (simp add: unat_leaf_pop0 mod_mod_cancel)
  qed
  then have p: "unat (JU_JPLEAF_POP0 D) = length run - 1" using b(3) assms(6) by simp
  have "length run \<noteq> 0" using assms(1) by (simp add: run_ok_def)
  then show "jp_wf t (B + d * 256 ^ t) jp"
    unfolding jp_def jp_wf_leaf using assms(2,3,5,6) b k(1,2) p by simp
  show "jp_entries (B + d * 256 ^ t) jp = run_pairs B run"
    unfolding jp_def jp_entries_leaf b(1) by (rule k(3))
qed

lemma wf_leafb1_of_run:
  assumes "run_ok 1 d run" "256 dvd B" "unat D = (B + d * 256) mod 256 ^ 7 + (length run - 1)" "1 \<le> l" "l \<le> 7" "dcd_ok l P D"
    and "P div 256 ^ 7 = (B + d * 256) div 256 ^ 7"
  defines "jp \<equiv> JPLEAF_B1 D (j__udyJLL2toJLB1 (map fst run) (map snd run))"
  shows "jp_wf l P jp" "jp_entries P jp = run_pairs B run"
proof -
  note key = run_key [OF assms(1)]
  let ?dg = "\<lambda>k. unat (JU_DIGITATSTATE k 1)"
  have dg: "?dg k = unat k mod 256" for k using unat_digitatstate [of k 1] by simp
  have srt: "sorted_wrt (<) (map ?dg (map fst run))"
    unfolding sorted_wrt_map
  proof (rule sorted_wrt_mono_rel [of _ "\<lambda>x y. fst x < fst y"])
    fix x y assume xy: "x \<in> set run" "y \<in> set run" "fst x < fst y"
    then show "?dg (fst x) < ?dg (fst y)" using key [OF xy(1)] key [OF xy(2)] by (simp only: dg word_less_nat_alt power_one_right)
  qed (use assms(1) in \<open>simp add: run_ok_def sorted_wrt_map\<close>)
  let ?ps = "zip (map ?dg (map fst run)) (map snd run)"
  have bb: "blocks_built (j__udyJLL2toJLB1 (map fst run) (map snd run)) 4 ?ps"
    unfolding j__udyJLL2toJLB1_def by (rule jll2tojlb1_built) (use srt in simp_all)
  have fst: "map fst ?ps = map ?dg (map fst run)" by simp
  have less: "\<forall>d\<in>fst ` set ?ps. d < LENGTH(64) * 4"
  proof -
    have "fst ` set ?ps = set (map ?dg (map fst run))" using arg_cong [OF fst, of set] by (simp only: set_map)
    moreover have "?dg k < LENGTH(64) * 4" for k using unat_byte_less [of "JU_DIGITATSTATE k 1"] by simp
    ultimately show ?thesis by (metis (no_types, lifting) imageE list.set_map)
  qed
  have "sorted_wrt (<) (map fst ?ps)" unfolding fst by (rule srt)
  note b = blocks_built [OF bb this less]
  have lv: "leafb1_values (j__udyJLL2toJLB1 (map fst run) (map snd run)) = ?ps"
    using b(2) by (simp add: bm_list_def leafb1_values_def)
  have n: "length run \<le> 256"
  proof -
    have "distinct (map ?dg (map fst run))" using srt by (simp add: strict_sorted_iff)
    then have "length run = card (set (map ?dg (map fst run)))" by (metis distinct_card length_map)
    also have "\<dots> \<le> card {..<256::nat}" by (intro card_mono) (auto simp: unat_byte_less)
    finally show ?thesis by simp
  qed
  have ne: "run \<noteq> []" using assms(1) by (simp add: run_ok_def)
  then have n0: "0 < length run" by simp
  have r: "length run - 1 < 256 ^ 1" using n n0 by simp
  have dv: "256 ^ 1 dvd B + d * 256" using assms(2) by simp
  have base: "jp_base (B + d * 256) 1 D = B + d * 256" "unat D mod 256 ^ 1 = length run - 1"
    using base_of [OF assms(3) r dv] by simp_all
  have p: "unat (JU_JPLEAF_POP0 D) = length run - 1" using base(2) by (simp add: unat_leaf_pop0)
  have sh: "length (j__udyJLL2toJLB1 (map fst run) (map snd run)) = cJU_NUMSUBEXPL"
    "\<forall>(bm, vs)\<in>set (j__udyJLL2toJLB1 (map fst run) (map snd run)). length vs = length (set_positions bm)"
    using b(1) by (simp_all add: bm_shape_def cJU_NUMSUBEXPL_def)
  show "jp_wf l P jp"
    unfolding jp_def jp_wf_leaf lv using assms(4-6) sh p n0 by simp
  have "jp_base P 1 D = B + d * 256" using base(1) assms(7) by (simp add: jp_base_def)
  then have "jp_entries P jp = map (\<lambda>(e, v). (B + d * 256 + e, v)) ?ps" unfolding jp_def jp_entries_leaf lv by simp
  also have "\<dots> = run_pairs B run"
  proof -
    have "?ps = map (\<lambda>x. (?dg (fst x), snd x)) run" by (simp add: zip_map_map zip_same_conv_map)
    moreover have "B + d * 256 + ?dg (fst x) = B + unat (fst x)" if "x \<in> set run" for x
      unfolding dg using key [OF that] by simp
    ultimately show ?thesis by (simp only: run_pairs_def map_map comp_def case_prod_conv cong: map_cong)
  qed
  finally show "jp_entries P jp = run_pairs B run" .
qed

section \<open>The runs of a leaf\<close>

lemma digit_xor: "JU_DIGITATSTATE (a XOR b) s = 0 \<longleftrightarrow> JU_DIGITATSTATE a s = JU_DIGITATSTATE b s"
proof -
  have "JU_DIGITATSTATE (a XOR b) s = JU_DIGITATSTATE a s XOR JU_DIGITATSTATE b s"
    unfolding JU_DIGITATSTATE_def by (rule bit_word_eqI) (simp add: bit_simps)
  then show ?thesis by (simp add: bit_eq_iff bit_simps)
qed

text \<open>Below a bound of \<open>256 ^ s\<close> the digit of a key is its quotient.\<close>

lemma digit_quotient:
  assumes "unat k < 256 ^ s" "1 \<le> s"
  shows "unat (JU_DIGITATSTATE k s) = unat k div 256 ^ (s - 1)"
proof -
  have "(256::nat) ^ s = 256 * 256 ^ (s - 1)" using assms(2) by (simp add: power_eq_if)
  then have "unat k div 256 ^ (s - 1) < 256" using assms(1) by (intro less_mult_imp_div_less) simp
  then show ?thesis by (simp add: unat_digitatstate)
qed

abbreviation run_digit :: "nat \<Rightarrow> (word_t \<times> 'v) list \<Rightarrow> uint8" where
  "run_digit s run \<equiv> JU_DIGITATSTATE (fst (hd run)) s"

lemma splay_loop_runs:
  assumes "sorted_wrt (<) (map fst (run @ rest))" "run \<noteq> []" "cindex = fst (hd run)" "1 \<le> s"
    and "\<forall>x\<in>set (run @ rest). unat (fst x) < 256 ^ s" "\<forall>x\<in>set run. JU_DIGITATSTATE (fst x) s = run_digit s run"
  shows "\<exists>rs. splay_loop s build cindex run rest = map (\<lambda>r. (run_digit s r, build r)) rs \<and> concat rs = run @ rest
    \<and> rs \<noteq> [] \<and> run_digit s (hd rs) = run_digit s run \<and> sorted_wrt (<) (map (run_digit s) rs)
    \<and> (\<forall>r\<in>set rs. run_ok (s - 1) (unat (run_digit s r)) r)"
  using assms
proof (induction rest arbitrary: run cindex)
  case Nil
  have "run_ok (s - 1) (unat (run_digit s run)) run"
    unfolding run_ok_def
  proof (intro conjI ballI)
    fix x assume x: "x \<in> set run"
    show "unat (fst x) div 256 ^ (s - 1) = unat (run_digit s run)"
      using Nil.prems(4,5,6) x digit_quotient [of "fst x" s] by auto
  qed (use Nil in auto)
  then show ?case using Nil.prems(3) by (intro exI [of _ "[run]"]) simp
next
  case (Cons x rest)
  obtain k v where x: "x = (k, v)" by (cases x)
  have hd: "fst (hd run) \<le> fst y" if "y \<in> set run" for y
    using Cons.prems(1) that Cons.prems(2) by (cases run) (auto simp: less_imp_le)
  have mono: "JU_DIGITATSTATE a s \<le> JU_DIGITATSTATE b s" if "a \<le> b" "unat a < 256 ^ s" "unat b < 256 ^ s" for a b
    using that digit_quotient [of a s] digit_quotient [of b s] Cons.prems(4) by (simp add: word_le_nat_alt div_le_mono)
  show ?case
  proof (cases "JU_DIGITATSTATE (cindex XOR k) s = 0")
    case True
    then have d: "JU_DIGITATSTATE k s = run_digit s run" using digit_xor Cons.prems(3) by metis
    have h: "hd (run @ [(k, v)]) = hd run" using Cons.prems(2) by simp
    have "\<exists>rs. splay_loop s build cindex (run @ [(k, v)]) rest = map (\<lambda>r. (run_digit s r, build r)) rs
        \<and> concat rs = (run @ [(k, v)]) @ rest \<and> rs \<noteq> [] \<and> run_digit s (hd rs) = run_digit s (run @ [(k, v)])
        \<and> sorted_wrt (<) (map (run_digit s) rs) \<and> (\<forall>r\<in>set rs. run_ok (s - 1) (unat (run_digit s r)) r)"
    proof (rule Cons.IH)
      show "\<forall>y\<in>set (run @ [(k, v)]). JU_DIGITATSTATE (fst y) s = run_digit s (run @ [(k, v)])"
        unfolding h using Cons.prems(6) d by simp
    qed (use Cons.prems(1-5) h x in simp_all)
    then show ?thesis using True h by (simp add: x)
  next
    case False
    then have ne: "JU_DIGITATSTATE k s \<noteq> run_digit s run" using digit_xor Cons.prems(3) by metis
    have "\<exists>rs. splay_loop s build k [(k, v)] rest = map (\<lambda>r. (run_digit s r, build r)) rs
        \<and> concat rs = [(k, v)] @ rest \<and> rs \<noteq> [] \<and> run_digit s (hd rs) = run_digit s [(k, v)]
        \<and> sorted_wrt (<) (map (run_digit s) rs) \<and> (\<forall>r\<in>set rs. run_ok (s - 1) (unat (run_digit s r)) r)"
      by (rule Cons.IH) (use Cons.prems in \<open>auto simp: x sorted_wrt_append\<close>)
    then obtain rs where rs: "splay_loop s build k [(k, v)] rest = map (\<lambda>r. (run_digit s r, build r)) rs"
      "concat rs = (k, v) # rest" "rs \<noteq> []" "run_digit s (hd rs) = JU_DIGITATSTATE k s"
      "sorted_wrt (<) (map (run_digit s) rs)" "\<forall>r\<in>set rs. run_ok (s - 1) (unat (run_digit s r)) r" by auto
    have "fst (hd run) < k" using Cons.prems(1,2) by (cases run) (auto simp: x)
    then have "run_digit s run \<le> JU_DIGITATSTATE k s"
      using Cons.prems(2,5) by (intro mono) (auto simp: x)
    then have lt: "run_digit s run < JU_DIGITATSTATE k s" using ne by simp
    have "\<forall>r\<in>set rs. run_digit s run < run_digit s r"
    proof
      fix r assume "r \<in> set rs"
      then have "run_digit s (hd rs) \<le> run_digit s r" using rs(3,5) by (cases rs) (auto intro: less_imp_le)
      then show "run_digit s run < run_digit s r" using lt rs(4) by simp
    qed
    then have srt: "sorted_wrt (<) (map (run_digit s) (run # rs))" using rs(5) by auto
    have "run_ok (s - 1) (unat (run_digit s run)) run"
      unfolding run_ok_def
    proof (intro conjI ballI)
      fix y assume y: "y \<in> set run"
      show "unat (fst y) div 256 ^ (s - 1) = unat (run_digit s run)"
        using Cons.prems(4,5,6) y digit_quotient [of "fst y" s] by auto
    qed (use Cons.prems in \<open>auto simp: sorted_wrt_append\<close>)
    then show ?thesis
      using rs srt False Cons.prems(3) by (intro exI [of _ "run # rs"]) (simp add: x)
  qed
qed

lemma splay_runs:
  assumes "sorted_wrt (<) (map fst kvs)" "kvs \<noteq> []" "1 \<le> s" "\<forall>x\<in>set kvs. unat (fst x) < 256 ^ s"
  shows "\<exists>rs. splay s build kvs = map (\<lambda>r. (run_digit s r, build r)) rs \<and> concat rs = kvs \<and> rs \<noteq> []
    \<and> sorted_wrt (<) (map (run_digit s) rs) \<and> (\<forall>r\<in>set rs. run_ok (s - 1) (unat (run_digit s r)) r)"
proof -
  obtain k v rest where kvs: "kvs = (k, v) # rest" using assms(2) by (cases kvs) auto
  have "\<exists>rs. splay_loop s build k [(k, v)] rest = map (\<lambda>r. (run_digit s r, build r)) rs \<and> concat rs = [(k, v)] @ rest
    \<and> rs \<noteq> [] \<and> run_digit s (hd rs) = run_digit s [(k, v)] \<and> sorted_wrt (<) (map (run_digit s) rs)
    \<and> (\<forall>r\<in>set rs. run_ok (s - 1) (unat (run_digit s r)) r)"
    by (rule splay_loop_runs) (use assms in \<open>auto simp: kvs\<close>)
  then show ?thesis by (auto simp: kvs)
qed

end
