(* ===== verification/JudyIns.thy ===== *)
theory JudyIns
  imports JudyCascade
begin

text \<open>
  \<open>JudyLIns\<close> (\<open>src/Judy/src/JudyCommon/JudyIns.c\<close>): the recursive walk \<open>j__udyInsWalk\<close>, one definition per
  group of cases of its \<open>switch\<close>, and the entry point with the root leaf.  The code returns a pointer to
  the value slot of the index, through which the caller reads and stores; in the model \<open>store\<close> is what the
  caller does to the slot (the identity for a plain \<open>JudyLIns\<close>) and \<open>zero\<close> the value the code puts into a new
  slot.  The tree is returned updated, also when the walk ends with an error.  Growing a leaf or a value
  area in place or into a larger copy is the same list.
\<close>

section \<open>Results\<close>

text \<open>The return codes -1, 0 and 1 of the walk, 0 with the value that the slot held.\<close>

datatype 'v retcode = INS_ERROR | INS_EXISTS 'v | INS_NEW

text \<open>The address of a pointer in a branch, and one turn of the \<open>switch\<close>: return, go on with the pointer in its new
  form (\<open>goto ContinueInsWalk\<close>, with the saved \<open>jpm_LastUPop0\<close>), or descend; \<open>InsUndefined\<close> is a failed assertion,
  a search that does not end or a read outside an array.\<close>

datatype jp_place = AtJbl nat | AtJbb nat nat | AtJbu nat

datatype 'v ins_turn = InsReturn "'v retcode" "'v jp" | InsAgain "'v jp" word_t | InsDown jp_place | InsUndefined

fun jp_at :: "'v jp \<Rightarrow> jp_place \<Rightarrow> 'v jp option" where
  "jp_at (JPBRANCH_L s dcd jbl) (AtJbl i) = map_option snd (nth_opt jbl i)"
| "jp_at (JPBRANCH_B s dcd jbb) (AtJbb k i) =
     (case nth_opt jbb k of None \<Rightarrow> None | Some (bitmap, jps) \<Rightarrow> nth_opt jps i)"
| "jp_at (JPBRANCH_U s dcd jbu) (AtJbu i) = nth_opt jbu i"
| "jp_at _ _ = None"

fun jp_put :: "'v jp \<Rightarrow> jp_place \<Rightarrow> 'v jp \<Rightarrow> 'v jp" where
  "jp_put (JPBRANCH_L s dcd jbl) (AtJbl i) jp = JPBRANCH_L s dcd (jbl[i := (fst (jbl ! i), jp)])"
| "jp_put (JPBRANCH_B s dcd jbb) (AtJbb k i) jp = JPBRANCH_B s dcd (jbb[k := (fst (jbb ! k), (snd (jbb ! k))[i := jp])])"
| "jp_put (JPBRANCH_U s dcd jbu) (AtJbu i) jp = JPBRANCH_U s dcd (jbu[i := jp])"
| "jp_put jp0 _ jp = jp0"

section \<open>The cases of the walk\<close>

definition JU_BRANCHL_MAX_POP :: word_t where "JU_BRANCHL_MAX_POP = 1000"
definition JU_BTOU_POP_INCREMENT :: word_t where "JU_BTOU_POP_INCREMENT = 300"
definition JU_BRANCHB_MIN_POP :: word_t where "JU_BRANCHB_MIN_POP = 135"
definition JU_BRANCHB_MAX_POP :: word_t where "JU_BRANCHB_MAX_POP = 750"

definition ins_corrupt :: "'v jp \<Rightarrow> 'v ins_turn" where
  "ins_corrupt jp = InsReturn INS_ERROR jp"

definition JU_CHECK_IF_OUTLIER :: "'v jp \<Rightarrow> word_t \<Rightarrow> nat \<Rightarrow> 'v \<Rightarrow> 'v ins_turn \<Rightarrow> 'v ins_turn" where
  "JU_CHECK_IF_OUTLIER jp index clevel v continue =
     (if JU_DCDNOTMATCHINDEX index (jp_DcdP0 jp) clevel
      then (case j__udyInsertBranch jp index clevel v of None \<Rightarrow> InsUndefined | Some jp' \<Rightarrow> InsReturn INS_NEW jp')
      else continue)"

definition ins_jpnull :: "word_t \<Rightarrow> nat \<Rightarrow> 'v \<Rightarrow> 'v ins_turn" where
  "ins_jpnull index n v =
     (if 1 \<le> n \<and> n \<le> 7 then InsReturn INS_NEW (JPIMMED_01 n (JU_JPSETDCD index) v) else ins_corrupt (JPNULL n))"

text \<open>The population less one below a branch: the JPM's for a branch at the root.\<close>

definition branch_exppop1 :: "nat \<Rightarrow> dcdpop0 \<Rightarrow> word_t \<Rightarrow> word_t" where
  "branch_exppop1 s dcd jpm_Pop0 = (if s = cJU_ROOTSTATE then jpm_Pop0 else JU_JPBRANCH_POP0 dcd s)"

definition ins_branch_l :: "word_t \<Rightarrow> word_t \<Rightarrow> word_t \<Rightarrow> nat \<Rightarrow> dcdpop0 \<Rightarrow> (uint8 \<times> 'v jp) list \<Rightarrow> 'v \<Rightarrow> 'v ins_turn" where
  "ins_branch_l index jpm_Pop0 lastupop0 s dcd jbl v =
     (let digit = JU_DIGITATSTATE index s; numjps = length jbl
      in if branch_exppop1 s dcd jpm_Pop0 > JU_BRANCHL_MAX_POP
         then InsAgain (JPBRANCH_U s dcd (ConvertBranchLtoU s jbl)) jpm_Pop0
         else if numjps = 0 \<or> numjps > cJU_BRANCHLMAXJPS then ins_corrupt (JPBRANCH_L s dcd jbl)
         else case j__udySearchLeaf1 (map (ucast \<circ> fst) jbl) (word_of_nat numjps) (ucast digit) of
           None \<Rightarrow> InsUndefined
         | Some offset \<Rightarrow>
             if offset \<ge> 0 then InsDown (AtJbl (nat offset))
             else if numjps < cJU_BRANCHLMAXJPS
             then InsReturn INS_NEW (JPBRANCH_L s dcd
                    (insert_slot jbl numjps (nat (NOT offset)) (digit, JPIMMED_01 (s - 1) (JU_JPSETDCD index) v)))
             else InsAgain (JPBRANCH_B s dcd (j__udyCreateBranchB (map snd jbl) (map fst jbl))) lastupop0)"

definition ins_branch_b :: "word_t \<Rightarrow> word_t \<Rightarrow> word_t \<Rightarrow> nat \<Rightarrow> dcdpop0 \<Rightarrow> (uint32 \<times> 'v jp list) list \<Rightarrow> 'v \<Rightarrow> 'v ins_turn" where
  "ins_branch_b index jpm_Pop0 lastupop0 s dcd jbb v =
     (if jpm_Pop0 - lastupop0 > JU_BTOU_POP_INCREMENT \<and> jpm_Pop0 > JU_BRANCHB_MAX_POP
         \<and> branch_exppop1 s dcd jpm_Pop0 > JU_BRANCHB_MIN_POP
      then (case j__udyCreateBranchU s jbb of
              None \<Rightarrow> InsUndefined
            | Some jbu \<Rightarrow> InsAgain (JPBRANCH_U s dcd jbu) jpm_Pop0)
      else let digit = unat (JU_DIGITATSTATE index s); subexp = digit div cJU_BITSPERSUBEXPB
           in case nth_opt jbb subexp of
                None \<Rightarrow> InsUndefined
              | Some (bitmap, jps) \<Rightarrow>
                  let bitmask = JU_BITPOSMASKB digit; offset = unat (j__udyCountBitsB (bitmap AND (bitmask - 1)))
                  in if bitmap AND bitmask \<noteq> 0 then InsDown (AtJbb subexp offset)
                     else InsReturn INS_NEW (JPBRANCH_B s dcd (jbb[subexp := (bitmap OR bitmask,
                            insert_slot jps (unat (j__udyCountBitsB bitmap)) offset
                              (JPIMMED_01 (s - 1) (JU_JPSETDCD index) v))])))"

text \<open>\<open>JU_CHECK_IF_EXISTS\<close> and the growth of a leaf or immediate with \<open>exppop1\<close> indexes.\<close>

definition leaf_exists :: "('v \<Rightarrow> 'v) \<Rightarrow> ('v list \<Rightarrow> 'v jp) \<Rightarrow> 'v list \<Rightarrow> nat \<Rightarrow> 'v ins_turn" where
  "leaf_exists store jp pjv offset =
     (case nth_opt pjv offset of None \<Rightarrow> InsUndefined | Some v \<Rightarrow> InsReturn (INS_EXISTS v) (jp (pjv[offset := store v])))"

definition leaf_grow :: "nat \<Rightarrow> word_t \<Rightarrow> word_t list \<Rightarrow> 'v list \<Rightarrow> nat \<Rightarrow> nat \<Rightarrow> 'v \<Rightarrow> word_t list \<times> 'v list" where
  "leaf_grow s index pjll pjv exppop1 offset v =
     (insert_slot pjll exppop1 offset (JU_LEASTBYTES index s), insert_slot pjv exppop1 offset v)"

definition j__udyCascade :: "nat \<Rightarrow> dcdpop0 \<Rightarrow> word_t list \<Rightarrow> 'v list \<Rightarrow> 'v jp option" where
  "j__udyCascade s =
     (if s = 1 then j__udyCascade1 else if s = 2 then j__udyCascade2 else if s = 3 then j__udyCascade3
      else if s = 4 then j__udyCascade4 else if s = 5 then j__udyCascade5 else if s = 6 then j__udyCascade6
      else j__udyCascade7)"

definition ins_jpleaf :: "word_t \<Rightarrow> word_t \<Rightarrow> nat \<Rightarrow> dcdpop0 \<Rightarrow> word_t list \<Rightarrow> 'v list \<Rightarrow> 'v \<Rightarrow> ('v \<Rightarrow> 'v) \<Rightarrow> 'v ins_turn" where
  "ins_jpleaf index lastupop0 s dcd pjll pjv zero store =
     (let exppop1 = unat (JU_JPLEAF_POP0 dcd) + 1
      in if exppop1 > cJL_LEAF_MAXPOP1 s then InsUndefined
         else case search_leaf_state s pjll (word_of_nat exppop1) index of
           None \<Rightarrow> InsUndefined
         | Some offset \<Rightarrow>
             if offset \<ge> 0 then leaf_exists store (JPLEAF s dcd pjll) pjv (nat offset)
             else if exppop1 < cJL_LEAF_MAXPOP1 s
             then (let (pjll', pjv') = leaf_grow s index pjll pjv exppop1 (nat (NOT offset)) (store zero)
                   in InsReturn INS_NEW (JPLEAF s dcd pjll' pjv'))
             else (case j__udyCascade s dcd pjll pjv of None \<Rightarrow> InsUndefined | Some jp \<Rightarrow> InsAgain jp lastupop0))"

definition ins_jpleaf_b1 :: "word_t \<Rightarrow> dcdpop0 \<Rightarrow> (word_t \<times> 'v list) list \<Rightarrow> 'v \<Rightarrow> ('v \<Rightarrow> 'v) \<Rightarrow> 'v ins_turn" where
  "ins_jpleaf_b1 index dcd pjlb zero store =
     (let digit = unat (JU_DIGITATSTATE index 1); subexp = digit div cJU_BITSPERSUBEXPL
      in case nth_opt pjlb subexp of
           None \<Rightarrow> InsUndefined
         | Some (bitmap, pjv) \<Rightarrow>
             let bitmask = JU_BITPOSMASKL digit; offset = unat (j__udyCountBitsL (bitmap AND (bitmask - 1)))
             in if bitmap AND bitmask \<noteq> 0
                then leaf_exists store (\<lambda>pjv. JPLEAF_B1 dcd (pjlb[subexp := (bitmap, pjv)])) pjv offset
                else InsReturn INS_NEW (JPLEAF_B1 dcd (pjlb[subexp := (bitmap OR bitmask,
                       insert_slot pjv (unat (j__udyCountBitsL bitmap)) offset (store zero))])))"

text \<open>\<open>JU_IMMSET_01_COPY\<close> and \<open>JU_IMMSET_01_CASCADE\<close>: two indexes in their proper order.\<close>

definition ins_jpimmed_01 :: "word_t \<Rightarrow> nat \<Rightarrow> dcdpop0 \<Rightarrow> 'v \<Rightarrow> 'v \<Rightarrow> ('v \<Rightarrow> 'v) \<Rightarrow> 'v ins_turn" where
  "ins_jpimmed_01 index s dcd oldvalue zero store =
     (if s < 1 \<or> 7 < s then ins_corrupt (JPIMMED_01 s dcd oldvalue)
      else let oldindex = JU_JPDCDPOP0 dcd; index = JU_TRIMTODCDSIZE index;
               old = JU_LEASTBYTES oldindex s; new = JU_LEASTBYTES index s;
               (pjll, pjv) = (if oldindex < index then ([old, new], [oldvalue, store zero])
                              else ([new, old], [store zero, oldvalue]))
           in if oldindex = index then InsReturn (INS_EXISTS oldvalue) (JPIMMED_01 s dcd (store oldvalue))
              else if s \<le> 3 then InsReturn INS_NEW (JPIMMED s pjll pjv)
              else InsReturn INS_NEW (JPLEAF s (JU_JPSETDCD (index AND cJU_DCDMASK s)) pjll pjv))"

text \<open>\<open>JU_IMMSETINPLACE\<close> and \<open>JU_IMMSETCASCADE\<close>.\<close>

definition ins_jpimmed :: "word_t \<Rightarrow> nat \<Rightarrow> word_t list \<Rightarrow> 'v list \<Rightarrow> 'v \<Rightarrow> ('v \<Rightarrow> 'v) \<Rightarrow> 'v ins_turn" where
  "ins_jpimmed index s jp_LIndex pjv zero store =
     (let exppop1 = length jp_LIndex
      in if s < 1 \<or> 3 < s \<or> exppop1 < 2 \<or> cJL_IMMED_MAXPOP1 s < exppop1 then ins_corrupt (JPIMMED s jp_LIndex pjv)
         else case search_leaf_state s jp_LIndex (word_of_nat exppop1) index of
           None \<Rightarrow> InsUndefined
         | Some offset \<Rightarrow>
             if offset \<ge> 0 then leaf_exists store (JPIMMED s jp_LIndex) pjv (nat offset)
             else (let (pjll', pjv') = leaf_grow s index jp_LIndex pjv exppop1 (nat (NOT offset)) (store zero)
                   in if exppop1 < cJL_IMMED_MAXPOP1 s then InsReturn INS_NEW (JPIMMED s pjll' pjv')
                      else InsReturn INS_NEW (JPLEAF s
                        (JU_JPSETDCD ((index AND cJU_DCDMASK s) + word_of_nat exppop1 - 1)) pjll' pjv')))"

fun ins_step :: "'v \<Rightarrow> ('v \<Rightarrow> 'v) \<Rightarrow> word_t \<Rightarrow> word_t \<Rightarrow> word_t \<Rightarrow> 'v jp \<Rightarrow> 'v ins_turn" where
  "ins_step zero store index jpm_Pop0 lastupop0 (JPNULL n) = ins_jpnull index n (store zero)"
| "ins_step zero store index jpm_Pop0 lastupop0 (JPBRANCH_L s dcd jbl) =
     (if s < 2 \<or> 8 < s then ins_corrupt (JPBRANCH_L s dcd jbl)
      else if s \<le> 7
      then JU_CHECK_IF_OUTLIER (JPBRANCH_L s dcd jbl) index s (store zero)
             (ins_branch_l index jpm_Pop0 lastupop0 s dcd jbl (store zero))
      else ins_branch_l index jpm_Pop0 lastupop0 s dcd jbl (store zero))"
| "ins_step zero store index jpm_Pop0 lastupop0 (JPBRANCH_B s dcd jbb) =
     (if s < 2 \<or> 8 < s then ins_corrupt (JPBRANCH_B s dcd jbb)
      else if s \<le> 7
      then JU_CHECK_IF_OUTLIER (JPBRANCH_B s dcd jbb) index s (store zero)
             (ins_branch_b index jpm_Pop0 lastupop0 s dcd jbb (store zero))
      else ins_branch_b index jpm_Pop0 lastupop0 s dcd jbb (store zero))"
| "ins_step zero store index jpm_Pop0 lastupop0 (JPBRANCH_U s dcd jbu) =
     (if s < 2 \<or> 8 < s then ins_corrupt (JPBRANCH_U s dcd jbu)
      else if s \<le> 6
      then JU_CHECK_IF_OUTLIER (JPBRANCH_U s dcd jbu) index s (store zero)
             (InsDown (AtJbu (unat (JU_DIGITATSTATE index s))))
      else InsDown (AtJbu (unat (JU_DIGITATSTATE index s))))"
| "ins_step zero store index jpm_Pop0 lastupop0 (JPLEAF s dcd pjll pjv) =
     (if s < 1 \<or> 7 < s then ins_corrupt (JPLEAF s dcd pjll pjv)
      else JU_CHECK_IF_OUTLIER (JPLEAF s dcd pjll pjv) index s (store zero)
             (ins_jpleaf index lastupop0 s dcd pjll pjv zero store))"
| "ins_step zero store index jpm_Pop0 lastupop0 (JPLEAF_B1 dcd pjlb) =
     JU_CHECK_IF_OUTLIER (JPLEAF_B1 dcd pjlb) index 1 (store zero) (ins_jpleaf_b1 index dcd pjlb zero store)"
| "ins_step zero store index jpm_Pop0 lastupop0 (JPIMMED_01 s dcd v) = ins_jpimmed_01 index s dcd v zero store"
| "ins_step zero store index jpm_Pop0 lastupop0 (JPIMMED s keys vals) = ins_jpimmed index s keys vals zero store"
| "ins_step zero store index jpm_Pop0 lastupop0 (JPINVALID t) = ins_corrupt (JPINVALID t)"

section \<open>The walk ends\<close>

text \<open>The weight bounds the turns of the walk: a leaf weighs more than any branch over smaller leaves, a linear
  branch more than the bitmap branch with its pointers, that more than the uncompressed one.\<close>

fun jp_weight :: "'v jp \<Rightarrow> nat" where
  "jp_weight (JPBRANCH_L s dcd jbl) = 3 + Max (insert 0 ((\<lambda>x. jp_weight (snd x)) ` set jbl))"
| "jp_weight (JPBRANCH_B s dcd jbb) = 2 + Max (insert 0 (\<Union>sub\<in>set jbb. jp_weight ` set (snd sub)))"
| "jp_weight (JPBRANCH_U s dcd jbu) = 1 + Max (insert 0 (jp_weight ` set jbu))"
| "jp_weight (JPLEAF s dcd keys vals) = 4 * s + 1"
| "jp_weight _ = 0"

lemma weight_children:
  "x \<in> set jbl \<Longrightarrow> jp_weight (snd x) < jp_weight (JPBRANCH_L s dcd jbl)"
  "sub \<in> set jbb \<Longrightarrow> c \<in> set (snd sub) \<Longrightarrow> jp_weight c < jp_weight (JPBRANCH_B s dcd jbb)"
  "c \<in> set jbu \<Longrightarrow> jp_weight c < jp_weight (JPBRANCH_U s dcd jbu)"
proof -
  have *: "x \<in> A \<Longrightarrow> finite A \<Longrightarrow> x < Suc (Max (insert 0 A))" for x :: nat and A
    by (meson Max_ge finite_insert insertI2 le_imp_less_Suc)
  show "x \<in> set jbl \<Longrightarrow> jp_weight (snd x) < jp_weight (JPBRANCH_L s dcd jbl)"
    using * [of "jp_weight (snd x)" "(\<lambda>x. jp_weight (snd x)) ` set jbl"] by simp
  show "jp_weight c < jp_weight (JPBRANCH_B s dcd jbb)" if "sub \<in> set jbb" "c \<in> set (snd sub)"
  proof -
    have "jp_weight c \<in> (\<Union>sub\<in>set jbb. jp_weight ` set (snd sub))" using that by blast
    from * [OF this] show ?thesis by simp
  qed
  show "c \<in> set jbu \<Longrightarrow> jp_weight c < jp_weight (JPBRANCH_U s dcd jbu)"
    using * [of "jp_weight c" "jp_weight ` set jbu"] by simp
qed

lemma weight_le:
  "(\<And>x. x \<in> set jbl \<Longrightarrow> jp_weight (snd x) \<le> w) \<Longrightarrow> jp_weight (JPBRANCH_L s dcd jbl) \<le> 3 + w"
  "(\<And>sub c. sub \<in> set jbb \<Longrightarrow> c \<in> set (snd sub) \<Longrightarrow> jp_weight c \<le> w) \<Longrightarrow> jp_weight (JPBRANCH_B s dcd jbb) \<le> 2 + w"
  "(\<And>c. c \<in> set jbu \<Longrightarrow> jp_weight c \<le> w) \<Longrightarrow> jp_weight (JPBRANCH_U s dcd jbu) \<le> 1 + w"
  by (auto simp del: Max_insert Max.insert_not_elem simp: Max_le_iff)

lemma weight_jp_at: "jp_at jp place = Some c \<Longrightarrow> jp_weight c < jp_weight jp"
proof (induction jp place rule: jp_at.induct)
  case (1 s dcd jbl i)
  then obtain x where x: "nth_opt jbl i = Some x" "c = snd x" by auto
  show ?case unfolding x(2) by (rule weight_children(1) [OF nth_opt_mem [OF x(1)]])
next
  case (2 s dcd jbb k i)
  then obtain bm jps where x: "nth_opt jbb k = Some (bm, jps)" "nth_opt jps i = Some c" by (auto split: option.splits)
  from weight_children(2) [OF nth_opt_mem [OF x(1)]] nth_opt_mem [OF x(2)] show ?case by simp
next
  case (3 s dcd jbu i)
  then have x: "nth_opt jbu i = Some c" by simp
  show ?case by (rule weight_children(3) [OF nth_opt_mem [OF x]])
qed simp_all

text \<open>The conversions put no pointers into a branch but those of the old form and null pointers.\<close>

lemma convert_LtoU_mem: "c \<in> set (ConvertBranchLtoU s jbl) \<Longrightarrow> c \<in> snd ` set jbl \<or> c = JPNULL (s - 1)"
proof -
  have "c \<in> set (fold (\<lambda>(e, jp) jbu. jbu[unat e := jp]) jbl jbu) \<Longrightarrow> c \<in> snd ` set jbl \<or> c \<in> set jbu" for jbu
  proof (induction jbl arbitrary: jbu)
    case (Cons x jbl)
    from Cons.prems have "c \<in> set (fold (\<lambda>(e, jp) jbu. jbu[unat e := jp]) jbl (jbu[unat (fst x) := snd x]))"
      by (cases x) simp
    from Cons.IH [OF this] show ?case using set_update_subset_insert [of jbu "unat (fst x)" "snd x"] by auto
  qed simp
  then show "c \<in> set (ConvertBranchLtoU s jbl) \<Longrightarrow> c \<in> snd ` set jbl \<or> c = JPNULL (s - 1)"
    unfolding ConvertBranchLtoU_def by fastforce
qed

lemma set_jbb_mem:
  "sub \<in> set (set_jbb_bit jbb k d) \<Longrightarrow> \<exists>sub'\<in>set jbb. snd sub = snd sub'"
  "sub \<in> set (set_jbb_pjp jbb k jps) \<Longrightarrow> snd sub = jps \<or> sub \<in> set jbb"
proof -
  show "sub \<in> set (set_jbb_bit jbb k d) \<Longrightarrow> \<exists>sub'\<in>set jbb. snd sub = snd sub'"
    by (cases "k < length jbb")
      (auto simp: set_jbb_bit_def in_set_conv_nth nth_list_update split: if_splits intro: nth_mem)
  show "sub \<in> set (set_jbb_pjp jbb k jps) \<Longrightarrow> snd sub = jps \<or> sub \<in> set jbb"
    unfolding set_jbb_pjp_def using set_update_subset_insert [of jbb k "(fst (jbb ! k), jps)"] by auto
qed

lemma create_branch_b_mem:
  "sub \<in> set (create_branch_b jbb k run ps) \<Longrightarrow> c \<in> set (snd sub) \<Longrightarrow>
   (\<exists>sub'\<in>set jbb. c \<in> set (snd sub')) \<or> c \<in> set run \<or> c \<in> snd ` set ps"
proof (induction jbb k run ps rule: create_branch_b.induct)
  case (1 jbb k run)
  then show ?case using set_jbb_mem(2) [of sub jbb k run] by auto
next
  case (2 jbb k run e jp rest)
  define jbb' where "jbb' = set_jbb_bit jbb (unat e div cJU_BITSPERSUBEXPB) (unat e)"
  have jbb': "\<exists>sub\<in>set jbb. c \<in> set (snd sub)" if "sub' \<in> set jbb'" "c \<in> set (snd sub')" for sub' :: "32 word \<times> 'a jp list"
    using set_jbb_mem(1) [OF that(1) [unfolded jbb'_def]] that(2) by metis
  show ?case
  proof (cases "unat e div cJU_BITSPERSUBEXPB = k")
    case True
    have "(\<exists>sub'\<in>set jbb'. c \<in> set (snd sub')) \<or> c \<in> set (run @ [jp]) \<or> c \<in> snd ` set rest"
      by (rule 2(2) [OF refl jbb'_def]) (use True 2(3,4) in \<open>simp_all add: Let_def jbb'_def\<close>)
    then show ?thesis using jbb' by auto
  next
    case False
    have "(\<exists>sub'\<in>set (set_jbb_pjp jbb' k run). c \<in> set (snd sub')) \<or> c \<in> set [jp] \<or> c \<in> snd ` set rest"
      by (rule 2(1) [OF refl jbb'_def]) (use False 2(3,4) in \<open>simp_all add: Let_def jbb'_def\<close>)
    moreover have "(\<exists>sub\<in>set jbb. c \<in> set (snd sub)) \<or> c \<in> set run"
      if "sub' \<in> set (set_jbb_pjp jbb' k run)" "c \<in> set (snd sub')" for sub'
      using set_jbb_mem(2) [OF that(1)] that(2) jbb' by metis
    ultimately show ?thesis by auto
  qed
qed

lemma spread_jps_mem: "spread_jps n bitmap jpnull jps = Some xs \<Longrightarrow> c \<in> set xs \<Longrightarrow> c \<in> set jps \<or> c = jpnull"
  by (induction n bitmap jpnull jps arbitrary: xs rule: spread_jps.induct)
    (fastforce split: if_splits list.splits)+

lemma spread_subexps_mem:
  "spread_subexps jpnull subs = Some xs \<Longrightarrow> c \<in> set xs \<Longrightarrow> (\<exists>sub\<in>set subs. c \<in> set (snd sub)) \<or> c = jpnull"
proof (induction jpnull subs arbitrary: xs rule: spread_subexps.induct)
  case (2 jpnull sub subs)
  then obtain ys zs where x: "spread_subexp jpnull sub = Some ys" "spread_subexps jpnull subs = Some zs" "xs = ys @ zs"
    by (auto split: option.splits)
  have "c \<in> set (snd sub) \<or> c = jpnull" if "c \<in> set ys"
    using x(1) that spread_jps_mem [of _ _ jpnull "snd sub" ys c]
    by (auto simp: spread_subexp_def case_prod_beta split: if_splits dest: in_set_takeD)
  then show ?case using 2(1) [OF x(1,2)] 2(3) x(3) by auto
qed simp

lemma stage_jbb_mem: "sub \<in> set (j__udyStageJBBtoJBB st jps) \<Longrightarrow> c \<in> set (snd sub) \<Longrightarrow> c \<in> set jps"
  by (induction st jps rule: j__udyStageJBBtoJBB.induct) (auto dest: in_set_takeD in_set_dropD)

lemma weight_branch_below:
  assumes "\<And>x. x \<in> set stage \<Longrightarrow> jp_weight (snd x) \<le> w"
  shows "jp_weight (branch_below s dcd stage) \<le> 3 + w"
proof (cases "length stage \<le> cJU_BRANCHLMAXJPS")
  case True
  have "jp_weight (JPBRANCH_L s dcd (j__udyCreateBranchL (map snd stage) (map fst stage))) \<le> 3 + w"
    by (rule weight_le(1)) (use assms in \<open>auto simp: j__udyCreateBranchL_def zip_map_fst_snd\<close>)
  then show ?thesis by (simp add: branch_below_def True)
next
  case False
  define jbb where "jbb = j__udyStageJBBtoJBB (fold stage_expanse (map fst stage) (replicate cJU_NUMSUBEXPB (0, 0))) (map snd stage)"
  have "jp_weight (JPBRANCH_B s dcd jbb) \<le> 2 + w"
    by (rule weight_le(2)) (use assms stage_jbb_mem in \<open>fastforce simp: jbb_def\<close>)
  then show ?thesis unfolding branch_below_def if_not_P [OF False] jbb_def by linarith
qed

lemma weight_splay:
  assumes "\<And>run. jp_weight (build run) \<le> w"
  shows "x \<in> set (splay s build kvs) \<Longrightarrow> jp_weight (snd x) \<le> w"
proof -
  have "x \<in> set (splay_loop s build k run kvs) \<Longrightarrow> jp_weight (snd x) \<le> w" for k run and kvs :: "(word_t \<times> 'a) list"
    by (induction kvs arbitrary: k run) (use assms in \<open>auto split: if_splits\<close>)
  then show "x \<in> set (splay s build kvs) \<Longrightarrow> jp_weight (snd x) \<le> w" by (cases kvs) auto
qed

lemma weight_leaf_cascade:
  assumes "j__udyCascade s dcd keys vals = Some jp" "1 \<le> s" "s \<le> 7"
  shows "jp_weight jp \<le> 4 * s"
proof (cases "s = 1")
  case True
  then show ?thesis using assms(1) by (auto simp: j__udyCascade_def j__udyCascade1_def split: if_splits)
next
  case False
  have "jp_weight (splay_jp s dcd run) \<le> 4 * (s - 1) + 1" for run :: "(word_t \<times> 'a) list"
    by (simp add: splay_jp_def Let_def)
  then have b: "jp_weight (branch_below s dcd (splay s (splay_jp s dcd) (zip keys vals))) \<le> 3 + (4 * (s - 1) + 1)"
    by (intro weight_branch_below weight_splay)
  consider "s = 2" | "j__udyCascade s dcd keys vals = leaf_cascade s dcd keys vals"
  proof -
    have "s = 2 \<or> s = 3 \<or> s = 4 \<or> s = 5 \<or> s = 6 \<or> s = 7" using assms(2,3) False by linarith
    then show thesis
      by (elim disjE; intro that) (simp_all add: j__udyCascade_def j__udyCascade3_def j__udyCascade4_def j__udyCascade5_def
        j__udyCascade6_def j__udyCascade7_def)
  qed
  then show ?thesis
  proof cases
    case 1
    then show ?thesis using assms(1) b
      by (auto simp: j__udyCascade_def j__udyCascade2_def split: if_splits)
  next
    case 2
    then have c: "leaf_cascade s dcd keys vals = Some jp" using assms(1) by simp
    show ?thesis
      using b assms(2) False c by (auto simp: leaf_cascade_def split: if_splits)
  qed
qed

lemma again_simps [simp]:
  "ins_corrupt jp = InsAgain jp' l \<longleftrightarrow> False"
  "ins_jpnull index n v = InsAgain jp' l \<longleftrightarrow> False"
  "JU_CHECK_IF_OUTLIER jp index s v continue = InsAgain jp' l \<longleftrightarrow>
     \<not> JU_DCDNOTMATCHINDEX index (jp_DcdP0 jp) s \<and> continue = InsAgain jp' l"
  "leaf_exists store f vals offset = InsAgain jp' l \<longleftrightarrow> False"
  "ins_jpleaf_b1 index dcd jlb zero store = InsAgain jp' l \<longleftrightarrow> False"
  "ins_jpimmed_01 index s dcd old zero store = InsAgain jp' l \<longleftrightarrow> False"
  "ins_jpimmed index s keys vals zero store = InsAgain jp' l \<longleftrightarrow> False"
  by (auto simp: ins_corrupt_def ins_jpnull_def JU_CHECK_IF_OUTLIER_def leaf_exists_def ins_jpleaf_b1_def
      ins_jpimmed_01_def ins_jpimmed_def Let_def split: if_splits option.splits prod.splits)

lemma weight_branch_l_again:
  assumes "ins_branch_l index pop0 last0 s dcd jbl v = InsAgain jp' l"
  shows "jp_weight jp' < jp_weight (JPBRANCH_L s dcd jbl)"
proof -
  define w where "w = Max (insert 0 ((\<lambda>x. jp_weight (snd x)) ` set jbl))"
  have le: "jp_weight (snd x) \<le> w" if "x \<in> set jbl" for x
    unfolding w_def using that by (intro Max_ge) auto
  have old: "jp_weight (JPBRANCH_L s dcd jbl) = 3 + w" by (simp add: w_def)
  consider "jp' = JPBRANCH_U s dcd (ConvertBranchLtoU s jbl)" | "jp' = JPBRANCH_B s dcd (j__udyCreateBranchB (map snd jbl) (map fst jbl))"
    using assms by (auto simp: ins_branch_l_def Let_def split: if_splits option.splits)
  then show ?thesis
  proof cases
    case 1
    have "jp_weight jp' \<le> 1 + w" unfolding 1
      by (rule weight_le(3)) (use le convert_LtoU_mem in fastforce)
    then show ?thesis unfolding old by simp
  next
    case 2
    have "jp_weight jp' \<le> 2 + w" unfolding 2
    proof (rule weight_le(2))
      fix sub c assume "sub \<in> set (j__udyCreateBranchB (map snd jbl) (map fst jbl))" "c \<in> set (snd sub)"
      from create_branch_b_mem [OF this [unfolded j__udyCreateBranchB_def]]
      have "c \<in> snd ` set jbl" by (auto simp: zip_map_fst_snd)
      then show "jp_weight c \<le> w" using le by auto
    qed
    then show ?thesis unfolding old by simp
  qed
qed

lemma weight_branch_b_again:
  assumes "ins_branch_b index pop0 last0 s dcd jbb v = InsAgain jp' l"
  shows "jp_weight jp' < jp_weight (JPBRANCH_B s dcd jbb)"
proof -
  define w where "w = Max (insert 0 (\<Union>sub\<in>set jbb. jp_weight ` set (snd sub)))"
  have le: "jp_weight c \<le> w" if "sub \<in> set jbb" "c \<in> set (snd sub)" for sub c
    unfolding w_def using that by (intro Max_ge) auto
  have old: "jp_weight (JPBRANCH_B s dcd jbb) = 2 + w" by (simp add: w_def)
  obtain jbu where u: "j__udyCreateBranchU s jbb = Some jbu" "jp' = JPBRANCH_U s dcd jbu"
    using assms by (auto simp: ins_branch_b_def Let_def split: if_splits option.splits)
  have "jp_weight jp' \<le> 1 + w" unfolding u(2)
  proof (rule weight_le(3))
    fix c assume "c \<in> set jbu"
    then show "jp_weight c \<le> w"
      using u(1) spread_subexps_mem [of "JPNULL (s - 1)" jbb jbu c] le
      by (auto simp: j__udyCreateBranchU_def split: if_splits)
  qed
  then show ?thesis unfolding old by simp
qed

lemma weight_ins_again:
  assumes "ins_step zero store index pop0 last0 jp = InsAgain jp' l"
  shows "jp_weight jp' < jp_weight jp"
proof (cases jp)
  case (JPBRANCH_L s dcd jbl)
  have "ins_branch_l index pop0 last0 s dcd jbl (store zero) = InsAgain jp' l"
    using assms unfolding JPBRANCH_L by (simp split: if_splits)
  then show ?thesis unfolding JPBRANCH_L by (rule weight_branch_l_again)
next
  case (JPBRANCH_B s dcd jbb)
  have "ins_branch_b index pop0 last0 s dcd jbb (store zero) = InsAgain jp' l"
    using assms unfolding JPBRANCH_B by (simp split: if_splits)
  then show ?thesis unfolding JPBRANCH_B by (rule weight_branch_b_again)
next
  case (JPLEAF s dcd keys vals)
  have s: "1 \<le> s" "s \<le> 7" and "ins_jpleaf index last0 s dcd keys vals zero store = InsAgain jp' l"
    using assms unfolding JPLEAF by (simp_all split: if_splits)
  then have "j__udyCascade s dcd keys vals = Some jp'"
    by (auto simp: ins_jpleaf_def leaf_grow_def Let_def split: if_splits option.splits)
  from weight_leaf_cascade [OF this s] show ?thesis by (simp add: JPLEAF)
qed (use assms in \<open>auto split: if_splits\<close>)

section \<open>The walk\<close>

fun jp_is_immed :: "'v jp \<Rightarrow> bool" where
  "jp_is_immed (JPIMMED_01 s dcd v) = True"
| "jp_is_immed (JPIMMED s keys vals) = True"
| "jp_is_immed _ = False"

fun jp_set_DcdP0 :: "'v jp \<Rightarrow> dcdpop0 \<Rightarrow> 'v jp" where
  "jp_set_DcdP0 (JPBRANCH_L s _ jbl) dcd = JPBRANCH_L s dcd jbl"
| "jp_set_DcdP0 (JPBRANCH_B s _ jbb) dcd = JPBRANCH_B s dcd jbb"
| "jp_set_DcdP0 (JPBRANCH_U s _ jbu) dcd = JPBRANCH_U s dcd jbu"
| "jp_set_DcdP0 (JPLEAF s _ keys vals) dcd = JPLEAF s dcd keys vals"
| "jp_set_DcdP0 (JPLEAF_B1 _ jlb) dcd = JPLEAF_B1 dcd jlb"
| "jp_set_DcdP0 (JPIMMED_01 s _ v) dcd = JPIMMED_01 s dcd v"
| "jp_set_DcdP0 jp dcd = jp"

text \<open>After a successful insertion below it a pointer that is not an immediate gets its population incremented.\<close>

definition ins_count :: "'v retcode \<Rightarrow> 'v jp \<Rightarrow> 'v jp" where
  "ins_count ret jp =
     (if \<not> jp_is_immed jp \<and> ret = INS_NEW then jp_set_DcdP0 jp (JU_JPSETDCD (JU_JPDCDPOP0 (jp_DcdP0 jp) + 1)) else jp)"

function j__udyInsWalk :: "'v \<Rightarrow> ('v \<Rightarrow> 'v) \<Rightarrow> word_t \<Rightarrow> word_t \<Rightarrow> word_t \<Rightarrow> 'v jp \<Rightarrow> ('v retcode \<times> 'v jp \<times> word_t) option" where
  "j__udyInsWalk zero store index jpm_Pop0 lastupop0 jp =
     (case ins_step zero store index jpm_Pop0 lastupop0 jp of
        InsReturn ret jp' \<Rightarrow> Some (ret, jp', lastupop0)
      | InsAgain jp' lastupop0' \<Rightarrow> j__udyInsWalk zero store index jpm_Pop0 lastupop0' jp'
      | InsDown place \<Rightarrow>
          (case jp_at jp place of
             None \<Rightarrow> None
           | Some c \<Rightarrow>
               map_option (\<lambda>(ret, c', lastupop0'). (ret, jp_put jp place (ins_count ret c'), lastupop0'))
                 (j__udyInsWalk zero store index jpm_Pop0 lastupop0 c))
      | InsUndefined \<Rightarrow> None)"
  by pat_completeness auto
termination
  by (relation "measure (\<lambda>(zero, store, index, pop0, last0, jp). jp_weight jp)")
    (auto intro: weight_ins_again weight_jp_at)

declare j__udyInsWalk.simps [simp del]

section \<open>The entry point\<close>

text \<open>The word the caller passes the address of, with \<open>jpm_LastUPop0\<close> of the JPM; no address at all is an error.\<close>

type_synonym 'v judy_state = "'v judyL \<times> word_t"

datatype ins_errno = INS_NULLPPARRAY | INS_CORRUPT

datatype 'v ins_result = InsOk "'v judy_state" 'v | InsFail ins_errno "'v judy_state option" | InsUndef

definition ins_jpm :: "'v \<Rightarrow> ('v \<Rightarrow> 'v) \<Rightarrow> word_t \<Rightarrow> word_t \<Rightarrow> word_t \<Rightarrow> 'v jp \<Rightarrow> 'v ins_result" where
  "ins_jpm zero store index jpm_Pop0 lastupop0 jp =
     (case j__udyInsWalk zero store index jpm_Pop0 lastupop0 jp of
        None \<Rightarrow> InsUndef
      | Some (ret, jp', lastupop0') \<Rightarrow>
          if ret = INS_ERROR then InsFail INS_CORRUPT (Some (JL_JPM jpm_Pop0 jp', lastupop0'))
          else if map_option fst (jp_branch jp') = Some cJU_ROOTSTATE
          then InsOk (JL_JPM (if ret = INS_NEW then jpm_Pop0 + 1 else jpm_Pop0) jp', lastupop0') (case ret of INS_EXISTS v \<Rightarrow> v | _ \<Rightarrow> zero)
          else InsUndef)"

definition ins_leafw :: "'v \<Rightarrow> ('v \<Rightarrow> 'v) \<Rightarrow> word_t \<Rightarrow> word_t \<Rightarrow> word_t \<Rightarrow> word_t list \<Rightarrow> 'v list \<Rightarrow> 'v ins_result" where
  "ins_leafw zero store index lastupop0 pop0 pjlw pjv =
     (let pop1 = pop0 + 1
      in case j__udySearchLeafW pjlw pop1 index of
           None \<Rightarrow> InsUndef
         | Some offset \<Rightarrow>
             if offset \<ge> 0
             then (case nth_opt pjv (nat offset) of
                     None \<Rightarrow> InsUndef
                   | Some v \<Rightarrow> InsOk (JL_LEAFW pop0 pjlw (pjv[nat offset := store v]), lastupop0) v)
             else if pop1 < cJU_LEAFW_MAXPOP1
             then InsOk (JL_LEAFW pop1 (insert_slot pjlw (unat pop1) (nat (NOT offset)) index)
                    (insert_slot pjv (unat pop1) (nat (NOT offset)) (store zero)), lastupop0) zero
             else ins_jpm zero store index (cJU_LEAFW_MAXPOP1 - 1) 0 (j__udyCascadeL pjlw pjv))"

fun JudyLIns :: "'v \<Rightarrow> ('v \<Rightarrow> 'v) \<Rightarrow> 'v judy_state option \<Rightarrow> word_t \<Rightarrow> 'v ins_result" where
  "JudyLIns zero store None index = InsFail INS_NULLPPARRAY None"
| "JudyLIns zero store (Some (array, lastupop0)) index =
     (case array of
        JL_NULL \<Rightarrow> InsOk (JL_LEAFW 0 [index] [store zero], lastupop0) zero
      | JL_LEAFW pop0 pjlw pjv \<Rightarrow>
          if pop0 < cJU_LEAFW_MAXPOP1 then ins_leafw zero store index lastupop0 pop0 pjlw pjv else InsUndef
      | JL_JPM jpm_Pop0 jp \<Rightarrow>
          if jpm_Pop0 < cJU_LEAFW_MAXPOP1 then InsUndef else ins_jpm zero store index jpm_Pop0 lastupop0 jp)"

end
