(* ===== verification/JudySplit.thy ===== *)
theory JudySplit
  imports JudySplay JudyIns
begin

text \<open>
  The cascades keep the pairs: each run of a splayed leaf gets a well-formed pointer, the branch above them and
  the compressed leaf are well-formed.
\<close>

section \<open>Every run gets its pointer\<close>

lemma maxpop1_bounds: "1 \<le> s \<Longrightarrow> s \<le> 7 \<Longrightarrow> cJL_LEAF_MAXPOP1 s \<le> 51 \<and> 13 \<le> cJL_LEAF_MAXPOP1 s"
proof -
  assume "1 \<le> s" "s \<le> 7"
  then consider "s = 1" | "s = 2" | "s = 3" | "s = 4" | "s = 5" | "s = 6" | "s = 7" by linarith
  then show ?thesis by cases (simp_all add: cJL_LEAF_MAXPOP1_def)
qed

lemma maxpop1_lower: "3 \<le> s \<Longrightarrow> s \<le> 7 \<Longrightarrow> cJL_LEAF_MAXPOP1 s \<le> cJL_LEAF_MAXPOP1 (s - 1)"
proof -
  assume "3 \<le> s" "s \<le> 7"
  then consider "s = 3" | "s = 4" | "s = 5" | "s = 6" | "s = 7" by linarith
  then show ?thesis by cases (simp_all add: cJL_LEAF_MAXPOP1_def)
qed

text \<open>A leaf's base \<open>B\<close> and its Dcd word.\<close>

lemma base_mod:
  assumes "s \<le> 7"
  shows "jp_base P s dcd mod 256 ^ 7 = unat dcd div 256 ^ s * 256 ^ s" "jp_base P s dcd div 256 ^ 7 = P div 256 ^ 7"
proof -
  have "unat dcd div 256 ^ s * 256 ^ s \<le> unat dcd" by simp
  then have "unat dcd div 256 ^ s * 256 ^ s < 256 ^ 7" using unat_dcd_less [of dcd] by (rule le_less_trans)
  then show "jp_base P s dcd mod 256 ^ 7 = unat dcd div 256 ^ s * 256 ^ s" "jp_base P s dcd div 256 ^ 7 = P div 256 ^ 7"
    unfolding jp_base_def by simp_all
qed

lemma base_plus:
  assumes "s \<le> 7" "r < 256 ^ s"
  shows "(jp_base P s dcd + r) mod 256 ^ 7 = unat dcd div 256 ^ s * 256 ^ s + r"
    and "(jp_base P s dcd + r) div 256 ^ 7 = P div 256 ^ 7"
proof -
  have "unat dcd = unat dcd div 256 ^ s * 256 ^ s + unat dcd mod 256 ^ s" by (rule div_mult_mod_eq [symmetric])
  from dcd_bound [OF this assms(1,2)]
  have "unat dcd div 256 ^ s * 256 ^ s + r < 256 ^ 7" .
  then show "(jp_base P s dcd + r) mod 256 ^ 7 = unat dcd div 256 ^ s * 256 ^ s + r"
    "(jp_base P s dcd + r) div 256 ^ 7 = P div 256 ^ 7"
    unfolding jp_base_def by (simp_all add: add.assoc)
qed

lemma splay_jp_wf:
  fixes run :: "(word_t \<times> 'v) list" and P :: nat
  assumes "2 \<le> s" "s \<le> 7" "unat dcd mod 256 ^ s < 256" "run_ok (s - 1) d run" "d < 256" "length run \<le> cJL_LEAF_MAXPOP1 s"
  defines "B \<equiv> jp_base P s dcd"
  assumes "256 ^ s dvd B"
  shows "jp_wf (s - 1) (B + d * 256 ^ (s - 1)) (splay_jp s dcd run)
    \<and> jp_entries (B + d * 256 ^ (s - 1)) (splay_jp s dcd run) = run_pairs B run \<and> \<not> jp_is_null (splay_jp s dcd run)"
proof -
  let ?t = "s - 1" and ?k = "fst (hd run)" and ?n = "length run" and ?H = "unat dcd div 256 ^ s * 256 ^ s"
  have t: "1 \<le> ?t" "?t \<le> 7" using assms(1,2) by auto
  have s: "(256::nat) ^ s = 256 * 256 ^ ?t" using assms(1) by (simp add: power_eq_if)
  have dvB: "256 ^ ?t dvd B" using assms(8) unfolding s by (rule dvd_mult_right)
  have ne: "run \<noteq> []" using assms(4) by (simp add: run_ok_def)
  have k: "unat ?k = d * 256 ^ ?t + unat ?k mod 256 ^ ?t" "unat ?k div 256 ^ ?t = d"
    using run_key [OF assms(4), of "hd run"] assms(4) ne by (simp_all add: run_ok_def)
  have ks: "unat ?k < 256 ^ s" using digit_fits [OF assms(5), of "unat ?k mod 256 ^ ?t" "256 ^ ?t"] k(1) s by simp
  have n: "?n - 1 < 256" using assms(6) maxpop1_bounds [of s] assms(1,2) by linarith
  have dW: "d * 256 ^ ?t < 256 ^ s" using digit_fits [OF assms(5), of 0 "256 ^ ?t"] s by simp
  note bd = base_plus [OF assms(2) dW, where P = P and dcd = dcd, folded B_def] and bk = base_plus [OF assms(2) ks, where P = P and dcd = dcd, folded B_def]
  have D: "unat (splay_dcd s dcd ?k ?n) = (B + d * 256 ^ ?t) mod 256 ^ 7 + (?n - 1)"
    using unat_splay_dcd [OF assms(1-3) ks n] bd(1) k(2) by simp
  note r = run_keys(1,2) [OF assms(4) t] run_keys(3) [OF assms(4) t, of B]
  consider (1) "?n = 1" | (imm) "?n \<noteq> 1" "s \<le> 4 \<and> ?n \<le> cJL_IMMED_MAXPOP1 ?t"
    | (b1) "?n \<noteq> 1" "\<not> (s \<le> 4 \<and> ?n \<le> cJL_IMMED_MAXPOP1 ?t)" "s = 2 \<and> cJL_LEAF_MAXPOP1 1 < ?n"
    | (leaf) "?n \<noteq> 1" "\<not> (s \<le> 4 \<and> ?n \<le> cJL_IMMED_MAXPOP1 ?t)" "\<not> (s = 2 \<and> cJL_LEAF_MAXPOP1 1 < ?n)" by blast
  then show ?thesis
  proof cases
    case 1
    define D1 where "D1 = JU_JPSETDCD ((JU_JPDCDPOP0 dcd AND cJU_DCDMASK ?t) OR ?k)"
    have jp: "splay_jp s dcd run = JPIMMED_01 ?t D1 (snd (hd run))" unfolding splay_jp_def Let_def D1_def using 1 by simp
    have u: "unat D1 = ?H + unat ?k" unfolding D1_def by (rule unat_splay_01 [OF assms(1-3) ks])
    have "unat D1 = (B + d * 256 ^ ?t) mod 256 ^ 7 + unat ?k mod 256 ^ ?t"
      unfolding bd(1) u by (subst k(1)) simp
    then have ok: "dcd_ok ?t (B + d * 256 ^ ?t) D1"
      by (rule base_of(2)) (use dvB t in simp_all)
    have "jp_base (B + unat ?k) 0 D1 = B + unat ?k"
      by (rule base_of(1) [where r = 0]) (use bk u in simp_all)
    then have "jp_base (B + d * 256 ^ ?t) 0 D1 = B + unat ?k" using bd(2) bk(2) by (simp add: jp_base_def)
    moreover obtain k v where run: "run = [(k, v)]" using 1 by (cases run) auto
    ultimately show ?thesis unfolding jp using ok t by (simp add: run run_pairs_def)
  next
    case imm
    have "2 \<le> ?n" using imm(1) ne by (cases run) (auto simp: Suc_le_eq)
    moreover have "?t \<le> 3" using imm(2) by linarith
    ultimately show ?thesis
      using imm r t assms(1) by (simp add: splay_jp_def Let_def)
  next
    case b1
    then have jp: "splay_jp s dcd run = JPLEAF_B1 (splay_dcd s dcd ?k ?n) (j__udyJLL2toJLB1 (map fst run) (map snd run))"
      unfolding splay_jp_def Let_def by (simp only: if_False if_True simp_thms)
    have run: "run_ok 1 d run" "256 dvd B" using assms(4) dvB b1(3) by auto
    have D': "unat (splay_dcd s dcd ?k ?n) = (B + d * 256) mod 256 ^ 7 + (?n - 1)" using D b1(3) by simp
    have "?n - 1 < 256 ^ 1" "256 ^ 1 dvd B + d * 256" using n run(2) by auto
    from base_of(2) [of _ "B + d * 256" _ 1, OF D' this]
    have ok: "dcd_ok 1 (B + d * 256) (splay_dcd s dcd ?k ?n)" by simp
    note w = wf_leafb1_of_run [OF run D' _ _ ok refl]
    show ?thesis unfolding jp using w b1(3) by simp
  next
    case leaf
    then have jp: "splay_jp s dcd run = JPLEAF ?t (splay_dcd s dcd ?k ?n) (map (\<lambda>(k, v). JU_LEASTBYTES k ?t) run) (map snd run)"
      unfolding splay_jp_def Let_def by (simp only: if_False simp_thms)
    have "?n \<le> cJL_LEAF_MAXPOP1 ?t"
    proof (cases "s = 2")
      case True
      then show ?thesis using leaf(3) by simp
    next
      case False
      then show ?thesis using maxpop1_lower [of s] assms(1,2,6) by linarith
    qed
    from wf_leaf_of_run [OF assms(4) t dvB this n D] show ?thesis unfolding jp by simp
  qed
qed

section \<open>The branch above the runs\<close>

lemma branch_below_children:
  assumes "sorted_wrt (<) (map fst (stage :: (uint8 \<times> 'v jp) list))" "stage \<noteq> []"
  shows "jp_branch (branch_below s dcd stage) = Some (s, dcd)" "jp_shape (branch_below s dcd stage)"
    and "jp_children (branch_below s dcd stage) = digit_pairs stage" "\<not> jp_is_null (branch_below s dcd stage)"
proof -
  let ?jbb = "j__udyStageJBBtoJBB (fold stage_expanse (map fst stage) (replicate cJU_NUMSUBEXPB (0, 0))) (map snd stage)"
  have bb: "bm_shape 8 ?jbb" "bm_list ?jbb = digit_pairs stage"
    using blocks_built [OF stage_jbb_built [OF assms(1)]] digit_pairs_sorted [OF assms(1)] by simp_all
  have z: "j__udyCreateBranchL (map snd stage) (map fst stage) = stage"
    by (simp add: j__udyCreateBranchL_def zip_map_fst_snd)
  show "jp_branch (branch_below s dcd stage) = Some (s, dcd)" "\<not> jp_is_null (branch_below s dcd stage)"
    by (simp_all add: branch_below_def)
  show "jp_shape (branch_below s dcd stage)"
    using assms bb(1) by (auto simp: branch_below_def z cJU_BRANCHLMAXJPS_def bm_shape_def cJU_NUMSUBEXPB_def Suc_le_eq)
  show "jp_children (branch_below s dcd stage) = digit_pairs stage"
    unfolding branch_below_def z if_distrib [of jp_children] jp_children_lists bb(2) by simp
qed

lemma branch_below_wf:
  assumes "2 \<le> s" "s \<le> l" "l \<le> 8" "l = 8 \<longrightarrow> s = 8" "dcd_ok l P dcd" "rs \<noteq> []"
    and "sorted_wrt (<) (map (run_digit s) rs)" "s \<le> 7 \<longrightarrow> length (concat rs) = unat (JU_JPBRANCH_POP0 dcd s) + 1"
  defines "B \<equiv> jp_base P s dcd"
  assumes kids: "\<And>r. r \<in> set rs \<Longrightarrow> jp_wf (s - 1) (B + unat (run_digit s r) * 256 ^ (s - 1)) (build r)
      \<and> jp_entries (B + unat (run_digit s r) * 256 ^ (s - 1)) (build r) = run_pairs B r \<and> \<not> jp_is_null (build r)"
  defines "jp \<equiv> branch_below s dcd (map (\<lambda>r. (run_digit s r, build r)) rs)"
  shows "jp_wf l P jp" "jp_entries P jp = run_pairs B (concat rs)" "\<not> jp_is_null jp"
proof -
  let ?stage = "map (\<lambda>r. (run_digit s r, build r)) rs"
  have "sorted_wrt (<) (map fst ?stage)" "?stage \<noteq> []" using assms(6,7) by (simp_all add: comp_def)
  note c = branch_below_children [OF this, of s dcd, folded jp_def]
  have kid: "(d, c) \<in> set (jp_children jp) \<Longrightarrow> \<exists>r\<in>set rs. d = unat (run_digit s r) \<and> c = build r" for d c
    unfolding c(3) by (auto simp: digit_pairs_def)
  show e: "jp_entries P jp = run_pairs B (concat rs)"
  proof -
    have "jp_entries P jp = concat (map (\<lambda>r. jp_entries (B + unat (run_digit s r) * 256 ^ (s - 1)) (build r)) rs)"
      unfolding jp_entries_branch [OF c(1)] c(3) B_def by (simp add: digit_pairs_def comp_def)
    also have "\<dots> = concat (map (run_pairs B) rs)"
      by (rule arg_cong [of _ _ concat], rule map_cong [OF refl]) (use kids in blast)
    finally show ?thesis unfolding run_pairs_concat .
  qed
  have "live jp = jp_children jp" "nulls_ok s jp"
    by (rule live_all; use kid kids in fastforce)+
  moreover have "jp_children jp \<noteq> []" unfolding c(3) using assms(6) by (simp add: digit_pairs_def)
  moreover have "s \<le> 7 \<longrightarrow> length (jp_entries P jp) = unat (JU_JPBRANCH_POP0 dcd s) + 1"
    unfolding e using assms(8) by (simp add: run_pairs_def)
  moreover have "\<forall>x\<in>set (jp_children jp). jp_wf (s - 1) (jp_base P s dcd + fst x * 256 ^ (s - 1)) (snd x)"
    using kid kids unfolding B_def by fastforce
  ultimately show "jp_wf l P jp"
    unfolding jp_wf_live [OF c(1)] using assms(1-5) c(2) by (auto simp only:)
  show "\<not> jp_is_null jp" by (rule c(4))
qed

section \<open>The cascades\<close>

lemma leaf_key_less: "leaf_keys_ok s keys \<Longrightarrow> 1 \<le> s \<Longrightarrow> s \<le> 8 \<Longrightarrow> k \<in> set keys \<Longrightarrow> unat k < 256 ^ s"
  unfolding leaf_keys_ok_def using unat_leastbytes [of s k] by (metis mod_less_divisor zero_less_numeral zero_less_power)

lemma leaf_kvs:
  assumes "leaf_keys_ok s keys" "1 \<le> s" "s \<le> 8" "length vals = length keys"
  shows "sorted_wrt (<) (map fst (zip keys vals))" "\<forall>x\<in>set (zip keys vals). unat (fst x) < 256 ^ s"
proof -
  show "sorted_wrt (<) (map fst (zip keys vals))" using assms(1,4) by (simp add: leaf_keys_ok_def)
  show "\<forall>x\<in>set (zip keys vals). unat (fst x) < 256 ^ s"
    using leaf_key_less [OF assms(1-3)] by (auto dest: set_zip_leftD)
qed

lemma digit_mono:
  assumes "a \<le> b" "unat b < 256 ^ s" "1 \<le> s"
  shows "unat (JU_DIGITATSTATE a s) \<le> unat (JU_DIGITATSTATE b s)"
proof -
  have "unat a \<le> unat b" using assms(1) by (simp add: word_le_nat_alt)
  then show ?thesis using digit_quotient [of a s] digit_quotient [of b s] assms(2,3) by (simp add: div_le_mono)
qed

lemma one_run:
  assumes "leaf_in_one_expanse s keys" "leaf_keys_ok s keys" "1 \<le> s" "s \<le> 8" "length vals = length keys" "keys \<noteq> []"
  shows "run_ok (s - 1) (unat (JU_DIGITATSTATE (hd keys) s)) (zip keys vals)"
proof -
  have srt: "sorted_wrt (<) keys" using assms(2) by (simp add: leaf_keys_ok_def)
  have less: "unat k < 256 ^ s" if "k \<in> set keys" for k using leaf_key_less [OF assms(2-4) that] .
  have ends: "hd keys \<le> k" "k \<le> last keys" if "k \<in> set keys" for k
  proof -
    show "hd keys \<le> k" using srt that by (cases keys) (auto simp: less_imp_le)
    show "k \<le> last keys" using srt that by (induction keys) (auto simp: less_imp_le)
  qed
  have "JU_DIGITATSTATE (hd keys) s = JU_DIGITATSTATE (last keys) s"
    using assms(1) unfolding leaf_in_one_expanse_def digit_xor .
  moreover have "unat (JU_DIGITATSTATE (hd keys) s) \<le> unat (JU_DIGITATSTATE k s)"
    "unat (JU_DIGITATSTATE k s) \<le> unat (JU_DIGITATSTATE (last keys) s)" if "k \<in> set keys" for k
    using that ends less assms(3,6) by (auto intro!: digit_mono)
  ultimately have d: "unat k div 256 ^ (s - 1) = unat (JU_DIGITATSTATE (hd keys) s)" if "k \<in> set keys" for k
    using that digit_quotient [OF less [OF that] assms(3)] by (metis le_antisym)
  show ?thesis
    unfolding run_ok_def using d leaf_kvs(1) [OF assms(2-5)] assms(5,6) by (auto dest: set_zip_leftD)
qed

text \<open>A run of a leaf is no longer than the leaf.\<close>

lemma run_length: "r \<in> set rs \<Longrightarrow> length r \<le> length (concat rs)"
  by (simp add: length_concat member_le_sum_list)

lemma splayed_leaf:
  assumes "jp_wf l P (JPLEAF s dcd keys vals)" "256 ^ l dvd P" "2 \<le> s"
  defines "jp \<equiv> branch_below s dcd (splay s (splay_jp s dcd) (zip keys vals))"
  shows "jp_wf l P jp" "jp_entries P jp = jp_entries P (JPLEAF s dcd keys vals)" "\<not> jp_is_null jp"
proof -
  let ?kvs = "zip keys vals" and ?B = "jp_base P s dcd"
  have w: "s \<le> l" "l \<le> 7" "dcd_ok l P dcd" "leaf_keys_ok s keys" "length keys = unat (JU_JPLEAF_POP0 dcd) + 1"
    "length vals = length keys" "length keys \<le> cJL_LEAF_MAXPOP1 s" "unat dcd mod 256 ^ s < 256"
    using assms(1) by simp_all
  have s: "1 \<le> s" "s \<le> 7" "s \<le> 8" using assms(3) w(1,2) by auto
  have ne: "?kvs \<noteq> []" using w(5,6) by (cases keys; cases vals) auto
  from splay_runs [OF leaf_kvs(1) [OF w(4) s(1,3) w(6)] ne s(1) leaf_kvs(2) [OF w(4) s(1,3) w(6)], of "splay_jp s dcd"]
  obtain rs where rs: "splay s (splay_jp s dcd) ?kvs = map (\<lambda>r. (run_digit s r, splay_jp s dcd r)) rs" "concat rs = ?kvs"
    "rs \<noteq> []" "sorted_wrt (<) (map (run_digit s) rs)" "\<forall>r\<in>set rs. run_ok (s - 1) (unat (run_digit s r)) r" by blast
  have B: "256 ^ s dvd ?B" using base_in_expanse [OF assms(2) w(3,1)] w(2) by blast
  have kids: "jp_wf (s - 1) (?B + unat (run_digit s r) * 256 ^ (s - 1)) (splay_jp s dcd r)
      \<and> jp_entries (?B + unat (run_digit s r) * 256 ^ (s - 1)) (splay_jp s dcd r) = run_pairs ?B r
      \<and> \<not> jp_is_null (splay_jp s dcd r)" if r: "r \<in> set rs" for r
  proof (rule splay_jp_wf [OF assms(3) s(2) w(8) _ unat_byte_less _ B])
    show "run_ok (s - 1) (unat (run_digit s r)) r" using rs(5) r by blast
    show "length r \<le> cJL_LEAF_MAXPOP1 s" using run_length [OF r] w(6,7) unfolding rs(2) by simp
  qed
  have p: "s \<le> 7 \<longrightarrow> length (concat rs) = unat (JU_JPBRANCH_POP0 dcd s) + 1"
  proof
    have "unat (JU_JPLEAF_POP0 dcd) = unat dcd mod 256 ^ s" using dcd_split [OF w(8) s(1)] div_mult_mod_eq [of "unat dcd" "256 ^ s"] by linarith
    then show "length (concat rs) = unat (JU_JPBRANCH_POP0 dcd s) + 1"
      unfolding rs(2) using w(5,6) s(2) assms(3) by (simp add: unat_branch_pop0)
  qed
  have l8: "l \<le> 8" "l = 8 \<longrightarrow> s = 8" using w(2) by auto
  note b = branch_below_wf [OF assms(3) w(1) l8 w(3) rs(3,4) p kids, folded rs(1)]
  show "jp_wf l P jp" "\<not> jp_is_null jp" unfolding jp_def by (rule b; assumption)+
  have "jp_entries P jp = run_pairs ?B (concat rs)" unfolding jp_def by (rule b; assumption)
  then show "jp_entries P jp = jp_entries P (JPLEAF s dcd keys vals)"
    unfolding rs(2) using w(6) by (simp add: run_pairs_zip)
qed

text \<open>The compressed leaf: all indexes agree in their first digit.\<close>

lemma compressed_leaf:
  fixes vals :: "'v list"
  assumes "jp_wf l P (JPLEAF s dcd keys vals)" "256 ^ l dvd P" "2 \<le> s" "leaf_in_one_expanse s keys"
  defines "D \<equiv> JU_JPSETDCD ((hd keys AND cJU_DCDMASK (s - 1)) OR JU_JPDCDPOP0 dcd)"
  defines "jp \<equiv> (if s = 2 then JPLEAF_B1 D (j__udyJLL2toJLB1 keys vals) else JPLEAF (s - 1) D (map (\<lambda>k. JU_LEASTBYTES k (s - 1)) keys) vals)"
  shows "jp_wf l P jp \<and> jp_entries P jp = jp_entries P (JPLEAF s dcd keys vals)"
proof -
  let ?kvs = "zip keys vals" and ?B = "jp_base P s dcd" and ?t = "s - 1" and ?d = "unat (JU_DIGITATSTATE (hd keys) s)"
  let ?H = "unat dcd div 256 ^ s * 256 ^ s"
  have w: "s \<le> l" "l \<le> 7" "dcd_ok l P dcd" "leaf_keys_ok s keys" "length keys = unat (JU_JPLEAF_POP0 dcd) + 1"
    "length vals = length keys" "length keys \<le> cJL_LEAF_MAXPOP1 s" "unat dcd mod 256 ^ s < 256"
    using assms(1) by simp_all
  have s: "1 \<le> s" "s \<le> 7" "s \<le> 8" "1 \<le> ?t" "?t \<le> 7" using assms(3) w(1,2) by auto
  have ne: "keys \<noteq> []" using w(5) by (cases keys) auto
  note run = one_run [OF assms(4) w(4) s(1,3) w(6) ne]
  have W: "(256::nat) ^ s = 256 * 256 ^ ?t" using assms(3) by (simp add: power_eq_if)
  have B: "256 ^ s dvd ?B" using base_in_expanse [OF assms(2) w(3,1)] w(2) by blast
  then have Bt: "256 ^ ?t dvd ?B" unfolding W by (rule dvd_mult_right)
  have k: "unat (hd keys) < 256 ^ s" using leaf_key_less [OF w(4) s(1,3)] ne by simp
  have len: "length ?kvs = length keys" "map fst ?kvs = keys" "map snd ?kvs = vals" using w(6) by simp_all
  have pop: "unat (JU_JPLEAF_POP0 dcd) = length ?kvs - 1" using w(5) len(1) by simp
  have dW: "?d * 256 ^ ?t < 256 ^ s" using digit_fits [OF unat_byte_less, of 0 "256 ^ ?t"] W by simp
  have uD: "unat D = ?H + ?d * 256 ^ ?t + (length ?kvs - 1)"
    unfolding D_def unat_compressed [OF assms(3) s(2) w(8) k] pop digit_quotient [OF k s(1)] ..
  then have D: "unat D = (?B + ?d * 256 ^ ?t) mod 256 ^ 7 + (length ?kvs - 1)"
    unfolding base_plus(1) [OF s(2) dW, of P dcd] .
  have n: "length ?kvs - 1 < 256" using pop unat_byte_less [of "JU_JPLEAF_POP0 dcd"] by simp
  have ok: "dcd_ok l P D"
  proof -
    have "length ?kvs - 1 < 256 ^ ?t" using n power_increasing [of 1 ?t "256::nat"] s(4) by simp
    then have x: "?d * 256 ^ ?t + (length ?kvs - 1) < 256 ^ s" using digit_fits [OF unat_byte_less] W by metis
    have "unat D div 256 ^ s = unat dcd div 256 ^ s" unfolding uD using x by (simp add: add.assoc)
    moreover have "y div 256 ^ l = y div 256 ^ s div 256 ^ (l - s)" for y :: nat
      using w(1) by (simp flip: div_mult2_eq power_add)
    ultimately show ?thesis using w(3) unfolding dcd_ok_def by metis
  qed
  have e: "jp_entries P (JPLEAF s dcd keys vals) = run_pairs ?B ?kvs" using w(6) by (simp add: run_pairs_zip)
  show ?thesis
  proof (cases "s = 2")
    case True
    have p: "P div 256 ^ 7 = (?B + ?d * 256) div 256 ^ 7"
      using base_plus(2) [OF s(2) dW, of P dcd] unfolding True by simp
    have r: "run_ok 1 ?d ?kvs" "256 dvd ?B" "unat D = (?B + ?d * 256) mod 256 ^ 7 + (length ?kvs - 1)"
      using run Bt D unfolding True by simp_all
    have l: "1 \<le> l" using w(1) s(1) by simp
    show ?thesis
      unfolding e using wf_leafb1_of_run [OF r l w(2) ok p] unfolding jp_def len True by simp
  next
    case False
    then have m: "length ?kvs \<le> cJL_LEAF_MAXPOP1 ?t" using maxpop1_lower [of s] assms(3) s(2) w(7) len(1) by linarith
    have keys: "map (\<lambda>(k, v). JU_LEASTBYTES k ?t) ?kvs = map (\<lambda>k. JU_LEASTBYTES k ?t) keys"
    proof -
      have "map (\<lambda>(k, v). JU_LEASTBYTES k ?t) ?kvs = map (\<lambda>k. JU_LEASTBYTES k ?t) (map fst ?kvs)" by (simp add: case_prod_beta)
      then show ?thesis unfolding len(2) .
    qed
    have jp: "jp = JPLEAF ?t D (map (\<lambda>k. JU_LEASTBYTES k ?t) keys) vals" using False by (simp add: jp_def)
    note r = wf_leaf_of_run [OF run s(4,5) Bt m n D, unfolded keys len(3), folded jp]
    have "?t \<le> l" using w(1) by simp
    then have "jp_wf l P jp" using r(1) ok w(2) unfolding jp jp_wf_leaf by blast
    moreover have "jp_entries P jp = jp_entries (?B + ?d * 256 ^ ?t) jp"
      using base_plus(2) [OF s(2) dW, of P dcd] by (simp add: jp jp_base_def)
    ultimately show ?thesis using r(2) e by simp
  qed
qed

lemma leafb1_of_leaf1:
  fixes vals :: "'v list"
  assumes "jp_wf l P (JPLEAF 1 dcd keys vals)" "256 ^ l dvd P"
  defines "jp \<equiv> JPLEAF_B1 (JU_JPSETDCD (JU_JPDCDPOP0 dcd OR (hd keys AND cJU_DCDMASK 1))) (j__udyJLL2toJLB1 keys vals)"
  shows "jp_wf l P jp \<and> jp_entries P jp = jp_entries P (JPLEAF 1 dcd keys vals)"
proof -
  let ?kvs = "zip keys vals" and ?B = "jp_base P 1 dcd" and ?D = "JU_JPSETDCD (JU_JPDCDPOP0 dcd OR (hd keys AND cJU_DCDMASK 1))"
  have w: "1 \<le> l" "l \<le> 7" "dcd_ok l P dcd" "leaf_keys_ok 1 keys" "length keys = unat (JU_JPLEAF_POP0 dcd) + 1"
    "length vals = length keys"
    using assms(1) by simp_all
  have ne: "keys \<noteq> []" using w(5) by (cases keys) auto
  have less: "unat k < 256" if "k \<in> set keys" for k using leaf_key_less [OF w(4) _ _ that] by simp
  have "unat (hd keys AND cJU_DCDMASK 1) = 0"
    using unat_dcd_key [of 1 "hd keys"] less [of "hd keys"] ne by simp
  then have "hd keys AND cJU_DCDMASK 1 = 0" by (simp only: unat_eq_0)
  then have "unat ?D = unat dcd" unfolding unat_setdcd0 using unat_dcd_less [of dcd] by (simp add: unat_dcdpop0)
  then have D: "?D = dcd" by (rule word_unat_eq_iff [THEN iffD2])
  have len: "length ?kvs = length keys" "map fst ?kvs = keys" "map snd ?kvs = vals" using w(6) by simp_all
  have B: "256 dvd ?B" using base_in_expanse [OF assms(2) w(3,1)] w(2) by simp
  have run: "run_ok 1 0 ?kvs"
    unfolding run_ok_def using leaf_kvs(1) [OF w(4) _ _ w(6)] less ne w(6) by (auto dest: set_zip_leftD)
  have D': "unat dcd = (?B + 0 * 256) mod 256 ^ 7 + (length ?kvs - 1)"
    using base_mod(1) [of 1 P dcd] len(1) w(5) div_mult_mod_eq [of "unat dcd" 256] by (simp add: unat_leaf_pop0)
  have "P div 256 ^ 7 = (?B + 0 * 256) div 256 ^ 7" using base_mod(2) [of 1 P dcd] by simp
  note r = wf_leafb1_of_run [OF run B D' w(1-3) this, unfolded len]
  show ?thesis
    unfolding jp_def D using r w(6) by (simp add: run_pairs_zip)
qed

lemma cascade_ready_full:
  assumes "jp_wf l P (JPLEAF s dcd keys vals)" "length keys = cJL_LEAF_MAXPOP1 s"
  shows "cascade_ready s dcd"
proof -
  have s: "1 \<le> s" "s \<le> 7" and w: "length keys = unat (JU_JPLEAF_POP0 dcd) + 1" "unat dcd mod 256 ^ s < 256"
    using assms(1) by auto
  have "unat (JU_JPBRANCH_POP0 dcd s) = cJL_LEAF_MAXPOP1 s - 1"
    using dcd_split [OF w(2) s(1)] div_mult_mod_eq [of "unat dcd" "256 ^ s"] w(1) assms(2) s
    by (simp add: unat_branch_pop0)
  moreover have "unat (word_of_nat (cJL_LEAF_MAXPOP1 s - 1) :: word_t) = cJL_LEAF_MAXPOP1 s - 1"
    using maxpop1_bounds [OF s] by (intro unat_digit) linarith
  ultimately show ?thesis unfolding cascade_ready_def JU_JPBRANCH_POP0_def word_unat_eq_iff by simp
qed

lemma leaf_cascade_wf:
  assumes "jp_wf l P (JPLEAF s dcd keys vals)" "256 ^ l dvd P" "length keys = cJL_LEAF_MAXPOP1 s"
  shows "\<exists>jp. j__udyCascade s dcd keys vals = Some jp \<and> jp_wf l P jp
    \<and> jp_entries P jp = jp_entries P (JPLEAF s dcd keys vals) \<and> \<not> jp_is_null jp"
proof -
  note ready = cascade_ready_full [OF assms(1,3)]
  have s: "1 \<le> s" "s \<le> 7" using assms(1) by auto
  consider "s = 1" | "s = 2" | "3 \<le> s" using s by linarith
  then show ?thesis
  proof cases
    case 1
    then show ?thesis
      using ready leafb1_of_leaf1 [of l P dcd keys vals] assms(1,2)
      by (simp add: j__udyCascade_def j__udyCascade1_def j__udyJLL2toJLB1_def)
  next
    case 2
    then show ?thesis
      using ready compressed_leaf [OF assms(1,2)] splayed_leaf [OF assms(1,2)]
      by (simp add: j__udyCascade_def j__udyCascade2_def)
  next
    case 3
    then have s2: "2 \<le> s" by simp
    have "s = 3 \<or> s = 4 \<or> s = 5 \<or> s = 6 \<or> s = 7" using s(2) 3 by linarith
    then have c: "j__udyCascade s dcd keys vals = leaf_cascade s dcd keys vals"
      by (elim disjE) (simp_all add: j__udyCascade_def j__udyCascade3_def j__udyCascade4_def j__udyCascade5_def
        j__udyCascade6_def j__udyCascade7_def)
    show ?thesis
    proof (cases "leaf_in_one_expanse s keys")
      case True
      have "s \<noteq> 2" using 3 by simp
      from compressed_leaf [OF assms(1,2) s2 True, unfolded if_not_P [OF this]] show ?thesis
        unfolding c leaf_cascade_def using ready True by (simp only: if_True if_False simp_thms jp_is_null.simps option.inject ex_simps)
    next
      case False
      from splayed_leaf [OF assms(1,2) s2] show ?thesis
        unfolding c leaf_cascade_def using ready False by (simp only: if_True if_False simp_thms option.inject ex_simps)
    qed
  qed
qed

section \<open>The cascade of the root leaf\<close>

lemma splay_jp_root_wf:
  assumes "run_ok 7 d run" "length run \<le> 31"
  shows "jp_wf 7 (0 + d * 256 ^ 7) (splay_jp_root run) \<and> jp_entries (0 + d * 256 ^ 7) (splay_jp_root run) = run_pairs 0 run
    \<and> \<not> jp_is_null (splay_jp_root run)"
proof (cases "length run = 1")
  case True
  then obtain k v where run: "run = [(k, v)]" by (cases run) auto
  let ?D = "JU_JPSETDCD k"
  have k: "unat k = d * 256 ^ 7 + unat k mod 256 ^ 7" using run_key [OF assms(1), of "(k, v)"] by (simp add: run)
  have u: "unat ?D = unat k mod 256 ^ 7" by (rule unat_setdcd0)
  have "jp_base (unat k) 0 ?D = unat k" by (rule base_of(1) [where r = 0]) (use u in simp_all)
  moreover have "unat k div 256 ^ 7 = d" using assms(1) by (simp add: run_ok_def run)
  ultimately have b: "jp_base (0 + d * 256 ^ 7) 0 ?D = unat k" by (simp add: jp_base_def)
  have "dcd_ok 7 (0 + d * 256 ^ 7) ?D"
    using unat_dcd_less [of ?D] by (simp add: dcd_ok_def)
  then show ?thesis using b by (simp add: splay_jp_root_def run run_pairs_def)
next
  case False
  have D: "unat (JU_JPSETDCD (word_of_nat (length run - 1))) = (0 + d * 256 ^ 7) mod 256 ^ 7 + (length run - 1)"
  proof -
    have "unat (word_of_nat (length run - 1) :: word_t) = length run - 1"
      using assms(2) by (intro unat_digit) simp
    then show ?thesis unfolding unat_setdcd0 using assms(2) by simp
  qed
  have m: "length run \<le> cJL_LEAF_MAXPOP1 7" "length run - 1 < 256" using assms(2) by (simp_all add: cJL_LEAF_MAXPOP1_def)
  have "256 ^ 7 dvd (0::nat)" by simp
  note r = wf_leaf_of_run [OF assms(1) _ _ this m D, folded One_nat_def]
  have "splay_jp_root run = JPLEAF 7 (JU_JPSETDCD (word_of_nat (length run - 1))) (map (\<lambda>(k, v). JU_LEASTBYTES k 7) run) (map snd run)"
    unfolding splay_jp_root_def Let_def by (rule if_not_P [OF False])
  with r show ?thesis by (simp only: jp_is_null.simps) simp
qed

lemma cascadeL_wf:
  assumes "sorted_wrt (<) keys" "length keys = 31" "length vals = length keys"
  shows "jp_wf 8 0 (j__udyCascadeL keys vals) \<and> jp_entries 0 (j__udyCascadeL keys vals) = zip (map unat keys) vals
    \<and> (\<exists>dcd. jp_branch (j__udyCascadeL keys vals) = Some (8, dcd))"
proof -
  let ?kvs = "zip keys vals"
  have least: "JU_LEASTBYTES k 8 = k" for k by (rule word_unat_eq_iff [THEN iffD2]) (use unat_leastbytes [of 8 k] unsigned_less [of k, where 'a = nat] in simp)
  then have ok: "leaf_keys_ok 8 keys" using assms(1) by (simp add: leaf_keys_ok_def)
  have ne: "?kvs \<noteq> []" "keys \<noteq> []" using assms(2,3) by (cases keys; cases vals; simp)+
  have len: "length ?kvs = 31" "map fst ?kvs = keys" "map snd ?kvs = vals" using assms(2,3) by simp_all
  have base: "jp_base 0 8 0 = 0" by (simp add: jp_base_def)
  have "\<exists>rs. j__udyCascadeL keys vals = branch_below 8 0 (map (\<lambda>r. (run_digit 8 r, splay_jp_root r)) rs) \<and> concat rs = ?kvs
    \<and> rs \<noteq> [] \<and> sorted_wrt (<) (map (run_digit 8) rs) \<and> (\<forall>r\<in>set rs. run_ok 7 (unat (run_digit 8 r)) r)"
  proof (cases "leaf_in_one_expanse cJU_ROOTSTATE keys")
    case True
    then have run: "run_ok 7 (unat (JU_DIGITATSTATE (hd keys) 8)) ?kvs"
      using one_run [OF _ ok _ _ assms(3) ne(2)] by (simp add: cJU_ROOTSTATE_def)
    have hd: "fst (hd ?kvs) = hd keys" using hd_map [of ?kvs fst] ne(1) len(2) by metis
    have m: "map (\<lambda>(k, v). JU_LEASTBYTES k 7) ?kvs = map (\<lambda>k. JU_LEASTBYTES k 7) keys"
    proof -
      have "map (\<lambda>(k, v). JU_LEASTBYTES k 7) ?kvs = map (\<lambda>k. JU_LEASTBYTES k 7) (map fst ?kvs)" by (simp add: case_prod_beta)
      then show ?thesis unfolding len(2) .
    qed
    have "splay_jp_root ?kvs = JPLEAF 7 (JU_JPSETDCD (cJU_LEAFW_MAXPOP1 - 1)) (map (\<lambda>k. JU_LEASTBYTES k 7) keys) vals"
      unfolding splay_jp_root_def Let_def m len(1,3) by (simp add: cJU_LEAFW_MAXPOP1_def)
    then have "j__udyCascadeL keys vals = branch_below 8 0 (map (\<lambda>r. (run_digit 8 r, splay_jp_root r)) [?kvs])"
      using True hd by (simp add: j__udyCascadeL_def branch_below_def cJU_BRANCHLMAXJPS_def j__udyCreateBranchL_def cJU_ROOTSTATE_def)
    then show ?thesis using run hd by (intro exI [of _ "[?kvs]"]) simp
  next
    case False
    have "1 \<le> (8::nat)" "(8::nat) \<le> 8" by simp_all
    note k = leaf_kvs [OF ok this assms(3)]
    from splay_runs [OF k(1) ne(1) _ k(2), of splay_jp_root] show ?thesis
      using False by (auto simp: j__udyCascadeL_def cJU_ROOTSTATE_def)
  qed
  then obtain rs where rs: "j__udyCascadeL keys vals = branch_below 8 0 (map (\<lambda>r. (run_digit 8 r, splay_jp_root r)) rs)"
    "concat rs = ?kvs" "rs \<noteq> []" "sorted_wrt (<) (map (run_digit 8) rs)" "\<forall>r\<in>set rs. run_ok 7 (unat (run_digit 8 r)) r" by blast
  have kids: "jp_wf (8 - 1) (jp_base 0 8 0 + unat (run_digit 8 r) * 256 ^ (8 - 1)) (splay_jp_root r)
      \<and> jp_entries (jp_base 0 8 0 + unat (run_digit 8 r) * 256 ^ (8 - 1)) (splay_jp_root r) = run_pairs (jp_base 0 8 0) r
      \<and> \<not> jp_is_null (splay_jp_root r)" if r: "r \<in> set rs" for r
    unfolding base using splay_jp_root_wf [of "unat (run_digit 8 r)" r] rs(5) r run_length [OF r] len(1) unfolding rs(2) by simp
  have ok0: "dcd_ok 8 0 0" by (simp add: dcd_ok_def)
  have p: "(8::nat) \<le> 7 \<longrightarrow> length (concat rs) = unat (JU_JPBRANCH_POP0 0 8) + 1" by simp
  have w: "jp_wf 8 0 (j__udyCascadeL keys vals)" "jp_entries 0 (j__udyCascadeL keys vals) = run_pairs (jp_base 0 8 0) (concat rs)"
    unfolding rs(1) by (rule branch_below_wf [OF _ _ _ _ ok0 rs(3,4) p]; use kids in simp)+
  have "jp_branch (j__udyCascadeL keys vals) = Some (8, 0)"
    unfolding rs(1) by (rule branch_below_children(1)) (use rs(3,4) in \<open>simp_all add: comp_def\<close>)
  then show ?thesis
    using w unfolding base rs(2) by (simp add: run_pairs_def zip_map1 case_prod_beta)
qed

section \<open>Properties\<close>

text \<open>C8: Cascading a full leaf, compressed or splayed below a linear or bitmap branch, yields a well-formed pointer for
  the same expanse with the same pairs in the same order, for every state; so does cascading a full root
  leaf, which yields a branch.  The assertion on the population holds.\<close>

theorem cascades_correct:
  shows "(jp_wf l P (JPLEAF s dcd keys vals) \<and> 256 ^ l dvd P \<and> length keys = cJL_LEAF_MAXPOP1 s \<longrightarrow>
      (\<exists>jp. j__udyCascade s dcd keys vals = Some jp \<and> jp_wf l P jp
        \<and> jp_entries P jp = jp_entries P (JPLEAF s dcd keys vals))) \<and>
    (sorted_wrt (<) pjlw \<and> length pjlw = unat cJU_LEAFW_MAXPOP1 \<and> length pjv = length pjlw \<longrightarrow>
      jp_wf 8 0 (j__udyCascadeL pjlw pjv) \<and> jp_entries 0 (j__udyCascadeL pjlw pjv) = zip (map unat pjlw) pjv
      \<and> (\<exists>root. jp_branch (j__udyCascadeL pjlw pjv) = Some (cJU_ROOTSTATE, root)))"
  using leaf_cascade_wf [of l P s dcd keys vals] cascadeL_wf [of pjlw pjv]
  by (auto simp: cJU_LEAFW_MAXPOP1_def cJU_ROOTSTATE_def)

theorem cascades_correct_witness:
  "(\<exists>jp. j__udyCascade 1 12 (map word_of_nat [3..<16]) [3..<16] = Some jp \<and> jp_wf 7 0 jp
     \<and> jp_entries 0 jp = map (\<lambda>k. (k, k)) [3..<16]) \<and>
   jp_entries 0 (j__udyCascadeL (map word_of_nat [3..<34]) [3..<34]) = map (\<lambda>k. (k, k)) [3..<34]"
proof -
  have u: "unat (word_of_nat k :: word_t) = k" if "k < 256" for k using unat_digit [OF that] .
  have srt: "sorted_wrt (<) (map word_of_nat [3..<n] :: word_t list)" if "n \<le> 256" for n
    unfolding sorted_wrt_map using that
    by (intro sorted_wrt_mono_rel [OF _ sorted_wrt_upt]) (auto simp: word_less_nat_alt u)
  have pairs: "zip (map (\<lambda>k. unat k) (map word_of_nat [3..<n] :: word_t list)) [3..<n] = map (\<lambda>k. (k, k)) [3..<n]" if "n \<le> 256" for n
  proof -
    have "zip (map (\<lambda>k. unat k) (map word_of_nat [3..<n] :: word_t list)) [3..<n]
      = map (\<lambda>k. (unat (word_of_nat k :: word_t), k)) [3..<n]"
      by (simp only: map_map comp_def zip_map1 zip_same_conv_map case_prod_conv)
    also have "\<dots> = map (\<lambda>k. (k, k)) [3..<n]" using that by (intro map_cong refl) (simp add: u del: word_of_nat_eq_iff)
    finally show ?thesis .
  qed
  have "JU_LEASTBYTES (word_of_nat k) 1 = (word_of_nat k :: word_t)" if "k < 256" for k
    using unat_leastbytes [of 1 "word_of_nat k"] u [OF that] that by (simp add: word_unat_eq_iff)
  then have keys: "leaf_keys_ok 1 (map word_of_nat [3..<n])" if "n \<le> 256" for n using srt [OF that] that by (auto simp: leaf_keys_ok_def)
  have "leaf_keys_ok 1 (map word_of_nat [3..<16])" by (rule keys) simp
  then have wf: "jp_wf 7 0 (JPLEAF 1 12 (map word_of_nat [3..<16]) [3..<16])"
    by (simp add: dcd_ok_def cJL_LEAF_MAXPOP1_def JU_JPLEAF_POP0_def)
  have es: "jp_entries 0 (JPLEAF 1 12 (map word_of_nat [3..<16]) [3..<16]) = map (\<lambda>k. (k, k)) [3..<16]"
    using pairs [of 16] by (simp add: jp_base_def del: map_map)
  have l: "length (map word_of_nat [3..<16] :: word_t list) = cJL_LEAF_MAXPOP1 1" by (simp add: cJL_LEAF_MAXPOP1_def)
  have lw: "length (map word_of_nat [3..<34] :: word_t list) = unat cJU_LEAFW_MAXPOP1" by (simp add: cJU_LEAFW_MAXPOP1_def)
  have d: "(256 :: nat) ^ 7 dvd 0" "length [3..<34] = length (map word_of_nat [3..<34] :: word_t list)" by simp_all
  note c = cascades_correct [of 7 0 1 12 "map word_of_nat [3..<16]" "[3..<16]" "map word_of_nat [3..<34]" "[3..<34]"]
  show ?thesis using c wf es l lw d srt [of 34] pairs [of 34] by (simp only: simp_thms)
qed

end
