(* ===== verification/JudyInsNode.thy ===== *)
theory JudyInsNode
  imports JudySplit
begin

text \<open>
  What one turn of \<open>j__udyInsWalk\<close> does to the pointer it stands at: the pairs of the pointer by its base, the
  population in its Dcd word, and the leaves, immediates and branches with one more index.
\<close>

section \<open>Pointers with a Dcd word\<close>

text \<open>The pairs and the body of a pointer with Dcd bytes depend on its base only.\<close>

fun jp_expanse :: "'v jp \<Rightarrow> (nat \<times> dcdpop0) option" where
  "jp_expanse (JPBRANCH_L s dcd jbl) = Some (s, dcd)"
| "jp_expanse (JPBRANCH_B s dcd jbb) = Some (s, dcd)"
| "jp_expanse (JPBRANCH_U s dcd jbu) = Some (s, dcd)"
| "jp_expanse (JPLEAF s dcd keys vals) = Some (s, dcd)"
| "jp_expanse (JPLEAF_B1 dcd jlb) = Some (1, dcd)"
| "jp_expanse _ = None"

definition jp_list :: "nat \<Rightarrow> 'v jp \<Rightarrow> (nat \<times> 'v) list" where
  "jp_list B jp =
     (case jp of
        JPLEAF s dcd keys vals \<Rightarrow> zip (map (\<lambda>k. B + unat k) keys) vals
      | JPLEAF_B1 dcd subs \<Rightarrow> map (\<lambda>(d, v). (B + d, v)) (leafb1_values subs)
      | _ \<Rightarrow> (case jp_branch jp of
                None \<Rightarrow> []
              | Some (s, dcd) \<Rightarrow> concat (map (\<lambda>(d, c). jp_entries (B + d * 256 ^ (s - 1)) c) (jp_children jp))))"

definition jp_body :: "nat \<Rightarrow> 'v jp \<Rightarrow> bool" where
  "jp_body B jp \<longleftrightarrow>
     (case jp of
        JPLEAF s dcd keys vals \<Rightarrow>
          1 \<le> s \<and> s \<le> 7 \<and> leaf_keys_ok s keys \<and> length vals = length keys \<and> length keys \<le> cJL_LEAF_MAXPOP1 s
      | JPLEAF_B1 dcd subs \<Rightarrow>
          length subs = cJU_NUMSUBEXPL \<and> (\<forall>(bm, vs)\<in>set subs. length vs = length (set_positions bm))
      | _ \<Rightarrow> (case jp_branch jp of
                None \<Rightarrow> False
              | Some (s, dcd) \<Rightarrow>
                  2 \<le> s \<and> jp_shape jp \<and> jp_list B jp \<noteq> []
                  \<and> (\<forall>(d, c)\<in>set (jp_children jp).
                       (jp_is_u jp \<or> \<not> jp_is_null c) \<and> jp_wf (s - 1) (B + d * 256 ^ (s - 1)) c)))"

lemma jp_list_simps [simp]:
  "jp_list B (JPLEAF s dcd keys vals) = zip (map (\<lambda>k. B + unat k) keys) vals"
  "jp_list B (JPLEAF_B1 dcd subs) = map (\<lambda>(d, v). (B + d, v)) (leafb1_values subs)"
  by (simp_all add: jp_list_def)

lemma jp_list_branch:
  "jp_branch jp = Some (s, dcd) \<Longrightarrow> jp_list B jp = concat (map (\<lambda>(d, c). jp_entries (B + d * 256 ^ (s - 1)) c) (jp_children jp))"
  by (cases jp) (simp_all add: jp_list_def)

lemma jp_body_simps [simp]:
  "jp_body B (JPLEAF s dcd keys vals) \<longleftrightarrow>
     1 \<le> s \<and> s \<le> 7 \<and> leaf_keys_ok s keys \<and> length vals = length keys \<and> length keys \<le> cJL_LEAF_MAXPOP1 s"
  "jp_body B (JPLEAF_B1 dcd subs) \<longleftrightarrow>
     length subs = cJU_NUMSUBEXPL \<and> (\<forall>(bm, vs)\<in>set subs. length vs = length (set_positions bm))"
  by (simp_all add: jp_body_def)

lemma jp_body_branch:
  "jp_branch jp = Some (s, dcd) \<Longrightarrow>
   jp_body B jp \<longleftrightarrow> 2 \<le> s \<and> jp_shape jp \<and> jp_list B jp \<noteq> []
     \<and> (\<forall>(d, c)\<in>set (jp_children jp). (jp_is_u jp \<or> \<not> jp_is_null c) \<and> jp_wf (s - 1) (B + d * 256 ^ (s - 1)) c)"
  by (cases jp) (simp_all add: jp_body_def)

lemma jp_branch_expanse: "jp_branch jp = Some (s, dcd) \<Longrightarrow> jp_expanse jp = Some (s, dcd)"
  by (cases jp) auto

lemma narrow_cases:
  assumes "jp_expanse jp = Some (s, dcd)"
  obtains (branch) "jp_branch jp = Some (s, dcd)" | (leaf) keys vals where "jp = JPLEAF s dcd keys vals"
  | (leafb1) jlb where "jp = JPLEAF_B1 dcd jlb" "s = 1"
  using assms by (cases jp) auto

lemma narrow_entries: "jp_expanse jp = Some (s, dcd) \<Longrightarrow> jp_entries P jp = jp_list (jp_base P s dcd) jp"
  by (erule narrow_cases) (auto simp: jp_entries_branch jp_list_branch)

lemma leaf_count:
  assumes "n \<le> 51" "1 \<le> s"
  shows "n = unat (JU_JPLEAF_POP0 dcd) + 1 \<and> unat dcd mod 256 ^ s < 256 \<longleftrightarrow> n = unat dcd mod 256 ^ s + 1"
proof -
  have "(256::nat) dvd 256 ^ s" using assms(2) by (simp add: dvd_power)
  then have m: "unat (JU_JPLEAF_POP0 dcd) = unat dcd mod 256 ^ s mod 256" by (simp add: unat_leaf_pop0 mod_mod_cancel)
  show ?thesis using assms(1) unfolding m by auto
qed

lemma narrow_wf:
  assumes "jp_expanse jp = Some (s, dcd)"
  shows "jp_wf l P jp \<longleftrightarrow> s \<le> l \<and> l \<le> 8 \<and> (l = 8 \<longrightarrow> s = 8) \<and> dcd_ok l P dcd \<and> jp_body (jp_base P s dcd) jp
    \<and> (s \<le> 7 \<longrightarrow> length (jp_list (jp_base P s dcd) jp) = unat dcd mod 256 ^ s + 1)"
  using assms
proof (cases rule: narrow_cases)
  case branch
  show ?thesis
    unfolding jp_wf_branch [OF branch] jp_body_branch [OF branch] narrow_entries [OF assms]
    by (auto simp: unat_branch_pop0)
next
  case (leaf keys vals)
  show ?thesis
  proof (cases "1 \<le> s \<and> length keys \<le> cJL_LEAF_MAXPOP1 s \<and> length vals = length keys \<and> s \<le> l \<and> l \<le> 7")
    case True
    then have "length keys \<le> 51" using maxpop1_bounds [of s] by simp
    from leaf_count [OF this, of s dcd] show ?thesis using True by (auto simp: leaf)
  next
    case False
    then show ?thesis by (auto simp: leaf)
  qed
next
  case (leafb1 jlb)
  then show ?thesis by (auto simp: unat_leaf_pop0)
qed

lemma narrow_set_dcd:
  assumes "jp_expanse jp = Some (s, dcd)"
  shows "jp_expanse (jp_set_DcdP0 jp dcd') = Some (s, dcd')" "jp_list B (jp_set_DcdP0 jp dcd') = jp_list B jp"
    and "jp_body B (jp_set_DcdP0 jp dcd') \<longleftrightarrow> jp_body B jp" "jp_DcdP0 jp = dcd" "\<not> jp_is_immed jp" "\<not> jp_is_null jp"
    and "\<not> jp_is_null (jp_set_DcdP0 jp dcd')"
  using assms by (cases jp; simp add: jp_list_def jp_body_def)+

text \<open>A narrow pointer moved to another place with the same base.\<close>

lemma narrow_rebase:
  assumes "jp_expanse jp = Some (s, dcd)" "jp_wf l P jp" "l \<le> 7" "s \<le> l'" "l' \<le> 7" "P' div 256 ^ 7 = P div 256 ^ 7" "dcd_ok l' P' dcd"
  shows "jp_wf l' P' jp" "jp_entries P' jp = jp_entries P jp"
proof -
  have b: "jp_base P' s dcd = jp_base P s dcd" using assms(6) by (simp add: jp_base_def)
  show "jp_wf l' P' jp"
    using assms unfolding narrow_wf [OF assms(1)] b by simp
  show "jp_entries P' jp = jp_entries P jp" unfolding narrow_entries [OF assms(1)] b ..
qed

section \<open>Counting\<close>

definition bump :: "dcdpop0 \<Rightarrow> dcdpop0" where
  "bump dcd = JU_JPSETDCD (JU_JPDCDPOP0 dcd + 1)"

lemma block_div: "x < W \<Longrightarrow> (q * W + x) div W = (q :: nat)"
  by simp

lemma block_mod: "x < W \<Longrightarrow> (q * W + x) mod W = (x :: nat)"
  by simp

lemma unat_bump:
  assumes "s \<le> 7" "unat dcd mod 256 ^ s + 1 < 256 ^ s"
  shows "unat (bump dcd) = unat dcd + 1" "unat (bump dcd) div 256 ^ s = unat dcd div 256 ^ s"
    and "unat (bump dcd) mod 256 ^ s = unat dcd mod 256 ^ s + 1"
proof -
  define H L where "H = unat dcd div 256 ^ s" and "L = unat dcd mod 256 ^ s"
  have d: "unat dcd = H * 256 ^ s + L" unfolding H_def L_def by (rule div_mult_mod_eq [symmetric])
  have L: "L + 1 < 256 ^ s" using assms(2) by (simp add: L_def)
  have b: "H * 256 ^ s + (L + 1) < 256 ^ 7" by (rule dcd_bound [OF d assms(1) L])
  have "unat (JU_JPDCDPOP0 dcd + 1) = unat dcd + 1"
  proof -
    have "unat dcd + 1 < 2 ^ 64" using unat_dcd_less [of dcd] by simp
    then show ?thesis unfolding unat_word_ariths unat_dcdpop0 by simp
  qed
  then show u: "unat (bump dcd) = unat dcd + 1" unfolding bump_def unat_setdcd0 using b d by simp
  have e: "unat (bump dcd) = H * 256 ^ s + (L + 1)" unfolding u d by simp
  show "unat (bump dcd) div 256 ^ s = unat dcd div 256 ^ s" "unat (bump dcd) mod 256 ^ s = unat dcd mod 256 ^ s + 1"
    unfolding e block_div [OF L] block_mod [OF L] by (simp_all only: H_def L_def)
qed

definition ins_counted :: "nat \<Rightarrow> 'v retcode \<Rightarrow> 'v jp \<Rightarrow> 'v jp" where
  "ins_counted l ret jp = (if l = 8 then jp else ins_count ret jp)"

definition ins_ret :: "'v option \<Rightarrow> 'v retcode" where
  "ins_ret r = (case r of None \<Rightarrow> INS_NEW | Some v \<Rightarrow> INS_EXISTS v)"

lemma ins_ret_simps [simp]: "ins_ret None = INS_NEW" "ins_ret (Some v) = INS_EXISTS v"
  by (simp_all add: ins_ret_def)

text \<open>The contract of the walk at a pointer: the return code tells what the slot of the index held, the pointer it leaves
  is, once counted, well-formed and holds the pairs with the slot stored.\<close>

definition ins_done :: "'v \<Rightarrow> ('v \<Rightarrow> 'v) \<Rightarrow> nat \<Rightarrow> nat \<Rightarrow> nat \<Rightarrow> (nat \<times> 'v) list \<Rightarrow> 'v retcode \<Rightarrow> 'v jp \<Rightarrow> bool" where
  "ins_done zero store i l P es ret jp \<longleftrightarrow>
     ret = ins_ret (map_of es i) \<and> jp_wf l P (ins_counted l ret jp)
     \<and> set (jp_entries P (ins_counted l ret jp)) = stored zero store i es \<and> \<not> jp_is_null (ins_counted l ret jp)"

lemma ins_done_narrow:
  assumes "jp_expanse jp = Some (s, dcd)" "s \<le> l" "l \<le> 8" "l = 8 \<longleftrightarrow> s = 8" "dcd_ok l P dcd" "jp_base P s dcd = B"
    and "jp_body B jp" "in_expanse B s (jp_list B jp)" "set (jp_list B jp) = stored zero store i es" "distinct (map fst es)"
    and "s \<le> 7 \<Longrightarrow> length es = unat dcd mod 256 ^ s + 1"
  defines "ret \<equiv> ins_ret (map_of es i)"
  shows "ins_done zero store i l P es ret jp"
proof -
  note nb = assms(6)
  note n = narrow_set_dcd [OF assms(1)]
  have len: "length (jp_list B jp) = length es + (if map_of es i = None then 1 else 0)"
    by (rule stored_length [OF assms(10) in_expanse_distinct [OF assms(8)] assms(9)])
  consider (root) "s = 8" | (old) v where "s \<le> 7" "map_of es i = Some v" | (new) "s \<le> 7" "map_of es i = None"
  proof -
    have "s = 8 \<or> s \<le> 7" using assms(2,3) by linarith
    then show thesis using that by (cases "map_of es i") blast+
  qed
  then show ?thesis
  proof cases
    case root
    then have "ins_counted l ret jp = jp" using assms(4) by (simp add: ins_counted_def)
    moreover have "jp_wf l P jp" using narrow_wf [OF assms(1)] assms(2-7) root by simp
    ultimately show ?thesis
      using assms(9) n(6) narrow_entries [OF assms(1), of P] unfolding ins_done_def ret_def nb by simp
  next
    case old
    note r = old(2)
    have c: "ins_counted l ret jp = jp" using r by (simp add: ins_counted_def ins_count_def ret_def)
    have "jp_wf l P jp"
      unfolding narrow_wf [OF assms(1)] nb using assms(2-5,7,11) len r old(1) by simp
    then show ?thesis
      using assms(9) n(6) narrow_entries [OF assms(1), of P] unfolding ins_done_def c nb using r by (simp add: ret_def)
  next
    case new
    note r = new(2)
    have c: "ins_counted l ret jp = jp_set_DcdP0 jp (bump dcd)"
      using new assms(4) n(4,5) by (auto simp: ins_counted_def ins_count_def bump_def ret_def)
    have l: "length (jp_list B jp) = unat dcd mod 256 ^ s + 2" using len r assms(11) [OF new(1)] by simp
    have "unat dcd mod 256 ^ s + 1 < 256 ^ s" using l in_expanse_length [OF assms(8)] by simp
    note b = unat_bump [OF new(1) this]
    have base: "jp_base P s (bump dcd) = B" unfolding nb [symmetric] jp_base_def b(2) ..
    have ok: "dcd_ok l P (bump dcd)"
    proof -
      have "y div 256 ^ l = y div 256 ^ s div 256 ^ (l - s)" for y :: nat
        using assms(2) by (simp flip: div_mult2_eq power_add)
      then show ?thesis using assms(5) b(2) unfolding dcd_ok_def by metis
    qed
    have "jp_wf l P (jp_set_DcdP0 jp (bump dcd))"
      unfolding narrow_wf [OF n(1)] base n(2,3) b(3) using assms(2-4,7) ok l by simp
    moreover have "jp_entries P (jp_set_DcdP0 jp (bump dcd)) = jp_list B jp"
      by (simp only: narrow_entries [OF n(1)] base n(2))
    ultimately show ?thesis
      using assms(9) n(7) unfolding ins_done_def c using r by (simp add: ret_def)
  qed
qed

section \<open>Leaves\<close>

lemma stored_update:
  assumes "distinct (map fst es)" "n < length es" "fst (es ! n) = i"
  shows "set (es[n := (i, store (snd (es ! n)))]) = stored zero store i es" "map_of es i = Some (snd (es ! n))"
proof -
  have n: "es ! n = (i, snd (es ! n))" using assms(3) by (metis prod.collapse)
  then have "(i, snd (es ! n)) \<in> set es" using assms(2) nth_mem by metis
  then show m: "map_of es i = Some (snd (es ! n))" using assms(1) by simp
  have other: "fst (es ! k) = i \<longleftrightarrow> k = n" if "k < length es" for k
    using assms that nth_eq_iff_index_eq [of "map fst es" k n] by auto
  show "set (es[n := (i, store (snd (es ! n)))]) = stored zero store i es"
    unfolding stored_old [OF m]
  proof (rule set_eqI)
    fix x
    show "x \<in> set (es[n := (i, store (snd (es ! n)))]) \<longleftrightarrow> x \<in> {x \<in> set es. fst x \<noteq> i} \<union> {(i, store (snd (es ! n)))}"
      using assms(2) other by (force simp: in_set_conv_nth nth_list_update)
  qed
qed

definition key_pairs :: "nat \<Rightarrow> word_t list \<Rightarrow> 'v list \<Rightarrow> (nat \<times> 'v) list" where
  "key_pairs B keys vals = zip (map (\<lambda>k. B + unat k) keys) vals"

lemma leaf_stored:
  assumes "leaf_keys_ok s keys" "1 \<le> s" "s \<le> 8" "length vals = length keys"
    and "256 ^ s dvd B" "B \<le> unat index" "unat index < B + 256 ^ s"
  defines "x \<equiv> JU_LEASTBYTES index s" and "es \<equiv> key_pairs B keys vals"
  defines "n \<equiv> insertion_point keys x"
  shows "in_expanse B s es"
    and "x \<in> set keys \<Longrightarrow> n < length vals \<and> map_of es (unat index) = Some (vals ! n)
      \<and> set (key_pairs B keys (vals[n := store (vals ! n)])) = stored zero store (unat index) es"
    and "x \<notin> set keys \<Longrightarrow> map_of es (unat index) = None
      \<and> set (key_pairs B (take n keys @ x # drop n keys) (take n vals @ v # drop n vals)) = insert (unat index, v) (set es)
      \<and> leaf_keys_ok s (take n keys @ x # drop n keys)"
proof -
  show ex: "in_expanse B s es" unfolding es_def key_pairs_def by (rule in_expanse_keys [OF assms(1-4)])
  have srt: "sorted_wrt (<) keys" using assms(1) by (simp add: leaf_keys_ok_def)
  have ix: "B + unat x = unat index"
    using offset_is_leastbytes(1) [OF assms(5-7,2,3)] assms(6) unfolding x_def by simp
  have m: "map_of es (unat index) = (if x \<in> set keys then Some (vals ! n) else None)"
    unfolding es_def key_pairs_def n_def x_def by (rule map_of_keys_inside [OF assms(1-7)])
  show "n < length vals \<and> map_of es (unat index) = Some (vals ! n)
      \<and> set (key_pairs B keys (vals[n := store (vals ! n)])) = stored zero store (unat index) es" if mem: "x \<in> set keys"
  proof -
    have n: "n < length keys" "keys ! n = x" using insertion_point_mem [OF srt, of x] mem by (auto simp: n_def)
    then have len: "n < length es" "es ! n = (unat index, vals ! n)" using assms(4) ix by (simp_all add: es_def key_pairs_def)
    have "key_pairs B keys (vals[n := store (vals ! n)]) = es[n := (unat index, store (vals ! n))]"
    proof -
      have "(map (\<lambda>k. B + unat k) keys)[n := unat index] = map (\<lambda>k. B + unat k) keys"
        using n ix by (simp add: list_update_same_conv)
      then show ?thesis by (simp add: es_def key_pairs_def update_zip)
    qed
    then show ?thesis
      using stored_update(1) [OF in_expanse_distinct [OF ex] len(1), of "unat index" store zero] len(2) n assms(4) m mem by simp
  qed
  show "map_of es (unat index) = None
      \<and> set (key_pairs B (take n keys @ x # drop n keys) (take n vals @ v # drop n vals)) = insert (unat index, v) (set es)
      \<and> leaf_keys_ok s (take n keys @ x # drop n keys)" if mem: "x \<notin> set keys"
  proof (intro conjI)
    have n: "n \<le> length keys" unfolding n_def by (rule insertion_point_le)
    let ?f = "\<lambda>k. B + unat k"
    have "key_pairs B (take n keys @ x # drop n keys) (take n vals @ v # drop n vals)
      = take n es @ (unat index, v) # drop n es"
      unfolding key_pairs_def es_def using zip_insert_slot [of vals "map ?f keys" n "?f x" v] n assms(4) ix
      by (simp add: take_map drop_map)
    moreover have "n \<le> length es" using n assms(4) by (simp add: es_def key_pairs_def)
    ultimately show "set (key_pairs B (take n keys @ x # drop n keys) (take n vals @ v # drop n vals)) = insert (unat index, v) (set es)"
      using set_insert_slot by metis
    show "map_of es (unat index) = None" using m mem by simp
    have "sorted_wrt (<) (take n keys @ x # drop n keys)" unfolding n_def by (rule sorted_insert_slot [OF srt mem])
    moreover have "JU_LEASTBYTES x s = x" by (simp add: x_def JU_LEASTBYTES_def)
    ultimately show "leaf_keys_ok s (take n keys @ x # drop n keys)"
      using assms(1) set_insert_slot [OF n, of x] by (simp add: leaf_keys_ok_def)
  qed
qed

lemma search_stored:
  fixes index :: word_t
  assumes "leaf_keys_ok s keys" "1 \<le> s" "s \<le> 7" "length keys < 256"
  defines "x \<equiv> JU_LEASTBYTES index s"
  shows "search_leaf_state s keys (word_of_nat (length keys)) index = Some (search_result keys x)"
  unfolding x_def using assms(1-4)
  by (intro search_leaf_state_sorted) (simp_all add: leaf_keys_ok_def unat_digit)

lemma search_result_cases:
  assumes "sorted_wrt (<) keys"
  shows "x \<in> set keys \<Longrightarrow> search_result keys x \<ge> 0 \<and> nat (search_result keys x) = insertion_point keys x"
    and "x \<notin> set keys \<Longrightarrow> search_result keys x < 0 \<and> nat (NOT (search_result keys x)) = insertion_point keys x"
  using insertion_point_mem [OF assms, of x] by (auto simp: search_result_def not_int_def)

lemma ins_jpleaf_done:
  assumes "jp_wf l P (JPLEAF s dcd keys vals)" "256 ^ l dvd P"
    and "jp_base P s dcd \<le> unat index" "unat index < jp_base P s dcd + 256 ^ s"
  shows "(\<exists>r jp. ins_jpleaf index last0 s dcd keys vals zero store = InsReturn r jp
        \<and> ins_done zero store (unat index) l P (jp_entries P (JPLEAF s dcd keys vals)) r jp)
    \<or> (\<exists>jp. ins_jpleaf index last0 s dcd keys vals zero store = InsAgain jp last0
        \<and> jp_wf l P jp \<and> jp_entries P jp = jp_entries P (JPLEAF s dcd keys vals))"
proof -
  have w: "1 \<le> s" "s \<le> l" "l \<le> 7" "dcd_ok l P dcd" "leaf_keys_ok s keys" "length keys = unat (JU_JPLEAF_POP0 dcd) + 1"
    "length vals = length keys" "length keys \<le> cJL_LEAF_MAXPOP1 s" "unat dcd mod 256 ^ s < 256"
    using assms(1) by simp_all
  have s: "s \<le> 7" "s \<le> 8" "s \<le> 7 \<longrightarrow> True" using w(2,3) by auto
  have srt: "sorted_wrt (<) keys" using w(5) by (simp add: leaf_keys_ok_def)
  have B: "256 ^ s dvd jp_base P s dcd" using base_in_expanse [OF assms(2) w(4,2)] w(3) by blast
  let ?B = "jp_base P s dcd" and ?x = "JU_LEASTBYTES index s" and ?es = "key_pairs (jp_base P s dcd) keys vals"
  let ?n = "insertion_point keys (JU_LEASTBYTES index s)"
  have m: "length keys < 256" using maxpop1_bounds [OF w(1) s(1)] w(8) by linarith
  have es: "jp_entries P (JPLEAF s dcd keys vals) = ?es" by (simp add: key_pairs_def)
  note search = search_stored [OF w(5,1) s(1) m, of index]
  note st = leaf_stored [OF w(5,1) s(2) w(7) B assms(3,4)]
  have body: "jp_list ?B (JPLEAF s dcd ks vs) = key_pairs ?B ks vs" for ks and vs :: "'a list" by (simp add: key_pairs_def)
  have len: "length ?es = unat dcd mod 256 ^ s + 1"
    using narrow_wf [of "JPLEAF s dcd keys vals" s dcd l P] assms(1) s(1) w(7) by (simp add: key_pairs_def)
  have l8: "l \<le> 8" "l = 8 \<longleftrightarrow> s = 8" using w(3) s(1) by auto
  have ns: "\<not> length keys > cJL_LEAF_MAXPOP1 s" using w(8) by simp
  have pop: "unat (JU_JPLEAF_POP0 dcd) + 1 = length keys" using w(6) by simp
  have fin: "ins_done zero store (unat index) l P ?es (ins_ret (map_of ?es (unat index))) (JPLEAF s dcd ks vs)"
    if "leaf_keys_ok s ks" "length vs = length ks" "length ks \<le> cJL_LEAF_MAXPOP1 s"
      "set (key_pairs ?B ks vs) = stored zero store (unat index) ?es" for ks vs
  proof (rule ins_done_narrow [OF _ w(2) l8 w(4) refl])
    show "in_expanse ?B s (jp_list ?B (JPLEAF s dcd ks vs))"
      unfolding jp_list_simps by (rule in_expanse_keys [OF that(1) w(1) s(2) that(2)])
  qed (use that w s len in_expanse_distinct [OF st(1)] in \<open>simp_all add: key_pairs_def\<close>)
  show ?thesis
  proof (cases "?x \<in> set keys")
    case True
    note r = search_result_cases(1) [OF srt True] and f = st(2) [OF True, of store zero]
    have "ins_jpleaf index last0 s dcd keys vals zero store = leaf_exists store (JPLEAF s dcd keys) vals ?n"
      unfolding ins_jpleaf_def Let_def pop if_not_P [OF ns] search option.case using r by simp
    also have "\<dots> = InsReturn (INS_EXISTS (vals ! ?n)) (JPLEAF s dcd keys (vals[?n := store (vals ! ?n)]))"
      using f by (simp add: leaf_exists_def)
    finally have i: "ins_jpleaf index last0 s dcd keys vals zero store = \<dots>" .
    have "ins_done zero store (unat index) l P ?es (ins_ret (map_of ?es (unat index)))
        (JPLEAF s dcd keys (vals[?n := store (vals ! ?n)]))"
      by (rule fin) (use f w in simp_all)
    then show ?thesis unfolding es i using f by simp
  next
    case False
    note r = search_result_cases(2) [OF srt False] and f = st(3) [OF False, of "store zero"]
    have n: "?n \<le> length keys" by (rule insertion_point_le)
    show ?thesis
    proof (cases "length keys < cJL_LEAF_MAXPOP1 s")
      case True
      have slot: "insert_slot keys (length keys) ?n ?x = take ?n keys @ ?x # drop ?n keys"
        "insert_slot vals (length keys) ?n (store zero) = take ?n vals @ store zero # drop ?n vals"
        using insert_slot_eq [OF n] insert_slot_eq [of ?n vals] n w(7) by simp_all
      have "ins_jpleaf index last0 s dcd keys vals zero store
        = InsReturn INS_NEW (JPLEAF s dcd (take ?n keys @ ?x # drop ?n keys) (take ?n vals @ store zero # drop ?n vals))"
        unfolding ins_jpleaf_def Let_def pop if_not_P [OF ns] search option.case leaf_grow_def using r True slot by simp
      moreover have "ins_done zero store (unat index) l P ?es (ins_ret (map_of ?es (unat index)))
        (JPLEAF s dcd (take ?n keys @ ?x # drop ?n keys) (take ?n vals @ store zero # drop ?n vals))"
        by (rule fin) (use f w True n in \<open>simp_all add: stored_new\<close>)
      ultimately show ?thesis unfolding es using f by simp
    next
      case full: False
      then have "length keys = cJL_LEAF_MAXPOP1 s" using w(8) by simp
      from leaf_cascade_wf [OF assms(1,2) this] obtain jp where c: "j__udyCascade s dcd keys vals = Some jp"
        "jp_wf l P jp" "jp_entries P jp = jp_entries P (JPLEAF s dcd keys vals)" by blast
      have "ins_jpleaf index last0 s dcd keys vals zero store = InsAgain jp last0"
        unfolding ins_jpleaf_def Let_def pop if_not_P [OF ns] search option.case using r full c(1) by simp
      then show ?thesis using c(2,3) by blast
    qed
  qed
qed

end
