(* ===== verification/JudyInsKinds.thy ===== *)
theory JudyInsKinds
  imports JudyInsNode
begin

text \<open>The turns of \<open>j__udyInsWalk\<close> at bitmap leaves, null pointers and immediates.\<close>

section \<open>Bitmap leaves\<close>

lemma shift_stored:
  assumes "set xs' = stored zero store d xs"
  shows "set (map (\<lambda>(d, v). (B + d, v)) xs') = stored zero store (B + d) (map (\<lambda>(d, v). (B + d, v)) xs)"
proof -
  have m: "map_of (map (\<lambda>(d, v). (B + d, v)) xs) (B + d) = map_of xs d" by (simp add: map_of_shift)
  show ?thesis unfolding stored_def m set_map assms by force
qed

lemma leafb1_bm: "leafb1_values jlb = bm_list jlb"
  by (simp add: leafb1_values_def bm_list_def)

lemma leafb1_shape: "jp_body B (JPLEAF_B1 dcd jlb) \<longleftrightarrow> bm_shape 4 jlb"
  by (auto simp: bm_shape_def cJU_NUMSUBEXPL_def)

lemma ins_jpleaf_b1_done:
  assumes "jp_wf l P (JPLEAF_B1 dcd jlb)" "256 ^ l dvd P"
    and "jp_base P 1 dcd \<le> unat index" "unat index < jp_base P 1 dcd + 256 ^ 1"
  shows "\<exists>r jp. ins_jpleaf_b1 index dcd jlb zero store = InsReturn r jp
    \<and> ins_done zero store (unat index) l P (jp_entries P (JPLEAF_B1 dcd jlb)) r jp"
proof -
  let ?B = "jp_base P 1 dcd" and ?sh = "map (\<lambda>(d, v). (jp_base P 1 dcd + d, v))"
  define d where "d = unat (JU_DIGITATSTATE index 1)"
  note w = assms(1) [unfolded narrow_wf [of "JPLEAF_B1 dcd jlb" 1 dcd l P, OF jp_expanse.simps(5)]]
  have l: "1 \<le> l" "l \<le> 8" "l = 8 \<longleftrightarrow> (1::nat) = 8" "dcd_ok l P dcd" using w by auto
  have sh: "bm_shape 4 jlb" using w leafb1_shape by blast
  have B: "256 ^ 1 dvd ?B" using base_in_expanse [OF assms(2) l(4,1)] l(2,3) by fastforce
  have "unat index - ?B = unat (JU_LEASTBYTES index 1)" by (rule offset_is_leastbytes(1) [OF B assms(3,4)]) simp_all
  also have "\<dots> = d" using unat_leastbytes [of 1 index] unat_digitatstate [of index 1] by (simp add: d_def)
  finally have i: "unat index = ?B + d" using assms(3) by simp
  have d: "d < LENGTH(64) * 4" unfolding d_def using unat_byte_less [of "JU_DIGITATSTATE index 1"] by simp
  obtain bm vs where x: "jlb ! (d div LENGTH(64)) = (bm, vs)" by (cases "jlb ! (d div LENGTH(64))")
  note dg = bm_digit [OF sh d x]
  have es: "jp_entries P (JPLEAF_B1 dcd jlb) = ?sh (bm_list jlb)" by (simp add: leafb1_bm)
  have expanse: "in_expanse ?B 1 (?sh (bm_list jlb'))" if "bm_shape 4 jlb'" for jlb' :: "(word_t \<times> 'a list) list"
  proof -
    have "length jlb' = cJU_NUMSUBEXPL" "\<forall>(bm, vs)\<in>set jlb'. length vs = length (set_positions bm)"
      using that by (auto simp: bm_shape_def cJU_NUMSUBEXPL_def)
    from leafb1_sorted [OF this] show ?thesis unfolding leafb1_bm
      by (auto simp: in_expanse_def sorted_wrt_map case_prod_beta)
  qed
  have dist: "distinct (map fst (bm_list jlb))" "distinct (map fst (?sh (bm_list jlb)))"
    using in_expanse_distinct [OF expanse [OF sh]] by (simp_all add: distinct_map inj_on_def comp_def case_prod_beta)
  have fin: "ins_done zero store (unat index) l P (?sh (bm_list jlb))
      (ins_ret (map_of (?sh (bm_list jlb)) (unat index))) (JPLEAF_B1 dcd jlb')"
    if "bm_shape 4 jlb'" "set (bm_list jlb') = stored zero store d (bm_list jlb)" for jlb'
  proof (rule ins_done_narrow [OF jp_expanse.simps(5) l refl])
    show "jp_body ?B (JPLEAF_B1 dcd jlb')" using that(1) leafb1_shape by blast
    show "in_expanse ?B 1 (jp_list ?B (JPLEAF_B1 dcd jlb'))" unfolding jp_list_simps leafb1_bm by (rule expanse [OF that(1)])
    show "set (jp_list ?B (JPLEAF_B1 dcd jlb')) = stored zero store (unat index) (?sh (bm_list jlb))"
      unfolding jp_list_simps leafb1_bm i by (rule shift_stored [OF that(2)])
    show "length (?sh (bm_list jlb)) = unat dcd mod 256 ^ 1 + 1" using w by (simp add: leafb1_bm)
  qed (rule dist(2))
  have m: "map_of (?sh (bm_list jlb)) (unat index) = map_of (bm_list jlb) d" unfolding i map_of_shift by simp
  have n: "nth_opt jlb (d div 64) = Some (bm, vs)" using dg(1) x by simp
  have dd: "unat (JU_DIGITATSTATE index (Suc 0)) = d" by (simp add: d_def)
  note defs = ins_jpleaf_b1_def Let_def dd cJU_BITSPERSUBEXPL_def test_bit_L count_below_L leaf_exists_def
  show ?thesis
  proof (cases "bit bm (d mod LENGTH(64))")
    case True
    note u = bm_update [OF sh d x True]
    let ?off = "bits_below bm (d mod 64)"
    have "map_of (bm_list jlb) d = Some (vs ! ?off)" using u(4) dist(1) by simp
    then have "set (bm_list (jlb[d div 64 := (bm, vs[?off := store (vs ! ?off)])])) = stored zero store d (bm_list jlb)"
      using u(2) [of "store (vs ! ?off)"] by (simp add: stored_old)
    moreover have "ins_jpleaf_b1 index dcd jlb zero store
      = InsReturn (INS_EXISTS (vs ! ?off)) (JPLEAF_B1 dcd (jlb[d div 64 := (bm, vs[?off := store (vs ! ?off)])]))"
      using n True u(3) by (simp add: defs)
    ultimately show ?thesis
      using fin [of "jlb[d div 64 := (bm, vs[?off := store (vs ! ?off)])]"] u(1) [of "store (vs ! ?off)"] m \<open>map_of (bm_list jlb) d = _\<close>
      unfolding es by simp
  next
    case False
    let ?off = "bits_below bm (d mod 64)"
    have mk: "push_bit (d mod LENGTH(64)) 1 = JU_BITPOSMASKL d" by (simp add: JU_BITPOSMASKL_def cJU_BITSPERSUBEXPL_def)
    note u = bm_insert(1,2) [OF sh d x False, of "store zero", unfolded mk] bm_insert(3) [OF sh d x False]
    let ?jlb = "jlb[d div 64 := (bm OR JU_BITPOSMASKL d, take ?off vs @ store zero # drop ?off vs)]"
    have none: "map_of (bm_list jlb) d = None" using u(3) by (simp add: map_of_eq_None_iff)
    have "set (bm_list ?jlb) = stored zero store d (bm_list jlb)" using u(2) none by (simp add: stored_new)
    moreover have "?off \<le> length vs" unfolding dg(2) by (rule bits_below_le) simp
    then have "ins_jpleaf_b1 index dcd jlb zero store = InsReturn INS_NEW (JPLEAF_B1 dcd ?jlb)"
      using n False dg(2) insert_slot_eq [of ?off vs "store zero"] by (simp add: defs count_bits_L [of bm])
    ultimately show ?thesis using fin [of ?jlb] u(1) m none unfolding es by simp
  qed
qed

section \<open>Null pointers and immediates\<close>

lemma index_low:
  fixes i :: nat
  assumes "256 ^ l dvd P" "l \<le> 7" "P \<le> i" "i < P + 256 ^ l"
  shows "i mod 256 ^ 7 = P mod 256 ^ 7 + (i - P)" "256 ^ l dvd P mod 256 ^ 7" "i mod 256 ^ 7 div 256 ^ l * 256 ^ l = P mod 256 ^ 7"
    and "P mod 256 ^ 7 div 256 ^ l = i mod 256 ^ 7 div 256 ^ l"
proof -
  show e: "i mod 256 ^ 7 = P mod 256 ^ 7 + (i - P)"
  proof -
    define h a b where "h = i div 256 ^ 7 * 256 ^ 7" and "a = i mod 256 ^ 7" and "b = P mod 256 ^ 7"
    have "i = h + a" using div_mult_mod_eq [of i "256 ^ 7"] unfolding h_def a_def by (rule sym)
    moreover have "P = h + b"
      using div_mult_mod_eq [of P "256 ^ 7"] unfolding h_def b_def expanse_top [OF assms] by (rule sym)
    ultimately have "a = b + (i - P)" using assms(3) by simp
    then show ?thesis by (simp only: a_def b_def)
  qed
  have "(256::nat) ^ l dvd 256 ^ 7" using assms(2) by (rule le_imp_power_dvd)
  then show dv: "256 ^ l dvd P mod 256 ^ 7" using assms(1) by (simp add: dvd_mod)
  then obtain q where q: "P mod 256 ^ 7 = 256 ^ l * q" by (rule dvdE)
  have "i - P < 256 ^ l" using assms(3,4) by simp
  then show "i mod 256 ^ 7 div 256 ^ l * 256 ^ l = P mod 256 ^ 7" "P mod 256 ^ 7 div 256 ^ l = i mod 256 ^ 7 div 256 ^ l"
    unfolding e q by simp_all
qed

text \<open>The Dcd words of an index and of a new leaf.\<close>

lemma unat_immed_01:
  assumes "256 ^ l dvd P" "l \<le> 7" "P \<le> unat index" "unat index < P + 256 ^ l"
  shows "jp_base P 0 (JU_JPSETDCD index) = unat index" "dcd_ok l P (JU_JPSETDCD index)"
proof -
  have "unat (JU_JPSETDCD index) = unat index mod 256 ^ 7" by (rule unat_setdcd0)
  then show "dcd_ok l P (JU_JPSETDCD index)" "jp_base P 0 (JU_JPSETDCD index) = unat index"
    using index_low(4) [OF assms] expanse_top [OF assms] div_mult_mod_eq [of "unat index" "256 ^ 7"]
    by (simp_all add: dcd_ok_def jp_base_def)
qed

lemma unat_new_leaf:
  assumes "256 ^ l dvd P" "1 \<le> l" "l \<le> 7" "P \<le> unat index" "unat index < P + 256 ^ l" "unat (k :: word_t) < 256"
  shows "unat (JU_JPSETDCD ((index AND cJU_DCDMASK l) + k)) = P mod 256 ^ 7 + unat k"
proof -
  note i = index_low [OF assms(1,3-5)]
  have m: "unat (index AND cJU_DCDMASK l) = P mod 256 ^ 7" using unat_and_dcdmask [OF assms(2,3), of index] i(3) by simp
  obtain q where q: "P mod 256 ^ 7 = 256 ^ l * q" using i(2) by (rule dvdE)
  have "unat k < 256 ^ l" using assms(6) power_increasing [of 1 l "256::nat"] assms(2) by simp
  moreover have "256 ^ l * q < 256 ^ 7" unfolding q [symmetric] by simp
  then have "q + 1 \<le> 256 ^ (7 - l)"
  proof -
    have "256 ^ l * q < 256 ^ l * 256 ^ (7 - l)" using \<open>256 ^ l * q < 256 ^ 7\<close> assms(3) by (simp flip: power_add)
    then show ?thesis by simp
  qed
  then have "256 ^ l * (q + 1) \<le> 256 ^ l * 256 ^ (7 - l)" by (rule mult_le_mono2)
  ultimately have b: "P mod 256 ^ 7 + unat k < 256 ^ 7" using assms(3) unfolding q by (simp flip: power_add)
  then have "unat ((index AND cJU_DCDMASK l) + k) = P mod 256 ^ 7 + unat k" unfolding unat_word_ariths m by simp
  then show ?thesis unfolding unat_setdcd0 using b by simp
qed

lemma ins_counted_immed: "jp_is_immed jp \<Longrightarrow> ins_counted l r jp = jp"
  by (simp add: ins_counted_def ins_count_def)

lemma ins_jpnull_done:
  assumes "jp_wf l P (JPNULL n)" "256 ^ l dvd P" "P \<le> unat index" "unat index < P + 256 ^ l"
  shows "\<exists>r jp. ins_jpnull index n (store zero) = InsReturn r jp \<and> ins_done zero store (unat index) l P [] r jp"
proof -
  have l: "n = l" "1 \<le> l" "l \<le> 7" using assms(1) by simp_all
  note u = unat_immed_01 [OF assms(2) l(3) assms(3,4)]
  have "ins_done zero store (unat index) l P [] INS_NEW (JPIMMED_01 n (JU_JPSETDCD index) (store zero))"
    unfolding ins_done_def using l u by (simp add: ins_counted_immed stored_new)
  then show ?thesis using l by (simp add: ins_jpnull_def)
qed

text \<open>A new leaf of the pointer's own state, still to be counted.\<close>

lemma new_leaf_done:
  assumes "256 ^ l dvd P" "1 \<le> l" "l \<le> 7" "P \<le> unat index" "unat index < P + 256 ^ l"
    and "leaf_keys_ok l keys" "length vals = length keys" "length keys \<le> cJL_LEAF_MAXPOP1 l"
    and "set (key_pairs P keys vals) = stored zero store (unat index) es" "distinct (map fst es)"
    and "map_of es (unat index) = None" "unat D = P mod 256 ^ 7 + (length es - 1)" "es \<noteq> []" "length es < 256"
  shows "ins_done zero store (unat index) l P es INS_NEW (JPLEAF l D keys vals)"
proof -
  have "length es - 1 < 256 ^ l" using assms(14) power_increasing [of 1 l "256::nat"] assms(2) by simp
  note b = base_of [OF assms(12) this assms(1,3)]
  have l8: "l \<le> 8" "l = 8 \<longleftrightarrow> l = 8" using assms(3) by auto
  have "ins_done zero store (unat index) l P es (ins_ret (map_of es (unat index))) (JPLEAF l D keys vals)"
  proof (rule ins_done_narrow [OF _ le_refl l8 b(2,1)])
    show "in_expanse P l (jp_list P (JPLEAF l D keys vals))"
      unfolding jp_list_simps by (rule in_expanse_keys [OF assms(6,2) l8(1) assms(7)])
    show "length es = unat D mod 256 ^ l + 1" unfolding b(3) using assms(13) by (cases es) simp_all
  qed (use assms in \<open>simp_all add: key_pairs_def\<close>)
  then show ?thesis using assms(11) by simp
qed

lemma immed_done:
  assumes "1 \<le> l" "l \<le> 3" "leaf_keys_ok l keys" "length vals = length keys" "2 \<le> length keys" "length keys \<le> cJL_IMMED_MAXPOP1 l"
    and "set (key_pairs P keys vals) = stored zero store i es"
  shows "ins_done zero store i l P es (ins_ret (map_of es i)) (JPIMMED l keys vals)"
  using assms by (simp add: ins_done_def ins_counted_immed key_pairs_def)

lemma immed_maxpop1_bounds: "1 \<le> s \<Longrightarrow> s \<le> 3 \<Longrightarrow> 2 \<le> cJL_IMMED_MAXPOP1 s \<and> cJL_IMMED_MAXPOP1 s \<le> 7"
proof -
  assume "1 \<le> s" "s \<le> 3"
  then consider "s = 1" | "s = 2" | "s = 3" by linarith
  then show ?thesis by cases (simp_all add: cJL_IMMED_MAXPOP1_def)
qed

lemma ins_jpimmed_done:
  assumes "jp_wf l P (JPIMMED s keys vals)" "256 ^ l dvd P" "P \<le> unat index" "unat index < P + 256 ^ l"
  shows "\<exists>r jp. ins_jpimmed index s keys vals zero store = InsReturn r jp
    \<and> ins_done zero store (unat index) l P (jp_entries P (JPIMMED s keys vals)) r jp"
proof -
  have w: "s = l" "1 \<le> l" "l \<le> 3" "leaf_keys_ok l keys" "2 \<le> length keys" "length keys \<le> cJL_IMMED_MAXPOP1 l"
    "length vals = length keys" using assms(1) by auto
  have l: "l \<le> 7" "l \<le> 8" using w(3) by simp_all
  let ?x = "JU_LEASTBYTES index l" and ?es = "key_pairs P keys vals" and ?n = "insertion_point keys (JU_LEASTBYTES index l)"
  have m: "length keys < 8" "cJL_IMMED_MAXPOP1 l \<le> 7" using immed_maxpop1_bounds [OF w(2,3)] w(6) by linarith+
  have es: "jp_entries P (JPIMMED s keys vals) = ?es" by (simp add: key_pairs_def)
  have m256: "length keys < 256" using m(1) by simp
  note search = search_stored [OF w(4,2) l(1) m256, of index]
  note st = leaf_stored [OF w(4,2) l(2) w(7) assms(2-4)]
  have srt: "sorted_wrt (<) keys" using w(4) by (simp add: leaf_keys_ok_def)
  have ok: "\<not> (s < 1 \<or> 3 < s \<or> length keys < 2 \<or> cJL_IMMED_MAXPOP1 s < length keys)" using w by auto
  note step = ins_jpimmed_def Let_def if_not_P [OF ok]
  show ?thesis
  proof (cases "?x \<in> set keys")
    case True
    note r = search_result_cases(1) [OF srt True] and f = st(2) [OF True, of store zero]
    have "ins_jpimmed index s keys vals zero store = leaf_exists store (JPIMMED s keys) vals ?n"
      unfolding step using r search by (simp add: w(1))
    also have "\<dots> = InsReturn (INS_EXISTS (vals ! ?n)) (JPIMMED s keys (vals[?n := store (vals ! ?n)]))"
      using f by (simp add: leaf_exists_def)
    finally have i: "ins_jpimmed index s keys vals zero store = \<dots>" .
    have "ins_done zero store (unat index) l P ?es (ins_ret (map_of ?es (unat index)))
        (JPIMMED l keys (vals[?n := store (vals ! ?n)]))"
      by (rule immed_done) (use f w in simp_all)
    then show ?thesis unfolding es i using f w(1) by simp
  next
    case False
    note r = search_result_cases(2) [OF srt False] and f = st(3) [OF False, of "store zero"]
    have n: "?n \<le> length keys" by (rule insertion_point_le)
    let ?ks = "take ?n keys @ ?x # drop ?n keys" and ?vs = "take ?n vals @ store zero # drop ?n vals"
    have slot: "insert_slot keys (length keys) ?n ?x = ?ks" "insert_slot vals (length keys) ?n (store zero) = ?vs"
      using insert_slot_eq [OF n] insert_slot_eq [of ?n vals] n w(7) by simp_all
    have new: "set (key_pairs P ?ks ?vs) = stored zero store (unat index) ?es" "leaf_keys_ok l ?ks" using f by (simp_all add: stored_new)
    have len: "length ?ks = length keys + 1" "length ?vs = length ?ks" using n w(7) by simp_all
    show ?thesis
    proof (cases "length keys < cJL_IMMED_MAXPOP1 l")
      case True
      have "ins_jpimmed index s keys vals zero store = InsReturn INS_NEW (JPIMMED l ?ks ?vs)"
        unfolding step using r search slot True by (simp add: w(1) leaf_grow_def)
      moreover have "ins_done zero store (unat index) l P ?es (ins_ret (map_of ?es (unat index))) (JPIMMED l ?ks ?vs)"
        by (rule immed_done [OF w(2,3) new(2) len(2) _ _ new(1)]) (use len w(5) True in linarith)+
      ultimately show ?thesis unfolding es using f by simp
    next
      case full: False
      let ?D = "JU_JPSETDCD ((index AND cJU_DCDMASK l) + word_of_nat (length keys) - 1)"
      have "ins_jpimmed index s keys vals zero store = InsReturn INS_NEW (JPLEAF l ?D ?ks ?vs)"
        unfolding step using r search slot full by (simp add: w(1) leaf_grow_def)
      moreover have "ins_done zero store (unat index) l P ?es INS_NEW (JPLEAF l ?D ?ks ?vs)"
      proof (rule new_leaf_done [OF assms(2) w(2) l(1) assms(3,4) new(2) len(2) _ new(1) in_expanse_distinct [OF st(1)]])
        show "length ?ks \<le> cJL_LEAF_MAXPOP1 l" using maxpop1_bounds [OF w(2) l(1)] m len(1) by linarith
        show "map_of ?es (unat index) = None" using f by simp
        have k: "unat (word_of_nat (length keys - 1) :: word_t) = length keys - 1" using m by (intro unat_digit) linarith
        have "(index AND cJU_DCDMASK l) + word_of_nat (length keys) - 1 = (index AND cJU_DCDMASK l) + word_of_nat (length keys - 1)"
          using w(5) by (simp add: of_nat_diff)
        then show "unat ?D = P mod 256 ^ 7 + (length ?es - 1)"
          unfolding \<open>(index AND cJU_DCDMASK l) + word_of_nat (length keys) - 1 = _\<close>
          using unat_new_leaf [OF assms(2) w(2) l(1) assms(3,4), of "word_of_nat (length keys - 1)"] k m w(7)
          by (simp add: key_pairs_def)
        show "length ?es < 256" "?es \<noteq> []" using m w(5,7) by (auto simp: key_pairs_def)
      qed
      ultimately show ?thesis unfolding es by blast
    qed
  qed
qed

lemma ins_jpimmed_01_done:
  assumes "jp_wf l P (JPIMMED_01 s dcd v)" "256 ^ l dvd P" "P \<le> unat index" "unat index < P + 256 ^ l"
  shows "\<exists>r jp. ins_jpimmed_01 index s dcd v zero store = InsReturn r jp
    \<and> ins_done zero store (unat index) l P (jp_entries P (JPIMMED_01 s dcd v)) r jp"
proof -
  have w: "s = l" "1 \<le> l" "l \<le> 7" "dcd_ok l P dcd" using assms(1) by auto
  have l: "l \<le> 8" "\<not> (s < 1 \<or> 7 < s)" using w(1-3) by auto
  let ?o = "jp_base P 0 dcd" and ?i = "unat index"
  let ?old = "JU_LEASTBYTES (JU_JPDCDPOP0 dcd) l" and ?new = "JU_LEASTBYTES (JU_TRIMTODCDSIZE index) l"
  have es: "jp_entries P (JPIMMED_01 s dcd v) = [(?o, v)]" by simp
  have "in_expanse P l [(?o, v)]" using jp_entries_expanse [OF assms(1,2)] unfolding es .
  then have o: "P \<le> ?o" "?o < P + 256 ^ l" by (simp_all add: in_expanse_def)
  note io = index_low [OF assms(2) w(3) o] and ii = index_low [OF assms(2) w(3) assms(3,4)]
  have od: "?o mod 256 ^ 7 = unat dcd" using unat_dcd_less [of dcd] by (simp add: jp_base_def)
  have rel: "unat (JU_JPDCDPOP0 dcd) < unat (JU_TRIMTODCDSIZE index) \<longleftrightarrow> ?o < ?i"
    "unat (JU_JPDCDPOP0 dcd) = unat (JU_TRIMTODCDSIZE index) \<longleftrightarrow> ?o = ?i"
    unfolding unat_dcdpop0 unat_trim od [symmetric] io(1) ii(1) using o assms(3) by linarith+
  have keys: "P + unat ?old = ?o" "P + unat ?new = ?i"
  proof -
    have low: "(P mod 256 ^ 7 + y) mod 256 ^ l = y" if "y < 256 ^ l" for y
    proof -
      obtain q where q: "P mod 256 ^ 7 = 256 ^ l * q" using ii(2) by (rule dvdE)
      show ?thesis unfolding q using that by simp
    qed
    have "unat ?old = ?o - P" using o w(2,3) unfolding unat_leastbytes [OF w(2) l(1)] unat_dcdpop0 od [symmetric] io(1) by (intro low) linarith
    then show "P + unat ?old = ?o" using o(1) by simp
    have "unat ?new = ?i - P" using assms(3,4) unfolding unat_leastbytes [OF w(2) l(1)] unat_trim ii(1) by (intro low) linarith
    then show "P + unat ?new = ?i" using assms(3) by simp
  qed
  show ?thesis
  proof (cases "?o = ?i")
    case True
    then have "JU_JPDCDPOP0 dcd = JU_TRIMTODCDSIZE index" using rel(2) by (simp add: word_unat_eq_iff)
    then have "ins_jpimmed_01 index s dcd v zero store = InsReturn (INS_EXISTS v) (JPIMMED_01 s dcd (store v))"
      using l(2) by (simp add: ins_jpimmed_01_def Let_def)
    moreover have "ins_done zero store ?i l P [(?o, v)] (INS_EXISTS v) (JPIMMED_01 s dcd (store v))"
      unfolding ins_done_def using assms(1) True by (auto simp: ins_counted_immed stored_def stored_value_def)
    ultimately show ?thesis unfolding es by blast
  next
    case False
    then have ne: "JU_JPDCDPOP0 dcd \<noteq> JU_TRIMTODCDSIZE index" using rel(2) by auto
    have lt: "JU_JPDCDPOP0 dcd < JU_TRIMTODCDSIZE index \<longleftrightarrow> ?o < ?i" using rel(1) by (simp add: word_less_nat_alt)
    define ks where "ks = (if ?o < ?i then [?old, ?new] else [?new, ?old])"
    define vs where "vs = (if ?o < ?i then [v, store zero] else [store zero, v])"
    have idem: "JU_LEASTBYTES (JU_LEASTBYTES k l) l = JU_LEASTBYTES k l" for k by (simp add: JU_LEASTBYTES_def)
    have ok: "leaf_keys_ok l ks" "length vs = length ks" "length ks = 2"
      using keys False idem by (auto simp: ks_def vs_def leaf_keys_ok_def word_less_nat_alt)
    have none: "map_of [(?o, v)] ?i = None" using False by simp
    have st: "set (key_pairs P ks vs) = stored zero store ?i [(?o, v)]"
      unfolding stored_new [OF none] using keys by (auto simp: ks_def vs_def key_pairs_def)
    have step: "ins_jpimmed_01 index s dcd v zero store = (if l \<le> 3 then InsReturn INS_NEW (JPIMMED l ks vs)
      else InsReturn INS_NEW (JPLEAF l (JU_JPSETDCD (JU_TRIMTODCDSIZE index AND cJU_DCDMASK l)) ks vs))"
      using l(2) ne lt by (simp add: ins_jpimmed_01_def Let_def w(1) ks_def vs_def)
    show ?thesis
    proof (cases "l \<le> 3")
      case True
      have "ins_done zero store ?i l P [(?o, v)] (ins_ret (map_of [(?o, v)] ?i)) (JPIMMED l ks vs)"
        by (rule immed_done [OF w(2) True ok(1,2) _ _ st]) (use ok(3) immed_maxpop1_bounds [OF w(2) True] in simp_all)
      then show ?thesis unfolding es step using True none by simp
    next
      case False
      have D: "unat (JU_JPSETDCD (JU_TRIMTODCDSIZE index AND cJU_DCDMASK l)) = P mod 256 ^ 7"
      proof -
        have "unat (JU_TRIMTODCDSIZE index AND cJU_DCDMASK l) = P mod 256 ^ 7"
          unfolding unat_and_dcdmask [OF w(2,3)] unat_trim using ii(3) by simp
        then show ?thesis unfolding unat_setdcd0 by simp
      qed
      have "ins_done zero store ?i l P [(?o, v)] INS_NEW (JPLEAF l (JU_JPSETDCD (JU_TRIMTODCDSIZE index AND cJU_DCDMASK l)) ks vs)"
        by (rule new_leaf_done [OF assms(2) w(2,3) assms(3,4) ok(1,2) _ st _ none])
          (use ok(3) maxpop1_bounds [OF w(2,3)] D in simp_all)
      then show ?thesis unfolding es step using False by simp
    qed
  qed
qed

end
