(* ===== verification/JudyInsBranch.thy ===== *)
theory JudyInsBranch
  imports JudyInsKinds
begin

text \<open>The turns of \<open>j__udyInsWalk\<close> at branches: one child replaced or added, and the branch put above a pointer.\<close>

section \<open>One child of a branch\<close>

text \<open>\<open>jp'\<close> is the branch \<open>jp\<close> with \<open>c\<close> at the digit \<open>d\<close>.\<close>

definition child_at :: "'v jp \<Rightarrow> nat \<Rightarrow> 'v jp \<Rightarrow> 'v jp \<Rightarrow> bool" where
  "child_at jp d c jp' \<longleftrightarrow> jp_branch jp' = jp_branch jp \<and> jp_shape jp' \<and> jp_is_u jp' = jp_is_u jp
     \<and> set (jp_children jp') = {x \<in> set (jp_children jp). fst x \<noteq> d} \<union> {(d, c)}"

lemma stored_blocks:
  fixes E :: "nat \<Rightarrow> 'v jp \<Rightarrow> (nat \<times> 'v) list"
  assumes "cs' = {x \<in> cs. fst x \<noteq> d} \<union> {(d, c')}" "\<And>e c y. (e, c) \<in> cs \<Longrightarrow> y \<in> set (E e c) \<Longrightarrow> fst y = i \<Longrightarrow> e = d"
    and "\<And>c. (d, c) \<in> cs \<Longrightarrow> set (E d c) = set es" "es \<noteq> [] \<Longrightarrow> \<exists>c. (d, c) \<in> cs"
    and "set (E d c') = stored zero store i es" "set all = (\<Union>x\<in>cs. set (E (fst x) (snd x)))" "map_of all i = map_of es i"
  shows "(\<Union>x\<in>cs'. set (E (fst x) (snd x))) = stored zero store i all"
proof -
  define U where "U = (\<Union>x\<in>{x \<in> cs. fst x \<noteq> d}. set (E (fst x) (snd x)))"
  have memU: "y \<in> U \<longleftrightarrow> (\<exists>e c. (e, c) \<in> cs \<and> e \<noteq> d \<and> y \<in> set (E e c))" for y unfolding U_def by auto
  have mem: "y \<in> set all \<longleftrightarrow> (\<exists>e c. (e, c) \<in> cs \<and> y \<in> set (E e c))" for y unfolding assms(6) by (auto simp: Bex_def)
  have "{y \<in> set all. fst y \<noteq> i} = U \<union> {y \<in> set es. fst y \<noteq> i}"
  proof (intro equalityI subsetI)
    fix y assume y: "y \<in> {y \<in> set all. fst y \<noteq> i}"
    then obtain e c where e: "(e, c) \<in> cs" "y \<in> set (E e c)" using mem by blast
    show "y \<in> U \<union> {y \<in> set es. fst y \<noteq> i}"
    proof (cases "e = d")
      case True
      then have "set (E e c) = set es" using assms(3) e(1) by simp
      then show ?thesis using e(2) y by simp
    next
      case False
      then show ?thesis using memU e by blast
    qed
  next
    fix y assume "y \<in> U \<union> {y \<in> set es. fst y \<noteq> i}"
    then consider "y \<in> U" | "y \<in> set es" "fst y \<noteq> i" by blast
    then show "y \<in> {y \<in> set all. fst y \<noteq> i}"
    proof cases
      case 1
      then obtain e c where e: "(e, c) \<in> cs" "e \<noteq> d" "y \<in> set (E e c)" using memU by blast
      then have "fst y \<noteq> i" using assms(2) by metis
      then show ?thesis using mem e by blast
    next
      case 2
      then obtain c where c: "(d, c) \<in> cs" using assms(4) by (cases es) auto
      then have "y \<in> set (E d c)" using assms(3) 2(1) by simp
      then show ?thesis using mem c 2(2) by blast
    qed
  qed
  moreover have "(\<Union>x\<in>cs'. set (E (fst x) (snd x))) = U \<union> stored zero store i es"
    unfolding assms(1) U_def using assms(5) by (simp add: Un_commute)
  ultimately show ?thesis by (simp only: stored_def assms(7) Un_assoc)
qed

lemma child_at_done:
  assumes "jp_wf l P jp" "jp_branch jp = Some (s, dcd)" "256 ^ l dvd P"
    and "jp_base P s dcd \<le> i" "i < jp_base P s dcd + 256 ^ s"
  defines "d \<equiv> i div 256 ^ (s - 1) mod 256"
  defines "Q \<equiv> jp_base P s dcd + d * 256 ^ (s - 1)"
  defines "es \<equiv> (case map_of (jp_children jp) d of None \<Rightarrow> [] | Some c \<Rightarrow> jp_entries Q c)"
  assumes "child_at jp d c' jp'" "jp_wf (s - 1) Q c'" "\<not> jp_is_null c'" "set (jp_entries Q c') = stored zero store i es"
  shows "ins_done zero store i l P (jp_entries P jp) (ins_ret (map_of es i)) jp'"
proof -
  let ?B = "jp_base P s dcd" and ?W = "256 ^ (s - 1) :: nat" and ?E = "\<lambda>d c. jp_entries (jp_base P s dcd + d * 256 ^ (s - 1)) c"
  note b = branch_bounds [OF assms(2,1,3)]
  note w = assms(1) [unfolded jp_wf_branch [OF assms(2)]]
  have s1: "1 \<le> s" using b(1) by simp
  have c: "jp_branch jp' = Some (s, dcd)" "jp_shape jp'" "jp_is_u jp' = jp_is_u jp"
    "set (jp_children jp') = {x \<in> set (jp_children jp). fst x \<noteq> d} \<union> {(d, c')}"
    using assms(2,9) by (simp_all add: child_at_def)
  have kids: "(jp_is_u jp' \<or> \<not> jp_is_null y) \<and> jp_wf (s - 1) (?B + e * ?W) y" if "(e, y) \<in> set (jp_children jp')" for e y
    using that w assms(10,11) unfolding c(3,4) Q_def by auto
  have ex': "in_expanse ?B s (jp_list ?B jp')"
  proof -
    have "in_expanse ?B s (jp_entries P jp')"
      using c(1,2) b(1) by (rule branch_in_base) (use kids b(9) jp_entries_expanse in blast)
    then show ?thesis unfolding narrow_entries [OF jp_branch_expanse [OF c(1)]] .
  qed
  have dg: "?B + d * ?W \<le> i" "i < ?B + d * ?W + ?W"
    using digit_of_base(2,3) [OF b(7) assms(4,5) s1] unfolding d_def by simp_all
  have block: "e = d" if "?B + e * ?W \<le> i" "i < ?B + e * ?W + ?W" for e
  proof -
    have "(i - ?B) div ?W = e" using that by (intro div_nat_eqI) (simp_all add: algebra_simps)
    moreover have "(i - ?B) div ?W = d" using dg by (intro div_nat_eqI) (simp_all add: algebra_simps)
    ultimately show ?thesis by simp
  qed
  have look: "map_of (jp_entries P jp) i = map_of es i"
    unfolding branch_lookup_inside [OF assms(2,1,3-5), folded d_def] es_def Q_def by (simp split: option.splits)
  have mo: "map_of (jp_children jp) d = Some y \<longleftrightarrow> (d, y) \<in> set (jp_children jp)" for y using b(10) by simp
  have l: "set (jp_list ?B jp') = (\<Union>x\<in>set (jp_children jp'). set (?E (fst x) (snd x)))"
    unfolding jp_list_branch [OF c(1)] by (simp add: case_prod_beta)
  have st: "set (jp_list ?B jp') = stored zero store i (jp_entries P jp)"
    unfolding l
  proof (rule stored_blocks [where es = es])
    show "set (jp_children jp') = {x \<in> set (jp_children jp). fst x \<noteq> d} \<union> {(d, c')}" by (rule c(4))
    fix e y z assume e: "(e, y) \<in> set (jp_children jp)" and z: "z \<in> set (?E e y)" "fst z = i"
    have "in_expanse (?B + e * ?W) (s - 1) (?E e y)" by (rule jp_entries_expanse [OF b(8) [OF e] b(9)])
    then show "e = d" using z block [of e] by (auto simp: in_expanse_def)
  next
    fix y assume "(d, y) \<in> set (jp_children jp)"
    then have "map_of (jp_children jp) d = Some y" using mo by blast
    then show "set (?E d y) = set es" unfolding es_def Q_def by simp
  next
    assume "es \<noteq> []"
    then show "\<exists>y. (d, y) \<in> set (jp_children jp)" unfolding es_def using mo by (auto split: option.splits)
  next
    show "set (?E d c') = stored zero store i es" using assms(12) unfolding Q_def .
    show "set (jp_entries P jp) = (\<Union>x\<in>set (jp_children jp). set (?E (fst x) (snd x)))"
      unfolding jp_entries_branch [OF assms(2)] by (simp add: case_prod_beta)
  qed (rule look)
  have l8: "l \<le> 8" "l = 8 \<longleftrightarrow> s = 8" using b(2,3) by auto
  have "ins_done zero store i l P (jp_entries P jp) (ins_ret (map_of (jp_entries P jp) i)) jp'"
  proof (rule ins_done_narrow [OF jp_branch_expanse [OF c(1)] b(2) l8 _ refl _ ex' st])
    show "dcd_ok l P dcd" using w by blast
    have "jp_list ?B jp' \<noteq> []" using st by (auto simp: stored_def)
    then show "jp_body ?B jp'" unfolding jp_body_branch [OF c(1)] using b(1) c(2) kids by blast
    show "distinct (map fst (jp_entries P jp))" by (rule in_expanse_distinct [OF jp_entries_expanse [OF assms(1,3)]])
    show "length (jp_entries P jp) = unat dcd mod 256 ^ s + 1" if "s \<le> 7" using w that by (simp add: unat_branch_pop0)
  qed
  then show ?thesis unfolding look .
qed

section \<open>Children by their place\<close>

lemma set_update_pair:
  fixes xs :: "(nat \<times> 'b) list"
  assumes "distinct (map fst xs)" "n < length xs" "fst (xs ! n) = k"
  shows "set (xs[n := (k, y)]) = {x \<in> set xs. fst x \<noteq> k} \<union> {(k, y)}"
  using stored_update(1) [OF assms, of "\<lambda>_. y" y] stored_update(2) [OF assms] by (simp add: stored_old)

text \<open>The place of the digit's child in a branch.\<close>

definition place_of :: "'v jp \<Rightarrow> nat \<Rightarrow> jp_place \<Rightarrow> bool" where
  "place_of jp d place \<longleftrightarrow>
     (\<exists>c. jp_at jp place = Some c \<and> (d, c) \<in> set (jp_children jp))
     \<and> (\<forall>c'. child_at jp d c' (jp_put jp place c'))"

lemma place_l:
  assumes "jp_shape (JPBRANCH_L s dcd jbl)" "n < length jbl" "unat (fst (jbl ! n)) = d"
  shows "place_of (JPBRANCH_L s dcd jbl) d (AtJbl n)"
proof -
  have srt: "sorted_wrt (<) (map fst jbl)" using assms(1) by simp
  let ?ps = "digit_pairs jbl"
  have n: "n < length ?ps" "?ps ! n = (d, snd (jbl ! n))" using assms(2,3) by (simp_all add: digit_pairs_def)
  have dist: "distinct (map fst ?ps)" using digit_pairs_sorted [OF srt] by (simp add: strict_sorted_iff)
  have up: "digit_pairs (jbl[n := (fst (jbl ! n), c)]) = ?ps[n := (d, c)]" for c
    using assms(3) by (simp add: digit_pairs_def map_update)
  have sh: "jp_shape (JPBRANCH_L s dcd (jbl[n := (fst (jbl ! n), c)]))" for c
  proof -
    have "map fst (jbl[n := (fst (jbl ! n), c)]) = map fst jbl"
      using assms(2) by (simp add: map_update list_update_same_conv)
    then show ?thesis using assms(1) by simp
  qed
  have "(d, snd (jbl ! n)) \<in> set ?ps" using n by (metis nth_mem)
  then show ?thesis
    unfolding place_of_def child_at_def jp_put.simps jp_children_lists up
    using assms(2) sh set_update_pair [OF dist n(1), of d] n(2) by simp
qed

lemma place_u:
  assumes "jp_shape (JPBRANCH_U s dcd jbu)" "d < 256"
  shows "place_of (JPBRANCH_U s dcd jbu) d (AtJbu d)"
proof -
  let ?ps = "enumerate 0 jbu"
  have len: "length jbu = 256" using assms(1) by simp
  have n: "d < length ?ps" "?ps ! d = (d, jbu ! d)" using assms(2) len by (simp_all add: nth_enumerate_eq)
  have dist: "distinct (map fst ?ps)" using sorted_enumerate [of 0 jbu] by (simp add: strict_sorted_iff)
  have up: "enumerate 0 (jbu[d := c]) = ?ps[d := (d, c)]" for c
    using assms(2) len by (intro nth_equalityI) (auto simp: nth_enumerate_eq nth_list_update)
  have "(d, jbu ! d) \<in> set ?ps" using n by (metis nth_mem)
  then show ?thesis
    unfolding place_of_def child_at_def jp_put.simps jp_children.simps up
    using assms(2) len set_update_pair [OF dist n(1), of d] n(2) by simp
qed

lemma shape_b: "jp_shape (JPBRANCH_B s dcd jbb) \<longleftrightarrow> bm_shape 8 jbb"
  by (auto simp: bm_shape_def cJU_NUMSUBEXPB_def)

lemma place_b:
  assumes "jp_shape (JPBRANCH_B s dcd jbb)" "d < 256" "jbb ! (d div 32) = (bm, jps)" "bit bm (d mod 32)"
  shows "place_of (JPBRANCH_B s dcd jbb) d (AtJbb (d div 32) (bits_below bm (d mod 32)))"
proof -
  have sh: "bm_shape 8 jbb" using assms(1) by (simp only: shape_b)
  have d: "d < LENGTH(32) * 8" "jbb ! (d div LENGTH(32)) = (bm, jps)" "bit bm (d mod LENGTH(32))" using assms(2-4) by simp_all
  note u = bm_update [OF sh d]
  have "d div 32 < length jbb" using bm_digit(1) [OF sh d(1,2)] by simp
  then have "jp_at (JPBRANCH_B s dcd jbb) (AtJbb (d div 32) (bits_below bm (d mod 32))) = Some (jps ! bits_below bm (d mod 32))"
    using u(3) assms(3) by simp
  moreover have "child_at (JPBRANCH_B s dcd jbb) d c (jp_put (JPBRANCH_B s dcd jbb) (AtJbb (d div 32) (bits_below bm (d mod 32))) c)" for c
    unfolding child_at_def jp_put.simps shape_b jp_children_lists assms(3) fst_conv snd_conv using u(1,2) [of c] by simp
  ultimately show ?thesis unfolding place_of_def jp_children_lists using u(4) by auto
qed

section \<open>Branches that gain a child\<close>

lemma new_child_l:
  assumes "jp_shape (JPBRANCH_L s dcd jbl)" "length jbl < 7" "d \<notin> fst ` set (digit_pairs jbl)" "unat (e :: uint8) = d"
  defines "n \<equiv> insertion_point (map (ucast \<circ> fst) jbl) (word_of_nat d)"
  shows "child_at (JPBRANCH_L s dcd jbl) d c (JPBRANCH_L s dcd (insert_slot jbl (length jbl) n (e, c)))"
proof -
  have srt: "sorted_wrt (<) (map fst jbl)" using assms(1) by simp
  let ?keys = "map (ucast \<circ> fst) jbl :: word_t list"
  let ?jbl = "take n jbl @ (e, c) # drop n jbl"
  have d: "d < 256" using unat_byte_less [of e] assms(4) by simp
  have n: "n \<le> length jbl" unfolding n_def using insertion_point_le [of ?keys "word_of_nat d"] by simp
  have nm: "word_of_nat d \<notin> set ?keys" using jbl_place(4) [OF srt d] assms(3) unfolding jbl_pairs_digits by simp
  have key: "map (ucast \<circ> fst) ?jbl = take n ?keys @ word_of_nat d # drop n ?keys"
    using assms(4) ucast_byte [of e] by (simp add: take_map drop_map del: word_of_nat_eq_iff)
  have "sorted_wrt (<) (map (ucast \<circ> fst) ?jbl :: word_t list)"
    unfolding key unfolding n_def by (rule sorted_insert_slot [OF jbl_keys_sorted [OF srt] nm])
  then have "sorted_wrt (<) (map (ucast :: uint8 \<Rightarrow> word_t) (map fst ?jbl))" by (simp only: map_map)
  then have "sorted_wrt (<) (map fst ?jbl)"
    unfolding sorted_wrt_map by (simp only: word_less_nat_alt unat_ucast_byte)
  then have sh: "jp_shape (JPBRANCH_L s dcd ?jbl)" using assms(2) n by simp
  have "set (digit_pairs ?jbl) = insert (d, c) (set (digit_pairs jbl))"
    unfolding digit_pairs_def set_map set_insert_slot [OF n] by (simp add: assms(4))
  moreover have "fst x \<noteq> d" if "x \<in> set (digit_pairs jbl)" for x using assms(3) that by (metis imageI)
  then have "{x \<in> set (digit_pairs jbl). fst x \<noteq> d} = set (digit_pairs jbl)" by blast
  ultimately show ?thesis
    unfolding child_at_def jp_children_lists insert_slot_eq [OF n] using sh by simp
qed

lemma new_child_b:
  assumes "jp_shape (JPBRANCH_B s dcd jbb)" "d < 256" "jbb ! (d div 32) = (bm, jps)" "\<not> bit bm (d mod 32)"
  shows "child_at (JPBRANCH_B s dcd jbb) d c (JPBRANCH_B s dcd (jbb[d div 32 := (bm OR JU_BITPOSMASKB d,
      insert_slot jps (unat (j__udyCountBitsB bm)) (bits_below bm (d mod 32)) c)]))"
    and "d \<notin> fst ` set (jp_children (JPBRANCH_B s dcd jbb))"
proof -
  have sh: "bm_shape 8 jbb" using assms(1) by (simp only: shape_b)
  have d: "d < LENGTH(32) * 8" "jbb ! (d div LENGTH(32)) = (bm, jps)" "\<not> bit bm (d mod LENGTH(32))" using assms(2-4) by simp_all
  have mk: "push_bit (d mod LENGTH(32)) 1 = JU_BITPOSMASKB d" by (simp add: JU_BITPOSMASKB_def cJU_BITSPERSUBEXPB_def)
  note u = bm_insert(1,2) [OF sh d, unfolded mk]
  show no: "d \<notin> fst ` set (jp_children (JPBRANCH_B s dcd jbb))" unfolding jp_children_lists by (rule bm_insert(3) [OF sh d])
  then have same: "{x \<in> set (bm_list jbb). fst x \<noteq> d} = set (bm_list jbb)" unfolding jp_children_lists by force
  have len: "length jps = length (set_positions bm)" by (rule bm_digit(2) [OF sh d(1,2)])
  then have off: "bits_below bm (d mod 32) \<le> length jps" using bits_below_le [of "d mod 32" bm] by simp
  have cnt: "unat (j__udyCountBitsB bm) = length jps" unfolding count_bits_B len ..
  show "child_at (JPBRANCH_B s dcd jbb) d c (JPBRANCH_B s dcd (jbb[d div 32 := (bm OR JU_BITPOSMASKB d,
      insert_slot jps (unat (j__udyCountBitsB bm)) (bits_below bm (d mod 32)) c)]))"
    unfolding child_at_def shape_b jp_children_lists cnt insert_slot_eq [OF off] same using u [of c] by simp
qed

end
