(* ===== verification/JudyInsOutlier.thy ===== *)
theory JudyInsOutlier
  imports JudyInsBranch
begin

text \<open>The branch that \<open>j__udyInsertBranch\<close> puts above a narrow pointer for an index outside its expanse.\<close>

lemma narrow_expanse:
  assumes "jp_wf l P jp" "jp_expanse jp = Some (s, dcd)" "256 ^ l dvd P"
  shows "in_expanse (jp_base P s dcd) s (jp_entries P jp)"
  using assms(2)
proof (cases rule: narrow_cases)
  case branch
  then show ?thesis by (rule branch_expanse [OF _ assms(1,3)])
next
  case (leaf keys vals)
  have "leaf_keys_ok s keys" "1 \<le> s" "s \<le> 8" "length vals = length keys" using assms(1) by (auto simp: leaf)
  from in_expanse_keys [OF this] show ?thesis by (simp add: leaf)
next
  case (leafb1 jlb)
  then have "length jlb = cJU_NUMSUBEXPL" "\<forall>(bm, vs)\<in>set jlb. length vs = length (set_positions bm)"
    using assms(1) by auto
  from leafb1_sorted [OF this] show ?thesis
    by (auto simp: leafb1 in_expanse_def sorted_wrt_map case_prod_beta)
qed

section \<open>The level where the index diverges\<close>

lemma diverging_level_spec:
  "X' = drop_bit (8 * k) X \<Longrightarrow> X' \<noteq> 0 \<Longrightarrow> diverging_level X' k = L \<Longrightarrow>
   k < L \<and> drop_bit (8 * L) X = 0 \<and> drop_bit (8 * (L - 1)) X \<noteq> 0"
proof (induction X' k rule: diverging_level.induct)
  case (1 X' k)
  have d: "drop_bit 8 X' = drop_bit (8 * (k + 1)) X" unfolding 1(2) by (simp add: drop_bit_drop_bit add.commute)
  show ?case
  proof (cases "drop_bit 8 X' = 0")
    case True
    then have "L = k + 1" using 1(4) by (subst (asm) diverging_level.simps) (simp add: Let_def)
    then show ?thesis using 1(2,3) True unfolding d by simp
  next
    case False
    then have "diverging_level (drop_bit 8 X') (k + 1) = L" using 1(4) by (subst (asm) diverging_level.simps) (simp add: Let_def)
    from 1(1) [OF refl False d False this] show ?thesis by simp
  qed
qed

lemma low_words: "(index XOR w) AND drop_bit 8 cJU_ALLONES = JU_TRIMTODCDSIZE index XOR (w AND mask 56)"
  by (rule bit_word_eqI) (auto simp: JU_TRIMTODCDSIZE_def cJU_ALLONES_def bit_simps)

lemma unat_div_drop: "unat (drop_bit (8 * k) (w :: word_t)) = unat w div 256 ^ k"
  by (simp only: unat_drop_bit_eq) (simp add: drop_bit_eq_div power_256)

lemma drop_xor_zero: "drop_bit n (u XOR w :: word_t) = 0 \<longleftrightarrow> drop_bit n u = drop_bit n w"
  by (simp add: bit_eq_iff bit_simps)

lemma unat_branch_dcd:
  assumes "1 \<le> s" "s \<le> L" "L \<le> 7"
  shows "unat (JU_JPSETDCD (NOT (cJU_DCDMASK s XOR cJU_DCDMASK L) AND JU_JPDCDPOP0 dcd))
    = unat dcd div 256 ^ L * 256 ^ L + unat dcd mod 256 ^ s"
proof -
  let ?w = "JU_JPDCDPOP0 dcd"
  have hi: "\<not> bit ?w n" if "56 \<le> n" for n
  proof -
    have "?w AND mask 56 = ?w"
      unfolding word_unat_eq_iff unat_and_mask unat_dcdpop0 using unat_dcd_less [of dcd] by simp
    then show ?thesis using that bit_and_iff [of ?w "mask 56" n] by (auto simp: bit_mask_iff)
  qed
  have dm: "cJU_DCDMASK s = mask 56 AND NOT (mask (8 * s))" "cJU_DCDMASK L = mask 56 AND NOT (mask (8 * L))"
    by (rule dcdmask; use assms in simp)+
  have "NOT (cJU_DCDMASK s XOR cJU_DCDMASK L) AND ?w = (?w AND cJU_DCDMASK L) OR (?w AND mask (8 * s))"
  proof (rule bit_word_eqI)
    fix n assume "n < LENGTH(64)"
    then show "bit (NOT (cJU_DCDMASK s XOR cJU_DCDMASK L) AND ?w) n \<longleftrightarrow> bit ((?w AND cJU_DCDMASK L) OR (?w AND mask (8 * s))) n"
      using assms(2) hi [of n] unfolding dm by (simp add: bit_simps) linarith
  qed
  moreover have u: "unat (?w AND cJU_DCDMASK L) = unat dcd div 256 ^ L * 256 ^ L" "unat (?w AND mask (8 * s)) = unat dcd mod 256 ^ s"
    using unat_dcd_and_dcdmask [of L dcd] assms by (simp_all add: unat_and_mask unat_dcdpop0 power_256)
  moreover have m: "unat dcd mod 256 ^ s < 256 ^ L"
  proof -
    have "unat dcd mod 256 ^ s < 256 ^ s" by simp
    also have "\<dots> \<le> 256 ^ L" using assms(2) by (intro power_increasing) auto
    finally show ?thesis .
  qed
  ultimately have e: "unat (NOT (cJU_DCDMASK s XOR cJU_DCDMASK L) AND ?w) = unat dcd div 256 ^ L * 256 ^ L + unat dcd mod 256 ^ s"
    using or_bytes [OF m] by (simp only: unat_or)
  have "unat dcd = unat dcd div 256 ^ L * 256 ^ L + unat dcd mod 256 ^ L" by (rule div_mult_mod_eq [symmetric])
  from dcd_bound [OF this assms(3) m] show ?thesis unfolding unat_setdcd0 e by simp
qed

lemma div_pow_mono: "x div 256 ^ k = y div 256 ^ k \<Longrightarrow> k \<le> m \<Longrightarrow> x div 256 ^ m = y div (256 :: nat) ^ m"
proof -
  assume e: "x div 256 ^ k = y div 256 ^ k" and "k \<le> m"
  then have "z div 256 ^ m = z div 256 ^ k div 256 ^ (m - k)" for z :: nat by (simp flip: div_mult2_eq power_add)
  then show ?thesis using e by simp
qed

section \<open>The new branch\<close>

lemma insert_branch_done:
  assumes "jp_wf l P jp" "jp_expanse jp = Some (s, dcd)" "1 \<le> s" "256 ^ l dvd P" "l \<le> 7" "P \<le> unat index" "unat index < P + 256 ^ l"
    and "\<not> (jp_base P s dcd \<le> unat index \<and> unat index < jp_base P s dcd + 256 ^ s)"
  shows "\<exists>jp'. j__udyInsertBranch jp index s (store zero) = Some jp' \<and> ins_done zero store (unat index) l P (jp_entries P jp) INS_NEW jp'"
proof -
  let ?i = "unat index" and ?a = "unat dcd" and ?b = "unat index mod 256 ^ 7" and ?w = "JU_JPDCDPOP0 dcd"
  note nw = assms(1) [unfolded narrow_wf [OF assms(2)]]
  have sl: "s \<le> l" "dcd_ok l P dcd" using nw by auto
  define X where "X = JU_TRIMTODCDSIZE index XOR ?w"
  have w56: "?w AND mask 56 = ?w"
    unfolding word_unat_eq_iff unat_and_mask unat_dcdpop0 using unat_dcd_less [of dcd] by simp
  have zero: "drop_bit (8 * k) X = 0 \<longleftrightarrow> ?b div 256 ^ k = ?a div 256 ^ k" for k
    unfolding X_def drop_xor_zero unfolding word_unat_eq_iff unat_div_drop unat_trim unat_dcdpop0 ..
  define xorexp where "xorexp = drop_bit (s * 8) ((index XOR ?w) AND drop_bit 8 cJU_ALLONES)"
  have xe: "xorexp = drop_bit (8 * s) X" unfolding xorexp_def low_words w56 X_def by (simp add: mult.commute)
  have nz: "xorexp \<noteq> 0" unfolding xe zero using assms(8) in_base_iff [OF assms(4-7), of s dcd] by simp
  define L where "L = diverging_level xorexp s"
  from diverging_level_spec [OF xe nz L_def [symmetric]]
  have L: "s < L" "?b div 256 ^ L = ?a div 256 ^ L" "?b div 256 ^ (L - 1) \<noteq> ?a div 256 ^ (L - 1)" unfolding zero by auto
  have "?b div 256 ^ l = ?a div 256 ^ l"
    using sl(2) index_low(4) [OF assms(4-7)] unfolding dcd_ok_def by simp
  then have "\<not> l \<le> L - 1" using L(3) div_pow_mono by metis
  then have Ll: "L \<le> l" "L \<le> 7" "2 \<le> L" using assms(3,5) L(1) by auto
  let ?W = "256 ^ (L - 1) :: nat"
  have pw: "(256::nat) ^ L = 256 * ?W" using Ll(3) by (simp add: power_eq_if)
  define D where "D = JU_JPSETDCD (NOT (cJU_DCDMASK s XOR cJU_DCDMASK L) AND ?w)"
  have uD: "unat D = ?a div 256 ^ L * 256 ^ L + ?a mod 256 ^ s"
    unfolding D_def by (rule unat_branch_dcd) (use assms(3) L(1) Ll(2) in simp_all)
  have "?a mod 256 ^ s < 256 ^ s" by simp
  also have "\<dots> \<le> 256 ^ L" using L(1) by (intro power_increasing) auto
  finally have D: "unat D div 256 ^ L = ?a div 256 ^ L" "unat D mod 256 ^ L = ?a mod 256 ^ s"
    unfolding uD by (rule block_div, intro block_mod)
  define B where "B = jp_base P L D"
  have okD: "dcd_ok l P D" using sl(2) div_pow_mono [OF D(1) Ll(1)] unfolding dcd_ok_def by simp
  have B: "256 ^ L dvd B" using base_in_expanse [OF assms(4) okD Ll(1)] assms(5) unfolding B_def by blast
  have iB: "B \<le> ?i" "?i < B + 256 ^ L" using in_base_iff [OF assms(4-7), of L D] L(2) D(1) unfolding B_def by auto
  have "1 \<le> L" using Ll(3) by simp
  note dig = digit_of_base [OF B iB this]
  have WB: "?W dvd B + d * ?W" for d using B unfolding pw by (metis dvd_add dvd_mult_right dvd_triv_right)
  define O' N' where "O' = JU_DIGITATSTATE ?w L" and "N' = JU_DIGITATSTATE index L"
  have uO: "unat O' = ?a div ?W mod 256" unfolding O'_def unat_digitatstate unat_dcdpop0 ..
  have uN: "unat N' = ?i div ?W mod 256" unfolding N'_def unat_digitatstate ..
  note Nlo = dig(2) [folded uN] and Nhi = dig(3) [folded uN]
  have L1: "L - 1 \<le> 7" "1 \<le> L - 1" using Ll(2,3) by simp_all
  have Olt: "unat O' * ?W < 256 ^ L" using digit_fits [OF unat_byte_less, of 0 ?W] pw by simp
  note bO = base_plus [OF Ll(2) Olt, of P D, folded B_def]
  have aO: "?a div ?W = ?a div 256 ^ L * 256 + unat O'"
  proof -
    have "?a div ?W div 256 = ?a div 256 ^ L" unfolding pw mult.commute [of 256] by (rule div_mult2_eq [symmetric])
    then show ?thesis unfolding uO by (metis div_mult_mod_eq)
  qed
  have modO: "(B + unat O' * ?W) mod 256 ^ 7 = ?a div ?W * ?W"
    unfolding bO(1) D(1) unfolding aO unfolding pw by (simp add: algebra_simps)
  have ne: "O' \<noteq> N'"
  proof
    assume "O' = N'"
    then have "?a div ?W * ?W div ?W = ?b div ?W"
      using index_low(4) [OF WB L1(1) Nlo Nhi] modO by (simp add: uN)
    then show False using L(3) by simp
  qed
  have okO: "dcd_ok (L - 1) (B + unat O' * ?W) dcd" unfolding dcd_ok_def modO by simp
  have sL: "s \<le> L - 1" using L(1) by simp
  note old = narrow_rebase [OF assms(2,1,5) sL L1(1) bO(2) okO]
  let ?new = "JPIMMED_01 (L - 1) (JU_JPSETDCD index) (store zero)"
  note u = unat_immed_01 [OF WB L1(1) Nlo Nhi]
  have new: "jp_wf (L - 1) (B + unat N' * ?W) ?new" "jp_entries (B + unat N' * ?W) ?new = [(?i, store zero)]"
    using u L1 by simp_all
  define jbl where "jbl = (if O' < N' then [(O', jp), (N', ?new)] else [(N', ?new), (O', jp)])"
  let ?jp = "JPBRANCH_L L D jbl"
  have step: "j__udyInsertBranch jp index s (store zero) = Some ?jp"
  proof -
    have dw: "jp_DcdP0 jp = dcd" by (rule narrow_set_dcd(4) [OF assms(2)])
    have "\<not> (xorexp = 0 \<or> \<not> (1 < L \<and> L < cJU_ROOTSTATE) \<or> O' = N')" using nz Ll ne by (simp add: cJU_ROOTSTATE_def)
    then show ?thesis
      unfolding j__udyInsertBranch_def Let_def dw xorexp_def [symmetric] L_def [symmetric] O'_def [symmetric] N'_def [symmetric]
        D_def [symmetric] by (simp only: if_False) (simp add: jbl_def j__udyCreateBranchL_def)
  qed
  have sh: "jp_shape ?jp" using ne by (auto simp: jbl_def)
  have kids: "(e, c) \<in> set (jp_children ?jp) \<longleftrightarrow> e = unat O' \<and> c = jp \<or> e = unat N' \<and> c = ?new" for e c
    by (auto simp: jbl_def)
  have kid: "\<not> jp_is_null c \<and> jp_wf (L - 1) (B + e * ?W) c" if "(e, c) \<in> set (jp_children ?jp)" for e c
    using that old(1) new(1) narrow_set_dcd(6) [OF assms(2)] unfolding kids by auto
  have list: "set (jp_list B ?jp) = insert (?i, store zero) (set (jp_entries P jp))"
    unfolding jp_list_branch [of ?jp L D, OF jp_branch.simps(1)] using old(2) new(2) by (auto simp: jbl_def)
  have outside: "map_of (jp_entries P jp) ?i = None"
    by (rule map_of_outside [OF narrow_expanse [OF assms(1,2,4)] assms(8)])
  have l8: "l \<le> 8" "l = 8 \<longleftrightarrow> L = 8" using assms(5) Ll(2) by auto
  have "ins_done zero store ?i l P (jp_entries P jp) (ins_ret (map_of (jp_entries P jp) ?i)) ?jp"
  proof (rule ins_done_narrow [OF _ Ll(1) l8 okD])
    show "jp_expanse ?jp = Some (L, D)" by simp
    show "jp_base P L D = B" by (simp add: B_def)
    show "set (jp_list B ?jp) = stored zero store ?i (jp_entries P jp)" unfolding list stored_new [OF outside] ..
    have "jp_list B ?jp \<noteq> []" using list by auto
    then show "jp_body B ?jp"
      unfolding jp_body_branch [of ?jp L D, OF jp_branch.simps(1)] using Ll(3) sh kid by blast
    have "in_expanse (jp_base P L D) L (jp_entries P ?jp)"
      by (rule branch_in_base [OF jp_branch.simps(1) sh Ll(3)]) (use kid WB jp_entries_expanse in \<open>unfold B_def [symmetric], blast\<close>)
    then show "in_expanse B L (jp_list B ?jp)" unfolding narrow_entries [of ?jp L D, OF jp_expanse.simps(1)] B_def .
    show "distinct (map fst (jp_entries P jp))" by (rule in_expanse_distinct [OF narrow_expanse [OF assms(1,2,4)]])
    have "s \<le> 7" using sl(1) assms(5) by simp
    then show "length (jp_entries P jp) = unat D mod 256 ^ L + 1"
      using nw unfolding D(2) narrow_entries [OF assms(2)] by blast
  qed
  then show ?thesis using step outside by simp
qed

end
