(* ===== verification/JudyInsWalk.thy ===== *)
theory JudyInsWalk
  imports JudyInsOutlier
begin

text \<open>
  \<open>j__udyInsWalk\<close> keeps a subtree well-formed and stores through the slot of the index: every turn meets its
  contract, and the walk follows by induction on the weight.
\<close>

section \<open>One turn\<close>

definition ins_turn_ok :: "'v \<Rightarrow> ('v \<Rightarrow> 'v) \<Rightarrow> word_t \<Rightarrow> nat \<Rightarrow> nat \<Rightarrow> 'v jp \<Rightarrow> 'v ins_turn \<Rightarrow> bool" where
  "ins_turn_ok zero store index l P jp turn \<longleftrightarrow>
     (case turn of
        InsReturn ret jp' \<Rightarrow> ins_done zero store (unat index) l P (jp_entries P jp) ret jp'
      | InsAgain jp' lastupop0 \<Rightarrow> jp_wf l P jp' \<and> jp_entries P jp' = jp_entries P jp
      | InsDown place \<Rightarrow>
          (\<exists>s dcd. jp_branch jp = Some (s, dcd) \<and> jp_base P s dcd \<le> unat index \<and> unat index < jp_base P s dcd + 256 ^ s
             \<and> place_of jp (unat (JU_DIGITATSTATE index s)) place)
      | InsUndefined \<Rightarrow> False)"

lemma new_child_done:
  assumes "jp_wf l P jp" "jp_branch jp = Some (s, dcd)" "256 ^ l dvd P"
    and "jp_base P s dcd \<le> unat index" "unat index < jp_base P s dcd + 256 ^ s"
  defines "d \<equiv> unat (JU_DIGITATSTATE index s)"
  assumes "d \<notin> fst ` set (jp_children jp)" "child_at jp d (JPIMMED_01 (s - 1) (JU_JPSETDCD index) (store zero)) jp'"
  shows "ins_done zero store (unat index) l P (jp_entries P jp) INS_NEW jp'"
proof -
  note b = branch_bounds [OF assms(2,1,3)]
  have s: "1 \<le> s" "1 \<le> s - 1" "s - 1 \<le> 7" using b(1-3) by auto
  let ?Q = "jp_base P s dcd + d * 256 ^ (s - 1)"
  have d: "d = unat index div 256 ^ (s - 1) mod 256" unfolding d_def unat_digitatstate ..
  have Q: "256 ^ (s - 1) dvd ?Q" by (rule b(9))
  have i: "?Q \<le> unat index" "unat index < ?Q + 256 ^ (s - 1)" using digit_of_base(2,3) [OF b(7) assms(4,5) s(1)] d by simp_all
  note u = unat_immed_01 [OF Q s(3) i]
  have mo: "map_of (jp_children jp) d = None" using assms(7) by (simp add: map_of_eq_None_iff)
  have "ins_done zero store (unat index) l P (jp_entries P jp)
      (ins_ret (map_of (case map_of (jp_children jp) d of None \<Rightarrow> [] | Some c \<Rightarrow> jp_entries ?Q c) (unat index))) jp'"
    by (rule child_at_done [OF assms(1-5), folded d, OF assms(8)]) (use mo u s in \<open>simp_all add: stored_new\<close>)
  then show ?thesis unfolding mo by simp
qed

lemma ins_branch_l_ok:
  assumes "jp_wf l P (JPBRANCH_L s dcd jbl)" "256 ^ l dvd P" "jp_base P s dcd \<le> unat index" "unat index < jp_base P s dcd + 256 ^ s"
  shows "ins_turn_ok zero store index l P (JPBRANCH_L s dcd jbl) (ins_branch_l index pop0 last0 s dcd jbl (store zero))"
proof (cases "branch_exppop1 s dcd pop0 > JU_BRANCHL_MAX_POP")
  case True
  then show ?thesis using convert_LtoU [OF assms(1)] by (simp add: ins_branch_l_def Let_def ins_turn_ok_def)
next
  case False
  let ?jp = "JPBRANCH_L s dcd jbl" and ?e = "JU_DIGITATSTATE index s" and ?keys = "map (ucast \<circ> fst) jbl :: word_t list"
  let ?d = "unat (JU_DIGITATSTATE index s)" and ?new = "JPIMMED_01 (s - 1) (JU_JPSETDCD index) (store zero)"
  have br: "jp_branch ?jp = Some (s, dcd)" by simp
  have sh: "jp_shape ?jp" by (rule branch_bounds(4) [OF br assms(1,2)])
  have n: "1 \<le> length jbl" "length jbl \<le> 7" "sorted_wrt (<) (map fst jbl)" using sh by auto
  have ok: "\<not> (length jbl = 0 \<or> length jbl > cJU_BRANCHLMAXJPS)" using n by (auto simp: cJU_BRANCHLMAXJPS_def)
  note place = jbl_place [OF n(3) unat_byte_less [of ?e], unfolded jbl_pairs_digits]
  let ?n = "insertion_point ?keys (word_of_nat ?d)"
  note step = ins_branch_l_def Let_def if_not_P [OF False] if_not_P [OF ok] jbl_search [OF n(3,2)] option.case
  have srt: "sorted_wrt (<) ?keys" by (rule jbl_keys_sorted [OF n(3)])
  show ?thesis
  proof (cases "word_of_nat ?d \<in> set ?keys")
    case True
    then have k1: "?n < length jbl" "fst (digit_pairs jbl ! ?n) = ?d" using place(2) by blast+
    have "fst (digit_pairs jbl ! ?n) = unat (fst (jbl ! ?n))" using k1(1) by (simp only: digit_pairs_def nth_map fst_conv)
    then have k: "?n < length jbl" "unat (fst (jbl ! ?n)) = ?d" using k1 by (simp_all only:)
    have "ins_branch_l index pop0 last0 s dcd jbl (store zero) = InsDown (AtJbl ?n)"
      unfolding step using search_result_cases(1) [OF srt True] by simp
    then show ?thesis using place_l [OF sh k] assms(3,4) by (simp add: ins_turn_ok_def)
  next
    case no: False
    then have d: "?d \<notin> fst ` set (digit_pairs jbl)" using place(4) by blast
    note r = search_result_cases(2) [OF srt no]
    show ?thesis
    proof (cases "length jbl < 7")
      case True
      have "ins_branch_l index pop0 last0 s dcd jbl (store zero)
        = InsReturn INS_NEW (JPBRANCH_L s dcd (insert_slot jbl (length jbl) ?n (?e, ?new)))"
        unfolding step using r True by (simp add: cJU_BRANCHLMAXJPS_def)
      moreover have "ins_done zero store (unat index) l P (jp_entries P ?jp) INS_NEW
          (JPBRANCH_L s dcd (insert_slot jbl (length jbl) ?n (?e, ?new)))"
        by (rule new_child_done [OF assms(1) br assms(2-4)])
          (unfold jp_children_lists, rule d, rule new_child_l [OF sh True d refl])
      ultimately show ?thesis by (simp add: ins_turn_ok_def)
    next
      case False
      then have "ins_branch_l index pop0 last0 s dcd jbl (store zero)
        = InsAgain (JPBRANCH_B s dcd (j__udyCreateBranchB (map snd jbl) (map fst jbl))) last0"
        unfolding step using r by (simp add: cJU_BRANCHLMAXJPS_def)
      then show ?thesis using convert_LtoB [OF assms(1)] by (simp add: ins_turn_ok_def)
    qed
  qed
qed

lemma ins_branch_b_ok:
  assumes "jp_wf l P (JPBRANCH_B s dcd jbb)" "256 ^ l dvd P" "jp_base P s dcd \<le> unat index" "unat index < jp_base P s dcd + 256 ^ s"
  shows "ins_turn_ok zero store index l P (JPBRANCH_B s dcd jbb) (ins_branch_b index pop0 last0 s dcd jbb (store zero))"
proof (cases "pop0 - last0 > JU_BTOU_POP_INCREMENT \<and> pop0 > JU_BRANCHB_MAX_POP \<and> branch_exppop1 s dcd pop0 > JU_BRANCHB_MIN_POP")
  case True
  obtain jbu where u: "j__udyCreateBranchU s jbb = Some jbu" "jp_wf l P (JPBRANCH_U s dcd jbu)"
    "jp_entries P (JPBRANCH_U s dcd jbu) = jp_entries P (JPBRANCH_B s dcd jbb)" using convert_BtoU [OF assms(1)] by blast
  have "ins_branch_b index pop0 last0 s dcd jbb (store zero) = InsAgain (JPBRANCH_U s dcd jbu) pop0"
    unfolding ins_branch_b_def if_P [OF True] u(1) by simp
  then show ?thesis using u(2,3) by (simp add: ins_turn_ok_def)
next
  case False
  let ?jp = "JPBRANCH_B s dcd jbb" and ?d = "unat (JU_DIGITATSTATE index s)"
  have br: "jp_branch ?jp = Some (s, dcd)" by simp
  have sh: "jp_shape ?jp" by (rule branch_bounds(4) [OF br assms(1,2)])
  then have len: "length jbb = 8" by (simp add: cJU_NUMSUBEXPB_def)
  have d: "?d < 256" by (rule unat_byte_less)
  obtain bm jps where x: "jbb ! (?d div 32) = (bm, jps)" by (cases "jbb ! (?d div 32)")
  have n: "nth_opt jbb (?d div 32) = Some (bm, jps)" using d len x by simp
  have step: "ins_branch_b index pop0 last0 s dcd jbb (store zero) =
     (if bit bm (?d mod 32) then InsDown (AtJbb (?d div 32) (bits_below bm (?d mod 32)))
      else InsReturn INS_NEW (JPBRANCH_B s dcd (jbb[?d div 32 := (bm OR JU_BITPOSMASKB ?d,
        insert_slot jps (unat (j__udyCountBitsB bm)) (bits_below bm (?d mod 32)) (JPIMMED_01 (s - 1) (JU_JPSETDCD index) (store zero)))])))"
    unfolding ins_branch_b_def if_not_P [OF False] Let_def cJU_BITSPERSUBEXPB_def n option.case prod.case
      test_bit_B count_below_B by simp
  show ?thesis
  proof (cases "bit bm (?d mod 32)")
    case True
    then show ?thesis using step place_b [OF sh d x True] assms(3,4) by (simp add: ins_turn_ok_def)
  next
    case False
    note c = new_child_b [OF sh d x False]
    have "ins_done zero store (unat index) l P (jp_entries P ?jp) INS_NEW (JPBRANCH_B s dcd (jbb[?d div 32 := (bm OR JU_BITPOSMASKB ?d,
        insert_slot jps (unat (j__udyCountBitsB bm)) (bits_below bm (?d mod 32)) (JPIMMED_01 (s - 1) (JU_JPSETDCD index) (store zero)))]))"
      by (rule new_child_done [OF assms(1) br assms(2-4) c(2,1)])
    then show ?thesis using step False by (simp add: ins_turn_ok_def)
  qed
qed

lemma outlier_test:
  assumes "256 ^ l dvd P" "l \<le> 7" "P \<le> unat index" "unat index < P + 256 ^ l" "1 \<le> s" "s \<le> 7"
  shows "JU_DCDNOTMATCHINDEX index dcd s \<longleftrightarrow> \<not> (jp_base P s dcd \<le> unat index \<and> unat index < jp_base P s dcd + 256 ^ s)"
  using assms by (simp add: dcd_match in_base_iff [OF assms(1-4)])

text \<open>A pointer with Dcd bytes: the outlier test decides between the branch above it and its own turn.\<close>

lemma checked_turn:
  assumes "jp_wf l P jp" "jp_expanse jp = Some (s, dcd)" "1 \<le> s" "s \<le> 7" "256 ^ l dvd P" "P \<le> unat index" "unat index < P + 256 ^ l"
    and "jp_base P s dcd \<le> unat index \<Longrightarrow> unat index < jp_base P s dcd + 256 ^ s \<Longrightarrow> ins_turn_ok zero store index l P jp turn"
  shows "ins_turn_ok zero store index l P jp (JU_CHECK_IF_OUTLIER jp index s (store zero) turn)"
proof -
  have "s \<le> l" "l \<le> 8" "l = 8 \<longrightarrow> s = 8" using assms(1) unfolding narrow_wf [OF assms(2)] by blast+
  then have l: "l \<le> 7" using assms(4) by linarith
  note t = outlier_test [OF assms(5) l assms(6,7,3,4), of dcd]
  have dcd: "jp_DcdP0 jp = dcd" by (rule narrow_set_dcd(4) [OF assms(2)])
  show ?thesis
  proof (cases "JU_DCDNOTMATCHINDEX index dcd s")
    case True
    then obtain jp' where "j__udyInsertBranch jp index s (store zero) = Some jp'"
      "ins_done zero store (unat index) l P (jp_entries P jp) INS_NEW jp'"
      using insert_branch_done [OF assms(1-3,5) l assms(6,7)] t by blast
    then show ?thesis using True by (simp add: JU_CHECK_IF_OUTLIER_def dcd ins_turn_ok_def)
  next
    case False
    then show ?thesis using t assms(8) by (simp add: JU_CHECK_IF_OUTLIER_def dcd)
  qed
qed

lemma root_in_base:
  assumes "jp_wf l P jp" "jp_branch jp = Some (8, dcd)" "256 ^ l dvd P" "P \<le> i" "i < P + 256 ^ l"
  shows "jp_base P 8 dcd \<le> i \<and> i < jp_base P 8 dcd + 256 ^ 8"
proof -
  note b = branch_bounds [OF assms(2,1,3)]
  have "l = 8" using b(2,3) by linarith
  then show ?thesis using b(5,6) assms(4,5) by simp
qed

lemma ins_turn:
  assumes "jp_wf l P jp" "256 ^ l dvd P" "P \<le> unat index" "unat index < P + 256 ^ l"
  shows "ins_turn_ok zero store index l P jp (ins_step zero store index pop0 last0 jp)"
proof (cases jp)
  case (JPNULL n)
  then show ?thesis using ins_jpnull_done [of l P n index store zero] assms by (auto simp: ins_turn_ok_def)
next
  case (JPBRANCH_L s dcd jbl)
  have br: "jp_branch jp = Some (s, dcd)" by (simp add: JPBRANCH_L)
  note b = branch_bounds [OF br assms(1,2)]
  have s: "\<not> (s < 2 \<or> 8 < s)" using b(1-3) by auto
  note ok = ins_branch_l_ok [OF assms(1,2) [unfolded JPBRANCH_L]]
  show ?thesis
  proof (cases "s \<le> 7")
    case True
    then show ?thesis
      unfolding JPBRANCH_L ins_step.simps if_not_P [OF s] if_P [OF True]
      by (intro checked_turn) (use assms JPBRANCH_L s ok in auto)
  next
    case False
    then have "s = 8" using s by simp
    then show ?thesis
      unfolding JPBRANCH_L ins_step.simps if_not_P [OF s] if_not_P [OF False]
      using ok root_in_base [OF assms(1) br [unfolded \<open>s = 8\<close>] assms(2-4)] by simp
  qed
next
  case (JPBRANCH_B s dcd jbb)
  have br: "jp_branch jp = Some (s, dcd)" by (simp add: JPBRANCH_B)
  note b = branch_bounds [OF br assms(1,2)]
  have s: "\<not> (s < 2 \<or> 8 < s)" using b(1-3) by auto
  note ok = ins_branch_b_ok [OF assms(1,2) [unfolded JPBRANCH_B]]
  show ?thesis
  proof (cases "s \<le> 7")
    case True
    then show ?thesis
      unfolding JPBRANCH_B ins_step.simps if_not_P [OF s] if_P [OF True]
      by (intro checked_turn) (use assms JPBRANCH_B s ok in auto)
  next
    case False
    then have "s = 8" using s by simp
    then show ?thesis
      unfolding JPBRANCH_B ins_step.simps if_not_P [OF s] if_not_P [OF False]
      using ok root_in_base [OF assms(1) br [unfolded \<open>s = 8\<close>] assms(2-4)] by simp
  qed
next
  case (JPBRANCH_U s dcd jbu)
  have br: "jp_branch jp = Some (s, dcd)" by (simp add: JPBRANCH_U)
  note b = branch_bounds [OF br assms(1,2)]
  have s: "\<not> (s < 2 \<or> 8 < s)" using b(1-3) by auto
  have ok: "ins_turn_ok zero store index l P jp (InsDown (AtJbu (unat (JU_DIGITATSTATE index s))))"
    if "jp_base P s dcd \<le> unat index" "unat index < jp_base P s dcd + 256 ^ s"
    using that place_u [OF b(4) [unfolded JPBRANCH_U] unat_byte_less] by (simp add: ins_turn_ok_def JPBRANCH_U)
  show ?thesis
  proof (cases "s \<le> 6")
    case True
    then show ?thesis
      unfolding JPBRANCH_U ins_step.simps if_not_P [OF s] if_P [OF True]
      by (intro checked_turn) (use assms JPBRANCH_U s ok in auto)
  next
    case False
    have "jp_base P s dcd \<le> unat index \<and> unat index < jp_base P s dcd + 256 ^ s"
    proof (cases "s = 8")
      case True
      then show ?thesis using root_in_base [OF assms(1) br [unfolded True] assms(2-4)] by simp
    next
      case s7: False
      then have "s = 7" "l \<le> 7" using False s b(3) by auto
      moreover from this have "l = 7" using b(2) by simp
      ultimately show ?thesis using b(5,6) assms(3,4) by simp
    qed
    then show ?thesis
      unfolding JPBRANCH_U ins_step.simps if_not_P [OF s] if_not_P [OF False] using ok by (simp add: JPBRANCH_U)
  qed
next
  case (JPLEAF s dcd keys vals)
  have s: "\<not> (s < 1 \<or> 7 < s)" using assms(1) by (auto simp: JPLEAF)
  have ok: "ins_turn_ok zero store index l P jp (ins_jpleaf index last0 s dcd keys vals zero store)"
    if "jp_base P s dcd \<le> unat index" "unat index < jp_base P s dcd + 256 ^ s"
    using ins_jpleaf_done [OF assms(1,2) [unfolded JPLEAF] that, where ?last0.0 = last0 and zero = zero and store = store]
    by (elim disjE exE conjE) (simp_all add: ins_turn_ok_def JPLEAF)
  show ?thesis
    unfolding JPLEAF ins_step.simps if_not_P [OF s]
    by (intro checked_turn) (use assms JPLEAF s ok in auto)
next
  case (JPLEAF_B1 dcd jlb)
  have ok: "ins_turn_ok zero store index l P jp (ins_jpleaf_b1 index dcd jlb zero store)"
    if "jp_base P 1 dcd \<le> unat index" "unat index < jp_base P 1 dcd + 256 ^ 1"
    using ins_jpleaf_b1_done [OF assms(1,2) [unfolded JPLEAF_B1] that, where zero = zero and store = store]
    by (elim exE conjE) (simp add: ins_turn_ok_def JPLEAF_B1)
  show ?thesis
    unfolding JPLEAF_B1 ins_step.simps
    by (rule checked_turn [where dcd = dcd]) (use assms JPLEAF_B1 ok in auto)
next
  case (JPIMMED_01 s dcd v)
  then show ?thesis using ins_jpimmed_01_done [of l P s dcd v index zero store] assms by (auto simp: ins_turn_ok_def)
next
  case (JPIMMED s keys vals)
  then show ?thesis using ins_jpimmed_done [of l P s keys vals index zero store] assms by (auto simp: ins_turn_ok_def)
qed (use assms in auto)

section \<open>The walk\<close>

lemma ins_walk:
  "jp_wf l P jp \<Longrightarrow> 256 ^ l dvd P \<Longrightarrow> P \<le> unat index \<Longrightarrow> unat index < P + 256 ^ l \<Longrightarrow>
   \<exists>ret jp' last0'. j__udyInsWalk zero store index pop0 last0 jp = Some (ret, jp', last0')
     \<and> ins_done zero store (unat index) l P (jp_entries P jp) ret jp'"
proof (induction "jp_weight jp" arbitrary: l P jp last0 rule: less_induct)
  case less
  note ok = ins_turn [OF less.prems, of zero store pop0 last0]
  show ?case
  proof (cases "ins_step zero store index pop0 last0 jp")
    case (InsReturn ret jp')
    then show ?thesis using ok by (subst j__udyInsWalk.simps) (simp add: ins_turn_ok_def)
  next
    case (InsAgain jp' last0')
    then have w: "jp_wf l P jp'" "jp_entries P jp' = jp_entries P jp" using ok by (simp_all add: ins_turn_ok_def)
    have "jp_weight jp' < jp_weight jp" by (rule weight_ins_again [OF InsAgain])
    from less.hyps [OF this w(1) less.prems(2-4)] show ?thesis
      unfolding w(2) by (subst j__udyInsWalk.simps) (simp add: InsAgain)
  next
    case (InsDown place)
    then obtain s dcd where b: "jp_branch jp = Some (s, dcd)" "jp_base P s dcd \<le> unat index" "unat index < jp_base P s dcd + 256 ^ s"
      "place_of jp (unat (JU_DIGITATSTATE index s)) place" using ok by (auto simp: ins_turn_ok_def)
    note bb = branch_bounds [OF b(1) less.prems(1,2)]
    let ?d = "unat (JU_DIGITATSTATE index s)"
    let ?Q = "jp_base P s dcd + ?d * 256 ^ (s - 1)"
    have d: "?d = unat index div 256 ^ (s - 1) mod 256" by (rule unat_digitatstate)
    obtain c where c: "jp_at jp place = Some c" "(?d, c) \<in> set (jp_children jp)" and put: "\<And>c'. child_at jp ?d c' (jp_put jp place c')"
      using b(4) by (auto simp: place_of_def)
    have s: "1 \<le> s" "s - 1 \<noteq> 8" using bb(1-3) by auto
    have i: "?Q \<le> unat index" "unat index < ?Q + 256 ^ (s - 1)"
      using digit_of_base(2,3) [OF bb(7) b(2,3) s(1)] by (simp_all add: d)
    obtain ret c' last0' where IH: "j__udyInsWalk zero store index pop0 last0 c = Some (ret, c', last0')"
      "ins_done zero store (unat index) (s - 1) ?Q (jp_entries ?Q c) ret c'"
      using less.hyps [OF weight_jp_at [OF c(1)] bb(8) [OF c(2)] bb(9) i] by blast
    have cnt: "ins_counted (s - 1) ret c' = ins_count ret c'" using s(2) by (simp add: ins_counted_def)
    note dn = IH(2) [unfolded ins_done_def cnt, THEN conjunct2] and r = IH(2) [unfolded ins_done_def, THEN conjunct1]
    have mo: "map_of (jp_children jp) ?d = Some c" using c(2) bb(10) by simp
    have "ins_done zero store (unat index) l P (jp_entries P jp)
        (ins_ret (map_of (case map_of (jp_children jp) ?d of None \<Rightarrow> [] | Some c \<Rightarrow> jp_entries ?Q c) (unat index)))
        (jp_put jp place (ins_count ret c'))"
      by (rule child_at_done [OF less.prems(1) b(1) less.prems(2) b(2,3), folded d, OF put]) (use dn mo in simp_all)
    then have "ins_done zero store (unat index) l P (jp_entries P jp) ret (jp_put jp place (ins_count ret c'))"
      unfolding mo option.case r [symmetric] .
    then show ?thesis by (subst j__udyInsWalk.simps) (simp add: InsDown c(1) IH(1))
  next
    case InsUndefined
    then show ?thesis using ok by (simp add: ins_turn_ok_def)
  qed
qed

end
