(* ===== verification/JudyInsert.thy ===== *)
theory JudyInsert
  imports JudyInsWalk
begin

text \<open>
  \<open>JudyLIns\<close> stores: on every well-formed array it succeeds, keeps the array well-formed and changes the value of
  the one index.  The interpretation \<open>judyL_store\<close> makes the laws of \<open>index_store\<close> available to the clients.
\<close>


section \<open>The array after an insertion\<close>

lemma stored_value_slot: "stored_value zero store r = store (slot_value zero r)"
  by (simp add: stored_value_def slot_value_def)

text \<open>The result of the call on an array with the pairs \<open>es\<close>.\<close>

definition ins_result_ok :: "'v \<Rightarrow> ('v \<Rightarrow> 'v) \<Rightarrow> nat \<Rightarrow> (nat \<times> 'v) list \<Rightarrow> 'v ins_result \<Rightarrow> bool" where
  "ins_result_ok zero store i es r \<longleftrightarrow>
     (\<exists>array lastupop0. r = InsOk (array, lastupop0) (slot_value zero (map_of es i)) \<and> judyL_wf array
        \<and> set (judyL_entries array) = stored zero store i es)"

lemma ins_jpm_ok:
  assumes "jp_wf 8 0 jp" "length (jp_entries 0 jp) = unat pop0 + 1" "cJU_LEAFW_MAXPOP1 - 1 \<le> pop0"
    and "cJU_LEAFW_MAXPOP1 \<le> pop0 \<or> map_of (jp_entries 0 jp) (unat index) = None"
  shows "ins_result_ok zero store (unat index) (jp_entries 0 jp) (ins_jpm zero store index pop0 last0 jp)"
proof -
  let ?es = "jp_entries 0 jp" and ?i = "unat index"
  have i: "0 \<le> ?i" "?i < 0 + 256 ^ 8" using unsigned_less [of index, where 'a = nat] by simp_all
  obtain ret jp' last' where walk: "j__udyInsWalk zero store index pop0 last0 jp = Some (ret, jp', last')"
    and dn: "ins_done zero store ?i 8 0 ?es ret jp'" using ins_walk [OF assms(1) dvd_0_right i] by blast
  have w: "ret = ins_ret (map_of ?es ?i)" "jp_wf 8 0 jp'" "set (jp_entries 0 jp') = stored zero store ?i ?es"
    using dn by (simp_all add: ins_done_def ins_counted_def)
  have root: "map_option fst (jp_branch jp') = Some cJU_ROOTSTATE"
  proof (cases jp' rule: jp_cases_branch)
    case (branch s dcd)
    then show ?thesis using w(2) unfolding jp_wf_branch [OF branch] by (simp add: cJU_ROOTSTATE_def)
  qed (use w(2) in auto)
  have ex: "in_expanse 0 8 ?es" "in_expanse 0 8 (jp_entries 0 jp')"
    using jp_entries_expanse [OF assms(1)] jp_entries_expanse [OF w(2)] by simp_all
  have len: "length (jp_entries 0 jp') = length ?es + (if map_of ?es ?i = None then 1 else 0)"
    by (rule stored_length [OF in_expanse_distinct [OF ex(1)] in_expanse_distinct [OF ex(2)] w(3)])
  define pop' where "pop' = (if ret = INS_NEW then pop0 + 1 else pop0)"
  have pop: "length (jp_entries 0 jp') = unat pop' + 1 \<and> cJU_LEAFW_MAXPOP1 \<le> pop'"
  proof (cases "map_of ?es ?i")
    case None
    then have l: "length (jp_entries 0 jp') = unat pop0 + 2" using len assms(2) by simp
    have "unat pop0 + 2 \<le> 2 ^ 64" using in_expanse_length [OF ex(2)] l by simp
    then have u: "unat (pop0 + 1) = unat pop0 + 1" unfolding unat_word_ariths by simp
    have "unat cJU_LEAFW_MAXPOP1 \<le> unat (pop0 + 1)"
      using assms(3) unfolding u by (simp add: cJU_LEAFW_MAXPOP1_def word_le_nat_alt)
    then show ?thesis using None w(1) l u by (simp add: pop'_def word_le_nat_alt)
  next
    case (Some v)
    then show ?thesis using assms(2,4) len w(1) by (simp add: pop'_def)
  qed
  have "ins_jpm zero store index pop0 last0 jp = InsOk (JL_JPM pop' jp', last') (slot_value zero (map_of ?es ?i))"
    using walk root w(1) by (cases "map_of ?es ?i") (simp_all add: ins_jpm_def pop'_def)
  then show ?thesis using pop w(2,3) unfolding ins_result_ok_def by simp
qed

lemma ins_leafw_ok:
  assumes "judyL_wf (JL_LEAFW pop0 keys vals)"
  shows "ins_result_ok zero store (unat index) (zip (map unat keys) vals) (ins_leafw zero store index last0 pop0 keys vals)"
proof -
  have w: "pop0 < cJU_LEAFW_MAXPOP1" "sorted_wrt (<) keys" "length keys = unat pop0 + 1" "length vals = length keys"
    using assms by auto
  have p: "unat pop0 < 31" using w(1) by (simp add: cJU_LEAFW_MAXPOP1_def word_less_nat_alt)
  have pop: "unat (pop0 + 1) = length keys" "length keys < 2 ^ 31" "length keys \<le> 31"
    using w(3) p by (simp_all add: unat_word_ariths(1))
  have least: "JU_LEASTBYTES k 8 = k" for k
    by (rule word_unat_eq_iff [THEN iffD2]) (use unat_leastbytes [of 8 k] unsigned_less [of k, where 'a = nat] in simp)
  then have ok: "leaf_keys_ok 8 keys" using w(2) by (simp add: leaf_keys_ok_def)
  let ?es = "key_pairs 0 keys vals" and ?n = "insertion_point keys index"
  have es: "zip (map unat keys) vals = ?es" by (simp add: key_pairs_def)
  have i: "(256 :: nat) ^ 8 dvd 0" "0 \<le> unat index" "unat index < 0 + 256 ^ 8" using unsigned_less [of index, where 'a = nat] by simp_all
  have s8: "1 \<le> (8::nat)" "(8::nat) \<le> 8" by simp_all
  note st = leaf_stored [OF ok s8 w(4) i, unfolded least]
  note step = ins_leafw_def Let_def search_leafW_sorted [OF w(2) pop(2,1)] option.case
  have max31: "pop0 + 1 < cJU_LEAFW_MAXPOP1 \<longleftrightarrow> length keys < 31"
    unfolding word_less_nat_alt pop(1) by (simp add: cJU_LEAFW_MAXPOP1_def)
  show ?thesis
  proof (cases "index \<in> set keys")
    case True
    note f = st(2) [OF True, of store zero]
    have "ins_leafw zero store index last0 pop0 keys vals
        = InsOk (JL_LEAFW pop0 keys (vals[?n := store (vals ! ?n)]), last0) (vals ! ?n)"
      unfolding step using search_result_cases(1) [OF w(2) True] f by simp
    then show ?thesis unfolding ins_result_ok_def es using f w by (simp add: key_pairs_def)
  next
    case False
    note f = st(3) [OF False, of "store zero"]
    note r = search_result_cases(2) [OF w(2) False]
    have n: "?n \<le> length keys" by (rule insertion_point_le)
    let ?ks = "take ?n keys @ index # drop ?n keys" and ?vs = "take ?n vals @ store zero # drop ?n vals"
    have slot: "insert_slot keys (length keys) ?n index = ?ks" "insert_slot vals (length keys) ?n (store zero) = ?vs"
      using insert_slot_eq [OF n] insert_slot_eq [of ?n vals] n w(4) by simp_all
    have len: "length ?ks = length keys + 1" "length ?vs = length ?ks" using n w(4) by simp_all
    show ?thesis
    proof (cases "length keys < 31")
      case True
      have "ins_leafw zero store index last0 pop0 keys vals = InsOk (JL_LEAFW (pop0 + 1) ?ks ?vs, last0) zero"
        unfolding step using r slot True max31 pop(1) by simp
      moreover have "judyL_wf (JL_LEAFW (pop0 + 1) ?ks ?vs)"
      proof -
        have "sorted_wrt (<) ?ks" using f by (simp add: leaf_keys_ok_def)
        then show ?thesis using len pop(1) True max31 by (simp del: sorted_wrt_append)
      qed
      moreover have "set (judyL_entries (JL_LEAFW (pop0 + 1) ?ks ?vs)) = stored zero store (unat index) ?es"
        using f by (simp add: stored_new key_pairs_def)
      ultimately show ?thesis unfolding ins_result_ok_def es using f by simp
    next
      case full: False
      then have l: "length keys = 31" using pop(3) by simp
      note c = cascadeL_wf [OF w(2) l w(4)]
      have e: "jp_entries 0 (j__udyCascadeL keys vals) = ?es" using c unfolding es by simp
      have "ins_leafw zero store index last0 pop0 keys vals
          = ins_jpm zero store index (cJU_LEAFW_MAXPOP1 - 1) 0 (j__udyCascadeL keys vals)"
        unfolding step using r full max31 by simp
      moreover have "ins_result_ok zero store (unat index) (jp_entries 0 (j__udyCascadeL keys vals))
          (ins_jpm zero store index (cJU_LEAFW_MAXPOP1 - 1) 0 (j__udyCascadeL keys vals))"
      proof (rule ins_jpm_ok)
        show "length (jp_entries 0 (j__udyCascadeL keys vals)) = unat (cJU_LEAFW_MAXPOP1 - 1) + 1"
          unfolding e using l w(4) by (simp add: key_pairs_def cJU_LEAFW_MAXPOP1_def)
        show "cJU_LEAFW_MAXPOP1 \<le> cJU_LEAFW_MAXPOP1 - 1 \<or> map_of (jp_entries 0 (j__udyCascadeL keys vals)) (unat index) = None"
          unfolding e using f by simp
      qed (use c in simp_all)
      ultimately show ?thesis unfolding e es by simp
    qed
  qed
qed

lemma JudyLIns_ok:
  assumes "judyL_wf array"
  shows "ins_result_ok zero store (unat index) (judyL_entries array) (JudyLIns zero store (Some (array, last0)) index)"
proof (cases array)
  case JL_NULL
  then show ?thesis by (simp add: ins_result_ok_def stored_new cJU_LEAFW_MAXPOP1_def)
next
  case (JL_LEAFW pop0 keys vals)
  then have "pop0 < cJU_LEAFW_MAXPOP1" using assms by simp
  then show ?thesis using ins_leafw_ok [OF assms [unfolded JL_LEAFW]] by (simp add: JL_LEAFW)
next
  case (JL_JPM pop0 jp)
  then have w: "cJU_LEAFW_MAXPOP1 \<le> pop0" "jp_wf 8 0 jp" "length (jp_entries 0 jp) = unat pop0 + 1" using assms by auto
  have "cJU_LEAFW_MAXPOP1 - 1 \<le> pop0"
  proof -
    have "cJU_LEAFW_MAXPOP1 - 1 \<le> cJU_LEAFW_MAXPOP1" by (simp add: cJU_LEAFW_MAXPOP1_def)
    then show ?thesis using w(1) by (rule order_trans)
  qed
  moreover have "\<not> pop0 < cJU_LEAFW_MAXPOP1" using w(1) by simp
  ultimately show ?thesis using ins_jpm_ok [OF w(2,3)] w(1) by (simp add: JL_JPM)
qed

lemma JudyLIns_store:
  assumes "judyL_wf array"
  shows "\<exists>array' last0'. JudyLIns zero store (Some (array, last0)) index
      = InsOk (array', last0') (slot_value zero (map_of (judyL_entries array) (unat index)))
    \<and> judyL_wf array'
    \<and> map_of (judyL_entries array')
        = (map_of (judyL_entries array))(unat index \<mapsto> store (slot_value zero (map_of (judyL_entries array) (unat index))))"
proof -
  obtain array' last0' where r: "JudyLIns zero store (Some (array, last0)) index
      = InsOk (array', last0') (slot_value zero (map_of (judyL_entries array) (unat index)))" "judyL_wf array'"
    "set (judyL_entries array') = stored zero store (unat index) (judyL_entries array)"
    using JudyLIns_ok [OF assms, of zero store index last0] unfolding ins_result_ok_def by blast
  have "distinct (map fst (judyL_entries array))" "distinct (map fst (judyL_entries array'))"
    using judyL_entries_sorted [OF assms] judyL_entries_sorted [OF r(2)] by (simp_all add: strict_sorted_iff)
  from stored_map_of [OF this r(3)] show ?thesis using r(1,2) unfolding stored_value_slot by blast
qed

text \<open>The state of the client's word before and after a successful call.\<close>

definition judy_ok :: "'v judy_state \<Rightarrow> bool" where
  "judy_ok m \<longleftrightarrow> judyL_wf (fst m)"

definition judy_pairs :: "'v judy_state \<Rightarrow> (nat \<times> 'v) list" where
  "judy_pairs m = judyL_entries (fst m)"

definition judy_get :: "'v judy_state \<Rightarrow> word_t \<Rightarrow> 'v judy_ret" where
  "judy_get m index = JudyLGet (fst m) index"

definition judy_put :: "'v \<Rightarrow> ('v \<Rightarrow> 'v) \<Rightarrow> 'v judy_state \<Rightarrow> word_t \<Rightarrow> ('v judy_state \<times> 'v) option" where
  "judy_put zero store m index = (case JudyLIns zero store (Some m) index of InsOk m' v \<Rightarrow> Some (m', v) | _ \<Rightarrow> None)"

interpretation judy: index_store judy_ok judy_pairs judy_get judy_put
proof unfold_locales
  fix m :: "'v judy_state" and i :: word_t
  assume ok: "judy_ok m"
  then have wf: "judyL_wf (fst m)" by (simp add: judy_ok_def)
  show "sorted_wrt (<) (map fst (judy_pairs m)) \<and> (\<forall>k\<in>fst ` set (judy_pairs m). k < 2 ^ 64)"
    unfolding judy_pairs_def by (rule judyL_entries_sorted [OF wf])
  show "judy_get m i = get_result (map_of (judy_pairs m) (unat i))"
    unfolding judy_get_def judy_pairs_def by (rule JudyLGet_lookup [OF wf])
  show "\<exists>m'. judy_put zero store m i = Some (m', slot_value zero (map_of (judy_pairs m) (unat i))) \<and> judy_ok m' \<and>
      map_of (judy_pairs m') = (map_of (judy_pairs m))(unat i \<mapsto> store (slot_value zero (map_of (judy_pairs m) (unat i))))"
    for zero store
    using JudyLIns_store [OF wf, of zero store "snd m" i] by (auto simp: judy_put_def judy_ok_def judy_pairs_def)
qed

section \<open>Properties\<close>

text \<open>C6: \<open>JudyLIns\<close> on a well-formed array ends with a slot: no assertion fails, no search runs on, no read leaves
  an array.  The slot holds the value stored under the index before, zero for a new index; after the caller has
  stored through it the array is well-formed again and its pairs differ at that index only.\<close>

theorem JudyLIns_correct:
  assumes "judyL_wf array"
  shows "\<exists>array' last0'. JudyLIns zero store (Some (array, last0)) index
      = InsOk (array', last0') (case map_of (judyL_entries array) (unat index) of None \<Rightarrow> zero | Some v \<Rightarrow> v)
    \<and> judyL_wf array'
    \<and> map_of (judyL_entries array') = (map_of (judyL_entries array))
        (unat index \<mapsto> store (case map_of (judyL_entries array) (unat index) of None \<Rightarrow> zero | Some v \<Rightarrow> v))"
  using JudyLIns_store [OF assms, of zero store last0 index] unfolding slot_value_def .

theorem JudyLIns_correct_witness:
  "\<exists>array' last0'. JudyLIns 0 (\<lambda>v. v + 1) (Some (judyL_sample, 0)) 0x020A0B0C0D0E0309 = InsOk (array', last0') 90
     \<and> judyL_wf array' \<and> map_of (judyL_entries array') (unat (0x020A0B0C0D0E0309 :: word_t)) = Some 91"
proof -
  have "JudyLGet judyL_sample 0x020A0B0C0D0E0309 = Found 90" by code_simp
  then have "map_of (judyL_entries judyL_sample) (unat (0x020A0B0C0D0E0309 :: word_t)) = Some 90"
    unfolding JudyLGet_lookup [OF judyL_sample_wf] by (simp add: get_result_def split: option.splits)
  then show ?thesis using JudyLIns_correct [OF judyL_sample_wf, of 0 "\<lambda>v. v + 1" 0 "0x020A0B0C0D0E0309"] by auto
qed

text \<open>C9: An array built from the null pointer by any sequence of insertions, each followed by a store, answers every
  lookup with the value stored last under the index, and with \<open>NotFound\<close> for an index never stored.\<close>

theorem judyL_built_by_insertions:
  "\<exists>m. put_all judy_put zero (JL_NULL, 0) kvs = Some m \<and>
     (\<forall>index. JudyLGet (fst m) index = (case map_of (rev kvs) index of None \<Rightarrow> NotFound | Some v \<Rightarrow> Found v))"
proof -
  have "judy_ok (JL_NULL, 0)" by (simp add: judy_ok_def)
  from judy.put_all_ok [OF this, of zero kvs] obtain m where m: "put_all judy_put zero (JL_NULL, 0) kvs = Some m"
    "\<forall>i. judy_get m i = get_result (case map_of (rev kvs) i of None \<Rightarrow> map_of (judy_pairs (JL_NULL, 0)) (unat i) | Some v \<Rightarrow> Some v)"
    by blast
  then show ?thesis by (auto simp: judy_get_def judy_pairs_def get_result_def split: option.splits)
qed

text \<open>C11: The recursive walk at a pointer of an array keeps the type of the subtree: it returns, with the pointer
  well-formed in its place once its population is counted, and with exactly the index's pair stored.\<close>

theorem j__udyInsWalk_keeps_type:
  assumes "jp_wf l P jp" "256 ^ l dvd P" "P \<le> unat index" "unat index < P + 256 ^ l" "l \<le> 7"
  shows "\<exists>ret jp' last0'. j__udyInsWalk zero store index pop0 last0 jp = Some (ret, jp', last0')
    \<and> (ret = INS_NEW \<longleftrightarrow> map_of (jp_entries P jp) (unat index) = None) \<and> ret \<noteq> INS_ERROR
    \<and> jp_wf l P (ins_count ret jp') \<and> \<not> jp_is_null (ins_count ret jp')
    \<and> set (jp_entries P (ins_count ret jp')) = {x \<in> set (jp_entries P jp). fst x \<noteq> unat index}
        \<union> {(unat index, store (slot_value zero (map_of (jp_entries P jp) (unat index))))}"
proof -
  obtain ret jp' last0' where w: "j__udyInsWalk zero store index pop0 last0 jp = Some (ret, jp', last0')"
    "ins_done zero store (unat index) l P (jp_entries P jp) ret jp'" using ins_walk [OF assms(1-4)] by blast
  have c: "ins_counted l ret jp' = ins_count ret jp'" using assms(5) by (simp add: ins_counted_def)
  note d = w(2) [unfolded ins_done_def c stored_def stored_value_slot]
  have "ret = ins_ret (map_of (jp_entries P jp) (unat index))" using d by blast
  then have r: "(ret = INS_NEW \<longleftrightarrow> map_of (jp_entries P jp) (unat index) = None) \<and> ret \<noteq> INS_ERROR"
    by (cases "map_of (jp_entries P jp) (unat index)") simp_all
  show ?thesis
    by (rule exI [of _ ret], rule exI [of _ jp'], rule exI [of _ last0']) (intro conjI; use w(1) d r in blast)
qed

theorem j__udyInsWalk_keeps_type_witness:
  "\<exists>ret jp' last0'. j__udyInsWalk 0 (\<lambda>_. 9) 0x105 5 0 (JPIMMED 1 [3, 4] [30, 40 :: nat]) = Some (ret, jp', last0')
     \<and> jp_wf 1 0x100 (ins_count ret jp') \<and> set (jp_entries 0x100 (ins_count ret jp')) = {(0x103, 30), (0x104, 40), (0x105, 9)}"
proof -
  have "JU_LEASTBYTES 3 1 = 3" "JU_LEASTBYTES 4 1 = 4" by (simp_all add: JU_LEASTBYTES_def JU_LEASTBYTESMASK_def)
  then have "jp_wf 1 0x100 (JPIMMED 1 [3, 4] [30, 40 :: nat])"
    by (simp add: leaf_keys_ok_def cJL_IMMED_MAXPOP1_def)
  from j__udyInsWalk_keeps_type [OF this, of "0x105" 0 "\<lambda>_. 9" 5 0] show ?thesis by auto
qed

text \<open>\<open>JudyLIns\<close> reports a missing address of the root word, and corruption when the pointer of the JPM has a type
  it does not know; the array stays as it is.\<close>

theorem JudyLIns_errors:
  assumes "cJU_LEAFW_MAXPOP1 \<le> pop0"
  shows "JudyLIns zero store None index = InsFail INS_NULLPPARRAY None \<and>
    JudyLIns zero store (Some (JL_JPM pop0 (JPINVALID t), last0)) index
      = InsFail INS_CORRUPT (Some (JL_JPM pop0 (JPINVALID t), last0))"
proof -
  have "\<not> pop0 < cJU_LEAFW_MAXPOP1" using assms by simp
  moreover have "j__udyInsWalk zero store index pop0 last0 (JPINVALID t) = Some (INS_ERROR, JPINVALID t, last0)"
    by (subst j__udyInsWalk.simps) (simp add: ins_corrupt_def)
  ultimately show ?thesis by (simp add: ins_jpm_def)
qed

theorem JudyLIns_errors_witness:
  "JudyLIns (0 :: nat) id None 7 = InsFail INS_NULLPPARRAY None \<and>
   JudyLIns 0 id (Some (JL_JPM 40 (JPINVALID 5 :: nat jp), 0)) 7 = InsFail INS_CORRUPT (Some (JL_JPM 40 (JPINVALID 5), 0))"
  using JudyLIns_errors [of 40 0 id 7 5 0] by (simp add: cJU_LEAFW_MAXPOP1_def del: JudyLIns.simps)

end
