(* ===== verification/SparseArray.thy ===== *)
theory SparseArray
  imports JudyInsert
begin

text \<open>
  \<open>sparse_array\<close> of \<open>src/judyarr.cxx\<close>, the persistent array over JudyL: an index is a \<open>long\<close>, cast to
  \<open>Word_t\<close> and back; a value slot holds an object pointer, null or not.  All operations but
  \<open>remove\<close> are modelled.  The laws of lookup and navigation come from the interpretation \<open>judyL\<close>, those of
  \<open>set\<close> from \<open>judy\<close>.
\<close>

section \<open>Operations\<close>

text \<open>
  A call ends the program in the default \<open>JUDYERROR\<close> of \<open>Judy.h\<close>, or runs into memory that is no value: \<open>JLG\<close> does not check for the error pointer that \<open>get\<close> then dereferences.
\<close>

type_synonym 'o slot = "'o option"

definition long_ok :: "int \<Rightarrow> bool" where
  "long_ok i \<longleftrightarrow> - (2 ^ 63) \<le> i \<and> i < 2 ^ 63"

fun sparse_array_get :: "'o slot judyL \<Rightarrow> int \<Rightarrow> 'o slot outcome" where
  "sparse_array_get root index =
     (case JudyLGet root (word_of_int index) of
        Found v \<Rightarrow> Returns v
      | NotFound \<Rightarrow> Returns None
      | Corrupt \<Rightarrow> Wild
      | Undefined \<Rightarrow> Wild)"

text \<open>The pointer the macro assigns, dereferenced unless null; the index is indeterminate when it is null.\<close>

fun deref_pvalue :: "'o slot nav \<Rightarrow> ('o slot \<times> int option) outcome" where
  "deref_pvalue (NavFound word v) = Returns (v, Some (sint word))"
| "deref_pvalue NavNone = Returns (None, None)"
| "deref_pvalue NavCorrupt = Exits"
| "deref_pvalue NavNullPIndex = Exits"
| "deref_pvalue NavUndefined = Wild"

definition sparse_array_first :: "'o slot judyL \<Rightarrow> int \<Rightarrow> ('o slot \<times> int option) outcome" where
  "sparse_array_first root index = deref_pvalue (JudyLFirst root (Some (word_of_int index)))"

definition sparse_array_last :: "'o slot judyL \<Rightarrow> int \<Rightarrow> ('o slot \<times> int option) outcome" where
  "sparse_array_last root index = deref_pvalue (JudyLLast root (Some (word_of_int index)))"

definition sparse_array_next :: "'o slot judyL \<Rightarrow> int \<Rightarrow> ('o slot \<times> int option) outcome" where
  "sparse_array_next root index = deref_pvalue (JudyLNext root (Some (word_of_int index)))"

definition sparse_array_prev :: "'o slot judyL \<Rightarrow> int \<Rightarrow> ('o slot \<times> int option) outcome" where
  "sparse_array_prev root index = deref_pvalue (JudyLPrev root (Some (word_of_int index)))"

text \<open>The slot that \<open>JLI\<close> returns is read and then overwritten; a new slot is null.\<close>

definition sparse_array_set :: "'o slot judy_state \<Rightarrow> int \<Rightarrow> 'o slot \<Rightarrow> ('o slot judy_state \<times> 'o slot) outcome" where
  "sparse_array_set root index value =
     (case JudyLIns None (\<lambda>_. value) (Some root) (word_of_int index) of
        InsOk root' prev \<Rightarrow> Returns (root', prev)
      | InsFail e root' \<Rightarrow> Exits
      | InsUndef \<Rightarrow> Wild)"

section \<open>Casts\<close>

lemma unat_long: "0 \<le> i \<Longrightarrow> long_ok i \<Longrightarrow> unat (word_of_int i :: word_t) = nat i"
  by (simp add: long_ok_def unsigned_of_int take_bit_int_eq_self)

lemma long_of_word: "k < 2 ^ 63 \<Longrightarrow> sint (word_of_nat k :: word_t) = int k"
  by (simp add: signed_of_nat signed_take_bit_eq_if_positive bit_iff_odd take_bit_int_eq_self)

text \<open>The pairs as clients of \<open>sparse_array\<close> see them, with indexes of type \<open>long\<close>.\<close>

definition non_negative :: "'o slot judyL \<Rightarrow> bool" where
  "non_negative root \<longleftrightarrow> (\<forall>k\<in>fst ` set (judyL_entries root). k < 2 ^ 63)"

definition position_of :: "(nat \<times> 'o slot) option \<Rightarrow> ('o slot \<times> int option) outcome" where
  "position_of r = Returns (case r of Some (k, v) \<Rightarrow> (v, Some (int k)) | None \<Rightarrow> (None, None))"

lemma deref_pair:
  assumes "\<And>k v. r = Some (k, v) \<Longrightarrow> k < 2 ^ 63"
  shows "deref_pvalue (nav_of r) = position_of r"
  using assms long_of_word by (cases r) (auto simp: position_of_def)

lemma find_index: "find P es = Some (k, v) \<Longrightarrow> k \<in> fst ` set es"
  by (metis find_Some_iff fst_conv image_eqI nth_mem)

section \<open>Properties\<close>

text \<open>C39: On a well-formed array \<open>get\<close> returns the object stored under the index, or null, for every \<open>long\<close>:
  the missing error check of the macro \<open>JLG\<close> is never felt.\<close>

theorem sparse_array_get_correct:
  assumes "judyL_wf root"
  shows "sparse_array_get root index
    = Returns (Option.bind (map_of (judyL_entries root) (unat (word_of_int index :: word_t))) (\<lambda>slot. slot))"
proof -
  have "JudyLGet root (word_of_int index) = get_result (map_of (judyL_entries root) (unat (word_of_int index :: word_t)))"
    by (rule judyL.get_pairs [OF assms])
  then show ?thesis by (simp add: get_result_def split: option.split)
qed

definition sparse_sample :: "nat slot judyL" where
  "sparse_sample = JL_LEAFW 2 [3, 5, 9] [Some 30, None, Some 90]"

lemma sparse_sample_wf: "judyL_wf sparse_sample"
  by (simp add: sparse_sample_def cJU_LEAFW_MAXPOP1_def)

theorem sparse_array_get_correct_witness:
  "sparse_array_get sparse_sample 9 = Returns (Some 90) \<and> sparse_array_get sparse_sample (- 1) = Returns None"
  using sparse_array_get_correct [OF sparse_sample_wf, of 9] sparse_array_get_correct [OF sparse_sample_wf, of "- 1"]
  by (simp add: sparse_sample_def unsigned_minus_1_eq_mask mask_eq_exp_minus_1)

text \<open>C40: As long as an array holds no negative index, \<open>first\<close>, \<open>next\<close>, \<open>last\<close> and \<open>prev\<close> started at an index
  that is not negative do what \<open>judyarr.h\<close> says of them in the order of \<open>long\<close>: the least index at or above
  the start, the least above it, the greatest at or below it, the greatest below it, or null.\<close>

theorem sparse_array_navigation:
  assumes "judyL_wf root" "non_negative root" "0 \<le> i" "long_ok i"
  shows "sparse_array_first root i = position_of (find (\<lambda>(k, v). i \<le> int k) (judyL_entries root)) \<and>
    sparse_array_next root i = position_of (find (\<lambda>(k, v). i < int k) (judyL_entries root)) \<and>
    sparse_array_last root i = position_of (find (\<lambda>(k, v). int k \<le> i) (rev (judyL_entries root))) \<and>
    sparse_array_prev root i = position_of (find (\<lambda>(k, v). int k < i) (rev (judyL_entries root)))"
proof -
  note word = unat_long [OF assms(3,4)]
  have small: "k < 2 ^ 63" if "find P es = Some (k, v)" "set es = set (judyL_entries root)" for P es k v
    using find_index [OF that(1)] assms(2) unfolding non_negative_def that(2) by blast
  have cmp: "nat i \<le> k \<longleftrightarrow> i \<le> int k" "nat i < k \<longleftrightarrow> i < int k" "k \<le> nat i \<longleftrightarrow> int k \<le> i" "k < nat i \<longleftrightarrow> int k < i" for k
    using assms(3) by linarith+
  note laws = judyL.first_pairs [OF assms(1)] judyL.next_pairs [OF assms(1)] judyL.last_pairs [OF assms(1)]
    judyL.prev_pairs [OF assms(1)]
  note defs = sparse_array_first_def sparse_array_next_def sparse_array_last_def sparse_array_prev_def
  show ?thesis
    unfolding defs laws word cmp by (intro conjI deref_pair) (auto dest: small)
qed

theorem sparse_array_navigation_witness:
  "sparse_array_next sparse_sample 5 = Returns (Some 90, Some 9) \<and> sparse_array_first sparse_sample 4 = Returns (None, Some 5)"
  using sparse_array_navigation [of sparse_sample 5] sparse_array_navigation [of sparse_sample 4] sparse_sample_wf
  by (simp add: sparse_sample_def non_negative_def long_ok_def position_of_def)

text \<open>Negative indexes come after all others: on every array without negative index, \<open>first\<close> from a
  negative start is null and \<open>last\<close> from there is the last pair of the array, although every index is
  greater than the start.\<close>

theorem sparse_array_negative_start:
  assumes "judyL_wf root" "non_negative root" "i < 0" "long_ok i"
  shows "sparse_array_first root i = Returns (None, None) \<and>
    sparse_array_last root i = position_of (nth_opt (rev (judyL_entries root)) 0)"
proof -
  have "(i + 2 ^ 64) mod 2 ^ 64 = i + 2 ^ 64" using assms(3,4) by (intro mod_pos_pos_trivial) (simp_all add: long_ok_def)
  then have "unat (word_of_int i :: word_t) = nat (i + 2 ^ 64)"
    by (simp add: unsigned_of_int take_bit_eq_mod)
  then have big: "2 ^ 63 \<le> unat (word_of_int i :: word_t)" using assms(4) by (simp add: long_ok_def le_nat_iff)
  have small: "fst x < 2 ^ 63" if "x \<in> set (judyL_entries root)" for x using assms(2) that by (auto simp: non_negative_def)
  have "find (\<lambda>(k, v). unat (word_of_int i :: word_t) \<le> k) (judyL_entries root) = None"
    using big small by (intro find_none) fastforce
  moreover have "find (\<lambda>(k, v). k \<le> unat (word_of_int i :: word_t)) (rev (judyL_entries root))
      = nth_opt (rev (judyL_entries root)) 0"
    using big small by (subst find_hd) (fastforce simp: nth_opt_def split: list.split)+
  moreover have "deref_pvalue (nav_of (nth_opt (rev (judyL_entries root)) 0)) = position_of (nth_opt (rev (judyL_entries root)) 0)"
    using small by (intro deref_pair) (force dest!: nth_opt_mem)
  ultimately show ?thesis
    by (simp add: sparse_array_first_def sparse_array_last_def judyL.first_pairs [OF assms(1)] judyL.last_pairs [OF assms(1)])
qed

theorem sparse_array_negative_start_witness:
  "sparse_array_first sparse_sample (- 1) = Returns (None, None) \<and>
   sparse_array_last sparse_sample (- 1) = Returns (Some 90, Some 9)"
  using sparse_array_negative_start [of sparse_sample "- 1"] sparse_sample_wf
  by (simp add: sparse_sample_def non_negative_def long_ok_def position_of_def)

lemma word_of_long_inj: "long_ok i \<Longrightarrow> long_ok j \<Longrightarrow> word_of_int i = (word_of_int j :: word_t) \<longleftrightarrow> i = j"
proof
  assume long: "long_ok i" "long_ok j" and e: "word_of_int i = (word_of_int j :: word_t)"
  have "sint (word_of_int k :: word_t) = k" if "long_ok k" for k
  proof -
    have "- (2 ^ 63) \<le> k" "k < 2 ^ 63" using that by (simp_all add: long_ok_def)
    then show ?thesis by (simp add: signed_of_int signed_take_bit_int_eq_self)
  qed
  then show "i = j" using long e by metis
qed simp

text \<open>C10: \<open>set\<close> on a well-formed array returns the object stored under the index before, or null, and leaves a
  well-formed array in which \<open>get\<close> answers the new object there and what it answered before everywhere
  else, for every \<open>long\<close>.\<close>

theorem sparse_array_set_get:
  assumes "judyL_wf root" "long_ok index"
  shows "\<exists>root' last0' prev. sparse_array_set (root, last0) index value = Returns ((root', last0'), prev) \<and> judyL_wf root'
    \<and> sparse_array_get root index = Returns prev
    \<and> (\<forall>j. long_ok j \<longrightarrow> sparse_array_get root' j = (if j = index then Returns value else sparse_array_get root j))"
proof -
  let ?i = "word_of_int index :: word_t"
  have ok: "judy_ok (root, last0)" using assms(1) by (simp add: judy_ok_def)
  obtain m' where m: "judy_put None (\<lambda>_. value) (root, last0) ?i = Some (m', slot_value None (map_of (judyL_entries root) (unat ?i)))"
    using judy.put_pairs [OF ok, of None "\<lambda>_. value" ?i] by (auto simp: judy_pairs_def)
  note g = judy.get_put [OF ok m]
  have r: "judyL_wf (fst m')" using g(3) by (simp add: judy_ok_def)
  have get: "sparse_array_get a j = (case JudyLGet a (word_of_int j) of Found v \<Rightarrow> Returns v | _ \<Rightarrow> Returns None)" if "judyL_wf a" for a j
    using judyL.get_total [OF that, of "word_of_int j"] by auto
  have "JudyLIns None (\<lambda>_. value) (Some (root, last0)) ?i = InsOk m' (slot_value None (map_of (judyL_entries root) (unat ?i)))"
    using m by (simp add: judy_put_def split: ins_result.splits)
  then have s: "sparse_array_set (root, last0) index value
      = Returns ((fst m', snd m'), slot_value None (map_of (judyL_entries root) (unat ?i)))"
    by (simp add: sparse_array_set_def)
  have p: "sparse_array_get root index = Returns (slot_value None (map_of (judyL_entries root) (unat ?i)))"
    by (simp add: get [OF assms(1)] judyL.get_pairs [OF assms(1)] get_result_def slot_value_def split: option.splits)
  have "sparse_array_get (fst m') j = (if j = index then Returns value else sparse_array_get root j)" if "long_ok j" for j
    using g(1) g(2) [of "word_of_int j"] word_of_long_inj [OF that assms(2)]
    by (auto simp: get [OF r] get [OF assms(1)] judy_get_def)
  then show ?thesis using s r p by blast
qed

theorem sparse_array_set_get_witness:
  "\<exists>root' last0' prev. sparse_array_set (sparse_sample, 0) 5 (Some 50) = Returns ((root', last0'), prev) \<and> judyL_wf root'
     \<and> sparse_array_get root' 5 = Returns (Some 50) \<and> sparse_array_get root' (- 1) = sparse_array_get sparse_sample (- 1)"
  using sparse_array_set_get [OF sparse_sample_wf, of 5 0 "Some 50"]
  by (fastforce simp: long_ok_def simp del: sparse_array_get.simps)

end
