(* ===== verification/HashTable.thy ===== *)
theory HashTable
  imports Prelude "HOL-Library.Multiset"
begin

text \<open>
  \<open>hash_table\<close> of \<open>src/hashtab.h\<close> and \<open>src/hashtab.cxx\<close>: a table of chains of named objects, the item put
  last first in its chain.  A name is the list of its characters without the final zero; an object is
  a pointer, null or not.  Its contract is a stack of objects for every name.
\<close>

section \<open>The hash function\<close>

unbundle bit_operations_syntax

type_synonym name = "8 word list"

text \<open>\<open>char\<close> is signed, \<open>unsigned\<close> has 32 bits.\<close>

definition hash_step :: "32 word \<Rightarrow> 8 word \<Rightarrow> 32 word" where
  "hash_step h c =
     (let h = push_bit 4 h + scast c;
          g = h AND 0xF0000000;
          h = (if g \<noteq> 0 then h XOR drop_bit 24 g else h)
      in h AND NOT g)"

definition string_hash_function :: "name \<Rightarrow> 32 word" where
  "string_hash_function name = foldl hash_step 0 name"

section \<open>The table\<close>

record 'o hash_item =
  item_name :: name
  item_obj :: "'o option"

type_synonym 'o hash_table = "'o hash_item list list"

definition hash_table_create :: "nat \<Rightarrow> 'o hash_table" where
  "hash_table_create hash_size = replicate hash_size []"

definition slot_of :: "'o hash_table \<Rightarrow> name \<Rightarrow> nat" where
  "slot_of table name = unat (string_hash_function name) mod length table"

definition hash_table_put :: "name \<Rightarrow> 'o option \<Rightarrow> 'o hash_table \<Rightarrow> 'o hash_table" where
  "hash_table_put name obj table =
     (let h = slot_of table name in table[h := \<lparr>item_name = name, item_obj = obj\<rparr> # table ! h])"

fun get_chain :: "name \<Rightarrow> 'o hash_item list \<Rightarrow> 'o option" where
  "get_chain name [] = None"
| "get_chain name (ip # chain) = (if item_name ip = name then item_obj ip else get_chain name chain)"

definition hash_table_get :: "name \<Rightarrow> 'o hash_table \<Rightarrow> 'o option" where
  "hash_table_get name table = get_chain name (table ! slot_of table name)"

text \<open>The loops of the two \<open>del\<close>: skip items until one fits, then unlink it.\<close>

fun unlink :: "('o hash_item \<Rightarrow> bool) \<Rightarrow> 'o hash_item list \<Rightarrow> 'o hash_item list \<times> bool" where
  "unlink fits [] = ([], False)"
| "unlink fits (ip # chain) =
     (if fits ip then (chain, True) else (case unlink fits chain of (chain, found) \<Rightarrow> (ip # chain, found)))"

definition hash_table_del :: "name \<Rightarrow> 'o hash_table \<Rightarrow> 'o hash_table \<times> bool" where
  "hash_table_del name table =
     (let h = slot_of table name
      in case unlink (\<lambda>ip. item_name ip = name) (table ! h) of (chain, found) \<Rightarrow> (table[h := chain], found))"

definition hash_table_del_obj :: "name \<Rightarrow> 'o option \<Rightarrow> 'o hash_table \<Rightarrow> 'o hash_table \<times> bool" where
  "hash_table_del_obj name obj table =
     (let h = slot_of table name
      in case unlink (\<lambda>ip. item_obj ip = obj \<and> item_name ip = name) (table ! h) of
           (chain, found) \<Rightarrow> (table[h := chain], found))"

text \<open>\<open>purge\<close> goes down the table; it deletes the objects, null or not, if it is told to.\<close>

definition hash_table_purge :: "bool \<Rightarrow> 'o hash_table \<Rightarrow> 'o hash_table \<times> 'o option list" where
  "hash_table_purge delete_objects table =
     (map (\<lambda>chain. []) table,
      if delete_objects then concat (map (map item_obj) (rev table)) else [])"

section \<open>The hash is below \<open>2 ^ 28\<close>\<close>

lemma hash_step_less: "unat (hash_step h c) < 2 ^ 28"
proof -
  define k where "k = (push_bit 4 h + scast c :: 32 word)"
  have top: "(0xF0000000 :: 32 word) = push_bit 28 (mask 4)" by (simp add: mask_eq_exp_minus_1)
  have g: "bit (0xF0000000 :: 32 word) m \<longleftrightarrow> 28 \<le> m \<and> m < 32" for m
    unfolding top by (auto simp: bit_simps)
  have "\<not> bit (hash_step h c) n" if "28 \<le> n" for n
  proof (cases "n < 32")
    case True
    have "\<not> bit (drop_bit 24 (k AND 0xF0000000)) n"
    proof
      assume "bit (drop_bit 24 (k AND 0xF0000000)) n"
      then have "24 + n < 32" unfolding bit_drop_bit_eq comp_def by (auto dest: bit_imp_le_length)
      then show False using that by simp
    qed
    then show ?thesis using True that g [of n] by (auto simp: hash_step_def Let_def bit_simps simp flip: k_def)
  next
    case False
    then show ?thesis by (auto dest: bit_imp_le_length)
  qed
  then have "take_bit 28 (hash_step h c) = hash_step h c" by (metis (no_types, lifting) bit_eqI bit_take_bit_iff not_le)
  then have "take_bit 28 (unat (hash_step h c)) = unat (hash_step h c)" by (metis unsigned_take_bit_eq)
  then show ?thesis by (metis take_bit_nat_less_exp)
qed

lemma string_hash_less: "unat (string_hash_function name) < 2 ^ 28"
  by (cases name rule: rev_cases) (use hash_step_less in \<open>simp_all add: string_hash_function_def\<close>)

section \<open>A stack of objects for every name\<close>

definition table_ok :: "'o hash_table \<Rightarrow> bool" where
  "table_ok table \<longleftrightarrow> table \<noteq> [] \<and> (\<forall>h<length table. \<forall>ip\<in>set (table ! h). slot_of table (item_name ip) = h)"

definition objects :: "'o hash_table \<Rightarrow> name \<Rightarrow> 'o option list" where
  "objects table name = map item_obj (filter (\<lambda>ip. item_name ip = name) (table ! slot_of table name))"

lemma slot_less: "table \<noteq> [] \<Longrightarrow> slot_of table name < length table"
  by (simp add: slot_of_def)

lemma slot_update [simp]: "slot_of (table[h := chain]) = slot_of table"
  by (simp add: slot_of_def fun_eq_iff)

lemma table_ok_update:
  assumes "table_ok table" "\<And>ip. ip \<in> set chain \<Longrightarrow> slot_of table (item_name ip) = h"
  shows "table_ok (table[h := chain])"
  unfolding table_ok_def length_list_update slot_update
proof (intro conjI allI impI ballI)
  show "table[h := chain] \<noteq> []" using assms(1) by (simp add: table_ok_def)
  fix i ip assume "i < length table" "ip \<in> set (table[h := chain] ! i)"
  then show "slot_of table (item_name ip) = i" using assms by (cases "i = h") (auto simp: table_ok_def)
qed

lemma objects_update:
  assumes "table_ok table" "h < length table"
    and "\<And>ip. ip \<in> set chain \<Longrightarrow> slot_of table (item_name ip) = h"
  shows "objects (table[h := chain]) n
    = (if slot_of table n = h then map item_obj (filter (\<lambda>ip. item_name ip = n) chain) else objects table n)"
  using assms by (simp add: objects_def)

lemma get_chain_eq:
  "get_chain name chain = (case map item_obj (filter (\<lambda>ip. item_name ip = name) chain) of [] \<Rightarrow> None | obj # _ \<Rightarrow> obj)"
  by (induction chain) auto

lemma unlink_found: "snd (unlink fits chain) \<longleftrightarrow> (\<exists>ip\<in>set chain. fits ip)"
  by (induction chain) (auto split: prod.splits)

lemma unlink_subset: "set (fst (unlink fits chain)) \<subseteq> set chain"
  by (induction chain) (auto split: prod.splits)

lemma unlink_name:
  "map item_obj (filter (\<lambda>ip. item_name ip = n) (fst (unlink (\<lambda>ip. item_name ip = name) chain)))
    = (let objs = map item_obj (filter (\<lambda>ip. item_name ip = n) chain) in if n = name then tl objs else objs)"
  by (induction chain) (auto simp: Let_def split: prod.splits)

lemma unlink_obj:
  "map item_obj (filter (\<lambda>ip. item_name ip = n) (fst (unlink (\<lambda>ip. item_obj ip = obj \<and> item_name ip = name) chain)))
    = (let objs = map item_obj (filter (\<lambda>ip. item_name ip = n) chain) in if n = name then remove1 obj objs else objs)"
  by (induction chain) (auto simp: Let_def split: prod.splits)

section \<open>Properties\<close>

lemma chain_slot: "table_ok table \<Longrightarrow> ip \<in> set (table ! slot_of table name) \<Longrightarrow> slot_of table (item_name ip) = slot_of table name"
  using slot_less [of table name] by (auto simp: table_ok_def)

lemma put_objects:
  assumes "table_ok table"
  shows "table_ok (hash_table_put name obj table)"
    and "objects (hash_table_put name obj table) n = (if n = name then obj # objects table n else objects table n)"
proof -
  let ?h = "slot_of table name"
  let ?chain = "\<lparr>item_name = name, item_obj = obj\<rparr> # table ! ?h"
  have h: "?h < length table" using assms by (intro slot_less) (simp add: table_ok_def)
  have chain: "slot_of table (item_name ip) = ?h" if "ip \<in> set ?chain" for ip using that chain_slot [OF assms] by auto
  show "table_ok (hash_table_put name obj table)" unfolding hash_table_put_def Let_def using assms chain by (rule table_ok_update)
  show "objects (hash_table_put name obj table) n = (if n = name then obj # objects table n else objects table n)"
  proof -
    have "objects (table[?h := ?chain]) n
        = (if slot_of table n = ?h then map item_obj (filter (\<lambda>ip. item_name ip = n) ?chain) else objects table n)"
      using assms h by (rule objects_update) (rule chain)
    then show ?thesis by (auto simp: hash_table_put_def Let_def objects_def [of table])
  qed
qed

lemma unlink_objects:
  fixes table :: "'o hash_table" and name n :: name
  assumes "table_ok table"
  defines "h \<equiv> slot_of table name"
  shows "table_ok (table[h := fst (unlink fits (table ! h))])"
    and "objects (table[h := fst (unlink fits (table ! h))]) n
      = (if slot_of table n = h then map item_obj (filter (\<lambda>ip. item_name ip = n) (fst (unlink fits (table ! h)))) else objects table n)"
proof -
  have h: "h < length table" using assms(1) unfolding h_def by (intro slot_less) (simp add: table_ok_def)
  have chain: "slot_of table (item_name ip) = h" if "ip \<in> set (fst (unlink fits (table ! h)))" for ip
    using that unlink_subset [of fits "table ! h"] chain_slot [OF assms(1), of ip name] by (auto simp: h_def)
  show "table_ok (table[h := fst (unlink fits (table ! h))])" using assms(1) chain by (rule table_ok_update)
  show "objects (table[h := fst (unlink fits (table ! h))]) n
      = (if slot_of table n = h then map item_obj (filter (\<lambda>ip. item_name ip = n) (fst (unlink fits (table ! h)))) else objects table n)"
    by (rule objects_update [OF assms(1) h chain])
qed

lemma del_eq: "hash_table_del name table
    = (table[slot_of table name := fst (unlink (\<lambda>ip. item_name ip = name) (table ! slot_of table name))],
       snd (unlink (\<lambda>ip. item_name ip = name) (table ! slot_of table name)))"
  by (simp add: hash_table_del_def case_prod_beta Let_def)

lemma del_obj_eq: "hash_table_del_obj name obj table
    = (table[slot_of table name := fst (unlink (\<lambda>ip. item_obj ip = obj \<and> item_name ip = name) (table ! slot_of table name))],
       snd (unlink (\<lambda>ip. item_obj ip = obj \<and> item_name ip = name) (table ! slot_of table name)))"
  by (simp add: hash_table_del_obj_def case_prod_beta Let_def)

text \<open>C35: The hash table is a stack of objects for every name. \<open>put\<close> pushes the object on the stack of its
  name, whatever other names share the chain; \<open>get\<close> returns the top, or null when the stack is empty.\<close>

theorem hash_table_put_get_correct:
  assumes "table_ok table"
  shows "table_ok (hash_table_put name obj table) \<and>
    objects (hash_table_put name obj table) = (objects table)(name := obj # objects table name) \<and>
    hash_table_get name table = (case objects table name of [] \<Rightarrow> None | obj # _ \<Rightarrow> obj) \<and>
    hash_table_get name (hash_table_put name obj table) = obj"
proof -
  have hash_table_get: "hash_table_get n t = (case objects t n of [] \<Rightarrow> None | obj # _ \<Rightarrow> obj)" for n and t :: "'a hash_table"
    unfolding hash_table_get_def objects_def by (rule get_chain_eq)
  show ?thesis using put_objects [OF assms, of name obj] by (auto simp: hash_table_get fun_eq_iff)
qed

definition sample_table :: "nat hash_table" where
  "sample_table = hash_table_put [104, 105] (Some 3) (hash_table_put [97] None (hash_table_put [104, 105] (Some 1) (hash_table_create 2)))"

lemma create_ok: "0 < n \<Longrightarrow> table_ok (hash_table_create n)"
  by (auto simp: hash_table_create_def table_ok_def)

lemma sample_table_ok: "table_ok sample_table"
  unfolding sample_table_def by (intro put_objects(1) create_ok) simp

lemma sample_objects: "objects sample_table [104, 105] = [Some 3, Some 1]"
  by code_simp

theorem hash_table_put_get_correct_witness:
  "hash_table_get [104, 105] (hash_table_put [104, 105] (Some 7) sample_table) = Some 7 \<and> hash_table_get [104, 105] sample_table = Some 3"
proof
  show "hash_table_get [104, 105] (hash_table_put [104, 105] (Some 7) sample_table) = Some 7" using hash_table_put_get_correct [OF sample_table_ok] by blast
  show "hash_table_get [104, 105] sample_table = Some 3" by code_simp
qed

text \<open>C25: \<open>del\<close> takes away the object last put under the name and says whether there was one; with an
  object it takes away the most recent entry of exactly that object.  Every other name keeps its
  stack.\<close>

theorem hash_table_del_correct:
  assumes "table_ok table"
  shows "table_ok (fst (hash_table_del name table)) \<and>
    objects (fst (hash_table_del name table)) = (objects table)(name := tl (objects table name)) \<and>
    (snd (hash_table_del name table) \<longleftrightarrow> objects table name \<noteq> []) \<and>
    table_ok (fst (hash_table_del_obj name obj table)) \<and>
    objects (fst (hash_table_del_obj name obj table)) = (objects table)(name := remove1 obj (objects table name)) \<and>
    (snd (hash_table_del_obj name obj table) \<longleftrightarrow> obj \<in> set (objects table name))"
proof -
  have "objects (fst (hash_table_del name table)) = (objects table)(name := tl (objects table name))"
    unfolding del_eq fst_conv by (rule ext) (auto simp: unlink_objects(2) [OF assms] unlink_name objects_def [of table] Let_def)
  moreover have "objects (fst (hash_table_del_obj name obj table)) = (objects table)(name := remove1 obj (objects table name))"
    unfolding del_obj_eq fst_conv by (rule ext) (auto simp: unlink_objects(2) [OF assms] unlink_obj objects_def [of table] Let_def)
  moreover have "snd (hash_table_del name table) \<longleftrightarrow> objects table name \<noteq> []"
    unfolding del_eq snd_conv unlink_found by (auto simp: objects_def filter_empty_conv)
  moreover have "snd (hash_table_del_obj name obj table) \<longleftrightarrow> obj \<in> set (objects table name)"
    unfolding del_obj_eq snd_conv unlink_found by (auto simp: objects_def)
  ultimately show ?thesis
    using unlink_objects(1) [OF assms] by (simp add: del_eq del_obj_eq)
qed

theorem hash_table_del_correct_witness:
  "objects (fst (hash_table_del [104, 105] sample_table)) [104, 105] = [Some 1] \<and> snd (hash_table_del [104, 105] sample_table) \<and>
   objects (fst (hash_table_del_obj [104, 105] (Some 1) sample_table)) [104, 105] = [Some 3]"
  using hash_table_del_correct [OF sample_table_ok, of "[104, 105]" "Some 1"] by (simp add: sample_objects)

text \<open>\<open>purge\<close> leaves a table without entries, and told to delete the objects it deletes every object of
  every chain, once for each entry.\<close>

theorem hash_table_purge_correct:
  "table_ok table \<Longrightarrow> table_ok (fst (hash_table_purge b table)) \<and> objects (fst (hash_table_purge b table)) name = [] \<and>
    mset (snd (hash_table_purge True table)) = (\<Sum>chain\<leftarrow>table. mset (map item_obj chain)) \<and> snd (hash_table_purge False table) = []"
proof -
  assume ok: "table_ok table"
  define t where "t = map (\<lambda>chain. [] :: 'a hash_item list) table"
  have "t ! slot_of t name = []" using slot_less [of t name] ok by (simp add: table_ok_def t_def)
  moreover have "table_ok t" using ok by (auto simp: table_ok_def t_def)
  moreover have "mset (concat (map (map item_obj) (rev table))) = (\<Sum>chain\<leftarrow>table. mset (map item_obj chain))"
    by (induction table) (auto simp: union_commute)
  ultimately show ?thesis using ok by (simp add: hash_table_purge_def objects_def flip: t_def)
qed

theorem hash_table_purge_correct_witness:
  "objects (fst (hash_table_purge True sample_table)) [97] = [] \<and> length (snd (hash_table_purge True sample_table)) = 3"
proof
  show "objects (fst (hash_table_purge True sample_table)) [97] = []" using hash_table_purge_correct [OF sample_table_ok] by blast
  show "length (snd (hash_table_purge True sample_table)) = 3" by code_simp
qed

end
