(* ===== verification/ObjectBag.thy ===== *)
theory ObjectBag
  imports Prelude "HOL-Library.Multiset"
begin

text \<open>
  The contract the ordered containers share: a container has a multiset of elements, an insertion of a valid
  element into a well-formed container succeeds and adds just that element, and, where the container
  promises it, a removal of an element it has takes out just that one.
\<close>

fun add_all :: "('e \<Rightarrow> 't \<Rightarrow> 't option) \<Rightarrow> 'e list \<Rightarrow> 't \<Rightarrow> 't option" where
  "add_all add [] t = Some t"
| "add_all add (e # es) t = Option.bind (add e t) (add_all add es)"

locale object_bag =
  fixes ok :: "'t \<Rightarrow> bool" and valid :: "'e \<Rightarrow> bool" and contents :: "'t \<Rightarrow> 'e multiset" and add :: "'e \<Rightarrow> 't \<Rightarrow> 't option"
  assumes add_ok: "ok t \<Longrightarrow> valid e \<Longrightarrow> \<exists>t'. add e t = Some t' \<and> ok t' \<and> contents t' = add_mset e (contents t)"
begin

lemma add_all_ok:
  assumes "ok t" "\<forall>e\<in>set es. valid e"
  shows "\<exists>t'. add_all add es t = Some t' \<and> ok t' \<and> contents t' = mset es + contents t"
  using assms
proof (induction es arbitrary: t)
  case Nil
  then show ?case by simp
next
  case (Cons e es)
  obtain t1 where t1: "add e t = Some t1" "ok t1" "contents t1 = add_mset e (contents t)"
    using add_ok [of t e] Cons.prems by auto
  obtain t' where "add_all add es t1 = Some t'" "ok t'" "contents t' = mset es + contents t1"
    using Cons.IH [OF t1(2)] Cons.prems by auto
  then show ?case using t1 by simp
qed

end

locale removing_bag = object_bag ok valid contents add
  for ok :: "'t \<Rightarrow> bool" and valid :: "'e \<Rightarrow> bool" and contents :: "'t \<Rightarrow> 'e multiset" and add :: "'e \<Rightarrow> 't \<Rightarrow> 't option" +
  fixes del :: "'e \<Rightarrow> 't \<Rightarrow> 't option"
  assumes del_ok: "ok t \<Longrightarrow> e \<in># contents t \<Longrightarrow> \<exists>t'. del e t = Some t' \<and> ok t' \<and> contents t = add_mset e (contents t')"
begin

lemma del_all_ok:
  assumes "ok t" "contents t = mset es + rest"
  shows "\<exists>t'. add_all del es t = Some t' \<and> ok t' \<and> contents t' = rest"
  using assms
proof (induction es arbitrary: t)
  case Nil
  then show ?case by simp
next
  case (Cons e es)
  obtain t1 where t1: "del e t = Some t1" "ok t1" "contents t = add_mset e (contents t1)"
    using del_ok [of t e] Cons.prems by auto
  then show ?case using Cons.IH [OF t1(2)] Cons.prems(2) by simp
qed

lemma fill_and_drain:
  assumes "ok t" "\<forall>e\<in>set es. valid e" "mset ds = mset es"
  shows "\<exists>t1 t2. add_all add es t = Some t1 \<and> contents t1 = mset es + contents t \<and>
    add_all del ds t1 = Some t2 \<and> ok t2 \<and> contents t2 = contents t"
proof -
  obtain t1 where t1: "add_all add es t = Some t1" "ok t1" "contents t1 = mset es + contents t"
    using add_all_ok [OF assms(1,2)] by blast
  then show ?thesis using del_all_ok [OF t1(2), of ds "contents t"] assms(3) by auto
qed

end

end
