(* ===== verification/TTree.thy ===== *)
theory TTree
  imports AvlTree ObjectBag
begin

text \<open>
  The T-tree of \<open>src/ttree.h\<close> and \<open>src/ttree.cxx\<close>: a balanced tree of pages of at most \<open>pageSize\<close>
  objects in order.  A node is a node of \<open>avl\<close> whose key is its page, \<open>item[0 .. nItems - 1]\<close>; the relation
  is a parameter.  \<open>None\<close> stands for a null pointer dereferenced, a failed assertion or an insertion that
  does not return.
\<close>

type_synonym 'o ttree = "'o list avl"

definition pageSize :: nat where "pageSize = 125"

definition minItems :: nat where "minItems = pageSize - 2"

section \<open>Insertion\<close>

text \<open>The code after the insertion in a branch that grew, and the rotations.\<close>

fun ttree_grown_left :: "'o ttree \<Rightarrow> 'o list \<Rightarrow> int \<Rightarrow> 'o ttree \<Rightarrow> ('o ttree \<times> bool) option" where
  "ttree_grown_left l item b r =
     (if b > 0 then Some (Node l item 0 r, False)
      else if b = 0 then Some (Node l item (-1) r, True)
      else (case l of
          Null \<Rightarrow> None
        | Node ll li lb lr \<Rightarrow>
            if lb < 0 then Some (Node ll li 0 (Node lr item 0 r), False)
            else (case lr of
                Null \<Rightarrow> None
              | Node rl ri rb rr \<Rightarrow>
                  Some (Node (Node ll li (if rb > 0 then -1 else 0) rl) ri 0
                             (Node rr item (if rb < 0 then 1 else 0) r), False))))"

fun ttree_grown_right :: "'o ttree \<Rightarrow> 'o list \<Rightarrow> int \<Rightarrow> 'o ttree \<Rightarrow> ('o ttree \<times> bool) option" where
  "ttree_grown_right l item b r =
     (if b < 0 then Some (Node l item 0 r, False)
      else if b = 0 then Some (Node l item 1 r, True)
      else (case r of
          Null \<Rightarrow> None
        | Node rl ri rb rr \<Rightarrow>
            if rb > 0 then Some (Node (Node l item 0 rl) ri 0 rr, False)
            else (case rl of
                Null \<Rightarrow> None
              | Node ll li lb lr \<Rightarrow>
                  Some (Node (Node l item (if lb > 0 then -1 else 0) ll) li 0
                             (Node lr ri (if lb < 0 then 1 else 0) rr), False))))"

text \<open>The binary search for the place of an object strictly between the first and the last of a page.\<close>

function insert_place :: "('o \<Rightarrow> 'o \<Rightarrow> int) \<Rightarrow> 'o \<Rightarrow> 'o list \<Rightarrow> nat \<Rightarrow> nat \<Rightarrow> nat" where
  "insert_place compare obj item l r =
     (if l < r
      then let i = (l + r) div 2; diff = compare obj (item ! i)
           in if diff > 0 then insert_place compare obj item (i + 1) r
              else if diff = 0 then i
              else insert_place compare obj item l i
      else r)"
  by pat_completeness auto
termination by (relation "measure (\<lambda>(compare, obj, item, l, r). r - l)") auto

declare insert_place.simps [simp del]

text \<open>The pages after the three shifting loops.\<close>

definition insert_at :: "nat \<Rightarrow> 'o \<Rightarrow> 'o list \<Rightarrow> 'o list" where
  "insert_at r obj item = take r item @ obj # drop r item"

definition push_down :: "nat \<Rightarrow> 'o \<Rightarrow> 'o list \<Rightarrow> 'o list" where
  "push_down r obj item = drop 1 (take r item) @ obj # drop r item"

definition push_up :: "nat \<Rightarrow> 'o \<Rightarrow> 'o list \<Rightarrow> 'o list" where
  "push_up r obj item = take r item @ obj # butlast (drop r item)"

partial_function (option) ttree_node_insert ::
  "('o \<Rightarrow> 'o \<Rightarrow> int) \<Rightarrow> 'o ttree \<Rightarrow> 'o \<Rightarrow> ('o ttree \<times> bool) option" where
  "ttree_node_insert compare p obj =
     (case p of
        Null \<Rightarrow> None
      | Node l item b r \<Rightarrow>
          let n = length item; diff = compare obj (item ! 0)
          in if diff \<le> 0
             then if (l = Null \<or> diff = 0) \<and> n \<noteq> pageSize
                  then Some (Node l (obj # item) b r, False)
                  else Option.bind
                         (if l = Null then Some (Node Null [obj] 0 Null, True) else ttree_node_insert compare l obj)
                         (\<lambda>(l, grown). if \<not> grown then Some (Node l item b r, False) else ttree_grown_left l item b r)
             else let diff = compare obj (item ! (n - 1))
                  in if diff \<ge> 0
                     then if (r = Null \<or> diff = 0) \<and> n \<noteq> pageSize
                          then Some (Node l (item @ [obj]) b r, False)
                          else Option.bind
                                 (if r = Null then Some (Node Null [obj] 0 Null, True) else ttree_node_insert compare r obj)
                                 (\<lambda>(r, grown). if \<not> grown then Some (Node l item b r, False) else ttree_grown_right l item b r)
                     else let place = insert_place compare obj item 1 (n - 1)
                          in if n \<noteq> pageSize then Some (Node l (insert_at place obj item) b r, False)
                             else if b \<ge> 0
                                  then ttree_node_insert compare (Node l (push_down place obj item) b r) (item ! 0)
                                  else ttree_node_insert compare (Node l (push_up place obj item) b r) (item ! (n - 1)))"

declare ttree_node_insert.simps [code]

definition ttree_insert :: "('o \<Rightarrow> 'o \<Rightarrow> int) \<Rightarrow> 'o ttree \<Rightarrow> 'o \<Rightarrow> 'o ttree option" where
  "ttree_insert compare root obj =
     (if root = Null then Some (Node Null [obj] 0 Null)
      else map_option fst (ttree_node_insert compare root obj))"

section \<open>Removal\<close>

fun ttree_balance_left_branch :: "'o ttree \<Rightarrow> 'o list \<Rightarrow> int \<Rightarrow> 'o ttree \<Rightarrow> ('o ttree \<times> int) option" where
  "ttree_balance_left_branch l item b r =
     (if b < 0 then Some (Node l item 0 r, 1)
      else if b = 0 then Some (Node l item 1 r, 0)
      else (case r of
          Null \<Rightarrow> None
        | Node rl ri rb rr \<Rightarrow>
            if rb \<ge> 0 then
              (if rb = 0 then Some (Node (Node l item 1 rl) ri (-1) rr, 0)
               else Some (Node (Node l item 0 rl) ri 0 rr, 1))
            else (case rl of
                Null \<Rightarrow> None
              | Node ll li lb lr \<Rightarrow>
                  Some (Node (Node l item (if lb > 0 then -1 else 0) ll) li 0
                             (Node lr ri (if lb < 0 then 1 else 0) rr), 1))))"

fun ttree_balance_right_branch :: "'o ttree \<Rightarrow> 'o list \<Rightarrow> int \<Rightarrow> 'o ttree \<Rightarrow> ('o ttree \<times> int) option" where
  "ttree_balance_right_branch l item b r =
     (if b > 0 then Some (Node l item 0 r, 1)
      else if b = 0 then Some (Node l item (-1) r, 0)
      else (case l of
          Null \<Rightarrow> None
        | Node ll li lb lr \<Rightarrow>
            if lb \<le> 0 then
              (if lb = 0 then Some (Node ll li 1 (Node lr item (-1) r), 0)
               else Some (Node ll li 0 (Node lr item 0 r), 1))
            else (case lr of
                Null \<Rightarrow> None
              | Node rl ri rb rr \<Rightarrow>
                  Some (Node (Node ll li (if rb > 0 then -1 else 0) rl) ri 0
                             (Node rr item (if rb < 0 then 1 else 0) r), 1))))"

text \<open>The last object of the rightmost node and the first of the leftmost, of a branch that is not null.\<close>

fun last_item :: "'o ttree \<Rightarrow> 'o option" where
  "last_item Null = None"
| "last_item (Node l item b r) = (if r = Null then Some (item ! (length item - 1)) else last_item r)"

fun first_item :: "'o ttree \<Rightarrow> 'o option" where
  "first_item Null = None"
| "first_item (Node l item b r) = (if l = Null then Some (item ! 0) else first_item l)"

text \<open>The scan \<open>for (i = 0; i < n; i++) if (item[i] == obj)\<close>.\<close>

fun index_of :: "'o \<Rightarrow> 'o list \<Rightarrow> nat option" where
  "index_of obj [] = None"
| "index_of obj (x # xs) = (if x = obj then Some 0 else map_option Suc (index_of obj xs))"

definition delete_at :: "nat \<Rightarrow> 'o list \<Rightarrow> 'o list" where
  "delete_at i item = take i item @ drop (i + 1) item"

definition after_left :: "'o list \<Rightarrow> int \<Rightarrow> 'o ttree \<Rightarrow> ('o ttree \<times> int) \<Rightarrow> ('o ttree \<times> int) option" where
  "after_left item b r res =
     (case res of (l, h) \<Rightarrow> if h > 0 then ttree_balance_left_branch l item b r else Some (Node l item b r, h))"

definition after_right :: "'o ttree \<Rightarrow> 'o list \<Rightarrow> int \<Rightarrow> ('o ttree \<times> int) \<Rightarrow> ('o ttree \<times> int) option" where
  "after_right l item b res =
     (case res of (r, h) \<Rightarrow> if h > 0 then ttree_balance_right_branch l item b r else Some (Node l item b r, h))"

text \<open>
  \<open>1\<close>: the branch got lower; \<open>0\<close>: it did not; \<open>-1\<close>: the object is not in it, and then the branch is as it
  was (lemma \<open>remove_not_found\<close> below), so that the code goes on with the \<open>left\<close> it had.
\<close>

fun ttree_node_remove :: "('o \<Rightarrow> 'o \<Rightarrow> int) \<Rightarrow> 'o ttree \<Rightarrow> 'o \<Rightarrow> ('o ttree \<times> int) option" where
  "ttree_node_remove compare Null obj = None"
| "ttree_node_remove compare (Node l item b r) obj =
     (let n = length item;
          go_right = (if r \<noteq> Null
                      then Option.bind (ttree_node_remove compare r obj) (after_right l item b)
                      else Some (Node l item b r, -1));
          here =
            (if compare obj (item ! (n - 1)) \<le> 0
             then (case index_of obj item of
                     None \<Rightarrow> go_right
                   | Some i \<Rightarrow>
                       if n = 1 \<and> r = Null then Some (l, 1)
                       else if n = 1 \<and> l = Null then Some (r, 1)
                       else if n \<le> minItems \<and> l \<noteq> Null \<and> b \<le> 0
                       then Option.bind (last_item l) (\<lambda>x.
                              Option.bind (ttree_node_remove compare l x) (after_left (x # delete_at i item) b r))
                       else if n \<le> minItems \<and> r \<noteq> Null
                       then Option.bind (first_item r) (\<lambda>x.
                              Option.bind (ttree_node_remove compare r x) (after_right l (delete_at i item @ [x]) b))
                       else Some (Node l (delete_at i item) b r, 0))
             else go_right);
          diff = compare obj (item ! 0)
      in if diff \<le> 0
         then if l \<noteq> Null
              then Option.bind (ttree_node_remove compare l obj) (\<lambda>(l', h).
                     if h \<ge> 0 then after_left item b r (l', h)
                     else if diff = 0 then here else None)
              else if diff = 0 then here else None
         else here)"

definition ttree_remove :: "('o \<Rightarrow> 'o \<Rightarrow> int) \<Rightarrow> 'o ttree \<Rightarrow> 'o \<Rightarrow> 'o ttree option" where
  "ttree_remove compare root obj =
     Option.bind (ttree_node_remove compare root obj) (\<lambda>(root, h). if h \<ge> 0 then Some root else None)"

definition ttree_purge :: "'o ttree \<Rightarrow> 'o ttree" where
  "ttree_purge root = Null"

section \<open>Search\<close>

record ('k, 'o) search_context =
  firstKey :: "'k option"
  lastKey :: "'k option"
  firstKeyInclusion :: int
  lastKeyInclusion :: int
  search_buffer :: "'o list option"
  selectionLimit :: nat
  nMatches :: nat
  lastMatch :: "'o option"

text \<open>The two comparisons of the code with the keys of the context, \<open>compare\<close> being its virtual method.\<close>

definition before_range :: "('k \<Rightarrow> 'o \<Rightarrow> int) \<Rightarrow> ('k, 'o) search_context \<Rightarrow> 'o \<Rightarrow> bool" where
  "before_range compare sc obj =
     (case firstKey sc of None \<Rightarrow> False | Some k \<Rightarrow> compare k obj \<ge> firstKeyInclusion sc)"

definition after_range :: "('k \<Rightarrow> 'o \<Rightarrow> int) \<Rightarrow> ('k, 'o) search_context \<Rightarrow> 'o \<Rightarrow> bool" where
  "after_range compare sc obj =
     (case lastKey sc of None \<Rightarrow> False | Some k \<Rightarrow> - compare k obj \<ge> lastKeyInclusion sc)"

definition push_match :: "'o \<Rightarrow> ('k, 'o) search_context \<Rightarrow> ('k, 'o) search_context" where
  "push_match obj sc = sc\<lparr>lastMatch := Some obj, search_buffer := map_option (\<lambda>buf. buf @ [obj]) (search_buffer sc),
     nMatches := nMatches sc + 1\<rparr>"

text \<open>The loop over the items of a page, from the first in range on; false ends the whole search.\<close>

fun scan_items :: "('k \<Rightarrow> 'o \<Rightarrow> int) \<Rightarrow> ('o \<Rightarrow> bool) \<Rightarrow> 'o list \<Rightarrow> ('k, 'o) search_context \<Rightarrow>
    ('k, 'o) search_context \<times> bool" where
  "scan_items compare predicate [] sc = (sc, True)"
| "scan_items compare predicate (x # item) sc =
     (if after_range compare sc x then (sc, False)
      else if predicate x
      then let sc = push_match x sc
           in if nMatches sc = selectionLimit sc then (sc, False) else scan_items compare predicate item sc
      else scan_items compare predicate item sc)"

function first_in_range :: "('k \<Rightarrow> 'o \<Rightarrow> int) \<Rightarrow> ('k, 'o) search_context \<Rightarrow> 'o list \<Rightarrow> nat \<Rightarrow> nat \<Rightarrow> nat" where
  "first_in_range compare sc item l r =
     (if l < r
      then let m = (l + r) div 2
           in if before_range compare sc (item ! m) then first_in_range compare sc item (m + 1) r
              else first_in_range compare sc item l m
      else r)"
  by pat_completeness auto
termination by (relation "measure (\<lambda>(compare, sc, item, l, r). r - l)") auto

declare first_in_range.simps [simp del]

fun and_then :: "('s \<times> bool) \<Rightarrow> ('s \<Rightarrow> 's \<times> bool) \<Rightarrow> 's \<times> bool" where
  "and_then (s, go) f = (if go then f s else (s, False))"

fun ttree_node_find :: "('k \<Rightarrow> 'o \<Rightarrow> int) \<Rightarrow> ('o \<Rightarrow> bool) \<Rightarrow> 'o ttree \<Rightarrow> ('k, 'o) search_context \<Rightarrow>
    ('k, 'o) search_context \<times> bool" where
  "ttree_node_find compare predicate Null sc = (sc, True)"
| "ttree_node_find compare predicate (Node l item b r) sc =
     (let n = length item
      in if before_range compare sc (item ! 0)
         then if before_range compare sc (item ! (n - 1)) then ttree_node_find compare predicate r sc
              else and_then (scan_items compare predicate (drop (first_in_range compare sc item 0 n) item) sc)
                     (ttree_node_find compare predicate r)
         else and_then (ttree_node_find compare predicate l sc) (\<lambda>sc.
                and_then (scan_items compare predicate item sc) (ttree_node_find compare predicate r)))"

definition ttree_find :: "('k \<Rightarrow> 'o \<Rightarrow> int) \<Rightarrow> ('o \<Rightarrow> bool) \<Rightarrow> 'o ttree \<Rightarrow> ('k, 'o) search_context \<Rightarrow>
    ('k, 'o) search_context \<times> nat" where
  "ttree_find compare predicate root sc =
     (let sc = sc\<lparr>lastMatch := None, nMatches := 0, search_buffer := map_option (\<lambda>buf. []) (search_buffer sc)\<rparr>;
          sc = fst (ttree_node_find compare predicate root sc)
      in (sc, nMatches sc))"

section \<open>Contents and invariant\<close>

definition items :: "'o ttree \<Rightarrow> 'o list" where
  "items t = concat (inorder t)"

definition pages_ok :: "'o ttree \<Rightarrow> bool" where
  "pages_ok t \<longleftrightarrow> (\<forall>page\<in>set (inorder t). page \<noteq> [] \<and> length page \<le> pageSize)"

definition le_by :: "('o \<Rightarrow> 'o \<Rightarrow> int) \<Rightarrow> 'o \<Rightarrow> 'o \<Rightarrow> bool" where
  "le_by compare x y \<longleftrightarrow> compare x y \<le> 0"

definition ttree_ok :: "('o \<Rightarrow> 'o \<Rightarrow> int) \<Rightarrow> 'o ttree \<Rightarrow> bool" where
  "ttree_ok compare t \<longleftrightarrow> avl_inv t \<and> pages_ok t \<and> sorted_wrt (le_by compare) (items t)"

lemma items_simps [simp]: "items Null = []" "items (Node l item b r) = items l @ item @ items r"
  by (simp_all add: items_def)

lemma pages_ok_simps [simp]:
  "pages_ok Null" "pages_ok (Node l item b r) \<longleftrightarrow> pages_ok l \<and> item \<noteq> [] \<and> length item \<le> pageSize \<and> pages_ok r"
  by (auto simp: pages_ok_def)

lemma same_rotations:
  "ttree_grown_left = insert_grown_left" "ttree_grown_right = insert_grown_right"
  "ttree_balance_left_branch = balance_left_branch" "ttree_balance_right_branch = balance_right_branch"
  by (intro ext; simp)+

lemma le_by_facts:
  assumes "compare_ok compare"
  shows "le_by compare x x" "compare x y \<ge> 0 \<longleftrightarrow> le_by compare y x" "compare x y \<le> 0 \<longleftrightarrow> le_by compare x y"
    and "le_by compare x y \<Longrightarrow> le_by compare y z \<Longrightarrow> le_by compare x z"
    and "compare x y = 0 \<longleftrightarrow> le_by compare x y \<and> le_by compare y x"
    and "le_by compare x y \<or> le_by compare y x"
proof -
  have s: "compare x y < 0 \<longleftrightarrow> compare y x > 0" for x y using compare_okD(2) [OF assms] .
  show "le_by compare x x" using compare_okD(1) [OF assms] by (simp add: le_by_def)
  show a: "compare x y \<ge> 0 \<longleftrightarrow> le_by compare y x" for x y unfolding le_by_def using s [of x y] s [of y x] by linarith
  show "compare x y \<le> 0 \<longleftrightarrow> le_by compare x y" for x y by (simp add: le_by_def)
  show "le_by compare x y \<Longrightarrow> le_by compare y z \<Longrightarrow> le_by compare x z"
    using assms unfolding compare_ok_def le_by_def by blast
  show "compare x y = 0 \<longleftrightarrow> le_by compare x y \<and> le_by compare y x"
    using a [of x y] by (auto simp: le_by_def)
  show "le_by compare x y \<or> le_by compare y x" using a [of x y] by (auto simp: le_by_def)
qed

lemma not_greater: "compare_ok compare \<Longrightarrow> \<not> compare x y \<le> 0 \<Longrightarrow> le_by compare y x"
  using le_by_facts(2) [of compare x y] by simp

lemma sorted_page:
  assumes "compare_ok compare" "sorted_wrt (le_by compare) page" "x \<in> set page"
  shows "le_by compare (page ! 0) x" "le_by compare x (page ! (length page - 1))"
proof -
  obtain i where i: "i < length page" "x = page ! i" using assms(3) by (auto simp: in_set_conv_nth)
  show "le_by compare (page ! 0) x"
    using assms(2) i le_by_facts(1) [OF assms(1)] by (cases "i = 0") (auto simp: sorted_wrt_iff_nth_less)
  show "le_by compare x (page ! (length page - 1))"
    using assms(2) i le_by_facts(1) [OF assms(1)]
    by (cases "i = length page - 1") (auto simp: sorted_wrt_iff_nth_less)
qed

section \<open>The place of an object in a page\<close>

lemma insert_place_ok:
  assumes "compare_ok compare" "sorted_wrt (le_by compare) item"
  shows "l \<le> r \<Longrightarrow> r < length item \<Longrightarrow> (\<forall>j<l. le_by compare (item ! j) obj) \<Longrightarrow>
    (\<forall>j<length item. r \<le> j \<longrightarrow> le_by compare obj (item ! j)) \<Longrightarrow>
    (let p = insert_place compare obj item l r in l \<le> p \<and> p \<le> r \<and>
      (\<forall>j<p. le_by compare (item ! j) obj) \<and> (\<forall>j<length item. p \<le> j \<longrightarrow> le_by compare obj (item ! j)))"
proof (induction "r - l" arbitrary: l r rule: less_induct)
  case less
  show ?case
  proof (cases "l < r")
    case False
    then show ?thesis using less.prems by (subst insert_place.simps) (simp add: Let_def)
  next
    case True
    define i where "i = (l + r) div 2"
    have i: "l \<le> i" "i < r" "i < length item" using True less.prems by (auto simp: i_def)
    have mono: "le_by compare (item ! j) (item ! k)" if "j \<le> k" "k < length item" for j k
      using assms(2) that le_by_facts(1) [OF assms(1)] by (cases "j = k") (auto simp: sorted_wrt_iff_nth_less)
    note trans = le_by_facts(4) [OF assms(1)]
    consider "compare obj (item ! i) > 0" | "compare obj (item ! i) = 0" | "compare obj (item ! i) < 0" by linarith
    then show ?thesis
    proof cases
      case 1
      then have "le_by compare (item ! i) obj" using not_greater [OF assms(1)] by simp
      then have "\<forall>j<i + 1. le_by compare (item ! j) obj" using mono [of _ i] i trans by (metis Suc_eq_plus1 less_Suc_eq_le)
      moreover have "r - (i + 1) < r - l" using i by simp
      ultimately have "let p = insert_place compare obj item (i + 1) r in i + 1 \<le> p \<and> p \<le> r \<and>
        (\<forall>j<p. le_by compare (item ! j) obj) \<and> (\<forall>j<length item. p \<le> j \<longrightarrow> le_by compare obj (item ! j))"
        using i less.prems by (intro less.hyps) auto
      then show ?thesis using 1 True i by (subst insert_place.simps) (simp add: Let_def flip: i_def)
    next
      case 2
      then have "le_by compare obj (item ! i)" "le_by compare (item ! i) obj" using le_by_facts(5) [OF assms(1)] by auto
      then have "\<forall>j<i. le_by compare (item ! j) obj" "\<forall>j<length item. i \<le> j \<longrightarrow> le_by compare obj (item ! j)"
        using mono i trans by (metis less_imp_le_nat)+
      then show ?thesis using 2 True i by (subst insert_place.simps) (simp add: Let_def flip: i_def)
    next
      case 3
      then have "le_by compare obj (item ! i)" by (simp add: le_by_def)
      then have "\<forall>j<length item. i \<le> j \<longrightarrow> le_by compare obj (item ! j)" using mono [of i] trans by blast
      then have "let p = insert_place compare obj item l i in l \<le> p \<and> p \<le> i \<and>
        (\<forall>j<p. le_by compare (item ! j) obj) \<and> (\<forall>j<length item. p \<le> j \<longrightarrow> le_by compare obj (item ! j))"
        using i less.prems by (intro less.hyps) auto
      then show ?thesis using 3 True i by (subst insert_place.simps) (auto simp: Let_def simp flip: i_def)
    qed
  qed
qed

lemma insert_place_page:
  assumes "compare_ok compare" "sorted_wrt (le_by compare) item" "item \<noteq> []"
    and "\<not> compare obj (item ! 0) \<le> 0" "\<not> 0 \<le> compare obj (item ! (length item - 1))"
  defines "p \<equiv> insert_place compare obj item 1 (length item - 1)"
  shows "1 \<le> p" "p < length item"
    and "\<forall>x\<in>set (take p item). le_by compare x obj" "\<forall>x\<in>set (drop p item). le_by compare obj x"
proof -
  have len: "1 \<le> length item - 1" using assms(3-5) by (cases "length item - 1 = 0") auto
  have "let p = insert_place compare obj item 1 (length item - 1) in 1 \<le> p \<and> p \<le> length item - 1 \<and>
      (\<forall>j<p. le_by compare (item ! j) obj) \<and> (\<forall>j<length item. p \<le> j \<longrightarrow> le_by compare obj (item ! j))"
  proof (rule insert_place_ok [OF assms(1,2) len])
    show "length item - 1 < length item" using len by simp
    show "\<forall>j<1. le_by compare (item ! j) obj" using assms(4) not_greater [OF assms(1)] by simp
    show "\<forall>j<length item. length item - 1 \<le> j \<longrightarrow> le_by compare obj (item ! j)"
    proof (intro allI impI)
      fix j assume "j < length item" "length item - 1 \<le> j"
      then have "j = length item - 1" by simp
      then show "le_by compare obj (item ! j)" using assms(5) by (simp add: le_by_def)
    qed
  qed
  then show "1 \<le> p" "p < length item" "\<forall>x\<in>set (take p item). le_by compare x obj" "\<forall>x\<in>set (drop p item). le_by compare obj x"
    using len by (auto simp: p_def Let_def in_set_conv_nth)
qed

section \<open>Insertion keeps the invariant\<close>

definition inserted :: "('o \<Rightarrow> 'o \<Rightarrow> int) \<Rightarrow> 'o ttree \<Rightarrow> 'o \<Rightarrow> ('o ttree \<times> bool) option \<Rightarrow> bool" where
  "inserted compare t obj res \<longleftrightarrow> (\<exists>t' grown. res = Some (t', grown) \<and> ttree_ok compare t' \<and>
     mset (items t') = add_mset obj (mset (items t)) \<and>
     height t' = height t + (if grown then 1 else 0) \<and> grown_ok t' grown)"

lemma inserted_set: "mset xs = add_mset obj (mset ys) \<Longrightarrow> set xs = insert obj (set ys)"
  by (metis set_mset_add_mset_insert set_mset_mset)

lemma sorted_parts:
  "sorted_wrt P (xs @ ys @ zs) \<longleftrightarrow> sorted_wrt P xs \<and> sorted_wrt P ys \<and> sorted_wrt P zs \<and>
     (\<forall>x\<in>set xs. \<forall>y\<in>set ys. P x y) \<and> (\<forall>y\<in>set ys. \<forall>z\<in>set zs. P y z) \<and> (\<forall>x\<in>set xs. \<forall>z\<in>set zs. P x z)"
  by (auto simp: sorted_wrt_append)

text \<open>A page changed in place.\<close>

lemma inserted_page:
  assumes "ttree_ok compare (Node l item b r)" "item' \<noteq> []" "length item' \<le> pageSize"
    and "mset item' = add_mset obj (mset item)" "sorted_wrt (le_by compare) (items l @ item' @ items r)"
  shows "inserted compare (Node l item b r) obj (Some (Node l item' b r, False))"
  using assms by (simp add: inserted_def ttree_ok_def grown_ok_def ex_bool_eq)

lemma new_node_ok: "ttree_ok compare (Node Null [obj] 0 Null)"
  by (simp add: ttree_ok_def pageSize_def)

lemma inserted_left:
  assumes "compare_ok compare" "ttree_ok compare (Node l item b r)" "le_by compare obj (item ! 0)"
    and "l \<noteq> Null \<Longrightarrow> inserted compare l obj (ttree_node_insert compare l obj)"
  shows "inserted compare (Node l item b r) obj (Option.bind
    (if l = Null then Some (Node Null [obj] 0 Null, True) else ttree_node_insert compare l obj)
    (\<lambda>(l, grown). if \<not> grown then Some (Node l item b r, False) else ttree_grown_left l item b r))"
proof -
  let ?res = "if l = Null then Some (Node Null [obj] 0 Null, True) else ttree_node_insert compare l obj"
  have ok: "avl_inv l" "avl_inv r" "b = int (height r) - int (height l)" "- 1 \<le> b" "b \<le> 1" "pages_ok l" "pages_ok r"
    "item \<noteq> []" "length item \<le> pageSize" "sorted_wrt (le_by compare) (items l @ item @ items r)"
    using assms(2) by (auto simp: ttree_ok_def)
  have s: "sorted_wrt (le_by compare) (items l)" "sorted_wrt (le_by compare) item" "sorted_wrt (le_by compare) (items r)"
    "\<forall>x\<in>set (items l). \<forall>y\<in>set item. le_by compare x y" "\<forall>y\<in>set item. \<forall>z\<in>set (items r). le_by compare y z"
    "\<forall>x\<in>set (items l). \<forall>z\<in>set (items r). le_by compare x z"
    using ok(10) unfolding sorted_parts by blast+
  obtain l' g where l': "?res = Some (l', g)" "ttree_ok compare l'" "mset (items l') = add_mset obj (mset (items l))"
    "height l' = height l + (if g then 1 else 0)" "b < 0 \<Longrightarrow> g \<Longrightarrow> grown_ok l' True"
  proof (cases "l = Null")
    case True
    then show ?thesis using ok(3) new_node_ok by (intro that [of "Node Null [obj] 0 Null" True]) auto
  next
    case False
    obtain t' g' where "ttree_node_insert compare l obj = Some (t', g')" "ttree_ok compare t'"
      "mset (items t') = add_mset obj (mset (items l))" "height t' = height l + (if g' then 1 else 0)" "grown_ok t' g'"
      using assms(4) [OF False] unfolding inserted_def by blast
    then show ?thesis using False by (intro that [of t' g']) auto
  qed
  have mem: "set (items l') = insert obj (set (items l))" using l'(3) by (rule inserted_set)
  have obj: "le_by compare obj y" if "y \<in> set item \<union> set (items r)" for y
  proof -
    have first: "item ! 0 \<in> set item" using ok(8) by simp
    have "le_by compare (item ! 0) y" using that s(5) first sorted_page(1) [OF assms(1) s(2)] by blast
    with assms(3) show ?thesis by (rule le_by_facts(4) [OF assms(1)])
  qed
  have sorted: "sorted_wrt (le_by compare) (items l' @ item @ items r)"
    using l'(2) s obj unfolding sorted_parts ttree_ok_def mem by auto
  show ?thesis
  proof (cases g)
    case False
    then show ?thesis using l' ok sorted by (simp add: inserted_def ttree_ok_def grown_ok_def ex_bool_eq)
  next
    case True
    have inv: "avl_inv l'" "pages_ok l'" using l'(2) by (simp_all add: ttree_ok_def)
    have h: "height l' = Suc (height l)" using l'(4) True by simp
    obtain t g' where t: "insert_grown_left l' item b r = Some (t, g')" "avl_inv t" "inorder t = inorder l' @ item # inorder r"
      "height t = Suc (max (height l) (height r)) + (if g' then 1 else 0)" "grown_ok t g'"
      using insert_grown_left_ok [OF inv(1) ok(2) h ok(3-5)] l'(5) True by blast
    have "items t = items l' @ item @ items r" "pages_ok t"
      using t(3) inv(2) ok by (auto simp: items_def pages_ok_def)
    then show ?thesis
      using t l' True sorted by (simp add: inserted_def ttree_ok_def same_rotations)
  qed
qed

lemma inserted_right:
  assumes "compare_ok compare" "ttree_ok compare (Node l item b r)" "le_by compare (item ! (length item - 1)) obj"
    and "r \<noteq> Null \<Longrightarrow> inserted compare r obj (ttree_node_insert compare r obj)"
  shows "inserted compare (Node l item b r) obj (Option.bind
    (if r = Null then Some (Node Null [obj] 0 Null, True) else ttree_node_insert compare r obj)
    (\<lambda>(r, grown). if \<not> grown then Some (Node l item b r, False) else ttree_grown_right l item b r))"
proof -
  let ?res = "if r = Null then Some (Node Null [obj] 0 Null, True) else ttree_node_insert compare r obj"
  have ok: "avl_inv l" "avl_inv r" "b = int (height r) - int (height l)" "- 1 \<le> b" "b \<le> 1" "pages_ok l" "pages_ok r"
    "item \<noteq> []" "length item \<le> pageSize" "sorted_wrt (le_by compare) (items l @ item @ items r)"
    using assms(2) by (auto simp: ttree_ok_def)
  have s: "sorted_wrt (le_by compare) (items l)" "sorted_wrt (le_by compare) item" "sorted_wrt (le_by compare) (items r)"
    "\<forall>x\<in>set (items l). \<forall>y\<in>set item. le_by compare x y" "\<forall>y\<in>set item. \<forall>z\<in>set (items r). le_by compare y z"
    "\<forall>x\<in>set (items l). \<forall>z\<in>set (items r). le_by compare x z"
    using ok(10) unfolding sorted_parts by blast+
  obtain r' g where r': "?res = Some (r', g)" "ttree_ok compare r'" "mset (items r') = add_mset obj (mset (items r))"
    "height r' = height r + (if g then 1 else 0)" "0 < b \<Longrightarrow> g \<Longrightarrow> grown_ok r' True"
  proof (cases "r = Null")
    case True
    then show ?thesis using ok(3) new_node_ok by (intro that [of "Node Null [obj] 0 Null" True]) auto
  next
    case False
    obtain t' g' where "ttree_node_insert compare r obj = Some (t', g')" "ttree_ok compare t'"
      "mset (items t') = add_mset obj (mset (items r))" "height t' = height r + (if g' then 1 else 0)" "grown_ok t' g'"
      using assms(4) [OF False] unfolding inserted_def by blast
    then show ?thesis using False by (intro that [of t' g']) auto
  qed
  have mem: "set (items r') = insert obj (set (items r))" using r'(3) by (rule inserted_set)
  have obj: "le_by compare y obj" if "y \<in> set item \<union> set (items l)" for y
  proof -
    have last: "item ! (length item - 1) \<in> set item" using ok(8) by simp
    have "le_by compare y (item ! (length item - 1))" using that s(4) last sorted_page(2) [OF assms(1) s(2)] by blast
    from this assms(3) show ?thesis by (rule le_by_facts(4) [OF assms(1)])
  qed
  have sorted: "sorted_wrt (le_by compare) (items l @ item @ items r')"
    using r'(2) s obj unfolding sorted_parts ttree_ok_def mem by auto
  show ?thesis
  proof (cases g)
    case False
    then show ?thesis using r' ok sorted by (simp add: inserted_def ttree_ok_def grown_ok_def ex_bool_eq)
  next
    case True
    have inv: "avl_inv r'" "pages_ok r'" using r'(2) by (simp_all add: ttree_ok_def)
    have h: "height r' = Suc (height r)" using r'(4) True by simp
    obtain t g' where t: "insert_grown_right l item b r' = Some (t, g')" "avl_inv t" "inorder t = inorder l @ item # inorder r'"
      "height t = Suc (max (height l) (height r)) + (if g' then 1 else 0)" "grown_ok t g'"
      using insert_grown_right_ok [OF ok(1) inv(1) h ok(3-5)] r'(5) True by blast
    have "items t = items l @ item @ items r'" "pages_ok t"
      using t(3) inv(2) ok by (auto simp: items_def pages_ok_def)
    then show ?thesis
      using t r' True sorted by (simp add: inserted_def ttree_ok_def same_rotations)
  qed
qed

text \<open>Where the object goes, by the comparisons with the ends of the page.\<close>

lemma insert_step_left:
  assumes "compare obj (item ! 0) \<le> 0"
  shows "ttree_node_insert compare (Node l item b r) obj =
    (if (l = Null \<or> compare obj (item ! 0) = 0) \<and> length item \<noteq> pageSize
     then Some (Node l (obj # item) b r, False)
     else Option.bind
       (if l = Null then Some (Node Null [obj] 0 Null, True) else ttree_node_insert compare l obj)
       (\<lambda>(l, grown). if \<not> grown then Some (Node l item b r, False) else ttree_grown_left l item b r))"
  using assms by (subst ttree_node_insert.simps) (simp add: Let_def)

lemma insert_step_right:
  assumes "\<not> compare obj (item ! 0) \<le> 0" "compare obj (item ! (length item - 1)) \<ge> 0"
  shows "ttree_node_insert compare (Node l item b r) obj =
    (if (r = Null \<or> compare obj (item ! (length item - 1)) = 0) \<and> length item \<noteq> pageSize
     then Some (Node l (item @ [obj]) b r, False)
     else Option.bind
       (if r = Null then Some (Node Null [obj] 0 Null, True) else ttree_node_insert compare r obj)
       (\<lambda>(r, grown). if \<not> grown then Some (Node l item b r, False) else ttree_grown_right l item b r))"
  using assms by (subst ttree_node_insert.simps) (simp add: Let_def)

lemma insert_step_middle:
  assumes "\<not> compare obj (item ! 0) \<le> 0" "\<not> 0 \<le> compare obj (item ! (length item - 1))"
  defines "place \<equiv> insert_place compare obj item 1 (length item - 1)"
  shows "ttree_node_insert compare (Node l item b r) obj =
    (if length item \<noteq> pageSize then Some (Node l (insert_at place obj item) b r, False)
     else if b \<ge> 0 then ttree_node_insert compare (Node l (push_down place obj item) b r) (item ! 0)
     else ttree_node_insert compare (Node l (push_up place obj item) b r) (item ! (length item - 1)))"
  using assms by (subst ttree_node_insert.simps) (simp add: Let_def)

lemma edge_left:
  assumes "compare_ok compare" "ttree_ok compare (Node l item b r)" "compare obj (item ! 0) \<le> 0"
    and "l \<noteq> Null \<Longrightarrow> inserted compare l obj (ttree_node_insert compare l obj)"
  shows "inserted compare (Node l item b r) obj (ttree_node_insert compare (Node l item b r) obj)"
proof -
  have le: "le_by compare obj (item ! 0)" using assms(3) by (simp add: le_by_def)
  show ?thesis
  proof (cases "(l = Null \<or> compare obj (item ! 0) = 0) \<and> length item \<noteq> pageSize")
    case True
    have s: "sorted_wrt (le_by compare) (items l @ item @ items r)" and p: "item \<noteq> []" "length item \<le> pageSize"
      using assms(2) by (simp_all add: ttree_ok_def)
    have page: "sorted_wrt (le_by compare) item" using s unfolding sorted_parts by blast
    have first: "item ! 0 \<in> set item" using p by simp
    have up: "le_by compare obj y" if "y \<in> set item \<union> set (items r)" for y
    proof -
      have "le_by compare (item ! 0) y"
        using that s first sorted_page(1) [OF assms(1) page] unfolding sorted_parts by blast
      with le show ?thesis by (rule le_by_facts(4) [OF assms(1)])
    qed
    have down: "le_by compare x obj" if "x \<in> set (items l)" for x
    proof -
      have "le_by compare (item ! 0) obj" using True that le_by_facts(5) [OF assms(1)] by auto
      moreover have "le_by compare x (item ! 0)" using that s first unfolding sorted_parts by blast
      ultimately show ?thesis using le_by_facts(4) [OF assms(1)] by blast
    qed
    have "sorted_wrt (le_by compare) (items l @ (obj # item) @ items r)"
      using s up down unfolding sorted_parts by auto
    then have "inserted compare (Node l item b r) obj (Some (Node l (obj # item) b r, False))"
      using p True by (intro inserted_page assms(2)) auto
    then show ?thesis unfolding insert_step_left [where compare = compare and obj = obj and item = item, OF assms(3)] if_P [OF True] .
  next
    case False
    show ?thesis unfolding insert_step_left [where compare = compare and obj = obj and item = item, OF assms(3)] if_not_P [OF False] by (rule inserted_left [OF assms(1,2) le assms(4)])
  qed
qed

lemma edge_right:
  assumes "compare_ok compare" "ttree_ok compare (Node l item b r)" "\<not> compare obj (item ! 0) \<le> 0"
    and "compare obj (item ! (length item - 1)) \<ge> 0"
    and "r \<noteq> Null \<Longrightarrow> inserted compare r obj (ttree_node_insert compare r obj)"
  shows "inserted compare (Node l item b r) obj (ttree_node_insert compare (Node l item b r) obj)"
proof -
  have le: "le_by compare (item ! (length item - 1)) obj" using assms(4) le_by_facts(2) [OF assms(1)] by blast
  show ?thesis
  proof (cases "(r = Null \<or> compare obj (item ! (length item - 1)) = 0) \<and> length item \<noteq> pageSize")
    case True
    have s: "sorted_wrt (le_by compare) (items l @ item @ items r)" and p: "item \<noteq> []" "length item \<le> pageSize"
      using assms(2) by (simp_all add: ttree_ok_def)
    have page: "sorted_wrt (le_by compare) item" using s unfolding sorted_parts by blast
    have last: "item ! (length item - 1) \<in> set item" using p by simp
    have down: "le_by compare x obj" if "x \<in> set item \<union> set (items l)" for x
    proof -
      have "le_by compare x (item ! (length item - 1))"
        using that s last sorted_page(2) [OF assms(1) page] unfolding sorted_parts by blast
      from this le show ?thesis by (rule le_by_facts(4) [OF assms(1)])
    qed
    have up: "le_by compare obj y" if "y \<in> set (items r)" for y
    proof -
      have "le_by compare obj (item ! (length item - 1))" using True that le_by_facts(5) [OF assms(1)] by auto
      moreover have "le_by compare (item ! (length item - 1)) y" using that s last unfolding sorted_parts by blast
      ultimately show ?thesis using le_by_facts(4) [OF assms(1)] by blast
    qed
    have "sorted_wrt (le_by compare) (items l @ (item @ [obj]) @ items r)"
      using s up down unfolding sorted_parts by (auto simp: sorted_wrt_append)
    then have "inserted compare (Node l item b r) obj (Some (Node l (item @ [obj]) b r, False))"
      using p True by (intro inserted_page assms(2)) auto
    then show ?thesis unfolding insert_step_right [where compare = compare and obj = obj and item = item, OF assms(3,4)] if_P [OF True] .
  next
    case False
    show ?thesis
      unfolding insert_step_right [where compare = compare and obj = obj and item = item, OF assms(3,4)] if_not_P [OF False] by (rule inserted_right [OF assms(1,2) le assms(5)])
  qed
qed

lemma insert_at_page:
  assumes "sorted_wrt P item" "\<forall>x\<in>set (take p item). P x obj" "\<forall>x\<in>set (drop p item). P obj x"
  shows "sorted_wrt P (insert_at p obj item)" "mset (insert_at p obj item) = add_mset obj (mset item)"
proof -
  have "sorted_wrt P (take p item @ drop p item)" using assms(1) by simp
  then show "sorted_wrt P (insert_at p obj item)" using assms(2,3) unfolding insert_at_def sorted_wrt_append by auto
  have "mset item = mset (take p item) + mset (drop p item)" by (simp flip: mset_append)
  then show "mset (insert_at p obj item) = add_mset obj (mset item)" by (simp add: insert_at_def)
qed

lemma push_down_eq: "1 \<le> p \<Longrightarrow> p < length item \<Longrightarrow> insert_at p obj item = item ! 0 # push_down p obj item"
  by (cases item; cases p) (simp_all add: insert_at_def push_down_def)

lemma push_up_eq:
  assumes "p < length item"
  shows "insert_at p obj item = push_up p obj item @ [item ! (length item - 1)]"
proof -
  have ne: "drop p item \<noteq> []" "item \<noteq> []" using assms by auto
  have "drop p item = butlast (drop p item) @ [last (drop p item)]" by (rule append_butlast_last_id [OF ne(1), symmetric])
  also have "last (drop p item) = item ! (length item - 1)" using assms ne by (simp add: last_drop last_conv_nth)
  finally show ?thesis by (simp add: insert_at_def push_up_def)
qed

lemma set_insert_at: "set (insert_at p obj item) = insert obj (set item)"
proof -
  have "set item = set (take p item) \<union> set (drop p item)" by (metis append_take_drop_id set_append)
  then show ?thesis by (auto simp: insert_at_def)
qed

lemma inserted_reinsert:
  assumes "inserted compare (Node l item' b r) x res" "length item' = length item"
    and "add_mset x (mset item') = add_mset obj (mset item)"
  shows "inserted compare (Node l item b r) obj res"
proof -
  have m: "add_mset x (mset (items (Node l item' b r))) = add_mset obj (mset (items (Node l item b r)))"
    using assms(3) by simp
  have h: "height (Node l item' b r) = height (Node l item b r)" by simp
  show ?thesis using assms(1) unfolding inserted_def m h .
qed

lemma ttree_node_insert_ok:
  assumes "compare_ok compare"
  shows "ttree_ok compare t \<Longrightarrow> t \<noteq> Null \<Longrightarrow> inserted compare t obj (ttree_node_insert compare t obj)"
proof (induction t arbitrary: obj)
  case (Node l item b r)
  have ok: "avl_inv (Node l item b r)" "pages_ok l" "pages_ok r" "item \<noteq> []" "length item \<le> pageSize"
    "sorted_wrt (le_by compare) (items l @ item @ items r)"
    using Node.prems(1) by (auto simp: ttree_ok_def)
  have s: "sorted_wrt (le_by compare) (items l)" "sorted_wrt (le_by compare) item" "sorted_wrt (le_by compare) (items r)"
    "\<forall>x\<in>set (items l). \<forall>y\<in>set item. le_by compare x y" "\<forall>y\<in>set item. \<forall>z\<in>set (items r). le_by compare y z"
    "\<forall>x\<in>set (items l). \<forall>z\<in>set (items r). le_by compare x z"
    using ok(6) unfolding sorted_parts by blast+
  have sub: "ttree_ok compare l" "ttree_ok compare r" using ok s by (simp_all add: ttree_ok_def)
  note IHl = Node.IH(1) [OF sub(1)] and IHr = Node.IH(2) [OF sub(2)]
  show ?case
  proof (cases "compare obj (item ! 0) \<le> 0")
    case True
    show ?thesis using IHl by (rule edge_left [OF assms Node.prems(1) True])
  next
    case not_first: False
    show ?thesis
    proof (cases "0 \<le> compare obj (item ! (length item - 1))")
      case True
      show ?thesis using IHr by (rule edge_right [OF assms Node.prems(1) not_first True])
    next
      case not_last: False
      define p where "p = insert_place compare obj item 1 (length item - 1)"
      note place = insert_place_page [OF assms s(2) ok(4) not_first not_last, folded p_def]
      note page = insert_at_page [OF s(2) place(3,4)]
      have obj: "\<forall>x\<in>set (items l). le_by compare x obj" "\<forall>x\<in>set (items r). le_by compare obj x"
      proof -
        have "item ! 0 \<in> set item" "le_by compare (item ! 0) obj"
          "item ! (length item - 1) \<in> set item" "le_by compare obj (item ! (length item - 1))"
          using ok(4) not_greater [OF assms not_first] not_last by (auto simp: le_by_def)
        then show "\<forall>x\<in>set (items l). le_by compare x obj" "\<forall>x\<in>set (items r). le_by compare obj x"
          using s(4,5) le_by_facts(4) [OF assms] by blast+
      qed
      have sorted: "sorted_wrt (le_by compare) (items l @ insert_at p obj item @ items r)"
        using s page obj unfolding sorted_parts set_insert_at by auto
      note step = insert_step_middle [where compare = compare and obj = obj and item = item, OF not_first not_last, folded p_def]
      show ?thesis
      proof (cases "length item = pageSize")
        case False
        then have "inserted compare (Node l item b r) obj (Some (Node l (insert_at p obj item) b r, False))"
          using sorted page(2) ok(5) by (intro inserted_page Node.prems(1)) (auto simp: insert_at_def)
        then show ?thesis using False unfolding step by simp
      next
        case full: True
        show ?thesis
        proof (cases "b \<ge> 0")
          case True
          let ?item = "push_down p obj item"
          have eq: "insert_at p obj item = item ! 0 # ?item" using place(1,2) by (rule push_down_eq)
          have len: "length ?item = length item" using place(1,2) by (simp add: push_down_def)
          have ne: "?item \<noteq> []" using len ok(4) by auto
          have "sorted_wrt (le_by compare) (items l @ ?item @ items r)"
            using sorted unfolding eq sorted_parts by auto
          then have "ttree_ok compare (Node l ?item b r)" using ok len ne by (simp add: ttree_ok_def)
          moreover have "compare (item ! 0) (?item ! 0) \<le> 0"
            using page(1) ne unfolding eq le_by_facts(3) [OF assms] by simp
          ultimately have "inserted compare (Node l ?item b r) (item ! 0) (ttree_node_insert compare (Node l ?item b r) (item ! 0))"
            using IHl by (intro edge_left [OF assms])
          moreover have "add_mset (item ! 0) (mset ?item) = add_mset obj (mset item)" using page(2) unfolding eq by simp
          ultimately show ?thesis using full True len unfolding step by (auto intro: inserted_reinsert)
        next
          case False
          let ?item = "push_up p obj item" and ?x = "item ! (length item - 1)"
          have eq: "insert_at p obj item = ?item @ [?x]" using place(2) by (rule push_up_eq)
          have len: "length ?item = length item" using arg_cong [OF eq, of length] by (simp add: insert_at_def)
          have ne: "?item \<noteq> []" using len ok(4) by auto
          have "sorted_wrt (le_by compare) (items l @ ?item @ items r)"
            using sorted unfolding eq sorted_parts by (auto simp: sorted_wrt_append)
          then have "ttree_ok compare (Node l ?item b r)" using ok len ne by (simp add: ttree_ok_def)
          moreover have "le_by compare (?item ! (length ?item - 1)) ?x"
            using page(1) ne unfolding eq sorted_wrt_append by simp
          then have "0 \<le> compare ?x (?item ! (length ?item - 1))" unfolding le_by_facts(2) [OF assms] .
          moreover have "\<not> compare ?x (?item ! 0) \<le> 0"
          proof -
            have first: "?item ! 0 = item ! 0" using place(1) ok(4) by (cases item; cases p) (simp_all add: push_up_def)
            have "le_by compare obj ?x" using not_last by (simp add: le_by_def)
            then have "\<not> le_by compare ?x (item ! 0)"
              using not_first le_by_facts(3,4) [OF assms] by blast
            then show ?thesis unfolding first le_by_facts(3) [OF assms] .
          qed
          ultimately have "inserted compare (Node l ?item b r) ?x (ttree_node_insert compare (Node l ?item b r) ?x)"
            using IHr by (intro edge_right [OF assms])
          moreover have "add_mset ?x (mset ?item) = add_mset obj (mset item)" using page(2) unfolding eq by simp
          ultimately show ?thesis using full False len unfolding step by (auto intro: inserted_reinsert)
        qed
      qed
    qed
  qed
qed simp

section \<open>Removal keeps the invariant\<close>

definition removed :: "('o \<Rightarrow> 'o \<Rightarrow> int) \<Rightarrow> 'o ttree \<Rightarrow> 'o \<Rightarrow> ('o ttree \<times> int) option \<Rightarrow> bool" where
  "removed compare t obj res \<longleftrightarrow> (\<exists>t' h. res = Some (t', h) \<and> ttree_ok compare t' \<and>
     mset (items t) = add_mset obj (mset (items t')) \<and> (h = 0 \<or> h = 1) \<and>
     int (height t') = int (height t) - h)"

lemma removed_left:
  assumes "ttree_ok compare (Node l item b r)" "item' \<noteq> []" "length item' \<le> pageSize"
    and "sorted_wrt (le_by compare) (items l' @ item' @ items r)" "ttree_ok compare l'"
    and "h = 0 \<or> h = 1" "int (height l') = int (height l) - h"
    and "mset (items l) + mset item = add_mset obj (mset (items l') + mset item')"
  shows "removed compare (Node l item b r) obj (after_left item' b r (l', h))"
proof -
  have ok: "avl_inv l'" "avl_inv r" "b = int (height r) - int (height l)" "- 1 \<le> b" "b \<le> 1" "pages_ok l'" "pages_ok r"
    using assms(1,5) by (auto simp: ttree_ok_def)
  have m: "mset (items (Node l item b r)) = add_mset obj (mset (items l' @ item' @ items r))"
    using assms(8) by simp
  show ?thesis
  proof (cases "h > 0")
    case False
    then have "h = 0" using assms(6) by auto
    then show ?thesis using ok assms m by (simp add: removed_def after_left_def ttree_ok_def)
  next
    case True
    then have "h = 1" using assms(6) by auto
    then have h: "height l = Suc (height l')" using assms(7) by simp
    obtain t h' where t: "balance_left_branch l' item' b r = Some (t, h')" "avl_inv t" "inorder t = inorder l' @ item' # inorder r"
      "h' = 0 \<or> h' = 1" "int (height t) = int (Suc (max (height l) (height r))) - h'"
      using balance_left_branch_ok [OF ok(1,2) h ok(3-5)] by blast
    have "items t = items l' @ item' @ items r" "pages_ok t"
      using t(3) ok assms(2,3) by (auto simp: items_def pages_ok_def)
    then show ?thesis using t True assms(4) m by (simp add: removed_def after_left_def ttree_ok_def same_rotations)
  qed
qed

lemma removed_right:
  assumes "ttree_ok compare (Node l item b r)" "item' \<noteq> []" "length item' \<le> pageSize"
    and "sorted_wrt (le_by compare) (items l @ item' @ items r')" "ttree_ok compare r'"
    and "h = 0 \<or> h = 1" "int (height r') = int (height r) - h"
    and "mset item + mset (items r) = add_mset obj (mset item' + mset (items r'))"
  shows "removed compare (Node l item b r) obj (after_right l item' b (r', h))"
proof -
  have ok: "avl_inv l" "avl_inv r'" "b = int (height r) - int (height l)" "- 1 \<le> b" "b \<le> 1" "pages_ok l" "pages_ok r'"
    using assms(1,5) by (auto simp: ttree_ok_def)
  have m: "mset (items (Node l item b r)) = add_mset obj (mset (items l @ item' @ items r'))"
    using assms(8) by simp
  show ?thesis
  proof (cases "h > 0")
    case False
    then have "h = 0" using assms(6) by auto
    then show ?thesis using ok assms m by (simp add: removed_def after_right_def ttree_ok_def)
  next
    case True
    then have "h = 1" using assms(6) by auto
    then have h: "height r = Suc (height r')" using assms(7) by simp
    obtain t h' where t: "balance_right_branch l item' b r' = Some (t, h')" "avl_inv t" "inorder t = inorder l @ item' # inorder r'"
      "h' = 0 \<or> h' = 1" "int (height t) = int (Suc (max (height l) (height r))) - h'"
      using balance_right_branch_ok [OF ok(1,2) h ok(3-5)] by blast
    have "items t = items l @ item' @ items r'" "pages_ok t"
      using t(3) ok assms(2,3) by (auto simp: items_def pages_ok_def)
    then show ?thesis using t True assms(4) m by (simp add: removed_def after_right_def ttree_ok_def same_rotations)
  qed
qed

lemma index_of_None: "index_of obj xs = None \<longleftrightarrow> obj \<notin> set xs"
  by (induction xs) auto

lemma index_of_Some: "index_of obj xs = Some i \<Longrightarrow> i < length xs \<and> xs ! i = obj"
  by (induction xs arbitrary: i) (auto split: if_splits)

lemma delete_at_facts:
  assumes "i < length item"
  shows "mset item = add_mset (item ! i) (mset (delete_at i item))" "set (delete_at i item) \<subseteq> set item"
    "length (delete_at i item) = length item - 1" "sorted_wrt P item \<Longrightarrow> sorted_wrt P (delete_at i item)"
proof -
  have s: "item = take i item @ item ! i # drop (i + 1) item" using assms by (simp add: id_take_nth_drop)
  show "mset item = add_mset (item ! i) (mset (delete_at i item))"
    by (subst s) (simp add: delete_at_def)
  show "set (delete_at i item) \<subseteq> set item"
    unfolding delete_at_def using set_take_subset [of i item] set_drop_subset [of "i + 1" item] by auto
  show "length (delete_at i item) = length item - 1" using assms by (simp add: delete_at_def)
  show "sorted_wrt P (delete_at i item)" if "sorted_wrt P item"
    using that by (subst (asm) s) (auto simp: delete_at_def sorted_wrt_append)
qed

lemma last_item_eq:
  "pages_ok t \<Longrightarrow> t \<noteq> Null \<Longrightarrow> \<exists>x xs. last_item t = Some x \<and> items t = xs @ [x]"
proof (induction t)
  case (Node l item b r)
  show ?case
  proof (cases "r = Null")
    case True
    have "item = butlast item @ [item ! (length item - 1)]" using append_butlast_last_id [of item] Node.prems(1) by (simp add: last_conv_nth)
    then show ?thesis using True by (metis append.assoc append_Nil2 items_simps(1,2) last_item.simps(2))
  next
    case False
    then obtain x xs where "last_item r = Some x" "items r = xs @ [x]" using Node by auto
    then show ?thesis using False by auto
  qed
qed simp

lemma first_item_eq:
  "pages_ok t \<Longrightarrow> t \<noteq> Null \<Longrightarrow> \<exists>x xs. first_item t = Some x \<and> items t = x # xs"
proof (induction t)
  case (Node l item b r)
  show ?case
  proof (cases "l = Null")
    case True
    then show ?thesis using Node.prems(1) by (cases item) auto
  next
    case False
    then obtain x xs where "first_item l = Some x" "items l = x # xs" using Node by auto
    then show ?thesis using False by auto
  qed
qed simp

text \<open>The node step with its parts named.\<close>

definition remove_right :: "('o \<Rightarrow> 'o \<Rightarrow> int) \<Rightarrow> 'o ttree \<Rightarrow> 'o list \<Rightarrow> int \<Rightarrow> 'o ttree \<Rightarrow> 'o \<Rightarrow> ('o ttree \<times> int) option" where
  "remove_right compare l item b r obj =
     (if r \<noteq> Null then Option.bind (ttree_node_remove compare r obj) (after_right l item b) else Some (Node l item b r, -1))"

definition remove_at :: "('o \<Rightarrow> 'o \<Rightarrow> int) \<Rightarrow> 'o ttree \<Rightarrow> 'o list \<Rightarrow> int \<Rightarrow> 'o ttree \<Rightarrow> nat \<Rightarrow> ('o ttree \<times> int) option" where
  "remove_at compare l item b r i =
     (if length item = 1 \<and> r = Null then Some (l, 1)
      else if length item = 1 \<and> l = Null then Some (r, 1)
      else if length item \<le> minItems \<and> l \<noteq> Null \<and> b \<le> 0
      then Option.bind (last_item l) (\<lambda>x.
             Option.bind (ttree_node_remove compare l x) (after_left (x # delete_at i item) b r))
      else if length item \<le> minItems \<and> r \<noteq> Null
      then Option.bind (first_item r) (\<lambda>x.
             Option.bind (ttree_node_remove compare r x) (after_right l (delete_at i item @ [x]) b))
      else Some (Node l (delete_at i item) b r, 0))"

definition remove_here :: "('o \<Rightarrow> 'o \<Rightarrow> int) \<Rightarrow> 'o ttree \<Rightarrow> 'o list \<Rightarrow> int \<Rightarrow> 'o ttree \<Rightarrow> 'o \<Rightarrow> ('o ttree \<times> int) option" where
  "remove_here compare l item b r obj =
     (if compare obj (item ! (length item - 1)) \<le> 0
      then (case index_of obj item of None \<Rightarrow> remove_right compare l item b r obj | Some i \<Rightarrow> remove_at compare l item b r i)
      else remove_right compare l item b r obj)"

lemma remove_node:
  "ttree_node_remove compare (Node l item b r) obj =
     (if compare obj (item ! 0) \<le> 0
      then if l \<noteq> Null
           then Option.bind (ttree_node_remove compare l obj) (\<lambda>(l', h).
                  if h \<ge> 0 then after_left item b r (l', h)
                  else if compare obj (item ! 0) = 0 then remove_here compare l item b r obj else None)
           else if compare obj (item ! 0) = 0 then remove_here compare l item b r obj else None
      else remove_here compare l item b r obj)"
  unfolding remove_here_def remove_right_def remove_at_def by (simp add: Let_def)

lemma remove_absent:
  assumes "compare_ok compare"
  shows "ttree_ok compare t \<Longrightarrow> t \<noteq> Null \<Longrightarrow> obj \<notin> set (items t) \<Longrightarrow> \<forall>x\<in>set (items t). le_by compare x obj \<Longrightarrow>
    ttree_node_remove compare t obj = Some (t, -1)"
proof (induction t)
  case (Node l item b r)
  have "sorted_wrt (le_by compare) (items l @ item @ items r)" using Node.prems(1) by (simp add: ttree_ok_def)
  then have sub: "ttree_ok compare l" "ttree_ok compare r"
    using Node.prems(1) unfolding sorted_parts by (simp_all add: ttree_ok_def)
  have IH: "l \<noteq> Null \<Longrightarrow> ttree_node_remove compare l obj = Some (l, -1)"
    "r \<noteq> Null \<Longrightarrow> ttree_node_remove compare r obj = Some (r, -1)"
    using Node.IH sub Node.prems by auto
  have "item \<noteq> []" using Node.prems(1) by (simp add: ttree_ok_def)
  then have "item ! 0 \<in> set item" by simp
  then have "le_by compare (item ! 0) obj" using Node.prems(4) by simp
  then have diff: "compare obj (item ! 0) \<ge> 0" unfolding le_by_facts(2) [OF assms] .
  have "index_of obj item = None" using Node.prems(3) by (simp add: index_of_None)
  then have "remove_here compare l item b r obj = Some (Node l item b r, -1)"
    using IH(2) by (simp add: remove_here_def remove_right_def after_right_def)
  then show ?case using IH(1) diff unfolding remove_node by (cases "l = Null") auto
qed simp

lemma removed_at:
  assumes "compare_ok compare" "ttree_ok compare (Node l item b r)" "i < length item"
    and "\<And>x. x \<in> set (items l) \<Longrightarrow> removed compare l x (ttree_node_remove compare l x)"
    and "\<And>x. x \<in> set (items r) \<Longrightarrow> removed compare r x (ttree_node_remove compare r x)"
  shows "removed compare (Node l item b r) (item ! i) (remove_at compare l item b r i)"
proof -
  have ok: "avl_inv l" "avl_inv r" "b = int (height r) - int (height l)" "pages_ok l" "pages_ok r"
    "item \<noteq> []" "length item \<le> pageSize" and sorted: "sorted_wrt (le_by compare) (items l @ item @ items r)"
    using assms(2) by (auto simp: ttree_ok_def)
  have s: "sorted_wrt (le_by compare) (items l)" "sorted_wrt (le_by compare) item" "sorted_wrt (le_by compare) (items r)"
    "\<forall>x\<in>set (items l). \<forall>y\<in>set item. le_by compare x y" "\<forall>y\<in>set item. \<forall>z\<in>set (items r). le_by compare y z"
    "\<forall>x\<in>set (items l). \<forall>z\<in>set (items r). le_by compare x z"
    using sorted unfolding sorted_parts by blast+
  have sub: "ttree_ok compare l" "ttree_ok compare r" using ok s by (simp_all add: ttree_ok_def)
  note del = delete_at_facts [OF assms(3)]
  have dsorted: "sorted_wrt (le_by compare) (delete_at i item)" by (rule del(4) [OF s(2)])
  consider (left_only) "length item = 1" "r = Null" | (right_only) "length item = 1" "r \<noteq> Null" "l = Null"
    | (from_left) "length item \<le> minItems" "l \<noteq> Null" "b \<le> 0" "\<not> (length item = 1 \<and> (r = Null \<or> l = Null))"
    | (from_right) "length item \<le> minItems" "\<not> (l \<noteq> Null \<and> b \<le> 0)" "r \<noteq> Null" "\<not> (length item = 1 \<and> (r = Null \<or> l = Null))"
    | (plain) "\<not> (length item \<le> minItems \<and> l \<noteq> Null \<and> b \<le> 0)" "\<not> (length item \<le> minItems \<and> r \<noteq> Null)"
        "\<not> (length item = 1 \<and> (r = Null \<or> l = Null))"
    by blast
  then show ?thesis
  proof cases
    case left_only
    then have "item = [item ! i]" using assms(3) by (cases item) auto
    then have "mset item = {# item ! i #}" by (metis mset_single_iff)
    then show ?thesis using left_only sub by (simp add: remove_at_def removed_def)
  next
    case right_only
    then have "item = [item ! i]" using assms(3) by (cases item) auto
    then have "mset item = {# item ! i #}" by (metis mset_single_iff)
    then show ?thesis using right_only sub by (simp add: remove_at_def removed_def)
  next
    case from_left
    obtain x xs where x: "last_item l = Some x" "items l = xs @ [x]" using last_item_eq [OF ok(4) from_left(2)] by blast
    obtain l' h where l': "ttree_node_remove compare l x = Some (l', h)" "ttree_ok compare l'"
      "mset (items l) = add_mset x (mset (items l'))" "h = 0 \<or> h = 1" "int (height l') = int (height l) - h"
      using assms(4) [of x] x(2) unfolding removed_def by auto
    have set: "set (items l) = insert x (set (items l'))" using l'(3) by (rule inserted_set)
    have below: "le_by compare y x" if "y \<in> set (items l')" for y
    proof -
      have "mset xs = mset (items l')" using l'(3) x(2) by simp
      then have "y \<in> set xs" using that by (metis set_mset_mset)
      then show ?thesis using s(1) x(2) by (simp add: sorted_wrt_append)
    qed
    have "sorted_wrt (le_by compare) (items l' @ (x # delete_at i item) @ items r)"
      using l'(2) dsorted s below del(2) set unfolding sorted_parts ttree_ok_def by (auto simp: subset_iff)
    then have "removed compare (Node l item b r) (item ! i) (after_left (x # delete_at i item) b r (l', h))"
      using assms(2) l' del(1,3) ok(6,7) by (intro removed_left) auto
    then show ?thesis using from_left x(1) l'(1) by (auto simp: remove_at_def)
  next
    case from_right
    obtain x xs where x: "first_item r = Some x" "items r = x # xs" using first_item_eq [OF ok(5) from_right(3)] by blast
    obtain r' h where r': "ttree_node_remove compare r x = Some (r', h)" "ttree_ok compare r'"
      "mset (items r) = add_mset x (mset (items r'))" "h = 0 \<or> h = 1" "int (height r') = int (height r) - h"
      using assms(5) [of x] x(2) unfolding removed_def by auto
    have set: "set (items r) = insert x (set (items r'))" using r'(3) by (rule inserted_set)
    have above: "le_by compare x y" if "y \<in> set (items r')" for y
    proof -
      have "mset xs = mset (items r')" using r'(3) x(2) by simp
      then have "y \<in> set xs" using that by (metis set_mset_mset)
      then show ?thesis using s(3) x(2) by simp
    qed
    have "sorted_wrt (le_by compare) (items l @ (delete_at i item @ [x]) @ items r')"
      using r'(2) dsorted s above del(2) set unfolding sorted_parts ttree_ok_def by (auto simp: subset_iff sorted_wrt_append)
    then have "removed compare (Node l item b r) (item ! i) (after_right l (delete_at i item @ [x]) b (r', h))"
      using assms(2) r' del(1,3) ok(6,7) by (intro removed_right) auto
    then show ?thesis using from_right x(1) r'(1) by (auto simp: remove_at_def)
  next
    case plain
    have "length item \<noteq> 1"
    proof
      assume "length item = 1"
      then have "length item \<le> minItems" "r \<noteq> Null" using plain by (auto simp: minItems_def pageSize_def)
      then show False using plain(2) by blast
    qed
    then have ne: "delete_at i item \<noteq> []" using del(3) ok(6) by (cases item) auto
    have "sorted_wrt (le_by compare) (items l @ delete_at i item @ items r)"
      using dsorted s del(2) unfolding sorted_parts by (auto simp: subset_iff)
    then have "ttree_ok compare (Node l (delete_at i item) b r)"
      using assms(2) ne del(3) ok(7) le_trans [OF diff_le_self] by (simp add: ttree_ok_def)
    then have "removed compare (Node l item b r) (item ! i) (Some (Node l (delete_at i item) b r, 0))"
      using del(1) by (simp add: removed_def)
    then show ?thesis using plain by (auto simp: remove_at_def)
  qed
qed

lemma removed_here:
  assumes "compare_ok compare" "ttree_ok compare (Node l item b r)" "obj \<in> set item \<union> set (items r)"
    and "\<And>x. x \<in> set (items l) \<Longrightarrow> removed compare l x (ttree_node_remove compare l x)"
    and "\<And>x. x \<in> set (items r) \<Longrightarrow> removed compare r x (ttree_node_remove compare r x)"
  shows "removed compare (Node l item b r) obj (remove_here compare l item b r obj)"
proof -
  have ok: "item \<noteq> []" "length item \<le> pageSize" and sorted: "sorted_wrt (le_by compare) (items l @ item @ items r)"
    using assms(2) by (auto simp: ttree_ok_def)
  have right: "removed compare (Node l item b r) obj (remove_right compare l item b r obj)" if r: "obj \<in> set (items r)"
  proof -
    obtain r' h where r': "ttree_node_remove compare r obj = Some (r', h)" "ttree_ok compare r'"
      "mset (items r) = add_mset obj (mset (items r'))" "h = 0 \<or> h = 1" "int (height r') = int (height r) - h"
      using assms(5) [OF r] unfolding removed_def by auto
    have set: "set (items r) = insert obj (set (items r'))" using r'(3) by (rule inserted_set)
    have "sorted_wrt (le_by compare) (items l @ item @ items r')"
      using sorted r'(2) set unfolding sorted_parts ttree_ok_def by auto
    then have "removed compare (Node l item b r) obj (after_right l item b (r', h))"
      using assms(2) r' ok by (intro removed_right) auto
    then show ?thesis using r r'(1) by (auto simp: remove_right_def)
  qed
  show ?thesis
  proof (cases "compare obj (item ! (length item - 1)) \<le> 0")
    case True
    show ?thesis
    proof (cases "index_of obj item")
      case None
      then have "obj \<in> set (items r)" using assms(3) by (auto simp: index_of_None)
      then show ?thesis using True right None by (simp add: remove_here_def)
    next
      case (Some i)
      then have i: "i < length item" "item ! i = obj" using index_of_Some [OF Some] by auto
      show ?thesis using removed_at [OF assms(1,2) i(1) assms(4,5)] Some True i(2) by (simp add: remove_here_def)
    qed
  next
    case False
    have "obj \<notin> set item"
    proof
      assume "obj \<in> set item"
      then have "le_by compare obj (item ! (length item - 1))"
        using sorted sorted_page(2) [OF assms(1)] unfolding sorted_parts by blast
      then show False using False by (simp add: le_by_def)
    qed
    then show ?thesis using False right assms(3) by (simp add: remove_here_def)
  qed
qed

lemma ttree_node_remove_ok:
  assumes "compare_ok compare"
  shows "ttree_ok compare t \<Longrightarrow> obj \<in> set (items t) \<Longrightarrow> removed compare t obj (ttree_node_remove compare t obj)"
proof (induction t arbitrary: obj)
  case (Node l item b r)
  have ok: "item \<noteq> []" "length item \<le> pageSize" and sorted: "sorted_wrt (le_by compare) (items l @ item @ items r)"
    using Node.prems(1) by (auto simp: ttree_ok_def)
  have sub: "ttree_ok compare l" "ttree_ok compare r"
    using Node.prems(1) sorted unfolding sorted_parts by (simp_all add: ttree_ok_def)
  note IH = Node.IH(1) [OF sub(1)] Node.IH(2) [OF sub(2)]
  have first: "item ! 0 \<in> set item" using ok by simp
  have here: "removed compare (Node l item b r) obj (remove_here compare l item b r obj)" if "obj \<notin> set (items l)"
    using that Node.prems(2) IH by (intro removed_here [OF assms Node.prems(1)]) auto
  have left: "removed compare (Node l item b r) obj (ttree_node_remove compare (Node l item b r) obj)"
    if below: "obj \<in> set (items l)" "compare obj (item ! 0) \<le> 0"
  proof -
    obtain l' h where l': "ttree_node_remove compare l obj = Some (l', h)" "ttree_ok compare l'"
      "mset (items l) = add_mset obj (mset (items l'))" "h = 0 \<or> h = 1" "int (height l') = int (height l) - h"
      using IH(1) [OF below(1)] unfolding removed_def by auto
    have set: "set (items l) = insert obj (set (items l'))" using l'(3) by (rule inserted_set)
    have "sorted_wrt (le_by compare) (items l' @ item @ items r)"
      using sorted l'(2) set unfolding sorted_parts ttree_ok_def by auto
    then have "removed compare (Node l item b r) obj (after_left item b r (l', h))"
      using Node.prems(1) l' ok by (intro removed_left) auto
    moreover have "l \<noteq> Null" "h \<ge> 0" using below(1) l'(4) by auto
    ultimately show ?thesis using below(2) l'(1) unfolding remove_node by simp
  qed
  have le_first: "le_by compare y (item ! 0)" if "y \<in> set (items l)" for y using sorted first that unfolding sorted_parts by blast
  consider "compare obj (item ! 0) < 0" | "compare obj (item ! 0) = 0" "obj \<in> set (items l)"
    | "compare obj (item ! 0) = 0" "obj \<notin> set (items l)" | "compare obj (item ! 0) > 0" by linarith
  then show ?case
  proof cases
    case 1
    have "obj \<in> set (items l)"
    proof (rule ccontr)
      assume "obj \<notin> set (items l)"
      then have "obj \<in> set item \<union> set (items r)" using Node.prems(2) by auto
      then have "le_by compare (item ! 0) obj"
        using sorted first sorted_page(1) [OF assms, of item] unfolding sorted_parts by blast
      then show False using 1 le_by_facts(2) [OF assms, of obj "item ! 0"] by simp
    qed
    then show ?thesis using left 1 by simp
  next
    case 2
    then show ?thesis using left by simp
  next
    case 3
    have "ttree_node_remove compare l obj = Some (l, -1)" if "l \<noteq> Null"
    proof (rule remove_absent [OF assms sub(1) that 3(2)], rule ballI)
      fix y assume "y \<in> set (items l)"
      then have "le_by compare y (item ! 0)" by (rule le_first)
      moreover have "le_by compare (item ! 0) obj" using 3(1) le_by_facts(5) [OF assms] by blast
      ultimately show "le_by compare y obj" by (rule le_by_facts(4) [OF assms])
    qed
    then show ?thesis using here [OF 3(2)] 3(1) unfolding remove_node by (cases "l = Null") auto
  next
    case 4
    have "obj \<notin> set (items l)"
    proof
      assume "obj \<in> set (items l)"
      from le_first [OF this] 4 show False by (simp add: le_by_def)
    qed
    from here [OF this] 4 show ?thesis unfolding remove_node by simp
  qed
qed simp

section \<open>The search visits the range in order\<close>

text \<open>The ends of the range split the contents: what is before it comes first, what is after it last.\<close>

definition range_ok :: "('k \<Rightarrow> 'o \<Rightarrow> int) \<Rightarrow> ('k, 'o) search_context \<Rightarrow> 'o list \<Rightarrow> bool" where
  "range_ok compare sc xs \<longleftrightarrow>
     sorted_wrt (\<lambda>x y. (before_range compare sc y \<longrightarrow> before_range compare sc x) \<and>
       (after_range compare sc x \<longrightarrow> after_range compare sc y)) xs"

definition same_range :: "('k, 'o) search_context \<Rightarrow> ('k, 'o) search_context \<Rightarrow> bool" where
  "same_range sc sc' \<longleftrightarrow> firstKey sc' = firstKey sc \<and> lastKey sc' = lastKey sc \<and>
     firstKeyInclusion sc' = firstKeyInclusion sc \<and> lastKeyInclusion sc' = lastKeyInclusion sc \<and>
     selectionLimit sc' = selectionLimit sc"

lemma same_range_facts:
  assumes "same_range sc sc'"
  shows "before_range compare sc' = before_range compare sc" "after_range compare sc' = after_range compare sc"
    "range_ok compare sc' xs = range_ok compare sc xs"
proof -
  show b: "before_range compare sc' = before_range compare sc" and a: "after_range compare sc' = after_range compare sc"
    using assms by (simp_all add: same_range_def before_range_def after_range_def fun_eq_iff cong: option.case_cong)
  show "range_ok compare sc' xs = range_ok compare sc xs" unfolding range_ok_def b a ..
qed

lemma scan_items_range: "same_range sc (fst (scan_items compare predicate xs sc))"
proof (induction xs arbitrary: sc)
  case (Cons x xs)
  have "same_range sc (push_match x sc)" by (simp add: same_range_def push_match_def)
  moreover have "same_range sc (fst (scan_items compare predicate xs (push_match x sc)))"
    using Cons.IH [of "push_match x sc"] by (simp add: same_range_def push_match_def)
  ultimately show ?case using Cons.IH [of sc] by (simp add: Let_def same_range_def)
qed (simp add: same_range_def)

lemma scan_items_append:
  "scan_items compare predicate (xs @ ys) sc
    = and_then (scan_items compare predicate xs sc) (scan_items compare predicate ys)"
  by (induction xs arbitrary: sc) (simp_all add: Let_def)

lemma and_then_assoc: "and_then (and_then p f) g = and_then p (\<lambda>s. and_then (f s) g)"
  by (cases p) simp

lemma and_then_cong: "(snd p \<Longrightarrow> f (fst p) = g (fst p)) \<Longrightarrow> and_then p f = and_then p g"
  by (cases p) simp

lemma first_in_range_ok:
  assumes "sorted_wrt (\<lambda>x y. before_range compare sc y \<longrightarrow> before_range compare sc x) item"
  shows "l \<le> r \<Longrightarrow> r \<le> length item \<Longrightarrow> (\<forall>j<l. before_range compare sc (item ! j)) \<Longrightarrow>
    (\<forall>j<length item. r \<le> j \<longrightarrow> \<not> before_range compare sc (item ! j)) \<Longrightarrow>
    (let m = first_in_range compare sc item l r in m \<le> length item \<and> (\<forall>j<m. before_range compare sc (item ! j)) \<and>
      (\<forall>j<length item. m \<le> j \<longrightarrow> \<not> before_range compare sc (item ! j)))"
proof (induction "r - l" arbitrary: l r rule: less_induct)
  case less
  show ?case
  proof (cases "l < r")
    case False
    then show ?thesis using less.prems by (subst first_in_range.simps) (simp add: Let_def)
  next
    case True
    define m where "m = (l + r) div 2"
    have m: "l \<le> m" "m < r" "m < length item" using True less.prems by (auto simp: m_def)
    have mono: "before_range compare sc (item ! k) \<Longrightarrow> before_range compare sc (item ! j)" if "j \<le> k" "k < length item" for j k
      using assms that unfolding sorted_wrt_iff_nth_less by (metis le_neq_implies_less)
    show ?thesis
    proof (cases "before_range compare sc (item ! m)")
      case True
      then have "\<forall>j<m + 1. before_range compare sc (item ! j)" using mono [of _ m] m by auto
      then have "let p = first_in_range compare sc item (m + 1) r in p \<le> length item \<and> (\<forall>j<p. before_range compare sc (item ! j)) \<and>
          (\<forall>j<length item. p \<le> j \<longrightarrow> \<not> before_range compare sc (item ! j))"
        using m less.prems by (intro less.hyps) auto
      then show ?thesis using True \<open>l < r\<close> by (subst first_in_range.simps) (simp add: Let_def flip: m_def)
    next
      case False
      then have "\<forall>j<length item. m \<le> j \<longrightarrow> \<not> before_range compare sc (item ! j)" using mono [of m] by auto
      then have "let p = first_in_range compare sc item l m in p \<le> length item \<and> (\<forall>j<p. before_range compare sc (item ! j)) \<and>
          (\<forall>j<length item. p \<le> j \<longrightarrow> \<not> before_range compare sc (item ! j))"
        using m less.prems by (intro less.hyps) auto
      then show ?thesis using False \<open>l < r\<close> by (subst first_in_range.simps) (simp add: Let_def flip: m_def)
    qed
  qed
qed

lemma filter_split:
  assumes "m \<le> length xs" "\<forall>j<m. \<not> P (xs ! j)" "\<forall>j<length xs. m \<le> j \<longrightarrow> P (xs ! j)"
  shows "filter P xs = drop m xs"
proof -
  have "filter P (take m xs) = []" "filter P (drop m xs) = drop m xs"
    using assms by (auto simp: filter_empty_conv filter_id_conv in_set_conv_nth)
  then show ?thesis by (metis append_Nil append_take_drop_id filter_append)
qed

lemma ttree_node_find_scan:
  "pages_ok t \<Longrightarrow> range_ok compare sc (items t) \<Longrightarrow>
   ttree_node_find compare predicate t sc = scan_items compare predicate (filter (\<lambda>x. \<not> before_range compare sc x) (items t)) sc"
proof (induction t arbitrary: sc)
  case (Node l item b r)
  let ?before = "before_range compare sc" and ?P = "\<lambda>x. \<not> before_range compare sc x"
  have ne: "item \<noteq> []" and pages: "pages_ok l" "pages_ok r" using Node.prems(1) by auto
  have sub: "range_ok compare sc (items l)" "range_ok compare sc item" "range_ok compare sc (items r)"
    using Node.prems(2) unfolding range_ok_def items_simps sorted_parts by blast+
  have lt: "?before y \<Longrightarrow> ?before x" if "(x, y) \<in> set (items l) \<times> set item \<or> (x, y) \<in> set item \<times> set (items r)" for x y
    using Node.prems(2) that unfolding range_ok_def items_simps sorted_parts by blast
  have first: "item ! 0 \<in> set item" and last: "item ! (length item - 1) \<in> set item" using ne by simp_all
  have page: "sorted_wrt (\<lambda>x y. ?before y \<longrightarrow> ?before x) item"
    using sub(2) unfolding range_ok_def by (rule sorted_wrt_mono_rel [rotated]) blast
  have right: "and_then (scan_items compare predicate xs sc') (ttree_node_find compare predicate r)
      = scan_items compare predicate (xs @ filter ?P (items r)) sc'" if same: "same_range sc sc'" for xs sc'
    unfolding scan_items_append
  proof (rule and_then_cong)
    let ?sc = "fst (scan_items compare predicate xs sc')"
    have "same_range sc ?sc" using same scan_items_range [of sc' compare predicate xs] by (simp add: same_range_def)
    note same_range_facts [OF this, of compare]
    then show "ttree_node_find compare predicate r ?sc = scan_items compare predicate (filter ?P (items r)) ?sc"
      using Node.IH(2) [OF pages(2), of ?sc] sub(3) by simp
  qed
  show ?case
  proof (cases "?before (item ! 0)")
    case True
    have left: "filter ?P (items l) = []" using lt first True by (force simp: filter_empty_conv)
    show ?thesis
    proof (cases "?before (item ! (length item - 1))")
      case last_before: True
      have "filter ?P item = []"
      proof (unfold filter_empty_conv, intro ballI notI)
        fix x assume "x \<in> set item" "\<not> ?before x"
        then obtain i where i: "i < length item" "\<not> ?before (item ! i)" by (auto simp: in_set_conv_nth)
        have "i \<noteq> length item - 1" using i last_before by auto
        then have "i < length item - 1" "length item - 1 < length item" using i by auto
        then show False using last_before page i(2) unfolding sorted_wrt_iff_nth_less by blast
      qed
      then show ?thesis using True last_before left Node.IH(2) [OF pages(2) sub(3)] by simp
    next
      case False
      define m where "m = first_in_range compare sc item 0 (length item)"
      have "m \<le> length item \<and> (\<forall>j<m. ?before (item ! j)) \<and> (\<forall>j<length item. m \<le> j \<longrightarrow> \<not> ?before (item ! j))"
        using first_in_range_ok [OF page, of 0 "length item"] by (simp add: m_def Let_def)
      then have "filter ?P item = drop m item" by (intro filter_split) auto
      then show ?thesis using True False left right [of sc "drop m item"] by (simp add: same_range_def flip: m_def)
    qed
  next
    case False
    have "\<not> ?before x" if x: "x \<in> set item" for x
    proof -
      obtain i where "i < length item" "x = item ! i" using x by (auto simp: in_set_conv_nth)
      then show ?thesis using False page unfolding sorted_wrt_iff_nth_less by (cases "i = 0") auto
    qed
    then have item: "filter ?P item = item" by (simp add: filter_id_conv)
    have "ttree_node_find compare predicate (Node l item b r) sc
      = and_then (scan_items compare predicate (filter ?P (items l)) sc) (\<lambda>sc.
          and_then (scan_items compare predicate item sc) (ttree_node_find compare predicate r))"
      using False Node.IH(1) [OF pages(1) sub(1)] by simp
    also have "\<dots> = and_then (scan_items compare predicate (filter ?P (items l)) sc)
        (scan_items compare predicate (item @ filter ?P (items r)))"
      by (intro and_then_cong right scan_items_range)
    also have "\<dots> = scan_items compare predicate (filter ?P (items l) @ item @ filter ?P (items r)) sc"
      by (simp only: scan_items_append)
    finally show ?thesis by (simp add: item)
  qed
qed simp

definition up_to_limit :: "nat \<Rightarrow> 'a list \<Rightarrow> 'a list" where
  "up_to_limit limit xs = (if limit = 0 then xs else take limit xs)"

lemma scan_items_spec:
  "selectionLimit sc = 0 \<or> nMatches sc < selectionLimit sc \<Longrightarrow>
   fst (scan_items compare predicate xs sc)
     = fold push_match (up_to_limit (selectionLimit sc - nMatches sc) (filter predicate (takeWhile (\<lambda>x. \<not> after_range compare sc x) xs))) sc"
proof (induction xs arbitrary: sc)
  case (Cons x xs)
  have s: "selectionLimit (push_match x sc) = selectionLimit sc" "nMatches (push_match x sc) = nMatches sc + 1"
    by (simp_all add: push_match_def)
  have "same_range sc (push_match x sc)" by (simp add: same_range_def push_match_def)
  then have a: "after_range compare (push_match x sc) = after_range compare sc" by (rule same_range_facts)
  show ?case
  proof (cases "after_range compare sc x \<or> \<not> predicate x")
    case True
    then show ?thesis using Cons by (auto simp: up_to_limit_def)
  next
    case False
    show ?thesis
    proof (cases "nMatches sc + 1 = selectionLimit sc")
      case True
      then show ?thesis using False s by (simp add: up_to_limit_def flip: True)
    next
      case more: False
      have IH: "fst (scan_items compare predicate xs (push_match x sc))
        = fold push_match (up_to_limit (selectionLimit sc - (nMatches sc + 1))
            (filter predicate (takeWhile (\<lambda>x. \<not> after_range compare sc x) xs))) (push_match x sc)"
        using Cons.IH [of "push_match x sc"] Cons.prems more s a by auto
      have "selectionLimit sc = 0 \<or> (\<exists>k. selectionLimit sc - nMatches sc = Suc (Suc k) \<and>
          selectionLimit sc - Suc (nMatches sc) = Suc k)"
        using Cons.prems more by presburger
      then show ?thesis using False IH more s by (auto simp: up_to_limit_def Suc_diff_Suc)
    qed
  qed
qed (simp add: up_to_limit_def)

lemma fold_push_match:
  "nMatches (fold push_match xs sc) = nMatches sc + length xs"
  "search_buffer (fold push_match xs sc) = map_option (\<lambda>buf. buf @ xs) (search_buffer sc)"
  "lastMatch (fold push_match xs sc) = (if xs = [] then lastMatch sc else Some (last xs))"
  by (induction xs arbitrary: sc) (auto simp: push_match_def option.map_comp comp_def option.map_ident)

section \<open>Properties\<close>

lemma ttree_insert_ok:
  assumes "compare_ok compare" "ttree_ok compare root"
  shows "\<exists>root'. ttree_insert compare root obj = Some root' \<and> ttree_ok compare root' \<and>
    mset (items root') = add_mset obj (mset (items root))"
proof (cases "root = Null")
  case True
  then show ?thesis using new_node_ok by (simp add: ttree_insert_def)
next
  case False
  from ttree_node_insert_ok [OF assms False, of obj] show ?thesis
    using False by (auto simp: ttree_insert_def inserted_def)
qed

text \<open>C17: \<open>dbTtree::insert\<close> on any well-formed tree and for every comparison that is a total preorder returns:
  it never dereferences a null pointer and its re-insertions of a displaced object end.  The new tree is
  balanced with pages of 1 to 125 objects, its objects are in order, and they are the old ones and the new
  one, equal or not.\<close>

theorem ttree_insert_correct:
  assumes "compare_ok compare" "ttree_ok compare root"
  shows "\<exists>root'. ttree_insert compare root obj = Some root' \<and> ttree_ok compare root' \<and>
    mset (items root') = add_mset obj (mset (items root))"
  using assms by (rule ttree_insert_ok)

definition nat_compare :: "nat \<Rightarrow> nat \<Rightarrow> int" where
  "nat_compare x y = int x - int y"

lemma nat_compare_ok: "compare_ok nat_compare"
  by (auto simp: compare_ok_def nat_compare_def)

definition sample_ttree :: "nat ttree" where
  "sample_ttree = Node Null [3, 5, 5, 9] 1 (Node Null [12, 14] 0 Null)"

lemma sample_ttree_ok: "ttree_ok nat_compare sample_ttree"
  by (simp add: ttree_ok_def sample_ttree_def le_by_def nat_compare_def pageSize_def)

theorem ttree_insert_correct_witness:
  "(\<exists>root'. ttree_insert nat_compare sample_ttree 7 = Some root' \<and> ttree_ok nat_compare root' \<and>
     mset (items root') = add_mset 7 (mset (items sample_ttree))) \<and>
   ttree_insert nat_compare sample_ttree 7 = Some (Node Null [3, 5, 5, 7, 9] 1 (Node Null [12, 14] 0 Null))"
proof
  show "\<exists>root'. ttree_insert nat_compare sample_ttree 7 = Some root' \<and> ttree_ok nat_compare root' \<and>
     mset (items root') = add_mset 7 (mset (items sample_ttree))"
    by (rule ttree_insert_correct [OF nat_compare_ok sample_ttree_ok])
  show "ttree_insert nat_compare sample_ttree 7 = Some (Node Null [3, 5, 5, 7, 9] 1 (Node Null [12, 14] 0 Null))"
    by code_simp
qed

text \<open>C18: \<open>dbTtree::remove\<close> of an object that is in the tree, be it one of several that compare equal, returns
  without a failed assertion: exactly that object is gone, the tree is balanced and in order and no page
  is empty, also when an object of a neighbouring page takes its place.\<close>

theorem ttree_remove_correct:
  assumes "compare_ok compare" "ttree_ok compare root" "obj \<in> set (items root)"
  shows "\<exists>root'. ttree_remove compare root obj = Some root' \<and> ttree_ok compare root' \<and>
    mset (items root) = add_mset obj (mset (items root'))"
  using ttree_node_remove_ok [OF assms] by (auto simp: removed_def ttree_remove_def)

theorem ttree_remove_correct_witness:
  "(\<exists>root'. ttree_remove nat_compare sample_ttree 5 = Some root' \<and> ttree_ok nat_compare root' \<and>
     mset (items sample_ttree) = add_mset 5 (mset (items root'))) \<and>
   ttree_remove nat_compare sample_ttree 5 = Some (Node Null [3, 5, 9, 12] 1 (Node Null [14] 0 Null))"
proof
  show "\<exists>root'. ttree_remove nat_compare sample_ttree 5 = Some root' \<and> ttree_ok nat_compare root' \<and>
     mset (items sample_ttree) = add_mset 5 (mset (items root'))"
    by (rule ttree_remove_correct [OF nat_compare_ok sample_ttree_ok]) (simp add: sample_ttree_def)
  show "ttree_remove nat_compare sample_ttree 5 = Some (Node Null [3, 5, 9, 12] 1 (Node Null [14] 0 Null))"
    by code_simp
qed

text \<open>The comparison of a key with the objects follows the order of the objects.\<close>

definition key_compare_ok :: "('o \<Rightarrow> 'o \<Rightarrow> int) \<Rightarrow> ('k \<Rightarrow> 'o \<Rightarrow> int) \<Rightarrow> bool" where
  "key_compare_ok compare key_compare \<longleftrightarrow>
     (\<forall>k x y. le_by compare x y \<longrightarrow> sgn (key_compare k y) \<le> sgn (key_compare k x))"

definition flags_ok :: "('k, 'o) search_context \<Rightarrow> bool" where
  "flags_ok sc \<longleftrightarrow> firstKeyInclusion sc \<in> {0, 1} \<and> lastKeyInclusion sc \<in> {0, 1}"

lemma sgn_ge: "c \<in> {0, 1} \<Longrightarrow> c \<le> (x :: int) \<longleftrightarrow> c \<le> sgn x"
  by (auto simp: sgn_if)

lemma range_ok_sorted:
  assumes "key_compare_ok compare key_compare" "flags_ok sc" "sorted_wrt (le_by compare) xs"
  shows "range_ok key_compare sc xs"
  unfolding range_ok_def
proof (rule sorted_wrt_mono_rel [OF _ assms(3)])
  fix x y assume le: "le_by compare x y"
  have "sgn (key_compare k y) \<le> sgn (key_compare k x)" "sgn (- key_compare k x) \<le> sgn (- key_compare k y)" for k
    using assms(1) le unfolding key_compare_ok_def by (auto simp: sgn_minus)
  then have "firstKeyInclusion sc \<le> key_compare k y \<Longrightarrow> firstKeyInclusion sc \<le> key_compare k x"
    "lastKeyInclusion sc \<le> - key_compare k x \<Longrightarrow> lastKeyInclusion sc \<le> - key_compare k y" for k
    using assms(2) sgn_ge order_trans unfolding flags_ok_def by metis+
  then show "(before_range key_compare sc y \<longrightarrow> before_range key_compare sc x) \<and>
      (after_range key_compare sc x \<longrightarrow> after_range key_compare sc y)"
    unfolding before_range_def after_range_def by (auto split: option.split)
qed

lemma takeWhile_sorted:
  "sorted_wrt (\<lambda>x y. P x \<longrightarrow> P y) ys \<Longrightarrow> takeWhile (\<lambda>x. \<not> P x) ys = filter (\<lambda>x. \<not> P x) ys"
  by (induction ys) (auto simp: filter_empty_conv)

text \<open>C27: \<open>dbTtree::find\<close> selects the objects between the two keys, each bound inclusive, exclusive or absent,
  that satisfy the predicate, in order, up to the limit: it returns their number, puts exactly them into
  the buffer if there is one, and remembers the last.\<close>

theorem ttree_find_correct:
  fixes predicate :: "'o \<Rightarrow> bool" and sc :: "('k, 'o) search_context"
  assumes "ttree_ok compare root" "key_compare_ok compare key_compare" "flags_ok sc"
  defines "found \<equiv> up_to_limit (selectionLimit sc) (filter predicate (filter (\<lambda>x.
      \<not> before_range key_compare sc x \<and> \<not> after_range key_compare sc x) (items root)))"
  shows "snd (ttree_find key_compare predicate root sc) = length found \<and>
    search_buffer (fst (ttree_find key_compare predicate root sc)) = map_option (\<lambda>buf. found) (search_buffer sc) \<and>
    lastMatch (fst (ttree_find key_compare predicate root sc)) = (if found = [] then None else Some (last found))"
proof -
  define sc0 where "sc0 = sc\<lparr>lastMatch := None, nMatches := 0, search_buffer := map_option (\<lambda>buf. []) (search_buffer sc)\<rparr>"
  have same: "same_range sc sc0" by (simp add: same_range_def sc0_def)
  note range = same_range_facts [OF same, of key_compare]
  have ok: "range_ok key_compare sc (items root)" "pages_ok root"
    using assms(1) range_ok_sorted [OF assms(2,3)] by (simp_all add: ttree_ok_def)
  let ?xs = "filter (\<lambda>x. \<not> before_range key_compare sc x) (items root)"
  have "sorted_wrt (\<lambda>x y. after_range key_compare sc x \<longrightarrow> after_range key_compare sc y) ?xs"
    using ok(1) unfolding range_ok_def by (intro sorted_wrt_filter) (auto elim: sorted_wrt_mono_rel [rotated])
  then have after: "takeWhile (\<lambda>x. \<not> after_range key_compare sc x) ?xs = filter (\<lambda>x. \<not> after_range key_compare sc x) ?xs"
    by (rule takeWhile_sorted)
  have "ttree_node_find key_compare predicate root sc0 = scan_items key_compare predicate ?xs sc0"
    using ttree_node_find_scan [OF ok(2), of key_compare sc0] ok(1) by (simp add: range)
  moreover have "selectionLimit sc0 = 0 \<or> nMatches sc0 < selectionLimit sc0" by (auto simp: sc0_def)
  from scan_items_spec [OF this, of key_compare predicate ?xs]
  have "fst (scan_items key_compare predicate ?xs sc0) = fold push_match found sc0"
    by (simp add: found_def range after conj_commute) (simp add: sc0_def)
  ultimately have "fst (ttree_find key_compare predicate root sc) = fold push_match found sc0"
    "snd (ttree_find key_compare predicate root sc) = nMatches (fold push_match found sc0)"
    by (simp_all add: ttree_find_def Let_def flip: sc0_def)
  then show ?thesis by (simp add: fold_push_match option.map_comp comp_def) (simp add: sc0_def option.map_comp comp_def)
qed

definition sample_context :: "(nat, nat) search_context" where
  "sample_context = \<lparr>firstKey = Some 5, lastKey = Some 12, firstKeyInclusion = 1, lastKeyInclusion = 0,
     search_buffer = Some [99], selectionLimit = 3, nMatches = 8, lastMatch = None\<rparr>"

theorem ttree_find_correct_witness:
  "snd (ttree_find nat_compare (\<lambda>x. x \<noteq> 7) sample_ttree sample_context) = 3 \<and>
   search_buffer (fst (ttree_find nat_compare (\<lambda>x. x \<noteq> 7) sample_ttree sample_context)) = Some [5, 5, 9] \<and>
   lastMatch (fst (ttree_find nat_compare (\<lambda>x. x \<noteq> 7) sample_ttree sample_context)) = Some 9"
proof -
  have "key_compare_ok nat_compare nat_compare" by (auto simp: key_compare_ok_def nat_compare_def le_by_def sgn_if)
  moreover have "flags_ok sample_context" by (simp add: flags_ok_def sample_context_def)
  ultimately show ?thesis
    using ttree_find_correct [OF sample_ttree_ok, of nat_compare sample_context "\<lambda>x. x \<noteq> 7"]
    by (simp add: sample_context_def sample_ttree_def before_range_def after_range_def nat_compare_def up_to_limit_def)
qed

section \<open>The tree as a container\<close>

text \<open>A tree with the relation its client always passes.\<close>

definition bag_insert :: "'o \<Rightarrow> ('o \<Rightarrow> 'o \<Rightarrow> int) \<times> 'o ttree \<Rightarrow> (('o \<Rightarrow> 'o \<Rightarrow> int) \<times> 'o ttree) option" where
  "bag_insert obj t = map_option (Pair (fst t)) (ttree_insert (fst t) (snd t) obj)"

definition bag_remove :: "'o \<Rightarrow> ('o \<Rightarrow> 'o \<Rightarrow> int) \<times> 'o ttree \<Rightarrow> (('o \<Rightarrow> 'o \<Rightarrow> int) \<times> 'o ttree) option" where
  "bag_remove obj t = map_option (Pair (fst t)) (ttree_remove (fst t) (snd t) obj)"

lemma ttree_remove_ok:
  assumes "compare_ok compare" "ttree_ok compare root" "obj \<in> set (items root)"
  shows "\<exists>root'. ttree_remove compare root obj = Some root' \<and> ttree_ok compare root' \<and>
    mset (items root) = add_mset obj (mset (items root'))"
  using ttree_node_remove_ok [OF assms] by (auto simp: removed_def ttree_remove_def)

interpretation ttree_bag: removing_bag "\<lambda>t. compare_ok (fst t) \<and> ttree_ok (fst t) (snd t)" "\<lambda>obj. True"
  "\<lambda>t. mset (items (snd t))" bag_insert bag_remove
proof
  fix t :: "('o \<Rightarrow> 'o \<Rightarrow> int) \<times> 'o ttree" and obj
  assume "compare_ok (fst t) \<and> ttree_ok (fst t) (snd t)"
  then show "\<exists>t'. bag_insert obj t = Some t' \<and> (compare_ok (fst t') \<and> ttree_ok (fst t') (snd t')) \<and>
      mset (items (snd t')) = add_mset obj (mset (items (snd t)))"
    using ttree_insert_ok [of "fst t" "snd t" obj] by (auto simp: bag_insert_def)
next
  fix t :: "('o \<Rightarrow> 'o \<Rightarrow> int) \<times> 'o ttree" and obj
  assume "compare_ok (fst t) \<and> ttree_ok (fst t) (snd t)" "obj \<in># mset (items (snd t))"
  then show "\<exists>t'. bag_remove obj t = Some t' \<and> (compare_ok (fst t') \<and> ttree_ok (fst t') (snd t')) \<and>
      mset (items (snd t)) = add_mset obj (mset (items (snd t')))"
    using ttree_remove_ok [of "fst t" "snd t" obj] by (auto simp: bag_remove_def)
qed

definition ttree_insert_all :: "('o \<Rightarrow> 'o \<Rightarrow> int) \<Rightarrow> 'o list \<Rightarrow> 'o ttree \<Rightarrow> 'o ttree option" where
  "ttree_insert_all compare = add_all (\<lambda>obj t. ttree_insert compare t obj)"

definition ttree_remove_all :: "('o \<Rightarrow> 'o \<Rightarrow> int) \<Rightarrow> 'o list \<Rightarrow> 'o ttree \<Rightarrow> 'o ttree option" where
  "ttree_remove_all compare = add_all (\<lambda>obj t. ttree_remove compare t obj)"

lemma bag_all:
  "add_all bag_insert es (compare, t) = map_option (Pair compare) (ttree_insert_all compare es t)"
  "add_all bag_remove es (compare, t) = map_option (Pair compare) (ttree_remove_all compare es t)"
proof -
  show "add_all bag_insert es (compare, t) = map_option (Pair compare) (ttree_insert_all compare es t)"
  proof (induction es arbitrary: t)
    case (Cons e es)
    then show ?case by (cases "ttree_insert compare t e") (simp_all add: ttree_insert_all_def bag_insert_def)
  qed (simp add: ttree_insert_all_def)
  show "add_all bag_remove es (compare, t) = map_option (Pair compare) (ttree_remove_all compare es t)"
  proof (induction es arbitrary: t)
    case (Cons e es)
    then show ?case by (cases "ttree_remove compare t e") (simp_all add: ttree_remove_all_def bag_remove_def)
  qed (simp add: ttree_remove_all_def)
qed

text \<open>C34: A T-tree filled from empty by any sequence of insertions holds just the inserted objects in order, and
  their removal in any order succeeds to the last and leaves the null tree.\<close>

theorem ttree_fill_and_drain:
  assumes "compare_ok compare" "mset ds = mset es"
  shows "\<exists>t. ttree_insert_all compare es Null = Some t \<and> sorted_wrt (\<lambda>x y. compare x y \<le> 0) (items t) \<and>
    mset (items t) = mset es \<and> ttree_remove_all compare ds t = Some Null"
proof -
  have empty: "compare_ok (fst (compare, Null)) \<and> ttree_ok (fst (compare, Null)) (snd (compare, Null))"
    using assms(1) by (simp add: ttree_ok_def)
  obtain t1 where t1: "add_all bag_insert es (compare, Null) = Some t1" "ttree_ok (fst t1) (snd t1)" "mset (items (snd t1)) = mset es"
    using ttree_bag.add_all_ok [OF empty, of es] by auto
  obtain t t2 where "add_all bag_insert es (compare, Null) = Some t" "add_all bag_remove ds t = Some t2"
    "ttree_ok (fst t2) (snd t2)" "mset (items (snd t2)) = {#}"
    using ttree_bag.fill_and_drain [OF empty, of es ds] assms(2) by auto
  moreover have "snd t2 = Null" if "ttree_ok (fst t2) (snd t2)" "mset (items (snd t2)) = {#}"
    using that by (cases "snd t2") (auto simp: ttree_ok_def)
  ultimately have t2: "add_all bag_remove ds t1 = Some t2" "snd t2 = Null" using t1(1) by auto
  obtain root where root: "t1 = (compare, root)" "ttree_insert_all compare es Null = Some root"
    using t1(1) by (auto simp: bag_all)
  have "ttree_remove_all compare ds root = Some Null"
    using t2 by (auto simp: root(1) bag_all)
  moreover have "sorted_wrt (\<lambda>x y. compare x y \<le> 0) (items root)"
    using t1(2) by (simp add: root(1) ttree_ok_def le_by_def [abs_def])
  ultimately show ?thesis using root t1(3) by auto
qed

theorem ttree_fill_and_drain_witness:
  "\<exists>t. ttree_insert_all nat_compare ([0 ..< 200] @ [5, 5, 7]) Null = Some t \<and>
     sorted_wrt (\<lambda>x y. nat_compare x y \<le> 0) (items t) \<and> mset (items t) = mset ([0 ..< 200] @ [5, 5, 7]) \<and>
     ttree_remove_all nat_compare ([7, 5, 5] @ rev [0 ..< 200]) t = Some Null"
  by (rule ttree_fill_and_drain [OF nat_compare_ok]) simp

end
