(* ===== verification/RTree.thy ===== *)
theory RTree
  imports ObjectBag
begin

text \<open>
  The R-tree of \<open>src/rtree.h\<close> and \<open>src/rtree.cxx\<close>.  A branch is its rectangle and what it points to: a page in
  an inner page, an object in a leaf; a page is \<open>b[0 .. n - 1]\<close>.  \<open>None\<close> stands for a failed assertion, an
  uninitialised variable or a null pointer used, or a pointer to an object read as a pointer to a page.
\<close>

section \<open>Rectangles\<close>

type_synonym int32 = "32 word"
type_synonym size_t = "64 word"

text \<open>\<open>boundary[0 .. 3]\<close>: the least coordinates of the two dimensions, then the greatest.\<close>

datatype rectangle = Rectangle (boundary0: int32) (boundary1: int32) (boundary2: int32) (boundary3: int32)

definition min_int :: "int32 \<Rightarrow> int32 \<Rightarrow> int32" where
  "min_int x y = (if x <=s y then x else y)"

definition max_int :: "int32 \<Rightarrow> int32 \<Rightarrow> int32" where
  "max_int x y = (if y <=s x then x else y)"

fun rect_plus :: "rectangle \<Rightarrow> rectangle \<Rightarrow> rectangle" where
  "rect_plus (Rectangle a0 a1 a2 a3) (Rectangle c0 c1 c2 c3) =
     Rectangle (min_int a0 c0) (min_int a1 c1) (max_int a2 c2) (max_int a3 c3)"

fun rect_and :: "rectangle \<Rightarrow> rectangle \<Rightarrow> bool" where
  "rect_and (Rectangle a0 a1 a2 a3) (Rectangle c0 c1 c2 c3) \<longleftrightarrow>
     \<not> (c3 <s a1 \<or> a3 <s c1) \<and> \<not> (c2 <s a0 \<or> a2 <s c0)"

fun rect_le :: "rectangle \<Rightarrow> rectangle \<Rightarrow> bool" where
  "rect_le (Rectangle a0 a1 a2 a3) (Rectangle c0 c1 c2 c3) \<longleftrightarrow>
     \<not> (a1 <s c1 \<or> c3 <s a3) \<and> \<not> (a0 <s c0 \<or> c2 <s a2)"

text \<open>Conversions between \<open>int\<close> and \<open>size_t\<close>.\<close>

definition size_of_int :: "int32 \<Rightarrow> size_t" where "size_of_int x = scast x"

definition int_of_size :: "size_t \<Rightarrow> int32" where "int_of_size x = ucast x"

fun area :: "rectangle \<Rightarrow> size_t" where
  "area (Rectangle a0 a1 a2 a3) = 1 * size_of_int (a3 - a1) * size_of_int (a2 - a0)"

section \<open>Pages\<close>

datatype 'o rptr = Obj 'o | Page "(rectangle \<times> 'o rptr) list"

type_synonym 'o branch = "rectangle \<times> 'o rptr"
type_synonym 'o page = "'o branch list"

definition page_card :: nat where "page_card = (4096 - 4) div (6 + 4 * 4)"

definition min_fill :: nat where "min_fill = page_card div 2"

definition cover :: "'o page \<Rightarrow> rectangle" where
  "cover b = fold (\<lambda>br r. rect_plus r (fst br)) (tl b) (fst (hd b))"

text \<open>
  \<open>split_page\<close>.  The rectangles are numbered from the new one, \<open>0\<close>, on; the two loops over the pairs keep the
  first of the pairs that waste most, none before the first pair is accepted.
\<close>

definition rect_area :: "'o branch \<Rightarrow> int32" where
  "rect_area br = int_of_size (area (fst br))"

definition seed_waste :: "'o page \<Rightarrow> nat \<Rightarrow> nat \<Rightarrow> int32" where
  "seed_waste brs i j = int_of_size (area (rect_plus (fst (brs ! i)) (fst (brs ! j)))
     - size_of_int (rect_area (brs ! i)) - size_of_int (rect_area (brs ! j)))"

definition seed_step :: "'o page \<Rightarrow> nat \<times> nat \<Rightarrow> (nat \<times> nat) option \<times> int32 \<Rightarrow> (nat \<times> nat) option \<times> int32" where
  "seed_step brs ij acc =
     (case ij of (i, j) \<Rightarrow> case acc of (seed, worst_waste) \<Rightarrow>
        let waste = seed_waste brs i j
        in if worst_waste <s waste then (Some (i, j), waste) else (seed, worst_waste))"

definition seed_pairs :: "(nat \<times> nat) list" where
  "seed_pairs = concat (map (\<lambda>i. map (Pair i) [i + 1 ..< page_card + 1]) [0 ..< page_card])"

definition INT_MIN :: int32 where "INT_MIN = - (2 ^ 31)"

definition find_seeds :: "'o page \<Rightarrow> (nat \<times> nat) option" where
  "find_seeds brs = fst (fold (seed_step brs) seed_pairs (None, INT_MIN))"

text \<open>The variables of the second half: \<open>group\<close>, \<open>group_area\<close>, \<open>group_card\<close>, \<open>taken\<close>, and the branches of \<open>p\<close>.\<close>

record 'o split =
  group0 :: rectangle
  group1 :: rectangle
  group_area0 :: int32
  group_area1 :: int32
  group_card0 :: nat
  group_card1 :: nat
  taken :: "nat list"
  new_page :: "'o page"

definition attraction :: "'o page \<Rightarrow> 'o split \<Rightarrow> nat \<Rightarrow> int32" where
  "attraction b s i = int_of_size
     ((area (rect_plus (group0 s) (fst (b ! i))) - size_of_int (group_area0 s))
      - (area (rect_plus (group1 s) (fst (b ! i))) - size_of_int (group_area1 s)))"

definition choose_step :: "'o page \<Rightarrow> 'o split \<Rightarrow> nat \<Rightarrow> (nat \<times> nat) option \<times> int32 \<Rightarrow> (nat \<times> nat) option \<times> int32" where
  "choose_step b s i acc =
     (case acc of (choice, biggest_diff) \<Rightarrow>
        if taken s ! i \<noteq> 0 then (choice, biggest_diff)
        else let diff = attraction b s i
             in if biggest_diff <s diff \<or> biggest_diff <s - diff
                then if diff <s 0 then (Some (0, i), - diff) else (Some (1, i), diff)
                else (choice, biggest_diff))"

text \<open>\<open>better_group\<close> and \<open>chosen\<close>; none when the assertion \<open>chosen >= 0\<close> fails.\<close>

definition choose_next :: "'o page \<Rightarrow> 'o split \<Rightarrow> (nat \<times> nat) option" where
  "choose_next b s = fst (fold (choose_step b s) [0 ..< page_card] (None, -1))"

definition join_group :: "'o page \<Rightarrow> nat \<times> nat \<Rightarrow> 'o split \<Rightarrow> 'o split" where
  "join_group b choice s =
     (case choice of (better_group, chosen) \<Rightarrow>
        if better_group = 0
        then let g = rect_plus (group0 s) (fst (b ! chosen))
             in s\<lparr>group_card0 := group_card0 s + 1, group0 := g, group_area0 := int_of_size (area g),
                  taken := (taken s)[chosen := 1], new_page := new_page s @ [b ! chosen]\<rparr>
        else let g = rect_plus (group1 s) (fst (b ! chosen))
             in s\<lparr>group_card1 := group_card1 s + 1, group1 := g, group_area1 := int_of_size (area g),
                  taken := (taken s)[chosen := 2]\<rparr>)"

function split_loop :: "'o page \<Rightarrow> 'o split \<Rightarrow> 'o split option" where
  "split_loop b s =
     (if group_card0 s + group_card1 s < page_card + 1
         \<and> group_card0 s < page_card + 1 - min_fill \<and> group_card1 s < page_card + 1 - min_fill
      then case choose_next b s of None \<Rightarrow> None | Some choice \<Rightarrow> split_loop b (join_group b choice s)
      else Some s)"
  by pat_completeness auto
termination
  by (relation "measure (\<lambda>(b, s). page_card + 1 - (group_card0 s + group_card1 s))")
     (auto simp: join_group_def Let_def split: prod.splits)

declare split_loop.simps [simp del]

definition rest_step :: "'o page \<Rightarrow> nat \<Rightarrow> 'o split \<Rightarrow> 'o split" where
  "rest_step b i s =
     (if taken s ! i \<noteq> 0 then s
      else if group_card0 s \<ge> group_card1 s
      then s\<lparr>taken := (taken s)[i := 2], group_card1 := group_card1 s + 1\<rparr>
      else s\<lparr>taken := (taken s)[i := 1], group_card0 := group_card0 s + 1, new_page := new_page s @ [b ! i]\<rparr>)"

definition split_rest :: "'o page \<Rightarrow> 'o split \<Rightarrow> 'o split" where
  "split_rest b s = (if group_card0 s + group_card1 s < page_card + 1 then fold (rest_step b) [0 ..< page_card] s else s)"

text \<open>The branches of one mark; the compaction loop keeps those of mark 2.\<close>

definition marked :: "'o page \<Rightarrow> nat list \<Rightarrow> nat \<Rightarrow> 'o page" where
  "marked b t k = map fst (filter (\<lambda>x. snd x = k) (zip b t))"

definition split_start :: "'o branch \<Rightarrow> 'o page \<Rightarrow> nat \<times> nat \<Rightarrow> 'o page \<times> 'o split" where
  "split_start br b seed =
     (case seed of (seed0, seed1) \<Rightarrow>
        let first = (if seed0 = 0 then br else b ! (seed0 - 1)); second = b ! (seed1 - 1)
        in (if seed0 = 0 then b else b[seed0 - 1 := br],
            \<lparr>group0 = fst first, group1 = fst second, group_area0 = rect_area first, group_area1 = rect_area second,
             group_card0 = 1, group_card1 = 1, taken = (replicate page_card 0)[seed1 - 1 := 2], new_page = [first]\<rparr>))"

text \<open>The old page and the new one.\<close>

definition split_page :: "'o branch \<Rightarrow> 'o page \<Rightarrow> ('o page \<times> 'o page) option" where
  "split_page br b =
     Option.bind (find_seeds (br # b)) (\<lambda>seed.
       case split_start br b seed of (b, s) \<Rightarrow>
         map_option (\<lambda>s. let s = split_rest b s
             in (take (group_card1 s) (marked b (taken s) 2), take (group_card0 s) (new_page s)))
           (split_loop b s))"

definition add_branch :: "'o branch \<Rightarrow> 'o page \<Rightarrow> ('o page \<times> 'o page option) option" where
  "add_branch br b =
     (if length b < page_card then Some (b @ [br], None)
      else map_option (\<lambda>(b, p). (b, Some p)) (split_page br b))"

definition remove_branch :: "nat \<Rightarrow> 'o page \<Rightarrow> 'o page" where
  "remove_branch i b = take i b @ drop (i + 1) b"

text \<open>
  The levels count down to the leaves: a page is a leaf when its level is 1.  At level 0 the methods would
  go on below the leaves.
\<close>

definition INT_MAX :: size_t where "INT_MAX = 2 ^ 31 - 1"

definition branch_step :: "rectangle \<Rightarrow> 'o page \<Rightarrow> nat \<Rightarrow> nat \<times> size_t \<times> size_t \<Rightarrow> nat \<times> size_t \<times> size_t" where
  "branch_step r b i acc =
     (case acc of (mini, min_incr, best_area) \<Rightarrow>
        let r_area = area (fst (b ! i)); incr = area (rect_plus (fst (b ! i)) r) - r_area
        in if incr < min_incr then (i, incr, r_area)
           else if incr = min_incr \<and> r_area < best_area then (i, min_incr, r_area)
           else (mini, min_incr, best_area))"

definition choose_branch :: "rectangle \<Rightarrow> 'o page \<Rightarrow> nat" where
  "choose_branch r b = fst (fold (branch_step r b) [0 ..< length b] (0, INT_MAX, INT_MAX))"

fun page_insert :: "nat \<Rightarrow> rectangle \<Rightarrow> 'o rptr \<Rightarrow> 'o page \<Rightarrow> ('o page \<times> 'o page option) option" where
  "page_insert 0 r obj b = None"
| "page_insert (Suc level) r obj b =
     (if level \<noteq> 0
      then let mini = choose_branch r b
           in if mini < length b
              then case snd (b ! mini) of
                     Obj x \<Rightarrow> None
                   | Page p \<Rightarrow> Option.bind (page_insert level r obj p) (\<lambda>(p, q).
                       case q of
                         None \<Rightarrow> Some (b[mini := (rect_plus (fst (b ! mini)) r, Page p)], None)
                       | Some q \<Rightarrow> add_branch (cover q, Page q) (b[mini := (cover p, Page p)]))
              else None
      else add_branch (r, obj) b)"

text \<open>\<open>reinsert_list\<close>: the chain of underfull pages and the level of its first.\<close>

type_synonym 'o reinsert_list = "'o page list \<times> int"

definition keep_branch :: "'o branch \<Rightarrow> ('o page \<times> 'o reinsert_list \<times> bool) option \<Rightarrow>
    ('o page \<times> 'o reinsert_list \<times> bool) option" where
  "keep_branch br res = map_option (\<lambda>(b, rlist, found). (br # b, rlist, found)) res"

fun remove_scan :: "('o page \<Rightarrow> 'o reinsert_list \<Rightarrow> ('o page \<times> 'o reinsert_list \<times> bool) option) \<Rightarrow> nat \<Rightarrow> rectangle \<Rightarrow>
    'o reinsert_list \<Rightarrow> 'o page \<Rightarrow> ('o page \<times> 'o reinsert_list \<times> bool) option" where
  "remove_scan child level r rlist [] = Some ([], rlist, False)"
| "remove_scan child level r rlist (br # b) =
     (if rect_and (fst br) r
      then case snd br of
             Obj x \<Rightarrow> None
           | Page p \<Rightarrow> Option.bind (child p rlist) (\<lambda>(p, rlist, found).
               if found
               then if length p \<ge> min_fill then Some ((cover p, Page p) # b, rlist, True)
                    else Some (b, (p # fst rlist, int level - 1), True)
               else keep_branch (fst br, Page p) (remove_scan child level r rlist b))
      else keep_branch br (remove_scan child level r rlist b))"

fun remove_leaf :: "'o \<Rightarrow> 'o page \<Rightarrow> nat option" where
  "remove_leaf obj [] = None"
| "remove_leaf obj (br # b) = (if snd br = Obj obj then Some 0 else map_option Suc (remove_leaf obj b))"

fun page_remove :: "nat \<Rightarrow> rectangle \<Rightarrow> 'o \<Rightarrow> 'o page \<Rightarrow> 'o reinsert_list \<Rightarrow> ('o page \<times> 'o reinsert_list \<times> bool) option" where
  "page_remove 0 r obj b rlist = None"
| "page_remove (Suc level) r obj b rlist =
     (if level \<noteq> 0 then remove_scan (\<lambda>p rlist. page_remove level r obj p rlist) level r rlist b
      else case remove_leaf obj b of
             None \<Rightarrow> Some (b, rlist, False)
           | Some i \<Rightarrow> Some (remove_branch i b, rlist, True))"

text \<open>The searches: \<open>apply\<close> is what is done with an object found; the second search puts it into a buffer.\<close>

fun search_visit :: "('o rptr \<Rightarrow> 's \<Rightarrow> ('s \<times> nat) option) \<Rightarrow> rectangle \<Rightarrow> 'o page \<Rightarrow> 's \<Rightarrow> ('s \<times> nat) option" where
  "search_visit visit r [] s = Some (s, 0)"
| "search_visit visit r (br # b) s =
     (if rect_and r (fst br)
      then Option.bind (visit (snd br) s) (\<lambda>(s, hits).
             map_option (\<lambda>(s, hit_count). (s, hits + hit_count)) (search_visit visit r b s))
      else search_visit visit r b s)"

fun page_search :: "('o \<Rightarrow> 's \<Rightarrow> 's) \<Rightarrow> nat \<Rightarrow> rectangle \<Rightarrow> 'o page \<Rightarrow> 's \<Rightarrow> ('s \<times> nat) option" where
  "page_search apply_cb 0 r b s = search_visit (\<lambda>p s. None) r b s"
| "page_search apply_cb (Suc level) r b s =
     (if level \<noteq> 0
      then search_visit (\<lambda>p s. case p of Obj x \<Rightarrow> None | Page c \<Rightarrow> page_search apply_cb level r c s) r b s
      else search_visit (\<lambda>p s. case p of Obj x \<Rightarrow> Some (apply_cb x s, 1) | Page c \<Rightarrow> None) r b s)"

definition page_search_buffer :: "nat \<Rightarrow> rectangle \<Rightarrow> 'o page \<Rightarrow> 'o list \<Rightarrow> ('o list \<times> nat) option" where
  "page_search_buffer level r b sb = page_search (\<lambda>x sb. sb @ [x]) level r b sb"

text \<open>\<open>purge\<close>: the objects it deletes.\<close>

fun purge_visit :: "('o rptr \<Rightarrow> 'o list option) \<Rightarrow> 'o page \<Rightarrow> 'o list option" where
  "purge_visit visit [] = Some []"
| "purge_visit visit (br # b) =
     Option.bind (visit (snd br)) (\<lambda>xs. map_option (\<lambda>ys. xs @ ys) (purge_visit visit b))"

fun page_purge :: "nat \<Rightarrow> bool \<Rightarrow> 'o page \<Rightarrow> 'o list option" where
  "page_purge 0 remove_leaves b = purge_visit (\<lambda>p. None) b"
| "page_purge (Suc level) remove_leaves b =
     (if level \<noteq> 0
      then purge_visit (\<lambda>p. case p of Obj x \<Rightarrow> None | Page c \<Rightarrow> page_purge level remove_leaves c) b
      else if remove_leaves
      then purge_visit (\<lambda>p. case p of Obj x \<Rightarrow> Some [x] | Page c \<Rightarrow> None) b
      else Some [])"

section \<open>The tree\<close>

record 'o r_tree =
  n_records :: "32 word"
  height :: nat
  root :: "'o page option"

text \<open>A new object of the storage is filled with zeros.\<close>

definition r_tree_new :: "'o r_tree" where
  "r_tree_new = \<lparr>n_records = 0, height = 0, root = None\<rparr>"

definition grow_root :: "nat \<Rightarrow> 'o page \<times> 'o page option \<Rightarrow> 'o page \<times> nat" where
  "grow_root h res =
     (case res of (b, None) \<Rightarrow> (b, h) | (b, Some p) \<Rightarrow> ([(cover b, Page b), (cover p, Page p)], h + 1))"

definition r_tree_insert :: "rectangle \<Rightarrow> 'o \<Rightarrow> 'o r_tree \<Rightarrow> 'o r_tree option" where
  "r_tree_insert r obj t =
     (case root t of
        None \<Rightarrow> Some (t\<lparr>root := Some [(r, Obj obj)], height := 1, n_records := n_records t + 1\<rparr>)
      | Some b \<Rightarrow> map_option (\<lambda>res. case grow_root (height t) res of (b, h) \<Rightarrow>
            t\<lparr>root := Some b, height := h, n_records := n_records t + 1\<rparr>)
          (page_insert (height t) r (Obj obj) b))"

fun reinsert_page :: "int \<Rightarrow> 'o page \<Rightarrow> 'o page \<times> nat \<Rightarrow> ('o page \<times> nat) option" where
  "reinsert_page level [] t = Some t"
| "reinsert_page level (br # brs) t =
     (case t of (b, h) \<Rightarrow> Option.bind (page_insert (nat (int h - level)) (fst br) (snd br) b) (\<lambda>res.
        reinsert_page level brs (grow_root h res)))"

fun reinsert_chain :: "int \<Rightarrow> 'o page list \<Rightarrow> 'o page \<times> nat \<Rightarrow> ('o page \<times> nat) option" where
  "reinsert_chain level [] t = Some t"
| "reinsert_chain level (pg # chain) t =
     Option.bind (reinsert_page level pg t) (reinsert_chain (level - 1) chain)"

definition drop_root :: "'o page \<times> nat \<Rightarrow> ('o page \<times> nat) option" where
  "drop_root t =
     (case t of (b, h) \<Rightarrow>
        if length b = 1 \<and> h > 1
        then (case snd (b ! 0) of Obj x \<Rightarrow> None | Page p \<Rightarrow> Some (p, h - 1))
        else Some (b, h))"

definition r_tree_remove :: "rectangle \<Rightarrow> 'o \<Rightarrow> 'o r_tree \<Rightarrow> ('o r_tree \<times> bool) option" where
  "r_tree_remove r obj t =
     (if height t \<noteq> 0
      then case root t of
             None \<Rightarrow> None
           | Some b \<Rightarrow> Option.bind (page_remove (height t) r obj b ([], 0)) (\<lambda>(b, rlist, found).
               if found
               then map_option (\<lambda>(b, h). (t\<lparr>root := Some b, height := h, n_records := n_records t - 1\<rparr>, True))
                      (Option.bind (reinsert_chain (snd rlist) (fst rlist) (b, height t)) drop_root)
               else Some (t\<lparr>root := Some b\<rparr>, False))
      else Some (t, False))"

definition r_tree_search :: "('o \<Rightarrow> 's \<Rightarrow> 's) \<Rightarrow> rectangle \<Rightarrow> 'o r_tree \<Rightarrow> 's \<Rightarrow> ('s \<times> nat) option" where
  "r_tree_search apply_cb r t s =
     (if n_records t \<noteq> 0
      then (case root t of None \<Rightarrow> None | Some b \<Rightarrow> page_search apply_cb (height t) r b s)
      else Some (s, 0))"

definition r_tree_search_buffer :: "rectangle \<Rightarrow> 'o r_tree \<Rightarrow> 'o list \<Rightarrow> ('o list \<times> nat) option" where
  "r_tree_search_buffer r t sb =
     (if n_records t \<noteq> 0
      then (case root t of None \<Rightarrow> None | Some b \<Rightarrow> page_search_buffer (height t) r b sb)
      else Some (sb, 0))"

definition r_tree_purge :: "bool \<Rightarrow> 'o r_tree \<Rightarrow> ('o r_tree \<times> 'o list) option" where
  "r_tree_purge delete_leaves t =
     (case root t of
        None \<Rightarrow> Some (t, [])
      | Some b \<Rightarrow> map_option (\<lambda>deleted. (t\<lparr>root := None, n_records := 0\<rparr>, deleted))
          (page_purge (height t) delete_leaves b))"

section \<open>Contents and invariant\<close>

fun branch_objects :: "'o branch \<Rightarrow> (rectangle \<times> 'o) list" where
  "branch_objects (r, Obj x) = [(r, x)]"
| "branch_objects (r, Page b) = concat (map branch_objects b)"

definition objects :: "'o page \<Rightarrow> (rectangle \<times> 'o) list" where
  "objects b = concat (map branch_objects b)"

text \<open>
  Rectangles whose areas and whose sums of areas fit an \<open>int\<close>; the computation of \<open>split_page\<close> overflows
  beyond.
\<close>

fun rect_small :: "rectangle \<Rightarrow> bool" where
  "rect_small (Rectangle a0 a1 a2 a3) \<longleftrightarrow>
     - (2 ^ 14) \<le> sint a0 \<and> sint a0 \<le> sint a2 \<and> sint a2 \<le> 2 ^ 14 \<and>
     - (2 ^ 14) \<le> sint a1 \<and> sint a1 \<le> sint a3 \<and> sint a3 \<le> 2 ^ 14"

text \<open>A branch at a level: objects are at level 0, pages above are filled to the half and tightly covered.\<close>

fun branch_ok :: "nat \<Rightarrow> 'o branch \<Rightarrow> bool" where
  "branch_ok level (r, Obj x) \<longleftrightarrow> level = 0 \<and> rect_small r"
| "branch_ok level (r, Page b) \<longleftrightarrow> level > 0 \<and> rect_small r \<and> r = cover b \<and>
     min_fill \<le> length b \<and> length b \<le> page_card \<and> (\<forall>br\<in>set b. branch_ok (level - 1) br)"

definition root_ok :: "nat \<Rightarrow> 'o page \<Rightarrow> bool" where
  "root_ok h b \<longleftrightarrow> h > 0 \<and> length b \<le> page_card \<and> (h > 1 \<longrightarrow> length b > 1) \<and> (\<forall>br\<in>set b. branch_ok (h - 1) br)"

definition tree_objects :: "'o r_tree \<Rightarrow> (rectangle \<times> 'o) list" where
  "tree_objects t = (case root t of None \<Rightarrow> [] | Some b \<Rightarrow> objects b)"

definition r_tree_ok :: "'o r_tree \<Rightarrow> bool" where
  "r_tree_ok t \<longleftrightarrow> n_records t = of_nat (length (tree_objects t)) \<and>
     (case root t of None \<Rightarrow> height t = 0 | Some b \<Rightarrow> root_ok (height t) b)"

section \<open>Rectangles are ordered by inclusion\<close>

text \<open>The operators \<open><=\<close> and \<open>+\<close> of the class are the order and the join of a semilattice.\<close>

instantiation rectangle :: semilattice_sup
begin

definition less_eq_rectangle :: "rectangle \<Rightarrow> rectangle \<Rightarrow> bool" where "less_eq_rectangle = rect_le"

definition less_rectangle :: "rectangle \<Rightarrow> rectangle \<Rightarrow> bool" where
  "less_rectangle r s \<longleftrightarrow> rect_le r s \<and> \<not> rect_le s r"

definition sup_rectangle :: "rectangle \<Rightarrow> rectangle \<Rightarrow> rectangle" where "sup_rectangle = rect_plus"

instance
proof
  fix x y z :: rectangle
  note defs = less_eq_rectangle_def less_rectangle_def sup_rectangle_def word_sle_eq word_sless_alt
    min_int_def max_int_def
  show "x < y \<longleftrightarrow> x \<le> y \<and> \<not> y \<le> x" by (simp add: defs)
  show "x \<le> x" by (cases x) (simp add: defs)
  show "x \<le> y \<Longrightarrow> y \<le> z \<Longrightarrow> x \<le> z" by (cases x; cases y; cases z) (auto simp: defs)
  show "x \<le> y \<Longrightarrow> y \<le> x \<Longrightarrow> x = y" by (cases x; cases y) (auto simp: defs intro: signed_word_eqI signed_word_eqI [OF sym])
  show "x \<le> sup x y" "y \<le> sup x y" by (cases x; cases y; simp add: defs)+
  show "y \<le> x \<Longrightarrow> z \<le> x \<Longrightarrow> sup y z \<le> x" by (cases x; cases y; cases z) (auto simp: defs)
qed

end

lemma rect_plus_sup [simp]: "rect_plus r s = sup r s"
  by (simp add: sup_rectangle_def)

lemma rect_and_mono:
  assumes "rect_and r s" "s \<le> t"
  shows "rect_and r t"
proof -
  obtain r0 r1 r2 r3 s0 s1 s2 s3 t0 t1 t2 t3
    where c: "r = Rectangle r0 r1 r2 r3" "s = Rectangle s0 s1 s2 s3" "t = Rectangle t0 t1 t2 t3"
    by (metis rectangle.exhaust)
  have "sint r1 \<le> sint s3" "sint s1 \<le> sint r3" "sint r0 \<le> sint s2" "sint s0 \<le> sint r2"
    "sint t1 \<le> sint s1" "sint s3 \<le> sint t3" "sint t0 \<le> sint s0" "sint s2 \<le> sint t2"
    using assms by (simp_all add: c less_eq_rectangle_def word_sless_alt not_less)
  then show ?thesis by (simp add: c word_sless_alt not_less)
qed

lemma rect_and_commute: "rect_and r s \<longleftrightarrow> rect_and s r"
  by (cases r; cases s) auto

lemma rect_and_refl: "rect_small r \<Longrightarrow> rect_and r r"
  by (cases r) (simp add: word_sless_alt not_less)

lemma sint_min_max_int [simp]:
  "sint (min_int x y) = min (sint x) (sint y)" "sint (max_int x y) = max (sint x) (sint y)"
  by (auto simp: min_int_def max_int_def word_sle_eq)

lemma rect_small_sup: "rect_small r \<Longrightarrow> rect_small s \<Longrightarrow> rect_small (sup r s)"
proof -
  assume small: "rect_small r" "rect_small s"
  obtain r0 r1 r2 r3 s0 s1 s2 s3 where c: "r = Rectangle r0 r1 r2 r3" "s = Rectangle s0 s1 s2 s3"
    by (metis rectangle.exhaust)
  show ?thesis using small by (simp only: c sup_rectangle_def rect_plus.simps rect_small.simps sint_min_max_int) linarith
qed

definition area_int :: "rectangle \<Rightarrow> int" where
  "area_int r = (sint (boundary3 r) - sint (boundary1 r)) * (sint (boundary2 r) - sint (boundary0 r))"

lemma size_of_int_diff:
  assumes "- (2 ^ 14) \<le> sint a" "sint a \<le> sint b" "sint b \<le> 2 ^ 14"
  shows "size_of_int (b - a) = word_of_int (sint b - sint a)"
proof -
  have "sint (b - a) = sint b - sint a"
    using assms by (simp add: sint_word_ariths signed_take_bit_int_eq_self)
  then show ?thesis by (simp only: size_of_int_def scast_eq)
qed

lemma area_small:
  assumes "rect_small r"
  shows "area r = word_of_int (area_int r)" and "0 \<le> area_int r" and "area_int r \<le> 2 ^ 30"
proof -
  obtain a0 a1 a2 a3 where r: "r = Rectangle a0 a1 a2 a3" by (cases r)
  have b: "- (2 ^ 14) \<le> sint a0" "sint a0 \<le> sint a2" "sint a2 \<le> 2 ^ 14"
    "- (2 ^ 14) \<le> sint a1" "sint a1 \<le> sint a3" "sint a3 \<le> 2 ^ 14" using assms r by simp_all
  show "area r = word_of_int (area_int r)"
    by (simp only: r area_int_def area.simps rectangle.sel size_of_int_diff [OF b(1-3)] size_of_int_diff [OF b(4-6)]
        wi_hom_mult mult_1)
  show "0 \<le> area_int r" using b by (simp add: r area_int_def)
  have "(sint a3 - sint a1) * (sint a2 - sint a0) \<le> 2 ^ 15 * 2 ^ 15"
    using b by (intro mult_mono) auto
  then show "area_int r \<le> 2 ^ 30" by (simp add: r area_int_def)
qed

lemma area_int_mono:
  assumes "rect_small r" "rect_small s" "r \<le> s"
  shows "area_int r \<le> area_int s"
  using assms
  by (cases r; cases s) (auto simp: area_int_def less_eq_rectangle_def word_sless_alt not_less intro!: mult_mono)

lemma int_of_size_of_int [simp]: "int_of_size (word_of_int i) = word_of_int i"
  by (simp add: int_of_size_def ucast_eq unsigned_of_int word_of_int_eq_iff take_bit_eq_mod mod_mod_cancel)

lemma size_of_small_int:
  assumes "- (2 ^ 31) \<le> i" "i < 2 ^ 31"
  shows "size_of_int (word_of_int i) = word_of_int i" and "sint (word_of_int i :: int32) = i"
proof -
  show a: "sint (word_of_int i :: int32) = i"
    using assms by (simp add: int_word_sint)
  then show "size_of_int (word_of_int i) = word_of_int i" by (simp add: size_of_int_def scast_eq)
qed

end
