(* ===== verification/RTreeSplit.thy ===== *)
theory RTreeSplit
  imports RTree
begin

text \<open>
  \<open>R_page::split_page\<close>: every branch ends up in one of the two pages, each of which gets 93 or 94 of them; with
  small rectangles the sums of areas fit an \<open>int\<close>, so that seeds and branches are always found.
\<close>

section \<open>Splitting a page\<close>

lemma page_card_val: "page_card = 186" "min_fill = 93"
  by (simp_all add: page_card_def min_fill_def)

lemma marked_append:
  "length xs = length ts \<Longrightarrow> marked (xs @ ys) (ts @ us) k = marked xs ts k @ marked ys us k"
  by (simp add: marked_def)

lemma marked_Cons: "marked (x # xs) (t # ts) k = (if t = k then x # marked xs ts k else marked xs ts k)"
  by (simp add: marked_def)

lemma marked_update:
  assumes "length t = length b" "i < length b" "t ! i \<noteq> k"
  shows "mset (marked b (t[i := k]) k) = add_mset (b ! i) (mset (marked b t k))"
    and "j \<noteq> k \<Longrightarrow> j \<noteq> t ! i \<Longrightarrow> marked b (t[i := k]) j = marked b t j"
proof -
  have b: "b = take i b @ b ! i # drop (Suc i) b" and t: "t = take i t @ t ! i # drop (Suc i) t"
    and u: "t[i := k] = take i t @ k # drop (Suc i) t"
    using assms by (simp_all add: id_take_nth_drop [symmetric] upd_conv_take_nth_drop)
  have m: "marked b t j = marked (take i b) (take i t) j @ marked (b ! i # drop (Suc i) b) (t ! i # drop (Suc i) t) j"
    "marked b (t[i := k]) j = marked (take i b) (take i t) j @ marked (b ! i # drop (Suc i) b) (k # drop (Suc i) t) j" for j
    using assms by (subst b, subst t, subst marked_append; simp)
      (subst b, subst u, subst marked_append; simp add: assms)
  show "mset (marked b (t[i := k]) k) = add_mset (b ! i) (mset (marked b t k))"
    using assms(3) by (simp add: m marked_Cons)
  show "j \<noteq> k \<Longrightarrow> j \<noteq> t ! i \<Longrightarrow> marked b (t[i := k]) j = marked b t j"
    by (simp add: m marked_Cons)
qed

lemma marked_all:
  assumes "length t = length b" "set t \<subseteq> {0, 1, 2}"
  shows "mset b = mset (marked b t 0) + mset (marked b t 1) + mset (marked b t 2)"
  using assms
proof (induction t b rule: list_induct2)
  case Nil
  then show ?case by (simp add: marked_def)
next
  case (Cons k t x b)
  then show ?case by (auto simp: marked_Cons)
qed

definition split_inv :: "'o branch \<Rightarrow> 'o page \<Rightarrow> 'o split \<Rightarrow> bool" where
  "split_inv x b s \<longleftrightarrow> length b = page_card \<and> length (taken s) = page_card \<and> set (taken s) \<subseteq> {0, 1, 2} \<and>
     mset (new_page s) = add_mset x (mset (marked b (taken s) 1)) \<and>
     group_card0 s = length (new_page s) \<and> group_card1 s = length (marked b (taken s) 2)"

text \<open>What the loops do to the branch \<open>i\<close>, up to the fields the counts do not read.\<close>

definition takes :: "'o page \<Rightarrow> nat \<Rightarrow> 'o split \<Rightarrow> 'o split \<Rightarrow> bool" where
  "takes b i s s' \<longleftrightarrow> i < page_card \<and> taken s ! i = 0 \<and>
     ((taken s' = (taken s)[i := 1] \<and> new_page s' = new_page s @ [b ! i] \<and>
       group_card0 s' = group_card0 s + 1 \<and> group_card1 s' = group_card1 s) \<or>
      (taken s' = (taken s)[i := 2] \<and> new_page s' = new_page s \<and>
       group_card0 s' = group_card0 s \<and> group_card1 s' = group_card1 s + 1))"

lemma takes_inv:
  assumes inv: "split_inv x b s" and takes: "takes b i s s'"
  shows "split_inv x b s'"
    and "length (marked b (taken s) 0) = Suc (length (marked b (taken s') 0))"
proof -
  have i: "i < length b" "length (taken s) = length b" and zero: "taken s ! i = 0"
    using inv takes by (auto simp: split_inv_def takes_def)
  consider (one) "taken s' = (taken s)[i := 1]" | (two) "taken s' = (taken s)[i := 2]"
    using takes by (auto simp: takes_def)
  then obtain k where k: "taken s' = (taken s)[i := k]" "k = 1 \<or> k = 2" by cases auto
  have marks: "mset (marked b (taken s') k) = add_mset (b ! i) (mset (marked b (taken s) k))"
    "j \<noteq> k \<Longrightarrow> j \<noteq> 0 \<Longrightarrow> marked b (taken s') j = marked b (taken s) j" for j
    using marked_update [OF i(2,1), of k] zero k by auto
  have new: "set (taken s') \<subseteq> {0, 1, 2}"
    using inv k set_update_subset_insert [of "taken s" i k] by (fastforce simp: split_inv_def)
  have size_k: "length (marked b (taken s') k) = Suc (length (marked b (taken s) k))"
    using arg_cong [OF marks(1), of size] by simp
  have one_two: "(k = 1 \<and> new_page s' = new_page s @ [b ! i] \<and> group_card0 s' = group_card0 s + 1 \<and> group_card1 s' = group_card1 s)
      \<or> (k = 2 \<and> new_page s' = new_page s \<and> group_card0 s' = group_card0 s \<and> group_card1 s' = group_card1 s + 1)"
  proof -
    have "(taken s)[i := 1] ! i = (taken s)[i := 2] ! i \<Longrightarrow> False" using i by simp
    then show ?thesis using takes k unfolding takes_def by metis
  qed
  then show "split_inv x b s'"
  proof (elim disjE)
    assume a: "k = 1 \<and> new_page s' = new_page s @ [b ! i] \<and> group_card0 s' = group_card0 s + 1 \<and> group_card1 s' = group_card1 s"
    then show ?thesis using inv new marks(1) marks(2) [of 2] k(1) by (simp add: split_inv_def)
  next
    assume a: "k = 2 \<and> new_page s' = new_page s \<and> group_card0 s' = group_card0 s \<and> group_card1 s' = group_card1 s + 1"
    then show ?thesis using inv new marks(2) [of 1] size_k k(1) by (simp add: split_inv_def)
  qed
  have "mset b = mset (marked b (taken s) 0) + mset (marked b (taken s) 1) + mset (marked b (taken s) 2)"
    "mset b = mset (marked b (taken s') 0) + mset (marked b (taken s') 1) + mset (marked b (taken s') 2)"
    using inv new k(1) by (intro marked_all; simp add: split_inv_def)+
  then have "length b = length (marked b (taken s) 0) + length (marked b (taken s) 1) + length (marked b (taken s) 2)"
    "length b = length (marked b (taken s') 0) + length (marked b (taken s') 1) + length (marked b (taken s') 2)"
    by (metis size_mset size_union)+
  then show "length (marked b (taken s) 0) = Suc (length (marked b (taken s') 0))"
    using size_k marks(2) [of "if k = 1 then 2 else 1"] k(2) by auto
qed

text \<open>Every branch is somewhere.\<close>

lemma split_inv_counts:
  assumes "split_inv x b s"
  shows "group_card0 s + group_card1 s + length (marked b (taken s) 0) = page_card + 1"
    and "mset (marked b (taken s) 0) + mset (new_page s) + mset (marked b (taken s) 2) = add_mset x (mset b)"
proof -
  have all: "mset b = mset (marked b (taken s) 0) + mset (marked b (taken s) 1) + mset (marked b (taken s) 2)"
    using assms by (intro marked_all) (simp_all add: split_inv_def)
  show b: "mset (marked b (taken s) 0) + mset (new_page s) + mset (marked b (taken s) 2) = add_mset x (mset b)"
    using assms by (simp add: split_inv_def all)
  show "group_card0 s + group_card1 s + length (marked b (taken s) 0) = page_card + 1"
    using arg_cong [OF b, of size] assms by (simp add: split_inv_def)
qed

lemma untaken:
  assumes "split_inv x b s" "group_card0 s + group_card1 s < page_card + 1"
  obtains i where "i < page_card" "taken s ! i = 0"
proof -
  have "marked b (taken s) 0 \<noteq> []" using split_inv_counts(1) [OF assms(1)] assms(2) by auto
  then obtain y where "(y, 0) \<in> set (zip b (taken s))" by (fastforce simp: marked_def filter_empty_conv)
  then have "0 \<in> set (taken s)" by (rule set_zip_rightD)
  then show ?thesis using that assms(1) by (auto simp: in_set_conv_nth split_inv_def)
qed

lemma choose_next_Some:
  assumes "choose_next b s = Some (g, i)"
  shows "i < page_card \<and> taken s ! i = 0 \<and> (g = 0 \<or> g = 1)"
proof -
  let ?P = "\<lambda>acc :: (nat \<times> nat) option \<times> int32. \<forall>g i. fst acc = Some (g, i) \<longrightarrow> i < page_card \<and> taken s ! i = 0 \<and> (g = 0 \<or> g = 1)"
  have "?P (fold (choose_step b s) [0 ..< page_card] (None, -1))"
    by (rule fold_invariant [where Q = "\<lambda>i. i < page_card"])
      (auto simp: choose_step_def Let_def split: if_splits)
  then show ?thesis using assms by (simp add: choose_next_def)
qed

lemma join_group_takes:
  assumes "choose_next b s = Some choice"
  shows "takes b (snd choice) s (join_group b choice s)"
  using choose_next_Some [of b s "fst choice" "snd choice"] assms
  by (auto simp: takes_def join_group_def Let_def split: prod.splits)

text \<open>The areas of small rectangles.\<close>

definition rects_small :: "'o page \<Rightarrow> bool" where
  "rects_small b \<longleftrightarrow> (\<forall>br\<in>set b. rect_small (fst br))"

definition groups_ok :: "'o split \<Rightarrow> bool" where
  "groups_ok s \<longleftrightarrow> rect_small (group0 s) \<and> rect_small (group1 s) \<and>
     group_area0 s = int_of_size (area (group0 s)) \<and> group_area1 s = int_of_size (area (group1 s))"

lemma growth:
  assumes "rect_small g" "rect_small r"
  obtains v where "area (sup g r) - size_of_int (int_of_size (area g)) = word_of_int v" "0 \<le> v" "v \<le> 2 ^ 30"
proof -
  have small: "rect_small (sup g r)" by (rule rect_small_sup [OF assms])
  have "area_int g \<le> area_int (sup g r)" by (rule area_int_mono [OF assms(1) small sup_ge1])
  moreover have "size_of_int (int_of_size (area g)) = word_of_int (area_int g)"
    using area_small [OF assms(1)] by (simp add: size_of_small_int(1))
  moreover have "area (sup g r) = word_of_int (area_int (sup g r))" "area_int (sup g r) \<le> 2 ^ 30" "0 \<le> area_int g"
    using area_small [OF small] area_small [OF assms(1)] by simp_all
  ultimately have "area (sup g r) - size_of_int (int_of_size (area g)) = word_of_int (area_int (sup g r) - area_int g)"
    "0 \<le> area_int (sup g r) - area_int g" "area_int (sup g r) - area_int g \<le> 2 ^ 30"
    by (simp_all only: wi_hom_sub diff_ge_0_iff_ge) linarith?
  then show ?thesis by (rule that)
qed

lemma attraction_small:
  assumes "groups_ok s" "rects_small b" "i < length b"
  obtains v where "attraction b s i = word_of_int v" "- (2 ^ 30) \<le> v" "v \<le> 2 ^ 30"
proof -
  have r: "rect_small (fst (b ! i))" using assms(2,3) by (simp add: rects_small_def)
  obtain v0 where v0: "area (sup (group0 s) (fst (b ! i))) - size_of_int (group_area0 s) = word_of_int v0" "0 \<le> v0" "v0 \<le> 2 ^ 30"
    using growth [of "group0 s", OF _ r] assms(1) by (auto simp: groups_ok_def)
  obtain v1 where v1: "area (sup (group1 s) (fst (b ! i))) - size_of_int (group_area1 s) = word_of_int v1" "0 \<le> v1" "v1 \<le> 2 ^ 30"
    using growth [of "group1 s", OF _ r] assms(1) by (auto simp: groups_ok_def)
  have "attraction b s i = word_of_int (v0 - v1)"
    by (simp only: attraction_def rect_plus_sup v0(1) v1(1) wi_hom_sub int_of_size_of_int)
  then show ?thesis by (rule that) (use v0 v1 in linarith)+
qed

lemma choose_step_some:
  assumes "groups_ok s" "rects_small b" "i < length b" "taken s ! i = 0"
  shows "fst (choose_step b s i (None, -1)) \<noteq> None"
proof -
  obtain v where v: "attraction b s i = word_of_int v" "- (2 ^ 30) \<le> v" "v \<le> 2 ^ 30"
    by (rule attraction_small [OF assms(1-3)])
  have s: "sint (attraction b s i) = v" using v by (simp add: size_of_small_int(2))
  have "sint (word_of_int (- v) :: int32) = - v" using v by (intro size_of_small_int(2)) simp_all
  then have m: "sint (- attraction b s i) = - v" by (simp only: v(1) wi_hom_neg)
  have "(- 1 :: int32) <s attraction b s i \<or> (- 1 :: int32) <s - attraction b s i"
    by (simp add: word_sless_alt s m) linarith
  then show ?thesis using assms(4) by (auto simp: choose_step_def Let_def)
qed

lemma choose_next_some:
  assumes "groups_ok s" "rects_small b" "length b = page_card" "i < page_card" "taken s ! i = 0"
  shows "choose_next b s \<noteq> None"
proof -
  let ?start = "fold (choose_step b s) [0 ..< i] (None, -1)"
  have keep: "fst acc \<noteq> None \<Longrightarrow> fst (choose_step b s j acc) \<noteq> None" for j and acc :: "(nat \<times> nat) option \<times> int32"
    by (auto simp: choose_step_def Let_def split: prod.splits)
  have "fst ?start = None \<longrightarrow> snd ?start = -1"
    by (rule fold_invariant [where Q = "\<lambda>_. True"]) (auto simp: choose_step_def Let_def split: prod.splits if_splits)
  then have "fst (choose_step b s i ?start) \<noteq> None"
    using keep [of ?start i] choose_step_some [of s b i] assms
    by (cases "fst ?start = None"; metis prod.collapse)
  then have "fst (fold (choose_step b s) [Suc i ..< page_card] (choose_step b s i ?start)) \<noteq> None"
    by (rule fold_invariant [where Q = "\<lambda>_. True" and P = "\<lambda>acc. fst acc \<noteq> None", OF TrueI]) (rule keep)
  moreover have "[0 ..< page_card] = [0 ..< i] @ i # [Suc i ..< page_card]"
    using assms(4) by (metis le_add1 less_imp_add_positive upt_add_eq_append upt_conv_Cons add_0 less_imp_le_nat)
  ultimately show ?thesis by (simp add: choose_next_def)
qed

lemma join_group_ok:
  assumes "groups_ok s" "rects_small b" "snd choice < length b"
  shows "groups_ok (join_group b choice s)"
proof -
  have "rect_small (fst (b ! snd choice))" using assms(2,3) by (simp add: rects_small_def)
  then show ?thesis
    using assms(1) by (auto simp: groups_ok_def join_group_def Let_def rect_small_sup split: prod.splits)
qed

text \<open>The loop ends with one group full.\<close>

lemma split_loop_ok:
  assumes "split_inv x b s" "groups_ok s" "rects_small b"
    and "group_card0 s \<le> page_card + 1 - min_fill" "group_card1 s \<le> page_card + 1 - min_fill"
  shows "\<exists>s'. split_loop b s = Some s' \<and> split_inv x b s' \<and>
    group_card0 s' \<le> 94 \<and> group_card1 s' \<le> 94 \<and> (group_card0 s' = 94 \<or> group_card1 s' = 94)"
  using assms
proof (induction b s rule: split_loop.induct)
  case (1 b s)
  note inv = "1.prems"(1)
  show ?case
  proof (cases "group_card0 s + group_card1 s < page_card + 1 \<and> group_card0 s < page_card + 1 - min_fill
      \<and> group_card1 s < page_card + 1 - min_fill")
    case True
    then have more: "group_card0 s + group_card1 s < page_card + 1" by simp
    obtain i where "i < page_card" "taken s ! i = 0" by (rule untaken [OF inv more])
    then obtain choice where choice: "choose_next b s = Some choice"
      using choose_next_some [of s b i] "1.prems" by (auto simp: split_inv_def)
    note takes = join_group_takes [OF choice]
    have "snd choice < length b" using takes inv by (simp add: takes_def split_inv_def)
    then have "groups_ok (join_group b choice s)" using join_group_ok "1.prems"(2,3) by blast
    moreover have "group_card0 (join_group b choice s) \<le> page_card + 1 - min_fill \<and>
        group_card1 (join_group b choice s) \<le> page_card + 1 - min_fill"
      using takes True by (auto simp: takes_def)
    ultimately show ?thesis
      using "1.IH" [OF True choice takes_inv(1) [OF inv takes]] "1.prems"(3) choice True
      by (subst split_loop.simps) simp
  next
    case False
    then have "split_loop b s = Some s" by (subst split_loop.simps) (simp only: if_False)
    then show ?thesis using "1.prems" False by (auto simp: page_card_val)
  qed
qed

lemma rest_step_takes:
  assumes "i < page_card" "taken s ! i = 0"
  shows "takes b i s (rest_step b i s)"
  using assms by (auto simp: takes_def rest_step_def)

definition rest_inv :: "'o branch \<Rightarrow> 'o page \<Rightarrow> 'o split \<Rightarrow> bool" where
  "rest_inv x b s \<longleftrightarrow> split_inv x b s \<and> group_card0 s \<le> 94 \<and> group_card1 s \<le> 94 \<and> (group_card0 s = 94 \<or> group_card1 s = 94)"

lemma rest_step_inv:
  assumes "rest_inv x b s" "i < page_card"
  shows "rest_inv x b (rest_step b i s)"
proof (cases "taken s ! i = 0")
  case True
  note takes = rest_step_takes [OF assms(2) True, of b]
  have inv: "split_inv x b s" and inv': "split_inv x b (rest_step b i s)"
    using assms(1) takes_inv(1) [OF _ takes] by (simp_all add: rest_inv_def)
  have "group_card0 s + group_card1 s < 187"
    using split_inv_counts(1) [OF inv] takes_inv(2) [OF inv takes] by (simp add: page_card_val)
  then show ?thesis using assms(1) inv' True by (auto simp: rest_inv_def rest_step_def)
next
  case False
  then show ?thesis using assms(1) by (simp add: rest_step_def)
qed

lemma rest_fold:
  assumes "rest_inv x b s" "n \<le> page_card"
  shows "rest_inv x b (fold (rest_step b) [0 ..< n] s) \<and> (\<forall>i<n. taken (fold (rest_step b) [0 ..< n] s) ! i \<noteq> 0)"
  using assms(2)
proof (induction n)
  case 0
  then show ?case using assms(1) by simp
next
  case (Suc n)
  let ?s = "fold (rest_step b) [0 ..< n] s"
  have inv: "rest_inv x b ?s" and none: "\<forall>i<n. taken ?s ! i \<noteq> 0" using Suc by auto
  have "length (taken ?s) = page_card" using inv by (simp add: rest_inv_def split_inv_def)
  then have "\<forall>i<Suc n. taken (rest_step b n ?s) ! i \<noteq> 0"
    using none Suc.prems by (auto simp: rest_step_def less_Suc_eq nth_list_update)
  then show ?case using rest_step_inv [OF inv, of n] Suc.prems by simp
qed

lemma split_rest_ok:
  assumes "rest_inv x b s"
  shows "rest_inv x b (split_rest b s)" and "marked b (taken (split_rest b s)) 0 = []"
proof -
  show inv: "rest_inv x b (split_rest b s)"
    using assms rest_fold [OF assms order.refl] by (simp add: split_rest_def)
  have "split_inv x b s" using assms by (simp add: rest_inv_def)
  show "marked b (taken (split_rest b s)) 0 = []"
  proof (cases "group_card0 s + group_card1 s < page_card + 1")
    case True
    have len: "length (taken (split_rest b s)) = page_card" using inv by (simp add: rest_inv_def split_inv_def)
    have "0 \<notin> set (taken (split_rest b s))"
      using rest_fold [OF assms order.refl] True len by (auto simp: split_rest_def in_set_conv_nth)
    then have "\<forall>y\<in>set (zip b (taken (split_rest b s))). snd y \<noteq> 0" by (metis prod.collapse set_zip_rightD)
    then show ?thesis by (simp add: marked_def filter_empty_conv)
  next
    case False
    then have "length (marked b (taken s) 0) = 0" using split_inv_counts(1) [OF \<open>split_inv x b s\<close>] by linarith
    then show ?thesis using False by (simp add: split_rest_def)
  qed
qed

lemma seed_waste_small:
  assumes "rects_small brs" "i < length brs" "j < length brs"
  shows "INT_MIN <s seed_waste brs i j"
proof -
  let ?r = "fst (brs ! i)" and ?s = "fst (brs ! j)"
  have small: "rect_small ?r" "rect_small ?s" using assms by (simp_all add: rects_small_def)
  obtain v where v: "area (sup ?r ?s) - size_of_int (int_of_size (area ?r)) = word_of_int v" "0 \<le> v" "v \<le> 2 ^ 30"
    by (rule growth [OF small])
  have a: "size_of_int (int_of_size (area ?s)) = word_of_int (area_int ?s)" "0 \<le> area_int ?s" "area_int ?s \<le> 2 ^ 30"
    using area_small [OF small(2)] by (simp_all add: size_of_small_int(1))
  have "seed_waste brs i j = word_of_int (v - area_int ?s)"
    by (simp only: seed_waste_def rect_area_def rect_plus_sup v(1) a(1) wi_hom_sub int_of_size_of_int)
  moreover have "sint (word_of_int (v - area_int ?s) :: int32) = v - area_int ?s"
    by (rule size_of_small_int(2)) (use v a in simp_all)
  moreover have "sint INT_MIN = - (2 ^ 31)" by (simp add: INT_MIN_def)
  moreover have "- (2 ^ 31) < v - area_int ?s" using v(2) a(3) by simp
  ultimately show ?thesis by (simp only: word_sless_alt)
qed

lemma find_seeds_ok:
  assumes "rects_small brs" "length brs = page_card + 1"
  shows "\<exists>i j. find_seeds brs = Some (i, j) \<and> i < j \<and> j \<le> page_card"
proof -
  have range: "x \<in> set seed_pairs \<Longrightarrow> fst x < snd x \<and> snd x \<le> page_card" for x
    by (auto simp: seed_pairs_def)
  define good where "good = (\<lambda>acc :: (nat \<times> nat) option \<times> int32. \<exists>i j. fst acc = Some (i, j) \<and> i < j \<and> j \<le> page_card)"
  have step: "fst x < snd x \<and> snd x \<le> page_card \<Longrightarrow> good acc \<Longrightarrow> good (seed_step brs x acc)" for x acc
    by (auto simp: seed_step_def good_def Let_def split: prod.splits)
  have pos: "0 < page_card" "0 + 1 < page_card + 1" by (simp_all add: page_card_val)
  obtain pairs where "seed_pairs = (0, 0 + 1) # pairs"
    unfolding seed_pairs_def by (simp only: upt_conv_Cons [OF pos(1)] upt_conv_Cons [OF pos(2)] list.map concat.simps append.simps)
  then have pairs: "seed_pairs = (0, 1) # pairs" by simp
  have in_pairs: "x \<in> set pairs \<Longrightarrow> fst x < snd x \<and> snd x \<le> page_card" for x
    using range [of x] by (simp add: pairs)
  have "INT_MIN <s seed_waste brs 0 1" using assms by (intro seed_waste_small) (simp_all add: page_card_val)
  then have "good (seed_step brs (0, 1) (None, INT_MIN))"
    by (simp add: seed_step_def good_def page_card_val)
  then have "good (fold (seed_step brs) pairs (seed_step brs (0, 1) (None, INT_MIN)))"
    by (rule fold_invariant [where Q = "\<lambda>x. fst x < snd x \<and> snd x \<le> page_card", rotated])
      (use step in_pairs in simp_all)
  then show ?thesis by (simp add: find_seeds_def pairs good_def)
qed

lemma marked_none: "k \<noteq> 0 \<Longrightarrow> marked b (replicate n 0) k = []"
  by (auto simp: marked_def filter_empty_conv dest: set_zip_rightD)

lemma split_start_ok:
  assumes "length b = page_card" "rects_small (br # b)" "i < j" "j \<le> page_card"
    and start: "split_start br b (i, j) = (b', s)"
  shows "\<exists>x. split_inv x b' s \<and> add_mset x (mset b') = add_mset br (mset b) \<and> groups_ok s \<and> rects_small b' \<and>
    group_card0 s = 1 \<and> group_card1 s = 1"
proof -
  define x where "x = (if i = 0 then br else b ! (i - 1))"
  have s: "b' = (if i = 0 then b else b[i - 1 := br])"
    "s = \<lparr>group0 = fst x, group1 = fst (b ! (j - 1)), group_area0 = rect_area x, group_area1 = rect_area (b ! (j - 1)),
      group_card0 = 1, group_card1 = 1, taken = (replicate page_card 0)[j - 1 := 2], new_page = [x]\<rparr>"
    using start by (simp_all add: split_start_def x_def Let_def)
  have j: "j - 1 < page_card" and i: "i \<noteq> 0 \<Longrightarrow> i - 1 < length b" using assms by simp_all
  have len: "length b' = page_card" using assms(1) s(1) by simp
  have "taken s = (replicate page_card 0)[j - 1 := 2]" by (simp add: s)
  then have two: "mset (marked b' (taken s) 2) = {#b' ! (j - 1)#}" and one: "marked b' (taken s) 1 = []"
    using marked_update [of "replicate page_card 0" b' "j - 1" 2] j len by (simp_all add: marked_none)
  have "length (marked b' (taken s) 2) = 1" using arg_cong [OF two, of size] by simp
  moreover have "set (taken s) \<subseteq> {0, 1, 2}"
    using set_update_subset_insert [of "replicate page_card (0 :: nat)" "j - 1" 2] by (auto simp: s)
  ultimately have "split_inv x b' s" using one len by (simp add: split_inv_def s(2))
  moreover have "add_mset x (mset b') = add_mset br (mset b)"
    using i by (auto simp: s(1) x_def mset_update)
  moreover have "groups_ok s"
    using assms(1,2) i j by (auto simp: groups_ok_def s(2) x_def rects_small_def rect_area_def)
  moreover have "rects_small b'"
    using assms(2) set_update_subset_insert [of b "i - 1" br] by (auto simp: s(1) rects_small_def)
  moreover have "group_card0 s = 1" "group_card1 s = 1" by (simp_all add: s(2))
  ultimately show ?thesis by blast
qed

lemma split_page_ok:
  assumes "length b = page_card" "rects_small (br # b)"
  shows "\<exists>b' p. split_page br b = Some (b', p) \<and> mset b' + mset p = add_mset br (mset b) \<and>
    min_fill \<le> length b' \<and> length b' \<le> min_fill + 1 \<and> min_fill \<le> length p \<and> length p \<le> min_fill + 1"
proof -
  obtain i j where seed: "find_seeds (br # b) = Some (i, j)" "i < j" "j \<le> page_card"
    using find_seeds_ok [of "br # b"] assms by auto
  obtain b1 s1 where start: "split_start br b (i, j) = (b1, s1)" by fastforce
  obtain x where s1: "split_inv x b1 s1" "add_mset x (mset b1) = add_mset br (mset b)" "groups_ok s1" "rects_small b1"
    "group_card0 s1 = 1" "group_card1 s1 = 1"
    using split_start_ok [OF assms seed(2,3) start] by blast
  obtain s2 where s2: "split_loop b1 s1 = Some s2" "rest_inv x b1 s2"
    using split_loop_ok [OF s1(1,3,4)] s1(5,6) by (auto simp: rest_inv_def page_card_val)
  define s where "s = split_rest b1 s2"
  have inv: "rest_inv x b1 s" and none: "marked b1 (taken s) 0 = []"
    using split_rest_ok [OF s2(2)] by (simp_all add: s_def)
  then have "split_inv x b1 s" by (simp add: rest_inv_def)
  note counts = split_inv_counts [OF this]
  have cards: "group_card0 s = length (new_page s)" "group_card1 s = length (marked b1 (taken s) 2)"
    using \<open>split_inv x b1 s\<close> by (simp_all add: split_inv_def)
  have split: "split_page br b = Some (marked b1 (taken s) 2, new_page s)"
    by (simp add: split_page_def seed(1) start s2(1) Let_def s_def [symmetric] cards)
  have "mset (marked b1 (taken s) 2) + mset (new_page s) = add_mset br (mset b)"
    using counts(2) none s1(2) by (simp add: add.commute)
  moreover have "group_card0 s + group_card1 s = 187" using counts(1) none by (simp add: page_card_val)
  ultimately show ?thesis using split inv by (auto simp: rest_inv_def page_card_val cards)
qed

end
