(* ===== verification/RTreePages.thy ===== *)
theory RTreePages
  imports RTreeSplit
begin

text \<open>
  Insertion in, removal from and search of the pages of an R-tree and the tree itself, and the properties.
  The cover of a page is characterised by the rectangles that contain it.
\<close>

section \<open>Covers\<close>

definition covered :: "'o page \<Rightarrow> rectangle \<Rightarrow> bool" where
  "covered b s \<longleftrightarrow> (\<forall>br\<in>set b. fst br \<le> s)"

lemma covered_simps [simp]:
  "covered [] s" "covered (br # b) s \<longleftrightarrow> fst br \<le> s \<and> covered b s" "covered (b @ c) s \<longleftrightarrow> covered b s \<and> covered c s"
  by (auto simp: covered_def)

lemma filled: "min_fill \<le> length b \<Longrightarrow> b \<noteq> []"
  by (auto simp: page_card_val)

lemma cover_fold: "fold (\<lambda>br r. sup r (fst br)) b r \<le> s \<longleftrightarrow> r \<le> s \<and> covered b s"
  by (induction b arbitrary: r) auto

lemma cover_le: "b \<noteq> [] \<Longrightarrow> cover b \<le> s \<longleftrightarrow> covered b s"
  by (cases b) (auto simp: cover_def cover_fold)

lemma cover_eqI:
  assumes "b \<noteq> []" "\<And>s. covered b s \<longleftrightarrow> r \<le> s"
  shows "cover b = r"
  using assms cover_le [OF assms(1)] by (intro order.antisym) auto

lemma cover_small:
  assumes "b \<noteq> []" "rects_small b"
  shows "rect_small (cover b)"
proof -
  have "rect_small r \<Longrightarrow> rects_small c \<Longrightarrow> rect_small (fold (\<lambda>br r. rect_plus r (fst br)) c r)" for r and c :: "'a page"
    by (induction c arbitrary: r) (auto simp: rects_small_def rect_small_sup)
  then show ?thesis using assms by (cases b) (auto simp: cover_def rects_small_def)
qed

lemma branch_ok_small: "branch_ok k br \<Longrightarrow> rect_small (fst br)"
  by (cases "(k, br)" rule: branch_ok.cases) auto

lemma branches_small: "\<forall>br\<in>set b. branch_ok k br \<Longrightarrow> rects_small b"
  by (auto simp: rects_small_def intro: branch_ok_small)

lemma branch_ok_page:
  "branch_ok k (cover b, Page b) \<longleftrightarrow>
     k > 0 \<and> min_fill \<le> length b \<and> length b \<le> page_card \<and> (\<forall>br\<in>set b. branch_ok (k - 1) br)"
  using cover_small [OF filled branches_small [of b "k - 1"]] by auto

lemma branch_ok_inner:
  assumes "branch_ok k br" "k > 0"
  obtains c where "br = (cover c, Page c)" "c \<noteq> []" "min_fill \<le> length c" "length c \<le> page_card"
    "\<forall>br\<in>set c. branch_ok (k - 1) br"
  using assms by (cases "(k, br)" rule: branch_ok.cases) (auto simp: filled)

lemma branch_ok_leaf:
  assumes "branch_ok 0 br"
  obtains r x where "br = (r, Obj x)" "rect_small r"
  using assms by (cases "(0 :: nat, br)" rule: branch_ok.cases) auto

lemma objects_simps [simp]:
  "objects [] = []" "objects (br # b) = branch_objects br @ objects b" "objects (b @ c) = objects b @ objects c"
  "branch_objects (r, Page b) = objects b"
  by (simp_all add: objects_def)

declare branch_objects.simps(2) [simp del]

lemma objects_mset: "mset b = mset c \<Longrightarrow> mset (objects b) = mset (objects c)"
proof -
  have "mset (objects b) = sum_mset (image_mset (mset \<circ> branch_objects) (mset b))" for b :: "'a page"
    by (induction b) simp_all
  then show "mset b = mset c \<Longrightarrow> mset (objects b) = mset (objects c)" by simp
qed

lemma branch_objects_inside: "branch_ok k br \<Longrightarrow> x \<in> set (branch_objects br) \<Longrightarrow> fst x \<le> fst br"
proof (induction br arbitrary: k rule: branch_objects.induct)
  case (1 r x)
  then show ?case by simp
next
  case (2 r b)
  then obtain br where br: "br \<in> set b" "x \<in> set (branch_objects br)" by (auto simp: objects_def)
  have "fst x \<le> fst br" using "2.IH" [OF br(1) _ br(2), of "k - 1"] "2.prems"(1) br(1) by simp
  also have "fst br \<le> cover b" using br(1) cover_le [of b "cover b"] by (cases "b = []") (auto simp: covered_def)
  finally show ?case using 2 by simp
qed

section \<open>Insertion keeps the pages\<close>

text \<open>The branches of a page and of the new page it was split into.\<close>

definition all_branches :: "'o page \<times> 'o page option \<Rightarrow> 'o page" where
  "all_branches res = fst res @ (case snd res of None \<Rightarrow> [] | Some q \<Rightarrow> q)"

definition sizes_ok :: "'o page \<Rightarrow> 'o page \<times> 'o page option \<Rightarrow> bool" where
  "sizes_ok b res \<longleftrightarrow> (case snd res of
       None \<Rightarrow> length b \<le> length (fst res) \<and> fst res \<noteq> [] \<and> length (fst res) \<le> page_card
     | Some q \<Rightarrow> min_fill \<le> length (fst res) \<and> length (fst res) \<le> page_card \<and> min_fill \<le> length q \<and> length q \<le> page_card)"

definition inserted :: "nat \<Rightarrow> 'o page \<Rightarrow> 'o branch \<Rightarrow> 'o page \<times> 'o page option \<Rightarrow> bool" where
  "inserted k b br res \<longleftrightarrow> sizes_ok b res \<and> (\<forall>x\<in>set (all_branches res). branch_ok k x) \<and>
     mset (objects (all_branches res)) = mset (branch_objects br) + mset (objects b) \<and>
     (\<forall>s. covered (all_branches res) s \<longleftrightarrow> covered b s \<and> fst br \<le> s)"

lemma add_branch_ok:
  assumes "length b \<le> page_card" "rects_small (br # b)"
  shows "\<exists>res. add_branch br b = Some res \<and> sizes_ok b res \<and> mset (all_branches res) = add_mset br (mset b)"
proof (cases "length b < page_card")
  case True
  then show ?thesis by (simp add: add_branch_def sizes_ok_def all_branches_def)
next
  case False
  then have len: "length b = page_card" using assms(1) by simp
  show ?thesis
    using split_page_ok [OF len assms(2)] False
    by (auto simp: add_branch_def sizes_ok_def all_branches_def page_card_val)
qed

lemma add_branch_inserted:
  assumes "length b \<le> page_card" "\<forall>x\<in>set b. branch_ok k x" "branch_ok k br"
  shows "\<exists>res. add_branch br b = Some res \<and> inserted k b br res"
proof -
  obtain res where res: "add_branch br b = Some res" "sizes_ok b res" "mset (all_branches res) = add_mset br (mset b)"
    using add_branch_ok [OF assms(1), of br] branches_small [of "br # b" k] assms(2,3) by auto
  have m: "mset (all_branches res) = mset (br # b)" using res(3) by simp
  have "mset (objects (all_branches res)) = mset (branch_objects br) + mset (objects b)"
    using objects_mset [OF m] by simp
  moreover have "set (all_branches res) = insert br (set b)" using mset_eq_setD [OF m] by simp
  ultimately show ?thesis using res(1,2) assms(2,3) by (auto simp: inserted_def covered_def)
qed

lemma choose_branch_less: "b \<noteq> [] \<Longrightarrow> choose_branch r b < length b"
  unfolding choose_branch_def
  by (rule fold_invariant [where Q = "\<lambda>i. i < length b" and P = "\<lambda>acc. fst acc < length b"])
    (auto simp: branch_step_def Let_def)

lemma split_child_ok:
  assumes ins: "inserted (k - 1) c br (c', q)" and k: "k > 0" and c: "c \<noteq> []" "min_fill \<le> length c"
  shows "branch_ok k (cover c', Page c')" and "q = None \<Longrightarrow> cover c' = sup (cover c) (fst br)"
    and "q = Some p \<Longrightarrow> branch_ok k (cover p, Page p)"
proof -
  have full: "min_fill \<le> length c'" "length c' \<le> page_card" "c' \<noteq> []"
    using ins c by (auto simp: inserted_def sizes_ok_def page_card_val split: option.splits)
  show "branch_ok k (cover c', Page c')"
    unfolding branch_ok_page using ins k full by (auto simp: inserted_def all_branches_def)
  show "q = Some p \<Longrightarrow> branch_ok k (cover p, Page p)"
    unfolding branch_ok_page using ins k by (auto simp: inserted_def all_branches_def sizes_ok_def)
  show "q = None \<Longrightarrow> cover c' = sup (cover c) (fst br)"
    using ins full(3) c(1) by (intro cover_eqI) (simp_all add: inserted_def all_branches_def cover_le)
qed

lemma page_insert_ok:
  assumes "length b \<le> page_card" "d > 0 \<Longrightarrow> b \<noteq> []" "\<forall>x\<in>set b. branch_ok (L + d) x" "branch_ok L (r, p)"
  shows "\<exists>res. page_insert (Suc d) r p b = Some res \<and> inserted (L + d) b (r, p) res"
  using assms
proof (induction d arbitrary: b)
  case 0
  then show ?case using add_branch_inserted [of b L "(r, p)"] by simp
next
  case (Suc d)
  define mini where "mini = choose_branch r b"
  have mini: "mini < length b" using choose_branch_less Suc.prems(2) by (simp add: mini_def)
  define u v where "u = take mini b" and "v = drop (Suc mini) b"
  have b: "b = u @ b ! mini # v" and lu: "length u = mini"
    using mini by (simp_all add: u_def v_def id_take_nth_drop [symmetric])
  have "branch_ok (L + Suc d) (b ! mini)" using Suc.prems(3) mini by simp
  then obtain c where c: "b ! mini = (cover c, Page c)" "c \<noteq> []" "min_fill \<le> length c" "length c \<le> page_card"
    "\<forall>br\<in>set c. branch_ok (L + d) br"
    by (rule branch_ok_inner) auto
  obtain c' q where ins: "page_insert (Suc d) r p c = Some (c', q)" "inserted (L + d) c (r, p) (c', q)"
    using Suc.IH [OF c(4) c(2) c(5) Suc.prems(4)] by auto
  have b_eq: "b = u @ (cover c, Page c) # v" using b c(1) by simp
  have upd: "b[mini := x] = u @ x # v" for x by (subst b_eq) (simp add: lu [symmetric])
  have uv: "\<forall>x\<in>set u \<union> set v. branch_ok (L + Suc d) x" using Suc.prems(3) b_eq by auto
  have page: "branch_ok (L + Suc d) (cover c', Page c')" "q = None \<Longrightarrow> cover c' = sup (cover c) r"
    "q = Some x \<Longrightarrow> branch_ok (L + Suc d) (cover x, Page x)" for x
    using split_child_ok [of "L + Suc d" c "(r, p)" c' q] ins(2) c(2,3) by simp_all
  have c': "c' \<noteq> []" "q = Some x \<Longrightarrow> x \<noteq> []" for x
    using ins(2) by (auto simp: inserted_def sizes_ok_def page_card_val split: option.splits)
  have len: "length u + length v + 1 = length b" by (simp add: b_eq)
  show ?case
  proof (cases q)
    case None
    have "page_insert (Suc (Suc d)) r p b = Some (u @ (cover c', Page c') # v, None)"
      using ins(1) None page(2) c(1) mini
      by (simp add: mini_def [symmetric] upd Let_def del: page_insert.simps(2)) (simp add: mini_def [symmetric] upd)
    moreover have "inserted (L + Suc d) b (r, p) (u @ (cover c', Page c') # v, None)"
      using ins(2) None page uv Suc.prems(1) len c(2)
      by (auto simp: inserted_def all_branches_def sizes_ok_def b_eq cover_le ac_simps)
    ultimately show ?thesis by blast
  next
    case (Some x)
    let ?b = "u @ (cover c', Page c') # v"
    obtain res where res: "add_branch (cover x, Page x) ?b = Some res" "inserted (L + Suc d) ?b (cover x, Page x) res"
      using add_branch_inserted [of ?b "L + Suc d" "(cover x, Page x)"] Suc.prems(1) len uv page(1) page(3) [OF Some]
      by auto
    have "page_insert (Suc (Suc d)) r p b = Some res"
      using ins(1) Some c(1) mini res(1) by (simp add: mini_def [symmetric] upd)
    moreover have "inserted (L + Suc d) b (r, p) res"
      using ins(2) Some res(2) c' c(2) len
      by (auto simp: inserted_def all_branches_def sizes_ok_def b_eq cover_le ac_simps split: option.splits)
    ultimately show ?thesis by blast
  qed
qed

section \<open>Removal from the pages\<close>

text \<open>The pages of a chain and the level their branches stand at.\<close>

fun chain_ok :: "int \<Rightarrow> 'o page list \<Rightarrow> bool" where
  "chain_ok level [] \<longleftrightarrow> True"
| "chain_ok level (pg # chain) \<longleftrightarrow> 0 \<le> level \<and> (\<forall>br\<in>set pg. branch_ok (nat level) br) \<and> chain_ok (level - 1) chain"

definition chain_objects :: "'o page list \<Rightarrow> (rectangle \<times> 'o) list" where
  "chain_objects chain = concat (map objects chain)"

lemma chain_objects_simps [simp]:
  "chain_objects [] = []" "chain_objects (pg # chain) = objects pg @ chain_objects chain"
  by (simp_all add: chain_objects_def)

text \<open>
  The result of a removal in a page whose branches are at level \<open>k\<close>.  A page lost a branch only when the
  object was in it or when the branch went to the chain.
\<close>

definition found_in :: "nat \<Rightarrow> 'o \<Rightarrow> 'o page \<Rightarrow> 'o page \<Rightarrow> 'o reinsert_list \<Rightarrow> bool" where
  "found_in k obj b b' rlist \<longleftrightarrow>
     length b' \<le> length b \<and> length b \<le> length b' + 1 \<and> (\<forall>br\<in>set b'. branch_ok k br) \<and>
     chain_ok (snd rlist) (fst rlist) \<and> (fst rlist \<noteq> [] \<longrightarrow> snd rlist < int k) \<and>
     (length b' < length b \<longrightarrow> (if k = 0 then fst rlist = [] else snd rlist = int k - 1)) \<and>
     (\<exists>r. mset (objects b) = add_mset (r, obj) (mset (objects b') + mset (chain_objects (fst rlist))))"

definition not_found :: "rectangle \<Rightarrow> 'o \<Rightarrow> 'o page \<Rightarrow> bool" where
  "not_found r obj b \<longleftrightarrow> (\<forall>x\<in>set (objects b). snd x = obj \<longrightarrow> \<not> rect_and (fst x) r)"

definition removed :: "nat \<Rightarrow> rectangle \<Rightarrow> 'o \<Rightarrow> 'o page \<Rightarrow> int \<Rightarrow> 'o page \<times> 'o reinsert_list \<times> bool \<Rightarrow> bool" where
  "removed k r obj b l res \<longleftrightarrow>
     (case res of (b', rlist, found) \<Rightarrow>
        if found then found_in k obj b b' rlist else b' = b \<and> rlist = ([], l) \<and> not_found r obj b)"

lemma remove_leaf_None: "remove_leaf obj b = None \<Longrightarrow> \<forall>br\<in>set b. snd br \<noteq> Obj obj"
  by (induction b) (auto split: if_splits)

lemma remove_leaf_Some: "remove_leaf obj b = Some i \<Longrightarrow> i < length b \<and> snd (b ! i) = Obj obj"
  by (induction b arbitrary: i) (auto split: if_splits)

lemma remove_in_leaf:
  assumes "\<forall>br\<in>set b. branch_ok 0 br"
  shows "\<exists>res. page_remove (Suc 0) r obj b ([], l) = Some res \<and> removed 0 r obj b l res"
proof (cases "remove_leaf obj b")
  case None
  have "snd x \<noteq> obj" if x: "x \<in> set (objects b)" for x
  proof -
    obtain br where br: "br \<in> set b" "x \<in> set (branch_objects br)" using x unfolding objects_def set_concat set_map by blast
    then have "branch_ok 0 br" using assms by blast
    then show ?thesis using br remove_leaf_None [OF None] by (cases rule: branch_ok_leaf) auto
  qed
  then show ?thesis using None by (auto simp: removed_def not_found_def)
next
  case (Some i)
  note i = remove_leaf_Some [OF Some]
  define u v where "u = take i b" and "v = drop (Suc i) b"
  have b: "b = u @ b ! i # v" using i by (simp add: u_def v_def id_take_nth_drop [symmetric])
  have "branch_ok 0 (b ! i)" using assms i by simp
  then obtain r' where "b ! i = (r', Obj obj)" using i by (cases rule: branch_ok_leaf) auto
  then have objs: "mset (objects b) = add_mset (r', obj) (mset (objects (u @ v)))" by (subst b) simp
  have "\<forall>br\<in>set (u @ v). branch_ok 0 br" using assms by (subst (asm) b) auto
  moreover have "length b = length (u @ v) + 1" by (subst b) simp
  ultimately have "found_in 0 obj b (u @ v) ([], l)" using objs by (auto simp: found_in_def)
  moreover have "remove_branch i b = u @ v" by (simp add: remove_branch_def u_def v_def)
  ultimately show ?thesis using Some by (auto simp: removed_def)
qed

lemma found_in_Cons:
  assumes "found_in k obj b b' rlist" "branch_ok k br"
  shows "found_in k obj (br # b) (br # b') rlist"
  using assms by (auto simp: found_in_def ac_simps)

lemma removed_keep:
  assumes "res = Some x" "removed k r obj b l x" "branch_ok k br" "not_found r obj [br]"
  shows "\<exists>y. keep_branch br res = Some y \<and> removed k r obj (br # b) l y"
  using assms
  by (cases x) (auto simp: keep_branch_def removed_def not_found_def intro: found_in_Cons split: if_splits)

text \<open>A child in which the object was found, kept or moved to the chain.\<close>

lemma found_in_child:
  assumes "found_in (k - 1) obj c c' rlist" "k > 0" "min_fill \<le> length c" "length c \<le> page_card"
    and b: "\<forall>br\<in>set b. branch_ok k br"
  shows "min_fill \<le> length c' \<Longrightarrow> found_in k obj ((r, Page c) # b) ((cover c', Page c') # b) rlist"
    and "\<not> min_fill \<le> length c' \<Longrightarrow> found_in k obj ((r, Page c) # b) b (c' # fst rlist, int k - 1)"
proof -
  assume "min_fill \<le> length c'"
  then have "branch_ok k (cover c', Page c')"
    unfolding branch_ok_page using assms by (simp add: found_in_def)
  then show "found_in k obj ((r, Page c) # b) ((cover c', Page c') # b) rlist"
    using assms by (auto simp: found_in_def ac_simps of_nat_diff simp del: branch_ok.simps)
next
  assume "\<not> min_fill \<le> length c'"
  then have "length c' < length c" using assms(3) by simp
  then have "if k - 1 = 0 then fst rlist = [] else snd rlist = int (k - 1) - 1"
    using assms(1) by (simp add: found_in_def)
  then have "chain_ok (int k - 1 - 1) (fst rlist)"
    using assms(1,2) by (auto simp: found_in_def of_nat_diff split: if_splits)
  moreover have "nat (int k - 1) = k - 1" using assms(2) by simp
  ultimately show "found_in k obj ((r, Page c) # b) b (c' # fst rlist, int k - 1)"
    using assms by (auto simp: found_in_def ac_simps)
qed

lemma not_found_outside:
  assumes "branch_ok k br" "\<not> rect_and (fst br) r"
  shows "not_found r obj [br]"
proof -
  have "\<not> rect_and (fst x) r" if "x \<in> set (branch_objects br)" for x
    using rect_and_mono [OF _ branch_objects_inside [OF assms(1) that], of r] assms(2) rect_and_commute by metis
  then show ?thesis by (simp add: not_found_def)
qed

lemma remove_scan_ok:
  assumes child: "\<And>c. length c \<le> page_card \<Longrightarrow> \<forall>br\<in>set c. branch_ok (k - 1) br \<Longrightarrow>
      \<exists>res. child c ([], l) = Some res \<and> removed (k - 1) r obj c l res"
    and k: "k > 0" and b: "\<forall>br\<in>set b. branch_ok k br"
  shows "\<exists>res. remove_scan child k r ([], l) b = Some res \<and> removed k r obj b l res"
  using b
proof (induction b)
  case Nil
  then show ?case by (simp add: removed_def not_found_def)
next
  case (Cons br b)
  have br: "branch_ok k br" and b: "\<forall>br\<in>set b. branch_ok k br" using Cons.prems by auto
  obtain c where c: "br = (cover c, Page c)" "min_fill \<le> length c" "length c \<le> page_card"
    "\<forall>br\<in>set c. branch_ok (k - 1) br"
    using branch_ok_inner [OF br k] by metis
  obtain rest where rest: "remove_scan child k r ([], l) b = Some rest" "removed k r obj b l rest"
    using Cons.IH b by blast
  show ?case
  proof (cases "rect_and (fst br) r")
    case False
    show ?thesis
      using removed_keep [OF rest br not_found_outside [OF br False]] False by simp
  next
    case True
    obtain c' rl found where r: "child c ([], l) = Some (c', rl, found)" "removed (k - 1) r obj c l (c', rl, found)"
      using child [OF c(3,4)] by auto
    show ?thesis
    proof (cases found)
      case found: True
      have "found_in (k - 1) obj c c' rl" using r(2) found by (simp add: removed_def)
      note in_child = found_in_child [OF this k c(2,3) b, of "cover c"]
      show ?thesis
      proof (cases "min_fill \<le> length c'")
        case True
        then show ?thesis
          using r(1) found \<open>rect_and (fst br) r\<close> in_child(1) by (simp add: removed_def c(1) split: prod.splits)
      next
        case False
        then show ?thesis
          using r(1) found \<open>rect_and (fst br) r\<close> in_child(2) by (simp add: removed_def c(1))
      qed
    next
      case False
      then have "c' = c" "rl = ([], l)" "not_found r obj [br]" using r(2) by (simp_all add: removed_def not_found_def c(1))
      then show ?thesis using removed_keep [OF rest br] r(1) False True c(1) by simp
    qed
  qed
qed

lemma page_remove_ok:
  assumes "\<forall>br\<in>set b. branch_ok k br"
  shows "\<exists>res. page_remove (Suc k) r obj b ([], l) = Some res \<and> removed k r obj b l res"
  using assms
proof (induction k arbitrary: b)
  case 0
  then show ?case by (rule remove_in_leaf)
next
  case (Suc k)
  have "\<exists>res. remove_scan (\<lambda>p rlist. page_remove (Suc k) r obj p rlist) (Suc k) r ([], l) b = Some res \<and>
      removed (Suc k) r obj b l res"
    by (rule remove_scan_ok) (use Suc in \<open>simp_all del: page_remove.simps\<close>)
  then show ?case by (simp only: page_remove.simps(2) [of "Suc k"] nat.simps if_True not_False_eq_True)
qed

section \<open>The operations of the tree\<close>

text \<open>A root while pages are re-inserted: it may be left with one branch.\<close>

definition page_ok :: "nat \<Rightarrow> 'o page \<Rightarrow> bool" where
  "page_ok h b \<longleftrightarrow> h > 0 \<and> length b \<le> page_card \<and> (h > 1 \<longrightarrow> b \<noteq> []) \<and> (\<forall>br\<in>set b. branch_ok (h - 1) br)"

lemma root_page_ok: "root_ok h b \<Longrightarrow> page_ok h b"
  by (auto simp: root_ok_def page_ok_def)

lemma grow_root_ok:
  assumes "inserted (h - 1) b br res" "page_ok h b" and grown: "grow_root h res = (b', h')"
  shows "page_ok h' b' \<and> h \<le> h' \<and> mset (objects b') = mset (branch_objects br) + mset (objects b) \<and>
    (root_ok h b \<longrightarrow> root_ok h' b')"
proof (cases "snd res")
  case None
  then have "b' = fst res" "h' = h" using grown by (auto simp: grow_root_def split: prod.splits)
  then show ?thesis
    using assms(1,2) None by (auto simp: inserted_def all_branches_def sizes_ok_def page_ok_def root_ok_def)
next
  case (Some q)
  have h: "b' = [(cover (fst res), Page (fst res)), (cover q, Page q)]" "h' = h + 1"
    using grown Some by (auto simp: grow_root_def split: prod.splits option.splits)
  have "branch_ok h (cover (fst res), Page (fst res))" "branch_ok h (cover q, Page q)"
    unfolding branch_ok_page using assms(1,2) Some
    by (auto simp: inserted_def all_branches_def sizes_ok_def page_ok_def)
  then have "root_ok h' b'"
    by (simp add: h root_ok_def page_card_val del: branch_ok.simps)
  then show ?thesis
    using assms(1) Some root_page_ok by (auto simp: h inserted_def all_branches_def)
qed

lemma insert_at_level:
  assumes "page_ok h b" "branch_ok L br" "L < h"
  shows "\<exists>res. page_insert (h - L) (fst br) (snd br) b = Some res \<and> inserted (h - 1) b br res"
proof -
  define d where "d = h - L - 1"
  have d: "h - L = Suc d" "h - 1 = L + d" using assms(3) by (simp_all add: d_def)
  have b: "length b \<le> page_card" "\<forall>x\<in>set b. branch_ok (L + d) x" "d > 0 \<Longrightarrow> b \<noteq> []"
    using assms(1) d by (auto simp: page_ok_def)
  show ?thesis
    using page_insert_ok [OF b(1,3,2), of "fst br" "snd br"] assms(2) unfolding d prod.collapse by blast
qed

lemma reinsert_page_ok:
  assumes "page_ok h b" "\<forall>br\<in>set pg. branch_ok L br" "L < h"
  shows "\<exists>b' h'. reinsert_page (int L) pg (b, h) = Some (b', h') \<and> page_ok h' b' \<and> h \<le> h' \<and>
    mset (objects b') = mset (objects pg) + mset (objects b)"
  using assms
proof (induction pg arbitrary: b h)
  case Nil
  then show ?case by simp
next
  case (Cons br pg)
  obtain res where res: "page_insert (h - L) (fst br) (snd br) b = Some res" "inserted (h - 1) b br res"
    using insert_at_level [of h b L br] Cons.prems by auto
  obtain b1 h1 where grown: "grow_root h res = (b1, h1)" by fastforce
  note b1 = grow_root_ok [OF res(2) Cons.prems(1) grown]
  obtain b' h' where "reinsert_page (int L) pg (b1, h1) = Some (b', h')" "page_ok h' b'" "h1 \<le> h'"
    "mset (objects b') = mset (objects pg) + mset (objects b1)"
    using Cons.IH [of h1 b1] Cons.prems b1 by auto
  then show ?case using b1 res(1) grown Cons.prems(3) by (auto simp: nat_diff_distrib)
qed

lemma reinsert_chain_ok:
  assumes "page_ok h b" "chain_ok l chain" "chain \<noteq> [] \<Longrightarrow> l < int h"
  shows "\<exists>b' h'. reinsert_chain l chain (b, h) = Some (b', h') \<and> page_ok h' b' \<and>
    mset (objects b') = mset (chain_objects chain) + mset (objects b)"
  using assms
proof (induction chain arbitrary: l b h)
  case Nil
  then show ?case by simp
next
  case (Cons pg chain)
  then have L: "l = int (nat l)" "nat l < h" "\<forall>br\<in>set pg. branch_ok (nat l) br" by auto
  obtain b1 h1 where b1: "reinsert_page l pg (b, h) = Some (b1, h1)" "page_ok h1 b1" "h \<le> h1"
    "mset (objects b1) = mset (objects pg) + mset (objects b)"
    using reinsert_page_ok [OF Cons.prems(1) L(3,2)] L(1) by auto
  obtain b' h' where "reinsert_chain (l - 1) chain (b1, h1) = Some (b', h')" "page_ok h' b'"
    "mset (objects b') = mset (chain_objects chain) + mset (objects b1)"
    using Cons.IH [of h1 b1 "l - 1"] Cons.prems(2,3) b1(2,3) by auto
  then show ?case using b1 by auto
qed

lemma drop_root_ok:
  assumes "page_ok h b"
  shows "\<exists>b' h'. drop_root (b, h) = Some (b', h') \<and> root_ok h' b' \<and> objects b' = objects b"
proof (cases "length b = 1 \<and> h > 1")
  case True
  then obtain br where b: "b = [br]" by (metis One_nat_def length_0_conv length_Suc_conv)
  have "branch_ok (h - 1) br" "h - 1 > 0" using assms True by (simp_all add: page_ok_def b)
  then obtain c where "br = (cover c, Page c)" "min_fill \<le> length c" "length c \<le> page_card"
    "\<forall>br\<in>set c. branch_ok (h - 1 - 1) br"
    by (metis branch_ok_inner)
  then show ?thesis using True by (auto simp: drop_root_def b root_ok_def page_card_val)
next
  case False
  then show ?thesis using assms by (cases b) (auto simp: drop_root_def root_ok_def page_ok_def Suc_lessI)
qed

lemma tree_objects_simps [simp]:
  "root t = None \<Longrightarrow> tree_objects t = []" "root t = Some b \<Longrightarrow> tree_objects t = objects b"
  by (simp_all add: tree_objects_def)

lemma r_tree_insert_ok:
  assumes "r_tree_ok t" "rect_small r"
  shows "\<exists>t'. r_tree_insert r obj t = Some t' \<and> r_tree_ok t' \<and>
    mset (tree_objects t') = add_mset (r, obj) (mset (tree_objects t))"
proof (cases "root t")
  case None
  then show ?thesis
    using assms by (auto simp: r_tree_insert_def r_tree_ok_def root_ok_def page_card_val)
next
  case (Some b)
  have ok: "root_ok (height t) b" and n: "n_records t = of_nat (length (objects b))"
    using assms(1) Some by (simp_all add: r_tree_ok_def)
  obtain res where res: "page_insert (height t) r (Obj obj) b = Some res" "inserted (height t - 1) b (r, Obj obj) res"
    using insert_at_level [OF root_page_ok [OF ok], of 0 "(r, Obj obj)"] assms(2) ok by (auto simp: root_ok_def)
  obtain b' h' where grown: "grow_root (height t) res = (b', h')" by fastforce
  have new: "root_ok h' b'" "mset (objects b') = add_mset (r, obj) (mset (objects b))"
    using grow_root_ok [OF res(2) root_page_ok [OF ok] grown] ok by simp_all
  then have "length (objects b') = length (objects b) + 1" by (metis Suc_eq_plus1 size_add_mset size_mset)
  then show ?thesis
    using Some res(1) grown new n by (simp add: r_tree_insert_def r_tree_ok_def)
qed

lemma r_tree_remove_ok:
  assumes ok: "r_tree_ok t"
  shows "\<exists>t' found. r_tree_remove r obj t = Some (t', found) \<and> r_tree_ok t' \<and>
    (if found then \<exists>r'. mset (tree_objects t) = add_mset (r', obj) (mset (tree_objects t'))
     else t' = t \<and> (\<forall>x\<in>set (tree_objects t). snd x = obj \<longrightarrow> \<not> rect_and (fst x) r))"
proof (cases "root t")
  case None
  then show ?thesis using ok by (auto simp: r_tree_remove_def r_tree_ok_def)
next
  case (Some b)
  have root: "root_ok (height t) b" and n: "n_records t = of_nat (length (objects b))"
    using ok Some by (simp_all add: r_tree_ok_def)
  have h: "height t = Suc (height t - 1)" "\<forall>br\<in>set b. branch_ok (height t - 1) br" using root by (auto simp: root_ok_def)
  then have pos: "height t \<noteq> 0" by linarith
  obtain b1 chain l found where res: "page_remove (height t) r obj b ([], 0) = Some (b1, (chain, l), found)"
    "removed (height t - 1) r obj b 0 (b1, (chain, l), found)"
    using page_remove_ok [OF h(2), of r obj 0] h(1) by (metis prod.collapse)
  show ?thesis
  proof (cases found)
    case True
    then have f: "found_in (height t - 1) obj b b1 (chain, l)" using res(2) by (simp add: removed_def)
    then have "page_ok (height t) b1" using root by (auto simp: found_in_def page_ok_def root_ok_def)
    moreover have "chain_ok l chain" "chain \<noteq> [] \<Longrightarrow> l < int (height t)"
      using f pos by (auto simp: found_in_def)
    ultimately obtain b2 h2 where b2: "reinsert_chain l chain (b1, height t) = Some (b2, h2)" "page_ok h2 b2"
      "mset (objects b2) = mset (chain_objects chain) + mset (objects b1)"
      using reinsert_chain_ok by blast
    obtain b3 h3 where b3: "drop_root (b2, h2) = Some (b3, h3)" "root_ok h3 b3" "objects b3 = objects b2"
      using drop_root_ok [OF b2(2)] by blast
    obtain r' where r': "mset (objects b) = add_mset (r', obj) (mset (objects b3))"
      using f b2(3) b3(3) by (auto simp: found_in_def ac_simps)
    then have "length (objects b) = length (objects b3) + 1" by (metis Suc_eq_plus1 size_add_mset size_mset)
    then show ?thesis
      using Some res(1) True b2(1) b3(1,2) pos n r' by (auto simp: r_tree_remove_def r_tree_ok_def)
  next
    case False
    then have "b1 = b" "not_found r obj b" using res(2) by (simp_all add: removed_def)
    moreover have "t\<lparr>root := Some b\<rparr> = t" using Some by simp
    ultimately have "r_tree_remove r obj t = Some (t, False)"
      using Some res(1) False pos by (simp add: r_tree_remove_def)
    moreover have "\<forall>x\<in>set (tree_objects t). snd x = obj \<longrightarrow> \<not> rect_and (fst x) r"
      using \<open>not_found r obj b\<close> Some by (simp add: not_found_def)
    ultimately show ?thesis using ok by (intro exI [of _ t] exI [of _ False]) simp
  qed
qed

section \<open>Search and purge\<close>

text \<open>The objects found in a page, in the order of the pages.\<close>

definition hits :: "rectangle \<Rightarrow> (rectangle \<times> 'o) list \<Rightarrow> 'o list" where
  "hits r xs = map snd (filter (\<lambda>x. rect_and r (fst x)) xs)"

lemma hits_append [simp]: "hits r (xs @ ys) = hits r xs @ hits r ys" "hits r [] = []"
  by (simp_all add: hits_def)

lemma hits_outside:
  assumes "branch_ok k br" "\<not> rect_and r (fst br)"
  shows "hits r (branch_objects br) = []"
  using rect_and_mono [OF _ branch_objects_inside [OF assms(1)], of r] assms(2)
  by (auto simp: hits_def filter_empty_conv)

lemma search_visit_ok:
  assumes "\<And>br s. br \<in> set b \<Longrightarrow>
      visit (snd br) s = Some (fold apply_cb (hits r (branch_objects br)) s, length (hits r (branch_objects br)))
        \<or> \<not> rect_and r (fst br)"
    and "\<forall>br\<in>set b. branch_ok k br"
  shows "search_visit visit r b s = Some (fold apply_cb (hits r (objects b)) s, length (hits r (objects b)))"
  using assms
proof (induction b arbitrary: s)
  case Nil
  then show ?case by simp
next
  case (Cons br b)
  have rest: "search_visit visit r b s = Some (fold apply_cb (hits r (objects b)) s, length (hits r (objects b)))" for s
    using Cons by simp
  show ?case
  proof (cases "rect_and r (fst br)")
    case True
    then show ?thesis using Cons.prems(1) [of br s] rest by simp
  next
    case False
    then show ?thesis using hits_outside [of k br r] Cons.prems(2) rest by simp
  qed
qed

lemma page_search_ok:
  assumes "\<forall>br\<in>set b. branch_ok k br"
  shows "page_search apply_cb (Suc k) r b s = Some (fold apply_cb (hits r (objects b)) s, length (hits r (objects b)))"
  using assms
proof (induction k arbitrary: b s)
  case 0
  have "search_visit (\<lambda>p s. case p of Obj x \<Rightarrow> Some (apply_cb x s, 1) | Page c \<Rightarrow> None) r b s =
      Some (fold apply_cb (hits r (objects b)) s, length (hits r (objects b)))"
  proof (rule search_visit_ok [OF _ 0])
    fix br s
    assume "br \<in> set b"
    then have "branch_ok 0 br" using 0 by blast
    then show "(case snd br of Obj x \<Rightarrow> Some (apply_cb x s, 1) | Page c \<Rightarrow> None) =
        Some (fold apply_cb (hits r (branch_objects br)) s, length (hits r (branch_objects br))) \<or> \<not> rect_and r (fst br)"
      by (cases rule: branch_ok_leaf) (simp add: hits_def)
  qed
  then show ?case by simp
next
  case (Suc k)
  have "search_visit (\<lambda>p s. case p of Obj x \<Rightarrow> None | Page c \<Rightarrow> page_search apply_cb (Suc k) r c s) r b s =
      Some (fold apply_cb (hits r (objects b)) s, length (hits r (objects b)))"
  proof (rule search_visit_ok [OF _ Suc.prems])
    fix br s
    assume "br \<in> set b"
    then have "branch_ok (Suc k) br" using Suc.prems by blast
    then obtain c where "br = (cover c, Page c)" "\<forall>br\<in>set c. branch_ok k br"
      by (rule branch_ok_inner) auto
    then show "(case snd br of Obj x \<Rightarrow> None | Page c \<Rightarrow> page_search apply_cb (Suc k) r c s) =
        Some (fold apply_cb (hits r (branch_objects br)) s, length (hits r (branch_objects br))) \<or> \<not> rect_and r (fst br)"
      using Suc.IH by simp
  qed
  then show ?case by (simp only: page_search.simps(2) [of _ "Suc k"] nat.simps if_True not_False_eq_True)
qed

lemma purge_visit_ok:
  assumes "\<And>br. br \<in> set b \<Longrightarrow> visit (snd br) = Some (f br)"
  shows "purge_visit visit b = Some (concat (map f b))"
  using assms by (induction b) simp_all

lemma page_purge_ok:
  assumes "\<forall>br\<in>set b. branch_ok k br"
  shows "page_purge (Suc k) leaves b = Some (if leaves then map snd (objects b) else [])"
  using assms
proof (induction k arbitrary: b)
  case 0
  have "(case snd br of Obj x \<Rightarrow> Some [x] | Page c \<Rightarrow> None) = Some (map snd (branch_objects br))" if "br \<in> set b" for br
  proof -
    have "branch_ok 0 br" using that 0 by blast
    then show ?thesis by (cases rule: branch_ok_leaf) simp
  qed
  from purge_visit_ok [of b _ "\<lambda>br. map snd (branch_objects br)", OF this] show ?case
    by (simp add: objects_def map_concat comp_def)
next
  case (Suc k)
  have "(case snd br of Obj x \<Rightarrow> None | Page c \<Rightarrow> page_purge (Suc k) leaves c) =
      Some (if leaves then map snd (branch_objects br) else [])" if "br \<in> set b" for br
  proof -
    have "branch_ok (Suc k) br" using that Suc.prems by blast
    then obtain c where "br = (cover c, Page c)" "\<forall>br\<in>set c. branch_ok k br"
      by (rule branch_ok_inner) auto
    then show ?thesis using Suc.IH by simp
  qed
  from purge_visit_ok [of b _ "\<lambda>br. if leaves then map snd (branch_objects br) else []", OF this] show ?case
    by (simp only: page_purge.simps(2) [of "Suc k"] nat.simps if_True not_False_eq_True)
      (simp add: objects_def map_concat comp_def)
qed

text \<open>The searches of the tree.\<close>

lemma r_tree_search_ok:
  assumes "r_tree_ok t" "length (tree_objects t) < 2 ^ 32"
  shows "r_tree_search apply_cb r t s =
      Some (fold apply_cb (hits r (tree_objects t)) s, length (hits r (tree_objects t)))"
    and search_buffer_ok: "r_tree_search_buffer r t sb = Some (sb @ hits r (tree_objects t), length (hits r (tree_objects t)))"
proof -
  have "r_tree_search apply_cb r t s =
      Some (fold apply_cb (hits r (tree_objects t)) s, length (hits r (tree_objects t))) \<and>
    r_tree_search_buffer r t sb = Some (sb @ hits r (tree_objects t), length (hits r (tree_objects t)))"
  proof (cases "n_records t = 0")
    case True
    then have "tree_objects t = []"
      using assms by (simp add: r_tree_ok_def word_of_nat_eq_0_iff) (metis dvd_imp_le length_0_conv not_le neq0_conv)
    then show ?thesis using True by (simp add: r_tree_search_def r_tree_search_buffer_def)
  next
    case False
    then obtain b where b: "root t = Some b" "root_ok (height t) b"
      using assms(1) by (cases "root t") (auto simp: r_tree_ok_def)
    obtain k where k: "height t = Suc k" "\<forall>br\<in>set b. branch_ok k br"
      using b(2) by (cases "height t") (auto simp: root_ok_def)
    have "fold (\<lambda>x sb. sb @ [x]) xs sb = sb @ xs" for xs :: "'a list" and sb
      by (induction xs arbitrary: sb) simp_all
    then show ?thesis
      using False b(1) k(1)
      by (simp add: r_tree_search_def r_tree_search_buffer_def page_search_buffer_def page_search_ok [OF k(2)]
          del: page_search.simps)
  qed
  then show "r_tree_search apply_cb r t s =
      Some (fold apply_cb (hits r (tree_objects t)) s, length (hits r (tree_objects t)))"
    "r_tree_search_buffer r t sb = Some (sb @ hits r (tree_objects t), length (hits r (tree_objects t)))" by blast+
qed

section \<open>Properties\<close>

text \<open>C32: A full page and a new branch are divided among the page and a new one: no branch is lost or doubled,
  each page has at least 93 and at most 94 of the 187, and the assertions of the choice hold, when the
  coordinates are at most \<open>2 ^ 14\<close> in absolute value.\<close>

theorem split_page_correct:
  assumes "length b = page_card" "rects_small (br # b)"
  shows "\<exists>b' p. split_page br b = Some (b', p) \<and> mset b' + mset p = add_mset br (mset b) \<and>
    min_fill \<le> length b' \<and> length b' \<le> min_fill + 1 \<and> min_fill \<le> length p \<and> length p \<le> min_fill + 1"
  using assms by (rule split_page_ok)

definition column :: "nat \<Rightarrow> rectangle" where
  "column i = Rectangle (word_of_nat i) 0 (word_of_nat (i + 1)) 5"

definition columns :: "nat \<Rightarrow> nat \<Rightarrow> nat page" where
  "columns k n = map (\<lambda>i. (column i, Obj i)) [k ..< k + n]"

lemma column_small: "i < 1000 \<Longrightarrow> rect_small (column i)"
proof -
  assume i: "i < 1000"
  have "sint (word_of_nat j :: int32) = int j" if "j < 2000" for j
    using that size_of_small_int(2) [of "int j"] by simp
  then show ?thesis using i by (simp add: column_def del: of_nat_add of_nat_Suc)
qed

lemma columns_ok:
  assumes "k + n \<le> 1000"
  shows "\<forall>br\<in>set (columns k n). branch_ok 0 br" and "rects_small (columns k n)" and "length (columns k n) = n"
  using assms column_small by (auto simp: columns_def rects_small_def)

theorem split_page_correct_witness:
  "\<exists>b' p. split_page (column 7, Obj 7) (columns 20 186) = Some (b', p) \<and>
     mset b' + mset p = add_mset (column 7, Obj 7) (mset (columns 20 186)) \<and>
     min_fill \<le> length b' \<and> length b' \<le> min_fill + 1 \<and> min_fill \<le> length p \<and> length p \<le> min_fill + 1"
proof (rule split_page_correct)
  show "length (columns 20 186) = page_card" by (simp add: columns_ok page_card_val)
  show "rects_small ((column 7, Obj 7) # columns 20 186)"
    using columns_ok(2) [of 20 186] column_small [of 7] by (simp add: rects_small_def)
qed

text \<open>C19: \<open>R_tree::insert\<close> on any well-formed tree, also when pages up to the root are split: the new tree has the
  old objects and the new one, its pages are at equal depth, filled to the half, and the rectangle of every
  branch is exactly the cover of what is below it.\<close>

theorem r_tree_insert_correct:
  assumes "r_tree_ok t" "rect_small r"
  shows "\<exists>t'. r_tree_insert r obj t = Some t' \<and> r_tree_ok t' \<and>
    mset (tree_objects t') = add_mset (r, obj) (mset (tree_objects t))"
  using assms by (rule r_tree_insert_ok)

definition sample_r_tree :: "nat r_tree" where
  "sample_r_tree = \<lparr>n_records = 193, height = 2,
     root = Some [(cover (columns 0 93), Page (columns 0 93)), (cover (columns 200 100), Page (columns 200 100))]\<rparr>"

lemma columns_objects: "objects (columns k n) = map (\<lambda>i. (column i, i)) [k ..< k + n]"
  by (simp add: columns_def objects_def comp_def)

lemma sample_r_tree_ok: "r_tree_ok sample_r_tree"
proof -
  have "branch_ok 1 (cover (columns 0 93), Page (columns 0 93))"
    "branch_ok 1 (cover (columns 200 100), Page (columns 200 100))"
    unfolding branch_ok_page using columns_ok [of 0 93] columns_ok [of 200 100] by (simp_all add: page_card_val)
  then show ?thesis
    by (simp add: r_tree_ok_def sample_r_tree_def root_ok_def page_card_val tree_objects_def columns_objects
        del: branch_ok.simps)
qed

theorem r_tree_insert_correct_witness:
  "\<exists>t'. r_tree_insert (column 9) 1000 sample_r_tree = Some t' \<and> r_tree_ok t' \<and>
     mset (tree_objects t') = add_mset (column 9, 1000) (mset (tree_objects sample_r_tree))"
  by (rule r_tree_insert_correct [OF sample_r_tree_ok column_small]) simp

text \<open>C20: \<open>R_tree::remove\<close> on any well-formed tree: when it finds the object, one entry of it is gone, also when
  underfull pages are dissolved and their branches inserted again at their level, and the tree is
  well-formed again; when it does not, the tree is unchanged and no entry of the object overlaps the
  rectangle.\<close>

theorem r_tree_remove_correct:
  assumes "r_tree_ok t"
  shows "\<exists>t' found. r_tree_remove r obj t = Some (t', found) \<and> r_tree_ok t' \<and>
    (if found then \<exists>r'. mset (tree_objects t) = add_mset (r', obj) (mset (tree_objects t'))
     else t' = t \<and> (\<forall>x\<in>set (tree_objects t). snd x = obj \<longrightarrow> \<not> rect_and (fst x) r))"
  using assms by (rule r_tree_remove_ok)

theorem r_tree_remove_correct_witness:
  "\<exists>t' r'. r_tree_remove (column 5) 5 sample_r_tree = Some (t', True) \<and> r_tree_ok t' \<and>
     mset (tree_objects sample_r_tree) = add_mset (r', 5) (mset (tree_objects t'))"
proof -
  have "(column 5, 5) \<in> set (tree_objects sample_r_tree) \<and> rect_and (column 5) (column 5)"
    using rect_and_refl [OF column_small [of 5]] by (simp add: sample_r_tree_def tree_objects_def columns_objects)
  then show ?thesis using r_tree_remove_correct [OF sample_r_tree_ok, of "column 5" 5] by (fastforce split: if_splits)
qed

text \<open>C26: The two searches visit exactly the objects whose rectangles overlap the given one, in the order of the
  pages, and return their number.\<close>

theorem r_tree_search_correct:
  assumes "r_tree_ok t" "length (tree_objects t) < 2 ^ 32"
  shows "r_tree_search apply_cb r t s =
      Some (fold apply_cb (hits r (tree_objects t)) s, length (hits r (tree_objects t))) \<and>
    r_tree_search_buffer r t sb = Some (sb @ hits r (tree_objects t), length (hits r (tree_objects t)))"
  by (intro conjI r_tree_search_ok search_buffer_ok assms)

lemma sint_word_small: "j < 2000 \<Longrightarrow> sint (word_of_nat j :: int32) = int j"
  using size_of_small_int(2) [of "int j"] by simp

lemma hits_columns:
  assumes "i < 1000" "k + n \<le> 1000"
  shows "hits (column i) (objects (columns k n)) = filter (\<lambda>j. i \<le> j + 1 \<and> j \<le> i + 1) [k ..< k + n]"
proof -
  have "rect_and (column i) (column j) \<longleftrightarrow> i \<le> j + 1 \<and> j \<le> i + 1" if "j < 1000" for j
    using that assms(1) sint_word_small [of i] sint_word_small [of j] sint_word_small [of "i + 1"] sint_word_small [of "j + 1"]
    by (simp add: column_def word_sless_alt not_less del: of_nat_add of_nat_Suc)
  then show ?thesis
    using assms(2) by (auto simp: hits_def columns_objects filter_map comp_def intro!: filter_cong)
qed

theorem r_tree_search_correct_witness:
  "r_tree_search_buffer (column 50) sample_r_tree [] = Some ([49, 50, 51], 3)"
proof -
  have "filter (\<lambda>j. 49 \<le> j \<and> j \<le> 51) [0 ..< 93] = [49, 50, 51 :: nat]" by code_simp
  then have h: "hits (column 50) (tree_objects sample_r_tree) = [49, 50, 51]"
    using hits_columns [of 50 0 93] hits_columns [of 50 200 100] by (simp add: sample_r_tree_def tree_objects_def)
  have "length (tree_objects sample_r_tree) < 2 ^ 32"
    by (simp add: sample_r_tree_def tree_objects_def columns_objects)
  from conjunct2 [OF r_tree_search_correct [OF sample_r_tree_ok this, of "\<lambda>x s. s" "column 50" "()" "[]"]]
  have "r_tree_search_buffer (column 50) sample_r_tree [] = Some ([49, 50, 51], length [49, 50, 51 :: nat])"
    unfolding h by (simp only: append_Nil)
  also have "length [49, 50, 51 :: nat] = 3" by simp
  finally show ?thesis .
qed

text \<open>\<open>R_tree::purge\<close> empties the tree, deletes every object when asked to, and leaves \<open>height\<close> as it was: an
  insertion repairs it, but the next \<open>remove\<close> instead dereferences the null root.\<close>

theorem r_tree_purge_then_remove:
  assumes "r_tree_ok t" "root t \<noteq> None"
  shows "\<exists>t' deleted. r_tree_purge delete_leaves t = Some (t', deleted) \<and>
    deleted = (if delete_leaves then map snd (tree_objects t) else []) \<and> tree_objects t' = [] \<and> n_records t' = 0 \<and>
    r_tree_search_buffer r t' sb = Some (sb, 0) \<and> r_tree_insert r obj t' = r_tree_insert r obj r_tree_new \<and>
    r_tree_remove r obj t' = None"
proof -
  obtain b where b: "root t = Some b" using assms(2) by auto
  have ok: "root_ok (height t) b" using assms(1) b by (simp add: r_tree_ok_def)
  obtain k where k: "height t = Suc k" "\<forall>br\<in>set b. branch_ok k br"
    using ok by (cases "height t") (auto simp: root_ok_def)
  have "r_tree_purge delete_leaves t =
      Some (t\<lparr>root := None, n_records := 0\<rparr>, if delete_leaves then map snd (objects b) else [])"
    using b page_purge_ok [OF k(2), of delete_leaves] by (simp add: r_tree_purge_def k(1) del: page_purge.simps)
  then show ?thesis
    using b k(1)
    by (simp add: r_tree_search_buffer_def r_tree_insert_def r_tree_remove_def r_tree_new_def)
qed

theorem r_tree_purge_then_remove_witness:
  "\<exists>t' deleted. r_tree_purge False sample_r_tree = Some (t', deleted) \<and> r_tree_remove (column 1) 1 t' = None"
  using r_tree_purge_then_remove [OF sample_r_tree_ok, of False "column 1" undefined 1]
  by (auto simp: sample_r_tree_def)

text \<open>The tree as a container of rectangles with objects.\<close>

definition insert_all :: "(rectangle \<times> 'o) list \<Rightarrow> 'o r_tree \<Rightarrow> 'o r_tree option" where
  "insert_all = add_all (\<lambda>e t. r_tree_insert (fst e) (snd e) t)"

lemma insert_all_simps [simp]:
  "insert_all [] t = Some t" "insert_all (e # es) t = Option.bind (r_tree_insert (fst e) (snd e) t) (insert_all es)"
  by (simp_all add: insert_all_def)

interpretation rtree_bag: object_bag r_tree_ok "\<lambda>e. rect_small (fst e)" "\<lambda>t. mset (tree_objects t)"
  "\<lambda>e t. r_tree_insert (fst e) (snd e) t"
  by unfold_locales (use r_tree_insert_ok in fastforce)

text \<open>C33: An R-tree built from scratch by any sequence of insertions: the insertions succeed, and a search finds
  just the inserted objects whose rectangles overlap the given one, each as often as it was inserted.\<close>

theorem r_tree_build_and_search:
  assumes "\<forall>e\<in>set es. rect_small (fst e)" "length es < 2 ^ 32"
  shows "\<exists>t found. insert_all es r_tree_new = Some t \<and> r_tree_search_buffer r t [] = Some (found, length found) \<and>
    mset found = mset (hits r es)"
proof -
  have "r_tree_ok (r_tree_new :: 'a r_tree)" "tree_objects (r_tree_new :: 'a r_tree) = []"
    by (simp_all add: r_tree_new_def r_tree_ok_def tree_objects_def)
  then obtain t where t: "insert_all es r_tree_new = Some t" "r_tree_ok t" "mset (tree_objects t) = mset es"
    using rtree_bag.add_all_ok [of r_tree_new es] assms(1) unfolding insert_all_def by auto
  have "length (tree_objects t) = length es" by (rule mset_eq_length [OF t(3)])
  then have "r_tree_search_buffer r t [] = Some (hits r (tree_objects t), length (hits r (tree_objects t)))"
    using search_buffer_ok [OF t(2)] assms(2) by simp
  moreover have "mset (hits r (tree_objects t)) = mset (hits r es)"
    using t(3) by (simp add: hits_def)
  ultimately show ?thesis using t(1) by blast
qed

theorem r_tree_build_and_search_witness:
  "\<exists>t found. insert_all (map (\<lambda>i. (column i, i)) [0 ..< 300]) r_tree_new = Some t \<and>
     r_tree_search_buffer (column 7) t [] = Some (found, length found) \<and>
     mset found = mset (hits (column 7) (map (\<lambda>i. (column i, i)) [0 ..< 300]))"
  by (rule r_tree_build_and_search) (use column_small in auto)

text \<open>Points that make the sums of areas in \<open>split_page\<close> overflow.\<close>

definition point :: "nat \<Rightarrow> nat \<Rightarrow> rectangle" where
  "point x y = Rectangle (word_of_nat x) (word_of_nat y) (word_of_nat x) (word_of_nat y)"


definition far_points :: "'o \<Rightarrow> (rectangle \<times> 'o) list" where
  "far_points x = (point 65536 1, x) # replicate 185 (point 65536 32768, x)"

lemma insert_all_root:
  assumes "root t = Some b" "height t = 1" "length b + length xs \<le> page_card"
  shows "\<exists>t'. insert_all xs t = Some t' \<and> height t' = 1 \<and> root t' = Some (b @ map (\<lambda>(r, x). (r, Obj x)) xs)"
  using assms
proof (induction xs arbitrary: t b)
  case Nil
  then show ?case by simp
next
  case (Cons a xs)
  then show ?case
    using Cons.IH [of _ "b @ [(fst a, Obj (snd a))]"]
    by (cases a) (simp add: r_tree_insert_def add_branch_def grow_root_def)
qed

lemma far_points_root:
  "\<exists>t. insert_all (far_points x) r_tree_new = Some t \<and> height t = 1 \<and>
     root t = Some (map (\<lambda>(r, x). (r, Obj x)) (far_points x))"
  unfolding far_points_def
  using insert_all_root [of _ "[(point 65536 1, Obj x)]" "replicate 185 (point 65536 32768, x)"]
  by (simp add: r_tree_insert_def r_tree_new_def page_card_val)

lemma point_area:
  "area (point x y) = 0" "sup (point x y) (point x y) = point x y"
  by (simp_all add: point_def size_of_int_def)

lemma far_sup:
  "sup (point 0 0) (point 65536 1) = Rectangle 0 0 65536 1"
  "sup (point 0 0) (point 65536 32768) = Rectangle 0 0 65536 32768"
  "sup (point 65536 1) (point 65536 32768) = Rectangle 65536 1 65536 32768"
  unfolding point_def sup_rectangle_def rect_plus.simps min_int_def max_int_def word_sle_eq by simp_all

lemma far_area:
  "area (sup (point 0 0) (point 65536 1)) = 65536" "area (sup (point 0 0) (point 65536 32768)) = 2 ^ 31"
  "area (sup (point 65536 1) (point 65536 32768)) = 0"
  unfolding far_sup by (simp_all add: size_of_int_def)

definition far_page :: "'o \<Rightarrow> 'o page" where
  "far_page x = map (\<lambda>(r, x). (r, Obj x)) (far_points x)"

lemma far_page_eq: "far_page x = (point 65536 1, Obj x) # replicate 185 (point 65536 32768, Obj x)"
  by (simp add: far_page_def far_points_def)

lemma far_page_nth: "far_page x ! 0 = (point 65536 1, Obj x)"
  "0 < k \<Longrightarrow> k < 186 \<Longrightarrow> far_page x ! k = (point 65536 32768, Obj x)"
  "length (far_page x) = 186"
  by (simp_all add: far_page_eq nth_Cons')

lemma far_waste:
  fixes x :: 'o
  defines "brs \<equiv> (point 0 0, Obj x) # far_page x"
  assumes "i < j" "j \<le> 186"
  shows "seed_waste brs i j \<le>s 65536" and "seed_waste brs 0 1 = 65536"
proof -
  have n: "brs ! 0 = (point 0 0, Obj x)" "brs ! 1 = (point 65536 1, Obj x)"
    "2 \<le> k \<Longrightarrow> k \<le> 186 \<Longrightarrow> brs ! k = (point 65536 32768, Obj x)" for k
    by (simp_all add: brs_def nth_Cons' far_page_nth)
  show "seed_waste brs 0 1 = 65536"
    by (simp only: seed_waste_def rect_area_def n fst_conv rect_plus_sup point_area far_area) (simp add: int_of_size_def size_of_int_def)
  consider "i = 0" "j = 1" | "i = 0" "2 \<le> j" | "i = 1" "2 \<le> j" | "2 \<le> i" "2 \<le> j" using assms(2) by linarith
  then show "seed_waste brs i j \<le>s 65536"
    by cases (use assms(2,3) in \<open>simp only: seed_waste_def rect_area_def n fst_conv rect_plus_sup point_area far_area;
      simp add: int_of_size_def size_of_int_def word_sle_eq\<close>)+
qed

lemma far_seeds:
  "find_seeds ((point 0 0, Obj x) # far_page x) = Some (0, 1)"
proof -
  let ?brs = "(point 0 0, Obj x) # far_page x"
  have range: "x \<in> set seed_pairs \<Longrightarrow> fst x < snd x \<and> snd x \<le> 186" for x
    by (auto simp: seed_pairs_def page_card_val)
  have pos: "0 < page_card" "0 + 1 < page_card + 1" by (simp_all add: page_card_val)
  obtain pairs where "seed_pairs = (0, 0 + 1) # pairs"
    unfolding seed_pairs_def
    by (simp only: upt_conv_Cons [OF pos(1)] upt_conv_Cons [OF pos(2)] list.map concat.simps append.simps)
  then have pairs: "seed_pairs = (0, 1) # pairs" by simp
  have in_pairs: "x \<in> set pairs \<Longrightarrow> fst x < snd x \<and> snd x \<le> 186" for x using range [of x] by (simp add: pairs)
  have first: "seed_step ?brs (0, 1) (None, INT_MIN) = (Some (0, 1), 65536)"
    using far_waste(2) [of 0 1 x] by (simp add: seed_step_def INT_MIN_def word_sless_alt)
  have "fold (seed_step ?brs) pairs (Some (0, 1), 65536) = (Some (0, 1), 65536)"
  proof (rule fold_invariant [where P = "\<lambda>acc. acc = (Some (0, 1), 65536)" and Q = "\<lambda>x. fst x < snd x \<and> snd x \<le> 186"])
    fix ij :: "nat \<times> nat" and acc :: "(nat \<times> nat) option \<times> int32"
    assume "fst ij < snd ij \<and> snd ij \<le> 186" "acc = (Some (0, 1), 65536)"
    then show "seed_step ?brs ij acc = (Some (0, 1), 65536)"
      using far_waste(1) [of "fst ij" "snd ij" x]
      by (cases ij) (simp add: seed_step_def Let_def word_sless_alt word_sle_eq)
  qed (use in_pairs in auto)
  then show ?thesis by (simp add: find_seeds_def pairs first del: One_nat_def)
qed

lemma far_split: "split_page (point 0 0, Obj x) (far_page x) = None"
proof -
  let ?b = "far_page x"
  obtain s where s: "split_start (point 0 0, Obj x) ?b (0, 1) = (?b, s)" "group0 s = point 0 0" "group1 s = point 65536 1"
    "group_area0 s = 0" "group_area1 s = 0" "group_card0 s = 1" "group_card1 s = 1" "taken s = (replicate page_card 0)[0 := 2]"
    by (simp add: split_start_def rect_area_def point_area int_of_size_def far_page_nth)
  have att: "attraction ?b s i = - (2 ^ 31)" if "0 < i" "i < page_card" for i
  proof -
    have "?b ! i = (point 65536 32768, Obj x)" using that by (simp add: far_page_nth page_card_val)
    then show ?thesis
      by (simp only: attraction_def s(2-5) rect_plus_sup fst_conv far_area) (simp add: int_of_size_def size_of_int_def)
  qed
  have "fold (choose_step ?b s) [0 ..< page_card] (None, -1) = (None, -1)"
  proof (rule fold_invariant [where P = "\<lambda>acc. acc = (None, -1)" and Q = "\<lambda>i. i < page_card"])
    fix i and acc :: "(nat \<times> nat) option \<times> int32"
    assume i: "i < page_card" "acc = (None, -1)"
    show "choose_step ?b s i acc = (None, -1)"
    proof (cases "i = 0")
      case True
      then show ?thesis using i s(8) by (simp add: choose_step_def)
    next
      case False
      then have "attraction ?b s i = - (2 ^ 31)" using att i(1) by simp
      then show ?thesis using i by (simp add: choose_step_def Let_def word_sless_alt)
    qed
  qed auto
  then have "choose_next ?b s = None" by (simp add: choose_next_def)
  then have "split_loop ?b s = None" by (subst split_loop.simps) (simp add: s(6,7) page_card_val)
  then show ?thesis by (simp add: split_page_def far_seeds s(1) del: One_nat_def)
qed

text \<open>C31: The sums of areas are computed in \<open>int\<close> and overflow for moderate coordinates: after 186 insertions of
  points with coordinates up to 65536, which all succeed, the insertion of the origin finds no branch to
  choose in \<open>split_page\<close> and fails the assertion \<open>chosen >= 0\<close>.\<close>

theorem r_tree_insert_overflow:
  "\<exists>t. insert_all (far_points x) r_tree_new = Some t \<and> length (far_points x) = page_card \<and>
     r_tree_insert (point 0 0) x t = None"
proof -
  obtain t where t: "insert_all (far_points x) r_tree_new = Some t" "height t = 1"
    "root t = Some (far_page x)"
    using far_points_root [of x, folded far_page_def] by blast
  have "page_insert (Suc 0) (point 0 0) (Obj x) (far_page x) = None"
    by (simp add: add_branch_def page_card_val far_split far_page_nth)
  then have "r_tree_insert (point 0 0) x t = None"
    using t(2,3) by (simp add: r_tree_insert_def del: page_insert.simps)
  moreover have "length (far_points x) = page_card" by (simp add: far_points_def page_card_val)
  ultimately show ?thesis using t(1) by blast
qed

end
