(* ===== verification/Storage.thy ===== *)
theory Storage
  imports Prelude
begin

text \<open>
  The storage of POST++ (\<open>src/storage.h\<close>, \<open>src/storage.cxx\<close>): the allocator of the mapped file.  An address is its
  offset from \<open>hdr\<close>, the start of the mapping.  The first page holds the header of the storage; behind it the file
  is a sequence of runs of pages (an object larger than half a page, or free) and of single pages cut into
  blocks of one size.  Every run and block starts with an \<open>object_header\<close>: the fields \<open>cid\<close> and \<open>size\<close> of the
  headers are two functions from addresses.  The chains threaded through the field \<open>next\<close> of free blocks are
  lists of addresses.  The default build is modelled: \<open>LARGE_OBJECTS\<close> is off and a page has 512 bytes.
\<close>

section \<open>State\<close>

definition page_size :: nat where "page_size = 512"
definition init_page_map_size :: nat where "init_page_map_size = 8"
definition sizeof_object_header :: nat where "sizeof_object_header = 8"

definition free_object :: uint32 where "free_object = 0"
definition metaclass_cid :: uint32 where "metaclass_cid = 1"
definition page_map_cid :: uint32 where "page_map_cid = 2"
definition first_cid :: uint32 where "first_cid = 3"
definition gc_marked :: uint32 where "gc_marked = 0x80000000"

text \<open>\<open>ALIGN\<close> to a power of two; conversion to \<open>unsigned\<close>.\<close>

definition ALIGN :: "nat \<Rightarrow> nat \<Rightarrow> nat" where
  "ALIGN x b = (x + b - 1) div b * b"

definition to_unsigned :: "nat \<Rightarrow> nat" where
  "to_unsigned n = n mod 2 ^ 32"

record post_file =
  file_bytes :: nat
  mapped_size :: nat
  allocation_granularity :: nat

record storage =
  data_file :: post_file
  file_size :: nat
  cid_at :: "nat \<Rightarrow> uint32"
  size_at :: "nat \<Rightarrow> nat"
  page_map :: "nat option"
  map_bits :: "nat \<Rightarrow> bool"
  free_page_chain :: "nat list"
  free_block_chain :: "nat list list"
  curr_free_page :: "nat option"
  app_class_mapping :: "uint32 list"

definition block_chain :: "nat list" where
  "block_chain = [
     0, 0, 1, 2, 3, 4, 5, 6, 7, 8,
     9, 9, 10, 10, 10, 10, 11, 11, 11, 11,
     11, 12, 12, 12, 12, 12, 12, 12, 12, 12,
     12, 12]"

definition block_size :: "nat list" where
  "block_size = [
     16, 16, 24, 32, 40, 48, 56, 64, 72, 80,
     96, 96, 128, 128, 128, 128, 168, 168, 168, 168,
     168, 256, 256, 256, 256, 256, 256, 256, 256, 256,
     256, 256]"

text \<open>\<open>small\<close> is the test \<open>size + sizeof(object_header) <= page_size/2\<close>, \<open>size_index\<close> the index into the two
  tables.\<close>

definition small :: "nat \<Rightarrow> bool" where
  "small sz \<longleftrightarrow> sz + sizeof_object_header \<le> page_size div 2"

definition size_index :: "nat \<Rightarrow> nat" where
  "size_index sz = (sz + sizeof_object_header + 7) div 8 - 1"

definition block_size_of :: "nat \<Rightarrow> nat" where
  "block_size_of sz = block_size ! size_index sz"

definition block_chain_of :: "nat \<Rightarrow> nat" where
  "block_chain_of sz = block_chain ! size_index sz"

definition set_header :: "nat \<Rightarrow> uint32 \<Rightarrow> nat \<Rightarrow> storage \<Rightarrow> storage" where
  "set_header bp cid sz s = s\<lparr>cid_at := (cid_at s)(bp := cid), size_at := (size_at s)(bp := sz)\<rparr>"

section \<open>The bitmap of pages\<close>

text \<open>Bit \<open>page_no & 7\<close> of byte \<open>page_no >> 3\<close>; an access behind the map is \<open>Wild\<close>.\<close>

definition in_page_map :: "storage \<Rightarrow> nat \<Rightarrow> bool" where
  "in_page_map s page_no = (case page_map s of None \<Rightarrow> False | Some m \<Rightarrow> page_no div 8 < size_at s m)"

fun mark_pages :: "bool \<Rightarrow> nat \<Rightarrow> nat \<Rightarrow> storage \<Rightarrow> storage outcome" where
  "mark_pages b page_no 0 s = Returns s"
| "mark_pages b page_no (Suc n_pages) s =
     (if in_page_map s (page_no + 1)
      then mark_pages b (page_no + 1) n_pages (s\<lparr>map_bits := (map_bits s)(page_no + 1 := b)\<rparr>) else Wild)"

section \<open>Freeing pages\<close>

text \<open>The chain cut behind a block of it.\<close>

definition chain_after :: "nat \<Rightarrow> nat list \<Rightarrow> (nat list \<times> nat list) outcome" where
  "chain_after c chain =
     (if c \<in> set chain then Returns (takeWhile (\<lambda>b. b \<noteq> c) chain @ [c], tl (dropWhile (\<lambda>b. b \<noteq> c) chain)) else Wild)"

definition free_page_place :: "nat \<Rightarrow> storage \<Rightarrow> (nat list \<times> nat list) outcome" where
  "free_page_place fp s =
     outcome_bind
       (case curr_free_page s of
          Some c \<Rightarrow> if c < fp then chain_after c (free_page_chain s) else Returns ([], free_page_chain s)
        | None \<Rightarrow> Returns ([], free_page_chain s))
       (\<lambda>(front, rest). Returns (front @ takeWhile (\<lambda>b. b < fp) rest, dropWhile (\<lambda>b. b < fp) rest))"

definition clear_pages :: "nat \<Rightarrow> nat \<Rightarrow> storage \<Rightarrow> storage outcome" where
  "clear_pages aligned_size fp s =
     (if aligned_size > page_size \<and> cid_at s fp \<noteq> free_object \<and> cid_at s fp \<noteq> page_map_cid
      then (if page_map s = None then Wild
            else mark_pages False (fp div page_size) (aligned_size div page_size - 1) s)
      else Returns s)"

definition join_prev :: "nat list \<Rightarrow> nat \<Rightarrow> storage \<Rightarrow> nat list \<times> nat \<times> storage" where
  "join_prev front fp s =
     (if front \<noteq> [] \<and> last front + size_at s (last front) + sizeof_object_header = fp
      then (front, last front, s\<lparr>size_at := (size_at s)
             (last front := to_unsigned (size_at s (last front) + (size_at s fp + sizeof_object_header)))\<rparr>)
      else (front @ [fp], fp, s))"

definition join_next :: "nat \<Rightarrow> nat list \<Rightarrow> storage \<Rightarrow> nat list \<times> storage" where
  "join_next fp rest s =
     (if rest \<noteq> [] \<and> fp + size_at s fp + sizeof_object_header = hd rest
      then (tl rest, s\<lparr>size_at := (size_at s)
             (fp := to_unsigned (size_at s fp + (size_at s (hd rest) + sizeof_object_header)))\<rparr>)
      else (rest, s))"

definition free_page :: "nat \<Rightarrow> storage \<Rightarrow> storage outcome" where
  "free_page fp s =
     outcome_bind (free_page_place fp s) (\<lambda>(front, rest).
       if rest \<noteq> [] \<and> hd rest = fp then Wild
       else
         (let aligned_size = ALIGN (size_at s fp + sizeof_object_header) page_size;
              s = s\<lparr>size_at := (size_at s)(fp := to_unsigned (aligned_size - sizeof_object_header))\<rparr>
          in outcome_bind (clear_pages aligned_size fp s) (\<lambda>s.
            let s = s\<lparr>cid_at := (cid_at s)(fp := free_object)\<rparr>;
                (front, fp, s) = join_prev front fp s;
                (rest, s) = join_next fp rest s
            in Returns (s\<lparr>free_page_chain := front @ rest, curr_free_page := Some fp\<rparr>))))"

section \<open>Allocating pages\<close>

text \<open>\<open>post_file::set_size\<close>; the call of \<open>ftruncate\<close> succeeds.\<close>

definition set_size :: "nat \<Rightarrow> storage \<Rightarrow> storage outcome" where
  "set_size new_size s =
     (let new_size = ALIGN new_size (allocation_granularity (data_file s))
      in if new_size > mapped_size (data_file s) then Exits
         else Returns (s\<lparr>data_file := (data_file s)\<lparr>file_bytes := new_size\<rparr>\<rparr>))"

text \<open>The first block of a chain that is not too small, with what is front and behind it.\<close>

fun first_fit :: "(nat \<Rightarrow> nat) \<Rightarrow> nat \<Rightarrow> nat list \<Rightarrow> (nat list \<times> nat \<times> nat list) option" where
  "first_fit sizes sz [] = None"
| "first_fit sizes sz (b # rest) =
     (if sizes b < sz then map_option (\<lambda>(front, bp, rest). (b # front, bp, rest)) (first_fit sizes sz rest)
      else Some ([], b, rest))"

text \<open>The search starts behind \<open>curr_free_page\<close> and goes on from the head of the chain up to it.\<close>

definition find_pages :: "nat \<Rightarrow> storage \<Rightarrow> (nat list \<times> nat \<times> nat list) option outcome" where
  "find_pages sz s =
     (if free_page_chain s = [] then Returns None
      else case curr_free_page s of
        None \<Rightarrow> Wild
      | Some c \<Rightarrow>
          outcome_bind (chain_after c (free_page_chain s)) (\<lambda>(upto, rest).
            case first_fit (size_at s) sz rest of
              Some (front, bp, rest) \<Rightarrow> Returns (Some (upto @ front, bp, rest))
            | None \<Rightarrow> Returns (map_option (\<lambda>(front, bp, upto). (front, bp, upto @ rest)) (first_fit (size_at s) sz upto))))"

definition head_of :: "nat list \<Rightarrow> nat option" where
  "head_of chain = (case chain of [] \<Rightarrow> None | b # _ \<Rightarrow> Some b)"

definition take_pages :: "nat \<Rightarrow> nat \<Rightarrow> storage \<Rightarrow> (nat option \<times> storage) outcome" where
  "take_pages sz aligned_size s =
     outcome_bind (find_pages sz s) (\<lambda>found. case found of
        None \<Rightarrow> Returns (None, s)
      | Some (front, bp, rest) \<Rightarrow>
          if size_at s bp > aligned_size
          then let s = s\<lparr>curr_free_page := Some bp, size_at := (size_at s)(bp := size_at s bp - aligned_size)\<rparr>
               in Returns (Some (bp + size_at s bp + sizeof_object_header), s)
          else Returns (Some bp, s\<lparr>free_page_chain := front @ rest,
                 curr_free_page := (if rest \<noteq> [] then head_of rest else head_of (front @ rest))\<rparr>))"

definition extend_file :: "nat \<Rightarrow> storage \<Rightarrow> (nat \<times> storage) outcome" where
  "extend_file aligned_size s =
     outcome_bind (set_size (file_size s + aligned_size) s) (\<lambda>s.
       Returns (file_size s, s\<lparr>file_size := file_size s + aligned_size\<rparr>))"

text \<open>A page cut into blocks: the free ones, in the order in which the loop links them.\<close>

function cut_blocks :: "nat \<Rightarrow> nat \<Rightarrow> nat \<Rightarrow> nat list" where
  "cut_blocks sz cp end_of_page =
     cp # (if 0 < sz \<and> cp + sz < end_of_page then cut_blocks sz (cp + sz) end_of_page else [])"
  by pat_completeness auto
termination by (relation "measure (\<lambda>(sz, cp, end_of_page). end_of_page - cp)") auto

declare cut_blocks.simps [simp del]

definition push_blocks :: "nat list \<Rightarrow> nat \<Rightarrow> storage \<Rightarrow> storage" where
  "push_blocks bps n s = s\<lparr>free_block_chain := (free_block_chain s)[n := bps @ free_block_chain s ! n]\<rparr>"

definition cut_page :: "nat \<Rightarrow> nat \<Rightarrow> storage \<Rightarrow> storage" where
  "cut_page bp sz s =
     (let bsize = block_size_of sz; blocks = cut_blocks bsize (bp + bsize) (bp + page_size - bsize + 1)
      in push_blocks blocks (block_chain_of sz)
           (s\<lparr>cid_at := fold (\<lambda>cp cids. cids(cp := free_object)) blocks (cid_at s)\<rparr>))"

text \<open>The number of bytes a map for the whole file needs, the map included.\<close>

definition map_size_for :: "nat \<Rightarrow> nat" where
  "map_size_for bytes = (bytes + sizeof_object_header + page_size * 8 - 2) div (page_size * 8 - 1)"

definition new_page_map :: "nat \<Rightarrow> nat \<Rightarrow> storage \<Rightarrow> storage" where
  "new_page_map m old_map_size s =
     s\<lparr>page_map := Some m, map_bits := (\<lambda>page_no. page_no div 8 < old_map_size \<and> map_bits s page_no)\<rparr>"

function alloc_page :: "uint32 \<Rightarrow> nat \<Rightarrow> storage \<Rightarrow> (nat \<times> storage) outcome" where
  "alloc_page cid sz s =
     (let aligned_size = ALIGN (sz + sizeof_object_header) page_size
      in outcome_bind (take_pages sz aligned_size s) (\<lambda>(found, s).
         outcome_bind
           (case found of
              Some bp \<Rightarrow> Returns (bp, s)
            | None \<Rightarrow>
                outcome_bind (extend_file aligned_size s) (\<lambda>(bp, s).
                  case page_map s of
                    None \<Rightarrow> Returns (bp, s)
                  | Some m \<Rightarrow>
                      if cid \<noteq> page_map_cid \<and> file_size s > size_at s m * page_size * 8
                      then let old_map_size = size_at s m;
                               new_map_size = ALIGN (map_size_for (file_size s) + sizeof_object_header) page_size * 2
                                 - sizeof_object_header
                           in outcome_bind (alloc_page page_map_cid (to_unsigned new_map_size) s) (\<lambda>(p, s).
                              outcome_bind (free_page m s) (\<lambda>s.
                                Returns (bp, new_page_map (p - sizeof_object_header) old_map_size s)))
                      else Returns (bp, s)))
           (\<lambda>(bp, s).
              let s = set_header bp cid sz s
              in if small sz then Returns (bp + sizeof_object_header, cut_page bp sz s)
                 else if aligned_size > page_size \<and> cid \<noteq> page_map_cid
                 then outcome_bind
                        (case page_map s of
                           Some m \<Rightarrow> Returns s
                         | None \<Rightarrow>
                             let map_size = ALIGN (map_size_for (file_size s) + sizeof_object_header) page_size
                                   * init_page_map_size - sizeof_object_header
                             in outcome_bind (alloc_page page_map_cid (to_unsigned map_size) s) (\<lambda>(p, s).
                                  Returns (new_page_map (p - sizeof_object_header) 0 s)))
                        (\<lambda>s. outcome_bind (mark_pages True (bp div page_size) (aligned_size div page_size - 1) s) (\<lambda>s.
                           Returns (bp + sizeof_object_header, s)))
                 else Returns (bp + sizeof_object_header, s))))"
  by pat_completeness auto
termination
  by (relation "measure (\<lambda>(cid, sz, s). if cid = page_map_cid then 0 else 1)") auto

declare alloc_page.simps [simp del]

section \<open>Objects\<close>

definition allocate_object :: "uint32 \<Rightarrow> nat \<Rightarrow> storage \<Rightarrow> (nat \<times> storage) outcome" where
  "allocate_object cid sz s =
     (if small sz \<and> free_block_chain s ! block_chain_of sz \<noteq> []
      then let n = block_chain_of sz; bp = hd (free_block_chain s ! n)
           in Returns (bp + sizeof_object_header,
                set_header bp cid sz (s\<lparr>free_block_chain := (free_block_chain s)[n := tl (free_block_chain s ! n)]\<rparr>))
      else alloc_page cid sz s)"

definition allocate :: "nat \<Rightarrow> nat \<Rightarrow> storage \<Rightarrow> (nat \<times> storage) outcome" where
  "allocate app_class_id sz s =
     (if app_class_id \<ge> length (app_class_mapping s) \<or> app_class_mapping s ! app_class_id = 0 then Wild
      else allocate_object (app_class_mapping s ! app_class_id) sz s)"

text \<open>\<open>get_header\<close>: the header of the object an address points into.\<close>

fun first_page :: "storage \<Rightarrow> nat \<Rightarrow> nat outcome" where
  "first_page s 0 = Wild"
| "first_page s (Suc page_no) =
     (if \<not> in_page_map s page_no then Wild else if map_bits s page_no then first_page s page_no else Returns page_no)"

definition block_start :: "storage \<Rightarrow> nat \<Rightarrow> nat" where
  "block_start s offs =
     (let hp = offs - offs mod page_size
      in if small (size_at s hp)
         then (let sz = block_size_of (size_at s hp)
               in if sz AND (sz - 1) \<noteq> 0 then offs - (offs mod page_size) mod sz else offs - offs mod sz)
         else hp)"

definition get_header :: "storage \<Rightarrow> nat \<Rightarrow> nat outcome" where
  "get_header s obj =
     (if obj < sizeof_object_header \<or> obj - sizeof_object_header \<ge> file_size s then Wild
      else let offs = obj - sizeof_object_header; page_no = offs div page_size
           in outcome_bind
                (if page_map s = None then Returns (block_start s offs)
                 else if \<not> in_page_map s page_no then Wild
                 else if \<not> map_bits s page_no then Returns (block_start s offs)
                 else outcome_bind (first_page s page_no) (\<lambda>page_no. Returns (page_no * page_size)))
                (\<lambda>hp. if cid_at s hp = free_object then Wild else Returns hp))"

definition free_obj :: "nat \<Rightarrow> storage \<Rightarrow> storage outcome" where
  "free_obj obj s =
     outcome_bind (get_header s obj) (\<lambda>hp.
       if small (size_at s hp)
       then Returns (push_blocks [hp] (block_chain_of (size_at s hp)) (s\<lparr>cid_at := (cid_at s)(hp := free_object)\<rparr>))
       else free_page hp s)"

text \<open>A new storage after \<open>open\<close> has initialised the header page.\<close>

definition new_storage :: "nat \<Rightarrow> nat \<Rightarrow> uint32 list \<Rightarrow> storage" where
  "new_storage limit granularity mapping =
     \<lparr>data_file = \<lparr>file_bytes = ALIGN page_size granularity, mapped_size = limit, allocation_granularity = granularity\<rparr>,
      file_size = page_size, cid_at = (\<lambda>_. 0), size_at = (\<lambda>_. 0), page_map = None, map_bits = (\<lambda>_. False),
      free_page_chain = [], free_block_chain = replicate 13 [], curr_free_page = None, app_class_mapping = mapping\<rparr>"

end
