(* ===== verification/StorageLayout.thy ===== *)
theory StorageLayout
  imports Storage
begin

text \<open>
  The layout of a storage: the file behind the header page is map_covers by units, each a run of pages or a page cut
  into blocks.  \<open>units_ok\<close> ties the headers and the chains of a storage to such a layout; the lemmas follow the
  layout through the elementary steps of the allocator.
\<close>

section \<open>The tables\<close>

definition class_size :: "nat \<Rightarrow> nat" where
  "class_size i = [16, 24, 32, 40, 48, 56, 64, 72, 80, 96, 128, 168, 256] ! i"

lemma class_sizes: "\<forall>i\<in>set [0..<13]. 16 \<le> class_size i \<and> class_size i \<le> 256 \<and> class_size i mod 8 = 0
    \<and> (\<forall>j\<in>set [0..<13]. class_size i = class_size j \<longrightarrow> i = j)"
  by code_simp

lemma class_size_bounds: "i < 13 \<Longrightarrow> 16 \<le> class_size i" "i < 13 \<Longrightarrow> class_size i \<le> 256" "i < 13 \<Longrightarrow> 8 dvd class_size i"
  using class_sizes by auto

lemma tables:
  "\<forall>i\<in>set [0..<32]. block_chain ! i < 13 \<and> class_size (block_chain ! i) = block_size ! i \<and> 8 * (i + 1) \<le> block_size ! i"
  by code_simp

lemma small_index: "small sz \<Longrightarrow> size_index sz < 32 \<and> sz + 8 \<le> 8 * (size_index sz + 1)"
  by (auto simp: small_def size_index_def sizeof_object_header_def page_size_def)

lemma small_class:
  assumes "small sz"
  shows "block_chain_of sz < 13" "block_size_of sz = class_size (block_chain_of sz)" "sz + 8 \<le> class_size (block_chain_of sz)"
proof -
  let ?i = "size_index sz"
  have i: "?i \<in> set [0..<32]" "sz + 8 \<le> 8 * (?i + 1)" using small_index [OF assms] by auto
  note t = bspec [OF tables i(1)]
  show "block_chain_of sz < 13" "block_size_of sz = class_size (block_chain_of sz)"
    using t unfolding block_chain_of_def block_size_of_def by simp_all
  show "sz + 8 \<le> class_size (block_chain_of sz)" using t i(2) unfolding block_chain_of_def by linarith
qed

lemma align_page: "512 dvd ALIGN n 512" "n \<le> ALIGN n 512" "ALIGN n 512 < n + 512"
  by (auto simp: ALIGN_def)

lemma align_pos: "0 < n \<Longrightarrow> 0 < ALIGN n 512" using align_page(2) [of n] by linarith

lemma align_dvd: "512 dvd n \<Longrightarrow> ALIGN n 512 = n" by (auto simp: ALIGN_def elim!: dvdE)

lemma small_align: "small sz \<Longrightarrow> ALIGN (sz + 8) 512 = 512"
  by (auto simp: small_def ALIGN_def sizeof_object_header_def page_size_def)

section \<open>Units\<close>

datatype kind = Held nat | Free nat | Used nat | Cells nat

fun klen :: "kind \<Rightarrow> nat" where
  "klen (Held n) = n" | "klen (Free n) = n" | "klen (Used n) = n" | "klen (Cells i) = 512"

type_synonym layout = "nat \<Rightarrow> kind option"

definition tiles :: "layout \<Rightarrow> nat \<Rightarrow> nat \<Rightarrow> bool" where
  "tiles K lo hi \<longleftrightarrow> 512 dvd hi \<and> lo \<le> hi \<and>
     (\<forall>u k. K u = Some k \<longrightarrow> 512 dvd u \<and> 512 dvd klen k \<and> 0 < klen k \<and> lo \<le> u \<and> u + klen k \<le> hi) \<and>
     (\<forall>u v a b. K u = Some a \<longrightarrow> K v = Some b \<longrightarrow> u < v \<longrightarrow> u + klen a \<le> v) \<and>
     (\<forall>p. lo \<le> p \<longrightarrow> p < hi \<longrightarrow> (\<exists>u k. K u = Some k \<and> u \<le> p \<and> p < u + klen k))"

lemma tilesD:
  assumes "tiles K lo hi"
  shows "512 dvd hi" "lo \<le> hi" "K u = Some a \<Longrightarrow> 512 dvd u" "K u = Some a \<Longrightarrow> 512 dvd klen a" "K u = Some a \<Longrightarrow> 0 < klen a"
    "K u = Some a \<Longrightarrow> lo \<le> u" "K u = Some a \<Longrightarrow> u + klen a \<le> hi"
    "K u = Some a \<Longrightarrow> K v = Some b \<Longrightarrow> u < v \<Longrightarrow> u + klen a \<le> v"
    "lo \<le> p \<Longrightarrow> p < hi \<Longrightarrow> \<exists>u k. K u = Some k \<and> u \<le> p \<and> p < u + klen k"
  using assms unfolding tiles_def by blast+

lemma tiles_unique:
  assumes "tiles K lo hi" "K u = Some a" "K v = Some b" "u \<le> p" "p < u + klen a" "v \<le> p" "p < v + klen b"
  shows "u = v"
  using tilesD(8) [OF assms(1,2,3)] tilesD(8) [OF assms(1,3,2)] assms(4-) by (cases u v rule: linorder_cases) auto

lemma tiles_next:
  assumes "tiles K lo hi" "K u = Some a" "u + klen a < hi"
  shows "\<exists>b. K (u + klen a) = Some b"
proof -
  let ?p = "u + klen a"
  obtain v b where v: "K v = Some b" "v \<le> ?p" "?p < v + klen b"
    using tilesD(9) [OF assms(1), of ?p] tilesD(6) [OF assms(1,2)] assms(3) by auto
  have "v = ?p"
  proof (rule ccontr)
    assume "v \<noteq> ?p"
    then have l: "v < ?p" using v(2) by simp
    have "u \<noteq> v" using v assms(2) by auto
    then show False
      using tilesD(8) [OF assms(1,2) v(1)] tilesD(8) [OF assms(1) v(1) assms(2)] l v(3) tilesD(5) [OF assms(1,2)]
      by (cases u v rule: linorder_cases) auto
  qed
  then show ?thesis using v(1) by auto
qed

lemma tiles_first: "tiles K lo hi \<Longrightarrow> lo < hi \<Longrightarrow> \<exists>a. K lo = Some a"
  using tilesD(6) [of K lo hi] tilesD(9) [of K lo hi lo] by (metis dual_order.refl le_antisym)

lemma tiles_same: "tiles K lo hi \<Longrightarrow> K u = Some a \<Longrightarrow> klen b = klen a \<Longrightarrow> tiles (K(u \<mapsto> b)) lo hi"
  unfolding tiles_def by (smt (verit) fun_upd_apply option.inject)

lemma tiles_extend:
  assumes "tiles K lo hi" "512 dvd klen a" "0 < klen a"
  shows "tiles (K(hi \<mapsto> a)) lo (hi + klen a)"
proof -
  have n: "K hi = None" using tilesD(5,7) [OF assms(1), of hi] by (cases "K hi") fastforce+
  show ?thesis unfolding tiles_def
  proof (intro conjI allI impI)
    fix u k assume "(K(hi \<mapsto> a)) u = Some k"
    then show "512 dvd u" "512 dvd klen k" "0 < klen k" "lo \<le> u" "u + klen k \<le> hi + klen a"
      using tilesD [OF assms(1)] assms(2,3) by (auto split: if_splits intro: trans_le_add1)
  next
    fix u v c b assume "(K(hi \<mapsto> a)) u = Some c" "(K(hi \<mapsto> a)) v = Some b" "u < v"
    then show "u + klen c \<le> v"
      using tilesD(7) [OF assms(1)] tilesD(8) [OF assms(1)] tilesD(5) [OF assms(1)]
      by (auto split: if_splits) (metis add_leE leD less_le_trans)
  next
    fix p assume "lo \<le> p" "p < hi + klen a"
    then show "\<exists>u k. (K(hi \<mapsto> a)) u = Some k \<and> u \<le> p \<and> p < u + klen k"
    proof (cases "p < hi")
      case True
      then obtain u k where u: "K u = Some k" "u \<le> p" "p < u + klen k" using tilesD(9) [OF assms(1) \<open>lo \<le> p\<close>] by blast
      then have "u \<noteq> hi" using True by auto
      then show ?thesis using u by (intro exI [of _ u] exI [of _ k]) simp
    qed (auto intro!: exI [of _ hi])
  qed (use tilesD [OF assms(1)] assms(2) in auto)
qed

lemma tiles_split:
  assumes "tiles K lo hi" "K u = Some a" "klen a = klen b + klen c" "512 dvd klen b" "0 < klen b" "0 < klen c"
  shows "tiles (K(u \<mapsto> b, u + klen b \<mapsto> c)) lo hi"
proof -
  let ?K = "K(u \<mapsto> b, u + klen b \<mapsto> c)"
  note D = tilesD [OF assms(1)]
  have c: "512 dvd klen c" using D(4) [OF assms(2)] assms(3,4) by (metis dvd_add_right_iff)
  have cases: "(x = u \<and> k = b) \<or> (x = u + klen b \<and> k = c) \<or> (x \<noteq> u \<and> x \<noteq> u + klen b \<and> K x = Some k)" if "?K x = Some k" for x k
    using that assms(5) by (auto split: if_splits)
  have other: "x + klen k \<le> u \<or> u + klen a \<le> x" if "K x = Some k" "x \<noteq> u" for x k
    using D(8) [OF that(1) assms(2)] D(8) [OF assms(2) that(1)] that(2) by (cases x u rule: linorder_cases) auto
  show ?thesis unfolding tiles_def
  proof (intro conjI allI impI)
    fix x k assume x: "?K x = Some k"
    show "512 dvd x" "512 dvd klen k" "0 < klen k" "lo \<le> x" "x + klen k \<le> hi"
      using cases [OF x] D(3-7) [OF assms(2)] D(3-7) [of x k] assms c by auto
  next
    fix x y k l assume x: "?K x = Some k" "?K y = Some l" "x < y"
    show "x + klen k \<le> y"
      using cases [OF x(1)] cases [OF x(2)] other [of x k] other [of y l] D(8) [of x k y l] x(3) assms(3) by auto
  next
    fix p assume "lo \<le> p" "p < hi"
    then obtain v k where v: "K v = Some k" "v \<le> p" "p < v + klen k" using D(9) by blast
    show "\<exists>x k. ?K x = Some k \<and> x \<le> p \<and> p < x + klen k"
    proof (cases "v = u")
      case True
      then show ?thesis using v assms(2,3,5)
        by (cases "p < u + klen b") (auto intro: exI [of _ u] exI [of _ "u + klen b"])
    next
      case False
      then have "v \<noteq> u + klen b" using other [OF v(1)] assms(3,5,6) by auto
      then show ?thesis using v False by (intro exI [of _ v] exI [of _ k]) simp
    qed
  qed (use D in auto)
qed

lemma tiles_join:
  assumes "tiles K lo hi" "K u = Some a" "K (u + klen a) = Some b" "klen c = klen a + klen b"
  shows "tiles (K(u \<mapsto> c, u + klen a := None)) lo hi"
proof -
  let ?K = "K(u \<mapsto> c, u + klen a := None)"
  note D = tilesD [OF assms(1)]
  have a: "0 < klen a" by (rule D(5) [OF assms(2)])
  have cases: "(x = u \<and> k = c) \<or> (x \<noteq> u \<and> x \<noteq> u + klen a \<and> K x = Some k)" if "?K x = Some k" for x k
    using that a by (auto split: if_splits)
  have other: "x + klen k \<le> u \<or> u + klen c \<le> x" if "K x = Some k" "x \<noteq> u" "x \<noteq> u + klen a" for x k
    using D(8) [OF that(1) assms(2)] D(8) [OF assms(2) that(1)] D(8) [OF that(1) assms(3)] D(8) [OF assms(3) that(1)] that(2,3) assms(4)
    by (cases x u rule: linorder_cases; cases x "u + klen a" rule: linorder_cases) auto
  show ?thesis unfolding tiles_def
  proof (intro conjI allI impI)
    fix x k assume x: "?K x = Some k"
    show "512 dvd x" "512 dvd klen k" "0 < klen k" "lo \<le> x" "x + klen k \<le> hi"
      using cases [OF x] D(3-7) [OF assms(2)] D(3-7) [OF assms(3)] D(3-7) [of x k] assms(4) by auto
  next
    fix x y k l assume x: "?K x = Some k" "?K y = Some l" "x < y"
    show "x + klen k \<le> y"
      using cases [OF x(1)] cases [OF x(2)] other [of x k] other [of y l] D(8) [of x k y l] x(3) assms(4) by auto
  next
    fix p assume "lo \<le> p" "p < hi"
    then obtain v k where v: "K v = Some k" "v \<le> p" "p < v + klen k" using D(9) by blast
    show "\<exists>x k. ?K x = Some k \<and> x \<le> p \<and> p < x + klen k"
    proof (cases "v = u \<or> v = u + klen a")
      case True
      then show ?thesis using v assms(2-4) a by (intro exI [of _ u] exI [of _ c]) auto
    next
      case False
      then show ?thesis using v by (intro exI [of _ v] exI [of _ k]) simp
    qed
  qed (use D in auto)
qed

section \<open>Storages with a layout\<close>

definition obj_cid :: "uint32 \<Rightarrow> bool" where
  "obj_cid cid \<longleftrightarrow> cid \<noteq> free_object \<and> cid AND gc_marked = 0"

definition cells :: "nat \<Rightarrow> nat \<Rightarrow> nat set" where
  "cells u i = (\<lambda>k. u + k * class_size i) ` {..<512 div class_size i}"

lemma cells_bounds:
  assumes "c \<in> cells u i" "i < 13"
  shows "u \<le> c" "c + class_size i \<le> u + 512" "c < u + 512"
proof -
  obtain k where k: "c = u + k * class_size i" "k < 512 div class_size i" using assms(1) unfolding cells_def by blast
  have "(k + 1) * class_size i \<le> 512 div class_size i * class_size i" using k(2) by (intro mult_right_mono) auto
  also have "\<dots> \<le> 512" by simp
  finally show "u \<le> c" "c + class_size i \<le> u + 512" using k(1) by auto
  then show "c < u + 512" using class_size_bounds(1) [OF assms(2)] by linarith
qed

lemma cells_first: "i < 13 \<Longrightarrow> u \<in> cells u i"
  using class_size_bounds(1,2) [of i] unfolding cells_def by (auto simp: image_iff div_greater_zero_iff intro!: bexI [of _ 0])

lemma cells_apart:
  assumes "c \<in> cells u i" "d \<in> cells u i" "c < d"
  shows "c + class_size i \<le> d"
proof -
  obtain k l where "c = u + k * class_size i" "d = u + l * class_size i" using assms(1,2) unfolding cells_def by blast
  moreover from this have "k < l" using assms(3) by (metis add_less_cancel_left mult_less_cancel2)
  then have "(k + 1) * class_size i \<le> l * class_size i" by (intro mult_right_mono) auto
  ultimately show ?thesis by simp
qed

lemma cells_dvd: "c \<in> cells u i \<Longrightarrow> i < 13 \<Longrightarrow> 512 dvd u \<Longrightarrow> 8 dvd c"
  unfolding cells_def using class_size_bounds(3) [of i] by (auto intro!: dvd_add dvd_mult elim: dvd_trans [rotated])

definition cell_ok :: "storage \<Rightarrow> nat \<Rightarrow> nat \<Rightarrow> bool" where
  "cell_ok s i c \<longleftrightarrow> cid_at s c \<noteq> free_object \<longrightarrow>
     obj_cid (cid_at s c) \<and> cid_at s c \<noteq> page_map_cid \<and> small (size_at s c) \<and> block_chain_of (size_at s c) = i"

fun unit_ok :: "storage \<Rightarrow> nat \<Rightarrow> kind \<Rightarrow> bool" where
  "unit_ok s u (Held n) \<longleftrightarrow> True"
| "unit_ok s u (Free n) \<longleftrightarrow> cid_at s u = free_object \<and> size_at s u + 8 = n"
| "unit_ok s u (Used n) \<longleftrightarrow> obj_cid (cid_at s u) \<and> \<not> small (size_at s u) \<and> n = ALIGN (size_at s u + 8) 512"
| "unit_ok s u (Cells i) \<longleftrightarrow> i < 13 \<and> small (size_at s u) \<and> block_chain_of (size_at s u) = i \<and> (\<forall>c\<in>cells u i. cell_ok s i c)"

lemma unit_ok_cong:
  assumes "\<And>p. u \<le> p \<Longrightarrow> p < u + klen k \<Longrightarrow> cid_at s' p = cid_at s p \<and> size_at s' p = size_at s p" "0 < klen k"
  shows "unit_ok s' u k = unit_ok s u k"
proof (cases k)
  case (Cells i)
  have "cell_ok s' i c = cell_ok s i c" if "c \<in> cells u i" "i < 13" for c
    using assms(1) [of c] cells_bounds [OF that] unfolding Cells cell_ok_def by simp
  then show ?thesis using assms(1) [of u] unfolding Cells by auto
qed (use assms(1) [of u] assms(2) in auto)

definition free_cells :: "storage \<Rightarrow> layout \<Rightarrow> nat \<Rightarrow> nat set" where
  "free_cells s K i = {c. \<exists>u. K u = Some (Cells i) \<and> c \<in> cells u i \<and> cid_at s c = free_object}"

definition free_chain_ok :: "storage \<Rightarrow> layout \<Rightarrow> bool" where
  "free_chain_ok s K \<longleftrightarrow> sorted_wrt (<) (free_page_chain s) \<and> set (free_page_chain s) = {u. \<exists>n. K u = Some (Free n)}
     \<and> (case curr_free_page s of None \<Rightarrow> free_page_chain s = [] | Some c \<Rightarrow> c \<in> set (free_page_chain s))"

definition blocks_ok :: "storage \<Rightarrow> layout \<Rightarrow> bool" where
  "blocks_ok s K \<longleftrightarrow> length (free_block_chain s) = 13
     \<and> (\<forall>i<13. distinct (free_block_chain s ! i) \<and> set (free_block_chain s ! i) = free_cells s K i)"

definition units_ok :: "storage \<Rightarrow> layout \<Rightarrow> bool" where
  "units_ok s K \<longleftrightarrow> tiles K page_size (file_size s) \<and> (\<forall>u k. K u = Some k \<longrightarrow> unit_ok s u k) \<and> free_chain_ok s K \<and> blocks_ok s K"

lemma units_okD:
  assumes "units_ok s K"
  shows "tiles K page_size (file_size s)" "K u = Some k \<Longrightarrow> unit_ok s u k" "free_chain_ok s K" "blocks_ok s K"
  using assms unfolding units_ok_def by blast+

lemma free_unit: "units_ok s K \<Longrightarrow> K u = Some (Free n) \<Longrightarrow> size_at s u + 8 = n \<and> \<not> small (size_at s u) \<and> cid_at s u = free_object"
  using tilesD(4,5) [of K page_size "file_size s" u "Free n"] units_okD [of s K]
  by (fastforce simp: small_def page_size_def sizeof_object_header_def elim!: dvdE)

end
