(* ===== verification/StoragePages.thy ===== *)
theory StoragePages
  imports StorageLayout
begin

text \<open>
  The elementary steps of the allocator on a storage with a layout: taking pages off the free chain, growing the
  file, filling the pages taken, and putting pages back.
\<close>

section \<open>Frames\<close>

fun is_free :: "kind \<Rightarrow> bool" where
  "is_free (Free n) = True" | "is_free (Held n) = False" | "is_free (Used n) = False" | "is_free (Cells i) = False"

fun in_use :: "kind \<Rightarrow> bool" where
  "in_use (Free n) = False" | "in_use (Held n) = False" | "in_use (Used n) = True" | "in_use (Cells i) = True"

lemma in_use_not_free: "in_use k \<Longrightarrow> \<not> is_free k" by (cases k) auto

definition helds :: "layout \<Rightarrow> nat set" where
  "helds K = {u. \<exists>n. K u = Some (Held n)}"

definition same_headers :: "storage \<Rightarrow> storage \<Rightarrow> nat \<Rightarrow> nat \<Rightarrow> bool" where
  "same_headers s s' u n \<longleftrightarrow> (\<forall>p. u \<le> p \<longrightarrow> p < u + n \<longrightarrow> cid_at s' p = cid_at s p \<and> size_at s' p = size_at s p)"

text \<open>Only free pages change hands between the two storages.\<close>

definition keeps :: "storage \<Rightarrow> layout \<Rightarrow> storage \<Rightarrow> layout \<Rightarrow> bool" where
  "keeps s K s' K' \<longleftrightarrow>
     (\<forall>u k. K u = Some k \<longrightarrow> \<not> is_free k \<longrightarrow> K' u = Some k \<and> same_headers s s' u (klen k)) \<and>
     (\<forall>u k. K' u = Some k \<longrightarrow> in_use k \<longrightarrow> K u = Some k) \<and>
     page_map s' = page_map s \<and> map_bits s' = map_bits s \<and> free_block_chain s' = free_block_chain s \<and>
     app_class_mapping s' = app_class_mapping s \<and> mapped_size (data_file s') = mapped_size (data_file s) \<and>
     allocation_granularity (data_file s') = allocation_granularity (data_file s)"

lemma keepsD:
  assumes "keeps s K s' K'"
  shows "K u = Some k \<Longrightarrow> \<not> is_free k \<Longrightarrow> K' u = Some k" "K u = Some k \<Longrightarrow> \<not> is_free k \<Longrightarrow> same_headers s s' u (klen k)"
    "K' u = Some k \<Longrightarrow> in_use k \<Longrightarrow> K u = Some k" "page_map s' = page_map s" "map_bits s' = map_bits s"
    "free_block_chain s' = free_block_chain s" "app_class_mapping s' = app_class_mapping s"
    "mapped_size (data_file s') = mapped_size (data_file s)"
    "allocation_granularity (data_file s') = allocation_granularity (data_file s)"
  using assms unfolding keeps_def by blast+

lemma keeps_refl: "keeps s K s K"
  by (simp add: keeps_def same_headers_def)

lemma keeps_trans:
  assumes "keeps s K t L" "keeps t L r M"
  shows "keeps s K r M"
proof -
  note a = assms [unfolded keeps_def]
  show ?thesis unfolding keeps_def
  proof (intro conjI allI impI)
    fix u k assume u: "K u = Some k" "\<not> is_free k"
    with a(1) have l: "L u = Some k" "same_headers s t u (klen k)" by blast+
    with a(2) u(2) have m: "M u = Some k" "same_headers t r u (klen k)" by blast+
    show "M u = Some k" by (rule m(1))
    show "same_headers s r u (klen k)" using l(2) m(2) by (simp add: same_headers_def)
  next
    fix u k assume "M u = Some k" "in_use k"
    then show "K u = Some k" using a by blast
  qed (simp_all only: a [THEN conjunct2, THEN conjunct2])
qed

lemma unit_keep:
  assumes "units_ok s K" "K u = Some k" "same_headers s s' u (klen k)"
  shows "unit_ok s' u k"
  using unit_ok_cong [of u k s' s] units_okD(2) [OF assms(1,2)] tilesD(5) [OF units_okD(1) [OF assms(1)] assms(2)] assms(3)
  unfolding same_headers_def by blast

lemma unit_apart:
  assumes "units_ok s K" "K u = Some k" "K v = Some l" "u \<noteq> v"
  shows "u + klen k \<le> v \<or> v + klen l \<le> u"
  using tilesD(8) [OF units_okD(1) [OF assms(1)]] assms(2-) by (cases u v rule: linorder_cases) blast+

lemma same_headers_apart:
  assumes "units_ok s K" "K u = Some k" "K v = Some l" "u \<noteq> v"
    and "\<And>p. p < v \<or> v + klen l \<le> p \<Longrightarrow> cid_at s' p = cid_at s p \<and> size_at s' p = size_at s p"
  shows "same_headers s s' u (klen k)"
  using unit_apart [OF assms(1-4)] assms(5) unfolding same_headers_def by (meson leD leI le_trans less_le_trans)

lemma unit_other:
  assumes "units_ok s K" "K v = Some l" "K u = Some k" "u \<noteq> v"
    and "\<And>p. p < v \<or> v + klen l \<le> p \<Longrightarrow> cid_at s' p = cid_at s p \<and> size_at s' p = size_at s p"
  shows "unit_ok s' u k"
  by (rule unit_keep [OF assms(1,3) same_headers_apart [OF assms(1,3,2,4)]]) (rule assms(5))

lemma free_cells_keep:
  assumes "\<And>u i. K' u = Some (Cells i) \<longleftrightarrow> K u = Some (Cells i)"
    and "\<And>u i c. K u = Some (Cells i) \<Longrightarrow> c \<in> cells u i \<Longrightarrow> cid_at s' c = cid_at s c"
  shows "free_cells s' K' i = free_cells s K i"
  using assms unfolding free_cells_def by (metis (no_types, lifting))

lemma blocks_keep:
  assumes "blocks_ok s K" "free_block_chain s' = free_block_chain s" "\<And>i. free_cells s' K' i = free_cells s K i"
  shows "blocks_ok s' K'"
  using assms unfolding blocks_ok_def by simp

lemma chain_keep:
  assumes "free_chain_ok s K" "free_page_chain s' = free_page_chain s" "curr_free_page s' = curr_free_page s"
    and "\<And>u. (\<exists>n. K' u = Some (Free n)) \<longleftrightarrow> (\<exists>n. K u = Some (Free n))"
  shows "free_chain_ok s' K'"
  using assms(1) unfolding free_chain_ok_def assms(2-4) .

lemma chain_unit:
  assumes "free_chain_ok s K" "K v = Some l" "\<not> is_free l" "\<not> is_free l'"
    and "free_page_chain s' = free_page_chain s" "curr_free_page s' = curr_free_page s"
  shows "free_chain_ok s' (K(v \<mapsto> l'))"
  by (rule chain_keep [OF assms(1,5,6)]) (use assms(2-4) in auto)

lemma cells_in_unit: "units_ok s K \<Longrightarrow> K u = Some (Cells i) \<Longrightarrow> c \<in> cells u i \<Longrightarrow> u \<le> c \<and> c < u + 512"
  using cells_bounds [of c u i] units_okD(2) [of s K u "Cells i"] by simp

text \<open>A step that changes one unit which is no page of blocks, before or after.\<close>

lemma one_unit:
  assumes "units_ok s K" "K v = Some l" "\<And>i. l \<noteq> Cells i" "\<And>i. l' \<noteq> Cells i" "klen l' = klen l"
    and "\<And>p. p < v \<or> v + klen l \<le> p \<Longrightarrow> cid_at s' p = cid_at s p \<and> size_at s' p = size_at s p"
    and "file_size s' = file_size s" "free_block_chain s' = free_block_chain s"
    and "unit_ok s' v l'" "free_chain_ok s' (K(v \<mapsto> l'))"
  shows "units_ok s' (K(v \<mapsto> l'))"
  unfolding units_ok_def
proof (intro conjI allI impI)
  show "tiles (K(v \<mapsto> l')) page_size (file_size s')"
    using tiles_same [OF units_okD(1) [OF assms(1)] assms(2,5)] assms(7) by simp
  show "unit_ok s' u k" if "(K(v \<mapsto> l')) u = Some k" for u k
    using that assms(9) unit_other [where s' = s', OF assms(1,2) _ _ assms(6)] by (auto split: if_splits)
  show "blocks_ok s' (K(v \<mapsto> l'))"
  proof (rule blocks_keep [OF units_okD(4) [OF assms(1)] assms(8)], rule free_cells_keep)
    show "(K(v \<mapsto> l')) u = Some (Cells i) \<longleftrightarrow> K u = Some (Cells i)" for u i
      using assms(2) assms(3) [of i] assms(4) [of i] by auto
    show "cid_at s' c = cid_at s c" if "K u = Some (Cells i)" "c \<in> cells u i" for u i c
    proof -
      have "u \<noteq> v" using that assms(2,3) by auto
      from same_headers_apart [OF assms(1) that(1) assms(2) this assms(6)] show ?thesis
        using cells_in_unit [OF assms(1) that] unfolding same_headers_def by auto
    qed
  qed
qed (rule assms(10))

section \<open>Searching the free chain\<close>

lemma first_fit_Some: "first_fit sizes sz xs = Some (a, b, c) \<Longrightarrow> xs = a @ b # c \<and> sz \<le> sizes b"
  by (induction xs arbitrary: a) (auto split: if_splits)

lemma chain_after_Returns:
  assumes "c \<in> set chain"
  shows "\<exists>upto rest. chain_after c chain = Returns (upto @ [c], rest) \<and> chain = upto @ c # rest"
proof -
  obtain y where "dropWhile (\<lambda>b. b \<noteq> c) chain = c # y"
    using assms hd_dropWhile [of "\<lambda>b. b \<noteq> c" chain] by (cases "dropWhile (\<lambda>b. b \<noteq> c) chain") (auto simp: dropWhile_eq_Nil_conv)
  then show ?thesis using assms takeWhile_dropWhile_id [of "\<lambda>b. b \<noteq> c" chain] by (simp add: chain_after_def)
qed

lemma find_pages_ok:
  assumes "free_chain_ok s K"
  obtains "find_pages sz s = Returns None"
  | front bp rest where "find_pages sz s = Returns (Some (front, bp, rest))" "free_page_chain s = front @ bp # rest" "sz \<le> size_at s bp"
proof (cases "free_page_chain s = []")
  case False
  then obtain c where c: "curr_free_page s = Some c" "c \<in> set (free_page_chain s)"
    using assms by (auto simp: free_chain_ok_def split: option.splits)
  from chain_after_Returns [OF c(2)] obtain upto rest where a: "chain_after c (free_page_chain s) = Returns (upto @ [c], rest)"
    "free_page_chain s = (upto @ [c]) @ rest" by auto
  have f: "find_pages sz s = (case first_fit (size_at s) sz rest of
      Some (front, bp, rest) \<Rightarrow> Returns (Some ((upto @ [c]) @ front, bp, rest))
    | None \<Rightarrow> Returns (map_option (\<lambda>(front, bp, upto). (front, bp, upto @ rest)) (first_fit (size_at s) sz (upto @ [c]))))"
    by (simp add: find_pages_def False c(1) a(1))
  show ?thesis
  proof (cases "first_fit (size_at s) sz rest")
    case (Some r)
    obtain x bp y where r: "r = (x, bp, y)" by (cases r)
    note w = first_fit_Some [OF Some [unfolded r]]
    have "find_pages sz s = Returns (Some ((upto @ [c]) @ x, bp, y))" unfolding f Some r by simp
    then show ?thesis by (rule that(2)) (use w a(2) in simp_all)
  next
    case None
    note n = None
    show ?thesis
    proof (cases "first_fit (size_at s) sz (upto @ [c])")
      case (Some r)
      obtain x bp y where r: "r = (x, bp, y)" by (cases r)
      note w = first_fit_Some [OF Some [unfolded r]]
      have "find_pages sz s = Returns (Some (x, bp, y @ rest))" unfolding f n Some r by simp
      then show ?thesis by (rule that(2)) (use w a(2) in simp_all)
    qed (intro that(1), simp add: f n)
  qed
qed (intro that(1), simp add: find_pages_def)

section \<open>Taking pages\<close>

lemma chain_member:
  assumes "units_ok s K" "b \<in> set (free_page_chain s)"
  obtains n where "K b = Some (Free n)" "size_at s b + 8 = n" "512 dvd n" "0 < n"
proof -
  obtain n where n: "K b = Some (Free n)" using units_okD(3) [OF assms(1)] assms(2) by (auto simp: free_chain_ok_def)
  show ?thesis using that [OF n] free_unit [OF assms(1) n] tilesD(4,5) [OF units_okD(1) [OF assms(1)] n] by simp
qed

lemma hold_pages:
  assumes "units_ok s K" "free_page_chain s = front @ bp # rest" "K bp = Some (Free n)"
    and s': "s' = s\<lparr>free_page_chain := front @ rest, curr_free_page := (if rest \<noteq> [] then head_of rest else head_of (front @ rest))\<rparr>"
  shows "units_ok s' (K(bp \<mapsto> Held n))" "keeps s K s' (K(bp \<mapsto> Held n))"
proof -
  note c = units_okD(3) [OF assms(1), unfolded free_chain_ok_def assms(2)]
  have "set (front @ rest) = {u. \<exists>n. (K(bp \<mapsto> Held n)) u = Some (Free n)}"
  proof -
    have "distinct (front @ bp # rest)" using c strict_sorted_iff by blast
    then have "set (front @ rest) = set (front @ bp # rest) - {bp}" by auto
    also have "\<dots> = {u. \<exists>n. (K(bp \<mapsto> Held n)) u = Some (Free n)}" using c by auto
    finally show ?thesis .
  qed
  then have "free_chain_ok s' (K(bp \<mapsto> Held n))"
    using c unfolding free_chain_ok_def s' by (auto simp: sorted_wrt_append head_of_def split: list.splits option.splits)
  then show "units_ok s' (K(bp \<mapsto> Held n))"
    by (intro one_unit [OF assms(1,3)]) (simp_all add: s')
  show "keeps s K s' (K(bp \<mapsto> Held n))" using assms(3) by (auto simp: keeps_def same_headers_def s')
qed

lemma split_pages:
  assumes "units_ok s K" "K bp = Some (Free n)" "al < size_at s bp" "512 dvd al" "0 < al"
    and s': "s' = s\<lparr>curr_free_page := Some bp, size_at := (size_at s)(bp := size_at s bp - al)\<rparr>"
    and K': "K' = K(bp \<mapsto> Free (n - al), bp + (n - al) \<mapsto> Held al)"
  shows "units_ok s' K'" "keeps s K s' K'" "bp + size_at s' bp + 8 = bp + (n - al)" "K (bp + (n - al)) = None"
proof -
  have n: "size_at s bp + 8 = n" "cid_at s bp = free_object" using free_unit [OF assms(1,2)] by simp_all
  then have l: "n = (n - al) + al" "0 < n - al" using assms(3) by auto
  have "512 dvd n" using tilesD(4) [OF units_okD(1) [OF assms(1)] assms(2)] by simp
  then have d: "512 dvd n - al" using assms(4) by (simp add: dvd_diff_nat)
  note c = units_okD(3) [OF assms(1), unfolded free_chain_ok_def]
  have new: "K (bp + (n - al)) = None"
  proof (cases "K (bp + (n - al))")
    case (Some k)
    define q where "q = bp + (n - al)"
    have "bp < q" "q < bp + n" using l(2) assms(5) unfolding q_def by linarith+
    then show ?thesis using unit_apart [OF assms(1,2) Some [folded q_def]] by auto
  qed
  have head: "\<And>p. p < bp \<or> bp + n \<le> p \<Longrightarrow> cid_at s' p = cid_at s p \<and> size_at s' p = size_at s p" using l by (auto simp: s')
  have other: "u \<noteq> bp \<and> u \<noteq> bp + (n - al) \<and> K u = Some k \<or> u = bp \<and> k = Free (n - al) \<or> u = bp + (n - al) \<and> k = Held al"
    if "K' u = Some k" for u k using that l by (auto simp: K' split: if_splits)
  have keep: "K' u = Some k \<and> same_headers s s' u (klen k)" if "K u = Some k" "u \<noteq> bp" for u k
  proof -
    have "u \<noteq> bp + (n - al)" using new that by auto
    then show ?thesis using that same_headers_apart [OF assms(1) that(1) assms(2) that(2)] head by (simp add: K')
  qed
  show "units_ok s' K'" unfolding units_ok_def
  proof (intro conjI allI impI)
    have "tiles (K(bp \<mapsto> Free (n - al), bp + klen (Free (n - al)) \<mapsto> Held al)) page_size (file_size s)"
      by (rule tiles_split [OF units_okD(1) [OF assms(1)] assms(2)]) (use l d assms(5) in auto)
    then show "tiles K' page_size (file_size s')" by (simp add: K' s')
    show "unit_ok s' u k" if "K' u = Some k" for u k
      using other [OF that] keep [of u k] unit_keep [OF assms(1), of u k s'] n l assms(3) by (auto simp: s')
    have "{u. \<exists>n. K' u = Some (Free n)} = {u. \<exists>n. K u = Some (Free n)}" using new assms(2) l by (auto simp: K')
    then show "free_chain_ok s' K'" using c assms(2) unfolding free_chain_ok_def by (auto simp: s')
    show "blocks_ok s' K'"
      by (rule blocks_keep [OF units_okD(4) [OF assms(1)]], simp add: s', rule free_cells_keep)
        (use new assms(2) in \<open>auto simp: K' s'\<close>)
  qed
  show "keeps s K s' K'" unfolding keeps_def
  proof (intro conjI allI impI)
    fix u k assume "K u = Some k" "\<not> is_free k"
    moreover from this have "u \<noteq> bp" using assms(2) by auto
    ultimately show "K' u = Some k" "same_headers s s' u (klen k)" using keep [of u k] by blast+
  next
    fix u k assume "K' u = Some k" "in_use k"
    then show "K u = Some k" using other [of u k] by auto
  qed (simp_all add: s')
  show "bp + size_at s' bp + 8 = bp + (n - al)" using n assms(3) by (simp add: s')
  show "K (bp + (n - al)) = None" by (rule new)
qed

lemma take_pages_ok:
  assumes "units_ok s K" "al = ALIGN (sz + 8) 512"
  obtains "take_pages sz al s = Returns (None, s)"
  | bp s' K' where "take_pages sz al s = Returns (Some bp, s')" "units_ok s' K'" "K' bp = Some (Held al)"
    "keeps s K s' K'" "file_size s' = file_size s" "cid_at s' = cid_at s" "data_file s' = data_file s"
    "K bp = None \<or> (\<exists>n. K bp = Some (Free n))" "helds K' \<subseteq> insert bp (helds K)"
proof -
  have al: "512 dvd al" "0 < al" using align_page [of "sz + 8"] assms(2) by (auto intro: gr0I)
  from units_okD(3) [OF assms(1)] show ?thesis
  proof (cases rule: find_pages_ok [of s K sz])
    case 1
    then show ?thesis by (intro that(1)) (simp add: take_pages_def)
  next
    case (2 front bp rest)
    then obtain n where n: "K bp = Some (Free n)" "size_at s bp + 8 = n" "512 dvd n" "0 < n"
      using chain_member [OF assms(1), of bp] by auto
    show ?thesis
    proof (cases "al < size_at s bp")
      case True
      note sp = split_pages [OF assms(1) n(1) True al refl refl]
      show ?thesis
        by (rule that(2) [OF _ sp(1) _ sp(2), of "bp + (n - al)"])
          (use sp(3,4) True n in \<open>auto simp: take_pages_def 2 Let_def sizeof_object_header_def helds_def\<close>)
    next
      case False
      have "n = al"
      proof -
        have "al \<le> n" using 2(3) n(2,3) assms(2) align_page(3) [of "sz + 8"]
          by (metis add_le_cancel_right align_dvd ALIGN_def add_le_mono1 diff_le_mono div_le_mono mult_le_mono1)
        moreover have "n < al + 512" using False n(2) al by (auto elim!: dvdE)
        ultimately show ?thesis using al(1) n(3) by (auto elim!: dvdE)
      qed
      note h = hold_pages [OF assms(1) 2(2) n(1) refl]
      show ?thesis
        by (rule that(2) [OF _ h(1) _ h(2), of bp]) (use False \<open>n = al\<close> n in \<open>auto simp: take_pages_def 2 helds_def\<close>)
    qed
  qed
qed

end
