(* ===== verification/StorageFree.thy ===== *)
theory StorageFree
  imports StoragePages
begin

text \<open>
  Growing the file, filling held pages with an object or with blocks, and returning pages to the free chain with
  the joining of neighbours.
\<close>

section \<open>Growing the file\<close>

lemma extend_pages:
  assumes "units_ok s K" "512 dvd al" "0 < al" "s' = s\<lparr>data_file := f, file_size := file_size s + al\<rparr>"
    and "mapped_size f = mapped_size (data_file s)" "allocation_granularity f = allocation_granularity (data_file s)"
  shows "units_ok s' (K(file_size s \<mapsto> Held al))" "keeps s K s' (K(file_size s \<mapsto> Held al))"
proof -
  let ?K = "K(file_size s \<mapsto> Held al)"
  note t = units_okD(1) [OF assms(1)]
  have n: "K (file_size s) = None" using tilesD(5,7) [OF t, of "file_size s"] by (cases "K (file_size s)") fastforce+
  have h: "same_headers s s' u k" for u k by (simp add: same_headers_def assms(4))
  show "units_ok s' ?K" unfolding units_ok_def
  proof (intro conjI allI impI)
    show "tiles ?K page_size (file_size s')" using tiles_extend [OF t, of "Held al"] assms(2-4) by simp
    show "unit_ok s' u k" if "?K u = Some k" for u k using that unit_keep [OF assms(1) _ h] by (auto split: if_splits)
    show "free_chain_ok s' ?K" by (rule chain_keep [OF units_okD(3) [OF assms(1)]]) (use n in \<open>auto simp: assms(4)\<close>)
    show "blocks_ok s' ?K"
      by (rule blocks_keep [OF units_okD(4) [OF assms(1)]], simp add: assms(4), rule free_cells_keep) (use n in \<open>auto simp: assms(4)\<close>)
  qed
  show "keeps s K s' ?K" using n assms(5,6) h by (auto simp: keeps_def assms(4))
qed

section \<open>Filling pages\<close>

lemma fill_used:
  assumes "units_ok s K" "K bp = Some (Held n)" "n = ALIGN (sz + 8) 512" "\<not> small sz" "obj_cid cid"
  shows "units_ok (set_header bp cid sz s) (K(bp \<mapsto> Used n))"
proof (rule one_unit [OF assms(1,2)])
  have "0 < n" using tilesD(5) [OF units_okD(1) [OF assms(1)] assms(2)] by simp
  then show "cid_at (set_header bp cid sz s) p = cid_at s p \<and> size_at (set_header bp cid sz s) p = size_at s p"
    if "p < bp \<or> bp + klen (Held n) \<le> p" for p using that by (auto simp: set_header_def)
  show "free_chain_ok (set_header bp cid sz s) (K(bp \<mapsto> Used n))"
    by (rule chain_keep [OF units_okD(3) [OF assms(1)]]) (use assms(2) in \<open>auto simp: set_header_def\<close>)
qed (use assms(3-) in \<open>simp_all add: set_header_def\<close>)

lemma cut_blocks_set: "0 < sz \<Longrightarrow> set (cut_blocks sz cp e) = insert cp {cp + k * sz |k. cp + k * sz < e}"
proof (induction sz cp e rule: cut_blocks.induct)
  case (1 sz cp e)
  show ?case
  proof (cases "cp + sz < e")
    case True
    have "insert (cp + sz) {cp + sz + k * sz |k. cp + sz + k * sz < e} = {cp + k * sz |k. 0 < k \<and> cp + k * sz < e}"
    proof (intro set_eqI iffI)
      fix x assume "x \<in> insert (cp + sz) {cp + sz + k * sz |k. cp + sz + k * sz < e}"
      then consider "x = cp + 1 * sz" | k where "x = cp + (k + 1) * sz" "x < e" by (auto simp: algebra_simps)
      then show "x \<in> {cp + k * sz |k. 0 < k \<and> cp + k * sz < e}"
      proof cases
        case 1
        then show ?thesis using True by (intro CollectI exI [of _ 1]) simp
      next
        case (2 k)
        then show ?thesis by (intro CollectI exI [of _ "k + 1"]) simp
      qed
    next
      fix x assume "x \<in> {cp + k * sz |k. 0 < k \<and> cp + k * sz < e}"
      then obtain k where k: "x = cp + k * sz" "0 < k" "x < e" by blast
      then obtain l where "k = l + 1" by (metis Suc_eq_plus1 gr0_implies_Suc)
      then show "x \<in> insert (cp + sz) {cp + sz + k * sz |k. cp + sz + k * sz < e}" using k by (auto simp: algebra_simps)
    qed
    moreover have "insert cp {cp + k * sz |k. 0 < k \<and> cp + k * sz < e} = insert cp {cp + k * sz |k. cp + k * sz < e}"
      by auto
    ultimately show ?thesis using 1 True by (subst cut_blocks.simps) simp
  next
    case False
    then have "k = 0" if "cp + k * sz < e" for k using that by (cases k) auto
    then show ?thesis using False by (subst cut_blocks.simps) auto
  qed
qed

lemma cut_blocks_distinct: "0 < sz \<Longrightarrow> distinct (cut_blocks sz cp e) \<and> (\<forall>x\<in>set (cut_blocks sz cp e). cp \<le> x)"
proof (induction sz cp e rule: cut_blocks.induct)
  case (1 sz cp e)
  show ?case using 1 by (subst (1 2) cut_blocks.simps) fastforce
qed

lemma cut_blocks_cells:
  assumes "i < 13" "cs = class_size i"
  shows "set (cut_blocks cs u (u + 512 - cs + 1)) = cells u i"
    "set (cut_blocks cs (u + cs) (u + 512 - cs + 1)) = cells u i - {u}" "distinct (cut_blocks cs p q)"
proof -
  have cs: "0 < cs" "16 \<le> cs" "cs \<le> 256" using class_size_bounds [OF assms(1)] assms(2) by auto
  have iff: "u + k * cs < u + 512 - cs + 1 \<longleftrightarrow> k < 512 div cs" for k
  proof -
    have "u + k * cs < u + 512 - cs + 1 \<longleftrightarrow> (k + 1) * cs \<le> 512" using cs(3) by (auto simp: algebra_simps)
    also have "\<dots> \<longleftrightarrow> k + 1 \<le> 512 div cs" using cs(1) by (rule less_eq_div_iff_mult_less_eq [symmetric])
    finally show ?thesis by auto
  qed
  have two: "2 \<le> 512 div cs" using cs by (simp add: less_eq_div_iff_mult_less_eq)
  have "cells u i = {u + k * cs |k. k < 512 div cs}" unfolding cells_def assms(2) by auto
  then have c: "cells u i = {u + k * cs |k. u + k * cs < u + 512 - cs + 1}" unfolding iff .
  have "u \<in> cells u i" by (rule cells_first [OF assms(1)])
  then show "set (cut_blocks cs u (u + 512 - cs + 1)) = cells u i" unfolding cut_blocks_set [OF cs(1)] c by auto
  have e: "u + cs + k * cs = u + (k + 1) * cs" for k by simp
  have "u + cs \<in> {u + (k + 1) * cs |k. k + 1 < 512 div cs}" using two by (intro CollectI exI [of _ 0]) simp
  then have "set (cut_blocks cs (u + cs) (u + 512 - cs + 1)) = {u + (k + 1) * cs |k. k + 1 < 512 div cs}"
    unfolding cut_blocks_set [OF cs(1)] e iff by (rule insert_absorb)
  also have "\<dots> = cells u i - {u}"
  proof (intro set_eqI iffI)
    fix x assume "x \<in> {u + (k + 1) * cs |k. k + 1 < 512 div cs}"
    then obtain k where k: "x = u + (k + 1) * cs" "k + 1 < 512 div cs" by blast
    then have "x \<in> cells u i" unfolding cells_def assms(2) by blast
    then show "x \<in> cells u i - {u}" using k(1) cs(1) by simp
  next
    fix x assume "x \<in> cells u i - {u}"
    then obtain k where k: "x = u + k * cs" "k < 512 div cs" "k \<noteq> 0" unfolding cells_def assms(2) by auto
    then obtain l where "k = l + 1" by (metis Suc_eq_plus1 not0_implies_Suc)
    then show "x \<in> {u + (k + 1) * cs |k. k + 1 < 512 div cs}" using k by auto
  qed
  finally show "set (cut_blocks cs (u + cs) (u + 512 - cs + 1)) = cells u i - {u}" .
  show "distinct (cut_blocks cs p q)" using cut_blocks_distinct [OF cs(1)] by blast
qed

lemma fold_cids: "fold (\<lambda>cp cids. cids(cp := c)) blocks f = (\<lambda>p. if p \<in> set blocks then c else f p)"
  by (induction blocks arbitrary: f) (auto simp: fun_eq_iff)

lemma cells_placed:
  assumes "units_ok s K" "K bp = Some (Held 512)" "i < 13"
    and far: "\<And>p. p < bp \<or> bp + klen (Held 512) \<le> p \<Longrightarrow> cid_at s' p = cid_at s p \<and> size_at s' p = size_at s p"
    and "unit_ok s' bp (Cells i)"
    and s': "file_size s' = file_size s" "free_page_chain s' = free_page_chain s" "curr_free_page s' = curr_free_page s"
      "free_block_chain s' = (free_block_chain s)[i := blocks @ free_block_chain s ! i]"
    and "distinct blocks" "set blocks = {c \<in> cells bp i. cid_at s' c = free_object}"
  shows "units_ok s' (K(bp \<mapsto> Cells i))"
proof -
  let ?K = "K(bp \<mapsto> Cells i)"
  have free: "free_cells s' ?K j = (if j = i then set blocks else {}) \<union> free_cells s K j" for j
  proof -
    have "cid_at s' c = cid_at s c" if "K u = Some (Cells l)" "c \<in> cells u l" for u l c
    proof -
      have "u \<noteq> bp" using that assms(2) by auto
      from same_headers_apart [OF assms(1) that(1) assms(2) this far] show ?thesis
        using cells_in_unit [OF assms(1) that] by (auto simp: same_headers_def)
    qed
    then have "free_cells s K j = {c. \<exists>u. u \<noteq> bp \<and> K u = Some (Cells j) \<and> c \<in> cells u j \<and> cid_at s' c = free_object}"
      unfolding free_cells_def using assms(2) by (auto intro: exI) (metis kind.distinct(5) option.inject)
    then show ?thesis unfolding free_cells_def assms(11) by auto
  qed
  show ?thesis unfolding units_ok_def
  proof (intro conjI allI impI)
    show "tiles ?K page_size (file_size s')" using tiles_same [OF units_okD(1) [OF assms(1)] assms(2), of "Cells i"] by (simp add: s')
    show "unit_ok s' u k" if "?K u = Some k" for u k
    proof (cases "u = bp")
      case True
      then show ?thesis using that assms(5) by simp
    next
      case False
      then show ?thesis using that unit_other [where s' = s', OF assms(1,2) _ _ far, of u k] by auto
    qed
    show "free_chain_ok s' ?K" by (rule chain_keep [OF units_okD(3) [OF assms(1)]]) (use assms(2) in \<open>auto simp: s'\<close>)
    note B = units_okD(4) [OF assms(1), unfolded blocks_ok_def]
    have "set blocks \<inter> free_cells s K i = {}"
    proof (rule equals0I)
      fix c assume "c \<in> set blocks \<inter> free_cells s K i"
      then obtain u where c: "c \<in> cells bp i" "K u = Some (Cells i)" "c \<in> cells u i" unfolding free_cells_def assms(11) by blast
      have "u \<noteq> bp" using c(2) assms(2) by auto
      then show False
        using unit_apart [OF assms(1) c(2) assms(2)] cells_in_unit [OF assms(1) c(2,3)] cells_bounds(1,3) [OF c(1) assms(3)] by auto
    qed
    then show "blocks_ok s' ?K"
      using B assms(3,10) unfolding blocks_ok_def free by (auto simp: s' nth_list_update)
  qed
qed

lemma cut_page_ok:
  assumes "units_ok s K" "K bp = Some (Held 512)" "small sz" "obj_cid cid" "cid \<noteq> page_map_cid"
    and "s' = cut_page bp sz (set_header bp cid sz s)" and "i = block_chain_of sz"
  shows "units_ok s' (K(bp \<mapsto> Cells i))"
    and "c \<in> cells bp i \<Longrightarrow> cid_at s' c = (if c = bp then cid else free_object)"
    and "p \<notin> cells bp i \<Longrightarrow> cid_at s' p = cid_at s p" "size_at s' = (size_at s)(bp := sz)"
proof -
  let ?K = "K(bp \<mapsto> Cells i)"
  note i = small_class [OF assms(3), folded assms(7)]
  define blocks where "blocks = cut_blocks (class_size i) (bp + class_size i) (bp + 512 - class_size i + 1)"
  have b: "set blocks = cells bp i - {bp}" "distinct blocks"
    unfolding blocks_def using cut_blocks_cells(2,3) [OF i(1) refl] by blast+
  have s': "cid_at s' = (\<lambda>p. if p \<in> set blocks then free_object else ((cid_at s)(bp := cid)) p)"
    "size_at s' = (size_at s)(bp := sz)" "file_size s' = file_size s" "free_page_chain s' = free_page_chain s"
    "curr_free_page s' = curr_free_page s"
    "free_block_chain s' = (free_block_chain s)[i := blocks @ free_block_chain s ! i]"
    unfolding assms(6) cut_page_def push_blocks_def set_header_def i(2) assms(7) [symmetric] Let_def page_size_def
    by (simp_all add: blocks_def fold_cids)
  note first = cells_first [OF i(1), of bp]
  show cell: "cid_at s' c = (if c = bp then cid else free_object)" if "c \<in> cells bp i" for c
    using that b(1) by (auto simp: s'(1))
  show outside: "cid_at s' p = cid_at s p" if "p \<notin> cells bp i" for p using that b(1) first by (auto simp: s'(1))
  show "size_at s' = (size_at s)(bp := sz)" by (rule s'(2))
  have far: "cid_at s' p = cid_at s p \<and> size_at s' p = size_at s p" if "p < bp \<or> bp + klen (Held 512) \<le> p" for p
  proof -
    have "p \<notin> cells bp i" using cells_bounds(1,3) [of p bp i] that i(1) by auto
    then show ?thesis using outside that by (auto simp: s'(2))
  qed
  have "cell_ok s' i c" if "c \<in> cells bp i" for c
    using cell [OF that] assms(3-5,7) by (auto simp: cell_ok_def s'(2))
  then have ok: "unit_ok s' bp (Cells i)" using i(1) assms(3,7) by (simp add: s'(2))
  have "set blocks = {c \<in> cells bp i. cid_at s' c = free_object}" using cell b(1) assms(4) by (auto simp: obj_cid_def)
  from cells_placed [OF assms(1,2) i(1) _ ok s'(3-6) b(2) this] far show "units_ok s' ?K" by blast
qed

section \<open>Returning pages\<close>

lemma free_page_place_ok:
  assumes "free_chain_ok s K"
  shows "free_page_place fp s = Returns (takeWhile (\<lambda>b. b < fp) (free_page_chain s), dropWhile (\<lambda>b. b < fp) (free_page_chain s))"
proof (cases "\<exists>c. curr_free_page s = Some c \<and> c < fp")
  case True
  then obtain c where c: "curr_free_page s = Some c" "c < fp" by blast
  then have "c \<in> set (free_page_chain s)" using assms unfolding free_chain_ok_def c(1) option.case by blast
  from chain_after_Returns [OF this] obtain upto rest where a: "chain_after c (free_page_chain s) = Returns (upto @ [c], rest)"
    "free_page_chain s = upto @ c # rest" by blast
  have "\<forall>b\<in>set (upto @ [c]). b < fp" using assms c(2) a(2) by (auto simp: free_chain_ok_def sorted_wrt_append)
  then have "takeWhile (\<lambda>b. b < fp) ((upto @ [c]) @ rest) = (upto @ [c]) @ takeWhile (\<lambda>b. b < fp) rest"
    "dropWhile (\<lambda>b. b < fp) ((upto @ [c]) @ rest) = dropWhile (\<lambda>b. b < fp) rest"
    by (simp_all only: takeWhile_append2 dropWhile_append2)
  then show ?thesis using a(1) c by (simp add: free_page_place_def a(2))
qed (auto simp: free_page_place_def split: option.splits)

lemma free_page_parts:
  assumes "free_chain_ok s K" "K fp = Some (Held n)"
  obtains front rest where "free_page_place fp s = Returns (front, rest)" "free_page_chain s = front @ rest"
    "\<forall>b\<in>set front. b < fp" "\<forall>b\<in>set rest. fp < b"
proof
  let ?P = "\<lambda>b. b < fp" and ?c = "free_page_chain s"
  show "free_page_place fp s = Returns (takeWhile ?P ?c, dropWhile ?P ?c)" by (rule free_page_place_ok [OF assms(1)])
  show "?c = takeWhile ?P ?c @ dropWhile ?P ?c" by simp
  show "\<forall>b\<in>set (takeWhile ?P ?c). b < fp" by (meson set_takeWhileD)
  have f: "fp \<notin> set ?c" using assms by (auto simp: free_chain_ok_def)
  have "sorted_wrt (<) (dropWhile ?P ?c)" using assms(1) by (simp add: free_chain_ok_def sorted_wrt_dropWhile)
  then show "\<forall>b\<in>set (dropWhile ?P ?c). fp < b"
  proof (cases "dropWhile ?P ?c")
    case (Cons x xs)
    have "x \<in> set ?c" using set_dropWhileD [of x ?P ?c] Cons by simp
    moreover have "\<not> x < fp" using hd_dropWhile [of ?P ?c] Cons by simp
    ultimately have "fp < x" using f by (cases "x = fp") auto
    then show ?thesis using \<open>sorted_wrt (<) (dropWhile ?P ?c)\<close> Cons by auto
  next
    case Nil
    then show ?thesis unfolding Nil by simp
  qed
qed

text \<open>The held pages enter the chain.\<close>

lemma put_pages:
  assumes "units_ok s K" "K fp = Some (Held n)" "free_page_chain s = front @ rest" "\<forall>b\<in>set front. b < fp" "\<forall>b\<in>set rest. fp < b"
    and "s' = s\<lparr>size_at := (size_at s)(fp := n - 8), map_bits := b, cid_at := (cid_at s)(fp := free_object),
      free_page_chain := front @ fp # rest, curr_free_page := Some fp\<rparr>"
  shows "units_ok s' (K(fp \<mapsto> Free n))"
proof (rule one_unit [OF assms(1,2)])
  have n: "512 dvd n" "0 < n" using tilesD(4,5) [OF units_okD(1) [OF assms(1)] assms(2)] by simp_all
  then show "cid_at s' p = cid_at s p \<and> size_at s' p = size_at s p" if "p < fp \<or> fp + klen (Held n) \<le> p" for p
    using that by (auto simp: assms(6))
  show "unit_ok s' fp (Free n)" using n by (auto simp: assms(6) elim!: dvdE)
  have "set (front @ rest) = {u. \<exists>n. K u = Some (Free n)}" "sorted_wrt (<) (front @ rest)"
    using units_okD(3) [OF assms(1)] assms(3) by (auto simp: free_chain_ok_def)
  then show "free_chain_ok s' (K(fp \<mapsto> Free n))"
    using assms(4,5) by (auto simp: free_chain_ok_def assms(6) sorted_wrt_append)
qed (simp_all add: assms(6))

text \<open>Neighbours in the chain that touch are joined.\<close>

lemma join_pages:
  assumes "units_ok s K" "free_page_chain s = front @ a # b # rest" "K a = Some (Free n)" "K b = Some (Free m)" "a + n = b"
    and s': "s' = s\<lparr>size_at := (size_at s)(a := n + m - 8), free_page_chain := front @ a # rest, curr_free_page := Some a\<rparr>"
  shows "units_ok s' (K(a \<mapsto> Free (n + m), b := None))" "keeps s K s' (K(a \<mapsto> Free (n + m), b := None))"
proof -
  let ?K = "K(a \<mapsto> Free (n + m), b := None)"
  note t = units_okD(1) [OF assms(1)]
  have n: "8 \<le> n" "size_at s a + 8 = n" "cid_at s a = free_object" using free_unit [OF assms(1,3)] by auto
  have ab: "a \<noteq> b" using assms(5) n by simp
  have far: "cid_at s' p = cid_at s p \<and> size_at s' p = size_at s p" if "p < a \<or> a + klen (Free n) \<le> p" for p
    using that n(1) by (auto simp: s')
  have other: "u = a \<and> k = Free (n + m) \<or> u \<noteq> a \<and> u \<noteq> b \<and> K u = Some k" if "?K u = Some k" for u k
    using that ab by (auto split: if_splits)
  have keep: "same_headers s s' u (klen k)" if "K u = Some k" "u \<noteq> a" for u k
    by (rule same_headers_apart [OF assms(1) that(1) assms(3) that(2)]) (rule far)
  show "units_ok s' ?K" unfolding units_ok_def
  proof (intro conjI allI impI)
    show "tiles ?K page_size (file_size s')"
      using tiles_join [OF t assms(3), of "Free m" "Free (n + m)"] assms(4,5) by (simp add: s')
    show "unit_ok s' u k" if "?K u = Some k" for u k
      using other [OF that] unit_keep [OF assms(1) _ keep, of u k] n by (auto simp: s')
    have c: "sorted_wrt (<) (front @ a # b # rest)" "set (front @ a # b # rest) = {u. \<exists>n. K u = Some (Free n)}"
      using units_okD(3) [OF assms(1)] assms(2) by (auto simp: free_chain_ok_def)
    then have "distinct (front @ a # b # rest)" using strict_sorted_iff by blast
    then have "set (front @ a # rest) = set (front @ a # b # rest) - {b}" by auto
    also have "\<dots> = {u. \<exists>n. ?K u = Some (Free n)}" unfolding c(2) using ab assms(3) by auto
    finally have e: "set (front @ a # rest) = {u. \<exists>n. ?K u = Some (Free n)}" .
    have "sorted_wrt (<) (front @ a # rest)" using c(1) by (auto simp: sorted_wrt_append)
    moreover have "a \<in> set (front @ a # rest)" by simp
    ultimately show "free_chain_ok s' ?K" using e unfolding free_chain_ok_def s' by (simp del: fun_upd_apply set_append)
    show "blocks_ok s' ?K"
      by (rule blocks_keep [OF units_okD(4) [OF assms(1)]], simp add: s', rule free_cells_keep)
        (use assms(3,4) in \<open>auto simp: s'\<close>)
  qed
  show "keeps s K s' ?K" unfolding keeps_def
  proof (intro conjI allI impI)
    fix u k assume k: "K u = Some k" "\<not> is_free k"
    then have "u \<noteq> a" "u \<noteq> b" using assms(3,4) by auto
    then show "?K u = Some k" "same_headers s s' u (klen k)" using keep k(1) by auto
  next
    fix u k assume "?K u = Some k" "in_use k"
    then show "K u = Some k" using other [of u k] by auto
  qed (simp_all add: s')
qed

lemma free_bound: "units_ok s K \<Longrightarrow> K u = Some k \<Longrightarrow> file_size s \<le> 2 ^ 32 \<Longrightarrow> u + klen k \<le> 2 ^ 32 \<and> 512 \<le> u"
  using tilesD(6,7) [of K page_size "file_size s" u k] units_okD(1) [of s K] by (simp add: page_size_def)

text \<open>Both joins; the chain field itself is written last.\<close>

definition staged :: "nat list \<Rightarrow> nat \<Rightarrow> storage \<Rightarrow> storage" where
  "staged chain fp s = s\<lparr>free_page_chain := chain, curr_free_page := Some fp\<rparr>"

lemma staged_simps [simp]:
  "free_page_chain (staged chain fp s) = chain" "size_at (staged chain fp s) = size_at s" "cid_at (staged chain fp s) = cid_at s"
  "file_size (staged chain fp s) = file_size s" "staged c f (staged chain fp s) = staged c f s"
  "map_bits (staged chain fp s) = map_bits s" "page_map (staged chain fp s) = page_map s" "data_file (staged chain fp s) = data_file s"
  by (simp_all add: staged_def)

lemma join_prev_ok:
  assumes "units_ok (staged (front @ fp # rest) fp s) K" "file_size s \<le> 2 ^ 32"
  obtains front' fp' s' K' where "join_prev front fp s = (front' @ [fp'], fp', s')" "units_ok (staged (front' @ fp' # rest) fp' s') K'"
    "keeps (staged (front @ fp # rest) fp s) K (staged (front' @ fp' # rest) fp' s') K'"
    "cid_at s' = cid_at s" "file_size s' = file_size s" "helds K' \<subseteq> helds K"
proof (cases "front \<noteq> [] \<and> last front + size_at s (last front) + sizeof_object_header = fp")
  case False
  then show ?thesis using assms by (intro that [of front fp s K]) (auto simp: join_prev_def keeps_refl)
next
  case True
  let ?s = "staged (front @ fp # rest) fp s"
  obtain pre a where f: "front = pre @ [a]" using True by (metis append_butlast_last_id)
  obtain n where n: "K a = Some (Free n)" "size_at s a + 8 = n" using chain_member [OF assms(1), of a] by (auto simp: f)
  obtain m where m: "K fp = Some (Free m)" "size_at s fp + 8 = m" "0 < m" using chain_member [OF assms(1), of fp] by auto
  have adj: "a + n = fp" using True n(2) by (simp add: f sizeof_object_header_def)
  define s' where "s' = s\<lparr>size_at := (size_at s)(a := n + m - 8)\<rparr>"
  have "free_page_chain ?s = pre @ a # fp # rest" by (simp add: f)
  note j = join_pages [OF assms(1) this n(1) m(1) adj refl]
  have st: "?s\<lparr>size_at := (size_at ?s)(a := n + m - 8), free_page_chain := pre @ a # rest, curr_free_page := Some a\<rparr>
      = staged (pre @ a # rest) a s'" by (simp add: staged_def s'_def)
  have "n + m - 8 < 2 ^ 32" using free_bound [OF assms(1) m(1), THEN conjunct1] assms(2) adj by simp
  then have "to_unsigned (size_at s a + (size_at s fp + 8)) = n + m - 8" using n(2) m(2) by (simp add: to_unsigned_def)
  then have "join_prev front fp s = (pre @ [a], a, s')" using True by (simp add: join_prev_def f s'_def sizeof_object_header_def)
  then show ?thesis by (rule that) (use j [unfolded st] in \<open>auto simp: s'_def f helds_def split: if_splits\<close>)
qed

lemma join_next_ok:
  assumes "units_ok (staged (front @ fp # rest) fp s) K" "file_size s \<le> 2 ^ 32"
  obtains rest' s' K' where "join_next fp rest s = (rest', s')" "units_ok (staged (front @ fp # rest') fp s') K'"
    "keeps (staged (front @ fp # rest) fp s) K (staged (front @ fp # rest') fp s') K'"
    "cid_at s' = cid_at s" "file_size s' = file_size s" "helds K' \<subseteq> helds K"
proof (cases "rest \<noteq> [] \<and> fp + size_at s fp + sizeof_object_header = hd rest")
  case False
  then show ?thesis using assms by (intro that [of rest s K]) (auto simp: join_next_def keeps_refl)
next
  case True
  let ?s = "staged (front @ fp # rest) fp s"
  obtain b post where r: "rest = b # post" using True by (cases rest) auto
  obtain n where n: "K fp = Some (Free n)" "size_at s fp + 8 = n" using chain_member [OF assms(1), of fp] by auto
  obtain m where m: "K b = Some (Free m)" "size_at s b + 8 = m" "0 < m" using chain_member [OF assms(1), of b] by (auto simp: r)
  have adj: "fp + n = b" using True n(2) by (simp add: r sizeof_object_header_def)
  define s' where "s' = s\<lparr>size_at := (size_at s)(fp := n + m - 8)\<rparr>"
  have "free_page_chain ?s = front @ fp # b # post" by (simp add: r)
  note j = join_pages [OF assms(1) this n(1) m(1) adj refl]
  have st: "?s\<lparr>size_at := (size_at ?s)(fp := n + m - 8), free_page_chain := front @ fp # post, curr_free_page := Some fp\<rparr>
      = staged (front @ fp # post) fp s'" by (simp add: staged_def s'_def)
  have "n + m - 8 < 2 ^ 32" using free_bound [OF assms(1) m(1), THEN conjunct1] assms(2) adj by simp
  then have "to_unsigned (size_at s fp + (size_at s b + 8)) = n + m - 8" using n(2) m(2) by (simp add: to_unsigned_def)
  then have "join_next fp rest s = (post, s')" using True by (simp add: join_next_def r s'_def sizeof_object_header_def)
  then show ?thesis by (rule that) (use j [unfolded st] in \<open>auto simp: s'_def r helds_def split: if_splits\<close>)
qed

text \<open>\<open>free_page\<close> on held pages, once the bits of the pages are cleared.\<close>

lemma free_held:
  assumes "units_ok s K" "K fp = Some (Held n)" "ALIGN (size_at s fp + 8) 512 = n" "file_size s \<le> 2 ^ 32"
    and "clear_pages n fp (s\<lparr>size_at := (size_at s)(fp := n - 8)\<rparr>) = Returns (s\<lparr>size_at := (size_at s)(fp := n - 8), map_bits := bits\<rparr>)"
  obtains s' K' where "free_page fp s = Returns s'" "units_ok s' K'"
    "keeps (s\<lparr>map_bits := bits\<rparr>) (K(fp \<mapsto> Free n)) s' K'" "cid_at s' = (cid_at s)(fp := free_object)" "file_size s' = file_size s"
    "helds K' \<subseteq> helds K - {fp}"
proof -
  obtain front rest where p: "free_page_place fp s = Returns (front, rest)" "free_page_chain s = front @ rest"
    "\<forall>b\<in>set front. b < fp" "\<forall>b\<in>set rest. fp < b" using free_page_parts [OF units_okD(3) [OF assms(1)] assms(2)] .
  define s1 where "s1 = s\<lparr>size_at := (size_at s)(fp := n - 8), map_bits := bits, cid_at := (cid_at s)(fp := free_object)\<rparr>"
  have nw: "rest = [] \<or> hd rest \<noteq> fp" using p(4) by (cases rest) auto
  have "n - 8 < 2 ^ 32" "0 < n" using free_bound [OF assms(1,2,4)] tilesD(5) [OF units_okD(1) [OF assms(1)] assms(2)] by auto
  then have u: "to_unsigned (n - 8) = n - 8" by (simp add: to_unsigned_def)
  have st1: "s\<lparr>size_at := (size_at s)(fp := n - 8), map_bits := bits, cid_at := (cid_at s)(fp := free_object),
      free_page_chain := front @ fp # rest, curr_free_page := Some fp\<rparr> = staged (front @ fp # rest) fp s1"
    by (simp add: staged_def s1_def)
  note p1 = put_pages [OF assms(1,2) p(2-4) refl, of bits, unfolded st1]
  have fs: "file_size s1 \<le> 2 ^ 32" using assms(4) by (simp add: s1_def)
  obtain front' fp' s2 K2 where j1: "join_prev front fp s1 = (front' @ [fp'], fp', s2)"
    "units_ok (staged (front' @ fp' # rest) fp' s2) K2"
    "keeps (staged (front @ fp # rest) fp s1) (K(fp \<mapsto> Free n)) (staged (front' @ fp' # rest) fp' s2) K2"
    "cid_at s2 = cid_at s1" "file_size s2 = file_size s1" "helds K2 \<subseteq> helds (K(fp \<mapsto> Free n))"
    using join_prev_ok [OF p1 fs] by blast
  obtain rest' s3 K3 where j2: "join_next fp' rest s2 = (rest', s3)" "units_ok (staged (front' @ fp' # rest') fp' s3) K3"
    "keeps (staged (front' @ fp' # rest) fp' s2) K2 (staged (front' @ fp' # rest') fp' s3) K3"
    "cid_at s3 = cid_at s2" "file_size s3 = file_size s2" "helds K3 \<subseteq> helds K2"
    using join_next_ok [OF j1(2)] fs j1(5) by metis
  have e: "free_page fp s = Returns (staged (front' @ fp' # rest') fp' s3)"
    unfolding free_page_def p(1) using nw
    by (simp add: Let_def assms(3,5) u sizeof_object_header_def page_size_def j1(1) [unfolded s1_def] j2(1) staged_def split_beta)
  have k: "keeps (s\<lparr>map_bits := bits\<rparr>) (K(fp \<mapsto> Free n)) (staged (front @ fp # rest) fp s1) (K(fp \<mapsto> Free n))"
    unfolding keeps_def
  proof (intro conjI allI impI)
    fix u k assume k: "(K(fp \<mapsto> Free n)) u = Some k" "\<not> is_free k"
    then have "u \<noteq> fp" "K u = Some k" by (auto split: if_splits)
    have far: "cid_at s1 p = cid_at s p \<and> size_at s1 p = size_at s p" if "p < fp \<or> fp + klen (Held n) \<le> p" for p
      using that \<open>0 < n\<close> by (auto simp: s1_def)
    have "same_headers s s1 u (klen k)"
      by (rule same_headers_apart [OF assms(1) \<open>K u = Some k\<close> assms(2) \<open>u \<noteq> fp\<close>]) (rule far)
    then show "same_headers (s\<lparr>map_bits := bits\<rparr>) (staged (front @ fp # rest) fp s1) u (klen k)"
      by (simp add: same_headers_def)
  qed (simp_all add: staged_def s1_def)
  have "helds (K(fp \<mapsto> Free n)) = helds K - {fp}" by (auto simp: helds_def)
  then have h: "helds K3 \<subseteq> helds K - {fp}" using j1(6) j2(6) by blast
  show ?thesis
    by (rule that [OF e j2(2) keeps_trans [OF k keeps_trans [OF j1(3) j2(3)]] _ _ h]) (use j1(4,5) j2(4,5) in \<open>simp_all add: s1_def\<close>)
qed

end
