(* ===== verification/StorageAlloc.thy ===== *)
theory StorageAlloc
  imports StorageFree
begin

text \<open>
  The invariant of a storage, and the allocator against it: \<open>alloc_page\<close> with the growth of the page map,
  \<open>allocate\<close>, \<open>get_header\<close> and \<open>free_obj\<close>.
\<close>

section \<open>The invariant\<close>

definition multi_page :: "layout \<Rightarrow> nat \<Rightarrow> nat \<Rightarrow> bool" where
  "multi_page K m page_no \<longleftrightarrow> (\<exists>u n. K u = Some (Used n) \<and> u \<noteq> m \<and> u < page_no * 512 \<and> page_no * 512 < u + n)"

text \<open>The bits of the page map: set for the pages of objects but the first.\<close>

definition map_ok :: "storage \<Rightarrow> layout \<Rightarrow> bool" where
  "map_ok s K \<longleftrightarrow> (case page_map s of
     None \<Rightarrow> \<forall>u n. K u = Some (Used n) \<longrightarrow> n = 512 \<and> cid_at s u \<noteq> page_map_cid
   | Some m \<Rightarrow> (\<exists>n. K m = Some (Used n)) \<and> (\<forall>u n. K u = Some (Used n) \<longrightarrow> (cid_at s u = page_map_cid \<longleftrightarrow> u = m))
       \<and> (\<forall>p. map_bits s p \<longleftrightarrow> multi_page K m p))"

definition map_covers :: "storage \<Rightarrow> bool" where
  "map_covers s \<longleftrightarrow> (case page_map s of None \<Rightarrow> True | Some m \<Rightarrow> file_size s \<le> size_at s m * 4096)"

definition limits_ok :: "storage \<Rightarrow> bool" where
  "limits_ok s \<longleftrightarrow> file_size s \<le> mapped_size (data_file s) \<and> mapped_size (data_file s) \<le> 2 ^ 32 \<and> 0 < allocation_granularity (data_file s)"

definition invar :: "storage \<Rightarrow> layout \<Rightarrow> bool" where
  "invar s K \<longleftrightarrow> units_ok s K \<and> map_ok s K \<and> map_covers s \<and> limits_ok s"

definition storage_ok :: "storage \<Rightarrow> bool" where
  "storage_ok s \<longleftrightarrow> (\<exists>K. invar s K \<and> helds K = {})"

text \<open>The headers of the objects of a storage: runs in use but for the page map, and blocks in use.\<close>

definition is_object :: "storage \<Rightarrow> layout \<Rightarrow> nat \<Rightarrow> bool" where
  "is_object s K h \<longleftrightarrow> (\<exists>n. K h = Some (Used n) \<and> page_map s \<noteq> Some h)
     \<or> (\<exists>u i. K u = Some (Cells i) \<and> h \<in> cells u i \<and> cid_at s h \<noteq> free_object)"

section \<open>Bits\<close>

lemma mark_pages_ok:
  assumes "\<forall>p. p0 < p \<longrightarrow> p \<le> p0 + n \<longrightarrow> in_page_map s p"
  shows "mark_pages b p0 n s = Returns (s\<lparr>map_bits := (\<lambda>p. if p0 < p \<and> p \<le> p0 + n then b else map_bits s p)\<rparr>)"
  using assms
proof (induction n arbitrary: p0 s)
  case (Suc n)
  let ?s = "s\<lparr>map_bits := (map_bits s)(p0 + 1 := b)\<rparr>"
  have "in_page_map ?s p = in_page_map s p" for p by (simp add: in_page_map_def split: option.split)
  then have "mark_pages b (p0 + 1) n ?s
      = Returns (?s\<lparr>map_bits := (\<lambda>p. if p0 + 1 < p \<and> p \<le> p0 + 1 + n then b else map_bits ?s p)\<rparr>)"
    using Suc.prems by (intro Suc.IH) simp
  moreover have "(\<lambda>p. if p0 + 1 < p \<and> p \<le> p0 + 1 + n then b else map_bits ?s p)
      = (\<lambda>p. if p0 < p \<and> p \<le> p0 + Suc n then b else map_bits s p)" by (auto simp: fun_eq_iff)
  ultimately show ?case using Suc.prems by simp
next
  case 0
  have "(\<lambda>p. if p0 < p \<and> p \<le> p0 + 0 then b else map_bits s p) = map_bits s" by auto
  then show ?case by simp
qed

lemma page_in_map: "map_covers s \<Longrightarrow> page_map s = Some m \<Longrightarrow> p * 512 < file_size s \<Longrightarrow> in_page_map s p"
  by (auto simp: map_covers_def in_page_map_def less_mult_imp_div_less)

lemma mark_run:
  assumes "map_covers s" "page_map s = Some m" "512 dvd u" "512 dvd n" "0 < n" "u + n \<le> file_size s"
  shows "mark_pages b (u div page_size) (n div page_size - 1) s
    = Returns (s\<lparr>map_bits := (\<lambda>p. if u < p * 512 \<and> p * 512 < u + n then b else map_bits s p)\<rparr>)"
proof -
  obtain a c where a: "u = 512 * a" "n = 512 * c" "0 < c" using assms(3-5) by (auto elim!: dvdE)
  have iff: "(a < p \<and> p \<le> a + (c - 1)) \<longleftrightarrow> (u < p * 512 \<and> p * 512 < u + n)" for p using a by auto
  have "\<forall>p. a < p \<longrightarrow> p \<le> a + (c - 1) \<longrightarrow> in_page_map s p"
  proof (intro allI impI)
    fix p assume "a < p" "p \<le> a + (c - 1)"
    then have "p * 512 < u + n" using iff by blast
    then show "in_page_map s p" by (intro page_in_map [OF assms(1,2)]) (use assms(6) in simp)
  qed
  from mark_pages_ok [OF this, of b] show ?thesis unfolding iff using a by (simp add: page_size_def)
qed

lemma map_ok_frame:
  assumes "map_ok s K" "page_map s' = page_map s" "map_bits s' = map_bits s"
    and u: "\<And>u n. K' u = Some (Used n) \<longleftrightarrow> K u = Some (Used n)"
    and c: "\<And>u n. K u = Some (Used n) \<Longrightarrow> cid_at s' u = cid_at s u"
  shows "map_ok s' K'"
proof (cases "page_map s")
  case None
  have "n = 512 \<and> cid_at s' v \<noteq> page_map_cid" if "K v = Some (Used n)" for v n
    using assms(1) [unfolded map_ok_def None option.case, rule_format, OF that] c [OF that] by simp
  then show ?thesis unfolding map_ok_def assms(2) u None option.case by (intro allI impI)
next
  case (Some q)
  have p: "multi_page K' = multi_page K" unfolding multi_page_def u ..
  note q = assms(1) [unfolded map_ok_def Some option.case]
  have "cid_at s' v = page_map_cid \<longleftrightarrow> v = q" if "K v = Some (Used n)" for v n
    using q [THEN conjunct2, THEN conjunct1, rule_format, OF that] c [OF that] by simp
  then have "\<forall>v n. K v = Some (Used n) \<longrightarrow> (cid_at s' v = page_map_cid \<longleftrightarrow> v = q)" by blast
  then show ?thesis
    unfolding map_ok_def assms(2,3) u p Some option.case
    by (rule conjI [OF q [THEN conjunct1] conjI [OF _ q [THEN conjunct2, THEN conjunct2]]])
qed

lemma keeps_map:
  assumes "keeps s K s' K'" "map_ok s K" "units_ok s K"
  shows "map_ok s' K'"
proof (rule map_ok_frame [OF assms(2) keepsD(4,5) [OF assms(1)]])
  note k = keepsD [OF assms(1)]
  show "K' u = Some (Used n) \<longleftrightarrow> K u = Some (Used n)" for u n using k(1) [of u "Used n"] k(3) [of u "Used n"] by auto
  show "cid_at s' u = cid_at s u" if "K u = Some (Used n)" for u n
    using k(2) [OF that] tilesD(5) [OF units_okD(1) [OF assms(3)] that] by (simp add: same_headers_def)
qed

lemma keeps_map_size:
  assumes "keeps s K s' K'" "map_ok s K" "units_ok s K" "page_map s = Some m"
  shows "size_at s' m = size_at s m"
proof -
  obtain n where n: "K m = Some (Used n)" using assms(2,4) by (auto simp: map_ok_def)
  then have "same_headers s s' m n" using keepsD(2) [OF assms(1) n] by simp
  then show ?thesis using tilesD(5) [OF units_okD(1) [OF assms(3)] n] by (simp add: same_headers_def)
qed

section \<open>Getting pages\<close>

definition get_pages :: "nat \<Rightarrow> nat \<Rightarrow> storage \<Rightarrow> (nat \<times> storage) outcome" where
  "get_pages sz al s = outcome_bind (take_pages sz al s) (\<lambda>(found, s).
     case found of Some bp \<Rightarrow> Returns (bp, s) | None \<Rightarrow> extend_file al s)"

definition fresh :: "layout \<Rightarrow> nat \<Rightarrow> bool" where
  "fresh K bp \<longleftrightarrow> K bp = None \<or> (\<exists>n. K bp = Some (Free n))"

lemma extend_file_ok:
  assumes "limits_ok s"
  shows "extend_file al s = Exits \<and> mapped_size (data_file s) < ALIGN (file_size s + al) (allocation_granularity (data_file s)) \<or>
    (\<exists>f. extend_file al s = Returns (file_size s, s\<lparr>data_file := f, file_size := file_size s + al\<rparr>)
      \<and> mapped_size f = mapped_size (data_file s) \<and> allocation_granularity f = allocation_granularity (data_file s)
      \<and> file_size s + al \<le> mapped_size f)"
proof -
  have "n \<le> ALIGN n g" if "0 < g" for n g :: nat
  proof -
    have "(n + g - 1) div g * g + (n + g - 1) mod g = n + g - 1" "(n + g - 1) mod g < g" using that by simp_all
    then show ?thesis unfolding ALIGN_def by linarith
  qed
  then have a: "file_size s + al \<le> ALIGN (file_size s + al) (allocation_granularity (data_file s))"
    using assms by (simp add: limits_ok_def)
  show ?thesis
  proof (cases "mapped_size (data_file s) < ALIGN (file_size s + al) (allocation_granularity (data_file s))")
    case False
    then show ?thesis using a
      by (intro disjI2 exI [of _ "data_file s\<lparr>file_bytes := ALIGN (file_size s + al) (allocation_granularity (data_file s))\<rparr>"])
        (simp add: extend_file_def set_size_def Let_def)
  qed (simp add: extend_file_def set_size_def)
qed

lemma get_pages_ok:
  assumes "units_ok s K" "limits_ok s" "al = ALIGN (sz + 8) 512"
  obtains "get_pages sz al s = Exits"
  | bp s' K' where "get_pages sz al s = Returns (bp, s')" "units_ok s' K'" "K' bp = Some (Held al)" "keeps s K s' K'" "fresh K bp"
    "limits_ok s'" "file_size s \<le> file_size s'" "file_size s' \<le> file_size s + al"
    "take_pages sz al s \<noteq> Returns (None, s) \<Longrightarrow> file_size s' = file_size s" "helds K' \<subseteq> insert bp (helds K)"
proof -
  have al: "512 dvd al" "0 < al" using align_page(1) align_pos [of "sz + 8"] assms(3) by simp_all
  show ?thesis
  proof (cases rule: take_pages_ok [OF assms(1,3)])
    case 1
    show ?thesis
    proof (cases "extend_file al s = Exits")
      case True
      then show ?thesis using extend_file_ok [OF assms(2), of al] by (intro that(1)) (simp_all add: get_pages_def 1)
    next
      case False
      then obtain f where f: "extend_file al s = Returns (file_size s, s\<lparr>data_file := f, file_size := file_size s + al\<rparr>)"
        "mapped_size f = mapped_size (data_file s)" "allocation_granularity f = allocation_granularity (data_file s)"
        "file_size s + al \<le> mapped_size f" using extend_file_ok [OF assms(2), of al] by blast
      note e = extend_pages [OF assms(1) al refl f(2,3)]
      have "K (file_size s) = None"
        using tilesD(5,7) [OF units_okD(1) [OF assms(1)], of "file_size s"] by (cases "K (file_size s)") fastforce+
      then show ?thesis using f assms(2)
        by (intro that(2) [OF _ e(1) _ e(2), of "file_size s"]) (auto simp: get_pages_def 1 fresh_def limits_ok_def helds_def)
    qed
  next
    case (2 bp s' K')
    then show ?thesis using assms(2)
      by (intro that(2) [OF _ 2(2,3,4)]) (simp_all add: get_pages_def fresh_def limits_ok_def)
  qed
qed

section \<open>Held pages\<close>

lemma held_change:
  assumes "units_ok s K" "K bp = Some (Held n)"
    and far: "\<And>p. p < bp \<or> bp + klen (Held n) \<le> p \<Longrightarrow> cid_at s' p = cid_at s p \<and> size_at s' p = size_at s p"
    and s': "file_size s' = file_size s" "free_block_chain s' = free_block_chain s" "free_page_chain s' = free_page_chain s"
      "curr_free_page s' = curr_free_page s"
  shows "units_ok s' K"
proof -
  have "free_chain_ok s' (K(bp \<mapsto> Held n))" by (rule chain_unit [OF units_okD(3) [OF assms(1)] assms(2) _ _ s'(3,4)]) simp_all
  then have "units_ok s' (K(bp \<mapsto> Held n))" by (intro one_unit [OF assms(1,2) _ _ _ far s'(1,2)]) simp_all
  then show ?thesis using assms(2) by (simp add: fun_upd_idem)
qed

lemma held_header:
  assumes "units_ok s K" "K bp = Some (Held n)"
  shows "units_ok (set_header bp c z s) K"
  by (rule held_change [OF assms])
    (use tilesD(5) [OF units_okD(1) [OF assms(1)] assms(2)] in \<open>auto simp: set_header_def\<close>)

lemma held_used:
  assumes "units_ok s K" "K bp = Some (Held n)" "unit_ok s bp (Used n)"
  shows "units_ok s (K(bp \<mapsto> Used n))"
  by (rule one_unit [OF assms(1,2)]) (use assms chain_unit [OF units_okD(3) [OF assms(1)] assms(2)] in auto)

lemma used_held:
  assumes "units_ok s K" "K bp = Some (Used n)"
  shows "units_ok s (K(bp \<mapsto> Held n))"
  by (rule one_unit [OF assms(1,2)]) (use assms chain_unit [OF units_okD(3) [OF assms(1)] assms(2)] in auto)

lemma header_apart:
  assumes "units_ok s K" "K bp = Some (Held n)" "K u = Some k" "u \<noteq> bp"
  shows "same_headers s (set_header bp c z s) u (klen k)"
proof (rule same_headers_apart [OF assms(1,3,2,4)])
  show "cid_at (set_header bp c z s) p = cid_at s p \<and> size_at (set_header bp c z s) p = size_at s p"
    if "p < bp \<or> bp + klen (Held n) \<le> p" for p
    using that tilesD(5) [OF units_okD(1) [OF assms(1)] assms(2)] by (auto simp: set_header_def)
qed

lemma keeps_header:
  assumes "keeps s K s' K'" "units_ok s' K'" "K' bp = Some (Held n)" "fresh K bp"
  shows "keeps s K (set_header bp c z s') K'"
  unfolding keeps_def
proof (intro conjI allI impI)
  note k = keepsD [OF assms(1)]
  fix u l assume u: "K u = Some l" "\<not> is_free l"
  have "u \<noteq> bp" using u assms(4) by (auto simp: fresh_def)
  from header_apart [OF assms(2,3) k(1) [OF u] this] k(2) [OF u]
  show "K' u = Some l" "same_headers s (set_header bp c z s') u (klen l)" using k(1) [OF u] by (simp_all add: same_headers_def)
next
  fix u l assume "K' u = Some l" "in_use l"
  then show "K u = Some l" by (rule keepsD(3) [OF assms(1)])
qed (simp_all add: set_header_def keepsD(4-) [OF assms(1)])

lemma units_ok_map: "units_ok (s\<lparr>page_map := m, map_bits := b\<rparr>) K \<longleftrightarrow> units_ok s K"
proof -
  have "unit_ok (s\<lparr>page_map := m, map_bits := b\<rparr>) u k = unit_ok s u k" for u k by (cases k) (simp_all add: cell_ok_def)
  then show ?thesis by (simp add: units_ok_def free_chain_ok_def blocks_ok_def free_cells_def split: option.split)
qed

section \<open>The page map\<close>

lemma alloc_page_map:
  assumes "\<not> small sz"
  shows "alloc_page page_map_cid sz s = outcome_bind (get_pages sz (ALIGN (sz + 8) 512) s)
    (\<lambda>(bp, s). Returns (bp + 8, set_header bp page_map_cid sz s))"
proof -
  let ?al = "ALIGN (sz + 8) 512"
  have "outcome_bind (extend_file ?al t) (\<lambda>(bp, s). case page_map s of None \<Rightarrow> Returns (bp, s)
      | Some m \<Rightarrow> if page_map_cid \<noteq> page_map_cid \<and> P s m then f bp s m else Returns (bp, s)) = extend_file ?al t" for t P f
    by (cases "extend_file ?al t") (auto split: option.splits)
  then show ?thesis
    using assms by (subst alloc_page.simps)
      (cases "take_pages sz ?al s"; auto simp: get_pages_def page_size_def sizeof_object_header_def Let_def outcome_bind_assoc split: option.splits)
qed

end
