(* ===== verification/StorageMap.thy ===== *)
theory StorageMap
  imports StorageAlloc
begin

text \<open>
  \<open>alloc_page\<close>: the pages of a request, with the page map grown beyond them, and what is put into the pages.
\<close>

section \<open>Objects that stay\<close>

definition kept :: "storage \<Rightarrow> layout \<Rightarrow> storage \<Rightarrow> layout \<Rightarrow> bool" where
  "kept s K s' K' \<longleftrightarrow>
     (\<forall>u k. K u = Some k \<longrightarrow> in_use k \<longrightarrow> page_map s \<noteq> Some u \<longrightarrow>
        K' u = Some k \<and> page_map s' \<noteq> Some u \<and> same_headers s s' u (klen k)) \<and>
     (\<forall>u k. K' u = Some k \<longrightarrow> in_use k \<longrightarrow> page_map s' \<noteq> Some u \<longrightarrow> K u = Some k \<and> page_map s \<noteq> Some u) \<and>
     free_block_chain s' = free_block_chain s \<and> app_class_mapping s' = app_class_mapping s \<and>
     mapped_size (data_file s') = mapped_size (data_file s) \<and>
     allocation_granularity (data_file s') = allocation_granularity (data_file s)"

lemma keptD:
  assumes "kept s K s' K'"
  shows "K u = Some k \<Longrightarrow> in_use k \<Longrightarrow> page_map s \<noteq> Some u \<Longrightarrow> K' u = Some k"
    "K u = Some k \<Longrightarrow> in_use k \<Longrightarrow> page_map s \<noteq> Some u \<Longrightarrow> page_map s' \<noteq> Some u"
    "K u = Some k \<Longrightarrow> in_use k \<Longrightarrow> page_map s \<noteq> Some u \<Longrightarrow> same_headers s s' u (klen k)"
    "K' u = Some k \<Longrightarrow> in_use k \<Longrightarrow> page_map s' \<noteq> Some u \<Longrightarrow> K u = Some k"
    "K' u = Some k \<Longrightarrow> in_use k \<Longrightarrow> page_map s' \<noteq> Some u \<Longrightarrow> page_map s \<noteq> Some u"
    "free_block_chain s' = free_block_chain s" "app_class_mapping s' = app_class_mapping s"
    "mapped_size (data_file s') = mapped_size (data_file s)"
    "allocation_granularity (data_file s') = allocation_granularity (data_file s)"
  using assms unfolding kept_def by blast+

lemma keeps_kept:
  assumes "keeps s K s' K'"
  shows "kept s K s' K'"
  unfolding kept_def
proof (intro conjI allI impI)
  fix u k assume u: "K u = Some k" "in_use k" "page_map s \<noteq> Some u"
  show "K' u = Some k" "same_headers s s' u (klen k)"
    by (rule keepsD(1,2) [OF assms u(1) in_use_not_free [OF u(2)]])+
  show "page_map s' \<noteq> Some u" using u(3) keepsD(4) [OF assms] by simp
next
  fix u k assume u: "K' u = Some k" "in_use k" "page_map s' \<noteq> Some u"
  show "K u = Some k" by (rule keepsD(3) [OF assms u(1,2)])
  show "page_map s \<noteq> Some u" using u(3) keepsD(4) [OF assms] by simp
qed (simp_all add: keepsD(6-) [OF assms])

text \<open>The page map of a storage is a run in use.\<close>

lemma map_run:
  assumes "map_ok s K" "page_map s = Some m"
  obtains n where "K m = Some (Used n)"
  using assms by (auto simp: map_ok_def)

lemma cells_not_map: "map_ok s K \<Longrightarrow> K u = Some (Cells i) \<Longrightarrow> page_map s \<noteq> Some u"
  by (auto simp: map_ok_def split: option.splits)

lemma kept_objects:
  assumes "kept s K s' K'" "map_ok s K" "map_ok s' K'" "units_ok s K"
  shows "is_object s' K' h \<longleftrightarrow> is_object s K h"
    and "is_object s K h \<Longrightarrow> cid_at s' h = cid_at s h \<and> size_at s' h = size_at s h"
proof -
  note k = keptD [OF assms(1)]
  have head: "cid_at s' c = cid_at s c \<and> size_at s' c = size_at s c" if "K u = Some (Cells i)" "c \<in> cells u i" for u i c
    using k(3) [OF that(1) _ cells_not_map [OF assms(2) that(1)]] cells_in_unit [OF assms(4) that] by (auto simp: same_headers_def)
  have unit: "cid_at s' u = cid_at s u \<and> size_at s' u = size_at s u" if "K u = Some (Used n)" "page_map s \<noteq> Some u" for u n
    using k(3) [OF that(1) _ that(2)] tilesD(5) [OF units_okD(1) [OF assms(4)] that(1)] by (auto simp: same_headers_def)
  show "is_object s K h \<Longrightarrow> cid_at s' h = cid_at s h \<and> size_at s' h = size_at s h"
    using head unit unfolding is_object_def by blast
  have c: "K' u = Some (Cells i) \<longleftrightarrow> K u = Some (Cells i)" for u i
    using k(1) [of u "Cells i"] k(4) [of u "Cells i"] cells_not_map [OF assms(2)] cells_not_map [OF assms(3)] by auto
  have u: "K' u = Some (Used n) \<and> page_map s' \<noteq> Some u \<longleftrightarrow> K u = Some (Used n) \<and> page_map s \<noteq> Some u" for u n
    using k(1) [of u "Used n"] k(2) [of u "Used n"] k(4) [of u "Used n"] k(5) [of u "Used n"] unfolding in_use.simps by blast
  have "(\<exists>u i. K' u = Some (Cells i) \<and> h \<in> cells u i \<and> cid_at s' h \<noteq> free_object)
      \<longleftrightarrow> (\<exists>u i. K u = Some (Cells i) \<and> h \<in> cells u i \<and> cid_at s h \<noteq> free_object)"
    unfolding c using head by (metis (no_types, lifting))
  then show "is_object s' K' h \<longleftrightarrow> is_object s K h" unfolding is_object_def u by blast
qed

section \<open>A new page map\<close>

lemma page_map_obj_cid: "obj_cid page_map_cid"
  by (simp add: obj_cid_def page_map_cid_def free_object_def gc_marked_def)

lemma new_map:
  assumes "units_ok s K" "K p = Some (Held al)" "cid_at s p = page_map_cid" "al = ALIGN (size_at s p + 8) 512" "\<not> small (size_at s p)"
    and "\<And>u n. K u = Some (Used n) \<Longrightarrow> cid_at s u \<noteq> page_map_cid" "\<And>q. bits q \<longleftrightarrow> multi_page K p q"
    and "s' = s\<lparr>page_map := Some p, map_bits := bits\<rparr>"
  shows "units_ok s' (K(p \<mapsto> Used al))" "map_ok s' (K(p \<mapsto> Used al))"
proof -
  show "units_ok s' (K(p \<mapsto> Used al))" unfolding assms(8) units_ok_map
    by (rule held_used [OF assms(1,2)]) (use assms(3-5) page_map_obj_cid in simp)
  have "multi_page (K(p \<mapsto> Used al)) p q = multi_page K p q" for q unfolding multi_page_def by auto
  then show "map_ok s' (K(p \<mapsto> Used al))"
    using assms(3,6,7) by (auto simp: map_ok_def assms(8))
qed

lemma map_size:
  assumes "bytes \<le> 2 ^ 32" "2 \<le> c" "c \<le> 8" "nm = ALIGN (map_size_for bytes + 8) 512 * c - 8"
  shows "ALIGN (nm + 8) 512 = nm + 8" "bytes + (nm + 8) \<le> nm * 4096" "\<not> small nm" "to_unsigned nm = nm"
proof -
  define ms where "ms = map_size_for bytes"
  define A where "A = ALIGN (ms + 8) 512"
  have A: "512 dvd A" "ms + 8 \<le> A" "A < ms + 8 + 512" "0 < A" unfolding A_def using align_page [of "ms + 8"] by (auto intro: gr0I)
  then have A512: "512 \<le> A" by (auto elim!: dvdE)
  have nm: "nm = A * c - 8" unfolding assms(4) A_def ms_def ..
  have "A * 2 \<le> A * c" "A * c \<le> A * 8" using assms(2,3) by auto
  then have b: "2 * A \<le> nm + 8" "nm + 8 \<le> 8 * A" "nm + 8 = A * c" using A512 unfolding nm by linarith+
  have "512 dvd nm + 8" unfolding b(3) using A(1) by simp
  then show "ALIGN (nm + 8) 512 = nm + 8" by (rule align_dvd)
  have m: "ms = (bytes + 4102) div 4095" unfolding ms_def map_size_for_def sizeof_object_header_def page_size_def by simp
  then have "ms * 4095 + (bytes + 4102) mod 4095 = bytes + 4102" by (simp only: div_mult_mod_eq)
  moreover have "(bytes + 4102) mod 4095 < 4095" by simp
  ultimately have "bytes + 8 \<le> ms * 4095" by linarith
  then show "bytes + (nm + 8) \<le> nm * 4096" using b A A512 by linarith
  show "\<not> small nm" using b(1) A512 by (simp add: small_def page_size_def sizeof_object_header_def)
  have "ms * 4095 \<le> bytes + 4102" using m div_times_less_eq_dividend [of "bytes + 4102" 4095] by simp
  then have "nm < 2 ^ 32" using b(2) A(3) assms(1) by simp
  then show "to_unsigned nm = nm" by (simp add: to_unsigned_def)
qed

section \<open>The pages of a request\<close>

definition grow_map :: "nat \<Rightarrow> nat \<Rightarrow> storage \<Rightarrow> (nat \<times> storage) outcome" where
  "grow_map m bp s =
     (let old_map_size = size_at s m;
          new_map_size = ALIGN (map_size_for (file_size s) + sizeof_object_header) page_size * 2 - sizeof_object_header
      in outcome_bind (alloc_page page_map_cid (to_unsigned new_map_size) s) (\<lambda>(p, s).
         outcome_bind (free_page m s) (\<lambda>s. Returns (bp, new_page_map (p - sizeof_object_header) old_map_size s))))"

definition acquire :: "nat \<Rightarrow> nat \<Rightarrow> storage \<Rightarrow> (nat \<times> storage) outcome" where
  "acquire sz al s = outcome_bind (take_pages sz al s) (\<lambda>(found, s). case found of
       Some bp \<Rightarrow> Returns (bp, s)
     | None \<Rightarrow> outcome_bind (extend_file al s) (\<lambda>(bp, s). case page_map s of
           None \<Rightarrow> Returns (bp, s)
         | Some m \<Rightarrow> if file_size s > size_at s m * page_size * 8 then grow_map m bp s else Returns (bp, s)))"

definition acquired :: "storage \<Rightarrow> layout \<Rightarrow> nat \<Rightarrow> nat \<Rightarrow> storage \<Rightarrow> layout \<Rightarrow> bool" where
  "acquired s K al bp s' K' \<longleftrightarrow> invar s' K' \<and> K' bp = Some (Held al) \<and> helds K' \<subseteq> {bp} \<and> kept s K s' K'"

lemma same_headers_trans: "same_headers s t u n \<Longrightarrow> same_headers t r u n \<Longrightarrow> same_headers s r u n"
  by (simp add: same_headers_def)

lemma map_covers_keeps:
  assumes "keeps s K s' K'" "invar s K" "file_size s' = file_size s"
  shows "map_covers s'"
  using assms keeps_map_size [OF assms(1)] keepsD(4) [OF assms(1)] by (auto simp: invar_def map_covers_def split: option.splits)

lemma free_map_pages:
  assumes "units_ok s K" "K m = Some (Used n)" "cid_at s m = page_map_cid" "file_size s \<le> 2 ^ 32"
  obtains s' K' where "free_page m s = Returns s'" "units_ok s' K'" "keeps s (K(m \<mapsto> Free n)) s' K'"
    "file_size s' = file_size s" "helds K' \<subseteq> helds K"
proof -
  have n: "ALIGN (size_at s m + 8) 512 = n" using units_okD(2) [OF assms(1,2)] by simp
  have c: "clear_pages n m (s\<lparr>size_at := (size_at s)(m := n - 8)\<rparr>)
      = Returns (s\<lparr>size_at := (size_at s)(m := n - 8), map_bits := map_bits s\<rparr>)"
    using assms(3) by (simp add: clear_pages_def)
  have h: "(K(m \<mapsto> Held n)) m = Some (Held n)" by simp
  obtain s' K' where f: "free_page m s = Returns s'" "units_ok s' K'"
    "keeps (s\<lparr>map_bits := map_bits s\<rparr>) (K(m \<mapsto> Held n, m \<mapsto> Free n)) s' K'" "file_size s' = file_size s"
    "helds K' \<subseteq> helds (K(m \<mapsto> Held n)) - {m}" by (rule free_held [OF used_held [OF assms(1,2)] h n assms(4) c])
  have "s\<lparr>map_bits := map_bits s\<rparr> = s" by simp
  note k = f(3) [unfolded this fun_upd_upd]
  have "helds (K(m \<mapsto> Held n)) - {m} \<subseteq> helds K" by (auto simp: helds_def split: if_splits)
  then show ?thesis by (intro that [OF f(1,2) k f(4)]) (use f(5) in blast)
qed

lemma alloc_map_ok:
  assumes "units_ok s K" "limits_ok s" "\<not> small nm" "ALIGN (nm + 8) 512 = nm + 8"
  obtains "alloc_page page_map_cid nm s = Exits"
  | p s' K' where "alloc_page page_map_cid nm s = Returns (p + 8, s')" "units_ok s' K'" "K' p = Some (Held (nm + 8))"
    "keeps s K s' K'" "fresh K p" "limits_ok s'" "file_size s' \<le> file_size s + (nm + 8)" "helds K' \<subseteq> insert p (helds K)"
    "cid_at s' p = page_map_cid" "size_at s' p = nm"
proof -
  note a = alloc_page_map [OF assms(3), of s, unfolded assms(4)]
  show ?thesis
  proof (cases rule: get_pages_ok [OF assms(1,2) assms(4) [symmetric]])
    case 1
    then show ?thesis by (intro that(1)) (simp_all add: a)
  next
    case (2 p t L)
    let ?t = "set_header p page_map_cid nm t"
    have "alloc_page page_map_cid nm s = Returns (p + 8, ?t)" by (simp add: a 2(1))
    then show ?thesis
      by (rule that(2) [OF _ held_header [OF 2(2,3)] 2(3) keeps_header [OF 2(4,2,3,5)] 2(5)])
        (use 2(6,8,10) in \<open>simp_all add: set_header_def limits_ok_def\<close>)
  qed
qed

lemma grow_map_ok:
  assumes "invar s K" "page_map s = Some m" "keeps s K s1 K1" "units_ok s1 K1" "limits_ok s1" "helds K1 \<subseteq> {bp}" "K1 bp = Some (Held al)"
  obtains "grow_map m bp s1 = Exits"
  | s' K' where "grow_map m bp s1 = Returns (bp, s')" "acquired s K al bp s' K'"
proof -
  define nm where "nm = ALIGN (map_size_for (file_size s1) + 8) 512 * 2 - 8"
  have fs: "file_size s1 \<le> 2 ^ 32" using assms(5) by (simp add: limits_ok_def)
  have "(2 :: nat) \<le> 2" "(2 :: nat) \<le> 8" by simp_all
  note ms = map_size [OF fs this nm_def]
  have p1: "units_ok s K" "map_ok s K" "map_covers s" using assms(1) by (simp_all add: invar_def)
  have g: "grow_map m bp s1 = outcome_bind (alloc_page page_map_cid nm s1) (\<lambda>(p, s).
      outcome_bind (free_page m s) (\<lambda>s. Returns (bp, new_page_map (p - 8) (size_at s1 m) s)))"
    unfolding grow_map_def sizeof_object_header_def page_size_def nm_def [symmetric] Let_def by (simp only: ms(4))
  show ?thesis
  proof (cases rule: alloc_map_ok [OF assms(4,5) ms(3,1)])
    case 1
    then show ?thesis by (intro that(1)) (simp add: g)
  next
    case (2 p s2 K2)
    have k2: "keeps s K s2 K2" by (rule keeps_trans [OF assms(3) 2(4)])
    obtain n where n: "K m = Some (Used n)" using map_run [OF p1(2) assms(2)] .
    have n2: "K2 m = Some (Used n)" using keepsD(1) [OF k2 n] by simp
    have mo: "map_ok s2 K2" by (rule keeps_map [OF k2 p1(2,1)])
    have pm2: "page_map s2 = Some m" using keepsD(4) [OF k2] assms(2) by simp
    have cm: "cid_at s2 m = page_map_cid" using mo n2 by (simp add: map_ok_def pm2)
    have fs2: "file_size s2 \<le> 2 ^ 32" using 2(6) by (simp add: limits_ok_def)
    from free_map_pages [OF 2(2) n2 cm fs2] obtain s3 K3 where f: "free_page m s2 = Returns s3" "units_ok s3 K3"
      "keeps s2 (K2(m \<mapsto> Free n)) s3 K3" "file_size s3 = file_size s2" "helds K3 \<subseteq> helds K2" by blast
    have pm: "p \<noteq> m" using 2(3) n2 by auto
    have bp: "bp \<noteq> p" using 2(5) assms(7) by (auto simp: fresh_def)
    have bm: "bp \<noteq> m" using assms(7) keepsD(1) [OF assms(3) n] by auto
    have k3: "K3 p = Some (Held (nm + 8))" "K3 bp = Some (Held al)"
      using keepsD(1) [OF f(3), of p] keepsD(1) [OF f(3), of bp] 2(3) keepsD(1) [OF 2(4) assms(7)] pm bm by auto
    have h3: "cid_at s3 p = page_map_cid" "size_at s3 p = nm"
      using keepsD(2) [OF f(3), of p "Held (nm + 8)"] 2(3,9,10) pm by (auto simp: same_headers_def)
    have fwd: "(K2(m \<mapsto> Free n)) u = Some k" if "K u = Some k" "in_use k" "u \<noteq> m" for u k
      using keepsD(1) [OF k2 that(1) in_use_not_free [OF that(2)]] that(3) by simp
    have used: "K3 u = Some k \<longleftrightarrow> K u = Some k \<and> u \<noteq> m" if "in_use k" for u k
    proof
      assume "K3 u = Some k"
      then have "(K2(m \<mapsto> Free n)) u = Some k" by (rule keepsD(3) [OF f(3) _ that])
      then have "K2 u = Some k" "u \<noteq> m" using that by (auto split: if_splits)
      then show "K u = Some k \<and> u \<noteq> m" using keepsD(3) [OF k2 _ that] by blast
    next
      assume "K u = Some k \<and> u \<noteq> m"
      then show "K3 u = Some k" using keepsD(1) [OF f(3) fwd in_use_not_free [OF that]] that by blast
    qed
    have same: "same_headers s s3 u (klen k)" if "K u = Some k" "in_use k" "u \<noteq> m" for u k
      by (rule same_headers_trans [OF keepsD(2) [OF k2 that(1) in_use_not_free [OF that(2)]]
            keepsD(2) [OF f(3) fwd [OF that] in_use_not_free [OF that(2)]]])
    define bits where "bits = (\<lambda>q. q div 8 < size_at s1 m \<and> map_bits s3 q)"
    define s4 where "s4 = s3\<lparr>page_map := Some p, map_bits := bits\<rparr>"
    let ?K = "K3(p \<mapsto> Used (nm + 8))"
    have nocid: "cid_at s3 u \<noteq> page_map_cid" if "K3 u = Some (Used k)" for u k
    proof -
      have u: "K u = Some (Used k)" "u \<noteq> m" using used [of "Used k" u] that by auto
      then have "cid_at s u \<noteq> page_map_cid" using p1(2) assms(2) by (auto simp: map_ok_def)
      then show ?thesis using same [OF u(1) _ u(2)] tilesD(5) [OF units_okD(1) [OF p1(1)] u(1)] by (simp add: same_headers_def)
    qed
    have b: "bits q \<longleftrightarrow> multi_page K3 p q" for q
    proof -
      have "map_bits s3 q \<longleftrightarrow> multi_page K m q"
        using keepsD(5) [OF f(3)] keepsD(5) [OF k2] p1(2) assms(2) by (simp add: map_ok_def)
      moreover have "multi_page K3 p q \<longleftrightarrow> multi_page K m q"
        unfolding multi_page_def using used [of "Used _"] k3(1) by (metis in_use.simps(3) kind.distinct(3) option.inject)
      moreover have "q div 8 < size_at s1 m" if mp: "multi_page K m q"
      proof -
        obtain u k where u: "K u = Some (Used k)" "q * 512 < u + k" using mp unfolding multi_page_def by blast
        then have "q * 512 < file_size s" using tilesD(7) [OF units_okD(1) [OF p1(1)] u(1)] by simp
        also have "\<dots> \<le> size_at s1 m * 4096" using p1(3) assms(2) keeps_map_size [OF assms(3) p1(2,1) assms(2)] by (simp add: map_covers_def)
        finally show ?thesis by auto
      qed
      ultimately show ?thesis unfolding bits_def by blast
    qed
    note nm = new_map [OF f(2) k3(1) h3(1) _ _ nocid b s4_def, unfolded h3(2), OF ms(1) [symmetric] ms(3)]
    have cov: "map_covers s4"
      using 2(7) ms(2) h3(2) f(4) by (simp add: map_covers_def s4_def)
    have lim: "limits_ok s4" using 2(6) f(4) keepsD(8,9) [OF f(3)] by (simp add: limits_ok_def s4_def)
    have "kept s K s4 ?K" unfolding kept_def
    proof (intro conjI allI impI)
      fix u k assume u: "K u = Some k" "in_use k" "page_map s \<noteq> Some u"
      then have "u \<noteq> m" "K3 u = Some k" using assms(2) used by auto
      then have "u \<noteq> p" using k3(1) u(2) by auto
      then show "?K u = Some k" "page_map s4 \<noteq> Some u" "same_headers s s4 u (klen k)"
        using \<open>K3 u = Some k\<close> same [OF u(1,2) \<open>u \<noteq> m\<close>] by (simp_all add: s4_def same_headers_def)
    next
      fix u k assume u: "?K u = Some k" "in_use k" "page_map s4 \<noteq> Some u"
      then have "u \<noteq> p" "K3 u = Some k" by (auto simp: s4_def split: if_splits)
      then show "K u = Some k" "page_map s \<noteq> Some u" using used [OF u(2), of u] assms(2) by auto
    qed (simp_all add: s4_def keepsD(6-) [OF f(3)] keepsD(6-) [OF k2])
    moreover have "helds ?K \<subseteq> {bp}" using f(5) 2(8) assms(6) by (auto simp: helds_def split: if_splits)
    ultimately have "acquired s K al bp s4 ?K"
      using nm cov lim k3(2) bp unfolding acquired_def invar_def by simp
    moreover have "grow_map m bp s1 = Returns (bp, s4)" unfolding g 2(1) by (simp add: f(1) new_page_map_def s4_def bits_def)
    ultimately show ?thesis by (intro that(2))
  qed
qed

end
