(* ===== verification/StorageObjects.thy ===== *)
theory StorageObjects
  imports StorageMap
begin

text \<open>
  Allocation, lookup and release of objects on a storage that satisfies the invariant.
\<close>

section \<open>Acquiring pages\<close>

lemma invar_keeps:
  assumes "invar s K" "keeps s K s' K'" "units_ok s' K'" "limits_ok s'" "map_covers s'"
  shows "invar s' K'"
  using assms keeps_map [OF assms(2)] by (simp add: invar_def)

lemma acquire_ok:
  assumes "invar s K" "helds K = {}" "al = ALIGN (sz + 8) 512"
  obtains "acquire sz al s = Exits"
  | bp s' K' where "acquire sz al s = Returns (bp, s')" "acquired s K al bp s' K'"
proof -
  have p: "units_ok s K" "limits_ok s" using assms(1) by (simp_all add: invar_def)
  show ?thesis
  proof (cases "take_pages sz al s = Returns (None, s)")
    case False
    obtain b t where t: "take_pages sz al s = Returns (Some b, t)"
      by (rule take_pages_ok [OF p(1) assms(3)]) (use False in auto)
    show ?thesis
    proof (cases rule: get_pages_ok [OF p assms(3)])
      case 1
      then show ?thesis by (simp add: get_pages_def t)
    next
      case (2 bp s' K')
      have "acquire sz al s = Returns (bp, s')"
        using 2(1) by (simp add: get_pages_def acquire_def t)
      moreover have "invar s' K'" using invar_keeps [OF assms(1) 2(4,2,6)] map_covers_keeps [OF 2(4) assms(1)] 2(9) False by blast
      ultimately show ?thesis
        using 2 assms(2) keeps_kept [OF 2(4)] by (intro that(2) [of bp s' K']) (auto simp: acquired_def)
    qed
  next
    case True
    note ext = True
    have g: "get_pages sz al s = extend_file al s" by (simp add: get_pages_def True)
    show ?thesis
    proof (cases rule: get_pages_ok [OF p assms(3)])
      case 1
      then show ?thesis by (intro that(1)) (simp add: acquire_def ext g)
    next
      case (2 bp s' K')
      have a: "acquire sz al s = (case page_map s' of None \<Rightarrow> Returns (bp, s')
          | Some m \<Rightarrow> if file_size s' > size_at s' m * page_size * 8 then grow_map m bp s' else Returns (bp, s'))"
        using 2(1) unfolding g by (simp add: acquire_def ext)
      have acq: "acquired s K al bp s' K'" if "map_covers s'"
        using 2 assms(2) keeps_kept [OF 2(4)] invar_keeps [OF assms(1) 2(4,2,6) that] by (auto simp: acquired_def)
      show ?thesis
      proof (cases "page_map s'")
        case None
        then show ?thesis using 2(8) acq by (intro that(2) [of bp s' K']) (simp_all add: a map_covers_def)
      next
        case (Some m)
        then have m: "page_map s = Some m" using keepsD(4) [OF 2(4)] by simp
        show ?thesis
        proof (cases "file_size s' > size_at s' m * page_size * 8")
          case False
          then show ?thesis using acq Some by (intro that(2) [of bp s' K']) (simp_all add: a map_covers_def page_size_def)
        next
          case True
          have h: "helds K' \<subseteq> {bp}" using 2(10) assms(2) by blast
          show ?thesis
          proof (cases rule: grow_map_ok [OF assms(1) m 2(4,2,6) h 2(3)])
            case 1
            then show ?thesis using True by (intro that(1)) (simp add: a Some)
          next
            case (2 s'' K'')
            then show ?thesis using 2 True by (intro that(2) [of bp s'' K'']) (simp_all add: a Some)
          qed
        qed
      qed
    qed
  qed
qed

section \<open>Filling the pages\<close>

definition fill :: "uint32 \<Rightarrow> nat \<Rightarrow> nat \<Rightarrow> nat \<Rightarrow> storage \<Rightarrow> (nat \<times> storage) outcome" where
  "fill cid sz al bp s =
     (let s = set_header bp cid sz s
      in if small sz then Returns (bp + 8, cut_page bp sz s)
         else if al > page_size
         then outcome_bind
                (case page_map s of
                   Some m \<Rightarrow> Returns s
                 | None \<Rightarrow>
                     let map_size = ALIGN (map_size_for (file_size s) + 8) page_size * init_page_map_size - 8
                     in outcome_bind (alloc_page page_map_cid (to_unsigned map_size) s) (\<lambda>(p, s).
                          Returns (new_page_map (p - 8) 0 s)))
                (\<lambda>s. outcome_bind (mark_pages True (bp div page_size) (al div page_size - 1) s) (\<lambda>s. Returns (bp + 8, s)))
         else Returns (bp + 8, s))"

lemma alloc_page_split:
  assumes "cid \<noteq> page_map_cid"
  shows "alloc_page cid sz s = outcome_bind (acquire sz (ALIGN (sz + 8) 512) s) (\<lambda>(bp, s). fill cid sz (ALIGN (sz + 8) 512) bp s)"
proof -
  have u: "(case r of (bp, s) \<Rightarrow> fill cid sz al bp s) = fill cid sz al (fst r) (snd r)" for r al by (cases r) simp
  have "alloc_page cid sz s = (let al = ALIGN (sz + 8) 512 in outcome_bind (take_pages sz al s) (\<lambda>(found, s). outcome_bind
      (case found of Some bp \<Rightarrow> Returns (bp, s) | None \<Rightarrow> outcome_bind (extend_file al s) (\<lambda>(bp, s). case page_map s of
           None \<Rightarrow> Returns (bp, s)
         | Some m \<Rightarrow> if file_size s > size_at s m * page_size * 8 then grow_map m bp s else Returns (bp, s)))
      (\<lambda>(bp, s). fill cid sz al bp s)))"
    using assms by (subst alloc_page.simps)
      (simp add: fill_def [abs_def] grow_map_def sizeof_object_header_def page_size_def Let_def cong: if_cong option.case_cong)
  also have "\<dots> = outcome_bind (acquire sz (ALIGN (sz + 8) 512) s) (\<lambda>(bp, s). fill cid sz (ALIGN (sz + 8) 512) bp s)"
    unfolding acquire_def outcome_bind_assoc Let_def
    by (intro arg_cong [of _ _ "outcome_bind _"] ext) (simp split: prod.split)
  finally show ?thesis .
qed

definition object_added :: "storage \<Rightarrow> layout \<Rightarrow> storage \<Rightarrow> layout \<Rightarrow> nat \<Rightarrow> uint32 \<Rightarrow> nat \<Rightarrow> bool" where
  "object_added s K s' K' h cid sz \<longleftrightarrow>
     \<not> is_object s K h \<and> (\<forall>x. is_object s' K' x \<longleftrightarrow> x = h \<or> is_object s K x) \<and> cid_at s' h = cid \<and> size_at s' h = sz \<and>
     (\<forall>x. is_object s K x \<longrightarrow> cid_at s' x = cid_at s x \<and> size_at s' x = size_at s x) \<and>
     app_class_mapping s' = app_class_mapping s \<and> mapped_size (data_file s') = mapped_size (data_file s) \<and>
     allocation_granularity (data_file s') = allocation_granularity (data_file s)"

text \<open>The header of held pages is written.\<close>

lemma invar_header:
  assumes "invar s K" "K bp = Some (Held al)" "s' = set_header bp cid sz s"
  shows "invar s' K" "kept s K s' K"
proof -
  have p: "units_ok s K" "map_ok s K" using assms(1) by (simp_all add: invar_def)
  have same: "same_headers s s' u (klen k)" if "K u = Some k" "u \<noteq> bp" for u k
    unfolding assms(3) by (rule header_apart [OF p(1) assms(2) that])
  have used: "cid_at s' u = cid_at s u \<and> size_at s' u = size_at s u" if "K u = Some (Used n)" for u n
    using that assms(2) by (auto simp: assms(3) set_header_def)
  have "map_covers s'"
  proof (cases "page_map s")
    case (Some m)
    then obtain n where "K m = Some (Used n)" using map_run [OF p(2)] by blast
    from used [OF this] show ?thesis using assms(1) Some by (simp add: invar_def map_covers_def assms(3) set_header_def)
  qed (simp add: map_covers_def assms(3) set_header_def)
  moreover have "map_ok s' K" by (rule map_ok_frame [OF p(2)]) (use used in \<open>auto simp: assms(3) set_header_def\<close>)
  ultimately show "invar s' K"
    using assms(1) held_header [OF p(1) assms(2)] by (simp add: invar_def limits_ok_def assms(3)) (simp add: set_header_def)
  show "kept s K s' K" unfolding kept_def
  proof (intro conjI allI impI)
    fix u k assume u: "K u = Some k" "in_use k"
    then have "u \<noteq> bp" using assms(2) by auto
    then show "same_headers s s' u (klen k)" by (rule same [OF u(1)])
  qed (simp_all add: assms(3) set_header_def)
qed

text \<open>Held pages with the header of a large object become the object once their bits are set.\<close>

lemma use_run:
  assumes "invar s K" "K bp = Some (Held al)" "unit_ok s bp (Used al)" "cid_at s bp \<noteq> page_map_cid" "page_map s = None \<Longrightarrow> al = 512"
    and s': "s' = s\<lparr>map_bits := (\<lambda>p. if bp < p * 512 \<and> p * 512 < bp + al then True else map_bits s p)\<rparr>"
  shows "invar s' (K(bp \<mapsto> Used al))" "object_added s K s' (K(bp \<mapsto> Used al)) bp (cid_at s bp) (size_at s bp)"
proof -
  let ?K = "K(bp \<mapsto> Used al)"
  have p: "units_ok s K" "map_ok s K" using assms(1) by (simp_all add: invar_def)
  have "units_ok (s\<lparr>page_map := page_map s, map_bits := map_bits s'\<rparr>) ?K"
    unfolding units_ok_map by (rule held_used [OF p(1) assms(2,3)])
  then have po: "units_ok s' ?K" by (simp add: s')
  have nm: "page_map s \<noteq> Some bp" using map_run [OF p(2)] assms(2) by fastforce
  have "map_ok s' ?K"
  proof (cases "page_map s")
    case None
    then show ?thesis using p(2) assms(4,5) by (auto simp: map_ok_def s')
  next
    case (Some m)
    have "multi_page ?K m q \<longleftrightarrow> multi_page K m q \<or> (bp < q * 512 \<and> q * 512 < bp + al)" for q
      using nm Some assms(2) by (auto simp: multi_page_def)
    then show ?thesis using p(2) Some assms(2,4) nm by (auto simp: map_ok_def s')
  qed
  then show "invar s' ?K" using assms(1) po by (simp add: invar_def map_covers_def limits_ok_def s' split: option.splits)
  have no: "\<not> is_object s K bp"
  proof
    assume "is_object s K bp"
    then obtain u i where u: "K u = Some (Cells i)" "bp \<in> cells u i" using assms(2) by (auto simp: is_object_def)
    have "u \<noteq> bp" using u(1) assms(2) by auto
    from unit_apart [OF p(1) u(1) assms(2) this] show False
      using cells_in_unit [OF p(1) u] tilesD(5) [OF units_okD(1) [OF p(1)] assms(2)] by auto
  qed
  have "(\<exists>n. ?K x = Some (Used n) \<and> page_map s \<noteq> Some x) \<longleftrightarrow> x = bp \<or> (\<exists>n. K x = Some (Used n) \<and> page_map s \<noteq> Some x)" for x
    using nm by auto
  moreover have "?K u = Some (Cells i) \<longleftrightarrow> K u = Some (Cells i)" for u i using assms(2) by auto
  ultimately have "is_object s' ?K x \<longleftrightarrow> x = bp \<or> is_object s K x" for x by (auto simp: is_object_def s')
  then show "object_added s K s' ?K bp (cid_at s bp) (size_at s bp)"
    unfolding object_added_def using no by (simp add: s')
qed

text \<open>A page of blocks with its first block in use.\<close>

lemma use_cells:
  assumes "invar s K" "K bp = Some (Held 512)" "small sz" "obj_cid cid" "cid \<noteq> page_map_cid"
    and s': "s' = cut_page bp sz (set_header bp cid sz s)" and i: "i = block_chain_of sz"
  shows "invar s' (K(bp \<mapsto> Cells i))" "object_added s K s' (K(bp \<mapsto> Cells i)) bp cid sz"
proof -
  let ?K = "K(bp \<mapsto> Cells i)"
  have p: "units_ok s K" "map_ok s K" using assms(1) by (simp_all add: invar_def)
  note c = cut_page_ok [OF p(1) assms(2-7)]
  have i13: "i < 13" using small_class(1) [OF assms(3)] i by simp
  have fields: "page_map s' = page_map s" "map_bits s' = map_bits s" "file_size s' = file_size s" "data_file s' = data_file s"
    "app_class_mapping s' = app_class_mapping s"
    by (simp_all add: s' cut_page_def push_blocks_def set_header_def Let_def)
  have out: "x \<notin> cells bp i" if "K u = Some k" "u \<noteq> bp" "u \<le> x" "x < u + klen k" for u k x
    using unit_apart [OF p(1) that(1) assms(2) that(2)] cells_bounds(1,3) [of x bp i] i13 that(3,4) by auto
  have same: "cid_at s' x = cid_at s x \<and> size_at s' x = size_at s x" if "K u = Some k" "u \<noteq> bp" "u \<le> x" "x < u + klen k" for u k x
    using c(3) [OF out [OF that]] c(4) out [OF that] cells_first [OF i13, of bp] by auto
  have used: "cid_at s' u = cid_at s u \<and> size_at s' u = size_at s u" if "K u = Some (Used n)" for u n
    by (rule same [OF that]) (use assms(2) that tilesD(5) [OF units_okD(1) [OF p(1)] that] in auto)
  have cell: "cid_at s' x = cid_at s x \<and> size_at s' x = size_at s x" if "K u = Some (Cells j)" "x \<in> cells u j" for u j x
    by (rule same [OF that(1)]) (use assms(2) that(1) cells_in_unit [OF p(1) that] in auto)
  have "map_ok s' ?K"
    by (rule map_ok_frame [OF p(2) fields(1,2)]) (use used assms(2) in auto)
  moreover have "map_covers s'"
  proof (cases "page_map s")
    case (Some m)
    then obtain n where "K m = Some (Used n)" using map_run [OF p(2)] by blast
    from used [OF this] show ?thesis using assms(1) Some by (simp add: invar_def map_covers_def fields)
  qed (simp add: map_covers_def fields)
  ultimately show "invar s' ?K" using assms(1) c(1) by (simp add: invar_def limits_ok_def fields)
  have no: "\<not> is_object s K bp"
  proof
    assume "is_object s K bp"
    then obtain u j where u: "K u = Some (Cells j)" "bp \<in> cells u j" using assms(2) by (auto simp: is_object_def)
    have "u \<noteq> bp" using u(1) assms(2) by auto
    from out [OF u(1) this] show False using cells_in_unit [OF p(1) u] cells_first [OF i13, of bp] by simp
  qed
  have bp: "cid_at s' bp = cid" "cid \<noteq> free_object" using c(2) [OF cells_first [OF i13]] assms(4) by (simp_all add: obj_cid_def)
  have iff: "is_object s' ?K x \<longleftrightarrow> x = bp \<or> is_object s K x" for x
  proof -
    have "(\<exists>n. ?K x = Some (Used n) \<and> page_map s' \<noteq> Some x) \<longleftrightarrow> (\<exists>n. K x = Some (Used n) \<and> page_map s \<noteq> Some x)"
      using assms(2) by (auto simp: fields)
    moreover have "(\<exists>u j. ?K u = Some (Cells j) \<and> x \<in> cells u j \<and> cid_at s' x \<noteq> free_object) \<longleftrightarrow>
        x = bp \<or> (\<exists>u j. K u = Some (Cells j) \<and> x \<in> cells u j \<and> cid_at s x \<noteq> free_object)"
    proof -
      have "(x \<in> cells bp i \<and> cid_at s' x \<noteq> free_object) \<longleftrightarrow> x = bp" using c(2) [of x] bp cells_first [OF i13, of bp]
        by (cases "x = bp") simp_all
      moreover have "(\<exists>u j. ?K u = Some (Cells j) \<and> x \<in> cells u j \<and> cid_at s' x \<noteq> free_object) \<longleftrightarrow>
          (x \<in> cells bp i \<and> cid_at s' x \<noteq> free_object) \<or> (\<exists>u j. K u = Some (Cells j) \<and> x \<in> cells u j \<and> cid_at s' x \<noteq> free_object)"
        using assms(2) by (auto split: if_splits) (metis kind.distinct(5) option.inject)
      ultimately show ?thesis using cell by (metis (no_types, lifting))
    qed
    ultimately show ?thesis unfolding is_object_def by blast
  qed
  have keep: "cid_at s' x = cid_at s x \<and> size_at s' x = size_at s x" if "is_object s K x" for x
    using that used cell unfolding is_object_def by blast
  show "object_added s K s' ?K bp cid sz"
    unfolding object_added_def using no iff bp keep c(4) by (simp add: fields)
qed

lemma object_added_kept:
  assumes "kept s K t L" "invar s K" "invar t L" "object_added t L s' K' h cid sz"
  shows "object_added s K s' K' h cid sz"
proof -
  have p: "map_ok s K" "map_ok t L" "units_ok s K" using assms(2,3) by (simp_all add: invar_def)
  note o = kept_objects [OF assms(1) p]
  show ?thesis using assms(4) o keptD(7-9) [OF assms(1)] unfolding object_added_def by (metis (no_types, lifting))
qed

text \<open>Single pages need no bits.\<close>

lemma no_bits:
  assumes "512 dvd (bp :: nat)"
  shows "(\<lambda>p. if bp < p * 512 \<and> p * 512 < bp + 512 then b else f p) = f"
  using assms by (auto simp: fun_eq_iff elim!: dvdE)

lemma helds_used: "helds K \<subseteq> {bp} \<Longrightarrow> helds (K(bp \<mapsto> Used n)) = {} \<and> helds (K(bp \<mapsto> Cells i)) = {}"
  by (auto simp: helds_def split: if_splits)

text \<open>The first page map of a storage.\<close>

lemma first_map_ok:
  assumes "invar s K" "page_map s = None" "K bp = Some (Held al)" "helds K \<subseteq> {bp}"
    and nm: "nm = ALIGN (map_size_for (file_size s) + 8) 512 * 8 - 8"
  obtains "alloc_page page_map_cid (to_unsigned nm) s = Exits"
  | p t K' where "alloc_page page_map_cid (to_unsigned nm) s = Returns (p + 8, t)" "invar (new_page_map p 0 t) K'"
      "K' bp = Some (Held al)" "helds K' \<subseteq> {bp}" "kept s K (new_page_map p 0 t) K'" "same_headers s t bp al"
proof -
  have p: "units_ok s K" "map_ok s K" "limits_ok s" using assms(1) by (simp_all add: invar_def)
  have fs: "file_size s \<le> 2 ^ 32" using p(3) by (simp add: limits_ok_def)
  have "(2 :: nat) \<le> 8" "(8 :: nat) \<le> 8" by simp_all
  note ms = map_size [OF fs this nm]
  show ?thesis
  proof (cases rule: alloc_map_ok [OF p(1,3) ms(3,1)])
    case 1
    then show ?thesis by (intro that(1)) (simp add: ms(4))
  next
    case (2 p t L)
    let ?t = "new_page_map p 0 t" and ?L = "L(p \<mapsto> Used (nm + 8))"
    have bp: "bp \<noteq> p" using 2(5) assms(3) by (auto simp: fresh_def)
    have bpL: "L bp = Some (Held al)" "same_headers s t bp al"
      using keepsD(1,2) [OF 2(4) assms(3)] by simp_all
    have used: "K u = Some (Used n)" if "L u = Some (Used n)" for u n by (rule keepsD(3) [OF 2(4) that]) simp
    have one: "n = 512 \<and> cid_at t u \<noteq> page_map_cid" if "L u = Some (Used n)" for u n
    proof -
      have "same_headers s t u n" using keepsD(2) [OF 2(4) used [OF that]] by simp
      then show ?thesis using p(2) used [OF that] tilesD(5) [OF units_okD(1) [OF p(1)] used [OF that]] assms(2)
        by (auto simp: map_ok_def same_headers_def)
    qed
    have multi: "\<not> multi_page L p q" for q
    proof
      assume "multi_page L p q"
      then obtain u n where u: "L u = Some (Used n)" "u < q * 512" "q * 512 < u + n" by (auto simp: multi_page_def)
      have "512 dvd u" by (rule tilesD(3) [OF units_okD(1) [OF 2(2)] u(1)])
      then show False using u one [OF u(1)] by (auto elim!: dvdE)
    qed
    have n: "units_ok ?t ?L" "map_ok ?t ?L"
      unfolding new_page_map_def
      by (rule new_map [OF 2(2,3,9) _ _ _ _ refl], use 2(10) ms(1,3) one multi in simp_all)+
    have "invar ?t ?L" using n 2(6,7,10) ms(2) by (simp add: invar_def map_covers_def limits_ok_def new_page_map_def)
    moreover have "helds ?L \<subseteq> {bp}" using 2(8) assms(4) by (auto simp: helds_def split: if_splits)
    moreover have "kept s K ?t ?L" unfolding kept_def
    proof (intro conjI allI impI)
      fix u k assume u: "K u = Some k" "in_use k"
      have up: "u \<noteq> p" using 2(5) u by (auto simp: fresh_def)
      show "?L u = Some k" "page_map ?t \<noteq> Some u" "same_headers s ?t u (klen k)"
        using keepsD(1,2) [OF 2(4) u(1) in_use_not_free [OF u(2)]] up by (simp_all add: new_page_map_def same_headers_def)
    next
      fix u k assume u: "?L u = Some k" "in_use k" "page_map ?t \<noteq> Some u"
      then show "K u = Some k" using keepsD(3) [OF 2(4), of u k] by (simp add: new_page_map_def)
    qed (simp_all add: assms(2) new_page_map_def keepsD(6-) [OF 2(4)])
    ultimately show ?thesis using 2(1) bpL bp by (intro that(2) [of p t ?L]) (simp_all add: ms(4))
  qed
qed

lemma kept_trans:
  assumes "kept s K t L" "kept t L r M"
  shows "kept s K r M"
  unfolding kept_def
proof (intro conjI allI impI)
  note a = keptD [OF assms(1)] and b = keptD [OF assms(2)]
  fix u k assume u: "K u = Some k" "in_use k" "page_map s \<noteq> Some u"
  note l = a(1) [OF u] a(2) [OF u]
  show "M u = Some k" "page_map r \<noteq> Some u" by (rule b(1,2) [OF l(1) u(2) l(2)])+
  show "same_headers s r u (klen k)" by (rule same_headers_trans [OF a(3) [OF u] b(3) [OF l(1) u(2) l(2)]])
next
  note a = keptD [OF assms(1)] and b = keptD [OF assms(2)]
  fix u k assume u: "M u = Some k" "in_use k" "page_map r \<noteq> Some u"
  note l = b(4) [OF u] b(5) [OF u]
  show "K u = Some k" "page_map s \<noteq> Some u" by (rule a(4,5) [OF l(1) u(2) l(2)])+
qed (simp_all add: keptD(6-) [OF assms(1)] keptD(6-) [OF assms(2)])

text \<open>A large object in its pages, once its header is written and the map is there.\<close>

lemma fill_run:
  assumes "invar s K" "K bp = Some (Held al)" "helds K \<subseteq> {bp}" "al = ALIGN (sz + 8) 512" "512 < al" "page_map s = Some m"
    and "cid_at s bp = cid" "size_at s bp = sz" "obj_cid cid" "cid \<noteq> page_map_cid" "\<not> small sz"
  obtains s' K' where "outcome_bind (mark_pages True (bp div page_size) (al div page_size - 1) s) (\<lambda>s. Returns (bp + 8, s)) = Returns (bp + 8, s')"
    "invar s' K'" "helds K' = {}" "object_added s K s' K' bp cid sz"
proof -
  note p = assms(1) [unfolded invar_def]
  note t = tilesD [OF units_okD(1) [of s K]]
  have u: "512 dvd bp" "512 dvd al" "bp + al \<le> file_size s" using t(3,4,7) [OF _ assms(2)] p by simp_all
  have c: "map_covers s" using p by simp
  have al: "0 < al" using assms(5) by simp
  note m = mark_run [OF c assms(6) u(1,2) al u(3), of True]
  have ok: "unit_ok s bp (Used al)" using assms(4,7-11) by simp
  have cid: "cid_at s bp \<noteq> page_map_cid" using assms(7,10) by simp
  have "page_map s = None \<Longrightarrow> al = 512" using assms(6) by simp
  note r = use_run [OF assms(1,2) ok cid this refl, unfolded assms(7,8)]
  show ?thesis by (rule that [OF _ r(1) _ r(2)]) (use m helds_used [OF assms(3)] in simp_all)
qed

lemma fill_ok:
  assumes "invar s K" "K bp = Some (Held al)" "helds K \<subseteq> {bp}" "al = ALIGN (sz + 8) 512" "obj_cid cid" "cid \<noteq> page_map_cid"
  obtains "fill cid sz al bp s = Exits"
  | s' K' where "fill cid sz al bp s = Returns (bp + 8, s')" "invar s' K'" "helds K' = {}" "object_added s K s' K' bp cid sz"
proof -
  let ?t = "set_header bp cid sz s"
  note h = invar_header [OF assms(1,2) refl, of cid sz]
  have hd: "cid_at ?t bp = cid" "size_at ?t bp = sz" "page_map ?t = page_map s" "file_size ?t = file_size s" "data_file ?t = data_file s"
    by (simp_all add: set_header_def)
  have al: "512 dvd al" "0 < al" "512 dvd bp"
    using tilesD(3-5) [OF units_okD(1) [of s K] assms(2)] assms(1) by (simp_all add: invar_def)
  have "al = 512 \<or> 512 < al" using al(1,2) by (auto elim!: dvdE)
  then consider "small sz" | "\<not> small sz" "al = 512" | m where "\<not> small sz" "512 < al" "page_map s = Some m"
    | "\<not> small sz" "512 < al" "page_map s = None" by (cases "page_map s") blast+
  then show ?thesis
  proof cases
    case 1
    have "al = 512" using small_align [OF 1] assms(4) by simp
    note u = use_cells [OF assms(1) assms(2) [unfolded this] 1 assms(5,6) refl refl]
    show ?thesis by (rule that(2) [OF _ u(1) _ u(2)]) (use 1 helds_used [OF assms(3)] in \<open>simp_all add: fill_def\<close>)
  next
    case 2
    have ok: "unit_ok ?t bp (Used al)" "cid_at ?t bp \<noteq> page_map_cid" using 2 assms(4-6) hd by simp_all
    have "?t = ?t\<lparr>map_bits := (\<lambda>p. if bp < p * 512 \<and> p * 512 < bp + al then True else map_bits ?t p)\<rparr>"
      unfolding 2(2) no_bits [OF al(3)] by simp
    note u = use_run [OF h(1) assms(2) ok 2(2) this, unfolded hd]
    show ?thesis
      by (rule that(2) [OF _ u(1) _ object_added_kept [OF h(2) assms(1) h(1) u(2)]])
        (use 2 helds_used [OF assms(3)] in \<open>simp_all add: fill_def page_size_def\<close>)
  next
    case (3 m)
    have pm: "page_map ?t = Some m" using 3(3) hd(3) by simp
    from fill_run [OF h(1) assms(2-4) 3(2) pm hd(1,2) assms(5,6) 3(1)] obtain s' K' where
      f: "outcome_bind (mark_pages True (bp div page_size) (al div page_size - 1) ?t) (\<lambda>s. Returns (bp + 8, s)) = Returns (bp + 8, s')"
      "invar s' K'" "helds K' = {}" "object_added ?t K s' K' bp cid sz" by blast
    show ?thesis
      by (rule that(2) [OF _ f(2,3) object_added_kept [OF h(2) assms(1) h(1) f(4)]])
        (use 3 f(1) pm in \<open>simp add: fill_def page_size_def\<close>)
  next
    case 4
    have pm: "page_map ?t = None" using 4(3) hd(3) by simp
    define nm where "nm = ALIGN (map_size_for (file_size ?t) + 8) 512 * 8 - 8"
    have F: "fill cid sz al bp s = outcome_bind (outcome_bind (alloc_page page_map_cid (to_unsigned nm) ?t) (\<lambda>(p, s). Returns (new_page_map (p - 8) 0 s)))
        (\<lambda>s. outcome_bind (mark_pages True (bp div page_size) (al div page_size - 1) s) (\<lambda>s. Returns (bp + 8, s)))"
      using 4(1,2) unfolding fill_def Let_def pm nm_def by (simp add: page_size_def sizeof_object_header_def init_page_map_size_def)
    show ?thesis
    proof (cases rule: first_map_ok [OF h(1) pm assms(2,3) nm_def])
      case 1
      then show ?thesis by (intro that(1)) (simp add: F)
    next
      case (2 p t L)
      let ?r = "new_page_map p 0 t"
      have r: "page_map ?r = Some p" "cid_at ?r bp = cid" "size_at ?r bp = sz"
        using 2(6) al(2) hd(1,2) by (simp_all add: new_page_map_def same_headers_def)
      from fill_run [OF 2(2-4) assms(4) 4(2) r assms(5,6) 4(1)] obtain s' K' where
        f: "outcome_bind (mark_pages True (bp div page_size) (al div page_size - 1) ?r) (\<lambda>s. Returns (bp + 8, s)) = Returns (bp + 8, s')"
        "invar s' K'" "helds K' = {}" "object_added ?r L s' K' bp cid sz" by blast
      show ?thesis
        by (rule that(2) [OF _ f(2,3) object_added_kept [OF kept_trans [OF h(2) 2(5)] assms(1) 2(2) f(4)]]) (use f(1) in \<open>simp add: F 2(1)\<close>)
    qed
  qed
qed

section \<open>Allocation\<close>

lemma alloc_page_ok:
  assumes "invar s K" "helds K = {}" "obj_cid cid" "cid \<noteq> page_map_cid"
  obtains "alloc_page cid sz s = Exits"
  | h s' K' where "alloc_page cid sz s = Returns (h + 8, s')" "invar s' K'" "helds K' = {}" "object_added s K s' K' h cid sz"
proof -
  let ?al = "ALIGN (sz + 8) 512"
  note a = alloc_page_split [OF assms(4), of sz s]
  show ?thesis
  proof (cases rule: acquire_ok [OF assms(1,2) refl, of sz])
    case 1
    then show ?thesis by (intro that(1)) (simp_all add: a)
  next
    case (2 bp t L)
    have q: "invar t L" "L bp = Some (Held ?al)" "helds L \<subseteq> {bp}" "kept s K t L" using 2(2) by (simp_all add: acquired_def)
    show ?thesis
    proof (cases rule: fill_ok [OF q(1-3) refl assms(3,4)])
      case 1
      then show ?thesis by (intro that(1)) (simp add: a 2(1))
    next
      case (2 s' K')
      show ?thesis
        by (rule that(2) [OF _ 2(2,3) object_added_kept [OF q(4) assms(1) q(1) 2(4)]]) (simp add: a \<open>acquire sz ?al s = Returns (bp, t)\<close> 2(1))
    qed
  qed
qed

end
