(* ===== verification/StorageCalls.thy ===== *)
theory StorageCalls
  imports StorageObjects
begin

text \<open>
  The calls of a client on a storage that satisfies the invariant: \<open>allocate\<close>, \<open>get_header\<close> and \<open>free_obj\<close>.
\<close>

section \<open>One block changes hands\<close>

lemma cell_place:
  assumes "units_ok s K" "K u = Some (Cells i)" "c \<in> cells u i" "K v = Some k" "v \<le> c" "c < v + klen k"
  shows "v = u"
  using tiles_unique [OF units_okD(1) [OF assms(1)] assms(4,2,5,6)] cells_in_unit [OF assms(1-3)] by simp

lemma cell_change:
  assumes "units_ok s K" "K u = Some (Cells n)" "c \<in> cells u n"
    and far: "\<And>p. p \<noteq> c \<Longrightarrow> cid_at s' p = cid_at s p \<and> size_at s' p = size_at s p"
    and "file_size s' = file_size s" "free_page_chain s' = free_page_chain s" "curr_free_page s' = curr_free_page s"
    and "cell_ok s' n c" "c = u \<Longrightarrow> small (size_at s' c) \<and> block_chain_of (size_at s' c) = n" "blocks_ok s' K"
  shows "units_ok s' K"
  unfolding units_ok_def
proof (intro conjI allI impI)
  show "tiles K page_size (file_size s')" using units_okD(1) [OF assms(1)] assms(5) by simp
  show "free_chain_ok s' K" by (rule chain_keep [OF units_okD(3) [OF assms(1)] assms(6,7) refl])
  show "blocks_ok s' K" by (rule assms(10))
  fix v k assume v: "K v = Some k"
  show "unit_ok s' v k"
  proof (cases "v = u")
    case True
    then have k: "k = Cells n" using v assms(2) by simp
    have "cell_ok s' n d" if "d \<in> cells u n" for d
    proof (cases "d = c")
      case False
      then show ?thesis using far [OF False] units_okD(2) [OF assms(1,2)] that by (simp add: cell_ok_def)
    qed (use assms(8) in simp)
    moreover have "small (size_at s' u) \<and> block_chain_of (size_at s' u) = n"
      using assms(9) far [of u] units_okD(2) [OF assms(1,2)] by (cases "c = u") auto
    ultimately show ?thesis using units_okD(2) [OF assms(1,2)] True k by simp
  next
    case False
    have "p \<noteq> c" if "v \<le> p" "p < v + klen k" for p using cell_place [OF assms(1-3) v] that False by blast
    then have "same_headers s s' v (klen k)" using far by (simp add: same_headers_def)
    from unit_keep [OF assms(1) v this] show ?thesis .
  qed
qed

lemma cell_frame:
  assumes "units_ok s K" "map_ok s K" "map_covers s" "limits_ok s" "K u = Some (Cells n)" "c \<in> cells u n" "units_ok s' K"
    and far: "\<And>p. p \<noteq> c \<Longrightarrow> cid_at s' p = cid_at s p \<and> size_at s' p = size_at s p"
    and "file_size s' = file_size s" "page_map s' = page_map s" "map_bits s' = map_bits s" "data_file s' = data_file s"
  shows "invar s' K" "K v = Some (Used m) \<Longrightarrow> v \<noteq> c"
proof -
  show ne: "v \<noteq> c" if "K v = Some (Used m)" for v m
  proof
    assume "v = c"
    from cell_place [OF assms(1,5,6) that] this tilesD(5) [OF units_okD(1) [OF assms(1)] that] have "v = u" by simp
    then show False using that assms(5) by simp
  qed
  have "map_ok s' K" by (rule map_ok_frame [OF assms(2,10,11) refl]) (use far ne in blast)
  moreover have "map_covers s'"
  proof (cases "page_map s")
    case (Some m)
    then obtain n where "K m = Some (Used n)" using map_run [OF assms(2)] by blast
    then have "size_at s' m = size_at s m" using far ne by blast
    then show ?thesis using assms(3) Some by (simp add: map_covers_def assms(9,10))
  qed (simp add: map_covers_def assms(10))
  ultimately show "invar s' K" using assms(4,7) by (simp add: invar_def limits_ok_def assms(9,12))
qed

lemma block_taken:
  assumes "invar s K" "obj_cid cid" "cid \<noteq> page_map_cid" "small sz" "n = block_chain_of sz" "free_block_chain s ! n = bp # rest"
    and s': "s' = set_header bp cid sz (s\<lparr>free_block_chain := (free_block_chain s)[n := rest]\<rparr>)"
  shows "invar s' K" "object_added s K s' K bp cid sz"
proof -
  have p: "units_ok s K" "map_ok s K" "map_covers s" "limits_ok s" using assms(1) by (simp_all add: invar_def)
  have n: "n < 13" using small_class(1) [OF assms(4)] assms(5) by simp
  note b = units_okD(4) [OF p(1), unfolded blocks_ok_def]
  have ch: "distinct (bp # rest)" "set (bp # rest) = free_cells s K n" using b n assms(6) by metis+
  then obtain u where u: "K u = Some (Cells n)" "bp \<in> cells u n" "cid_at s bp = free_object" by (auto simp: free_cells_def)
  have far: "cid_at s' x = cid_at s x \<and> size_at s' x = size_at s x" if "x \<noteq> bp" for x using that by (simp add: s' set_header_def)
  have fields: "file_size s' = file_size s" "free_page_chain s' = free_page_chain s" "curr_free_page s' = curr_free_page s"
    "page_map s' = page_map s" "map_bits s' = map_bits s" "data_file s' = data_file s" "app_class_mapping s' = app_class_mapping s"
    "free_block_chain s' = (free_block_chain s)[n := rest]" "cid_at s' bp = cid" "size_at s' bp = sz"
    by (simp_all add: s' set_header_def)
  have cid: "cid \<noteq> free_object" using assms(2) by (simp add: obj_cid_def)
  have unit: "v = u" if "K v = Some (Cells j)" "bp \<in> cells v j" for v j
    using cell_place [OF p(1) u(1,2) that(1)] cells_in_unit [OF p(1) that] by simp
  have free: "free_cells s' K i = free_cells s K i - {bp}" for i
  proof (rule set_eqI)
    show "x \<in> free_cells s' K i \<longleftrightarrow> x \<in> free_cells s K i - {bp}" for x
      using far [of x] cid fields(9) unfolding free_cells_def by (cases "x = bp") simp_all
  qed
  have "blocks_ok s' K" unfolding blocks_ok_def
  proof (intro conjI allI impI)
    fix i :: nat assume i: "i < 13"
    have "bp \<notin> free_cells s K i" if "i \<noteq> n" using unit u(1) that by (fastforce simp: free_cells_def)
    then show "set (free_block_chain s' ! i) = free_cells s' K i" "distinct (free_block_chain s' ! i)"
      using b i ch unfolding free fields(8) by (cases "i = n"; force)+
  qed (use b in \<open>simp add: fields(8)\<close>)
  moreover have "cell_ok s' n bp" "small (size_at s' bp) \<and> block_chain_of (size_at s' bp) = n"
    using assms(2-5) fields(9,10) by (simp_all add: cell_ok_def)
  ultimately have po: "units_ok s' K" by (intro cell_change [OF p(1) u(1,2) far fields(1-3)])
  note fr = cell_frame [OF p u(1,2) po far fields(1,4-6)]
  show "invar s' K" by (rule fr(1))
  have no: "\<not> is_object s K bp" using fr(2) u(3) by (auto simp: is_object_def)
  have "is_object s' K x \<longleftrightarrow> x = bp \<or> is_object s K x" for x
  proof (cases "x = bp")
    case True
    then show ?thesis using u(1,2) cid fields(9) by (auto simp: is_object_def)
  qed (use far [of x] in \<open>simp add: is_object_def fields(4)\<close>)
  moreover have "cid_at s' x = cid_at s x \<and> size_at s' x = size_at s x" if "is_object s K x" for x
    using far [of x] that no by blast
  ultimately show "object_added s K s' K bp cid sz" using no by (simp add: object_added_def fields)
qed

lemma allocate_object_ok:
  assumes "invar s K" "helds K = {}" "obj_cid cid" "cid \<noteq> page_map_cid"
  obtains "allocate_object cid sz s = Exits"
  | h s' K' where "allocate_object cid sz s = Returns (h + 8, s')" "invar s' K'" "helds K' = {}" "object_added s K s' K' h cid sz"
proof (cases "small sz \<and> free_block_chain s ! block_chain_of sz \<noteq> []")
  case True
  then obtain bp rest where c: "free_block_chain s ! block_chain_of sz = bp # rest" by (auto simp: neq_Nil_conv)
  have sm: "small sz" using True by blast
  note t = block_taken [OF assms(1,3,4) sm refl c refl]
  show ?thesis by (rule that(2) [OF _ t(1) assms(2) t(2)]) (use True c in \<open>simp add: allocate_object_def Let_def sizeof_object_header_def\<close>)
next
  case False
  then have a: "allocate_object cid sz s = alloc_page cid sz s" by (auto simp: allocate_object_def)
  show ?thesis by (cases rule: alloc_page_ok [OF assms, of sz]) (use that False in \<open>auto simp: a\<close>)
qed

section \<open>The header of an address\<close>

lemma class_powers: "\<forall>i\<in>set [0..<13]. class_size i AND (class_size i - 1) = 0 \<longrightarrow> class_size i dvd 512"
  by code_simp

lemma first_page_ok:
  assumes "a < n" "\<not> map_bits s a" "\<forall>p. a < p \<longrightarrow> p < n \<longrightarrow> map_bits s p" "\<forall>p<n. in_page_map s p"
  shows "first_page s n = Returns a"
  using assms
proof (induction n)
  case (Suc n)
  then show ?case by (cases "a = n") simp_all
qed simp

lemma page_of:
  assumes "512 dvd (u :: nat)" "u \<le> x" "x < u + 512"
  shows "x mod 512 = x - u" "x - x mod 512 = u" "x div 512 = u div 512"
proof -
  obtain a where a: "u = 512 * a" using assms(1) by (elim dvdE)
  then have x: "x = 512 * a + (x - u)" "x - u < 512" using assms(2,3) by simp_all
  show m: "x mod 512 = x - u" by (subst x(1)) (use x(2) in simp)
  show "x - x mod 512 = u" unfolding m using assms(2) by simp
  show "x div 512 = u div 512" using x a by simp
qed

lemma block_start_page:
  assumes "512 dvd u" "u \<le> x" "x < u + 512"
  shows "block_start s x =
    (if small (size_at s u)
     then (let sz = block_size_of (size_at s u) in if sz AND (sz - 1) \<noteq> 0 then x - (x - u) mod sz else x - x mod sz)
     else u)"
  unfolding block_start_def page_size_def page_of(2) [OF assms] Let_def unfolding page_of(1) [OF assms] by (rule refl)

lemma block_start_cell:
  assumes "512 dvd u" "i < 13" "small (size_at s u)" "block_chain_of (size_at s u) = i" "c \<in> cells u i" "c \<le> x" "x < c + class_size i"
  shows "block_start s x = c"
proof -
  let ?cs = "class_size i"
  obtain k where k: "c = u + k * ?cs" using assms(5) by (auto simp: cells_def)
  define r where "r = x - c"
  have r: "x = u + k * ?cs + r" "r < ?cs" using assms(6,7) k by (simp_all add: r_def)
  have x: "u \<le> x" "x < u + 512" using cells_bounds [OF assms(5,2)] assms(6,7) by auto
  note pg = page_of(1) [OF assms(1) x] and bsp = block_start_page [OF assms(1) x]
  have bs: "block_size_of (size_at s u) = ?cs" using small_class(2) [OF assms(3)] assms(4) by simp
  have m: "(x - u) mod ?cs = r" using r by simp
  show ?thesis
  proof (cases "?cs AND (?cs - 1) = 0")
    case False
    have "block_start s x = x - (x mod 512) mod ?cs" using False assms(3) bs by (simp add: bsp pg Let_def)
    then show ?thesis using pg m k r by simp
  next
    case True
    have "?cs dvd 512" using True class_powers assms(2) by auto
    then have "?cs dvd u" using assms(1) dvd_trans by blast
    then obtain j where "u = ?cs * j" by (elim dvdE)
    then have "x = (j + k) * ?cs + r" using r(1) by (simp add: algebra_simps)
    then have "x mod ?cs = r" using r(2) by simp
    moreover have "block_start s x = x - x mod ?cs" using True assms(3) bs by (simp add: bsp Let_def)
    ultimately show ?thesis using k r by simp
  qed
qed

lemma not_multi:
  assumes "units_ok s K" "K u = Some k"
  shows "\<not> multi_page K m (u div 512)"
proof
  assume "multi_page K m (u div 512)"
  then obtain v n where v: "K v = Some (Used n)" "v < u div 512 * 512" "u div 512 * 512 < v + n" by (auto simp: multi_page_def)
  have "u div 512 * 512 = u" using tilesD(3) [OF units_okD(1) [OF assms(1)] assms(2)] by simp
  then show False using v unit_apart [OF assms(1) v(1) assms(2)] tilesD(5) [OF units_okD(1) [OF assms(1)] assms(2)] by auto
qed

text \<open>The first page of a unit is found by the header of the page.\<close>

lemma header_first:
  assumes "invar s K" "K u = Some k" "u \<le> x" "x < u + 512" "cid_at s (block_start s x) \<noteq> free_object"
  shows "get_header s (x + 8) = Returns (block_start s x)"
proof -
  have p: "units_ok s K" "map_ok s K" "map_covers s" using assms(1) by (simp_all add: invar_def)
  note t = tilesD [OF units_okD(1) [OF p(1)]]
  have "512 dvd klen k" "0 < klen k" using t(4,5) [OF assms(2)] by simp_all
  then have "u + 512 \<le> file_size s" using t(7) [OF assms(2)] by (auto elim!: dvdE)
  then have x: "x < file_size s" using assms(4) by simp
  have pg: "x div 512 = u div 512" by (rule page_of(3) [OF t(3) [OF assms(2)] assms(3,4)])
  show ?thesis
  proof (cases "page_map s")
    case None
    then show ?thesis using x assms(5) by (simp add: get_header_def sizeof_object_header_def Let_def)
  next
    case (Some m)
    have "x div 512 * 512 < file_size s" using x by (metis div_times_less_eq_dividend le_less_trans)
    then have i: "in_page_map s (x div 512)" by (rule page_in_map [OF p(3) Some])
    have "\<not> map_bits s (x div 512)" using p(2) Some not_multi [OF p(1) assms(2)] by (simp add: map_ok_def pg)
    then show ?thesis using x assms(5) i by (simp add: get_header_def sizeof_object_header_def page_size_def Let_def)
  qed
qed

lemma get_header_ok:
  assumes "invar s K" "is_object s K h" "h \<le> x" "x = h \<or> x < h + size_at s h"
  shows "get_header s (x + 8) = Returns h"
proof -
  have p: "units_ok s K" "map_ok s K" "map_covers s" using assms(1) by (simp_all add: invar_def)
  note t = tilesD [OF units_okD(1) [OF p(1)]]
  from assms(2) consider n where "K h = Some (Used n)" "page_map s \<noteq> Some h"
    | u i where "K u = Some (Cells i)" "h \<in> cells u i" "cid_at s h \<noteq> free_object" unfolding is_object_def by blast
  then show ?thesis
  proof cases
    case (1 n)
    have ok: "obj_cid (cid_at s h)" "\<not> small (size_at s h)" "n = ALIGN (size_at s h + 8) 512"
      using units_okD(2) [OF p(1) 1(1)] by simp_all
    have d: "512 dvd h" "512 dvd n" "0 < n" "h + n \<le> file_size s" using t(3,4,5,7) [OF 1(1)] by simp_all
    have n: "x < h + n" using assms(4) ok(3) align_page(2) [of "size_at s h + 8"] d(3) by auto
    have c: "cid_at s h \<noteq> free_object" using ok(1) by (simp add: obj_cid_def)
    show ?thesis
    proof (cases "x < h + 512")
      case True
      have "block_start s x = h" using block_start_page [OF d(1) assms(3) True] ok(2) by simp
      then show ?thesis using header_first [OF assms(1) 1(1) assms(3) True] c by simp
    next
      case False
      obtain a b where a: "h = a * 512" "n = b * 512" using d(1,2) by (metis dvd_div_mult_self)
      have "page_map s \<noteq> None" using p(2) 1(1) False n by (intro notI) (auto simp: map_ok_def)
      then obtain m where m: "page_map s = Some m" by blast
      have bits: "map_bits s q \<longleftrightarrow> multi_page K m q" for q using p(2) m by (simp add: map_ok_def)
      have q: "a < x div 512" "x div 512 < a + b" using False n a by auto
      have multi: "multi_page K m q" if "a < q" "q < a + b" for q
        unfolding multi_page_def using 1 m that a by (intro exI [of _ h] exI [of _ n]) auto
      have "in_page_map s q" if "q < a + b" for q
      proof (rule page_in_map [OF p(3) m])
        have "(q + 1) * 512 \<le> (a + b) * 512" using that by (intro mult_right_mono) auto
        then show "q * 512 < file_size s" using d(4) a by simp
      qed
      then have pg: "\<forall>q<x div 512. in_page_map s q" "in_page_map s (x div 512)" using q by simp_all
      have "\<not> map_bits s a" unfolding bits using not_multi [OF p(1) 1(1)] a by simp
      moreover have "\<forall>q. a < q \<longrightarrow> q < x div 512 \<longrightarrow> map_bits s q" using multi q bits by auto
      ultimately have f: "first_page s (x div 512) = Returns a" using q(1) pg(1) by (intro first_page_ok) auto
      have "map_bits s (x div 512)" using multi [OF q] bits by simp
      moreover have "x < file_size s" using n d(4) by simp
      ultimately show ?thesis using f pg(2) m c a(1)
        by (simp add: get_header_def sizeof_object_header_def page_size_def Let_def)
    qed
  next
    case (2 u i)
    have ok: "i < 13" "small (size_at s u)" "block_chain_of (size_at s u) = i" "cell_ok s i h"
      using units_okD(2) [OF p(1) 2(1)] 2(2) by simp_all
    have "h \<le> x" "x < h + class_size i"
      using assms(3,4) ok(4) 2(3) small_class(3) [of "size_at s h"] class_size_bounds(1) [OF ok(1)] by (auto simp: cell_ok_def)
    then have b: "block_start s x = h" and u: "u \<le> x" "x < u + 512"
      using block_start_cell [OF t(3) [OF 2(1)] ok(1-3) 2(2)] cells_bounds [OF 2(2) ok(1)] by auto
    show ?thesis using header_first [OF assms(1) 2(1) u] b 2(3) by simp
  qed
qed

section \<open>Release\<close>

definition object_removed :: "storage \<Rightarrow> layout \<Rightarrow> storage \<Rightarrow> layout \<Rightarrow> nat \<Rightarrow> bool" where
  "object_removed s K s' K' h \<longleftrightarrow>
     is_object s K h \<and> (\<forall>x. is_object s' K' x \<longleftrightarrow> is_object s K x \<and> x \<noteq> h) \<and>
     (\<forall>x. is_object s K x \<longrightarrow> x \<noteq> h \<longrightarrow> cid_at s' x = cid_at s x \<and> size_at s' x = size_at s x) \<and>
     app_class_mapping s' = app_class_mapping s \<and> file_size s' = file_size s \<and>
     mapped_size (data_file s') = mapped_size (data_file s) \<and>
     allocation_granularity (data_file s') = allocation_granularity (data_file s)"

lemma block_released:
  assumes "invar s K" "K u = Some (Cells n)" "h \<in> cells u n" "cid_at s h \<noteq> free_object"
    and s': "s' = push_blocks [h] n (s\<lparr>cid_at := (cid_at s)(h := free_object)\<rparr>)"
  shows "invar s' K" "object_removed s K s' K h"
proof -
  have p: "units_ok s K" "map_ok s K" "map_covers s" "limits_ok s" using assms(1) by (simp_all add: invar_def)
  have n: "n < 13" "small (size_at s u)" "block_chain_of (size_at s u) = n" using units_okD(2) [OF p(1) assms(2)] by simp_all
  note b = units_okD(4) [OF p(1), unfolded blocks_ok_def]
  have far: "cid_at s' x = cid_at s x \<and> size_at s' x = size_at s x" if "x \<noteq> h" for x using that by (simp add: s' push_blocks_def)
  have fields: "file_size s' = file_size s" "free_page_chain s' = free_page_chain s" "curr_free_page s' = curr_free_page s"
    "page_map s' = page_map s" "map_bits s' = map_bits s" "data_file s' = data_file s" "app_class_mapping s' = app_class_mapping s"
    "free_block_chain s' = (free_block_chain s)[n := h # free_block_chain s ! n]" "cid_at s' h = free_object" "size_at s' = size_at s"
    by (simp_all add: s' push_blocks_def)
  have unit: "v = u \<and> j = n" if "K v = Some (Cells j)" "h \<in> cells v j" for v j
    using cell_place [OF p(1) assms(2,3) that(1)] cells_in_unit [OF p(1) that] that(1) assms(2) by simp
  have free: "free_cells s' K i = (if i = n then insert h (free_cells s K n) else free_cells s K i)" for i
  proof (rule set_eqI)
    show "x \<in> free_cells s' K i \<longleftrightarrow> x \<in> (if i = n then insert h (free_cells s K n) else free_cells s K i)" for x
    proof (cases "x = h")
      case True
      have "(\<exists>v. K v = Some (Cells i) \<and> h \<in> cells v i) \<longleftrightarrow> i = n" using unit [of _ i] assms(2,3) by blast
      then show ?thesis using True fields(9) assms(4) by (simp add: free_cells_def)
    qed (use far [of x] in \<open>simp add: free_cells_def\<close>)
  qed
  have "h \<notin> free_cells s K i" for i using assms(4) by (simp add: free_cells_def)
  then have "blocks_ok s' K" using b n(1) by (auto simp: blocks_ok_def free fields(8) nth_list_update)
  moreover have "cell_ok s' n h" using fields(9) by (simp add: cell_ok_def)
  ultimately have po: "units_ok s' K"
    by (intro cell_change [OF p(1) assms(2,3) far fields(1-3)]) (use n in \<open>simp_all add: fields(10)\<close>)
  note fr = cell_frame [OF p assms(2,3) po far fields(1,4-6)]
  show "invar s' K" by (rule fr(1))
  have h: "is_object s K h" using assms(2-4) by (auto simp: is_object_def)
  have "is_object s' K x \<longleftrightarrow> is_object s K x \<and> x \<noteq> h" for x
  proof (cases "x = h")
    case True
    then show ?thesis using fr(2) fields(9) by (auto simp: is_object_def)
  qed (use far [of x] in \<open>simp add: is_object_def fields(4)\<close>)
  then show "object_removed s K s' K h" using far h by (simp add: object_removed_def fields)
qed

lemma map_ok_release:
  assumes "units_ok s K" "map_ok s K" "K h = Some (Used n)" "page_map s \<noteq> Some h"
  shows "map_ok (s\<lparr>map_bits := (\<lambda>p. if h < p * 512 \<and> p * 512 < h + n then False else map_bits s p)\<rparr>) (K(h \<mapsto> Free n))"
proof (cases "page_map s")
  case None
  then show ?thesis using assms(2) by (simp add: map_ok_def)
next
  case (Some m)
  have "multi_page (K(h \<mapsto> Free n)) m p \<longleftrightarrow> \<not> (h < p * 512 \<and> p * 512 < h + n) \<and> multi_page K m p" for p
  proof
    assume "multi_page (K(h \<mapsto> Free n)) m p"
    then obtain u l where u: "K u = Some (Used l)" "u \<noteq> h" "u \<noteq> m" "u < p * 512" "p * 512 < u + l"
      by (auto simp: multi_page_def split: if_splits)
    then show "\<not> (h < p * 512 \<and> p * 512 < h + n) \<and> multi_page K m p"
      using unit_apart [OF assms(1) u(1) assms(3) u(2)] by (auto simp: multi_page_def)
  next
    assume a: "\<not> (h < p * 512 \<and> p * 512 < h + n) \<and> multi_page K m p"
    then obtain u l where u: "K u = Some (Used l)" "u \<noteq> m" "u < p * 512" "p * 512 < u + l" by (auto simp: multi_page_def)
    moreover have "u \<noteq> h" using a u assms(3) by auto
    ultimately show "multi_page (K(h \<mapsto> Free n)) m p" by (auto simp: multi_page_def)
  qed
  then show ?thesis using assms(2,4) Some by (auto simp: map_ok_def)
qed

text \<open>The bits of a run are cleared where it has more than one page.\<close>

lemma clear_bits:
  assumes "512 dvd h" "512 dvd n" "0 < n" "h + n \<le> file_size s" "map_covers s" "page_map s \<noteq> Some h"
    and "512 < n \<Longrightarrow> page_map s \<noteq> None" "cid_at s h \<noteq> free_object" "cid_at s h \<noteq> page_map_cid"
  shows "clear_pages n h (s\<lparr>size_at := (size_at s)(h := n - 8)\<rparr>)
    = Returns (s\<lparr>size_at := (size_at s)(h := n - 8), map_bits := (\<lambda>p. if h < p * 512 \<and> p * 512 < h + n then False else map_bits s p)\<rparr>)"
proof -
  let ?t = "s\<lparr>size_at := (size_at s)(h := n - 8)\<rparr>"
  show ?thesis
  proof (cases "512 < n")
    case True
    then obtain m where m: "page_map s = Some m" using assms(7) by blast
    then have "map_covers ?t" using assms(5,6) by (auto simp: map_covers_def)
    then have "mark_pages False (h div page_size) (n div page_size - 1) ?t
        = Returns (?t\<lparr>map_bits := (\<lambda>p. if h < p * 512 \<and> p * 512 < h + n then False else map_bits ?t p)\<rparr>)"
      by (rule mark_run [OF _ _ assms(1-3)]) (use m assms(4) in simp_all)
    then show ?thesis using True assms(8,9) m by (simp add: clear_pages_def page_size_def)
  next
    case False
    then have "n = 512" using assms(2,3) by (auto elim!: dvdE)
    then show ?thesis using no_bits [OF assms(1), of False] by (simp add: clear_pages_def page_size_def)
  qed
qed

lemma clear_run:
  assumes "invar s K" "K h = Some (Used n)" "page_map s \<noteq> Some h"
  shows "clear_pages n h (s\<lparr>size_at := (size_at s)(h := n - 8)\<rparr>)
    = Returns (s\<lparr>size_at := (size_at s)(h := n - 8), map_bits := (\<lambda>p. if h < p * 512 \<and> p * 512 < h + n then False else map_bits s p)\<rparr>)"
proof -
  have p: "units_ok s K" "map_ok s K" "map_covers s" using assms(1) by (simp_all add: invar_def)
  have d: "512 dvd h" "512 dvd n" "0 < n" "h + n \<le> file_size s" using tilesD(3,4,5,7) [OF units_okD(1) [OF p(1)] assms(2)] by simp_all
  have cid: "cid_at s h \<noteq> free_object" using units_okD(2) [OF p(1) assms(2)] by (simp add: obj_cid_def)
  have cm: "cid_at s h \<noteq> page_map_cid" using p(2) assms(2,3) by (auto simp: map_ok_def split: option.splits)
  have "page_map s \<noteq> None" if "512 < n" using p(2) assms(2) that by (intro notI) (auto simp: map_ok_def)
  from clear_bits [OF d p(3) assms(3) this cid cm] show ?thesis .
qed

lemma run_released:
  assumes "invar s K" "K h = Some (Used n)" "page_map s \<noteq> Some h"
  obtains s' K' where "free_page h s = Returns s'" "invar s' K'" "helds K' \<subseteq> helds K" "object_removed s K s' K' h"
proof -
  have p: "units_ok s K" "map_ok s K" "map_covers s" "limits_ok s" using assms(1) by (simp_all add: invar_def)
  let ?bits = "\<lambda>p. if h < p * 512 \<and> p * 512 < h + n then False else map_bits s p"
  let ?L = "K(h \<mapsto> Free n)"
  have h: "(K(h \<mapsto> Held n)) h = Some (Held n)" by simp
  have n: "ALIGN (size_at s h + 8) 512 = n" using units_okD(2) [OF p(1) assms(2)] by simp
  have fs: "file_size s \<le> 2 ^ 32" using p(4) by (simp add: limits_ok_def)
  obtain s' K' where f: "free_page h s = Returns s'" "units_ok s' K'"
    "keeps (s\<lparr>map_bits := ?bits\<rparr>) (K(h \<mapsto> Held n, h \<mapsto> Free n)) s' K'" "cid_at s' = (cid_at s)(h := free_object)"
    "file_size s' = file_size s" "helds K' \<subseteq> helds (K(h \<mapsto> Held n)) - {h}"
    by (rule free_held [OF used_held [OF p(1) assms(2)] h n fs clear_run [OF assms]])
  note k = keepsD [OF f(3) [unfolded fun_upd_upd]]
  have used: "K' u = Some (Used l) \<longleftrightarrow> K u = Some (Used l) \<and> u \<noteq> h" for u l
    using k(1) [of u "Used l"] k(3) [of u "Used l"] by (auto split: if_splits)
  have cells': "K' u = Some (Cells i) \<longleftrightarrow> K u = Some (Cells i)" for u i
    using k(1) [of u "Cells i"] k(3) [of u "Cells i"] assms(2) by (cases "u = h") auto
  have same: "same_headers s s' u (klen k)" if "K u = Some k" "u \<noteq> h" "\<not> is_free k" for u k
    using k(2) [of u k] that by (simp add: same_headers_def)
  have head: "cid_at s' u = cid_at s u \<and> size_at s' u = size_at s u" if "K u = Some (Used l)" "u \<noteq> h" for u l
    using same [OF that] tilesD(5) [OF units_okD(1) [OF p(1)] that(1)] by (simp add: same_headers_def)
  have cell: "cid_at s' c = cid_at s c \<and> size_at s' c = size_at s c" if "K u = Some (Cells i)" "c \<in> cells u i" for u i c
  proof -
    have "u \<noteq> h" using that assms(2) by auto
    from same [OF that(1) this] show ?thesis using cells_in_unit [OF p(1) that] by (simp add: same_headers_def)
  qed
  have out: "h \<notin> cells u i" if "K u = Some (Cells i)" for u i
  proof
    assume "h \<in> cells u i"
    from cell_place [OF p(1) that this assms(2)] tilesD(5) [OF units_okD(1) [OF p(1)] assms(2)] have "h = u" by simp
    then show False using that assms(2) by simp
  qed
  have "map_ok s' K'"
    by (rule map_ok_frame [OF map_ok_release [OF p(1,2) assms(2,3)] k(4,5)]) (use used head in \<open>auto split: if_splits\<close>)
  moreover have pm: "page_map s' = page_map s" using k(4) by simp
  moreover have "map_covers s'"
  proof (cases "page_map s")
    case (Some m)
    then obtain l where "K m = Some (Used l)" using map_run [OF p(2)] by blast
    then have "size_at s' m = size_at s m" using head Some assms(3) by blast
    then show ?thesis using p(3) Some pm f(5) by (simp add: map_covers_def)
  qed (simp add: map_covers_def pm)
  moreover have df: "mapped_size (data_file s') = mapped_size (data_file s)" "allocation_granularity (data_file s') = allocation_granularity (data_file s)"
    "app_class_mapping s' = app_class_mapping s" using k(7-9) by simp_all
  ultimately have inv: "invar s' K'" using f(2,5) p(4) by (simp add: invar_def limits_ok_def)
  have o: "is_object s K h" using assms(2,3) by (auto simp: is_object_def)
  have "is_object s' K' x \<longleftrightarrow> is_object s K x \<and> x \<noteq> h" for x
    using cell out unfolding is_object_def used cells' pm by (metis (no_types, lifting))
  moreover have "cid_at s' x = cid_at s x \<and> size_at s' x = size_at s x" if "is_object s K x" "x \<noteq> h" for x
    using that head cell unfolding is_object_def by blast
  moreover have "helds (K(h \<mapsto> Held n)) - {h} \<subseteq> helds K" by (auto simp: helds_def split: if_splits)
  ultimately show ?thesis using o df f(5,6) by (intro that [OF f(1) inv]) (auto simp: object_removed_def)
qed

lemma free_obj_ok:
  assumes "invar s K" "helds K = {}" "is_object s K h" "h \<le> x" "x = h \<or> x < h + size_at s h"
  obtains s' K' where "free_obj (x + 8) s = Returns s'" "invar s' K'" "helds K' = {}" "object_removed s K s' K' h"
proof -
  have p: "units_ok s K" using assms(1) by (simp add: invar_def)
  note g = get_header_ok [OF assms(1,3-5)]
  from assms(3) consider n where "K h = Some (Used n)" "page_map s \<noteq> Some h"
    | u i where "K u = Some (Cells i)" "h \<in> cells u i" "cid_at s h \<noteq> free_object" unfolding is_object_def by blast
  then show ?thesis
  proof cases
    case (1 n)
    have "\<not> small (size_at s h)" using units_okD(2) [OF p 1(1)] by simp
    then have f: "free_obj (x + 8) s = free_page h s" using g by (simp add: free_obj_def)
    show ?thesis by (rule run_released [OF assms(1) 1]) (use that assms(2) f in auto)
  next
    case (2 u i)
    have "small (size_at s h)" "block_chain_of (size_at s h) = i"
      using units_okD(2) [OF p 2(1)] 2(2,3) by (auto simp: cell_ok_def)
    then have f: "free_obj (x + 8) s = Returns (push_blocks [h] i (s\<lparr>cid_at := (cid_at s)(h := free_object)\<rparr>))"
      using g by (simp add: free_obj_def)
    note r = block_released [OF assms(1) 2 refl]
    show ?thesis by (rule that [OF f r(1) assms(2) r(2)])
  qed
qed

end
