(* ===== verification/StorageRoom.thy ===== *)
theory StorageRoom
  imports StorageCalls
begin

text \<open>
  When an allocation ends the program, and when it leaves the file as it is: the only call that can end the program
  is the growth of the file, and it is made only when no free block and no free run of pages serves the request.
\<close>

section \<open>Room in the storage\<close>

text \<open>A free run of pages that serves a request of \<open>n\<close> bytes; a file of \<open>bytes\<close> bytes is larger than the mapping;
  the pages of a page map for a file, \<open>c\<close> times what it needs.\<close>

definition run_fits :: "storage \<Rightarrow> nat \<Rightarrow> bool" where
  "run_fits s n \<longleftrightarrow> (\<exists>b\<in>set (free_page_chain s). n \<le> size_at s b)"

definition block_fits :: "storage \<Rightarrow> nat \<Rightarrow> bool" where
  "block_fits s n \<longleftrightarrow> small n \<and> free_block_chain s ! block_chain_of n \<noteq> []"

definition outgrows :: "storage \<Rightarrow> nat \<Rightarrow> bool" where
  "outgrows s bytes \<longleftrightarrow> mapped_size (data_file s) < ALIGN bytes (allocation_granularity (data_file s))"

definition map_pages :: "nat \<Rightarrow> nat \<Rightarrow> nat" where
  "map_pages bytes c = ALIGN (map_size_for bytes + 8) 512 * c"

text \<open>No room for the pages of a new object, \<open>al\<close> bytes: the file cannot grow by them; or by a new page map, due
  because the old one does not cover the longer file, or because the object is the first of several pages.\<close>

definition no_pages :: "nat \<Rightarrow> nat \<Rightarrow> storage \<Rightarrow> bool" where
  "no_pages sz al s \<longleftrightarrow> \<not> run_fits s sz \<and>
     (let bytes = file_size s + al
      in outgrows s bytes \<or>
         (case page_map s of
            Some m \<Rightarrow> size_at s m * 4096 < bytes \<and> \<not> run_fits s (map_pages bytes 2 - 8) \<and> outgrows s (bytes + map_pages bytes 2)
          | None \<Rightarrow> 512 < al \<and> \<not> run_fits s (map_pages bytes 8 - 8) \<and> outgrows s (bytes + map_pages bytes 8)))"

text \<open>No room for the first page map once a run \<open>bp\<close> has been taken for the object.\<close>

definition no_first_map :: "nat \<Rightarrow> nat \<Rightarrow> storage \<Rightarrow> bool" where
  "no_first_map sz al s \<longleftrightarrow> page_map s = None \<and> 512 < al \<and>
     (let n = map_pages (file_size s) 8
      in outgrows s (file_size s + n) \<and>
         (\<exists>bp\<in>set (free_page_chain s). sz \<le> size_at s bp \<and> size_at s bp < al + (n - 8) \<and>
            (\<forall>b\<in>set (free_page_chain s). b \<noteq> bp \<longrightarrow> size_at s b < n - 8)))"

definition no_room :: "nat \<Rightarrow> storage \<Rightarrow> bool" where
  "no_room sz s \<longleftrightarrow> \<not> block_fits s sz \<and> (no_pages sz (ALIGN (sz + 8) 512) s \<or> no_first_map sz (ALIGN (sz + 8) 512) s)"

text \<open>The request is served from what is free.\<close>

definition reuses :: "nat \<Rightarrow> storage \<Rightarrow> bool" where
  "reuses sz s \<longleftrightarrow> block_fits s sz \<or> (run_fits s sz \<and> (page_map s \<noteq> None \<or> ALIGN (sz + 8) 512 = 512))"

section \<open>Calls that never end the program\<close>

lemma outcome_bind_Exits: "outcome_bind x f = Exits \<longleftrightarrow> x = Exits \<or> (\<exists>y. x = Returns y \<and> f y = Exits)"
  by (cases x) auto

lemma chain_after_never [simp]: "chain_after c chain \<noteq> Exits"
  by (simp add: chain_after_def)

lemma mark_pages_never [simp]: "mark_pages b p n s \<noteq> Exits"
  by (induction b p n s rule: mark_pages.induct) simp_all

lemma free_page_never [simp]: "free_page fp s \<noteq> Exits"
proof -
  have "free_page_place fp s \<noteq> Exits"
    by (auto simp: free_page_place_def outcome_bind_Exits split: option.splits)
  moreover have "clear_pages al fp t \<noteq> Exits" for al t by (simp add: clear_pages_def)
  ultimately show ?thesis by (auto simp: free_page_def outcome_bind_Exits Let_def split: prod.splits if_splits)
qed

lemma find_pages_never [simp]: "find_pages sz s \<noteq> Exits"
  by (auto simp: find_pages_def outcome_bind_Exits split: option.splits)

lemma take_pages_never [simp]: "take_pages sz al s \<noteq> Exits"
  by (auto simp: take_pages_def outcome_bind_Exits Let_def split: option.splits if_splits)

section \<open>The search of the free chain\<close>

lemma first_fit_None: "first_fit sizes sz xs = None \<longleftrightarrow> (\<forall>b\<in>set xs. sizes b < sz)"
  by (induction xs) auto

lemma chain_after_parts: "chain_after c chain = Returns (before, rest) \<Longrightarrow> chain = before @ rest"
proof -
  assume a: "chain_after c chain = Returns (before, rest)"
  then have "c \<in> set chain" by (simp add: chain_after_def split: if_splits)
  from chain_after_Returns [OF this] a show ?thesis by auto
qed

lemma find_pages_result:
  assumes "find_pages sz s = Returns r"
  shows "case r of None \<Rightarrow> \<not> run_fits s sz
    | Some (front, bp, rest) \<Rightarrow> free_page_chain s = front @ bp # rest \<and> sz \<le> size_at s bp"
proof (cases "free_page_chain s = []")
  case True
  then show ?thesis using assms by (auto simp: find_pages_def run_fits_def)
next
  case False
  then obtain c where c: "curr_free_page s = Some c" using assms by (cases "curr_free_page s") (auto simp: find_pages_def)
  then obtain before rest where a: "chain_after c (free_page_chain s) = Returns (before, rest)"
    "(case first_fit (size_at s) sz rest of
        Some (front, bp, rest) \<Rightarrow> Returns (Some (before @ front, bp, rest))
      | None \<Rightarrow> Returns (map_option (\<lambda>(front, bp, before). (front, bp, before @ rest)) (first_fit (size_at s) sz before))) = Returns r"
    using assms False by (auto simp: find_pages_def outcome_bind_Returns)
  note ch = chain_after_parts [OF a(1)]
  show ?thesis
  proof (cases "first_fit (size_at s) sz rest")
    case None
    show ?thesis
    proof (cases "first_fit (size_at s) sz before")
      case n: None
      have "r = None" using a(2) by (simp add: None n)
      then show ?thesis using None n by (auto simp: run_fits_def ch first_fit_None not_le)
    next
      case (Some x)
      then show ?thesis using a(2) None first_fit_Some [of "size_at s" sz before] by (cases x) (auto simp: ch)
    qed
  next
    case (Some x)
    then show ?thesis using a(2) first_fit_Some [of "size_at s" sz rest] by (cases x) (auto simp: ch)
  qed
qed

lemma take_pages_None:
  assumes "take_pages sz al s = Returns (None, t)"
  shows "t = s" "\<not> run_fits s sz"
proof -
  obtain found where f: "find_pages sz s = Returns found" using assms by (auto simp: take_pages_def outcome_bind_Returns)
  have "found = None" using assms by (cases found) (auto simp: take_pages_def f Let_def split: if_splits)
  then show "t = s" "\<not> run_fits s sz" using assms f find_pages_result [OF f] by (simp_all add: take_pages_def)
qed

text \<open>Pages are taken from a run that fits; if afterwards no run of \<open>n\<close> bytes is left, there was none before but
  the one that was taken.\<close>

lemma take_pages_Some:
  assumes "take_pages sz al s = Returns (Some p, t)"
  shows "run_fits s sz" "file_size t = file_size s" "page_map t = page_map s" "data_file t = data_file s"
    "\<not> run_fits t n \<Longrightarrow> 0 < n \<Longrightarrow> \<exists>bp\<in>set (free_page_chain s). sz \<le> size_at s bp \<and> size_at s bp < al + n \<and>
       (\<forall>b\<in>set (free_page_chain s). b \<noteq> bp \<longrightarrow> size_at s b < n)"
proof -
  obtain front bp rest where f: "find_pages sz s = Returns (Some (front, bp, rest))"
    using assms by (auto simp: take_pages_def outcome_bind_Returns split: option.splits)
  from find_pages_result [OF f] have ch: "free_page_chain s = front @ bp # rest" "sz \<le> size_at s bp" by simp_all
  then show "run_fits s sz" by (auto simp: run_fits_def)
  have t: "t = (if size_at s bp > al then s\<lparr>curr_free_page := Some bp, size_at := (size_at s)(bp := size_at s bp - al)\<rparr>
      else s\<lparr>free_page_chain := front @ rest, curr_free_page := (if rest \<noteq> [] then head_of rest else head_of (front @ rest))\<rparr>)"
    using assms by (simp add: take_pages_def f Let_def split: if_splits)
  show "file_size t = file_size s" "page_map t = page_map s" "data_file t = data_file s" by (simp_all add: t)
  assume n: "\<not> run_fits t n" "0 < n"
  have "size_at s bp < al + n \<and> (\<forall>b\<in>set (free_page_chain s). b \<noteq> bp \<longrightarrow> size_at s b < n)"
  proof (cases "size_at s bp > al")
    case True
    then have "\<forall>b\<in>set (free_page_chain s). ((size_at s)(bp := size_at s bp - al)) b < n" using n(1) by (auto simp: run_fits_def t not_le)
    then have a: "(if b = bp then size_at s bp - al else size_at s b) < n" if "b \<in> set (free_page_chain s)" for b
      using that by (auto split: if_splits)
    then have "size_at s b < n" if "b \<in> set (free_page_chain s)" "b \<noteq> bp" for b using a [OF that(1)] that(2) by simp
    moreover have "size_at s bp < al + n" using a [of bp] True ch(1) by simp
    ultimately show ?thesis by blast
  next
    case False
    then have "\<forall>b\<in>set (front @ rest). size_at s b < n" using n(1) by (auto simp: run_fits_def t not_le)
    then show ?thesis using False n(2) by (auto simp: ch(1))
  qed
  then show "\<exists>bp\<in>set (free_page_chain s). sz \<le> size_at s bp \<and> size_at s bp < al + n \<and>
       (\<forall>b\<in>set (free_page_chain s). b \<noteq> bp \<longrightarrow> size_at s b < n)" using ch by (intro bexI [of _ bp]) auto
qed

section \<open>The growth of the file\<close>

lemma extend_file_Exits: "extend_file al s = Exits \<Longrightarrow> outgrows s (file_size s + al)"
  by (auto simp: extend_file_def set_size_def outgrows_def Let_def outcome_bind_Exits split: if_splits)

lemma extend_file_Returns:
  assumes "extend_file al s = Returns (bp, t)" "limits_ok s"
  shows "file_size t = file_size s + al" "page_map t = page_map s" "run_fits t = run_fits s" "outgrows t = outgrows s"
    "size_at t = size_at s" "file_size t \<le> 2 ^ 32"
proof -
  obtain f where f: "(bp, t) = (file_size s, s\<lparr>data_file := f, file_size := file_size s + al\<rparr>)"
    "mapped_size f = mapped_size (data_file s)" "allocation_granularity f = allocation_granularity (data_file s)"
    "file_size s + al \<le> mapped_size f"
    using extend_file_ok [OF assms(2), of al] assms(1) by auto
  then show "file_size t = file_size s + al" "page_map t = page_map s" "run_fits t = run_fits s" "outgrows t = outgrows s"
    "size_at t = size_at s" "file_size t \<le> 2 ^ 32"
    using assms(2) by (auto simp: run_fits_def outgrows_def limits_ok_def fun_eq_iff)
qed

lemma get_pages_Exits:
  assumes "get_pages sz al s = Exits"
  shows "\<not> run_fits s sz" "outgrows s (file_size s + al)"
proof -
  from assms obtain t where "take_pages sz al s = Returns (None, t)" "extend_file al t = Exits"
    by (auto simp: get_pages_def outcome_bind_Exits split: option.splits)
  then show "\<not> run_fits s sz" "outgrows s (file_size s + al)" using take_pages_None extend_file_Exits by blast+
qed

text \<open>A page map, \<open>c\<close> times as large as needed.\<close>

lemma new_map_Exits:
  assumes "alloc_page page_map_cid (to_unsigned (map_pages (file_size s) c - 8)) s = Exits"
    and "file_size s \<le> 2 ^ 32" "2 \<le> c" "c \<le> 8"
  shows "\<not> run_fits s (map_pages (file_size s) c - 8)" "outgrows s (file_size s + map_pages (file_size s) c)" "8 < map_pages (file_size s) c"
proof -
  let ?n = "map_pages (file_size s) c - 8"
  note ms = map_size [OF assms(2-4), of ?n, unfolded map_pages_def, OF refl]
  have n: "?n + 8 = map_pages (file_size s) c" "8 < map_pages (file_size s) c"
  proof -
    have "0 < ?n" using ms(3) by (intro gr0I) (simp add: map_pages_def small_def sizeof_object_header_def page_size_def)
    then show "?n + 8 = map_pages (file_size s) c" "8 < map_pages (file_size s) c" by simp_all
  qed
  have "get_pages ?n (?n + 8) s = Exits"
    using assms(1) unfolding map_pages_def ms(4) alloc_page_map [OF ms(3)] ms(1) by (auto simp: outcome_bind_Exits split: prod.splits)
  from get_pages_Exits [OF this] show "\<not> run_fits s ?n" "outgrows s (file_size s + map_pages (file_size s) c)" by (simp_all add: n(1))
  show "8 < map_pages (file_size s) c" by (rule n(2))
qed

section \<open>Allocation\<close>

lemma acquire_Exits:
  assumes "limits_ok s" "acquire sz al s = Exits"
  shows "no_pages sz al s"
proof -
  from assms(2) obtain t where t: "take_pages sz al s = Returns (None, t)"
    "outcome_bind (extend_file al t) (\<lambda>(bp, s). case page_map s of None \<Rightarrow> Returns (bp, s)
         | Some m \<Rightarrow> if file_size s > size_at s m * page_size * 8 then grow_map m bp s else Returns (bp, s)) = Exits"
    by (auto simp: acquire_def outcome_bind_Exits split: option.splits)
  note n = take_pages_None [OF t(1)]
  show ?thesis
  proof (cases "extend_file al s = Exits")
    case True
    then show ?thesis using n extend_file_Exits by (auto simp: no_pages_def Let_def)
  next
    case False
    then obtain bp r m where e: "extend_file al s = Returns (bp, r)" "page_map r = Some m"
      "file_size r > size_at r m * page_size * 8" "grow_map m bp r = Exits"
      using t(2) by (auto simp: n(1) outcome_bind_Exits split: option.splits if_splits)
    note x = extend_file_Returns [OF e(1) assms(1)]
    have "alloc_page page_map_cid (to_unsigned (map_pages (file_size r) 2 - 8)) r = Exits"
      using e(4) by (auto simp: grow_map_def map_pages_def Let_def outcome_bind_Exits sizeof_object_header_def page_size_def split: prod.splits)
    from new_map_Exits [OF this x(6)] show ?thesis
      using n(2) e(2,3) by (simp add: no_pages_def x Let_def page_size_def)
  qed
qed

lemma acquire_no_map:
  assumes "acquire sz al s = Returns (bp, t)" "page_map t = None"
  shows "(\<exists>p. take_pages sz al s = Returns (Some p, t)) \<or> (take_pages sz al s = Returns (None, s) \<and> extend_file al s = Returns (bp, t))"
proof -
  obtain found r where r: "take_pages sz al s = Returns (found, r)" using assms(1) by (auto simp: acquire_def outcome_bind_Returns)
  show ?thesis
  proof (cases found)
    case None
    note n = take_pages_None [OF r [unfolded None]]
    then obtain b u where u: "extend_file al s = Returns (b, u)" "(case page_map u of None \<Rightarrow> Returns (b, u)
         | Some m \<Rightarrow> if file_size u > size_at u m * page_size * 8 then grow_map m b u else Returns (b, u)) = Returns (bp, t)"
      using assms(1) by (auto simp: acquire_def r None outcome_bind_Returns)
    have "page_map u = None"
    proof (rule ccontr)
      assume "page_map u \<noteq> None"
      then obtain m where "page_map u = Some m" by blast
      then show False using u(2) assms(2)
        by (auto simp: grow_map_def Let_def outcome_bind_Returns new_page_map_def split: if_splits prod.splits)
    qed
    then show ?thesis using u r n(1) None by simp
  next
    case (Some p)
    then show ?thesis using assms(1) r by (simp add: acquire_def)
  qed
qed

lemma fill_Exits:
  assumes "fill cid sz al bp t = Exits"
  shows "512 < al \<and> page_map t = None \<and>
    alloc_page page_map_cid (to_unsigned (map_pages (file_size t) 8 - 8)) (set_header bp cid sz t) = Exits"
proof -
  have hd: "page_map (set_header bp cid sz t) = page_map t" "file_size (set_header bp cid sz t) = file_size t" by (simp_all add: set_header_def)
  show ?thesis using assms
    by (auto simp: fill_def map_pages_def Let_def hd outcome_bind_Exits init_page_map_size_def page_size_def split: if_splits option.splits prod.splits)
qed

lemma alloc_page_Exits:
  assumes "invar s K" "helds K = {}" "cid \<noteq> page_map_cid" "alloc_page cid sz s = Exits"
  shows "no_pages sz (ALIGN (sz + 8) 512) s \<or> no_first_map sz (ALIGN (sz + 8) 512) s"
proof -
  let ?al = "ALIGN (sz + 8) 512"
  have lim: "limits_ok s" using assms(1) by (simp add: invar_def)
  show ?thesis
  proof (cases rule: acquire_ok [OF assms(1,2) refl, of sz])
    case 1
    then show ?thesis using acquire_Exits [OF lim] by blast
  next
    case (2 bp t L)
    have t: "invar t L" "L bp = Some (Held ?al)" using 2(2) by (simp_all add: acquired_def)
    have pt: "units_ok t L" using t(1) by (simp add: invar_def)
    have ft: "file_size t \<le> 2 ^ 32" using t(1) by (simp add: invar_def limits_ok_def)
    have "fill cid sz ?al bp t = Exits" using assms(4) unfolding alloc_page_split [OF assms(3)] by (simp add: 2(1))
    from fill_Exits [OF this] have f: "512 < ?al" "page_map t = None"
      "alloc_page page_map_cid (to_unsigned (map_pages (file_size t) 8 - 8)) (set_header bp cid sz t) = Exits" by blast+
    have "bp \<notin> set (free_page_chain t)"
    proof
      assume "bp \<in> set (free_page_chain t)"
      from chain_member [OF pt this] obtain n where "L bp = Some (Free n)" by blast
      then show False using t(2) by simp
    qed
    then have hd: "run_fits (set_header bp cid sz t) n = run_fits t n" "outgrows (set_header bp cid sz t) n = outgrows t n"
      "file_size (set_header bp cid sz t) = file_size t" for n
      by (auto simp: run_fits_def outgrows_def set_header_def)
    have nm: "\<not> run_fits t (map_pages (file_size t) 8 - 8)" "outgrows t (file_size t + map_pages (file_size t) 8)" "8 < map_pages (file_size t) 8"
      using new_map_Exits [of "set_header bp cid sz t" 8] f(3) ft by (simp_all add: hd)
    from acquire_no_map [OF 2(1) f(2)] show ?thesis
    proof
      assume "\<exists>p. take_pages sz ?al s = Returns (Some p, t)"
      then obtain p where p: "take_pages sz ?al s = Returns (Some p, t)" by blast
      note q = take_pages_Some [OF p]
      have "0 < map_pages (file_size t) 8 - 8" using nm(3) by simp
      note b = q(5) [OF nm(1) this, unfolded q(2)]
      show ?thesis using b nm(2) f(1,2) by (intro disjI2) (simp only: no_first_map_def Let_def outgrows_def q(2-4) simp_thms)
    next
      assume "take_pages sz ?al s = Returns (None, s) \<and> extend_file ?al s = Returns (bp, t)"
      then show ?thesis using take_pages_None(2) [of sz ?al s s] extend_file_Returns [OF _ lim, of ?al bp t] nm f(1,2)
        by (intro disjI1) (auto simp: no_pages_def Let_def)
    qed
  qed
qed

lemma allocate_object_Exits:
  assumes "invar s K" "helds K = {}" "cid \<noteq> page_map_cid" "allocate_object cid sz s = Exits"
  shows "no_room sz s"
  using assms(4) alloc_page_Exits [OF assms(1-3), of sz]
  by (auto simp: allocate_object_def no_room_def block_fits_def Let_def split: if_splits)

section \<open>Requests served from what is free\<close>

lemma mark_pages_file: "mark_pages b p n s = Returns t \<Longrightarrow> file_size t = file_size s"
  by (induction b p n s rule: mark_pages.induct) (auto split: if_splits)

lemma fill_file:
  assumes "fill cid sz al bp t = Returns (x, r)" "page_map t \<noteq> None \<or> al = 512"
  shows "file_size r = file_size t"
proof -
  let ?t = "set_header bp cid sz t"
  have hd: "page_map ?t = page_map t" "file_size ?t = file_size t" by (simp_all add: set_header_def)
  show ?thesis
  proof (cases "\<not> small sz \<and> 512 < al")
    case True
    then obtain m where "page_map ?t = Some m" using assms(2) hd(1) by auto
    then have f: "fill cid sz al bp t = outcome_bind (mark_pages True (bp div page_size) (al div page_size - 1) ?t) (\<lambda>s. Returns (bp + 8, s))"
      using True by (simp add: fill_def Let_def page_size_def)
    have "mark_pages True (bp div page_size) (al div page_size - 1) ?t = Returns r"
      using assms(1) unfolding f outcome_bind_Returns by auto
    from mark_pages_file [OF this] show ?thesis using hd(2) by simp
  next
    case False
    then have "r = cut_page bp sz ?t \<or> r = ?t" using assms(1) by (auto simp: fill_def Let_def page_size_def split: if_splits)
    then show ?thesis using hd(2) by (auto simp: cut_page_def push_blocks_def Let_def)
  qed
qed

lemma allocate_object_reuses:
  assumes "cid \<noteq> page_map_cid" "allocate_object cid sz s = Returns (x, t)" "reuses sz s"
  shows "file_size t = file_size s"
proof (cases "block_fits s sz")
  case True
  then show ?thesis using assms(2) by (auto simp: allocate_object_def block_fits_def Let_def set_header_def)
next
  case False
  let ?al = "ALIGN (sz + 8) 512"
  have f: "run_fits s sz" "page_map s \<noteq> None \<or> ?al = 512" using assms(3) False by (auto simp: reuses_def)
  have "alloc_page cid sz s = Returns (x, t)" using assms(2) False by (auto simp: allocate_object_def block_fits_def)
  then obtain bp r where a: "acquire sz ?al s = Returns (bp, r)" "fill cid sz ?al bp r = Returns (x, t)"
    unfolding alloc_page_split [OF assms(1)] by (auto simp: outcome_bind_Returns)
  from a(1) obtain found u where u: "take_pages sz ?al s = Returns (found, u)" by (auto simp: acquire_def outcome_bind_Returns)
  obtain p where p: "found = Some p" using take_pages_None(2) [of sz ?al s u] u f(1) by (cases found) auto
  have "r = u" using a(1) by (simp add: acquire_def u p)
  then show ?thesis using fill_file [OF a(2)] take_pages_Some(2,3) [OF u [unfolded p]] f(2) by simp
qed

end
