(* ===== verification/StorageSpec.thy ===== *)
theory StorageSpec
  imports StorageRoom
begin

text \<open>
  The objects of a storage, found by a walk over its units, and the allocator as a refinement of a finite map from
  the headers of the objects to their class and size.
\<close>

section \<open>The walk\<close>

text \<open>The walk of \<open>dumpmem\<close>, \<open>adjust_references\<close> and the sweep of the garbage collector: every header in the order
  of the addresses.\<close>

definition unit_end :: "storage \<Rightarrow> nat \<Rightarrow> nat" where
  "unit_end s op = (if small (size_at s op) then op + page_size else op + ALIGN (size_at s op + sizeof_object_header) page_size)"

lemma unit_end_less [simp]: "op < unit_end s op"
  using align_page(2) [of "size_at s op + 8"] by (auto simp: unit_end_def page_size_def sizeof_object_header_def)

function unit_starts :: "storage \<Rightarrow> nat \<Rightarrow> nat list" where
  "unit_starts s op = (if op < file_size s then op # unit_starts s (unit_end s op) else [])"
  by pat_completeness auto
termination by (relation "measure (\<lambda>(s, op). file_size s - op)") (simp_all add: diff_less_mono2)

declare unit_starts.simps [simp del]

definition unit_headers :: "storage \<Rightarrow> nat \<Rightarrow> nat list" where
  "unit_headers s op =
     (if small (size_at s op)
      then let sz = block_size_of (size_at s op) in cut_blocks sz op (op + page_size - sz + 1)
      else [op])"

definition object_headers :: "storage \<Rightarrow> nat list" where
  "object_headers s = filter (\<lambda>h. cid_at s h \<noteq> free_object \<and> page_map s \<noteq> Some h) (concat (map (unit_headers s) (unit_starts s page_size)))"

lemma unit_end_ok:
  assumes "units_ok s K" "K u = Some k" "k \<noteq> Held (klen k)"
  shows "unit_end s u = u + klen k"
proof (cases k)
  case (Free n)
  have "size_at s u + 8 = n" "\<not> small (size_at s u)" "512 dvd n"
    using free_unit [OF assms(1) assms(2) [unfolded Free]] tilesD(4) [OF units_okD(1) [OF assms(1)] assms(2)] Free by simp_all
  then show ?thesis using Free by (simp add: unit_end_def sizeof_object_header_def page_size_def align_dvd)
qed (use assms(3) units_okD(2) [OF assms(1,2)] in \<open>simp_all add: unit_end_def sizeof_object_header_def page_size_def\<close>)

lemma cut_blocks_sorted: "0 < sz \<Longrightarrow> sorted_wrt (<) (cut_blocks sz cp e)"
proof (induction sz cp e rule: cut_blocks.induct)
  case (1 sz cp e)
  have "cp < x" if "x \<in> set (cut_blocks sz (cp + sz) e)" for x
    using cut_blocks_distinct [of sz "cp + sz" e] that 1(2) by fastforce
  then show ?case using 1 by (subst cut_blocks.simps) simp
qed

lemma held_kind: "helds K = {} \<Longrightarrow> K u = Some k \<Longrightarrow> k \<noteq> Held (klen k)"
  by (cases k) (auto simp: helds_def)

lemma unit_starts_set:
  assumes "units_ok s K" "helds K = {}"
  shows "page_size \<le> p \<Longrightarrow> p < file_size s \<longrightarrow> K p \<noteq> None \<Longrightarrow>
    set (unit_starts s p) = {u. K u \<noteq> None \<and> p \<le> u} \<and> sorted_wrt (<) (unit_starts s p)"
  using assms
proof (induction s p rule: unit_starts.induct)
  case (1 s p)
  note T = tilesD [OF units_okD(1) [OF 1(4)]]
  show ?case
  proof (cases "p < file_size s")
    case True
    then obtain k where k: "K p = Some k" using 1(3) by auto
    have e: "unit_end s p = p + klen k" by (rule unit_end_ok [OF 1(4) k held_kind [OF 1(5) k]])
    have pos: "0 < klen k" by (rule T(5) [OF k])
    have "unit_end s p < file_size s \<longrightarrow> K (unit_end s p) \<noteq> None"
      using tiles_next [OF units_okD(1) [OF 1(4)] k] unfolding e by auto
    moreover have "page_size \<le> unit_end s p" using 1(2) e by simp
    ultimately have ih: "set (unit_starts s (unit_end s p)) = {u. K u \<noteq> None \<and> unit_end s p \<le> u}"
      "sorted_wrt (<) (unit_starts s (unit_end s p))" using 1(1) [OF True] 1(4,5) by blast+
    have "{u. K u \<noteq> None \<and> p \<le> u} = insert p {u. K u \<noteq> None \<and> unit_end s p \<le> u}"
      using T(8) [OF k] k pos unfolding e by (auto simp: order_le_less)
    then show ?thesis using True ih e pos by (subst (1 2) unit_starts.simps) auto
  next
    case False
    have "K u = None" if "p \<le> u" for u
      using T(5) [of u] T(7) [of u] that False by (cases "K u") fastforce+
    then show ?thesis using False by (subst (1 2) unit_starts.simps) auto
  qed
qed

lemma starts_of:
  assumes "invar s K" "helds K = {}"
  shows "set (unit_starts s page_size) = dom K" "sorted_wrt (<) (unit_starts s page_size)"
proof -
  have p: "units_ok s K" using assms(1) by (simp add: invar_def)
  note T = tilesD [OF units_okD(1) [OF p]]
  have "page_size < file_size s \<longrightarrow> K page_size \<noteq> None" using tiles_first [OF units_okD(1) [OF p]] by auto
  note u = unit_starts_set [OF p assms(2) order_refl this]
  have "page_size \<le> u" if "K u \<noteq> None" for u using that T(6) by blast
  then show "set (unit_starts s page_size) = dom K" using u by auto
  show "sorted_wrt (<) (unit_starts s page_size)" using u by blast
qed

lemma headers_of:
  assumes "units_ok s K" "K u = Some k" "k \<noteq> Held (klen k)"
  shows "set (unit_headers s u) = (case k of Cells i \<Rightarrow> cells u i | _ \<Rightarrow> {u})" "sorted_wrt (<) (unit_headers s u)"
proof -
  have ok: "unit_ok s u k" by (rule units_okD(2) [OF assms(1,2)])
  have "set (unit_headers s u) = (case k of Cells i \<Rightarrow> cells u i | _ \<Rightarrow> {u}) \<and> sorted_wrt (<) (unit_headers s u)"
  proof (cases k)
    case (Cells i)
    then have i: "i < 13" "small (size_at s u)" "block_size_of (size_at s u) = class_size i"
      using ok small_class(2) [of "size_at s u"] by auto
    have "0 < class_size i" using class_size_bounds(1) [OF i(1)] by simp
    then show ?thesis using i Cells cut_blocks_cells(1) [OF i(1) refl, of u] cut_blocks_sorted
      by (simp add: unit_headers_def page_size_def Let_def)
  qed (use ok assms(2,3) free_unit [OF assms(1), of u] in \<open>auto simp: unit_headers_def\<close>)
  then show "set (unit_headers s u) = (case k of Cells i \<Rightarrow> cells u i | _ \<Rightarrow> {u})" "sorted_wrt (<) (unit_headers s u)" by blast+
qed

lemma objects_set:
  assumes "invar s K" "helds K = {}"
  shows "h \<in> set (object_headers s) \<longleftrightarrow> is_object s K h"
proof -
  have p: "units_ok s K" "map_ok s K" using assms(1) by (simp_all add: invar_def)
  have hd: "set (unit_headers s u) = (case k of Cells i \<Rightarrow> cells u i | _ \<Rightarrow> {u})" if "K u = Some k" for u k
    by (rule headers_of(1) [OF p(1) that held_kind [OF assms(2) that]])
  have "h \<in> set (object_headers s) \<longleftrightarrow> (\<exists>u k. K u = Some k \<and> h \<in> (case k of Cells i \<Rightarrow> cells u i | _ \<Rightarrow> {u}))
      \<and> cid_at s h \<noteq> free_object \<and> page_map s \<noteq> Some h"
    unfolding object_headers_def set_filter set_concat set_map starts_of(1) [OF assms] using hd by (fastforce simp: dom_def)
  also have "\<dots> \<longleftrightarrow> is_object s K h"
  proof
    assume "(\<exists>u k. K u = Some k \<and> h \<in> (case k of Cells i \<Rightarrow> cells u i | _ \<Rightarrow> {u})) \<and> cid_at s h \<noteq> free_object \<and> page_map s \<noteq> Some h"
    then obtain u k where u: "K u = Some k" "h \<in> (case k of Cells i \<Rightarrow> cells u i | _ \<Rightarrow> {u})" "cid_at s h \<noteq> free_object" "page_map s \<noteq> Some h"
      by blast
    then show "is_object s K h" using held_kind [OF assms(2) u(1)] free_unit [OF p(1)] by (cases k) (auto simp: is_object_def)
  next
    assume "is_object s K h"
    then consider n where "K h = Some (Used n)" "page_map s \<noteq> Some h"
      | u i where "K u = Some (Cells i)" "h \<in> cells u i" "cid_at s h \<noteq> free_object" unfolding is_object_def by blast
    then show "(\<exists>u k. K u = Some k \<and> h \<in> (case k of Cells i \<Rightarrow> cells u i | _ \<Rightarrow> {u})) \<and> cid_at s h \<noteq> free_object \<and> page_map s \<noteq> Some h"
    proof cases
      case 1
      then show ?thesis using units_okD(2) [OF p(1) 1(1)] by (auto simp: obj_cid_def intro!: exI [of _ h])
    next
      case (2 u i)
      have "page_map s \<noteq> Some h"
      proof
        assume m: "page_map s = Some h"
        then obtain n where n: "K h = Some (Used n)" using map_run [OF p(2)] by blast
        from cell_place [OF p(1) 2(1,2) n] tilesD(5) [OF units_okD(1) [OF p(1)] n] have "h = u" by simp
        then show False using 2(1) n by simp
      qed
      then show ?thesis using 2 by (auto intro!: exI [of _ u])
    qed
  qed
  finally show ?thesis .
qed

text \<open>The bytes of an object with its header.\<close>

lemma object_place:
  assumes "invar s K" "is_object s K h"
  obtains u k where "K u = Some k" "u \<le> h" "h + 8 + size_at s h \<le> u + klen k"
    "\<forall>g. is_object s K g \<longrightarrow> h < g \<longrightarrow> h + 8 + size_at s h \<le> g"
proof -
  have p: "units_ok s K" using assms(1) by (simp add: invar_def)
  note t = tilesD [OF units_okD(1) [OF p]]
  have other: "u + klen k \<le> g" if o: "is_object s K g" "h < g" "K u = Some k" "u \<le> h" "K g = Some l \<or> (\<exists>v i. K v = Some (Cells i) \<and> g \<in> cells v i \<and> v \<noteq> u)" for u k g l
  proof (cases "K g = Some l")
    case True
    then show ?thesis using t(8) [OF that(3)] that(2,4) by (metis le_less_trans)
  next
    case False
    then obtain v i where v: "K v = Some (Cells i)" "g \<in> cells v i" "v \<noteq> u" using o(5) by blast
    then show ?thesis using unit_apart [OF p o(3) v(1)] cells_in_unit [OF p v(1,2)] o(2,4) by force
  qed
  from assms(2) consider n where "K h = Some (Used n)" "page_map s \<noteq> Some h"
    | u i where "K u = Some (Cells i)" "h \<in> cells u i" "cid_at s h \<noteq> free_object" unfolding is_object_def by blast
  then show ?thesis
  proof cases
    case (1 n)
    have n: "h + 8 + size_at s h \<le> h + n" using units_okD(2) [OF p 1(1)] align_page(2) [of "size_at s h + 8"] by simp
    show ?thesis
    proof (rule that [OF 1(1) order_refl], goal_cases top rest)
      case top
      show ?case using n by simp
    next
      case rest
      show ?case
      proof (intro allI impI)
      fix g assume g: "is_object s K g" "h < g"
      then have "(\<exists>l. K g = Some l) \<or> (\<exists>v i. K v = Some (Cells i) \<and> g \<in> cells v i \<and> v \<noteq> h)"
        using 1(1) by (auto simp: is_object_def)
      then have "h + klen (Used n) \<le> g" using other [OF g 1(1) order_refl] by blast
      then show "h + 8 + size_at s h \<le> g" using n by simp
      qed
    qed
  next
    case (2 u i)
    have ok: "i < 13" "cell_ok s i h" using units_okD(2) [OF p 2(1)] 2(2) by simp_all
    then have sz: "h + 8 + size_at s h \<le> h + class_size i" using 2(3) small_class(3) [of "size_at s h"] by (simp add: cell_ok_def)
    note b = cells_bounds [OF 2(2) ok(1)]
    show ?thesis
    proof (rule that [OF 2(1) b(1)], goal_cases top rest)
      case top
      show ?case using sz b(2) by simp
    next
      case rest
      have top: "h + 8 + size_at s h \<le> u + klen (Cells i)" using sz b(2) by simp
      show ?case
      proof (intro allI impI)
      fix g assume g: "is_object s K g" "h < g"
      show "h + 8 + size_at s h \<le> g"
      proof (cases "g \<in> cells u i")
        case True
        then show ?thesis using cells_apart [OF 2(2) _ g(2)] sz by force
      next
        case False
        then have "(\<exists>l. K g = Some l) \<or> (\<exists>v j. K v = Some (Cells j) \<and> g \<in> cells v j \<and> v \<noteq> u)"
          using 2(1) g(1) by (auto simp: is_object_def)
        then have "u + klen (Cells i) \<le> g" using other [OF g 2(1) b(1)] by blast
        then show ?thesis using top by simp
      qed
      qed
    qed
  qed
qed

section \<open>The calls on the objects\<close>

definition contents :: "storage \<Rightarrow> nat \<Rightarrow> (uint32 \<times> nat) option" where
  "contents s h = (if h \<in> set (object_headers s) then Some (cid_at s h, size_at s h) else None)"

definition limit :: "storage \<Rightarrow> nat \<times> nat" where
  "limit s = (mapped_size (data_file s), allocation_granularity (data_file s))"

lemma object_added_contents:
  assumes "invar s K" "helds K = {}" "invar s' K'" "helds K' = {}" "object_added s K s' K' h cid sz"
  shows "contents s h = None" "contents s' = (contents s)(h \<mapsto> (cid, sz))" "limit s' = limit s"
    "app_class_mapping s' = app_class_mapping s"
  using assms(5) unfolding contents_def objects_set [OF assms(1,2)] objects_set [OF assms(3,4)] object_added_def limit_def
  by (auto simp: fun_eq_iff)

lemma object_removed_contents:
  assumes "invar s K" "helds K = {}" "invar s' K'" "helds K' = {}" "object_removed s K s' K' h"
  shows "contents s' = (contents s)(h := None)" "limit s' = limit s" "app_class_mapping s' = app_class_mapping s" "file_size s' = file_size s"
  using assms(5) unfolding contents_def objects_set [OF assms(1,2)] objects_set [OF assms(3,4)] object_removed_def limit_def
  by (auto simp: fun_eq_iff)

lemma new_storage_ok:
  assumes "512 \<le> lim" "lim \<le> 2 ^ 32" "0 < granularity"
  shows "storage_ok (new_storage lim granularity mapping)"
  unfolding storage_ok_def
proof (intro exI conjI)
  let ?s = "new_storage lim granularity mapping"
  have "units_ok ?s (\<lambda>_. None)"
    by (simp add: units_ok_def tiles_def free_chain_ok_def blocks_ok_def free_cells_def new_storage_def page_size_def)
  then show "invar ?s (\<lambda>_. None)"
    using assms by (simp add: invar_def map_ok_def map_covers_def limits_ok_def) (simp add: new_storage_def page_size_def)
  show "helds (\<lambda>_. None) = {}" by (simp add: helds_def)
qed

lemma sample_room:
  assumes "sz = 8 \<or> sz = 1000"
  shows "\<not> no_room sz (new_storage 65536 4096 mapping)"
  using assms
  by (auto simp: no_room_def no_pages_def no_first_map_def run_fits_def outgrows_def map_pages_def new_storage_def ALIGN_def
      map_size_for_def sizeof_object_header_def page_size_def Let_def)

text \<open>A storage with one object of three pages, as \<open>allocate\<close> leaves it.\<close>

lemma sample_allocated:
  assumes "sz = 8 \<or> sz = 1000"
  obtains h s where "allocate 0 sz (new_storage 65536 4096 [3]) = Returns (h + 8, s)" "storage_ok s"
    "h \<in> set (object_headers s)" "size_at s h = sz" "contents s = [h \<mapsto> (3, sz)]" "h + 8 < 65536"
proof -
  let ?s = "new_storage 65536 4096 [3]"
  have "(512 :: nat) \<le> 65536" "(65536 :: nat) \<le> 2 ^ 32" "0 < (4096 :: nat)" by simp_all
  from new_storage_ok [OF this, of "[3]"] obtain K where K: "invar ?s K" "helds K = {}" by (auto simp: storage_ok_def)
  have f: "obj_cid 3" "(3 :: uint32) \<noteq> page_map_cid"
    by (auto simp: obj_cid_def free_object_def gc_marked_def page_map_cid_def)
  have a: "allocate 0 sz ?s = allocate_object 3 sz ?s" by (simp add: allocate_def new_storage_def)
  show thesis
  proof (cases rule: allocate_object_ok [OF K f(1,2), of sz])
    case 1
    then show thesis using allocate_object_Exits [OF K f(2)] sample_room [of sz] assms by blast
  next
    case (2 h s K')
    have "contents ?s = Map.empty" unfolding contents_def
      by (rule ext) (simp add: object_headers_def unit_starts.simps [of ?s page_size], simp add: new_storage_def)
    then have c: "contents s = [h \<mapsto> (3, sz)]" using object_added_contents(2) [OF K 2(2-4)] by simp
    then have "contents s h = Some (3, sz)" by simp
    then have "h \<in> set (object_headers s)" "size_at s h = sz" by (simp_all add: contents_def split: if_splits)
    moreover have "h + 8 < 65536"
    proof -
      obtain u k where u: "K' u = Some k" "u \<le> h" "h + 8 + size_at s h \<le> u + klen k"
        using object_place [OF 2(2)] objects_set [OF 2(2,3)] \<open>h \<in> _\<close> by metis
      have "u + klen k \<le> mapped_size (data_file s)"
        using tilesD(7) [OF units_okD(1) [of s K'] u(1)] 2(2) by (simp add: invar_def limits_ok_def)
      moreover have "mapped_size (data_file s) = 65536" using 2(4) by (simp add: object_added_def new_storage_def)
      ultimately show ?thesis using u(3) \<open>size_at s h = sz\<close> assms by auto
    qed
    ultimately show thesis using that 2 a c by (auto simp: storage_ok_def)
  qed
qed

lemmas sample_object = sample_allocated [of 1000, OF disjI2 [OF refl]]

text \<open>The objects of a storage lie behind the header page and inside the file, and no two of them overlap,
  headers included.\<close>

lemma objects_apart:
  assumes "storage_ok s" "h \<in> set (object_headers s)"
  shows "page_size \<le> h \<and> h + 8 + size_at s h \<le> file_size s \<and>
    (\<forall>g\<in>set (object_headers s). h < g \<longrightarrow> h + 8 + size_at s h \<le> g)"
proof -
  obtain K where K: "invar s K" "helds K = {}" using assms(1) by (auto simp: storage_ok_def)
  have p: "units_ok s K" using K(1) by (simp add: invar_def)
  obtain u k where u: "K u = Some k" "u \<le> h" "h + 8 + size_at s h \<le> u + klen k"
    "\<forall>g. is_object s K g \<longrightarrow> h < g \<longrightarrow> h + 8 + size_at s h \<le> g"
    by (rule object_place [OF K(1) assms(2) [unfolded objects_set [OF K]]])
  then show ?thesis using tilesD(6,7) [OF units_okD(1) [OF p] u(1)] by (simp add: objects_set [OF K])
qed

lemma allocate_ok:
  assumes "storage_ok s" "app_class_id < length (app_class_mapping s)" "cid = app_class_mapping s ! app_class_id"
    and "obj_cid cid" "cid \<noteq> page_map_cid"
  shows "(allocate app_class_id sz s = Exits \<and> no_room sz s) \<or>
     (\<exists>h s'. allocate app_class_id sz s = Returns (h + 8, s') \<and> storage_ok s' \<and>
       contents s h = None \<and> contents s' = (contents s)(h \<mapsto> (cid, sz)) \<and>
       limit s' = limit s \<and> app_class_mapping s' = app_class_mapping s \<and> (reuses sz s \<longrightarrow> file_size s' = file_size s))"
proof -
  obtain K where K: "invar s K" "helds K = {}" using assms(1) by (auto simp: storage_ok_def)
  have a: "allocate app_class_id sz s = allocate_object cid sz s"
    using assms(2-4) by (simp add: allocate_def obj_cid_def free_object_def)
  show ?thesis
  proof (cases rule: allocate_object_ok [OF K assms(4,5), of sz])
    case 1
    then show ?thesis using allocate_object_Exits [OF K assms(5)] by (simp add: a)
  next
    case (2 h s' K')
    then show ?thesis using object_added_contents [OF K 2(2-4)] allocate_object_reuses [OF assms(5) 2(1)]
      by (auto simp: a storage_ok_def)
  qed
qed

text \<open>C1: On a storage that satisfies its invariant, \<open>allocate\<close> of a class of the application either ends the
  program or returns an object at an address where there was none: exactly this object, with its class and size, is
  added, every other object keeps its header, and the invariant holds again.  It ends the program only if there is
  no room: no free block and no free run of pages serves the request, and the file, longer by the pages of the
  object, outgrows its mapping; or, with the pages of the object taken or added, a new page map is due, no free run
  serves it and the file outgrows its mapping by the pages of this map.  A request that a free block serves, or a
  free run when no first page map is due, leaves the file as long as it is.\<close>

theorem allocate_correct:
  assumes "storage_ok s" "app_class_id < length (app_class_mapping s)" "cid = app_class_mapping s ! app_class_id"
    and "obj_cid cid" "cid \<noteq> page_map_cid"
  shows "(allocate app_class_id sz s = Exits \<and> no_room sz s) \<or>
     (\<exists>h s'. allocate app_class_id sz s = Returns (h + 8, s') \<and> storage_ok s' \<and>
       contents s h = None \<and> contents s' = (contents s)(h \<mapsto> (cid, sz)) \<and>
       limit s' = limit s \<and> app_class_mapping s' = app_class_mapping s \<and> (reuses sz s \<longrightarrow> file_size s' = file_size s))"
  by (rule allocate_ok [OF assms])

lemma allocate_correct_witness:
  "(\<exists>h s'. allocate 0 1000 (new_storage 65536 4096 [3]) = Returns (h + 8, s') \<and> storage_ok s' \<and> contents s' h = Some (3, 1000)) \<and>
   allocate 0 8 (new_storage 512 4096 [3]) = Exits"
proof -
  have f: "0 < length (app_class_mapping (new_storage n 4096 [3]))" "(3 :: uint32) = app_class_mapping (new_storage n 4096 [3]) ! 0"
    "obj_cid 3" "(3 :: uint32) \<noteq> page_map_cid" for n
    by (simp_all add: new_storage_def obj_cid_def free_object_def gc_marked_def page_map_cid_def)
  have "storage_ok (new_storage 65536 4096 [3])" by (rule new_storage_ok) simp_all
  from allocate_correct [OF this f, of 1000] sample_room [of 1000 "[3]"]
  have "\<exists>h s'. allocate 0 1000 (new_storage 65536 4096 [3]) = Returns (h + 8, s') \<and> storage_ok s' \<and> contents s' h = Some (3, 1000)"
    by auto
  moreover have "allocate 0 8 (new_storage 512 4096 [3]) = Exits"
    by (simp add: allocate_def allocate_object_def new_storage_def alloc_page.simps [of 3] take_pages_def find_pages_def
        extend_file_def set_size_def ALIGN_def sizeof_object_header_def page_size_def block_chain_of_def block_chain_def
        size_index_def small_def Let_def)
  ultimately show ?thesis by blast
qed

lemma header_found:
  assumes "storage_ok s" "h \<in> set (object_headers s)" "obj = h + 8 + offs" "offs = 0 \<or> offs < size_at s h"
  shows "get_header s obj = Returns h"
proof -
  obtain K where K: "invar s K" "helds K = {}" using assms(1) by (auto simp: storage_ok_def)
  have "h \<le> h + offs" "h + offs = h \<or> h + offs < h + size_at s h" using assms(4) by auto
  from get_header_ok [OF K(1) assms(2) [unfolded objects_set [OF K]] this] show ?thesis by (simp add: assms(3) ac_simps)
qed

text \<open>C3: \<open>get_header\<close> maps every address inside an object to the header of that object.\<close>

theorem get_header_correct:
  assumes "storage_ok s" "h \<in> set (object_headers s)" "obj = h + 8 + offs" "offs = 0 \<or> offs < size_at s h"
  shows "get_header s obj = Returns h"
  by (rule header_found [OF assms])

lemma get_header_correct_witness:
  "\<exists>h s. allocate 0 1000 (new_storage 65536 4096 [3]) = Returns (h + 8, s) \<and> get_header s (h + 8 + 900) = Returns h"
proof -
  obtain h s where s: "allocate 0 1000 (new_storage 65536 4096 [3]) = Returns (h + 8, s)" "storage_ok s"
    "h \<in> set (object_headers s)" "size_at s h = 1000" by (rule sample_object)
  have "get_header s (h + 8 + 900) = Returns h" by (rule get_header_correct [OF s(2,3) refl]) (simp add: s(4))
  then show ?thesis using s(1) by blast
qed

lemma free_ok:
  assumes "storage_ok s" "h \<in> set (object_headers s)" "obj = h + 8 + offs" "offs = 0 \<or> offs < size_at s h"
  shows "\<exists>s'. free_obj obj s = Returns s' \<and> storage_ok s' \<and> contents s' = (contents s)(h := None) \<and>
    limit s' = limit s \<and> app_class_mapping s' = app_class_mapping s \<and> file_size s' = file_size s"
proof -
  obtain K where K: "invar s K" "helds K = {}" using assms(1) by (auto simp: storage_ok_def)
  have "h \<le> h + offs" "h + offs = h \<or> h + offs < h + size_at s h" using assms(4) by auto
  from free_obj_ok [OF K assms(2) [unfolded objects_set [OF K]] this] obtain s' K' where
    f: "free_obj (h + offs + 8) s = Returns s'" "invar s' K'" "helds K' = {}" "object_removed s K s' K' h" by blast
  then show ?thesis using object_removed_contents [OF K f(2-4)] by (auto simp: assms(3) ac_simps storage_ok_def)
qed

text \<open>C2: \<open>free\<close> of an address inside an object removes exactly this object; every other object keeps its header
  and the invariant holds again.\<close>

theorem free_correct:
  assumes "storage_ok s" "h \<in> set (object_headers s)" "obj = h + 8 + offs" "offs = 0 \<or> offs < size_at s h"
  shows "\<exists>s'. free_obj obj s = Returns s' \<and> storage_ok s' \<and> contents s' = (contents s)(h := None) \<and>
    limit s' = limit s \<and> app_class_mapping s' = app_class_mapping s \<and> file_size s' = file_size s"
  by (rule free_ok [OF assms])

lemma free_correct_witness:
  "\<exists>h s s'. allocate 0 1000 (new_storage 65536 4096 [3]) = Returns (h + 8, s) \<and> contents s = [h \<mapsto> (3, 1000)] \<and>
     free_obj (h + 8) s = Returns s' \<and> storage_ok s' \<and> contents s' = Map.empty"
proof -
  obtain h s where s: "allocate 0 1000 (new_storage 65536 4096 [3]) = Returns (h + 8, s)" "storage_ok s"
    "h \<in> set (object_headers s)" "size_at s h = 1000" "contents s = [h \<mapsto> (3, 1000)]" by (rule sample_object)
  have "h + 8 = h + 8 + 0" "(0 :: nat) = 0 \<or> 0 < size_at s h" by simp_all
  from free_correct [OF s(2,3) this] s(1,5) show ?thesis by auto
qed

end
