(* ===== verification/StorageHeap.thy ===== *)
theory StorageHeap
  imports StorageSpec
begin

text \<open>
  A client of the storage: sequences of \<open>allocate\<close> and \<open>free\<close>.  The interface the client relies on is a locale; its
  interpretation on the model of the storage gives what holds of every sequence of calls on a new storage.
\<close>

section \<open>The interface of an object store\<close>

text \<open>A client asks for an object or gives up the one it holds at a position; it keeps the pointers it has with the
  requests they came from.\<close>

datatype 'r request = Acquire 'r | Release nat

fun client :: "('r \<Rightarrow> 's \<Rightarrow> ('p \<times> 's) outcome) \<Rightarrow> ('p \<Rightarrow> 's \<Rightarrow> 's outcome) \<Rightarrow> 'r request list \<Rightarrow> 's \<Rightarrow> ('p \<times> 'r) list \<Rightarrow>
    ('s \<times> ('p \<times> 'r) list) outcome" where
  "client alloc release [] s live = Returns (s, live)"
| "client alloc release (Acquire r # rs) s live =
     outcome_bind (alloc r s) (\<lambda>(p, s). client alloc release rs s (live @ [(p, r)]))"
| "client alloc release (Release i # rs) s live =
     (if i < length live
      then outcome_bind (release (fst (live ! i)) s) (\<lambda>s. client alloc release rs s (take i live @ drop (i + 1) live))
      else client alloc release rs s live)"

definition holds :: "('s \<Rightarrow> 'p \<Rightarrow> 'o option) \<Rightarrow> ('r \<Rightarrow> 'o) \<Rightarrow> 's \<Rightarrow> ('p \<times> 'r) list \<Rightarrow> bool" where
  "holds objs descr s live \<longleftrightarrow> distinct (map fst live) \<and> objs s = map_of (map (\<lambda>(p, r). (p, descr r)) live)"

lemma map_of_added: "p \<notin> fst ` set xs \<Longrightarrow> map_of (xs @ [(p, d)]) = (map_of xs)(p \<mapsto> d)"
  by (induction xs) (auto simp: fun_upd_twist)

lemma map_of_removed:
  "p \<notin> fst ` set xs \<Longrightarrow> p \<notin> fst ` set ys \<Longrightarrow> (map_of (xs @ (p, d) # ys))(p := None) = map_of (xs @ ys)"
proof (induction xs)
  case Nil
  then have "map_of ys p = None" by (simp add: map_of_eq_None_iff)
  then show ?case by (auto simp: fun_eq_iff)
next
  case (Cons x xs)
  obtain a b where x: "x = (a, b)" by (cases x)
  have "a \<noteq> p" "p \<notin> fst ` set xs" using Cons.prems(1) x by auto
  then show ?case
    unfolding x append_Cons map_of.simps fst_conv snd_conv fun_upd_twist [OF \<open>a \<noteq> p\<close>] Cons.IH [OF \<open>p \<notin> fst ` set xs\<close> Cons.prems(2)] by simp
qed

lemma holds_domain: "holds objs descr s live \<Longrightarrow> objs s p = None \<longleftrightarrow> p \<notin> fst ` set live"
  by (force simp: holds_def map_of_eq_None_iff)

lemma holds_add:
  assumes "holds objs descr s live" "objs s p = None" "objs t = (objs s)(p \<mapsto> descr r)"
  shows "holds objs descr t (live @ [(p, r)])"
proof -
  have p: "p \<notin> fst ` set live" using holds_domain [OF assms(1)] assms(2) by blast
  have "fst ` set (map (\<lambda>(p, r). (p, descr r)) live) = fst ` set live" by force
  with p have "p \<notin> fst ` set (map (\<lambda>(p, r). (p, descr r)) live)" by simp
  from map_of_added [OF this, of "descr r"] show ?thesis using assms(1,3) p by (simp add: holds_def)
qed

lemma holds_drop:
  assumes "holds objs descr s live" "i < length live" "objs t = (objs s)(fst (live ! i) := None)"
  shows "holds objs descr t (take i live @ drop (i + 1) live)"
proof -
  obtain p r where x: "live ! i = (p, r)" by (cases "live ! i")
  have l: "live = take i live @ (p, r) # drop (i + 1) live" using id_take_nth_drop [OF assms(2)] x by simp
  have d: "distinct (map fst (take i live @ (p, r) # drop (i + 1) live))" using assms(1) unfolding l [symmetric] holds_def by blast
  then have p: "p \<notin> fst ` set (take i live)" "p \<notin> fst ` set (drop (i + 1) live)" by auto
  have e: "fst ` set (map (\<lambda>(p, r). (p, descr r)) xs) = fst ` set xs" for xs by force
  have "objs s = map_of (map (\<lambda>(p, r). (p, descr r)) (take i live @ (p, r) # drop (i + 1) live))"
    using assms(1) unfolding l [symmetric] holds_def by blast
  then have "objs t = map_of (map (\<lambda>(p, r). (p, descr r)) (take i live @ drop (i + 1) live))"
    using assms(3) map_of_removed [of p "map (\<lambda>(p, r). (p, descr r)) (take i live)" "map (\<lambda>(p, r). (p, descr r)) (drop (i + 1) live)" "descr r"] p
    unfolding e x by simp
  then show ?thesis using d by (simp add: holds_def)
qed

locale object_store =
  fixes ok :: "'s \<Rightarrow> bool" and valid :: "'r \<Rightarrow> bool" and full :: "'r \<Rightarrow> 's \<Rightarrow> bool"
    and objs :: "'s \<Rightarrow> 'p \<Rightarrow> 'o option" and descr :: "'r \<Rightarrow> 'o"
    and alloc :: "'r \<Rightarrow> 's \<Rightarrow> ('p \<times> 's) outcome" and release :: "'p \<Rightarrow> 's \<Rightarrow> 's outcome"
  assumes alloc_ok: "ok s \<Longrightarrow> valid r \<Longrightarrow> (alloc r s = Exits \<and> full r s) \<or>
      (\<exists>p s'. alloc r s = Returns (p, s') \<and> ok s' \<and> objs s p = None \<and> objs s' = (objs s)(p \<mapsto> descr r))"
    and release_ok: "ok s \<Longrightarrow> objs s p \<noteq> None \<Longrightarrow> \<exists>s'. release p s = Returns s' \<and> ok s' \<and> objs s' = (objs s)(p := None)"
begin

text \<open>A sequence ends the program only at a request for which the store was full, and otherwise returns with the
  store and the client agreeing on the objects.\<close>

lemma client_ok:
  assumes "ok s" "holds objs descr s live" "\<forall>r. Acquire r \<in> set rs \<longrightarrow> valid r"
  shows "(client alloc release rs s live = Exits \<and> (\<exists>n r s' live'. n < length rs \<and> rs ! n = Acquire r \<and>
        client alloc release (take n rs) s live = Returns (s', live') \<and> full r s')) \<or>
    (\<exists>s' live'. client alloc release rs s live = Returns (s', live') \<and> ok s' \<and> holds objs descr s' live')"
  using assms
proof (induction rs arbitrary: s live)
  case (Cons q rs)
  have step: ?case
    if n: "\<forall>m \<le> length rs. client alloc release (take (Suc m) (q # rs)) s live = client alloc release (take m rs) t l"
      and t: "ok t" "holds objs descr t l" for t l
  proof -
    have e: "client alloc release (q # rs) s live = client alloc release rs t l" using n [rule_format, of "length rs"] by simp
    have "\<forall>r. Acquire r \<in> set rs \<longrightarrow> valid r" using Cons.prems(3) by simp
    from Cons.IH [OF t this] show ?thesis
    proof
      assume "client alloc release rs t l = Exits \<and> (\<exists>n r s' live'. n < length rs \<and> rs ! n = Acquire r \<and>
        client alloc release (take n rs) t l = Returns (s', live') \<and> full r s')"
      then obtain m r s' live' where m: "client alloc release rs t l = Exits" "m < length rs" "rs ! m = Acquire r"
        "client alloc release (take m rs) t l = Returns (s', live')" "full r s'" by blast
      then have "Suc m < length (q # rs) \<and> (q # rs) ! Suc m = Acquire r \<and>
        client alloc release (take (Suc m) (q # rs)) s live = Returns (s', live') \<and> full r s'"
        using n [rule_format, of m] by simp
      then show ?thesis using m(1) e by metis
    qed (use e in simp)
  qed
  show ?case
  proof (cases q)
    case (Acquire r)
    from alloc_ok [OF Cons.prems(1), of r] Cons.prems(3) Acquire
    consider "alloc r s = Exits" "full r s"
      | p t where "alloc r s = Returns (p, t)" "ok t" "objs s p = None" "objs t = (objs s)(p \<mapsto> descr r)" by auto
    then show ?thesis
    proof cases
      case 1
      then have "0 < length (q # rs) \<and> (q # rs) ! 0 = Acquire r \<and>
        client alloc release (take 0 (q # rs)) s live = Returns (s, live) \<and> full r s" using Acquire by simp
      moreover have "client alloc release (q # rs) s live = Exits" using Acquire 1 by simp
      ultimately show ?thesis by metis
    next
      case (2 p t)
      show ?thesis
        by (rule step [OF _ 2(2) holds_add [OF Cons.prems(2) 2(3,4)]]) (simp add: Acquire 2(1))
    qed
  next
    case (Release i)
    show ?thesis
    proof (cases "i < length live")
      case True
      have "objs s (fst (live ! i)) \<noteq> None" using holds_domain [OF Cons.prems(2)] nth_mem [OF True] by blast
      from release_ok [OF Cons.prems(1) this] obtain t where t: "release (fst (live ! i)) s = Returns t" "ok t"
        "objs t = (objs s)(fst (live ! i) := None)" by blast
      show ?thesis
        by (rule step [OF _ t(2) holds_drop [OF Cons.prems(2) True t(3)]]) (simp add: Release True t(1))
    next
      case False
      show ?thesis by (rule step [OF _ Cons.prems(1,2)]) (simp add: Release False)
    qed
  qed
qed simp

end

section \<open>The storage as an object store\<close>

text \<open>Requests are pairs of an application class and a size; pointers are the addresses behind the headers.\<close>

definition class_ok :: "uint32 list \<Rightarrow> nat \<times> nat \<Rightarrow> bool" where
  "class_ok mapping r \<longleftrightarrow> fst r < length mapping \<and> obj_cid (mapping ! fst r) \<and> mapping ! fst r \<noteq> page_map_cid"

definition store_ok :: "uint32 list \<Rightarrow> nat \<times> nat \<Rightarrow> storage \<Rightarrow> bool" where
  "store_ok mapping lim s \<longleftrightarrow> storage_ok s \<and> app_class_mapping s = mapping \<and> limit s = lim"

definition object_at :: "storage \<Rightarrow> nat \<Rightarrow> (uint32 \<times> nat) option" where
  "object_at s p = (if sizeof_object_header \<le> p then contents s (p - sizeof_object_header) else None)"

lemma object_at_update:
  "contents s' = (contents s)(h := x) \<Longrightarrow> object_at s' = (object_at s)(h + 8 := x)"
  by (auto simp: object_at_def fun_eq_iff sizeof_object_header_def)

interpretation store: object_store "store_ok mapping lim" "class_ok mapping" "\<lambda>(c, sz) s. no_room sz s" object_at
  "\<lambda>(c, sz). (mapping ! c, sz)" "\<lambda>(c, sz). allocate c sz" free_obj for mapping lim
proof
  fix s and r :: "nat \<times> nat"
  assume s: "store_ok mapping lim s" and r: "class_ok mapping r"
  obtain c sz where c: "r = (c, sz)" by (cases r)
  have m: "c < length (app_class_mapping s)" "mapping ! c = app_class_mapping s ! c" "obj_cid (mapping ! c)" "mapping ! c \<noteq> page_map_cid"
    using s r c by (simp_all add: store_ok_def class_ok_def)
  have "storage_ok s" using s by (simp add: store_ok_def)
  from allocate_ok [OF this m, of sz] show "(case r of (c, sz) \<Rightarrow> allocate c sz) s = Exits \<and> (case r of (c, sz) \<Rightarrow> \<lambda>s. no_room sz s) s \<or>
     (\<exists>p s'. (case r of (c, sz) \<Rightarrow> allocate c sz) s = Returns (p, s') \<and> store_ok mapping lim s' \<and> object_at s p = None \<and>
        object_at s' = (object_at s)(p \<mapsto> (case r of (c, sz) \<Rightarrow> (mapping ! c, sz))))"
  proof
    assume "\<exists>h s'. allocate c sz s = Returns (h + 8, s') \<and> storage_ok s' \<and> contents s h = None \<and>
       contents s' = (contents s)(h \<mapsto> (mapping ! c, sz)) \<and> limit s' = limit s \<and>
       app_class_mapping s' = app_class_mapping s \<and> (reuses sz s \<longrightarrow> file_size s' = file_size s)"
    then obtain h s' where a: "allocate c sz s = Returns (h + 8, s')" "storage_ok s'" "contents s h = None"
      "contents s' = (contents s)(h \<mapsto> (mapping ! c, sz))" "limit s' = limit s" "app_class_mapping s' = app_class_mapping s" by blast
    have "object_at s (h + 8) = None" using a(3) by (simp add: object_at_def sizeof_object_header_def)
    then show ?thesis using a s object_at_update [OF a(4)] by (auto simp: c store_ok_def)
  qed (simp add: c)
next
  fix s p
  assume s: "store_ok mapping lim s" and p: "object_at s p \<noteq> None"
  define h where "h = p - 8"
  have h: "p = h + 8 + 0" "h \<in> set (object_headers s)"
    using p by (auto simp: object_at_def contents_def sizeof_object_header_def h_def split: if_splits)
  have "storage_ok s" using s by (simp add: store_ok_def)
  from free_ok [OF this h(2,1)] obtain s' where f: "free_obj p s = Returns s'" "storage_ok s'" "contents s' = (contents s)(h := None)"
    "limit s' = limit s" "app_class_mapping s' = app_class_mapping s" by blast
  then show "\<exists>s'. free_obj p s = Returns s' \<and> store_ok mapping lim s' \<and> object_at s' = (object_at s)(p := None)"
    using s object_at_update [OF f(3)] h(1) by (auto simp: store_ok_def)
qed

lemma new_storage_empty: "contents (new_storage lim granularity mapping) = Map.empty"
  unfolding contents_def
  by (rule ext) (simp add: object_headers_def unit_starts.simps [of _ page_size], simp add: new_storage_def)

definition storage_client :: "nat \<Rightarrow> nat \<Rightarrow> uint32 list \<Rightarrow> (nat \<times> nat) request list \<Rightarrow> (storage \<times> (nat \<times> nat \<times> nat) list) outcome" where
  "storage_client lim granularity mapping rs =
     client (\<lambda>(c, sz). allocate c sz) free_obj rs (new_storage lim granularity mapping) []"

text \<open>What the client holds is what the storage has.\<close>

lemma held_object:
  assumes "store_ok mapping lim s" "holds object_at (\<lambda>(c, sz). (mapping ! c, sz)) s live" "(p, c, sz) \<in> set live"
  shows "8 \<le> p" "p - 8 \<in> set (object_headers s)" "cid_at s (p - 8) = mapping ! c" "size_at s (p - 8) = sz"
proof -
  have "object_at s p = Some (mapping ! c, sz)"
  proof -
    have d: "distinct (map fst (map (\<lambda>(p, r). (p, case r of (c, sz) \<Rightarrow> (mapping ! c, sz))) live))"
      using assms(2) by (simp add: holds_def comp_def case_prod_beta)
    have "(p, mapping ! c, sz) \<in> set (map (\<lambda>(p, r). (p, case r of (c, sz) \<Rightarrow> (mapping ! c, sz))) live)"
      using assms(3) by force
    from map_of_is_SomeI [OF d this] show ?thesis using assms(2) by (simp add: holds_def)
  qed
  then show "8 \<le> p" "p - 8 \<in> set (object_headers s)" "cid_at s (p - 8) = mapping ! c" "size_at s (p - 8) = sz"
    by (auto simp: object_at_def contents_def sizeof_object_header_def split: if_splits)
qed

lemma held_apart:
  assumes "storage_ok s" "store_ok mapping lim s" "holds object_at (\<lambda>(c, sz). (mapping ! c, sz)) s live" "x \<in> set live"
  shows "case x of (p, c, sz) \<Rightarrow> page_size + 8 \<le> p \<and> p + sz \<le> file_size s \<and> get_header s p = Returns (p - 8) \<and>
    cid_at s (p - 8) = mapping ! c \<and> size_at s (p - 8) = sz \<and> (\<forall>(q, r) \<in> set live. p < q \<longrightarrow> p + sz + 8 \<le> q)"
proof -
  obtain p c sz where x: "x = (p, c, sz)" by (cases x)
  note o = held_object [OF assms(2,3) assms(4) [unfolded x]]
  note a = objects_apart [OF assms(1) o(2), unfolded o(4)]
  have "p + sz + 8 \<le> q" if q: "(q, r) \<in> set live" "p < q" for q r
  proof -
    obtain c' tz where "r = (c', tz)" by (cases r)
    note o' = held_object [OF assms(2,3) q(1) [unfolded this]]
    have "p - 8 < q - 8" using o(1) q(2) by simp
    then have "p - 8 + 8 + sz \<le> q - 8" using a o'(2) by blast
    then show ?thesis using o(1) o'(1) by simp
  qed
  moreover have "get_header s p = Returns (p - 8)" by (rule header_found [OF assms(1) o(2), of p 0]) (use o(1) in simp_all)
  moreover have "page_size + 8 \<le> p" "p + sz \<le> file_size s" using a o(1) by auto
  ultimately show ?thesis using o(3,4) by (auto simp: x)
qed

text \<open>C5: A client that allocates objects of its classes on a new storage and frees objects it holds, in any order
  and number, either meets the end of the program, and then at an allocation for which there was no room, or every
  call returns.  Then the pointers it holds are distinct and are exactly the objects of the storage; each object has
  the class and the size asked for, is found again by \<open>get_header\<close>, and lies with its header inside the file,
  which does not outgrow the mapping, behind the header page and apart from every other object.\<close>

theorem storage_client_correct:
  assumes "512 \<le> lim" "lim \<le> 2 ^ 32" "0 < granularity" "\<forall>r. Acquire r \<in> set rs \<longrightarrow> class_ok mapping r"
  shows "(storage_client lim granularity mapping rs = Exits \<and> (\<exists>n c sz s live. n < length rs \<and> rs ! n = Acquire (c, sz) \<and>
       storage_client lim granularity mapping (take n rs) = Returns (s, live) \<and> no_room sz s)) \<or>
    (\<exists>s live. storage_client lim granularity mapping rs = Returns (s, live) \<and> storage_ok s \<and> distinct (map fst live) \<and> file_size s \<le> lim \<and>
       set (object_headers s) = (\<lambda>(p, r). p - 8) ` set live \<and>
       (\<forall>(p, c, sz) \<in> set live. page_size + 8 \<le> p \<and> p + sz \<le> file_size s \<and> get_header s p = Returns (p - 8) \<and>
          cid_at s (p - 8) = mapping ! c \<and> size_at s (p - 8) = sz \<and>
          (\<forall>(q, r) \<in> set live. p < q \<longrightarrow> p + sz + 8 \<le> q)))"
proof -
  let ?s = "new_storage lim granularity mapping" and ?descr = "\<lambda>(c, sz). (mapping ! c, sz)"
  have s: "store_ok mapping (limit ?s) ?s" using new_storage_ok [OF assms(1-3), of mapping] by (simp add: store_ok_def) (simp add: new_storage_def)
  have h: "holds object_at ?descr ?s []" using new_storage_empty by (simp add: holds_def object_at_def fun_eq_iff)
  from store.client_ok [OF s h assms(4)]
  consider n c sz s live where "storage_client lim granularity mapping rs = Exits" "n < length rs" "rs ! n = Acquire (c, sz)"
      "storage_client lim granularity mapping (take n rs) = Returns (s, live)" "no_room sz s"
    | s live where "storage_client lim granularity mapping rs = Returns (s, live)" "store_ok mapping (limit ?s) s" "holds object_at ?descr s live"
    unfolding storage_client_def [symmetric] by (metis (no_types, lifting) case_prod_conv surj_pair)
  then show ?thesis
  proof cases
    case (1 n c sz s live)
    then show ?thesis by blast
  next
    case (2 s live)
    have ok: "storage_ok s" using 2(2) by (simp add: store_ok_def)
    have "file_size s \<le> mapped_size (data_file s)" using ok by (auto simp: storage_ok_def invar_def limits_ok_def)
    then have fs: "file_size s \<le> lim" using 2(2) by (simp add: store_ok_def limit_def new_storage_def)
    have hs: "set (object_headers s) = (\<lambda>(p, r). p - 8) ` set live"
    proof (intro set_eqI iffI)
      fix x assume "x \<in> set (object_headers s)"
      then have "object_at s (x + 8) \<noteq> None" by (simp add: object_at_def contents_def sizeof_object_header_def)
      then have "\<not> x + 8 \<notin> fst ` set live" unfolding holds_domain [OF 2(3)] .
      then show "x \<in> (\<lambda>(p, r). p - 8) ` set live" by force
    next
      fix x assume "x \<in> (\<lambda>(p, r). p - 8) ` set live"
      then obtain p c sz where "(p, c, sz) \<in> set live" "x = p - 8" by auto
      then show "x \<in> set (object_headers s)" using held_object(2) [OF 2(2,3)] by blast
    qed
    have "\<forall>x \<in> set live. case x of (p, c, sz) \<Rightarrow> page_size + 8 \<le> p \<and> p + sz \<le> file_size s \<and> get_header s p = Returns (p - 8) \<and>
          cid_at s (p - 8) = mapping ! c \<and> size_at s (p - 8) = sz \<and> (\<forall>(q, r) \<in> set live. p < q \<longrightarrow> p + sz + 8 \<le> q)"
      using held_apart [OF ok 2(2,3)] by blast
    moreover have "distinct (map fst live)" using 2(3) by (simp add: holds_def)
    ultimately show ?thesis using 2(1) ok fs hs by (intro disjI2 exI [of _ s] exI [of _ live] conjI)
  qed
qed

lemma storage_client_correct_witness:
  "\<exists>s p. storage_client 65536 4096 [3] [Acquire (0, 1000)] = Returns (s, [(p, 0, 1000)]) \<and> storage_ok s \<and>
     set (object_headers s) = {p - 8} \<and> p + 1000 \<le> file_size s"
proof -
  let ?rs = "[Acquire (0, 1000)]"
  have lim: "512 \<le> (65536 :: nat)" "(65536 :: nat) \<le> 2 ^ 32" "(0 :: nat) < 4096" by simp_all
  have c: "\<forall>r. Acquire r \<in> set ?rs \<longrightarrow> class_ok [3] r"
    by (simp add: class_ok_def obj_cid_def free_object_def gc_marked_def page_map_cid_def)
  have start: "storage_client 65536 4096 [3] (take n ?rs) = Returns (new_storage 65536 4096 [3], [])" "?rs ! n = Acquire (0, 1000)"
    if "n < length ?rs" for n using that by (simp_all add: storage_client_def)
  from storage_client_correct [OF lim c] show ?thesis
  proof (elim disjE conjE exE)
    fix n c sz s live
    assume n: "n < length ?rs" "?rs ! n = Acquire (c, sz)" "storage_client 65536 4096 [3] (take n ?rs) = Returns (s, live)" "no_room sz s"
    then have "sz = 1000" "s = new_storage 65536 4096 [3]" using start [OF n(1)] by simp_all
    then show ?thesis using n(4) sample_room [of 1000 "[3]"] by simp
  next
    fix s live
    assume s: "storage_client 65536 4096 [3] ?rs = Returns (s, live)" "storage_ok s"
      "set (object_headers s) = (\<lambda>(p, r). p - 8) ` set live"
      "\<forall>(p, c, sz)\<in>set live. page_size + 8 \<le> p \<and> p + sz \<le> file_size s \<and> get_header s p = Returns (p - 8) \<and>
          cid_at s (p - 8) = [3] ! c \<and> size_at s (p - 8) = sz \<and> (\<forall>(q, r)\<in>set live. p < q \<longrightarrow> p + sz + 8 \<le> q)"
    from s(1) obtain p where "live = [(p, 0, 1000)]"
      by (auto simp: storage_client_def outcome_bind_Returns split: prod.splits)
    then show ?thesis using s by auto
  qed
qed

end
