(* ===== verification/StorageGc.thy ===== *)
theory StorageGc
  imports Storage
begin

text \<open>
  The garbage collector (\<open>storage::garbage_collection\<close>): marking from the roots with an explicit stack of segments,
  and the sweep that rebuilds the chains of free pages and blocks.
\<close>

section \<open>References\<close>

text \<open>The object pointers of the file: \<open>ref_at\<close> gives the word at an address; a null pointer is 0.  The places of
  the roots in the header page are those of a build with 64-bit pointers.\<close>

record heap =
  heap_storage :: storage
  hdr_base :: "64 word"
  ref_at :: "nat \<Rightarrow> 64 word"
  n_static_data :: nat

definition sizeof_pointer :: nat where "sizeof_pointer = 8"
definition sizeof_gc_segment :: nat where "sizeof_gc_segment = 16"
definition gc_init_stack_size :: nat where "gc_init_stack_size = 64 * 1024"
definition root_object_at :: nat where "root_object_at = 16"
definition class_dictionary_at :: nat where "class_dictionary_at = 32"
definition static_data_at :: nat where "static_data_at = 208"

text \<open>The macros that describe the references of a class, with the place of the component in the object.  While
  the collector runs, the constructor of a class pushes the segments of its components.\<close>

datatype class_field = REF nat | REFS nat nat | VREFS nat

fun field_segment :: "nat \<Rightarrow> nat \<Rightarrow> class_field \<Rightarrow> nat \<times> nat" where
  "field_segment this sz (REF x) = (this + x, 1)"
| "field_segment this sz (REFS x items) = (this + x, items)"
| "field_segment this sz (VREFS x) = (this + x, (sz - x) div sizeof_pointer)"

type_synonym class_mapping = "uint32 \<Rightarrow> class_field list option"

section \<open>Marking\<close>

record marking =
  marked_heap :: heap
  gc_stack :: "(nat \<times> nat) list"
  stack_size :: nat

definition is_marked :: "uint32 \<Rightarrow> bool" where
  "is_marked cid \<longleftrightarrow> cid AND gc_marked \<noteq> 0"

definition set_mark :: "nat \<Rightarrow> storage \<Rightarrow> storage" where
  "set_mark hp s = s\<lparr>cid_at := (cid_at s)(hp := cid_at s hp OR gc_marked)\<rparr>"

definition grow_stack :: "nat \<Rightarrow> marking \<Rightarrow> marking" where
  "grow_stack sz g =
     (let old_size = length (gc_stack g)
      in if old_size * sizeof_gc_segment + to_unsigned (2 * sz) \<ge> stack_size g * sizeof_gc_segment
         then g\<lparr>stack_size := old_size * 2 + sz div sizeof_pointer\<rparr> else g)"

text \<open>A stack that overflows writes behind its memory.\<close>

definition push_segments :: "(nat \<times> nat) list \<Rightarrow> marking \<Rightarrow> marking outcome" where
  "push_segments segs g =
     (if length (gc_stack g) + length segs \<le> stack_size g then Returns (g\<lparr>gc_stack := rev segs @ gc_stack g\<rparr>) else Wild)"

definition mark_object :: "class_mapping \<Rightarrow> nat \<Rightarrow> marking \<Rightarrow> marking outcome" where
  "mark_object classes hp g =
     (let s = heap_storage (marked_heap g)
      in case classes (cid_at s hp) of
           None \<Rightarrow> Wild
         | Some field_list \<Rightarrow>
             push_segments (map (field_segment (hp + sizeof_object_header) (size_at s hp)) field_list)
               (grow_stack (size_at s hp) (g\<lparr>marked_heap := (marked_heap g)\<lparr>heap_storage := set_mark hp s\<rparr>\<rparr>)))"

definition mark_ref :: "class_mapping \<Rightarrow> 64 word \<Rightarrow> nat \<Rightarrow> marking \<Rightarrow> marking outcome" where
  "mark_ref classes shift opp g =
     (let h = marked_heap g
      in if ref_at h opp = 0 then Returns g
         else (let ref = ref_at h opp + shift;
                   g = g\<lparr>marked_heap := h\<lparr>ref_at := (ref_at h)(opp := ref)\<rparr>\<rparr>
               in outcome_bind (get_header (heap_storage h) (unat (ref - hdr_base h))) (\<lambda>hp.
                    if is_marked (cid_at (heap_storage h) hp) then Returns g else mark_object classes hp g)))"

text \<open>The loop over a segment ends when the decremented length is 0: an empty segment runs through the memory.\<close>

fun mark_segment :: "class_mapping \<Rightarrow> 64 word \<Rightarrow> nat \<Rightarrow> nat \<Rightarrow> marking \<Rightarrow> marking outcome" where
  "mark_segment classes shift opp 0 g = Wild"
| "mark_segment classes shift opp (Suc len) g =
     outcome_bind (mark_ref classes shift opp g) (\<lambda>g.
       if len = 0 then Returns g else mark_segment classes shift (opp + sizeof_pointer) len g)"

fun mark_loop :: "class_mapping \<Rightarrow> 64 word \<Rightarrow> nat \<Rightarrow> marking \<Rightarrow> marking outcome option" where
  "mark_loop classes shift 0 g = None"
| "mark_loop classes shift (Suc fuel) g =
     (case gc_stack g of
        [] \<Rightarrow> Some (Returns g)
      | (opp, len) # rest \<Rightarrow>
          (case mark_segment classes shift opp len (g\<lparr>gc_stack := rest\<rparr>) of
             Returns g \<Rightarrow> mark_loop classes shift fuel g
           | Exits \<Rightarrow> Some Exits
           | Wild \<Rightarrow> Some Wild))"

text \<open>The roots; the shift that was added to them before is taken back.\<close>

definition unshift :: "64 word \<Rightarrow> nat list \<Rightarrow> heap \<Rightarrow> heap" where
  "unshift shift opps h = fold (\<lambda>opp h. h\<lparr>ref_at := (ref_at h)(opp := ref_at h opp - shift)\<rparr>) opps h"

definition push_roots :: "64 word \<Rightarrow> heap \<Rightarrow> marking" where
  "push_roots shift h =
     (let (h, stack) =
            (if ref_at h root_object_at \<noteq> 0 then (unshift shift [root_object_at] h, [(root_object_at, 1)]) else (h, []));
          (h, stack) =
            (if ref_at h class_dictionary_at \<noteq> 0
             then (unshift shift [class_dictionary_at] h, (class_dictionary_at, 1) # stack) else (h, stack));
          (h, stack) =
            (if n_static_data h > 0
             then (unshift shift (map (\<lambda>i. static_data_at + i * sizeof_pointer) (rev [0 ..< n_static_data h])) h,
                   (static_data_at, n_static_data h) # stack) else (h, stack));
          h = (case page_map (heap_storage h) of None \<Rightarrow> h | Some m \<Rightarrow> h\<lparr>heap_storage := set_mark m (heap_storage h)\<rparr>)
      in \<lparr>marked_heap = h, gc_stack = stack, stack_size = gc_init_stack_size\<rparr>)"

section \<open>Sweeping\<close>

record sweeping =
  swept :: storage
  n_deallocated_objects :: nat
  n_free_objects :: nat
  n_used_objects :: nat
  used_size :: nat

definition clear_mark :: "nat \<Rightarrow> storage \<Rightarrow> storage" where
  "clear_mark bp s = s\<lparr>cid_at := (cid_at s)(bp := cid_at s bp AND NOT gc_marked)\<rparr>"

definition sweep_used :: "nat \<Rightarrow> nat \<Rightarrow> sweeping \<Rightarrow> sweeping" where
  "sweep_used bp sz w =
     w\<lparr>swept := clear_mark bp (swept w), n_used_objects := n_used_objects w + 1, used_size := used_size w + sz\<rparr>"

definition count_free :: "nat \<Rightarrow> sweeping \<Rightarrow> sweeping" where
  "count_free bp w =
     w\<lparr>n_deallocated_objects := n_deallocated_objects w + of_bool (cid_at (swept w) bp \<noteq> free_object),
       n_free_objects := n_free_objects w + 1\<rparr>"

fun sweep_block :: "nat \<Rightarrow> nat \<Rightarrow> nat list \<times> sweeping \<Rightarrow> nat list \<times> sweeping" where
  "sweep_block sz bp (chain, w) =
     (if is_marked (cid_at (swept w) bp) then (chain, sweep_used bp sz w)
      else (let w = count_free bp w
            in (chain @ [bp], w\<lparr>swept := (swept w)\<lparr>cid_at := (cid_at (swept w))(bp := free_object)\<rparr>\<rparr>)))"

definition sweep_page :: "nat list \<Rightarrow> nat \<Rightarrow> nat \<Rightarrow> sweeping \<Rightarrow> sweeping outcome" where
  "sweep_page bps sz n w =
     (let (chain, w') = fold (sweep_block sz) bps ([], w)
      in if n_used_objects w = n_used_objects w'
         then outcome_bind (free_page (hd chain) (swept w')) (\<lambda>s. Returns (w'\<lparr>swept := s\<rparr>))
         else Returns (w'\<lparr>swept := push_blocks chain n (swept w')\<rparr>))"

definition sweep_run :: "nat \<Rightarrow> sweeping \<Rightarrow> sweeping outcome" where
  "sweep_run bp w =
     (if is_marked (cid_at (swept w) bp) then Returns (sweep_used bp (size_at (swept w) bp + sizeof_object_header) w)
      else let w = count_free bp w in outcome_bind (free_page bp (swept w)) (\<lambda>s. Returns (w\<lparr>swept := s\<rparr>)))"

text \<open>The blocks of a page, in the order of the loop.\<close>

definition page_blocks :: "nat \<Rightarrow> nat \<Rightarrow> nat list" where
  "page_blocks sz bp = cut_blocks sz bp (bp + page_size - sz + 1)"

lemma ALIGN_le: "n \<le> ALIGN n page_size"
  by (simp add: ALIGN_def page_size_def)

lemma last_block: "bp \<le> last (cut_blocks sz bp e)"
proof (induction sz bp e rule: cut_blocks.induct)
  case (1 sz cp e)
  then show ?case by (subst cut_blocks.simps) (auto simp: cut_blocks.simps [of sz "cp + sz" e])
qed

lemma block_size_pos: "small sz \<Longrightarrow> 0 < block_size_of sz"
proof -
  assume "small sz"
  then have "size_index sz \<in> set [0..<32]" by (auto simp: small_def size_index_def sizeof_object_header_def page_size_def)
  moreover have "\<forall>i\<in>set [0..<32]. 0 < block_size ! i" by code_simp
  ultimately show ?thesis by (simp only: block_size_of_def)
qed

function sweep :: "nat \<Rightarrow> nat \<Rightarrow> sweeping \<Rightarrow> sweeping outcome" where
  "sweep bp end_of_storage w =
     (if bp < end_of_storage
      then let sz = size_at (swept w) bp
           in if \<not> small sz
              then outcome_bind (sweep_run bp w) (\<lambda>w. sweep (ALIGN (bp + sz + sizeof_object_header) page_size) end_of_storage w)
              else let bps = page_blocks (block_size_of sz) bp
                   in outcome_bind (sweep_page bps (block_size_of sz) (block_chain_of sz) w) (\<lambda>w.
                        sweep (ALIGN (last bps + block_size_of sz) page_size) end_of_storage w)
      else Returns w)"
  by pat_completeness auto
termination
proof (relation "measure (\<lambda>(bp, end_of_storage, w). end_of_storage - bp)", goal_cases)
  case (2 bp end_of_storage w sz)
  then show ?case using ALIGN_le [of "bp + sz + sizeof_object_header"] by (simp add: sizeof_object_header_def)
next
  case (3 bp end_of_storage w sz bps)
  have "bp \<le> last bps" using 3 last_block [of bp] by (simp add: page_blocks_def)
  moreover have "0 < block_size_of sz" using 3 by (intro block_size_pos) simp
  ultimately have "bp < last bps + block_size_of sz" by simp
  then show ?case using ALIGN_le [of "last bps + block_size_of sz"] 3 by simp
qed simp

declare sweep.simps [simp del]

definition sweep_start :: "storage \<Rightarrow> sweeping" where
  "sweep_start s =
     \<lparr>swept = s\<lparr>free_page_chain := [], free_block_chain := replicate 13 [], curr_free_page := None\<rparr>,
      n_deallocated_objects = 0, n_free_objects = 0, n_used_objects = 0, used_size = 0\<rparr>"

text \<open>The loop over the stack takes one turn for a segment, hence at most one for eight bytes of the file and three
  for the roots.\<close>

definition garbage_collection :: "class_mapping \<Rightarrow> 64 word \<Rightarrow> heap \<Rightarrow> (nat \<times> heap) outcome option" where
  "garbage_collection classes shift h =
     map_option (\<lambda>r. outcome_bind r (\<lambda>g.
         let h = marked_heap g; s = heap_storage h
         in outcome_bind (sweep page_size (file_size s) (sweep_start s)) (\<lambda>w.
              Returns (n_deallocated_objects w, h\<lparr>heap_storage := swept w\<rparr>))))
       (mark_loop classes shift (file_size (heap_storage h) + 4) (push_roots shift h))"

end
