(* ===== verification/StorageMark.thy ===== *)
theory StorageMark
  imports StorageGc StorageSpec
begin

text \<open>
  Marking without a shift of the references: the collector marks exactly the objects that can be reached from the
  roots, its stack never overflows, and the turns of its loop are bounded by the size of the file.
\<close>

section \<open>Reachable objects\<close>

definition segment_places :: "nat \<times> nat \<Rightarrow> nat set" where
  "segment_places seg = (\<lambda>i. fst seg + i * sizeof_pointer) ` {..<snd seg}"

definition object_segments :: "class_mapping \<Rightarrow> storage \<Rightarrow> nat \<Rightarrow> (nat \<times> nat) list" where
  "object_segments classes s x = map (field_segment (x + sizeof_object_header) (size_at s x)) (the (classes (cid_at s x)))"

definition object_places :: "class_mapping \<Rightarrow> storage \<Rightarrow> nat \<Rightarrow> nat set" where
  "object_places classes s x = (\<Union>seg\<in>set (object_segments classes s x). segment_places seg)"

definition root_places :: "heap \<Rightarrow> nat set" where
  "root_places h = {root_object_at, class_dictionary_at} \<union> segment_places (static_data_at, n_static_data h)"

definition points_to :: "heap \<Rightarrow> nat \<Rightarrow> nat \<Rightarrow> bool" where
  "points_to h opp x \<longleftrightarrow> ref_at h opp \<noteq> 0 \<and> x \<in> set (object_headers (heap_storage h)) \<and>
     (\<exists>offs. (offs = 0 \<or> offs < size_at (heap_storage h) x) \<and> ref_at h opp = hdr_base h + of_nat (x + sizeof_object_header + offs))"

inductive reachable :: "class_mapping \<Rightarrow> heap \<Rightarrow> nat \<Rightarrow> bool" for classes h where
  root: "opp \<in> root_places h \<Longrightarrow> points_to h opp x \<Longrightarrow> reachable classes h x"
| step: "reachable classes h x \<Longrightarrow> opp \<in> object_places classes (heap_storage h) x \<Longrightarrow> points_to h opp y \<Longrightarrow> reachable classes h y"

text \<open>What the collector relies on: every object has a class whose segments are not empty and fit into it, and
  every reference is null or points into an object.\<close>

definition object_class_ok :: "class_mapping \<Rightarrow> storage \<Rightarrow> nat \<Rightarrow> bool" where
  "object_class_ok classes s x \<longleftrightarrow>
     classes (cid_at s x) \<noteq> None \<and> size_at s x < 2 ^ 31 \<and> length (object_segments classes s x) * sizeof_pointer \<le> size_at s x
     \<and> (\<forall>seg\<in>set (object_segments classes s x). 0 < snd seg)"

definition heap_ok :: "class_mapping \<Rightarrow> heap \<Rightarrow> bool" where
  "heap_ok classes h \<longleftrightarrow> storage_ok (heap_storage h) \<and>
     (\<forall>x\<in>set (object_headers (heap_storage h)). object_class_ok classes (heap_storage h) x) \<and>
     (\<forall>opp\<in>root_places h \<union> (\<Union>x\<in>set (object_headers (heap_storage h)). object_places classes (heap_storage h) x).
        ref_at h opp = 0 \<or> (\<exists>x. points_to h opp x))"

section \<open>Marked storages\<close>

definition marks :: "nat set \<Rightarrow> storage \<Rightarrow> storage" where
  "marks M s = s\<lparr>cid_at := (\<lambda>h. if h \<in> M then cid_at s h OR gc_marked else cid_at s h)\<rparr>"

lemma marks_fields [simp]:
  "data_file (marks M s) = data_file s" "file_size (marks M s) = file_size s" "size_at (marks M s) = size_at s"
  "page_map (marks M s) = page_map s" "map_bits (marks M s) = map_bits s" "free_page_chain (marks M s) = free_page_chain s"
  "free_block_chain (marks M s) = free_block_chain s" "curr_free_page (marks M s) = curr_free_page s"
  "app_class_mapping (marks M s) = app_class_mapping s"
  "cid_at (marks M s) x = (if x \<in> M then cid_at s x OR gc_marked else cid_at s x)"
  by (simp_all add: marks_def)

lemma marked_bits: "is_marked (c OR gc_marked)" "c OR gc_marked \<noteq> free_object" "(c OR gc_marked) AND NOT gc_marked = c AND NOT gc_marked"
proof -
  have "(c OR gc_marked) AND gc_marked = gc_marked" by (simp add: bit.conj_disj_distrib2 or.commute)
  moreover have "gc_marked \<noteq> 0" by (simp add: gc_marked_def)
  ultimately have "(c OR gc_marked) AND gc_marked \<noteq> 0" by simp
  then show "is_marked (c OR gc_marked)" "c OR gc_marked \<noteq> free_object"
    by (simp_all only: is_marked_def free_object_def) (metis zero_and_eq)+
  show "(c OR gc_marked) AND NOT gc_marked = c AND NOT gc_marked" by (simp add: bit.conj_disj_distrib2)
qed

lemma obj_cid_mark: "obj_cid c \<Longrightarrow> \<not> is_marked c" "obj_cid c \<Longrightarrow> c AND NOT gc_marked = c"
proof -
  assume c: "obj_cid c"
  then show "\<not> is_marked c" by (simp add: obj_cid_def is_marked_def)
  have "c = (c AND gc_marked) OR (c AND NOT gc_marked)" by (simp add: bit.conj_disj_distrib [symmetric])
  then show "c AND NOT gc_marked = c" using c by (simp add: obj_cid_def)
qed

lemma in_page_map_marks [simp]: "in_page_map (marks M s) p = in_page_map s p"
  unfolding in_page_map_def marks_fields by (rule refl)

lemma first_page_marks: "first_page (marks M s) n = first_page s n"
  by (induction n) simp_all

lemma get_header_marks:
  assumes "\<forall>x\<in>M. cid_at s x \<noteq> free_object"
  shows "get_header (marks M s) p = get_header s p"
proof -
  have "block_start (marks M s) x = block_start s x" for x unfolding block_start_def Let_def marks_fields by (rule refl)
  moreover have "cid_at (marks M s) x = free_object \<longleftrightarrow> cid_at s x = free_object" for x
    using assms marked_bits(2) by auto
  ultimately show ?thesis unfolding get_header_def first_page_marks in_page_map_marks marks_fields(1-9) by (simp only:)
qed

lemma set_mark_marks: "set_mark x (marks M s) = marks (insert x M) s"
  by (rule storage.equality) (auto simp: set_mark_def marks_def fun_eq_iff or.assoc)

section \<open>The marking invariant\<close>

definition gc_ready :: "class_mapping \<Rightarrow> heap \<Rightarrow> layout \<Rightarrow> bool" where
  "gc_ready classes h K \<longleftrightarrow> invar (heap_storage h) K \<and> helds K = {} \<and>
     (\<forall>x\<in>set (object_headers (heap_storage h)). object_class_ok classes (heap_storage h) x) \<and>
     (\<forall>opp\<in>root_places h \<union> (\<Union>x\<in>set (object_headers (heap_storage h)). object_places classes (heap_storage h) x).
        ref_at h opp = 0 \<or> (\<exists>x. points_to h opp x))"

lemma gc_readyD:
  assumes "gc_ready classes h K"
  shows "invar (heap_storage h) K" "helds K = {}"
    "x \<in> set (object_headers (heap_storage h)) \<Longrightarrow> object_class_ok classes (heap_storage h) x"
    "opp \<in> root_places h \<union> (\<Union>x\<in>set (object_headers (heap_storage h)). object_places classes (heap_storage h) x) \<Longrightarrow>
      ref_at h opp = 0 \<or> (\<exists>x. points_to h opp x)"
  using assms unfolding gc_ready_def by blast+


definition map_header :: "heap \<Rightarrow> nat set" where
  "map_header h = set_option (page_map (heap_storage h))"

lemma object_obj_cid:
  assumes inv: "invar s K" "helds K = {}" and "x \<in> set (object_headers s)"
  shows "obj_cid (cid_at s x)"
proof -
  have "is_object s K x" using assms(3) objects_set [OF inv] by simp
  then show ?thesis using units_okD(2) [of s K] inv(1) by (fastforce simp: is_object_def invar_def cell_ok_def)
qed

lemma object_cid: "gc_ready classes h K \<Longrightarrow> x \<in> set (object_headers (heap_storage h)) \<Longrightarrow> obj_cid (cid_at (heap_storage h) x)"
  by (rule object_obj_cid [OF gc_readyD(1,2)])

lemma object_not_map: "x \<in> set (object_headers (heap_storage h)) \<Longrightarrow> x \<notin> map_header h"
  by (auto simp: object_headers_def map_header_def)

lemma map_cid:
  assumes ready: "gc_ready classes h K"
  shows "x \<in> map_header h \<Longrightarrow> cid_at (heap_storage h) x = page_map_cid"
  using gc_readyD(1) [OF ready] by (auto simp: map_header_def invar_def map_ok_def)

lemma reference_header:
  assumes inv: "invar (heap_storage h) K" "helds K = {}" and "points_to h opp x"
  shows "get_header (heap_storage h) (unat (ref_at h opp - hdr_base h)) = Returns x"
proof -
  obtain offs where o: "offs = 0 \<or> offs < size_at (heap_storage h) x" "ref_at h opp = hdr_base h + of_nat (x + 8 + offs)" "is_object (heap_storage h) K x"
    using assms(3) objects_set [OF inv] by (auto simp: points_to_def sizeof_object_header_def)
  obtain u k where u: "K u = Some k" "u \<le> x" "x + 8 + size_at (heap_storage h) x \<le> u + klen k" using object_place [OF inv(1) o(3)] by blast
  have "u + klen k \<le> file_size (heap_storage h)" using tilesD(7) [OF units_okD(1) [of "heap_storage h" K] u(1)] inv(1) by (simp add: invar_def)
  moreover have "file_size (heap_storage h) \<le> 2 ^ 32" using inv(1) by (simp add: invar_def limits_ok_def)
  ultimately have "x + 8 + offs < 2 ^ 64" using u(3) o(1) by auto
  then have "unat (of_nat (x + 8 + offs) :: 64 word) = x + 8 + offs" by (simp only: unat_of_nat) simp
  then have "unat (ref_at h opp - hdr_base h) = x + offs + 8" unfolding o(2) by (simp add: ac_simps)
  moreover have "x \<le> x + offs" "x + offs = x \<or> x + offs < x + size_at (heap_storage h) x" using o(1) by auto
  ultimately show ?thesis using get_header_ok [OF inv(1) o(3)] by simp
qed

lemma points_to_header:
  "gc_ready classes h K \<Longrightarrow> points_to h opp x \<Longrightarrow> get_header (heap_storage h) (unat (ref_at h opp - hdr_base h)) = Returns x"
  by (rule reference_header [OF gc_readyD(1,2)])

lemma points_to_unique: "gc_ready classes h K \<Longrightarrow> points_to h opp x \<Longrightarrow> points_to h opp y \<Longrightarrow> x = y"
  by (metis outcome.inject points_to_header)

definition state :: "heap \<Rightarrow> nat set \<Rightarrow> (nat \<times> nat) list \<Rightarrow> nat \<Rightarrow> marking" where
  "state h M st cap = \<lparr>marked_heap = h\<lparr>heap_storage := marks (M \<union> map_header h) (heap_storage h)\<rparr>, gc_stack = st, stack_size = cap\<rparr>"

definition sources :: "class_mapping \<Rightarrow> heap \<Rightarrow> nat set \<Rightarrow> nat set" where
  "sources classes h M = root_places h \<union> (\<Union>x\<in>M. object_places classes (heap_storage h) x)"

definition mark_inv :: "class_mapping \<Rightarrow> heap \<Rightarrow> nat set \<Rightarrow> nat set \<Rightarrow> (nat \<times> nat) list \<Rightarrow> nat \<Rightarrow> bool" where
  "mark_inv classes h M W st cap \<longleftrightarrow>
     M \<subseteq> set (object_headers (heap_storage h)) \<and> (\<forall>x\<in>M. reachable classes h x) \<and>
     W \<union> (\<Union>seg\<in>set st. segment_places seg) \<subseteq> sources classes h M \<and>
     (\<forall>opp\<in>sources classes h M. opp \<in> W \<union> (\<Union>seg\<in>set st. segment_places seg) \<or> ref_at h opp = 0 \<or> (\<exists>x\<in>M. points_to h opp x)) \<and>
     (\<forall>seg\<in>set st. 0 < snd seg) \<and> length st \<le> cap"

definition unmarked_segments :: "class_mapping \<Rightarrow> heap \<Rightarrow> nat set \<Rightarrow> nat" where
  "unmarked_segments classes h M = (\<Sum>x\<in>set (object_headers (heap_storage h)) - M. length (object_segments classes (heap_storage h) x))"

lemma source_reaches: "opp \<in> sources classes h M \<Longrightarrow> (\<forall>x\<in>M. reachable classes h x) \<Longrightarrow> points_to h opp y \<Longrightarrow> reachable classes h y"
  by (auto simp: sources_def intro: reachable.intros)

lemma mark_ref_ok:
  assumes ready: "gc_ready classes h K" and "mark_inv classes h M (insert opp W) st cap"
  obtains M' st' cap' where "mark_ref classes 0 opp (state h M st cap) = Returns (state h M' st' cap')" "mark_inv classes h M' W st' cap'"
    "length st' + unmarked_segments classes h M' = length st + unmarked_segments classes h M"
proof -
  note i = assms(2) [unfolded mark_inv_def]
  let ?h = "h\<lparr>heap_storage := marks (M \<union> map_header h) (heap_storage h)\<rparr>"
  have opp: "opp \<in> sources classes h M" using i by auto
  have M: "M \<subseteq> set (object_headers (heap_storage h))" using i by blast
  have same: "(h\<lparr>heap_storage := t, ref_at := (ref_at h)(opp := ref_at h opp)\<rparr>) = h\<lparr>heap_storage := t\<rparr>" for t by simp
  show ?thesis
  proof (cases "ref_at h opp = 0")
    case True
    have "mark_ref classes 0 opp (state h M st cap) = Returns (state h M st cap)" using True by (simp add: mark_ref_def state_def Let_def)
    moreover have "mark_inv classes h M W st cap" using i True unfolding mark_inv_def by auto
    ultimately show ?thesis using that by blast
  next
    case False
    have "opp \<in> root_places h \<union> (\<Union>x\<in>set (object_headers (heap_storage h)). object_places classes (heap_storage h) x)" using opp M by (auto simp: sources_def)
    then obtain x where x: "points_to h opp x" using gc_readyD(4) [OF ready] False by blast
    then have xo: "x \<in> set (object_headers (heap_storage h))" by (simp add: points_to_def)
    have "\<forall>y\<in>M \<union> map_header h. cid_at (heap_storage h) y \<noteq> free_object"
      using object_cid [OF ready] M map_cid [OF ready] by (fastforce simp: obj_cid_def page_map_cid_def free_object_def)
    then have gh: "get_header (marks (M \<union> map_header h) (heap_storage h)) (unat (ref_at h opp - hdr_base h)) = Returns x"
      using get_header_marks points_to_header [OF ready x] by simp
    have mk: "is_marked (cid_at (marks (M \<union> map_header h) (heap_storage h)) x) \<longleftrightarrow> x \<in> M"
      using marked_bits(1) obj_cid_mark(1) [OF object_cid [OF ready xo]] object_not_map [OF xo] by simp
    show ?thesis
    proof (cases "x \<in> M")
      case True
      have "mark_ref classes 0 opp (state h M st cap) = Returns (state h M st cap)"
        using False gh mk True by (simp add: mark_ref_def state_def Let_def)
      moreover have "mark_inv classes h M W st cap" using i True x unfolding mark_inv_def by auto
      ultimately show ?thesis using that by blast
    next
      case new: False
      let ?segs = "object_segments classes (heap_storage h) x"
      obtain fl where fl: "classes (cid_at (heap_storage h) x) = Some fl" using gc_readyD(3) [OF ready xo] by (auto simp: object_class_ok_def)
      have c: "size_at (heap_storage h) x < 2 ^ 31"
        "length ?segs * 8 \<le> size_at (heap_storage h) x" "\<forall>seg\<in>set ?segs. 0 < snd seg"
        using gc_readyD(3) [OF ready xo] by (auto simp: object_class_ok_def sizeof_pointer_def)
      define cap' where "cap' = stack_size (grow_stack (size_at (heap_storage h) x) (state h M st cap))"
      have "to_unsigned (2 * size_at (heap_storage h) x) = 2 * size_at (heap_storage h) x" using c(1) by (simp add: to_unsigned_def)
      then have cap': "length st + length ?segs \<le> cap'"
        using c(2) i by (auto simp: cap'_def grow_stack_def state_def sizeof_gc_segment_def sizeof_pointer_def Let_def)
      have g: "grow_stack (size_at (heap_storage h) x) (state h (insert x M) st cap) = state h (insert x M) st cap'"
        by (simp add: cap'_def grow_stack_def state_def Let_def)
      have "mark_ref classes 0 opp (state h M st cap) = mark_object classes x (state h M st cap)"
        using False gh mk new by (simp add: mark_ref_def state_def Let_def)
      also have "\<dots> = push_segments ?segs (grow_stack (size_at (heap_storage h) x) (state h (insert x M) st cap))"
        using fl object_not_map [OF xo] new
        by (simp add: mark_object_def state_def Let_def object_segments_def set_mark_marks)
      also have "\<dots> = Returns (state h (insert x M) (rev ?segs @ st) cap')"
        unfolding g push_segments_def using cap' by (simp add: state_def)
      finally have r: "mark_ref classes 0 opp (state h M st cap) = Returns (state h (insert x M) (rev ?segs @ st) cap')" .
      have xr: "reachable classes h x" by (rule source_reaches [OF opp _ x]) (use i in blast)
      have src: "sources classes h (insert x M) = sources classes h M \<union> object_places classes (heap_storage h) x" by (auto simp: sources_def)
      have pl: "(\<Union>seg\<in>set (rev ?segs @ st). segment_places seg) = object_places classes (heap_storage h) x \<union> (\<Union>seg\<in>set st. segment_places seg)"
        by (auto simp: object_places_def)
      have inv': "mark_inv classes h (insert x M) W (rev ?segs @ st) cap'"
        unfolding mark_inv_def src pl
      proof (intro conjI)
        show "insert x M \<subseteq> set (object_headers (heap_storage h))" using xo M by simp
        show "\<forall>x\<in>insert x M. reachable classes h x" using xr i by blast
        show "W \<union> (object_places classes (heap_storage h) x \<union> (\<Union>seg\<in>set st. segment_places seg)) \<subseteq> sources classes h M \<union> object_places classes (heap_storage h) x" using i by blast
        show "\<forall>opp\<in>sources classes h M \<union> object_places classes (heap_storage h) x. opp \<in> W \<union> (object_places classes (heap_storage h) x \<union> (\<Union>seg\<in>set st. segment_places seg)) \<or>
            ref_at h opp = 0 \<or> (\<exists>x\<in>insert x M. points_to h opp x)"
        proof
          fix oc assume "oc \<in> sources classes h M \<union> object_places classes (heap_storage h) x"
          then consider "oc \<in> object_places classes (heap_storage h) x" | "oc \<in> sources classes h M" by blast
          then show "oc \<in> W \<union> (object_places classes (heap_storage h) x \<union> (\<Union>seg\<in>set st. segment_places seg)) \<or>
            ref_at h oc = 0 \<or> (\<exists>x\<in>insert x M. points_to h oc x)"
          proof cases
            case 2
            then have "oc \<in> insert opp W \<union> (\<Union>seg\<in>set st. segment_places seg) \<or> ref_at h oc = 0 \<or> (\<exists>x\<in>M. points_to h oc x)"
              using i by blast
            then show ?thesis using x by (cases "oc = opp") auto
          qed simp
        qed
        show "\<forall>seg\<in>set (rev ?segs @ st). 0 < snd seg" using i c(3) by auto
        show "length (rev ?segs @ st) \<le> cap'" using cap' by simp
      qed
      have "set (object_headers (heap_storage h)) - M = insert x (set (object_headers (heap_storage h)) - insert x M)" using xo new by auto
      then have "unmarked_segments classes h M = (\<Sum>y\<in>insert x (set (object_headers (heap_storage h)) - insert x M). length (object_segments classes (heap_storage h) y))"
        by (simp only: unmarked_segments_def)
      also have "\<dots> = length ?segs + unmarked_segments classes h (insert x M)" unfolding unmarked_segments_def by (rule sum.insert) simp_all
      finally have "unmarked_segments classes h M = length ?segs + unmarked_segments classes h (insert x M)" .
      then show ?thesis using that [OF r inv'] by simp
    qed
  qed
qed

lemma segment_places_Suc: "segment_places (opp, Suc len) = insert opp (segment_places (opp + sizeof_pointer, len))"
proof -
  have "{..<Suc len} = insert 0 (Suc ` {..<len})" by (auto simp: image_iff less_Suc_eq_0_disj)
  then show ?thesis by (simp add: segment_places_def image_image ac_simps)
qed

lemma mark_segment_ok:
  assumes ready: "gc_ready classes h K" and "mark_inv classes h M (segment_places (opp, len) \<union> W) st cap" "0 < len"
  obtains M' st' cap' where "mark_segment classes 0 opp len (state h M st cap) = Returns (state h M' st' cap')" "mark_inv classes h M' W st' cap'"
    "length st' + unmarked_segments classes h M' = length st + unmarked_segments classes h M"
  using assms(2-)
proof (induction len arbitrary: opp M st cap thesis)
  case (Suc len)
  have "mark_inv classes h M (insert opp (segment_places (opp + sizeof_pointer, len) \<union> W)) st cap"
    using Suc.prems(2) by (simp add: segment_places_Suc)
  then obtain M1 st1 cap1 where m: "mark_ref classes 0 opp (state h M st cap) = Returns (state h M1 st1 cap1)"
    "mark_inv classes h M1 (segment_places (opp + sizeof_pointer, len) \<union> W) st1 cap1"
    "length st1 + unmarked_segments classes h M1 = length st + unmarked_segments classes h M" by (rule mark_ref_ok [OF ready])
  show thesis
  proof (cases "len = 0")
    case True
    then show thesis using m by (intro Suc.prems(1) [of M1 st1 cap1]) (simp_all add: segment_places_def)
  next
    case False
    show thesis
      by (rule Suc.IH [OF _ m(2)]) (use False m Suc.prems(1) in auto)
  qed
qed simp

lemma mark_loop_ok:
  assumes ready: "gc_ready classes h K" and "mark_inv classes h M {} st cap" "length st + unmarked_segments classes h M < fuel"
  obtains M' cap' where "mark_loop classes 0 fuel (state h M st cap) = Some (Returns (state h M' [] cap'))" "mark_inv classes h M' {} [] cap'"
  using assms(2-)
proof (induction fuel arbitrary: M st cap thesis)
  case (Suc fuel)
  show thesis
  proof (cases st)
    case Nil
    then show thesis using Suc.prems(2) by (intro Suc.prems(1) [of M cap]) (simp_all add: state_def)
  next
    case (Cons seg rest)
    obtain opp len where seg: "seg = (opp, len)" by (cases seg)
    have pos: "0 < len" and i: "mark_inv classes h M (segment_places (opp, len) \<union> {}) rest cap"
      using Suc.prems(2) unfolding Cons seg mark_inv_def by auto
    obtain M1 st1 cap1 where m: "mark_segment classes 0 opp len (state h M rest cap) = Returns (state h M1 st1 cap1)" "mark_inv classes h M1 {} st1 cap1"
      "length st1 + unmarked_segments classes h M1 = length rest + unmarked_segments classes h M" by (rule mark_segment_ok [OF ready i pos])
    have "mark_loop classes 0 (Suc fuel) (state h M st cap) = mark_loop classes 0 fuel (state h M1 st1 cap1)"
      using m(1) unfolding Cons seg by (simp add: state_def)
    moreover have "length st1 + unmarked_segments classes h M1 < fuel" using Suc.prems(3) m(3) unfolding Cons by simp
    ultimately show thesis using Suc.IH [OF _ m(2), of thesis] Suc.prems(1) by simp
  qed
qed simp

text \<open>With nothing left on the stack the marked objects are the reachable ones.\<close>

lemma marked_reachable:
  assumes ready: "gc_ready classes h K" and "mark_inv classes h M {} [] cap"
  shows "M = {x. reachable classes h x}"
proof
  note i = assms(2) [unfolded mark_inv_def]
  show "M \<subseteq> {x. reachable classes h x}" using i by blast
  have done': "\<exists>x\<in>M. points_to h opp x" if "opp \<in> sources classes h M" "ref_at h opp \<noteq> 0" for opp using i that by auto
  have "x \<in> M" if "reachable classes h x" for x
    using that
  proof induction
    case (root opp x)
    then have "opp \<in> sources classes h M" "ref_at h opp \<noteq> 0" by (simp_all add: sources_def points_to_def)
    then show ?case using done' points_to_unique [OF ready root(2)] by blast
  next
    case (step x opp y)
    then have "opp \<in> sources classes h M" "ref_at h opp \<noteq> 0" by (auto simp: sources_def points_to_def)
    then show ?case using done' points_to_unique [OF ready step(3)] by blast
  qed
  then show "{x. reachable classes h x} \<subseteq> M" by blast
qed

text \<open>The segments of all objects are bounded by the file.\<close>

lemma sum_apart:
  fixes f :: "nat \<Rightarrow> nat"
  assumes "finite A" "\<forall>x\<in>A. x + f x \<le> hi" "\<forall>x\<in>A. \<forall>y\<in>A. x < y \<longrightarrow> x + f x \<le> y"
  shows "sum f A \<le> hi"
  using assms
proof (induction A arbitrary: hi rule: finite_linorder_max_induct)
  case (insert b A)
  have "sum f A \<le> b" using insert.prems insert.hyps by (intro insert.IH) auto
  moreover have "b \<notin> A" using insert.hyps by blast
  ultimately show ?case using insert.prems(1) insert.hyps(1) by simp
qed simp

lemma segments_bounded:
  assumes ready: "gc_ready classes h K"
  shows "unmarked_segments classes h {} \<le> file_size (heap_storage h)"
proof -
  have o: "x \<in> set (object_headers (heap_storage h)) \<longleftrightarrow> is_object (heap_storage h) K x" for x by (rule objects_set [OF gc_readyD(1,2) [OF ready]])
  have place: "x + size_at (heap_storage h) x \<le> file_size (heap_storage h)" "is_object (heap_storage h) K y \<Longrightarrow> x < y \<Longrightarrow> x + size_at (heap_storage h) x \<le> y" if x: "is_object (heap_storage h) K x" for x y
  proof -
    obtain u k where u: "K u = Some k" "u \<le> x" "x + 8 + size_at (heap_storage h) x \<le> u + klen k"
      "\<forall>g. is_object (heap_storage h) K g \<longrightarrow> x < g \<longrightarrow> x + 8 + size_at (heap_storage h) x \<le> g" by (rule object_place [OF gc_readyD(1) [OF ready] x])
    have "u + klen k \<le> file_size (heap_storage h)" using tilesD(7) [OF units_okD(1) [of "heap_storage h" K] u(1)] gc_readyD(1) [OF ready] by (simp add: invar_def)
    then show "x + size_at (heap_storage h) x \<le> file_size (heap_storage h)" using u(3) by simp
    show "x + size_at (heap_storage h) x \<le> y" if "is_object (heap_storage h) K y" "x < y" using u(4) that by force
  qed
  have "unmarked_segments classes h {} \<le> (\<Sum>x\<in>set (object_headers (heap_storage h)). size_at (heap_storage h) x)"
    unfolding unmarked_segments_def Diff_empty using gc_readyD(3) [OF ready]
    by (intro sum_mono) (fastforce simp: object_class_ok_def sizeof_pointer_def)
  also have "\<dots> \<le> file_size (heap_storage h)" by (rule sum_apart) (use place o in auto)
  finally show ?thesis .
qed

lemma unshift_0 [simp]: "unshift 0 opps h' = h'"
  by (induction opps) (simp_all add: unshift_def)

lemma marking_ok:
  assumes ready: "gc_ready classes h K"
  obtains M cap where "mark_loop classes 0 (file_size (heap_storage h) + 4) (push_roots 0 h) = Some (Returns (state h M [] cap))"
    "M = {x. reachable classes h x}" "M \<subseteq> set (object_headers (heap_storage h))"
proof -
  let ?st = "(if n_static_data h > 0 then [(static_data_at, n_static_data h)] else [])
    @ (if ref_at h class_dictionary_at \<noteq> 0 then [(class_dictionary_at, 1)] else [])
    @ (if ref_at h root_object_at \<noteq> 0 then [(root_object_at, 1)] else [])"
  have "push_roots 0 h = state h {} ?st gc_init_stack_size"
  proof (cases "page_map (heap_storage h)")
    case None
    have "h\<lparr>heap_storage := marks {} (heap_storage h)\<rparr> = h" by (simp add: marks_def)
    then show ?thesis using None by (simp add: push_roots_def state_def map_header_def Let_def)
  next
    case (Some m)
    have "set_mark m (heap_storage h) = marks {m} (heap_storage h)" using set_mark_marks [of m "{}" "heap_storage h"] by (simp add: marks_def)
    then show ?thesis using Some by (simp add: push_roots_def state_def map_header_def Let_def)
  qed
  moreover have "mark_inv classes h {} {} ?st gc_init_stack_size"
  proof -
    have one: "segment_places (p, 1) = {p}" for p by (auto simp: segment_places_def)
    have "(\<Union>seg\<in>set ?st. segment_places seg) \<subseteq> root_places h" by (auto simp: one [simplified] root_places_def)
    moreover have "opp \<in> (\<Union>seg\<in>set ?st. segment_places seg) \<or> ref_at h opp = 0" if "opp \<in> root_places h" for opp
    proof -
      consider "opp = root_object_at" | "opp = class_dictionary_at" | "opp \<in> segment_places (static_data_at, n_static_data h)"
        using \<open>opp \<in> root_places h\<close> by (auto simp: root_places_def)
      then show ?thesis
      proof cases
        case 3
        then have "0 < n_static_data h" by (auto simp: segment_places_def)
        then show ?thesis using 3 by simp
      qed (auto simp: one [simplified])
    qed
    ultimately show ?thesis by (auto simp: mark_inv_def sources_def gc_init_stack_size_def)
  qed
  moreover have "length ?st + unmarked_segments classes h {} < file_size (heap_storage h) + 4" using segments_bounded [OF ready] by simp
  ultimately obtain M cap where m: "mark_loop classes 0 (file_size (heap_storage h) + 4) (push_roots 0 h) = Some (Returns (state h M [] cap))"
    "mark_inv classes h M {} [] cap" using mark_loop_ok [OF ready] by metis
  have "M \<subseteq> set (object_headers (heap_storage h))" using m(2) by (simp add: mark_inv_def)
  then show ?thesis by (rule that [OF m(1) marked_reachable [OF ready m(2)]])
qed

end
