(* ===== verification/StorageSweep.thy ===== *)
theory StorageSweep
  imports StorageMark
begin

text \<open>
  The sweep: the units of pages are taken one after the other from a layout in which all of them are held, and put
  back in use, cut into blocks, or on the chain of free pages.
\<close>

section \<open>The state in the middle of a sweep\<close>

definition gc_marks :: "storage \<Rightarrow> layout \<Rightarrow> nat set \<Rightarrow> bool" where
  "gc_marks s K A \<longleftrightarrow> invar s K \<and> helds K = {} \<and> set_option (page_map s) \<subseteq> A \<and> A \<subseteq> {x. is_object s K x} \<union> set_option (page_map s)"

fun unit_swept :: "storage \<Rightarrow> nat set \<Rightarrow> nat \<Rightarrow> kind \<Rightarrow> storage \<Rightarrow> layout \<Rightarrow> bool" where
  "unit_swept s A u (Held n) t L \<longleftrightarrow> False"
| "unit_swept s A u (Free n) t L \<longleftrightarrow> (\<forall>l. L u = Some l \<longrightarrow> is_free l)"
| "unit_swept s A u (Used n) t L \<longleftrightarrow>
     (if u \<in> A then L u = Some (Used n) \<and> cid_at t u = cid_at s u \<and> size_at t u = size_at s u else (\<forall>l. L u = Some l \<longrightarrow> is_free l))"
| "unit_swept s A u (Cells i) t L \<longleftrightarrow>
     (if cells u i \<inter> A \<noteq> {}
      then L u = Some (Cells i) \<and> (\<forall>c\<in>cells u i. if c \<in> A then cid_at t c = cid_at s c \<and> size_at t c = size_at s c else cid_at t c = free_object)
      else (\<forall>l. L u = Some l \<longrightarrow> is_free l))"

definition run_bits :: "layout \<Rightarrow> nat \<Rightarrow> nat set \<Rightarrow> nat \<Rightarrow> bool" where
  "run_bits K m B q \<longleftrightarrow> (\<exists>u n. K u = Some (Used n) \<and> u \<noteq> m \<and> u \<in> B \<and> u < q * 512 \<and> q * 512 < u + n)"

definition same_fields :: "storage \<Rightarrow> storage \<Rightarrow> bool" where
  "same_fields s t \<longleftrightarrow> file_size t = file_size s \<and> page_map t = page_map s \<and> app_class_mapping t = app_class_mapping s \<and>
     mapped_size (data_file t) = mapped_size (data_file s) \<and> allocation_granularity (data_file t) = allocation_granularity (data_file s)"

definition swept_to :: "storage \<Rightarrow> layout \<Rightarrow> nat set \<Rightarrow> nat \<Rightarrow> storage \<Rightarrow> layout \<Rightarrow> bool" where
  "swept_to s K A p t L \<longleftrightarrow> units_ok t L \<and> same_fields s t \<and>
     (\<forall>u k. K u = Some k \<longrightarrow> p \<le> u \<longrightarrow> L u = Some (Held (klen k)) \<and> same_headers (marks A s) t u (klen k)) \<and>
     (\<forall>u k. K u = Some k \<longrightarrow> u < p \<longrightarrow> unit_swept s A u k t L) \<and>
     (\<forall>u l. L u = Some l \<longrightarrow> \<not> is_free l \<longrightarrow> K u \<noteq> None) \<and>
     (\<forall>m. page_map s = Some m \<longrightarrow> (\<forall>q. map_bits t q \<longleftrightarrow> run_bits K m ({u. p \<le> u} \<union> A) q))"

lemma swept_toD:
  assumes "swept_to s K A p t L"
  shows "units_ok t L" "same_fields s t" "K u = Some k \<Longrightarrow> p \<le> u \<Longrightarrow> L u = Some (Held (klen k))"
    "K u = Some k \<Longrightarrow> p \<le> u \<Longrightarrow> same_headers (marks A s) t u (klen k)" "K u = Some k \<Longrightarrow> u < p \<Longrightarrow> unit_swept s A u k t L"
    "L u = Some l \<Longrightarrow> \<not> is_free l \<Longrightarrow> K u \<noteq> None"
    "page_map s = Some m \<Longrightarrow> map_bits t q \<longleftrightarrow> run_bits K m ({u. p \<le> u} \<union> A) q"
  using assms unfolding swept_to_def by blast+

lemma gc_marksD:
  assumes "gc_marks s K A"
  shows "invar s K" "helds K = {}" "units_ok s K" "map_ok s K" "map_covers s" "limits_ok s" "page_map s = Some m \<Longrightarrow> m \<in> A"
    "x \<in> A \<Longrightarrow> page_map s \<noteq> Some x \<Longrightarrow> is_object s K x"
  using assms unfolding gc_marks_def invar_def by auto

text \<open>Which headers the marking phase has marked.\<close>

lemma unit_cid:
  assumes "gc_marks s K A" "K u = Some k" "k = Used n \<and> c = u \<or> k = Cells i \<and> c \<in> cells u i"
  shows "c \<in> A \<Longrightarrow> obj_cid (cid_at s c)" "cid_at s c = free_object \<or> obj_cid (cid_at s c)"
    "is_marked (cid_at (marks A s) c) \<longleftrightarrow> c \<in> A" "c \<in> A \<Longrightarrow> cid_at (marks A s) c AND NOT gc_marked = cid_at s c"
    "c \<in> A \<Longrightarrow> cid_at s c \<noteq> free_object"
proof -
  note g = gc_marksD [OF assms(1)]
  show two: "cid_at s c = free_object \<or> obj_cid (cid_at s c)"
    using units_okD(2) [OF g(3) assms(2)] assms(3) by (auto simp: cell_ok_def)
  show nf: "cid_at s c \<noteq> free_object" if c: "c \<in> A"
  proof (cases "page_map s = Some c")
    case True
    then obtain n' where n': "K c = Some (Used n')" using map_run [OF g(4)] by blast
    then show ?thesis using units_okD(2) [OF g(3) n'] by (simp add: obj_cid_def)
  next
    case False
    then have "is_object s K c" by (rule g(8) [OF c])
    then show ?thesis using units_okD(2) [OF g(3)] by (fastforce simp: is_object_def obj_cid_def)
  qed
  show oc: "obj_cid (cid_at s c)" if "c \<in> A" using two nf [OF that] by blast
  show "is_marked (cid_at (marks A s) c) \<longleftrightarrow> c \<in> A"
    using marked_bits(1) two obj_cid_mark(1) [of "cid_at s c"] by (auto simp: is_marked_def free_object_def)
  show "cid_at (marks A s) c AND NOT gc_marked = cid_at s c" if "c \<in> A"
    using that marked_bits(3) obj_cid_mark(2) [OF oc [OF that]] by simp
qed

lemma free_unmarked:
  assumes "gc_marks s K A" "K u = Some (Free n)"
  shows "u \<notin> A" "\<not> is_marked (cid_at (marks A s) u)" "cid_at (marks A s) u = free_object"
proof -
  note g = gc_marksD [OF assms(1)]
  show u: "u \<notin> A"
  proof
    assume u: "u \<in> A"
    have "page_map s \<noteq> Some u" using map_run [OF g(4), of u] assms(2) by (metis kind.distinct(7) option.inject)
    then have "is_object s K u" by (rule g(8) [OF u])
    then obtain v i where v: "K v = Some (Cells i)" "u \<in> cells v i" using assms(2) by (auto simp: is_object_def)
    from cell_place [OF g(3) v assms(2)] tilesD(5) [OF units_okD(1) [OF g(3)] assms(2)] have "u = v" by simp
    then show False using v(1) assms(2) by simp
  qed
  show "cid_at (marks A s) u = free_object" "\<not> is_marked (cid_at (marks A s) u)"
    using u units_okD(2) [OF g(3) assms(2)] by (simp_all add: is_marked_def free_object_def)
qed

section \<open>One unit further\<close>

lemma unit_swept_keep:
  assumes "unit_swept s A u k t L" "0 < klen k" "\<And>i. k = Cells i \<Longrightarrow> i < 13"
    and a: "\<And>l. L u = Some l \<Longrightarrow> \<not> is_free l \<Longrightarrow> L2 u = Some l \<and> same_headers t t2 u (klen l)"
    and b: "\<And>l. L2 u = Some l \<Longrightarrow> \<not> is_free l \<Longrightarrow> L u = Some l"
  shows "unit_swept s A u k t2 L2"
proof -
  have free: "\<forall>l. L2 u = Some l \<longrightarrow> is_free l" if "\<forall>l. L u = Some l \<longrightarrow> is_free l" using b that by blast
  show ?thesis
  proof (cases k)
    case (Held n)
    then show ?thesis using assms(1) by simp
  next
    case (Free n)
    show ?thesis using free assms(1) unfolding Free unit_swept.simps by blast
  next
    case (Used n)
    show ?thesis
    proof (cases "u \<in> A")
      case True
      then have l: "L u = Some (Used n)" "cid_at t u = cid_at s u" "size_at t u = size_at s u" using assms(1) Used by simp_all
      from a [OF l(1)] have "L2 u = Some (Used n)" "cid_at t2 u = cid_at t u" "size_at t2 u = size_at t u"
        using assms(2) Used by (simp_all add: same_headers_def)
      then show ?thesis unfolding Used unit_swept.simps using True l by simp
    next
      case False
      then have "\<forall>l. L u = Some l \<longrightarrow> is_free l" using assms(1) unfolding Used unit_swept.simps by (simp only: if_False)
      from free [OF this] show ?thesis unfolding Used unit_swept.simps using False by (simp only: if_False)
    qed
  next
    case (Cells i)
    show ?thesis
    proof (cases "cells u i \<inter> A = {}")
      case False
      then have "L u = Some (Cells i)" using assms(1) Cells by simp
      from a [OF this] have l: "L2 u = Some (Cells i)" "same_headers t t2 u 512" by simp_all
      have h: "cid_at t2 c = cid_at t c" "size_at t2 c = size_at t c" if "c \<in> cells u i" for c
        using l(2) cells_bounds(1,3) [OF that assms(3) [OF Cells]] by (simp_all add: same_headers_def)
      have "\<forall>c\<in>cells u i. if c \<in> A then cid_at t c = cid_at s c \<and> size_at t c = size_at s c else cid_at t c = free_object"
        using assms(1) Cells False by simp
      then have "\<forall>c\<in>cells u i. if c \<in> A then cid_at t2 c = cid_at s c \<and> size_at t2 c = size_at s c else cid_at t2 c = free_object"
        using h by metis
      then show ?thesis unfolding Cells unit_swept.simps using False l(1) by (simp only: if_True not_False_eq_True simp_thms)
    next
      case True
      then have "\<forall>l. L u = Some l \<longrightarrow> is_free l" using assms(1) unfolding Cells unit_swept.simps by (simp only: if_False simp_thms)
      from free [OF this] show ?thesis unfolding Cells unit_swept.simps using True by (simp only: if_False simp_thms)
    qed
  qed
qed

lemma swept_step:
  assumes "gc_marks s K A" "swept_to s K A p t L" "K p = Some k" "units_ok t2 L2" "same_fields s t2"
    and a: "\<And>u l. L u = Some l \<Longrightarrow> \<not> is_free l \<Longrightarrow> u \<noteq> p \<Longrightarrow> L2 u = Some l \<and> same_headers t t2 u (klen l)"
    and b: "\<And>u l. L2 u = Some l \<Longrightarrow> \<not> is_free l \<Longrightarrow> u \<noteq> p \<Longrightarrow> L u = Some l"
    and unit: "unit_swept s A p k t2 L2"
    and bits: "\<And>m q. page_map s = Some m \<Longrightarrow> map_bits t2 q \<longleftrightarrow> run_bits K m ({u. p + klen k \<le> u} \<union> A) q"
  shows "swept_to s K A (p + klen k) t2 L2"
  unfolding swept_to_def
proof (intro conjI allI impI)
  note d = swept_toD [OF assms(2)] and g = gc_marksD [OF assms(1)]
  note t = tilesD [OF units_okD(1) [OF g(3)]]
  show "units_ok t2 L2" "same_fields s t2" by (rule assms(4,5))+
  show "map_bits t2 q \<longleftrightarrow> run_bits K m ({u. p + klen k \<le> u} \<union> A) q" if "page_map s = Some m" for m q by (rule bits [OF that])
  show "K u \<noteq> None" if "L2 u = Some l" "\<not> is_free l" for u l
    using b [OF that] d(6) [of u l] that assms(3) by (cases "u = p") auto
  fix u k' assume u: "K u = Some k'"
  {
    assume "p + klen k \<le> u"
    then have l: "p \<le> u" "u \<noteq> p" using t(5) [OF assms(3)] by auto
    from a [OF d(3) [OF u l(1)] _ l(2)] d(4) [OF u l(1)]
    show "L2 u = Some (Held (klen k'))" "same_headers (marks A s) t2 u (klen k')" by (auto simp: same_headers_def)
  next
    assume lt: "u < p + klen k"
    show "unit_swept s A u k' t2 L2"
    proof (cases "u = p")
      case True
      then show ?thesis using unit u assms(3) by simp
    next
      case False
      then have "u < p" using tiles_unique [OF units_okD(1) [OF g(3)] u assms(3), of u] lt t(5) [OF u] by fastforce
      have "\<And>i. k' = Cells i \<Longrightarrow> i < 13" using units_okD(2) [OF g(3) u] by simp
      from unit_swept_keep [OF d(5) [OF u \<open>u < p\<close>] t(5) [OF u] this] a b False show ?thesis by blast
    qed
  }
qed

section \<open>The bits of the page map\<close>

lemma run_bits_skip:
  assumes "units_ok s K" "K p = Some k" "\<And>n. k = Used n \<Longrightarrow> p \<in> A"
  shows "run_bits K m ({u. p + klen k \<le> u} \<union> A) q \<longleftrightarrow> run_bits K m ({u. p \<le> u} \<union> A) q"
proof -
  have "u \<in> {u. p + klen k \<le> u} \<union> A \<longleftrightarrow> u \<in> {u. p \<le> u} \<union> A" if "K u = Some (Used n)" for u n
  proof (cases "u = p")
    case True
    then show ?thesis using assms(2,3) that by auto
  next
    case False
    then show ?thesis using unit_apart [OF assms(1,2) that] tilesD(5) [OF units_okD(1) [OF assms(1)]] that by fastforce
  qed
  then show ?thesis unfolding run_bits_def by blast
qed

lemma run_bits_drop:
  assumes "units_ok s K" "K p = Some (Used n)" "p \<notin> A" "p \<noteq> m"
  shows "run_bits K m ({u. p + n \<le> u} \<union> A) q \<longleftrightarrow> \<not> (p < q * 512 \<and> q * 512 < p + n) \<and> run_bits K m ({u. p \<le> u} \<union> A) q"
proof -
  have n: "0 < n" using tilesD(5) [OF units_okD(1) [OF assms(1)] assms(2)] by simp
  have in': "u \<in> {u. p + n \<le> u} \<union> A \<longleftrightarrow> u \<noteq> p \<and> u \<in> {u. p \<le> u} \<union> A" if "K u = Some (Used l)" for u l
    using unit_apart [OF assms(1,2) that] tilesD(5) [OF units_okD(1) [OF assms(1)] that] assms(3) n by (cases "u = p") auto
  have out: "\<not> (p < q * 512 \<and> q * 512 < p + n)" if "K u = Some (Used l)" "u \<noteq> p" "u < q * 512" "q * 512 < u + l" for u l
    using unit_apart [OF assms(1) that(1) assms(2) that(2)] that(3,4) by auto
  show ?thesis
  proof
    assume "run_bits K m ({u. p + n \<le> u} \<union> A) q"
    then obtain u l where u: "K u = Some (Used l)" "u \<noteq> m" "u \<in> {u. p + n \<le> u} \<union> A" "u < q * 512" "q * 512 < u + l"
      by (auto simp: run_bits_def)
    then have "u \<noteq> p" "u \<in> {u. p \<le> u} \<union> A" using in' [OF u(1)] by blast+
    then show "\<not> (p < q * 512 \<and> q * 512 < p + n) \<and> run_bits K m ({u. p \<le> u} \<union> A) q"
      using out [OF u(1) _ u(4,5)] u unfolding run_bits_def by blast
  next
    assume r: "\<not> (p < q * 512 \<and> q * 512 < p + n) \<and> run_bits K m ({u. p \<le> u} \<union> A) q"
    then obtain u l where u: "K u = Some (Used l)" "u \<noteq> m" "u \<in> {u. p \<le> u} \<union> A" "u < q * 512" "q * 512 < u + l"
      by (auto simp: run_bits_def)
    then have "u \<noteq> p" using r assms(2) by auto
    then show "run_bits K m ({u. p + n \<le> u} \<union> A) q" using in' [OF u(1)] u unfolding run_bits_def by blast
  qed
qed

section \<open>Runs of pages\<close>

lemma swept_header:
  assumes "swept_to s K A p t L" "K p = Some k" "0 < klen k"
  shows "cid_at t p = cid_at (marks A s) p" "size_at t p = size_at s p"
  using swept_toD(4) [OF assms(1,2) order_refl] assms(3) by (simp_all add: same_headers_def)

lemma same_fields_trans: "same_fields s t \<Longrightarrow> same_fields t t2 \<Longrightarrow> same_fields s t2"
  by (simp add: same_fields_def)

lemma swept_bits: "swept_to s K A p t L \<Longrightarrow> page_map s = Some m \<Longrightarrow> map_bits t q \<longleftrightarrow> run_bits K m ({u. p \<le> u} \<union> A) q"
  by (rule swept_toD(7))

lemma swept_covers:
  assumes "gc_marks s K A" "swept_to s K A p t L"
  shows "map_covers t"
proof (cases "page_map s")
  case None
  then show ?thesis using swept_toD(2) [OF assms(2)] by (simp add: map_covers_def same_fields_def)
next
  case (Some m)
  note g = gc_marksD [OF assms(1)] and d = swept_toD [OF assms(2)]
  obtain n where n: "K m = Some (Used n)" using map_run [OF g(4) Some] .
  have pos: "0 < n" using tilesD(5) [OF units_okD(1) [OF g(3)] n] by simp
  have "size_at t m = size_at s m"
  proof (cases "p \<le> m")
    case True
    then show ?thesis using d(4) [OF n True] pos by (simp add: same_headers_def)
  next
    case False
    then show ?thesis using d(5) [OF n] g(7) [OF Some] by simp
  qed
  then show ?thesis using g(5) d(2) Some by (simp add: map_covers_def same_fields_def)
qed

lemma sweep_used_run:
  assumes "gc_marks s K A" "swept_to s K A p t L" "K p = Some (Used n)" "p \<in> A"
  shows "swept_to s K A (p + n) (clear_mark p t) (L(p \<mapsto> Used n))"
proof -
  note g = gc_marksD [OF assms(1)] and d = swept_toD [OF assms(2)]
  have pos: "0 < n" using tilesD(5) [OF units_okD(1) [OF g(3)] assms(3)] by simp
  note hd = swept_header [OF assms(2,3), simplified, OF pos]
  have L: "L p = Some (Held n)" using d(3) [OF assms(3)] by simp
  define t2 where "t2 = clear_mark p t"
  have c: "cid_at t2 p = cid_at s p" using unit_cid(4) [OF assms(1,3) _ assms(4)] hd(1) assms(4) by (simp add: t2_def clear_mark_def)
  have set: "t2 = set_header p (cid_at s p) (size_at t p) t"
    using c by (intro storage.equality) (auto simp: t2_def clear_mark_def set_header_def)
  have z: "size_at t2 p = size_at s p" using hd(2) by (simp add: t2_def clear_mark_def)
  have held: "units_ok t2 L" unfolding set by (rule held_header [OF d(1) L])
  have "unit_ok t2 p (Used n)"
    using units_okD(2) [OF g(3) assms(3)] c z by simp
  then have ok: "units_ok t2 (L(p \<mapsto> Used n))" by (rule held_used [OF held L])
  have same: "same_headers t t2 u (klen l)" if "L u = Some l" "u \<noteq> p" for u l
    unfolding set by (rule header_apart [OF d(1) L that])
  have f: "same_fields s t2" using d(2) by (simp add: t2_def clear_mark_def same_fields_def)
  have bits: "map_bits t2 q \<longleftrightarrow> run_bits K m ({u. p + klen (Used n) \<le> u} \<union> A) q" if "page_map s = Some m" for m q
    using run_bits_skip [OF g(3) assms(3), of A m q] assms(4) swept_bits [OF assms(2) that] by (simp add: t2_def clear_mark_def)
  have "swept_to s K A (p + klen (Used n)) t2 (L(p \<mapsto> Used n))"
    by (rule swept_step [OF assms(1-3) ok f _ _ _ bits]) (use same assms(4) c z in \<open>auto split: if_splits\<close>)
  then show ?thesis by (simp add: t2_def)
qed

lemma used_no_map: "map_ok s K \<Longrightarrow> K u = Some (Used n) \<Longrightarrow> page_map s \<noteq> Some u \<Longrightarrow> cid_at s u \<noteq> page_map_cid"
  by (auto simp: map_ok_def split: option.splits)

text \<open>Pages that go back to the chain of free pages, without a bit in the page map.\<close>

lemma swept_freed:
  assumes "gc_marks s K A" "swept_to s K A p t L" "K p = Some k" "L p = Some (Held n)" "klen k = n" "units_ok u L"
    and h: "\<And>v l. L v = Some l \<Longrightarrow> v \<noteq> p \<Longrightarrow> same_headers t u v (klen l)"
    and "same_fields s u" "ALIGN (size_at u p + 8) 512 = n"
    and "clear_pages n p (u\<lparr>size_at := (size_at u)(p := n - 8)\<rparr>) = Returns (u\<lparr>size_at := (size_at u)(p := n - 8), map_bits := bits\<rparr>)"
    and "\<And>m q. page_map s = Some m \<Longrightarrow> bits q \<longleftrightarrow> run_bits K m ({v. p + n \<le> v} \<union> A) q"
    and "\<And>L2 t2. (\<forall>l. L2 p = Some l \<longrightarrow> is_free l) \<Longrightarrow> unit_swept s A p k t2 L2"
  obtains t2 L2 where "free_page p u = Returns t2" "swept_to s K A (p + n) t2 L2"
proof -
  note g = gc_marksD [OF assms(1)] and d = swept_toD [OF assms(2)]
  have lim: "file_size u \<le> 2 ^ 32" using g(6) assms(8) by (simp add: limits_ok_def same_fields_def)
  obtain t2 L2 where f: "free_page p u = Returns t2" "units_ok t2 L2" "keeps (u\<lparr>map_bits := bits\<rparr>) (L(p \<mapsto> Free n)) t2 L2"
    "file_size t2 = file_size u" "helds L2 \<subseteq> helds L - {p}" by (rule free_held [OF assms(6,4,9) lim assms(10)])
  note kp = keepsD [OF f(3)]
  have a: "L2 v = Some l \<and> same_headers t t2 v (klen l)" if "L v = Some l" "\<not> is_free l" "v \<noteq> p" for v l
    using kp(1,2) [of v l] that h [OF that(1,3)] by (simp add: same_headers_def)
  have b: "L v = Some l" if l: "L2 v = Some l" "\<not> is_free l" "v \<noteq> p" for v l
  proof (cases "in_use l")
    case True
    then show ?thesis using kp(3) [of v l] l by simp
  next
    case False
    then obtain j where j: "l = Held j" using l(2) by (cases l) auto
    then have "v \<in> helds L" using f(5) l(1) by (auto simp: helds_def)
    then obtain j' where j': "L v = Some (Held j')" by (auto simp: helds_def)
    then have "L2 v = Some (Held j')" using kp(1) [of v "Held j'"] l(3) by simp
    then show ?thesis using l(1) j' by simp
  qed
  have np: "\<forall>l. L2 p = Some l \<longrightarrow> is_free l"
  proof (intro allI impI, rule ccontr)
    fix l assume l: "L2 p = Some l" "\<not> is_free l"
    show False
    proof (cases "in_use l")
      case True
      then show ?thesis using kp(3) [of p l] l by auto
    next
      case False
      then obtain j where "l = Held j" using l(2) by (cases l) auto
      then show ?thesis using f(5) l(1) by (auto simp: helds_def)
    qed
  qed
  have fields: "same_fields s t2" using assms(8) f(4) kp(4,7-9) by (simp add: same_fields_def)
  have bt: "map_bits t2 q \<longleftrightarrow> run_bits K m ({v. p + klen k \<le> v} \<union> A) q" if "page_map s = Some m" for m q
    using assms(11) [OF that] kp(5) assms(5) by simp
  have un: "unit_swept s A p k t2 L2" using assms(12) np by blast
  have "swept_to s K A (p + klen k) t2 L2" by (rule swept_step [OF assms(1-3) f(2) fields a b un bt])
  then show ?thesis using that f(1) assms(5) by simp
qed

lemma sweep_free_run:
  assumes "gc_marks s K A" "swept_to s K A p t L" "K p = Some k" "k = Free n \<or> k = Used n \<and> p \<notin> A"
  obtains t2 L2 where "free_page p t = Returns t2" "swept_to s K A (p + n) t2 L2"
proof -
  note g = gc_marksD [OF assms(1)] and d = swept_toD [OF assms(2)]
  have n: "klen k = n" using assms(4) by auto
  have dv: "512 dvd p" "512 dvd n" "0 < n" "p + n \<le> file_size s" using tilesD(3,4,5,7) [OF units_okD(1) [OF g(3)] assms(3)] n by simp_all
  have L: "L p = Some (Held n)" using d(3) [OF assms(3)] n by simp
  note hd = swept_header [OF assms(2,3), unfolded n, OF dv(3)]
  have fs: "file_size t = file_size s" "page_map t = page_map s" using d(2) by (simp_all add: same_fields_def)
  have sz: "ALIGN (size_at t p + 8) 512 = n"
    using units_okD(2) [OF g(3) assms(3)] assms(4) dv(2) align_dvd [of n] hd(2) by auto
  define bits where "bits = (if k = Free n then map_bits t else (\<lambda>q. if p < q * 512 \<and> q * 512 < p + n then False else map_bits t q))"
  have clear: "clear_pages n p (t\<lparr>size_at := (size_at t)(p := n - 8)\<rparr>) = Returns (t\<lparr>size_at := (size_at t)(p := n - 8), map_bits := bits\<rparr>)"
  proof (cases "k = Free n")
    case True
    have "cid_at t p = free_object" using free_unmarked(3) [OF assms(1) assms(3) [unfolded True]] hd(1) by simp
    then show ?thesis using True by (simp add: clear_pages_def bits_def)
  next
    case False
    then have k: "K p = Some (Used n)" "p \<notin> A" using assms(3,4) by auto
    have pm: "page_map t \<noteq> Some p" using g(7) [of p] k(2) fs(2) by auto
    have "cid_at t p = cid_at s p" using hd(1) k(2) by simp
    moreover have "cid_at s p \<noteq> free_object" using units_okD(2) [OF g(3) k(1)] by (simp add: obj_cid_def)
    moreover have "cid_at s p \<noteq> page_map_cid" using used_no_map [OF g(4) k(1)] pm fs(2) by simp
    ultimately have c: "cid_at t p \<noteq> free_object" "cid_at t p \<noteq> page_map_cid" by simp_all
    have m: "512 < n \<Longrightarrow> page_map t \<noteq> None" using g(4) k(1) fs(2) by (intro notI) (auto simp: map_ok_def)
    have e: "p + n \<le> file_size t" using dv(4) fs(1) by simp
    from clear_bits [OF dv(1-3) e swept_covers [OF assms(1,2)] pm m c] show ?thesis using False by (simp add: bits_def)
  qed
  have bt: "bits q \<longleftrightarrow> run_bits K m ({u. p + n \<le> u} \<union> A) q" if m: "page_map s = Some m" for m q
  proof (cases "k = Free n")
    case True
    then show ?thesis using run_bits_skip [OF g(3) assms(3), of A m q] swept_bits [OF assms(2) m] by (simp add: bits_def)
  next
    case False
    then have k: "K p = Some (Used n)" "p \<notin> A" using assms(3,4) by auto
    have "p \<noteq> m" using g(7) [OF m] k(2) by auto
    from run_bits_drop [OF g(3) k this, of q] show ?thesis using False swept_bits [OF assms(2) m] by (simp add: bits_def)
  qed
  show ?thesis
  proof (rule swept_freed [OF assms(1-3) L n d(1) _ d(2) sz clear bt])
    show "unit_swept s A p k t2 L2" if "\<forall>l. L2 p = Some l \<longrightarrow> is_free l" for t2 L2 using that assms(4) by auto
  qed (use that in \<open>simp_all add: same_headers_def\<close>)
qed

section \<open>Pages of blocks\<close>

lemma sweep_blocks:
  assumes "distinct bps"
  shows "\<exists>w'. fold (sweep_block sz) bps (chain, w) = (chain @ filter (\<lambda>b. \<not> is_marked (cid_at (swept w) b)) bps, w') \<and>
     swept w' = (swept w)\<lparr>cid_at := (\<lambda>x. if x \<in> set bps then (if is_marked (cid_at (swept w) x) then cid_at (swept w) x AND NOT gc_marked else free_object)
       else cid_at (swept w) x)\<rparr> \<and>
     n_used_objects w' = n_used_objects w + length (filter (\<lambda>b. is_marked (cid_at (swept w) b)) bps) \<and>
     n_deallocated_objects w' = n_deallocated_objects w +
       length (filter (\<lambda>b. \<not> is_marked (cid_at (swept w) b) \<and> cid_at (swept w) b \<noteq> free_object) bps)"
  using assms
proof (induction bps arbitrary: chain w)
  case Nil
  then show ?case by simp
next
  case (Cons b bps)
  let ?m = "is_marked (cid_at (swept w) b)"
  define w1 where "w1 = snd (sweep_block sz b (chain, w))"
  define ch1 where "ch1 = (if ?m then chain else chain @ [b])"
  have s1: "sweep_block sz b (chain, w) = (ch1, w1)" by (simp add: w1_def ch1_def Let_def)
  have c1: "swept w1 = (swept w)\<lparr>cid_at := (cid_at (swept w))(b := if ?m then cid_at (swept w) b AND NOT gc_marked else free_object)\<rparr>"
    "n_used_objects w1 = n_used_objects w + of_bool ?m"
    "n_deallocated_objects w1 = n_deallocated_objects w + of_bool (\<not> ?m \<and> cid_at (swept w) b \<noteq> free_object)"
    by (simp_all add: w1_def sweep_used_def clear_mark_def count_free_def Let_def)
  have keep: "cid_at (swept w1) x = cid_at (swept w) x" if "x \<in> set bps" for x using that Cons.prems by (auto simp: c1(1))
  then have flt: "filter (\<lambda>b. \<not> is_marked (cid_at (swept w1) b)) bps = filter (\<lambda>b. \<not> is_marked (cid_at (swept w) b)) bps"
    "filter (\<lambda>b. is_marked (cid_at (swept w1) b)) bps = filter (\<lambda>b. is_marked (cid_at (swept w) b)) bps"
    "filter (\<lambda>b. \<not> is_marked (cid_at (swept w1) b) \<and> cid_at (swept w1) b \<noteq> free_object) bps =
       filter (\<lambda>b. \<not> is_marked (cid_at (swept w) b) \<and> cid_at (swept w) b \<noteq> free_object) bps"
    by (auto intro!: filter_cong)
  from Cons.IH [of ch1 w1] Cons.prems obtain w' where
    w': "fold (sweep_block sz) bps (ch1, w1) = (ch1 @ filter (\<lambda>b. \<not> is_marked (cid_at (swept w) b)) bps, w')"
    "swept w' = (swept w1)\<lparr>cid_at := (\<lambda>x. if x \<in> set bps then (if is_marked (cid_at (swept w1) x) then cid_at (swept w1) x AND NOT gc_marked else free_object)
       else cid_at (swept w1) x)\<rparr>"
    "n_used_objects w' = n_used_objects w1 + length (filter (\<lambda>b. is_marked (cid_at (swept w) b)) bps)"
    "n_deallocated_objects w' = n_deallocated_objects w1 +
       length (filter (\<lambda>b. \<not> is_marked (cid_at (swept w) b) \<and> cid_at (swept w) b \<noteq> free_object) bps)"
    unfolding flt by auto
  have sw: "swept w' = (swept w)\<lparr>cid_at := (\<lambda>x. if x \<in> set (b # bps) then (if is_marked (cid_at (swept w) x) then cid_at (swept w) x AND NOT gc_marked else free_object)
       else cid_at (swept w) x)\<rparr>"
    unfolding w'(2) by (rule storage.equality) (use keep Cons.prems in \<open>auto simp: c1(1) fun_eq_iff\<close>)
  show ?case
    by (rule exI [of _ w']) (use w'(1,3,4) sw in \<open>simp add: s1 c1 ch1_def del: sweep_block.simps\<close>)
qed

text \<open>The page after the loop over its blocks.\<close>

definition page_swept :: "nat set \<Rightarrow> storage \<Rightarrow> storage" where
  "page_swept B t = t\<lparr>cid_at := (\<lambda>x. if x \<in> B then (if is_marked (cid_at t x) then cid_at t x AND NOT gc_marked else free_object) else cid_at t x)\<rparr>"

lemma cell_cids:
  assumes "gc_marks s K A" "swept_to s K A p t L" "K p = Some (Cells i)" "c \<in> cells p i"
  shows "is_marked (cid_at t c) \<longleftrightarrow> c \<in> A" "cid_at (page_swept (cells p i) t) c = (if c \<in> A then cid_at s c else free_object)"
    "size_at t c = size_at s c" "\<not> is_marked (cid_at t c) \<and> cid_at t c \<noteq> free_object \<longleftrightarrow> cid_at s c \<noteq> free_object \<and> c \<notin> A"
proof -
  note g = gc_marksD [OF assms(1)]
  have i: "i < 13" using units_okD(2) [OF g(3) assms(3)] by simp
  have "same_headers (marks A s) t p 512" using swept_toD(4) [OF assms(2,3)] by simp
  then have h: "cid_at t c = cid_at (marks A s) c" "size_at t c = size_at (marks A s) c"
    using cells_bounds(1,3) [OF assms(4) i] by (simp_all add: same_headers_def)
  have k: "Cells i = Used 0 \<and> c = p \<or> Cells i = Cells i \<and> c \<in> cells p i" using assms(4) by simp
  note u = unit_cid [OF assms(1,3) k]
  show m: "is_marked (cid_at t c) \<longleftrightarrow> c \<in> A" unfolding h by (rule u(3))
  show "cid_at (page_swept (cells p i) t) c = (if c \<in> A then cid_at s c else free_object)"
    using m u(4) assms(4) h(1) by (simp add: page_swept_def)
  show "size_at t c = size_at s c" using h(2) by simp
  show "\<not> is_marked (cid_at t c) \<and> cid_at t c \<noteq> free_object \<longleftrightarrow> cid_at s c \<noteq> free_object \<and> c \<notin> A"
    using m h(1) by auto
qed

lemma sweep_page_held:
  assumes "gc_marks s K A" "swept_to s K A p t L" "K p = Some (Cells i)"
  shows "units_ok (page_swept (cells p i) t) L" "L p = Some (Held 512)" "same_fields s (page_swept (cells p i) t)"
    "x < p \<or> p + 512 \<le> x \<Longrightarrow> cid_at (page_swept (cells p i) t) x = cid_at t x \<and> size_at (page_swept (cells p i) t) x = size_at t x"
    "L u = Some l \<Longrightarrow> u \<noteq> p \<Longrightarrow> same_headers t (page_swept (cells p i) t) u (klen l)"
proof -
  note g = gc_marksD [OF assms(1)] and d = swept_toD [OF assms(2)]
  have i: "i < 13" using units_okD(2) [OF g(3) assms(3)] by simp
  show L: "L p = Some (Held 512)" using d(3) [OF assms(3)] by simp
  show far: "cid_at (page_swept (cells p i) t) x = cid_at t x \<and> size_at (page_swept (cells p i) t) x = size_at t x" if "x < p \<or> p + 512 \<le> x" for x
    using that cells_bounds(1,3) [of x p i] i by (auto simp: page_swept_def)
  show "units_ok (page_swept (cells p i) t) L"
    by (rule held_change [OF d(1) L]) (use far in \<open>simp_all add: page_swept_def\<close>)
  show "same_fields s (page_swept (cells p i) t)" using d(2) by (simp add: same_fields_def page_swept_def)
  show "same_headers t (page_swept (cells p i) t) u (klen l)" if "L u = Some l" "u \<noteq> p"
    by (rule same_headers_apart [OF d(1) that(1) L that(2)]) (use far in simp)
qed

lemma bits_page:
  assumes "gc_marks s K A" "swept_to s K A p t L" "K p = Some (Cells i)" "page_map s = Some m" "map_bits t2 = map_bits t"
  shows "map_bits t2 q \<longleftrightarrow> run_bits K m ({u. p + klen (Cells i) \<le> u} \<union> A) q"
  using run_bits_skip [OF gc_marksD(3) [OF assms(1)] assms(3), of A m q] swept_bits [OF assms(2,4)] assms(5) by simp

lemma sweep_page_used:
  assumes "gc_marks s K A" "swept_to s K A p t L" "K p = Some (Cells i)" "cells p i \<inter> A \<noteq> {}"
    and "distinct chain" "set chain = {c \<in> cells p i. c \<notin> A}"
  shows "swept_to s K A (p + 512) (push_blocks chain i (page_swept (cells p i) t)) (L(p \<mapsto> Cells i))"
proof -
  note g = gc_marksD [OF assms(1)] and d = swept_toD [OF assms(2)] and h = sweep_page_held [OF assms(1-3)]
  note cc = cell_cids [OF assms(1-3)]
  have ok: "i < 13" "small (size_at s p)" "block_chain_of (size_at s p) = i" "\<forall>c\<in>cells p i. cell_ok s i c"
    using units_okD(2) [OF g(3) assms(3)] by simp_all
  note first = cells_first [OF ok(1), of p]
  define u where "u = page_swept (cells p i) t"
  define t2 where "t2 = push_blocks chain i u"
  have t2: "cid_at t2 = cid_at u" "size_at t2 = size_at t" "file_size t2 = file_size u" "free_page_chain t2 = free_page_chain u"
    "curr_free_page t2 = curr_free_page u" "free_block_chain t2 = (free_block_chain u)[i := chain @ free_block_chain u ! i]"
    "map_bits t2 = map_bits t" "size_at u = size_at t"
    by (simp_all add: t2_def push_blocks_def u_def page_swept_def)
  have cell: "cell_ok t2 i c" if "c \<in> cells p i" for c
    using ok(4) that cc(2,3) [OF that] by (auto simp: cell_ok_def t2(1,2) u_def)
  have unit: "unit_ok t2 p (Cells i)" using ok(1-3) cc(3) [OF first] cell by (simp add: t2(2))
  have A: "c \<in> A \<Longrightarrow> cid_at s c \<noteq> free_object" if "c \<in> cells p i" for c
    using unit_cid(5) [OF assms(1,3), of 0 c i] that by simp
  have chain: "set chain = {c \<in> cells p i. cid_at t2 c = free_object}"
    unfolding assms(6) t2(1) u_def using cc(2) A by auto
  have "cid_at t2 x = cid_at u x \<and> size_at t2 x = size_at u x" for x by (simp add: t2)
  from cells_placed [OF h(1,2) ok(1) _ unit t2(3-6) [unfolded u_def] assms(5) chain] this
  have placed: "units_ok t2 (L(p \<mapsto> Cells i))" by (simp add: u_def)
  have f: "same_fields s t2" using h(3) by (simp add: t2_def u_def push_blocks_def same_fields_def)
  have same: "same_headers t t2 v (klen l)" if "L v = Some l" "v \<noteq> p" for v l
    using h(5) [OF that] by (simp add: same_headers_def t2(1,2) u_def page_swept_def)
  have sw: "unit_swept s A p (Cells i) t2 (L(p \<mapsto> Cells i))"
    unfolding unit_swept.simps using assms(4) cc(2,3) by (simp add: t2(1,2) u_def)
  have "swept_to s K A (p + klen (Cells i)) t2 (L(p \<mapsto> Cells i))"
    by (rule swept_step [OF assms(1-3) placed f _ _ sw bits_page [OF assms(1-3) _ t2(7)]]) (use same in \<open>auto split: if_splits\<close>)
  then show ?thesis by (simp add: t2_def u_def)
qed

lemma sweep_page_free:
  assumes "gc_marks s K A" "swept_to s K A p t L" "K p = Some (Cells i)" "cells p i \<inter> A = {}"
  obtains t2 L2 where "free_page p (page_swept (cells p i) t) = Returns t2" "swept_to s K A (p + 512) t2 L2"
proof -
  note g = gc_marksD [OF assms(1)] and h = sweep_page_held [OF assms(1-3)] and cc = cell_cids [OF assms(1-3)]
  have ok: "i < 13" "small (size_at s p)" using units_okD(2) [OF g(3) assms(3)] by simp_all
  note first = cells_first [OF ok(1), of p]
  let ?u = "page_swept (cells p i) t"
  have z: "ALIGN (size_at ?u p + 8) 512 = 512" using small_align [OF ok(2)] cc(3) [OF first] by (simp add: page_swept_def)
  have cl: "clear_pages 512 p (?u\<lparr>size_at := (size_at ?u)(p := 512 - 8)\<rparr>)
      = Returns (?u\<lparr>size_at := (size_at ?u)(p := 512 - 8), map_bits := map_bits t\<rparr>)"
    by (simp add: clear_pages_def page_size_def page_swept_def)
  have bt: "map_bits t q \<longleftrightarrow> run_bits K m ({v. p + 512 \<le> v} \<union> A) q" if "page_map s = Some m" for m q
    using bits_page [OF assms(1-3) that refl] by simp
  show ?thesis
  proof (rule swept_freed [OF assms(1-3) h(2) _ h(1) h(5) h(3) z cl bt])
    show "unit_swept s A p (Cells i) t2 L2" if "\<forall>l. L2 p = Some l \<longrightarrow> is_free l" for t2 L2
      unfolding unit_swept.simps using that assms(4) by simp
  qed (use that in simp_all)
qed

section \<open>The whole sweep\<close>

definition garbage :: "storage \<Rightarrow> layout \<Rightarrow> nat set \<Rightarrow> nat \<Rightarrow> nat set" where
  "garbage s K A p = {x. is_object s K x \<and> x \<notin> A \<and> p \<le> x}"

fun unit_garbage :: "storage \<Rightarrow> nat set \<Rightarrow> nat \<Rightarrow> kind \<Rightarrow> nat set" where
  "unit_garbage s A p (Held n) = {}"
| "unit_garbage s A p (Free n) = {}"
| "unit_garbage s A p (Used n) = (if p \<in> A then {} else {p})"
| "unit_garbage s A p (Cells i) = {c \<in> cells p i. cid_at s c \<noteq> free_object \<and> c \<notin> A}"

lemma garbage_finite: "gc_marks s K A \<Longrightarrow> finite (garbage s K A p)"
proof -
  assume "gc_marks s K A"
  then have "{x. is_object s K x} = set (object_headers s)" using objects_set gc_marksD(1,2) by blast
  moreover have "garbage s K A p \<subseteq> {x. is_object s K x}" by (auto simp: garbage_def)
  ultimately show ?thesis by (metis finite_set finite_subset)
qed

lemma garbage_split:
  assumes "gc_marks s K A" "K p = Some k"
  shows "garbage s K A p = unit_garbage s A p k \<union> garbage s K A (p + klen k)" "unit_garbage s A p k \<inter> garbage s K A (p + klen k) = {}"
proof -
  note g = gc_marksD [OF assms(1)]
  have pos: "0 < klen k" by (rule tilesD(5) [OF units_okD(1) [OF g(3)] assms(2)])
  have inside: "x < p + klen k" "p \<le> x" if "x \<in> unit_garbage s A p k" for x
    using that pos cells_in_unit [OF g(3), of p] assms(2) by (cases k; force split: if_splits)+
  show "unit_garbage s A p k \<inter> garbage s K A (p + klen k) = {}"
  proof (rule equals0I)
    fix x assume "x \<in> unit_garbage s A p k \<inter> garbage s K A (p + klen k)"
    then have "x < p + klen k" "p + klen k \<le> x" using inside(1) [of x] by (auto simp: garbage_def)
    then show False by simp
  qed
  have to: "x \<in> unit_garbage s A p k" if x: "is_object s K x" "x \<notin> A" "p \<le> x" "x < p + klen k" for x
  proof -
    from x(1) consider n where "K x = Some (Used n)" "page_map s \<noteq> Some x"
      | u i where "K u = Some (Cells i)" "x \<in> cells u i" "cid_at s x \<noteq> free_object" unfolding is_object_def by blast
    then show ?thesis
    proof cases
      case (1 n)
      have "x = p" using tiles_unique [OF units_okD(1) [OF g(3)] 1(1) assms(2), of x] x(3,4) tilesD(5) [OF units_okD(1) [OF g(3)] 1(1)] by simp
      then show ?thesis using 1 assms(2) x(2) by simp
    next
      case (2 u i)
      have "p = u" using cell_place [OF g(3) 2(1,2) assms(2) x(3,4)] .
      then have "k = Cells i" using 2(1) assms(2) by simp
      then show ?thesis using 2 x(2) \<open>p = u\<close> by simp
    qed
  qed
  have from': "is_object s K x \<and> x \<notin> A" if "x \<in> unit_garbage s A p k" for x
  proof (cases k)
    case (Used n)
    then have "x = p" "p \<notin> A" using that by (auto split: if_splits)
    moreover from this have "page_map s \<noteq> Some p" using g(7) by blast
    ultimately show ?thesis using assms(2) Used by (auto simp: is_object_def)
  qed (use that assms(2) in \<open>auto simp: is_object_def\<close>)
  show "garbage s K A p = unit_garbage s A p k \<union> garbage s K A (p + klen k)"
  proof (rule set_eqI)
    fix x
    show "x \<in> garbage s K A p \<longleftrightarrow> x \<in> unit_garbage s A p k \<union> garbage s K A (p + klen k)"
      using to [of x] from' [of x] inside [of x] pos by (cases "x < p + klen k") (auto simp: garbage_def)
  qed
qed

lemma align_up: "512 dvd (p :: nat) \<Longrightarrow> p < x \<Longrightarrow> x \<le> p + 512 \<Longrightarrow> ALIGN x 512 = p + 512"
proof -
  assume a: "512 dvd p" "p < x" "x \<le> p + 512"
  then obtain q where q: "p = 512 * q" by (elim dvdE)
  have "(x + 512 - 1) div 512 = q + 1" using a q by (intro div_nat_eqI) auto
  then show ?thesis by (simp add: ALIGN_def q)
qed

lemma align_shift: "512 dvd (p :: nat) \<Longrightarrow> ALIGN (p + x) 512 = p + ALIGN x 512"
proof -
  assume "512 dvd p"
  then obtain q where q: "p = 512 * q" by (elim dvdE)
  have "p + x + 512 - 1 = (x + 512 - 1) + 512 * q" by (simp add: q)
  then have "(p + x + 512 - 1) div 512 = q + (x + 512 - 1) div 512" by (simp only: div_mult_self2)
  then show ?thesis unfolding ALIGN_def by (simp add: q)
qed

lemma page_blocks_cells:
  assumes "i < 13" "cs = class_size i" "512 dvd p"
  shows "set (page_blocks cs p) = cells p i" "distinct (page_blocks cs p)" "hd (page_blocks cs p) = p" "page_blocks cs p \<noteq> []"
    "ALIGN (last (page_blocks cs p) + cs) page_size = p + 512"
proof -
  show set: "set (page_blocks cs p) = cells p i" unfolding page_blocks_def page_size_def assms(2) by (rule cut_blocks_cells(1) [OF assms(1) refl])
  show "distinct (page_blocks cs p)" unfolding page_blocks_def assms(2) by (rule cut_blocks_cells(3) [OF assms(1) refl])
  show ne: "page_blocks cs p \<noteq> []" "hd (page_blocks cs p) = p" unfolding page_blocks_def by (subst cut_blocks.simps, simp)+
  have "last (page_blocks cs p) \<in> cells p i" using set ne(1) last_in_set by blast
  from cells_bounds(1,2) [OF this assms(1)] class_size_bounds(1) [OF assms(1)]
  show "ALIGN (last (page_blocks cs p) + cs) page_size = p + 512"
    unfolding page_size_def assms(2) by (intro align_up [OF assms(3)]) auto
qed

lemma count_filter: "distinct xs \<Longrightarrow> length (filter P xs) = card {x \<in> set xs. P x}"
  by (simp add: distinct_card [symmetric] distinct_filter)

text \<open>One turn of the loop.\<close>

lemma sweep_turn:
  assumes "gc_marks s K A" "swept_to s K A p (swept w) L" "K p = Some k"
  obtains w' L' where "sweep p (file_size s) w = sweep (p + klen k) (file_size s) w'" "swept_to s K A (p + klen k) (swept w') L'"
    "n_deallocated_objects w' = n_deallocated_objects w + card (unit_garbage s A p k)"
proof -
  note g = gc_marksD [OF assms(1)] and d = swept_toD [OF assms(2)]
  note T = units_okD(1) [OF g(3)]
  have pos: "0 < klen k" by (rule tilesD(5) [OF T assms(3)])
  have lt: "p < file_size s" using tilesD(7) [OF T assms(3)] pos by linarith
  have dv: "512 dvd p" by (rule tilesD(3) [OF T assms(3)])
  note hd = swept_header [OF assms(2,3) pos]
  have ok: "unit_ok s p k" by (rule units_okD(2) [OF g(3) assms(3)])
  show ?thesis
  proof (cases k)
    case (Held n)
    then show ?thesis using g(2) assms(3) by (auto simp: helds_def)
  next
    case (Cells i)
    note kc = assms(3) [unfolded Cells]
    have i: "i < 13" "small (size_at s p)" "block_chain_of (size_at s p) = i" using ok Cells by simp_all
    have cs: "block_size_of (size_at s p) = class_size i" using small_class(2) [OF i(2)] i(3) by simp
    define bps where "bps = page_blocks (class_size i) p"
    note b = page_blocks_cells [OF i(1) refl dv, folded bps_def]
    note cc = cell_cids [OF assms(1,2) kc]
    obtain w1 where w1: "fold (sweep_block (class_size i)) bps ([], w) = (filter (\<lambda>b. \<not> is_marked (cid_at (swept w) b)) bps, w1)"
      "swept w1 = page_swept (cells p i) (swept w)"
      "n_used_objects w1 = n_used_objects w + length (filter (\<lambda>b. is_marked (cid_at (swept w) b)) bps)"
      "n_deallocated_objects w1 = n_deallocated_objects w + length (filter (\<lambda>b. \<not> is_marked (cid_at (swept w) b) \<and> cid_at (swept w) b \<noteq> free_object) bps)"
      using sweep_blocks [OF b(2), of "class_size i" "[]" w] unfolding page_swept_def b(1) by auto
    have mk: "is_marked (cid_at (swept w) c) \<longleftrightarrow> c \<in> A" if "c \<in> set bps" for c using cc(1) that b(1) by simp
    have used: "n_used_objects w = n_used_objects w1 \<longleftrightarrow> cells p i \<inter> A = {}"
      unfolding w1(3) using mk b(1) by (auto simp: filter_empty_conv)
    have "length (filter (\<lambda>b. \<not> is_marked (cid_at (swept w) b) \<and> cid_at (swept w) b \<noteq> free_object) bps)
        = card {x \<in> set bps. \<not> is_marked (cid_at (swept w) x) \<and> cid_at (swept w) x \<noteq> free_object}" by (rule count_filter [OF b(2)])
    also have "{x \<in> set bps. \<not> is_marked (cid_at (swept w) x) \<and> cid_at (swept w) x \<noteq> free_object} = unit_garbage s A p k"
      unfolding Cells unit_garbage.simps b(1) using cc(4) by blast
    finally have dealloc: "n_deallocated_objects w1 = n_deallocated_objects w + card (unit_garbage s A p k)" using w1(4) by simp
    have turn: "sweep p (file_size s) w = outcome_bind (sweep_page bps (class_size i) i w) (\<lambda>w. sweep (p + 512) (file_size s) w)"
      using lt i(2,3) cs b(5) by (subst sweep.simps) (simp add: hd(2) Let_def bps_def)
    show ?thesis
    proof (cases "cells p i \<inter> A = {}")
      case True
      have "\<forall>b\<in>set bps. \<not> is_marked (cid_at (swept w) b)" using mk True b(1) by auto
      then have all: "filter (\<lambda>b. \<not> is_marked (cid_at (swept w) b)) bps = bps" by simp
      obtain t2 L2 where f: "free_page p (page_swept (cells p i) (swept w)) = Returns t2" "swept_to s K A (p + 512) t2 L2"
        by (rule sweep_page_free [OF assms(1,2) kc True])
      have "sweep_page bps (class_size i) i w = Returns (w1\<lparr>swept := t2\<rparr>)"
        unfolding sweep_page_def w1(1) all Let_def prod.case using used True b(3) f(1) w1(2) by simp
      then show ?thesis using that [of "w1\<lparr>swept := t2\<rparr>" L2] turn f(2) dealloc Cells by simp
    next
      case False
      let ?ch = "filter (\<lambda>b. \<not> is_marked (cid_at (swept w) b)) bps"
      have ch: "distinct ?ch" "set ?ch = {c \<in> cells p i. c \<notin> A}" using b(1,2) mk by auto
      have "sweep_page bps (class_size i) i w = Returns (w1\<lparr>swept := push_blocks ?ch i (page_swept (cells p i) (swept w))\<rparr>)"
        unfolding sweep_page_def w1(1) Let_def prod.case using used False w1(2) by simp
      then show ?thesis
        using that [of "w1\<lparr>swept := push_blocks ?ch i (page_swept (cells p i) (swept w))\<rparr>" "L(p \<mapsto> Cells i)"] turn
          sweep_page_used [OF assms(1,2) kc False ch] dealloc Cells by simp
    qed
  next
    case (Used n)
    note ku = assms(3) [unfolded Used]
    have ns: "\<not> small (size_at s p)" and n: "ALIGN (size_at s p + 8) 512 = n" using ok Used by simp_all
    have al: "ALIGN (p + size_at s p + 8) 512 = p + n"
      using align_shift [OF dv, of "size_at s p + 8"] n by (simp add: add.assoc)
    have turn: "sweep p (file_size s) w = outcome_bind (sweep_run p w) (\<lambda>w. sweep (p + n) (file_size s) w)"
      using lt ns al by (subst sweep.simps) (simp add: hd(2) Let_def sizeof_object_header_def page_size_def)
    have mk: "is_marked (cid_at (swept w) p) \<longleftrightarrow> p \<in> A" unfolding hd(1) by (rule unit_cid(3) [OF assms(1) ku]) simp
    show ?thesis
    proof (cases "p \<in> A")
      case True
      have "sweep_run p w = Returns (sweep_used p (size_at (swept w) p + sizeof_object_header) w)" using mk True by (simp add: sweep_run_def)
      moreover have "swept_to s K A (p + n) (clear_mark p (swept w)) (L(p \<mapsto> Used n))" by (rule sweep_used_run [OF assms(1,2) ku True])
      ultimately show ?thesis using turn Used True
        by (intro that [of "sweep_used p (size_at (swept w) p + sizeof_object_header) w" "L(p \<mapsto> Used n)"]) (simp_all add: sweep_used_def)
    next
      case False
      obtain t2 L2 where f: "free_page p (swept w) = Returns t2" "swept_to s K A (p + n) t2 L2"
        by (rule sweep_free_run [OF assms, of n]) (use Used False in auto)
      have "cid_at (swept w) p \<noteq> free_object" using hd(1) False ok Used by (simp add: obj_cid_def)
      then show ?thesis using turn Used False mk f
        by (intro that [of "(count_free p w)\<lparr>swept := t2\<rparr>" L2]) (simp_all add: sweep_run_def count_free_def Let_def)
    qed
  next
    case (Free n)
    note kf = assms(3) [unfolded Free]
    have ns: "\<not> small (size_at s p)" and n: "size_at s p + 8 = n" using free_unit [OF g(3) kf] by simp_all
    have dn: "512 dvd n" using tilesD(4) [OF T kf] by simp
    have "512 dvd p + (size_at s p + 8)" using dv dn n by simp
    then have al: "ALIGN (p + size_at s p + 8) 512 = p + n" using align_dvd [of "p + (size_at s p + 8)"] n by (simp add: ac_simps)
    have turn: "sweep p (file_size s) w = outcome_bind (sweep_run p w) (\<lambda>w. sweep (p + n) (file_size s) w)"
      using lt ns al by (subst sweep.simps) (simp add: hd(2) Let_def sizeof_object_header_def page_size_def)
    have c: "cid_at (swept w) p = free_object" "\<not> is_marked (cid_at (swept w) p)"
      using free_unmarked [OF assms(1) kf] hd(1) by simp_all
    obtain t2 L2 where f: "free_page p (swept w) = Returns t2" "swept_to s K A (p + n) t2 L2"
      by (rule sweep_free_run [OF assms, of n]) (use Free in auto)
    then show ?thesis using turn Free c
      by (intro that [of "(count_free p w)\<lparr>swept := t2\<rparr>" L2]) (simp_all add: sweep_run_def count_free_def Let_def)
  qed
qed

lemma sweep_ok:
  assumes "gc_marks s K A" "swept_to s K A p (swept w) L" "p \<le> file_size s" "p < file_size s \<Longrightarrow> K p \<noteq> None"
  obtains w' L' where "sweep p (file_size s) w = Returns w'" "swept_to s K A (file_size s) (swept w') L'"
    "n_deallocated_objects w' = n_deallocated_objects w + card (garbage s K A p)"
  using assms(2-)
proof (induction "file_size s - p" arbitrary: p w L thesis rule: less_induct)
  case less
  note g = gc_marksD [OF assms(1)]
  note T = units_okD(1) [OF g(3)]
  show thesis
  proof (cases "p < file_size s")
    case True
    then obtain k where k: "K p = Some k" using less.prems(4) by auto
    have pos: "0 < klen k" by (rule tilesD(5) [OF T k])
    have e: "p + klen k \<le> file_size s" by (rule tilesD(7) [OF T k])
    have nx: "K (p + klen k) \<noteq> None" if "p + klen k < file_size s" using tiles_next [OF T k that] by auto
    obtain w1 L1 where w1: "sweep p (file_size s) w = sweep (p + klen k) (file_size s) w1" "swept_to s K A (p + klen k) (swept w1) L1"
      "n_deallocated_objects w1 = n_deallocated_objects w + card (unit_garbage s A p k)" by (rule sweep_turn [OF assms(1) less.prems(2) k])
    have m: "file_size s - (p + klen k) < file_size s - p" using True pos by simp
    obtain w' L' where w': "sweep (p + klen k) (file_size s) w1 = Returns w'" "swept_to s K A (file_size s) (swept w') L'"
      "n_deallocated_objects w' = n_deallocated_objects w1 + card (garbage s K A (p + klen k))"
      by (rule less.hyps [OF m _ w1(2) e nx]) auto
    note sp = garbage_split [OF assms(1) k]
    have "card (garbage s K A p) = card (unit_garbage s A p k) + card (garbage s K A (p + klen k))"
      unfolding sp(1) using garbage_finite [OF assms(1), of p] sp by (intro card_Un_disjoint) (auto intro: finite_subset)
    then show thesis using less.prems(1) [OF _ w'(2)] w1 w' by simp
  next
    case False
    then have p: "p = file_size s" using less.prems(3) by simp
    have "garbage s K A p = {}"
    proof (rule equals0I)
      fix x assume "x \<in> garbage s K A p"
      then have x: "is_object s K x" "p \<le> x" by (auto simp: garbage_def)
      obtain u k where u: "K u = Some k" "u \<le> x" "x + 8 + size_at s x \<le> u + klen k" by (rule object_place [OF g(1) x(1)])
      then show False using tilesD(7) [OF T u(1)] x(2) p by simp
    qed
    moreover have "sweep p (file_size s) w = Returns w" using p by (subst sweep.simps) simp
    ultimately show thesis using less.prems(1) [of w L] less.prems(2) p by simp
  qed
qed

end
