(* ===== verification/StorageCollect.thy ===== *)
theory StorageCollect
  imports StorageSweep
begin

text \<open>
  The garbage collector as a whole: it keeps the objects that can be reached from the roots and frees all others.
\<close>

section \<open>Before and after the sweep\<close>

lemma tiles_held: "tiles K lo hi \<Longrightarrow> tiles (\<lambda>u. map_option (\<lambda>k. Held (klen k)) (K u)) lo hi"
  unfolding tiles_def by (auto 4 4)

lemma sweep_begins:
  assumes "gc_marks s K A"
  shows "swept_to s K A page_size (swept (sweep_start (marks A s))) (\<lambda>u. map_option (\<lambda>k. Held (klen k)) (K u))"
proof -
  note g = gc_marksD [OF assms]
  let ?L = "\<lambda>u. map_option (\<lambda>k. Held (klen k)) (K u)"
  define t where "t = swept (sweep_start (marks A s))"
  have t: "free_page_chain t = []" "free_block_chain t = replicate 13 []" "curr_free_page t = None" "file_size t = file_size s"
    "page_map t = page_map s" "map_bits t = map_bits s" "size_at t = size_at s" "cid_at t = cid_at (marks A s)"
    "data_file t = data_file s" "app_class_mapping t = app_class_mapping s"
    by (simp_all add: t_def sweep_start_def)
  have "units_ok t ?L" unfolding units_ok_def
  proof (intro conjI allI impI)
    show "tiles ?L page_size (file_size t)" using tiles_held [OF units_okD(1) [OF g(3)]] by (simp add: t)
    show "unit_ok t u l" if "?L u = Some l" for u l using that by auto
    show "free_chain_ok t ?L" by (auto simp: free_chain_ok_def t)
    show "blocks_ok t ?L" by (auto simp: blocks_ok_def t free_cells_def)
  qed
  moreover have low: "page_size \<le> u" if "K u = Some k" for u k by (rule tilesD(6) [OF units_okD(1) [OF g(3)] that])
  moreover have "map_bits t q \<longleftrightarrow> run_bits K m ({u. page_size \<le> u} \<union> A) q" if "page_map s = Some m" for m q
    using g(4) that low by (auto simp: map_ok_def t multi_page_def run_bits_def)
  ultimately show ?thesis unfolding t_def [symmetric] swept_to_def
    by (auto simp: same_fields_def t same_headers_def dest: low)
qed

lemma swept_units:
  assumes "gc_marks s K A" "swept_to s K A (file_size s) t L"
  shows "L u = Some (Used n) \<longleftrightarrow> K u = Some (Used n) \<and> u \<in> A" "L u = Some (Cells i) \<longleftrightarrow> K u = Some (Cells i) \<and> cells u i \<inter> A \<noteq> {}"
    "L u \<noteq> Some (Held n)"
    "K u = Some (Used n) \<Longrightarrow> u \<in> A \<Longrightarrow> cid_at t u = cid_at s u \<and> size_at t u = size_at s u"
    "K u = Some (Cells i) \<Longrightarrow> cells u i \<inter> A \<noteq> {} \<Longrightarrow> c \<in> cells u i \<Longrightarrow>
       (if c \<in> A then cid_at t c = cid_at s c \<and> size_at t c = size_at s c else cid_at t c = free_object)"
proof -
  note g = gc_marksD [OF assms(1)] and d = swept_toD [OF assms(2)]
  have sw: "unit_swept s A u k t L" if "K u = Some k" for u k
  proof (rule d(5) [OF that])
    show "u < file_size s" using tilesD(5,7) [OF units_okD(1) [OF g(3)] that] by linarith
  qed
  show "K u = Some (Used n) \<Longrightarrow> u \<in> A \<Longrightarrow> cid_at t u = cid_at s u \<and> size_at t u = size_at s u" using sw by fastforce
  show "K u = Some (Cells i) \<Longrightarrow> cells u i \<inter> A \<noteq> {} \<Longrightarrow> c \<in> cells u i \<Longrightarrow>
       (if c \<in> A then cid_at t c = cid_at s c \<and> size_at t c = size_at s c else cid_at t c = free_object)"
    using sw [of u "Cells i"] unfolding unit_swept.simps by (simp only: simp_thms if_True) blast
  have from_K: "\<exists>k. K u = Some k \<and> unit_swept s A u k t L" if "L u = Some l" "\<not> is_free l" for l
    using d(6) [OF that] sw by blast
  have owner: "K u = Some l \<and> (case l of Used n \<Rightarrow> u \<in> A | Cells i \<Rightarrow> cells u i \<inter> A \<noteq> {} | _ \<Rightarrow> False)" if l: "L u = Some l" "\<not> is_free l" for l
  proof -
    from from_K [OF l] obtain k where k: "K u = Some k" "unit_swept s A u k t L" by blast
    then show ?thesis using l by (cases k) (auto split: if_splits)
  qed
  show "L u = Some (Used n) \<longleftrightarrow> K u = Some (Used n) \<and> u \<in> A" using owner [of "Used n"] sw [of u "Used n"] by auto
  show "L u = Some (Cells i) \<longleftrightarrow> K u = Some (Cells i) \<and> cells u i \<inter> A \<noteq> {}" 
    using owner [of "Cells i"] sw [of u "Cells i"] by (cases "cells u i \<inter> A = {}") (simp, blast, simp, blast)
  show "L u \<noteq> Some (Held n)" using owner [of "Held n"] by auto
qed

lemma sweep_ends:
  assumes "gc_marks s K A" "swept_to s K A (file_size s) t L"
  shows "invar t L" "helds L = {}" "is_object t L x \<longleftrightarrow> is_object s K x \<and> x \<in> A"
    "is_object s K x \<Longrightarrow> x \<in> A \<Longrightarrow> cid_at t x = cid_at s x \<and> size_at t x = size_at s x"
proof -
  note g = gc_marksD [OF assms(1)] and d = swept_toD [OF assms(2)] and u = swept_units [OF assms]
  have f: "file_size t = file_size s" "page_map t = page_map s" using d(2) by (simp_all add: same_fields_def)
  show "helds L = {}" using u(3) by (auto simp: helds_def)
  have "map_ok t L"
  proof (cases "page_map s")
    case None
    have "n = 512 \<and> cid_at t v \<noteq> page_map_cid" if "L v = Some (Used n)" for v n
    proof -
      have v: "K v = Some (Used n)" "v \<in> A" using that u(1) by blast+
      have "n = 512 \<and> cid_at s v \<noteq> page_map_cid" using g(4) None v(1) unfolding map_ok_def by simp
      then show ?thesis using u(4) [OF v] by simp
    qed
    then show ?thesis using None f(2) by (simp add: map_ok_def)
  next
    case (Some m)
    have m: "m \<in> A" by (rule g(7) [OF Some])
    obtain n where n: "K m = Some (Used n)" using map_run [OF g(4) Some] .
    have cid: "cid_at t v = page_map_cid \<longleftrightarrow> v = m" if "L v = Some (Used l)" for v l
      using that u(1,4) g(4) Some by (auto simp: map_ok_def)
    have no: "K v \<noteq> Some (Used l)" if "file_size s \<le> v" for v l
      using tilesD(5,7) [OF units_okD(1) [OF g(3)], of v "Used l"] that by fastforce
    have "map_bits t q \<longleftrightarrow> multi_page L m q" for q
      unfolding d(7) [OF Some] run_bits_def multi_page_def u(1) using no by blast
    then show ?thesis using n m u(1) cid Some f(2) by (auto simp: map_ok_def)
  qed
  then show "invar t L" using d(1,2) g(6) swept_covers [OF assms] by (simp add: invar_def limits_ok_def same_fields_def)
  have nf: "c \<in> A \<Longrightarrow> cid_at s c \<noteq> free_object" if "K v = Some (Cells i)" "c \<in> cells v i" for v i c
    using unit_cid(5) [OF assms(1) that(1), of 0 c i] that(2) by simp
  have cell: "(L v = Some (Cells i) \<and> x \<in> cells v i \<and> cid_at t x \<noteq> free_object) \<longleftrightarrow>
      (K v = Some (Cells i) \<and> x \<in> cells v i \<and> cid_at s x \<noteq> free_object \<and> x \<in> A)" for v i
  proof (cases "K v = Some (Cells i) \<and> x \<in> cells v i")
    case True
    show ?thesis
    proof (cases "cells v i \<inter> A = {}")
      case False
      from u(5) [OF _ this, of x] True nf [of v i x] show ?thesis unfolding u(2) using False by (cases "x \<in> A") simp_all
    qed (use True in \<open>auto simp: u(2)\<close>)
  qed (auto simp: u(2))
  have run: "(L x = Some (Used n) \<and> page_map t \<noteq> Some x) \<longleftrightarrow> (K x = Some (Used n) \<and> page_map s \<noteq> Some x \<and> x \<in> A)" for n
    unfolding u(1) f(2) by blast
  show iff: "is_object t L x \<longleftrightarrow> is_object s K x \<and> x \<in> A" unfolding is_object_def cell run by blast
  assume "is_object s K x" "x \<in> A"
  then consider n where "K x = Some (Used n)" | v i where "K v = Some (Cells i)" "x \<in> cells v i" by (auto simp: is_object_def)
  then show "cid_at t x = cid_at s x \<and> size_at t x = size_at s x"
  proof cases
    case 1
    then show ?thesis using u(4) \<open>x \<in> A\<close> by blast
  next
    case (2 v i)
    then have "cells v i \<inter> A \<noteq> {}" using \<open>x \<in> A\<close> by blast
    from u(5) [OF 2(1) this 2(2)] show ?thesis using \<open>x \<in> A\<close> by simp
  qed
qed

section \<open>The collector\<close>

lemma collects:
  assumes "gc_ready classes h K"
  obtains t L where "garbage_collection classes 0 h =
      Some (Returns (card {x \<in> set (object_headers (heap_storage h)). \<not> reachable classes h x}, h\<lparr>heap_storage := t\<rparr>))"
    "invar t L" "helds L = {}" "contents t = (\<lambda>x. if reachable classes h x then contents (heap_storage h) x else None)"
proof -
  let ?s = "heap_storage h"
  note inv = gc_readyD(1,2) [OF assms]
  obtain M cap where m: "mark_loop classes 0 (file_size ?s + 4) (push_roots 0 h) = Some (Returns (state h M [] cap))"
    "M = {x. reachable classes h x}" "M \<subseteq> set (object_headers ?s)" by (rule marking_ok [OF assms])
  define A where "A = M \<union> map_header h"
  have o: "x \<in> set (object_headers ?s) \<longleftrightarrow> is_object ?s K x" for x by (rule objects_set [OF inv])
  have gm: "gc_marks ?s K A" using inv m(3) o by (auto simp: gc_marks_def A_def map_header_def)
  have start: "page_size \<le> file_size ?s" "page_size < file_size ?s \<Longrightarrow> K page_size \<noteq> None"
    using tilesD(2) [OF units_okD(1) [of ?s K]] tiles_first [OF units_okD(1) [of ?s K]] inv(1) by (auto simp: invar_def)
  obtain w L where w: "sweep page_size (file_size ?s) (sweep_start (marks A ?s)) = Returns w" "swept_to ?s K A (file_size ?s) (swept w) L"
    "n_deallocated_objects w = n_deallocated_objects (sweep_start (marks A ?s)) + card (garbage ?s K A page_size)"
    by (rule sweep_ok [OF gm sweep_begins [OF gm] start]) auto
  note e = sweep_ends [OF gm w(2)]
  have notmap: "x \<in> A \<longleftrightarrow> reachable classes h x" if "x \<in> set (object_headers ?s)" for x
    using object_not_map [OF that] m(2) by (auto simp: A_def)
  have "garbage ?s K A page_size = {x \<in> set (object_headers ?s). \<not> reachable classes h x}"
  proof (rule set_eqI)
    fix x
    have "page_size \<le> x" if x: "is_object ?s K x"
    proof -
      obtain u k where u: "K u = Some k" "u \<le> x" "x + 8 + size_at ?s x \<le> u + klen k" using object_place [OF inv(1) x] by blast
      then show ?thesis using tilesD(6) [OF units_okD(1) [of ?s K] u(1)] inv(1) by (simp add: invar_def)
    qed
    then show "x \<in> garbage ?s K A page_size \<longleftrightarrow> x \<in> {x \<in> set (object_headers ?s). \<not> reachable classes h x}"
      using notmap [of x] o [of x] by (auto simp: garbage_def)
  qed
  then have n: "n_deallocated_objects w = card {x \<in> set (object_headers ?s). \<not> reachable classes h x}"
    using w(3) by (simp add: sweep_start_def)
  have "garbage_collection classes 0 h = Some (Returns (n_deallocated_objects w, h\<lparr>heap_storage := swept w\<rparr>))"
    unfolding garbage_collection_def m(1) using w(1) by (simp add: state_def A_def Let_def)
  moreover have "contents (swept w) = (\<lambda>x. if reachable classes h x then contents ?s x else None)"
  proof
    fix x
    show "contents (swept w) x = (if reachable classes h x then contents ?s x else None)"
      using notmap [of x] e(4) [of x] by (auto simp: contents_def objects_set [OF e(1,2)] o e(3))
  qed
  ultimately show ?thesis using e(1,2) n by (intro that [of "swept w" L]) simp_all
qed

text \<open>A heap with one object, which the root refers to or not.\<close>

definition sample_classes :: class_mapping where
  "sample_classes cid = (if cid = 3 then Some [REF 8] else None)"

definition sample_heap :: "storage \<Rightarrow> 64 word \<Rightarrow> heap" where
  "sample_heap s root = \<lparr>heap_storage = s, hdr_base = 0x10000000, ref_at = (\<lambda>opp. if opp = root_object_at then root else 0), n_static_data = 0\<rparr>"

lemma sample_heap_ok:
  assumes "storage_ok s" "contents s = [x \<mapsto> (3, 1000)]" "root = 0 \<or> root = 0x10000000 + of_nat (x + 8)"
  shows "heap_ok sample_classes (sample_heap s root)" "set (object_headers s) = {x}"
    "reachable sample_classes (sample_heap s root) y \<Longrightarrow> root \<noteq> 0" "root \<noteq> 0 \<Longrightarrow> reachable sample_classes (sample_heap s root) x"
proof -
  let ?h = "sample_heap s root"
  have mem: "y \<in> set (object_headers s) \<longleftrightarrow> y = x" for y
    using fun_cong [OF assms(2), of y] by (auto simp: contents_def split: if_splits)
  show "set (object_headers s) = {x}" using mem by auto
  have hd: "cid_at s x = 3" "size_at s x = 1000"
    using fun_cong [OF assms(2), of x] mem [of x] by (auto simp: contents_def)
  have pt: "points_to ?h root_object_at x" if "root \<noteq> 0"
    using that assms(3) mem hd(2) by (auto simp: points_to_def sample_heap_def sizeof_object_header_def intro!: exI [of _ 0])
  have null: "ref_at ?h opp = 0" if "opp \<noteq> root_object_at" for opp using that by (simp add: sample_heap_def)
  have "ref_at ?h opp = 0 \<or> (\<exists>y. points_to ?h opp y)" for opp
    using null [of opp] pt by (cases "opp = root_object_at \<and> root \<noteq> 0") (auto simp: sample_heap_def)
  moreover have "object_class_ok sample_classes s x"
    using hd by (simp add: object_class_ok_def object_segments_def sample_classes_def sizeof_pointer_def)
  ultimately show "heap_ok sample_classes ?h" using assms(1) mem by (auto simp: heap_ok_def) (simp_all add: sample_heap_def)
  show "root \<noteq> 0" if "reachable sample_classes ?h y"
    using that by cases (auto simp: points_to_def sample_heap_def split: if_splits)
  show "reachable sample_classes ?h x" if "root \<noteq> 0"
    by (rule reachable.root [OF _ pt [OF that]]) (simp add: root_places_def)
qed

text \<open>C4: On a heap whose references are null or point into objects, the garbage collector returns: it fails no
  assertion and its stack does not overflow.  It keeps exactly the objects that can be reached from the root
  object, the class dictionary and the static data, with their headers, returns the number of the others, and leaves
  a heap of the same kind.\<close>

theorem garbage_collection_correct:
  assumes "heap_ok classes h"
  shows "\<exists>t. garbage_collection classes 0 h =
      Some (Returns (card {x \<in> set (object_headers (heap_storage h)). \<not> reachable classes h x}, h\<lparr>heap_storage := t\<rparr>)) \<and>
    contents t = (\<lambda>x. if reachable classes h x then contents (heap_storage h) x else None) \<and>
    heap_ok classes (h\<lparr>heap_storage := t\<rparr>)"
proof -
  let ?s = "heap_storage h"
  obtain K where K: "gc_ready classes h K" using assms by (auto simp: heap_ok_def gc_ready_def storage_ok_def)
  obtain t L where t: "garbage_collection classes 0 h =
      Some (Returns (card {x \<in> set (object_headers ?s). \<not> reachable classes h x}, h\<lparr>heap_storage := t\<rparr>))"
    "invar t L" "helds L = {}" "contents t = (\<lambda>x. if reachable classes h x then contents ?s x else None)" by (rule collects [OF K])
  let ?h = "h\<lparr>heap_storage := t\<rparr>"
  have obj: "x \<in> set (object_headers t) \<longleftrightarrow> x \<in> set (object_headers ?s) \<and> reachable classes h x" for x
    using fun_cong [OF t(4), of x] by (auto simp: contents_def split: if_splits)
  have hd: "cid_at t x = cid_at ?s x" "size_at t x = size_at ?s x" if "x \<in> set (object_headers t)" for x
    using fun_cong [OF t(4), of x] that obj [of x] by (auto simp: contents_def split: if_splits)
  have seg: "object_segments classes t x = object_segments classes ?s x" if "x \<in> set (object_headers t)" for x
    using hd [OF that] by (simp add: object_segments_def)
  have cls: "object_class_ok classes t x" if "x \<in> set (object_headers t)" for x
    using gc_readyD(3) [OF K, of x] obj [of x] hd [OF that] seg [OF that] that by (simp add: object_class_ok_def)
  have refs: "ref_at h opp = 0 \<or> (\<exists>x. points_to ?h opp x)"
    if "opp \<in> root_places h \<union> (\<Union>x\<in>set (object_headers t). object_places classes t x)" for opp
  proof -
    have old: "opp \<in> root_places h \<or> (\<exists>x\<in>set (object_headers ?s). reachable classes h x \<and> opp \<in> object_places classes ?s x)"
      using \<open>opp \<in> _\<close> obj seg by (auto simp: object_places_def)
    show ?thesis
    proof (cases "ref_at h opp = 0")
      case False
      have "opp \<in> root_places h \<union> (\<Union>x\<in>set (object_headers ?s). object_places classes ?s x)" using old by auto
      then obtain y where y: "points_to h opp y" using gc_readyD(4) [OF K] False by blast
      have "reachable classes h y" using old y by (auto intro: reachable.intros)
      then have "y \<in> set (object_headers t)" using y obj by (simp add: points_to_def)
      then have "points_to ?h opp y" using y hd(2) by (simp add: points_to_def)
      then show ?thesis by blast
    qed simp
  qed
  have "root_places ?h = root_places h" by (simp add: root_places_def)
  then have "heap_ok classes ?h" using t(2,3) cls refs by (auto simp: heap_ok_def storage_ok_def)
  then show ?thesis using t(1,4) by blast
qed

lemma garbage_collection_correct_witness:
  "\<exists>x s. allocate 0 1000 (new_storage 65536 4096 [3]) = Returns (x + 8, s) \<and>
     (\<exists>t. garbage_collection sample_classes 0 (sample_heap s 0) = Some (Returns (1, sample_heap t 0)) \<and> contents t = Map.empty) \<and>
     (\<exists>t. garbage_collection sample_classes 0 (sample_heap s (0x10000000 + of_nat (x + 8))) =
        Some (Returns (0, sample_heap t (0x10000000 + of_nat (x + 8)))) \<and> contents t = contents s)"
proof -
  obtain x s where s: "allocate 0 1000 (new_storage 65536 4096 [3]) = Returns (x + 8, s)" "storage_ok s"
    "x \<in> set (object_headers s)" "contents s = [x \<mapsto> (3, 1000)]" "x + 8 < 65536" by (rule sample_object)
  let ?root = "0x10000000 + of_nat (x + 8) :: 64 word"
  have hs: "heap_storage (sample_heap s r) = s" "(sample_heap s r)\<lparr>heap_storage := t\<rparr> = sample_heap t r" for r t
    by (simp_all add: sample_heap_def)
  have z: "(0 :: 64 word) = 0 \<or> (0 :: 64 word) = 0x10000000 + of_nat (x + 8)" "?root = 0 \<or> ?root = 0x10000000 + of_nat (x + 8)" by simp_all
  note o = sample_heap_ok [OF s(2,4) z(1)] and p = sample_heap_ok [OF s(2,4) z(2)]
  have no: "\<not> reachable sample_classes (sample_heap s 0) y" for y using o(3) by blast
  have "of_nat (0x10000000 + (x + 8)) \<noteq> (0 :: 64 word)" using s(5) by (simp only: word_of_nat_eq_0_iff) (auto dest: dvd_imp_le)
  then have "?root \<noteq> 0" by simp
  from p(4) [OF this] have yes: "reachable sample_classes (sample_heap s ?root) x" .
  have "{y \<in> set (object_headers s). \<not> reachable sample_classes (sample_heap s 0) y} = {x}" using no o(2) by auto
  then have n: "card {y \<in> set (object_headers s). \<not> reachable sample_classes (sample_heap s 0) y} = 1" by simp
  have "{y \<in> set (object_headers s). \<not> reachable sample_classes (sample_heap s ?root) y} = {}" using yes o(2) by auto
  then have m: "card {y \<in> set (object_headers s). \<not> reachable sample_classes (sample_heap s ?root) y} = 0" by simp
  from garbage_collection_correct [OF o(1)] obtain t where
    t: "garbage_collection sample_classes 0 (sample_heap s 0) = Some (Returns (1, sample_heap t 0))"
    "contents t = (\<lambda>y. if reachable sample_classes (sample_heap s 0) y then contents s y else None)"
    unfolding hs n by blast
  from garbage_collection_correct [OF p(1)] obtain t' where
    t': "garbage_collection sample_classes 0 (sample_heap s ?root) = Some (Returns (0, sample_heap t' ?root))"
    "contents t' = (\<lambda>y. if reachable sample_classes (sample_heap s ?root) y then contents s y else None)"
    unfolding hs m by blast
  have "contents t = Map.empty" using t(2) no by simp
  moreover have "contents t' = contents s" unfolding t'(2) using yes s(4) by (auto simp: fun_eq_iff)
  ultimately show ?thesis using s(1) t(1) t'(1) by blast
qed

section \<open>Empty arrays of references\<close>




end
