(* ===== verification/Spec2Isabelle.thy ===== *)
theory Spec2Isabelle
  imports AvlTree JudyByCount SparseArray HashTable TTree RTreePages StorageHeap StorageCollect
begin

text \<open>
  POST++ is a persistent object storage for C++ with a small library of containers (AVL tree, T-tree,
  R-tree, hash table, arrays) and a vendored copy of the Judy array library, on which its sparse arrays
  and dictionaries rest.  This development models the allocator and the garbage collector of the storage, the containers, and JudyL: lookup,
  navigation, counting and insertion.

  \<^bold>\<open>Parts of the program and their theories.\<close>

  \<^item> \<open>src/storage.h\<close>, \<open>src/storage.cxx\<close>: theory \<open>Storage\<close>: the mapped file as headers at addresses, an address being
    the offset from the start of the mapping; the chains of free pages and free blocks are lists of addresses,
    the page map is its header with a function from page numbers to bits.  A call that ends in \<open>handle_error\<close> is
    \<open>Exits\<close>, a failed assertion or a read of memory that is no value \<open>Wild\<close> (\<open>outcome\<close>, in \<open>Prelude\<close>).  \<open>StorageLayout\<close>
    states the invariant over a layout (which unit of pages starts where: held by the running call, free, in use,
    cut into blocks), \<open>StoragePages\<close> and \<open>StorageFree\<close> follow it through the chains of pages, \<open>StorageAlloc\<close> and
    \<open>StorageMap\<close> through the growth of file and page map, \<open>StorageObjects\<close> and \<open>StorageCalls\<close> through the calls of
    a client; \<open>StorageRoom\<close> says when an allocation ends the program and when it leaves the file as it is;
    \<open>StorageSpec\<close> has the properties of the calls, \<open>StorageHeap\<close> those of sequences of calls.
  \<^item> \<open>storage::garbage_collection\<close> with the macros of \<open>src/classinfo.h\<close>: theory \<open>StorageGc\<close>.  \<open>heap\<close> adds the words that are
    references to the storage; \<open>mark_loop\<close> is the loop over the stack of segments, \<open>sweep\<close> the loop over the file.
    The constructor of a class, which pushes the segments of an object, is a parameter: the list of the
    macros \<open>REF\<close>, \<open>REFS\<close> and \<open>VREFS\<close> of the class.  \<open>StorageMark\<close> and \<open>StorageSweep\<close> follow the two phases through the
    layout, \<open>StorageCollect\<close> has the properties.
  \<^item> \<open>src/avltree.h\<close>, \<open>src/avltree.cxx\<close>: theory \<open>AvlTree\<close>.  \<open>avl_tree_node\<close> is the datatype \<open>avl\<close>; the pointer a
    method updates through its reference parameter is the returned tree; the ring \<open>l2elem\<close> of the keys is
    the list of the keys from the head on.  A dereference of a null pointer is \<open>None\<close>.
  \<^item> \<open>src/Judy/src/JudyCommon/JudyPrivate.h\<close>, \<open>JudyPrivateBranch.h\<close>: theories \<open>JudyWord\<close> (digits, Dcd bytes and
    populations of an index word), \<open>JudyBits\<close> (bit counts, masks, the digit of an offset), \<open>JudyBytes\<close> (packed
    leaves: copies, insertion and deletion in place and into a copy), \<open>JudySearch\<close> (the binary searches).
  \<^item> \<open>src/Judy/src/JudyL/JudyL.h\<close>: theory \<open>JudyTree\<close>: a Judy pointer with what it points to is the datatype \<open>jp\<close>,
    with a constructor for every group of pointer types, an array the datatype \<open>judyL\<close> (null, root leaf, JPM
    with a pointer).  \<open>jp_wf\<close> and \<open>judyL_wf\<close> say which trees are arrays; \<open>judyL_entries\<close> lists the pairs of one.
  \<^item> \<open>JudyGet.c\<close>: theory \<open>JudyGet\<close>: lookup (\<open>get_step\<close> is one turn of the loop over pointer types, \<open>get_walk\<close> the
    loop).
  \<^item> \<open>JudyPrevNext.c\<close>, \<open>JudyFirst.c\<close>: theory \<open>JudyPrevNext\<close>: the state machines SM1Get, SM2Backtrack and
    SM3Findlimit are the constructors of the datatype \<open>sm\<close>, a \<open>goto\<close> is a step, the history arrays are a list;
    \<open>dir\<close> stands for the compile-time choice \<open>JUDYPREV\<close> or \<open>JUDYNEXT\<close>.  \<open>JudyNavBranch\<close>, \<open>JudyNeighbours\<close> and
    \<open>JudyOrder\<close> hold the proofs.
  \<^item> \<open>JudyCount.c\<close>, \<open>JudyByCount.c\<close>: theories \<open>JudyCount\<close> (\<open>j__udy1LCountSM\<close> is the walk that counts the pairs before
    an index, upward or downward through a branch, whichever is shorter) and \<open>JudyByCount\<close> (\<open>by_run\<close> is the walk
    to the pair of an ordinal).  The assertions of a debugging build are outcomes of their own.
  \<^item> \<open>JudyIns.c\<close>: theory \<open>JudyIns\<close>: \<open>ins_step\<close> is one turn of the switch of \<open>j__udyInsWalk\<close>, the walk is the recursion
    over it, \<open>JudyLIns\<close> the entry point.  The function returns the address of a slot; here it returns the value
    found there (\<open>zero\<close> in a new slot), and the argument \<open>store\<close> is what the caller then does to the slot.
    \<open>jp_place\<close> is the address of a pointer within a branch.
  \<^item> \<open>JudyCascade.c\<close>, \<open>JudyCreateBranch.c\<close>, \<open>JudyInsertBranch.c\<close>: theory \<open>JudyCascade\<close>.  The proofs about insertion are
    in \<open>JudyBlocks\<close> (arrays and bitmaps of branches), \<open>JudyGrow\<close> (conversions of branches), \<open>JudySplay\<close> and
    \<open>JudySplit\<close> (cascades), \<open>JudyInsNode\<close>, \<open>JudyInsKinds\<close>, \<open>JudyInsBranch\<close> and \<open>JudyInsOutlier\<close> (the turns of the walk),
    \<open>JudyInsWalk\<close> (the walk) and \<open>JudyInsert\<close> (the entry point).
  \<^item> \<open>src/judyarr.cxx\<close> over \<open>Judy.h\<close>: theory \<open>SparseArray\<close>.
  \<^item> \<open>src/hashtab.h\<close>, \<open>src/hashtab.cxx\<close>: theory \<open>HashTable\<close>.
  \<^item> \<open>src/ttree.h\<close>, \<open>src/ttree.cxx\<close>: theory \<open>TTree\<close>.  A page is a node of \<open>avl\<close> whose key is the list of its
    objects; the relation and the virtual methods of the search context are arguments.
  \<^item> \<open>src/rtree.h\<close>, \<open>src/rtree.cxx\<close>: theories \<open>RTree\<close> (rectangles, pages, the tree and all operations), \<open>RTreeSplit\<close>
    (the split of a page) and \<open>RTreePages\<close> (the other proofs and the properties).  A branch is a rectangle with a
    page or an object; the chain of underfull pages, threaded through their last slot in the code, is a list.
    The operators \<open><=\<close> and \<open>+\<close> of rectangles make them a semilattice (an instance of \<open>semilattice_sup\<close>).
  \<^item> \<open>ObjectBag\<close> states what clients rely on in a container of objects as the locales \<open>object_bag\<close> and
    \<open>removing_bag\<close>; \<open>TTree\<close> and \<open>RTreePages\<close> interpret them on the two trees, and the properties about whole
    sequences of insertions and removals rest on the interpretations.
  \<^item> \<open>StorageHeap\<close> states the interface of the storage to a client as the locale \<open>object_store\<close> and interprets it on the
    model of the storage, as \<open>store\<close>; the property about sequences of allocations and releases rests on it.
  \<^item> \<open>IndexMap\<close> states the interface between JudyL and its clients as locales: \<open>index_map\<close> (lookup),
    \<open>ordered_index_map\<close> (the four navigation functions) and \<open>index_store\<close> (insertion).  \<open>JudyOrder\<close> interprets the
    first two on the model of JudyL, as \<open>judyL\<close>, \<open>JudyInsert\<close> the third, as \<open>judy\<close>; \<open>SparseArray\<close>, the traversal
    property and the property of arrays built by insertions rest on the interpretations.

  \<^bold>\<open>What the lemmas show.\<close>

  \<^item> Storage: the objects of a storage are a finite map from headers to class and size; \<open>allocate\<close> adds one entry at
    a free place, or ends the program because nothing free serves the request and the file would outgrow its
    mapping, \<open>free\<close> removes one, \<open>get_header\<close> finds the entry of every address inside an object.  After any sequence of
    such calls on a new storage the client's pointers are exactly the objects, which never overlap.
  \<^item> Garbage collector: on a heap whose references are null or point into objects it returns and keeps exactly
    the objects that can be reached from the roots; an object with an empty array of references makes it run
    through the memory behind the array.
  \<^item> AVL tree: insertion, search and removal keep order, balance and the ring of keys in step and change exactly
    one key; any sequence of them from the new tree leaves the keys of a sorted list under the same sequence, at
    logarithmic height.
  \<^item> Words, bits, bytes: the shift-and-mask code computes what its names say; copying an index to memory and
    back is the identity on its least bytes; operations on packed leaves refine list insertion and deletion.
  \<^item> Searches: on every sorted leaf they end, stay in the leaf, and return the offset or the complement of the
    insertion point.
  \<^item> JudyL: on every well-formed array and for every index word, \<open>JudyLGet\<close> is the lookup in the pairs,
    \<open>JudyLNext\<close>, \<open>JudyLPrev\<close>, \<open>JudyLFirst\<close> and \<open>JudyLLast\<close> find the neighbour in the ascending list of pairs; none of
    them reads outside an array, overflows its history or reports corruption there.  \<open>JudyLCount\<close> counts the pairs between
    two indexes and \<open>JudyLByCount\<close> inverts it.
  \<^item> JudyL insertion: every conversion of a branch and every cascade of a leaf keeps the pairs and the
    well-formedness of the subtree; a turn of the walk stores the pair, or changes the form of the subtree and
    goes on; \<open>JudyLIns\<close> on a well-formed array fails no assertion, returns the slot of the index, and leaves a
    well-formed array that differs at that index only.
  \<^item> Sparse array: the operations agree with their description for indexes that are not negative; \<open>set\<close>
    is an update; negative indexes come last, against the description.
  \<^item> T-tree: insertion with the re-insertion of displaced objects ends and keeps balance, order and the bounds
    of the pages; removal takes out exactly the object; a search selects the objects of a key range in order.
  \<^item> R-tree: insertion and removal keep the pages at equal depth, filled to the half and tightly covered, and
    change one entry, for coordinates up to \<open>2 ^ 14\<close>; searches find exactly the overlapping objects; a split
    loses no branch.  Two failures of the code are proved: the assertion in \<open>split_page\<close> for larger
    coordinates, and \<open>remove\<close> after \<open>purge\<close>.
  \<^item> Hash table: a refinement of a stack of objects per name.

  \<^bold>\<open>Bounds and fuel.\<close>  Words are kept at the width of an LP64 build (\<open>JU_64BIT\<close>).  The searches, the digit loop and the
  insertion into a T-tree are partial functions into options and shown to be defined on every well-formed
  leaf, bitmap and tree; all other
  loops are total functions.  The measure of the state machine of \<open>JudyPrevNext\<close> is the kind of state (SM1Get
  goes only down or to the other two, SM2Backtrack shortens the history or goes to SM3Findlimit, which only
  goes down) with the size of the pointer or the length of the history.  The measure of the insertion walk is
  \<open>jp_weight\<close>, in which a leaf weighs more than the branch it cascades into and a branch more than its next form.  \<open>traverse\<close>, the loop of a client,
  takes fuel; one more than the number of pairs is shown to be enough.  The storage is that of the default build, with pages
  of 512 bytes; its mapping has at most \<open>2 ^ 32\<close> bytes, so that the 32-bit field \<open>size\<close> of a free run of pages holds
  every joined run.  \<open>alloc_page\<close> calls itself once at most, for the page map.  The loop of the collector over its stack
  takes fuel, one turn for a segment: the size of the file and four more are shown to be enough.  The property of the
  collector is about a call without a shift of the references; the shift itself is in the definitions.

  \<^bold>\<open>Not modelled.\<close>  In the containers and JudyL a pointer is what it points to, freeing has no effect, an
  allocation does not fail.  Of Judy: deletion, the debugging check \<open>JudyCheckPop\<close>, \<open>JudyLInsArray\<close>, the searches for empty slots, the Judy1
  instance, JudySL and JudyHS.  Of POST++: opening a storage with its class dictionary, the
  conversion of the references of all objects when the mapping address changes, the file layer with its shadow pages and
  transaction log, arrays and text objects.  GiST, the demos, tests and tools are outside the
  development.
\<close>

end
